(* ===== verification/Prelude.thy ===== *)
theory Prelude
  imports Main
begin

text \<open>
  What every component of the development shares: the exceptions the Python code raises as
  a datatype, a result type with its two sequencing combinators, Python's list indexing,
  and the generic lemmas about them that the component proofs use.  A Python \<open>int\<close> is an
  \<open>int\<close>; a length, a list position or a loop counter that cannot be negative is a \<open>nat\<close>.
\<close>

section \<open>Errors and results\<close>

datatype py_error =
    ValueError
  | IndexError
  | KeyError
  | TypeError
  | RuntimeError
  | NotImplementedError
  | ZeroDivisionError
  | StopIteration
  | AssertionError
  | AttributeError

type_synonym 'a res = "py_error + 'a"

text \<open>\<open>rbind\<close> runs the rest of the code unless an exception is on its way.\<close>

fun rbind :: "'a res \<Rightarrow> ('a \<Rightarrow> 'b res) \<Rightarrow> 'b res" where
  "rbind (Inl e) f = Inl e"
| "rbind (Inr x) f = f x"

text \<open>A comprehension \<open>[f(x) for x in xs]\<close> whose element expression may raise.\<close>

fun rmap :: "('a \<Rightarrow> 'b res) \<Rightarrow> 'a list \<Rightarrow> 'b list res" where
  "rmap f [] = Inr []"
| "rmap f (x # xs) = rbind (f x) (\<lambda>y. rbind (rmap f xs) (\<lambda>ys. Inr (y # ys)))"

text \<open>A \<open>for\<close> loop over a list whose body updates a state and may raise.\<close>

fun rfold :: "('a \<Rightarrow> 's \<Rightarrow> 's res) \<Rightarrow> 'a list \<Rightarrow> 's \<Rightarrow> 's res" where
  "rfold f [] s = Inr s"
| "rfold f (x # xs) s = rbind (f x s) (rfold f xs)"

definition is_ok :: "'a res \<Rightarrow> bool" where
  "is_ok r = (case r of Inl _ \<Rightarrow> False | Inr _ \<Rightarrow> True)"

lemma is_ok_simps [simp]: "is_ok (Inr x)" "\<not> is_ok (Inl e)"
  by (simp_all add: is_ok_def)

lemma rbind_Inr_iff [simp]: "rbind r f = Inr y \<longleftrightarrow> (\<exists>x. r = Inr x \<and> f x = Inr y)"
  by (cases r) auto

lemma rbind_Inl_iff: "rbind r f = Inl e \<longleftrightarrow> r = Inl e \<or> (\<exists>x. r = Inr x \<and> f x = Inl e)"
  by (cases r) auto

lemma rbind_assoc: "rbind (rbind r f) g = rbind r (\<lambda>x. rbind (f x) g)"
  by (cases r) auto

lemma rbind_cong [fundef_cong]:
  "r = r' \<Longrightarrow> (\<And>x. r' = Inr x \<Longrightarrow> f x = g x) \<Longrightarrow> rbind r f = rbind r' g"
  by (cases r') auto

lemma rmap_cong [fundef_cong]:
  "xs = ys \<Longrightarrow> (\<And>x. x \<in> set ys \<Longrightarrow> f x = g x) \<Longrightarrow> rmap f xs = rmap g ys"
  by (induction ys arbitrary: xs) auto

lemma rfold_cong [fundef_cong]:
  "xs = ys \<Longrightarrow> s = t \<Longrightarrow> (\<And>x u. x \<in> set ys \<Longrightarrow> f x u = g x u) \<Longrightarrow> rfold f xs s = rfold g ys t"
  by (induction ys arbitrary: xs s t) (auto intro!: rbind_cong)

lemma rmap_Inr_iff: "rmap f xs = Inr ys \<longleftrightarrow> list_all2 (\<lambda>x y. f x = Inr y) xs ys"
  by (induction xs arbitrary: ys) (auto simp: list_all2_Cons1)

lemma rmap_length: "rmap f xs = Inr ys \<Longrightarrow> length ys = length xs"
  by (simp add: rmap_Inr_iff list_all2_lengthD)

lemma rmap_nth: "rmap f xs = Inr ys \<Longrightarrow> i < length xs \<Longrightarrow> f (xs ! i) = Inr (ys ! i)"
  by (simp add: rmap_Inr_iff list_all2_conv_all_nth)

lemma rmap_total: "(\<And>x. x \<in> set xs \<Longrightarrow> f x = Inr (g x)) \<Longrightarrow> rmap f xs = Inr (map g xs)"
  by (induction xs) auto

lemma rbind_rfold_Nil [simp]: "rbind r (rfold f []) = r"
  by (cases r) auto

lemma rfold_append: "rfold f (xs @ ys) s = rbind (rfold f xs s) (rfold f ys)"
  by (induction xs arbitrary: s) (auto simp: rbind_assoc intro!: rbind_cong)

lemma rfold_total:
  "(\<And>x u. x \<in> set xs \<Longrightarrow> f x u = Inr (g x u)) \<Longrightarrow> rfold f xs s = Inr (fold g xs s)"
  by (induction xs arbitrary: s) auto

lemma rfold_invariant:
  assumes "rfold f xs s = Inr t" and "I s"
    and "\<And>x u v. x \<in> set xs \<Longrightarrow> I u \<Longrightarrow> f x u = Inr v \<Longrightarrow> I v"
  shows "I t"
  using assms
proof (induction xs arbitrary: s)
  case Nil
  then show ?case by simp
next
  case (Cons x xs)
  from Cons.prems(1) obtain v where v: "f x s = Inr v" "rfold f xs v = Inr t" by auto
  have "I v" using Cons.prems(2) v(1) by (rule Cons.prems(3) [of x, rotated]) simp
  then show ?case using v(2) Cons.prems(3) by (intro Cons.IH [of v]) auto
qed

text \<open>A loop over \<open>enumerate(xs)\<close> that keeps an invariant depending on the position succeeds.\<close>

lemma rfold_enumerate:
  assumes "\<And>j s. j < length xs \<Longrightarrow> I (k + j) s \<Longrightarrow> \<exists>s'. f (k + j, xs ! j) s = Inr s' \<and> I (Suc (k + j)) s'"
    and "I k s"
  shows "\<exists>s'. rfold f (enumerate k xs) s = Inr s' \<and> I (k + length xs) s'"
  using assms
proof (induction xs arbitrary: k s)
  case Nil
  then show ?case by simp
next
  case (Cons x xs)
  obtain s1 where s1: "f (k, x) s = Inr s1" "I (Suc k) s1"
    using Cons.prems(1) [of 0 s] Cons.prems(2) by auto
  have "\<exists>s'. f (Suc k + j, xs ! j) u = Inr s' \<and> I (Suc (Suc k + j)) s'"
    if "j < length xs" "I (Suc k + j) u" for j u
    using Cons.prems(1) [of "Suc j" u] that by simp
  from Cons.IH [OF this s1(2)] show ?case using s1(1) by simp
qed

section \<open>Python list indexing\<close>

text \<open>\<open>xs[i]\<close>: a negative index counts from the end, an index out of range raises.\<close>

definition py_slot :: "nat \<Rightarrow> int \<Rightarrow> nat res" where
  "py_slot len i =
     (if 0 \<le> i \<and> i < int len then Inr (nat i)
      else if - int len \<le> i \<and> i < 0 then Inr (nat (int len + i))
      else Inl IndexError)"

definition py_get :: "'a list \<Rightarrow> int \<Rightarrow> 'a res" where
  "py_get xs i = rbind (py_slot (length xs) i) (\<lambda>k. Inr (xs ! k))"

lemma py_get_nat [simp]: "i < length xs \<Longrightarrow> py_get xs (int i) = Inr (xs ! i)"
  by (simp add: py_get_def py_slot_def)

lemma py_get_nonneg: "0 \<le> i \<Longrightarrow> i < int (length xs) \<Longrightarrow> py_get xs i = Inr (xs ! nat i)"
  by (simp add: py_get_def py_slot_def)

lemma py_get_Inr_mem: "py_get xs i = Inr x \<Longrightarrow> x \<in> set xs"
  by (auto simp: py_get_def py_slot_def split: if_splits)

text \<open>\<open>xs[i] = v\<close>, with the same reading of the index.\<close>

definition py_set :: "'a list \<Rightarrow> int \<Rightarrow> 'a \<Rightarrow> 'a list res" where
  "py_set xs i v = rbind (py_slot (length xs) i) (\<lambda>k. Inr (xs[k := v]))"

lemma py_set_nat [simp]: "i < length xs \<Longrightarrow> py_set xs (int i) v = Inr (xs[i := v])"
  by (simp add: py_set_def py_slot_def)

text \<open>\<open>xs.index(v)\<close>: the first position that holds \<open>v\<close>.\<close>

fun py_index :: "'a list \<Rightarrow> 'a \<Rightarrow> nat res" where
  "py_index [] v = Inl ValueError"
| "py_index (x # xs) v = (if x = v then Inr 0 else rbind (py_index xs v) (\<lambda>i. Inr (Suc i)))"

lemma py_index_Inr: "py_index xs v = Inr i \<Longrightarrow> i < length xs \<and> xs ! i = v"
  by (induction xs arbitrary: i) (auto split: if_splits)

lemma py_index_mem: "v \<in> set xs \<Longrightarrow> \<exists>i. py_index xs v = Inr i"
  by (induction xs) auto

lemma py_index_nth: "distinct xs \<Longrightarrow> i < length xs \<Longrightarrow> py_index xs (xs ! i) = Inr i"
  by (induction xs arbitrary: i) (auto simp: less_Suc_eq_0_disj)

lemma py_index_not_mem: "v \<notin> set xs \<Longrightarrow> py_index xs v = Inl ValueError"
  by (induction xs) auto

section \<open>Products of sizes\<close>

lemma int_div_less:
  assumes "(0::int) < d" and "r < p * d"
  shows "r div d < p"
proof (rule ccontr)
  assume "\<not> r div d < p"
  then have "p * d \<le> r div d * d" using assms(1) by (simp add: mult_right_mono)
  moreover have "r div d * d \<le> r"
    using div_mult_mod_eq [of r d] pos_mod_sign [OF assms(1), of r] by linarith
  ultimately show False using assms(2) by simp
qed

lemma prod_list_pos_int: "\<forall>x \<in> set xs. (0::int) < x \<Longrightarrow> 0 < prod_list xs"
  by (induction xs) auto

lemma prod_list_pos_nat: "\<forall>x \<in> set xs. (0::nat) < x \<Longrightarrow> 0 < prod_list xs"
  by (induction xs) auto

lemma prod_list_split_nth:
  "i < length (xs :: 'a :: comm_monoid_mult list) \<Longrightarrow>
     prod_list xs = prod_list (take i xs) * xs ! i * prod_list (drop (Suc i) xs)"
  by (metis (no_types, lifting) append_Cons append_take_drop_id Cons_nth_drop_Suc mult.assoc prod_list.Cons prod_list.append)

section \<open>Decimal strings\<close>

definition digit :: "nat \<Rightarrow> char" where
  "digit d = char_of (48 + d)"

fun nat_str :: "nat \<Rightarrow> string" where
  "nat_str n = (if n < 10 then [digit n] else nat_str (n div 10) @ [digit (n mod 10)])"

declare nat_str.simps [simp del]

definition is_digit :: "char \<Rightarrow> bool" where
  "is_digit c \<longleftrightarrow> 48 \<le> (of_char c :: nat) \<and> (of_char c :: nat) \<le> 57"

definition int_str :: "int \<Rightarrow> string" where
  "int_str i = (if i < 0 then CHR ''-'' # nat_str (nat (- i)) else nat_str (nat i))"

lemma digit_simps: "d < 10 \<Longrightarrow> of_char (digit d) = 48 + d"
  by (simp add: digit_def)

lemma is_digit_digit: "d < 10 \<Longrightarrow> is_digit (digit d)"
  by (simp add: is_digit_def digit_simps)

lemma nat_str_digits: "\<forall>c \<in> set (nat_str n). is_digit c"
proof (induction n rule: nat_str.induct)
  case (1 n)
  then show ?case by (subst nat_str.simps) (auto simp: is_digit_digit)
qed

lemma nat_str_nonempty [simp]: "nat_str n \<noteq> []"
  by (subst nat_str.simps) simp

definition digits_value :: "string \<Rightarrow> nat" where
  "digits_value = foldl (\<lambda>v c. 10 * v + (of_char c - 48)) 0"

lemma value_nat_str [simp]: "digits_value (nat_str n) = n"
proof (induction n rule: nat_str.induct)
  case (1 n)
  then show ?case by (subst nat_str.simps) (auto simp: digits_value_def digit_simps)
qed

lemma nat_str_inj [simp]: "nat_str m = nat_str n \<longleftrightarrow> m = n"
  by (metis value_nat_str)

lemma not_digit [simp]: "\<not> is_digit (CHR ''('')" "\<not> is_digit (CHR '')'')" "\<not> is_digit (CHR ''-'')"
  "\<not> is_digit (CHR ''_'')" "\<not> is_digit (CHR ''t'')" "\<not> is_digit (CHR ''N'')"
  by (simp_all add: is_digit_def of_char_def)

lemma int_str_chars: "c \<in> set (int_str i) \<Longrightarrow> is_digit c \<or> c = CHR ''-''"
  using nat_str_digits by (auto simp: int_str_def split: if_splits)

lemma int_str_inj [simp]: "int_str i = int_str j \<longleftrightarrow> i = j"
proof -
  have "nat_str n \<noteq> CHR ''-'' # xs" for n xs using nat_str_digits [of n] by auto
  then show ?thesis by (auto simp: int_str_def split: if_splits) (metis not_digit(3))+
qed

end
