(* ===== verification/ShardRange.thy ===== *)
theory ShardRange
  imports Prelude
begin

text \<open>
  Which slice of a tensor a rank owns: the chunk arithmetic of
  \<open>hyper_parallel/core/dtensor/layout.py\<close> (\<open>infer_balanced_chunk_range\<close> to
  \<open>infer_slice_area_by_rank\<close>).  The interface \<open>chunking\<close> states what the slice computation
  needs of a chunk function, namely boundaries that start at 0, end at the size and never
  decrease; both chunk functions of the code are instances, and the tiling theorems of one
  tensor dimension and of a whole tensor rest on it.
\<close>

section \<open>Tensor maps\<close>

text \<open>
  An entry of a tensor map: \<open>-1\<close> for a dimension that is not sharded, the reversed index of
  the mesh dimension that shards it, or a tuple of such indices.
\<close>

datatype tm_entry = TMInt int | TMTuple "int list"

fun entry_dims :: "tm_entry \<Rightarrow> int list" where
  "entry_dims (TMInt m) = [m]"
| "entry_dims (TMTuple ms) = ms"

section \<open>Chunk ranges\<close>

definition infer_balanced_chunk_range :: "int \<Rightarrow> int \<Rightarrow> int \<Rightarrow> (int \<times> int) res" where
  "infer_balanced_chunk_range tensor_size shard_count shard_rank =
     (if shard_count = 0 then Inl ZeroDivisionError
      else let shard_size = tensor_size div shard_count;
               remainder = tensor_size mod shard_count;
               chunk_start = shard_rank * shard_size + min shard_rank remainder;
               chunk_end = chunk_start + shard_size + (if shard_rank < remainder then 1 else 0)
           in Inr (chunk_start, chunk_end))"

definition infer_ceil_chunk_range :: "int \<Rightarrow> int \<Rightarrow> int \<Rightarrow> (int \<times> int) res" where
  "infer_ceil_chunk_range tensor_size shard_count shard_rank =
     (if shard_count = 0 then Inl ZeroDivisionError
      else let chunk_size = (tensor_size + shard_count - 1) div shard_count;
               chunk_start = min (shard_rank * chunk_size) tensor_size;
               chunk_end = min (chunk_start + chunk_size) tensor_size
           in Inr (chunk_start, chunk_end))"

text \<open>The choice the slice computation makes for one mesh dimension.\<close>

definition infer_chunk_range :: "bool \<Rightarrow> int \<Rightarrow> int \<Rightarrow> int \<Rightarrow> (int \<times> int) res" where
  "infer_chunk_range uneven =
     (if uneven then infer_ceil_chunk_range else infer_balanced_chunk_range)"

section \<open>Mesh coordinates and slices\<close>

fun coordinate_loop :: "int list \<Rightarrow> int \<Rightarrow> int list \<Rightarrow> int list res" where
  "coordinate_loop [] remaining_rank coordinate = Inr coordinate"
| "coordinate_loop (d # ds) remaining_rank coordinate =
     (if d = 0 then Inl ZeroDivisionError
      else coordinate_loop ds (remaining_rank div d) (remaining_rank mod d # coordinate))"

definition calculate_mesh_coordinate_for_rank :: "int list \<Rightarrow> int \<Rightarrow> int list res" where
  "calculate_mesh_coordinate_for_rank mesh_shape rank_id =
     coordinate_loop (rev mesh_shape) rank_id []"

definition slice_step ::
  "int list \<Rightarrow> int list \<Rightarrow> int set \<Rightarrow> int \<Rightarrow> int \<times> int \<Rightarrow> (int \<times> int) res" where
  "slice_step mesh_shape mesh_coordinate uneven_shard_mesh_dims mapped_mesh_dim slice =
     (if mapped_mesh_dim = -1 then Inr slice
      else let mesh_dim = int (length mesh_shape) - mapped_mesh_dim - 1
           in rbind (py_get mesh_shape mesh_dim) (\<lambda>count.
              rbind (py_get mesh_coordinate mesh_dim) (\<lambda>rank.
              rbind (infer_chunk_range (mesh_dim \<in> uneven_shard_mesh_dims)
                       (snd slice - fst slice) count rank) (\<lambda>chunk.
              let slice_start = fst slice + fst chunk
              in Inr (slice_start, slice_start + snd chunk - fst chunk)))))"

definition infer_tensor_dimension_slice ::
  "int \<Rightarrow> tm_entry \<Rightarrow> int list \<Rightarrow> int list \<Rightarrow> int set \<Rightarrow> (int \<times> int) res" where
  "infer_tensor_dimension_slice global_size tensor_mapping mesh_shape mesh_coordinate uneven =
     rfold (slice_step mesh_shape mesh_coordinate uneven) (entry_dims tensor_mapping)
       (0, global_size)"

definition infer_slice_area_by_rank ::
  "int list \<Rightarrow> tm_entry list \<Rightarrow> int \<Rightarrow> int list \<Rightarrow> int set \<Rightarrow> (int \<times> int) list res" where
  "infer_slice_area_by_rank mesh_shape tensor_map rank_id full_shape uneven =
     rbind (calculate_mesh_coordinate_for_rank mesh_shape rank_id) (\<lambda>mesh_coordinate.
       rmap (\<lambda>(tensor_dim, global_size).
               rbind (py_get tensor_map (int tensor_dim)) (\<lambda>mapping.
                 infer_tensor_dimension_slice global_size mapping mesh_shape mesh_coordinate uneven))
         (enumerate 0 full_shape))"

text \<open>\<open>_infer_slice_shape_by_layout\<close>: the local shape, from the position of the rank in the mesh.\<close>

definition infer_slice_shape_by_layout ::
  "int list \<Rightarrow> tm_entry list \<Rightarrow> int set \<Rightarrow> int list \<Rightarrow> int \<Rightarrow> int list \<Rightarrow> int list res" where
  "infer_slice_shape_by_layout mesh_shape tensor_map uneven rank_list rank global_shape =
     rbind (py_index rank_list rank) (\<lambda>inner_rank_id.
     rbind (infer_slice_area_by_rank mesh_shape tensor_map (int inner_rank_id) global_shape uneven)
       (\<lambda>slice_area. Inr (map (\<lambda>(start, stop). stop - start) slice_area)))"

section \<open>The interface of a chunk function\<close>

lemma boundary_search:
  fixes b :: "int \<Rightarrow> int"
  assumes "b 0 \<le> p" and "p < b (int k)"
  shows "\<exists>r. 0 \<le> r \<and> r < int k \<and> b r \<le> p \<and> p < b (r + 1)"
  using assms(2)
proof (induction k)
  case 0
  with assms(1) show ?case by simp
next
  case (Suc k)
  show ?case
  proof (cases "p < b (int k)")
    case True
    then obtain r where "0 \<le> r" "r < int k" "b r \<le> p" "p < b (r + 1)" using Suc.IH by blast
    then show ?thesis by (intro exI [of _ r]) auto
  next
    case False
    with Suc.prems show ?thesis by (intro exI [of _ "int k"]) (auto simp: add.commute)
  qed
qed

locale chunking =
  fixes chunk :: "int \<Rightarrow> int \<Rightarrow> int \<Rightarrow> (int \<times> int) res"
    and bound :: "int \<Rightarrow> int \<Rightarrow> int \<Rightarrow> int"
  assumes chunk_bound: "0 \<le> n \<Longrightarrow> 0 < c \<Longrightarrow> 0 \<le> r \<Longrightarrow> chunk n c r = Inr (bound n c r, bound n c (r + 1))"
    and bound_first: "0 \<le> n \<Longrightarrow> 0 < c \<Longrightarrow> bound n c 0 = 0"
    and bound_last: "0 \<le> n \<Longrightarrow> 0 < c \<Longrightarrow> bound n c c = n"
    and bound_mono: "0 \<le> n \<Longrightarrow> 0 < c \<Longrightarrow> 0 \<le> r \<Longrightarrow> r \<le> r' \<Longrightarrow> bound n c r \<le> bound n c r'"
begin

lemma chunk_within:
  assumes "0 \<le> n" "0 \<le> r" "r < c"
  shows "\<exists>s e. chunk n c r = Inr (s, e) \<and> 0 \<le> s \<and> s \<le> e \<and> e \<le> n"
proof -
  have c: "0 < c" using assms by simp
  have "0 \<le> bound n c r" using bound_mono [of n c 0 r] bound_first c assms by simp
  moreover have "bound n c (r + 1) \<le> n"
    using bound_mono [of n c "r + 1" c] bound_last c assms by simp
  moreover have "bound n c r \<le> bound n c (r + 1)" using bound_mono c assms by simp
  ultimately show ?thesis using chunk_bound c assms by auto
qed

lemma chunk_cover:
  assumes "0 \<le> p" "p < n" "0 < c"
  shows "\<exists>r s e. 0 \<le> r \<and> r < c \<and> chunk n c r = Inr (s, e) \<and> s \<le> p \<and> p < e"
proof -
  have n: "0 \<le> n" using assms by simp
  have "bound n c 0 \<le> p" "p < bound n c (int (nat c))"
    using bound_first bound_last n assms by auto
  from boundary_search [OF this] obtain r where
    "0 \<le> r" "r < c" "bound n c r \<le> p" "p < bound n c (r + 1)" using assms by auto
  then show ?thesis using chunk_bound [OF n \<open>0 < c\<close>] by blast
qed

lemma chunk_disjoint:
  assumes "0 \<le> n" "0 < c" "0 \<le> r" "0 \<le> r'"
    and "chunk n c r = Inr (s, e)" "s \<le> p" "p < e"
    and "chunk n c r' = Inr (s', e')" "s' \<le> p" "p < e'"
  shows "r = r'"
proof (rule ccontr)
  assume "r \<noteq> r'"
  then consider "r + 1 \<le> r'" | "r' + 1 \<le> r" by linarith
  then show False
    using bound_mono [of n c "r + 1" r'] bound_mono [of n c "r' + 1" r] assms chunk_bound
    by cases auto
qed

end

definition balanced_bound :: "int \<Rightarrow> int \<Rightarrow> int \<Rightarrow> int" where
  "balanced_bound n c r = r * (n div c) + min r (n mod c)"

definition ceil_bound :: "int \<Rightarrow> int \<Rightarrow> int \<Rightarrow> int" where
  "ceil_bound n c r = min (r * ((n + c - 1) div c)) n"

interpretation balanced: chunking infer_balanced_chunk_range balanced_bound
proof unfold_locales
  fix n c r r' :: int
  assume n: "0 \<le> n" and c: "0 < c"
  have sz: "0 \<le> n div c" using n c by (simp add: pos_imp_zdiv_nonneg_iff)
  show "infer_balanced_chunk_range n c r = Inr (balanced_bound n c r, balanced_bound n c (r + 1))"
    using c by (auto simp: infer_balanced_chunk_range_def balanced_bound_def Let_def algebra_simps)
  show "balanced_bound n c 0 = 0" using c by (simp add: balanced_bound_def)
  have "n mod c < c" using c by simp
  moreover have "c * (n div c) + n mod c = n" by simp
  ultimately show "balanced_bound n c c = n"
    by (simp add: balanced_bound_def min_def mult.commute)
  show "balanced_bound n c r \<le> balanced_bound n c r'" if "0 \<le> r" "r \<le> r'"
    unfolding balanced_bound_def
    using that sz by (intro add_mono mult_right_mono) auto
qed

interpretation ceil: chunking infer_ceil_chunk_range ceil_bound
proof unfold_locales
  fix n c r r' :: int
  assume n: "0 \<le> n" and c: "0 < c"
  have sz: "0 \<le> (n + c - 1) div c" using n c by (simp add: pos_imp_zdiv_nonneg_iff)
  show "infer_ceil_chunk_range n c r = Inr (ceil_bound n c r, ceil_bound n c (r + 1))"
    using c sz by (auto simp: infer_ceil_chunk_range_def ceil_bound_def Let_def algebra_simps)
  show "ceil_bound n c 0 = 0" using n by (simp add: ceil_bound_def)
  have "n \<le> c * ((n + c - 1) div c)"
    using mult_div_mod_eq [of c "n + c - 1"] pos_mod_bound [OF c, of "n + c - 1"] by linarith
  then show "ceil_bound n c c = n" by (simp add: ceil_bound_def)
  show "ceil_bound n c r \<le> ceil_bound n c r'" if "0 \<le> r" "r \<le> r'"
    unfolding ceil_bound_def
    using that sz by (intro min.mono mult_right_mono) auto
qed

definition chosen_bound :: "bool \<Rightarrow> int \<Rightarrow> int \<Rightarrow> int \<Rightarrow> int" where
  "chosen_bound uneven = (if uneven then ceil_bound else balanced_bound)"

interpretation chosen: chunking "infer_chunk_range u" "chosen_bound u" for u
  by (cases u)
    (simp_all add: infer_chunk_range_def chosen_bound_def
      ceil.chunking_axioms balanced.chunking_axioms)

section \<open>Mesh coordinates are the mixed-radix digits of a rank\<close>

definition valid_mesh :: "int list \<Rightarrow> bool" where
  "valid_mesh mesh_shape \<longleftrightarrow> (\<forall>d \<in> set mesh_shape. 0 < d)"

definition valid_coord :: "int list \<Rightarrow> int list \<Rightarrow> bool" where
  "valid_coord mesh_shape c \<longleftrightarrow> list_all2 (\<lambda>d x. 0 \<le> x \<and> x < d) mesh_shape c"

fun rank_of_coord :: "int list \<Rightarrow> int list \<Rightarrow> int" where
  "rank_of_coord (d # ds) (x # xs) = x * prod_list ds + rank_of_coord ds xs"
| "rank_of_coord _ _ = 0"

lemma rank_of_coord_snoc:
  "length ds = length xs \<Longrightarrow>
     rank_of_coord (ds @ [d]) (xs @ [x]) = rank_of_coord ds xs * d + x"
  by (induction ds xs rule: list_induct2) (simp_all add: algebra_simps)

lemma coordinate_loop_acc:
  "coordinate_loop ds r acc = rbind (coordinate_loop ds r []) (\<lambda>c. Inr (c @ acc))"
proof (induction ds arbitrary: r acc)
  case Nil
  then show ?case by simp
next
  case (Cons d ds)
  show ?case
    using Cons.IH [of "r div d" "r mod d # acc"] Cons.IH [of "r div d" "[r mod d]"]
    by (simp add: rbind_assoc)
qed

lemma coordinate_snoc:
  "d \<noteq> 0 \<Longrightarrow> calculate_mesh_coordinate_for_rank (ds @ [d]) r =
     rbind (calculate_mesh_coordinate_for_rank ds (r div d)) (\<lambda>c. Inr (c @ [r mod d]))"
  using coordinate_loop_acc [of "rev ds" "r div d" "[r mod d]"]
  by (simp add: calculate_mesh_coordinate_for_rank_def)

lemma coordinate_nil: "calculate_mesh_coordinate_for_rank [] r = Inr []"
  by (simp add: calculate_mesh_coordinate_for_rank_def)

lemma coordinate_of_rank:
  assumes "valid_mesh shape" "0 \<le> r" "r < prod_list shape"
  shows "\<exists>c. calculate_mesh_coordinate_for_rank shape r = Inr c \<and> valid_coord shape c
           \<and> rank_of_coord shape c = r"
  using assms
proof (induction shape arbitrary: r rule: rev_induct)
  case Nil
  then show ?case by (simp add: coordinate_nil valid_coord_def)
next
  case (snoc d ds)
  have d: "0 < d" using snoc.prems(1) by (simp add: valid_mesh_def)
  have "r div d < prod_list ds"
    using snoc.prems(3) d by (intro int_div_less) auto
  then obtain c where c: "calculate_mesh_coordinate_for_rank ds (r div d) = Inr c"
    "valid_coord ds c" "rank_of_coord ds c = r div d"
    using snoc.IH [of "r div d"] snoc.prems d
    by (auto simp: valid_mesh_def pos_imp_zdiv_nonneg_iff)
  have "length ds = length c" using c(2) by (simp add: valid_coord_def list_all2_lengthD)
  then show ?case using c d
    by (intro exI [of _ "c @ [r mod d]"])
      (auto simp: coordinate_snoc rank_of_coord_snoc valid_coord_def intro: list_all2_appendI)
qed

lemma rank_of_coord_bounds:
  assumes "valid_coord shape c"
  shows "0 \<le> rank_of_coord shape c \<and> rank_of_coord shape c < prod_list shape"
proof -
  have "list_all2 (\<lambda>d x. 0 \<le> x \<and> x < d) shape c" using assms by (simp add: valid_coord_def)
  then show ?thesis
  proof (induction rule: list_all2_induct)
    case Nil
    then show ?case by simp
  next
    case (Cons d ds x xs)
    then have "x * prod_list ds + prod_list ds \<le> d * prod_list ds"
      using mult_right_mono [of "x + 1" d "prod_list ds"] by (simp add: algebra_simps)
    with Cons show ?case by (auto intro: add_nonneg_nonneg)
  qed
qed

lemma coordinate_of_rank_of_coord:
  "valid_coord shape c \<Longrightarrow>
     calculate_mesh_coordinate_for_rank shape (rank_of_coord shape c) = Inr c"
proof (induction shape arbitrary: c rule: rev_induct)
  case Nil
  then show ?case by (simp add: coordinate_nil valid_coord_def)
next
  case (snoc d ds)
  then obtain xs x where c: "c = xs @ [x]" "valid_coord ds xs" "0 \<le> x" "x < d"
    by (auto simp: valid_coord_def list_all2_append1 list_all2_Cons1)
  have "length ds = length xs" using c(2) by (simp add: valid_coord_def list_all2_lengthD)
  then show ?case
    using c snoc.IH [OF c(2)]
    by (auto simp: coordinate_snoc rank_of_coord_snoc)
qed

section \<open>The slices of one tensor dimension\<close>

definition valid_entry :: "int list \<Rightarrow> tm_entry \<Rightarrow> bool" where
  "valid_entry mesh_shape e \<longleftrightarrow>
     (\<forall>m \<in> set (entry_dims e). m = -1 \<or> (0 \<le> m \<and> m < int (length mesh_shape)))"

text \<open>The mesh dimensions a list of map values names, as list positions.\<close>

definition axis_of :: "int list \<Rightarrow> int \<Rightarrow> nat" where
  "axis_of mesh_shape m = nat (int (length mesh_shape) - m - 1)"

lemma axis_of_less: "0 \<le> m \<Longrightarrow> m < int (length shape) \<Longrightarrow> axis_of shape m < length shape"
  by (simp add: axis_of_def)

lemma axis_of_inject:
  "0 \<le> m \<Longrightarrow> m < int (length shape) \<Longrightarrow> 0 \<le> m' \<Longrightarrow> m' < int (length shape) \<Longrightarrow>
     axis_of shape m = axis_of shape m' \<Longrightarrow> m = m'"
  by (simp add: axis_of_def)

lemma valid_coord_nth:
  "valid_coord shape c \<Longrightarrow> i < length shape \<Longrightarrow> i < length c \<and> 0 \<le> c ! i \<and> c ! i < shape ! i"
  by (auto simp: valid_coord_def list_all2_conv_all_nth)

lemma valid_coord_update:
  "valid_coord shape c \<Longrightarrow> i < length shape \<Longrightarrow> 0 \<le> x \<Longrightarrow> x < shape ! i \<Longrightarrow> valid_coord shape (c[i := x])"
  by (auto simp: valid_coord_def list_all2_conv_all_nth nth_list_update)

lemma slice_step_eq:
  assumes "valid_coord shape c" "0 \<le> m" "m < int (length shape)"
  shows "slice_step shape c u m (s, e) =
     rbind (infer_chunk_range (int (axis_of shape m) \<in> u) (e - s)
              (shape ! axis_of shape m) (c ! axis_of shape m))
       (\<lambda>(cs, ce). Inr (s + cs, s + ce))"
proof -
  have "int (length shape) - m - 1 = int (axis_of shape m)"
    using assms by (simp add: axis_of_def)
  moreover have "axis_of shape m < length c" "axis_of shape m < length shape"
    using assms axis_of_less valid_coord_nth by blast+
  ultimately show ?thesis using assms(2)
    by (simp add: slice_step_def Let_def case_prod_unfold)
qed

lemma slice_step_none [simp]: "slice_step shape c u (-1) sl = Inr sl"
  by (simp add: slice_step_def)

abbreviation slices ::
  "int list \<Rightarrow> int list \<Rightarrow> int set \<Rightarrow> int list \<Rightarrow> int \<times> int \<Rightarrow> (int \<times> int) res" where
  "slices shape c u ms sl \<equiv> rfold (slice_step shape c u) ms sl"

lemma slices_within:
  assumes "valid_coord shape c" "valid_entry shape (TMTuple ms)" "s \<le> e"
  shows "\<exists>s' e'. slices shape c u ms (s, e) = Inr (s', e') \<and> s \<le> s' \<and> s' \<le> e' \<and> e' \<le> e"
  using assms(2,3)
proof (induction ms arbitrary: s e)
  case Nil
  then show ?case by simp
next
  case (Cons m ms)
  have tl: "valid_entry shape (TMTuple ms)" using Cons.prems(1) by (simp add: valid_entry_def)
  show ?case
  proof (cases "m = -1")
    case True
    then show ?thesis using Cons.IH [OF tl Cons.prems(2)] by simp
  next
    case False
    then have m: "0 \<le> m" "m < int (length shape)" using Cons.prems(1) by (auto simp: valid_entry_def)
    note a = valid_coord_nth [OF assms(1) axis_of_less [OF m]]
    obtain cs ce where ch: "infer_chunk_range (int (axis_of shape m) \<in> u) (e - s)
        (shape ! axis_of shape m) (c ! axis_of shape m) = Inr (cs, ce)"
      "0 \<le> cs" "cs \<le> ce" "ce \<le> e - s"
      using chosen.chunk_within [of "e - s" "c ! axis_of shape m" "shape ! axis_of shape m"]
        a Cons.prems(2) by (meson diff_ge_0_iff_ge)
    obtain s' e' where r: "slices shape c u ms (s + cs, s + ce) = Inr (s', e')"
      "s + cs \<le> s'" "s' \<le> e'" "e' \<le> s + ce"
      using Cons.IH [OF tl, of "s + cs" "s + ce"] ch(3) by auto
    then show ?thesis using ch slice_step_eq [OF assms(1) m, of u s e] by auto
  qed
qed

text \<open>A position lies in the slices of two coordinates only if they agree on every mapped axis.\<close>

lemma slices_disjoint:
  assumes "valid_coord shape c" "valid_coord shape c'" "valid_entry shape (TMTuple ms)"
    and "slices shape c u ms (s, e) = Inr (a, b)" "a \<le> p" "p < b"
    and "slices shape c' u ms (s, e) = Inr (a', b')" "a' \<le> p" "p < b'"
    and "s \<le> e" "m \<in> set ms" "m \<noteq> -1"
  shows "c ! axis_of shape m = c' ! axis_of shape m"
  using assms(3-)
proof (induction ms arbitrary: s e)
  case Nil
  then show ?case by simp
next
  case (Cons k ms)
  have tl: "valid_entry shape (TMTuple ms)" using Cons.prems(1) by (simp add: valid_entry_def)
  show ?case
  proof (cases "k = -1")
    case True
    then show ?thesis using Cons.IH [OF tl] Cons.prems by auto
  next
    case False
    then have k: "0 \<le> k" "k < int (length shape)" using Cons.prems(1) by (auto simp: valid_entry_def)
    let ?ax = "axis_of shape k"
    let ?f = "infer_chunk_range (int ?ax \<in> u) (e - s) (shape ! ?ax)"
    note va = valid_coord_nth [OF assms(1) axis_of_less [OF k]]
      valid_coord_nth [OF assms(2) axis_of_less [OF k]]
    obtain cs ce where ch: "?f (c ! ?ax) = Inr (cs, ce)" "cs \<le> ce"
        "slices shape c u ms (s + cs, s + ce) = Inr (a, b)"
      using Cons.prems(2) chosen.chunk_within [of "e - s" "c ! ?ax" "shape ! ?ax" "int ?ax \<in> u"]
        va Cons.prems(8) slice_step_eq [OF assms(1) k, of u s e] by auto
    obtain cs' ce' where ch': "?f (c' ! ?ax) = Inr (cs', ce')" "cs' \<le> ce'"
        "slices shape c' u ms (s + cs', s + ce') = Inr (a', b')"
      using Cons.prems(5) chosen.chunk_within [of "e - s" "c' ! ?ax" "shape ! ?ax" "int ?ax \<in> u"]
        va Cons.prems(8) slice_step_eq [OF assms(2) k, of u s e] by auto
    have in1: "s + cs \<le> p" "p < s + ce"
      using slices_within [OF assms(1) tl, of "s + cs" "s + ce" u] ch Cons.prems(3,4) by auto
    have in2: "s + cs' \<le> p" "p < s + ce'"
      using slices_within [OF assms(2) tl, of "s + cs'" "s + ce'" u] ch' Cons.prems(6,7) by auto
    have eq: "c ! ?ax = c' ! ?ax"
      using chosen.chunk_disjoint [of "e - s" "shape ! ?ax" "c ! ?ax" "c' ! ?ax"
          "int ?ax \<in> u" cs ce "p - s" cs' ce'] va ch ch' in1 in2 Cons.prems(8) by auto
    show ?thesis
    proof (cases "m = k")
      case True
      then show ?thesis using eq by simp
    next
      case False
      then have "m \<in> set ms" using Cons.prems(9) by simp
      moreover have "cs' = cs" "ce' = ce" using ch(1) ch'(1) eq by auto
      ultimately show ?thesis
        using Cons.IH [OF tl, of "s + cs" "s + ce"] ch ch' Cons.prems(3,4,6,7,10) by auto
    qed
  qed
qed

lemma slices_cong:
  assumes "valid_coord shape c" "valid_coord shape c'" "valid_entry shape (TMTuple ms)"
    and "\<And>m. m \<in> set ms \<Longrightarrow> m \<noteq> -1 \<Longrightarrow> c ! axis_of shape m = c' ! axis_of shape m"
  shows "slices shape c u ms sl = slices shape c' u ms sl"
  using assms(3,4)
proof (induction ms arbitrary: sl)
  case Nil
  then show ?case by simp
next
  case (Cons k ms)
  have tl: "slices shape c u ms sl = slices shape c' u ms sl" for sl
    using Cons by (auto simp: valid_entry_def)
  show ?case
  proof (cases "k = -1")
    case True
    then show ?thesis using tl by simp
  next
    case False
    then have "0 \<le> k" "k < int (length shape)" using Cons.prems(1) by (auto simp: valid_entry_def)
    then have "slice_step shape c u k sl = slice_step shape c' u k sl"
      using slice_step_eq [OF assms(1)] slice_step_eq [OF assms(2)] Cons.prems(2) [of k] False
      by (cases sl) simp
    then show ?thesis using tl by (simp cong: rbind_cong)
  qed
qed

text \<open>Every position has an owner: the coordinate \<open>c\<close> changed on the mapped axes only.\<close>

lemma slices_cover:
  assumes "valid_mesh shape" "valid_coord shape c" "valid_entry shape (TMTuple ms)"
    and "distinct (filter (\<lambda>m. m \<noteq> -1) ms)" "s \<le> p" "p < e"
  shows "\<exists>c' a b. valid_coord shape c' \<and> slices shape c' u ms (s, e) = Inr (a, b) \<and> a \<le> p \<and> p < b
     \<and> (\<forall>i < length shape. i \<notin> axis_of shape ` {m \<in> set ms. m \<noteq> -1} \<longrightarrow> c' ! i = c ! i)"
  using assms(2-)
proof (induction ms arbitrary: s e c)
  case Nil
  then show ?case by auto
next
  case (Cons k ms)
  have tl: "valid_entry shape (TMTuple ms)" "distinct (filter (\<lambda>m. m \<noteq> -1) ms)"
    using Cons.prems by (auto simp: valid_entry_def split: if_splits)
  show ?case
  proof (cases "k = -1")
    case True
    then have "{m \<in> set (k # ms). m \<noteq> -1} = {m \<in> set ms. m \<noteq> -1}" by auto
    with True show ?thesis using Cons.IH [OF Cons.prems(1) tl Cons.prems(4,5)] by simp
  next
    case False
    then have k: "0 \<le> k" "k < int (length shape)" using Cons.prems(2) by (auto simp: valid_entry_def)
    let ?ax = "axis_of shape k"
    have ax: "?ax < length shape" using k by (rule axis_of_less)
    then have pos: "0 < shape ! ?ax" using assms(1) by (simp add: valid_mesh_def)
    obtain r cs ce where r: "0 \<le> r" "r < shape ! ?ax"
        "infer_chunk_range (int ?ax \<in> u) (e - s) (shape ! ?ax) r = Inr (cs, ce)"
        "cs \<le> p - s" "p - s < ce"
      using chosen.chunk_cover [of "p - s" "e - s" "shape ! ?ax" "int ?ax \<in> u"] pos Cons.prems(4,5)
      by auto
    have vr: "valid_coord shape (c[?ax := r])" using Cons.prems(1) ax r by (intro valid_coord_update)
    obtain c' a b where c': "valid_coord shape c'" "slices shape c' u ms (s + cs, s + ce) = Inr (a, b)"
        "a \<le> p" "p < b"
        "\<forall>i < length shape. i \<notin> axis_of shape ` {m \<in> set ms. m \<noteq> -1} \<longrightarrow> c' ! i = c[?ax := r] ! i"
      using Cons.IH [OF vr tl, of "s + cs" "s + ce"] r by auto
    have "?ax \<notin> axis_of shape ` {m \<in> set ms. m \<noteq> -1}"
    proof
      assume "?ax \<in> axis_of shape ` {m \<in> set ms. m \<noteq> -1}"
      then obtain m where m: "m \<in> set ms" "m \<noteq> -1" "axis_of shape m = ?ax" by auto
      then have "m = k" using tl(1) k by (auto simp: valid_entry_def intro: axis_of_inject)
      then show False using m(1) False Cons.prems(3) by simp
    qed
    then have "c' ! ?ax = r"
      using c'(5) ax valid_coord_nth [OF Cons.prems(1) ax] by simp
    then have "slices shape c' u (k # ms) (s, e) = Inr (a, b)"
      using c'(2) r(3) slice_step_eq [OF c'(1) k, of u s e] by simp
    moreover have "c' ! i = c ! i"
      if i: "i < length shape" "i \<notin> axis_of shape ` {m \<in> set (k # ms). m \<noteq> -1}" for i
    proof -
      have "i \<noteq> ?ax" "i \<notin> axis_of shape ` {m \<in> set ms. m \<noteq> -1}" using i(2) False by auto
      then show ?thesis using c'(5) i(1) by simp
    qed
    ultimately show ?thesis using c'(1,3,4) by blast
  qed
qed

section \<open>The slice area of a rank\<close>

text \<open>
  The tensor map of a layout: one entry per tensor dimension, every axis in range, and no mesh
  axis mapped twice (\<open>Layout.__call__\<close> raises for an alias used twice).
\<close>

definition valid_tensor_map :: "int list \<Rightarrow> tm_entry list \<Rightarrow> bool" where
  "valid_tensor_map mesh_shape tensor_map \<longleftrightarrow>
     (\<forall>e \<in> set tensor_map. valid_entry mesh_shape e) \<and>
     distinct (filter (\<lambda>m. m \<noteq> -1) (concat (map entry_dims tensor_map)))"

text \<open>The rank holds the element of the global tensor at the multi-index \<open>p\<close>.\<close>

definition holds_element ::
  "int list \<Rightarrow> tm_entry list \<Rightarrow> int set \<Rightarrow> int list \<Rightarrow> int \<Rightarrow> int list \<Rightarrow> bool" where
  "holds_element mesh_shape tensor_map uneven full_shape rank p =
     (case infer_slice_area_by_rank mesh_shape tensor_map rank full_shape uneven of
        Inl _ \<Rightarrow> False
      | Inr area \<Rightarrow> list_all2 (\<lambda>(start, stop) x. start \<le> x \<and> x < stop) area p)"

definition in_slice :: "int list \<Rightarrow> int list \<Rightarrow> int set \<Rightarrow> tm_entry \<Rightarrow> int \<Rightarrow> int \<Rightarrow> bool" where
  "in_slice shape c u e n x \<longleftrightarrow>
     (\<exists>a b. slices shape c u (entry_dims e) (0, n) = Inr (a, b) \<and> a \<le> x \<and> x < b)"

lemma valid_entry_dims: "valid_entry shape e \<longleftrightarrow> valid_entry shape (TMTuple (entry_dims e))"
  by (simp add: valid_entry_def)

lemma slice_area_total:
  assumes "calculate_mesh_coordinate_for_rank shape r = Inr c" "valid_coord shape c"
    and "\<forall>e \<in> set tm. valid_entry shape e" "length tm = length full" "\<forall>n \<in> set full. 0 \<le> n"
  shows "\<exists>area. infer_slice_area_by_rank shape tm r full u = Inr area \<and> length area = length full \<and>
     (\<forall>i < length full. slices shape c u (entry_dims (tm ! i)) (0, full ! i) = Inr (area ! i) \<and>
        0 \<le> fst (area ! i) \<and> fst (area ! i) \<le> snd (area ! i) \<and> snd (area ! i) \<le> full ! i)"
proof -
  let ?sl = "\<lambda>i. slices shape c u (entry_dims (tm ! i)) (0, full ! i)"
  have sl: "\<exists>a b. ?sl i = Inr (a, b) \<and> 0 \<le> a \<and> a \<le> b \<and> b \<le> full ! i" if "i < length full" for i
    using slices_within [OF assms(2), of "entry_dims (tm ! i)" 0 "full ! i" u] that assms(3-5)
    by (auto simp: valid_entry_dims [symmetric])
  let ?area = "map (\<lambda>i. projr (?sl i)) [0..<length full]"
  have "infer_slice_area_by_rank shape tm r full u = Inr ?area"
    using assms(1,4) sl
    by (fastforce simp: infer_slice_area_by_rank_def rmap_Inr_iff list_all2_conv_all_nth nth_enumerate_eq
        infer_tensor_dimension_slice_def)
  then show ?thesis using sl by (intro exI [of _ ?area]) fastforce
qed

lemma holds_element_iff:
  assumes "valid_mesh shape" "0 \<le> r" "r < prod_list shape"
    and "\<forall>e \<in> set tm. valid_entry shape e" "length tm = length full" "length p = length full"
    and "\<forall>n \<in> set full. 0 \<le> n" "calculate_mesh_coordinate_for_rank shape r = Inr c"
  shows "holds_element shape tm u full r p \<longleftrightarrow>
     (\<forall>i < length full. in_slice shape c u (tm ! i) (full ! i) (p ! i))"
proof -
  have "valid_coord shape c" using coordinate_of_rank [OF assms(1-3)] assms(8) by auto
  from slice_area_total [OF assms(8) this assms(4,5,7)] obtain area where
    "infer_slice_area_by_rank shape tm r full u = Inr area" "length area = length full"
    "\<forall>i < length full. slices shape c u (entry_dims (tm ! i)) (0, full ! i) = Inr (area ! i)"
    by blast
  then show ?thesis using assms(6)
    by (auto simp: holds_element_def in_slice_def list_all2_conv_all_nth case_prod_unfold)
      (metis prod.collapse)
qed

lemma tensor_cover:
  assumes "valid_mesh shape" "valid_coord shape c" "valid_tensor_map shape tm"
    and "length tm = length full" "list_all2 (\<lambda>n x. 0 \<le> x \<and> x < n) full p"
  shows "\<exists>c'. valid_coord shape c' \<and> (\<forall>i < length full. in_slice shape c' u (tm ! i) (full ! i) (p ! i))"
  using assms(3-)
proof (induction tm arbitrary: full p)
  case Nil
  then show ?case using assms(2) by auto
next
  case (Cons e tm)
  obtain n ns x xs where f: "full = n # ns" "p = x # xs" "0 \<le> x" "x < n"
      "list_all2 (\<lambda>n x. 0 \<le> x \<and> x < n) ns xs" "length tm = length ns"
    using Cons.prems(2,3) by (cases full) (auto simp: list_all2_Cons1)
  have v: "valid_tensor_map shape tm" "valid_entry shape (TMTuple (entry_dims e))"
      "distinct (filter (\<lambda>m. m \<noteq> -1) (entry_dims e))"
    using Cons.prems(1) by (auto simp: valid_tensor_map_def valid_entry_dims [symmetric])
  obtain c1 where c1: "valid_coord shape c1" "\<forall>i < length ns. in_slice shape c1 u (tm ! i) (ns ! i) (xs ! i)"
    using Cons.IH [OF v(1) f(6,5)] by blast
  obtain c2 a b where c2: "valid_coord shape c2" "slices shape c2 u (entry_dims e) (0, n) = Inr (a, b)"
      "a \<le> x" "x < b" "\<forall>i < length shape. i \<notin> axis_of shape ` {m \<in> set (entry_dims e). m \<noteq> -1} \<longrightarrow> c2 ! i = c1 ! i"
    using slices_cover [OF assms(1) c1(1) v(2,3) f(3,4)] by blast
  have keep: "in_slice shape c2 u (tm ! i) (ns ! i) (xs ! i)" if i: "i < length ns" for i
  proof -
    have mem: "tm ! i \<in> set tm" using i f(6) by simp
    have ve: "valid_entry shape (TMTuple (entry_dims (tm ! i)))"
      using v(1) mem by (auto simp: valid_tensor_map_def valid_entry_dims [symmetric])
    have same: "c2 ! axis_of shape m = c1 ! axis_of shape m" if m: "m \<in> set (entry_dims (tm ! i))" "m \<noteq> -1" for m
    proof -
      have mb: "0 \<le> m" "m < int (length shape)" using ve m by (auto simp: valid_entry_def)
      have "m \<notin> set (entry_dims e)"
        using Cons.prems(1) mem m by (auto simp: valid_tensor_map_def)
      then have "axis_of shape m \<notin> axis_of shape ` {m \<in> set (entry_dims e). m \<noteq> -1}"
        using mb v(2) by (auto simp: valid_entry_def dest: axis_of_inject [rotated 4])
      then show ?thesis using c2(5) axis_of_less [OF mb] by blast
    qed
    show ?thesis using c1(2) i slices_cong [OF c2(1) c1(1) ve same, of u "(0, ns ! i)"]
      by (simp add: in_slice_def)
  qed
  have "in_slice shape c2 u e n x" using c2(2-4) by (auto simp: in_slice_def)
  then show ?case using c2(1) keep f(1,2)
    by (intro exI [of _ c2]) (auto simp: less_Suc_eq_0_disj)
qed

text \<open>The mesh axes that shard some tensor dimension.\<close>

definition mapped_axes :: "int list \<Rightarrow> tm_entry list \<Rightarrow> nat set" where
  "mapped_axes mesh_shape tensor_map =
     axis_of mesh_shape ` {m \<in> set (concat (map entry_dims tensor_map)). m \<noteq> -1}"

lemma tensor_owners:
  assumes "valid_coord shape c" "valid_coord shape c'" "\<forall>e \<in> set tm. valid_entry shape e"
    and "length tm = length full" "\<forall>n \<in> set full. 0 \<le> n"
    and "\<forall>i < length full. in_slice shape c u (tm ! i) (full ! i) (p ! i)"
  shows "(\<forall>i < length full. in_slice shape c' u (tm ! i) (full ! i) (p ! i)) \<longleftrightarrow>
     (\<forall>a \<in> mapped_axes shape tm. c' ! a = c ! a)"
proof
  assume both: "\<forall>i < length full. in_slice shape c' u (tm ! i) (full ! i) (p ! i)"
  show "\<forall>a \<in> mapped_axes shape tm. c' ! a = c ! a"
  proof
    fix a assume "a \<in> mapped_axes shape tm"
    then obtain e m where e: "e \<in> set tm" "m \<in> set (entry_dims e)" "m \<noteq> -1" "a = axis_of shape m"
      by (auto simp: mapped_axes_def)
    then obtain i where m: "i < length tm" "m \<in> set (entry_dims (tm ! i))" "m \<noteq> -1" "a = axis_of shape m"
      by (auto simp: in_set_conv_nth)
    have "valid_entry shape (TMTuple (entry_dims (tm ! i)))"
      using assms(3) m(1) by (simp add: valid_entry_dims [symmetric])
    moreover have "0 \<le> full ! i" using assms(4,5) m(1) by simp
    ultimately show "c' ! a = c ! a"
      using both assms(4,6) m slices_disjoint [OF assms(2,1)] by (fastforce simp: in_slice_def)
  qed
next
  assume eq: "\<forall>a \<in> mapped_axes shape tm. c' ! a = c ! a"
  have "c' ! axis_of shape m = c ! axis_of shape m"
    if "i < length tm" "m \<in> set (entry_dims (tm ! i))" "m \<noteq> -1" for i m
  proof -
    have "\<exists>e \<in> set tm. m \<in> set (entry_dims e)" using that by (intro bexI [of _ "tm ! i"]) auto
    then show ?thesis using eq that(3) by (auto simp: mapped_axes_def)
  qed
  then have "slices shape c' u (entry_dims (tm ! i)) (0, full ! i) = slices shape c u (entry_dims (tm ! i)) (0, full ! i)"
    if "i < length full" for i
    using that assms(3,4)
    by (intro slices_cong [OF assms(2,1)]) (auto simp: valid_entry_dims [symmetric])
  then show "\<forall>i < length full. in_slice shape c' u (tm ! i) (full ! i) (p ! i)"
    using assms(6) by (simp add: in_slice_def)
qed

lemma valid_tensor_map_entries: "valid_tensor_map shape tm \<Longrightarrow> \<forall>e \<in> set tm. valid_entry shape e"
  by (simp add: valid_tensor_map_def)

section \<open>Properties\<close>

text \<open>
  C1.  The slices the ranks own partition the tensor up to replication.  For every element of
  the global tensor there is a mesh coordinate \<open>c\<close> such that exactly the ranks whose coordinate
  agrees with \<open>c\<close> on the mesh axes that shard the tensor hold the element: no element is lost,
  and two ranks hold the same element only as replicas of each other.  This holds for balanced
  and ceil (uneven) chunks mixed freely, and for dimensions sharded by several mesh axes.
\<close>

theorem slice_areas_partition:
  assumes "valid_mesh mesh_shape" "valid_tensor_map mesh_shape tensor_map"
    and "length tensor_map = length full_shape"
    and "list_all2 (\<lambda>n x. 0 \<le> x \<and> x < n) full_shape p"
  shows "\<exists>c. valid_coord mesh_shape c \<and>
    (\<forall>rank. 0 \<le> rank \<and> rank < prod_list mesh_shape \<longrightarrow>
       (\<exists>c'. calculate_mesh_coordinate_for_rank mesh_shape rank = Inr c' \<and>
         (holds_element mesh_shape tensor_map uneven full_shape rank p \<longleftrightarrow>
            (\<forall>a \<in> mapped_axes mesh_shape tensor_map. c' ! a = c ! a))))"
proof -
  note ve = valid_tensor_map_entries [OF assms(2)]
  have len: "length p = length full_shape" using assms(4) by (simp add: list_all2_lengthD)
  have nn: "\<forall>n \<in> set full_shape. 0 \<le> n"
    using assms(4) by (fastforce simp: list_all2_conv_all_nth in_set_conv_nth)
  have "valid_coord mesh_shape (map (\<lambda>_. 0) mesh_shape)"
    using assms(1) by (auto simp: valid_mesh_def valid_coord_def list_all2_conv_all_nth)
  from tensor_cover [OF assms(1) this assms(2-4)] obtain c where c: "valid_coord mesh_shape c"
    "\<forall>i < length full_shape. in_slice mesh_shape c uneven (tensor_map ! i) (full_shape ! i) (p ! i)"
    by blast
  have "\<exists>c'. calculate_mesh_coordinate_for_rank mesh_shape rank = Inr c' \<and>
         (holds_element mesh_shape tensor_map uneven full_shape rank p \<longleftrightarrow>
            (\<forall>a \<in> mapped_axes mesh_shape tensor_map. c' ! a = c ! a))"
    if r: "0 \<le> rank" "rank < prod_list mesh_shape" for rank
  proof -
    obtain c' where c': "calculate_mesh_coordinate_for_rank mesh_shape rank = Inr c'" "valid_coord mesh_shape c'"
      using coordinate_of_rank [OF assms(1) r] by blast
    show ?thesis
      using c' holds_element_iff [OF assms(1) r ve assms(3) len nn c'(1)]
        tensor_owners [OF c(1) c'(2) ve assms(3) nn c(2)] by blast
  qed
  with c(1) show ?thesis by blast
qed

lemma slice_areas_partition_witness:
  "\<exists>c. valid_coord [2, 2] c \<and>
    (\<forall>rank. 0 \<le> rank \<and> rank < prod_list [2, 2] \<longrightarrow>
       (\<exists>c'. calculate_mesh_coordinate_for_rank [2, 2] rank = Inr c' \<and>
         (holds_element [2, 2] [TMInt 1, TMInt (-1)] {} [5, 3] rank [2, 0] \<longleftrightarrow>
            (\<forall>a \<in> mapped_axes [2, 2] [TMInt 1, TMInt (-1)]. c' ! a = c ! a))))"
  by (rule slice_areas_partition)
    (simp_all add: valid_mesh_def valid_tensor_map_def valid_entry_def)

text \<open>
  The mesh coordinate of a rank and the rank of a coordinate are inverse to each other:
  every rank of the mesh has a coordinate within the mesh whose row-major rank it is, and no
  two coordinates share a rank.
\<close>

theorem mesh_coordinate_roundtrip:
  assumes "valid_mesh mesh_shape"
  shows "(0 \<le> r \<and> r < prod_list mesh_shape \<longrightarrow>
      (\<exists>c. calculate_mesh_coordinate_for_rank mesh_shape r = Inr c \<and> valid_coord mesh_shape c \<and>
           rank_of_coord mesh_shape c = r)) \<and>
    (valid_coord mesh_shape c \<longrightarrow>
      0 \<le> rank_of_coord mesh_shape c \<and> rank_of_coord mesh_shape c < prod_list mesh_shape \<and>
      calculate_mesh_coordinate_for_rank mesh_shape (rank_of_coord mesh_shape c) = Inr c)"
  using coordinate_of_rank [OF assms] rank_of_coord_bounds coordinate_of_rank_of_coord by blast

lemma mesh_coordinate_roundtrip_witness:
  "calculate_mesh_coordinate_for_rank [2, 3] 5 = Inr [1, 2]"
  using mesh_coordinate_roundtrip [of "[2, 3]" 5 "[1, 2]"]
  by (simp add: valid_mesh_def valid_coord_def)

text \<open>
  The two chunk functions.  Both cut \<open>[0, n)\<close> into consecutive ranges, one per rank; the
  balanced one gives every rank \<open>n div c\<close> elements and one more to the first \<open>n mod c\<close> ranks,
  the ceil one gives no rank more than \<open>ceil (n / c)\<close>.
\<close>

theorem chunk_range_sizes:
  assumes "0 \<le> n" "0 < c" "0 \<le> r" "r < c"
  shows "\<exists>s e s' e'. infer_balanced_chunk_range n c r = Inr (s, e) \<and>
      e - s = n div c + (if r < n mod c then 1 else 0) \<and>
      infer_ceil_chunk_range n c r = Inr (s', e') \<and>
      0 \<le> s \<and> e \<le> n \<and> 0 \<le> s' \<and> s' \<le> e' \<and> e' \<le> n \<and> e' - s' \<le> (n + c - 1) div c"
proof -
  obtain s e where b: "infer_balanced_chunk_range n c r = Inr (s, e)" "0 \<le> s" "e \<le> n"
    using balanced.chunk_within [OF assms(1,3,4)] by blast
  obtain s' e' where k: "infer_ceil_chunk_range n c r = Inr (s', e')" "0 \<le> s'" "s' \<le> e'" "e' \<le> n"
    using ceil.chunk_within [OF assms(1,3,4)] by blast
  have "e - s = n div c + (if r < n mod c then 1 else 0)"
    using b(1) assms(2) by (auto simp: infer_balanced_chunk_range_def Let_def)
  moreover have "e' - s' \<le> (n + c - 1) div c"
    using k(1) assms(2) by (auto simp: infer_ceil_chunk_range_def Let_def)
  ultimately show ?thesis using b k by blast
qed

lemma chunk_range_sizes_witness:
  "\<exists>s e s' e'. infer_balanced_chunk_range 7 3 1 = Inr (s, e) \<and>
      e - s = (7::int) div 3 + (if (1::int) < 7 mod 3 then 1 else 0) \<and>
      infer_ceil_chunk_range 7 3 1 = Inr (s', e') \<and>
      0 \<le> s \<and> e \<le> 7 \<and> 0 \<le> s' \<and> s' \<le> e' \<and> e' \<le> 7 \<and> e' - s' \<le> ((7::int) + 3 - 1) div 3"
  by (rule chunk_range_sizes) simp_all

end
