(* ===== verification/RedistInfer.thy ===== *)
theory RedistInfer
  imports ShardRange "HOL-Library.AList"
begin

text \<open>
  The inference of a redistribution (\<open>hyper_parallel/core/dtensor/redistribute_infer.py\<close>):
  which splits, concatenations and all-to-alls turn one tensor map into another.  The class
  \<open>RedistributionOperatorInfer\<close> is the record \<open>infer\<close>; its dictionary \<open>map_\<close> is the field \<open>pending\<close>, an
  association list in insertion order, updated in place as a Python dict is.  Every status
  the code returns is \<open>SUCCESS\<close> (\<open>insert_operator\<close> only appends), so the \<open>FAILED\<close> branches do
  not appear.  The loops carry fuel; \<open>None\<close> is a loop that has not ended.
\<close>

section \<open>Tensor maps and the device matrix\<close>

abbreviation NONE_dim :: tm_entry where
  "NONE_dim \<equiv> TMInt (-1)"

definition get_dim_by_idx :: "tm_entry list \<Rightarrow> int \<Rightarrow> tm_entry res" where
  "get_dim_by_idx dims index = (if index < int (length dims) then py_get dims index else Inr NONE_dim)"

definition get_index_by_value :: "tm_entry list \<Rightarrow> tm_entry \<Rightarrow> int" where
  "get_index_by_value dims value = (case py_index dims value of Inr i \<Rightarrow> int i | Inl _ \<Rightarrow> -1)"

text \<open>
  \<open>v[len(v) - len(value):] == value\<close> for a tuple \<open>v\<close>, and \<open>v[-1] == value\<close> for an integer value
  (a tensor map holds no empty tuple, on which the code would raise).
\<close>

fun has_suffix :: "tm_entry \<Rightarrow> tm_entry \<Rightarrow> bool" where
  "has_suffix (TMInt _) value = False"
| "has_suffix (TMTuple ms) (TMTuple vs) =
     (length vs \<le> length ms \<and> drop (length ms - length vs) ms = vs)"
| "has_suffix (TMTuple ms) (TMInt v) = (ms \<noteq> [] \<and> last ms = v)"

fun contain_value_from :: "int \<Rightarrow> tm_entry list \<Rightarrow> tm_entry \<Rightarrow> int" where
  "contain_value_from i [] value = -1"
| "contain_value_from i (dim # dims) value =
     (if has_suffix dim value then i else contain_value_from (i + 1) dims value)"

definition get_index_contain_value :: "tm_entry list \<Rightarrow> tm_entry \<Rightarrow> int" where
  "get_index_contain_value dims value = contain_value_from 0 dims value"

text \<open>\<open>DevMat.get_dim_by_reverse_idx\<close>; the cache of combined sizes changes no result.\<close>

definition get_dim_by_reverse_idx :: "int list \<Rightarrow> tm_entry \<Rightarrow> int res" where
  "get_dim_by_reverse_idx dims idx =
     (case idx of
        TMTuple ds \<Rightarrow> rfold (\<lambda>d size. rbind (py_get dims (int (length dims) - 1 - d)) (\<lambda>n. Inr (size * n))) ds 1
      | TMInt i \<Rightarrow> py_get dims (int (length dims) - 1 - i))"

definition devices_along_one_dim :: "int list \<Rightarrow> int \<Rightarrow> int list \<Rightarrow> int \<Rightarrow> int list res" where
  "devices_along_one_dim dims rank rank_list dim =
     (if dim < 0 \<or> int (length dims) \<le> dim then Inl ValueError
      else let size = dims ! nat dim
      in if size = 1 then Inr [rank]
         else if int (length rank_list) \<noteq> prod_list dims then Inl ValueError
         else let stride = prod_list (drop (nat dim + 1) dims)
         in rbind (py_index rank_list rank) (\<lambda>local_index.
            if stride = 0 \<or> size = 0 then Inl ZeroDivisionError
            else let index_in_dim = (int local_index div stride) mod size;
                     base = int local_index - index_in_dim * stride
                 in rmap (\<lambda>k. py_get rank_list (base + int k * stride)) [0..<nat size]))"

text \<open>
  \<open>get_devices_along_dim\<close> for a list of dimensions: the members found so far are replaced, one
  by one and in order, by their group along the next dimension.
\<close>

fun devices_along_layers :: "int list \<Rightarrow> int list \<Rightarrow> int list \<Rightarrow> int list \<Rightarrow> int list res" where
  "devices_along_layers dims rank_list [] layer = Inr layer"
| "devices_along_layers dims rank_list (d # ds) layer =
     rbind (rmap (\<lambda>sub_rank. devices_along_one_dim dims sub_rank rank_list d) layer) (\<lambda>groups.
       devices_along_layers dims rank_list ds (concat groups))"

definition get_devices_along_dim :: "int list \<Rightarrow> int \<Rightarrow> int list \<Rightarrow> tm_entry \<Rightarrow> int list res" where
  "get_devices_along_dim dims rank rank_list dim =
     (case dim of
        TMInt d \<Rightarrow> devices_along_one_dim dims rank rank_list d
      | TMTuple [] \<Rightarrow> Inl IndexError
      | TMTuple (d # ds) \<Rightarrow>
          rbind (devices_along_one_dim dims rank rank_list d) (devices_along_layers dims rank_list ds))"

section \<open>The inference state\<close>

text \<open>
  The operators with the tuple each carries: (axis, map value, device number), and for the
  permutation (concat device number, split axis, concat axis, map value, split device number).
\<close>

datatype redist_op =
    ConcatByAxis int tm_entry int
  | SplitByAxis int tm_entry int
  | PermuteByAxis int int int tm_entry int

record infer =
  operator_list :: "redist_op list"
  pending :: "(int \<times> tm_entry) list"
  use_permute :: bool
  dev_mat :: "int list"
  in_tensor_map :: "tm_entry list"
  out_tensor_map :: "tm_entry list"

definition init_infer :: "int list \<Rightarrow> tm_entry list \<Rightarrow> tm_entry list \<Rightarrow> bool \<Rightarrow> infer" where
  "init_infer dm tin tout permute =
     \<lparr>operator_list = [], pending = map (\<lambda>(i, d). (int i, d)) (enumerate 0 tin), use_permute = permute,
      dev_mat = dm, in_tensor_map = tin, out_tensor_map = tout\<rparr>"

definition insert_operator :: "redist_op \<Rightarrow> infer \<Rightarrow> infer" where
  "insert_operator op st = st\<lparr>operator_list := operator_list st @ [op]\<rparr>"

definition map_del :: "int \<Rightarrow> infer \<Rightarrow> infer" where
  "map_del index st = st\<lparr>pending := AList.delete index (pending st)\<rparr>"

definition map_put :: "int \<Rightarrow> tm_entry \<Rightarrow> infer \<Rightarrow> infer" where
  "map_put index v st = st\<lparr>pending := AList.update index v (pending st)\<rparr>"

definition values_equal :: "infer \<Rightarrow> tm_entry \<Rightarrow> bool" where
  "values_equal st v \<longleftrightarrow> (\<exists>x \<in> set (map snd (pending st)). x = v)"

definition values_suffix :: "infer \<Rightarrow> tm_entry \<Rightarrow> bool" where
  "values_suffix st v \<longleftrightarrow> (\<exists>x \<in> set (map snd (pending st)). has_suffix x v)"

text \<open>What is left of \<open>whole\<close> after its prefix of length \<open>n\<close>: one value, or a tuple.\<close>

definition rest_of :: "nat \<Rightarrow> int list \<Rightarrow> tm_entry" where
  "rest_of n whole = (if length (drop n whole) = 1 then TMInt (last whole) else TMTuple (drop n whole))"

text \<open>\<open>part\<close> is a prefix of the tuple \<open>whole\<close>, as the tests of the tuple cases have it.\<close>

fun matches_prefix :: "tm_entry \<Rightarrow> int list \<Rightarrow> bool" where
  "matches_prefix (TMInt v) whole = (whole \<noteq> [] \<and> v = hd whole)"
| "matches_prefix (TMTuple vs) whole = (vs = take (length vs) whole)"

fun entry_length :: "tm_entry \<Rightarrow> nat" where
  "entry_length (TMInt _) = 1"
| "entry_length (TMTuple vs) = length vs"

section \<open>Splits\<close>

definition handle_simple_split_case :: "int \<Rightarrow> tm_entry \<Rightarrow> tm_entry \<Rightarrow> infer \<Rightarrow> (bool \<times> infer) res" where
  "handle_simple_split_case index in_dim out_dim st =
     (if in_dim \<noteq> NONE_dim then Inr (False, st)
      else if \<not> values_equal st out_dim \<and> \<not> values_suffix st out_dim then
        rbind (get_dim_by_reverse_idx (dev_mat st) out_dim) (\<lambda>dev_dim.
          Inr (True, insert_operator (SplitByAxis index out_dim dev_dim) st))
      else Inr (False, st))"

definition handle_tuple_split_case :: "int \<Rightarrow> tm_entry \<Rightarrow> tm_entry \<Rightarrow> infer \<Rightarrow> (bool \<times> infer) res" where
  "handle_tuple_split_case index in_dim out_dim st =
     (case out_dim of
        TMInt _ \<Rightarrow> Inr (False, st)
      | TMTuple outs \<Rightarrow>
          if matches_prefix in_dim outs then
            let out_dim_rest = rest_of (entry_length in_dim) outs
            in if \<not> values_equal st out_dim_rest then
                 rbind (get_dim_by_reverse_idx (dev_mat st) out_dim_rest) (\<lambda>dev_dim.
                   Inr (True, insert_operator (SplitByAxis index out_dim_rest dev_dim) st))
               else Inr (False, st)
          else Inr (False, st))"

definition split_key :: "int \<Rightarrow> infer \<Rightarrow> infer res" where
  "split_key index st =
     (case map_of (pending st) index of
        None \<Rightarrow> Inr st
      | Some in_dim \<Rightarrow>
          rbind (get_dim_by_idx (out_tensor_map st) index) (\<lambda>out_dim.
          if in_dim = out_dim then Inr (map_del index st)
          else rbind (handle_simple_split_case index in_dim out_dim st) (\<lambda>(handled, st1).
               if handled then Inr (map_del index st1)
               else rbind (handle_tuple_split_case index in_dim out_dim st1) (\<lambda>(handled, st2).
                    if handled then Inr (map_del index st2) else Inr st2))))"

definition infer_split_by_axis :: "infer \<Rightarrow> infer res" where
  "infer_split_by_axis st = rfold split_key (map fst (pending st)) st"

section \<open>Permutations\<close>

text \<open>The all-to-all, or the concatenation and split that replace it.\<close>

definition insert_permute :: "int \<Rightarrow> int \<Rightarrow> tm_entry \<Rightarrow> int \<Rightarrow> tm_entry \<Rightarrow> infer \<Rightarrow> infer res" where
  "insert_permute index concat_axis concat_map split_dev_num out_dim st =
     (if use_permute st then
        rbind (get_dim_by_reverse_idx (dev_mat st) concat_map) (\<lambda>concat_dev_num.
          Inr (insert_operator (PermuteByAxis concat_dev_num index concat_axis concat_map split_dev_num) st))
      else Inr (insert_operator (SplitByAxis index out_dim split_dev_num)
                  (insert_operator (ConcatByAxis concat_axis out_dim split_dev_num) st)))"

definition handle_none_dim_permute_case :: "int \<Rightarrow> tm_entry \<Rightarrow> tm_entry \<Rightarrow> infer \<Rightarrow> (bool \<times> infer) res" where
  "handle_none_dim_permute_case index in_dim out_dim st =
     (if in_dim \<noteq> NONE_dim then Inr (False, st)
      else if \<not> values_equal st out_dim then Inr (False, st)
      else let concat_axis = get_index_by_value (in_tensor_map st) out_dim
      in rbind (get_dim_by_reverse_idx (dev_mat st) out_dim) (\<lambda>split_dev_num.
         rbind (if use_permute st then get_dim_by_idx (in_tensor_map st) concat_axis else Inr out_dim) (\<lambda>concat_map.
         rbind (insert_permute index concat_axis concat_map split_dev_num out_dim st) (\<lambda>st1.
         Inr (True, map_put concat_axis NONE_dim (map_del index st1))))))"

text \<open>The new entry of the dimension that gave its suffix away.\<close>

definition shortened_entry :: "tm_entry \<Rightarrow> nat \<Rightarrow> tm_entry res" where
  "shortened_entry v out_dim_len =
     (case v of
        TMInt _ \<Rightarrow> Inl TypeError
      | TMTuple vs \<Rightarrow>
          let rest_size = int (length vs) - int out_dim_len
          in if 1 < rest_size then Inr (TMTuple (take (nat rest_size) vs))
             else rbind (py_get vs 0) (\<lambda>v0. Inr (TMInt v0)))"

definition handle_none_dim_tuple_permute_case ::
  "int \<Rightarrow> tm_entry \<Rightarrow> tm_entry \<Rightarrow> infer \<Rightarrow> (bool \<times> infer) res" where
  "handle_none_dim_tuple_permute_case index in_dim out_dim st =
     (if in_dim \<noteq> NONE_dim then Inr (False, st)
      else if \<not> values_suffix st out_dim then Inr (False, st)
      else let concat_axis = get_index_contain_value (in_tensor_map st) out_dim
      in rbind (get_dim_by_reverse_idx (dev_mat st) out_dim) (\<lambda>split_dev_num.
         rbind (insert_permute index concat_axis out_dim split_dev_num out_dim st) (\<lambda>st1.
         let st2 = map_del index st1
         in case map_of (pending st2) concat_axis of
              None \<Rightarrow> Inl KeyError
            | Some v \<Rightarrow> rbind (shortened_entry v (entry_length out_dim)) (\<lambda>new_map_item.
                Inr (True, map_put concat_axis new_map_item st2)))))"

definition handle_tuple_dim_permute_case ::
  "int \<Rightarrow> tm_entry \<Rightarrow> tm_entry \<Rightarrow> infer \<Rightarrow> (bool \<times> infer) res" where
  "handle_tuple_dim_permute_case index in_dim out_dim st =
     (case out_dim of
        TMInt _ \<Rightarrow> Inr (False, st)
      | TMTuple outs \<Rightarrow>
          if \<not> matches_prefix in_dim outs then Inr (False, st)
          else let out_dim_rest = rest_of (entry_length in_dim) outs
          in if \<not> values_equal st out_dim_rest then Inr (False, st)
             else let concat_axis = get_index_by_value (in_tensor_map st) out_dim_rest
             in rbind (get_dim_by_reverse_idx (dev_mat st) out_dim_rest) (\<lambda>split_dev_num.
                rbind (insert_permute index concat_axis out_dim_rest split_dev_num out_dim_rest st) (\<lambda>st1.
                Inr (True, map_put concat_axis NONE_dim (map_del index st1)))))"

definition permute_key :: "int \<Rightarrow> infer \<Rightarrow> infer res" where
  "permute_key index st =
     (case map_of (pending st) index of
        None \<Rightarrow> Inr st
      | Some in_dim \<Rightarrow>
          rbind (get_dim_by_idx (out_tensor_map st) index) (\<lambda>out_dim.
          if in_dim = out_dim then Inr (map_del index st)
          else rbind (handle_none_dim_permute_case index in_dim out_dim st) (\<lambda>(handled, st1).
               if handled then Inr st1
               else rbind (handle_none_dim_tuple_permute_case index in_dim out_dim st1) (\<lambda>(handled, st2).
                    if handled then Inr st2
                    else rbind (handle_tuple_dim_permute_case index in_dim out_dim st2) (\<lambda>(handled, st3).
                         Inr st3)))))"

definition infer_permute_by_axis :: "infer \<Rightarrow> infer res" where
  "infer_permute_by_axis st = rfold permute_key (map fst (pending st)) st"

section \<open>Concatenations\<close>

fun strictly_descending :: "int list \<Rightarrow> bool" where
  "strictly_descending (a # b # xs) = (b < a \<and> strictly_descending (b # xs))"
| "strictly_descending _ = True"

definition handle_tuple_concat_case :: "int \<Rightarrow> tm_entry \<Rightarrow> tm_entry \<Rightarrow> infer \<Rightarrow> (bool \<times> infer) res" where
  "handle_tuple_concat_case index in_dim out_dim st =
     (case in_dim of
        TMInt _ \<Rightarrow> Inr (False, st)
      | TMTuple ins \<Rightarrow>
          if out_dim = NONE_dim then
            (if length ins \<le> 1 then Inr (False, st)
             else if strictly_descending ins then Inr (False, st)
             else let in_dim_rest = TMInt (last ins)
             in rbind (get_dim_by_reverse_idx (dev_mat st) in_dim_rest) (\<lambda>concat_dev_num.
                Inr (True, map_put index (if 2 < length ins then TMTuple (butlast ins) else TMInt (hd ins))
                  (insert_operator (ConcatByAxis index in_dim_rest concat_dev_num) st))))
          else if \<not> matches_prefix out_dim ins then Inr (False, st)
          else let in_dim_rest = rest_of (entry_length out_dim) ins
          in rbind (get_dim_by_reverse_idx (dev_mat st) in_dim_rest) (\<lambda>concat_dev_num.
             Inr (True, map_del index (insert_operator (ConcatByAxis index in_dim_rest concat_dev_num) st))))"

definition handle_simple_concat_case :: "int \<Rightarrow> tm_entry \<Rightarrow> tm_entry \<Rightarrow> infer \<Rightarrow> (bool \<times> infer) res" where
  "handle_simple_concat_case index in_dim out_dim st =
     (if in_dim = NONE_dim then Inr (False, st)
      else if get_index_by_value (out_tensor_map st) in_dim \<noteq> -1 then Inr (False, st)
      else rbind (get_dim_by_reverse_idx (dev_mat st) in_dim) (\<lambda>concat_dev_num.
           let st1 = insert_operator (ConcatByAxis index in_dim concat_dev_num) st
           in Inr (True, if out_dim = NONE_dim then map_del index st1 else map_put index NONE_dim st1)))"

definition concat_key :: "int \<Rightarrow> infer \<Rightarrow> infer res" where
  "concat_key index st =
     (case map_of (pending st) index of
        None \<Rightarrow> Inr st
      | Some in_dim \<Rightarrow>
          rbind (get_dim_by_idx (out_tensor_map st) index) (\<lambda>out_dim.
          rbind (handle_tuple_concat_case index in_dim out_dim st) (\<lambda>(handled, st1).
          if handled then Inr st1
          else rbind (handle_simple_concat_case index in_dim out_dim st1) (\<lambda>(handled, st2). Inr st2))))"

definition infer_concat_by_axis :: "infer \<Rightarrow> infer res" where
  "infer_concat_by_axis st = rfold concat_key (map fst (pending st)) st"

section \<open>The driver\<close>

text \<open>The innermost loop: permutations until one round adds none.\<close>

fun permute_loop :: "nat \<Rightarrow> infer \<Rightarrow> infer res option" where
  "permute_loop 0 st = None"
| "permute_loop (Suc fuel) st =
     (if pending st = [] then Some (Inr st)
      else case infer_permute_by_axis st of
        Inl e \<Rightarrow> Some (Inl e)
      | Inr st1 \<Rightarrow> if length (operator_list st) = length (operator_list st1) then Some (Inr st1)
                   else permute_loop fuel st1)"

text \<open>Splits and permutations until one round adds none.\<close>

fun split_loop :: "nat \<Rightarrow> infer \<Rightarrow> infer res option" where
  "split_loop 0 st = None"
| "split_loop (Suc fuel) st =
     (if pending st = [] then Some (Inr st)
      else case infer_split_by_axis st of
        Inl e \<Rightarrow> Some (Inl e)
      | Inr st1 \<Rightarrow>
          (case permute_loop fuel st1 of
             None \<Rightarrow> None
           | Some (Inl e) \<Rightarrow> Some (Inl e)
           | Some (Inr st2) \<Rightarrow>
               if length (operator_list st) = length (operator_list st2) then Some (Inr st2)
               else split_loop fuel st2))"

text \<open>The concatenation forced when a whole round has added nothing.\<close>

definition force_concat :: "infer \<Rightarrow> infer res" where
  "force_concat st =
     (case pending st of
        [] \<Rightarrow> Inl StopIteration
      | (index, in_dim) # _ \<Rightarrow>
          rbind (get_dim_by_reverse_idx (dev_mat st) in_dim) (\<lambda>dev_dim.
            Inr (insert_operator (ConcatByAxis index in_dim dev_dim) (map_put index NONE_dim st))))"

fun infer_redistribution_operator :: "nat \<Rightarrow> infer \<Rightarrow> infer res option" where
  "infer_redistribution_operator 0 st = None"
| "infer_redistribution_operator (Suc fuel) st =
     (if pending st = [] then Some (Inr st)
      else case split_loop fuel st of
        None \<Rightarrow> None
      | Some (Inl e) \<Rightarrow> Some (Inl e)
      | Some (Inr st1) \<Rightarrow>
          (case infer_concat_by_axis st1 of
             Inl e \<Rightarrow> Some (Inl e)
           | Inr st2 \<Rightarrow>
               if length (operator_list st) = length (operator_list st2) \<and> pending st2 \<noteq> [] then
                 (case force_concat st2 of
                    Inl e \<Rightarrow> Some (Inl e)
                  | Inr st3 \<Rightarrow> infer_redistribution_operator fuel st3)
               else infer_redistribution_operator fuel st2))"

section \<open>Executable operations\<close>

datatype comm_op =
    AllConcat int int "int list"       \<comment> \<open>\<open>(concat_dim, concat_size, group)\<close>\<close>
  | AllSplit int int "int list"        \<comment> \<open>\<open>(split_dim, split_size, group)\<close>\<close>
  | AllToAll int int int "int list"    \<comment> \<open>\<open>(split_dim, concat_dim, permute_size, group)\<close>\<close>

definition forward_dims :: "int list \<Rightarrow> tm_entry \<Rightarrow> tm_entry" where
  "forward_dims dm v =
     (case v of TMTuple ds \<Rightarrow> TMTuple (map (\<lambda>d. int (length dm) - 1 - d) ds)
              | TMInt d \<Rightarrow> TMInt (int (length dm) - 1 - d))"

definition to_comm_op :: "int list \<Rightarrow> int \<Rightarrow> int list \<Rightarrow> redist_op \<Rightarrow> comm_op option res" where
  "to_comm_op dm rank rank_list op =
     (case op of
        ConcatByAxis axis v num \<Rightarrow>
          rbind (get_devices_along_dim dm rank rank_list (forward_dims dm v)) (\<lambda>group.
            Inr (if num = 1 then None else Some (AllConcat axis num group)))
      | SplitByAxis axis v num \<Rightarrow>
          rbind (get_devices_along_dim dm rank rank_list (forward_dims dm v)) (\<lambda>group.
            Inr (if num = 1 then None else Some (AllSplit axis num group)))
      | PermuteByAxis num split_axis concat_axis v _ \<Rightarrow>
          rbind (get_devices_along_dim dm rank rank_list (forward_dims dm v)) (\<lambda>group.
            Inr (if num = 1 then None else Some (AllToAll split_axis concat_axis num group))))"

definition infer_ops_list :: "nat \<Rightarrow> infer \<Rightarrow> int \<Rightarrow> int list \<Rightarrow> comm_op list res option" where
  "infer_ops_list fuel st rank rank_list =
     map_option (\<lambda>r. rbind r (\<lambda>st1.
         rbind (rmap (to_comm_op (dev_mat st1) rank rank_list) (operator_list st1))
           (\<lambda>ops. Inr (map the (filter (\<lambda>x. x \<noteq> None) ops)))))
       (infer_redistribution_operator fuel st)"

end
