(* ===== verification/RedistCorrect.thy ===== *)
theory RedistCorrect
  imports RedistInfer
begin

text \<open>
  What the inferred operators do, and that the inference is right for tensor maps of single mesh
  axes.  A sharding is the list, per tensor dimension, of the mesh axes that shard it, outermost
  first.  The driver is proved to end, to raise nothing, and to emit operators that are all
  applicable in turn and take the input sharding to the output sharding.
\<close>

section \<open>The effect of an operator on a sharding\<close>

type_synonym sharding = "int list list"

definition entry_axes :: "tm_entry \<Rightarrow> int list" where
  "entry_axes e = filter (\<lambda>m. m \<noteq> -1) (entry_dims e)"

definition sharding_of :: "tm_entry list \<Rightarrow> sharding" where
  "sharding_of tm = map entry_axes tm"

text \<open>
  A split needs mesh axes that shard nothing yet; a concatenation gathers the innermost axes of
  a dimension; an all-to-all is the concatenation of one dimension and the split of another.
\<close>

definition apply_split :: "int \<Rightarrow> tm_entry \<Rightarrow> sharding \<Rightarrow> sharding option" where
  "apply_split i v s =
     (if 0 \<le> i \<and> i < int (length s) \<and> set (entry_axes v) \<inter> set (concat s) = {}
      then Some (s[nat i := s ! nat i @ entry_axes v]) else None)"

definition apply_concat :: "int \<Rightarrow> tm_entry \<Rightarrow> sharding \<Rightarrow> sharding option" where
  "apply_concat i v s =
     (if 0 \<le> i \<and> i < int (length s) \<and> length (entry_axes v) \<le> length (s ! nat i) \<and>
         drop (length (s ! nat i) - length (entry_axes v)) (s ! nat i) = entry_axes v
      then Some (s[nat i := take (length (s ! nat i) - length (entry_axes v)) (s ! nat i)]) else None)"

fun apply_op :: "redist_op \<Rightarrow> sharding \<Rightarrow> sharding option" where
  "apply_op (SplitByAxis i v _) s = apply_split i v s"
| "apply_op (ConcatByAxis i v _) s = apply_concat i v s"
| "apply_op (PermuteByAxis _ i c v _) s = Option.bind (apply_concat c v s) (apply_split i v)"

fun apply_ops :: "redist_op list \<Rightarrow> sharding \<Rightarrow> sharding option" where
  "apply_ops [] s = Some s"
| "apply_ops (op # ops) s = Option.bind (apply_op op s) (apply_ops ops)"

lemma apply_ops_append: "apply_ops (xs @ ys) s = Option.bind (apply_ops xs s) (apply_ops ys)"
  by (induction xs arbitrary: s) (auto split: bind_splits)

section \<open>Association lists with a weight\<close>

definition entry_weight :: "tm_entry \<Rightarrow> nat" where
  "entry_weight v = (if v = NONE_dim then 2 else 3)"

definition alist_weight :: "(int \<times> tm_entry) list \<Rightarrow> nat" where
  "alist_weight xs = sum_list (map (entry_weight \<circ> snd) xs)"

lemma delete_absent: "i \<notin> fst ` set xs \<Longrightarrow> AList.delete i xs = xs"
  by (induction xs) (auto simp: AList.delete_eq)

lemma delete_weight:
  "distinct (map fst xs) \<Longrightarrow> map_of xs i = Some v \<Longrightarrow>
     alist_weight (AList.delete i xs) + entry_weight v = alist_weight xs"
proof (induction xs)
  case Nil
  then show ?case by simp
next
  case (Cons p xs)
  show ?case
  proof (cases "fst p = i")
    case True
    then show ?thesis using Cons.prems delete_absent [of i xs] by (auto simp: alist_weight_def AList.delete_eq)
  next
    case False
    then show ?thesis using Cons by (auto simp: alist_weight_def AList.delete_eq)
  qed
qed

lemma update_weight:
  "map_of xs i = Some v \<Longrightarrow> alist_weight (AList.update i u xs) + entry_weight v = alist_weight xs + entry_weight u"
  by (induction xs) (auto simp: alist_weight_def split: if_splits)

lemma entry_weight_pos: "0 < entry_weight v"
  by (simp add: entry_weight_def)

section \<open>The invariant\<close>

definition single_axes :: "nat \<Rightarrow> tm_entry list \<Rightarrow> bool" where
  "single_axes n tm \<longleftrightarrow> (\<forall>e \<in> set tm. \<exists>m. e = TMInt m \<and> -1 \<le> m \<and> m < int n) \<and>
     distinct (filter (\<lambda>e. e \<noteq> NONE_dim) tm)"

definition single_case :: "int list \<Rightarrow> tm_entry list \<Rightarrow> tm_entry list \<Rightarrow> bool" where
  "single_case dm tin tout \<longleftrightarrow>
     length tin = length tout \<and> single_axes (length dm) tin \<and> single_axes (length dm) tout"

definition current :: "infer \<Rightarrow> nat \<Rightarrow> tm_entry" where
  "current st i = (case map_of (pending st) (int i) of Some v \<Rightarrow> v | None \<Rightarrow> out_tensor_map st ! i)"

definition current_sharding :: "infer \<Rightarrow> sharding" where
  "current_sharding st = map (\<lambda>i. entry_axes (current st i)) [0..<length (out_tensor_map st)]"

definition infer_inv :: "infer \<Rightarrow> bool" where
  "infer_inv st \<longleftrightarrow>
     single_case (dev_mat st) (in_tensor_map st) (out_tensor_map st) \<and>
     distinct (map fst (pending st)) \<and>
     (\<forall>i v. map_of (pending st) i = Some v \<longrightarrow>
        0 \<le> i \<and> i < int (length (out_tensor_map st)) \<and> (v = NONE_dim \<or> v = in_tensor_map st ! nat i)) \<and>
     apply_ops (operator_list st) (sharding_of (in_tensor_map st)) = Some (current_sharding st)"

definition same_problem :: "infer \<Rightarrow> infer \<Rightarrow> bool" where
  "same_problem st st' \<longleftrightarrow> dev_mat st' = dev_mat st \<and> in_tensor_map st' = in_tensor_map st \<and>
     out_tensor_map st' = out_tensor_map st \<and> use_permute st' = use_permute st"

text \<open>A step adds operators and loses weight, or adds none and gains no weight.\<close>

definition step_rel :: "infer \<Rightarrow> infer \<Rightarrow> bool" where
  "step_rel st st' \<longleftrightarrow> same_problem st st' \<and> length (operator_list st) \<le> length (operator_list st') \<and>
     alist_weight (pending st') \<le> alist_weight (pending st) \<and>
     (length (operator_list st) < length (operator_list st') \<longrightarrow>
        alist_weight (pending st') < alist_weight (pending st))"

lemma step_rel_refl [simp]: "step_rel st st"
  by (simp add: step_rel_def same_problem_def)

lemma step_rel_trans: "step_rel a b \<Longrightarrow> step_rel b c \<Longrightarrow> step_rel a c"
  unfolding step_rel_def same_problem_def by auto

lemma single_nth_eq:
  assumes "distinct (filter (\<lambda>e. e \<noteq> NONE_dim) xs)" "i < length xs" "j < length xs"
    and "xs ! i = xs ! j" "xs ! i \<noteq> NONE_dim"
  shows "i = j"
proof (rule ccontr)
  assume "i \<noteq> j"
  then have "\<exists>i j. i < j \<and> j < length xs \<and> xs ! i = xs ! j \<and> xs ! i \<noteq> NONE_dim"
    using assms by (metis nat_neq_iff)
  then obtain i j where ij: "i < j" "j < length xs" "xs ! i = xs ! j" "xs ! i \<noteq> NONE_dim" by blast
  have "xs = take j xs @ xs ! j # drop (Suc j) xs" using ij(2) by (simp add: id_take_nth_drop)
  then have "filter (\<lambda>e. e \<noteq> NONE_dim) xs =
      filter (\<lambda>e. e \<noteq> NONE_dim) (take j xs) @ xs ! j # filter (\<lambda>e. e \<noteq> NONE_dim) (drop (Suc j) xs)"
    using ij by (metis (mono_tags, lifting) filter.simps(2) filter_append)
  then have "xs ! j \<notin> set (filter (\<lambda>e. e \<noteq> NONE_dim) (take j xs))" using assms(1) by auto
  moreover have "xs ! i \<in> set (take j xs)" using ij by (auto simp: in_set_conv_nth)
  ultimately show False using ij by auto
qed

lemma inv_single: "infer_inv st \<Longrightarrow> single_case (dev_mat st) (in_tensor_map st) (out_tensor_map st)"
  and inv_distinct: "infer_inv st \<Longrightarrow> distinct (map fst (pending st))"
  and inv_ops: "infer_inv st \<Longrightarrow>
    apply_ops (operator_list st) (sharding_of (in_tensor_map st)) = Some (current_sharding st)"
  by (simp_all add: infer_inv_def)

lemma inv_pending:
  "infer_inv st \<Longrightarrow> map_of (pending st) i = Some v \<Longrightarrow>
     0 \<le> i \<and> i < int (length (out_tensor_map st)) \<and> (v = NONE_dim \<or> v = in_tensor_map st ! nat i)"
  unfolding infer_inv_def by blast

lemma inv_out:
  "infer_inv st \<Longrightarrow> i < length (out_tensor_map st) \<Longrightarrow>
     \<exists>m. out_tensor_map st ! i = TMInt m \<and> -1 \<le> m \<and> m < int (length (dev_mat st))"
  using inv_single nth_mem unfolding single_case_def single_axes_def by metis

lemma inv_in:
  "infer_inv st \<Longrightarrow> i < length (out_tensor_map st) \<Longrightarrow>
     \<exists>m. in_tensor_map st ! i = TMInt m \<and> -1 \<le> m \<and> m < int (length (dev_mat st))"
  using inv_single nth_mem unfolding single_case_def single_axes_def by metis

lemma inv_key: "infer_inv st \<Longrightarrow> map_of (pending st) i = Some v \<Longrightarrow>
    \<exists>k. i = int k \<and> k < length (out_tensor_map st) \<and> current st k = v"
  using inv_pending [of st i v] unfolding current_def
  by (intro exI [of _ "nat i"]) auto

lemma inv_value:
  assumes "infer_inv st" "map_of (pending st) (int k) = Some v"
  shows "\<exists>m. v = TMInt m \<and> -1 \<le> m \<and> m < int (length (dev_mat st))"
  using inv_pending [OF assms] inv_in [OF assms(1), of k] by auto

lemma inv_entry:
  assumes "infer_inv st" "i < length (out_tensor_map st)"
  shows "\<exists>m. current st i = TMInt m \<and> -1 \<le> m \<and> m < int (length (dev_mat st))"
  using inv_value [OF assms(1)] inv_out [OF assms] unfolding current_def by (auto split: option.split)

lemma out_dim_at [simp]: "k < length tm \<Longrightarrow> get_dim_by_idx tm (int k) = Inr (tm ! k)"
  by (simp add: get_dim_by_idx_def)

lemma reverse_idx_ok:
  "-1 \<le> m \<Longrightarrow> m \<noteq> -1 \<Longrightarrow> m < int (length dm) \<Longrightarrow> \<exists>n. get_dim_by_reverse_idx dm (TMInt m) = Inr n"
  by (auto simp: get_dim_by_reverse_idx_def py_get_def py_slot_def)

lemma values_equal_iff:
  "infer_inv st \<Longrightarrow> values_equal st v \<longleftrightarrow> (\<exists>i. map_of (pending st) i = Some v)"
  using inv_distinct [of st] unfolding values_equal_def by force

lemma no_suffix: "infer_inv st \<Longrightarrow> \<not> values_suffix st v"
proof
  assume inv: "infer_inv st" and "values_suffix st v"
  then obtain i x where x: "(i, x) \<in> set (pending st)" "has_suffix x v" by (auto simp: values_suffix_def)
  then have "map_of (pending st) i = Some x" using inv_distinct [OF inv] by simp
  then obtain k where "k < length (out_tensor_map st)" "current st k = x" using inv_key inv by blast
  then show False using inv_entry [OF inv] x(2) by (metis has_suffix.simps(1))
qed

section \<open>How one key changes the state\<close>

lemma current_sharding_nth [simp]:
  "length (current_sharding st) = length (out_tensor_map st)"
  "i < length (out_tensor_map st) \<Longrightarrow> current_sharding st ! i = entry_axes (current st i)"
  by (simp_all add: current_sharding_def)

lemma entry_axes_int [simp]: "entry_axes (TMInt m) = (if m = -1 then [] else [m])"
  by (simp add: entry_axes_def)

text \<open>Two states whose current entries differ at \<open>i\<close> only.\<close>

lemma current_sharding_update:
  assumes "out_tensor_map st' = out_tensor_map st" "i < length (out_tensor_map st)"
    and "\<And>k. k < length (out_tensor_map st) \<Longrightarrow> current st' k = (if k = i then v else current st k)"
  shows "current_sharding st' = (current_sharding st)[i := entry_axes v]"
  by (rule nth_equalityI) (use assms in \<open>auto simp: nth_list_update\<close>)

lemma pending_del [simp]: "map_of (pending (map_del i st)) = (map_of (pending st))(i := None)"
  by (simp add: map_del_def AList.delete_conv')

lemma pending_put [simp]: "map_of (pending (map_put i v st)) = (map_of (pending st))(i \<mapsto> v)"
  by (simp add: map_put_def AList.update_conv')

lemma state_simps [simp]:
  "operator_list (map_del i st) = operator_list st" "operator_list (map_put i v st) = operator_list st"
  "out_tensor_map (map_del i st) = out_tensor_map st" "out_tensor_map (map_put i v st) = out_tensor_map st"
  "in_tensor_map (map_del i st) = in_tensor_map st" "in_tensor_map (map_put i v st) = in_tensor_map st"
  "dev_mat (map_del i st) = dev_mat st" "dev_mat (map_put i v st) = dev_mat st"
  "use_permute (map_del i st) = use_permute st" "use_permute (map_put i v st) = use_permute st"
  "pending (insert_operator op st) = pending st"
  "operator_list (insert_operator op st) = operator_list st @ [op]"
  "out_tensor_map (insert_operator op st) = out_tensor_map st"
  "in_tensor_map (insert_operator op st) = in_tensor_map st"
  "dev_mat (insert_operator op st) = dev_mat st" "use_permute (insert_operator op st) = use_permute st"
  by (simp_all add: map_del_def map_put_def insert_operator_def)

lemma distinct_keys [simp]:
  "distinct (map fst (pending st)) \<Longrightarrow> distinct (map fst (pending (map_del i st)))"
  "distinct (map fst (pending st)) \<Longrightarrow> distinct (map fst (pending (map_put i v st)))"
  by (simp_all add: map_del_def map_put_def AList.distinct_delete AList.distinct_update)

lemma del_weight:
  "distinct (map fst (pending st)) \<Longrightarrow> map_of (pending st) i = Some v \<Longrightarrow>
     alist_weight (pending (map_del i st)) + entry_weight v = alist_weight (pending st)"
  unfolding map_del_def using delete_weight by simp

lemma put_weight:
  "map_of (pending st) i = Some v \<Longrightarrow>
     alist_weight (pending (map_put i u st)) + entry_weight v = alist_weight (pending st) + entry_weight u"
  unfolding map_put_def using update_weight by simp

text \<open>
  The state after a change of \<open>pending\<close> alone, with operators \<open>new\<close> added: enough for the
  invariant are the new keys and values and the effect of \<open>new\<close> on the sharding.
\<close>

lemma inv_extend:
  assumes "infer_inv st" "same_problem st st'" "operator_list st' = operator_list st @ new"
    and "distinct (map fst (pending st'))"
    and "\<And>i v. map_of (pending st') i = Some v \<Longrightarrow> v = NONE_dim \<and> i \<in> dom (map_of (pending st)) \<or>
           map_of (pending st) i = Some v"
    and "apply_ops new (current_sharding st) = Some (current_sharding st')"
  shows "infer_inv st'"
proof -
  have "0 \<le> i \<and> i < int (length (out_tensor_map st)) \<and> (v = NONE_dim \<or> v = in_tensor_map st ! nat i)"
    if "map_of (pending st') i = Some v" for i v
    using assms(5) [OF that] inv_pending [OF assms(1)] by blast
  moreover have "apply_ops (operator_list st') (sharding_of (in_tensor_map st)) = Some (current_sharding st')"
    using assms(3,6) inv_ops [OF assms(1)] by (simp add: apply_ops_append)
  ultimately show ?thesis
    using assms(2,4) inv_single [OF assms(1)] unfolding infer_inv_def same_problem_def by simp
qed

lemma inv_del_done:
  assumes "infer_inv st" "map_of (pending st) (int k) = Some (out_tensor_map st ! k)"
  shows "infer_inv (map_del (int k) st) \<and> step_rel st (map_del (int k) st)"
proof
  have k: "k < length (out_tensor_map st)" using inv_pending [OF assms] by simp
  have "current (map_del (int k) st) i = current st i" for i
    using assms(2) by (auto simp: current_def split: option.splits)
  then have "current_sharding (map_del (int k) st) = current_sharding st"
    by (simp add: current_sharding_def)
  then show "infer_inv (map_del (int k) st)"
    using inv_distinct [OF assms(1)]
    by (intro inv_extend [OF assms(1), where new = "[]"]) (auto simp: same_problem_def split: if_splits)
  show "step_rel st (map_del (int k) st)"
    using del_weight [OF inv_distinct [OF assms(1)] assms(2)]
    by (simp add: step_rel_def same_problem_def)
qed

lemma axis_free:
  assumes inv: "infer_inv st" and k: "k < length (out_tensor_map st)"
    and o: "out_tensor_map st ! k = TMInt m" "m \<noteq> -1"
    and pk: "map_of (pending st) (int k) \<noteq> None"
    and free: "\<And>j. j < length (out_tensor_map st) \<Longrightarrow> map_of (pending st) (int j) \<noteq> Some (TMInt m)"
  shows "m \<notin> set (concat (current_sharding st))"
proof
  assume "m \<in> set (concat (current_sharding st))"
  then obtain j where j: "j < length (out_tensor_map st)" "m \<in> set (entry_axes (current st j))"
    by (auto simp: current_sharding_def)
  then have cur: "current st j = TMInt m"
    using inv_entry [OF inv j(1)] by (auto split: if_splits)
  then have "map_of (pending st) (int j) = None" "out_tensor_map st ! j = TMInt m"
    using free [OF j(1)] by (auto simp: current_def split: option.splits)
  moreover have "distinct (filter (\<lambda>e. e \<noteq> NONE_dim) (out_tensor_map st))"
    using inv_single [OF inv] by (simp add: single_case_def single_axes_def)
  ultimately show False using single_nth_eq [OF _ j(1) k] o pk by auto
qed

lemma inv_split:
  assumes inv: "infer_inv st" and pk: "map_of (pending st) (int k) = Some NONE_dim"
    and o: "out_tensor_map st ! k \<noteq> NONE_dim" and ne: "\<not> values_equal st (out_tensor_map st ! k)"
    and st'_def: "st' = map_del (int k) (insert_operator (SplitByAxis (int k) (out_tensor_map st ! k) n) st)"
  shows "infer_inv st' \<and> step_rel st st' \<and> length (operator_list st) < length (operator_list st')"
proof -
  have k: "k < length (out_tensor_map st)" using inv_pending [OF inv pk] by simp
  obtain m where m: "out_tensor_map st ! k = TMInt m" "m \<noteq> -1" using inv_out [OF inv k] o by auto
  have free: "m \<notin> set (concat (current_sharding st))"
    using axis_free [OF inv k m] pk ne m(1) values_equal_iff [OF inv] by auto
  have "current st k = NONE_dim" using pk by (simp add: current_def)
  moreover have cs: "current_sharding st' = (current_sharding st)[k := entry_axes (out_tensor_map st ! k)]"
    by (rule current_sharding_update) (auto simp: st'_def k current_def split: option.splits)
  ultimately have "apply_ops [SplitByAxis (int k) (out_tensor_map st ! k) n] (current_sharding st) = Some (current_sharding st')"
    using free k m by (simp add: apply_split_def)
  then have "infer_inv st'"
    using inv_distinct [OF inv]
    by (intro inv_extend [OF inv, where new = "[SplitByAxis (int k) (out_tensor_map st ! k) n]"])
      (auto simp: st'_def same_problem_def split: if_splits)
  moreover have "alist_weight (pending st') < alist_weight (pending st)"
    using del_weight [of st "int k" NONE_dim] inv_distinct [OF inv] pk entry_weight_pos [of NONE_dim]
    by (simp add: st'_def map_del_def insert_operator_def)
  ultimately show ?thesis by (simp add: step_rel_def st'_def same_problem_def)
qed

text \<open>The move of an axis from dimension \<open>j\<close> to dimension \<open>k\<close>, as one all-to-all or as two operators.\<close>

lemma inv_permute:
  assumes inv: "infer_inv st" and pk: "map_of (pending st) (int k) = Some NONE_dim"
    and o: "out_tensor_map st ! k \<noteq> NONE_dim"
    and pj: "map_of (pending st) (int j) = Some (out_tensor_map st ! k)"
    and ops: "new = [PermuteByAxis c (int k) (int j) (out_tensor_map st ! k) n] \<or>
      new = [ConcatByAxis (int j) (out_tensor_map st ! k) n, SplitByAxis (int k) (out_tensor_map st ! k) n]"
    and st': "operator_list st' = operator_list st @ new" "same_problem st st'"
      "pending st' = pending (map_put (int j) NONE_dim (map_del (int k) st))"
  shows "infer_inv st' \<and> step_rel st st' \<and> length (operator_list st) < length (operator_list st')"
proof -
  have k: "k < length (out_tensor_map st)" using inv_pending [OF inv pk] by simp
  have j: "j < length (out_tensor_map st)" using inv_pending [OF inv pj] by simp
  obtain m where m: "out_tensor_map st ! k = TMInt m" "m \<noteq> -1" using inv_out [OF inv k] o by auto
  have jk: "j \<noteq> k" using pj pk o by auto
  let ?mid = "(current_sharding st)[j := []]"
  have unique: "i = j" if i: "map_of (pending st) (int i) = Some (TMInt m)" for i
  proof -
    have "in_tensor_map st ! i = TMInt m" "in_tensor_map st ! j = TMInt m"
      using inv_pending [OF inv i] inv_pending [OF inv pj] m by auto
    moreover have "i < length (in_tensor_map st)" "j < length (in_tensor_map st)"
      "distinct (filter (\<lambda>e. e \<noteq> NONE_dim) (in_tensor_map st))"
      using inv_pending [OF inv i] j inv_single [OF inv] by (auto simp: single_case_def single_axes_def)
    ultimately show ?thesis using single_nth_eq [of "in_tensor_map st" i j] m(2) by simp
  qed
  have cj: "current_sharding st ! j = [m]" and ck: "current_sharding st ! k = []"
    using pj pk m j k by (simp_all add: current_def)
  have free: "m \<notin> set (?mid ! i)" if i: "i < length (out_tensor_map st)" for i
  proof (cases "i = j")
    case True
    then show ?thesis using j by simp
  next
    case False
    show ?thesis
    proof
      assume "m \<in> set (?mid ! i)"
      then have "current st i = TMInt m" using False i inv_entry [OF inv i] by (auto split: if_splits)
      then have "map_of (pending st) (int i) = None" "out_tensor_map st ! i = TMInt m"
        using unique False by (auto simp: current_def split: option.splits)
      then have "i = k"
        using single_nth_eq [of "out_tensor_map st" i k] inv_single [OF inv] i k m
        by (auto simp: single_case_def single_axes_def)
      then show False using \<open>map_of (pending st) (int i) = None\<close> pk by simp
    qed
  qed
  then have free': "m \<notin> set (concat ?mid)" by (auto simp: in_set_conv_nth) metis
  have out': "out_tensor_map st' = out_tensor_map st" using st'(2) by (simp add: same_problem_def)
  have cs: "current_sharding st' = ?mid[k := [m]]"
  proof (rule nth_equalityI)
    fix i assume "i < length (current_sharding st')"
    then have i: "i < length (out_tensor_map st)" using out' by simp
    then show "current_sharding st' ! i = ?mid[k := [m]] ! i"
      using jk j k m out' by (auto simp: current_def st'(3) nth_list_update split: option.splits)
  qed (simp add: out')
  have mid: "apply_concat (int j) (TMInt m) (current_sharding st) = Some ?mid"
    "apply_split (int k) (TMInt m) ?mid = Some (?mid[k := [m]])"
    using cj ck j k jk m(2) free' by (auto simp: apply_concat_def apply_split_def)
  then have ap: "apply_ops new (current_sharding st) = Some (current_sharding st')"
    using ops cs m(1) by auto
  have d: "distinct (map fst (pending st'))" using inv_distinct [OF inv] st'(3) by simp
  have pend: "v = NONE_dim \<and> i \<in> dom (map_of (pending st)) \<or> map_of (pending st) i = Some v"
    if "map_of (pending st') i = Some v" for i v
    using that pj by (auto simp: st'(3) split: if_splits)
  have inv': "infer_inv st'" using inv_extend [OF inv st'(2,1) d pend ap] .
  have "map_of (pending (map_del (int k) st)) (int j) = Some (TMInt m)" using pj m jk by simp
  from put_weight [OF this, of NONE_dim] del_weight [OF inv_distinct [OF inv] pk]
  have "alist_weight (pending st') < alist_weight (pending st)"
    using m(2) by (simp add: st'(3) entry_weight_def)
  with inv' show ?thesis using st'(1,2) ops by (auto simp: step_rel_def)
qed

lemma inv_concat:
  assumes inv: "infer_inv st" and pk: "map_of (pending st) (int k) = Some v" "v \<noteq> NONE_dim"
    and st': "operator_list st' = operator_list st @ [ConcatByAxis (int k) v n]" "same_problem st st'"
      "pending st' = pending (map_put (int k) NONE_dim st) \<or>
       pending st' = pending (map_del (int k) st) \<and> out_tensor_map st ! k = NONE_dim"
  shows "infer_inv st' \<and> step_rel st st' \<and> length (operator_list st) < length (operator_list st')"
proof -
  have k: "k < length (out_tensor_map st)" using inv_pending [OF inv pk(1)] by simp
  obtain m where m: "v = TMInt m" "m \<noteq> -1" using inv_value [OF inv pk(1)] pk(2) by auto
  have out': "out_tensor_map st' = out_tensor_map st" using st'(2) by (simp add: same_problem_def)
  have "current st' i = (if i = k then NONE_dim else current st i)" for i
    using st'(3) out' by (auto simp: current_def split: option.splits)
  then have cs: "current_sharding st' = (current_sharding st)[k := []]"
    using current_sharding_update [OF out' k, of NONE_dim] by simp
  have "current_sharding st ! k = [m]" using pk m k by (simp add: current_def)
  then have ap: "apply_ops [ConcatByAxis (int k) v n] (current_sharding st) = Some (current_sharding st')"
    using k m cs by (simp add: apply_concat_def)
  have d: "distinct (map fst (pending st'))" using inv_distinct [OF inv] st'(3) by auto
  have pend: "u = NONE_dim \<and> i \<in> dom (map_of (pending st)) \<or> map_of (pending st) i = Some u"
    if "map_of (pending st') i = Some u" for i u
    using that st'(3) pk(1) by (auto split: if_splits)
  have inv': "infer_inv st'" using inv_extend [OF inv st'(2,1) d pend ap] .
  have "alist_weight (pending st') < alist_weight (pending st)"
    using st'(3) put_weight [OF pk(1), of NONE_dim] del_weight [OF inv_distinct [OF inv] pk(1)] m(2)
    by (auto simp: m(1) entry_weight_def split: if_splits)
  with inv' show ?thesis using st'(1,2) by (simp add: step_rel_def)
qed

section \<open>The three passes\<close>

text \<open>What every key of a pass does: no error, the invariant kept, and a step.\<close>

definition good_step :: "infer \<Rightarrow> infer res \<Rightarrow> bool" where
  "good_step st r \<longleftrightarrow> (\<exists>st'. r = Inr st' \<and> infer_inv st' \<and> step_rel st st')"

text \<open>An entry is settled: not yet right, and if it is free, the axis it wants is in use.\<close>

definition settled :: "infer \<Rightarrow> int \<Rightarrow> bool" where
  "settled st i \<longleftrightarrow> (\<forall>v. map_of (pending st) i = Some v \<longrightarrow>
     v \<noteq> out_tensor_map st ! nat i \<and> (v = NONE_dim \<longrightarrow> values_equal st (out_tensor_map st ! nat i)))"

lemma no_tuple_split: "infer_inv st \<Longrightarrow> k < length (out_tensor_map st) \<Longrightarrow>
    handle_tuple_split_case (int k) v (out_tensor_map st ! k) st = Inr (False, st)"
  using inv_out by (fastforce simp: handle_tuple_split_case_def)

lemma no_tuple_permute: "infer_inv st \<Longrightarrow> k < length (out_tensor_map st) \<Longrightarrow>
    handle_tuple_dim_permute_case (int k) v (out_tensor_map st ! k) st = Inr (False, st)"
  using inv_out by (fastforce simp: handle_tuple_dim_permute_case_def)

lemma no_none_tuple_permute: "infer_inv st \<Longrightarrow>
    handle_none_dim_tuple_permute_case i v d st = Inr (False, st)"
  using no_suffix by (simp add: handle_none_dim_tuple_permute_case_def)

lemma reverse_out: "infer_inv st \<Longrightarrow> k < length (out_tensor_map st) \<Longrightarrow> out_tensor_map st ! k \<noteq> NONE_dim \<Longrightarrow>
    \<exists>n. get_dim_by_reverse_idx (dev_mat st) (out_tensor_map st ! k) = Inr n"
  using inv_out [of st k] reverse_idx_ok by auto

lemma reverse_value: "infer_inv st \<Longrightarrow> map_of (pending st) (int k) = Some v \<Longrightarrow> v \<noteq> NONE_dim \<Longrightarrow>
    \<exists>n. get_dim_by_reverse_idx (dev_mat st) v = Inr n"
  using inv_value [of st k v] reverse_idx_ok by auto

lemma good_refl: "infer_inv st \<Longrightarrow> good_step st (Inr st)"
  by (simp add: good_step_def)

lemma split_key_good:
  assumes "infer_inv st"
  shows "good_step st (split_key i st) \<and>
    (\<forall>st'. split_key i st = Inr st' \<and> length (operator_list st') = length (operator_list st) \<longrightarrow> settled st' i)"
proof (cases "map_of (pending st) i")
  case None
  then show ?thesis using good_refl [OF assms] by (auto simp: split_key_def settled_def)
next
  case (Some v)
  then obtain k where k: "i = int k" "k < length (out_tensor_map st)" using inv_key [OF assms] by blast
  note pk = Some [unfolded k(1)]
  let ?o = "out_tensor_map st ! k"
  consider (same) "v = ?o" | (split) "v \<noteq> ?o" "v = NONE_dim" "\<not> values_equal st ?o"
    | (used) "v \<noteq> ?o" "v = NONE_dim" "values_equal st ?o" | (mapped) "v \<noteq> ?o" "v \<noteq> NONE_dim" by blast
  then show ?thesis
  proof cases
    case same
    then show ?thesis using inv_del_done [OF assms] pk k
      by (auto simp: split_key_def good_step_def settled_def)
  next
    case split
    obtain n where n: "get_dim_by_reverse_idx (dev_mat st) ?o = Inr n"
      using reverse_out [OF assms k(2)] split by auto
    then have "split_key i st = Inr (map_del (int k) (insert_operator (SplitByAxis (int k) ?o n) st))"
      using split pk k no_suffix [OF assms] by (simp add: split_key_def handle_simple_split_case_def)
    then show ?thesis using inv_split [OF assms _ _ split(3) refl, of n] split pk by (auto simp: good_step_def)
  next
    case used
    then have "split_key i st = Inr st"
      using pk k no_tuple_split [OF assms k(2)] by (simp add: split_key_def handle_simple_split_case_def)
    then show ?thesis using good_refl [OF assms] used pk k by (auto simp: settled_def)
  next
    case mapped
    then have "split_key i st = Inr st"
      using pk k no_tuple_split [OF assms k(2)] by (simp add: split_key_def handle_simple_split_case_def)
    then show ?thesis using good_refl [OF assms] mapped pk k by (auto simp: settled_def)
  qed
qed

lemma permute_key_good:
  assumes "infer_inv st"
  shows "good_step st (permute_key i st) \<and>
    (\<forall>st'. permute_key i st = Inr st' \<and> length (operator_list st') = length (operator_list st) \<and> settled st i \<longrightarrow>
       st' = st \<and> map_of (pending st) i \<noteq> Some NONE_dim)"
proof (cases "map_of (pending st) i")
  case None
  then show ?thesis using good_refl [OF assms] by (auto simp: permute_key_def)
next
  case (Some v)
  then obtain k where k: "i = int k" "k < length (out_tensor_map st)" using inv_key [OF assms] by blast
  note pk = Some [unfolded k(1)]
  let ?o = "out_tensor_map st ! k"
  consider (same) "v = ?o" | (move) "v \<noteq> ?o" "v = NONE_dim" "values_equal st ?o"
    | (free) "v \<noteq> ?o" "v = NONE_dim" "\<not> values_equal st ?o" | (mapped) "v \<noteq> ?o" "v \<noteq> NONE_dim" by blast
  then show ?thesis
  proof cases
    case same
    then show ?thesis using inv_del_done [OF assms] pk k
      by (auto simp: permute_key_def good_step_def settled_def)
  next
    case move
    have on: "?o \<noteq> NONE_dim" using move by auto
    obtain j' where "map_of (pending st) j' = Some ?o" using move(3) values_equal_iff [OF assms] by blast
    then obtain j where j: "map_of (pending st) (int j) = Some ?o" "j < length (out_tensor_map st)"
      using inv_key [OF assms] by blast
    have inj: "in_tensor_map st ! j = ?o" "j < length (in_tensor_map st)"
      using inv_pending [OF assms j(1)] on inv_single [OF assms] by (auto simp: single_case_def)
    obtain i' where i': "py_index (in_tensor_map st) ?o = Inr i'"
      using py_index_mem [of ?o "in_tensor_map st"] inj by (metis nth_mem)
    then have "i' = j"
      using py_index_Inr [OF i'] inj on inv_single [OF assms] single_nth_eq [of "in_tensor_map st" i' j]
      by (auto simp: single_case_def single_axes_def)
    then have axis: "get_index_by_value (in_tensor_map st) ?o = int j" using i' by (simp add: get_index_by_value_def)
    obtain n where n: "get_dim_by_reverse_idx (dev_mat st) ?o = Inr n"
      using reverse_out [OF assms k(2) on] by auto
    let ?new = "if use_permute st then [PermuteByAxis n (int k) (int j) ?o n]
      else [ConcatByAxis (int j) ?o n, SplitByAxis (int k) ?o n]"
    let ?ins = "if use_permute st then insert_operator (PermuteByAxis n (int k) (int j) ?o n) st
      else insert_operator (SplitByAxis (int k) ?o n) (insert_operator (ConcatByAxis (int j) ?o n) st)"
    let ?st' = "map_put (int j) NONE_dim (map_del (int k) ?ins)"
    have "handle_none_dim_permute_case (int k) NONE_dim ?o st = Inr (True, ?st')"
      using move n axis inj by (simp add: handle_none_dim_permute_case_def insert_permute_def Let_def)
    then have res: "permute_key i st = Inr ?st'"
      using move pk k by (simp only: permute_key_def) simp
    have "infer_inv ?st' \<and> step_rel st ?st' \<and> length (operator_list st) < length (operator_list ?st')"
    proof (rule inv_permute [OF assms _ on j(1)])
      show "?new = [PermuteByAxis n (int k) (int j) ?o n] \<or>
        ?new = [ConcatByAxis (int j) ?o n, SplitByAxis (int k) ?o n]" by simp
    qed (use pk move in \<open>simp_all add: same_problem_def map_put_def map_del_def insert_operator_def\<close>)
    then show ?thesis using res by (auto simp: good_step_def)
  next
    case free
    then have "permute_key i st = Inr st"
      using pk k no_tuple_permute [OF assms k(2)] no_none_tuple_permute [OF assms]
      by (simp add: permute_key_def handle_none_dim_permute_case_def)
    then show ?thesis using good_refl [OF assms] free pk k by (auto simp: settled_def)
  next
    case mapped
    then have "permute_key i st = Inr st"
      using pk k no_tuple_permute [OF assms k(2)] no_none_tuple_permute [OF assms]
      by (simp add: permute_key_def handle_none_dim_permute_case_def)
    then show ?thesis using good_refl [OF assms] mapped pk k by auto
  qed
qed

lemma concat_key_good:
  assumes "infer_inv st"
  shows "good_step st (concat_key i st) \<and>
    (\<forall>st'. concat_key i st = Inr st' \<and> length (operator_list st') = length (operator_list st) \<longrightarrow> st' = st)"
proof (cases "map_of (pending st) i")
  case None
  then show ?thesis using good_refl [OF assms] by (auto simp: concat_key_def)
next
  case (Some v)
  then obtain k where k: "i = int k" "k < length (out_tensor_map st)" using inv_key [OF assms] by blast
  note pk = Some [unfolded k(1)]
  obtain m where m: "v = TMInt m" using inv_value [OF assms pk] by auto
  show ?thesis
  proof (cases "v = NONE_dim \<or> get_index_by_value (out_tensor_map st) v \<noteq> -1")
    case True
    then have "concat_key i st = Inr st"
      using pk k m by (auto simp: concat_key_def handle_tuple_concat_case_def handle_simple_concat_case_def)
    then show ?thesis using good_refl [OF assms] by auto
  next
    case False
    obtain n where n: "get_dim_by_reverse_idx (dev_mat st) v = Inr n"
      using reverse_value [OF assms pk] False by auto
    let ?ins = "insert_operator (ConcatByAxis (int k) v n) st"
    let ?st' = "if out_tensor_map st ! k = NONE_dim then map_del (int k) ?ins else map_put (int k) NONE_dim ?ins"
    have res: "concat_key i st = Inr ?st'"
      using pk k m n False by (auto simp: concat_key_def handle_tuple_concat_case_def handle_simple_concat_case_def)
    have "infer_inv ?st' \<and> step_rel st ?st' \<and> length (operator_list st) < length (operator_list ?st')"
      using False by (intro inv_concat [OF assms pk])
        (auto simp: same_problem_def map_put_def map_del_def insert_operator_def)
    then show ?thesis using res by (auto simp: good_step_def)
  qed
qed

lemma pass_good:
  assumes "\<And>i st. infer_inv st \<Longrightarrow> good_step st (f i st)" "infer_inv st"
  shows "good_step st (rfold f keys st)"
  using assms(2)
proof (induction keys arbitrary: st)
  case Nil
  then show ?case by (simp add: good_refl)
next
  case (Cons i keys)
  from assms(1) [OF Cons.prems, of i] obtain st1 where st1: "f i st = Inr st1" "infer_inv st1" "step_rel st st1"
    by (auto simp: good_step_def)
  from Cons.IH [OF st1(2)] show ?case
    using st1 step_rel_trans by (fastforce simp: good_step_def)
qed

lemma good_stepE:
  assumes "good_step st r"
  obtains st' where "r = Inr st'" "infer_inv st'" "step_rel st st'"
  using assms by (auto simp: good_step_def)

lemma step_ops: "step_rel a b \<Longrightarrow> length (operator_list a) \<le> length (operator_list b)"
  by (simp add: step_rel_def)

lemma settled_del:
  assumes inv: "infer_inv st" and pk: "map_of (pending st) (int k) = Some (out_tensor_map st ! k)"
    and s: "settled st i"
  shows "settled (map_del (int k) st) i"
proof -
  have "values_equal (map_del (int k) st) (out_tensor_map st ! nat i)"
    if v: "map_of (pending st) i = Some NONE_dim" "i \<noteq> int k"
  proof -
    obtain j where j: "i = int j" "j < length (out_tensor_map st)" using inv_key [OF inv v(1)] by blast
    have o: "out_tensor_map st ! j \<noteq> NONE_dim" using s v(1) j by (auto simp: settled_def)
    obtain i' where i': "map_of (pending st) i' = Some (out_tensor_map st ! j)"
      using s v(1) j values_equal_iff [OF inv] by (auto simp: settled_def)
    have "i' \<noteq> int k"
    proof
      assume "i' = int k"
      then have "j = k"
        using i' pk o j inv_pending [OF inv pk] inv_single [OF inv] single_nth_eq [of "out_tensor_map st" j k]
        by (auto simp: single_case_def single_axes_def)
      then show False using v(2) j by simp
    qed
    then show ?thesis using i' j values_equal_iff [of "map_del (int k) st"] inv_del_done [OF inv pk] by auto
  qed
  then show ?thesis using s by (auto simp: settled_def split: if_splits)
qed

lemma split_key_noop:
  assumes "infer_inv st" "split_key i st = Inr st'" "length (operator_list st') = length (operator_list st)"
  shows "st' = st \<or> (\<exists>k. st' = map_del (int k) st \<and> map_of (pending st) (int k) = Some (out_tensor_map st ! k))"
proof (cases "map_of (pending st) i")
  case None
  then show ?thesis using assms(2) by (simp add: split_key_def)
next
  case (Some v)
  then obtain k where k: "i = int k" "k < length (out_tensor_map st)" using inv_key [OF assms(1)] by blast
  show ?thesis
  proof (cases "v = out_tensor_map st ! k")
    case True
    then show ?thesis using assms(2) Some k by (auto simp: split_key_def)
  next
    case False
    then show ?thesis
      using assms(2,3) Some k no_tuple_split [OF assms(1) k(2)]
      by (auto simp: split_key_def handle_simple_split_case_def split: if_splits)
  qed
qed

lemma split_pass_settled:
  "infer_inv st \<Longrightarrow> rfold split_key keys st = Inr st' \<Longrightarrow>
   length (operator_list st') = length (operator_list st) \<Longrightarrow> \<forall>i \<in> S. settled st i \<Longrightarrow>
     (\<forall>i \<in> S \<union> set keys. settled st' i) \<and> dom (map_of (pending st')) \<subseteq> dom (map_of (pending st))"
proof (induction keys arbitrary: st S)
  case Nil
  then show ?case by simp
next
  case (Cons i keys)
  from Cons.prems(1) obtain st1 where st1: "split_key i st = Inr st1" "infer_inv st1" "step_rel st st1"
    using split_key_good by (metis good_step_def)
  have r: "rfold split_key keys st1 = Inr st'" using Cons.prems(2) st1(1) by simp
  have "good_step st1 (rfold split_key keys st1)"
    using pass_good [of split_key] split_key_good st1(2) by blast
  then have st1': "step_rel st1 st'" using r by (auto simp: good_step_def)
  have same: "length (operator_list st1) = length (operator_list st)"
    "length (operator_list st') = length (operator_list st1)"
    using Cons.prems(3) step_ops [OF st1(3)] step_ops [OF st1'] by auto
  have i: "settled st1 i" using split_key_good [OF Cons.prems(1), of i] st1(1) same(1) by blast
  have "settled st1 j" if "j \<in> S" for j
    using split_key_noop [OF Cons.prems(1) st1(1) same(1)] settled_del [OF Cons.prems(1)] Cons.prems(4) that by auto
  then have "\<forall>j \<in> insert i S. settled st1 j" using i by simp
  moreover have "dom (map_of (pending st1)) \<subseteq> dom (map_of (pending st))"
    using split_key_noop [OF Cons.prems(1) st1(1) same(1)] by (auto split: if_splits)
  ultimately show ?case
    using Cons.IH [OF st1(2) r same(2), of "insert i S"] subset_trans [of "dom (map_of (pending st'))"]
    by (metis Un_insert_left Un_insert_right list.simps(15))
qed

lemma permute_pass_noop:
  "infer_inv st \<Longrightarrow> rfold permute_key keys st = Inr st' \<Longrightarrow>
   length (operator_list st') = length (operator_list st) \<Longrightarrow> \<forall>i. settled st i \<Longrightarrow>
     st' = st \<and> (\<forall>i \<in> set keys. map_of (pending st) i \<noteq> Some NONE_dim)"
proof (induction keys arbitrary: st)
  case Nil
  then show ?case by simp
next
  case (Cons i keys)
  from Cons.prems(1) obtain st1 where st1: "permute_key i st = Inr st1" "infer_inv st1" "step_rel st st1"
    using permute_key_good by (metis good_step_def)
  have r: "rfold permute_key keys st1 = Inr st'" using Cons.prems(2) st1(1) by simp
  have "good_step st1 (rfold permute_key keys st1)"
    using pass_good [of permute_key] permute_key_good st1(2) by blast
  then have st1': "step_rel st1 st'" using r by (auto simp: good_step_def)
  have same: "length (operator_list st1) = length (operator_list st)"
    using Cons.prems(3) step_ops [OF st1(3)] step_ops [OF st1'] by auto
  then have "st1 = st" "map_of (pending st) i \<noteq> Some NONE_dim"
    using permute_key_good [OF Cons.prems(1), of i] st1(1) Cons.prems(4) by auto
  then show ?case using Cons.IH [of st] Cons.prems r by simp
qed

lemma concat_pass_noop:
  "infer_inv st \<Longrightarrow> rfold concat_key keys st = Inr st' \<Longrightarrow>
   length (operator_list st') = length (operator_list st) \<Longrightarrow> st' = st"
proof (induction keys arbitrary: st)
  case Nil
  then show ?case by simp
next
  case (Cons i keys)
  from Cons.prems(1) obtain st1 where st1: "concat_key i st = Inr st1" "infer_inv st1" "step_rel st st1"
    using concat_key_good by (metis good_step_def)
  have r: "rfold concat_key keys st1 = Inr st'" using Cons.prems(2) st1(1) by simp
  have "good_step st1 (rfold concat_key keys st1)"
    using pass_good [of concat_key] concat_key_good st1(2) by blast
  then have st1': "step_rel st1 st'" using r by (auto simp: good_step_def)
  have "length (operator_list st1) = length (operator_list st)"
    using Cons.prems(3) step_ops [OF st1(3)] step_ops [OF st1'] by auto
  then have "st1 = st" using concat_key_good [OF Cons.prems(1), of i] st1(1) by blast
  then show ?case using Cons.IH [of st] Cons.prems r by simp
qed

section \<open>The loops end\<close>

definition no_free_entry :: "infer \<Rightarrow> bool" where
  "no_free_entry st \<longleftrightarrow> (\<forall>i. map_of (pending st) i \<noteq> Some NONE_dim)"

lemma permute_loop_ends:
  "infer_inv st \<Longrightarrow> alist_weight (pending st) < fuel \<Longrightarrow>
     \<exists>st'. permute_loop fuel st = Some (Inr st') \<and> infer_inv st' \<and> step_rel st st' \<and>
       (length (operator_list st') = length (operator_list st) \<and> (\<forall>i. settled st i) \<longrightarrow> no_free_entry st')"
proof (induction fuel arbitrary: st)
  case 0
  then show ?case by simp
next
  case (Suc fuel)
  show ?case
  proof (cases "pending st = []")
    case True
    then show ?thesis using Suc.prems by (simp add: no_free_entry_def)
  next
    case False
    have "good_step st (infer_permute_by_axis st)"
      unfolding infer_permute_by_axis_def using pass_good [of permute_key] permute_key_good Suc.prems(1) by blast
    then obtain st1 where st1: "infer_permute_by_axis st = Inr st1" "infer_inv st1" "step_rel st st1"
      by (auto simp: good_step_def)
    show ?thesis
    proof (cases "length (operator_list st) = length (operator_list st1)")
      case True
      have "no_free_entry st1" if "\<forall>i. settled st i"
        using permute_pass_noop [OF Suc.prems(1) st1(1) [unfolded infer_permute_by_axis_def] True [symmetric] that]
        unfolding no_free_entry_def by (metis image_set map_of_eq_None_iff option.distinct(1))
      then show ?thesis using st1 True False by auto
    next
      case False
      then have "alist_weight (pending st1) < fuel" "length (operator_list st) < length (operator_list st1)"
        using st1(3) Suc.prems(2) unfolding step_rel_def by auto
      with Suc.IH [OF st1(2)] obtain st' where st': "permute_loop fuel st1 = Some (Inr st')" "infer_inv st'" "step_rel st1 st'"
        by blast
      have "length (operator_list st) < length (operator_list st')"
        using \<open>length (operator_list st) < length (operator_list st1)\<close> step_ops [OF st'(3)] by simp
      then show ?thesis
        using st1(1) st' False \<open>pending st \<noteq> []\<close> step_rel_trans [OF st1(3) st'(3)] by auto
    qed
  qed
qed

lemma split_loop_ends:
  "infer_inv st \<Longrightarrow> alist_weight (pending st) + 1 < fuel \<Longrightarrow>
     \<exists>st'. split_loop fuel st = Some (Inr st') \<and> infer_inv st' \<and> step_rel st st' \<and>
       (length (operator_list st') = length (operator_list st) \<longrightarrow> no_free_entry st')"
proof (induction fuel arbitrary: st)
  case 0
  then show ?case by simp
next
  case (Suc fuel)
  show ?case
  proof (cases "pending st = []")
    case True
    then show ?thesis using Suc.prems by (simp add: no_free_entry_def)
  next
    case False
    have "good_step st (infer_split_by_axis st)"
      unfolding infer_split_by_axis_def using pass_good [of split_key] split_key_good Suc.prems(1) by blast
    then obtain st1 where st1: "infer_split_by_axis st = Inr st1" "infer_inv st1" "step_rel st st1"
      by (auto simp: good_step_def)
    have "alist_weight (pending st1) < fuel" using st1(3) Suc.prems(2) by (simp add: step_rel_def)
    from permute_loop_ends [OF st1(2) this] obtain st2 where st2: "permute_loop fuel st1 = Some (Inr st2)"
      "infer_inv st2" "step_rel st1 st2"
      "length (operator_list st2) = length (operator_list st1) \<and> (\<forall>i. settled st1 i) \<longrightarrow> no_free_entry st2"
      by blast
    note tr = step_rel_trans [OF st1(3) st2(3)]
    show ?thesis
    proof (cases "length (operator_list st) = length (operator_list st2)")
      case True
      then have same: "length (operator_list st1) = length (operator_list st)"
        "length (operator_list st2) = length (operator_list st1)"
        using step_ops [OF st1(3)] step_ops [OF st2(3)] by auto
      from split_pass_settled [OF Suc.prems(1) st1(1) [unfolded infer_split_by_axis_def] same(1), of "{}"]
      have sp: "\<forall>i \<in> fst ` set (pending st). settled st1 i"
        "dom (map_of (pending st1)) \<subseteq> fst ` set (pending st)"
        by (simp_all add: dom_map_of_conv_image_fst)
      have "settled st1 i" for i
        using sp by (cases "i \<in> fst ` set (pending st)") (auto simp: settled_def dom_def)
      then have "no_free_entry st2" using st2(4) same(2) by blast
      then show ?thesis using st1(1) st2(1,2) True False tr by auto
    next
      case False
      then have "length (operator_list st) < length (operator_list st2)" using step_ops [OF tr] by simp
      moreover then have "alist_weight (pending st2) + 1 < fuel"
        using tr Suc.prems(2) unfolding step_rel_def by auto
      from Suc.IH [OF st2(2) this] obtain st' where st': "split_loop fuel st2 = Some (Inr st')" "infer_inv st'"
        "step_rel st2 st'" by blast
      ultimately have "length (operator_list st) < length (operator_list st')" using step_ops [OF st'(3)] by simp
      then show ?thesis
        using st1(1) st2(1) st' False \<open>pending st \<noteq> []\<close> step_rel_trans [OF tr st'(3)] by auto
    qed
  qed
qed

lemma force_concat_step:
  assumes "infer_inv st" "no_free_entry st" "pending st \<noteq> []"
  shows "\<exists>st'. force_concat st = Inr st' \<and> infer_inv st' \<and> step_rel st st' \<and>
    length (operator_list st) < length (operator_list st')"
proof -
  obtain i v rest where p: "pending st = (i, v) # rest" using assms(3) by (cases "pending st") auto
  then have pi: "map_of (pending st) i = Some v" by simp
  then obtain k where k: "i = int k" using inv_key [OF assms(1)] by blast
  note pk = pi [unfolded k]
  have v: "v \<noteq> NONE_dim" using assms(2) pi by (auto simp: no_free_entry_def)
  obtain n where n: "get_dim_by_reverse_idx (dev_mat st) v = Inr n" using reverse_value [OF assms(1) pk v] by blast
  let ?st' = "insert_operator (ConcatByAxis (int k) v n) (map_put (int k) NONE_dim st)"
  have "force_concat st = Inr ?st'" using p n k by (simp add: force_concat_def)
  moreover have "infer_inv ?st' \<and> step_rel st ?st' \<and> length (operator_list st) < length (operator_list ?st')"
    by (rule inv_concat [OF assms(1) pk v]) (auto simp: same_problem_def map_put_def insert_operator_def)
  ultimately show ?thesis by blast
qed

lemma redistribution_ends:
  "infer_inv st \<Longrightarrow> alist_weight (pending st) + 2 < fuel \<Longrightarrow>
     \<exists>st'. infer_redistribution_operator fuel st = Some (Inr st') \<and> infer_inv st' \<and> step_rel st st' \<and> pending st' = []"
proof (induction fuel arbitrary: st)
  case 0
  then show ?case by simp
next
  case (Suc fuel)
  show ?case
  proof (cases "pending st = []")
    case True
    then show ?thesis using Suc.prems by simp
  next
    case False
    obtain st1 where st1: "split_loop fuel st = Some (Inr st1)" "infer_inv st1" "step_rel st st1"
      "length (operator_list st1) = length (operator_list st) \<longrightarrow> no_free_entry st1"
      using split_loop_ends [OF Suc.prems(1), of fuel] Suc.prems(2) by auto
    have "good_step st1 (infer_concat_by_axis st1)"
      unfolding infer_concat_by_axis_def using pass_good [of concat_key] concat_key_good st1(2) by blast
    then obtain st2 where st2: "infer_concat_by_axis st1 = Inr st2" "infer_inv st2" "step_rel st1 st2"
      by (auto simp: good_step_def)
    note tr = step_rel_trans [OF st1(3) st2(3)]
    have go_on: "\<exists>st'. infer_redistribution_operator fuel s = Some (Inr st') \<and> infer_inv st' \<and> step_rel st st' \<and> pending st' = []"
      if s: "infer_inv s" "step_rel st s" "length (operator_list st) < length (operator_list s)" for s
    proof -
      have "alist_weight (pending s) + 2 < fuel" using s(2,3) Suc.prems(2) unfolding step_rel_def by auto
      from Suc.IH [OF s(1) this] show ?thesis using step_rel_trans [OF s(2)] by blast
    qed
    show ?thesis
    proof (cases "length (operator_list st) = length (operator_list st2)")
      case same: True
      then have "length (operator_list st1) = length (operator_list st)"
        "length (operator_list st2) = length (operator_list st1)"
        using step_ops [OF st1(3)] step_ops [OF st2(3)] by auto
      then have "st2 = st1" "no_free_entry st1"
        using st1(4) concat_pass_noop [OF st1(2) st2(1) [unfolded infer_concat_by_axis_def]] by auto
      show ?thesis
      proof (cases "pending st2 = []")
        case True
        moreover have "infer_redistribution_operator fuel st2 = Some (Inr st2)"
          using True Suc.prems(2) by (cases fuel) auto
        ultimately show ?thesis using st1(1) st2(1,2) same False tr by auto
      next
        case pend: False
        obtain st3 where st3: "force_concat st2 = Inr st3" "infer_inv st3" "step_rel st2 st3"
          "length (operator_list st2) < length (operator_list st3)"
          using force_concat_step [OF st2(2) _ pend] \<open>st2 = st1\<close> \<open>no_free_entry st1\<close> by auto
        show ?thesis using go_on [OF st3(2) step_rel_trans [OF tr st3(3)]] st3(1,4) same pend False st1(1) st2(1)
          by auto
      qed
    next
      case diff: False
      then have "length (operator_list st) < length (operator_list st2)" using step_ops [OF tr] by simp
      from go_on [OF st2(2) tr this] show ?thesis using st1(1) st2(1) diff False by auto
    qed
  qed
qed

section \<open>The redistribution is right\<close>

lemma init_pending: "map_of (pending (init_infer dm tin tout permute)) i =
    (if 0 \<le> i \<and> i < int (length tin) then Some (tin ! nat i) else None)"
proof -
  have "map_of (map (\<lambda>(i, d). (int i, d)) (enumerate n xs)) i =
      (if int n \<le> i \<and> i < int (n + length xs) then Some (xs ! (nat i - n)) else None)"
    for n and xs :: "tm_entry list"
  proof (induction xs arbitrary: n)
    case (Cons x xs)
    show ?case by (auto simp: Cons.IH nth_Cons' nat_diff_distrib' Suc_diff_Suc split: if_splits)
  qed simp
  from this [of 0 tin] show ?thesis by (simp add: init_infer_def)
qed

lemma init_keys: "map fst (pending (init_infer dm tin tout permute)) = map int [0..<length tin]"
  by (rule nth_equalityI) (simp_all add: init_infer_def enumerate_eq_zip)

lemma init_inv:
  assumes "single_case dm tin tout"
  shows "infer_inv (init_infer dm tin tout permute)"
proof -
  let ?st = "init_infer dm tin tout permute"
  have len: "length tout = length tin" using assms by (simp add: single_case_def)
  have "current_sharding ?st = sharding_of tin"
    unfolding current_sharding_def sharding_of_def current_def init_pending
    by (rule nth_equalityI) (simp_all add: len init_infer_def)
  moreover have "distinct (map fst (pending ?st))" by (simp add: init_keys distinct_map)
  ultimately show ?thesis
    using assms unfolding infer_inv_def init_pending
    by (auto simp: init_infer_def len split: if_splits)
qed

lemma init_weight: "alist_weight (pending (init_infer dm tin tout permute)) \<le> 3 * length tin"
proof -
  have "alist_weight xs \<le> 3 * length xs" for xs
    by (induction xs) (auto simp: alist_weight_def entry_weight_def)
  from this [of "pending (init_infer dm tin tout permute)"] show ?thesis by (simp add: init_infer_def)
qed

text \<open>
  C31.  For tensor maps that shard every dimension by at most one mesh axis and use no mesh axis
  twice, the inference always ends (with fuel three times the rank plus three) and raises nothing, and the
  operators it emits are applicable one after the other and turn the input sharding into the
  output sharding, with or without all-to-alls.  For a dimension sharded by several mesh axes it does not hold: see
  the lemma below.
\<close>

theorem redistribution_correct:
  assumes "single_case dm tin tout" "3 * length tin + 2 < fuel"
  shows "\<exists>st. infer_redistribution_operator fuel (init_infer dm tin tout permute) = Some (Inr st) \<and>
    pending st = [] \<and> apply_ops (operator_list st) (sharding_of tin) = Some (sharding_of tout)"
proof -
  let ?st = "init_infer dm tin tout permute"
  have "alist_weight (pending ?st) + 2 < fuel" using init_weight [of dm tin tout permute] assms(2) by linarith
  from redistribution_ends [OF init_inv [OF assms(1)] this] obtain st where
    st: "infer_redistribution_operator fuel ?st = Some (Inr st)" "infer_inv st" "step_rel ?st st" "pending st = []"
    by blast
  have prob: "in_tensor_map st = tin" "out_tensor_map st = tout"
    using st(3) by (auto simp: step_rel_def same_problem_def init_infer_def)
  have "current_sharding st = sharding_of tout"
    unfolding current_sharding_def current_def sharding_of_def
    by (rule nth_equalityI) (simp_all add: st(4) prob)
  then show ?thesis using st inv_ops [OF st(2)] prob by auto
qed

theorem redistribution_correct_witness:
  "\<exists>st. infer_redistribution_operator 12
      (init_infer [2, 4] [TMInt 0, TMInt 1, TMInt (-1)] [TMInt 1, TMInt (-1), TMInt 0] True) = Some (Inr st) \<and>
    pending st = [] \<and>
    apply_ops (operator_list st) (sharding_of [TMInt 0, TMInt 1, TMInt (-1)]) =
      Some (sharding_of [TMInt 1, TMInt (-1), TMInt 0])"
  by (rule redistribution_correct) (simp_all add: single_case_def single_axes_def)

text \<open>
  The excluded case: a target dimension sharded by two mesh axes, one of which shards another dimension of the
  input.  The test for a conflict compares the whole tuple only, so the split by both axes comes first,
  while one of them still shards the other dimension; the concatenation that frees it comes too late.
\<close>

lemma tuple_target_splits_too_early:
  "map_option (map_sum id operator_list)
     (infer_redistribution_operator 20 (init_infer [2, 2, 2] [TMInt (-1), TMInt 0] [TMTuple [1, 0], TMInt (-1)] permute)) =
   Some (Inr [SplitByAxis 0 (TMTuple [1, 0]) 4, ConcatByAxis 1 (TMInt 0) 2])"
  "apply_ops [SplitByAxis 0 (TMTuple [1, 0]) 4, ConcatByAxis 1 (TMInt 0) 2] (sharding_of [TMInt (-1), TMInt 0]) = None"
  by (cases permute) code_simp+

end
