(* ===== verification/LayoutMap.thy ===== *)
theory LayoutMap
  imports ShardRange "HOL-Library.Multiset"
begin

text \<open>
  Placements (\<open>hyper_parallel/core/dtensor/placement_types.py\<close>) and the \<open>Layout\<close> class
  (\<open>hyper_parallel/core/dtensor/layout.py\<close>): a placement per mesh dimension on one side, a
  tensor map with one entry per tensor dimension on the other, and the two conversions between
  them.  Mesh and tensor dimensions are \<open>int\<close>, as in the code, which accepts negative ones.
\<close>

section \<open>Placements\<close>

datatype placement =
    Shard int bool                     \<comment> \<open>\<open>dim\<close>, \<open>uneven_shard\<close>\<close>
  | StridedShard int int bool          \<comment> \<open>\<open>dim\<close>, \<open>split_factor\<close>, \<open>uneven_shard\<close>\<close>
  | RaggedShard "int list" "int list"  \<comment> \<open>\<open>dims\<close>, \<open>local_units\<close>\<close>
  | Replicate
  | Partial string                     \<comment> \<open>\<open>reduce_op\<close>\<close>

definition make_strided_shard :: "int \<Rightarrow> int \<Rightarrow> bool \<Rightarrow> placement res" where
  "make_strided_shard dim split_factor uneven =
     (if split_factor < 1 then Inl ValueError else Inr (StridedShard dim split_factor uneven))"

definition make_ragged_shard :: "int list \<Rightarrow> int list \<Rightarrow> placement res" where
  "make_ragged_shard dims local_units =
     (if dims = [] then Inl ValueError
      else if dims \<noteq> map int [0..<length dims] then Inl ValueError
      else if local_units = [] then Inl ValueError
      else if (\<exists>u \<in> set local_units. u < 0) then Inl ValueError
      else if sum_list local_units \<le> 0 then Inl ValueError
      else Inr (RaggedShard dims local_units))"

fun is_shard :: "placement \<Rightarrow> int option \<Rightarrow> bool" where
  "is_shard (Shard d _) dim = (case dim of None \<Rightarrow> True | Some k \<Rightarrow> d = k)"
| "is_shard (StridedShard d _ _) dim = (case dim of None \<Rightarrow> True | Some k \<Rightarrow> d = k)"
| "is_shard _ dim = False"

fun is_partial :: "placement \<Rightarrow> string option \<Rightarrow> bool" where
  "is_partial (Partial op) reduce_op = (case reduce_op of None \<Rightarrow> True | Some r \<Rightarrow> op = r)"
| "is_partial _ reduce_op = False"

fun is_ragged_shard :: "placement \<Rightarrow> bool" where
  "is_ragged_shard (RaggedShard _ _) = True"
| "is_ragged_shard _ = False"

text \<open>\<open>isinstance(p, Shard)\<close> with its two attributes: \<open>StridedShard\<close> is a subclass.\<close>

fun shard_info :: "placement \<Rightarrow> (int \<times> bool) option" where
  "shard_info (Shard d u) = Some (d, u)"
| "shard_info (StridedShard d _ u) = Some (d, u)"
| "shard_info _ = None"

fun extract_ragged_loop ::
  "(nat \<times> placement) list \<Rightarrow> (nat \<times> placement) option \<Rightarrow> (nat \<times> placement) option res" where
  "extract_ragged_loop [] ragged_shard = Inr ragged_shard"
| "extract_ragged_loop ((mesh_dim, p) # ps) ragged_shard =
     (if \<not> is_ragged_shard p then extract_ragged_loop ps ragged_shard
      else if ragged_shard \<noteq> None then Inl ValueError
      else extract_ragged_loop ps (Some (mesh_dim, p)))"

definition extract_ragged_shard :: "placement list \<Rightarrow> (nat \<times> placement) option res" where
  "extract_ragged_shard ps = extract_ragged_loop (enumerate 0 ps) None"

definition replace_ragged_with_replicate :: "placement list \<Rightarrow> placement list" where
  "replace_ragged_with_replicate ps = map (\<lambda>p. if is_ragged_shard p then Replicate else p) ps"

section \<open>The layout state\<close>

datatype alias_entry = Alias string | Aliases "string list"

text \<open>
  The attributes the conversions read and write.  \<open>_compact_str\<close>, a cache of the others as a
  string, and the stride and dtype the conversions never touch are left out.
\<close>

record layout =
  mesh_shape :: "int list"
  mesh_dim_names :: "string list"
  rank_list :: "int list"
  tensor_map :: "tm_entry list option"
  partial :: "string option list"
  placements :: "placement list option"
  ragged_shard :: "(nat \<times> placement) option"
  alias_tensor_map :: "alias_entry list option"
  tensor_shape :: "int list option"

definition set_placements :: "layout \<Rightarrow> placement list option \<Rightarrow> layout res" where
  "set_placements l ps =
     (case ps of
        None \<Rightarrow> Inr (l\<lparr>placements := None, ragged_shard := None\<rparr>)
      | Some xs \<Rightarrow> rbind (extract_ragged_shard xs)
                    (\<lambda>r. Inr (l\<lparr>placements := Some xs, ragged_shard := r\<rparr>)))"

definition normal_placements :: "layout \<Rightarrow> placement list option" where
  "normal_placements l = map_option replace_ragged_with_replicate (placements l)"

definition uneven_shard_mesh_dims :: "layout \<Rightarrow> int list" where
  "uneven_shard_mesh_dims l =
     (case placements l of None \<Rightarrow> []
      | Some ps \<Rightarrow> map (int \<circ> fst)
          (filter (\<lambda>(_, p). case shard_info p of Some (_, u) \<Rightarrow> u | None \<Rightarrow> False) (enumerate 0 ps)))"

section \<open>Split factors\<close>

fun placement_split_factor :: "placement \<Rightarrow> int" where
  "placement_split_factor (StridedShard _ f _) = f"
| "placement_split_factor _ = 1"

text \<open>\<open>_build_order_positions\<close>: the dict keeps the last position of an axis listed twice.\<close>

definition order_position :: "int list \<Rightarrow> int \<Rightarrow> nat res" where
  "order_position shard_order mesh_idx =
     (case py_index (rev shard_order) mesh_idx of
        Inl _ \<Rightarrow> Inl KeyError
      | Inr i \<Rightarrow> Inr (length shard_order - 1 - i))"

definition expected_split_step ::
  "int list \<Rightarrow> int list \<Rightarrow> int \<Rightarrow> int \<Rightarrow> int \<Rightarrow> int res" where
  "expected_split_step shape shard_order mesh_idx right_mesh_idx split_factor =
     (if right_mesh_idx \<le> mesh_idx then Inr split_factor
      else rbind (order_position shard_order right_mesh_idx) (\<lambda>pr.
           rbind (order_position shard_order mesh_idx) (\<lambda>pm.
           if pr < pm then rbind (py_get shape right_mesh_idx) (\<lambda>n. Inr (split_factor * n))
           else Inr split_factor)))"

definition compute_expected_split_factors ::
  "int list \<Rightarrow> int list \<Rightarrow> int list \<Rightarrow> (int \<times> int) list res" where
  "compute_expected_split_factors shape shard_axes shard_order =
     rmap (\<lambda>mesh_idx. rbind (rfold (expected_split_step shape shard_order mesh_idx) shard_axes 1)
                        (\<lambda>f. Inr (mesh_idx, f)))
       shard_axes"

text \<open>Python's \<open>sorted\<close> is stable, as \<open>sort_key\<close> is.\<close>

definition effective_shard_axes :: "placement list \<Rightarrow> int list \<Rightarrow> int list" where
  "effective_shard_axes ps shard_axes =
     sort_key (\<lambda>mesh_idx. placement_split_factor (ps ! nat mesh_idx)) shard_axes"

section \<open>From placements to a tensor map\<close>

text \<open>\<open>str.lower\<close> on ASCII letters.\<close>

definition lower_char :: "char \<Rightarrow> char" where
  "lower_char c = (if 65 \<le> (of_char c :: nat) \<and> (of_char c :: nat) \<le> 90
                   then char_of ((of_char c :: nat) + 32) else c)"

definition extract_reduce_op :: "string \<Rightarrow> string" where
  "extract_reduce_op op = map lower_char op"

text \<open>
  One round of the loop of \<open>_build_dim_map_from_placements\<close>.  A dimension map entry is the list
  of mesh dimensions that shard the tensor dimension, empty where the code has \<open>-1\<close>.
\<close>

definition dim_map_step ::
  "int \<Rightarrow> nat \<times> placement \<Rightarrow> int list list \<times> string option list \<Rightarrow>
     (int list list \<times> string option list) res" where
  "dim_map_step dim ip st =
     (let (mesh_idx, p) = ip; (dim_map, part) = st
      in case shard_info p of
           Some (shard_dim, _) \<Rightarrow>
             if shard_dim < - dim \<or> dim \<le> shard_dim then Inl ValueError
             else let d = nat (if shard_dim < 0 then shard_dim + dim else shard_dim)
                  in Inr (dim_map[d := dim_map ! d @ [int mesh_idx]], part)
         | None \<Rightarrow>
             (case p of
                Partial op \<Rightarrow> rbind (py_set part (int mesh_idx) (Some (extract_reduce_op op)))
                                (\<lambda>part'. Inr (dim_map, part'))
              | _ \<Rightarrow> Inr (dim_map, part)))"

definition validate_strided_axes :: "int list \<Rightarrow> placement list \<Rightarrow> int list \<Rightarrow> unit res" where
  "validate_strided_axes shape ps shard_axes =
     (if shard_axes = [] then Inr ()
      else rbind (compute_expected_split_factors shape shard_axes (effective_shard_axes ps shard_axes))
             (\<lambda>expected.
               if (\<forall>(mesh_idx, f) \<in> set expected. placement_split_factor (ps ! nat mesh_idx) = f)
               then Inr () else Inl ValueError))"

definition convert_axes :: "nat \<Rightarrow> int list \<Rightarrow> tm_entry" where
  "convert_axes device_dim_count axes =
     (case map (\<lambda>axis. int device_dim_count - 1 - axis) axes of
        [] \<Rightarrow> TMInt (-1)
      | [m] \<Rightarrow> TMInt m
      | ms \<Rightarrow> TMTuple ms)"

definition readable_dim :: "string list \<Rightarrow> int \<Rightarrow> string res" where
  "readable_dim names d =
     (if d = -1 then Inr ''None'' else py_get names (int (length names) - 1 - d))"

definition build_readable_tensor_map :: "string list \<Rightarrow> tm_entry list \<Rightarrow> alias_entry list res" where
  "build_readable_tensor_map names tm =
     rmap (\<lambda>e. case e of
         TMTuple ms \<Rightarrow> rbind (rmap (readable_dim names) ms) (\<lambda>xs. Inr (Aliases xs))
       | TMInt m \<Rightarrow> rbind (readable_dim names m) (\<lambda>x. Inr (Alias x))) tm"

definition build_dim_map ::
  "int list \<Rightarrow> placement list \<Rightarrow> string option list \<Rightarrow> int \<Rightarrow> (int list list \<times> string option list) res" where
  "build_dim_map shape ps part dim =
     rbind (rfold (dim_map_step dim) (enumerate 0 (replace_ragged_with_replicate ps))
              (replicate (nat dim) [], part)) (\<lambda>(dim_map, part').
     rbind (rmap (validate_strided_axes shape ps) dim_map) (\<lambda>_.
     Inr (map (\<lambda>axes. if length axes \<le> 1 then axes else effective_shard_axes ps axes) dim_map, part')))"

definition handle_zero_dim_placement :: "layout \<Rightarrow> placement list \<Rightarrow> (layout \<times> tm_entry list) res" where
  "handle_zero_dim_placement l ps =
     rbind (rfold (\<lambda>(i, p) part. case p of
               Partial op \<Rightarrow> py_set part (int i) (Some (extract_reduce_op op))
             | _ \<Rightarrow> Inr part)
         (enumerate 0 (replace_ragged_with_replicate ps)) (partial l)) (\<lambda>part.
     Inr (l\<lparr>tensor_map := Some [], alias_tensor_map := Some [], partial := part\<rparr>, []))"

definition placement_to_tensor_map :: "layout \<Rightarrow> int \<Rightarrow> (layout \<times> tm_entry list) res" where
  "placement_to_tensor_map l dim =
     (if dim < 0 then Inl ValueError
      else case placements l of None \<Rightarrow> Inl TypeError
      | Some ps \<Rightarrow>
          if dim = 0 then handle_zero_dim_placement l ps
          else rbind (build_dim_map (mesh_shape l) ps (partial l) dim) (\<lambda>(dim_map, part).
               let tm = map (convert_axes (length (mesh_shape l))) dim_map
               in rbind (build_readable_tensor_map (mesh_dim_names l) tm) (\<lambda>alias.
                  Inr (l\<lparr>tensor_map := Some tm, partial := part, alias_tensor_map := Some alias\<rparr>, tm))))"

section \<open>From a tensor map to placements\<close>

definition shard_for_axis :: "int \<Rightarrow> int \<Rightarrow> bool \<Rightarrow> placement" where
  "shard_for_axis tensor_dim split_factor uneven =
     (if 1 < split_factor then StridedShard tensor_dim split_factor uneven else Shard tensor_dim uneven)"

text \<open>\<open>uneven_shard_dims.get(mesh_idx) == tensor_dim\<close>, over the placements of the layout.\<close>

definition uneven_on :: "placement list option \<Rightarrow> int \<Rightarrow> int \<Rightarrow> bool" where
  "uneven_on ps mesh_idx tensor_dim =
     (case ps of None \<Rightarrow> False
      | Some xs \<Rightarrow> 0 \<le> mesh_idx \<and> mesh_idx < int (length xs) \<and>
          shard_info (xs ! nat mesh_idx) = Some (tensor_dim, True))"

definition placements_of_dim ::
  "layout \<Rightarrow> nat \<times> tm_entry \<Rightarrow> placement list \<Rightarrow> placement list res" where
  "placements_of_dim l ie ps =
     (let (tensor_dim, mapping) = ie;
          valid_mapping = filter (\<lambda>m. m \<noteq> -1) (entry_dims mapping);
          mesh_indices = map (\<lambda>m. int (length (mesh_shape l)) - 1 - m) valid_mapping;
          shard_axes = sort mesh_indices
      in rbind (compute_expected_split_factors (mesh_shape l) shard_axes mesh_indices) (\<lambda>expected.
         rfold (\<lambda>(mesh_idx, split_factor) xs.
             py_set xs mesh_idx (shard_for_axis (int tensor_dim) split_factor
               (uneven_on (placements l) mesh_idx (int tensor_dim)))) expected ps))"

definition tensor_map_to_placement :: "layout \<Rightarrow> (layout \<times> placement list) res" where
  "tensor_map_to_placement l =
     (case tensor_map l of None \<Rightarrow> Inl ValueError
      | Some tm \<Rightarrow>
          rbind (rfold (placements_of_dim l) (enumerate 0 tm)
                   (replicate (length (mesh_shape l)) Replicate)) (\<lambda>ps1.
          rbind (rfold (\<lambda>(mesh_idx, op) xs. case op of None \<Rightarrow> Inr xs
                     | Some r \<Rightarrow> py_set xs (int mesh_idx) (Partial r))
                   (enumerate 0 (partial l)) ps1) (\<lambda>ps2.
          rbind (case ragged_shard l of None \<Rightarrow> Inr ps2
                 | Some (mesh_dim, p) \<Rightarrow> py_set ps2 (int mesh_dim) p) (\<lambda>ps3.
          rbind (set_placements l (Some ps3)) (\<lambda>l'.
          rbind (build_readable_tensor_map (mesh_dim_names l) tm) (\<lambda>alias.
          Inr (l'\<lparr>alias_tensor_map := Some alias\<rparr>, ps3)))))))"

section \<open>The dimension map\<close>

text \<open>The tensor dimension a placement shards, counted from the front.\<close>

definition shard_target :: "int \<Rightarrow> placement \<Rightarrow> nat option" where
  "shard_target dim p = map_option (\<lambda>(d, _). nat (if d < 0 then d + dim else d)) (shard_info p)"

text \<open>The mesh dimensions that shard tensor dimension \<open>t\<close>, in increasing order.\<close>

fun axes_for :: "int \<Rightarrow> nat \<Rightarrow> placement list \<Rightarrow> nat \<Rightarrow> int list" where
  "axes_for dim k [] t = []"
| "axes_for dim k (p # ps) t =
     (if shard_target dim p = Some t then [int k] else []) @ axes_for dim (Suc k) ps t"

lemma in_axes_for:
  "x \<in> set (axes_for dim k ps t) \<longleftrightarrow> (\<exists>i < length ps. x = int (k + i) \<and> shard_target dim (ps ! i) = Some t)"
  by (induction ps arbitrary: k) (auto simp: Ex_less_Suc2)

lemma sorted_axes_for: "sorted (axes_for dim k ps t) \<and> distinct (axes_for dim k ps t)"
  by (induction ps arbitrary: k) (auto simp: in_axes_for)

definition shards_in_bounds :: "int \<Rightarrow> placement \<Rightarrow> bool" where
  "shards_in_bounds dim p = (case shard_info p of None \<Rightarrow> True | Some (d, _) \<Rightarrow> - dim \<le> d \<and> d < dim)"

lemma shard_target_less: "shards_in_bounds dim p \<Longrightarrow> shard_target dim p = Some t \<Longrightarrow> t < nat dim"
  by (auto simp: shards_in_bounds_def shard_target_def split: option.splits if_splits)

definition partial_after :: "placement \<Rightarrow> string option \<Rightarrow> string option" where
  "partial_after p old = (case p of Partial op \<Rightarrow> Some (extract_reduce_op op) | _ \<Rightarrow> old)"

lemma dim_map_step_eq:
  assumes "dim_map_step dim (k, p) (dm, part) = Inr (dm', part')" "length dm = nat dim" "k < length part"
  shows "shards_in_bounds dim p \<and> length dm' = nat dim \<and> part' = part[k := partial_after p (part ! k)] \<and>
    (\<forall>t < nat dim. dm' ! t = dm ! t @ (if shard_target dim p = Some t then [int k] else []))"
  using assms
  by (cases p) (auto simp: dim_map_step_def shards_in_bounds_def shard_target_def partial_after_def
      nth_list_update Let_def split: if_splits)

lemma dim_map_fold:
  "rfold (dim_map_step dim) (enumerate k ps) (dm, part) = Inr (dm', part') \<Longrightarrow>
   length dm = nat dim \<Longrightarrow> k + length ps \<le> length part \<Longrightarrow>
     (\<forall>p \<in> set ps. shards_in_bounds dim p) \<and> length dm' = nat dim \<and> length part' = length part \<and>
     (\<forall>t < nat dim. dm' ! t = dm ! t @ axes_for dim k ps t) \<and>
     (\<forall>i < length part. part' ! i =
        (if k \<le> i \<and> i < k + length ps then partial_after (ps ! (i - k)) (part ! i) else part ! i))"
proof (induction ps arbitrary: k dm part)
  case Nil
  then show ?case by auto
next
  case (Cons p ps)
  obtain dm1 part1 where st: "dim_map_step dim (k, p) (dm, part) = Inr (dm1, part1)"
    "rfold (dim_map_step dim) (enumerate (Suc k) ps) (dm1, part1) = Inr (dm', part')"
    using Cons.prems(1) by auto
  have k: "k < length part" using Cons.prems(3) by simp
  note one = dim_map_step_eq [OF st(1) Cons.prems(2) k]
  note rest = Cons.IH [OF st(2)]
  show ?case using one rest Cons.prems(3)
    by (auto simp: nth_list_update nth_Cons' Suc_le_eq)
qed

lemma effective_axes_props:
  "set (effective_shard_axes ps axes) = set axes \<and> mset (effective_shard_axes ps axes) = mset axes \<and>
   length (effective_shard_axes ps axes) = length axes"
  by (simp add: effective_shard_axes_def)

lemma effective_axes_short: "length axes \<le> 1 \<Longrightarrow> effective_shard_axes ps axes = axes"
  by (cases axes) (auto simp: effective_shard_axes_def)

lemma compute_expected_keys:
  "compute_expected_split_factors shape axes order = Inr ex \<Longrightarrow> map fst ex = axes"
proof -
  assume "compute_expected_split_factors shape axes order = Inr ex"
  then have "list_all2 (\<lambda>m p. fst p = m) axes ex"
    unfolding compute_expected_split_factors_def rmap_Inr_iff
    by (rule list_all2_mono) auto
  then show ?thesis by (induction rule: list_all2_induct) auto
qed

lemma validate_expected:
  assumes "validate_strided_axes shape ps axes = Inr ()" "axes \<noteq> []"
  shows "compute_expected_split_factors shape axes (effective_shard_axes ps axes) =
     Inr (map (\<lambda>m. (m, placement_split_factor (ps ! nat m))) axes)"
proof -
  obtain ex where ex: "compute_expected_split_factors shape axes (effective_shard_axes ps axes) = Inr ex"
    "\<forall>(m, f) \<in> set ex. placement_split_factor (ps ! nat m) = f"
    using assms by (auto simp: validate_strided_axes_def split: if_splits)
  have "map ((\<lambda>m. (m, placement_split_factor (ps ! nat m))) \<circ> fst) ex = ex"
    using ex(2) by (intro map_idI) auto
  then have "ex = map (\<lambda>m. (m, placement_split_factor (ps ! nat m))) (map fst ex)" by simp
  then show ?thesis using ex(1) compute_expected_keys [OF ex(1)] by simp
qed

lemma entry_dims_convert:
  "\<forall>a \<in> set axes. a < int n \<Longrightarrow>
     filter (\<lambda>m. m \<noteq> -1) (entry_dims (convert_axes n axes)) = map (\<lambda>a. int n - 1 - a) axes"
  by (cases axes rule: remdups_adj.cases) (auto simp: convert_axes_def filter_id_conv)

lemma rfold_py_set:
  "\<forall>m \<in> set ms. 0 \<le> m \<and> m < int (length xs) \<Longrightarrow>
     \<exists>ys. rfold (\<lambda>(m, f) zs. py_set zs m (g m f)) (map (\<lambda>m. (m, h m)) ms) xs = Inr ys \<and> length ys = length xs \<and>
       (\<forall>i < length xs. ys ! i = (if int i \<in> set ms then g (int i) (h (int i)) else xs ! i))"
proof (induction ms arbitrary: xs)
  case Nil
  then show ?case by simp
next
  case (Cons m ms)
  then obtain j where j: "m = int j" "j < length xs" by (metis list.set_intros(1) nonneg_int_cases of_nat_less_iff)
  from Cons.prems have "\<forall>k \<in> set ms. 0 \<le> k \<and> k < int (length (xs[j := g m (h m)]))" by simp
  from Cons.IH [OF this] obtain ys where
    "rfold (\<lambda>(m, f) zs. py_set zs m (g m f)) (map (\<lambda>m. (m, h m)) ms) (xs[j := g m (h m)]) = Inr ys"
    "length ys = length xs"
    "\<forall>i < length xs. ys ! i = (if int i \<in> set ms then g (int i) (h (int i)) else xs[j := g m (h m)] ! i)"
    by auto
  then show ?case using j by (intro exI [of _ ys]) (auto simp: nth_list_update)
qed

section \<open>The round trip\<close>

text \<open>
  What a placement looks like once it has been through a tensor map of a tensor with \<open>dim\<close>
  dimensions: its dimension counted from the front, a split factor of one no longer strided,
  the reduce operation in lower case.  A placement written with a negative dimension loses its
  uneven mark, because \<open>tensor_map_to_placement\<close> compares the unnormalised dimension.
\<close>

fun normal_placement :: "int \<Rightarrow> placement \<Rightarrow> placement" where
  "normal_placement dim (Shard d u) = Shard (if d < 0 then d + dim else d) (u \<and> 0 \<le> d)"
| "normal_placement dim (StridedShard d f u) =
     shard_for_axis (if d < 0 then d + dim else d) f (u \<and> 0 \<le> d)"
| "normal_placement dim (Partial op) = Partial (extract_reduce_op op)"
| "normal_placement dim p = p"

lemma replace_nth [simp]:
  "i < length ps \<Longrightarrow> replace_ragged_with_replicate ps ! i = (if is_ragged_shard (ps ! i) then Replicate else ps ! i)"
  "length (replace_ragged_with_replicate ps) = length ps"
  by (simp_all add: replace_ragged_with_replicate_def)

lemma shard_target_replace [simp]: "shard_target dim (if is_ragged_shard p then Replicate else p) = shard_target dim p"
  by (cases p) (simp_all add: shard_target_def)

lemma axes_for_replace [simp]: "axes_for dim k (replace_ragged_with_replicate ps) t = axes_for dim k ps t"
  unfolding replace_ragged_with_replicate_def by (induction ps arbitrary: k) simp_all

lemma partial_after_replace [simp]:
  "partial_after (if is_ragged_shard p then Replicate else p) old = partial_after p old"
  by (cases p) (simp_all add: partial_after_def)

lemma shard_for_axis_normal:
  assumes "shards_in_bounds dim p" "shard_target dim p = Some t" "0 < dim"
  shows "shard_for_axis (int t) (placement_split_factor p) (shard_info p = Some (int t, True)) = normal_placement dim p"
  using assms by (cases p) (auto simp: shards_in_bounds_def shard_target_def shard_for_axis_def)

lemma placements_of_dim_step:
  assumes l: "length (mesh_shape l) = n" "placements l = Some ps" "length ps = n" "length xs = n"
    and b: "\<forall>p \<in> set ps. shards_in_bounds dim p" "0 < dim"
    and v: "validate_strided_axes (mesh_shape l) ps (axes_for dim 0 ps t) = Inr ()"
  shows "\<exists>ys. placements_of_dim l (t, convert_axes n (effective_shard_axes ps (axes_for dim 0 ps t))) xs = Inr ys \<and>
     length ys = n \<and>
     (\<forall>i < n. ys ! i = (if shard_target dim (ps ! i) = Some t then normal_placement dim (ps ! i) else xs ! i))"
proof -
  let ?A = "axes_for dim 0 ps t"
  let ?E = "effective_shard_axes ps ?A"
  let ?g = "\<lambda>m f. shard_for_axis (int t) f (uneven_on (placements l) m (int t))"
  have A: "\<forall>m \<in> set ?A. 0 \<le> m \<and> m < int n" using l(3) by (auto simp: in_axes_for)
  have E: "set ?E = set ?A" "mset ?E = mset ?A" using effective_axes_props by auto
  have idx: "map (\<lambda>m. int n - 1 - m) (filter (\<lambda>m. m \<noteq> -1) (entry_dims (convert_axes n ?E))) = ?E"
    using A E(1) by (simp add: entry_dims_convert comp_def)
  have "sort ?E = ?A" using sorted_axes_for E(2) by (intro properties_for_sort) auto
  then have fold: "placements_of_dim l (t, convert_axes n ?E) xs =
      rbind (compute_expected_split_factors (mesh_shape l) ?A ?E)
        (\<lambda>ex. rfold (\<lambda>(m, f) zs. py_set zs m (?g m f)) ex xs)"
    using l(1) idx by (simp add: placements_of_dim_def Let_def case_prod_unfold)
  have ex: "compute_expected_split_factors (mesh_shape l) ?A ?E =
      Inr (map (\<lambda>m. (m, placement_split_factor (ps ! nat m))) ?A)"
    using validate_expected [OF v] by (cases "?A = []") (auto simp: compute_expected_split_factors_def)
  obtain ys where ys: "rfold (\<lambda>(m, f) zs. py_set zs m (?g m f))
        (map (\<lambda>m. (m, placement_split_factor (ps ! nat m))) ?A) xs = Inr ys" "length ys = length xs"
      "\<forall>i < length xs. ys ! i = (if int i \<in> set ?A then ?g (int i) (placement_split_factor (ps ! nat (int i))) else xs ! i)"
    using rfold_py_set [of ?A xs ?g "\<lambda>m. placement_split_factor (ps ! nat m)"] A l(4) by auto
  have "ys ! i = (if shard_target dim (ps ! i) = Some t then normal_placement dim (ps ! i) else xs ! i)"
    if i: "i < n" for i
  proof -
    have "int i \<in> set ?A \<longleftrightarrow> shard_target dim (ps ! i) = Some t" using i l(3) by (auto simp: in_axes_for)
    moreover have "uneven_on (placements l) (int i) (int t) = (shard_info (ps ! i) = Some (int t, True))"
      using i l(2,3) by (simp add: uneven_on_def)
    moreover have "shards_in_bounds dim (ps ! i)" using b(1) i l(3) by simp
    ultimately show ?thesis
      using ys(3) i l(4) shard_for_axis_normal [OF _ _ b(2)] by simp
  qed
  then show ?thesis using fold ex ys(1,2) l(4) by auto
qed

lemma placements_of_dims:
  assumes l: "length (mesh_shape l) = n" "placements l = Some ps" "length ps = n"
    and b: "\<forall>p \<in> set ps. shards_in_bounds dim p" "0 < dim"
    and v: "\<And>t. t < nat dim \<Longrightarrow> validate_strided_axes (mesh_shape l) ps (axes_for dim 0 ps t) = Inr ()"
  shows "\<exists>ys. rfold (placements_of_dim l)
       (enumerate 0 (map (\<lambda>t. convert_axes n (effective_shard_axes ps (axes_for dim 0 ps t))) [0..<nat dim]))
       (replicate n Replicate) = Inr ys \<and> length ys = n \<and>
     (\<forall>i < n. ys ! i = (if shard_target dim (ps ! i) \<noteq> None then normal_placement dim (ps ! i) else Replicate))"
proof -
  let ?I = "\<lambda>k xs. length xs = n \<and> (\<forall>i < n. xs ! i =
      (case shard_target dim (ps ! i) of Some t \<Rightarrow> if t < k then normal_placement dim (ps ! i) else Replicate
       | None \<Rightarrow> Replicate))"
  let ?tm = "map (\<lambda>t. convert_axes n (effective_shard_axes ps (axes_for dim 0 ps t))) [0..<nat dim]"
  have "\<exists>s'. rfold (placements_of_dim l) (enumerate 0 ?tm) (replicate n Replicate) = Inr s' \<and> ?I (0 + length ?tm) s'"
  proof (rule rfold_enumerate)
    fix j xs
    assume j: "j < length ?tm" and I: "?I (0 + j) xs"
    then show "\<exists>s'. placements_of_dim l (0 + j, ?tm ! j) xs = Inr s' \<and> ?I (Suc (0 + j)) s'"
      using placements_of_dim_step [OF l(1,2,3) _ b v [of j], of xs]
      by (auto split: option.splits)
  qed (auto split: option.splits)
  then show ?thesis
    using b(1) l(3) shard_target_less [of dim]
    by (fastforce split: option.splits)
qed

lemma extract_ragged_normal:
  "extract_ragged_shard (map (normal_placement dim) ps) = extract_ragged_shard ps"
proof -
  have r: "is_ragged_shard (normal_placement dim p) = is_ragged_shard p" for p
    by (cases p) (simp_all add: shard_for_axis_def)
  have "extract_ragged_loop (enumerate k (map (normal_placement dim) ps)) r = extract_ragged_loop (enumerate k ps) r" for k r
  proof (induction ps arbitrary: k r)
    case (Cons p ps)
    then show ?case by (cases p) (auto simp: r shard_for_axis_def)
  qed simp
  then show ?thesis by (simp add: extract_ragged_shard_def)
qed

lemma extract_ragged_loop_None:
  "extract_ragged_loop (enumerate k ps) (Some r) = Inr res \<Longrightarrow> res = Some r \<and> (\<forall>p \<in> set ps. \<not> is_ragged_shard p)"
  by (induction ps arbitrary: k) (auto split: if_splits)

lemma extract_ragged_cases:
  "extract_ragged_loop (enumerate k ps) None = Inr res \<Longrightarrow>
     (case res of None \<Rightarrow> \<forall>p \<in> set ps. \<not> is_ragged_shard p
      | Some (i, p) \<Rightarrow> k \<le> i \<and> i < k + length ps \<and> ps ! (i - k) = p \<and> is_ragged_shard p \<and>
          (\<forall>j < length ps. is_ragged_shard (ps ! j) \<longrightarrow> k + j = i))"
proof (induction ps arbitrary: k)
  case Nil
  then show ?case by simp
next
  case (Cons p ps)
  show ?case
  proof (cases "is_ragged_shard p")
    case True
    then have e: "extract_ragged_loop (enumerate (Suc k) ps) (Some (k, p)) = Inr res"
      using Cons.prems by simp
    have res: "res = Some (k, p)" and none: "\<not> is_ragged_shard (ps ! j)" if "j < length ps" for j
      using extract_ragged_loop_None [OF e] that by simp_all
    have "k + j = k" if "j < Suc (length ps)" "is_ragged_shard ((p # ps) ! j)" for j
      using that none by (cases j) simp_all
    then show ?thesis using True extract_ragged_loop_None [OF e] by simp
  next
    case False
    then have "extract_ragged_loop (enumerate (Suc k) ps) None = Inr res" using Cons.prems by simp
    from Cons.IH [OF this] show ?thesis using False
      by (auto simp: less_Suc_eq_0_disj nth_Cons' Suc_le_eq split: option.splits)
  qed
qed

lemma partial_override:
  assumes "length part = length xs"
  shows "\<exists>ys. rfold (\<lambda>(i, op) zs. case op of None \<Rightarrow> Inr zs | Some r \<Rightarrow> py_set zs (int i) (Partial r))
       (enumerate 0 part) xs = Inr ys \<and> length ys = length xs \<and>
     (\<forall>i < length xs. ys ! i = (case part ! i of None \<Rightarrow> xs ! i | Some r \<Rightarrow> Partial r))"
proof -
  let ?I = "\<lambda>k ys. length ys = length xs \<and>
      (\<forall>i < length xs. ys ! i = (if i < k then (case part ! i of None \<Rightarrow> xs ! i | Some r \<Rightarrow> Partial r) else xs ! i))"
  let ?f = "\<lambda>(i, op) zs. case op of None \<Rightarrow> Inr zs | Some r \<Rightarrow> py_set zs (int i) (Partial r)"
  have "\<exists>s'. rfold ?f (enumerate 0 part) xs = Inr s' \<and> ?I (0 + length part) s'"
  proof (rule rfold_enumerate)
    fix j ys
    assume "j < length part" "?I (0 + j) ys"
    then show "\<exists>s'. ?f (0 + j, part ! j) ys = Inr s' \<and> ?I (Suc (0 + j)) s'"
      using assms by (cases "part ! j") (auto simp: nth_list_update less_Suc_eq)
  qed simp
  then show ?thesis using assms by auto
qed

lemma build_dim_map_props:
  assumes "build_dim_map shape ps part dim = Inr (dm, part')" "0 < dim" "length part = length ps"
  shows "(\<forall>p \<in> set ps. shards_in_bounds dim p) \<and> length part' = length ps \<and>
    (\<forall>i < length ps. part' ! i = partial_after (ps ! i) (part ! i)) \<and>
    (\<forall>t < nat dim. validate_strided_axes shape ps (axes_for dim 0 ps t) = Inr ()) \<and>
    dm = map (\<lambda>t. effective_shard_axes ps (axes_for dim 0 ps t)) [0..<nat dim]"
proof -
  let ?nps = "replace_ragged_with_replicate ps"
  obtain dm0 us where f: "rfold (dim_map_step dim) (enumerate 0 ?nps) (replicate (nat dim) [], part) = Inr (dm0, part')"
    "rmap (validate_strided_axes shape ps) dm0 = Inr us"
    "dm = map (\<lambda>axes. if length axes \<le> 1 then axes else effective_shard_axes ps axes) dm0"
    using assms(1) by (auto simp: build_dim_map_def)
  note d = dim_map_fold [OF f(1)]
  have b: "\<forall>p \<in> set ?nps. shards_in_bounds dim p" and l0: "length dm0 = nat dim"
    and ax: "\<forall>t < nat dim. dm0 ! t = axes_for dim 0 ps t" and lp: "length part' = length ps"
    using d assms(3) by auto
  have pa: "\<forall>i < length ps. part' ! i = partial_after (ps ! i) (part ! i)"
    using d assms(3) by simp
  have dm0: "dm0 = map (axes_for dim 0 ps) [0..<nat dim]"
    using l0 ax by (intro nth_equalityI) auto
  have "shards_in_bounds dim p" if "p \<in> set ps" for p
    using b that by (cases "is_ragged_shard p"; cases p)
      (force simp: replace_ragged_with_replicate_def shards_in_bounds_def)+
  moreover have "validate_strided_axes shape ps (axes_for dim 0 ps t) = Inr ()" if "t < nat dim" for t
    using rmap_nth [OF f(2), of t] that l0 ax by simp
  moreover have "dm = map (\<lambda>t. effective_shard_axes ps (axes_for dim 0 ps t)) [0..<nat dim]"
    unfolding f(3) dm0 by (simp add: effective_axes_short)
  ultimately show ?thesis using pa lp by blast
qed

section \<open>Properties\<close>

text \<open>
  C3.  Placements survive the round trip through a tensor map.  If \<open>placement_to_tensor_map\<close>
  accepts the placements of a layout, \<open>tensor_map_to_placement\<close> gives them back, normalised:
  the mesh dimensions, the order of a strided sharding, the partial reductions and the ragged
  placement are all recovered.
\<close>

theorem placement_tensor_map_roundtrip:
  assumes "placements l = Some ps" "length ps = length (mesh_shape l)"
    and "partial l = replicate (length ps) None" "extract_ragged_shard ps = Inr (ragged_shard l)"
    and "0 < dim" "placement_to_tensor_map l dim = Inr (l', tm)"
  shows "\<exists>l''. tensor_map_to_placement l' = Inr (l'', map (normal_placement dim) ps) \<and>
     placements l'' = Some (map (normal_placement dim) ps) \<and> tensor_map l'' = Some tm \<and>
     ragged_shard l'' = ragged_shard l"
proof -
  let ?n = "length ps" and ?goal = "map (normal_placement dim) ps"
  obtain dm part al where f: "build_dim_map (mesh_shape l) ps (partial l) dim = Inr (dm, part)"
    "tm = map (convert_axes ?n) dm" "build_readable_tensor_map (mesh_dim_names l) tm = Inr al"
    "l' = l\<lparr>tensor_map := Some tm, partial := part, alias_tensor_map := Some al\<rparr>"
    using assms(1,2,5,6) by (auto simp: placement_to_tensor_map_def Let_def)
  have dmp: "\<forall>p \<in> set ps. shards_in_bounds dim p" "length part = ?n"
    "\<forall>i < ?n. part ! i = partial_after (ps ! i) None"
    "\<And>t. t < nat dim \<Longrightarrow> validate_strided_axes (mesh_shape l) ps (axes_for dim 0 ps t) = Inr ()"
    "dm = map (\<lambda>t. effective_shard_axes ps (axes_for dim 0 ps t)) [0..<nat dim]"
    using build_dim_map_props [OF f(1) assms(5)] assms(3) by auto
  obtain ps1 where ps1: "rfold (placements_of_dim l') (enumerate 0 tm) (replicate ?n Replicate) = Inr ps1"
    "length ps1 = ?n"
    "\<forall>i < ?n. ps1 ! i = (if shard_target dim (ps ! i) \<noteq> None then normal_placement dim (ps ! i) else Replicate)"
    using placements_of_dims [of l' ?n ps dim] assms(1,2,5) dmp(1,4) by (auto simp: f(2,4) dmp(5) comp_def)
  obtain ps2 where ps2: "rfold (\<lambda>(i, op) zs. case op of None \<Rightarrow> Inr zs | Some r \<Rightarrow> py_set zs (int i) (Partial r))
       (enumerate 0 part) ps1 = Inr ps2" "length ps2 = ?n"
    "\<forall>i < ?n. ps2 ! i = (case part ! i of None \<Rightarrow> ps1 ! i | Some r \<Rightarrow> Partial r)"
    using partial_override [of part ps1] dmp(2) ps1(2) by auto
  have ps2_nth: "ps2 ! i = (if is_ragged_shard (ps ! i) then Replicate else normal_placement dim (ps ! i))" if "i < ?n" for i
    using that ps1(3) ps2(3) dmp(3)
    by (cases "ps ! i") (auto simp: partial_after_def shard_target_def)
  have ragged: "(case ragged_shard l of None \<Rightarrow> Inr ps2 | Some (d, p) \<Rightarrow> py_set ps2 (int d) p) = Inr ?goal"
  proof (cases "ragged_shard l")
    case None
    then have "\<forall>p \<in> set ps. \<not> is_ragged_shard p"
      using extract_ragged_cases [of 0 ps None] assms(4) by (simp add: extract_ragged_shard_def)
    then have "ps2 = ?goal" using ps2(2) ps2_nth by (intro nth_equalityI) auto
    then show ?thesis using None by simp
  next
    case (Some r)
    obtain i p where r: "r = (i, p)" by fastforce
    then have i: "i < ?n" "ps ! i = p" "is_ragged_shard p" "\<forall>j < ?n. is_ragged_shard (ps ! j) \<longrightarrow> j = i"
      using extract_ragged_cases [of 0 ps "Some r"] assms(4) Some by (auto simp: extract_ragged_shard_def)
    have "normal_placement dim p = p" using i(3) by (cases p) auto
    then have nth: "ps2[i := p] ! j = ?goal ! j" if j: "j < ?n" for j
    proof (cases "j = i")
      case True
      then show ?thesis using i(1,2) ps2(2) \<open>normal_placement dim p = p\<close> by simp
    next
      case False
      then have "\<not> is_ragged_shard (ps ! j)" using i(4) j by blast
      then show ?thesis using ps2_nth [OF j] False j ps2(2) by simp
    qed
    have "ps2[i := p] = ?goal" using ps2(2) nth by (intro nth_equalityI) simp_all
    then show ?thesis using Some r i(1) ps2(2) by simp
  qed
  have "set_placements l' (Some ?goal) = Inr (l'\<lparr>placements := Some ?goal, ragged_shard := ragged_shard l\<rparr>)"
    using assms(4) by (simp add: set_placements_def extract_ragged_normal)
  then show ?thesis
    using ps1(1) ps2(1) ragged f(3,4) assms(2) by (simp add: tensor_map_to_placement_def)
qed

text \<open>A mesh of shape (2, 4) whose second axis was sharded first: \<open>StridedShard(0, 4)\<close>, \<open>Shard(0)\<close>.\<close>

definition example_layout :: layout where
  "example_layout = \<lparr>mesh_shape = [2, 4], mesh_dim_names = [''dp'', ''tp''],
     rank_list = [0, 1, 2, 3, 4, 5, 6, 7], tensor_map = None, partial = [None, None],
     placements = Some [StridedShard 0 4 False, Shard 0 False], ragged_shard = None,
     alias_tensor_map = None, tensor_shape = None\<rparr>"

lemma example_layout_map:
  "placement_to_tensor_map example_layout 1 =
     Inr (example_layout\<lparr>tensor_map := Some [TMTuple [0, 1]],
       alias_tensor_map := Some [Aliases [''tp'', ''dp'']]\<rparr>, [TMTuple [0, 1]])"
  by code_simp

lemma placement_tensor_map_roundtrip_witness:
  "\<exists>l''. tensor_map_to_placement (example_layout\<lparr>tensor_map := Some [TMTuple [0, 1]],
       alias_tensor_map := Some [Aliases [''tp'', ''dp'']]\<rparr>) =
     Inr (l'', [StridedShard 0 4 False, Shard 0 False])"
  using placement_tensor_map_roundtrip [OF _ _ _ _ _ example_layout_map, of "[StridedShard 0 4 False, Shard 0 False]"]
  by (auto simp: example_layout_def extract_ragged_shard_def shard_for_axis_def numeral_2_eq_2)

end
