(* ===== verification/MeshLayout.thy ===== *)
theory MeshLayout
  imports Prelude "HOL-Library.Multiset" "HOL-Library.Product_Lexorder"
begin

text \<open>
  The layout helpers of \<open>hyper_parallel/core/dtensor/_mesh_layout.py\<close>: nested integer tuples,
  the flat layout of one mesh axis and the nested layout of a whole mesh.  The lemmas relate
  every operation to the list of rank offsets the layout stands for (\<open>all_ranks_from_zero\<close>):
  flattening, canonicalising, coalescing, nesting and collapsing keep that list, composition
  scales it, and a successful \<open>remap_to_numpy\<close> is a partition of the ranks.
\<close>

section \<open>Nested integer tuples\<close>

datatype int_tuple = IntV int | TupV "int_tuple list"

fun is_int :: "int_tuple \<Rightarrow> bool" where
  "is_int (IntV _) = True"
| "is_int (TupV _) = False"

fun as_tuple :: "int_tuple \<Rightarrow> int_tuple list" where
  "as_tuple (TupV xs) = xs"
| "as_tuple (IntV v) = [IntV v]"

fun flatten_inttuple :: "int_tuple \<Rightarrow> int list" where
  "flatten_inttuple (IntV v) = [v]"
| "flatten_inttuple (TupV xs) = concat (map flatten_inttuple xs)"

fun match_structure :: "int_tuple \<Rightarrow> int_tuple \<Rightarrow> bool"
and match_structures :: "int_tuple list \<Rightarrow> int_tuple list \<Rightarrow> bool" where
  "match_structure (IntV _) stride = is_int stride"
| "match_structure (TupV ss) (TupV ds) = match_structures ss ds"
| "match_structure (TupV _) (IntV _) = False"
| "match_structures [] [] = True"
| "match_structures (s # ss) (d # ds) = (match_structure s d \<and> match_structures ss ds)"
| "match_structures _ _ = False"

text \<open>\<open>np.prod\<close> over \<open>int64\<close> wraps around, which \<open>signed_take_bit 63\<close> writes out.\<close>

definition numel :: "int_tuple \<Rightarrow> int" where
  "numel value = signed_take_bit 63 (prod_list (flatten_inttuple value))"

fun contiguous_strides :: "int list \<Rightarrow> int list" where
  "contiguous_strides [] = []"
| "contiguous_strides [_] = [1]"
| "contiguous_strides (_ # d # ds) =
     (let strides = contiguous_strides (d # ds) in (hd strides * d) # strides)"

fun scale_inttuple :: "int_tuple \<Rightarrow> int \<Rightarrow> int_tuple" where
  "scale_inttuple (IntV v) factor = IntV (v * factor)"
| "scale_inttuple (TupV xs) factor = TupV (map (\<lambda>x. scale_inttuple x factor) xs)"

text \<open>
  \<open>_enumerate_offsets\<close>; a tuple stride for an integer shape cannot be reached from a layout,
  whose constructor checks \<open>match_structure\<close>.
\<close>

fun enumerate_offsets :: "int_tuple \<Rightarrow> int_tuple \<Rightarrow> int list"
and enumerate_axes :: "int_tuple list \<Rightarrow> int_tuple list \<Rightarrow> int list \<Rightarrow> int list" where
  "enumerate_offsets (IntV n) (IntV d) = map (\<lambda>i. int i * d) [0..<nat n]"
| "enumerate_offsets (IntV n) (TupV _) = []"
| "enumerate_offsets (TupV ss) stride = enumerate_axes ss (as_tuple stride) [0]"
| "enumerate_axes (s # ss) (d # ds) offsets =
     enumerate_axes ss ds
       (concat (map (\<lambda>base. map (\<lambda>off. base + off) (enumerate_offsets s d)) offsets))"
| "enumerate_axes _ _ offsets = offsets"

section \<open>Canonical flat layouts\<close>

text \<open>
  The second loop of \<open>_canonicalize_axis\<close>.  The two lists grow at their end in the code; the
  model keeps the pairs in reverse, so that \<open>coalesced_shape[-1]\<close> is the head.
\<close>

fun coalesce_step :: "int \<times> int \<Rightarrow> (int \<times> int) list \<Rightarrow> (int \<times> int) list" where
  "coalesce_step (n, step) [] = [(n, step)]"
| "coalesce_step (n, step) ((a, da) # acc) =
     (if da = step * n then (a * n, step) # acc
      else (n, step) # (a, da) # acc)"

definition canonicalize_axis :: "int_tuple \<Rightarrow> int_tuple option \<Rightarrow> (int list \<times> int list) res" where
  "canonicalize_axis shape stride =
     (let flat_shape = flatten_inttuple shape;
          flat_stride = (case stride of Some d \<Rightarrow> flatten_inttuple d
                                      | None \<Rightarrow> contiguous_strides flat_shape)
      in if length flat_shape \<noteq> length flat_stride then Inl ValueError
         else if (\<exists>n \<in> set flat_shape. n < 0) then Inl ValueError
         else let normalized = filter (\<lambda>(n, _). n \<noteq> 1) (zip flat_shape flat_stride);
                  coalesced = rev (fold coalesce_step normalized [])
              in Inr (map fst coalesced, map snd coalesced))"

fun nested_from_flat :: "int list \<Rightarrow> int_tuple" where
  "nested_from_flat [v] = IntV v"
| "nested_from_flat vs = TupV (map IntV vs)"

record flat_layout =
  fshape :: "int list"
  fstride :: "int list"

definition make_flat_layout :: "int_tuple \<Rightarrow> int_tuple option \<Rightarrow> flat_layout res" where
  "make_flat_layout shape stride =
     rbind (canonicalize_axis shape stride) (\<lambda>(s, d). Inr \<lparr>fshape = s, fstride = d\<rparr>)"

definition flat_numel :: "flat_layout \<Rightarrow> int" where
  "flat_numel l = (if fshape l \<noteq> [] then prod_list (fshape l) else 1)"

text \<open>\<open>np.ndindex\<close>: the coordinates of a shape in row-major order.\<close>

fun ndindex :: "int list \<Rightarrow> int list list" where
  "ndindex [] = [[]]"
| "ndindex (n # ns) = concat (map (\<lambda>i. map (\<lambda>c. int i # c) (ndindex ns)) [0..<nat n])"

definition flat_all_ranks :: "flat_layout \<Rightarrow> int list" where
  "flat_all_ranks l =
     (if fshape l = [] then [0]
      else map (\<lambda>coord. sum_list (map (\<lambda>(x, d). x * d) (zip coord (fstride l)))) (ndindex (fshape l)))"

definition cosize :: "flat_layout \<Rightarrow> int" where
  "cosize l = (let ranks = flat_all_ranks l in if ranks \<noteq> [] then Max (set ranks) + 1 else 1)"

definition check_sorted :: "flat_layout \<Rightarrow> bool" where
  "check_sorted l \<longleftrightarrow> rev (sort (fstride l)) = fstride l"

fun orthogonal_pairs :: "(int \<times> int) list \<Rightarrow> bool res" where
  "orthogonal_pairs ((d1, _) # (d2, n2) # ps) =
     (if d2 * n2 = 0 then Inl ZeroDivisionError
      else if d1 mod (d2 * n2) \<noteq> 0 then Inr False
      else orthogonal_pairs ((d2, n2) # ps))"
| "orthogonal_pairs _ = Inr True"

definition check_orthogonal :: "flat_layout \<Rightarrow> bool res" where
  "check_orthogonal l =
     (if length (fshape l) < 2 then Inr True
      else orthogonal_pairs (rev (sort (zip (fstride l) (fshape l)))))"

section \<open>Nested mesh layouts\<close>

record mesh_layout =
  lshape :: int_tuple
  lstride :: int_tuple

definition make_mesh_layout :: "int_tuple \<Rightarrow> int_tuple \<Rightarrow> mesh_layout res" where
  "make_mesh_layout shape stride =
     (if match_structure shape stride then Inr \<lparr>lshape = shape, lstride = stride\<rparr>
      else Inl ValueError)"

definition layout_of_axes :: "flat_layout list \<Rightarrow> mesh_layout res" where
  "layout_of_axes axes =
     make_mesh_layout (TupV (map (\<lambda>a. nested_from_flat (fshape a)) axes))
       (TupV (map (\<lambda>a. nested_from_flat (fstride a)) axes))"

definition from_sizes_strides :: "int list \<Rightarrow> int list option \<Rightarrow> mesh_layout res" where
  "from_sizes_strides sizes strides =
     make_mesh_layout (TupV (map IntV sizes))
       (TupV (map IntV (case strides of Some d \<Rightarrow> d | None \<Rightarrow> contiguous_strides sizes)))"

fun layout_len :: "int_tuple \<Rightarrow> nat" where
  "layout_len (TupV xs) = length xs"
| "layout_len (IntV _) = 1"

definition layout_getitem :: "mesh_layout \<Rightarrow> int \<Rightarrow> mesh_layout res" where
  "layout_getitem l idx =
     (case lshape l of
        TupV ss \<Rightarrow>
          rbind (py_get ss idx) (\<lambda>s.
          rbind (py_get (as_tuple (lstride l)) idx) (\<lambda>d. make_mesh_layout s d))
      | IntV _ \<Rightarrow>
          if idx \<noteq> 0 \<and> idx \<noteq> -1 then Inl IndexError else make_mesh_layout (lshape l) (lstride l))"

definition layout_numel :: "mesh_layout \<Rightarrow> int" where
  "layout_numel l = numel (lshape l)"

definition top_level_sizes :: "mesh_layout \<Rightarrow> int list res" where
  "top_level_sizes l =
     rmap (\<lambda>idx. rbind (layout_getitem l (int idx)) (\<lambda>child. Inr (layout_numel child)))
       [0..<layout_len (lshape l)]"

definition all_ranks_from_zero :: "mesh_layout \<Rightarrow> int list" where
  "all_ranks_from_zero l = enumerate_offsets (lshape l) (lstride l)"

definition check_non_overlap :: "mesh_layout \<Rightarrow> bool" where
  "check_non_overlap l = (let ranks = all_ranks_from_zero l in length ranks = card (set ranks))"

text \<open>The merging loop of \<open>coalesce\<close>, with the lists again reversed.\<close>

fun merge_axis :: "int_tuple \<times> int_tuple \<Rightarrow> (int_tuple \<times> int_tuple) list \<Rightarrow> (int_tuple \<times> int_tuple) list" where
  "merge_axis (IntV n, IntV d) ((IntV a, IntV da) # acc) =
     (if da = d * n then (IntV (a * n), IntV d) # acc else (IntV n, IntV d) # (IntV a, IntV da) # acc)"
| "merge_axis axis acc = axis # acc"

fun coalesce_tuple :: "int_tuple \<Rightarrow> int_tuple \<Rightarrow> int_tuple \<times> int_tuple"
and coalesce_axes :: "int_tuple list \<Rightarrow> int_tuple list \<Rightarrow> (int_tuple \<times> int_tuple) list" where
  "coalesce_tuple (IntV n) stride = (IntV n, stride)"
| "coalesce_tuple (TupV ss) stride =
     (let merged = rev (fold merge_axis (coalesce_axes ss (as_tuple stride)) [])
      in case merged of [(s, d)] \<Rightarrow> (s, d)
                      | _ \<Rightarrow> (TupV (map fst merged), TupV (map snd merged)))"
| "coalesce_axes (s # ss) (d # ds) = coalesce_tuple s d # coalesce_axes ss ds"
| "coalesce_axes _ _ = []"

definition coalesce :: "mesh_layout \<Rightarrow> mesh_layout res" where
  "coalesce l = (let (s, d) = coalesce_tuple (lshape l) (lstride l) in make_mesh_layout s d)"

definition composition :: "mesh_layout \<Rightarrow> mesh_layout \<Rightarrow> mesh_layout res" where
  "composition l layout =
     (case lstride l of
        TupV _ \<Rightarrow> Inl NotImplementedError
      | IntV d \<Rightarrow> make_mesh_layout (lshape layout) (scale_inttuple (lstride layout) d))"

definition nest :: "mesh_layout \<Rightarrow> mesh_layout res" where
  "nest l =
     (if layout_len (lshape l) = 1 then Inr l
      else make_mesh_layout (TupV [lshape l]) (TupV [lstride l]))"

definition splice_list :: "nat \<Rightarrow> nat \<Rightarrow> 'a list \<Rightarrow> 'a list \<Rightarrow> 'a list" where
  "splice_list start stop new xs = take start xs @ new @ drop (max start stop) xs"

definition splice_layout :: "mesh_layout \<Rightarrow> nat \<Rightarrow> nat \<Rightarrow> mesh_layout \<Rightarrow> mesh_layout res" where
  "splice_layout l start stop layout =
     (let sizes = splice_list start stop (as_tuple (lshape layout)) (as_tuple (lshape l));
          strides = splice_list start stop (as_tuple (lstride layout)) (as_tuple (lstride l))
      in if length sizes = 1 then make_mesh_layout (hd sizes) (hd strides)
         else make_mesh_layout (TupV sizes) (TupV strides))"

definition collapse :: "mesh_layout \<Rightarrow> flat_layout res" where
  "collapse l = make_flat_layout (lshape l) (Some (lstride l))"

text \<open>
  \<open>remap_to_numpy\<close>: the anchors in order, each taken as the base of a group unless one of the
  group's members is taken or lies outside.  The array the code returns is the list of groups;
  its \<open>reshape\<close> only renames the positions within a group.
\<close>

definition remap_step :: "int list \<Rightarrow> nat \<Rightarrow> nat \<Rightarrow> int list list \<times> int set \<Rightarrow> int list list \<times> int set" where
  "remap_step base_offsets world_size anchor st =
     (let (groups, used) = st; group = map (\<lambda>off. int anchor + off) base_offsets
      in if int anchor \<in> used then st
         else if (\<exists>index \<in> set group. int world_size \<le> index) then st
         else if (\<exists>index \<in> set group. index \<in> used) then st
         else (groups @ [group], used \<union> set group))"

definition remap_to_numpy :: "mesh_layout \<Rightarrow> 'a list \<Rightarrow> 'a list list res" where
  "remap_to_numpy l rank_map =
     (let base_offsets = all_ranks_from_zero l; world_size = length rank_map;
          (groups, used) = fold (remap_step base_offsets world_size) [0..<world_size] ([], {})
      in if base_offsets = [] then Inl ValueError
         else if card used \<noteq> world_size then Inl ValueError
         else rmap (rmap (py_get rank_map)) groups)"

section \<open>The offsets of a list of axes\<close>

text \<open>What every layout stands for: the offsets of independent axes, last axis fastest.\<close>

fun offsets_of :: "(int \<times> int) list \<Rightarrow> int list" where
  "offsets_of [] = [0]"
| "offsets_of ((n, d) # ps) =
     concat (map (\<lambda>i. map (\<lambda>off. int i * d + off) (offsets_of ps)) [0..<nat n])"

definition offsets_plus :: "int list \<Rightarrow> int list \<Rightarrow> int list" where
  "offsets_plus xs ys = concat (map (\<lambda>b. map (\<lambda>off. b + off) ys) xs)"

lemma offsets_plus_Nil [simp]: "offsets_plus [] ys = []"
  by (simp add: offsets_plus_def)

lemma offsets_plus_Cons: "offsets_plus (x # xs) ys = map (\<lambda>off. x + off) ys @ offsets_plus xs ys"
  by (simp add: offsets_plus_def)

lemma offsets_plus_append: "offsets_plus (xs @ xs') ys = offsets_plus xs ys @ offsets_plus xs' ys"
  by (simp add: offsets_plus_def)

lemma offsets_plus_shift: "offsets_plus (map (\<lambda>off. x + off) xs) ys = map (\<lambda>off. x + off) (offsets_plus xs ys)"
  by (induction xs) (simp_all add: offsets_plus_Cons comp_def add.assoc)

lemma offsets_plus_assoc: "offsets_plus (offsets_plus xs ys) zs = offsets_plus xs (offsets_plus ys zs)"
  by (induction xs) (simp_all add: offsets_plus_Cons offsets_plus_append offsets_plus_shift)

lemma offsets_plus_zero [simp]: "offsets_plus [0] ys = ys" "offsets_plus xs [0] = xs"
proof -
  show "offsets_plus [0] ys = ys" by (induction ys) (simp_all add: offsets_plus_Cons)
  show "offsets_plus xs [0] = xs" by (induction xs) (simp_all add: offsets_plus_Cons)
qed

lemma map_plus_zero [simp]: "map ((+) (0::int)) xs = xs"
  by (simp add: map_idI)

lemma offsets_of_Cons:
  "offsets_of ((n, d) # ps) = offsets_plus (map (\<lambda>i. int i * d) [0..<nat n]) (offsets_of ps)"
  by (simp add: comp_def offsets_plus_def)

declare offsets_of.simps(2) [simp del]

lemma offsets_of_append: "offsets_of (xs @ ys) = offsets_plus (offsets_of xs) (offsets_of ys)"
proof (induction xs)
  case Nil
  show ?case by simp
next
  case (Cons p ps)
  then show ?case by (cases p) (simp add: offsets_of_Cons offsets_plus_assoc)
qed

lemma match_structure_flatten:
  "match_structure s d \<Longrightarrow> length (flatten_inttuple s) = length (flatten_inttuple d)"
  "match_structures ss ds \<Longrightarrow>
     length (concat (map flatten_inttuple ss)) = length (concat (map flatten_inttuple ds)) \<and> length ss = length ds"
  by (induction s d and ss ds rule: match_structure_match_structures.induct)
    (auto elim: is_int.elims)

lemma enumerate_offsets_flat:
  "match_structure s d \<Longrightarrow>
     enumerate_offsets s d = offsets_of (zip (flatten_inttuple s) (flatten_inttuple d))"
  "match_structures ss ds \<Longrightarrow> enumerate_axes ss ds offs =
     offsets_plus offs (offsets_of (zip (concat (map flatten_inttuple ss)) (concat (map flatten_inttuple ds))))"
proof (induction s d and ss ds offs rule: enumerate_offsets_enumerate_axes.induct)
  case (1 n d)
  then show ?case by (simp add: offsets_of_Cons)
next
  case (3 ss stride)
  then show ?case by (cases stride) auto
next
  case (4 s ss d ds offs)
  then have m: "match_structure s d" "match_structures ss ds" by auto
  show ?case
  proof (cases "offs = []")
    case True
    then show ?thesis using "4.IH"(2) [OF m(2)] by simp
  next
    case False
    then have e: "enumerate_offsets s d = offsets_of (zip (flatten_inttuple s) (flatten_inttuple d))"
      using "4.IH"(1) [of "hd offs"] m(1) by simp
    show ?thesis
      using "4.IH"(2) [OF m(2)] match_structure_flatten(1) [OF m(1)]
      by (simp add: e zip_append offsets_of_append offsets_plus_assoc flip: offsets_plus_def)
  qed
qed auto

lemma offsets_plus_scale:
  "offsets_plus (map (\<lambda>x. x * k) xs) (map (\<lambda>x. x * k) ys) = map (\<lambda>x. x * k) (offsets_plus xs ys)"
  by (induction xs) (simp_all add: offsets_plus_Cons comp_def distrib_right)

lemma offsets_scale: "offsets_of (map (\<lambda>(n, d). (n, d * k)) ps) = map (\<lambda>off. off * k) (offsets_of ps)"
proof (induction ps)
  case Nil
  show ?case by simp
next
  case (Cons p ps)
  then show ?case
    using offsets_plus_scale [of k "map (\<lambda>i. int i * snd p) [0..<nat (fst p)]" "offsets_of ps"]
    by (cases p) (simp add: offsets_of_Cons comp_def mult.assoc)
qed

lemma upt_mult:
  "map (\<lambda>i. int i * d) [0..<a * b] =
     offsets_plus (map (\<lambda>i. int i * (d * int b)) [0..<a]) (map (\<lambda>j. int j * d) [0..<b])"
proof (induction a)
  case 0
  then show ?case by simp
next
  case (Suc a)
  have "[0..<Suc a * b] = [0..<a * b] @ map (\<lambda>j. j + a * b) [0..<b]"
    using upt_add_eq_append [of 0 "a * b" b] by (simp only: map_add_upt mult_Suc) (simp add: add.commute)
  then have "map (\<lambda>i. int i * d) [0..<Suc a * b] =
      map (\<lambda>i. int i * d) [0..<a * b] @ map (\<lambda>j. int (j + a * b) * d) [0..<b]"
    by (simp only: map_append map_map comp_def)
  also have "map (\<lambda>j. int (j + a * b) * d) [0..<b] =
      offsets_plus [int a * (d * int b)] (map (\<lambda>j. int j * d) [0..<b])"
    by (simp add: offsets_plus_Cons comp_def algebra_simps)
  finally show ?case using Suc.IH by (simp add: offsets_plus_append)
qed

text \<open>Two axes of which the outer steps over the whole inner one are one axis.\<close>

lemma offsets_merge:
  assumes "0 \<le> n"
  shows "offsets_of ((a, d * n) # (n, d) # ps) = offsets_of ((a * n, d) # ps)"
proof -
  have nat: "nat (a * n) = nat a * nat n"
    using assms by (cases "0 \<le> a") (auto simp: nat_mult_distrib mult_nonpos_nonneg)
  show ?thesis
    using upt_mult [of d "nat a" "nat n"] assms by (simp add: nat offsets_of_Cons offsets_plus_assoc)
qed

lemma offsets_merge_last:
  "0 \<le> n \<Longrightarrow> offsets_of (rev ((n, d) # (a, d * n) # acc) @ ps) = offsets_of (rev ((a * n, d) # acc) @ ps)"
  by (simp add: offsets_of_append [of "rev acc"] offsets_merge)

lemma coalesce_step_offsets:
  assumes "0 \<le> fst p"
  shows "offsets_of (rev (coalesce_step p acc) @ ps) = offsets_of (rev acc @ p # ps)"
  using assms offsets_merge_last
  by (cases "(p, acc)" rule: coalesce_step.cases) auto

lemma coalesce_fold_offsets:
  "\<forall>p \<in> set ps. 0 \<le> fst p \<Longrightarrow>
     offsets_of (rev (fold coalesce_step ps acc)) = offsets_of (rev acc @ ps)"
proof (induction ps arbitrary: acc)
  case Nil
  then show ?case by simp
next
  case (Cons p ps)
  then show ?case using coalesce_step_offsets [of p acc ps] by simp
qed

lemma offsets_drop_unit: "offsets_of (filter (\<lambda>(n, _). n \<noteq> 1) ps) = offsets_of ps"
proof (induction ps)
  case Nil
  show ?case by simp
next
  case (Cons p ps)
  then show ?case by (cases p) (auto simp: offsets_of_Cons)
qed

lemma canonicalize_offsets:
  assumes "canonicalize_axis shape (Some stride) = Inr (s, d)"
  shows "length s = length d \<and>
     offsets_of (zip s d) = offsets_of (zip (flatten_inttuple shape) (flatten_inttuple stride))"
proof -
  let ?ps = "zip (flatten_inttuple shape) (flatten_inttuple stride)"
  let ?n = "filter (\<lambda>(n, _). n \<noteq> 1) ?ps"
  let ?c = "rev (fold coalesce_step ?n [])"
  have sd: "s = map fst ?c" "d = map snd ?c" and nn: "\<forall>n \<in> set (flatten_inttuple shape). 0 \<le> n"
    using assms by (auto simp: canonicalize_axis_def Let_def not_less split: if_splits)
  have "\<forall>p \<in> set ?n. 0 \<le> fst p" using nn by (auto dest: set_zip_leftD)
  then have "offsets_of ?c = offsets_of ?ps"
    using coalesce_fold_offsets [of ?n "[]"] by (simp add: offsets_drop_unit)
  then show ?thesis using sd by (simp add: zip_map_fst_snd)
qed

lemma ndindex_offsets:
  "length s = length d \<Longrightarrow>
     map (\<lambda>coord. sum_list (map (\<lambda>(x, k). x * k) (zip coord d))) (ndindex s) = offsets_of (zip s d)"
proof (induction s d rule: list_induct2)
  case Nil
  show ?case by simp
next
  case (Cons n s k d)
  show ?case
    unfolding zip_Cons_Cons offsets_of_Cons offsets_plus_def Cons.IH [symmetric]
    by (simp add: map_concat comp_def)
qed

lemma collapse_all_ranks:
  assumes "match_structure (lshape l) (lstride l)" and "collapse l = Inr f"
  shows "flat_all_ranks f = all_ranks_from_zero l"
proof -
  obtain s d where c: "canonicalize_axis (lshape l) (Some (lstride l)) = Inr (s, d)"
    and f: "f = \<lparr>fshape = s, fstride = d\<rparr>"
    using assms(2) by (auto simp: collapse_def make_flat_layout_def)
  show ?thesis
    using canonicalize_offsets [OF c] ndindex_offsets [of s d] enumerate_offsets_flat(1) [OF assms(1)]
    by (auto simp: flat_all_ranks_def all_ranks_from_zero_def f)
qed

section \<open>Coalescing a nested layout\<close>

text \<open>The flat pairs of a list of axes, and the invariants of the merging loop.\<close>

definition flat_pairs :: "(int_tuple \<times> int_tuple) list \<Rightarrow> (int \<times> int) list" where
  "flat_pairs axes = concat (map (\<lambda>(s, d). zip (flatten_inttuple s) (flatten_inttuple d)) axes)"

definition axes_ok :: "(int_tuple \<times> int_tuple) list \<Rightarrow> bool" where
  "axes_ok axes \<longleftrightarrow> (\<forall>(s, d) \<in> set axes. match_structure s d \<and> (\<forall>n \<in> set (flatten_inttuple s). 0 \<le> n))"

lemma flat_pairs_simps [simp]:
  "flat_pairs [] = []"
  "flat_pairs ((s, d) # axes) = zip (flatten_inttuple s) (flatten_inttuple d) @ flat_pairs axes"
  "flat_pairs (xs @ ys) = flat_pairs xs @ flat_pairs ys"
  by (simp_all add: flat_pairs_def)

lemma axes_ok_simps [simp]:
  "axes_ok []"
  "axes_ok ((s, d) # axes) \<longleftrightarrow>
     match_structure s d \<and> (\<forall>n \<in> set (flatten_inttuple s). 0 \<le> n) \<and> axes_ok axes"
  "axes_ok (xs @ ys) \<longleftrightarrow> axes_ok xs \<and> axes_ok ys"
  "axes_ok (rev xs) \<longleftrightarrow> axes_ok xs"
  by (auto simp: axes_ok_def)

lemma merge_axis_inv:
  assumes "axes_ok (p # acc)"
  shows "axes_ok (merge_axis p acc) \<and>
    offsets_of (flat_pairs (rev (merge_axis p acc) @ ps)) = offsets_of (flat_pairs (rev acc @ p # ps))"
  using assms
proof (cases "(p, acc)" rule: merge_axis.cases)
  case (1 n d a da acc')
  then show ?thesis
    using assms offsets_merge_last [of n d a "[]" "flat_pairs ps"]
    by (auto simp: offsets_of_append [of "flat_pairs (rev acc')"])
qed (auto split: prod.splits)

lemma merge_fold_inv:
  "axes_ok (axes @ acc) \<Longrightarrow> axes_ok (rev (fold merge_axis axes acc)) \<and>
     offsets_of (flat_pairs (rev (fold merge_axis axes acc))) = offsets_of (flat_pairs (rev acc @ axes))"
proof (induction axes arbitrary: acc)
  case Nil
  then show ?case by simp
next
  case (Cons p axes)
  have "axes_ok (p # acc)" "axes_ok axes" using Cons.prems by (cases p; simp)+
  with merge_axis_inv [OF this(1), of axes] Cons.IH [of "merge_axis p acc"] show ?case by simp
qed

lemma axes_ok_match:
  "axes_ok axes \<Longrightarrow> match_structures (map fst axes) (map snd axes) \<and>
     zip (concat (map flatten_inttuple (map fst axes))) (concat (map flatten_inttuple (map snd axes))) = flat_pairs axes
     \<and> (\<forall>n \<in> set (concat (map flatten_inttuple (map fst axes))). 0 \<le> n)"
proof (induction axes)
  case Nil
  then show ?case by simp
next
  case (Cons p axes)
  then show ?case
    by (cases p) (auto simp: match_structure_flatten(1) zip_append)
qed

lemma flat_pairs_zip:
  "match_structures ss ds \<Longrightarrow>
     flat_pairs (zip ss ds) = zip (flatten_inttuple (TupV ss)) (flatten_inttuple (TupV ds))"
proof (induction ss arbitrary: ds)
  case Nil
  then show ?case by simp
next
  case (Cons s ss)
  then show ?case by (cases ds) (auto simp: match_structure_flatten(1) zip_append)
qed

lemma coalesce_inv:
  "match_structure s d \<Longrightarrow> \<forall>n \<in> set (flatten_inttuple s). 0 \<le> n \<Longrightarrow>
     axes_ok [coalesce_tuple s d] \<and>
     offsets_of (flat_pairs [coalesce_tuple s d]) = offsets_of (flat_pairs [(s, d)])"
  "match_structures ss ds \<Longrightarrow> \<forall>n \<in> set (concat (map flatten_inttuple ss)). 0 \<le> n \<Longrightarrow>
     axes_ok (coalesce_axes ss ds) \<and>
     offsets_of (flat_pairs (coalesce_axes ss ds)) = offsets_of (flat_pairs (zip ss ds))"
proof (induction s d and ss ds rule: coalesce_tuple_coalesce_axes.induct)
  case (1 n stride)
  then show ?case by simp
next
  case (2 ss stride)
  obtain ds where ds: "stride = TupV ds" "match_structures ss ds"
    using 2(2) by (cases stride) auto
  let ?m = "rev (fold merge_axis (coalesce_axes ss ds) [])"
  have ok: "axes_ok (coalesce_axes ss ds)"
    "offsets_of (flat_pairs (coalesce_axes ss ds)) = offsets_of (flat_pairs (zip ss ds))"
    using 2 ds by auto
  have m: "axes_ok ?m" "offsets_of (flat_pairs ?m) = offsets_of (flat_pairs (zip ss ds))"
    using merge_fold_inv [of "coalesce_axes ss ds" "[]"] ok by auto
  have "flat_pairs (zip ss ds) = zip (flatten_inttuple (TupV ss)) (flatten_inttuple (TupV ds))"
    using ds(2) by (rule flat_pairs_zip)
  then show ?case using m axes_ok_match [OF m(1)] ds
    by (cases ?m rule: remdups_adj.cases) (auto simp: Let_def split: prod.splits)
next
  case (3 s ss d ds)
  have "axes_ok [coalesce_tuple s d]" "axes_ok (coalesce_axes ss ds)"
    "offsets_of (flat_pairs [coalesce_tuple s d]) = offsets_of (flat_pairs [(s, d)])"
    "offsets_of (flat_pairs (coalesce_axes ss ds)) = offsets_of (flat_pairs (zip ss ds))"
    using 3 by auto
  then show ?case by (cases "coalesce_tuple s d") (simp add: offsets_of_append)
qed auto

lemma coalesce_all_ranks:
  assumes "match_structure (lshape l) (lstride l)" "\<forall>n \<in> set (flatten_inttuple (lshape l)). 0 \<le> n"
  shows "\<exists>l'. coalesce l = Inr l' \<and> all_ranks_from_zero l' = all_ranks_from_zero l"
proof -
  obtain s d where c: "coalesce_tuple (lshape l) (lstride l) = (s, d)" by fastforce
  then have "match_structure s d"
    "offsets_of (zip (flatten_inttuple s) (flatten_inttuple d)) =
     offsets_of (zip (flatten_inttuple (lshape l)) (flatten_inttuple (lstride l)))"
    using coalesce_inv(1) [OF assms] by auto
  then show ?thesis
    using c assms(1) by (simp add: coalesce_def make_mesh_layout_def all_ranks_from_zero_def enumerate_offsets_flat(1))
qed

lemma scale_inttuple_flat:
  "flatten_inttuple (scale_inttuple v k) = map (\<lambda>x. x * k) (flatten_inttuple v)"
  by (induction v) (auto simp: map_concat comp_def intro!: arg_cong [where f = concat])

lemma match_structure_scale:
  "match_structure s d \<Longrightarrow> match_structure s (scale_inttuple d k)"
  "match_structures ss ds \<Longrightarrow> match_structures ss (map (\<lambda>x. scale_inttuple x k) ds)"
  by (induction s d and ss ds rule: match_structure_match_structures.induct)
    (auto elim: is_int.elims)

lemma composition_all_ranks:
  assumes "match_structure (lshape l') (lstride l')" "lstride l = IntV d"
  shows "\<exists>c. composition l l' = Inr c \<and> all_ranks_from_zero c = map (\<lambda>off. off * d) (all_ranks_from_zero l')"
proof -
  have "zip (flatten_inttuple (lshape l')) (map (\<lambda>x. x * d) (flatten_inttuple (lstride l'))) =
      map (\<lambda>(n, k). (n, k * d)) (zip (flatten_inttuple (lshape l')) (flatten_inttuple (lstride l')))"
    by (simp add: zip_map2)
  then show ?thesis using assms match_structure_scale(1) [OF assms(1), of d]
    by (simp add: composition_def make_mesh_layout_def all_ranks_from_zero_def enumerate_offsets_flat(1)
        scale_inttuple_flat offsets_scale)
qed

lemma nest_all_ranks:
  assumes "match_structure (lshape l) (lstride l)"
  shows "\<exists>l'. nest l = Inr l' \<and> all_ranks_from_zero l' = all_ranks_from_zero l"
  using assms
  by (auto simp: nest_def make_mesh_layout_def all_ranks_from_zero_def enumerate_offsets_flat(1))

section \<open>Remapping is a partition of the ranks\<close>

definition remap_inv :: "int list \<Rightarrow> nat \<Rightarrow> int list list \<times> int set \<Rightarrow> bool" where
  "remap_inv base n st \<longleftrightarrow>
     snd st = set (concat (fst st)) \<and> distinct (concat (fst st)) \<and> snd st \<subseteq> {0..<int n} \<and>
     (\<forall>g \<in> set (fst st). \<exists>anchor. g = map (\<lambda>off. anchor + off) base)"

lemma remap_step_inv:
  assumes "distinct base" "\<forall>off \<in> set base. 0 \<le> off" "remap_inv base n st"
  shows "remap_inv base n (remap_step base n anchor st)"
proof -
  obtain groups used where st: "st = (groups, used)" by fastforce
  have "distinct (map (\<lambda>off. int anchor + off) base)" using assms(1) by (simp add: distinct_map inj_on_def)
  then show ?thesis
    using assms by (auto simp: st remap_step_def remap_inv_def Let_def not_le)
qed

lemma remap_fold_inv:
  assumes "distinct base" "\<forall>off \<in> set base. 0 \<le> off" "remap_inv base n st"
  shows "remap_inv base n (fold (remap_step base n) anchors st)"
  using assms(3) by (induction anchors arbitrary: st) (simp_all add: remap_step_inv assms(1,2))

lemma rmap_get_groups:
  "\<forall>i \<in> set (concat groups). 0 \<le> i \<and> i < int (length xs) \<Longrightarrow>
     rmap (rmap (py_get xs)) groups = Inr (map (map (\<lambda>i. xs ! nat i)) groups)"
proof (rule rmap_total)
  fix g
  assume "\<forall>i \<in> set (concat groups). 0 \<le> i \<and> i < int (length xs)" "g \<in> set groups"
  then have "0 \<le> i \<and> i < int (length xs)" if "i \<in> set g" for i using that by auto
  then show "rmap (py_get xs) g = Inr (map (\<lambda>i. xs ! nat i) g)"
    by (intro rmap_total) (simp add: py_get_nonneg)
qed

lemma mset_permuted_nth:
  assumes "distinct is" "set is = {0..<int (length xs)}"
  shows "mset (map (\<lambda>i. xs ! nat i) is) = mset xs"
proof -
  have "set is = set (map int [0..<length xs])"
    using assms(2) image_int_atLeastLessThan [of 0 "length xs"] by simp
  moreover have "distinct (map int [0..<length xs])" by (simp add: distinct_map)
  ultimately have "mset is = mset (map int [0..<length xs])"
    using assms(1) by (simp only: set_eq_iff_mset_eq_distinct)
  then have "mset (map (\<lambda>i. xs ! nat i) is) = image_mset (\<lambda>i. xs ! nat i) (mset (map int [0..<length xs]))"
    by simp
  also have "\<dots> = mset (map (\<lambda>i. xs ! i) [0..<length xs])"
    by (simp only: mset_map image_mset.compositionality comp_def nat_int)
  finally show ?thesis by (simp add: map_nth)
qed

section \<open>Properties\<close>

text \<open>
  C4.  Canonicalising a layout (the \<open>_FlatLayout\<close> constructor, reached through \<open>collapse\<close>)
  and coalescing it keep the represented layout: whenever the shape entries are not negative,
  both return a layout, and its rank offsets are the same list, in the same order.
\<close>

theorem collapse_coalesce_keep_ranks:
  assumes "make_mesh_layout shape stride = Inr l" "\<forall>n \<in> set (flatten_inttuple shape). 0 \<le> n"
  shows "\<exists>f l'. collapse l = Inr f \<and> flat_all_ranks f = all_ranks_from_zero l \<and>
     coalesce l = Inr l' \<and> all_ranks_from_zero l' = all_ranks_from_zero l"
proof -
  have m: "match_structure (lshape l) (lstride l)" and s: "lshape l = shape"
    using assms(1) by (auto simp: make_mesh_layout_def split: if_splits)
  have "\<exists>f. collapse l = Inr f"
    using assms(2) match_structure_flatten(1) [OF m]
    by (auto simp: collapse_def make_flat_layout_def canonicalize_axis_def Let_def s not_less)
  then show ?thesis
    using collapse_all_ranks [OF m] coalesce_all_ranks [OF m] assms(2) s by auto
qed

lemma collapse_coalesce_keep_ranks_witness:
  "\<exists>f l'. collapse \<lparr>lshape = TupV [IntV 2, IntV 4], lstride = TupV [IntV 4, IntV 1]\<rparr> = Inr f \<and>
     flat_all_ranks f = all_ranks_from_zero \<lparr>lshape = TupV [IntV 2, IntV 4], lstride = TupV [IntV 4, IntV 1]\<rparr> \<and>
     coalesce \<lparr>lshape = TupV [IntV 2, IntV 4], lstride = TupV [IntV 4, IntV 1]\<rparr> = Inr l' \<and>
     all_ranks_from_zero l' = all_ranks_from_zero \<lparr>lshape = TupV [IntV 2, IntV 4], lstride = TupV [IntV 4, IntV 1]\<rparr>"
  by (rule collapse_coalesce_keep_ranks [of "TupV [IntV 2, IntV 4]" "TupV [IntV 4, IntV 1]"])
    (simp_all add: make_mesh_layout_def)

text \<open>
  C5.  Where \<open>remap_to_numpy\<close> returns, on a layout without overlap and without negative
  offsets, it has placed every rank of the rank map exactly once, and every row of the result
  is a translate of the layout: the ranks at \<open>anchor + off\<close> for the offsets of the layout.
\<close>

theorem remap_partitions_ranks:
  assumes "remap_to_numpy l rank_map = Inr rows"
    and "check_non_overlap l" "\<forall>off \<in> set (all_ranks_from_zero l). 0 \<le> off"
  shows "mset (concat rows) = mset rank_map \<and>
    (\<forall>row \<in> set rows. \<exists>anchor. row = map (\<lambda>off. rank_map ! nat (anchor + off)) (all_ranks_from_zero l))"
proof -
  let ?base = "all_ranks_from_zero l" and ?n = "length rank_map"
  obtain groups used where f: "fold (remap_step ?base ?n) [0..<?n] ([], {}) = (groups, used)" by fastforce
  have "distinct ?base" using assms(2) by (simp add: check_non_overlap_def Let_def card_distinct)
  moreover have "remap_inv ?base ?n ([], {})" by (simp add: remap_inv_def)
  ultimately have inv: "remap_inv ?base ?n (groups, used)"
    using remap_fold_inv assms(3) f by metis
  have ok: "card used = ?n" "rmap (rmap (py_get rank_map)) groups = Inr rows"
    using assms(1) f by (auto simp: remap_to_numpy_def Let_def split: if_splits)
  have "snd (groups, used) \<subseteq> {0..<int ?n}" using inv unfolding remap_inv_def by blast
  then have "used = {0..<int ?n}" using ok(1) by (intro card_subset_eq) simp_all
  then have g: "distinct (concat groups)" "set (concat groups) = {0..<int ?n}"
    using inv by (auto simp: remap_inv_def)
  then have rows: "rows = map (map (\<lambda>i. rank_map ! nat i)) groups"
    using ok(2) rmap_get_groups [of groups rank_map] by auto
  have "mset (concat rows) = mset rank_map"
    using mset_permuted_nth [OF g] by (simp add: rows map_concat)
  then show ?thesis using inv by (fastforce simp: rows remap_inv_def)
qed

lemma remap_partitions_ranks_witness:
  "mset (concat [[10, 12], [11, 13]]) = mset [10, 11, 12, 13::nat]"
proof -
  let ?l = "\<lparr>lshape = IntV 2, lstride = IntV 2\<rparr>"
  have r: "all_ranks_from_zero ?l = [0, 2]" by (simp add: all_ranks_from_zero_def upt_rec)
  have "remap_to_numpy ?l [10, 11, 12, 13::nat] = Inr [[10, 12], [11, 13]]"
    by (simp add: remap_to_numpy_def r upt_rec remap_step_def py_get_def py_slot_def Let_def)
  from remap_partitions_ranks [OF this] show ?thesis by (simp add: r check_non_overlap_def)
qed

text \<open>
  Composing a layout on top of an axis scales every rank offset by the stride of the axis,
  and an axis that is not a single stride is refused.
\<close>

theorem composition_scales_ranks:
  assumes "make_mesh_layout shape stride = Inr l'"
  shows "case lstride l of
      IntV d \<Rightarrow> \<exists>c. composition l l' = Inr c \<and> all_ranks_from_zero c = map (\<lambda>off. off * d) (all_ranks_from_zero l')
    | TupV _ \<Rightarrow> composition l l' = Inl NotImplementedError"
proof (cases "lstride l")
  case (IntV d)
  have "match_structure (lshape l') (lstride l')"
    using assms by (auto simp: make_mesh_layout_def split: if_splits)
  then show ?thesis using composition_all_ranks IntV by simp
qed (simp add: composition_def)

lemma composition_scales_ranks_witness:
  "\<exists>c. composition \<lparr>lshape = IntV 4, lstride = IntV 3\<rparr> \<lparr>lshape = IntV 2, lstride = IntV 1\<rparr> = Inr c \<and>
     all_ranks_from_zero c = map (\<lambda>off. off * 3) (all_ranks_from_zero \<lparr>lshape = IntV 2, lstride = IntV 1\<rparr>)"
  using composition_scales_ranks [of "IntV 2" "IntV 1" "\<lparr>lshape = IntV 2, lstride = IntV 1\<rparr>"
      "\<lparr>lshape = IntV 4, lstride = IntV 3\<rparr>"]
  by (simp add: make_mesh_layout_def)

end
