(* ===== verification/PipeStep.thy ===== *)
theory PipeStep
  imports Prelude "HOL-Library.AList"
begin

text \<open>
  The steps of a pipeline schedule (\<open>core/pipeline_parallel/utils.py\<close>, the step types of
  \<open>mpipe/step_types.py\<close>) and the placement of virtual stages on ranks
  (\<open>core/pipeline_parallel/scheduler.py\<close>).  A schedule of one rank is a list of optional steps,
  \<open>None\<close> a bubble.  A missing \<open>sub_steps\<close> or \<open>boundary_p2p\<close> is the empty list: the code only
  tests their truth value and iterates over them.
\<close>

section \<open>Steps\<close>

datatype mpipe_step_type =
    MPIPE_PARAM_BROADCAST | MPIPE_TRANSPOSE_FWD | MPIPE_FWD_SEND | MPIPE_FWD_RECV
  | MPIPE_GRAPH_SEND | MPIPE_GRAPH_RECV | MPIPE_TRANSPOSE_BWD | MPIPE_GRAD_SEND
  | MPIPE_GRAD_RECV_WITH_BACKWARD | MPIPE_GRAD_REDUCE

text \<open>\<open>MetaStep\<close> does not validate its type; the custom step types are the ones of MPipe.\<close>

datatype meta_step_type =
    DATA_LOAD | DATA_SEND | DATA_RECV
  | FWD | BWD | BWD_INPUT | BWD_WEIGHT
  | FWD_RECV | FWD_SEND | BWD_RECV | BWD_SEND | BATCH_SEND_RECV
  | OVERLAP_F_B | OVERLAP_B_F
  | FSDP_UNSHARD | FSDP_RESHARD | FSDP_REDUCE_GRAD
  | SWAP_LAUNCH_OFFLOAD | SWAP_WAIT_OFFLOAD | SWAP_LAUNCH_LOAD | SWAP_WAIT_LOAD
  | CUSTOM mpipe_step_type

datatype meta_step =
  MetaStep (micro_index: "int option") (step_type: meta_step_type) (stage_index: "int option")
    (sub_steps: "meta_step list") (boundary_p2p: "meta_step list")

type_synonym order = "meta_step option list"

text \<open>A step of one micro-batch at one stage, and a control step of one stage.\<close>

abbreviation mstep :: "int \<Rightarrow> meta_step_type \<Rightarrow> int \<Rightarrow> meta_step" where
  "mstep m t s \<equiv> MetaStep (Some m) t (Some s) [] []"

abbreviation ctrl :: "meta_step_type \<Rightarrow> int \<Rightarrow> meta_step" where
  "ctrl t s \<equiv> MetaStep None t (Some s) [] []"

text \<open>\<open>MetaStep.__eq__\<close>: the boundary transfers are not compared.\<close>

function step_eq :: "meta_step \<Rightarrow> meta_step \<Rightarrow> bool" where
  "step_eq (MetaStep m t s subs _) (MetaStep m' t' s' subs' _) =
     (t = t' \<and> m = m' \<and> s = s' \<and> length subs = length subs' \<and>
      (\<forall>(a, b) \<in> set (zip subs subs'). step_eq a b))"
  by pat_completeness auto

termination
  by (relation "measure (size \<circ> fst)") (auto dest!: set_zip_leftD simp: less_Suc_eq_le trans_le_add1 size_list_estimation')

text \<open>\<open>iter_leaf_meta_steps\<close>: overlap containers are expanded.\<close>

definition is_overlap :: "meta_step_type \<Rightarrow> bool" where
  "is_overlap t \<longleftrightarrow> t = OVERLAP_F_B \<or> t = OVERLAP_B_F"

fun leaf_steps :: "meta_step \<Rightarrow> meta_step list" where
  "leaf_steps (MetaStep m t s subs b) =
     (if is_overlap t \<and> subs \<noteq> [] then concat (map leaf_steps subs) else [MetaStep m t s subs b])"

definition iter_leaf_meta_steps :: "meta_step option \<Rightarrow> meta_step list" where
  "iter_leaf_meta_steps step = (case step of None \<Rightarrow> [] | Some s \<Rightarrow> leaf_steps s)"

definition order_leaves :: "order \<Rightarrow> meta_step list" where
  "order_leaves xs = concat (map iter_leaf_meta_steps xs)"

lemma order_leaves_simps [simp]:
  "order_leaves [] = []"
  "order_leaves (x # xs) = iter_leaf_meta_steps x @ order_leaves xs"
  "order_leaves (xs @ ys) = order_leaves xs @ order_leaves ys"
  by (simp_all add: order_leaves_def)

lemma iter_leaf_None [simp]: "iter_leaf_meta_steps None = []"
  by (simp add: iter_leaf_meta_steps_def)

lemma leaf_steps_plain [simp]: "\<not> is_overlap t \<Longrightarrow> leaf_steps (MetaStep m t s subs b) = [MetaStep m t s subs b]"
  by simp

lemma iter_leaf_plain [simp]: "\<not> is_overlap (step_type s) \<Longrightarrow> iter_leaf_meta_steps (Some s) = [s]"
  by (cases s) (simp add: iter_leaf_meta_steps_def)

lemma is_overlap_simps [simp]:
  "is_overlap OVERLAP_F_B" "is_overlap OVERLAP_B_F"
  "\<not> is_overlap FWD" "\<not> is_overlap BWD" "\<not> is_overlap BWD_INPUT" "\<not> is_overlap BWD_WEIGHT"
  "\<not> is_overlap FWD_SEND" "\<not> is_overlap FWD_RECV" "\<not> is_overlap BWD_SEND" "\<not> is_overlap BWD_RECV"
  "\<not> is_overlap DATA_LOAD" "\<not> is_overlap DATA_SEND" "\<not> is_overlap DATA_RECV" "\<not> is_overlap BATCH_SEND_RECV"
  "\<not> is_overlap FSDP_UNSHARD" "\<not> is_overlap FSDP_RESHARD" "\<not> is_overlap FSDP_REDUCE_GRAD"
  by (simp_all add: is_overlap_def)

lemma step_eq_refl: "step_eq s s"
proof (induction s)
  case (MetaStep m t i subs b)
  then show ?case by (auto simp: set_zip)
qed

section \<open>Step classes\<close>

definition is_compute :: "meta_step \<Rightarrow> bool" where
  "is_compute s \<longleftrightarrow> step_type s \<in> {FWD, BWD, BWD_INPUT, BWD_WEIGHT}"

definition is_p2p :: "meta_step \<Rightarrow> bool" where
  "is_p2p s \<longleftrightarrow> step_type s \<in> {FWD_SEND, FWD_RECV, BWD_SEND, BWD_RECV}"

definition is_recv :: "meta_step \<Rightarrow> bool" where
  "is_recv s \<longleftrightarrow> step_type s \<in> {FWD_RECV, BWD_RECV}"

lemma compute_not_overlap: "is_compute s \<Longrightarrow> \<not> is_overlap (step_type s)"
  by (auto simp: is_compute_def is_overlap_def)

section \<open>Stages and ranks\<close>

text \<open>
  \<open>generate_stage_to_rank_mapping\<close>: the dictionary's keys are \<open>0 \<dots> stage_num - 1\<close> in order, so
  it is the list of its values.
\<close>

definition v_step :: "nat \<Rightarrow> nat \<Rightarrow> int list \<times> int \<Rightarrow> int list \<times> int" where
  "v_step real_stage_num stage = (\<lambda>(mapping, rank).
     (mapping @ [rank],
      if (stage + 1) mod real_stage_num = 0 then rank
      else if (stage div real_stage_num) mod 2 = 0 then rank + 1 else rank - 1))"

definition generate_stage_to_rank_mapping :: "nat \<Rightarrow> nat \<Rightarrow> string \<Rightarrow> int list res" where
  "generate_stage_to_rank_mapping real_stage_num stage_num style =
     (if style = ''loop'' then
        (if real_stage_num = 0 \<and> 0 < stage_num then Inl ZeroDivisionError
         else Inr (map (\<lambda>stage. int (stage mod real_stage_num)) [0..<stage_num]))
      else if style = ''v'' then
        (if real_stage_num = 0 then Inl ZeroDivisionError
         else if stage_num mod real_stage_num \<noteq> 0 then Inl ValueError
         else Inr (fst (fold (v_step real_stage_num) [0..<stage_num] ([], 0))))
      else Inl ValueError)"

text \<open>\<open>generate_rank_to_stage_mapping\<close>: a dictionary in order of first insertion.\<close>

definition generate_rank_to_stage_mapping :: "nat \<Rightarrow> nat \<Rightarrow> string \<Rightarrow> (int \<times> nat list) list res" where
  "generate_rank_to_stage_mapping real_stage_num stage_num style =
     rbind (generate_stage_to_rank_mapping real_stage_num stage_num style) (\<lambda>stage_to_rank.
       Inr (map (\<lambda>(rank, stages). (rank, sort stages))
         (fold (\<lambda>(stage, rank). AList.map_default rank [stage] (\<lambda>stages. stages @ [stage]))
           (enumerate 0 stage_to_rank) [])))"

text \<open>\<open>stage_to_rank\<close> of the communication passes, which do not use the mapping above.\<close>

definition stage_to_rank :: "string \<Rightarrow> nat \<Rightarrow> nat \<Rightarrow> int \<Rightarrow> int res" where
  "stage_to_rank style stage_num real_stage_num stage =
     (if style = ''loop'' then
        (if real_stage_num = 0 then Inl ZeroDivisionError else Inr (stage mod int real_stage_num))
      else if style = ''v'' then
        (if stage < int real_stage_num then Inr stage else Inr (int stage_num - 1 - stage))
      else Inl ValueError)"


definition v_rank :: "nat \<Rightarrow> nat \<Rightarrow> int" where
  "v_rank R s = (if even (s div R) then int (s mod R) else int R - 1 - int (s mod R))"

lemma v_rank_next:
  assumes "0 < R"
  shows "v_rank R (Suc s) = (if Suc s mod R = 0 then v_rank R s
    else if even (s div R) then v_rank R s + 1 else v_rank R s - 1)"
proof -
  have "int (s mod R) = int R - 1" if "Suc s mod R = 0"
    using that assms by (auto simp: mod_Suc split: if_splits)
  then show ?thesis by (auto simp: v_rank_def mod_Suc div_Suc)
qed

lemma v_fold:
  assumes "0 < R"
  shows "fold (v_step R) [0..<n] ([], 0) = (map (v_rank R) [0..<n], v_rank R n)"
proof (induction n)
  case 0
  then show ?case by (simp add: v_rank_def)
next
  case (Suc n)
  then show ?case using v_rank_next [OF assms, of n] by (auto simp: v_step_def even_iff_mod_2_eq_zero)
qed

lemma v_mapping:
  "0 < R \<Longrightarrow> R dvd n \<Longrightarrow> generate_stage_to_rank_mapping R n ''v'' = Inr (map (v_rank R) [0..<n])"
  by (simp add: generate_stage_to_rank_mapping_def v_fold dvd_eq_mod_eq_0)

lemma v_rank_range: "0 < R \<Longrightarrow> 0 \<le> v_rank R s \<and> v_rank R s < int R"
  using mod_less_divisor [of R s] by (auto simp: v_rank_def simp del: mod_less_divisor)

text \<open>The dictionary inversion: every key holds the positions of its value, in order.\<close>

lemma map_of_map_default:
  "map_of (AList.map_default k v f xs) j =
     (if j = k then Some (case map_of xs k of None \<Rightarrow> v | Some u \<Rightarrow> f u) else map_of xs j)"
  by (induction xs) auto

lemma invert_fold:
  "map_of (fold (\<lambda>(stage, rank). AList.map_default rank [stage] (\<lambda>stages. stages @ [stage])) (enumerate k xs) al) r =
     (case map_of al r of
        None \<Rightarrow> (if r \<in> set xs then Some (map fst (filter (\<lambda>p. snd p = r) (enumerate k xs))) else None)
      | Some l \<Rightarrow> Some (l @ map fst (filter (\<lambda>p. snd p = r) (enumerate k xs))))"
  by (induction xs arbitrary: k al) (auto simp: map_of_map_default split: option.splits)

lemma map_of_map_snd: "map_of (map (\<lambda>(k, v). (k, f v)) xs) r = map_option f (map_of xs r)"
  by (induction xs) auto

definition stages_of :: "int list \<Rightarrow> int \<Rightarrow> nat list" where
  "stages_of mapping r = filter (\<lambda>s. mapping ! s = r) [0..<length mapping]"

lemma enumerate_filter: "map fst (filter (\<lambda>p. snd p = r) (enumerate 0 xs)) = stages_of xs r"
proof -
  have "enumerate 0 xs = map (\<lambda>s. (s, xs ! s)) [0..<length xs]"
    by (rule nth_equalityI) (simp_all add: nth_enumerate_eq)
  then show ?thesis by (simp add: filter_map comp_def stages_of_def)
qed

lemma rank_to_stages:
  assumes "generate_stage_to_rank_mapping R n style = Inr mapping"
  shows "\<exists>d. generate_rank_to_stage_mapping R n style = Inr d \<and>
    (\<forall>r. map_of d r = (if r \<in> set mapping then Some (stages_of mapping r) else None))"
proof -
  have "sort (stages_of mapping r) = stages_of mapping r" for r
    unfolding stages_of_def by (intro sorted_sort_id sorted_wrt_filter) simp
  then show ?thesis
    by (simp add: generate_rank_to_stage_mapping_def assms map_of_map_snd invert_fold enumerate_filter)
qed

lemma block_count:
  assumes "0 < R" "\<And>q. q < chunks \<Longrightarrow> \<exists>!j. j < R \<and> f (R * q + j) = r"
  shows "length (filter (\<lambda>s. f s = r) [0..<R * chunks]) = chunks"
  using assms(2)
proof (induction chunks)
  case 0
  then show ?case by simp
next
  case (Suc q)
  obtain j where j: "j < R" "f (R * q + j) = r" "\<And>i. i < R \<Longrightarrow> f (R * q + i) = r \<Longrightarrow> i = j"
    using Suc.prems [of q] by blast
  have block: "[R * q..<R * Suc q] = map (\<lambda>j. R * q + j) [0..<R]"
    by (rule nth_equalityI) simp_all
  have "i < R \<and> f (R * q + i) = r \<longleftrightarrow> i = j" for i using j by blast
  then have "set (filter (\<lambda>j. f (R * q + j) = r) [0..<R]) = {j}" by (simp add: conj_commute)
  then have "length (filter (\<lambda>j. f (R * q + j) = r) [0..<R]) = 1"
    using distinct_card [of "filter (\<lambda>j. f (R * q + j) = r) [0..<R]"] by simp
  then have "length (filter (\<lambda>s. f s = r) [R * q..<R * Suc q]) = 1"
    unfolding block by (simp add: filter_map comp_def)
  moreover have "[0..<R * Suc q] = [0..<R * q] @ [R * q..<R * Suc q]"
    using upt_add_eq_append [of 0 "R * q" R] by (simp add: add.commute)
  ultimately show ?case using Suc.IH Suc.prems by (simp del: mult_Suc_right)
qed

lemma v_rank_block: "j < R \<Longrightarrow> v_rank R (R * q + j) = (if even q then int j else int R - 1 - int j)"
  by (simp add: v_rank_def)

lemma v_rank_block_unique:
  assumes "r < R"
  shows "\<exists>!j. j < R \<and> v_rank R (R * q + j) = int r"
proof (cases "even q")
  case True
  then show ?thesis using assms by (intro ex1I [of _ r]) (auto simp: v_rank_block)
next
  case False
  then have "v_rank R (R * q + j) = int r \<longleftrightarrow> j = R - 1 - r" if "j < R" for j
    using assms that by (auto simp: v_rank_block)
  moreover have "R - 1 - r < R" using assms by simp
  ultimately show ?thesis by blast
qed

lemma loop_block_unique: "r < R \<Longrightarrow> \<exists>!j. j < R \<and> int ((R * q + j) mod R) = int r"
  by (intro ex1I [of _ r]) auto

definition rank_fun :: "string \<Rightarrow> nat \<Rightarrow> nat \<Rightarrow> int" where
  "rank_fun style R s = (if style = ''loop'' then int (s mod R) else v_rank R s)"

lemma mapping_is_rank_fun:
  "0 < R \<Longrightarrow> R dvd n \<Longrightarrow> style \<in> {''loop'', ''v''} \<Longrightarrow>
     generate_stage_to_rank_mapping R n style = Inr (map (rank_fun style R) [0..<n])"
  using v_mapping [of R n] by (auto simp: rank_fun_def generate_stage_to_rank_mapping_def fun_eq_iff)

lemma rank_fun_range: "0 < R \<Longrightarrow> 0 \<le> rank_fun style R s \<and> rank_fun style R s < int R"
  using v_rank_range [of R s] by (simp add: rank_fun_def)

lemma rank_fun_next:
  "0 < R \<Longrightarrow> if style = ''loop'' then rank_fun style R (Suc s) = (rank_fun style R s + 1) mod int R
    else \<bar>rank_fun style R (Suc s) - rank_fun style R s\<bar> \<le> 1"
  using v_rank_next [of R s] by (auto simp: rank_fun_def zmod_int mod_simps add.commute)

lemma stages_of_map: "stages_of (map f [0..<n]) r = filter (\<lambda>s. f s = r) [0..<n]"
  unfolding stages_of_def by (rule filter_cong) simp_all

lemma stages_of_count:
  assumes "0 < R" "r < R"
  shows "length (stages_of (map (rank_fun style R) [0..<R * chunks]) (int r)) = chunks"
  unfolding stages_of_map using assms v_rank_block_unique [of r R] loop_block_unique [of r R]
  by (cases "style = ''loop''"; intro block_count) (simp_all add: rank_fun_def)

text \<open>
  C7.  Both placements give every virtual stage one rank in range and every rank the same number
  of stages; the inverse dictionary lists for every rank exactly its stages, in ascending
  order.  In the loop placement the next stage is on the next rank, in the V placement it is on
  the same or a neighbouring rank.
\<close>

theorem stage_placement:
  assumes "0 < R" "n = R * chunks" "0 < chunks" "style \<in> {''loop'', ''v''}"
  shows "\<exists>mapping d. generate_stage_to_rank_mapping R n style = Inr mapping \<and> length mapping = n \<and>
    generate_rank_to_stage_mapping R n style = Inr d \<and>
    (\<forall>s < n. 0 \<le> mapping ! s \<and> mapping ! s < int R) \<and>
    (\<forall>r < R. \<exists>stages. map_of d (int r) = Some stages \<and> length stages = chunks \<and> sorted stages \<and>
       (\<forall>s. s \<in> set stages \<longleftrightarrow> s < n \<and> mapping ! s = int r)) \<and>
    (\<forall>s. Suc s < n \<longrightarrow> (if style = ''loop'' then mapping ! Suc s = (mapping ! s + 1) mod int R
                         else \<bar>mapping ! Suc s - mapping ! s\<bar> \<le> 1))"
proof -
  let ?m = "map (rank_fun style R) [0..<n]"
  have m: "generate_stage_to_rank_mapping R n style = Inr ?m"
    using mapping_is_rank_fun assms by simp
  obtain d where d: "generate_rank_to_stage_mapping R n style = Inr d"
    "\<And>r. map_of d r = (if r \<in> set ?m then Some (stages_of ?m r) else None)"
    using rank_to_stages [OF m] by blast
  have "map_of d (int r) = Some (stages_of ?m (int r)) \<and> length (stages_of ?m (int r)) = chunks" if "r < R" for r
  proof -
    have len: "length (stages_of ?m (int r)) = chunks" using stages_of_count [OF assms(1) that] assms(2) by simp
    then have "stages_of ?m (int r) \<noteq> []" using assms(3) by auto
    then have "int r \<in> set ?m" by (force simp: stages_of_map filter_empty_conv)
    then show ?thesis using d(2) len by simp
  qed
  moreover have "sorted (stages_of ?m r)" for r unfolding stages_of_def by (rule sorted_wrt_filter) simp
  moreover have "s \<in> set (stages_of ?m r) \<longleftrightarrow> s < n \<and> ?m ! s = r" for r s by (auto simp: stages_of_def)
  ultimately show ?thesis
    using m d(1) rank_fun_range [OF assms(1)] rank_fun_next [OF assms(1), of style]
    by (cases "style = ''loop''") simp_all
qed

theorem stage_placement_witness:
  "\<exists>mapping d. generate_stage_to_rank_mapping 4 8 ''v'' = Inr mapping \<and> length mapping = 8 \<and>
    generate_rank_to_stage_mapping 4 8 ''v'' = Inr d \<and>
    (\<forall>s < 8. 0 \<le> mapping ! s \<and> mapping ! s < int 4) \<and>
    (\<forall>r < 4. \<exists>stages. map_of d (int r) = Some stages \<and> length stages = 2 \<and> sorted stages \<and>
       (\<forall>s. s \<in> set stages \<longleftrightarrow> s < 8 \<and> mapping ! s = int r)) \<and>
    (\<forall>s. Suc s < 8 \<longrightarrow> (if ''v'' = ''loop'' then mapping ! Suc s = (mapping ! s + 1) mod int 4
                         else \<bar>mapping ! Suc s - mapping ! s\<bar> \<le> 1))"
  by (rule stage_placement [of 4 8 2]) simp_all

text \<open>
  The communication passes place stages as the mapping does when there are at most two
  chunks; in the V style with three or more chunks they send to ranks that do not exist.
\<close>

theorem comm_placement_agrees:
  assumes "0 < R" "R dvd n" "style \<in> {''loop'', ''v''}"
  shows "(\<exists>mapping. generate_stage_to_rank_mapping R n style = Inr mapping \<and>
      (\<forall>s < n. stage_to_rank style n R (int s) = Inr (mapping ! s))) \<longleftrightarrow> style = ''loop'' \<or> n \<le> 2 * R"
proof -
  have "(\<forall>s < n. stage_to_rank style n R (int s) = Inr (rank_fun style R s)) \<longleftrightarrow> style = ''loop'' \<or> n \<le> 2 * R"
  proof (cases "style = ''loop''")
    case True
    then show ?thesis using assms by (auto simp: stage_to_rank_def rank_fun_def zmod_int)
  next
    case False
    then have style: "style = ''v''" using assms(3) by simp
    obtain k where k: "n = R * k" using assms(2) by blast
    show ?thesis
    proof (cases "k \<le> 2")
      case True
      have "stage_to_rank style n R (int s) = Inr (v_rank R s)" if "s < n" for s
      proof (cases "s < R")
        case True
        then show ?thesis by (simp add: stage_to_rank_def v_rank_def style)
      next
        case False
        then have "k = 2" using that k \<open>k \<le> 2\<close> by (cases k; cases "k - 1") (auto simp: numeral_2_eq_2)
        then have "s = R * 1 + (s - R)" "s - R < R" using False that k by auto
        then have "v_rank R s = int R - 1 - int (s - R)" using v_rank_block [of "s - R" R 1] by simp
        then show ?thesis using False \<open>k = 2\<close> k by (simp add: stage_to_rank_def style of_nat_diff)
      qed
      moreover have "n \<le> 2 * R" using True k by (metis mult.commute mult_le_mono1)
      ultimately show ?thesis using False by (simp add: rank_fun_def)
    next
      case big: False
      have "3 * R \<le> n" using big k by (metis not_less_eq_eq numeral_3_eq_3 numeral_2_eq_2 mult.commute mult_le_mono2)
      then have "R < n" "\<not> n \<le> 2 * R" using assms(1) by auto
      moreover have "v_rank R R = int R - 1" using v_rank_block [of 0 R 1] assms(1) by simp
      moreover have "stage_to_rank style n R (int R) = Inr (int n - 1 - int R)" by (simp add: stage_to_rank_def style)
      ultimately have "stage_to_rank style n R (int R) \<noteq> Inr (rank_fun style R R)"
        using False \<open>3 * R \<le> n\<close> assms(1) by (simp add: rank_fun_def)
      then show ?thesis using \<open>R < n\<close> \<open>\<not> n \<le> 2 * R\<close> False by blast
    qed
  qed
  then show ?thesis using mapping_is_rank_fun [OF assms] by simp
qed

theorem comm_placement_agrees_witness:
  "(\<exists>mapping. generate_stage_to_rank_mapping 2 6 ''v'' = Inr mapping \<and>
      (\<forall>s < 6. stage_to_rank ''v'' 6 2 (int s) = Inr (mapping ! s))) \<longleftrightarrow> ''v'' = ''loop'' \<or> (6::nat) \<le> 2 * 2"
  by (rule comm_placement_agrees) simp_all

end
