(* ===== verification/PipeFsdp.thy ===== *)
theory PipeFsdp
  imports PipeStep
begin

text \<open>
  The injection of FSDP control steps into a rank's schedule
  (\<open>_next_active_stage_indices\<close>, \<open>add_fsdp_unshard_reshard\<close> and \<open>add_fsdp_reduce_grad\<close> of
  \<open>core/pipeline_parallel/scheduler.py\<close>), and what it promises: parameters are unsharded
  whenever a step computes with them, a bounded number of stages is unsharded at a time, and
  gradients are reduced once, after the last backward.
\<close>

section \<open>The passes\<close>

text \<open>
  The two nested loops of \<open>_next_active_stage_indices\<close> as one loop over the leaves, left as
  soon as the window is full; \<open>seen\<close> is the set of \<open>stage_indices\<close>.
\<close>

definition managed_stage :: "int set \<Rightarrow> meta_step \<Rightarrow> int option" where
  "managed_stage managed leaf =
     (if is_compute leaf then
        (case stage_index leaf of None \<Rightarrow> None | Some i \<Rightarrow> if i \<in> managed then Some i else None)
      else None)"

fun next_active_loop :: "int set \<Rightarrow> nat \<Rightarrow> meta_step list \<Rightarrow> int list \<Rightarrow> int list" where
  "next_active_loop managed max_active [] stage_indices = stage_indices"
| "next_active_loop managed max_active (leaf # leaves) stage_indices =
     (case managed_stage managed leaf of
        None \<Rightarrow> next_active_loop managed max_active leaves stage_indices
      | Some i \<Rightarrow>
          if i \<in> set stage_indices then next_active_loop managed max_active leaves stage_indices
          else if length (stage_indices @ [i]) = max_active then stage_indices @ [i]
          else next_active_loop managed max_active leaves (stage_indices @ [i]))"

definition next_active_stage_indices :: "order \<Rightarrow> nat \<Rightarrow> int set \<Rightarrow> int list" where
  "next_active_stage_indices remaining max_active managed =
     next_active_loop managed max_active (order_leaves remaining) []"

text \<open>One iteration for the action at the head of \<open>actions[index:]\<close>.\<close>

fun fsdp_loop :: "int set \<Rightarrow> nat \<Rightarrow> order \<Rightarrow> int list \<Rightarrow> order" where
  "fsdp_loop managed max_active [] active = map (\<lambda>i. Some (ctrl FSDP_RESHARD i)) active"
| "fsdp_loop managed max_active (action # actions) active =
     (let next_stages = next_active_stage_indices (action # actions) max_active managed;
          evicted = filter (\<lambda>i. i \<notin> set next_stages) active;
          fetched = filter (\<lambda>i. i \<notin> set active) next_stages
      in map (\<lambda>i. Some (ctrl FSDP_RESHARD i)) evicted @
         map (\<lambda>i. Some (ctrl FSDP_UNSHARD i)) fetched @
         action # fsdp_loop managed max_active actions (fold remove1 evicted active @ fetched))"

definition add_fsdp_unshard_reshard :: "order \<Rightarrow> int set \<Rightarrow> nat \<Rightarrow> order" where
  "add_fsdp_unshard_reshard actions managed max_active =
     (if managed = {} then actions else fsdp_loop managed max_active actions [])"

definition final_backward :: "int set \<Rightarrow> nat \<Rightarrow> meta_step \<Rightarrow> int option" where
  "final_backward managed micro_batch_num leaf =
     (case stage_index leaf of
        None \<Rightarrow> None
      | Some i \<Rightarrow>
          if i \<in> managed \<and> (step_type leaf = BWD \<or> step_type leaf = BWD_WEIGHT) \<and>
             micro_index leaf = Some (int micro_batch_num - 1)
          then Some i else None)"

fun reduced_stages :: "int set \<Rightarrow> nat \<Rightarrow> meta_step list \<Rightarrow> int list \<Rightarrow> int list" where
  "reduced_stages managed m [] acc = acc"
| "reduced_stages managed m (leaf # leaves) acc =
     (case final_backward managed m leaf of
        None \<Rightarrow> reduced_stages managed m leaves acc
      | Some i \<Rightarrow> reduced_stages managed m leaves (if i \<in> set acc then acc else acc @ [i]))"

definition add_fsdp_reduce_grad :: "order \<Rightarrow> int set \<Rightarrow> nat \<Rightarrow> order" where
  "add_fsdp_reduce_grad actions managed micro_batch_num =
     (if managed = {} then actions
      else concat (map (\<lambda>action. action #
        map (\<lambda>i. Some (ctrl FSDP_REDUCE_GRAD i))
          (reduced_stages managed micro_batch_num (iter_leaf_meta_steps action) [])) actions))"

section \<open>The window\<close>

definition stages_used :: "int set \<Rightarrow> meta_step list \<Rightarrow> int set" where
  "stages_used managed leaves = {i. \<exists>leaf \<in> set leaves. managed_stage managed leaf = Some i}"

lemma stages_used_simps [simp]:
  "stages_used managed [] = {}"
  "stages_used managed (leaf # leaves) = set_option (managed_stage managed leaf) \<union> stages_used managed leaves"
  by (auto simp: stages_used_def)

lemma finite_stages_used [simp]: "finite (stages_used managed leaves)"
  by (induction leaves) auto

lemma next_active_loop_good:
  "distinct acc \<Longrightarrow> length acc < max_active \<Longrightarrow>
     distinct (next_active_loop managed max_active leaves acc) \<and>
     length (next_active_loop managed max_active leaves acc) \<le> max_active"
  by (induction leaves arbitrary: acc) (auto split: option.splits)

lemma next_active_loop_keeps: "set acc \<subseteq> set (next_active_loop managed max_active leaves acc)"
proof (induction leaves arbitrary: acc)
  case (Cons leaf leaves)
  have "set acc \<subseteq> set (next_active_loop managed max_active leaves (acc @ [i]))" for i
    using Cons.IH [of "acc @ [i]"] by simp
  then show ?case using Cons.IH [of acc] by (auto split: option.splits)
qed simp

lemma next_active_loop_covers:
  "distinct acc \<Longrightarrow> length acc < max_active \<Longrightarrow>
   card (set acc \<union> stages_used managed now) \<le> max_active \<Longrightarrow>
     set acc \<union> stages_used managed now \<subseteq> set (next_active_loop managed max_active (now @ later) acc)"
proof (induction now arbitrary: acc)
  case Nil
  have "set acc \<subseteq> set (next_active_loop managed max_active leaves acc)" for leaves acc
    by (rule next_active_loop_keeps)
  then show ?case by simp
next
  case (Cons leaf now)
  show ?case
  proof (cases "managed_stage managed leaf")
    case None
    then show ?thesis using Cons by simp
  next
    case (Some i)
    let ?all = "set acc \<union> stages_used managed (leaf # now)"
    show ?thesis
    proof (cases "i \<in> set acc")
      case True
      then have "?all = set acc \<union> stages_used managed now" using Some by auto
      then show ?thesis using Cons.IH [OF Cons.prems(1,2)] Cons.prems(3) Some True by simp
    next
      case new: False
      have all: "?all = set (acc @ [i]) \<union> stages_used managed now" using Some by auto
      have d: "distinct (acc @ [i])" using new Cons.prems(1) by simp
      show ?thesis
      proof (cases "length (acc @ [i]) = max_active")
        case True
        then have "card (set (acc @ [i])) = max_active" using distinct_card [OF d] by simp
        then have "set (acc @ [i]) = ?all"
          using Cons.prems(3) all by (intro card_seteq) auto
        then show ?thesis using Some new True by simp
      next
        case False
        then have "length (acc @ [i]) < max_active" using Cons.prems(2) by simp
        then show ?thesis using Cons.IH [OF d] Cons.prems(3) Some new False all by simp
      qed
    qed
  qed
qed

lemma next_active_good:
  assumes "0 < max_active"
  shows "distinct (next_active_stage_indices rest max_active managed)"
    and "length (next_active_stage_indices rest max_active managed) \<le> max_active"
  using next_active_loop_good [of "[]" max_active managed "order_leaves rest"] assms
  by (simp_all add: next_active_stage_indices_def)

lemma next_active_covers:
  assumes "0 < max_active" "card (stages_used managed (iter_leaf_meta_steps action)) \<le> max_active"
  shows "stages_used managed (iter_leaf_meta_steps action) \<subseteq>
    set (next_active_stage_indices (action # rest) max_active managed)"
  using next_active_loop_covers [of "[]" max_active managed "iter_leaf_meta_steps action" "order_leaves rest"] assms
  by (simp add: next_active_stage_indices_def)

section \<open>Running the control steps\<close>

text \<open>
  The stages that are unsharded after an order; \<open>None\<close> when a stage is unsharded twice or resharded
  while it is not unsharded, when more than \<open>max_active\<close> stages would be unsharded, or when a
  managed stage computes while it is not unsharded.
\<close>

definition is_fsdp :: "meta_step option \<Rightarrow> bool" where
  "is_fsdp a \<longleftrightarrow> (case a of None \<Rightarrow> False | Some s \<Rightarrow> step_type s = FSDP_UNSHARD \<or> step_type s = FSDP_RESHARD)"

definition unshard_step :: "nat \<Rightarrow> int set \<Rightarrow> meta_step option \<Rightarrow> int set \<Rightarrow> int set option" where
  "unshard_step max_active managed a S =
     (case a of
        Some (MetaStep _ FSDP_UNSHARD (Some i) _ _) \<Rightarrow>
          if i \<notin> S \<and> card (insert i S) \<le> max_active then Some (insert i S) else None
      | Some (MetaStep _ FSDP_RESHARD (Some i) _ _) \<Rightarrow> if i \<in> S then Some (S - {i}) else None
      | _ \<Rightarrow> if stages_used managed (iter_leaf_meta_steps a) \<subseteq> S then Some S else None)"

fun unshard_run :: "nat \<Rightarrow> int set \<Rightarrow> order \<Rightarrow> int set \<Rightarrow> int set option" where
  "unshard_run max_active managed [] S = Some S"
| "unshard_run max_active managed (a # as) S =
     Option.bind (unshard_step max_active managed a S) (unshard_run max_active managed as)"

lemma unshard_run_append:
  "unshard_run n managed (xs @ ys) S = Option.bind (unshard_run n managed xs S) (unshard_run n managed ys)"
  by (induction xs arbitrary: S) (auto split: bind_splits)

lemma run_action:
  assumes "\<not> is_fsdp a"
  shows "unshard_step n managed a S =
    (if stages_used managed (iter_leaf_meta_steps a) \<subseteq> S then Some S else None)"
proof (cases a)
  case None
  then show ?thesis by (simp add: unshard_step_def)
next
  case (Some s)
  obtain m t i subs b where s: "s = MetaStep m t i subs b" by (cases s)
  show ?thesis using assms Some s by (cases t) (auto simp: unshard_step_def is_fsdp_def)
qed

lemma run_reshards:
  "distinct xs \<Longrightarrow> set xs \<subseteq> S \<Longrightarrow>
     unshard_run n managed (map (\<lambda>i. Some (ctrl FSDP_RESHARD i)) xs) S = Some (S - set xs)"
proof (induction xs arbitrary: S)
  case Nil
  then show ?case by simp
next
  case (Cons x xs)
  then have "unshard_run n managed (map (\<lambda>i. Some (ctrl FSDP_RESHARD i)) xs) (S - {x}) = Some (S - {x} - set xs)"
    by (intro Cons.IH) auto
  then show ?case using Cons.prems by (simp add: unshard_step_def Diff_insert2 [symmetric])
qed

lemma run_unshards:
  "distinct xs \<Longrightarrow> set xs \<inter> S = {} \<Longrightarrow> finite S \<Longrightarrow> card (S \<union> set xs) \<le> n \<Longrightarrow>
     unshard_run n managed (map (\<lambda>i. Some (ctrl FSDP_UNSHARD i)) xs) S = Some (S \<union> set xs)"
proof (induction xs arbitrary: S)
  case Nil
  then show ?case by simp
next
  case (Cons x xs)
  have "card (insert x S) \<le> card (S \<union> set (x # xs))" using Cons.prems(3) by (intro card_mono) auto
  then have "card (insert x S) \<le> n" using Cons.prems(4) by simp
  moreover have "unshard_run n managed (map (\<lambda>i. Some (ctrl FSDP_UNSHARD i)) xs) (insert x S) =
      Some (insert x S \<union> set xs)"
    using Cons.prems by (intro Cons.IH) auto
  ultimately show ?case using Cons.prems by (simp add: unshard_step_def)
qed

lemma fold_remove1: "distinct xs \<Longrightarrow> fold remove1 ys xs = filter (\<lambda>x. x \<notin> set ys) xs"
  by (induction ys arbitrary: xs) (auto simp: distinct_remove1_removeAll removeAll_filter_not_eq intro: filter_cong)

lemma fsdp_loop_runs:
  assumes n: "0 < n"
  shows "distinct active \<Longrightarrow> \<forall>a \<in> set actions. \<not> is_fsdp a \<Longrightarrow>
    \<forall>a \<in> set actions. card (stages_used managed (iter_leaf_meta_steps a)) \<le> n \<Longrightarrow>
     unshard_run n managed (fsdp_loop managed n actions active) (set active) = Some {}"
proof (induction actions arbitrary: active)
  case Nil
  then show ?case by (simp add: run_reshards)
next
  case (Cons a actions)
  let ?next = "next_active_stage_indices (a # actions) n managed"
  let ?evicted = "filter (\<lambda>i. i \<notin> set ?next) active"
  let ?fetched = "filter (\<lambda>i. i \<notin> set active) ?next"
  let ?active = "fold remove1 ?evicted active @ ?fetched"
  have d: "distinct ?next" "length ?next \<le> n" using next_active_good [OF n] by blast+
  have keep: "set active - set ?evicted = set active \<inter> set ?next" by auto
  have 1: "unshard_run n managed (map (\<lambda>i. Some (ctrl FSDP_RESHARD i)) ?evicted) (set active) =
      Some (set active \<inter> set ?next)"
    using Cons.prems(1) by (subst run_reshards) (auto simp: keep)
  have now: "(set active \<inter> set ?next) \<union> set ?fetched = set ?next" by auto
  have "card (set ?next) \<le> n" using d by (simp add: distinct_card)
  then have 2: "unshard_run n managed (map (\<lambda>i. Some (ctrl FSDP_UNSHARD i)) ?fetched) (set active \<inter> set ?next) =
      Some (set ?next)"
    using d(1) now by (subst run_unshards) auto
  have 3: "unshard_step n managed a (set ?next) = Some (set ?next)"
    using next_active_covers [OF n, of managed a actions] Cons.prems(2,3) by (simp add: run_action)
  have act: "distinct ?active" "set ?active = set ?next"
    using Cons.prems(1) d(1) by (auto simp: fold_remove1)
  have 4: "unshard_run n managed (fsdp_loop managed n actions ?active) (set ?next) = Some {}"
    using Cons.IH [OF act(1)] Cons.prems(2,3) act(2) by simp
  show ?case by (simp add: Let_def unshard_run_append 1 2 3 4)
qed

lemma fsdp_loop_erases:
  "\<forall>a \<in> set actions. \<not> is_fsdp a \<Longrightarrow> filter (\<lambda>a. \<not> is_fsdp a) (fsdp_loop managed n actions active) = actions"
  by (induction actions arbitrary: active) (auto simp: Let_def is_fsdp_def filter_empty_conv)

text \<open>
  C8.  For a schedule without FSDP steps whose actions each use at most \<open>max_active_stages\<close>
  managed stages (an overlap uses two, the default window is three), the unshard and reshard
  steps the pass inserts leave the schedule's own steps as they are, unshard every managed stage
  before it computes, never have more than the window's number of stages unsharded, never
  unshard or reshard twice, and leave every stage sharded at the end.
\<close>

theorem fsdp_steps_sound:
  assumes "0 < max_active" "\<forall>a \<in> set actions. \<not> is_fsdp a"
    and "\<forall>a \<in> set actions. card (stages_used managed (iter_leaf_meta_steps a)) \<le> max_active"
  shows "unshard_run max_active managed (add_fsdp_unshard_reshard actions managed max_active) {} = Some {} \<and>
    filter (\<lambda>a. \<not> is_fsdp a) (add_fsdp_unshard_reshard actions managed max_active) = actions"
proof (cases "managed = {}")
  case True
  have "stages_used {} leaves = {}" for leaves
    by (auto simp: stages_used_def managed_stage_def split: option.splits if_splits)
  then have "\<forall>a \<in> set actions. \<not> is_fsdp a \<Longrightarrow> unshard_run max_active {} actions {} = Some {}"
    by (induction actions) (simp_all add: run_action)
  then show ?thesis using True assms(2) by (simp add: add_fsdp_unshard_reshard_def filter_True)
next
  case False
  then show ?thesis
    using fsdp_loop_runs [OF assms(1), of "[]" actions managed] fsdp_loop_erases [OF assms(2)] assms(2,3)
    by (simp add: add_fsdp_unshard_reshard_def)
qed

text \<open>The example: two stages on a rank, one overlap, and a bubble.\<close>

definition example_actions :: order where
  "example_actions =
     [Some (mstep 0 FWD 0), None, Some (mstep 0 FWD_SEND 0), Some (mstep 0 FWD 2),
      Some (MetaStep None OVERLAP_B_F None [mstep 0 BWD 2, mstep 1 FWD 0] []),
      Some (mstep 1 FWD 2), Some (mstep 1 BWD 2), Some (mstep 0 BWD 0), Some (mstep 1 BWD 0)]"

lemmas example_unfold = example_actions_def iter_leaf_meta_steps_def is_fsdp_def managed_stage_def
  is_compute_def final_backward_def

theorem fsdp_steps_sound_witness:
  "unshard_run 3 {0, 2} (add_fsdp_unshard_reshard example_actions {0, 2} 3) {} = Some {} \<and>
    filter (\<lambda>a. \<not> is_fsdp a) (add_fsdp_unshard_reshard example_actions {0, 2} 3) = example_actions"
  by (rule fsdp_steps_sound) (simp_all add: example_unfold card_insert_if)

section \<open>The gradient reduction\<close>

definition backward_micros :: "int \<Rightarrow> order \<Rightarrow> int option list" where
  "backward_micros i actions = map micro_index (filter (\<lambda>leaf. stage_index leaf = Some i \<and>
     (step_type leaf = BWD \<or> step_type leaf = BWD_WEIGHT)) (order_leaves actions))"

definition reduce_step :: "int \<Rightarrow> meta_step option" where
  "reduce_step i = Some (ctrl FSDP_REDUCE_GRAD i)"

lemma backward_micros_simps [simp]:
  "backward_micros i [] = []"
  "backward_micros i (xs @ ys) = backward_micros i xs @ backward_micros i ys"
  by (simp_all add: backward_micros_def)

lemma reduced_stages_props:
  "distinct acc \<Longrightarrow> distinct (reduced_stages managed m leaves acc) \<and>
     set (reduced_stages managed m leaves acc) = set acc \<union> {i. \<exists>leaf \<in> set leaves. final_backward managed m leaf = Some i}"
  by (induction leaves arbitrary: acc) (auto split: option.splits)

lemma final_backward_iff:
  "i \<in> managed \<Longrightarrow> final_backward managed m leaf = Some i \<longleftrightarrow>
     stage_index leaf = Some i \<and> (step_type leaf = BWD \<or> step_type leaf = BWD_WEIGHT) \<and>
     micro_index leaf = Some (int m - 1)"
  by (auto simp: final_backward_def split: option.splits)

lemma reduced_iff:
  assumes "i \<in> managed"
  shows "i \<in> set (reduced_stages managed m (iter_leaf_meta_steps a) []) \<longleftrightarrow>
    Some (int m - 1) \<in> set (backward_micros i [a])"
  using reduced_stages_props [of "[]" managed m "iter_leaf_meta_steps a"]
  by (auto simp: backward_micros_def final_backward_iff [OF assms] image_iff)

lemma backward_micros_mem:
  "x \<in> set (backward_micros i actions) \<longleftrightarrow> (\<exists>a \<in> set actions. x \<in> set (backward_micros i [a]))"
  by (auto simp: backward_micros_def order_leaves_def)

definition reduce_block :: "int set \<Rightarrow> nat \<Rightarrow> meta_step option \<Rightarrow> order" where
  "reduce_block managed m a = a # map (\<lambda>i. Some (ctrl FSDP_REDUCE_GRAD i))
     (reduced_stages managed m (iter_leaf_meta_steps a) [])"

lemma reduce_blocks:
  "managed \<noteq> {} \<Longrightarrow> add_fsdp_reduce_grad actions managed m = concat (map (reduce_block managed m) actions)"
  by (simp add: add_fsdp_reduce_grad_def reduce_block_def [abs_def])

lemma backward_micros_block: "backward_micros i (reduce_block managed m a) = backward_micros i [a]"
  by (simp add: reduce_block_def backward_micros_def order_leaves_def comp_def)

lemma backward_micros_blocks:
  "backward_micros i (concat (map (reduce_block managed m) actions)) = backward_micros i actions"
proof (induction actions)
  case (Cons a actions)
  have "backward_micros i (a # actions) = backward_micros i [a] @ backward_micros i actions"
    using backward_micros_simps(2) [of i "[a]" actions] by simp
  then show ?case using Cons by (simp add: backward_micros_block)
qed simp

lemma no_reduce_in_blocks:
  assumes "i \<in> managed" "Some (int m - 1) \<notin> set (backward_micros i actions)" "reduce_step i \<notin> set actions"
  shows "reduce_step i \<notin> set (concat (map (reduce_block managed m) actions))"
  using assms(2,3)
proof (induction actions)
  case (Cons a actions)
  have "backward_micros i (a # actions) = backward_micros i [a] @ backward_micros i actions"
    using backward_micros_simps(2) [of i "[a]" actions] by simp
  then show ?case using Cons reduced_iff [OF assms(1), of m a] by (auto simp: reduce_block_def reduce_step_def)
qed simp

text \<open>
  When the backwards of a managed stage run in micro-batch order, each once, the pass inserts exactly one
  gradient reduction for the stage, and all its backwards come before it.
\<close>

theorem reduce_grad_once_and_last:
  assumes "i \<in> managed" "0 < micro_batch_num"
    and "backward_micros i actions = map (\<lambda>m. Some (int m)) [0..<micro_batch_num]"
    and "reduce_step i \<notin> set actions"
  shows "\<exists>xs ys. add_fsdp_reduce_grad actions managed micro_batch_num = xs @ reduce_step i # ys \<and>
    reduce_step i \<notin> set xs \<and> reduce_step i \<notin> set ys \<and>
    backward_micros i xs = map (\<lambda>m. Some (int m)) [0..<micro_batch_num] \<and> backward_micros i ys = []"
proof -
  let ?last = "Some (int micro_batch_num - 1)"
  let ?B = "\<lambda>as. concat (map (reduce_block managed micro_batch_num) as)"
  obtain k where k: "micro_batch_num = Suc k" using assms(2) gr0_implies_Suc by blast
  have micros: "backward_micros i actions = map (\<lambda>m. Some (int m)) [0..<k] @ [?last]"
    using assms(3) k by simp
  then obtain a where "a \<in> set actions" "?last \<in> set (backward_micros i [a])"
    using backward_micros_mem [of ?last i actions] by auto
  then obtain pre post where split: "actions = pre @ a # post" by (meson split_list)
  have parts: "backward_micros i actions = backward_micros i pre @ backward_micros i [a] @ backward_micros i post"
    unfolding split using backward_micros_simps(2) [of i "[a]" post] by simp
  have dist: "distinct (backward_micros i actions)" unfolding assms(3) by (simp add: distinct_map inj_on_def)
  have post: "backward_micros i post = []"
  proof (rule ccontr)
    assume ne: "backward_micros i post \<noteq> []"
    then have "last (backward_micros i post) = ?last" using micros parts by (metis append_is_Nil_conv last_appendR last_snoc)
    then show False using ne dist parts \<open>?last \<in> set (backward_micros i [a])\<close> last_in_set by fastforce
  qed
  have pre: "?last \<notin> set (backward_micros i pre)" using dist parts \<open>?last \<in> set (backward_micros i [a])\<close> by auto
  let ?red = "reduced_stages managed micro_batch_num (iter_leaf_meta_steps a) []"
  obtain us vs where red: "?red = us @ i # vs"
    using reduced_iff [OF assms(1)] \<open>?last \<in> set (backward_micros i [a])\<close> by (meson split_list)
  have "distinct ?red" using reduced_stages_props [of "[]"] by simp
  then have fresh: "i \<notin> set us" "i \<notin> set vs" unfolding red by auto
  let ?r = "map (\<lambda>i. Some (ctrl FSDP_REDUCE_GRAD i))"
  have "add_fsdp_reduce_grad actions managed micro_batch_num =
      (?B pre @ a # ?r us) @ reduce_step i # (?r vs @ ?B post)"
    using reduce_blocks [of managed actions micro_batch_num] assms(1)
    by (auto simp: split reduce_block_def red reduce_step_def)
  moreover have "reduce_step i \<notin> set (?B pre @ a # ?r us)"
    using no_reduce_in_blocks [OF assms(1) pre] assms(4) fresh unfolding split by (auto simp: reduce_step_def)
  moreover have "reduce_step i \<notin> set (?r vs @ ?B post)"
    using no_reduce_in_blocks [OF assms(1), of micro_batch_num post] assms(4) fresh post
    unfolding split by (auto simp: reduce_step_def)
  moreover have "backward_micros i (?r zs) = []" for zs
    by (auto simp: backward_micros_def order_leaves_def comp_def)
  moreover have "backward_micros i (?B pre @ a # ?r us) = backward_micros i (pre @ [a])"
    using backward_micros_simps(2) [of i "[a]" "?r us"] \<open>backward_micros i (?r us) = []\<close>
    by (simp add: backward_micros_blocks)
  moreover have "backward_micros i (pre @ [a]) = backward_micros i actions" using parts post by simp
  moreover have "backward_micros i (?r vs @ ?B post) = []"
    using \<open>\<And>zs. backward_micros i (?r zs) = []\<close> post by (simp add: backward_micros_blocks)
  ultimately show ?thesis using assms(3) by (metis (no_types, lifting))
qed

theorem reduce_grad_once_and_last_witness:
  "\<exists>xs ys. add_fsdp_reduce_grad example_actions {0, 2} 2 = xs @ reduce_step 2 # ys \<and>
    reduce_step 2 \<notin> set xs \<and> reduce_step 2 \<notin> set ys \<and>
    backward_micros 2 xs = map (\<lambda>m. Some (int m)) [0..<2] \<and> backward_micros 2 ys = []"
  by (rule reduce_grad_once_and_last)
    (simp_all add: example_unfold backward_micros_def reduce_step_def upt_rec numeral_2_eq_2)

end
