(* ===== verification/PipePasses.thy ===== *)
theory PipePasses
  imports PipeStep
begin

text \<open>
  The passes that rewrite the transfers of a finished schedule
  (\<open>core/pipeline_parallel/scheduler.py\<close>): \<open>coalesce_p2p\<close> batches contiguous transfers,
  \<open>attach_fwd_boundary_p2p\<close> hangs transfers on the overlap before them, and
  \<open>split_overlap_dxdw\<close> splits the backward of an overlap.  A schedule is the dictionary of the
  ranks' orders.  The indices into an order become the rest of the list from there.
\<close>

section \<open>Coalescing\<close>

definition flush_run :: "meta_step list \<Rightarrow> order" where
  "flush_run run =
     (if 2 \<le> length run then [Some (MetaStep None BATCH_SEND_RECV None run [])] else map Some run)"

fun coalesce_order :: "meta_step list \<Rightarrow> order \<Rightarrow> order" where
  "coalesce_order run [] = flush_run run"
| "coalesce_order run (None # order) = flush_run run @ None # coalesce_order [] order"
| "coalesce_order run (Some step # order) =
     (if is_p2p step then coalesce_order (run @ [step]) order
      else flush_run run @ Some step # coalesce_order [] order)"

definition coalesce_p2p :: "(int \<times> order) list \<Rightarrow> (int \<times> order) list" where
  "coalesce_p2p exec_order = map (\<lambda>(rank, order). (rank, coalesce_order [] order)) exec_order"

text \<open>What the runtime issues, and the steps that are transfers.\<close>

definition unbatch :: "meta_step option \<Rightarrow> order" where
  "unbatch a = (case a of
      Some (MetaStep _ BATCH_SEND_RECV _ subs _) \<Rightarrow> map Some subs
    | _ \<Rightarrow> [a])"

definition is_batch :: "meta_step option \<Rightarrow> bool" where
  "is_batch a \<longleftrightarrow> (case a of None \<Rightarrow> False | Some s \<Rightarrow> step_type s = BATCH_SEND_RECV)"

definition is_transfer :: "meta_step option \<Rightarrow> bool" where
  "is_transfer a \<longleftrightarrow> (case a of None \<Rightarrow> False | Some s \<Rightarrow> is_p2p s \<or> step_type s = BATCH_SEND_RECV)"

lemma unbatch_plain: "\<not> is_batch a \<Longrightarrow> unbatch a = [a]"
  by (auto simp: unbatch_def is_batch_def split: option.splits meta_step.splits meta_step_type.splits)

lemma p2p_not_batch: "is_p2p s \<Longrightarrow> \<not> is_batch (Some s)"
  by (auto simp: is_p2p_def is_batch_def)

lemma unbatch_flush: "\<forall>s \<in> set run. is_p2p s \<Longrightarrow> concat (map unbatch (flush_run run)) = map Some run"
proof -
  assume "\<forall>s \<in> set run. is_p2p s"
  then have "concat (map unbatch (map Some run)) = map Some run"
    by (induction run) (simp_all add: unbatch_plain p2p_not_batch)
  then show ?thesis by (auto simp: flush_run_def unbatch_def)
qed

lemma unbatch_coalesce_order:
  "\<forall>s \<in> set run. is_p2p s \<Longrightarrow> \<forall>a \<in> set order. \<not> is_batch a \<Longrightarrow>
     concat (map unbatch (coalesce_order run order)) = map Some run @ order"
  by (induction run order rule: coalesce_order.induct) (auto simp: unbatch_flush unbatch_plain)

definition coalesced :: "order \<Rightarrow> bool" where
  "coalesced order \<longleftrightarrow> successively (\<lambda>a b. \<not> (is_transfer a \<and> is_transfer b)) order"

lemma flush_run_short: "length (flush_run run) \<le> 1"
  by (auto simp: flush_run_def)

lemma coalesced_flush_Cons:
  "\<not> is_transfer a \<Longrightarrow> coalesced order \<Longrightarrow> coalesced (flush_run run @ a # order)"
  using flush_run_short [of run] unfolding coalesced_def
  by (cases "flush_run run"; cases order) (auto simp: successively_Cons)

lemma coalesced_coalesce_order:
  "\<forall>a \<in> set order. \<not> is_batch a \<Longrightarrow> coalesced (coalesce_order run order)"
proof (induction run order rule: coalesce_order.induct)
  case (1 run)
  then show ?case using flush_run_short [of run] by (cases "flush_run run") (auto simp: coalesced_def)
next
  case (2 run order)
  then show ?case by (simp add: coalesced_flush_Cons is_transfer_def)
next
  case (3 run step order)
  then show ?case by (auto intro!: coalesced_flush_Cons simp: is_transfer_def is_batch_def)
qed

text \<open>
  C9.  Coalescing keeps every rank's sequence of transfers and steps when the batches are issued in
  order, and is maximal: no two transfers remain next to each other.
\<close>

theorem coalesce_keeps_order:
  assumes "(rank, order) \<in> set exec_order" "\<forall>a \<in> set order. \<not> is_batch a"
  shows "\<exists>order'. (rank, order') \<in> set (coalesce_p2p exec_order) \<and>
    concat (map unbatch order') = order \<and> coalesced order'"
proof (intro exI conjI)
  show "(rank, coalesce_order [] order) \<in> set (coalesce_p2p exec_order)"
    using assms(1) by (force simp: coalesce_p2p_def)
qed (use assms(2) unbatch_coalesce_order [of "[]"] coalesced_coalesce_order in auto)

definition example_order :: order where
  "example_order =
     [Some (mstep 0 FWD_RECV 1), Some (mstep 0 FWD 1), Some (mstep 0 FWD_SEND 1), None,
      Some (MetaStep None OVERLAP_B_F None [mstep 0 BWD 3, mstep 1 FWD 1] []),
      Some (mstep 0 BWD_SEND 3), Some (mstep 1 FWD_SEND 1), Some (mstep 2 FWD_RECV 1),
      Some (mstep 1 BWD_RECV 3), Some (mstep 1 BWD 3)]"

theorem coalesce_keeps_order_witness:
  "\<exists>order'. (5, order') \<in> set (coalesce_p2p [(5, example_order)]) \<and>
    concat (map unbatch order') = example_order \<and> coalesced order'"
  by (rule coalesce_keeps_order) (simp_all add: example_order_def is_batch_def)

section \<open>The run after a step\<close>

fun p2p_run_after :: "order \<Rightarrow> meta_step list \<times> order" where
  "p2p_run_after (Some s # order) =
     (if is_p2p s then (let (run, rest) = p2p_run_after order in (s # run, rest)) else ([], Some s # order))"
| "p2p_run_after order = ([], order)"

lemma p2p_run_after_split:
  "p2p_run_after order = (run, rest) \<Longrightarrow> order = map Some run @ rest \<and> (\<forall>s \<in> set run. is_p2p s)"
  by (induction order arbitrary: run rest rule: p2p_run_after.induct) (auto split: if_splits prod.splits)

lemma p2p_run_after_length: "p2p_run_after order = (run, rest) \<Longrightarrow> length rest \<le> length order"
  using p2p_run_after_split by fastforce

section \<open>Boundary transfers\<close>

definition own_fwd_send :: "meta_step \<Rightarrow> meta_step \<Rightarrow> bool" where
  "own_fwd_send step s =
     (case find (\<lambda>x. step_type x = FWD) (sub_steps step) of
        None \<Rightarrow> False
      | Some fwd_sub \<Rightarrow> step_type s = FWD_SEND \<and> stage_index s = stage_index fwd_sub \<and>
                        micro_index s = micro_index fwd_sub)"

definition split_boundary_run :: "meta_step \<Rightarrow> meta_step list \<Rightarrow> meta_step list \<times> meta_step list" where
  "split_boundary_run step run =
     (filter (own_fwd_send step) run @ filter is_recv run,
      filter (\<lambda>s. \<not> own_fwd_send step s \<and> \<not> is_recv s) run)"

definition is_overlap_b_f :: "meta_step \<Rightarrow> bool" where
  "is_overlap_b_f s \<longleftrightarrow> step_type s = OVERLAP_B_F \<and> sub_steps s \<noteq> []"

function attach_order :: "order \<Rightarrow> order" where
  "attach_order [] = []"
| "attach_order (None # order) = None # attach_order order"
| "attach_order (Some step # order) =
     (if \<not> is_overlap_b_f step then Some step # attach_order order
      else let (run, rest) = p2p_run_after order;
               (boundary, leftover) = split_boundary_run step run
           in if boundary = [] then Some step # attach_order order
              else Some (MetaStep (micro_index step) (step_type step) (stage_index step) (sub_steps step) boundary) #
                   map Some leftover @ attach_order rest)"
  by pat_completeness auto

termination
  by (relation "measure length") (auto simp: less_Suc_eq_le dest!: p2p_run_after_length [OF sym])

definition attach_fwd_boundary_p2p :: "(int \<times> order) list \<Rightarrow> (int \<times> order) list" where
  "attach_fwd_boundary_p2p exec_order = map (\<lambda>(rank, order). (rank, attach_order order)) exec_order"

text \<open>
  The transfers in the order in which the runtime issues them: an overlap issues its boundary
  transfers.  The other steps, without their boundary.
\<close>

definition issued :: "meta_step option \<Rightarrow> meta_step list" where
  "issued a = (case a of None \<Rightarrow> [] | Some s \<Rightarrow> if is_p2p s then [s] else boundary_p2p s)"

definition p2p_steps :: "order \<Rightarrow> meta_step list" where
  "p2p_steps order = concat (map issued order)"

definition unbound :: "meta_step option \<Rightarrow> meta_step option" where
  "unbound = map_option (\<lambda>s. MetaStep (micro_index s) (step_type s) (stage_index s) (sub_steps s) [])"

definition is_p2p_opt :: "meta_step option \<Rightarrow> bool" where
  "is_p2p_opt a \<longleftrightarrow> (case a of None \<Rightarrow> False | Some s \<Rightarrow> is_p2p s)"

definition local_steps :: "order \<Rightarrow> order" where
  "local_steps order = map unbound (filter (\<lambda>a. \<not> is_p2p_opt a) order)"

text \<open>In the run after an overlap, no forward send of another step stands before one of the overlap's own.\<close>

definition own_first :: "meta_step \<Rightarrow> meta_step list \<Rightarrow> bool" where
  "own_first step run \<longleftrightarrow>
     sorted_wrt (\<lambda>a b. own_fwd_send step b \<longrightarrow> own_fwd_send step a) (filter (\<lambda>s. step_type s = FWD_SEND) run)"

fun gaps_ordered :: "order \<Rightarrow> bool" where
  "gaps_ordered (Some s # order) =
     ((is_overlap_b_f s \<longrightarrow> own_first s (fst (p2p_run_after order))) \<and> gaps_ordered order)"
| "gaps_ordered (None # order) = gaps_ordered order"
| "gaps_ordered [] = True"

lemma p2p_steps_simps [simp]:
  "p2p_steps [] = []" "p2p_steps (a # xs) = issued a @ p2p_steps xs"
  "p2p_steps (xs @ ys) = p2p_steps xs @ p2p_steps ys"
  by (simp_all add: p2p_steps_def)

lemma p2p_steps_run: "\<forall>s \<in> set run. is_p2p s \<Longrightarrow> p2p_steps (map Some run) = run"
  by (induction run) (simp_all add: issued_def)

lemma local_steps_simps [simp]:
  "local_steps [] = []"
  "local_steps (a # xs) = (if is_p2p_opt a then local_steps xs else unbound a # local_steps xs)"
  "local_steps (xs @ ys) = local_steps xs @ local_steps ys"
  by (simp_all add: local_steps_def)

lemma local_steps_run: "\<forall>s \<in> set run. is_p2p s \<Longrightarrow> local_steps (map Some run) = []"
  by (induction run) (simp_all add: is_p2p_opt_def)

lemma own_is_send: "own_fwd_send step s \<Longrightarrow> step_type s = FWD_SEND"
  by (auto simp: own_fwd_send_def split: option.splits)

lemma overlap_not_p2p: "is_overlap_b_f s \<Longrightarrow> \<not> is_p2p s"
  by (simp add: is_overlap_b_f_def is_p2p_def)

lemma gaps_ordered_run: "\<forall>s \<in> set run. is_p2p s \<Longrightarrow> gaps_ordered (map Some run @ xs) \<longleftrightarrow> gaps_ordered xs"
  by (induction run) (auto dest: overlap_not_p2p)

lemma filter_first_iff:
  "filter P xs @ filter (\<lambda>x. \<not> P x) xs = xs \<longleftrightarrow> sorted_wrt (\<lambda>a b. P b \<longrightarrow> P a) xs"
proof (induction xs)
  case (Cons x xs)
  show ?case
  proof (cases "P x")
    case True
    then show ?thesis using Cons.IH by simp
  next
    case False
    show ?thesis
    proof (cases "filter P xs")
      case Nil
      then have "\<forall>y \<in> set xs. \<not> P y" by (simp add: filter_empty_conv)
      then show ?thesis using False by (auto intro: sorted_wrt_mono_rel [OF _ sorted_wrt_true])
    next
      case (Cons y ys)
      then have "y \<in> set xs" "P y" by (auto dest: filter_eq_ConsD)
      then show ?thesis using False Cons by auto
    qed
  qed
qed simp

lemma filter_never: "(\<And>x. x \<in> set xs \<Longrightarrow> \<not> P x) \<Longrightarrow> filter P xs = []"
  by (simp add: filter_empty_conv)

lemma split_boundary_seq:
  assumes "\<forall>s \<in> set run. is_p2p s" "split_boundary_run step run = (boundary, leftover)"
  shows "filter is_recv (boundary @ leftover) = filter is_recv run"
    and "filter (\<lambda>s. step_type s = BWD_SEND) (boundary @ leftover) = filter (\<lambda>s. step_type s = BWD_SEND) run"
    and "filter (\<lambda>s. step_type s = FWD_SEND) (boundary @ leftover) = filter (\<lambda>s. step_type s = FWD_SEND) run
      \<longleftrightarrow> own_first step run"
    and "length (filter (\<lambda>s. step_type s = FWD_SEND) (boundary @ leftover)) = length (filter (\<lambda>s. step_type s = FWD_SEND) run)"
proof -
  have own: "own_fwd_send step s \<Longrightarrow> \<not> is_recv s" for s using own_is_send [of step s] by (simp add: is_recv_def)
  have parts: "filter P (boundary @ leftover) = filter (\<lambda>s. own_fwd_send step s \<and> P s) run @
      filter (\<lambda>s. is_recv s \<and> P s) run @ filter (\<lambda>s. \<not> own_fwd_send step s \<and> \<not> is_recv s \<and> P s) run" for P
    using assms(2) by (auto simp: split_boundary_run_def)
  have "filter (\<lambda>s. is_recv s \<and> is_recv s) run = filter is_recv run" by simp
  then show "filter is_recv (boundary @ leftover) = filter is_recv run"
    unfolding parts by (simp add: filter_never own)
  have "filter (\<lambda>s. \<not> own_fwd_send step s \<and> \<not> is_recv s \<and> step_type s = BWD_SEND) run =
      filter (\<lambda>s. step_type s = BWD_SEND) run"
    by (rule filter_cong) (auto simp: is_recv_def dest: own_is_send)
  then show "filter (\<lambda>s. step_type s = BWD_SEND) (boundary @ leftover) = filter (\<lambda>s. step_type s = BWD_SEND) run"
    unfolding parts by (auto simp: is_recv_def filter_empty_conv dest: own_is_send)
  have "filter (\<lambda>s. is_recv s \<and> step_type s = FWD_SEND) run = []" by (auto simp: is_recv_def filter_empty_conv)
  moreover have "(\<lambda>s. \<not> own_fwd_send step s \<and> \<not> is_recv s \<and> step_type s = FWD_SEND) =
      (\<lambda>s. step_type s = FWD_SEND \<and> \<not> own_fwd_send step s)"
    "(\<lambda>s. own_fwd_send step s \<and> step_type s = FWD_SEND) = (\<lambda>s. step_type s = FWD_SEND \<and> own_fwd_send step s)"
    by (auto simp: is_recv_def fun_eq_iff)
  ultimately have sends: "filter (\<lambda>s. step_type s = FWD_SEND) (boundary @ leftover) =
      filter (own_fwd_send step) (filter (\<lambda>s. step_type s = FWD_SEND) run) @
      filter (\<lambda>s. \<not> own_fwd_send step s) (filter (\<lambda>s. step_type s = FWD_SEND) run)"
    unfolding parts by simp
  then show "filter (\<lambda>s. step_type s = FWD_SEND) (boundary @ leftover) = filter (\<lambda>s. step_type s = FWD_SEND) run
      \<longleftrightarrow> own_first step run"
    by (simp only: own_first_def filter_first_iff)
  show "length (filter (\<lambda>s. step_type s = FWD_SEND) (boundary @ leftover)) = length (filter (\<lambda>s. step_type s = FWD_SEND) run)"
    unfolding sends length_append by (rule sum_length_filter_compl)
qed

definition loose_order :: "order \<Rightarrow> bool" where
  "loose_order order \<longleftrightarrow> (\<forall>s. Some s \<in> set order \<longrightarrow> boundary_p2p s = [])"

lemma loose_order_simps [simp]:
  "loose_order []" "loose_order (None # xs) \<longleftrightarrow> loose_order xs"
  "loose_order (Some s # xs) \<longleftrightarrow> boundary_p2p s = [] \<and> loose_order xs"
  "loose_order (xs @ ys) \<longleftrightarrow> loose_order xs \<and> loose_order ys"
  by (auto simp: loose_order_def)

text \<open>One induction for all four statements: a step that is kept, and an overlap that takes its run.\<close>

lemma attach_order_seq:
  assumes "loose_order order"
  shows "filter is_recv (p2p_steps (attach_order order)) = filter is_recv (p2p_steps order) \<and>
    filter (\<lambda>s. step_type s = BWD_SEND) (p2p_steps (attach_order order)) =
      filter (\<lambda>s. step_type s = BWD_SEND) (p2p_steps order) \<and>
    (filter (\<lambda>s. step_type s = FWD_SEND) (p2p_steps (attach_order order)) =
      filter (\<lambda>s. step_type s = FWD_SEND) (p2p_steps order) \<longleftrightarrow> gaps_ordered order) \<and>
    local_steps (attach_order order) = local_steps order"
  using assms
proof (induction order rule: attach_order.induct)
  case 1
  then show ?case by simp
next
  case (2 order)
  then show ?case by (simp add: issued_def)
next
  case (3 step order)
  show ?case
  proof (cases "is_overlap_b_f step")
    case False
    then show ?thesis using 3(1) 3(4) by simp
  next
    case True
    obtain run rest where rr: "p2p_run_after order = (run, rest)" by force
    obtain boundary leftover where bl: "split_boundary_run step run = (boundary, leftover)" by force
    have order: "order = map Some run @ rest" and p2p: "\<forall>s \<in> set run. is_p2p s"
      using p2p_run_after_split [OF rr] by blast+
    note seq = split_boundary_seq [OF p2p bl]
    show ?thesis
    proof (cases "boundary = []")
      case none: True
      then have "own_first step run"
        using bl by (auto simp: split_boundary_run_def own_first_def filter_empty_conv
            intro: sorted_wrt_mono_rel [OF _ sorted_wrt_true])
      then show ?thesis using 3(2) [OF _ refl rr [symmetric] refl bl [symmetric]] True rr bl 3(4) none by simp
    next
      case some: False
      let ?step = "MetaStep (micro_index step) (step_type step) (stage_index step) (sub_steps step) boundary"
      have out: "attach_order (Some step # order) = Some ?step # map Some leftover @ attach_order rest"
        using True some rr bl by simp
      have np: "\<not> is_p2p step" "\<not> is_p2p ?step" using overlap_not_p2p [OF True] by (simp_all add: is_p2p_def)
      have left: "\<forall>s \<in> set leftover. is_p2p s" using bl p2p by (auto simp: split_boundary_run_def)
      have ps: "p2p_steps (attach_order (Some step # order)) = (boundary @ leftover) @ p2p_steps (attach_order rest)"
        using left np unfolding out by (simp add: issued_def p2p_steps_run)
      have ps0: "p2p_steps (Some step # order) = run @ p2p_steps rest"
        using np 3(4) p2p unfolding order by (simp add: issued_def p2p_steps_run)
      have ls: "local_steps (attach_order (Some step # order)) = unbound (Some step) # local_steps (attach_order rest)"
        using left np unfolding out by (simp add: local_steps_run is_p2p_opt_def unbound_def)
      have ls0: "local_steps (Some step # order) = unbound (Some step) # local_steps rest"
        using np p2p unfolding order by (simp add: local_steps_run is_p2p_opt_def unbound_def)
      have own: "gaps_ordered (Some step # order) \<longleftrightarrow> own_first step run \<and> gaps_ordered rest"
        using True rr gaps_ordered_run [OF p2p] order by simp
      have "filter (\<lambda>s. step_type s = FWD_SEND) ((boundary @ leftover) @ xs) = filter (\<lambda>s. step_type s = FWD_SEND) (run @ ys) \<longleftrightarrow>
          own_first step run \<and> filter (\<lambda>s. step_type s = FWD_SEND) xs = filter (\<lambda>s. step_type s = FWD_SEND) ys" for xs ys
        unfolding filter_append [of _ "boundary @ leftover"] filter_append [of _ run] seq(3) [symmetric]
        by (rule append_eq_append_conv, rule disjI1, rule seq(4))
      note fwd = this
      have IH: "loose_order rest" using 3(4) order by simp
      note IH = 3(3) [OF _ refl rr [symmetric] refl bl [symmetric] _ IH]
      show ?thesis
        unfolding ps ps0 ls ls0 fwd own using IH True some seq by simp
    qed
  qed
qed

text \<open>
  C10.  Attaching the boundary transfers keeps the steps of a rank other than transfers, the sequence of its receives
  and the sequence of its backward sends.  It keeps the sequence of its forward sends exactly when in the run after
  each overlap no forward send of another step stands before one of the overlap's own.
\<close>

theorem attach_keeps_fifo:
  assumes "(rank, order) \<in> set exec_order" "loose_order order"
  shows "\<exists>order'. (rank, order') \<in> set (attach_fwd_boundary_p2p exec_order) \<and>
    local_steps order' = local_steps order \<and>
    filter is_recv (p2p_steps order') = filter is_recv (p2p_steps order) \<and>
    filter (\<lambda>s. step_type s = BWD_SEND) (p2p_steps order') = filter (\<lambda>s. step_type s = BWD_SEND) (p2p_steps order) \<and>
    (filter (\<lambda>s. step_type s = FWD_SEND) (p2p_steps order') = filter (\<lambda>s. step_type s = FWD_SEND) (p2p_steps order)
      \<longleftrightarrow> gaps_ordered order)"
proof (intro exI conjI)
  show "(rank, attach_order order) \<in> set (attach_fwd_boundary_p2p exec_order)"
    using assms(1) by (force simp: attach_fwd_boundary_p2p_def)
qed (use attach_order_seq [OF assms(2)] in auto)

theorem attach_keeps_fifo_witness:
  "\<exists>order'. (5, order') \<in> set (attach_fwd_boundary_p2p [(5, example_order)]) \<and>
    local_steps order' = local_steps example_order \<and>
    filter is_recv (p2p_steps order') = filter is_recv (p2p_steps example_order) \<and>
    filter (\<lambda>s. step_type s = BWD_SEND) (p2p_steps order') =
      filter (\<lambda>s. step_type s = BWD_SEND) (p2p_steps example_order) \<and>
    filter (\<lambda>s. step_type s = FWD_SEND) (p2p_steps order') =
      filter (\<lambda>s. step_type s = FWD_SEND) (p2p_steps example_order)"
proof -
  have "gaps_ordered example_order" by code_simp
  then show ?thesis
    using attach_keeps_fifo [of 5 example_order "[(5, example_order)]"] by (simp add: example_order_def)
qed

text \<open>
  The other case: the send of an earlier forward stands in the run before the send of the overlap, which is
  issued first although both go to the same stage.
\<close>

definition late_send_order :: order where
  "late_send_order =
     [Some (mstep 0 FWD 1), Some (MetaStep None OVERLAP_B_F None [mstep 0 BWD 3, mstep 1 FWD 1] []),
      Some (mstep 0 FWD_SEND 1), Some (mstep 1 FWD_SEND 1)]"

lemma late_send_is_overtaken:
  "loose_order late_send_order \<and> \<not> gaps_ordered late_send_order \<and>
   filter (\<lambda>s. step_type s = FWD_SEND) (p2p_steps late_send_order) = [mstep 0 FWD_SEND 1, mstep 1 FWD_SEND 1] \<and>
   filter (\<lambda>s. step_type s = FWD_SEND) (p2p_steps (attach_order late_send_order)) =
     [mstep 1 FWD_SEND 1, mstep 0 FWD_SEND 1]"
  by (simp add: late_send_order_def own_first_def own_fwd_send_def is_overlap_b_f_def is_p2p_def issued_def
      split_boundary_run_def is_recv_def Let_def)

section \<open>Splitting the backward of an overlap\<close>

function split_dxdw_order :: "order \<Rightarrow> order res" where
  "split_dxdw_order [] = Inr []"
| "split_dxdw_order (None # order) = rbind (split_dxdw_order order) (\<lambda>new. Inr (None # new))"
| "split_dxdw_order (Some step # order) =
     (if \<not> is_overlap_b_f step then rbind (split_dxdw_order order) (\<lambda>new. Inr (Some step # new))
      else case sub_steps step of
        [bwd_sub, fwd_sub] \<Rightarrow>
          if step_type bwd_sub \<noteq> BWD \<or> stage_index bwd_sub = Some 0 then
            rbind (split_dxdw_order order) (\<lambda>new. Inr (Some step # new))
          else let dx = MetaStep (micro_index bwd_sub) BWD_INPUT (stage_index bwd_sub) [] [];
                   dw = MetaStep (micro_index bwd_sub) BWD_WEIGHT (stage_index bwd_sub) [] [];
                   (run, rest) = p2p_run_after order
               in rbind (split_dxdw_order rest) (\<lambda>new. Inr
                    (Some (MetaStep (micro_index step) (step_type step) (stage_index step) [dx, fwd_sub] []) #
                     map Some run @ Some dw # new))
      | _ \<Rightarrow> Inl ValueError)"
  by pat_completeness auto

termination
  by (relation "measure length") (auto simp: less_Suc_eq_le dest!: p2p_run_after_length [OF sym])

definition split_overlap_dxdw :: "(int \<times> order) list \<Rightarrow> (int \<times> order) list res" where
  "split_overlap_dxdw exec_order =
     rmap (\<lambda>(rank, order). rbind (split_dxdw_order order) (\<lambda>new. Inr (rank, new))) exec_order"

text \<open>The compute leaves of an order, and what becomes of the leaves of one step.\<close>

definition compute_leaves :: "order \<Rightarrow> meta_step list" where
  "compute_leaves order = filter is_compute (order_leaves order)"

definition dxdw_leaves :: "meta_step option \<Rightarrow> meta_step list" where
  "dxdw_leaves a =
     (case a of
        Some (MetaStep m OVERLAP_B_F s [bwd_sub, fwd_sub] b) \<Rightarrow>
          if step_type bwd_sub = BWD \<and> stage_index bwd_sub \<noteq> Some 0 then
            MetaStep (micro_index bwd_sub) BWD_INPUT (stage_index bwd_sub) [] [] #
            filter is_compute (leaf_steps fwd_sub) @
            [MetaStep (micro_index bwd_sub) BWD_WEIGHT (stage_index bwd_sub) [] []]
          else filter is_compute (iter_leaf_meta_steps a)
      | _ \<Rightarrow> filter is_compute (iter_leaf_meta_steps a))"


lemma compute_leaves_simps [simp]:
  "compute_leaves [] = []"
  "compute_leaves (a # xs) = filter is_compute (iter_leaf_meta_steps a) @ compute_leaves xs"
  "compute_leaves (xs @ ys) = compute_leaves xs @ compute_leaves ys"
  by (simp_all add: compute_leaves_def)

lemma p2p_no_compute: "is_p2p s \<Longrightarrow> filter is_compute (iter_leaf_meta_steps (Some s)) = []"
  by (cases s) (auto simp: is_p2p_def is_compute_def iter_leaf_meta_steps_def)

lemma compute_leaves_run: "\<forall>s \<in> set run. is_p2p s \<Longrightarrow> compute_leaves (map Some run) = []"
  by (induction run) (simp_all add: p2p_no_compute)

lemma dxdw_leaves_other: "\<not> is_overlap_b_f s \<Longrightarrow> dxdw_leaves (Some s) = filter is_compute (iter_leaf_meta_steps (Some s))"
  by (auto simp: dxdw_leaves_def is_overlap_b_f_def split: meta_step.split meta_step_type.split list.split)

lemma dxdw_leaves_p2p: "is_p2p s \<Longrightarrow> dxdw_leaves (Some s) = []"
  by (metis overlap_not_p2p dxdw_leaves_other p2p_no_compute)

lemma dxdw_leaves_run: "\<forall>s \<in> set run. is_p2p s \<Longrightarrow> concat (map dxdw_leaves (map Some run)) = []"
  by (simp add: dxdw_leaves_p2p)

definition paired :: "order \<Rightarrow> bool" where
  "paired order \<longleftrightarrow> (\<forall>s. Some s \<in> set order \<longrightarrow> is_overlap_b_f s \<longrightarrow> length (sub_steps s) = 2)"

lemma paired_simps [simp]:
  "paired []" "paired (None # xs) \<longleftrightarrow> paired xs"
  "paired (Some s # xs) \<longleftrightarrow> (is_overlap_b_f s \<longrightarrow> length (sub_steps s) = 2) \<and> paired xs"
  "paired (xs @ ys) \<longleftrightarrow> paired xs \<and> paired ys"
  by (auto simp: paired_def)

lemma is_compute_dxdw [simp]:
  "is_compute (MetaStep m BWD_INPUT s x b)" "is_compute (MetaStep m BWD_WEIGHT s x b)"
  by (simp_all add: is_compute_def)

lemma split_order_good:
  "paired order \<Longrightarrow> loose_order order \<Longrightarrow> \<exists>new. split_dxdw_order order = Inr new \<and>
     p2p_steps new = p2p_steps order \<and> compute_leaves new = concat (map dxdw_leaves order)"
proof (induction order rule: split_dxdw_order.induct)
  case 1
  then show ?case by simp
next
  case (2 order)
  then show ?case by (auto simp: issued_def dxdw_leaves_def)
next
  case (3 step order)
  show ?case
  proof (cases "is_overlap_b_f step")
    case False
    then show ?thesis using 3(1) 3(4,5) by (auto simp: dxdw_leaves_other)
  next
    case True
    then obtain bwd_sub fwd_sub where subs: "sub_steps step = [bwd_sub, fwd_sub]"
      using 3(4) by (auto simp: length_Suc_conv numeral_2_eq_2)
    obtain m s b where step: "step = MetaStep m OVERLAP_B_F s [bwd_sub, fwd_sub] b"
      using True subs by (cases step) (auto simp: is_overlap_b_f_def)
    show ?thesis
    proof (cases "step_type bwd_sub \<noteq> BWD \<or> stage_index bwd_sub = Some 0")
      case skip: True
      then have "dxdw_leaves (Some step) = filter is_compute (iter_leaf_meta_steps (Some step))"
        by (auto simp: dxdw_leaves_def step)
      then show ?thesis using 3(2) [OF _ subs refl refl skip] True subs skip 3(4,5) by auto
    next
      case False
      obtain run rest where rr: "p2p_run_after order = (run, rest)" by force
      have order: "order = map Some run @ rest" and p2p: "\<forall>s \<in> set run. is_p2p s"
        using p2p_run_after_split [OF rr] by blast+
      have "paired rest" "loose_order rest" using 3(4,5) order by simp_all
      with 3(3) [OF _ subs refl refl False refl refl refl rr [symmetric]] True obtain new where
        new: "split_dxdw_order rest = Inr new" "p2p_steps new = p2p_steps rest"
        "compute_leaves new = concat (map dxdw_leaves rest)" by blast
      let ?dx = "MetaStep (micro_index bwd_sub) BWD_INPUT (stage_index bwd_sub) [] []"
      let ?dw = "MetaStep (micro_index bwd_sub) BWD_WEIGHT (stage_index bwd_sub) [] []"
      let ?new = "Some (MetaStep m OVERLAP_B_F s [?dx, fwd_sub] []) # map Some run @ Some ?dw # new"
      have out: "split_dxdw_order (Some step # order) = Inr ?new"
        using True subs False rr new(1) by (simp add: step)
      have "p2p_steps ?new = run @ p2p_steps rest"
        using p2p new(2) by (simp add: issued_def is_p2p_def p2p_steps_run)
      moreover have "p2p_steps (Some step # order) = run @ p2p_steps rest"
        using p2p 3(5) unfolding order by (simp add: issued_def step is_p2p_def p2p_steps_run)
      moreover have "compute_leaves ?new = dxdw_leaves (Some step) @ concat (map dxdw_leaves rest)"
        using False new(3) p2p
        by (simp add: compute_leaves_run dxdw_leaves_def step iter_leaf_meta_steps_def)
      moreover have "concat (map dxdw_leaves (Some step # order)) = dxdw_leaves (Some step) @ concat (map dxdw_leaves rest)"
        using dxdw_leaves_run [OF p2p] unfolding order by simp
      ultimately show ?thesis using out by metis
    qed
  qed
qed

text \<open>
  When every overlap pairs two steps, the split succeeds, keeps the sequence of transfers of every rank,
  and changes the compute steps only by turning the backward of an overlap, except on stage 0, into
  its input part before the paired forward and its weight part after it.
\<close>

theorem split_dxdw_steps:
  assumes "\<forall>(rank, order) \<in> set exec_order. paired order \<and> loose_order order"
  shows "\<exists>new. split_overlap_dxdw exec_order = Inr new \<and> map fst new = map fst exec_order \<and>
    list_all2 (\<lambda>(_, order) (_, order'). p2p_steps order' = p2p_steps order \<and>
      compute_leaves order' = concat (map dxdw_leaves order)) exec_order new"
  using assms
proof (induction exec_order)
  case Nil
  then show ?case by (simp add: split_overlap_dxdw_def)
next
  case (Cons ro exec_order)
  obtain rank order where ro: "ro = (rank, order)" by (cases ro)
  obtain order' where "split_dxdw_order order = Inr order'" "p2p_steps order' = p2p_steps order"
    "compute_leaves order' = concat (map dxdw_leaves order)"
    using split_order_good [of order] Cons.prems ro by auto
  then show ?case using Cons ro by (auto simp: split_overlap_dxdw_def)
qed

theorem split_dxdw_steps_witness:
  "\<exists>new. split_overlap_dxdw [(5, example_order)] = Inr new \<and> map fst new = map fst [(5::int, example_order)] \<and>
    list_all2 (\<lambda>(_, order) (_, order'). p2p_steps order' = p2p_steps order \<and>
      compute_leaves order' = concat (map dxdw_leaves order)) [(5::int, example_order)] new"
  by (rule split_dxdw_steps) (simp add: example_order_def is_overlap_b_f_def)

end
