(* ===== verification/PipeClassic.thy ===== *)
theory PipeClassic
  imports PipeStep
begin

text \<open>
  The GPipe and the 1F1B schedule (\<open>ScheduleGPipe\<close> and \<open>Schedule1F1B\<close> of
  \<open>core/pipeline_parallel/scheduler.py\<close>): the order each builds for every rank, which here
  holds one stage.  No step is a bubble, so an order is a list of steps.
\<close>

section \<open>GPipe\<close>

definition gpipe_forward :: "nat \<Rightarrow> nat \<Rightarrow> nat \<Rightarrow> meta_step list" where
  "gpipe_forward real_stage_num stage mb =
     [mstep (int mb) DATA_LOAD (int stage)] @
     (if stage \<noteq> 0 then [mstep (int mb) DATA_RECV (int stage), mstep (int mb) FWD_RECV (int stage)] else []) @
     [mstep (int mb) FWD (int stage)] @
     (if stage \<noteq> real_stage_num - 1
      then [mstep (int mb) DATA_SEND (int stage), mstep (int mb) FWD_SEND (int stage)] else [])"

definition gpipe_backward :: "nat \<Rightarrow> nat \<Rightarrow> nat \<Rightarrow> meta_step list" where
  "gpipe_backward real_stage_num stage mb =
     (if stage \<noteq> real_stage_num - 1 then [mstep (int mb) BWD_RECV (int stage)] else []) @
     [mstep (int mb) BWD (int stage)] @
     (if stage \<noteq> 0 then [mstep (int mb) BWD_SEND (int stage)] else [])"

definition gpipe_order :: "nat \<Rightarrow> nat \<Rightarrow> nat \<Rightarrow> meta_step list" where
  "gpipe_order real_stage_num micro_batch_num stage =
     concat (map (gpipe_forward real_stage_num stage) [0..<micro_batch_num]) @
     concat (map (gpipe_backward real_stage_num stage) [0..<micro_batch_num])"

section \<open>1F1B\<close>

text \<open>
  The state of the loops: the order so far and the two micro-batch counters.  The counters are
  \<open>int\<close>, as the code subtracts from them.
\<close>

type_synonym fb_state = "meta_step list \<times> int \<times> int"

definition warmup_micro_batches :: "nat \<Rightarrow> nat \<Rightarrow> nat \<Rightarrow> nat" where
  "warmup_micro_batches real_stage_num micro_batch_num stage = min (real_stage_num - stage) micro_batch_num"

definition send_pair :: "int \<Rightarrow> nat \<Rightarrow> meta_step list" where
  "send_pair mb stage = [mstep mb DATA_SEND (int stage), mstep mb FWD_SEND (int stage)]"

definition recv_pair :: "int \<Rightarrow> nat \<Rightarrow> meta_step list" where
  "recv_pair mb stage = [mstep mb DATA_RECV (int stage), mstep mb FWD_RECV (int stage)]"

definition warmup_step :: "nat \<Rightarrow> nat \<Rightarrow> fb_state \<Rightarrow> fb_state" where
  "warmup_step warmup stage = (\<lambda>(order, f, b).
     (order @ [mstep f DATA_LOAD (int stage)] @
      (if stage \<noteq> 0 then recv_pair f stage else []) @
      (if stage mod 2 = 0 then
         [mstep f FWD (int stage)] @ (if f \<noteq> int warmup - 1 then send_pair f stage else [])
       else (if 0 < f then send_pair (f - 1) stage else []) @ [mstep f FWD (int stage)]),
      f + 1, b))"

definition steady_step :: "nat \<Rightarrow> nat \<Rightarrow> fb_state \<Rightarrow> fb_state" where
  "steady_step real_stage_num stage = (\<lambda>(order, f, b).
     (order @
      (if stage \<noteq> real_stage_num - 1 then mstep b BWD_RECV (int stage) # send_pair (f - 1) stage else []) @
      [mstep b BWD (int stage), mstep f DATA_LOAD (int stage)] @
      (if stage \<noteq> 0 then mstep b BWD_SEND (int stage) # recv_pair f stage else []) @
      [mstep f FWD (int stage)],
      f + 1, b + 1))"

definition cooldown_step :: "nat \<Rightarrow> nat \<Rightarrow> nat \<Rightarrow> nat \<Rightarrow> fb_state \<Rightarrow> fb_state" where
  "cooldown_step real_stage_num micro_batch_num warmup stage = (\<lambda>(order, f, b).
     (order @
      (if stage \<noteq> real_stage_num - 1 then
         mstep b BWD_RECV (int stage) #
         (if b = int micro_batch_num - int warmup \<and> f \<le> int micro_batch_num then send_pair (f - 1) stage else [])
       else []) @
      [mstep b BWD (int stage)] @
      (if stage \<noteq> 0 then [mstep b BWD_SEND (int stage)] else []),
      f, b + 1))"

definition early_send :: "nat \<Rightarrow> nat \<Rightarrow> nat \<Rightarrow> fb_state \<Rightarrow> fb_state" where
  "early_send real_stage_num micro_batch_num stage = (\<lambda>(order, f, b).
     if micro_batch_num < real_stage_num - stage then (order @ send_pair (f - 1) stage, f + 1, b)
     else (order, f, b))"

definition one_f_one_b_state :: "nat \<Rightarrow> nat \<Rightarrow> nat \<Rightarrow> fb_state" where
  "one_f_one_b_state real_stage_num micro_batch_num stage =
     (let warmup = warmup_micro_batches real_stage_num micro_batch_num stage
      in (cooldown_step real_stage_num micro_batch_num warmup stage ^^ warmup)
           ((steady_step real_stage_num stage ^^ (micro_batch_num - warmup))
             (early_send real_stage_num micro_batch_num stage
               ((warmup_step warmup stage ^^ warmup) ([], 0, 0)))))"

definition one_f_one_b_order :: "nat \<Rightarrow> nat \<Rightarrow> nat \<Rightarrow> meta_step list" where
  "one_f_one_b_order real_stage_num micro_batch_num stage = fst (one_f_one_b_state real_stage_num micro_batch_num stage)"

section \<open>Running the order of one stage\<close>

text \<open>
  The specification of a stage: how many micro-batches were loaded, received, computed and sent,
  and when a step may run.  Every step type takes the micro-batches in order; a forward needs
  its data and, except on the first stage, its input; a gradient comes back only for an output that was sent; a backward needs its
  forward and, except on the last stage, its gradient; at most \<open>bound\<close> activations are held.
\<close>

record stage_state =
  loaded :: int
  d_recv :: int
  f_recv :: int
  fwd_done :: int
  d_sent :: int
  f_sent :: int
  b_recv :: int
  bwd_done :: int
  b_sent :: int

definition stage_init :: stage_state where
  "stage_init = \<lparr>loaded = 0, d_recv = 0, f_recv = 0, fwd_done = 0, d_sent = 0, f_sent = 0,
     b_recv = 0, bwd_done = 0, b_sent = 0\<rparr>"

definition stage_final :: "nat \<Rightarrow> nat \<Rightarrow> nat \<Rightarrow> stage_state" where
  "stage_final R M s =
     (let n = int M; up = (if s = 0 then 0 else n); down = (if s = R - 1 then 0 else n)
      in \<lparr>loaded = n, d_recv = up, f_recv = up, fwd_done = n, d_sent = down, f_sent = down,
          b_recv = down, bwd_done = n, b_sent = up\<rparr>)"

fun stage_step :: "nat \<Rightarrow> nat \<Rightarrow> int \<Rightarrow> meta_step_type \<Rightarrow> int \<Rightarrow> stage_state \<Rightarrow> stage_state option" where
  "stage_step R s bound DATA_LOAD m st =
     (if m = loaded st then Some (st\<lparr>loaded := m + 1\<rparr>) else None)"
| "stage_step R s bound DATA_RECV m st =
     (if s \<noteq> 0 \<and> m = d_recv st then Some (st\<lparr>d_recv := m + 1\<rparr>) else None)"
| "stage_step R s bound FWD_RECV m st =
     (if s \<noteq> 0 \<and> m = f_recv st then Some (st\<lparr>f_recv := m + 1\<rparr>) else None)"
| "stage_step R s bound FWD m st =
     (if m = fwd_done st \<and> m < loaded st \<and> (s \<noteq> 0 \<longrightarrow> m < d_recv st \<and> m < f_recv st) \<and>
         m + 1 - bwd_done st \<le> bound
      then Some (st\<lparr>fwd_done := m + 1\<rparr>) else None)"
| "stage_step R s bound DATA_SEND m st =
     (if s \<noteq> R - 1 \<and> m = d_sent st \<and> m < loaded st then Some (st\<lparr>d_sent := m + 1\<rparr>) else None)"
| "stage_step R s bound FWD_SEND m st =
     (if s \<noteq> R - 1 \<and> m = f_sent st \<and> m < fwd_done st then Some (st\<lparr>f_sent := m + 1\<rparr>) else None)"
| "stage_step R s bound BWD_RECV m st =
     (if s \<noteq> R - 1 \<and> m = b_recv st \<and> m < f_sent st then Some (st\<lparr>b_recv := m + 1\<rparr>) else None)"
| "stage_step R s bound BWD m st =
     (if m = bwd_done st \<and> m < fwd_done st \<and> (s \<noteq> R - 1 \<longrightarrow> m < b_recv st)
      then Some (st\<lparr>bwd_done := m + 1\<rparr>) else None)"
| "stage_step R s bound BWD_SEND m st =
     (if s \<noteq> 0 \<and> m = b_sent st \<and> m < bwd_done st then Some (st\<lparr>b_sent := m + 1\<rparr>) else None)"
| "stage_step R s bound _ m st = None"

fun stage_run :: "nat \<Rightarrow> nat \<Rightarrow> int \<Rightarrow> meta_step list \<Rightarrow> stage_state \<Rightarrow> stage_state option" where
  "stage_run R s bound [] st = Some st"
| "stage_run R s bound (x # xs) st =
     (case x of
        MetaStep (Some m) _ (Some i) [] [] \<Rightarrow>
          if i = int s then Option.bind (stage_step R s bound (step_type x) m st) (stage_run R s bound xs) else None
      | _ \<Rightarrow> None)"

lemma stage_run_append:
  "stage_run R s n (xs @ ys) st = Option.bind (stage_run R s n xs st) (stage_run R s n ys)"
  by (induction xs arbitrary: st) (auto split: option.splits bind_splits meta_step.splits list.splits)

lemma stage_run_concat:
  assumes "\<And>k st. k < n \<Longrightarrow> I k st \<Longrightarrow> \<exists>st'. stage_run R s b (f k) st = Some st' \<and> I (Suc k) st'"
    and "I 0 st"
  shows "\<exists>st'. stage_run R s b (concat (map f [0..<n])) st = Some st' \<and> I n st'"
  using assms(1)
proof (induction n)
  case 0
  then show ?case using assms(2) by simp
next
  case (Suc n)
  then obtain st1 where "stage_run R s b (concat (map f [0..<n])) st = Some st1" "I n st1" by force
  then show ?case using Suc.prems [of n st1] by (simp add: stage_run_append)
qed

text \<open>Every counter tells which steps of its type the order holds.\<close>

fun stage_counter :: "meta_step_type \<Rightarrow> stage_state \<Rightarrow> int" where
  "stage_counter DATA_LOAD st = loaded st"
| "stage_counter DATA_RECV st = d_recv st"
| "stage_counter FWD_RECV st = f_recv st"
| "stage_counter FWD st = fwd_done st"
| "stage_counter DATA_SEND st = d_sent st"
| "stage_counter FWD_SEND st = f_sent st"
| "stage_counter BWD_RECV st = b_recv st"
| "stage_counter BWD st = bwd_done st"
| "stage_counter BWD_SEND st = b_sent st"
| "stage_counter _ st = 0"

lemma stage_step_counter:
  assumes "stage_step R s b t m st = Some st'"
  shows "stage_counter t st = m \<and> stage_counter t st' = m + 1 \<and>
    (t' \<noteq> t \<longrightarrow> stage_counter t' st' = stage_counter t' st)"
  using assms by (cases t; cases t') (auto split: if_splits)

lemma stage_run_steps:
  "stage_run R s b xs st = Some st' \<Longrightarrow>
     stage_counter t st \<le> stage_counter t st' \<and>
     (mstep m t (int s) \<in> set xs \<longleftrightarrow> stage_counter t st \<le> m \<and> m < stage_counter t st')"
proof (induction xs arbitrary: st)
  case Nil
  then show ?case by simp
next
  case (Cons x xs)
  from Cons.prems obtain k u st1 where x: "x = mstep k u (int s)" "stage_step R s b u k st = Some st1"
    "stage_run R s b xs st1 = Some st'"
    by (cases x) (auto split: option.splits list.splits if_splits bind_splits)
  show ?case
  proof (cases "t = u")
    case True
    then show ?thesis using Cons.IH [OF x(3)] stage_step_counter [OF x(2), of t] x(1) by auto
  next
    case False
    then show ?thesis using Cons.IH [OF x(3)] stage_step_counter [OF x(2), of t] x(1) by auto
  qed
qed

lemma stage_run_own: "stage_run R s b xs st = Some st' \<Longrightarrow> x \<in> set xs \<Longrightarrow> \<exists>m t. x = mstep m t (int s)"
proof (induction xs arbitrary: st)
  case (Cons y xs)
  then show ?case
    by (cases y) (auto split: option.splits list.splits if_splits bind_splits)
qed simp

text \<open>GPipe: the state after \<open>f\<close> forwards and \<open>b\<close> backwards.\<close>

definition gpipe_state :: "nat \<Rightarrow> nat \<Rightarrow> nat \<Rightarrow> nat \<Rightarrow> stage_state" where
  "gpipe_state R s f b =
     (let up = (if s = 0 then 0 else 1); down = (if s = R - 1 then 0 else 1)
      in \<lparr>loaded = int f, d_recv = up * int f, f_recv = up * int f, fwd_done = int f, d_sent = down * int f,
          f_sent = down * int f, b_recv = down * int b, bwd_done = int b, b_sent = up * int b\<rparr>)"

text \<open>
  A GPipe stage's order is legal and complete: it runs from the empty state to the one in which
  every micro-batch was loaded, received, computed, sent and differentiated exactly once and in order, holding
  at most all micro-batches' activations.
\<close>

theorem gpipe_stage_legal:
  assumes "s < R"
  shows "stage_run R s (int M) (gpipe_order R M s) stage_init = Some (stage_final R M s)"
proof -
  have "\<exists>st'. stage_run R s (int M) (concat (map (gpipe_forward R s) [0..<M])) (gpipe_state R s 0 0) = Some st' \<and>
      st' = gpipe_state R s M 0"
    by (rule stage_run_concat [where I = "\<lambda>k st. st = gpipe_state R s k 0"])
      (auto simp: gpipe_forward_def gpipe_state_def)
  moreover have "\<exists>st'. stage_run R s (int M) (concat (map (gpipe_backward R s) [0..<M])) (gpipe_state R s M 0) = Some st' \<and>
      st' = gpipe_state R s M M"
    by (rule stage_run_concat [where I = "\<lambda>k st. st = gpipe_state R s M k"])
      (auto simp: gpipe_backward_def gpipe_state_def)
  moreover have "stage_init = gpipe_state R s 0 0" "stage_final R M s = gpipe_state R s M M"
    by (simp_all add: stage_init_def stage_final_def gpipe_state_def Let_def)
  ultimately show ?thesis by (simp add: gpipe_order_def stage_run_append)
qed

theorem gpipe_stage_legal_witness: "stage_run 4 2 (int 5) (gpipe_order 4 5 2) stage_init = Some (stage_final 4 5 2)"
  by (rule gpipe_stage_legal) simp

section \<open>1F1B is legal\<close>

text \<open>The stage after \<open>f\<close> forwards, \<open>sent\<close> sends and \<open>b\<close> backwards.\<close>

definition fb_stage :: "nat \<Rightarrow> nat \<Rightarrow> int \<Rightarrow> int \<Rightarrow> int \<Rightarrow> stage_state" where
  "fb_stage R s f sent b =
     (let up = (if s = 0 then 0 else 1); down = (if s = R - 1 then 0 else 1)
      in \<lparr>loaded = f, d_recv = up * f, f_recv = up * f, fwd_done = f, d_sent = down * sent,
          f_sent = down * sent, b_recv = down * b, bwd_done = b, b_sent = up * b\<rparr>)"

definition warm_sent :: "nat \<Rightarrow> nat \<Rightarrow> nat \<Rightarrow> int" where
  "warm_sent w s k = (if s mod 2 = 0 then min (int k) (int w - 1) else max 0 (int k - 1))"

definition fb_reached :: "nat \<Rightarrow> nat \<Rightarrow> int \<Rightarrow> fb_state \<Rightarrow> int \<Rightarrow> int \<Rightarrow> int \<Rightarrow> bool" where
  "fb_reached R s bound st f sent b \<longleftrightarrow>
     (case st of (order, f', b') \<Rightarrow> f' = f \<and> b' = b \<and>
        stage_run R s bound order stage_init = Some (fb_stage R s f sent b))"

definition fb_params :: "nat \<Rightarrow> nat \<Rightarrow> nat \<Rightarrow> nat \<Rightarrow> bool" where
  "fb_params R M s w \<longleftrightarrow> s < R \<and> 0 < M \<and> w = warmup_micro_batches R M s"

lemma fb_params_bounds:
  assumes "fb_params R M s w"
  shows "s < R" "0 < w" "w \<le> M" "w \<le> R - s" "s \<noteq> R - 1 \<Longrightarrow> R - s \<le> M \<Longrightarrow> 2 \<le> w" "s = R - 1 \<Longrightarrow> w = 1"
    "M < R - s \<Longrightarrow> w = M" "R - s \<le> M \<Longrightarrow> w = R - s"
  using assms unfolding fb_params_def warmup_micro_batches_def by auto

lemma warmup_reached:
  assumes p: "fb_params R M s w"
  shows "k \<le> w \<Longrightarrow> fb_reached R s (int w) ((warmup_step w s ^^ k) ([], 0, 0)) (int k) (warm_sent w s k) 0"
proof (induction k)
  case 0
  then show ?case using fb_params_bounds(2) [OF p]
    by (simp add: fb_reached_def fb_stage_def stage_init_def warm_sent_def)
next
  case (Suc k)
  obtain order where "(warmup_step w s ^^ k) ([], 0, 0) = (order, int k, 0)"
    "stage_run R s (int w) order stage_init = Some (fb_stage R s (int k) (warm_sent w s k) 0)"
    using Suc by (cases "(warmup_step w s ^^ k) ([], 0, 0)") (auto simp: fb_reached_def)
  then show ?case using Suc.prems fb_params_bounds(1,6) [OF p]
    by (auto simp: fb_reached_def warmup_step_def stage_run_append fb_stage_def warm_sent_def
        send_pair_def recv_pair_def)
qed

text \<open>In the cooldown the counter \<open>f\<close> of the code is one ahead when the last send was made early.\<close>

definition cool_reached :: "nat \<Rightarrow> nat \<Rightarrow> nat \<Rightarrow> int \<Rightarrow> fb_state \<Rightarrow> int \<Rightarrow> int \<Rightarrow> int \<Rightarrow> bool" where
  "cool_reached R M s bound st f sent b \<longleftrightarrow>
     (case st of (order, f', b') \<Rightarrow> f' = f \<and> b' = b \<and>
        stage_run R s bound order stage_init = Some (fb_stage R s (int M) sent b))"

lemma early_send_none: "R - s \<le> M \<Longrightarrow> early_send R M s st = st"
  by (cases st) (auto simp: early_send_def)

lemma early_reached:
  assumes p: "fb_params R M s w" and "M < R - s"
    and "fb_reached R s (int w) st (int w) (int w - 1) 0"
  shows "cool_reached R M s (int w) (early_send R M s st) (int M + 1) (int M) 0"
  using assms(2,3) fb_params_bounds(1,2,7) [OF p]
  by (cases st) (auto simp: fb_reached_def cool_reached_def early_send_def stage_run_append fb_stage_def send_pair_def)

lemma steady_reached:
  assumes p: "fb_params R M s w" and "R - s \<le> M"
    and "fb_reached R s (int w) st (int w) (int w - 1) 0"
  shows "fb_reached R s (int w) ((steady_step R s ^^ k) st) (int w + int k) (int w - 1 + int k) (int k)"
proof (induction k)
  case 0
  then show ?case using assms(3) by simp
next
  case (Suc k)
  obtain order where "(steady_step R s ^^ k) st = (order, int w + int k, int k)"
    "stage_run R s (int w) order stage_init = Some (fb_stage R s (int w + int k) (int w - 1 + int k) (int k))"
    using Suc by (cases "(steady_step R s ^^ k) st") (auto simp: fb_reached_def)
  then show ?case using fb_params_bounds(1,2,5,6) [OF p] assms(2)
    by (auto simp: fb_reached_def steady_step_def stage_run_append fb_stage_def send_pair_def recv_pair_def)
qed

lemma cooldown_reached:
  assumes p: "fb_params R M s w"
    and "cool_reached R M s (int w) st f sent (int M - int w)"
    and "f = int M \<and> sent = int M - 1 \<and> R - s \<le> M \<or> f = int M + 1 \<and> sent = int M \<and> w = M"
  shows "cool_reached R M s (int w) ((cooldown_step R M w s ^^ k) st) f
    (if k = 0 then sent else int M) (int M - int w + int k) \<or> w < k"
proof (induction k)
  case 0
  then show ?case using assms(2) by simp
next
  case (Suc k)
  show ?case
  proof (cases "w < Suc k")
    case False
    obtain order where "(cooldown_step R M w s ^^ k) st = (order, f, int M - int w + int k)"
      "stage_run R s (int w) order stage_init =
        Some (fb_stage R s (int M) (if k = 0 then sent else int M) (int M - int w + int k))"
      using Suc False by (cases "(cooldown_step R M w s ^^ k) st") (auto simp: cool_reached_def)
    then show ?thesis using fb_params_bounds(1,2,3,5,6) [OF p] assms(3) False
      by (auto simp: cool_reached_def cooldown_step_def stage_run_append fb_stage_def send_pair_def)
  qed simp
qed

text \<open>
  C11.  A 1F1B stage's order is legal and complete, for every number of stages and micro-batches: every
  micro-batch is loaded, received, computed, sent and differentiated exactly once and in order, every
  step after the ones it needs, and the stage never holds the activations of more than
  \<open>min (R - stage, M)\<close> micro-batches.
\<close>

theorem one_f_one_b_stage_legal:
  assumes "s < R" "0 < M"
  shows "stage_run R s (int (min (R - s) M)) (one_f_one_b_order R M s) stage_init = Some (stage_final R M s)"
proof -
  define w where "w = warmup_micro_batches R M s"
  then have p: "fb_params R M s w" using assms by (simp add: fb_params_def)
  note bounds = fb_params_bounds [OF p]
  let ?warm = "(warmup_step w s ^^ w) ([], 0, 0)"
  let ?early = "early_send R M s ?warm"
  let ?steady = "(steady_step R s ^^ (M - w)) ?early"
  have warm: "fb_reached R s (int w) ?warm (int w) (int w - 1) 0"
    using warmup_reached [OF p, of w] bounds(2) by (auto simp: warm_sent_def split: if_splits)
  have "\<exists>f sent. cool_reached R M s (int w) ?steady f sent (int M - int w) \<and>
      (f = int M \<and> sent = int M - 1 \<and> R - s \<le> M \<or> f = int M + 1 \<and> sent = int M \<and> w = M)"
  proof (cases "R - s \<le> M")
    case True
    then have "fb_reached R s (int w) ?steady (int M) (int M - 1) (int M - int w)"
      using steady_reached [OF p True, of ?early "M - w"] warm bounds(3) by (simp add: early_send_none of_nat_diff)
    then show ?thesis using True by (auto simp: fb_reached_def cool_reached_def)
  next
    case False
    then show ?thesis using early_reached [OF p _ warm] bounds(7) by simp
  qed
  then obtain f sent where "cool_reached R M s (int w) ?steady f sent (int M - int w)"
    "f = int M \<and> sent = int M - 1 \<and> R - s \<le> M \<or> f = int M + 1 \<and> sent = int M \<and> w = M" by blast
  from cooldown_reached [OF p this, of w]
  have "cool_reached R M s (int w) (one_f_one_b_state R M s) f (int M) (int M)"
    using bounds(2) by (simp add: one_f_one_b_state_def w_def [symmetric] Let_def)
  moreover have "fb_stage R s (int M) (int M) (int M) = stage_final R M s"
    by (simp add: fb_stage_def stage_final_def Let_def)
  moreover have "w = min (R - s) M" by (simp add: w_def warmup_micro_batches_def)
  ultimately show ?thesis by (auto simp: cool_reached_def one_f_one_b_order_def split: prod.splits)
qed

theorem one_f_one_b_stage_legal_witness:
  "stage_run 4 1 (int (min (4 - 1) 6)) (one_f_one_b_order 4 6 1) stage_init = Some (stage_final 4 6 1)"
  by (rule one_f_one_b_stage_legal) simp_all

end
