(* ===== verification/PipeExec.thy ===== *)
theory PipeExec
  imports PipeClassic
begin

text \<open>
  Executing the orders of all ranks together.  Transfers block on both sides: a send and its
  receive happen in one step, when they are the next steps of their two ranks (the strictest
  reading of the point-to-point queues; buffered sends only allow more).  The locale gives
  progress for any schedule with a clock that grows along every rank and agrees on the two
  ends of a transfer; GPipe and 1F1B provide clocks.
\<close>

section \<open>The step relation\<close>

text \<open>The other end of a transfer, when rank and stage coincide.\<close>

definition partner :: "meta_step \<Rightarrow> (nat \<times> meta_step) option" where
  "partner x =
     (case x of
        MetaStep (Some m) t (Some i) _ _ \<Rightarrow>
          (case t of
             DATA_SEND \<Rightarrow> Some (nat (i + 1), mstep m DATA_RECV (i + 1))
           | FWD_SEND \<Rightarrow> Some (nat (i + 1), mstep m FWD_RECV (i + 1))
           | BWD_SEND \<Rightarrow> Some (nat (i - 1), mstep m BWD_RECV (i - 1))
           | DATA_RECV \<Rightarrow> Some (nat (i - 1), mstep m DATA_SEND (i - 1))
           | FWD_RECV \<Rightarrow> Some (nat (i - 1), mstep m FWD_SEND (i - 1))
           | BWD_RECV \<Rightarrow> Some (nat (i + 1), mstep m BWD_SEND (i + 1))
           | _ \<Rightarrow> None)
      | _ \<Rightarrow> None)"

type_synonym counters = "nat list"

definition next_step :: "meta_step list list \<Rightarrow> counters \<Rightarrow> nat \<Rightarrow> meta_step option" where
  "next_step progs pcs r =
     (if r < length progs \<and> pcs ! r < length (progs ! r) then Some (progs ! r ! (pcs ! r)) else None)"

inductive exec_step :: "meta_step list list \<Rightarrow> counters \<Rightarrow> counters \<Rightarrow> bool" for progs where
  local_step: "next_step progs pcs r = Some x \<Longrightarrow> partner x = None \<Longrightarrow>
    exec_step progs pcs (pcs[r := Suc (pcs ! r)])"
| transfer: "next_step progs pcs r = Some x \<Longrightarrow> partner x = Some (r', y) \<Longrightarrow> r \<noteq> r' \<Longrightarrow>
    next_step progs pcs r' = Some y \<Longrightarrow>
    exec_step progs pcs (pcs[r := Suc (pcs ! r), r' := Suc (pcs ! r')])"

inductive reachable :: "meta_step list list \<Rightarrow> counters \<Rightarrow> bool" for progs where
  start: "reachable progs (replicate (length progs) 0)"
| step: "reachable progs pcs \<Longrightarrow> exec_step progs pcs pcs' \<Longrightarrow> reachable progs pcs'"

inductive_cases exec_stepE: "exec_step progs pcs pcs'"

definition finished :: "meta_step list list \<Rightarrow> counters \<Rightarrow> bool" where
  "finished progs pcs \<longleftrightarrow> pcs = map length progs"

definition remaining :: "meta_step list list \<Rightarrow> counters \<Rightarrow> nat" where
  "remaining progs pcs = (\<Sum>r < length progs. length (progs ! r) - pcs ! r)"

section \<open>Progress from a clock\<close>

locale rendezvous =
  fixes progs :: "meta_step list list" and clock :: "meta_step \<Rightarrow> int"
  assumes ascending: "r < length progs \<Longrightarrow> sorted_wrt (\<lambda>x y. clock x < clock y) (progs ! r)"
    and paired_up: "r < length progs \<Longrightarrow> x \<in> set (progs ! r) \<Longrightarrow> partner x = Some (r', y) \<Longrightarrow>
      r' < length progs \<and> r' \<noteq> r \<and> y \<in> set (progs ! r') \<and> clock y = clock x \<and> partner y = Some (r, x)"
begin

definition consistent :: "counters \<Rightarrow> bool" where
  "consistent pcs \<longleftrightarrow> length pcs = length progs \<and> (\<forall>r < length progs. pcs ! r \<le> length (progs ! r)) \<and>
     (\<forall>r < length progs. \<forall>i < pcs ! r. \<forall>r' y. partner (progs ! r ! i) = Some (r', y) \<longrightarrow>
        (\<exists>j < pcs ! r'. progs ! r' ! j = y))"

lemma clock_less: "r < length progs \<Longrightarrow> i < j \<Longrightarrow> j < length (progs ! r) \<Longrightarrow> clock (progs ! r ! i) < clock (progs ! r ! j)"
  using ascending [of r] by (simp add: sorted_wrt_iff_nth_less)

lemma clock_inj:
  "r < length progs \<Longrightarrow> i < length (progs ! r) \<Longrightarrow> j < length (progs ! r) \<Longrightarrow>
     clock (progs ! r ! i) = clock (progs ! r ! j) \<Longrightarrow> i = j"
  using clock_less [of r i j] clock_less [of r j i] by (metis less_irrefl linorder_neqE_nat)

lemma next_step_nth: "next_step progs pcs r = Some x \<Longrightarrow> r < length progs \<and> pcs ! r < length (progs ! r) \<and> x = progs ! r ! (pcs ! r)"
  by (auto simp: next_step_def split: if_splits)

lemma consistent_step:
  assumes "consistent pcs" "exec_step progs pcs pcs'"
  shows "consistent pcs'"
  using assms(2)
proof (cases rule: exec_step.cases)
  case (local_step r x)
  have "(\<exists>j < pcs' ! q'. progs ! q' ! j = y)"
    if q: "q < length progs" "i < pcs' ! q" "partner (progs ! q ! i) = Some (q', y)" for q i q' y
  proof -
    have "i < pcs ! q"
      using q local_step next_step_nth [OF local_step(2)] assms(1)
      by (cases "q = r"; cases "i = pcs ! r") (auto simp: consistent_def)
    then obtain j where "j < pcs ! q'" "progs ! q' ! j = y" using assms(1) q(1,3) unfolding consistent_def by blast
    moreover have "pcs ! q' \<le> pcs' ! q'"
      using local_step(1) next_step_nth [OF local_step(2)] assms(1)
      by (cases "q' = r") (auto simp: consistent_def)
    ultimately show ?thesis using less_le_trans by blast
  qed
  moreover have "length pcs' = length progs \<and> (\<forall>q < length progs. pcs' ! q \<le> length (progs ! q))"
    using assms(1) local_step(1) next_step_nth [OF local_step(2)] by (auto simp: consistent_def nth_list_update)
  ultimately show ?thesis unfolding consistent_def by blast
next
  case (transfer r x r' y)
  note nx = next_step_nth [OF transfer(2)]
  note ny = next_step_nth [OF transfer(5)]
  have mutual: "partner y = Some (r, x)" using paired_up [of r x r' y] nx transfer(3) by auto
  have len: "length pcs = length progs" using assms(1) by (simp add: consistent_def)
  have pcs': "pcs' ! q = (if q = r \<or> q = r' then Suc (pcs ! q) else pcs ! q)" if "q < length progs" for q
    using that transfer(1,4) len nx ny by (auto simp: nth_list_update)
  have "(\<exists>j < pcs' ! q'. progs ! q' ! j = z)"
    if q: "q < length progs" "i < pcs' ! q" "partner (progs ! q ! i) = Some (q', z)" for q i q' z
  proof (cases "i < pcs ! q")
    case True
    then obtain j where j: "j < pcs ! q'" "progs ! q' ! j = z" using assms(1) q(1,3) unfolding consistent_def by blast
    have "progs ! q ! i \<in> set (progs ! q)" using True assms(1) q(1) by (auto simp: consistent_def)
    then have "q' < length progs" using paired_up q(1,3) by blast
    then have "pcs ! q' \<le> pcs' ! q'" using pcs' by simp
    then show ?thesis using j less_le_trans by blast
  next
    case False
    then have "q = r \<and> i = pcs ! r \<or> q = r' \<and> i = pcs ! r'" using q(1,2) pcs' by (auto split: if_splits)
    then show ?thesis
    proof
      assume "q = r \<and> i = pcs ! r"
      then have "q' = r'" "z = y" using q(3) transfer(3) nx by auto
      then show ?thesis using ny pcs' by (intro exI [of _ "pcs ! r'"]) auto
    next
      assume "q = r' \<and> i = pcs ! r'"
      then have "q' = r" "z = x" using q(3) mutual ny by auto
      then show ?thesis using nx pcs' by (intro exI [of _ "pcs ! r"]) auto
    qed
  qed
  moreover have "length pcs' = length progs" using len transfer(1) by simp
  moreover have "pcs' ! q \<le> length (progs ! q)" if "q < length progs" for q
    using pcs' [OF that] assms(1) nx ny that by (auto simp: consistent_def)
  ultimately show ?thesis unfolding consistent_def by blast
qed

lemma reachable_consistent: "reachable progs pcs \<Longrightarrow> consistent pcs"
proof (induction rule: reachable.induct)
  case start
  then show ?case by (simp add: consistent_def)
next
  case (step pcs pcs')
  from step.IH step.hyps(2) show ?case by (rule consistent_step)
qed

lemma progress:
  assumes "reachable progs pcs"
  shows "finished progs pcs \<or> (\<exists>pcs'. exec_step progs pcs pcs')"
proof -
  have c: "consistent pcs" using assms by (rule reachable_consistent)
  let ?live = "{r. r < length progs \<and> pcs ! r < length (progs ! r)}"
  show ?thesis
  proof (cases "?live = {}")
    case True
    then have "pcs = map length progs"
      using c by (intro nth_equalityI) (auto simp: consistent_def not_less dest!: leD intro: antisym)
    then show ?thesis by (simp add: finished_def)
  next
    case False
    have "finite ?live" by simp
    then obtain r where r: "r \<in> ?live"
      "\<And>q. q \<in> ?live \<Longrightarrow> clock (progs ! r ! (pcs ! r)) \<le> clock (progs ! q ! (pcs ! q))"
      using False ex_is_arg_min_if_finite [of ?live "\<lambda>r. clock (progs ! r ! (pcs ! r))"]
      unfolding is_arg_min_linorder by blast
    let ?x = "progs ! r ! (pcs ! r)"
    have nx: "next_step progs pcs r = Some ?x" using r(1) by (simp add: next_step_def)
    show ?thesis
    proof (cases "partner ?x")
      case None
      then show ?thesis using exec_step.local_step [OF nx] by blast
    next
      case (Some p)
      obtain r' y where p: "p = (r', y)" by force
      have xin: "?x \<in> set (progs ! r)" using r(1) by simp
      note pu = paired_up [OF _ xin Some [unfolded p]]
      have r': "r' < length progs" "r' \<noteq> r" "y \<in> set (progs ! r')" "clock y = clock ?x" "partner y = Some (r, ?x)"
        using pu r(1) by auto
      obtain j where j: "j < length (progs ! r')" "progs ! r' ! j = y" using r'(3) by (meson in_set_conv_nth)
      have "\<not> j < pcs ! r'"
      proof
        assume "j < pcs ! r'"
        then obtain i where i: "i < pcs ! r" "progs ! r ! i = ?x"
          using c r'(1,5) j unfolding consistent_def by blast
        then have "i = pcs ! r" using clock_inj [of r i "pcs ! r"] r(1) by auto
        then show False using i(1) by simp
      qed
      then have le: "pcs ! r' \<le> j" by simp
      then have "r' \<in> ?live" using j(1) r'(1) by simp
      then have "clock ?x \<le> clock (progs ! r' ! (pcs ! r'))" by (rule r(2))
      then have "pcs ! r' = j" using clock_less [of r' "pcs ! r'" j] le j r'(1,4) by (cases "pcs ! r' < j") auto
      then have "next_step progs pcs r' = Some y" using j r'(1) by (simp add: next_step_def)
      from exec_step.transfer [OF nx Some [unfolded p] _ this] r'(2) show ?thesis by blast
    qed
  qed
qed

lemma remaining_decreases:
  assumes "reachable progs pcs" "exec_step progs pcs pcs'"
  shows "remaining progs pcs' < remaining progs pcs"
proof -
  have c: "consistent pcs" "consistent pcs'"
    using reachable_consistent assms reachable.step by blast+
  have "\<exists>r. next_step progs pcs r \<noteq> None \<and> pcs' ! r = Suc (pcs ! r) \<and> (\<forall>q < length progs. pcs ! q \<le> pcs' ! q)"
    using assms(2)
  proof (cases rule: exec_step.cases)
    case (local_step r x)
    then show ?thesis using next_step_nth [OF local_step(2)] c(1)
      by (intro exI [of _ r]) (auto simp: consistent_def nth_list_update)
  next
    case (transfer r x r' y)
    then show ?thesis using next_step_nth [OF transfer(2)] next_step_nth [OF transfer(5)] c(1)
      by (intro exI [of _ r]) (auto simp: consistent_def nth_list_update)
  qed
  then obtain r where r: "next_step progs pcs r \<noteq> None" "pcs' ! r = Suc (pcs ! r)" "\<forall>q < length progs. pcs ! q \<le> pcs' ! q"
    by blast
  then have "r < length progs" "pcs ! r < length (progs ! r)" by (auto simp: next_step_def split: if_splits)
  then show ?thesis unfolding remaining_def using r
    by (intro sum_strict_mono_ex1) (auto intro!: bexI [of _ r] diff_le_mono2)
qed

end

section \<open>Legal orders pair up\<close>

lemma stage_init_counter [simp]: "stage_counter t stage_init = 0"
  by (cases t) (simp_all add: stage_init_def)

lemma legal_members:
  assumes "stage_run R s b xs stage_init = Some (stage_final R M s)"
  shows "mstep m t (int s) \<in> set xs \<longleftrightarrow> 0 \<le> m \<and> m < stage_counter t (stage_final R M s)"
  using stage_run_steps [OF assms, of t m] by simp

lemma legal_pairs:
  assumes legal: "\<And>s. s < R \<Longrightarrow> stage_run R s (b s) (order s) stage_init = Some (stage_final R M s)"
    and "s < R" "x \<in> set (order s)" "partner x = Some (s', y)"
  shows "s' < R \<and> s' \<noteq> s \<and> y \<in> set (order s') \<and> partner y = Some (s, x)"
proof -
  obtain m t where x: "x = mstep m t (int s)" using stage_run_own [OF legal [OF assms(2)] assms(3)] by blast
  have m: "0 \<le> m" "m < stage_counter t (stage_final R M s)"
    using legal_members [OF legal [OF assms(2)]] assms(3) x by blast+
  note mem = legal_members [OF legal]
  show ?thesis
  proof (cases "t \<in> {DATA_SEND, FWD_SEND, BWD_RECV}")
    case True
    then have "Suc s < R" using m assms(2) by (auto simp: stage_final_def Let_def split: if_splits)
    moreover have "s' = Suc s" using True assms(4) x by (auto simp: partner_def)
    moreover have "\<exists>t'. y = mstep m t' (int (Suc s)) \<and> m < stage_counter t' (stage_final R M (Suc s)) \<and>
        partner y = Some (s, x)"
      using True m assms(4) x by (auto simp: partner_def stage_final_def Let_def split: if_splits)
    ultimately show ?thesis using mem [of "Suc s" m] m(1) by auto
  next
    case False
    then have t: "t \<in> {DATA_RECV, FWD_RECV, BWD_SEND}" using assms(4) x by (cases t) (auto simp: partner_def)
    then obtain p where p: "s = Suc p" using m by (cases s) (auto simp: stage_final_def Let_def)
    moreover have "s' = p" using t assms(4) x p by (auto simp: partner_def)
    moreover have "\<exists>t'. y = mstep m t' (int p) \<and> m < stage_counter t' (stage_final R M p) \<and> partner y = Some (s, x)"
      using t m assms(2,4) x p by (auto simp: partner_def stage_final_def Let_def split: if_splits)
    ultimately show ?thesis using mem [of p m] m(1) assms(2) by auto
  qed
qed

text \<open>Clocked lists: strictly ascending, from \<open>lo\<close> on and before \<open>hi\<close>.\<close>

definition clocked :: "(meta_step \<Rightarrow> int) \<Rightarrow> int \<Rightarrow> int \<Rightarrow> meta_step list \<Rightarrow> bool" where
  "clocked clock lo hi xs \<longleftrightarrow> lo \<le> hi \<and> sorted_wrt (\<lambda>x y. clock x < clock y) xs \<and>
     (\<forall>x \<in> set xs. lo \<le> clock x \<and> clock x < hi)"

lemma clocked_mono: "clocked c lo hi xs \<Longrightarrow> hi \<le> hi' \<Longrightarrow> clocked c lo hi' xs"
  unfolding clocked_def by force

lemma clocked_append: "clocked c a b xs \<Longrightarrow> clocked c b' d ys \<Longrightarrow> b \<le> b' \<Longrightarrow> clocked c a d (xs @ ys)"
  by (fastforce simp: clocked_def sorted_wrt_append)

lemma clocked_concat:
  assumes "\<And>k. k < n \<Longrightarrow> clocked c (T k) (T (Suc k)) (f k)"
  shows "clocked c (T 0) (T n) (concat (map f [0..<n]))"
  using assms
proof (induction n)
  case 0
  then show ?case by (simp add: clocked_def)
next
  case (Suc n)
  then show ?case using clocked_append [of c "T 0" "T n" _ "T n" "T (Suc n)" "f n"] by simp
qed

section \<open>GPipe does not deadlock\<close>

definition gpipe_clock :: "nat \<Rightarrow> nat \<Rightarrow> meta_step \<Rightarrow> int" where
  "gpipe_clock R M x =
     (let m = the (micro_index x); s = the (stage_index x);
          F = s + 2 * m; B = 2 * int R + 2 * int M - s + 2 * m
      in case step_type x of
           DATA_LOAD \<Rightarrow> 16 * (F - 1) + 9
         | DATA_RECV \<Rightarrow> 16 * (F - 1) + 10
         | FWD_RECV \<Rightarrow> 16 * (F - 1) + 11
         | FWD \<Rightarrow> 16 * F + 8
         | DATA_SEND \<Rightarrow> 16 * F + 10
         | FWD_SEND \<Rightarrow> 16 * F + 11
         | BWD_RECV \<Rightarrow> 16 * (B - 1) + 10
         | BWD \<Rightarrow> 16 * B + 8
         | BWD_SEND \<Rightarrow> 16 * B + 10
         | _ \<Rightarrow> 0)"

lemma gpipe_clocked:
  assumes "s < R"
  shows "sorted_wrt (\<lambda>x y. gpipe_clock R M x < gpipe_clock R M y) (gpipe_order R M s)"
proof -
  let ?F = "\<lambda>k. 16 * (int s + 2 * int k - 1) + 9"
  let ?B = "\<lambda>k. 16 * (2 * int R + 2 * int M - int s + 2 * int k - 1) + 10"
  have "clocked (gpipe_clock R M) (?F k) (?F (Suc k)) (gpipe_forward R s k)" for k
    by (auto simp: clocked_def gpipe_forward_def gpipe_clock_def Let_def)
  then have 1: "clocked (gpipe_clock R M) (?F 0) (?F M) (concat (map (gpipe_forward R s) [0..<M]))"
    by (rule clocked_concat)
  have "clocked (gpipe_clock R M) (?B k) (?B (Suc k)) (gpipe_backward R s k)" for k
    by (auto simp: clocked_def gpipe_backward_def gpipe_clock_def Let_def)
  then have 2: "clocked (gpipe_clock R M) (?B 0) (?B M) (concat (map (gpipe_backward R s) [0..<M]))"
    by (rule clocked_concat)
  show ?thesis using clocked_append [OF 1 2] assms by (simp add: clocked_def gpipe_order_def)
qed

lemma gpipe_partner_clock: "partner x = Some (s', y) \<Longrightarrow> gpipe_clock R M y = gpipe_clock R M x"
  by (auto simp: partner_def gpipe_clock_def Let_def split: meta_step.splits option.splits meta_step_type.splits)

interpretation gpipe: rendezvous "map (gpipe_order R M) [0..<R]" "gpipe_clock R M" for R M
proof unfold_locales
  fix r assume "r < length (map (gpipe_order R M) [0..<R])"
  then show "sorted_wrt (\<lambda>x y. gpipe_clock R M x < gpipe_clock R M y) (map (gpipe_order R M) [0..<R] ! r)"
    using gpipe_clocked [of r R M] by simp
next
  fix r x r' y
  assume "r < length (map (gpipe_order R M) [0..<R])" "x \<in> set (map (gpipe_order R M) [0..<R] ! r)"
    and p: "partner x = Some (r', y)"
  then have "r < R" "x \<in> set (gpipe_order R M r)" by simp_all
  from legal_pairs [OF gpipe_stage_legal this p]
  have "r' < R \<and> r' \<noteq> r \<and> y \<in> set (gpipe_order R M r') \<and> partner y = Some (r, x)" .
  then show "r' < length (map (gpipe_order R M) [0..<R]) \<and> r' \<noteq> r \<and> y \<in> set (map (gpipe_order R M) [0..<R] ! r') \<and>
      gpipe_clock R M y = gpipe_clock R M x \<and> partner y = Some (r, x)"
    using gpipe_partner_clock [OF p] by simp
qed

section \<open>1F1B does not deadlock\<close>

text \<open>
  The clock of 1F1B.  Forward \<open>m\<close> of stage \<open>s\<close> is in slot \<open>2 s + 3 m\<close>, its backward in slot
  \<open>3 R - 2 - s + 3 m\<close>; a transfer's time depends on the sender's parity while it warms up.
\<close>

definition fb_send_time :: "nat \<Rightarrow> nat \<Rightarrow> int \<Rightarrow> int \<Rightarrow> int" where
  "fb_send_time R M s m =
     (let F = 2 * s + 3 * m
      in if m < int (min (R - nat s) M) - 1
         then (if even s then 16 * F + 10 else 16 * (F + 2) + 2)
         else 16 * F + 12)"

definition fb_clock :: "nat \<Rightarrow> nat \<Rightarrow> meta_step \<Rightarrow> int" where
  "fb_clock R M x =
     (let m = the (micro_index x); s = the (stage_index x);
          F = 2 * s + 3 * m; B = 3 * int R - 2 - s + 3 * m
      in case step_type x of
           DATA_LOAD \<Rightarrow> 16 * (F - 2) + 9
         | DATA_RECV \<Rightarrow> fb_send_time R M (s - 1) m
         | FWD_RECV \<Rightarrow> fb_send_time R M (s - 1) m + 1
         | FWD \<Rightarrow> 16 * F + 8
         | DATA_SEND \<Rightarrow> fb_send_time R M s m
         | FWD_SEND \<Rightarrow> fb_send_time R M s m + 1
         | BWD_RECV \<Rightarrow> 16 * (B - 1) + 10
         | BWD \<Rightarrow> 16 * B + 8
         | BWD_SEND \<Rightarrow> 16 * B + 10
         | _ \<Rightarrow> 0)"

lemma fb_clock_simps [simp]:
  "fb_clock R M (mstep m DATA_LOAD s) = 16 * (2 * s + 3 * m - 2) + 9"
  "fb_clock R M (mstep m DATA_RECV s) = fb_send_time R M (s - 1) m"
  "fb_clock R M (mstep m FWD_RECV s) = fb_send_time R M (s - 1) m + 1"
  "fb_clock R M (mstep m FWD s) = 16 * (2 * s + 3 * m) + 8"
  "fb_clock R M (mstep m DATA_SEND s) = fb_send_time R M s m"
  "fb_clock R M (mstep m FWD_SEND s) = fb_send_time R M s m + 1"
  "fb_clock R M (mstep m BWD_RECV s) = 16 * (3 * int R - 3 - s + 3 * m) + 10"
  "fb_clock R M (mstep m BWD s) = 16 * (3 * int R - 2 - s + 3 * m) + 8"
  "fb_clock R M (mstep m BWD_SEND s) = 16 * (3 * int R - 2 - s + 3 * m) + 10"
  by (simp_all add: fb_clock_def Let_def)

lemma fb_partner_clock: "partner x = Some (s', y) \<Longrightarrow> fb_clock R M y = fb_clock R M x"
  by (auto simp: partner_def fb_clock_def Let_def split: meta_step.splits option.splits meta_step_type.splits)

text \<open>The times of the transfers of stage \<open>s\<close> during warmup and afterwards.\<close>

lemma send_time_warm:
  "m < int w - 1 \<Longrightarrow> w = min (R - s) M \<Longrightarrow>
     fb_send_time R M (int s) m = (if even s then 16 * (2 * int s + 3 * m) + 10 else 16 * (2 * int s + 3 * m + 2) + 2)"
  by (simp add: fb_send_time_def Let_def)

lemma send_time_late:
  "int w - 1 \<le> m \<Longrightarrow> w = min (R - s) M \<Longrightarrow> fb_send_time R M (int s) m = 16 * (2 * int s + 3 * m) + 12"
  by (simp add: fb_send_time_def Let_def)

lemma recv_time:
  assumes "0 < s"
  shows "fb_send_time R M (int s - 1) m =
    (if m < int (min (R - (s - 1)) M) - 1
     then (if odd s then 16 * (2 * int s + 3 * m - 2) + 10 else 16 * (2 * int s + 3 * m) + 2)
     else 16 * (2 * int s + 3 * m - 2) + 12)"
proof -
  have "nat (int s - 1) = s - 1" "even (int s - 1) \<longleftrightarrow> odd s" using assms by auto
  then show ?thesis by (simp add: fb_send_time_def Let_def algebra_simps)
qed

text \<open>An order with its latest time; the counters of the loops.\<close>

definition fb_clocked :: "nat \<Rightarrow> nat \<Rightarrow> int \<Rightarrow> fb_state \<Rightarrow> int \<Rightarrow> int \<Rightarrow> bool" where
  "fb_clocked R M hi st f b \<longleftrightarrow>
     (case st of (order, f', b') \<Rightarrow> f' = f \<and> b' = b \<and> (\<exists>lo. clocked (fb_clock R M) lo hi order))"

lemma fb_clocked_extend:
  assumes "\<exists>lo. clocked (fb_clock R M) lo hi order" "clocked (fb_clock R M) lo' hi' xs" "hi \<le> lo'"
  shows "\<exists>lo. clocked (fb_clock R M) lo hi' (order @ xs)"
  using clocked_append assms by blast

definition warm_hi :: "nat \<Rightarrow> nat \<Rightarrow> nat \<Rightarrow> int" where
  "warm_hi w s k = 16 * (2 * int s + 3 * int k - 3) + (if k = w then 9 else 12)"

lemma recv_bounds:
  "0 < s \<Longrightarrow> 16 * (2 * int s + 3 * m - 2) + 10 \<le> fb_send_time R M (int s - 1) m \<and>
     fb_send_time R M (int s - 1) m \<le> (if odd s then 16 * (2 * int s + 3 * m - 2) + 12 else 16 * (2 * int s + 3 * m) + 2)"
  by (auto simp: recv_time)

definition warmup_block :: "nat \<Rightarrow> nat \<Rightarrow> nat \<Rightarrow> meta_step list" where
  "warmup_block w s k =
     [mstep (int k) DATA_LOAD (int s)] @
     (if s \<noteq> 0 then recv_pair (int k) s else []) @
     (if s mod 2 = 0 then
        [mstep (int k) FWD (int s)] @ (if int k \<noteq> int w - 1 then send_pair (int k) s else [])
      else (if 0 < k then send_pair (int k - 1) s else []) @ [mstep (int k) FWD (int s)])"

lemma clocked_load:
  "clocked (fb_clock R M) (16 * (2 * int s + 3 * m - 2) + 9) (16 * (2 * int s + 3 * m - 2) + 10)
     [mstep m DATA_LOAD (int s)]"
  by (simp add: clocked_def)

lemma warm_clocked:
  assumes p: "fb_params R M s w"
  shows "k \<le> w \<Longrightarrow> fb_clocked R M (warm_hi w s k) ((warmup_step w s ^^ k) ([], 0, 0)) (int k) 0"
proof (induction k)
  case 0
  then show ?case by (auto simp: fb_clocked_def clocked_def)
next
  case (Suc k)
  have w: "w = min (R - s) M" using p by (simp add: fb_params_def warmup_micro_batches_def)
  obtain order where o: "(warmup_step w s ^^ k) ([], 0, 0) = (order, int k, 0)"
    "\<exists>lo. clocked (fb_clock R M) lo (warm_hi w s k) order"
    using Suc by (cases "(warmup_step w s ^^ k) ([], 0, 0)") (auto simp: fb_clocked_def)
  let ?F = "2 * int s + 3 * int k"
  have recv: "clocked (fb_clock R M) (16 * (?F - 2) + 10) (if odd s then 16 * (?F - 1) else 16 * ?F + 4) (if s \<noteq> 0 then recv_pair (int k) s else [])"
    using recv_bounds [of s "int k" R M] by (auto simp: clocked_def recv_pair_def)
  have "clocked (fb_clock R M) (16 * (?F - 2) + 9) (warm_hi w s (Suc k)) (warmup_block w s k)"
  proof (cases "even s")
    case True
    have "clocked (fb_clock R M) (16 * ?F + 8) (warm_hi w s (Suc k))
        ([mstep (int k) FWD (int s)] @ (if int k \<noteq> int w - 1 then send_pair (int k) s else []))"
      using True Suc.prems send_time_warm [OF _ w, of "int k"]
      by (auto simp: clocked_def send_pair_def warm_hi_def)
    with clocked_append [OF clocked_load clocked_append [OF recv this]] show ?thesis
      using True by (simp add: warmup_block_def even_iff_mod_2_eq_zero)
  next
    case False
    have "clocked (fb_clock R M) (16 * (?F - 1) + 2) (warm_hi w s (Suc k))
        ((if 0 < k then send_pair (int k - 1) s else []) @ [mstep (int k) FWD (int s)])"
      using False Suc.prems send_time_warm [OF _ w, of "int k - 1"]
      by (auto simp: clocked_def send_pair_def warm_hi_def)
    with clocked_append [OF clocked_load clocked_append [OF recv this]] show ?thesis
      using False by (simp add: warmup_block_def even_iff_mod_2_eq_zero)
  qed
  moreover have "warmup_step w s (order, int k, 0) = (order @ warmup_block w s k, int k + 1, 0)"
    by (simp add: warmup_step_def warmup_block_def)
  ultimately obtain xs where xs: "warmup_step w s (order, int k, 0) = (order @ xs, int k + 1, 0)"
    "clocked (fb_clock R M) (16 * (?F - 2) + 9) (warm_hi w s (Suc k)) xs" by blast
  have "warm_hi w s k \<le> 16 * (2 * int s + 3 * int k - 2) + 9" by (simp add: warm_hi_def)
  from fb_clocked_extend [OF o(2) xs(2) this] show ?case using o(1) xs(1) by (simp add: fb_clocked_def)
qed

lemma steady_clocked:
  assumes p: "fb_params R M s w" and "R - s \<le> M"
    and "fb_clocked R M (16 * (3 * int R - 3 - int s) + 9) st (int w) 0"
  shows "k \<le> M - w \<Longrightarrow> fb_clocked R M (16 * (3 * int R - 3 - int s + 3 * int k) + 9)
    ((steady_step R s ^^ k) st) (int w + int k) (int k)"
proof (induction k)
  case 0
  then show ?case using assms(3) by simp
next
  case (Suc k)
  have w: "w = min (R - s) M" "int w = int R - int s" using fb_params_bounds(1,8) [OF p] assms(2) by auto
  obtain order where o: "(steady_step R s ^^ k) st = (order, int w + int k, int k)"
    "\<exists>lo. clocked (fb_clock R M) lo (16 * (3 * int R - 3 - int s + 3 * int k) + 9) order"
    using Suc by (cases "(steady_step R s ^^ k) st") (auto simp: fb_clocked_def)
  let ?B = "3 * int R - 2 - int s + 3 * int k"
  have 1: "clocked (fb_clock R M) (16 * (?B - 1) + 10) (16 * ?B)
      (if s \<noteq> R - 1 then mstep (int k) BWD_RECV (int s) # send_pair (int w + int k - 1) s else [])"
    using send_time_late [OF _ w(1), of "int w + int k - 1"] w(2) by (auto simp: clocked_def send_pair_def)
  have 2: "clocked (fb_clock R M) (16 * ?B + 8) (16 * ?B + 10)
      [mstep (int k) BWD (int s), mstep (int w + int k) DATA_LOAD (int s)]"
    using w(2) by (auto simp: clocked_def)
  have "\<not> int w + int k < int (min (R - (s - 1)) M) - 1" using w(2) fb_params_bounds(1) [OF p] by auto
  then have 3: "clocked (fb_clock R M) (16 * ?B + 10) (16 * ?B + 16)
      (if s \<noteq> 0 then mstep (int k) BWD_SEND (int s) # recv_pair (int w + int k) s else [])"
    using w(2) recv_time [of s R M "int w + int k"] by (auto simp: clocked_def recv_pair_def)
  have 4: "clocked (fb_clock R M) (16 * (?B + 2) + 8) (16 * (?B + 2) + 9) [mstep (int w + int k) FWD (int s)]"
    using w(2) by (simp add: clocked_def)
  note block = clocked_append [OF 1 clocked_append [OF 2 clocked_append [OF 3 4]]]
  then show ?case using fb_clocked_extend [OF o(2), of _ "16 * (?B + 2) + 9"] o(1)
    by (simp add: fb_clocked_def steady_step_def)
qed

lemma early_clocked:
  assumes p: "fb_params R M s w" and "M < R - s"
    and "fb_clocked R M (16 * (2 * int s + 3 * int w - 3) + 9) st (int w) 0"
  shows "fb_clocked R M (16 * (2 * int s + 3 * int M - 3) + 14) (early_send R M s st) (int M + 1) 0"
proof -
  have w: "w = min (R - s) M" "w = M" using fb_params_bounds(7) [OF p] assms(2) by auto
  obtain order where o: "st = (order, int w, 0)"
    "\<exists>lo. clocked (fb_clock R M) lo (16 * (2 * int s + 3 * int w - 3) + 9) order"
    using assms(3) by (cases st) (auto simp: fb_clocked_def)
  have "clocked (fb_clock R M) (16 * (2 * int s + 3 * int M - 3) + 12) (16 * (2 * int s + 3 * int M - 3) + 14)
      (send_pair (int w - 1) s)"
    using send_time_late [OF _ w(1), of "int w - 1"] w(2) by (auto simp: clocked_def send_pair_def)
  from fb_clocked_extend [OF o(2) this] show ?thesis
    using assms(2) o(1) w(2) by (simp add: fb_clocked_def early_send_def)
qed

lemma cooldown_clocked:
  assumes p: "fb_params R M s w"
    and "fb_clocked R M (16 * (3 * int R - 3 - int s + 3 * (int M - int w)) + 10) st f (int M - int w)"
    and "f = int M \<and> R - s \<le> M \<or> f = int M + 1"
  shows "k \<le> w \<Longrightarrow> fb_clocked R M (16 * (3 * int R - 3 - int s + 3 * (int M - int w + int k)) + 10)
    ((cooldown_step R M w s ^^ k) st) f (int M - int w + int k)"
proof (induction k)
  case 0
  then show ?case using assms(2) by simp
next
  case (Suc k)
  let ?b = "int M - int w + int k"
  let ?B = "3 * int R - 2 - int s + 3 * ?b"
  obtain order where o: "(cooldown_step R M w s ^^ k) st = (order, f, ?b)"
    "\<exists>lo. clocked (fb_clock R M) lo (16 * (?B - 1) + 10) order"
    using Suc by (cases "(cooldown_step R M w s ^^ k) st") (auto simp: fb_clocked_def algebra_simps)
  let ?send = "if ?b = int M - int w \<and> f \<le> int M then send_pair (f - 1) s else []"
  have send: "clocked (fb_clock R M) (16 * (?B - 1) + 12) (16 * (?B - 1) + 14) ?send"
  proof (cases "?b = int M - int w \<and> f \<le> int M")
    case True
    then have "f = int M" "R - s \<le> M" using assms(3) by auto
    then have w: "w = min (R - s) M" "int w = int R - int s" using fb_params_bounds(1,8) [OF p] by auto
    then show ?thesis
      using True \<open>f = int M\<close> send_time_late [OF _ w(1), of "int M - 1"] fb_params_bounds(3) [OF p]
      by (auto simp: clocked_def send_pair_def)
  qed (auto simp: clocked_def)
  have recv: "clocked (fb_clock R M) (16 * (?B - 1) + 10) (16 * (?B - 1) + 11) [mstep ?b BWD_RECV (int s)]"
    by (simp add: clocked_def)
  have "clocked (fb_clock R M) (16 * (?B - 1) + 10) (16 * (?B - 1) + 14)
      (if s \<noteq> R - 1 then mstep ?b BWD_RECV (int s) # ?send else [])"
    using clocked_append [OF recv send] by (auto simp: clocked_def)
  moreover have "clocked (fb_clock R M) (16 * ?B + 8) (16 * (?B + 2) + 10)
      ([mstep ?b BWD (int s)] @ (if s \<noteq> 0 then [mstep ?b BWD_SEND (int s)] else []))"
    by (simp add: clocked_def)
  ultimately have block: "clocked (fb_clock R M) (16 * (?B - 1) + 10) (16 * (?B + 2) + 10)
      ((if s \<noteq> R - 1 then mstep ?b BWD_RECV (int s) # ?send else []) @
       ([mstep ?b BWD (int s)] @ (if s \<noteq> 0 then [mstep ?b BWD_SEND (int s)] else [])))"
    by (rule clocked_append) simp
  have step: "(cooldown_step R M w s ^^ Suc k) st =
      (order @ (if s \<noteq> R - 1 then mstep ?b BWD_RECV (int s) # ?send else []) @
       ([mstep ?b BWD (int s)] @ (if s \<noteq> 0 then [mstep ?b BWD_SEND (int s)] else [])), f, ?b + 1)"
    using o(1) by (simp add: cooldown_step_def)
  have hi: "16 * (?B + 2) + 10 = 16 * (3 * int R - 3 - int s + 3 * (int M - int w + int (Suc k))) + 10" by simp
  show ?case unfolding step fb_clocked_def hi [symmetric]
    using fb_clocked_extend [OF o(2) block] by simp
qed

lemma fb_order_clocked:
  assumes "s < R" "0 < M"
  shows "\<exists>lo hi. clocked (fb_clock R M) lo hi (one_f_one_b_order R M s)"
proof -
  define w where "w = warmup_micro_batches R M s"
  then have p: "fb_params R M s w" using assms by (simp add: fb_params_def)
  note bounds = fb_params_bounds [OF p]
  let ?warm = "(warmup_step w s ^^ w) ([], 0, 0)"
  let ?early = "early_send R M s ?warm"
  let ?steady = "(steady_step R s ^^ (M - w)) ?early"
  let ?hi = "16 * (3 * int R - 3 - int s + 3 * (int M - int w)) + 10"
  have warm: "fb_clocked R M (16 * (2 * int s + 3 * int w - 3) + 9) ?warm (int w) 0"
    using warm_clocked [OF p, of w] by (simp add: warm_hi_def)
  have up: "fb_clocked R M hi st f b \<Longrightarrow> hi \<le> hi' \<Longrightarrow> fb_clocked R M hi' st f b" for hi hi' st f b
    using clocked_mono by (fastforce simp: fb_clocked_def)
  have "\<exists>f. fb_clocked R M ?hi ?steady f (int M - int w) \<and> (f = int M \<and> R - s \<le> M \<or> f = int M + 1)"
  proof (cases "R - s \<le> M")
    case True
    then have w: "int w = int R - int s" using bounds(1,8) by auto
    then have "fb_clocked R M (16 * (3 * int R - 3 - int s) + 9) ?early (int w) 0"
      using warm up [of "16 * (2 * int s + 3 * int w - 3) + 9"] by (simp add: early_send_none [OF True])
    note st = steady_clocked [OF p True this, of "M - w"]
    have "fb_clocked R M ?hi ?steady (int M) (int M - int w)"
      using up [OF st, of ?hi] bounds(3) by (simp add: of_nat_diff)
    then show ?thesis using True by blast
  next
    case False
    then have e: "M < R - s" "w = M" using bounds(7) by auto
    from early_clocked [OF p e(1) warm]
    have "fb_clocked R M ?hi ?early (int M + 1) 0" by (rule up) (use e in auto)
    then show ?thesis using e(2) by auto
  qed
  then obtain f where "fb_clocked R M ?hi ?steady f (int M - int w)" "f = int M \<and> R - s \<le> M \<or> f = int M + 1" by blast
  from cooldown_clocked [OF p this, of w] show ?thesis
    by (auto simp: fb_clocked_def one_f_one_b_order_def one_f_one_b_state_def w_def [symmetric] Let_def split: prod.splits)
qed

interpretation one_f_one_b: rendezvous "map (one_f_one_b_order R (Suc M)) [0..<R]" "fb_clock R (Suc M)" for R M
proof unfold_locales
  fix r assume "r < length (map (one_f_one_b_order R (Suc M)) [0..<R])"
  then show "sorted_wrt (\<lambda>x y. fb_clock R (Suc M) x < fb_clock R (Suc M) y)
      (map (one_f_one_b_order R (Suc M)) [0..<R] ! r)"
    using fb_order_clocked [of r R "Suc M"] by (auto simp: clocked_def)
next
  fix r x r' y
  assume "r < length (map (one_f_one_b_order R (Suc M)) [0..<R])"
    "x \<in> set (map (one_f_one_b_order R (Suc M)) [0..<R] ! r)" and p: "partner x = Some (r', y)"
  then have "r < R" "x \<in> set (one_f_one_b_order R (Suc M) r)" by simp_all
  from legal_pairs [OF one_f_one_b_stage_legal this p]
  have "r' < R \<and> r' \<noteq> r \<and> y \<in> set (one_f_one_b_order R (Suc M) r') \<and> partner y = Some (r, x)" by simp
  then show "r' < length (map (one_f_one_b_order R (Suc M)) [0..<R]) \<and> r' \<noteq> r \<and>
      y \<in> set (map (one_f_one_b_order R (Suc M)) [0..<R] ! r') \<and>
      fb_clock R (Suc M) y = fb_clock R (Suc M) x \<and> partner y = Some (r, x)"
    using fb_partner_clock [OF p] by simp
qed

text \<open>
  C17.  1F1B never deadlocks, for any number of ranks and micro-batches, even when every send waits for its receive:
  from every state the ranks can reach, all are done or some rank or pair of ranks can go on, and every
  step brings them closer to the end.
\<close>

theorem one_f_one_b_no_deadlock:
  assumes "0 < M" "reachable (map (one_f_one_b_order R M) [0..<R]) pcs"
  shows "(finished (map (one_f_one_b_order R M) [0..<R]) pcs \<or>
      (\<exists>pcs'. exec_step (map (one_f_one_b_order R M) [0..<R]) pcs pcs')) \<and>
    (\<forall>pcs'. exec_step (map (one_f_one_b_order R M) [0..<R]) pcs pcs' \<longrightarrow>
      remaining (map (one_f_one_b_order R M) [0..<R]) pcs' < remaining (map (one_f_one_b_order R M) [0..<R]) pcs)"
proof -
  obtain k where "M = Suc k" using assms(1) gr0_implies_Suc by blast
  then show ?thesis using one_f_one_b.progress one_f_one_b.remaining_decreases assms(2) by blast
qed

lemma start_with: "n = length progs \<Longrightarrow> reachable progs (replicate n 0)"
  using reachable.start by simp

theorem one_f_one_b_no_deadlock_witness:
  "finished (map (one_f_one_b_order 3 4) [0..<3]) [0, 0, 0] \<or>
    (\<exists>pcs'. exec_step (map (one_f_one_b_order 3 4) [0..<3]) [0, 0, 0] pcs')"
  by (rule one_f_one_b_no_deadlock [THEN conjunct1,
        OF _ start_with [of 3, simplified numeral_3_eq_3 replicate_Suc replicate_0]]) simp_all

text \<open>
  GPipe never deadlocks, under the same reading of the transfers.
\<close>

theorem gpipe_no_deadlock:
  assumes "reachable (map (gpipe_order R M) [0..<R]) pcs"
  shows "(finished (map (gpipe_order R M) [0..<R]) pcs \<or>
      (\<exists>pcs'. exec_step (map (gpipe_order R M) [0..<R]) pcs pcs')) \<and>
    (\<forall>pcs'. exec_step (map (gpipe_order R M) [0..<R]) pcs pcs' \<longrightarrow>
      remaining (map (gpipe_order R M) [0..<R]) pcs' < remaining (map (gpipe_order R M) [0..<R]) pcs)"
  using gpipe.progress gpipe.remaining_decreases assms by blast

theorem gpipe_no_deadlock_witness:
  "finished (map (gpipe_order 2 3) [0..<2]) [0, 0] \<or>
    (\<exists>pcs'. exec_step (map (gpipe_order 2 3) [0..<2]) [0, 0] pcs')"
  by (rule gpipe_no_deadlock [THEN conjunct1,
        OF start_with [of 2, simplified numeral_2_eq_2 replicate_Suc replicate_0]]) simp

end
