(* ===== verification/PipeComms.thy ===== *)
theory PipeComms
  imports PipeStep "HOL-Library.Sublist"
begin

text \<open>
  The insertion of transfers into a compute schedule (\<open>add_send_recv\<close> and the passes it is made
  of in \<open>core/pipeline_parallel/scheduler.py\<close>): overlaps take two slots, the columns are
  scanned in time order, even ranks before odd ones, and every step that crosses ranks appends a
  send to its own rank and the receive to its peer.  A schedule over the ranks
  \<open>0 \<dots> R - 1\<close> is the list of their orders.
\<close>

section \<open>The passes\<close>

datatype slot =
    Plain "meta_step option"
  | Phantom meta_step meta_step bool      \<comment> \<open>\<open>_OverlapPhantom(obf_step, sub_step, is_first_half)\<close>\<close>

definition expand_op :: "meta_step option \<Rightarrow> slot list res" where
  "expand_op a =
     (case a of
        None \<Rightarrow> Inr [Plain None]
      | Some op \<Rightarrow>
          if is_overlap (step_type op) \<and> sub_steps op \<noteq> [] then
            rbind (py_get (sub_steps op) 0) (\<lambda>first. rbind (py_get (sub_steps op) 1) (\<lambda>second.
              Inr [Phantom op first True, Phantom op second False]))
          else Inr [Plain (Some op)])"

definition expand_overlap_slots :: "order list \<Rightarrow> nat \<Rightarrow> slot list list res" where
  "expand_overlap_slots scheduler real_stage_num =
     rmap (\<lambda>rank. if rank < length scheduler
                   then rbind (rmap expand_op (scheduler ! rank)) (\<lambda>slots. Inr (concat slots))
                   else Inl KeyError) [0..<real_stage_num]"

definition append_to :: "int \<Rightarrow> meta_step option \<Rightarrow> order list \<Rightarrow> order list res" where
  "append_to rank a sched =
     (if 0 \<le> rank \<and> rank < int (length sched) then Inr (sched[nat rank := sched ! nat rank @ [a]])
      else Inl KeyError)"

definition fwd_peer :: "string \<Rightarrow> nat \<Rightarrow> nat \<Rightarrow> int \<Rightarrow> int option res" where
  "fwd_peer style stage_num real_stage_num stage =
     (if int stage_num - 1 \<le> stage then Inr None
      else rbind (stage_to_rank style stage_num real_stage_num (stage + 1)) (\<lambda>peer.
           rbind (stage_to_rank style stage_num real_stage_num stage) (\<lambda>own.
             Inr (if peer \<noteq> own then Some peer else None))))"

definition bwd_peer :: "string \<Rightarrow> nat \<Rightarrow> nat \<Rightarrow> int \<Rightarrow> int option res" where
  "bwd_peer style stage_num real_stage_num stage =
     (if stage \<le> 0 then Inr None
      else rbind (stage_to_rank style stage_num real_stage_num (stage - 1)) (\<lambda>peer.
           rbind (stage_to_rank style stage_num real_stage_num stage) (\<lambda>own.
             Inr (if peer \<noteq> own then Some peer else None))))"

definition insert_leaf :: "string \<Rightarrow> nat \<Rightarrow> nat \<Rightarrow> int \<Rightarrow> meta_step \<Rightarrow> order list \<Rightarrow> order list res" where
  "insert_leaf style n R rank step sched =
     (if step_type step = FWD then
        (case stage_index step of
           None \<Rightarrow> Inl TypeError
         | Some i \<Rightarrow> rbind (fwd_peer style n R i) (\<lambda>p. case p of
             None \<Rightarrow> Inr sched
           | Some peer \<Rightarrow>
               rbind (append_to rank (Some (MetaStep (micro_index step) DATA_SEND (Some i) [] [])) sched) (\<lambda>s1.
               rbind (append_to rank (Some (MetaStep (micro_index step) FWD_SEND (Some i) [] [])) s1) (\<lambda>s2.
               rbind (append_to peer (Some (MetaStep (micro_index step) DATA_RECV (Some (i + 1)) [] [])) s2) (\<lambda>s3.
               append_to peer (Some (MetaStep (micro_index step) FWD_RECV (Some (i + 1)) [] [])) s3)))))
      else if step_type step = BWD then
        (case stage_index step of
           None \<Rightarrow> Inl TypeError
         | Some i \<Rightarrow> rbind (bwd_peer style n R i) (\<lambda>p. case p of
             None \<Rightarrow> Inr sched
           | Some peer \<Rightarrow>
               rbind (append_to rank (Some (MetaStep (micro_index step) BWD_SEND (Some i) [] [])) sched) (\<lambda>s1.
               append_to peer (Some (MetaStep (micro_index step) BWD_RECV (Some (i - 1)) [] [])) s1)))
      else Inr sched)"

text \<open>\<open>_insert_comms_for_step\<close>: an overlap inserts for its sub-steps, in order.\<close>

fun insert_comms :: "string \<Rightarrow> nat \<Rightarrow> nat \<Rightarrow> int \<Rightarrow> meta_step \<Rightarrow> order list \<Rightarrow> order list res" where
  "insert_comms style n R rank (MetaStep m t i subs b) sched =
     (if is_overlap t \<and> subs \<noteq> [] then rfold (\<lambda>sub. insert_comms style n R rank sub) subs sched
      else insert_leaf style n R rank (MetaStep m t i subs b) sched)"

definition emit_slot :: "slot list list \<Rightarrow> nat \<Rightarrow> nat \<Rightarrow> order list \<Rightarrow> order list" where
  "emit_slot expanded t rank sched =
     (if t < length (expanded ! rank) then
        (case expanded ! rank ! t of
           Plain a \<Rightarrow> sched[rank := sched ! rank @ [a]]
         | Phantom op _ first \<Rightarrow> if first then sched[rank := sched ! rank @ [Some op]] else sched)
      else sched)"

definition process_rank :: "string \<Rightarrow> nat \<Rightarrow> nat \<Rightarrow> slot list list \<Rightarrow> nat \<Rightarrow> nat \<Rightarrow> order list \<Rightarrow> order list res" where
  "process_rank style n R expanded t rank sched =
     (if t < length (expanded ! rank) then
        (case expanded ! rank ! t of
           Plain None \<Rightarrow> Inr sched
         | Plain (Some step) \<Rightarrow> insert_comms style n R (int rank) step sched
         | Phantom _ sub _ \<Rightarrow> insert_comms style n R (int rank) sub sched)
      else Inr sched)"

definition process_rank_items :: "string \<Rightarrow> nat \<Rightarrow> nat \<Rightarrow> slot list list \<Rightarrow> nat \<Rightarrow> order list \<Rightarrow> order list res" where
  "process_rank_items style n R expanded t sched =
     rfold (process_rank style n R expanded t) (filter even [0..<R] @ filter odd [0..<R]) sched"

definition scan_column :: "string \<Rightarrow> nat \<Rightarrow> nat \<Rightarrow> slot list list \<Rightarrow> nat \<Rightarrow> order list \<Rightarrow> order list res" where
  "scan_column style n R expanded t sched =
     process_rank_items style n R expanded t (fold (emit_slot expanded t) [0..<R] sched)"

definition column_scan_insert_comms :: "string \<Rightarrow> nat \<Rightarrow> nat \<Rightarrow> slot list list \<Rightarrow> order list res" where
  "column_scan_insert_comms style n R expanded =
     (if expanded = [] then Inl ValueError
      else rfold (scan_column style n R expanded) [0..<Max (set (map length expanded))] (replicate R []))"

definition loads_for :: "meta_step option \<Rightarrow> order" where
  "loads_for a =
     (case a of
        None \<Rightarrow> []
      | Some step \<Rightarrow>
          if step_type step = FWD then [Some (MetaStep (micro_index step) DATA_LOAD (stage_index step) [] [])]
          else if is_overlap (step_type step) then
            map (\<lambda>sub. Some (MetaStep (micro_index sub) DATA_LOAD (stage_index sub) [] []))
              (filter (\<lambda>sub. step_type sub = FWD) (sub_steps step))
          else [])"

definition insert_dataload_before_fwd :: "order list \<Rightarrow> order list" where
  "insert_dataload_before_fwd schedule = map (\<lambda>steps. concat (map (\<lambda>a. loads_for a @ [a]) steps)) schedule"

definition add_send_recv :: "order list \<Rightarrow> nat \<Rightarrow> nat \<Rightarrow> string \<Rightarrow> order list res" where
  "add_send_recv scheduler stage_num real_stage_num style =
     rbind (expand_overlap_slots scheduler real_stage_num) (\<lambda>expanded.
     rbind (column_scan_insert_comms style stage_num real_stage_num expanded) (\<lambda>schedule.
       Inr (insert_dataload_before_fwd schedule)))"

section \<open>Links\<close>

text \<open>
  What rank \<open>a\<close> sends to rank \<open>b\<close> and what \<open>b\<close> receives from \<open>a\<close>, in order: the kind, the
  micro-batch and the receiving stage.
\<close>

datatype transfer_kind = DataKind | FwdKind | BwdKind

type_synonym transfer = "transfer_kind \<times> int option \<times> int"

definition rank_at :: "string \<Rightarrow> nat \<Rightarrow> nat \<Rightarrow> int \<Rightarrow> int" where
  "rank_at style n R i = (case stage_to_rank style n R i of Inr r \<Rightarrow> r | Inl _ \<Rightarrow> -1)"

definition sent_to :: "(int \<Rightarrow> int) \<Rightarrow> int \<Rightarrow> meta_step option \<Rightarrow> transfer list" where
  "sent_to rk b a =
     (case a of
        Some (MetaStep m t (Some i) _ _) \<Rightarrow>
          (case t of
             DATA_SEND \<Rightarrow> if rk (i + 1) = b then [(DataKind, m, i + 1)] else []
           | FWD_SEND \<Rightarrow> if rk (i + 1) = b then [(FwdKind, m, i + 1)] else []
           | BWD_SEND \<Rightarrow> if rk (i - 1) = b then [(BwdKind, m, i - 1)] else []
           | _ \<Rightarrow> [])
      | _ \<Rightarrow> [])"

definition received_from :: "(int \<Rightarrow> int) \<Rightarrow> int \<Rightarrow> meta_step option \<Rightarrow> transfer list" where
  "received_from rk r a =
     (case a of
        Some (MetaStep m t (Some i) _ _) \<Rightarrow>
          (case t of
             DATA_RECV \<Rightarrow> if rk (i - 1) = r then [(DataKind, m, i)] else []
           | FWD_RECV \<Rightarrow> if rk (i - 1) = r then [(FwdKind, m, i)] else []
           | BWD_RECV \<Rightarrow> if rk (i + 1) = r then [(BwdKind, m, i)] else []
           | _ \<Rightarrow> [])
      | _ \<Rightarrow> [])"

definition link_out :: "(int \<Rightarrow> int) \<Rightarrow> int \<Rightarrow> order \<Rightarrow> transfer list" where
  "link_out rk b order = concat (map (sent_to rk b) order)"

definition link_in :: "(int \<Rightarrow> int) \<Rightarrow> int \<Rightarrow> order \<Rightarrow> transfer list" where
  "link_in rk r order = concat (map (received_from rk r) order)"

text \<open>What a compute step on rank \<open>r\<close> has to send to rank \<open>b\<close>.\<close>

definition due :: "(int \<Rightarrow> int) \<Rightarrow> nat \<Rightarrow> int \<Rightarrow> int \<Rightarrow> meta_step \<Rightarrow> transfer list" where
  "due rk n r b leaf =
     (case stage_index leaf of
        None \<Rightarrow> []
      | Some i \<Rightarrow>
          if step_type leaf = FWD \<and> i < int n - 1 \<and> rk (i + 1) = b \<and> b \<noteq> r
          then [(DataKind, micro_index leaf, i + 1), (FwdKind, micro_index leaf, i + 1)]
          else if step_type leaf = BWD \<and> 0 < i \<and> rk (i - 1) = b \<and> b \<noteq> r
          then [(BwdKind, micro_index leaf, i - 1)]
          else [])"

definition is_comm :: "meta_step option \<Rightarrow> bool" where
  "is_comm a \<longleftrightarrow> (case a of None \<Rightarrow> False | Some s \<Rightarrow>
     step_type s \<in> {DATA_SEND, DATA_RECV, FWD_SEND, FWD_RECV, BWD_SEND, BWD_RECV})"

definition is_load :: "meta_step option \<Rightarrow> bool" where
  "is_load a \<longleftrightarrow> (case a of None \<Rightarrow> False | Some s \<Rightarrow> step_type s = DATA_LOAD)"

text \<open>
  The placement gives every stage a rank; every forward and backward of a rank is of one of its
  stages; overlaps pair two steps; and the schedule is pure compute.
\<close>

definition ranks_ok :: "string \<Rightarrow> nat \<Rightarrow> nat \<Rightarrow> bool" where
  "ranks_ok style n R \<longleftrightarrow> (\<forall>i. 0 \<le> i \<and> i < int n \<longrightarrow>
     (\<exists>r. stage_to_rank style n R i = Inr r \<and> 0 \<le> r \<and> r < int R))"

definition placed_leaf :: "string \<Rightarrow> nat \<Rightarrow> nat \<Rightarrow> int \<Rightarrow> meta_step \<Rightarrow> bool" where
  "placed_leaf style n R r leaf \<longleftrightarrow> (step_type leaf = FWD \<or> step_type leaf = BWD \<longrightarrow>
     (case stage_index leaf of None \<Rightarrow> False | Some i \<Rightarrow> 0 \<le> i \<and> i < int n \<and> rank_at style n R i = r))"

definition compute_order :: "string \<Rightarrow> nat \<Rightarrow> nat \<Rightarrow> int \<Rightarrow> order \<Rightarrow> bool" where
  "compute_order style n R r order \<longleftrightarrow> (\<forall>a \<in> set order. \<not> is_comm a \<and> \<not> is_load a \<and>
     (\<forall>leaf \<in> set (iter_leaf_meta_steps a). placed_leaf style n R r leaf) \<and>
     (case a of None \<Rightarrow> True | Some s \<Rightarrow> is_overlap (step_type s) \<longrightarrow> length (sub_steps s) = 2))"

lemma link_simps [simp]:
  "link_out rk b [] = []" "link_out rk b (xs @ ys) = link_out rk b xs @ link_out rk b ys"
  "link_in rk b [] = []" "link_in rk b (xs @ ys) = link_in rk b xs @ link_in rk b ys"
  "link_out rk b (a # xs) = sent_to rk b a @ link_out rk b xs"
  "link_in rk b (a # xs) = received_from rk b a @ link_in rk b xs"
  by (simp_all add: link_out_def link_in_def)

lemma no_comm_no_link: "\<not> is_comm a \<Longrightarrow> sent_to rk b a = [] \<and> received_from rk b a = []"
  by (auto simp: is_comm_def sent_to_def received_from_def
      split: option.splits meta_step.splits meta_step_type.splits)

lemma insert_comms_leaves: "insert_comms style n R r s sched = rfold (insert_leaf style n R r) (leaf_steps s) sched"
proof (induction s arbitrary: sched)
  case (MetaStep m t i subs b)
  have "rfold (\<lambda>sub. insert_comms style n R r sub) xs sched = rfold (insert_leaf style n R r) (concat (map leaf_steps xs)) sched"
    if "set xs \<subseteq> set subs" for xs sched
    using that
  proof (induction xs arbitrary: sched)
    case (Cons x xs)
    then show ?case using MetaStep by (auto simp: rfold_append intro!: rbind_cong)
  qed simp
  from this [of subs sched] show ?case by auto
qed

section \<open>The invariant of the scan\<close>

definition dues :: "(int \<Rightarrow> int) \<Rightarrow> nat \<Rightarrow> nat \<Rightarrow> nat \<Rightarrow> meta_step list \<Rightarrow> transfer list" where
  "dues rk n a b leaves = concat (map (due rk n (int a) (int b)) leaves)"

lemma dues_simps [simp]:
  "dues rk n a b [] = []" "dues rk n a b (xs @ ys) = dues rk n a b xs @ dues rk n a b ys"
  "dues rk n a b (x # xs) = due rk n (int a) (int b) x @ dues rk n a b xs"
  by (simp_all add: dues_def)

text \<open>Nothing is sent before the step that produces it.\<close>

definition timely :: "(int \<Rightarrow> int) \<Rightarrow> nat \<Rightarrow> nat \<Rightarrow> nat \<Rightarrow> order \<Rightarrow> bool" where
  "timely rk n a b order \<longleftrightarrow>
     (\<forall>done. prefix done order \<longrightarrow> prefix (link_out rk (int b) done) (dues rk n a b (order_leaves done)))"

lemma timely_Nil: "timely rk n a b []"
  by (simp add: timely_def)

lemma timely_whole: "timely rk n a b order \<Longrightarrow> prefix (link_out rk (int b) order) (dues rk n a b (order_leaves order))"
  by (simp add: timely_def)

lemma timely_snoc:
  "timely rk n a b order \<Longrightarrow>
   prefix (link_out rk (int b) (order @ [x])) (dues rk n a b (order_leaves (order @ [x]))) \<Longrightarrow>
     timely rk n a b (order @ [x])"
  unfolding timely_def prefix_snoc by blast

lemma timely_quiet: "timely rk n a b order \<Longrightarrow> sent_to rk (int b) x = [] \<Longrightarrow> timely rk n a b (order @ [x])"
  using timely_whole [of rk n a b order] by (intro timely_snoc) (auto intro: prefix_order.trans)

definition scan_inv :: "(int \<Rightarrow> int) \<Rightarrow> nat \<Rightarrow> nat \<Rightarrow> (nat \<Rightarrow> meta_step list) \<Rightarrow> (nat \<Rightarrow> order) \<Rightarrow> order list \<Rightarrow> bool" where
  "scan_inv rk n R P E sched \<longleftrightarrow> length sched = R \<and>
     (\<forall>r < R. filter (\<lambda>x. \<not> is_comm x) (sched ! r) = E r) \<and>
     (\<forall>a < R. \<forall>b < R. a \<noteq> b \<longrightarrow> link_out rk (int b) (sched ! a) = dues rk n a b (P a) \<and>
        link_in rk (int a) (sched ! b) = dues rk n a b (P a) \<and> timely rk n a b (sched ! a))"

lemma scan_invD:
  assumes "scan_inv rk n R P E sched"
  shows "length sched = R" "r < R \<Longrightarrow> filter (\<lambda>x. \<not> is_comm x) (sched ! r) = E r"
    "a < R \<Longrightarrow> b < R \<Longrightarrow> a \<noteq> b \<Longrightarrow> link_out rk (int b) (sched ! a) = dues rk n a b (P a)"
    "a < R \<Longrightarrow> b < R \<Longrightarrow> a \<noteq> b \<Longrightarrow> link_in rk (int a) (sched ! b) = dues rk n a b (P a)"
    "a < R \<Longrightarrow> b < R \<Longrightarrow> a \<noteq> b \<Longrightarrow> timely rk n a b (sched ! a)"
  using assms by (simp_all add: scan_inv_def)

lemma comm_no_due: "is_comm x \<Longrightarrow> dues rk n a b (iter_leaf_meta_steps x) = []"
proof -
  assume "is_comm x"
  then obtain m t i subs bp where x: "x = Some (MetaStep m t i subs bp)"
    and t: "t \<in> {DATA_SEND, DATA_RECV, FWD_SEND, FWD_RECV, BWD_SEND, BWD_RECV}"
    by (auto simp: is_comm_def split: option.splits) (metis meta_step.collapse)+
  then have "\<not> is_overlap t" by (auto simp: is_overlap_def)
  then show ?thesis using x t by (auto simp: iter_leaf_meta_steps_def due_def split: option.split)
qed

lemma dues_filter: "dues rk n a b (order_leaves (filter (\<lambda>x. \<not> is_comm x) xs)) = dues rk n a b (order_leaves xs)"
  by (induction xs) (simp_all add: comm_no_due)

lemma scan_inv_emit:
  assumes inv: "scan_inv rk n R P E sched" and "r < R" "\<not> is_comm x"
  shows "scan_inv rk n R P (E(r := E r @ [x])) (sched[r := sched ! r @ [x]])"
  using assms scan_invD [OF inv] no_comm_no_link [OF assms(3)] timely_quiet
  unfolding scan_inv_def by (auto simp: nth_list_update)

text \<open>A transfer: the same items at the end of the sender's and of the receiver's order.\<close>

lemma scan_inv_transfer:
  assumes inv: "scan_inv rk n R P E sched" and r: "r < R" "p < R" "p \<noteq> r"
    and comm: "\<forall>x \<in> set (xs @ ys). is_comm x"
    and out: "\<And>b. link_out rk b xs = (if b = int p then due rk n (int r) (int p) leaf else [])" "\<And>b. link_in rk b xs = []"
    and inn: "\<And>a. link_in rk a ys = (if a = int r then due rk n (int r) (int p) leaf else [])" "\<And>a. link_out rk a ys = []"
    and other: "\<And>b. b \<noteq> int p \<Longrightarrow> due rk n (int r) b leaf = []"
    and early: "prefix (P r @ [leaf]) (order_leaves (E r))"
  shows "scan_inv rk n R (P(r := P r @ [leaf])) E (sched[r := sched ! r @ xs, p := sched ! p @ ys])"
proof -
  let ?s = "sched[r := sched ! r @ xs, p := sched ! p @ ys]"
  note D = scan_invD [OF inv]
  have nth: "?s ! a = (if a = p then sched ! p @ ys else if a = r then sched ! r @ xs else sched ! a)" if "a < R" for a
    using that D(1) r by (simp add: nth_list_update)
  have f: "filter (\<lambda>x. \<not> is_comm x) xs = []" "filter (\<lambda>x. \<not> is_comm x) ys = []"
    using comm by (auto simp: filter_empty_conv)
  have late: "timely rk n a b (sched ! a @ zs)"
    if ab: "a < R" "b < R" "a \<noteq> b" and zs: "\<And>us. prefix us zs \<Longrightarrow> prefix (link_out rk (int b) (sched ! a @ us)) (dues rk n a b (order_leaves (E a)))"
    for a b zs
  proof -
    have "prefix (link_out rk (int b) d) (dues rk n a b (order_leaves d))" if d: "prefix d (sched ! a @ zs)" for d
    proof (cases "prefix d (sched ! a)")
      case True
      then show ?thesis using D(5) [OF ab] by (simp add: timely_def)
    next
      case False
      then obtain us where us: "d = sched ! a @ us" "prefix us zs" using d by (auto simp: prefix_append)
      have "prefix (dues rk n a b (order_leaves (E a))) (dues rk n a b (order_leaves d))"
        using dues_filter [of rk n a b "sched ! a"] D(2) [OF ab(1)] us(1) by simp
      then show ?thesis using zs [OF us(2)] us(1) by (auto intro: prefix_order.trans)
    qed
    then show ?thesis by (simp add: timely_def)
  qed
  have due_ok: "prefix (dues rk n r b (P r @ [leaf])) (dues rk n r b (order_leaves (E r)))" for b
    using early unfolding prefix_def by auto
  have sender: "timely rk n r b (sched ! r @ xs)" if b: "b < R" "r \<noteq> b" for b
  proof (rule late [OF r(1) b])
    fix us assume "prefix us xs"
    then have "prefix (link_out rk (int b) (sched ! r @ us)) (link_out rk (int b) (sched ! r @ xs))"
      by (auto simp: prefix_def)
    also have "link_out rk (int b) (sched ! r @ xs) = dues rk n r b (P r @ [leaf])"
      using D(3) [OF r(1) b] out(1) [of "int b"] other [of "int b"] by auto
    finally show "prefix (link_out rk (int b) (sched ! r @ us)) (dues rk n r b (order_leaves (E r)))"
      using due_ok prefix_order.trans by blast
  qed
  have receiver: "timely rk n p b (sched ! p @ ys)" if b: "b < R" "p \<noteq> b" for b
  proof (rule late [OF r(2) b])
    fix us assume "prefix us ys"
    then obtain vs where "ys = us @ vs" by (auto simp: prefix_def)
    then have "link_out rk (int b) us = []" using inn(2) [of "int b"] by simp
    then show "prefix (link_out rk (int b) (sched ! p @ us)) (dues rk n p b (order_leaves (E p)))"
      using timely_whole [OF D(5) [OF r(2) b]] dues_filter [of rk n p b "sched ! p"] D(2) [OF r(2)] by simp
  qed
  show ?thesis
    unfolding scan_inv_def
  proof (intro conjI allI impI)
    show "length ?s = R" using D(1) by simp
  next
    fix a assume "a < R"
    then show "filter (\<lambda>x. \<not> is_comm x) (?s ! a) = E a" using D(2) f by (auto simp: nth)
  next
    fix a b assume ab: "a < R" "b < R" "a \<noteq> b"
    show "link_out rk (int b) (?s ! a) = dues rk n a b ((P(r := P r @ [leaf])) a)"
      using ab D(3) [OF ab] out(1) inn(2) other r(3) by (auto simp: nth)
    show "link_in rk (int a) (?s ! b) = dues rk n a b ((P(r := P r @ [leaf])) a)"
      using ab D(4) [OF ab] inn(1) out(2) other [of "int b"] r(3) by (auto simp: nth)
    show "timely rk n a b (?s ! a)"
      using ab D(5) [OF ab] sender [of b] receiver [of b] by (auto simp: nth)
  qed
qed

section \<open>Inserting for a leaf, a step, a column\<close>

lemma append_to_ok: "r < length sched \<Longrightarrow> append_to (int r) x sched = Inr (sched[r := sched ! r @ [x]])"
  by (simp add: append_to_def)

lemma rank_at_ok: "ranks_ok style n R \<Longrightarrow> 0 \<le> i \<Longrightarrow> i < int n \<Longrightarrow>
    stage_to_rank style n R i = Inr (rank_at style n R i) \<and> 0 \<le> rank_at style n R i \<and> rank_at style n R i < int R"
  unfolding ranks_ok_def rank_at_def by (metis old.sum.simps(6))

text \<open>A leaf that sends nothing.\<close>

lemma scan_inv_silent:
  assumes "scan_inv rk n R P E sched" "\<And>b. b < R \<Longrightarrow> b \<noteq> r \<Longrightarrow> due rk n (int r) (int b) leaf = []"
  shows "scan_inv rk n R (P(r := P r @ [leaf])) E sched"
  using assms unfolding scan_inv_def by auto

lemma insert_leaf_inv:
  assumes ok: "ranks_ok style n R" and inv: "scan_inv (rank_at style n R) n R P E sched" and r: "r < R"
    and placed: "placed_leaf style n R (int r) leaf"
    and early: "prefix (P r @ [leaf]) (order_leaves (E r))"
  shows "\<exists>sched'. insert_leaf style n R (int r) leaf sched = Inr sched' \<and>
    scan_inv (rank_at style n R) n R (P(r := P r @ [leaf])) E sched'"
proof -
  let ?rk = "rank_at style n R"
  have len: "length sched = R" using scan_invD(1) [OF inv] .
  show ?thesis
  proof (cases "step_type leaf = FWD \<or> step_type leaf = BWD")
    case False
    then have "due ?rk n a b leaf = []" for a b by (auto simp: due_def split: option.split)
    then show ?thesis using False scan_inv_silent [OF inv] by (auto simp: insert_leaf_def)
  next
    case True
    then obtain i where i: "stage_index leaf = Some i" "0 \<le> i" "i < int n" "?rk i = int r"
      using placed by (auto simp: placed_leaf_def split: option.splits)
    note own = rank_at_ok [OF ok i(2,3)]
    show ?thesis
    proof (cases "step_type leaf = FWD")
      case fwd: True
      show ?thesis
      proof (cases "i < int n - 1 \<and> ?rk (i + 1) \<noteq> int r")
        case False
        then have "due ?rk n (int r) b leaf = []" if "b \<noteq> int r" for b
          using fwd i that by (auto simp: due_def)
        moreover have "insert_leaf style n R (int r) leaf sched = Inr sched"
          using False fwd i own rank_at_ok [OF ok, of "i + 1"] by (auto simp: insert_leaf_def fwd_peer_def)
        ultimately show ?thesis using scan_inv_silent [OF inv] by auto
      next
        case cross: True
        define p where "p = nat (?rk (i + 1))"
        have next1: "stage_to_rank style n R (i + 1) = Inr (int p)" "p < R" "p \<noteq> r" "?rk (i + 1) = int p"
          using cross i rank_at_ok [OF ok, of "i + 1"] by (auto simp: p_def)
        let ?xs = "[Some (MetaStep (micro_index leaf) DATA_SEND (Some i) [] []), Some (MetaStep (micro_index leaf) FWD_SEND (Some i) [] [])]"
        let ?ys = "[Some (MetaStep (micro_index leaf) DATA_RECV (Some (i + 1)) [] []), Some (MetaStep (micro_index leaf) FWD_RECV (Some (i + 1)) [] [])]"
        have "insert_leaf style n R (int r) leaf sched = Inr (sched[r := sched ! r @ ?xs, p := sched ! p @ ?ys])"
          using fwd i cross own next1 r len by (simp add: insert_leaf_def fwd_peer_def append_to_ok)
        moreover have "scan_inv ?rk n R (P(r := P r @ [leaf])) E (sched[r := sched ! r @ ?xs, p := sched ! p @ ?ys])"
          by (rule scan_inv_transfer [OF inv r next1(2,3) _ _ _ _ _ _ early])
            (use fwd i cross next1 in \<open>auto simp: is_comm_def sent_to_def received_from_def due_def\<close>)
        ultimately show ?thesis by blast
      qed
    next
      case False
      then have bwd: "step_type leaf = BWD" using True by simp
      show ?thesis
      proof (cases "0 < i \<and> ?rk (i - 1) \<noteq> int r")
        case False
        then have "due ?rk n (int r) b leaf = []" if "b \<noteq> int r" for b
          using bwd i that by (auto simp: due_def)
        moreover have "insert_leaf style n R (int r) leaf sched = Inr sched"
          using False bwd i own rank_at_ok [OF ok, of "i - 1"] by (auto simp: insert_leaf_def bwd_peer_def)
        ultimately show ?thesis using scan_inv_silent [OF inv] by auto
      next
        case cross: True
        define p where "p = nat (?rk (i - 1))"
        have next1: "stage_to_rank style n R (i - 1) = Inr (int p)" "p < R" "p \<noteq> r" "?rk (i - 1) = int p"
          using cross i rank_at_ok [OF ok, of "i - 1"] by (auto simp: p_def)
        let ?xs = "[Some (MetaStep (micro_index leaf) BWD_SEND (Some i) [] [])]"
        let ?ys = "[Some (MetaStep (micro_index leaf) BWD_RECV (Some (i - 1)) [] [])]"
        have "insert_leaf style n R (int r) leaf sched = Inr (sched[r := sched ! r @ ?xs, p := sched ! p @ ?ys])"
          using bwd i cross own next1 r len by (simp add: insert_leaf_def bwd_peer_def append_to_ok)
        moreover have "scan_inv ?rk n R (P(r := P r @ [leaf])) E (sched[r := sched ! r @ ?xs, p := sched ! p @ ?ys])"
          by (rule scan_inv_transfer [OF inv r next1(2,3) _ _ _ _ _ _ early])
            (use bwd i cross next1 in \<open>auto simp: is_comm_def sent_to_def received_from_def due_def\<close>)
        ultimately show ?thesis by blast
      qed
    qed
  qed
qed

lemma insert_leaves_inv:
  assumes ok: "ranks_ok style n R" and r: "r < R"
  shows "scan_inv (rank_at style n R) n R P E sched \<Longrightarrow>
    \<forall>leaf \<in> set leaves. placed_leaf style n R (int r) leaf \<Longrightarrow> prefix (P r @ leaves) (order_leaves (E r)) \<Longrightarrow>
    \<exists>sched'. rfold (insert_leaf style n R (int r)) leaves sched = Inr sched' \<and>
      scan_inv (rank_at style n R) n R (P(r := P r @ leaves)) E sched'"
proof (induction leaves arbitrary: P sched)
  case Nil
  then show ?case by simp
next
  case (Cons leaf leaves)
  have "prefix (P r @ [leaf]) (order_leaves (E r))"
    using Cons.prems(3) by (metis append.assoc append_Cons append_Nil prefixI prefix_order.trans)
  with insert_leaf_inv [OF ok Cons.prems(1) r] Cons.prems(2) obtain s1 where
    s1: "insert_leaf style n R (int r) leaf sched = Inr s1"
    "scan_inv (rank_at style n R) n R (P(r := P r @ [leaf])) E s1" by auto
  have eq: "(P(r := P r @ [leaf]))(r := (P(r := P r @ [leaf])) r @ leaves) = P(r := P r @ leaf # leaves)"
    by (rule ext) simp
  have "prefix ((P(r := P r @ [leaf])) r @ leaves) (order_leaves (E r))" using Cons.prems(3) by simp
  from Cons.IH [OF s1(2) _ this] Cons.prems(2) s1(1) show ?case unfolding eq by simp
qed

text \<open>What a slot emits, and the leaves whose transfers are inserted at it.\<close>

fun slot_emit :: "slot \<Rightarrow> order" where
  "slot_emit (Plain a) = [a]"
| "slot_emit (Phantom op _ first) = (if first then [Some op] else [])"

fun slot_leaves :: "slot \<Rightarrow> meta_step list" where
  "slot_leaves (Plain a) = iter_leaf_meta_steps a"
| "slot_leaves (Phantom _ sub _) = leaf_steps sub"

definition at_slot :: "(slot \<Rightarrow> 'a list) \<Rightarrow> slot list \<Rightarrow> nat \<Rightarrow> 'a list" where
  "at_slot f slots t = (if t < length slots then f (slots ! t) else [])"

definition up_to :: "(slot \<Rightarrow> 'a list) \<Rightarrow> slot list \<Rightarrow> nat \<Rightarrow> 'a list" where
  "up_to f slots t = concat (map f (take t slots))"

lemma up_to_Suc: "up_to f slots (Suc t) = up_to f slots t @ at_slot f slots t"
  by (simp add: up_to_def at_slot_def take_Suc_conv_app_nth)

lemma up_to_0 [simp]: "up_to f slots 0 = []"
  by (simp add: up_to_def)

lemma emit_column:
  assumes "distinct rs" "set rs \<subseteq> {..<R}" "scan_inv rk n R P E sched"
    and "\<And>r x. r < R \<Longrightarrow> x \<in> set (at_slot slot_emit (X ! r) t) \<Longrightarrow> \<not> is_comm x"
  shows "scan_inv rk n R P (\<lambda>r. if r \<in> set rs then E r @ at_slot slot_emit (X ! r) t else E r)
    (fold (emit_slot X t) rs sched)"
  using assms(1-3)
proof (induction rs arbitrary: sched E)
  case Nil
  then show ?case by simp
next
  case (Cons r rs)
  have r: "r < R" using Cons.prems(2) by simp
  have "scan_inv rk n R P (E(r := E r @ at_slot slot_emit (X ! r) t)) (emit_slot X t r sched)"
    using scan_inv_emit [OF Cons.prems(3) r] assms(4) [OF r] Cons.prems(3)
    by (auto simp: emit_slot_def at_slot_def split: slot.split)
  from Cons.IH [OF _ _ this] Cons.prems(1,2)
  have "scan_inv rk n R P (\<lambda>q. if q \<in> set rs then (E(r := E r @ at_slot slot_emit (X ! r) t)) q @ at_slot slot_emit (X ! q) t
      else (E(r := E r @ at_slot slot_emit (X ! r) t)) q) (fold (emit_slot X t) rs (emit_slot X t r sched))" by simp
  moreover have "(\<lambda>q. if q \<in> set rs then (E(r := E r @ at_slot slot_emit (X ! r) t)) q @ at_slot slot_emit (X ! q) t
      else (E(r := E r @ at_slot slot_emit (X ! r) t)) q) =
      (\<lambda>q. if q \<in> set (r # rs) then E q @ at_slot slot_emit (X ! q) t else E q)"
    using Cons.prems(1) by (intro ext) auto
  ultimately show ?case by simp
qed

lemma process_rank_leaves:
  "process_rank style n R X t r sched = rfold (insert_leaf style n R (int r)) (at_slot slot_leaves (X ! r) t) sched"
  by (auto simp: process_rank_def at_slot_def insert_comms_leaves iter_leaf_meta_steps_def split: slot.split option.split)

lemma process_column:
  assumes ok: "ranks_ok style n R"
    and placed: "\<And>r leaf. r < R \<Longrightarrow> leaf \<in> set (at_slot slot_leaves (X ! r) t) \<Longrightarrow> placed_leaf style n R (int r) leaf"
  shows "distinct rs \<Longrightarrow> set rs \<subseteq> {..<R} \<Longrightarrow> scan_inv (rank_at style n R) n R P E sched \<Longrightarrow>
    (\<And>r. r \<in> set rs \<Longrightarrow> prefix (P r @ at_slot slot_leaves (X ! r) t) (order_leaves (E r))) \<Longrightarrow>
    \<exists>sched'. rfold (process_rank style n R X t) rs sched = Inr sched' \<and>
      scan_inv (rank_at style n R) n R (\<lambda>r. if r \<in> set rs then P r @ at_slot slot_leaves (X ! r) t else P r) E sched'"
proof (induction rs arbitrary: sched P)
  case Nil
  then show ?case by simp
next
  case (Cons r rs)
  let ?P = "P(r := P r @ at_slot slot_leaves (X ! r) t)"
  have r: "r < R" using Cons.prems(2) by simp
  have "prefix (P r @ at_slot slot_leaves (X ! r) t) (order_leaves (E r))" by (rule Cons.prems(4)) simp
  with insert_leaves_inv [OF ok r Cons.prems(3), of "at_slot slot_leaves (X ! r) t"] placed [OF r]
  obtain s1 where s1: "process_rank style n R X t r sched = Inr s1" "scan_inv (rank_at style n R) n R ?P E s1"
    by (auto simp: process_rank_leaves)
  have "prefix (?P q @ at_slot slot_leaves (X ! q) t) (order_leaves (E q))" if "q \<in> set rs" for q
    using Cons.prems(1,4) that by auto
  with Cons.IH [OF _ _ s1(2)] Cons.prems(1,2) obtain s2 where
    s2: "rfold (process_rank style n R X t) rs s1 = Inr s2"
    "scan_inv (rank_at style n R) n R (\<lambda>q. if q \<in> set rs then ?P q @ at_slot slot_leaves (X ! q) t else ?P q) E s2"
    by auto
  moreover have "(\<lambda>q. if q \<in> set rs then ?P q @ at_slot slot_leaves (X ! q) t else ?P q) =
      (\<lambda>q. if q \<in> set (r # rs) then P q @ at_slot slot_leaves (X ! q) t else P q)"
    using Cons.prems(1) by (intro ext) auto
  ultimately show ?case using s1(1) by auto
qed

lemma scan_inv_cong:
  "scan_inv rk n R P E sched \<Longrightarrow> (\<And>r. r < R \<Longrightarrow> P r = P' r) \<Longrightarrow> (\<And>r. r < R \<Longrightarrow> E r = E' r) \<Longrightarrow>
     scan_inv rk n R P' E' sched"
  unfolding scan_inv_def by auto

text \<open>The slots of an order, and what the scan needs of them.\<close>

definition good_slots :: "string \<Rightarrow> nat \<Rightarrow> nat \<Rightarrow> nat \<Rightarrow> slot list \<Rightarrow> bool" where
  "good_slots style n R r slots \<longleftrightarrow>
     (\<forall>t. prefix (up_to slot_leaves slots t) (order_leaves (up_to slot_emit slots t))) \<and>
     (\<forall>slot \<in> set slots. (\<forall>x \<in> set (slot_emit slot). \<not> is_comm x) \<and>
        (\<forall>leaf \<in> set (slot_leaves slot). placed_leaf style n R (int r) leaf))"

lemma scan_column_inv:
  assumes ok: "ranks_ok style n R" and good: "\<And>r. r < R \<Longrightarrow> good_slots style n R r (X ! r)"
    and inv: "scan_inv (rank_at style n R) n R (\<lambda>r. up_to slot_leaves (X ! r) t) (\<lambda>r. up_to slot_emit (X ! r) t) sched"
  shows "\<exists>sched'. scan_column style n R X t sched = Inr sched' \<and>
    scan_inv (rank_at style n R) n R (\<lambda>r. up_to slot_leaves (X ! r) (Suc t)) (\<lambda>r. up_to slot_emit (X ! r) (Suc t)) sched'"
proof -
  let ?ranks = "filter even [0..<R] @ filter odd [0..<R]"
  have ranks: "distinct ?ranks" "set ?ranks = {..<R}" by auto
  have g: "\<not> is_comm x" if "r < R" "x \<in> set (at_slot slot_emit (X ! r) t)" for r x
    using good [OF that(1)] that(2) by (auto simp: good_slots_def at_slot_def split: if_splits)
  have pl: "placed_leaf style n R (int r) leaf" if "r < R" "leaf \<in> set (at_slot slot_leaves (X ! r) t)" for r leaf
    using good [OF that(1)] that(2) by (auto simp: good_slots_def at_slot_def split: if_splits)
  have e: "scan_inv (rank_at style n R) n R (\<lambda>r. up_to slot_leaves (X ! r) t) (\<lambda>r. up_to slot_emit (X ! r) (Suc t))
      (fold (emit_slot X t) [0..<R] sched)"
    by (rule scan_inv_cong [OF emit_column [where rs = "[0..<R]" and X = X and t = t, OF _ _ inv]])
      (auto simp: up_to_Suc g)
  have pre: "prefix (up_to slot_leaves (X ! r) t @ at_slot slot_leaves (X ! r) t) (order_leaves (up_to slot_emit (X ! r) (Suc t)))"
    if "r \<in> set ?ranks" for r
    using good [of r] that ranks(2) by (auto simp: good_slots_def up_to_Suc [symmetric])
  from process_column [OF ok pl ranks(1) _ e pre] obtain sched' where
    s: "rfold (process_rank style n R X t) ?ranks (fold (emit_slot X t) [0..<R] sched) = Inr sched'"
    "scan_inv (rank_at style n R) n R
      (\<lambda>r. if r \<in> set ?ranks then up_to slot_leaves (X ! r) t @ at_slot slot_leaves (X ! r) t else up_to slot_leaves (X ! r) t)
      (\<lambda>r. up_to slot_emit (X ! r) (Suc t)) sched'" by auto
  have "scan_inv (rank_at style n R) n R (\<lambda>r. up_to slot_leaves (X ! r) (Suc t)) (\<lambda>r. up_to slot_emit (X ! r) (Suc t)) sched'"
    by (rule scan_inv_cong [OF s(2)]) (auto simp: up_to_Suc ranks(2))
  then show ?thesis using s(1) by (simp add: scan_column_def process_rank_items_def)
qed

lemma scan_columns_inv:
  assumes ok: "ranks_ok style n R" and good: "\<And>r. r < R \<Longrightarrow> good_slots style n R r (X ! r)"
  shows "\<exists>sched. rfold (scan_column style n R X) [0..<T] (replicate R []) = Inr sched \<and>
    scan_inv (rank_at style n R) n R (\<lambda>r. up_to slot_leaves (X ! r) T) (\<lambda>r. up_to slot_emit (X ! r) T) sched"
proof (induction T)
  case 0
  then show ?case by (simp add: scan_inv_def timely_Nil)
next
  case (Suc T)
  then show ?case using scan_column_inv [OF ok good] by (fastforce simp: rfold_append)
qed

section \<open>The slots of a compute order\<close>

definition slots_of :: "meta_step option \<Rightarrow> slot list" where
  "slots_of a = (case expand_op a of Inr slots \<Rightarrow> slots | Inl _ \<Rightarrow> [])"

lemma slots_of_cases:
  assumes "compute_order style n R r (a # order)"
  shows "expand_op a = Inr (slots_of a) \<and>
    (slots_of a = [Plain a] \<or>
     (\<exists>op x y. a = Some op \<and> iter_leaf_meta_steps a = leaf_steps x @ leaf_steps y \<and>
        slots_of a = [Phantom op x True, Phantom op y False]))"
proof (cases a)
  case None
  then show ?thesis by (simp add: slots_of_def expand_op_def)
next
  case (Some op)
  obtain m t i subs b where op: "op = MetaStep m t i subs b" by (cases op)
  show ?thesis
  proof (cases "is_overlap t \<and> subs \<noteq> []")
    case True
    then obtain x y where "subs = [x, y]"
      using assms Some op by (auto simp: compute_order_def length_Suc_conv numeral_2_eq_2)
    then show ?thesis using True Some op
      by (simp add: slots_of_def expand_op_def py_get_def py_slot_def iter_leaf_meta_steps_def)
  next
    case False
    then show ?thesis using Some op by (auto simp: slots_of_def expand_op_def)
  qed
qed

lemma compute_order_ConsD: "compute_order style n R r (a # order) \<Longrightarrow> compute_order style n R r order"
  by (simp add: compute_order_def)

lemma slots_of_order:
  "compute_order style n R (int r) order \<Longrightarrow>
     rmap expand_op order = Inr (map slots_of order) \<and>
     good_slots style n R r (concat (map slots_of order)) \<and>
     concat (map slot_emit (concat (map slots_of order))) = order \<and>
     concat (map slot_leaves (concat (map slots_of order))) = order_leaves order"
proof (induction order)
  case Nil
  then show ?case by (simp add: good_slots_def up_to_def)
next
  case (Cons a order)
  note IH = Cons.IH [OF compute_order_ConsD [OF Cons.prems]]
  have c: "\<not> is_comm a" "\<And>leaf. leaf \<in> set (iter_leaf_meta_steps a) \<Longrightarrow> placed_leaf style n R (int r) leaf"
    using Cons.prems by (auto simp: compute_order_def)
  have pre: "prefix (up_to slot_leaves (xs @ ys) t) (order_leaves (up_to slot_emit (xs @ ys) t))"
    if "\<And>t. prefix (up_to slot_leaves ys t) (order_leaves (up_to slot_emit ys t))"
      "\<And>t. t \<le> length xs \<Longrightarrow> prefix (up_to slot_leaves xs t) (order_leaves (up_to slot_emit xs t))"
      "concat (map slot_leaves xs) = order_leaves (concat (map slot_emit xs))" for xs ys t
    using that(1) [of "t - length xs"] that(2) [of t] that(3) by (cases "t \<le> length xs") (auto simp: up_to_def)
  from slots_of_cases [OF Cons.prems] show ?case
  proof (elim conjE disjE exE)
    assume e: "expand_op a = Inr (slots_of a)" and s: "slots_of a = [Plain a]"
    have "prefix (up_to slot_leaves [Plain a] t) (order_leaves (up_to slot_emit [Plain a] t))" for t
      by (cases t) (auto simp: up_to_def)
    then have "good_slots style n R r ([Plain a] @ concat (map slots_of order))"
      using IH c pre [of "concat (map slots_of order)" "[Plain a]"] by (auto simp: good_slots_def)
    then show ?thesis using IH e s by simp
  next
    fix op x y
    assume e: "expand_op a = Inr (slots_of a)" and a: "a = Some op"
      and l: "iter_leaf_meta_steps a = leaf_steps x @ leaf_steps y"
      and s: "slots_of a = [Phantom op x True, Phantom op y False]"
    let ?s = "[Phantom op x True, Phantom op y False]"
    have "prefix (up_to slot_leaves ?s t) (order_leaves (up_to slot_emit ?s t))" for t
      using l a by (cases t; cases "t - 1") (auto simp: up_to_def)
    then have "good_slots style n R r (?s @ concat (map slots_of order))"
      using IH c a l pre [of "concat (map slots_of order)" ?s] by (auto simp: good_slots_def)
    then show ?thesis using IH e s a l by simp
  qed
qed

section \<open>Loads change no link\<close>

lemma loads_quiet: "x \<in> set (loads_for a) \<Longrightarrow> is_load x \<and> \<not> is_comm x \<and> sent_to rk b x = [] \<and> received_from rk b x = []
    \<and> dues rk n p q (iter_leaf_meta_steps x) = []"
  by (auto simp: loads_for_def is_load_def is_comm_def sent_to_def received_from_def iter_leaf_meta_steps_def due_def
      split: option.splits if_splits)

lemma quiet_links:
  "(\<And>x. x \<in> set xs \<Longrightarrow> sent_to rk b x = [] \<and> received_from rk b x = []) \<Longrightarrow> link_out rk b xs = [] \<and> link_in rk b xs = []"
  by (induction xs) auto

lemma loads_links: "link_out rk b (loads_for a) = []" "link_in rk b (loads_for a) = []"
  using quiet_links [of "loads_for a" rk b] loads_quiet [of _ a rk b] by blast+

lemma loads_dues: "\<lbrakk>\<And>x. x \<in> set xs \<Longrightarrow> x \<in> set (loads_for a)\<rbrakk> \<Longrightarrow> dues rk n p q (order_leaves xs) = []"
  using loads_quiet [of _ a rk _ n p q] by (induction xs) auto

abbreviation with_loads :: "order \<Rightarrow> order" where
  "with_loads order \<equiv> concat (map (\<lambda>a. loads_for a @ [a]) order)"

lemma with_loads_links:
  "link_out rk b (with_loads xs) = link_out rk b xs" "link_in rk b (with_loads xs) = link_in rk b xs"
  "dues rk n p q (order_leaves (with_loads xs)) = dues rk n p q (order_leaves xs)"
  by (induction xs) (simp_all add: loads_links loads_dues)

lemma with_loads_filter:
  "filter (\<lambda>x. \<not> is_comm x \<and> \<not> is_load x) (with_loads xs) = filter (\<lambda>x. \<not> is_load x) (filter (\<lambda>x. \<not> is_comm x) xs)"
proof (induction xs)
  case (Cons x xs)
  have "filter (\<lambda>x. \<not> is_comm x \<and> \<not> is_load x) (loads_for x) = []"
    using loads_quiet by (fastforce simp: filter_empty_conv)
  then show ?case using Cons by simp
qed simp

lemma timely_with_loads: "timely rk n p q xs \<Longrightarrow> timely rk n p q (with_loads xs)"
proof (induction xs rule: rev_induct)
  case Nil
  then show ?case by simp
next
  case (snoc x xs)
  have "timely rk n p q xs" using snoc.prems unfolding timely_def by (meson prefix_prefix)
  then have IH: "timely rk n p q (with_loads xs)" by (rule snoc.IH)
  have quiet: "timely rk n p q (with_loads xs @ ls)" if "set ls \<subseteq> set (loads_for x)" for ls
    using that
  proof (induction ls rule: rev_induct)
    case Nil
    then show ?case using IH by simp
  next
    case (snoc l ls)
    have "sent_to rk (int q) l = []" using loads_quiet [of l x rk "int q"] snoc.prems by auto
    then show ?case using timely_quiet [of rk n p q "with_loads xs @ ls" l] snoc by simp
  qed
  have "timely rk n p q ((with_loads xs @ loads_for x) @ [x])"
    by (rule timely_snoc [OF quiet])
      (use timely_whole [OF snoc.prems] in \<open>simp_all add: with_loads_links loads_links loads_dues\<close>)
  then show ?case by simp
qed

lemma add_send_recv_correct:
  assumes "0 < R" "length sched = R" "ranks_ok style n R"
    and "\<forall>r < R. compute_order style n R (int r) (sched ! r)"
  shows "\<exists>out. add_send_recv sched n R style = Inr out \<and> length out = R \<and>
    (\<forall>r < R. filter (\<lambda>x. \<not> is_comm x \<and> \<not> is_load x) (out ! r) = sched ! r) \<and>
    (\<forall>a < R. \<forall>b < R. a \<noteq> b \<longrightarrow>
       link_out (rank_at style n R) (int b) (out ! a) = link_in (rank_at style n R) (int a) (out ! b) \<and>
       link_out (rank_at style n R) (int b) (out ! a) = dues (rank_at style n R) n a b (order_leaves (sched ! a)) \<and>
       timely (rank_at style n R) n a b (out ! a))"
proof -
  let ?X = "map (\<lambda>r. concat (map slots_of (sched ! r))) [0..<R]"
  let ?rk = "rank_at style n R"
  note slots = slots_of_order [OF assms(4) [rule_format]]
  have exp: "expand_overlap_slots sched R = Inr ?X"
    unfolding expand_overlap_slots_def by (rule rmap_total) (use slots assms(2) in auto)
  have good: "good_slots style n R r (?X ! r)" if "r < R" for r using slots [OF that] that by simp
  define T where "T = Max (set (map length ?X))"
  from scan_columns_inv [OF assms(3) good, of T] obtain s where
    s: "rfold (scan_column style n R ?X) [0..<T] (replicate R []) = Inr s"
    "scan_inv ?rk n R (\<lambda>r. up_to slot_leaves (?X ! r) T) (\<lambda>r. up_to slot_emit (?X ! r) T) s" by blast
  have "length (?X ! r) \<le> T" if "r < R" for r
    unfolding T_def using that by (intro Max_ge) auto
  then have full: "take T (?X ! r) = ?X ! r" if "r < R" for r using that by simp
  have inv: "scan_inv ?rk n R (\<lambda>r. order_leaves (sched ! r)) (\<lambda>r. sched ! r) s"
    by (rule scan_inv_cong [OF s(2)]) (use slots full in \<open>auto simp: up_to_def\<close>)
  note D = scan_invD [OF inv]
  have "?X \<noteq> []" using assms(1) by simp
  then have "add_send_recv sched n R style = Inr (insert_dataload_before_fwd s)"
    using exp s(1) by (simp add: add_send_recv_def column_scan_insert_comms_def T_def)
  moreover have out: "insert_dataload_before_fwd s ! r = with_loads (s ! r)" if "r < R" for r
    using that D(1) by (simp add: insert_dataload_before_fwd_def)
  moreover have "filter (\<lambda>x. \<not> is_load x) (sched ! r) = sched ! r" if "r < R" for r
    using assms(4) that by (auto simp: compute_order_def filter_id_conv)
  ultimately show ?thesis
    using D timely_with_loads by (simp add: insert_dataload_before_fwd_def with_loads_links with_loads_filter)
qed

text \<open>
  C18.  For a compute schedule that places every step on the rank of its stage, the pass succeeds; it keeps every rank's
  own steps and bubbles in order; on every link from one rank to another the receives are exactly the sends, in the
  same order, and these are the transfers the sender's compute steps owe, in compute order; and
  nothing is sent before the step that produces it.
\<close>

theorem add_send_recv_links:
  assumes "0 < R" "length sched = R" "ranks_ok style n R"
    and "\<forall>r < R. compute_order style n R (int r) (sched ! r)"
  shows "\<exists>out. add_send_recv sched n R style = Inr out \<and> length out = R \<and>
    (\<forall>r < R. filter (\<lambda>x. \<not> is_comm x \<and> \<not> is_load x) (out ! r) = sched ! r) \<and>
    (\<forall>a < R. \<forall>b < R. a \<noteq> b \<longrightarrow>
       link_out (rank_at style n R) (int b) (out ! a) = link_in (rank_at style n R) (int a) (out ! b) \<and>
       link_out (rank_at style n R) (int b) (out ! a) = dues (rank_at style n R) n a b (order_leaves (sched ! a)) \<and>
       timely (rank_at style n R) n a b (out ! a))"
  using assms by (rule add_send_recv_correct)

text \<open>The example: two ranks, four stages in the loop style, an overlap and bubbles.\<close>

definition example_schedule :: "order list" where
  "example_schedule =
     [[Some (mstep 0 FWD 0), Some (mstep 0 FWD 2), None, Some (mstep 0 BWD 2), Some (mstep 0 BWD 0)],
      [None, Some (mstep 0 FWD 1), Some (mstep 0 FWD 3),
       Some (MetaStep None OVERLAP_B_F None [mstep 0 BWD 3, mstep 1 FWD 1] []), Some (mstep 0 BWD 1)]]"

lemma loop_ranks_ok: "0 < R \<Longrightarrow> ranks_ok ''loop'' n R"
  by (simp add: ranks_ok_def stage_to_rank_def)

theorem add_send_recv_links_witness:
  "\<exists>out. add_send_recv example_schedule 4 2 ''loop'' = Inr out \<and> length out = 2 \<and>
    (\<forall>r < 2. filter (\<lambda>x. \<not> is_comm x \<and> \<not> is_load x) (out ! r) = example_schedule ! r) \<and>
    (\<forall>a < 2. \<forall>b < 2. a \<noteq> b \<longrightarrow>
       link_out (rank_at ''loop'' 4 2) (int b) (out ! a) = link_in (rank_at ''loop'' 4 2) (int a) (out ! b) \<and>
       link_out (rank_at ''loop'' 4 2) (int b) (out ! a) =
         dues (rank_at ''loop'' 4 2) 4 a b (order_leaves (example_schedule ! a)) \<and>
       timely (rank_at ''loop'' 4 2) 4 a b (out ! a))"
proof (rule add_send_recv_links)
  show "\<forall>r < 2. compute_order ''loop'' 4 2 (int r) (example_schedule ! r)"
    by (simp add: example_schedule_def less_2_cases_iff compute_order_def is_comm_def is_load_def
        iter_leaf_meta_steps_def placed_leaf_def rank_at_def stage_to_rank_def)
qed (simp_all add: loop_ranks_ok example_schedule_def)

end
