(* ===== verification/PipeSwap.thy ===== *)
theory PipeSwap
  imports PipeStep "HOL-Library.Sublist"
begin

text \<open>
  The placement of activation-swap steps (\<open>core/pipeline_parallel/pipeline_swap.py\<close>): for every
  chunk whose backward is far enough from its forward, launch and wait of the offload and of the
  reload are inserted around the containers of the schedule.  The swap session and the transfers
  themselves, which work on tensors, are not modelled.
\<close>

section \<open>Compute leaves\<close>

definition MIN_SWAP_GAP :: nat where
  "MIN_SWAP_GAP = 4"

text \<open>\<open>_BeforeActionPriority\<close> and \<open>_AfterActionPriority\<close>.\<close>

definition prio_wait :: int where "prio_wait = 10"
definition prio_launch :: int where "prio_launch = 20"

definition is_comm_step :: "meta_step option \<Rightarrow> bool" where
  "is_comm_step a = (case a of None \<Rightarrow> False | Some s \<Rightarrow>
     step_type s \<in> {FWD_RECV, FWD_SEND, BWD_RECV, BWD_SEND, BATCH_SEND_RECV})"

record compute_leaf =
  leaf_of :: meta_step
  container_index :: nat
  compute_index :: nat

definition iter_compute_leaf_steps :: "meta_step option \<Rightarrow> meta_step list" where
  "iter_compute_leaf_steps a =
     (case a of
        None \<Rightarrow> []
      | Some s \<Rightarrow>
          if is_compute s then [s]
          else if is_overlap (step_type s) \<and> sub_steps s \<noteq> [] then filter is_compute (sub_steps s)
          else [])"

text \<open>The loop over the containers from position \<open>i\<close> on; \<open>k\<close> compute slots were seen.\<close>

fun collect_from :: "nat \<Rightarrow> nat \<Rightarrow> order \<Rightarrow> compute_leaf list \<times> nat list" where
  "collect_from i k [] = ([], [])"
| "collect_from i k (a # order) =
     (if iter_compute_leaf_steps a = [] then collect_from (Suc i) k order
      else let (leaves, containers) = collect_from (Suc i) (Suc k) order
           in (map (\<lambda>s. \<lparr>leaf_of = s, container_index = i, compute_index = k\<rparr>) (iter_compute_leaf_steps a) @ leaves,
               i # containers))"

definition collect_compute_leaves :: "order \<Rightarrow> compute_leaf list \<times> nat list" where
  "collect_compute_leaves order = collect_from 0 0 order"

type_synonym chunk_key = "int option \<times> int option"

type_synonym leaf_index = "(chunk_key \<times> compute_leaf) list"

definition index_leaf :: "compute_leaf \<Rightarrow> leaf_index \<times> leaf_index \<Rightarrow> leaf_index \<times> leaf_index" where
  "index_leaf leaf = (\<lambda>(fwd_index, bwd_index).
     (let step = leaf_of leaf; key = (stage_index step, micro_index step)
      in if step_type step = FWD then (AList.update key leaf fwd_index, bwd_index)
         else if step_type step = BWD \<or> step_type step = BWD_INPUT then (fwd_index, AList.update key leaf bwd_index)
         else (fwd_index, bwd_index)))"

definition index_compute_leaves :: "order \<Rightarrow> leaf_index \<times> leaf_index" where
  "index_compute_leaves order = fold index_leaf (fst (collect_compute_leaves order)) ([], [])"

section \<open>Anchors\<close>

definition comm_block_anchor :: "order \<Rightarrow> nat \<Rightarrow> nat" where
  "comm_block_anchor order index = index + length (takeWhile is_comm_step (drop (index + 1) order))"

text \<open>The send of a compute step, alone or in a batch.\<close>

definition sends_for :: "meta_step_type \<Rightarrow> meta_step \<Rightarrow> meta_step option \<Rightarrow> bool" where
  "sends_for send_type step a =
     (case a of
        None \<Rightarrow> False
      | Some s \<Rightarrow>
          step_type s = send_type \<and> stage_index s = stage_index step \<and> micro_index s = micro_index step \<or>
          step_type s = BATCH_SEND_RECV \<and> (\<exists>sub \<in> set (sub_steps s). step_type sub = send_type \<and>
            stage_index sub = stage_index step \<and> micro_index sub = micro_index step))"

definition post_compute_anchor :: "order \<Rightarrow> nat \<Rightarrow> nat" where
  "post_compute_anchor order index =
     (let fallback = comm_block_anchor order index
      in case order ! index of
           None \<Rightarrow> fallback      \<comment> \<open>not reached: a container of compute is no bubble\<close>
         | Some step \<Rightarrow>
             (case (if step_type step = FWD then Some FWD_SEND
                    else if step_type step = BWD \<or> step_type step = BWD_INPUT then Some BWD_SEND
                    else None) of
                None \<Rightarrow> fallback
              | Some send_type \<Rightarrow>
                  (case find (\<lambda>i. sends_for send_type step (order ! i)) [index + 1..<fallback + 1] of
                     None \<Rightarrow> fallback
                   | Some i \<Rightarrow> i)))"

definition is_fsdp_step :: "meta_step option \<Rightarrow> bool" where
  "is_fsdp_step a = (case a of None \<Rightarrow> False | Some s \<Rightarrow>
     step_type s \<in> {FSDP_UNSHARD, FSDP_RESHARD, FSDP_REDUCE_GRAD})"

definition unshards :: "int option \<Rightarrow> meta_step option \<Rightarrow> bool" where
  "unshards stage a = (case a of None \<Rightarrow> False | Some s \<Rightarrow> step_type s = FSDP_UNSHARD \<and> stage_index s = stage)"

definition load_launch_anchor :: "order \<Rightarrow> compute_leaf \<Rightarrow> compute_leaf \<Rightarrow> nat list \<Rightarrow> nat" where
  "load_launch_anchor order fwd_leaf bwd_leaf compute_between =
     (if \<not> (\<exists>a \<in> set order. is_fsdp_step a) then last compute_between
      else case find (\<lambda>i. unshards (stage_index (leaf_of bwd_leaf)) (order ! i))
                  (rev [container_index fwd_leaf + 1..<container_index bwd_leaf]) of
             Some i \<Rightarrow> i
           | None \<Rightarrow> container_index bwd_leaf)"

section \<open>Actions\<close>

type_synonym action = "nat \<times> int \<times> meta_step"

definition swap_step :: "meta_step_type \<Rightarrow> meta_step \<Rightarrow> meta_step" where
  "swap_step t leaf = MetaStep (micro_index leaf) t (stage_index leaf) [] []"

definition compute_between :: "nat list \<Rightarrow> compute_leaf \<Rightarrow> compute_leaf \<Rightarrow> nat list" where
  "compute_between containers fwd_leaf bwd_leaf =
     map (\<lambda>k. containers ! k) [compute_index fwd_leaf + 1..<compute_index bwd_leaf]"

text \<open>
  \<open>_chunk_swap_actions\<close>: the actions before and after containers; \<open>None\<close> for a chunk that is
  not swapped.  The gap may be negative in the code, and is then too small.
\<close>

definition chunk_swap_actions ::
  "order \<Rightarrow> compute_leaf \<Rightarrow> compute_leaf \<Rightarrow> nat list \<Rightarrow> (action list \<times> action list) option" where
  "chunk_swap_actions order fwd_leaf bwd_leaf containers =
     (if int (compute_index bwd_leaf) - int (compute_index fwd_leaf) < int MIN_SWAP_GAP then None
      else let between = compute_between containers fwd_leaf bwd_leaf; leaf = leaf_of fwd_leaf
      in if between = [] then None
         else Some
           ([(load_launch_anchor order fwd_leaf bwd_leaf between, prio_launch, swap_step SWAP_LAUNCH_LOAD leaf),
             (container_index bwd_leaf, prio_wait, swap_step SWAP_WAIT_LOAD leaf)],
            [(container_index fwd_leaf, prio_launch, swap_step SWAP_LAUNCH_OFFLOAD leaf),
             (post_compute_anchor order (between ! 0), prio_wait, swap_step SWAP_WAIT_OFFLOAD leaf)]))"

definition collect_swap_actions :: "order \<Rightarrow> action list \<times> action list" where
  "collect_swap_actions order =
     (let (fwd_index, bwd_index) = index_compute_leaves order;
          containers = snd (collect_compute_leaves order);
          chunks = map (\<lambda>(key, fwd_leaf).
            case map_of bwd_index key of
              None \<Rightarrow> None
            | Some bwd_leaf \<Rightarrow> chunk_swap_actions order fwd_leaf bwd_leaf containers) fwd_index;
          actions = map the (filter (\<lambda>c. c \<noteq> None) chunks)
      in (concat (map fst actions), concat (map snd actions)))"

text \<open>The actions at one index, by descending priority; equal priorities keep their order.\<close>

definition steps_at :: "action list \<Rightarrow> nat \<Rightarrow> order" where
  "steps_at actions index =
     map (\<lambda>(_, _, step). Some step)
       (sort_key (\<lambda>(_, priority, _). - priority) (filter (\<lambda>(anchor, _, _). anchor = index) actions))"

definition inject_pipeline_swap_steps :: "order \<Rightarrow> order" where
  "inject_pipeline_swap_steps order =
     (let (before_steps, after_steps) = collect_swap_actions order
      in concat (map (\<lambda>(index, a). steps_at before_steps index @ [a] @ steps_at after_steps index)
           (enumerate 0 order)))"

section \<open>Containers\<close>

definition leaf_at :: "nat \<Rightarrow> nat \<Rightarrow> order \<Rightarrow> nat list \<Rightarrow> compute_leaf \<Rightarrow> bool" where
  "leaf_at i k order containers leaf \<longleftrightarrow>
     (\<exists>j c. compute_index leaf = k + j \<and> j < length containers \<and> containers ! j = i + c \<and>
        container_index leaf = i + c \<and> c < length order \<and> leaf_of leaf \<in> set (iter_compute_leaf_steps (order ! c)))"

definition container_at :: "nat \<Rightarrow> order \<Rightarrow> nat \<Rightarrow> bool" where
  "container_at i order c \<longleftrightarrow> (\<exists>d. c = i + d \<and> d < length order \<and> iter_compute_leaf_steps (order ! d) \<noteq> [])"

lemma leaf_at_skip: "leaf_at (Suc i) k order cs leaf \<Longrightarrow> leaf_at i k (a # order) cs leaf"
proof -
  assume "leaf_at (Suc i) k order cs leaf"
  then obtain j c where "compute_index leaf = k + j" "j < length cs" "cs ! j = Suc i + c" "container_index leaf = Suc i + c"
    "c < length order" "leaf_of leaf \<in> set (iter_compute_leaf_steps (order ! c))" unfolding leaf_at_def by blast
  then show ?thesis unfolding leaf_at_def by (intro exI [of _ j] exI [of _ "Suc c"]) simp
qed

lemma leaf_at_next: "leaf_at (Suc i) (Suc k) order cs leaf \<Longrightarrow> leaf_at i k (a # order) (i # cs) leaf"
proof -
  assume "leaf_at (Suc i) (Suc k) order cs leaf"
  then obtain j c where "compute_index leaf = Suc k + j" "j < length cs" "cs ! j = Suc i + c" "container_index leaf = Suc i + c"
    "c < length order" "leaf_of leaf \<in> set (iter_compute_leaf_steps (order ! c))" unfolding leaf_at_def by blast
  then show ?thesis unfolding leaf_at_def by (intro exI [of _ "Suc j"] exI [of _ "Suc c"]) simp
qed

lemma container_at_next: "container_at (Suc i) order c \<Longrightarrow> container_at i (a # order) c"
proof -
  assume "container_at (Suc i) order c"
  then obtain d where "c = Suc i + d" "d < length order" "iter_compute_leaf_steps (order ! d) \<noteq> []"
    unfolding container_at_def by blast
  then show ?thesis unfolding container_at_def by (intro exI [of _ "Suc d"]) simp
qed

lemma collect_from_props:
  "collect_from i k order = (leaves, containers) \<Longrightarrow>
     sorted_wrt (<) containers \<and> (\<forall>c \<in> set containers. container_at i order c) \<and>
     (\<forall>leaf \<in> set leaves. leaf_at i k order containers leaf)"
proof (induction i k order arbitrary: leaves containers rule: collect_from.induct)
  case (1 i k)
  then show ?case by simp
next
  case (2 i k a order)
  show ?case
  proof (cases "iter_compute_leaf_steps a = []")
    case True
    then have "collect_from (Suc i) k order = (leaves, containers)" using 2(3) by simp
    from 2(1) [OF True this] show ?thesis using leaf_at_skip container_at_next by blast
  next
    case False
    obtain ls cs where r: "collect_from (Suc i) (Suc k) order = (ls, cs)" by force
    then have out: "leaves = map (\<lambda>s. \<lparr>leaf_of = s, container_index = i, compute_index = k\<rparr>) (iter_compute_leaf_steps a) @ ls"
      "containers = i # cs" using 2(3) False by auto
    note IH = 2(2) [OF False r]
    have "\<forall>c \<in> set cs. i < c" using IH unfolding container_at_def by fastforce
    moreover have "container_at i (a # order) i" using False unfolding container_at_def by (intro exI [of _ 0]) simp
    moreover have "leaf_at i k (a # order) (i # cs) \<lparr>leaf_of = s, container_index = i, compute_index = k\<rparr>"
      if "s \<in> set (iter_compute_leaf_steps a)" for s
      using that unfolding leaf_at_def by (intro exI [of _ 0]) simp
    ultimately show ?thesis using IH container_at_next leaf_at_next unfolding out by auto
  qed
qed

lemma leaves_indexed:
  assumes "index_compute_leaves order = (fwd_index, bwd_index)"
  shows "map_of fwd_index key = Some leaf \<Longrightarrow> leaf \<in> set (fst (collect_compute_leaves order))"
    "map_of bwd_index key = Some leaf \<Longrightarrow> leaf \<in> set (fst (collect_compute_leaves order))"
    "map_of fwd_index key = Some leaf \<Longrightarrow>
       key = (stage_index (leaf_of leaf), micro_index (leaf_of leaf)) \<and> step_type (leaf_of leaf) = FWD"
    "map_of bwd_index key = Some leaf \<Longrightarrow>
       key = (stage_index (leaf_of leaf), micro_index (leaf_of leaf)) \<and> step_type (leaf_of leaf) \<in> {BWD, BWD_INPUT}"
proof -
  define I where "I f b leaves \<longleftrightarrow> (\<forall>key leaf. (map_of f key = Some leaf \<longrightarrow>
      leaf \<in> leaves \<and> key = (stage_index (leaf_of leaf), micro_index (leaf_of leaf)) \<and> step_type (leaf_of leaf) = FWD) \<and>
    (map_of b key = Some leaf \<longrightarrow>
      leaf \<in> leaves \<and> key = (stage_index (leaf_of leaf), micro_index (leaf_of leaf)) \<and> step_type (leaf_of leaf) \<in> {BWD, BWD_INPUT}))"
    for f b :: leaf_index and leaves
  have "I f b L \<Longrightarrow> set ls \<subseteq> L \<Longrightarrow> fold index_leaf ls (f, b) = (f', b') \<Longrightarrow> I f' b' L" for ls f b f' b' L
  proof (induction ls arbitrary: f b)
    case (Cons l ls)
    obtain f1 b1 where fb: "index_leaf l (f, b) = (f1, b1)" by force
    have l: "l \<in> L" using Cons.prems(2) by simp
    let ?k = "(stage_index (leaf_of l), micro_index (leaf_of l))"
    consider "step_type (leaf_of l) = FWD" "f1 = AList.update ?k l f" "b1 = b"
      | "step_type (leaf_of l) = BWD \<or> step_type (leaf_of l) = BWD_INPUT" "f1 = f" "b1 = AList.update ?k l b"
      | "f1 = f" "b1 = b"
      using fb by (auto simp: index_leaf_def Let_def split: if_splits)
    then have "I f1 b1 L"
    proof cases
      case 1
      then show ?thesis using Cons.prems(1) l unfolding I_def by (simp add: update_conv')
    next
      case 2
      then show ?thesis using Cons.prems(1) l unfolding I_def by (simp add: update_conv')
    next
      case 3
      then show ?thesis using Cons.prems(1) by simp
    qed
    then show ?case using Cons fb by simp
  qed simp
  from this [of "[]" "[]" "set (fst (collect_compute_leaves order))" "fst (collect_compute_leaves order)" fwd_index bwd_index]
  have "I fwd_index bwd_index (set (fst (collect_compute_leaves order)))"
    using assms by (simp add: I_def index_compute_leaves_def)
  then show "map_of fwd_index key = Some leaf \<Longrightarrow> leaf \<in> set (fst (collect_compute_leaves order))"
    "map_of bwd_index key = Some leaf \<Longrightarrow> leaf \<in> set (fst (collect_compute_leaves order))"
    "map_of fwd_index key = Some leaf \<Longrightarrow>
       key = (stage_index (leaf_of leaf), micro_index (leaf_of leaf)) \<and> step_type (leaf_of leaf) = FWD"
    "map_of bwd_index key = Some leaf \<Longrightarrow>
       key = (stage_index (leaf_of leaf), micro_index (leaf_of leaf)) \<and> step_type (leaf_of leaf) \<in> {BWD, BWD_INPUT}"
    unfolding I_def by blast+
qed

section \<open>The anchors are in place\<close>

lemma comm_no_leaf: "is_comm_step a \<Longrightarrow> iter_compute_leaf_steps a = []"
  by (auto simp: is_comm_step_def iter_compute_leaf_steps_def is_compute_def is_overlap_def split: option.splits)

lemma comm_block: "index < i \<Longrightarrow> i \<le> comm_block_anchor order index \<Longrightarrow> i < length order \<and> is_comm_step (order ! i)"
proof -
  assume i: "index < i" "i \<le> comm_block_anchor order index"
  let ?t = "takeWhile is_comm_step (drop (index + 1) order)"
  have j: "i - Suc index < length ?t" using i by (simp add: comm_block_anchor_def)
  have "length ?t \<le> length (drop (index + 1) order)" by (rule length_takeWhile_le)
  then have "?t ! (i - Suc index) = order ! i" using j i(1) by (simp add: takeWhile_nth)
  moreover have "is_comm_step (?t ! (i - Suc index))" using j nth_mem set_takeWhileD by metis
  moreover have "i < length order" using j \<open>length ?t \<le> length (drop (index + 1) order)\<close> i(1) by simp
  ultimately show ?thesis by simp
qed

lemma post_compute_anchor_bounds: "index \<le> post_compute_anchor order index \<and> post_compute_anchor order index \<le> comm_block_anchor order index"
proof -
  have f: "find P [Suc index..<Suc m] = Some i \<Longrightarrow> index \<le> i \<and> i \<le> m" for P m i
    by (auto simp: find_Some_iff simp del: upt_Suc)
  have "index \<le> comm_block_anchor order index" by (simp add: comm_block_anchor_def)
  then show ?thesis by (auto simp: post_compute_anchor_def Let_def simp del: upt_Suc dest: f split: option.split)
qed

lemma post_compute_before:
  assumes "index < c" "c < length order" "iter_compute_leaf_steps (order ! c) \<noteq> []"
  shows "post_compute_anchor order index < c"
proof (rule ccontr)
  assume "\<not> post_compute_anchor order index < c"
  then have "c \<le> comm_block_anchor order index" using post_compute_anchor_bounds [of index order] by linarith
  then show False using comm_block assms comm_no_leaf by blast
qed

section \<open>Blocks of the injected order\<close>

lemma subseq_blocks:
  "subseq is js \<Longrightarrow> (\<And>i. i \<in> set is \<Longrightarrow> subseq (g i) (f i)) \<Longrightarrow>
     subseq (concat (map g is)) (concat (map f js))"
proof (induction "is" js rule: list_emb.induct)
  case (list_emb_Nil ys)
  then show ?case by simp
next
  case (list_emb_Cons xs ys y)
  then show ?case by (auto intro: list_emb_append2)
next
  case (list_emb_Cons2 x y xs ys)
  then show ?case by (auto intro: list_emb_append_mono)
qed

lemma ascending_subseq: "sorted_wrt (<) is \<Longrightarrow> set is \<subseteq> {a..<b} \<Longrightarrow> subseq is [a..<b]"
proof (induction "is" arbitrary: a)
  case (Cons i "is")
  have split: "[a..<b] = [a..<i] @ i # [Suc i..<b]"
    using Cons.prems(2) by (metis atLeastLessThan_iff insert_subset list.simps(15) upt_conv_Cons upt_add_eq_append le_add_diff_inverse less_imp_le_nat)
  have "set is \<subseteq> {Suc i..<b}" using Cons.prems by (auto simp: Suc_le_eq)
  then have "subseq is [Suc i..<b]" using Cons.prems by (intro Cons.IH) simp_all
  then show ?case unfolding split by (simp add: list_emb_append2)
qed simp

definition block :: "order \<Rightarrow> nat \<Rightarrow> order" where
  "block order i = (let (before_steps, after_steps) = collect_swap_actions order
     in steps_at before_steps i @ [order ! i] @ steps_at after_steps i)"

lemma inject_blocks: "inject_pipeline_swap_steps order = concat (map (block order) [0..<length order])"
proof -
  have "enumerate 0 order = map (\<lambda>i. (i, order ! i)) [0..<length order]"
    by (rule nth_equalityI) (simp_all add: nth_enumerate_eq)
  then show ?thesis
    by (simp add: inject_pipeline_swap_steps_def block_def [abs_def] comp_def split: prod.split)
qed

text \<open>An action is at its anchor; of two actions at one anchor the higher priority comes first.\<close>

lemma steps_at_mem: "(i, p, s) \<in> set actions \<Longrightarrow> Some s \<in> set (steps_at actions i)"
  by (force simp: steps_at_def)

lemma sort_key_before:
  assumes "x \<in> set xs" "y \<in> set xs" "f x < (f y :: int)"
  shows "subseq [x, y] (sort_key f xs)"
proof -
  obtain us vs where split: "sort_key f xs = us @ x # vs" using assms(1) by (metis set_sort split_list)
  have "y \<notin> set us"
  proof
    assume "y \<in> set us"
    moreover have "sorted (map f (us @ x # vs))" by (metis sorted_sort_key split)
    ultimately have "f y \<le> f x" by (auto simp: sorted_append)
    then show False using assms(3) by simp
  qed
  moreover have "y \<in> set (us @ x # vs)" by (metis assms(2) set_sort split)
  ultimately have "y \<in> set vs" using assms(3) by auto
  then show ?thesis unfolding split by (intro list_emb_append2 list_emb.intros(3)) (simp_all add: subseq_singleton_left)
qed

lemma steps_at_order:
  assumes "(i, p, s) \<in> set actions" "(i, q, t) \<in> set actions" "q < p"
  shows "subseq [Some s, Some t] (steps_at actions i)"
proof -
  let ?xs = "filter (\<lambda>(anchor, _, _). anchor = i) actions"
  have "subseq [(i, p, s), (i, q, t)] (sort_key (\<lambda>(_, priority, _). - priority) ?xs)"
    by (rule sort_key_before) (use assms in auto)
  then have "subseq (map (\<lambda>(_, _, step). Some step) [(i, p, s), (i, q, t)]) (steps_at actions i)"
    unfolding steps_at_def by (rule subseq_map)
  then show ?thesis by simp
qed

lemma collected_actions:
  assumes "index_compute_leaves order = (fwd_index, bwd_index)"
    and "map_of fwd_index key = Some fl" "map_of bwd_index key = Some bl"
    and "chunk_swap_actions order fl bl (snd (collect_compute_leaves order)) = Some (bs, as)"
  shows "set bs \<subseteq> set (fst (collect_swap_actions order)) \<and> set as \<subseteq> set (snd (collect_swap_actions order))"
proof -
  have "(key, fl) \<in> set fwd_index" using assms(2) by (rule map_of_SomeD)
  then show ?thesis using assms unfolding collect_swap_actions_def by (force simp: Let_def)
qed

text \<open>
  C19.  For a chunk whose forward and backward are at least four compute slots apart, and whose stage is not
  unsharded between the forward and the next compute step, the injected order runs the forward's container,
  launches and awaits the offload, launches and awaits the reload, and then runs the backward's container, in
  this order.
\<close>

theorem swap_steps_in_order:
  assumes idx: "index_compute_leaves order = (fwd_index, bwd_index)"
    and fl: "map_of fwd_index key = Some fl" and bl: "map_of bwd_index key = Some bl"
    and gap: "compute_index fl + MIN_SWAP_GAP \<le> compute_index bl"
    and late: "\<forall>i. container_index fl < i \<and> i < snd (collect_compute_leaves order) ! (compute_index fl + 1) \<longrightarrow>
      \<not> unshards (stage_index (leaf_of bl)) (order ! i)"
  shows "subseq [order ! container_index fl, Some (swap_step SWAP_LAUNCH_OFFLOAD (leaf_of fl)),
      Some (swap_step SWAP_WAIT_OFFLOAD (leaf_of fl)), Some (swap_step SWAP_LAUNCH_LOAD (leaf_of fl)),
      Some (swap_step SWAP_WAIT_LOAD (leaf_of fl)), order ! container_index bl]
    (inject_pipeline_swap_steps order)"
proof -
  obtain leaves cs where c: "collect_compute_leaves order = (leaves, cs)" by force
  note props = collect_from_props [OF c [unfolded collect_compute_leaves_def]]
  note mem = leaves_indexed(1) [OF idx fl] leaves_indexed(2) [OF idx bl]
  let ?f = "compute_index fl" and ?b = "compute_index bl"
  have "leaf_at 0 0 order cs fl" "leaf_at 0 0 order cs bl" using props mem c by auto
  then have cf: "cs ! ?f = container_index fl" and cb: "cs ! ?b = container_index bl" "?b < length cs"
    by (auto simp: leaf_at_def)
  have mono: "cs ! i < cs ! j" if "i < j" "j < length cs" for i j
    using props that by (simp add: sorted_wrt_iff_nth_less)
  have cont: "cs ! i < length order \<and> iter_compute_leaf_steps (order ! (cs ! i)) \<noteq> []" if "i < length cs" for i
    using props that nth_mem [of i cs] by (auto simp: container_at_def)
  have fb: "?f + 4 \<le> ?b" using gap by (simp add: MIN_SWAP_GAP_def)
  define a where "a = post_compute_anchor order (cs ! (?f + 1))"
  have a: "cs ! ?f < a" "cs ! (?f + 1) \<le> a" "a < cs ! (?f + 2)"
    using post_compute_anchor_bounds [of "cs ! (?f + 1)" order] mono [of ?f "?f + 1"] fb cb(2)
      post_compute_before [of "cs ! (?f + 1)" "cs ! (?f + 2)" order] mono [of "?f + 1" "?f + 2"] cont [of "?f + 2"]
    by (auto simp: a_def)
  let ?between = "compute_between cs fl bl"
  have between: "?between \<noteq> []" "?between ! 0 = cs ! (?f + 1)" "last ?between = cs ! (?b - 1)"
    using fb by (auto simp: compute_between_def last_map)
  define l where "l = load_launch_anchor order fl bl ?between"
  have l: "a < l" "l \<le> cs ! ?b"
  proof -
    have ab: "a < cs ! (?b - 1)" "cs ! (?b - 1) < cs ! ?b"
      using a(3) mono [of "?f + 2" "?b - 1"] mono [of "?b - 1" ?b] fb cb(2) by (linarith, linarith)
    have "a < i" if i: "i \<in> {container_index fl<..<container_index bl}" "unshards (stage_index (leaf_of bl)) (order ! i)" for i
    proof (rule ccontr)
      assume "\<not> a < i"
      moreover have "\<not> i < cs ! (?f + 1)" using late i c by auto
      ultimately have "i = cs ! (?f + 1) \<or> cs ! (?f + 1) < i \<and> i \<le> comm_block_anchor order (cs ! (?f + 1))"
        using post_compute_anchor_bounds [of "cs ! (?f + 1)" order] by (auto simp: a_def)
      then have "iter_compute_leaf_steps (order ! i) \<noteq> [] \<or> is_comm_step (order ! i)"
        using comm_block cont [of "?f + 1"] fb cb(2) by auto
      then show False using i(2)
        by (auto simp: unshards_def is_comm_step_def iter_compute_leaf_steps_def is_compute_def is_overlap_def
            split: option.splits)
    qed
    moreover have "i \<in> {container_index fl<..<container_index bl} \<and> unshards (stage_index (leaf_of bl)) (order ! i)"
      if "find (\<lambda>i. unshards (stage_index (leaf_of bl)) (order ! i))
        (rev [container_index fl + 1..<container_index bl]) = Some i" for i
    proof -
      have "i \<in> set (rev [container_index fl + 1..<container_index bl]) \<and> unshards (stage_index (leaf_of bl)) (order ! i)"
        using that unfolding find_Some_iff by (metis nth_mem)
      then show ?thesis by auto
    qed
    ultimately have "a < l \<and> l \<le> container_index bl" using ab between(3) cb(1)
      by (auto simp: l_def load_launch_anchor_def split: option.split simp del: upt_Suc)
    then show "a < l" "l \<le> cs ! ?b" using cb(1) by auto
  qed
  let ?s = "\<lambda>t. swap_step t (leaf_of fl)"
  obtain before_steps after_steps where coll: "collect_swap_actions order = (before_steps, after_steps)" by force
  have "chunk_swap_actions order fl bl (snd (collect_compute_leaves order)) =
      Some ([(l, prio_launch, ?s SWAP_LAUNCH_LOAD), (container_index bl, prio_wait, ?s SWAP_WAIT_LOAD)],
        [(container_index fl, prio_launch, ?s SWAP_LAUNCH_OFFLOAD), (a, prio_wait, ?s SWAP_WAIT_OFFLOAD)])"
    using gap between c by (simp add: chunk_swap_actions_def Let_def l_def a_def)
  from collected_actions [OF idx fl bl this] coll have acts:
    "(l, prio_launch, ?s SWAP_LAUNCH_LOAD) \<in> set before_steps" "(cs ! ?b, prio_wait, ?s SWAP_WAIT_LOAD) \<in> set before_steps"
    "(cs ! ?f, prio_launch, ?s SWAP_LAUNCH_OFFLOAD) \<in> set after_steps" "(a, prio_wait, ?s SWAP_WAIT_OFFLOAD) \<in> set after_steps"
    by (auto simp: cf cb)
  have block: "block order i = steps_at before_steps i @ [order ! i] @ steps_at after_steps i" for i
    by (simp add: block_def coll)
  have blocks: "subseq [order ! (cs ! ?f), Some (?s SWAP_LAUNCH_OFFLOAD)] (block order (cs ! ?f))"
    "subseq [Some (?s SWAP_WAIT_OFFLOAD)] (block order a)"
    "subseq [Some (?s SWAP_LAUNCH_LOAD)] (block order l)"
    "subseq [Some (?s SWAP_WAIT_LOAD), order ! (cs ! ?b)] (block order (cs ! ?b))"
    using steps_at_mem [OF acts(1)] steps_at_mem [OF acts(2)] steps_at_mem [OF acts(3)] steps_at_mem [OF acts(4)]
      list_emb_append_mono [of "(=)" "[Some (?s SWAP_WAIT_LOAD)]" "steps_at before_steps (cs ! ?b)"
        "[order ! (cs ! ?b)]" "[order ! (cs ! ?b)] @ steps_at after_steps (cs ! ?b)"]
    by (auto simp: block subseq_singleton_left intro: list_emb_append2)
  have in_range: "cs ! ?f < length order" "a < length order" "l < length order" "cs ! ?b < length order"
    using cont [of ?b] cb(2) a l mono [of ?f ?b] fb by auto
  show ?thesis
  proof (cases "l = cs ! ?b")
    case False
    let ?is = "[cs ! ?f, a, l, cs ! ?b]"
    let ?g = "\<lambda>i. if i = cs ! ?f then [order ! (cs ! ?f), Some (?s SWAP_LAUNCH_OFFLOAD)]
      else if i = a then [Some (?s SWAP_WAIT_OFFLOAD)] else if i = l then [Some (?s SWAP_LAUNCH_LOAD)]
      else [Some (?s SWAP_WAIT_LOAD), order ! (cs ! ?b)]"
    have "subseq ?is [0..<length order]" using a l False in_range by (intro ascending_subseq) auto
    then have "subseq (concat (map ?g ?is)) (inject_pipeline_swap_steps order)"
      unfolding inject_blocks by (rule subseq_blocks) (use blocks in auto)
    then show ?thesis using a l False cf cb by simp
  next
    case True
    let ?is = "[cs ! ?f, a, cs ! ?b]"
    let ?g = "\<lambda>i. if i = cs ! ?f then [order ! (cs ! ?f), Some (?s SWAP_LAUNCH_OFFLOAD)]
      else if i = a then [Some (?s SWAP_WAIT_OFFLOAD)]
      else [Some (?s SWAP_LAUNCH_LOAD), Some (?s SWAP_WAIT_LOAD), order ! (cs ! ?b)]"
    have two: "subseq [Some (?s SWAP_LAUNCH_LOAD), Some (?s SWAP_WAIT_LOAD)] (steps_at before_steps (cs ! ?b))"
      using steps_at_order acts(1,2) True by (simp add: prio_launch_def prio_wait_def)
    have "subseq ([Some (?s SWAP_LAUNCH_LOAD), Some (?s SWAP_WAIT_LOAD)] @ [order ! (cs ! ?b)]) (block order (cs ! ?b))"
      unfolding block by (rule list_emb_append_mono [OF two]) simp
    moreover have "subseq ?is [0..<length order]" using a l True in_range by (intro ascending_subseq) auto
    ultimately have "subseq (concat (map ?g ?is)) (inject_pipeline_swap_steps order)"
      unfolding inject_blocks by (intro subseq_blocks) (use blocks in auto)
    then show ?thesis using a l True cf cb by simp
  qed
qed

text \<open>Four forwards and the backward of the first micro-batch.\<close>

definition swap_order :: order where
  "swap_order = map (\<lambda>m. Some (MetaStep (Some m) FWD (Some 0) [] [])) [0, 1, 2, 3] @
     [Some (MetaStep (Some 0) BWD (Some 0) [] [])]"

lemma swap_steps_in_order_witness:
  "subseq [swap_order ! 0, Some (MetaStep (Some 0) SWAP_LAUNCH_OFFLOAD (Some 0) [] []),
      Some (MetaStep (Some 0) SWAP_WAIT_OFFLOAD (Some 0) [] []), Some (MetaStep (Some 0) SWAP_LAUNCH_LOAD (Some 0) [] []),
      Some (MetaStep (Some 0) SWAP_WAIT_LOAD (Some 0) [] []), swap_order ! 4]
    (inject_pipeline_swap_steps swap_order)"
proof -
  let ?fl = "\<lparr>leaf_of = MetaStep (Some 0) FWD (Some 0) [] [], container_index = 0, compute_index = 0\<rparr>"
  let ?bl = "\<lparr>leaf_of = MetaStep (Some 0) BWD (Some 0) [] [], container_index = 4, compute_index = 4\<rparr>"
  have "map_of (fst (index_compute_leaves swap_order)) (Some 0, Some 0) = Some ?fl"
    "map_of (snd (index_compute_leaves swap_order)) (Some 0, Some 0) = Some ?bl" by code_simp+
  moreover have "unshards stage (swap_order ! i) = False" if "i < 1" for i stage
    using that by (simp add: unshards_def swap_order_def)
  moreover have "snd (collect_compute_leaves swap_order) ! 1 = 1" by code_simp
  ultimately show ?thesis
    using swap_steps_in_order [of swap_order "fst (index_compute_leaves swap_order)"
      "snd (index_compute_leaves swap_order)" "(Some 0, Some 0)" ?fl ?bl]
    by (simp add: MIN_SWAP_GAP_def swap_step_def)
qed

end
