(* ===== verification/PipeInterleaved.thy ===== *)
theory PipeInterleaved
  imports PipeComms PipePasses "HOL-Library.Sublist"
begin

text \<open>
  The interleaved 1F1B schedule (\<open>ScheduleInterleaved1F1B\<close> of \<open>core/pipeline_parallel/scheduler.py\<close>):
  the layout of the rounds, the stage an operation belongs to, the four emission loops with their
  bubbles, and the order of a rank.  The per-stage micro-batch stage_counts (\<open>defaultdict(int)\<close>) are
  functions that start at 0.  The number of ranks is positive, as in every process group.
\<close>

section \<open>The schedule\<close>

record interleaved =
  stage_num :: nat
  n_local_stages :: nat
  micro_batch_num :: nat
  less_memory :: bool
  overlap_b_f :: bool
  enable_dxdw_split :: bool

definition real_stage_num :: "interleaved \<Rightarrow> nat" where
  "real_stage_num c = stage_num c div n_local_stages c"

text \<open>\<open>_init_round_layout\<close>.\<close>

definition n_rounds :: "interleaved \<Rightarrow> nat" where
  "n_rounds c = max 1 (micro_batch_num c div real_stage_num c)"

definition round_base :: "interleaved \<Rightarrow> int" where
  "round_base c =
     (if micro_batch_num c < real_stage_num c then int (micro_batch_num c) - int (real_stage_num c)
      else int (micro_batch_num c mod real_stage_num c div n_rounds c))"

definition round_remainder :: "interleaved \<Rightarrow> nat" where
  "round_remainder c =
     (if micro_batch_num c < real_stage_num c then 0
      else micro_batch_num c mod real_stage_num c mod n_rounds c)"

definition n_microbatch_per_round :: "interleaved \<Rightarrow> int list" where
  "n_microbatch_per_round c =
     map (\<lambda>i. if i < round_remainder c then int (real_stage_num c) + round_base c + 1
       else int (real_stage_num c) + round_base c) [0..<n_rounds c]"

fun accumulate :: "int \<Rightarrow> int list \<Rightarrow> int list" where
  "accumulate a [] = []"
| "accumulate a (x # xs) = (a + x) # accumulate (a + x) xs"

definition n_microbatch_per_round_accu :: "interleaved \<Rightarrow> int list" where
  "n_microbatch_per_round_accu c =
     0 # map (\<lambda>x. x * int (n_local_stages c)) (accumulate 0 (n_microbatch_per_round c))"

text \<open>\<open>bisect.bisect_right\<close> on an ascending list.\<close>

definition bisect_right :: "int list \<Rightarrow> int \<Rightarrow> nat" where
  "bisect_right xs x = length (takeWhile (\<lambda>y. y \<le> x) xs)"

definition local_index :: "interleaved \<Rightarrow> int \<Rightarrow> int" where
  "local_index c op_index =
     (let accu_index = bisect_right (n_microbatch_per_round_accu c) op_index - 1
      in (op_index - n_microbatch_per_round_accu c ! accu_index) div n_microbatch_per_round c ! accu_index)"

definition forward_stage_index :: "interleaved \<Rightarrow> int \<Rightarrow> nat \<Rightarrow> int" where
  "forward_stage_index c op_index stage = local_index c op_index * int (real_stage_num c) + int stage"

definition backward_stage_index :: "interleaved \<Rightarrow> int \<Rightarrow> nat \<Rightarrow> int" where
  "backward_stage_index c op_index stage =
     (int (n_local_stages c) - 1 - local_index c op_index) * int (real_stage_num c) + int stage"

definition stagger :: "interleaved \<Rightarrow> nat \<Rightarrow> int" where
  "stagger c stage =
     (let depth = int (real_stage_num c) - 1 - int stage in if less_memory c then depth else 2 * depth)"

definition warmup_ops :: "interleaved \<Rightarrow> nat \<Rightarrow> int" where
  "warmup_ops c stage =
     min ((int (n_local_stages c) - 1) * n_microbatch_per_round c ! 0 + stagger c stage)
       (int (micro_batch_num c) * int (n_local_stages c))"

definition short_micro :: "interleaved \<Rightarrow> bool" where
  "short_micro c \<longleftrightarrow> micro_batch_num c < real_stage_num c"

definition trailing_bubble :: "interleaved \<Rightarrow> nat" where
  "trailing_bubble c = real_stage_num c - micro_batch_num c"

type_synonym stage_counts = "int \<Rightarrow> int"

definition bubbles :: "bool \<Rightarrow> nat \<Rightarrow> order" where
  "bubbles need_pad n = (if need_pad then replicate n None else [])"

text \<open>One pass of each emission loop; the state is the emitted operations and the stage_counts.\<close>

definition warmup_op :: "interleaved \<Rightarrow> nat \<Rightarrow> int \<Rightarrow> int \<Rightarrow> order \<times> stage_counts \<Rightarrow> order \<times> stage_counts" where
  "warmup_op c stage warmup op_idx = (\<lambda>(ops, fwd).
     (let fwd_stage_idx = forward_stage_index c op_idx stage;
          fwd_micro_idx = fwd fwd_stage_idx;
          need_pad = short_micro c \<and> fwd_micro_idx = int (micro_batch_num c) - 1 \<and>
            (op_idx \<noteq> warmup - 1 \<or> int stage = int (real_stage_num c) - 1)
      in (ops @ [Some (mstep fwd_micro_idx FWD fwd_stage_idx)] @ bubbles need_pad (trailing_bubble c),
          fwd(fwd_stage_idx := fwd_micro_idx + 1))))"

definition emit_warmup_ops :: "interleaved \<Rightarrow> nat \<Rightarrow> int \<Rightarrow> stage_counts \<Rightarrow> order \<times> stage_counts" where
  "emit_warmup_ops c stage warmup fwd = fold (warmup_op c stage warmup) [0..warmup - 1] ([], fwd)"

definition cooldown_op :: "interleaved \<Rightarrow> nat \<Rightarrow> int \<Rightarrow> int \<Rightarrow> order \<times> stage_counts \<Rightarrow> order \<times> stage_counts" where
  "cooldown_op c stage warmup op_idx = (\<lambda>(ops, bwd).
     (let bwd_stage_idx = backward_stage_index c (op_idx - warmup) stage;
          bwd_micro_idx = bwd bwd_stage_idx;
          need_pad = short_micro c \<and> bwd_micro_idx = int (micro_batch_num c) - 1
      in (ops @ [None, Some (mstep bwd_micro_idx BWD bwd_stage_idx)] @ bubbles need_pad (2 * trailing_bubble c),
          bwd(bwd_stage_idx := bwd_micro_idx + 1))))"

definition emit_cooldown_ops :: "interleaved \<Rightarrow> nat \<Rightarrow> int \<Rightarrow> int \<Rightarrow> int \<Rightarrow> stage_counts \<Rightarrow> order" where
  "emit_cooldown_ops c stage warmup fwd_bwd_ops total_ops bwd =
     fst (fold (cooldown_op c stage warmup) [warmup + fwd_bwd_ops..total_ops - 1] ([], bwd))"

definition f1b_op :: "interleaved \<Rightarrow> nat \<Rightarrow> int \<Rightarrow> int \<Rightarrow> order \<times> stage_counts \<times> stage_counts \<Rightarrow> order \<times> stage_counts \<times> stage_counts" where
  "f1b_op c stage warmup op_idx = (\<lambda>(ops, fwd, bwd).
     (let fwd_stage_idx = forward_stage_index c op_idx stage;
          fwd_micro_idx = fwd fwd_stage_idx;
          bwd_stage_idx = backward_stage_index c (op_idx - warmup) stage;
          bwd_micro_idx = bwd bwd_stage_idx;
          need_pad = short_micro c \<and> bwd_micro_idx = int (micro_batch_num c) - 1 \<and>
            int stage = int (real_stage_num c) - 1
      in (ops @ [Some (mstep fwd_micro_idx FWD fwd_stage_idx), Some (mstep bwd_micro_idx BWD bwd_stage_idx)] @
            bubbles need_pad (2 * trailing_bubble c),
          fwd(fwd_stage_idx := fwd_micro_idx + 1), bwd(bwd_stage_idx := bwd_micro_idx + 1))))"

definition emit_1f1b_ops ::
  "interleaved \<Rightarrow> nat \<Rightarrow> int \<Rightarrow> int \<Rightarrow> stage_counts \<Rightarrow> stage_counts \<Rightarrow> order \<times> stage_counts \<times> stage_counts" where
  "emit_1f1b_ops c stage warmup fwd_bwd_ops fwd bwd =
     fold (f1b_op c stage warmup) [warmup..warmup + fwd_bwd_ops - 1] ([], fwd, bwd)"

text \<open>The collected forwards and backwards of the overlapped steady state, and their pairing.\<close>

definition collect_op ::
  "interleaved \<Rightarrow> nat \<Rightarrow> int \<Rightarrow> int \<Rightarrow> (meta_step list \<times> meta_step list) \<times> stage_counts \<times> stage_counts \<Rightarrow>
     (meta_step list \<times> meta_step list) \<times> stage_counts \<times> stage_counts" where
  "collect_op c stage warmup op_idx = (\<lambda>((fwd_steps, bwd_steps), fwd, bwd).
     (let fwd_si = forward_stage_index c op_idx stage; fwd_mi = fwd fwd_si;
          bwd_si = backward_stage_index c (op_idx - warmup) stage; bwd_mi = bwd bwd_si
      in ((fwd_steps @ [mstep fwd_mi FWD fwd_si], bwd_steps @ [mstep bwd_mi BWD bwd_si]),
          fwd(fwd_si := fwd_mi + 1), bwd(bwd_si := bwd_mi + 1))))"

definition collect_fwd_bwd_steps ::
  "interleaved \<Rightarrow> nat \<Rightarrow> int \<Rightarrow> int \<Rightarrow> stage_counts \<Rightarrow> stage_counts \<Rightarrow>
     (meta_step list \<times> meta_step list) \<times> stage_counts \<times> stage_counts" where
  "collect_fwd_bwd_steps c stage fwd_bwd_ops warmup fwd bwd =
     fold (collect_op c stage warmup) [warmup..warmup + fwd_bwd_ops - 1] (([], []), fwd, bwd)"

definition pair_into_overlap_b_f :: "meta_step list \<Rightarrow> meta_step list \<Rightarrow> order" where
  "pair_into_overlap_b_f fwd_steps bwd_steps =
     (if fwd_steps = [] then [] else [Some (fwd_steps ! 0)]) @
     map (\<lambda>i. Some (MetaStep None OVERLAP_B_F None [bwd_steps ! i, fwd_steps ! (i + 1)] []))
       [0..<length bwd_steps - 1] @
     (if bwd_steps = [] then [] else [Some (last bwd_steps)])"

definition emit_1f1b_overlap_ops ::
  "interleaved \<Rightarrow> nat \<Rightarrow> int \<Rightarrow> int \<Rightarrow> stage_counts \<Rightarrow> stage_counts \<Rightarrow> order \<times> stage_counts \<times> stage_counts" where
  "emit_1f1b_overlap_ops c stage warmup fwd_bwd_ops fwd bwd =
     (let ((fwd_steps, bwd_steps), fwd', bwd') = collect_fwd_bwd_steps c stage fwd_bwd_ops warmup fwd bwd;
          need_pad = short_micro c \<and> int stage = int (real_stage_num c) - 1 \<and> bwd_steps \<noteq> [] \<and>
            micro_index (last bwd_steps) = Some (int (micro_batch_num c) - 1)
      in (pair_into_overlap_b_f fwd_steps bwd_steps @ bubbles need_pad (2 * trailing_bubble c), fwd', bwd'))"

definition construct_stage_exec_order :: "interleaved \<Rightarrow> nat \<Rightarrow> order" where
  "construct_stage_exec_order c stage =
     (let warmup = warmup_ops c stage;
          fwd_bwd_ops = int (n_local_stages c) * int (micro_batch_num c) - warmup;
          total_ops = 2 * warmup + fwd_bwd_ops;
          (warmup_order, fwd) = emit_warmup_ops c stage warmup (\<lambda>_. 0);
          bubbles_before_1f1b = max 0 (stagger c stage - int (micro_batch_num c));
          (steady_order, fwd', bwd') =
            (if overlap_b_f c then emit_1f1b_overlap_ops c stage warmup fwd_bwd_ops fwd (\<lambda>_. 0)
             else emit_1f1b_ops c stage warmup fwd_bwd_ops fwd (\<lambda>_. 0))
      in replicate stage None @ warmup_order @ replicate (nat bubbles_before_1f1b) None @
         replicate (real_stage_num c - 1 - stage) None @ steady_order @
         emit_cooldown_ops c stage warmup fwd_bwd_ops total_ops bwd')"

text \<open>\<open>construct_exec_order\<close>, after the constructor's check of the flags.\<close>

definition interleaved_order :: "interleaved \<Rightarrow> order list res" where
  "interleaved_order c =
     (if enable_dxdw_split c \<and> \<not> overlap_b_f c then Inl ValueError
      else rbind (add_send_recv (map (construct_stage_exec_order c) [0..<real_stage_num c])
        (stage_num c) (real_stage_num c) ''loop'') (\<lambda>exec_order.
        if enable_dxdw_split c
        then rmap split_dxdw_order exec_order
        else Inr exec_order))"

section \<open>Rounds and chunks\<close>

text \<open>The rounds' sizes as natural numbers, and the chunk of every operation, in order.\<close>

definition round_sizes :: "interleaved \<Rightarrow> nat list" where
  "round_sizes c =
     (if micro_batch_num c < real_stage_num c then [micro_batch_num c]
      else map (\<lambda>i. real_stage_num c + micro_batch_num c mod real_stage_num c div n_rounds c +
        (if i < round_remainder c then 1 else 0)) [0..<n_rounds c])"

definition round_chunks :: "nat list \<Rightarrow> nat \<Rightarrow> nat list" where
  "round_chunks cs n = concat (map (replicate n) cs)"

definition chunk_seq :: "nat list \<Rightarrow> nat list \<Rightarrow> nat list" where
  "chunk_seq cs ns = concat (map (round_chunks cs) ns)"

lemma chunk_seq_simps [simp]:
  "chunk_seq cs [] = []"
  "chunk_seq cs (n # ns) = round_chunks cs n @ chunk_seq cs ns"
  by (simp_all add: chunk_seq_def)

lemma length_round_chunks [simp]: "length (round_chunks cs n) = length cs * n"
  by (induction cs) (simp_all add: round_chunks_def)

lemma length_chunk_seq [simp]: "length (chunk_seq cs ns) = length cs * sum_list ns"
  by (induction ns) (simp_all add: algebra_simps)

lemma round_chunks_nth: "0 < n \<Longrightarrow> k < length cs * n \<Longrightarrow> round_chunks cs n ! k = cs ! (k div n)"
proof (induction cs arbitrary: k)
  case (Cons a cs)
  show ?case
  proof (cases "k < n")
    case True
    then show ?thesis by (simp add: round_chunks_def nth_append)
  next
    case False
    then have "k div n = Suc ((k - n) div n)" using Cons.prems(1) by (simp add: le_div_geq)
    then show ?thesis using Cons.IH [of "k - n"] Cons.prems False by (simp add: round_chunks_def nth_append)
  qed
qed simp

lemma set_chunk_seq: "set (chunk_seq cs ns) \<subseteq> set cs"
  by (auto simp: chunk_seq_def round_chunks_def)

lemma bisect_right_Cons [simp]: "bisect_right (y # xs) x = (if y \<le> x then Suc (bisect_right xs x) else 0)"
  by (simp add: bisect_right_def)

text \<open>The binary search finds the round, and the division the chunk.\<close>

lemma chunk_by_search:
  assumes "\<forall>n \<in> set ns. 0 < n" "0 < V" "k < sum_list ns * V"
  shows "let L = int a * int V # map (\<lambda>x. x * int V) (accumulate (int a) (map int ns));
      A = bisect_right L (int a * int V + int k) - 1
    in (int a * int V + int k - L ! A) div (map int ns ! A) = int (chunk_seq [0..<V] ns ! k)"
  using assms
proof (induction ns arbitrary: a k)
  case (Cons n ns)
  let ?L' = "int (a + n) * int V # map (\<lambda>x. x * int V) (accumulate (int (a + n)) (map int ns))"
  have L: "int a * int V # map (\<lambda>x. x * int V) (accumulate (int a) (map int (n # ns))) = int a * int V # ?L'" by simp
  have n: "0 < n" using Cons.prems by simp
  show ?case
  proof (cases "k < n * V")
    case True
    then have "int k < int n * int V" by (metis of_nat_less_iff of_nat_mult)
    then have "\<not> int (a + n) * int V \<le> int a * int V + int k" by (simp add: algebra_simps)
    then have "bisect_right (int a * int V # ?L') (int a * int V + int k) = 1" by simp
    moreover have "k div n < V" using True n by (simp add: div_less_iff_less_mult mult.commute)
    then have "chunk_seq [0..<V] (n # ns) ! k = k div n"
      using True n by (simp add: nth_append round_chunks_nth mult.commute)
    ultimately show ?thesis unfolding L Let_def by (simp add: zdiv_int)
  next
    case False
    define j where "j = k - n * V"
    have k: "k = n * V + j" using False by (simp add: j_def)
    have x: "int a * int V + int k = int (a + n) * int V + int j" by (simp add: k algebra_simps)
    let ?A = "bisect_right ?L' (int (a + n) * int V + int j) - 1"
    have le: "int a * int V \<le> (int a + int n) * int V + int j" by (simp add: algebra_simps)
    then have A: "bisect_right (int a * int V # ?L') (int a * int V + int k) - 1 = Suc ?A" unfolding x by simp
    have "j < sum_list ns * V" using Cons.prems(3) k by (simp add: algebra_simps)
    then have "(int (a + n) * int V + int j - ?L' ! ?A) div (map int ns ! ?A) = int (chunk_seq [0..<V] ns ! j)"
      using Cons.IH [of j "a + n"] Cons.prems(1,2) by (simp only: Let_def) simp
    moreover have "chunk_seq [0..<V] (n # ns) ! k = chunk_seq [0..<V] ns ! j"
      by (simp add: nth_append k mult.commute)
    ultimately show ?thesis using le unfolding L Let_def A x by simp
  qed
qed simp

text \<open>The layout of the rounds: they cover the micro-batches, and the first is the largest.\<close>

definition interleaved_ok :: "interleaved \<Rightarrow> nat \<Rightarrow> bool" where
  "interleaved_ok c rank \<longleftrightarrow> 0 < n_local_stages c \<and> 0 < micro_batch_num c \<and> rank < real_stage_num c"

lemma rounds_int: "n_microbatch_per_round c = map int (round_sizes c)"
  by (simp add: n_microbatch_per_round_def round_sizes_def round_base_def round_remainder_def n_rounds_def)

lemma sum_list_indicator: "r \<le> n \<Longrightarrow> (\<Sum>i \<leftarrow> [0..<n]. if i < r then 1 else (0::nat)) = r"
proof (induction n)
  case (Suc n)
  have "(\<Sum>i \<leftarrow> [0..<n]. if i < r then 1 else (0::nat)) = (if r \<le> n then r else n)"
  proof (cases "r \<le> n")
    case False
    then have "map (\<lambda>i. if i < r then 1 else (0::nat)) [0..<n] = replicate n 1" by (intro nth_equalityI) auto
    then show ?thesis using False by (simp add: sum_list_replicate)
  qed (use Suc.IH in simp)
  then show ?case using Suc.prems by auto
qed simp

lemma rounds_sum:
  assumes "0 < real_stage_num c"
  shows "sum_list (round_sizes c) = micro_batch_num c"
proof (cases "micro_batch_num c < real_stage_num c")
  case True
  then show ?thesis by (simp add: round_sizes_def)
next
  case False
  let ?M = "micro_batch_num c" and ?R = "real_stage_num c" and ?q = "n_rounds c"
  have q: "?q = ?M div ?R" "0 < ?q" using False assms by (auto simp: n_rounds_def div_greater_zero_iff max_def Suc_le_eq)
  define K where "K = ?R + ?M mod ?R div ?q"
  define r where "r = round_remainder c"
  have r: "r = ?M mod ?R mod ?q" "r \<le> ?q" using False q(2) by (simp_all add: r_def round_remainder_def)
  have "round_sizes c = map (\<lambda>i. K + (if i < r then 1 else 0)) [0..<?q]"
    using False by (simp add: round_sizes_def K_def r_def)
  then have "sum_list (round_sizes c) = ?q * K + r"
    using sum_list_indicator [OF r(2)] by (simp add: sum_list_addf sum_list_triv)
  also have "\<dots> = ?q * (?R + ?M mod ?R div ?q) + ?M mod ?R mod ?q" by (simp only: K_def r(1))
  also have "\<dots> = ?q * ?R + (?q * (?M mod ?R div ?q) + ?M mod ?R mod ?q)" by (simp only: distrib_left add.assoc)
  also have "\<dots> = ?q * ?R + ?M mod ?R" by (simp only: mult_div_mod_eq)
  also have "\<dots> = ?M" using q(1) by simp
  finally show ?thesis .
qed

lemma rounds_pos: "interleaved_ok c rank \<Longrightarrow> \<forall>n \<in> set (round_sizes c). 0 < n"
  by (auto simp: round_sizes_def interleaved_ok_def)

lemma rounds_first: "0 < real_stage_num c \<Longrightarrow> \<forall>n \<in> set (round_sizes c). n \<le> round_sizes c ! 0"
  by (auto simp: round_sizes_def n_rounds_def nth_append)

lemma rounds_nonempty: "round_sizes c \<noteq> []"
  by (simp add: round_sizes_def n_rounds_def)

text \<open>The chunks of the forwards and of the backwards of a rank.\<close>

definition fwd_chunks :: "interleaved \<Rightarrow> nat list" where
  "fwd_chunks c = chunk_seq [0..<n_local_stages c] (round_sizes c)"

definition bwd_chunks :: "interleaved \<Rightarrow> nat list" where
  "bwd_chunks c = map (\<lambda>b. n_local_stages c - 1 - b) (fwd_chunks c)"

lemma length_chunks:
  "0 < real_stage_num c \<Longrightarrow> length (fwd_chunks c) = n_local_stages c * micro_batch_num c"
  "0 < real_stage_num c \<Longrightarrow> length (bwd_chunks c) = n_local_stages c * micro_batch_num c"
  by (simp_all add: fwd_chunks_def bwd_chunks_def rounds_sum)

lemma fwd_chunk_less: "k < length (fwd_chunks c) \<Longrightarrow> fwd_chunks c ! k < n_local_stages c"
proof -
  assume "k < length (fwd_chunks c)"
  then have "fwd_chunks c ! k \<in> set (fwd_chunks c)" by (rule nth_mem)
  then show ?thesis using set_chunk_seq [of "[0..<n_local_stages c]" "round_sizes c"] by (auto simp: fwd_chunks_def)
qed

lemma local_index_chunk:
  assumes "interleaved_ok c rank" "k < length (fwd_chunks c)"
  shows "local_index c (int k) = int (fwd_chunks c ! k)"
proof -
  have R: "0 < real_stage_num c" and V: "0 < n_local_stages c" using assms(1) by (simp_all add: interleaved_ok_def)
  have "k < sum_list (round_sizes c) * n_local_stages c"
    using assms(2) R by (simp add: length_chunks rounds_sum mult.commute)
  from chunk_by_search [OF rounds_pos [OF assms(1)] V this, of 0] show ?thesis
    by (simp add: local_index_def n_microbatch_per_round_accu_def rounds_int fwd_chunks_def Let_def)
qed

lemma stage_indices:
  assumes "interleaved_ok c rank" "k < length (fwd_chunks c)"
  shows "forward_stage_index c (int k) rank = int (fwd_chunks c ! k) * int (real_stage_num c) + int rank"
    "backward_stage_index c (int k) rank = int (bwd_chunks c ! k) * int (real_stage_num c) + int rank"
  using local_index_chunk [OF assms] fwd_chunk_less [OF assms(2)] assms(2)
  by (simp_all add: forward_stage_index_def backward_stage_index_def bwd_chunks_def of_nat_diff)

text \<open>Every chunk is run once per micro-batch, and backwards lag behind by the warmup.\<close>

lemma count_block: "b \<notin> set A \<Longrightarrow> b \<notin> set B \<Longrightarrow>
    count_list (take j (A @ replicate n b @ B)) b = min n (j - length A)"
proof -
  assume "b \<notin> set A" "b \<notin> set B"
  then have "count_list (take j A) b = 0" "count_list (take (j - length A - n) B) b = 0"
    by (meson count_notin in_set_takeD)+
  moreover have "count_list (replicate m b) b = m" for m by (induction m) simp_all
  ultimately show ?thesis by (simp add: take_append)
qed

lemma count_round:
  assumes "b \<notin> set A" "b \<notin> set B"
  shows "count_list (take j (round_chunks (A @ b # B) n)) b = min n (j - length A * n)"
proof -
  have "b \<notin> set (round_chunks A n)" "b \<notin> set (round_chunks B n)" using assms by (auto simp: round_chunks_def)
  from count_block [OF this, of j n] show ?thesis
    by (simp only: length_round_chunks) (simp add: round_chunks_def)
qed

text \<open>After \<open>k\<close> backwards, at least as many forwards of a chunk were run, if the warmup was \<open>W\<close>.\<close>

lemma warmup_covers:
  assumes "\<forall>n \<in> set ns. n \<le> N" "(V - 1) * N \<le> W" "b < V"
  shows "count_list (take k (chunk_seq (rev [0..<V]) ns)) b \<le> count_list (take (k + W) (chunk_seq [0..<V] ns)) b"
  using assms(1)
proof (induction ns arbitrary: k)
  case (Cons n ns)
  have up: "[0..<V] = [0..<b] @ b # [Suc b..<V]" using assms(3)
    by (metis le_add_diff_inverse less_imp_le_nat upt_add_eq_append upt_conv_Cons zero_le)
  then have dn: "rev [0..<V] = rev [Suc b..<V] @ b # rev [0..<b]" by simp
  have c1: "count_list (take j (round_chunks [0..<V] n)) b = min n (j - b * n)" for j
    using count_round [of b "[0..<b]" "[Suc b..<V]" j n] up by simp
  have c2: "count_list (take j (round_chunks (rev [0..<V]) n)) b = min n (j - (V - Suc b) * n)" for j
    using count_round [of b "rev [Suc b..<V]" "rev [0..<b]" j n] dn by simp
  have "(V - 1) * n \<le> W" using assms(2) Cons.prems by (meson le_trans list.set_intros(1) mult_le_mono2)
  moreover have "b * n \<le> (V - 1) * n" using assms(3) by (intro mult_le_mono1) simp
  ultimately have W: "b * n \<le> W" by (rule le_trans [rotated])
  have "k - (V - Suc b) * n \<le> k + W - b * n" using W by simp
  then have first: "count_list (take k (round_chunks (rev [0..<V]) n)) b \<le> count_list (take (k + W) (round_chunks [0..<V] n)) b"
    unfolding c1 c2 by simp
  show ?case
  proof (cases "k \<le> V * n")
    case True
    then show ?thesis using first by (simp add: take_append)
  next
    case False
    then have "k + W - V * n = (k - V * n) + W" by simp
    then show ?thesis using first Cons.IH [of "k - V * n"] Cons.prems by (simp add: take_append)
  qed
qed simp

text \<open>Every chunk is met once per micro-batch, and its operations carry its micro-batches in order.\<close>

lemma count_chunk_seq: "b \<notin> set A \<Longrightarrow> b \<notin> set B \<Longrightarrow> count_list (chunk_seq (A @ b # B) ns) b = sum_list ns"
proof (induction ns)
  case (Cons n ns)
  then show ?case using count_round [of b A B "length (round_chunks (A @ b # B) n)" n]
    by (simp only: take_all) (simp add: algebra_simps min_def)
qed simp

lemma chunk_once:
  assumes "b < V"
  shows "count_list (chunk_seq [0..<V] ns) b = sum_list ns" "count_list (chunk_seq (rev [0..<V]) ns) b = sum_list ns"
proof -
  have up: "[0..<V] = [0..<b] @ b # [Suc b..<V]" using assms
    by (metis le_add_diff_inverse less_imp_le_nat upt_add_eq_append upt_conv_Cons zero_le)
  then have dn: "rev [0..<V] = rev [Suc b..<V] @ b # rev [0..<b]" by simp
  show "count_list (chunk_seq [0..<V] ns) b = sum_list ns" unfolding up by (rule count_chunk_seq) simp_all
  show "count_list (chunk_seq (rev [0..<V]) ns) b = sum_list ns" unfolding dn by (rule count_chunk_seq) simp_all
qed

lemma map_chunk_seq: "map f (chunk_seq cs ns) = chunk_seq (map f cs) ns"
  by (simp add: chunk_seq_def round_chunks_def [abs_def] map_concat comp_def)

lemma bwd_chunks_seq: "bwd_chunks c = chunk_seq (rev [0..<n_local_stages c]) (round_sizes c)"
proof -
  have "map (\<lambda>b. V - 1 - b) [0..<V] = rev [0..<V]" for V by (rule nth_equalityI) (simp_all add: rev_nth)
  then show ?thesis by (simp only: bwd_chunks_def fwd_chunks_def map_chunk_seq)
qed

lemma count_indices:
  "n \<le> length S \<Longrightarrow> map (\<lambda>k. count_list (take k S) (S ! k)) (filter (\<lambda>k. S ! k = b) [0..<n]) = [0..<count_list (take n S) b]"
  by (induction n) (auto simp: take_Suc_conv_app_nth)

section \<open>Operations of a rank\<close>

text \<open>The \<open>k\<close>-th forward and the \<open>k\<close>-th backward of a rank, and its stage_counts after \<open>k\<close> operations.\<close>

definition fwd_op :: "interleaved \<Rightarrow> nat \<Rightarrow> nat \<Rightarrow> meta_step" where
  "fwd_op c rank k = mstep (int (count_list (take k (fwd_chunks c)) (fwd_chunks c ! k))) FWD
     (int (fwd_chunks c ! k) * int (real_stage_num c) + int rank)"

definition bwd_op :: "interleaved \<Rightarrow> nat \<Rightarrow> nat \<Rightarrow> meta_step" where
  "bwd_op c rank k = mstep (int (count_list (take k (bwd_chunks c)) (bwd_chunks c ! k))) BWD
     (int (bwd_chunks c ! k) * int (real_stage_num c) + int rank)"

definition counted :: "interleaved \<Rightarrow> nat \<Rightarrow> nat list \<Rightarrow> nat \<Rightarrow> stage_counts \<Rightarrow> bool" where
  "counted c rank chunks k cnt \<longleftrightarrow>
     (\<forall>b. cnt (int b * int (real_stage_num c) + int rank) = int (count_list (take k chunks) b))"

lemma counted_0: "counted c rank chunks 0 (\<lambda>_. 0)"
  by (simp add: counted_def)

lemma counted_Suc:
  assumes "counted c rank chunks k cnt" "k < length chunks" "0 < real_stage_num c"
    and "stage = int (chunks ! k) * int (real_stage_num c) + int rank"
  shows "cnt stage = int (count_list (take k chunks) (chunks ! k))"
    "counted c rank chunks (Suc k) (cnt(stage := cnt stage + 1))"
  using assms by (auto simp: counted_def take_Suc_conv_app_nth)

lemma upto_Suc: "[a..a + int (Suc n) - 1] = [a..a + int n - 1] @ [a + int n]"
  using upto_rec2 [of a "a + int n"] by simp

lemma bubbles_leaves [simp]: "order_leaves (bubbles p n) = []"
  by (simp add: bubbles_def order_leaves_def map_replicate_const)

lemma replicate_None_leaves [simp]: "order_leaves (replicate n None) = []"
  by (induction n) simp_all

lemma fold_upto_Suc: "fold f [a..a + int (Suc n) - 1] s = f (a + int n) (fold f [a..a + int n - 1] s)"
  by (simp only: upto_Suc fold_append fold_simps comp_apply)

lemma warmup_emits:
  assumes "interleaved_ok c rank" "n \<le> length (fwd_chunks c)"
  shows "\<exists>ops cnt. fold (warmup_op c rank W) [0..int n - 1] ([], \<lambda>_. 0) = (ops, cnt) \<and>
    order_leaves ops = map (fwd_op c rank) [0..<n] \<and> counted c rank (fwd_chunks c) n cnt"
  using assms(2)
proof (induction n)
  case 0
  then show ?case by (simp add: counted_0)
next
  case (Suc n)
  have R: "0 < real_stage_num c" using assms(1) by (simp add: interleaved_ok_def)
  obtain ops cnt where IH: "fold (warmup_op c rank W) [0..int n - 1] ([], \<lambda>_. 0) = (ops, cnt)"
    "order_leaves ops = map (fwd_op c rank) [0..<n]" "counted c rank (fwd_chunks c) n cnt" using Suc by auto
  have n: "n < length (fwd_chunks c)" using Suc.prems by simp
  note st = stage_indices(1) [OF assms(1) n]
  note cnt = counted_Suc [OF IH(3) n R st]
  obtain p ops' cnt' where s: "warmup_op c rank W (int n) (ops, cnt) = (ops', cnt')"
    "ops' = ops @ [Some (fwd_op c rank n)] @ bubbles p (trailing_bubble c)"
    "cnt' = cnt(forward_stage_index c (int n) rank := cnt (forward_stage_index c (int n) rank) + 1)"
    using cnt(1) st unfolding warmup_op_def fwd_op_def Let_def by simp
  have "fold (warmup_op c rank W) [0..int (Suc n) - 1] ([], \<lambda>_. 0) = (ops', cnt')"
    using fold_upto_Suc [of "warmup_op c rank W" 0 n] IH(1) s(1) by simp
  moreover have "order_leaves ops' = map (fwd_op c rank) [0..<Suc n]" using IH(2) s(2) by (simp add: fwd_op_def)
  ultimately show ?case using cnt(2) s(3) by blast
qed

text \<open>The steady state, plain and overlapped, and the cooldown; \<open>w\<close> forwards were run before.\<close>

definition steady_ops :: "interleaved \<Rightarrow> nat \<Rightarrow> nat \<Rightarrow> nat \<Rightarrow> meta_step list" where
  "steady_ops c rank w n = concat (map (\<lambda>k. [fwd_op c rank (w + k), bwd_op c rank k]) [0..<n])"

lemma steady_emits:
  assumes "interleaved_ok c rank" "w + n \<le> length (fwd_chunks c)" "counted c rank (fwd_chunks c) w cnt"
  shows "\<exists>ops f b. emit_1f1b_ops c rank (int w) (int n) cnt (\<lambda>_. 0) = (ops, f, b) \<and>
    order_leaves ops = steady_ops c rank w n \<and> counted c rank (fwd_chunks c) (w + n) f \<and>
    counted c rank (bwd_chunks c) n b"
  using assms(2) unfolding emit_1f1b_ops_def
proof (induction n)
  case 0
  then show ?case using assms(3) by (simp add: counted_0 steady_ops_def)
next
  case (Suc n)
  have R: "0 < real_stage_num c" using assms(1) by (simp add: interleaved_ok_def)
  obtain ops f b where IH: "fold (f1b_op c rank (int w)) [int w..int w + int n - 1] ([], cnt, \<lambda>_. 0) = (ops, f, b)"
    "order_leaves ops = steady_ops c rank w n" "counted c rank (fwd_chunks c) (w + n) f"
    "counted c rank (bwd_chunks c) n b" using Suc by auto
  have n: "w + n < length (fwd_chunks c)" "n < length (fwd_chunks c)" "n < length (bwd_chunks c)"
    using Suc.prems R by (simp_all add: length_chunks)
  note sf = stage_indices(1) [OF assms(1) n(1)] and sb = stage_indices(2) [OF assms(1) n(2)]
  note f = counted_Suc [OF IH(3) n(1) R sf]
  note b = counted_Suc [OF IH(4) n(3) R sb]
  obtain p ops' f' b' where s: "f1b_op c rank (int w) (int w + int n) (ops, f, b) = (ops', f', b')"
    "ops' = ops @ [Some (fwd_op c rank (w + n)), Some (bwd_op c rank n)] @ bubbles p (2 * trailing_bubble c)"
    "f' = f(forward_stage_index c (int (w + n)) rank := f (forward_stage_index c (int (w + n)) rank) + 1)"
    "b' = b(backward_stage_index c (int n) rank := b (backward_stage_index c (int n) rank) + 1)"
    using f(1) b(1) sf sb unfolding f1b_op_def fwd_op_def bwd_op_def Let_def by simp
  have "fold (f1b_op c rank (int w)) [int w..int w + int (Suc n) - 1] ([], cnt, \<lambda>_. 0) = (ops', f', b')"
    by (simp only: fold_upto_Suc IH(1) s(1))
  moreover have "order_leaves ops' = steady_ops c rank w (Suc n)"
    using IH(2) s(2) by (simp add: steady_ops_def fwd_op_def bwd_op_def)
  ultimately show ?case using f(2) b(2) s(3,4) by auto
qed

lemma collect_emits:
  assumes "interleaved_ok c rank" "w + n \<le> length (fwd_chunks c)" "counted c rank (fwd_chunks c) w cnt"
  shows "\<exists>f b. collect_fwd_bwd_steps c rank (int n) (int w) cnt (\<lambda>_. 0) =
      ((map (\<lambda>k. fwd_op c rank (w + k)) [0..<n], map (bwd_op c rank) [0..<n]), f, b) \<and>
    counted c rank (fwd_chunks c) (w + n) f \<and> counted c rank (bwd_chunks c) n b"
  using assms(2) unfolding collect_fwd_bwd_steps_def
proof (induction n)
  case 0
  then show ?case using assms(3) by (simp add: counted_0)
next
  case (Suc n)
  have R: "0 < real_stage_num c" using assms(1) by (simp add: interleaved_ok_def)
  obtain f b where IH: "fold (collect_op c rank (int w)) [int w..int w + int n - 1] (([], []), cnt, \<lambda>_. 0) =
      ((map (\<lambda>k. fwd_op c rank (w + k)) [0..<n], map (bwd_op c rank) [0..<n]), f, b)"
    "counted c rank (fwd_chunks c) (w + n) f" "counted c rank (bwd_chunks c) n b" using Suc by auto
  have n: "w + n < length (fwd_chunks c)" "n < length (fwd_chunks c)" "n < length (bwd_chunks c)"
    using Suc.prems R by (simp_all add: length_chunks)
  note sf = stage_indices(1) [OF assms(1) n(1)] and sb = stage_indices(2) [OF assms(1) n(2)]
  note f = counted_Suc [OF IH(2) n(1) R sf]
  note b = counted_Suc [OF IH(3) n(3) R sb]
  show ?case unfolding fold_upto_Suc IH(1)
    using f b sf sb by (simp add: collect_op_def Let_def fwd_op_def bwd_op_def)
qed

lemma leaf_plain: "\<not> is_overlap (step_type s) \<Longrightarrow> leaf_steps s = [s]"
  by (cases s) simp

lemma pair_leaves:
  assumes "\<And>k. \<not> is_overlap (step_type (f k))" "\<And>k. \<not> is_overlap (step_type (b k))"
  shows "order_leaves (pair_into_overlap_b_f (map f [0..<n]) (map b [0..<n])) = concat (map (\<lambda>k. [f k, b k]) [0..<n])"
proof (cases n)
  case 0
  then show ?thesis by (simp add: pair_into_overlap_b_f_def)
next
  case (Suc m)
  have leaf: "leaf_steps (f k) = [f k]" "leaf_steps (b k) = [b k]" for k
    using leaf_plain assms by blast+
  let ?pair = "\<lambda>i. Some (MetaStep None OVERLAP_B_F None [b i, f (Suc i)] [])"
  have mid: "order_leaves (map ?pair [0..<j]) = concat (map (\<lambda>i. [b i, f (Suc i)]) [0..<j])" for j
    by (induction j) (simp_all add: leaf iter_leaf_meta_steps_def)
  have shift: "f 0 # concat (map (\<lambda>i. [b i, f (Suc i)]) [0..<j]) @ [b j] = concat (map (\<lambda>k. [f k, b k]) [0..<Suc j])" for j
    by (induction j) simp_all
  have nth: "map b [0..<Suc m] ! i = b i" "map f [0..<Suc m] ! (i + 1) = f (Suc i)" if "i < m" for i
    using that by (simp_all del: upt_Suc)
  have "map (\<lambda>i. Some (MetaStep None OVERLAP_B_F None [map b [0..<Suc m] ! i, map f [0..<Suc m] ! (i + 1)] [])) [0..<m] =
      map ?pair [0..<m]" by (rule map_cong) (simp_all only: nth set_upt atLeastLessThan_iff)
  moreover have "map f [0..<Suc m] ! 0 = f 0" "last (map b [0..<Suc m]) = b m" by (simp_all add: hd_map nth_append)
  ultimately have "pair_into_overlap_b_f (map f [0..<n]) (map b [0..<n]) = Some (f 0) # map ?pair [0..<m] @ [Some (b m)]"
    unfolding pair_into_overlap_b_f_def Suc by (simp del: upt_Suc)
  then show ?thesis using mid [of m] shift [of m] assms Suc by (simp del: upt_Suc)
qed

lemma overlap_emits:
  assumes "interleaved_ok c rank" "w + n \<le> length (fwd_chunks c)" "counted c rank (fwd_chunks c) w cnt"
  shows "\<exists>ops f b. emit_1f1b_overlap_ops c rank (int w) (int n) cnt (\<lambda>_. 0) = (ops, f, b) \<and>
    order_leaves ops = steady_ops c rank w n \<and> counted c rank (bwd_chunks c) n b"
proof -
  obtain f b where e: "collect_fwd_bwd_steps c rank (int n) (int w) cnt (\<lambda>_. 0) =
      ((map (\<lambda>k. fwd_op c rank (w + k)) [0..<n], map (bwd_op c rank) [0..<n]), f, b)" "counted c rank (bwd_chunks c) n b"
    using collect_emits [OF assms] by blast
  have "order_leaves (pair_into_overlap_b_f (map (\<lambda>k. fwd_op c rank (w + k)) [0..<n]) (map (bwd_op c rank) [0..<n])) =
      steady_ops c rank w n"
    unfolding steady_ops_def by (rule pair_leaves) (simp_all add: fwd_op_def bwd_op_def)
  then show ?thesis using e unfolding emit_1f1b_overlap_ops_def by (auto simp: Let_def)
qed

lemma cooldown_emits:
  assumes "interleaved_ok c rank" "n + m \<le> length (fwd_chunks c)" "counted c rank (bwd_chunks c) n cnt"
  shows "order_leaves (emit_cooldown_ops c rank (int w) (int n) (int w + int n + int m) cnt) = map (bwd_op c rank) [n..<n + m]"
proof -
  have "\<exists>ops b. fold (cooldown_op c rank (int w)) [int w + int n..int w + int n + int m - 1] ([], cnt) = (ops, b) \<and>
      order_leaves ops = map (bwd_op c rank) [n..<n + m] \<and> counted c rank (bwd_chunks c) (n + m) b"
    using assms(2)
  proof (induction m)
    case 0
    then show ?case using assms(3) by simp
  next
    case (Suc m)
    have R: "0 < real_stage_num c" using assms(1) by (simp add: interleaved_ok_def)
    obtain ops b where IH: "fold (cooldown_op c rank (int w)) [int w + int n..int w + int n + int m - 1] ([], cnt) = (ops, b)"
      "order_leaves ops = map (bwd_op c rank) [n..<n + m]" "counted c rank (bwd_chunks c) (n + m) b" using Suc by auto
    have n: "n + m < length (fwd_chunks c)" "n + m < length (bwd_chunks c)"
      using Suc.prems R by (simp_all add: length_chunks)
    note sb = stage_indices(2) [OF assms(1) n(1)]
    note b = counted_Suc [OF IH(3) n(2) R sb]
    obtain p ops' b' where s: "cooldown_op c rank (int w) (int w + int n + int m) (ops, b) = (ops', b')"
      "ops' = ops @ [None, Some (bwd_op c rank (n + m))] @ bubbles p (2 * trailing_bubble c)"
      "b' = b(backward_stage_index c (int (n + m)) rank := b (backward_stage_index c (int (n + m)) rank) + 1)"
      using b(1) sb unfolding cooldown_op_def bwd_op_def Let_def by simp
    have "fold (cooldown_op c rank (int w)) [int w + int n..int w + int n + int (Suc m) - 1] ([], cnt) = (ops', b')"
      by (simp only: fold_upto_Suc IH(1) s(1))
    moreover have "order_leaves ops' = map (bwd_op c rank) [n..<n + Suc m]"
      using IH(2) s(2) by (simp add: bwd_op_def)
    ultimately show ?case using b(2) s(3) by auto
  qed
  then show ?thesis by (auto simp: emit_cooldown_ops_def)
qed

text \<open>The compute steps of a rank, overlapped or not.\<close>

definition rank_ops :: "interleaved \<Rightarrow> nat \<Rightarrow> nat \<Rightarrow> nat \<Rightarrow> meta_step list" where
  "rank_ops c rank T w =
     map (fwd_op c rank) [0..<w] @ steady_ops c rank w (T - w) @ map (bwd_op c rank) [T - w..<T]"

lemma warmup_bounds:
  assumes "interleaved_ok c rank"
  shows "\<exists>w. warmup_ops c rank = int w \<and> w \<le> length (fwd_chunks c) \<and>
    (w = length (fwd_chunks c) \<or> (n_local_stages c - 1) * round_sizes c ! 0 \<le> w)"
proof -
  have R: "0 < real_stage_num c" "0 < n_local_stages c" "rank < real_stage_num c" using assms by (simp_all add: interleaved_ok_def)
  have s: "0 \<le> stagger c rank" using R by (simp add: stagger_def Let_def)
  have n0: "n_microbatch_per_round c ! 0 = int (round_sizes c ! 0)" using rounds_nonempty [of c] by (simp add: rounds_int)
  define V where "V = n_local_stages c - 1"
  have V: "int (n_local_stages c) - 1 = int V" using R by (simp add: V_def of_nat_diff)
  define x where "x = nat (stagger c rank)"
  have x: "stagger c rank = int x" using s by (simp add: x_def)
  let ?w = "min (V * round_sizes c ! 0 + x) (micro_batch_num c * n_local_stages c)"
  have "warmup_ops c rank = int ?w" unfolding warmup_ops_def n0 V x
    by (simp add: min_def flip: of_nat_mult of_nat_add)
  then show ?thesis using R(1) by (intro exI [of _ ?w]) (auto simp: length_chunks V_def min_def mult.commute)
qed

lemma rank_leaves:
  assumes "interleaved_ok c rank" "warmup_ops c rank = int w" "w \<le> T" "T = length (fwd_chunks c)"
  shows "order_leaves (construct_stage_exec_order c rank) = rank_ops c rank T w"
proof -
  have R: "0 < real_stage_num c" using assms(1) by (simp add: interleaved_ok_def)
  have T: "int (n_local_stages c) * int (micro_batch_num c) = int T"
    using R assms(4) by (simp add: length_chunks)
  define n where "n = T - w"
  have n: "int T - int w = int n" "w + n = T" using assms(3) by (simp_all add: n_def)
  obtain wo f where wu: "emit_warmup_ops c rank (int w) (\<lambda>_. 0) = (wo, f)"
    "order_leaves wo = map (fwd_op c rank) [0..<w]" "counted c rank (fwd_chunks c) w f"
    using warmup_emits [OF assms(1), of w "int w"] assms(3,4) by (auto simp: emit_warmup_ops_def)
  have len: "w + n \<le> length (fwd_chunks c)" using assms(4) n(2) by simp
  obtain so f' b' where st: "(if overlap_b_f c then emit_1f1b_overlap_ops c rank (int w) (int n) f (\<lambda>_. 0)
      else emit_1f1b_ops c rank (int w) (int n) f (\<lambda>_. 0)) = (so, f', b')"
    "order_leaves so = steady_ops c rank w n" "counted c rank (bwd_chunks c) n b'"
    using steady_emits [OF assms(1) len wu(3)] overlap_emits [OF assms(1) len wu(3)] by (cases "overlap_b_f c") auto
  have "order_leaves (emit_cooldown_ops c rank (int w) (int n) (int w + int n + int w) b') = map (bwd_op c rank) [n..<n + w]"
    by (rule cooldown_emits [OF assms(1) _ st(3)]) (use assms(4) n(2) in simp)
  moreover have "n + w = T" "2 * int w + int n = int w + int n + int w" using n by simp_all
  ultimately show ?thesis
    unfolding construct_stage_exec_order_def Let_def assms(2) T n(1)
    using wu st by (simp add: rank_ops_def n_def add.commute)
qed

lemma map_upt_three: "map (Some \<circ> int) [0..<3] = [Some 0, Some 1, Some 2]"
  by (simp add: upt_rec)

section \<open>Legal runs\<close>

text \<open>
  A list of operations runs \<open>T\<close> forwards and \<open>T\<close> backwards, each kind in order, the forwards at
  most \<open>W + 1\<close> and (up to their end) at least \<open>W\<close> ahead of the backwards.
\<close>

fun ops_run :: "nat \<Rightarrow> nat \<Rightarrow> (nat \<Rightarrow> meta_step) \<Rightarrow> (nat \<Rightarrow> meta_step) \<Rightarrow> nat \<Rightarrow> nat \<Rightarrow> meta_step list \<Rightarrow> bool" where
  "ops_run W T F B i j [] \<longleftrightarrow> i = T \<and> j = T"
| "ops_run W T F B i j (x # xs) \<longleftrightarrow>
     i < T \<and> x = F i \<and> i \<le> j + W \<and> ops_run W T F B (Suc i) j xs \<or>
     j < T \<and> x = B j \<and> min T (j + 1 + W) \<le> i \<and> ops_run W T F B i (Suc j) xs"

lemma ops_run_forwards:
  "ops_run W T F B w j xs \<Longrightarrow> i \<le> w \<Longrightarrow> w \<le> T \<Longrightarrow> w \<le> j + W + 1 \<Longrightarrow> ops_run W T F B i j (map F [i..<w] @ xs)"
proof (induction "w - i" arbitrary: i)
  case (Suc d)
  then have "i < w" "i < T" "i \<le> j + W" by linarith+
  moreover have "ops_run W T F B (Suc i) j (map F [Suc i..<w] @ xs)" using Suc by (intro Suc.hyps(1)) simp_all
  ultimately show ?case by (simp add: upt_conv_Cons)
qed simp

lemma ops_run_backwards: "j \<le> T \<Longrightarrow> ops_run W T F B T j (map B [j..<T])"
proof (induction "T - j" arbitrary: j)
  case (Suc d)
  then show ?case by (simp add: upt_conv_Cons)
qed simp

lemma ops_run_steady:
  "ops_run W T F B (W + n) n xs \<Longrightarrow> j \<le> n \<Longrightarrow> W + n \<le> T \<Longrightarrow>
     ops_run W T F B (W + j) j (concat (map (\<lambda>k. [F (W + k), B k]) [j..<n]) @ xs)"
proof (induction "n - j" arbitrary: j)
  case (Suc d)
  then have j: "j < n" "W + j < T" "j < T" by simp_all
  have "ops_run W T F B (W + Suc j) (Suc j) (concat (map (\<lambda>k. [F (W + k), B k]) [Suc j..<n]) @ xs)"
    using Suc by (intro Suc.hyps(1)) simp_all
  then show ?case using j by (simp add: upt_conv_Cons)
qed simp

lemma rank_ops_run: "w \<le> T \<Longrightarrow> ops_run w T (fwd_op c rank) (bwd_op c rank) 0 0 (rank_ops c rank T w)"
  unfolding rank_ops_def steady_ops_def
proof (rule ops_run_forwards)
  assume w: "w \<le> T"
  have "ops_run w T (fwd_op c rank) (bwd_op c rank) (w + (T - w)) (T - w) (map (bwd_op c rank) [T - w..<T])"
    using w ops_run_backwards [of "T - w" T] by simp
  from ops_run_steady [OF this, of 0] w
  show "ops_run w T (fwd_op c rank) (bwd_op c rank) w 0
    (concat (map (\<lambda>k. [fwd_op c rank (w + k), bwd_op c rank k]) [0..<T - w]) @ map (bwd_op c rank) [T - w..<T])" by simp
qed simp_all

text \<open>What was run after \<open>n\<close> operations.\<close>

definition lag_ok :: "nat \<Rightarrow> nat \<Rightarrow> nat \<Rightarrow> nat \<Rightarrow> bool" where
  "lag_ok W T i j \<longleftrightarrow> i \<le> T \<and> j \<le> T \<and> i \<le> j + W + 1 \<and> (j = 0 \<or> min T (j + W) \<le> i)"

lemma ops_run_prefix:
  assumes "\<And>k. P (F k)" "\<And>k. \<not> P (B k)"
  shows "ops_run W T F B i j xs \<Longrightarrow> lag_ok W T i j \<Longrightarrow>
    \<exists>i' j'. i \<le> i' \<and> j \<le> j' \<and> lag_ok W T i' j' \<and> filter P (take n xs) = map F [i..<i'] \<and>
      filter (\<lambda>x. \<not> P x) (take n xs) = map B [j..<j'] \<and> (length xs \<le> n \<longrightarrow> i' = T \<and> j' = T)"
proof (induction xs arbitrary: n i j)
  case Nil
  then show ?case by (intro exI [of _ i] exI [of _ j]) simp
next
  case (Cons x xs)
  show ?case
  proof (cases n)
    case 0
    then show ?thesis using Cons.prems(2) by (intro exI [of _ i] exI [of _ j]) simp
  next
    case (Suc m)
    from Cons.prems(1) consider "i < T" "x = F i" "i \<le> j + W" "ops_run W T F B (Suc i) j xs"
      | "j < T" "x = B j" "min T (j + 1 + W) \<le> i" "ops_run W T F B i (Suc j) xs" by auto
    then show ?thesis
    proof cases
      case 1
      then have "lag_ok W T (Suc i) j" using Cons.prems(2) by (auto simp: lag_ok_def)
      from Cons.IH [OF 1(4) this, of m] obtain i' j' where "Suc i \<le> i'" "j \<le> j'" "lag_ok W T i' j'"
        "filter P (take m xs) = map F [Suc i..<i']" "filter (\<lambda>x. \<not> P x) (take m xs) = map B [j..<j']"
        "length xs \<le> m \<longrightarrow> i' = T \<and> j' = T" by blast
      then show ?thesis using 1(2) assms Suc by (intro exI [of _ i'] exI [of _ j']) (simp add: upt_conv_Cons)
    next
      case 2
      then have "lag_ok W T i (Suc j)" using Cons.prems(2) by (auto simp: lag_ok_def)
      from Cons.IH [OF 2(4) this, of m] obtain i' j' where "i \<le> i'" "Suc j \<le> j'" "lag_ok W T i' j'"
        "filter P (take m xs) = map F [i..<i']" "filter (\<lambda>x. \<not> P x) (take m xs) = map B [Suc j..<j']"
        "length xs \<le> m \<longrightarrow> i' = T \<and> j' = T" by blast
      then show ?thesis using 2(2) assms Suc by (intro exI [of _ i'] exI [of _ j']) (simp add: upt_conv_Cons)
    qed
  qed
qed

text \<open>The micro-batches of one kind of step at one stage.\<close>

definition micros_at :: "meta_step_type \<Rightarrow> int \<Rightarrow> meta_step list \<Rightarrow> int option list" where
  "micros_at t stage xs = map micro_index (filter (\<lambda>x. step_type x = t \<and> meta_step.stage_index x = Some stage) xs)"

definition chunk_stage :: "interleaved \<Rightarrow> nat \<Rightarrow> nat \<Rightarrow> int" where
  "chunk_stage c rank chunk = int chunk * int (real_stage_num c) + int rank"

lemma chunk_stage_inj: "0 < real_stage_num c \<Longrightarrow> chunk_stage c rank a = chunk_stage c rank b \<longleftrightarrow> a = b"
  by (simp add: chunk_stage_def)

lemma micros_of_ops:
  assumes "0 < real_stage_num c"
    and "\<And>k. op k = mstep (int (count_list (take k S) (S ! k))) t (chunk_stage c rank (S ! k))" "n \<le> length S"
    and "filter (\<lambda>x. step_type x = t) xs = map op [0..<n]"
  shows "micros_at t (chunk_stage c rank b) xs = map (Some \<circ> int) [0..<count_list (take n S) b]"
proof -
  have "filter (\<lambda>x. step_type x = t \<and> meta_step.stage_index x = Some (chunk_stage c rank b)) xs =
      filter (\<lambda>x. meta_step.stage_index x = Some (chunk_stage c rank b)) (map op [0..<n])"
    by (simp add: conj_commute flip: assms(4) filter_filter)
  also have "\<dots> = map op (filter (\<lambda>k. S ! k = b) [0..<n])"
    by (simp add: filter_map comp_def assms(2) chunk_stage_inj [OF assms(1)])
  finally show ?thesis
    unfolding micros_at_def count_indices [OF assms(3), of b, symmetric] by (simp add: assms(2))
qed

lemma count_take_mono: "i \<le> j \<Longrightarrow> count_list (take i xs) b \<le> count_list (take j xs) b"
  by (metis count_list_append le_add1 le_add_diff_inverse take_add)

lemma chunk_totals:
  assumes "interleaved_ok c rank" "b < n_local_stages c"
  shows "count_list (fwd_chunks c) b = micro_batch_num c" "count_list (bwd_chunks c) b = micro_batch_num c"
  using chunk_once [OF assms(2), of "round_sizes c"] assms(1)
  by (simp_all add: fwd_chunks_def bwd_chunks_seq rounds_sum interleaved_ok_def)

lemma interleaved_cover:
  assumes ok: "interleaved_ok c rank" and T: "T = length (fwd_chunks c)"
    and w: "w = T \<or> (n_local_stages c - 1) * round_sizes c ! 0 \<le> w"
    and lag: "lag_ok w T i j" and b: "b < n_local_stages c"
  shows "count_list (take j (bwd_chunks c)) b \<le> count_list (take i (fwd_chunks c)) b"
proof -
  consider "j = 0" | "i = T" | "j + w \<le> i" "w \<noteq> T" using lag by (auto simp: lag_ok_def min_def split: if_splits)
  then show ?thesis
  proof cases
    case 2
    have "count_list (take j (bwd_chunks c)) b \<le> count_list (take (max j (length (bwd_chunks c))) (bwd_chunks c)) b"
      by (rule count_take_mono) simp
    then show ?thesis using 2 T chunk_totals [OF ok b] by simp
  next
    case 3
    have R: "0 < real_stage_num c" using ok by (simp add: interleaved_ok_def)
    have "(n_local_stages c - 1) * round_sizes c ! 0 \<le> w" using w 3(2) by simp
    from warmup_covers [OF rounds_first [OF R] this b, of j]
    have "count_list (take j (bwd_chunks c)) b \<le> count_list (take (j + w) (fwd_chunks c)) b"
      by (simp add: fwd_chunks_def bwd_chunks_seq)
    also have "\<dots> \<le> count_list (take i (fwd_chunks c)) b" by (rule count_take_mono [OF 3(1)])
    finally show ?thesis .
  qed simp
qed

lemma rank_ops_shape:
  assumes ok: "interleaved_ok c rank" and T: "T = length (fwd_chunks c)" and x: "x \<in> set (rank_ops c rank T w)" "w \<le> T"
  shows "\<exists>m t b. b < n_local_stages c \<and> t \<in> {FWD, BWD} \<and> x = mstep m t (chunk_stage c rank b)"
proof -
  from x obtain k where k: "k < T" "x = fwd_op c rank k \<or> x = bwd_op c rank k"
  proof -
    consider "x \<in> fwd_op c rank ` {0..<w}" | "x \<in> (\<lambda>k. fwd_op c rank (w + k)) ` {0..<T - w}"
      | "x \<in> bwd_op c rank ` {0..<T - w}" | "x \<in> bwd_op c rank ` {T - w..<T}"
      using x(1) unfolding rank_ops_def steady_ops_def by auto
    then show thesis
    proof cases
      case 1
      then show ?thesis using that x(2) by (metis atLeastLessThan_iff imageE less_le_trans)
    next
      case 2
      then obtain k where "k < T - w" "x = fwd_op c rank (w + k)" by auto
      then show ?thesis using that [of "w + k"] x(2) by simp
    next
      case 3
      then obtain k where "k < T - w" "x = bwd_op c rank k" by auto
      then show ?thesis using that [of k] by simp
    next
      case 4
      then show ?thesis using that by auto
    qed
  qed
  have "fwd_chunks c ! k < n_local_stages c" "bwd_chunks c ! k < n_local_stages c"
    using fwd_chunk_less [of k c] k(1) T ok by (auto simp: bwd_chunks_def interleaved_ok_def)
  then show ?thesis using k(2) unfolding fwd_op_def bwd_op_def chunk_stage_def by blast
qed

lemma prefix_counting: "a \<le> b \<Longrightarrow> prefix (map f [0..<a]) (map f [0..<b])"
  by (metis le_add_diff_inverse map_mono_prefix prefix_def upt_add_eq_append zero_le)

lemma stage_runs_legally:
  assumes ok: "interleaved_ok c rank"
  shows "let leaves = order_leaves (construct_stage_exec_order c rank) in
    (\<forall>x \<in> set leaves. \<exists>m t b. b < n_local_stages c \<and> t \<in> {FWD, BWD} \<and> x = mstep m t (chunk_stage c rank b)) \<and>
    (\<forall>b t. b < n_local_stages c \<longrightarrow> t \<in> {FWD, BWD} \<longrightarrow>
       micros_at t (chunk_stage c rank b) leaves = map (Some \<circ> int) [0..<micro_batch_num c]) \<and>
    (\<forall>n b. b < n_local_stages c \<longrightarrow> prefix (micros_at BWD (chunk_stage c rank b) (take n leaves))
       (micros_at FWD (chunk_stage c rank b) (take n leaves))) \<and>
    (\<forall>n. int (length (filter (\<lambda>x. step_type x = FWD) (take n leaves))) \<le>
       int (length (filter (\<lambda>x. step_type x = BWD) (take n leaves))) + warmup_ops c rank + 1)"
proof -
  have R: "0 < real_stage_num c" using ok by (simp add: interleaved_ok_def)
  define T where "T = length (fwd_chunks c)"
  obtain w where w: "warmup_ops c rank = int w" "w \<le> T" "w = T \<or> (n_local_stages c - 1) * round_sizes c ! 0 \<le> w"
    using warmup_bounds [OF ok] unfolding T_def by blast
  define leaves where "leaves = order_leaves (construct_stage_exec_order c rank)"
  have leaves: "leaves = rank_ops c rank T w" unfolding leaves_def T_def
    by (rule rank_leaves) (use ok w in \<open>simp_all add: T_def\<close>)
  let ?F = "fwd_op c rank" and ?B = "bwd_op c rank"
  have run: "ops_run w T ?F ?B 0 0 leaves" unfolding leaves by (rule rank_ops_run [OF w(2)])
  have types: "step_type x = BWD \<longleftrightarrow> step_type x \<noteq> FWD" if "x \<in> set leaves" for x
    using that unfolding leaves rank_ops_def steady_ops_def by (auto simp: fwd_op_def bwd_op_def)
  have pre: "\<exists>i j. lag_ok w T i j \<and> filter (\<lambda>x. step_type x = FWD) (take n leaves) = map ?F [0..<i] \<and>
      filter (\<lambda>x. step_type x = BWD) (take n leaves) = map ?B [0..<j] \<and> (length leaves \<le> n \<longrightarrow> i = T \<and> j = T)" for n
  proof -
    have "filter (\<lambda>x. step_type x = BWD) (take n leaves) = filter (\<lambda>x. step_type x \<noteq> FWD) (take n leaves)"
      by (rule filter_cong) (auto dest: in_set_takeD simp: types)
    then show ?thesis
      using ops_run_prefix [of "\<lambda>x. step_type x = FWD", OF _ _ run, of n] by (auto simp: fwd_op_def bwd_op_def lag_ok_def)
  qed
  have lenB: "length (bwd_chunks c) = T" by (simp add: bwd_chunks_def T_def)
  have F: "micros_at FWD (chunk_stage c rank b) xs = map (Some \<circ> int) [0..<count_list (take i (fwd_chunks c)) b]"
    if "filter (\<lambda>x. step_type x = FWD) xs = map ?F [0..<i]" "i \<le> T" for b xs i
    by (rule micros_of_ops [OF R _ _ that(1)]) (use that(2) in \<open>simp_all add: fwd_op_def chunk_stage_def T_def\<close>)
  have B: "micros_at BWD (chunk_stage c rank b) xs = map (Some \<circ> int) [0..<count_list (take j (bwd_chunks c)) b]"
    if "filter (\<lambda>x. step_type x = BWD) xs = map ?B [0..<j]" "j \<le> T" for b xs j
    by (rule micros_of_ops [OF R _ _ that(1)]) (use that(2) lenB in \<open>simp_all add: bwd_op_def chunk_stage_def\<close>)
  have every: "micros_at t (chunk_stage c rank b) leaves = map (Some \<circ> int) [0..<micro_batch_num c]"
    if "b < n_local_stages c" "t \<in> {FWD, BWD}" for b t
    using pre [of "length leaves"] F B chunk_totals [OF ok that(1)] that(2) lenB T_def by auto
  have before: "prefix (micros_at BWD (chunk_stage c rank b) (take n leaves)) (micros_at FWD (chunk_stage c rank b) (take n leaves))"
    if "b < n_local_stages c" for b n
  proof -
    from pre [of n] obtain i j where ij: "lag_ok w T i j" "filter (\<lambda>x. step_type x = FWD) (take n leaves) = map ?F [0..<i]"
      "filter (\<lambda>x. step_type x = BWD) (take n leaves) = map ?B [0..<j]" by blast
    then have le: "i \<le> T" "j \<le> T" by (simp_all add: lag_ok_def)
    show ?thesis unfolding F [OF ij(2) le(1)] B [OF ij(3) le(2)] using interleaved_cover [OF ok T_def w(3) ij(1) that]
      by (intro prefix_counting)
  qed
  have flight: "int (length (filter (\<lambda>x. step_type x = FWD) (take n leaves))) \<le>
      int (length (filter (\<lambda>x. step_type x = BWD) (take n leaves))) + warmup_ops c rank + 1" for n
    using pre [of n] w(1) by (auto simp: lag_ok_def)
  show ?thesis using rank_ops_shape [OF ok T_def _ w(2)] every before flight
    unfolding Let_def leaves_def [symmetric] by (simp only: leaves) blast
qed

text \<open>
  C12.  A rank of the interleaved schedule, overlapped or not, runs on every one of its stages the forwards and
  the backwards of all micro-batches exactly once and in order; a backward never comes before its forward; and
  at most one more forward than the warmup is in flight.
\<close>

theorem interleaved_stage_legal:
  assumes ok: "interleaved_ok c rank"
  shows "let leaves = order_leaves (construct_stage_exec_order c rank) in
    (\<forall>x \<in> set leaves. \<exists>m t b. b < n_local_stages c \<and> t \<in> {FWD, BWD} \<and> x = mstep m t (chunk_stage c rank b)) \<and>
    (\<forall>b t. b < n_local_stages c \<longrightarrow> t \<in> {FWD, BWD} \<longrightarrow>
       micros_at t (chunk_stage c rank b) leaves = map (Some \<circ> int) [0..<micro_batch_num c]) \<and>
    (\<forall>n b. b < n_local_stages c \<longrightarrow> prefix (micros_at BWD (chunk_stage c rank b) (take n leaves))
       (micros_at FWD (chunk_stage c rank b) (take n leaves))) \<and>
    (\<forall>n. int (length (filter (\<lambda>x. step_type x = FWD) (take n leaves))) \<le>
       int (length (filter (\<lambda>x. step_type x = BWD) (take n leaves))) + warmup_ops c rank + 1)"
  using assms by (rule stage_runs_legally)

section \<open>The whole schedule\<close>

text \<open>What an emitted slot can be.\<close>

definition plain_slot :: "meta_step option \<Rightarrow> bool" where
  "plain_slot a \<longleftrightarrow> (case a of None \<Rightarrow> True | Some s \<Rightarrow>
     boundary_p2p s = [] \<and> (step_type s \<in> {FWD, BWD} \<or> step_type s = OVERLAP_B_F \<and> length (sub_steps s) = 2))"

definition plain_order :: "order \<Rightarrow> bool" where
  "plain_order xs \<longleftrightarrow> (\<forall>a \<in> set xs. plain_slot a)"

lemma plain_order_simps [simp]:
  "plain_order []" "plain_order (x # xs) \<longleftrightarrow> plain_slot x \<and> plain_order xs"
  "plain_order (xs @ ys) \<longleftrightarrow> plain_order xs \<and> plain_order ys" "plain_order (replicate n None)" "plain_order (bubbles p n)"
  by (auto simp: plain_order_def bubbles_def plain_slot_def)

lemma plain_slot_simps [simp]: "plain_slot None" "plain_slot (Some (mstep m FWD s))" "plain_slot (Some (mstep m BWD s))"
  by (simp_all add: plain_slot_def)

lemma fold_keeps: "(\<And>x s. P s \<Longrightarrow> P (f x s)) \<Longrightarrow> P s \<Longrightarrow> P (fold f xs s)"
  by (induction xs arbitrary: s) simp_all

lemma emitted_plain:
  "plain_order (fst (emit_warmup_ops c r w f))"
  "plain_order (emit_cooldown_ops c r w n tot b)"
  "plain_order (fst (emit_1f1b_ops c r w n f b))"
proof -
  show "plain_order (fst (emit_warmup_ops c r w f))" unfolding emit_warmup_ops_def
    by (rule fold_keeps [of "\<lambda>s. plain_order (fst s)"]) (auto simp: warmup_op_def Let_def)
  show "plain_order (emit_cooldown_ops c r w n tot b)" unfolding emit_cooldown_ops_def
    by (rule fold_keeps [of "\<lambda>s. plain_order (fst s)"]) (auto simp: cooldown_op_def Let_def)
  show "plain_order (fst (emit_1f1b_ops c r w n f b))" unfolding emit_1f1b_ops_def
    by (rule fold_keeps [of "\<lambda>s. plain_order (fst s)"]) (auto simp: f1b_op_def Let_def)
qed

lemma overlap_plain: "plain_order (fst (emit_1f1b_overlap_ops c r w n f b))"
proof -
  obtain fs bs f' b' where c: "collect_fwd_bwd_steps c r n w f b = ((fs, bs), f', b')" by (metis prod.collapse)
  have "\<forall>s \<in> set (fst (fst (collect_fwd_bwd_steps c r n w f b))) \<union> set (snd (fst (collect_fwd_bwd_steps c r n w f b))).
      boundary_p2p s = [] \<and> step_type s \<in> {FWD, BWD}"
    unfolding collect_fwd_bwd_steps_def
    by (rule fold_keeps [of "\<lambda>s. \<forall>x \<in> set (fst (fst s)) \<union> set (snd (fst s)). boundary_p2p x = [] \<and> step_type x \<in> {FWD, BWD}"])
      (auto simp: collect_op_def Let_def)
  then have "\<forall>s \<in> set fs \<union> set bs. boundary_p2p s = [] \<and> step_type s \<in> {FWD, BWD}" by (simp add: c)
  moreover have "fs \<noteq> [] \<Longrightarrow> fs ! 0 \<in> set fs" "bs \<noteq> [] \<Longrightarrow> last bs \<in> set bs" by simp_all
  ultimately have "fs \<noteq> [] \<Longrightarrow> plain_slot (Some (fs ! 0))" "bs \<noteq> [] \<Longrightarrow> plain_slot (Some (last bs))"
    unfolding plain_slot_def by auto
  then show ?thesis
    by (auto simp: emit_1f1b_overlap_ops_def c Let_def pair_into_overlap_b_f_def plain_order_def [of "map _ _"] plain_slot_def)
qed

lemma rank_order_plain: "plain_order (construct_stage_exec_order c r)"
  using emitted_plain overlap_plain unfolding construct_stage_exec_order_def Let_def
  by (auto split: prod.split) (metis fst_conv)+

lemma rank_order_leaves:
  assumes "interleaved_ok c rank"
  shows "\<exists>w. order_leaves (construct_stage_exec_order c rank) = rank_ops c rank (length (fwd_chunks c)) w \<and> w \<le> length (fwd_chunks c)"
proof -
  obtain w where "warmup_ops c rank = int w" "w \<le> length (fwd_chunks c)" using warmup_bounds [OF assms] by blast
  then show ?thesis using rank_leaves [OF assms] by blast
qed

lemma rank_order_compute:
  assumes ok: "interleaved_ok c rank"
  shows "compute_order ''loop'' (stage_num c) (real_stage_num c) (int rank) (construct_stage_exec_order c rank)"
proof -
  let ?order = "construct_stage_exec_order c rank"
  have "placed_leaf ''loop'' (stage_num c) (real_stage_num c) (int rank) leaf" if leaf: "leaf \<in> set (order_leaves ?order)" for leaf
  proof -
    obtain m t b where b: "b < n_local_stages c" "leaf = mstep m t (chunk_stage c rank b)"
      using rank_order_leaves [OF ok] rank_ops_shape [OF ok refl] leaf by metis
    have R: "rank < real_stage_num c" using ok by (simp add: interleaved_ok_def)
    have "b * real_stage_num c + rank < Suc b * real_stage_num c" using R by simp
    also have "\<dots> \<le> n_local_stages c * real_stage_num c" using b(1) by (intro mult_le_mono1) simp
    also have "\<dots> \<le> stage_num c" by (simp add: real_stage_num_def)
    finally have "chunk_stage c rank b < int (stage_num c)"
      unfolding chunk_stage_def by (simp flip: of_nat_mult of_nat_add)
    then show ?thesis using b(2) R
      by (simp add: placed_leaf_def rank_at_def stage_to_rank_def chunk_stage_def)
  qed
  then show ?thesis
    using rank_order_plain [of c rank] unfolding compute_order_def plain_order_def
    by (auto simp: plain_slot_def is_comm_def is_load_def is_overlap_def order_leaves_def split: option.splits)
qed

lemma interleaved_comms:
  assumes "0 < n_local_stages c" "0 < micro_batch_num c" "0 < real_stage_num c"
  shows "\<exists>out. add_send_recv (map (construct_stage_exec_order c) [0..<real_stage_num c]) (stage_num c) (real_stage_num c) ''loop'' =
      Inr out \<and> length out = real_stage_num c \<and>
    (\<forall>r < real_stage_num c. filter (\<lambda>x. \<not> is_comm x \<and> \<not> is_load x) (out ! r) = construct_stage_exec_order c r) \<and>
    (\<forall>a < real_stage_num c. \<forall>b < real_stage_num c. a \<noteq> b \<longrightarrow>
       link_out (rank_at ''loop'' (stage_num c) (real_stage_num c)) (int b) (out ! a) =
         link_in (rank_at ''loop'' (stage_num c) (real_stage_num c)) (int a) (out ! b))"
proof -
  let ?sched = "map (construct_stage_exec_order c) [0..<real_stage_num c]"
  have "\<forall>r < real_stage_num c. compute_order ''loop'' (stage_num c) (real_stage_num c) (int r) (?sched ! r)"
    using rank_order_compute assms by (simp add: interleaved_ok_def)
  from add_send_recv_correct [OF assms(3) _ loop_ranks_ok [OF assms(3)] this] show ?thesis by auto
qed

lemma interleaved_order_links:
  assumes "0 < n_local_stages c" "0 < micro_batch_num c" "0 < real_stage_num c" "\<not> enable_dxdw_split c"
  shows "\<exists>out. interleaved_order c = Inr out \<and> length out = real_stage_num c \<and>
    (\<forall>r < real_stage_num c. filter (\<lambda>x. \<not> is_comm x \<and> \<not> is_load x) (out ! r) = construct_stage_exec_order c r) \<and>
    (\<forall>a < real_stage_num c. \<forall>b < real_stage_num c. a \<noteq> b \<longrightarrow>
       link_out (rank_at ''loop'' (stage_num c) (real_stage_num c)) (int b) (out ! a) =
         link_in (rank_at ''loop'' (stage_num c) (real_stage_num c)) (int a) (out ! b))"
  using interleaved_comms [OF assms(1-3)] assms(4) by (auto simp: interleaved_order_def)

text \<open>The split mode: what the pass does to the operations of a rank and to its transfers.\<close>

abbreviation own_steps :: "order \<Rightarrow> order" where
  "own_steps \<equiv> filter (\<lambda>x. \<not> is_comm x \<and> \<not> is_load x)"

lemma p2p_is_comm: "is_p2p s \<Longrightarrow> is_comm (Some s)"
  by (auto simp: is_p2p_def is_comm_def)

lemma own_steps_run: "\<forall>s \<in> set run. is_p2p s \<Longrightarrow> own_steps (map Some run) = []"
  by (auto simp: filter_empty_conv dest: p2p_is_comm)

lemma run_after_own: "p2p_run_after (own_steps xs) = ([], own_steps xs)"
proof (cases "own_steps xs")
  case (Cons a ys)
  then have "\<not> is_comm a" by (auto dest: filter_eq_ConsD)
  then show ?thesis using Cons by (cases a) (auto dest: p2p_is_comm)
qed simp

lemma no_transfer:
  assumes "\<not> is_comm a"
  shows "sent_to rk b a = []" "received_from rk b a = []"
  using assms
  by (auto simp: sent_to_def received_from_def is_comm_def split: option.splits meta_step.splits meta_step_type.splits)

lemma split_own_steps:
  assumes "paired order"
  shows "\<exists>new. split_dxdw_order order = Inr new \<and> split_dxdw_order (own_steps order) = Inr (own_steps new) \<and>
    (\<forall>rk b. link_out rk b new = link_out rk b order \<and> link_in rk b new = link_in rk b order)"
  using assms
proof (induction order rule: split_dxdw_order.induct)
  case 1
  then show ?case by simp
next
  case (2 order)
  then show ?case by (auto simp: is_comm_def is_load_def)
next
  case (3 step order)
  show ?case
  proof (cases "is_overlap_b_f step")
    case False
    then show ?thesis using 3(1) 3(4) by auto
  next
    case True
    then obtain bwd_sub fwd_sub where subs: "sub_steps step = [bwd_sub, fwd_sub]"
      using 3(4) by (auto simp: length_Suc_conv numeral_2_eq_2)
    have own: "\<not> is_comm (Some step)" "\<not> is_load (Some step)"
      using True by (simp_all add: is_overlap_b_f_def is_comm_def is_load_def)
    show ?thesis
    proof (cases "step_type bwd_sub \<noteq> BWD \<or> stage_index bwd_sub = Some 0")
      case skip: True
      then show ?thesis using 3(2) [OF _ subs refl refl skip] True subs own 3(4) by auto
    next
      case False
      obtain run rest where rr: "p2p_run_after order = (run, rest)" by force
      have order: "order = map Some run @ rest" and p2p: "\<forall>s \<in> set run. is_p2p s"
        using p2p_run_after_split [OF rr] by blast+
      have "paired rest" using 3(4) order by simp
      with 3(3) [OF _ subs refl refl False refl refl refl rr [symmetric]] True obtain new where
        new: "split_dxdw_order rest = Inr new" "split_dxdw_order (own_steps rest) = Inr (own_steps new)"
        "\<And>rk b. link_out rk b new = link_out rk b rest" "\<And>rk b. link_in rk b new = link_in rk b rest" by blast
      let ?dx = "MetaStep (micro_index bwd_sub) BWD_INPUT (stage_index bwd_sub) [] []"
      let ?dw = "MetaStep (micro_index bwd_sub) BWD_WEIGHT (stage_index bwd_sub) [] []"
      let ?ov = "MetaStep (micro_index step) (step_type step) (stage_index step) [?dx, fwd_sub] []"
      let ?new = "Some ?ov # map Some run @ Some ?dw # new"
      have out: "split_dxdw_order (Some step # order) = Inr ?new"
        using True subs False rr new(1) by simp
      have kept: "\<not> is_comm (Some ?ov)" "\<not> is_load (Some ?ov)" "\<not> is_comm (Some ?dw)" "\<not> is_load (Some ?dw)"
        using own by (simp_all add: is_comm_def is_load_def)
      have "own_steps order = own_steps rest" using own_steps_run [OF p2p] order by simp
      then have "split_dxdw_order (own_steps (Some step # order)) = Inr (own_steps ?new)"
        using True subs False own kept new(2) own_steps_run [OF p2p] run_after_own [of rest] by simp
      moreover have "link_out rk b ?new = link_out rk b (Some step # order)" "link_in rk b ?new = link_in rk b (Some step # order)"
        for rk b unfolding order using no_transfer [OF own(1)] no_transfer [OF kept(1)] no_transfer [OF kept(3)] new(3,4) by simp_all
      ultimately show ?thesis using out by blast
    qed
  qed
qed

lemma paired_of_own: "plain_order (own_steps xs) \<Longrightarrow> paired xs"
  unfolding paired_def plain_order_def
  by (force simp: is_overlap_b_f_def plain_slot_def is_comm_def is_load_def)

lemma plain_paired_loose: "plain_order xs \<Longrightarrow> paired xs \<and> loose_order xs"
  by (induction xs) (auto simp: plain_slot_def paired_def loose_order_def is_overlap_b_f_def split: option.splits)

lemma interleaved_split_links:
  assumes "0 < n_local_stages c" "0 < micro_batch_num c" "0 < real_stage_num c" "enable_dxdw_split c" "overlap_b_f c"
  shows "\<exists>out. interleaved_order c = Inr out \<and> length out = real_stage_num c \<and>
    (\<forall>r < real_stage_num c. split_dxdw_order (construct_stage_exec_order c r) = Inr (own_steps (out ! r)) \<and>
       compute_leaves (own_steps (out ! r)) = concat (map dxdw_leaves (construct_stage_exec_order c r))) \<and>
    (\<forall>a < real_stage_num c. \<forall>b < real_stage_num c. a \<noteq> b \<longrightarrow>
       link_out (rank_at ''loop'' (stage_num c) (real_stage_num c)) (int b) (out ! a) =
         link_in (rank_at ''loop'' (stage_num c) (real_stage_num c)) (int a) (out ! b))"
proof -
  let ?R = "real_stage_num c"
  obtain mid where mid: "add_send_recv (map (construct_stage_exec_order c) [0..<?R]) (stage_num c) ?R ''loop'' = Inr mid"
    "length mid = ?R" "\<And>r. r < ?R \<Longrightarrow> own_steps (mid ! r) = construct_stage_exec_order c r"
    "\<And>a b. a < ?R \<Longrightarrow> b < ?R \<Longrightarrow> a \<noteq> b \<Longrightarrow>
       link_out (rank_at ''loop'' (stage_num c) ?R) (int b) (mid ! a) = link_in (rank_at ''loop'' (stage_num c) ?R) (int a) (mid ! b)"
    using interleaved_comms [OF assms(1-3)] by blast
  have pr: "paired (mid ! r)" if "r < ?R" for r
    by (rule paired_of_own) (use mid(3) [OF that] rank_order_plain [of c r] in simp)
  have each: "\<exists>new. split_dxdw_order (mid ! r) = Inr new \<and> split_dxdw_order (construct_stage_exec_order c r) = Inr (own_steps new) \<and>
      (\<forall>rk b. link_out rk b new = link_out rk b (mid ! r) \<and> link_in rk b new = link_in rk b (mid ! r))" if "r < ?R" for r
    using split_own_steps [OF pr [OF that]] mid(3) [OF that] by simp
  let ?new = "\<lambda>r. projr (split_dxdw_order (mid ! r))"
  have new: "split_dxdw_order (mid ! r) = Inr (?new r)" "split_dxdw_order (construct_stage_exec_order c r) = Inr (own_steps (?new r))"
    "link_out rk b (?new r) = link_out rk b (mid ! r)" "link_in rk b (?new r) = link_in rk b (mid ! r)"
    if "r < ?R" for r rk b using each [OF that] by auto
  have "rmap split_dxdw_order mid = Inr (map ?new [0..<?R])"
    unfolding rmap_Inr_iff list_all2_conv_all_nth using mid(2) new(1) by simp
  then have out: "interleaved_order c = Inr (map ?new [0..<?R])"
    using mid(1) assms(4,5) by (simp add: interleaved_order_def)
  have "compute_leaves (own_steps (?new r)) = concat (map dxdw_leaves (construct_stage_exec_order c r))" if "r < ?R" for r
    using split_order_good [of "construct_stage_exec_order c r"] plain_paired_loose [OF rank_order_plain] new(2) [OF that] by auto
  then show ?thesis using new mid(4) by (intro exI [of _ "map ?new [0..<?R]"]) (auto simp: out)
qed

text \<open>
  C13.  The interleaved schedule is built without error, unless the split of the backwards is asked for without the
  overlap, which the constructor rejects.  Without the split every rank keeps its own operations and bubbles in
  order; with it they are what the split makes of them: the backward of an overlap, except on stage 0, becomes its
  input part before the paired forward and its weight part after it, and nothing else changes.  In both modes,
  on every link between two ranks, the receives are the sends, in the same order.
\<close>

theorem interleaved_schedule_built:
  assumes "0 < n_local_stages c" "0 < micro_batch_num c" "0 < real_stage_num c"
  shows "if enable_dxdw_split c \<and> \<not> overlap_b_f c then interleaved_order c = Inl ValueError
    else \<exists>out. interleaved_order c = Inr out \<and> length out = real_stage_num c \<and>
      (\<forall>r < real_stage_num c. if enable_dxdw_split c
         then split_dxdw_order (construct_stage_exec_order c r) = Inr (own_steps (out ! r)) \<and>
           compute_leaves (own_steps (out ! r)) = concat (map dxdw_leaves (construct_stage_exec_order c r))
         else own_steps (out ! r) = construct_stage_exec_order c r) \<and>
      (\<forall>a < real_stage_num c. \<forall>b < real_stage_num c. a \<noteq> b \<longrightarrow>
         link_out (rank_at ''loop'' (stage_num c) (real_stage_num c)) (int b) (out ! a) =
           link_in (rank_at ''loop'' (stage_num c) (real_stage_num c)) (int a) (out ! b))"
proof (cases "enable_dxdw_split c")
  case True
  then show ?thesis using interleaved_split_links [OF assms True] by (simp add: interleaved_order_def)
next
  case False
  then show ?thesis using interleaved_order_links [OF assms False] by simp
qed

text \<open>Two ranks with two chunks each, three micro-batches, overlapped.\<close>

definition two_by_two :: interleaved where
  "two_by_two = \<lparr>stage_num = 4, n_local_stages = 2, micro_batch_num = 3, less_memory = False,
     overlap_b_f = True, enable_dxdw_split = False\<rparr>"

theorem interleaved_stage_legal_witness:
  "micros_at BWD 3 (order_leaves (construct_stage_exec_order two_by_two 1)) = [Some 0, Some 1, Some 2]"
proof -
  have ok: "interleaved_ok two_by_two 1" by (simp add: interleaved_ok_def two_by_two_def real_stage_num_def)
  have "n_local_stages two_by_two = 2" "chunk_stage two_by_two 1 1 = 3" "micro_batch_num two_by_two = 3"
    by (simp_all add: chunk_stage_def two_by_two_def real_stage_num_def)
  then show ?thesis using interleaved_stage_legal [OF ok] unfolding Let_def
    by (metis (no_types, lifting) insert_iff one_less_numeral_iff semiring_norm(76) map_upt_three)
qed

text \<open>
  The comment of the less-memory mode bounds the activations in flight by \<open>V * P - i\<close>.  With five
  micro-batches on four ranks the first round has five of them, and rank 0 keeps nine.
\<close>

lemma less_memory_exceeds_bound:
  "let c = \<lparr>stage_num = 8, n_local_stages = 2, micro_batch_num = 5, less_memory = True,
      overlap_b_f = False, enable_dxdw_split = False\<rparr>;
     started = take 9 (order_leaves (construct_stage_exec_order c 0))
   in map step_type started = replicate 9 FWD \<and> n_local_stages c * real_stage_num c - 0 = 8"
  by code_simp

text \<open>The same schedule with the backwards split: rank 1 runs the input part of the last stage's backward in the overlap.\<close>

theorem interleaved_schedule_built_witness:
  "\<exists>out. interleaved_order (two_by_two\<lparr>enable_dxdw_split := True\<rparr>) = Inr out \<and> length out = 2 \<and>
    BWD_WEIGHT \<in> set (map step_type (compute_leaves (own_steps (out ! 1)))) \<and>
    BWD_INPUT \<in> set (map step_type (compute_leaves (own_steps (out ! 1))))"
proof -
  let ?c = "two_by_two\<lparr>enable_dxdw_split := True\<rparr>"
  have "BWD_WEIGHT \<in> set (map step_type (concat (map dxdw_leaves (construct_stage_exec_order ?c 1))))"
    "BWD_INPUT \<in> set (map step_type (concat (map dxdw_leaves (construct_stage_exec_order ?c 1))))" by code_simp+
  moreover have c: "enable_dxdw_split ?c" "\<not> (enable_dxdw_split ?c \<and> \<not> overlap_b_f ?c)"
    "0 < n_local_stages ?c" "0 < micro_batch_num ?c" "0 < real_stage_num ?c" and R: "real_stage_num ?c = 2"
    by (simp_all add: two_by_two_def real_stage_num_def)
  from interleaved_schedule_built [OF c(3-5), unfolded if_not_P [OF c(2)] if_P [OF c(1)]] obtain out where
    "interleaved_order ?c = Inr out" "length out = real_stage_num ?c"
    "\<forall>r < real_stage_num ?c. split_dxdw_order (construct_stage_exec_order ?c r) = Inr (own_steps (out ! r)) \<and>
       compute_leaves (own_steps (out ! r)) = concat (map dxdw_leaves (construct_stage_exec_order ?c r))" by blast
  moreover have "1 < real_stage_num ?c" by (simp add: R)
  ultimately show ?thesis unfolding R by (metis (no_types, lifting))
qed

end
