(* ===== verification/PipeAlign.thy ===== *)
theory PipeAlign
  imports PipeComms
begin

text \<open>
  The automatic alignment of a pure compute schedule (\<open>auto_align_and_add_send_recv\<close> and its
  simulator in \<open>core/pipeline_parallel/scheduler.py\<close>): the order of every rank is padded at its
  first forward that is followed by a backward, a time-step simulation places the bubbles, and the transfers are
  inserted as in \<open>add_send_recv\<close>, whose third phase is the same code.
\<close>

section \<open>The simulator\<close>

datatype align_item = AlignPad | Item meta_step

type_synonym step_key = "meta_step_type \<times> int option \<times> int option"

record align_state =
  remaining_fwd :: "int list"
  cursors :: "nat list"
  aligned :: "order list"
  done_at :: "step_key \<Rightarrow> nat option"
  last_was_cooldown_bwd :: "bool list"

definition ready_key :: "(step_key \<Rightarrow> nat option) \<Rightarrow> nat \<Rightarrow> step_key \<Rightarrow> bool" where
  "ready_key finished t key = (case finished key of None \<Rightarrow> False | Some t' \<Rightarrow> t' < t)"

text \<open>\<open>_step_dep_ready\<close>; the topology mapping may raise.\<close>

definition step_dep_ready ::
  "meta_step \<Rightarrow> nat \<Rightarrow> nat \<Rightarrow> (step_key \<Rightarrow> nat option) \<Rightarrow> nat \<Rightarrow> (int \<Rightarrow> int res) \<Rightarrow> bool res" where
  "step_dep_ready step rank t finished stage_num rank_of =
     (case stage_index step of
        None \<Rightarrow> if step_type step = FWD \<or> step_type step = BWD then Inl TypeError else Inr True
      | Some si \<Rightarrow>
          if step_type step = FWD then
            (if si = 0 then Inr True
             else rbind (rank_of (si - 1)) (\<lambda>r. Inr (r = int rank \<or> ready_key finished t (FWD, Some (si - 1), micro_index step))))
          else if step_type step = BWD then
            (if si = int stage_num - 1 then Inr True
             else rbind (rank_of (si + 1)) (\<lambda>r. Inr (r = int rank \<or> ready_key finished t (BWD, Some (si + 1), micro_index step))))
          else Inr True)"

definition emit_bubble :: "nat \<Rightarrow> align_state \<Rightarrow> align_state" where
  "emit_bubble rank st = st\<lparr>aligned := (aligned st)[rank := aligned st ! rank @ [None]],
     last_was_cooldown_bwd := (last_was_cooldown_bwd st)[rank := False]\<rparr>"

definition advance :: "nat \<Rightarrow> align_state \<Rightarrow> align_state" where
  "advance rank st = st\<lparr>cursors := (cursors st)[rank := cursors st ! rank + 1]\<rparr>"

definition emit_step :: "nat \<Rightarrow> meta_step \<Rightarrow> nat \<Rightarrow> bool \<Rightarrow> align_state \<Rightarrow> align_state" where
  "emit_step rank step t in_cooldown st =
     (let st1 = advance rank (st\<lparr>aligned := (aligned st)[rank := aligned st ! rank @ [Some step]],
            done_at := (done_at st)((step_type step, stage_index step, micro_index step) := Some t)\<rparr>);
          st2 = (if step_type step = FWD
                 then st1\<lparr>remaining_fwd := (remaining_fwd st1)[rank := remaining_fwd st1 ! rank - 1]\<rparr> else st1)
      in st2\<lparr>last_was_cooldown_bwd := (last_was_cooldown_bwd st2)[rank := in_cooldown \<and> step_type step = BWD]\<rparr>)"

definition step_rank_at ::
  "align_item list list \<Rightarrow> nat \<Rightarrow> (int \<Rightarrow> int res) \<Rightarrow> nat \<Rightarrow> nat \<Rightarrow> align_state \<Rightarrow> align_state res" where
  "step_rank_at padded stage_num rank_of t rank st =
     (if length (padded ! rank) \<le> cursors st ! rank then Inr st
      else case padded ! rank ! (cursors st ! rank) of
        AlignPad \<Rightarrow> Inr (advance rank (emit_bubble rank st))
      | Item item \<Rightarrow>
          let in_cooldown = remaining_fwd st ! rank = 0 in
          if in_cooldown \<and> step_type item = BWD \<and> last_was_cooldown_bwd st ! rank then Inr (emit_bubble rank st)
          else rbind (step_dep_ready item rank t (done_at st) stage_num rank_of) (\<lambda>ready.
            Inr (if ready then emit_step rank item t in_cooldown st else emit_bubble rank st)))"

definition all_done :: "align_item list list \<Rightarrow> nat \<Rightarrow> align_state \<Rightarrow> bool" where
  "all_done padded R st \<longleftrightarrow> (\<forall>r < R. length (padded ! r) \<le> cursors st ! r)"

fun simulate ::
  "align_item list list \<Rightarrow> nat \<Rightarrow> nat \<Rightarrow> (int \<Rightarrow> int res) \<Rightarrow> nat \<Rightarrow> nat \<Rightarrow> align_state \<Rightarrow> align_state res" where
  "simulate padded stage_num R rank_of 0 t st = Inr st"
| "simulate padded stage_num R rank_of (Suc steps) t st =
     (if all_done padded R st then Inr st
      else rbind (rfold (step_rank_at padded stage_num rank_of t) [0..<R] st)
        (simulate padded stage_num R rank_of steps (Suc t)))"

definition is_fwd_item :: "align_item \<Rightarrow> bool" where
  "is_fwd_item a = (case a of AlignPad \<Rightarrow> False | Item s \<Rightarrow> step_type s = FWD)"

definition init_align :: "align_item list list \<Rightarrow> nat \<Rightarrow> align_state" where
  "init_align padded R =
     \<lparr>remaining_fwd = map (\<lambda>r. int (length (filter is_fwd_item (padded ! r)))) [0..<R],
      cursors = replicate R 0, aligned = replicate R [], done_at = (\<lambda>_. None),
      last_was_cooldown_bwd = replicate R False\<rparr>"

definition max_steps :: "align_item list list \<Rightarrow> nat \<Rightarrow> nat" where
  "max_steps padded R = sum_list (map length padded) + R * 20"

definition simulate_aligned_schedule ::
  "align_item list list \<Rightarrow> nat \<Rightarrow> nat \<Rightarrow> (int \<Rightarrow> int res) \<Rightarrow> order list res" where
  "simulate_aligned_schedule padded stage_num R rank_of =
     rbind (simulate padded stage_num R rank_of (max_steps padded R) 0 (init_align padded R)) (\<lambda>st. Inr (aligned st))"

section \<open>Padding\<close>

fun find_1f1b_boundary :: "meta_step list \<Rightarrow> nat" where
  "find_1f1b_boundary (a # b # order) =
     (if step_type a = FWD \<and> step_type b = BWD then 0 else Suc (find_1f1b_boundary (b # order)))"
| "find_1f1b_boundary order = length order"

definition strip :: "order \<Rightarrow> meta_step list" where
  "strip order = map the (filter (\<lambda>a. a \<noteq> None) order)"

definition pad_rank :: "nat \<Rightarrow> nat \<Rightarrow> order \<Rightarrow> align_item list" where
  "pad_rank R rank order =
     (let steps = strip order; boundary = find_1f1b_boundary steps
      in map Item (take boundary steps) @ replicate (R - 1 - rank) AlignPad @ map Item (drop boundary steps))"

definition auto_align_and_add_send_recv :: "order list \<Rightarrow> nat \<Rightarrow> nat \<Rightarrow> string \<Rightarrow> order list res" where
  "auto_align_and_add_send_recv scheduler stage_num R style =
     rbind (rmap (\<lambda>rank. if rank < length scheduler then Inr (pad_rank R rank (scheduler ! rank)) else Inl KeyError) [0..<R])
       (\<lambda>padded. rbind (simulate_aligned_schedule padded stage_num R (stage_to_rank style stage_num R))
         (\<lambda>aligned. add_send_recv aligned stage_num R style))"

section \<open>Soundness of the alignment\<close>

fun items :: "align_item list \<Rightarrow> meta_step list" where
  "items [] = []"
| "items (AlignPad # xs) = items xs"
| "items (Item s # xs) = s # items xs"

definition key_of :: "meta_step \<Rightarrow> step_key" where
  "key_of s = (step_type s, stage_index s, micro_index s)"

text \<open>The step at time \<open>i\<close> has what it depends on: on its own rank, or computed before on another.\<close>

definition computed_before :: "order list \<Rightarrow> nat \<Rightarrow> step_key \<Rightarrow> bool" where
  "computed_before out i key \<longleftrightarrow>
     (\<exists>r < length out. \<exists>j < length (out ! r). j < i \<and> (\<exists>s. out ! r ! j = Some s \<and> key_of s = key))"

definition dep_met :: "(int \<Rightarrow> int res) \<Rightarrow> nat \<Rightarrow> order list \<Rightarrow> nat \<Rightarrow> nat \<Rightarrow> meta_step \<Rightarrow> bool" where
  "dep_met rank_of stage_num out r i s \<longleftrightarrow>
     (step_type s = FWD \<longrightarrow> (\<exists>si. stage_index s = Some si \<and> (si = 0 \<or> rank_of (si - 1) = Inr (int r) \<or>
        computed_before out i (FWD, Some (si - 1), micro_index s)))) \<and>
     (step_type s = BWD \<longrightarrow> (\<exists>si. stage_index s = Some si \<and> (si = int stage_num - 1 \<or> rank_of (si + 1) = Inr (int r) \<or>
        computed_before out i (BWD, Some (si + 1), micro_index s))))"

definition grows :: "order list \<Rightarrow> order list \<Rightarrow> bool" where
  "grows out out' \<longleftrightarrow> list_all2 prefix out out'"

lemma grows_nth:
  assumes "grows out out'" "r < length out" "j < length (out ! r)"
  shows "j < length (out' ! r) \<and> out' ! r ! j = out ! r ! j"
proof -
  have "prefix (out ! r) (out' ! r)" using assms(1,2) by (simp add: grows_def list_all2_conv_all_nth)
  then show ?thesis using assms(3) by (auto simp: prefix_def nth_append)
qed

lemma computed_before_grows: "grows out out' \<Longrightarrow> computed_before out i key \<Longrightarrow> computed_before out' i key"
  unfolding computed_before_def by (metis grows_nth grows_def list_all2_lengthD)

lemma dep_met_grows: "grows out out' \<Longrightarrow> dep_met rank_of n out r i s \<Longrightarrow> dep_met rank_of n out' r i s"
  unfolding dep_met_def using computed_before_grows by blast

lemma grows_append: "k < length out \<Longrightarrow> grows out (out[k := out ! k @ [x]])"
  by (auto simp: grows_def list_all2_conv_all_nth nth_list_update)

lemma strip_append: "strip (xs @ [x]) = strip xs @ (case x of None \<Rightarrow> [] | Some s \<Rightarrow> [s])"
  by (simp add: strip_def split: option.split)

lemma items_take_Suc:
  "c < length xs \<Longrightarrow> items (take (Suc c) xs) = items (take c xs) @ (case xs ! c of AlignPad \<Rightarrow> [] | Item s \<Rightarrow> [s])"
proof (induction xs arbitrary: c)
  case (Cons x xs)
  then show ?case by (cases x; cases c) (auto split: align_item.split)
qed simp

lemma items_prefix: "prefix (items (take c xs)) (items xs)"
proof (induction xs arbitrary: c)
  case (Cons x xs)
  then show ?case by (cases x; cases c) auto
qed simp

text \<open>At time \<open>t\<close>, when the ranks below \<open>k\<close> had their turn, the slots of an unfinished rank are its times.\<close>

definition rank_inv :: "align_item list \<Rightarrow> nat \<Rightarrow> nat \<Rightarrow> order \<Rightarrow> bool" where
  "rank_inv xs now c al \<longleftrightarrow> c \<le> length xs \<and> strip al = items (take c xs) \<and> length al \<le> now \<and>
     (c < length xs \<longrightarrow> length al = now)"

definition sim_inv :: "align_item list list \<Rightarrow> nat \<Rightarrow> (int \<Rightarrow> int res) \<Rightarrow> nat \<Rightarrow> nat \<Rightarrow> nat \<Rightarrow> align_state \<Rightarrow> bool" where
  "sim_inv padded n rank_of R t k st \<longleftrightarrow>
     length (cursors st) = R \<and> length (aligned st) = R \<and>
     (\<forall>r < R. rank_inv (padded ! r) (if r < k then Suc t else t) (cursors st ! r) (aligned st ! r)) \<and>
     (\<forall>key t'. done_at st key = Some t' \<longrightarrow> computed_before (aligned st) (Suc t') key) \<and>
     (\<forall>r < R. \<forall>i < length (aligned st ! r). \<forall>s. aligned st ! r ! i = Some s \<longrightarrow> dep_met rank_of n (aligned st) r i s)"

text \<open>One turn appends at most one slot; the new slot is the current time.\<close>

lemma sim_inv_append:
  assumes inv: "sim_inv padded n rank_of R t k st" and k: "k < R" and st': "cursors st' = (cursors st)[k := c]"
    "aligned st' = (aligned st)[k := aligned st ! k @ [x]]"
    and unfinished: "cursors st ! k < length (padded ! k)"
    and c: "c \<le> length (padded ! k)" "strip (aligned st ! k @ [x]) = items (take c (padded ! k))"
    and fin: "\<And>key t'. done_at st' key = Some t' \<Longrightarrow> done_at st key = Some t' \<or> t' = t \<and> (\<exists>s. x = Some s \<and> key_of s = key)"
    and dep: "\<And>s. x = Some s \<Longrightarrow> dep_met rank_of n (aligned st) k t s"
  shows "sim_inv padded n rank_of R t (Suc k) st'"
proof -
  have len: "length (cursors st) = R" "length (aligned st) = R" using inv by (simp_all add: sim_inv_def)
  have rk: "rank_inv (padded ! r) (if r < k then Suc t else t) (cursors st ! r) (aligned st ! r)" if "r < R" for r
    using inv that by (simp add: sim_inv_def)
  have now: "length (aligned st ! k) = t" using rk [OF k] unfinished by (simp add: rank_inv_def)
  have g: "grows (aligned st) (aligned st')" using grows_append k len st'(2) by metis
  have ranks: "rank_inv (padded ! r) (if r < Suc k then Suc t else t) (cursors st' ! r) (aligned st' ! r)" if "r < R" for r
    using rk [OF that] that len c now unfolding st'
    by (cases "r = k") (auto simp: rank_inv_def less_Suc_eq)
  have "computed_before (aligned st') (Suc t') key" if d: "done_at st' key = Some t'" for key t'
  proof (cases "done_at st key = Some t'")
    case True
    then have "computed_before (aligned st) (Suc t') key" using inv unfolding sim_inv_def by blast
    then show ?thesis by (rule computed_before_grows [OF g])
  next
    case False
    then obtain s where "t' = t" "x = Some s" "key_of s = key" using fin [OF d] by blast
    then show ?thesis using k len now unfolding computed_before_def st'
      by (intro exI [of _ k]) (auto intro!: exI [of _ t] simp: nth_append)
  qed
  moreover have "dep_met rank_of n (aligned st') r i s"
    if "r < R" "i < length (aligned st' ! r)" "aligned st' ! r ! i = Some s" for r i s
  proof (cases "r = k \<and> i = t")
    case True
    then have "x = Some s" using that k len now by (auto simp: st' nth_append)
    then show ?thesis using dep True dep_met_grows [OF g] by blast
  next
    case False
    then have "i < length (aligned st ! r)" "aligned st ! r ! i = Some s"
      using that k len now by (auto simp: st' nth_list_update nth_append split: if_splits)
    then have "dep_met rank_of n (aligned st) r i s" using inv that(1) by (simp add: sim_inv_def)
    then show ?thesis by (rule dep_met_grows [OF g])
  qed
  ultimately show ?thesis using ranks len unfolding sim_inv_def by (simp add: st')
qed

lemma computed_before_mono: "computed_before out i key \<Longrightarrow> i \<le> j \<Longrightarrow> computed_before out j key"
proof -
  assume a: "computed_before out i key" and le: "i \<le> j"
  from a obtain r k s where w: "r < length out" "k < length (out ! r)" "k < i" "out ! r ! k = Some s" "key_of s = key"
    unfolding computed_before_def by blast
  have "k < j" using w(3) le by simp
  then show ?thesis unfolding computed_before_def using w(1,2,4,5) by blast
qed

lemma ready_computed:
  assumes "sim_inv padded n rank_of R t k st" "ready_key (done_at st) t key"
  shows "computed_before (aligned st) t key"
proof -
  obtain t' where "done_at st key = Some t'" "t' < t" using assms(2) by (auto simp: ready_key_def split: option.splits)
  then have "computed_before (aligned st) (Suc t') key" "Suc t' \<le> t"
    using assms(1) unfolding sim_inv_def by (blast, simp)
  then show ?thesis by (rule computed_before_mono)
qed

lemma ready_dep_met:
  assumes inv: "sim_inv padded n rank_of R t k st"
    and ready: "step_dep_ready s k t (done_at st) n rank_of = Inr True"
  shows "dep_met rank_of n (aligned st) k t s"
  using ready ready_computed [OF inv] unfolding dep_met_def step_dep_ready_def
  by (auto split: option.splits if_splits)

lemma turn_inv:
  assumes inv: "sim_inv padded n rank_of R t k st" and k: "k < R"
    and turn: "step_rank_at padded n rank_of t k st = Inr st'"
  shows "sim_inv padded n rank_of R t (Suc k) st'"
proof (cases "length (padded ! k) \<le> cursors st ! k")
  case True
  have "rank_inv (padded ! r) (if r < Suc k then Suc t else t) (cursors st ! r) (aligned st ! r)" if "r < R" for r
  proof -
    have "rank_inv (padded ! r) (if r < k then Suc t else t) (cursors st ! r) (aligned st ! r)"
      using inv that by (simp add: sim_inv_def)
    then show ?thesis using True by (cases "r = k") (auto simp: rank_inv_def)
  qed
  moreover have "st' = st" using turn True by (simp add: step_rank_at_def)
  ultimately show ?thesis using inv unfolding sim_inv_def by blast
next
  case False
  let ?c = "cursors st ! k"
  have len: "length (cursors st) = R" "length (aligned st) = R" using inv by (simp_all add: sim_inv_def)
  have "rank_inv (padded ! k) t ?c (aligned st ! k)"
    using inv k unfolding sim_inv_def by (auto dest: spec [of _ k])
  then have str: "strip (aligned st ! k) = items (take ?c (padded ! k))" by (simp add: rank_inv_def)
  have c: "?c < length (padded ! k)" using False by simp
  have bubble: "sim_inv padded n rank_of R t (Suc k) (emit_bubble k st)"
    by (rule sim_inv_append [OF inv k, of _ ?c None])
      (use c str in \<open>simp_all add: emit_bubble_def strip_append\<close>)
  show ?thesis
  proof (cases "padded ! k ! ?c")
    case AlignPad
    then have "st' = advance k (emit_bubble k st)" using turn False by (simp add: step_rank_at_def)
    then show ?thesis
      by (intro sim_inv_append [OF inv k, of _ "Suc ?c" None])
        (use c str AlignPad in \<open>simp_all add: emit_bubble_def advance_def strip_append items_take_Suc\<close>)
  next
    case (Item s)
    let ?cool = "remaining_fwd st ! k = 0"
    consider "st' = emit_bubble k st"
      | "step_dep_ready s k t (done_at st) n rank_of = Inr True" "st' = emit_step k s t ?cool st"
      using turn False Item by (auto simp: step_rank_at_def Let_def split: if_splits)
    then show ?thesis
    proof cases
      case 1
      then show ?thesis using bubble by simp
    next
      case 2
      have "cursors st' = (cursors st)[k := Suc ?c]" "aligned st' = (aligned st)[k := aligned st ! k @ [Some s]]"
        "done_at st' = (done_at st)(key_of s := Some t)"
        unfolding 2(2) by (simp_all add: emit_step_def advance_def Let_def key_of_def)
      then show ?thesis
        by (intro sim_inv_append [OF inv k, of _ "Suc ?c" "Some s"])
          (use c str Item ready_dep_met [OF inv 2(1)] in \<open>auto simp: strip_append items_take_Suc split: if_splits\<close>)
    qed
  qed
qed

lemma round_inv:
  "sim_inv padded n rank_of R t 0 st \<Longrightarrow> m \<le> R \<Longrightarrow> rfold (step_rank_at padded n rank_of t) [0..<m] st = Inr st' \<Longrightarrow>
     sim_inv padded n rank_of R t m st'"
proof (induction m arbitrary: st')
  case (Suc m)
  from Suc.prems(3) obtain s where s: "rfold (step_rank_at padded n rank_of t) [0..<m] st = Inr s"
    "step_rank_at padded n rank_of t m s = Inr st'" by (auto simp: rfold_append)
  have "sim_inv padded n rank_of R t m s" using Suc.IH [OF Suc.prems(1) _ s(1)] Suc.prems(2) by simp
  then show ?case by (rule turn_inv) (use s(2) Suc.prems(2) in simp_all)
qed simp

lemma next_time: "sim_inv padded n rank_of R t R st \<Longrightarrow> sim_inv padded n rank_of R (Suc t) 0 st"
  by (auto simp: sim_inv_def)

lemma simulate_inv:
  "sim_inv padded n rank_of R t 0 st \<Longrightarrow> simulate padded n R rank_of steps t st = Inr st' \<Longrightarrow>
     \<exists>t'. sim_inv padded n rank_of R t' 0 st' \<and> (all_done padded R st' \<or> t' = t + steps)"
proof (induction steps arbitrary: t st)
  case (Suc steps)
  show ?case
  proof (cases "all_done padded R st")
    case False
    then obtain s where s: "rfold (step_rank_at padded n rank_of t) [0..<R] st = Inr s"
      "simulate padded n R rank_of steps (Suc t) s = Inr st'" using Suc.prems(2) by auto
    have "sim_inv padded n rank_of R (Suc t) 0 s"
      by (rule next_time, rule round_inv [OF Suc.prems(1) _ s(1)]) simp
    from Suc.IH [OF this s(2)] show ?thesis by simp
  qed (use Suc.prems in auto)
qed auto

lemma align_init_inv: "sim_inv padded n rank_of R 0 0 (init_align padded R)"
  by (auto simp: sim_inv_def init_align_def rank_inv_def strip_def)

text \<open>
  C20.  In the aligned schedule every rank's steps are its own steps in order, up to some point, with bubbles
  between them; a forward or backward at time \<open>t\<close> has its producer on its own rank, or it was computed
  on some rank before \<open>t\<close>; and if the time bound was not reached, no step is missing.
\<close>

theorem aligned_schedule_sound:
  assumes "simulate_aligned_schedule padded n R rank_of = Inr out"
  shows "length out = R \<and> (\<forall>r < R. prefix (strip (out ! r)) (items (padded ! r))) \<and>
    (\<forall>r < R. \<forall>i < length (out ! r). \<forall>s. out ! r ! i = Some s \<longrightarrow> dep_met rank_of n out r i s) \<and>
    ((\<forall>r < R. length (out ! r) < max_steps padded R) \<longrightarrow> (\<forall>r < R. strip (out ! r) = items (padded ! r)))"
proof -
  obtain st where st: "simulate padded n R rank_of (max_steps padded R) 0 (init_align padded R) = Inr st" "out = aligned st"
    using assms by (auto simp: simulate_aligned_schedule_def)
  from simulate_inv [OF align_init_inv st(1)] obtain t where t: "sim_inv padded n rank_of R t 0 st"
    "all_done padded R st \<or> t = max_steps padded R" by auto
  have rk: "rank_inv (padded ! r) t (cursors st ! r) (aligned st ! r)" if "r < R" for r
    using t(1) that by (simp add: sim_inv_def)
  have "prefix (strip (out ! r)) (items (padded ! r))" if "r < R" for r
    using rk [OF that] items_prefix by (simp add: rank_inv_def st(2))
  moreover have "strip (out ! r) = items (padded ! r)" if r: "r < R" and short: "\<forall>r < R. length (out ! r) < max_steps padded R" for r
  proof -
    have "length (padded ! r) \<le> cursors st ! r"
    proof (rule ccontr)
      assume u: "\<not> length (padded ! r) \<le> cursors st ! r"
      then have "t = max_steps padded R" using t(2) r by (auto simp: all_done_def)
      then show False using rk [OF r] u short r by (auto simp: rank_inv_def st(2))
    qed
    then show ?thesis using rk [OF r] by (simp add: rank_inv_def st(2))
  qed
  moreover have "length out = R" "\<forall>r < R. \<forall>i < length (out ! r). \<forall>s. out ! r ! i = Some s \<longrightarrow> dep_met rank_of n out r i s"
    using t(1) unfolding sim_inv_def st(2) by blast+
  ultimately show ?thesis by blast
qed

text \<open>All forwards, then all backwards, of one stage.\<close>

definition one_rank :: "nat \<Rightarrow> order" where
  "one_rank n = map (\<lambda>m. Some (mstep (int m) FWD 0)) [0..<n] @ map (\<lambda>m. Some (mstep (int m) BWD 0)) [0..<n]"

text \<open>Two ranks, one stage each, two micro-batches.\<close>

theorem aligned_schedule_sound_witness:
  "\<exists>out. simulate_aligned_schedule
      [pad_rank 2 0 (one_rank 2), pad_rank 2 1 (map (map_option (\<lambda>s. mstep (the (micro_index s)) (step_type s) 1)) (one_rank 2))]
      2 2 (stage_to_rank ''loop'' 2 2) = Inr out \<and> length out = 2"
proof -
  let ?sim = "simulate_aligned_schedule
      [pad_rank 2 0 (one_rank 2), pad_rank 2 1 (map (map_option (\<lambda>s. mstep (the (micro_index s)) (step_type s) 1)) (one_rank 2))]
      2 2 (stage_to_rank ''loop'' 2 2)"
  have "is_ok ?sim" by code_simp
  then obtain out where out: "?sim = Inr out" unfolding is_ok_def by (cases ?sim) auto
  from aligned_schedule_sound [OF out] show ?thesis using out by blast
qed

text \<open>
  The time bound of the simulation is too small for one rank with many backwards: every cooldown backward
  but the first takes two steps, and the bound is the number of steps and 20.  The schedule then ends early, without an
  error: here the last of 22 backwards is missing.
\<close>

definition backwards :: "order list \<Rightarrow> int option list" where
  "backwards sched = map micro_index (filter (\<lambda>s. step_type s = BWD) (strip (concat sched)))"

lemma alignment_drops_backward:
  "map_sum id (\<lambda>out. (length (backwards out), Some 21 \<in> set (backwards out)))
     (auto_align_and_add_send_recv [one_rank 22] 1 1 ''loop'') = (Inr (21, False) :: (nat \<times> bool) res)"
  by code_simp

end
