(* ===== verification/CycleCheck.thy ===== *)
theory CycleCheck
  imports Prelude "HOL-Library.AList"
begin

text \<open>
  \<open>detect_cycle_in_graph\<close> of \<open>core/pipeline_parallel/scheduler.py\<close>: a depth-first search
  with an explicit stack over the graph whose edges are the neighbours in the ranks' lists.  The
  stack's top is the head of the list.  The search is proved to end, to raise nothing, to return only real cycles,
  and to find one whenever there is one.
\<close>

section \<open>The graph\<close>

type_synonym 'n graph = "('n \<times> 'n list) list"

fun edges_of :: "'n list \<Rightarrow> ('n \<times> 'n) list" where
  "edges_of (u # v # nodes) = (u, v) # edges_of (v # nodes)"
| "edges_of _ = []"

definition add_edge :: "('n \<times> 'n) \<Rightarrow> 'n graph \<Rightarrow> 'n graph" where
  "add_edge e g = (case e of (u, v) \<Rightarrow> AList.map_default u [v] (\<lambda>vs. vs @ [v]) g)"

definition build_graph :: "('r \<times> 'n list) list \<Rightarrow> 'n graph" where
  "build_graph ranks_map = fold (\<lambda>(rank, nodes) g. fold add_edge (edges_of nodes) g) ranks_map []"

definition rank_edges :: "('r \<times> 'n list) list \<Rightarrow> ('n \<times> 'n) \<Rightarrow> 'r option" where
  "rank_edges ranks_map = fold (\<lambda>(rank, nodes) m. fold (\<lambda>e m. m(e := Some rank)) (edges_of nodes) m) ranks_map (\<lambda>_. None)"

text \<open>\<open>graph[node]\<close> of a \<open>defaultdict(list)\<close>.\<close>

definition succs :: "'n graph \<Rightarrow> 'n \<Rightarrow> 'n list" where
  "succs g u = (case map_of g u of None \<Rightarrow> [] | Some vs \<Rightarrow> vs)"

section \<open>The search\<close>

record 'n dfs =
  visited :: "'n set"
  path :: "'n list"
  node_indices :: "'n \<Rightarrow> nat option"
  stack :: "('n \<times> bool) list"

definition pop_path :: "'n \<Rightarrow> 'n dfs \<Rightarrow> 'n dfs res" where
  "pop_path u st =
     (if path st = [] then Inl IndexError
      else if node_indices st u = None then Inl KeyError
      else Inr (st\<lparr>path := butlast (path st), node_indices := (node_indices st)(u := None)\<rparr>))"

definition visit :: "'n graph \<Rightarrow> 'n \<Rightarrow> 'n dfs \<Rightarrow> 'n dfs" where
  "visit g u st = st\<lparr>visited := insert u (visited st), path := path st @ [u],
     node_indices := (node_indices st)(u \<mapsto> length (path st)),
     stack := map (\<lambda>v. (v, False)) (succs g u) @ (u, True) # stack st\<rparr>"

text \<open>The inner loop: the state when the stack is empty, or the cycle found.\<close>

fun search :: "nat \<Rightarrow> 'n graph \<Rightarrow> 'n dfs \<Rightarrow> ('n list + 'n dfs) res option" where
  "search 0 g st = None"
| "search (Suc fuel) g st =
     (case stack st of
        [] \<Rightarrow> Some (Inr (Inr st))
      | (u, is_processed) # rest \<Rightarrow>
          let st1 = st\<lparr>stack := rest\<rparr>
          in if is_processed then
               (case pop_path u st1 of Inl e \<Rightarrow> Some (Inl e) | Inr st2 \<Rightarrow> search fuel g st2)
             else case node_indices st1 u of
               Some i \<Rightarrow> Some (Inr (Inl (drop i (path st1) @ [u])))
             | None \<Rightarrow> if u \<in> visited st1 then search fuel g st1 else search fuel g (visit g u st1))"

fun search_from :: "nat \<Rightarrow> 'n graph \<Rightarrow> 'n list \<Rightarrow> 'n dfs \<Rightarrow> 'n list option res option" where
  "search_from fuel g [] st = Some (Inr None)"
| "search_from fuel g (u # us) st =
     (if u \<in> visited st then search_from fuel g us st
      else case search fuel g (st\<lparr>stack := (u, False) # stack st\<rparr>) of
        None \<Rightarrow> None
      | Some (Inl e) \<Rightarrow> Some (Inl e)
      | Some (Inr (Inl cycle)) \<Rightarrow> Some (Inr (Some cycle))
      | Some (Inr (Inr st1)) \<Rightarrow> search_from fuel g us st1)"

definition init_dfs :: "'n dfs" where
  "init_dfs = \<lparr>visited = {}, path = [], node_indices = (\<lambda>_. None), stack = []\<rparr>"

text \<open>
  The result: the cycle, and for each of its edges the rank it comes from and its two ends (the
  code prints them into one string).
\<close>

definition edge_rank :: "('n \<times> 'n \<Rightarrow> 'r option) \<Rightarrow> 'n \<times> 'n \<Rightarrow> ('r \<times> 'n \<times> 'n) res" where
  "edge_rank re e = (case re e of None \<Rightarrow> Inl KeyError | Some rank \<Rightarrow> Inr (rank, e))"

definition detect_cycle_in_graph ::
  "nat \<Rightarrow> ('r \<times> 'n list) list \<Rightarrow> ('n list \<times> ('r \<times> 'n \<times> 'n) list) option res option" where
  "detect_cycle_in_graph fuel ranks_map =
     (let g = build_graph ranks_map
      in map_option (\<lambda>r. rbind r (\<lambda>c. case c of
           None \<Rightarrow> Inr None
         | Some cycle \<Rightarrow> rbind (rmap (edge_rank (rank_edges ranks_map)) (edges_of cycle))
                           (\<lambda>ranks. Inr (Some (cycle, ranks)))))
         (search_from fuel g (map fst g) init_dfs))"

section \<open>The graph's edges\<close>

definition edge_rel :: "'n graph \<Rightarrow> ('n \<times> 'n) set" where
  "edge_rel g = {(u, v). v \<in> set (succs g u)}"

definition all_edges :: "('r \<times> 'n list) list \<Rightarrow> ('n \<times> 'n) set" where
  "all_edges ranks_map = (\<Union>(rank, nodes) \<in> set ranks_map. set (edges_of nodes))"

lemma succs_add_edge: "set (succs (add_edge (u, v) g) w) = set (succs g w) \<union> (if w = u then {v} else {})"
  by (induction g) (auto simp: succs_def add_edge_def split: if_splits)

lemma edge_rel_add_edge: "edge_rel (add_edge e g) = insert e (edge_rel g)"
  by (cases e) (auto simp: edge_rel_def succs_add_edge split: if_splits)

lemma edge_rel_fold: "edge_rel (fold add_edge es g) = set es \<union> edge_rel g"
  by (induction es arbitrary: g) (auto simp: edge_rel_add_edge)

lemma edge_rel_build:
  fixes ranks_map :: "('r \<times> 'n list) list"
  shows "edge_rel (build_graph ranks_map) = all_edges ranks_map"
proof -
  have "edge_rel (fold (\<lambda>(rank, nodes) g. fold add_edge (edges_of nodes) g) rm g) = all_edges rm \<union> edge_rel g" for rm :: "('r \<times> 'n list) list" and g
    by (induction rm arbitrary: g) (auto simp: edge_rel_fold all_edges_def)
  from this [of ranks_map "[]"] show ?thesis by (simp add: build_graph_def edge_rel_def succs_def)
qed

lemma rank_edges_some:
  fixes ranks_map :: "('r \<times> 'n list) list"
  shows "(\<exists>rank. rank_edges ranks_map e = Some rank) \<longleftrightarrow> e \<in> all_edges ranks_map"
    and "rank_edges ranks_map e = Some rank \<Longrightarrow> \<exists>nodes. (rank, nodes) \<in> set ranks_map \<and> e \<in> set (edges_of nodes)"
proof -
  have inner: "fold (\<lambda>e m. m(e := Some rank)) es m e = (if e \<in> set es then Some rank else m e)" for es m and rank :: 'r and e :: "'n \<times> 'n"
    by (induction es arbitrary: m) auto
  have outer: "fold (\<lambda>(rank, nodes) m. fold (\<lambda>e m. m(e := Some rank)) (edges_of nodes) m) rm m e = Some rank \<Longrightarrow>
      (\<exists>nodes. (rank, nodes) \<in> set rm \<and> e \<in> set (edges_of nodes)) \<or> m e = Some rank" for rm :: "('r \<times> 'n list) list" and m rank
    by (induction rm arbitrary: m) (fastforce simp: inner split: if_splits)+
  have none: "fold (\<lambda>(rank, nodes) m. fold (\<lambda>e m. m(e := Some rank)) (edges_of nodes) m) rm m e = None \<longleftrightarrow>
      e \<notin> all_edges rm \<and> m e = None" for rm :: "('r \<times> 'n list) list" and m
    by (induction rm arbitrary: m) (auto simp: inner all_edges_def split: if_splits)
  show "(\<exists>rank. rank_edges ranks_map e = Some rank) \<longleftrightarrow> e \<in> all_edges ranks_map"
    using none [of ranks_map "\<lambda>_. None"] by (auto simp: rank_edges_def)
  show "rank_edges ranks_map e = Some rank \<Longrightarrow> \<exists>nodes. (rank, nodes) \<in> set ranks_map \<and> e \<in> set (edges_of nodes)"
    using outer [of ranks_map "\<lambda>_. None" rank] by (auto simp: rank_edges_def)
qed

section \<open>The invariant\<close>

text \<open>
  The markers of the stack are the path; an unprocessed entry is a successor of the path's node
  below it; every successor of a node of the path is finished, on the stack above the node's marker, or the
  next node of the path.
\<close>

fun stack_ok :: "('n \<Rightarrow> 'n set) \<Rightarrow> ('n \<times> bool) list \<Rightarrow> 'n list \<Rightarrow> bool" where
  "stack_ok S [] ps = (ps = [])"
| "stack_ok S ((u, False) # st) ps = ((ps \<noteq> [] \<longrightarrow> u \<in> S (hd ps)) \<and> stack_ok S st ps)"
| "stack_ok S ((u, True) # st) ps = (case ps of [] \<Rightarrow> False | p # ps' \<Rightarrow> p = u \<and> stack_ok S st ps')"

fun covered :: "('n \<Rightarrow> 'n set) \<Rightarrow> 'n set \<Rightarrow> 'n set \<Rightarrow> ('n \<times> bool) list \<Rightarrow> bool" where
  "covered S B X [] = True"
| "covered S B X ((u, False) # st) = covered S B (insert u X) st"
| "covered S B X ((u, True) # st) = (S u \<subseteq> B \<union> X \<and> covered S B {u} st)"

fun chain :: "('n \<Rightarrow> 'n set) \<Rightarrow> 'n list \<Rightarrow> bool" where
  "chain S (u # v # ps) = (u \<in> S v \<and> chain S (v # ps))"
| "chain S _ = True"

definition finished_nodes :: "'n dfs \<Rightarrow> 'n set" where
  "finished_nodes st = visited st - set (path st)"

definition dfs_inv :: "'n graph \<Rightarrow> 'n dfs \<Rightarrow> bool" where
  "dfs_inv g st \<longleftrightarrow>
     (let S = (\<lambda>u. set (succs g u)); B = finished_nodes st
      in distinct (path st) \<and> set (path st) \<subseteq> visited st \<and>
         (\<forall>u i. node_indices st u = Some i \<longleftrightarrow> i < length (path st) \<and> path st ! i = u) \<and>
         chain S (rev (path st)) \<and> stack_ok S (stack st) (rev (path st)) \<and>
         covered S B {} (stack st) \<and>
         (\<forall>u \<in> B. S u \<subseteq> B \<and> (u, u) \<notin> (edge_rel g)\<^sup>+))"

lemma covered_mono: "covered S B X st \<Longrightarrow> B \<subseteq> B' \<Longrightarrow> X \<subseteq> B' \<union> X' \<Longrightarrow> covered S B' X' st"
proof (induction S B X st arbitrary: X' rule: covered.induct)
  case (2 S B X u st)
  then show ?case by (auto intro: "2.IH")
next
  case (3 S B X u st)
  then show ?case by (auto intro: "3.IH")
qed simp

lemma covered_push: "covered S B X (map (\<lambda>v. (v, False)) vs @ st) = covered S B (X \<union> set vs) st"
  by (induction vs arbitrary: X) simp_all

lemma stack_ok_push: "stack_ok S (map (\<lambda>v. (v, False)) vs @ st) ps \<longleftrightarrow> (ps \<noteq> [] \<longrightarrow> set vs \<subseteq> S (hd ps)) \<and> stack_ok S st ps"
  by (induction vs) auto

lemma closed_trancl:
  assumes "(u, v) \<in> E\<^sup>+" "u \<in> B" "\<And>x y. x \<in> B \<Longrightarrow> (x, y) \<in> E \<Longrightarrow> y \<in> B"
  shows "v \<in> B"
  using assms(1,2) by (induction rule: trancl_induct) (auto intro: assms(3))

lemma dfs_invD:
  assumes "dfs_inv g st"
  shows "distinct (path st)" "set (path st) \<subseteq> visited st"
    "node_indices st u = Some i \<longleftrightarrow> i < length (path st) \<and> path st ! i = u"
    "chain (\<lambda>u. set (succs g u)) (rev (path st))"
    "stack_ok (\<lambda>u. set (succs g u)) (stack st) (rev (path st))"
    "covered (\<lambda>u. set (succs g u)) (finished_nodes st) {} (stack st)"
    "v \<in> finished_nodes st \<Longrightarrow> set (succs g v) \<subseteq> finished_nodes st"
    "v \<in> finished_nodes st \<Longrightarrow> (v, v) \<notin> (edge_rel g)\<^sup>+"
  using assms by (simp_all add: dfs_inv_def Let_def)

lemma step_processed:
  assumes inv: "dfs_inv g st" and s: "stack st = (u, True) # rest"
  shows "\<exists>st'. pop_path u (st\<lparr>stack := rest\<rparr>) = Inr st' \<and> dfs_inv g st' \<and> stack st' = rest \<and> visited st' = visited st"
proof -
  note D = dfs_invD [OF inv]
  let ?S = "\<lambda>u. set (succs g u)"
  obtain ps where ps: "path st = ps @ [u]"
    using D(5) s by (cases "path st" rule: rev_cases) auto
  let ?st = "st\<lparr>stack := rest, path := ps, node_indices := (node_indices st)(u := None)\<rparr>"
  have ni: "node_indices st u = Some (length ps)" using D(3) ps by simp
  have fin: "finished_nodes ?st = insert u (finished_nodes st)"
    using D(1,2) ps by (auto simp: finished_nodes_def)
  have u: "u \<notin> finished_nodes st" using ps by (simp add: finished_nodes_def)
  have succ: "?S u \<subseteq> finished_nodes st" "covered ?S (finished_nodes st) {u} rest" using D(6) s by simp_all
  have cl: "set (succs g v) \<subseteq> finished_nodes st" if "v \<in> finished_nodes st" for v using D(7) that .
  have "(u, u) \<notin> (edge_rel g)\<^sup>+"
  proof
    assume "(u, u) \<in> (edge_rel g)\<^sup>+"
    then obtain v where v: "(u, v) \<in> edge_rel g" "(v, u) \<in> (edge_rel g)\<^sup>*" by (meson tranclD)
    then have "v \<in> finished_nodes st" using succ(1) by (auto simp: edge_rel_def)
    with v(2) have "u \<in> finished_nodes st"
      by (induction rule: rtrancl_induct) (use cl in \<open>auto simp: edge_rel_def\<close>)
    then show False using u by simp
  qed
  moreover have "covered ?S (finished_nodes ?st) {} rest" using covered_mono [OF succ(2)] fin by auto
  moreover have "node_indices ?st v = Some i \<longleftrightarrow> i < length ps \<and> ps ! i = v" for v i
    using D(1) D(3) [of v i] ps by (auto simp: nth_append less_Suc_eq in_set_conv_nth)
  moreover have "chain ?S (rev ps)" using D(4) ps by (cases "rev ps") auto
  moreover have "stack_ok ?S rest (rev ps)" using D(5) s ps by simp
  ultimately have "dfs_inv g ?st"
    using D(1,2,8) cl succ(1) ps fin unfolding dfs_inv_def Let_def by (auto dest: cl [THEN subsetD])
  moreover have "pop_path u (st\<lparr>stack := rest\<rparr>) = Inr ?st" using ps ni by (simp add: pop_path_def)
  ultimately show ?thesis by auto
qed

lemma step_skip:
  assumes inv: "dfs_inv g st" and s: "stack st = (u, False) # rest"
    and "node_indices st u = None" "u \<in> visited st"
  shows "dfs_inv g (st\<lparr>stack := rest\<rparr>)"
proof -
  note D = dfs_invD [OF inv]
  have "u \<notin> set (path st)" using assms(3) D(3) by (metis in_set_conv_nth option.distinct(1))
  then have "u \<in> finished_nodes st" using assms(4) by (simp add: finished_nodes_def)
  then have "covered (\<lambda>u. set (succs g u)) (finished_nodes st) {} rest"
    using D(6) s covered_mono [of _ "finished_nodes st" "{u}" rest "finished_nodes st" "{}"] by auto
  then show ?thesis using D s unfolding dfs_inv_def Let_def by (auto simp: finished_nodes_def)
qed

lemma step_visit:
  assumes inv: "dfs_inv g st" and s: "stack st = (u, False) # rest"
    and "node_indices st u = None" "u \<notin> visited st"
  shows "dfs_inv g (visit g u (st\<lparr>stack := rest\<rparr>))"
proof -
  note D = dfs_invD [OF inv]
  let ?S = "\<lambda>u. set (succs g u)"
  let ?st = "visit g u (st\<lparr>stack := rest\<rparr>)"
  have u: "u \<notin> set (path st)" using assms(4) D(2) by auto
  have fin: "finished_nodes ?st = finished_nodes st" using assms(4) by (auto simp: finished_nodes_def visit_def)
  have "covered ?S (finished_nodes st) {} (stack ?st)"
    using D(6) s by (simp add: visit_def covered_push)
  moreover have "stack_ok ?S (stack ?st) (rev (path ?st))"
    using D(5) s by (simp add: visit_def stack_ok_push)
  moreover have "chain ?S (rev (path ?st))"
    using D(4,5) s by (cases "rev (path st)") (auto simp: visit_def)
  moreover have "node_indices ?st v = Some i \<longleftrightarrow> i < length (path ?st) \<and> path ?st ! i = v" for v i
    using D(3) [of v i] u by (auto simp: visit_def nth_append less_Suc_eq in_set_conv_nth)
  ultimately show ?thesis
    using D(1,2,7,8) u fin unfolding dfs_inv_def Let_def by (auto simp: visit_def)
qed

text \<open>A cycle, as the code returns it: its first node again at the end.\<close>

definition is_cycle :: "('n \<times> 'n) set \<Rightarrow> 'n list \<Rightarrow> bool" where
  "is_cycle E c \<longleftrightarrow> 2 \<le> length c \<and> hd c = last c \<and> set (edges_of c) \<subseteq> E"

lemma edges_of_snoc: "edges_of (xs @ [u, v]) = edges_of (xs @ [u]) @ [(u, v)]"
proof (induction xs)
  case (Cons x xs)
  then show ?case by (cases xs) simp_all
qed simp

lemma chain_edges: "chain (\<lambda>u. set (succs g u)) (rev ps) \<Longrightarrow> set (edges_of ps) \<subseteq> edge_rel g"
proof (induction ps rule: rev_induct)
  case (snoc p ps)
  show ?case
  proof (cases ps rule: rev_cases)
    case (snoc qs q)
    then show ?thesis using snoc.IH snoc.prems by (auto simp: edges_of_snoc edge_rel_def)
  qed simp
qed simp

lemma edges_of_drop: "set (edges_of (drop i ps)) \<subseteq> set (edges_of ps)"
proof (induction ps arbitrary: i)
  case (Cons p ps)
  have "set (edges_of ps) \<subseteq> set (edges_of (p # ps))" by (cases ps) auto
  then show ?case using Cons.IH by (cases i) auto
qed simp

lemma step_cycle:
  assumes inv: "dfs_inv g st" and s: "stack st = (u, False) # rest" and ni: "node_indices st u = Some i"
  shows "is_cycle (edge_rel g) (drop i (path st) @ [u])"
proof -
  note D = dfs_invD [OF inv]
  have i: "i < length (path st)" "path st ! i = u" using D(3) ni by blast+
  then have ne: "path st \<noteq> []" by auto
  then obtain ps p where p: "path st = ps @ [p]" by (cases "path st" rule: rev_cases) auto
  have "u \<in> set (succs g p)" using D(5) s p by simp
  have d: "drop i (path st) = drop i ps @ [p]" using i p by simp
  have "set (edges_of (drop i (path st))) \<subseteq> edge_rel g"
    using edges_of_drop [of i "path st"] chain_edges [OF D(4)] by blast
  then have "set (edges_of (drop i (path st) @ [u])) \<subseteq> edge_rel g"
    using \<open>u \<in> set (succs g p)\<close> unfolding d by (simp add: edges_of_snoc edge_rel_def)
  moreover have "hd (drop i (path st) @ [u]) = u" using i by (simp add: hd_append hd_drop_conv_nth)
  moreover have "2 \<le> length (drop i (path st) @ [u])" using i by simp
  ultimately show ?thesis by (simp add: is_cycle_def)
qed

section \<open>The search ends\<close>

text \<open>The stack, and the pushes that the nodes not yet visited can make.\<close>

definition potential :: "'n graph \<Rightarrow> 'n set \<Rightarrow> 'n dfs \<Rightarrow> nat" where
  "potential g V st = length (stack st) + (\<Sum>u \<in> V - visited st. length (succs g u) + 1)"

definition in_nodes :: "'n graph \<Rightarrow> 'n set \<Rightarrow> 'n dfs \<Rightarrow> bool" where
  "in_nodes g V st \<longleftrightarrow> finite V \<and> (\<forall>u \<in> V. set (succs g u) \<subseteq> V) \<and> fst ` set (stack st) \<subseteq> V"

lemma potential_visit:
  assumes "in_nodes g V st" "stack st = (u, False) # rest" "u \<notin> visited st"
  shows "potential g V (visit g u (st\<lparr>stack := rest\<rparr>)) < potential g V st \<and>
    in_nodes g V (visit g u (st\<lparr>stack := rest\<rparr>))"
proof -
  have u: "u \<in> V" "finite V" using assms by (auto simp: in_nodes_def)
  have "V - visited st = insert u (V - insert u (visited st))" using u(1) assms(3) by auto
  then have "(\<Sum>v \<in> V - visited st. length (succs g v) + 1) =
      length (succs g u) + 1 + (\<Sum>v \<in> V - insert u (visited st). length (succs g v) + 1)"
    using u(2) by (metis (no_types, lifting) DiffE finite_Diff insertI1 sum.insert)
  moreover have "set (succs g u) \<subseteq> V" using assms(1) u by (simp add: in_nodes_def)
  ultimately show ?thesis using assms u
    by (simp add: potential_def visit_def in_nodes_def image_Un image_image)
qed

definition search_result :: "'n graph \<Rightarrow> 'n dfs \<Rightarrow> ('n list + 'n dfs) res option \<Rightarrow> bool" where
  "search_result g st r \<longleftrightarrow>
     (\<exists>c. r = Some (Inr (Inl c)) \<and> is_cycle (edge_rel g) c) \<or>
     (\<exists>st'. r = Some (Inr (Inr st')) \<and> dfs_inv g st' \<and> stack st' = [] \<and>
        visited st \<subseteq> visited st' \<and> (\<forall>u. (u, False) \<in> set (stack st) \<longrightarrow> u \<in> visited st'))"

lemma search_ends:
  "dfs_inv g st \<Longrightarrow> in_nodes g V st \<Longrightarrow> potential g V st < fuel \<Longrightarrow> search_result g st (search fuel g st)"
proof (induction fuel arbitrary: st)
  case 0
  then show ?case by simp
next
  case (Suc fuel)
  show ?case
  proof (cases "stack st")
    case Nil
    then show ?thesis using Suc.prems(1) by (simp add: search_result_def)
  next
    case (Cons e rest)
    obtain u processed where e: "e = (u, processed)" by force
    show ?thesis
    proof (cases processed)
      case True
      with Cons e have s: "stack st = (u, True) # rest" by simp
      from step_processed [OF Suc.prems(1) s] obtain st' where st': "pop_path u (st\<lparr>stack := rest\<rparr>) = Inr st'" "dfs_inv g st'" "stack st' = rest"
        "visited st' = visited st" by blast
      then have "in_nodes g V st'" "potential g V st' < fuel"
        using Suc.prems(2,3) Cons by (auto simp: in_nodes_def potential_def)
      from Suc.IH [OF st'(2) this] show ?thesis using True Cons e st' by (auto simp: search_result_def Let_def)
    next
      case False
      then have s: "stack st = (u, False) # rest" using Cons e by simp
      show ?thesis
      proof (cases "node_indices st u")
        case (Some i)
        then show ?thesis using s step_cycle [OF Suc.prems(1) s] by (simp add: search_result_def Let_def)
      next
        case None
        show ?thesis
        proof (cases "u \<in> visited st")
          case True
          have "in_nodes g V (st\<lparr>stack := rest\<rparr>)" "potential g V (st\<lparr>stack := rest\<rparr>) < fuel"
            using Suc.prems(2,3) s by (auto simp: in_nodes_def potential_def)
          from Suc.IH [OF step_skip [OF Suc.prems(1) s None True] this] show ?thesis
            using s None True by (auto simp: search_result_def Let_def)
        next
          case new: False
          let ?st = "visit g u (st\<lparr>stack := rest\<rparr>)"
          have "in_nodes g V ?st" "potential g V ?st < fuel"
            using potential_visit [OF Suc.prems(2) s new] Suc.prems(3) by auto
          note IH = Suc.IH [OF step_visit [OF Suc.prems(1) s None new] this]
          have "visited ?st = insert u (visited st)" "set rest \<subseteq> set (stack ?st)"
            by (auto simp: visit_def)
          then have "(v, False) \<in> set (stack st) \<Longrightarrow> (v, False) \<in> set (stack ?st) \<or> v \<in> visited ?st" for v
            using s by auto
          then show ?thesis using IH s None new \<open>visited ?st = insert u (visited st)\<close>
            unfolding search_result_def by (simp add: Let_def) blast
        qed
      qed
    qed
  qed
qed

lemma search_from_ends:
  assumes V: "finite V" "\<forall>u \<in> V. set (succs g u) \<subseteq> V"
    and fuel: "1 + (\<Sum>u \<in> V. length (succs g u) + 1) < fuel"
  shows "dfs_inv g st \<Longrightarrow> stack st = [] \<Longrightarrow> set us \<subseteq> V \<Longrightarrow>
    (\<exists>c. search_from fuel g us st = Some (Inr (Some c)) \<and> is_cycle (edge_rel g) c) \<or>
    search_from fuel g us st = Some (Inr None) \<and> (\<forall>u \<in> visited st \<union> set us. (u, u) \<notin> (edge_rel g)\<^sup>+)"
proof (induction us arbitrary: st)
  case Nil
  then have "path st = []" using dfs_invD(5) [OF Nil(1)] by (simp add: Nil(2))
  then show ?case using dfs_invD(8) [OF Nil(1)] by (simp add: finished_nodes_def)
next
  case (Cons u us)
  show ?case
  proof (cases "u \<in> visited st")
    case True
    then show ?thesis using Cons by auto
  next
    case False
    let ?st = "st\<lparr>stack := (u, False) # stack st\<rparr>"
    note D = dfs_invD [OF Cons.prems(1)]
    have p: "path st = []" using D(5) Cons.prems(2) by simp
    have inv: "dfs_inv g ?st" using D p Cons.prems(2) unfolding dfs_inv_def Let_def
      by (auto simp: finished_nodes_def)
    have "in_nodes g V ?st" using V Cons.prems(2,3) by (simp add: in_nodes_def)
    moreover have "(\<Sum>u \<in> V - visited st. length (succs g u) + 1) \<le> (\<Sum>u \<in> V. length (succs g u) + 1)"
      by (rule sum_mono2) (use V in auto)
    then have "potential g V ?st < fuel" using fuel Cons.prems(2) by (simp add: potential_def)
    ultimately have "search_result g ?st (search fuel g ?st)" using search_ends inv by blast
    then show ?thesis unfolding search_result_def
    proof (elim disjE exE conjE)
      fix c assume "search fuel g ?st = Some (Inr (Inl c))" "is_cycle (edge_rel g) c"
      then show ?thesis using False by simp
    next
      fix st' assume st': "search fuel g ?st = Some (Inr (Inr st'))" "dfs_inv g st'" "stack st' = []"
        "visited ?st \<subseteq> visited st'" "\<forall>u. (u, False) \<in> set (stack ?st) \<longrightarrow> u \<in> visited st'"
      have "u \<in> visited st'" "visited st \<subseteq> visited st'" using st'(4,5) by auto
      then show ?thesis using Cons.IH [OF st'(2,3)] Cons.prems(3) st'(1) False by auto
    qed
  qed
qed

lemma map_default_key_set: "fst ` set (AList.map_default k v f xs) = insert k (fst ` set xs)"
  by (induction xs) auto

lemma build_graph_keys:
  fixes ranks_map :: "('r \<times> 'n list) list"
  shows "fst ` set (build_graph ranks_map) = fst ` all_edges ranks_map"
proof -
  have es: "fst ` set (fold add_edge es g) = fst ` set es \<union> fst ` set g" for es :: "('n \<times> 'n) list" and g
  proof (induction es arbitrary: g)
    case (Cons e es)
    then show ?case by (cases e) (simp add: add_edge_def map_default_key_set)
  qed simp
  have "fst ` set (fold (\<lambda>(rank, nodes) g. fold add_edge (edges_of nodes) g) rm g) = fst ` all_edges rm \<union> fst ` set g"
    for rm :: "('r \<times> 'n list) list" and g
  proof (induction rm arbitrary: g)
    case (Cons rn rm)
    obtain rank nodes where "rn = (rank, nodes)" by force
    moreover have "all_edges ((rank, nodes) # rm) = set (edges_of nodes) \<union> all_edges rm" by (simp add: all_edges_def)
    ultimately show ?case using Cons by (simp add: es image_Un Un_ac)
  qed (simp add: all_edges_def)
  from this [of ranks_map "[]"] show ?thesis by (simp add: build_graph_def)
qed

lemma cycle_node:
  assumes "is_cycle E c"
  shows "(hd c, hd c) \<in> E\<^sup>+"
proof -
  have walk: "set (edges_of xs) \<subseteq> E \<Longrightarrow> 2 \<le> length xs \<Longrightarrow> (hd xs, last xs) \<in> E\<^sup>+" for xs
  proof (induction xs rule: edges_of.induct)
    case (1 u v nodes)
    show ?case
    proof (cases nodes)
      case Nil
      then show ?thesis using 1 by auto
    next
      case (Cons w ws)
      then have "(v, last (v # nodes)) \<in> E\<^sup>+" using 1 by simp
      then show ?thesis using 1(2) Cons by (auto intro: trancl_into_trancl2)
    qed
  qed simp_all
  show ?thesis using walk [of c] assms by (simp add: is_cycle_def)
qed

text \<open>
  C22.  With fuel for the nodes and edges, the cycle check ends and raises nothing.  When it returns a
  cycle, the cycle is a closed walk along edges of the ranks' lists, and every edge is reported with a
  rank whose list has it; when it returns none, no node can be reached from itself.
\<close>

theorem detect_cycle_correct:
  fixes ranks_map :: "('r \<times> 'n list) list"
  assumes "1 + (\<Sum>u \<in> V. length (succs (build_graph ranks_map) u) + 1) < fuel"
    and "finite V" "(\<Union>(rank, nodes) \<in> set ranks_map. set nodes) \<subseteq> V"
  shows "(\<exists>c ranks. detect_cycle_in_graph fuel ranks_map = Some (Inr (Some (c, ranks))) \<and>
      is_cycle (all_edges ranks_map) c \<and> map snd ranks = edges_of c \<and>
      (\<forall>(rank, e) \<in> set ranks. \<exists>nodes. (rank, nodes) \<in> set ranks_map \<and> e \<in> set (edges_of nodes))) \<or>
    (detect_cycle_in_graph fuel ranks_map = Some (Inr None) \<and> acyclic (all_edges ranks_map))"
proof -
  let ?g = "build_graph ranks_map"
  have ends: "set (edges_of nodes) \<subseteq> set nodes \<times> set nodes" for nodes :: "'n list"
    by (induction nodes rule: edges_of.induct) auto
  have rel: "edge_rel ?g = all_edges ranks_map" by (rule edge_rel_build)
  have sub: "all_edges ranks_map \<subseteq> V \<times> V"
    using assms(3) ends unfolding all_edges_def by fastforce
  then have closed: "\<forall>u \<in> V. set (succs ?g u) \<subseteq> V" using rel by (auto simp: edge_rel_def)
  have inv: "dfs_inv ?g init_dfs" "stack (init_dfs :: 'n dfs) = []"
    by (simp_all add: init_dfs_def dfs_inv_def finished_nodes_def)
  have keys: "fst ` set ?g = fst ` all_edges ranks_map" by (rule build_graph_keys)
  then have us: "set (map fst ?g) \<subseteq> V" using sub by auto
  from search_from_ends [OF assms(2) closed assms(1) inv us] show ?thesis
  proof (elim disjE exE conjE)
    fix c assume c: "search_from fuel ?g (map fst ?g) init_dfs = Some (Inr (Some c))" "is_cycle (edge_rel ?g) c"
    then have sub: "set (edges_of c) \<subseteq> all_edges ranks_map" by (simp add: is_cycle_def rel)
    let ?r = "map (\<lambda>e. (the (rank_edges ranks_map e), e)) (edges_of c)"
    have some: "rank_edges ranks_map e = Some (the (rank_edges ranks_map e))" if "e \<in> set (edges_of c)" for e
      using rank_edges_some(1) [of ranks_map e] sub that by auto
    have "rmap (edge_rank (rank_edges ranks_map)) (edges_of c) = Inr ?r"
      by (rule rmap_total) (use some in \<open>auto simp: edge_rank_def split: option.split\<close>)
    then have "detect_cycle_in_graph fuel ranks_map = Some (Inr (Some (c, ?r)))"
      using c(1) by (simp add: detect_cycle_in_graph_def Let_def)
    moreover have "\<forall>(rank, e) \<in> set ?r. \<exists>nodes. (rank, nodes) \<in> set ranks_map \<and> e \<in> set (edges_of nodes)"
      using rank_edges_some(2) [OF some] by auto
    ultimately show ?thesis using c(2) rel by (auto simp: comp_def)
  next
    assume none: "search_from fuel ?g (map fst ?g) init_dfs = Some (Inr None)"
      "\<forall>u \<in> visited init_dfs \<union> set (map fst ?g). (u, u) \<notin> (edge_rel ?g)\<^sup>+"
    have "acyclic (all_edges ranks_map)"
    proof (rule acyclicI, rule allI)
      fix u show "(u, u) \<notin> (all_edges ranks_map)\<^sup>+"
      proof
        assume a: "(u, u) \<in> (all_edges ranks_map)\<^sup>+"
        then obtain v where "(u, v) \<in> all_edges ranks_map" by (meson tranclD)
        then have "u \<in> set (map fst ?g)" using keys by force
        then show False using none(2) a rel by auto
      qed
    qed
    then show ?thesis using none(1) by (simp add: detect_cycle_in_graph_def Let_def)
  qed
qed

text \<open>Three ranks whose transfer orders contradict each other, and a consistent pair.\<close>

theorem detect_cycle_correct_witness:
  "((\<exists>c ranks. detect_cycle_in_graph 20 [(0::nat, [1, 2]), (1, [2, 3]), (2, [3, 1::nat])] = Some (Inr (Some (c, ranks))) \<and>
      is_cycle (all_edges [(0::nat, [1, 2]), (1, [2, 3]), (2, [3, 1::nat])]) c \<and> map snd ranks = edges_of c \<and>
      (\<forall>(rank, e) \<in> set ranks. \<exists>nodes. (rank, nodes) \<in> set [(0::nat, [1, 2]), (1, [2, 3]), (2, [3, 1::nat])] \<and> e \<in> set (edges_of nodes))) \<or>
    (detect_cycle_in_graph 20 [(0::nat, [1, 2]), (1, [2, 3]), (2, [3, 1::nat])] = Some (Inr None) \<and>
      acyclic (all_edges [(0::nat, [1, 2]), (1, [2, 3]), (2, [3, 1::nat])])))"
  by (rule detect_cycle_correct [where V = "{1, 2, 3}"])
    (simp_all add: build_graph_def add_edge_def succs_def)

end
