(* ===== verification/PipeValidate.thy ===== *)
theory PipeValidate
  imports PipeStep CycleCheck "HOL-Library.Char_ord"
begin

text \<open>
  The validation of a finished schedule (\<open>generate_operations\<close>, \<open>parse_and_validate\<close> and
  \<open>validate_pipeline_execution\<close> of \<open>core/pipeline_parallel/scheduler.py\<close>): every transfer becomes a
  string that names both ranks, and the strings of a rank are looked up at the ranks they name.  The strings are the
  code's strings.  What is logged is a list; the order in which Python iterates over a set of two ranks is
  not specified, the model takes them as they are written.
\<close>

section \<open>Strings\<close>

definition micro_str :: "int option \<Rightarrow> string" where
  "micro_str m = (case m of None \<Rightarrow> ''None'' | Some i \<Rightarrow> int_str i)"

type_synonym comm_pair = "int \<times> int \<times> int option"

definition format_op :: "comm_pair \<Rightarrow> nat \<Rightarrow> string" where
  "format_op pair count = (case pair of (source, target, micro) \<Rightarrow>
     ''Send_Receive_('' @ int_str source @ '')->('' @ int_str target @ '')_micro'' @ micro_str micro @ ''_'' @
     nat_str count @ ''th'')"

section \<open>The operations of a schedule\<close>

definition forward_comm :: "nat \<Rightarrow> (int \<times> int) list" where
  "forward_comm stages = map (\<lambda>i. (int i, int i + 1)) (filter (\<lambda>i. i + 1 < stages) [0..<stages])"

definition backward_comm :: "nat \<Rightarrow> (int \<times> int) list" where
  "backward_comm stages = map (\<lambda>i. (int i, int i - 1)) (filter (\<lambda>i. 0 \<le> int i - 1) [0..<stages])"

definition find_send_target :: "nat \<Rightarrow> int option \<Rightarrow> meta_step_type \<Rightarrow> int option" where
  "find_send_target stages stage op_type =
     (case stage of None \<Rightarrow> None
      | Some i \<Rightarrow> if op_type = FWD_SEND then map_of (forward_comm stages) i else map_of (backward_comm stages) i)"

definition find_recv_source :: "nat \<Rightarrow> int option \<Rightarrow> meta_step_type \<Rightarrow> int option" where
  "find_recv_source stages stage op_type =
     map_option fst (find (\<lambda>(src, dst). Some dst = stage)
       (if op_type = FWD_RECV then forward_comm stages else backward_comm stages))"

text \<open>The pair a step is counted under, if it is a transfer with a peer.\<close>

definition comm_pair_of :: "string \<Rightarrow> nat \<Rightarrow> nat \<Rightarrow> int \<Rightarrow> meta_step \<Rightarrow> comm_pair option res" where
  "comm_pair_of com_type stages real_stage rank step =
     (if step_type step = FWD_SEND \<or> step_type step = BWD_SEND then
        (case find_send_target stages (stage_index step) (step_type step) of
           None \<Rightarrow> Inr None
         | Some target \<Rightarrow> rbind (stage_to_rank com_type stages real_stage target)
             (\<lambda>target_rank. Inr (Some (rank, target_rank, micro_index step))))
      else if step_type step = FWD_RECV \<or> step_type step = BWD_RECV then
        (case find_recv_source stages (stage_index step) (step_type step) of
           None \<Rightarrow> Inr None
         | Some source \<Rightarrow> rbind (stage_to_rank com_type stages real_stage source)
             (\<lambda>source_rank. Inr (Some (source_rank, rank, micro_index step))))
      else Inr None)"

type_synonym formatted = "(string \<times> string list) list"

definition add_operation ::
  "string \<Rightarrow> nat \<Rightarrow> nat \<Rightarrow> int \<Rightarrow> meta_step option \<Rightarrow> formatted \<times> (comm_pair \<Rightarrow> nat) \<Rightarrow> (formatted \<times> (comm_pair \<Rightarrow> nat)) res" where
  "add_operation com_type stages real_stage rank a = (\<lambda>(formatted, counter).
     case a of
       None \<Rightarrow> Inl AttributeError
     | Some step \<Rightarrow> rbind (comm_pair_of com_type stages real_stage rank step) (\<lambda>p. case p of
           None \<Rightarrow> Inr (formatted, counter)
         | Some pair \<Rightarrow>
             let count = counter pair + 1; op = format_op pair count
             in Inr (AList.map_default (int_str rank) [op] (\<lambda>ops. ops @ [op]) formatted, counter(pair := count))))"

definition rank_operations ::
  "string \<Rightarrow> nat \<Rightarrow> nat \<Rightarrow> int \<times> order \<Rightarrow> formatted \<Rightarrow> formatted res" where
  "rank_operations com_type stages real_stage = (\<lambda>(rank, steps) formatted.
     rbind (rfold (add_operation com_type stages real_stage rank) steps (formatted, \<lambda>_. 0)) (\<lambda>s. Inr (fst s)))"

definition generate_operations :: "(int \<times> order) list \<Rightarrow> nat \<Rightarrow> string \<Rightarrow> formatted res" where
  "generate_operations order_list chunk_num com_type =
     (let real_stage = length order_list; stages = real_stage * chunk_num
      in rfold (rank_operations com_type stages real_stage) order_list [])"

section \<open>The validation\<close>

text \<open>\<open>re.findall\<close> with the pattern of a number in parentheses.\<close>

function find_groups :: "string \<Rightarrow> string list" where
  "find_groups [] = []"
| "find_groups (c # cs) =
     (if c = CHR ''('' \<and> takeWhile is_digit cs \<noteq> [] \<and> dropWhile is_digit cs \<noteq> [] \<and> hd (dropWhile is_digit cs) = CHR '')''
      then takeWhile is_digit cs # find_groups (tl (dropWhile is_digit cs)) else find_groups cs)"
  by pat_completeness auto

termination
proof (relation "measure length")
  fix c :: char and cs :: string
  have "length (dropWhile is_digit cs) \<le> length cs" by (rule length_dropWhile_le)
  then show "(tl (dropWhile is_digit cs), c # cs) \<in> measure length" by simp
qed simp_all

definition parse_elements :: "string \<Rightarrow> string list" where
  "parse_elements v = remdups (take 2 (find_groups v))"

datatype log =
    MissingKeys string "string list"
  | MissingValue string string

definition check_value :: "bool \<Rightarrow> formatted \<Rightarrow> string \<Rightarrow> log list" where
  "check_value all_rank data v =
     (let elements = parse_elements v; keys = map fst data; missing = filter (\<lambda>e. e \<notin> set keys) elements
      in if all_rank \<and> missing \<noteq> [] then [MissingKeys v missing]
         else map (\<lambda>e. MissingValue e v)
           (filter (\<lambda>e. case map_of data e of None \<Rightarrow> False | Some vs \<Rightarrow> v \<notin> set vs)
             (if all_rank then elements else filter (\<lambda>e. e \<in> set keys) elements)))"

definition parse_and_validate :: "formatted \<Rightarrow> bool \<Rightarrow> log list" where
  "parse_and_validate data all_rank = concat (map (\<lambda>(key, vs). concat (map (check_value all_rank data) vs)) data)"

record validation =
  formatted_operations :: formatted
  logged :: "log list"
  cycle_result :: "(string list \<times> (string \<times> string \<times> string) list) option"
  has_cycle :: bool

text \<open>The fuel is the cycle search's; \<open>None\<close> is an exhausted fuel.\<close>

definition validate_pipeline_execution ::
  "nat \<Rightarrow> (int \<times> order) list \<Rightarrow> nat \<Rightarrow> string \<Rightarrow> validation res option" where
  "validate_pipeline_execution fuel order_list chunk_num com_type =
     (case generate_operations order_list chunk_num com_type of
        Inl e \<Rightarrow> Some (Inl e)
      | Inr ops \<Rightarrow> map_option (\<lambda>r. rbind r (\<lambda>cycle. Inr
          \<lparr>formatted_operations = ops, logged = parse_and_validate ops True, cycle_result = cycle,
           has_cycle = (case cycle of None \<Rightarrow> False | Some (nodes, _) \<Rightarrow> nodes \<noteq> [])\<rparr>))
          (detect_cycle_in_graph fuel ops))"

section \<open>Strings are read back\<close>

lemma micro_str_inj [simp]: "micro_str m = micro_str m' \<longleftrightarrow> m = m'"
proof -
  have "int_str i \<noteq> ''None''" for i using int_str_chars [of "CHR ''N''" i] by auto
  then show ?thesis by (auto simp: micro_str_def split: option.splits) (metis)+
qed

lemma micro_str_chars: "CHR ''_'' \<notin> set (micro_str m)" "CHR ''('' \<notin> set (micro_str m)"
  using int_str_chars by (auto simp: micro_str_def split: option.splits) fastforce+

lemma split_at: "c \<notin> set xs \<Longrightarrow> c \<notin> set xs' \<Longrightarrow> xs @ c # ys = xs' @ c # ys' \<longleftrightarrow> xs = xs' \<and> ys = ys'"
  by (auto simp: append_eq_append_conv2 append_eq_Cons_conv Cons_eq_append_conv)

lemma format_op_inj: "format_op p k = format_op p' k' \<longleftrightarrow> p = p' \<and> k = k'"
proof -
  obtain a b m a' b' m' where p: "p = (a, b, m)" "p' = (a', b', m')" by (metis prod_cases3)
  have close: "CHR '')'' \<notin> set (int_str i)" for i using int_str_chars [of "CHR '')''" i] by auto
  have t: "CHR ''t'' \<notin> set (nat_str n)" for n using nat_str_digits [of n] by auto
  show ?thesis unfolding p format_op_def
    using split_at [OF close close] split_at [OF micro_str_chars(1) micro_str_chars(1)] split_at [OF t t]
    by (auto simp del: append_assoc simp: append_assoc [symmetric])
qed

lemma find_groups_skip: "CHR ''('' \<notin> set xs \<Longrightarrow> find_groups (xs @ ys) = find_groups ys"
  by (induction xs) auto

lemma find_groups_hit:
  assumes "\<forall>c \<in> set ds. is_digit c" "ds \<noteq> []"
  shows "find_groups (CHR ''('' # ds @ CHR '')'' # ys) = ds # find_groups ys"
proof -
  have "takeWhile is_digit (ds @ CHR '')'' # ys) = ds" "dropWhile is_digit (ds @ CHR '')'' # ys) = CHR '')'' # ys"
    using assms(1) by (simp_all add: takeWhile_append2 dropWhile_append2)
  then show ?thesis using assms(2) by simp
qed

lemma find_groups_format: "find_groups (format_op (int a, int b, m) k) = [nat_str a, nat_str b]"
proof -
  have "CHR ''('' \<notin> set (nat_str n)" for n using nat_str_digits [of n] by auto
  then have rest: "find_groups (''_micro'' @ micro_str m @ ''_'' @ nat_str k @ ''th'') = []"
    using find_groups_skip [of "''_micro'' @ micro_str m @ ''_'' @ nat_str k @ ''th''" "[]"] micro_str_chars(2) by simp
  have "find_groups (format_op (int a, int b, m) k) =
      find_groups (''Send_Receive_'' @ CHR ''('' # nat_str a @ CHR '')'' # ''->'' @ CHR ''('' # nat_str b @ CHR '')'' #
        ''_micro'' @ micro_str m @ ''_'' @ nat_str k @ ''th'')"
    by (simp add: format_op_def int_str_def)
  also have "\<dots> = nat_str a # find_groups (''->'' @ CHR ''('' # nat_str b @ CHR '')'' #
        ''_micro'' @ micro_str m @ ''_'' @ nat_str k @ ''th'')"
    by (subst find_groups_skip) (simp, subst find_groups_hit, simp_all add: nat_str_digits)
  also have "\<dots> = nat_str a # nat_str b # find_groups (''_micro'' @ micro_str m @ ''_'' @ nat_str k @ ''th'')"
    by (subst find_groups_skip) (simp, subst find_groups_hit, simp_all add: nat_str_digits)
  finally show ?thesis by (simp only: rest)
qed

text \<open>
  The name of a transfer determines its two ranks, its micro-batch and its number, and the ranks are read
  back from it.
\<close>

theorem operation_names_roundtrip:
  "(format_op p k = format_op p' k' \<longleftrightarrow> p = p' \<and> k = k') \<and>
   parse_elements (format_op (int a, int b, m) n) = remdups [int_str (int a), int_str (int b)]"
  using format_op_inj find_groups_format by (simp add: parse_elements_def int_str_def)

section \<open>The operations of the ranks\<close>











section \<open>What the validation finds\<close>





















end
