(* ===== verification/Mpipe.thy ===== *)
theory Mpipe
  imports PipeInterleaved "HOL-Library.Multiset"
begin

text \<open>
  The MPipe Transpose schedule (\<open>core/pipeline_parallel/mpipe/schedule.py\<close>) and the sampler that
  shards the data reads of its ranks (\<open>mpipe/sampler.py\<close>): who owns a micro-batch, the transfer
  blocks and the transpose prefix of a rank, the steps inserted into rank 0's body, the cooldown suffix of
  the owners, and the layered order.  The body is the interleaved schedule; the executor of the steps, which
  works on tensors, is not modelled.
\<close>

section \<open>Owners\<close>

definition mpipe_owned_micros :: "nat \<Rightarrow> nat \<Rightarrow> nat \<Rightarrow> string \<Rightarrow> nat set res" where
  "mpipe_owned_micros pp_size micro_num pp_rank mode =
     (let nt = min pp_size micro_num
      in if nt \<le> pp_rank then Inr {}
         else if mode = ''full'' then Inr (set (filter (\<lambda>m. m mod nt = pp_rank) [0..<micro_num]))
         else if mode = ''min'' then Inr (if pp_rank = 0 then set (0 # [nt..<micro_num]) else {pp_rank})
         else Inl ValueError)"

text \<open>\<open>owner_of\<close>, of the class and of the suffix.\<close>

definition owner_of :: "nat \<Rightarrow> string \<Rightarrow> nat \<Rightarrow> nat" where
  "owner_of nt mode micro = (if mode = ''min'' then (if nt \<le> micro then 0 else micro) else micro mod nt)"

definition prefix_owned_micros :: "nat \<Rightarrow> nat \<Rightarrow> nat \<Rightarrow> string \<Rightarrow> nat list" where
  "prefix_owned_micros rank nt micro_num mode =
     (if nt \<le> rank then []
      else if mode = ''min'' then [rank]
      else filter (\<lambda>m. m mod nt = rank) [0..<micro_num])"

section \<open>The sampler of a rank\<close>

definition owned_slots :: "nat list \<Rightarrow> nat \<Rightarrow> 'a list \<Rightarrow> 'a list" where
  "owned_slots owned micro_bs chunk = concat (map (\<lambda>m. take micro_bs (drop (m * micro_bs) chunk)) owned)"

text \<open>\<open>__iter__\<close>: the loop over the base sampler with the samples of the current step.\<close>

fun sampler_loop :: "nat list \<Rightarrow> nat \<Rightarrow> nat \<Rightarrow> 'a list \<Rightarrow> 'a list \<Rightarrow> 'a list" where
  "sampler_loop owned micro_bs step_size chunk [] = []"
| "sampler_loop owned micro_bs step_size chunk (idx # base) =
     (let chunk' = chunk @ [idx]
      in if length chunk' = step_size
         then owned_slots owned micro_bs chunk' @ sampler_loop owned micro_bs step_size [] base
         else sampler_loop owned micro_bs step_size chunk' base)"

record sampler =
  owned_micros :: "nat list"
  micro_bs :: nat
  step_size :: nat

definition make_sampler :: "nat set \<Rightarrow> nat \<Rightarrow> nat \<Rightarrow> sampler" where
  "make_sampler owned micro_batch_size pp_micro_batch_num =
     \<lparr>owned_micros = sorted_list_of_set owned, micro_bs = micro_batch_size,
      step_size = pp_micro_batch_num * micro_batch_size\<rparr>"

definition sampler_iter :: "sampler \<Rightarrow> 'a list \<Rightarrow> 'a list" where
  "sampler_iter s base = sampler_loop (owned_micros s) (micro_bs s) (step_size s) [] base"

definition sampler_len :: "sampler \<Rightarrow> 'a list \<Rightarrow> nat res" where
  "sampler_len s base =
     (if step_size s = 0 then Inl ZeroDivisionError
      else Inr (length base div step_size s * length (owned_micros s) * micro_bs s))"

section \<open>The layered order\<close>

record mpipe =
  has_trainable :: bool
  owner_backward :: bool
  num_transpose_layers :: nat
  overflow_mode :: string

type_synonym transfer_types = "meta_step_type \<times> meta_step_type \<times> meta_step_type"

definition PREFIX_SEND_TYPES :: transfer_types where
  "PREFIX_SEND_TYPES = (DATA_SEND, CUSTOM MPIPE_FWD_SEND, CUSTOM MPIPE_GRAPH_SEND)"

definition PREFIX_RECV_TYPES :: transfer_types where
  "PREFIX_RECV_TYPES = (DATA_RECV, CUSTOM MPIPE_FWD_RECV, CUSTOM MPIPE_GRAPH_RECV)"

definition prefix_transfer_steps :: "nat list \<Rightarrow> transfer_types \<Rightarrow> bool \<Rightarrow> bool \<Rightarrow> meta_step list" where
  "prefix_transfer_steps micros step_types is_dataload_only ship_graph =
     (let (data_type, fwd_type, graph_type) = step_types;
          block = (\<lambda>t. map (\<lambda>m. mstep (int m) t (-1)) micros)
      in block data_type @
         (if is_dataload_only then [] else block fwd_type @ (if ship_graph then block graph_type else [])))"

definition is_dataload_only :: "mpipe \<Rightarrow> bool" where
  "is_dataload_only p \<longleftrightarrow> num_transpose_layers p = 0"

definition ship_graph :: "mpipe \<Rightarrow> bool" where
  "ship_graph p \<longleftrightarrow> has_trainable p \<and> \<not> owner_backward p"

definition local_prefix :: "mpipe \<Rightarrow> nat \<Rightarrow> nat list \<Rightarrow> meta_step list" where
  "local_prefix p rank owned =
     (if has_trainable p \<and> \<not> is_dataload_only p then [mstep (int rank) (CUSTOM MPIPE_PARAM_BROADCAST) (-1)] else []) @
     concat (map (\<lambda>m. mstep (int m) DATA_LOAD (-1) #
       (if is_dataload_only p then [] else [mstep (int m) (CUSTOM MPIPE_TRANSPOSE_FWD) (-1)])) owned)"

definition non_owned_micros :: "mpipe \<Rightarrow> nat \<Rightarrow> nat \<Rightarrow> nat list \<Rightarrow> nat list" where
  "non_owned_micros p nt micro_num owned =
     (if overflow_mode p = ''min'' then [1..<nt] else filter (\<lambda>m. m \<notin> set owned) [0..<micro_num])"

definition build_transpose_prefix :: "mpipe \<Rightarrow> nat \<Rightarrow> nat \<Rightarrow> nat \<Rightarrow> meta_step list" where
  "build_transpose_prefix p rank nt micro_num =
     (let owned = prefix_owned_micros rank nt micro_num (overflow_mode p); pre = local_prefix p rank owned
      in if rank \<noteq> 0 then pre @ prefix_transfer_steps owned PREFIX_SEND_TYPES (is_dataload_only p) (ship_graph p)
         else pre @ prefix_transfer_steps (non_owned_micros p nt micro_num owned) PREFIX_RECV_TYPES
           (is_dataload_only p) (ship_graph p))"

definition build_owner_backward_suffix :: "mpipe \<Rightarrow> nat \<Rightarrow> nat \<Rightarrow> nat \<Rightarrow> meta_step list" where
  "build_owner_backward_suffix p rank nt micro_num =
     (if rank = 0 then map (\<lambda>m. mstep (int m) (CUSTOM MPIPE_GRAD_SEND) 0)
        (filter (\<lambda>m. owner_of nt (overflow_mode p) m \<noteq> 0) [0..<micro_num])
      else if rank < nt then map (\<lambda>m. mstep (int m) (CUSTOM MPIPE_GRAD_RECV_WITH_BACKWARD) 0)
        (filter (\<lambda>m. owner_of nt (overflow_mode p) m = rank) [0..<micro_num])
      else [])"

text \<open>The steps before and after one step of rank 0's body, whose bubbles were dropped.\<close>

definition stage0 :: "meta_step_type \<Rightarrow> meta_step \<Rightarrow> bool" where
  "stage0 t step \<longleftrightarrow> step_type step = t \<and> meta_step.stage_index step = Some 0"

definition patch_before :: "mpipe \<Rightarrow> nat \<Rightarrow> meta_step \<Rightarrow> meta_step list" where
  "patch_before p nt step =
     (case micro_index step of
        None \<Rightarrow> []
      | Some m \<Rightarrow>
          if overflow_mode p = ''min'' \<and> stage0 FWD step \<and> int nt \<le> m then
            mstep m DATA_LOAD (-1) #
            (if is_dataload_only p then [] else [mstep m (CUSTOM MPIPE_TRANSPOSE_FWD) (-1)])
          else [])"

definition patch_after :: "mpipe \<Rightarrow> meta_step \<Rightarrow> meta_step list" where
  "patch_after p step =
     (if stage0 BWD step \<and> has_trainable p \<and> \<not> owner_backward p
      then [MetaStep (micro_index step) (CUSTOM MPIPE_TRANSPOSE_BWD) (Some (-1)) [] []] else [])"

definition insert_rank0_preprocess_steps :: "mpipe \<Rightarrow> nat \<Rightarrow> meta_step list \<Rightarrow> meta_step list" where
  "insert_rank0_preprocess_steps p nt order =
     (if \<not> has_trainable p \<and> overflow_mode p = ''full'' then order
      else concat (map (\<lambda>step. patch_before p nt step @ [step] @ patch_after p step) order))"

text \<open>A body order without its bubbles and loads.\<close>

definition body_steps :: "order \<Rightarrow> meta_step list" where
  "body_steps order = filter (\<lambda>s. step_type s \<noteq> DATA_LOAD) (map the (filter (\<lambda>a. a \<noteq> None) order))"

definition mpipe_rank_order :: "mpipe \<Rightarrow> nat \<Rightarrow> nat \<Rightarrow> nat \<Rightarrow> order \<Rightarrow> meta_step list" where
  "mpipe_rank_order p nt micro_num rank body =
     build_transpose_prefix p rank nt micro_num @
     (if rank = 0 then insert_rank0_preprocess_steps p nt (body_steps body) else body_steps body) @
     (if owner_backward p then build_owner_backward_suffix p rank nt micro_num @
        [MetaStep None (CUSTOM MPIPE_GRAD_REDUCE) (Some 0) [] []] else [])"

definition num_transpose_micro_batches :: "interleaved \<Rightarrow> nat" where
  "num_transpose_micro_batches c = min (real_stage_num c) (micro_batch_num c)"

text \<open>
  \<open>construct_exec_order\<close>, after the constructor's check of the mode and of the flags.
  Owner-backward is effective only for a trainable preprocess, and the body is never overlapped.
\<close>

definition mpipe_exec_order :: "mpipe \<Rightarrow> interleaved \<Rightarrow> meta_step list list res" where
  "mpipe_exec_order p c =
     (if overflow_mode p \<notin> {''full'', ''min''} then Inl ValueError
      else let p' = p\<lparr>owner_backward := owner_backward p \<and> has_trainable p\<rparr>;
               c' = c\<lparr>overlap_b_f := False, enable_dxdw_split := False\<rparr>;
               nt = num_transpose_micro_batches c'
           in rbind (interleaved_order c') (\<lambda>body_order.
                Inr (map (\<lambda>rank. mpipe_rank_order p' nt (micro_batch_num c') rank (body_order ! rank))
                  [0..<real_stage_num c'])))"

section \<open>One owner per micro-batch\<close>

definition mode_ok :: "string \<Rightarrow> bool" where
  "mode_ok mode \<longleftrightarrow> mode = ''full'' \<or> mode = ''min''"

lemma owner_bounds: "0 < nt \<Longrightarrow> owner_of nt mode m < nt"
  by (auto simp: owner_of_def)

definition owned :: "nat \<Rightarrow> nat \<Rightarrow> nat \<Rightarrow> string \<Rightarrow> nat set" where
  "owned pp micro_num r mode = {m. m < micro_num \<and> owner_of (min pp micro_num) mode m = r}"

lemma owned_micros:
  assumes "0 < micro_num" "0 < pp" "mode_ok mode"
  shows "mpipe_owned_micros pp micro_num r mode = Inr (owned pp micro_num r mode)"
proof (cases "min pp micro_num \<le> r")
  case True
  have "0 < min pp micro_num" using assms by simp
  then have "owner_of (min pp micro_num) mode m < min pp micro_num" for m by (rule owner_bounds)
  then have "owner_of (min pp micro_num) mode m \<noteq> r" for m using True by (metis leD)
  then have "owned pp micro_num r mode = {}" by (simp add: owned_def)
  then show ?thesis using True by (simp add: mpipe_owned_micros_def)
next
  case False
  then show ?thesis using assms
    by (auto simp: mpipe_owned_micros_def owned_def owner_of_def mode_ok_def Let_def)
qed

lemma owned_disjoint: "r \<noteq> r' \<Longrightarrow> owned pp micro_num r mode \<inter> owned pp micro_num r' mode = {}"
  by (auto simp: owned_def)

lemma owned_cover:
  assumes "0 < micro_num" "0 < pp"
  shows "(\<Union>r < pp. owned pp micro_num r mode) = {..<micro_num}"
proof -
  have "owner_of (min pp micro_num) mode m < pp" for m
    using owner_bounds [of "min pp micro_num" mode m] assms by (simp add: min_less_iff_conj)
  then show ?thesis by (auto simp: owned_def)
qed

lemma finite_owned [simp]: "finite (owned pp micro_num r mode)"
  by (simp add: owned_def)

section \<open>The samplers split the stream\<close>

lemma sampler_chunk:
  "length chunk + length xs = step \<Longrightarrow> xs \<noteq> [] \<Longrightarrow>
     sampler_loop own bs step chunk (xs @ base) = owned_slots own bs (chunk @ xs) @ sampler_loop own bs step [] base"
proof (induction xs arbitrary: chunk)
  case (Cons x xs)
  show ?case
  proof (cases "xs = []")
    case False
    then have "Suc (length chunk) \<noteq> step" using Cons.prems(1) by auto
    then show ?thesis using Cons.IH [of "chunk @ [x]"] Cons.prems False by (simp add: Let_def)
  qed (use Cons.prems in simp)
qed simp

lemma sampler_rest: "length chunk + length base < step \<Longrightarrow> sampler_loop own bs step chunk base = []"
  by (induction base arbitrary: chunk) simp_all

lemma sampler_step:
  assumes "0 < step" "step \<le> length base"
  shows "sampler_loop own bs step [] base = owned_slots own bs (take step base) @ sampler_loop own bs step [] (drop step base)"
proof -
  have "length (take step base) = step" "take step base \<noteq> []" using assms by auto
  from sampler_chunk [of "[]" "take step base" step own bs "drop step base"] this show ?thesis by simp
qed

lemma slots_length:
  assumes "\<forall>m \<in> set own. m < micro_num" "length chunk = micro_num * bs"
  shows "length (owned_slots own bs chunk) = length own * bs"
  using assms(1)
proof (induction own)
  case (Cons m own)
  have "Suc m * bs \<le> micro_num * bs" using Cons.prems by (intro mult_le_mono1) simp
  then have "min (length chunk - m * bs) bs = bs" using assms(2) by simp
  then show ?case using Cons by (simp add: owned_slots_def)
qed (simp add: owned_slots_def)

lemma chunk_slices: "length chunk = n * bs \<Longrightarrow> owned_slots [0..<n] bs chunk = chunk"
proof (induction n arbitrary: chunk)
  case (Suc n)
  have "owned_slots [0..<n] bs chunk = owned_slots [0..<n] bs (take (n * bs) chunk)"
  proof -
    have "take bs (drop (m * bs) chunk) = take bs (drop (m * bs) (take (n * bs) chunk))" if "m < n" for m
    proof -
      have "m * bs + bs \<le> n * bs" using that by (metis Suc_leI add.commute mult_Suc mult_le_mono1)
      then show ?thesis by (simp add: drop_take min_def)
    qed
    then show ?thesis unfolding owned_slots_def by (intro arg_cong [of _ _ concat] map_cong) simp_all
  qed
  also have "\<dots> = take (n * bs) chunk" using Suc.prems by (intro Suc.IH) simp
  finally show ?case using Suc.prems by (simp add: owned_slots_def)
qed (simp add: owned_slots_def)

lemma mset_slots:
  "mset (owned_slots (sorted_list_of_set A) bs chunk) = (\<Sum>m \<in> A. mset (take bs (drop (m * bs) chunk)))" if "finite A"
proof -
  have "mset (owned_slots xs bs chunk) = (\<Sum>m \<leftarrow> xs. mset (take bs (drop (m * bs) chunk)))" for xs
    by (induction xs) (simp_all add: owned_slots_def)
  then show ?thesis using that by (simp add: sum_list_distinct_conv_sum_set)
qed

lemma owners_slots:
  assumes "0 < micro_num" "0 < pp" "length chunk = micro_num * bs"
  shows "(\<Sum>r < pp. mset (owned_slots (sorted_list_of_set (owned pp micro_num r mode)) bs chunk)) = mset chunk"
proof -
  have "(\<Sum>r < pp. mset (owned_slots (sorted_list_of_set (owned pp micro_num r mode)) bs chunk)) =
      (\<Sum>r < pp. \<Sum>m \<in> owned pp micro_num r mode. mset (take bs (drop (m * bs) chunk)))"
    by (simp add: mset_slots)
  also have "\<dots> = (\<Sum>m \<in> (\<Union>r < pp. owned pp micro_num r mode). mset (take bs (drop (m * bs) chunk)))"
    by (rule sum.UNION_disjoint [symmetric]) (simp_all add: owned_disjoint)
  also have "\<dots> = mset (owned_slots (sorted_list_of_set {..<micro_num}) bs chunk)"
    by (simp only: owned_cover [OF assms(1,2)] mset_slots [OF finite_lessThan])
  also have "\<dots> = mset chunk" using chunk_slices [OF assms(3)] by (simp add: lessThan_atLeast0)
  finally show ?thesis .
qed

text \<open>
  C16.  The micro-batches of every step are split among the ranks' samplers: a sampler yields as many indices as
  its length says, and together the samplers yield every index of the full steps exactly once and nothing of the
  trailing partial step.
\<close>

theorem samplers_split_stream:
  assumes "0 < micro_num" "0 < pp" "0 < bs" "mode_ok mode"
    and "\<And>r. mpipe_owned_micros pp micro_num r mode = Inr (own r)"
  shows "(\<forall>r. sampler_len (make_sampler (own r) bs micro_num) base =
      Inr (length (sampler_iter (make_sampler (own r) bs micro_num) base))) \<and>
    (\<Sum>r < pp. mset (sampler_iter (make_sampler (own r) bs micro_num) base)) =
      mset (take (length base div (micro_num * bs) * (micro_num * bs)) base)"
proof -
  have own: "own r = owned pp micro_num r mode" for r using assms(5) owned_micros [OF assms(1,2,4)] by simp
  let ?step = "micro_num * bs"
  let ?it = "\<lambda>r. sampler_loop (sorted_list_of_set (owned pp micro_num r mode)) bs ?step []"
  have step: "0 < ?step" using assms(1,3) by simp
  have len: "length (?it r base) = length base div ?step * card (owned pp micro_num r mode) * bs" for r
  proof (induction "length base" arbitrary: base rule: less_induct)
    case less
    show ?case
    proof (cases "length base < ?step")
      case False
      have "length (?it r (drop ?step base)) = length (drop ?step base) div ?step * card (owned pp micro_num r mode) * bs"
        using False step by (intro less) (simp del: nat_0_less_mult_iff)
      moreover have "length (owned_slots (sorted_list_of_set (owned pp micro_num r mode)) bs (take ?step base)) =
          card (owned pp micro_num r mode) * bs"
        using False by (subst slots_length [of _ micro_num]) (auto simp: owned_def)
      moreover have "length base div ?step = Suc (length (drop ?step base) div ?step)"
        using False step by (simp add: le_div_geq)
      ultimately show ?thesis using sampler_step [OF step, of base] False by (simp add: algebra_simps)
    qed (simp add: sampler_rest)
  qed
  have split: "(\<Sum>r < pp. mset (?it r base)) = mset (take (length base div ?step * ?step) base)"
  proof (induction "length base" arbitrary: base rule: less_induct)
    case less
    show ?case
    proof (cases "length base < ?step")
      case False
      have "(\<Sum>r < pp. mset (?it r (drop ?step base))) = mset (take (length (drop ?step base) div ?step * ?step) (drop ?step base))"
        using False step by (intro less) (simp del: nat_0_less_mult_iff)
      moreover have "length base div ?step = Suc (length (drop ?step base) div ?step)"
        using False step by (simp add: le_div_geq)
      moreover have "(\<Sum>r < pp. mset (owned_slots (sorted_list_of_set (owned pp micro_num r mode)) bs (take ?step base))) =
          mset (take ?step base)"
        using False by (intro owners_slots assms(1,2)) simp
      ultimately show ?thesis using sampler_step [OF step, of base] False
        by (simp add: sum.distrib take_add)
    qed (simp add: sampler_rest)
  qed
  show ?thesis using len split step by (simp add: own sampler_len_def sampler_iter_def make_sampler_def)
qed

section \<open>Matching transfers\<close>

text \<open>The transfers of the given types in a list of steps: their kind and micro-batch.\<close>

definition transfers_of :: "transfer_types \<Rightarrow> meta_step list \<Rightarrow> (nat \<times> nat) list" where
  "transfers_of types xs = (let (data_type, fwd_type, graph_type) = types in
     concat (map (\<lambda>s. let m = nat (the (micro_index s)) in
       if step_type s = data_type then [(0, m)] else if step_type s = fwd_type then [(1, m)]
       else if step_type s = graph_type then [(2, m)] else []) xs))"

definition grads_of :: "meta_step_type \<Rightarrow> meta_step list \<Rightarrow> nat list" where
  "grads_of t xs = map (\<lambda>s. nat (the (micro_index s))) (filter (\<lambda>s. step_type s = t) xs)"

lemma transfers_of_append: "transfers_of types (xs @ ys) = transfers_of types xs @ transfers_of types ys"
  by (simp add: transfers_of_def split: prod.split)

definition block_transfers :: "nat list \<Rightarrow> bool \<Rightarrow> bool \<Rightarrow> (nat \<times> nat) list" where
  "block_transfers micros only_data graph =
     map (Pair 0) micros @ (if only_data then [] else map (Pair 1) micros @ (if graph then map (Pair 2) micros else []))"

lemma transfers_of_block:
  assumes "types = PREFIX_SEND_TYPES \<or> types = PREFIX_RECV_TYPES"
  shows "transfers_of types (prefix_transfer_steps micros types only_data graph) = block_transfers micros only_data graph"
proof -
  have "transfers_of (d, f, g) (map (\<lambda>m. mstep (int m) t (-1)) ms) =
      map (Pair (if t = d then 0 else if t = f then 1 else 2)) ms" if "t \<in> {d, f, g}" for d f g t ms
    using that by (induction ms) (auto simp: transfers_of_def)
  then show ?thesis using assms
    by (auto simp: prefix_transfer_steps_def block_transfers_def transfers_of_append Let_def PREFIX_SEND_TYPES_def
        PREFIX_RECV_TYPES_def)
qed

lemma transfers_of_local:
  assumes "types = PREFIX_SEND_TYPES \<or> types = PREFIX_RECV_TYPES"
  shows "transfers_of types (local_prefix p rank own) = []"
proof -
  have "transfers_of types (concat (map (\<lambda>m. mstep (int m) DATA_LOAD (-1) #
      (if is_dataload_only p then [] else [mstep (int m) (CUSTOM MPIPE_TRANSPOSE_FWD) (-1)])) own)) = []"
    using assms by (induction own) (auto simp: transfers_of_def PREFIX_SEND_TYPES_def PREFIX_RECV_TYPES_def Let_def)
  then show ?thesis using assms
    by (auto simp: local_prefix_def transfers_of_append) (auto simp: transfers_of_def PREFIX_SEND_TYPES_def PREFIX_RECV_TYPES_def)
qed

lemma filter_block: "filter (\<lambda>(k, m). P m) (block_transfers micros d g) = block_transfers (filter P micros) d g"
  by (simp add: block_transfers_def filter_map comp_def)

lemma non_owned_of:
  assumes "mode_ok (overflow_mode p)" "0 < nt" "nt \<le> micro_num" "0 < r"
  shows "filter (\<lambda>m. owner_of nt (overflow_mode p) m = r)
      (non_owned_micros p nt micro_num (prefix_owned_micros 0 nt micro_num (overflow_mode p))) =
    prefix_owned_micros r nt micro_num (overflow_mode p)"
proof (cases "overflow_mode p = ''min''")
  case True
  have "filter (\<lambda>m. owner_of nt ''min'' m = r) [1..<nt] = filter (\<lambda>m. m = r) [1..<nt]"
    by (rule filter_cong) (auto simp: owner_of_def)
  also have "\<dots> = (if r < nt then [r] else [])"
    using assms(4) by (induction nt) auto
  finally show ?thesis using True assms(4) by (simp add: non_owned_micros_def prefix_owned_micros_def)
next
  case False
  have own0: "set (prefix_owned_micros 0 nt micro_num (overflow_mode p)) = {m. m < micro_num \<and> m mod nt = 0}"
    using False assms(2) by (auto simp: prefix_owned_micros_def)
  have "filter (\<lambda>m. owner_of nt (overflow_mode p) m = r)
      (filter (\<lambda>m. m \<notin> {m. m < micro_num \<and> m mod nt = 0}) [0..<micro_num]) = filter (\<lambda>m. m mod nt = r) [0..<micro_num]"
    unfolding filter_filter by (rule filter_cong) (use False assms(4) in \<open>auto simp: owner_of_def\<close>)
  moreover have "filter (\<lambda>m. m mod nt = r) [0..<micro_num] = []" if "nt \<le> r"
    using that assms(2) by (auto simp: filter_empty_conv) (metis leD mod_less_divisor)
  ultimately show ?thesis using False assms(4) own0 unfolding non_owned_micros_def
    by (auto simp: prefix_owned_micros_def)
qed

lemma non_owned_remote:
  assumes "mode_ok (overflow_mode p)" "0 < nt"
    and "m \<in> set (non_owned_micros p nt micro_num (prefix_owned_micros 0 nt micro_num (overflow_mode p)))"
  shows "0 < owner_of nt (overflow_mode p) m \<and> owner_of nt (overflow_mode p) m < nt"
  using assms by (auto simp: non_owned_micros_def prefix_owned_micros_def owner_of_def mode_ok_def split: if_splits)

text \<open>
  C15.  In the transpose phase every rank sends to rank 0 exactly what rank 0 receives of its micro-batches, in
  the same order, and rank 0 receives from owners only; in the owner-backward suffix every owner receives
  exactly the gradients that rank 0 sends for its micro-batches, in the same order.
\<close>

theorem mpipe_links_match:
  assumes "0 < micro_num" "0 < pp" "mode_ok (overflow_mode p)" "nt = min pp micro_num" "0 < r"
  shows "transfers_of PREFIX_SEND_TYPES (build_transpose_prefix p r nt micro_num) =
      filter (\<lambda>(k, m). owner_of nt (overflow_mode p) m = r)
        (transfers_of PREFIX_RECV_TYPES (build_transpose_prefix p 0 nt micro_num)) \<and>
    (\<forall>(k, m) \<in> set (transfers_of PREFIX_RECV_TYPES (build_transpose_prefix p 0 nt micro_num)).
      0 < owner_of nt (overflow_mode p) m \<and> owner_of nt (overflow_mode p) m < pp) \<and>
    grads_of (CUSTOM MPIPE_GRAD_RECV_WITH_BACKWARD) (build_owner_backward_suffix p r nt micro_num) =
      filter (\<lambda>m. owner_of nt (overflow_mode p) m = r)
        (grads_of (CUSTOM MPIPE_GRAD_SEND) (build_owner_backward_suffix p 0 nt micro_num))"
proof -
  have nt: "0 < nt" "nt \<le> micro_num" "nt \<le> pp" using assms by simp_all
  let ?own = "\<lambda>r. prefix_owned_micros r nt micro_num (overflow_mode p)"
  have send: "transfers_of PREFIX_SEND_TYPES (build_transpose_prefix p r nt micro_num) =
      block_transfers (?own r) (is_dataload_only p) (ship_graph p)"
    using assms(5) by (simp add: build_transpose_prefix_def Let_def transfers_of_append transfers_of_local transfers_of_block)
  have recv: "transfers_of PREFIX_RECV_TYPES (build_transpose_prefix p 0 nt micro_num) =
      block_transfers (non_owned_micros p nt micro_num (?own 0)) (is_dataload_only p) (ship_graph p)"
    by (simp add: build_transpose_prefix_def Let_def transfers_of_append transfers_of_local transfers_of_block)
  have grads: "grads_of t (map (\<lambda>m. mstep (int m) t s) ms) = ms" for t s ms
    by (simp add: grads_of_def filter_map comp_def)
  have remote: "owner_of nt (overflow_mode p) m < nt" for m using nt(1) by (rule owner_bounds)
  show ?thesis
  proof (intro conjI)
    show "\<forall>(k, m) \<in> set (transfers_of PREFIX_RECV_TYPES (build_transpose_prefix p 0 nt micro_num)).
      0 < owner_of nt (overflow_mode p) m \<and> owner_of nt (overflow_mode p) m < pp"
      using non_owned_remote [OF assms(3) nt(1)] nt(3) unfolding recv
      by (fastforce simp: block_transfers_def split: if_splits)
    show "grads_of (CUSTOM MPIPE_GRAD_RECV_WITH_BACKWARD) (build_owner_backward_suffix p r nt micro_num) =
      filter (\<lambda>m. owner_of nt (overflow_mode p) m = r)
        (grads_of (CUSTOM MPIPE_GRAD_SEND) (build_owner_backward_suffix p 0 nt micro_num))"
    proof (cases "r < nt")
      case True
      have "filter (\<lambda>m. owner_of nt (overflow_mode p) m \<noteq> 0 \<and> owner_of nt (overflow_mode p) m = r) [0..<micro_num] =
          filter (\<lambda>m. owner_of nt (overflow_mode p) m = r) [0..<micro_num]"
        using assms(5) by (intro filter_cong) auto
      then show ?thesis using True assms(5) by (simp add: build_owner_backward_suffix_def grads)
    next
      case False
      then have "owner_of nt (overflow_mode p) m \<noteq> r" for m using remote by metis
      then show ?thesis using False assms(5) by (simp add: build_owner_backward_suffix_def grads) (simp add: grads_of_def)
    qed
  qed (simp add: send recv filter_block non_owned_of [OF assms(3) nt(1,2) assms(5)])
qed

text \<open>Three micro-batches on two ranks, round-robin, trainable.\<close>

theorem mpipe_links_match_witness:
  "let p = \<lparr>has_trainable = True, owner_backward = False, num_transpose_layers = 1, overflow_mode = ''full''\<rparr>
   in transfers_of PREFIX_SEND_TYPES (build_transpose_prefix p 1 2 3) =
      filter (\<lambda>(k, m). owner_of 2 ''full'' m = 1) (transfers_of PREFIX_RECV_TYPES (build_transpose_prefix p 0 2 3))"
  using mpipe_links_match [of 3 2 "\<lparr>has_trainable = True, owner_backward = False, num_transpose_layers = 1,
    overflow_mode = ''full''\<rparr>" 2 1] by (simp add: mode_ok_def Let_def)

theorem samplers_split_stream_witness:
  "(\<Sum>r < (2::nat). mset (sampler_iter (make_sampler (owned 2 3 r ''full'') 2 3) [10, 11, 12, 13, 14, 15, 16 :: int])) =
     {#10, 11, 12, 13, 14, 15#}"
  using samplers_split_stream [of 3 2 2 "''full''" "\<lambda>r. owned 2 3 r ''full''" "[10, 11, 12, 13, 14, 15, 16 :: int]"]
    owned_micros [of 3 2 "''full''"] by (simp add: mode_ok_def)

section \<open>Every micro-batch is prepared\<close>

text \<open>The body of a rank: the interleaved schedule's steps, its forwards at stage 0, and nothing of MPipe.\<close>

definition body_ok :: "nat \<Rightarrow> meta_step list \<Rightarrow> bool" where
  "body_ok micro_num body \<longleftrightarrow>
     (\<forall>s \<in> set body. step_type s \<noteq> DATA_LOAD \<and> (\<forall>x. step_type s \<noteq> CUSTOM x)) \<and>
     map micro_index (filter (stage0 FWD) body) = map (Some \<circ> int) [0..<micro_num]"

lemma plain_leaves:
  "plain_order xs \<Longrightarrow> (\<forall>s. Some s \<in> set xs \<longrightarrow> \<not> is_overlap (step_type s)) \<Longrightarrow>
     order_leaves xs = map the (filter (\<lambda>a. a \<noteq> None) xs)"
  by (induction xs) (auto simp: iter_leaf_meta_steps_def leaf_plain split: option.split)

lemma rank_order_no_overlap:
  assumes "\<not> overlap_b_f c" "Some s \<in> set (construct_stage_exec_order c r)"
  shows "step_type s \<in> {FWD, BWD}"
proof -
  let ?P = "\<lambda>xs. \<forall>s. Some s \<in> set xs \<longrightarrow> step_type s \<in> {FWD, BWD}"
  have none: "Some s \<notin> set (bubbles q n)" for q n and s :: meta_step by (simp add: bubbles_def)
  have "?P (fst (emit_warmup_ops c r w f))" for w f unfolding emit_warmup_ops_def
    by (rule fold_keeps [of "\<lambda>s. ?P (fst s)"]) (auto simp: warmup_op_def Let_def none)
  moreover have "?P (emit_cooldown_ops c r w n tot b)" for w n tot b unfolding emit_cooldown_ops_def
    by (rule fold_keeps [of "\<lambda>s. ?P (fst s)"]) (auto simp: cooldown_op_def Let_def none)
  moreover have "?P (fst (emit_1f1b_ops c r w n f b))" for w n f b unfolding emit_1f1b_ops_def
    by (rule fold_keeps [of "\<lambda>s. ?P (fst s)"]) (auto simp: f1b_op_def Let_def none)
  ultimately show ?thesis using assms unfolding construct_stage_exec_order_def Let_def
    by (auto split: prod.splits) (metis fst_conv)+
qed

lemma body_of_interleaved:
  assumes ok: "interleaved_ok c rank" and plain: "\<not> overlap_b_f c"
    and body: "filter (\<lambda>x. \<not> is_comm x \<and> \<not> is_load x) order = construct_stage_exec_order c rank"
  shows "\<forall>s \<in> set (body_steps order). step_type s \<noteq> DATA_LOAD \<and> (\<forall>x. step_type s \<noteq> CUSTOM x)"
    "rank = 0 \<Longrightarrow> body_ok (micro_batch_num c) (body_steps order)"
proof -
  have mem: "is_comm (Some s) \<or> Some s \<in> set (construct_stage_exec_order c rank)" if "s \<in> set (body_steps order)" for s
  proof -
    have "Some s \<in> set order" "\<not> is_load (Some s)" using that by (auto simp: body_steps_def is_load_def)
    then show ?thesis unfolding body [symmetric] by simp
  qed
  show clean: "\<forall>s \<in> set (body_steps order). step_type s \<noteq> DATA_LOAD \<and> (\<forall>x. step_type s \<noteq> CUSTOM x)"
    using mem rank_order_no_overlap [OF plain] by (fastforce simp: is_comm_def body_steps_def)
  assume "rank = 0"
  have "filter (stage0 FWD) (body_steps order) = filter (stage0 FWD) (map the (filter (\<lambda>a. a \<noteq> None) order))"
    unfolding body_steps_def filter_filter by (rule filter_cong) (auto simp: stage0_def)
  also have "\<dots> = filter (stage0 FWD) (map the (filter (\<lambda>a. a \<noteq> None)
      (filter (\<lambda>x. \<not> is_comm x \<and> \<not> is_load x) order)))"
    unfolding filter_map filter_filter
    by (intro arg_cong [of _ _ "map the"] filter_cong) (auto simp: stage0_def is_comm_def is_load_def)
  also have "\<dots> = filter (stage0 FWD) (order_leaves (construct_stage_exec_order c rank))"
    unfolding body using rank_order_plain rank_order_no_overlap [OF plain] by (subst plain_leaves) fastforce+
  finally have "map micro_index (filter (stage0 FWD) (body_steps order)) =
      micros_at FWD (chunk_stage c rank 0) (order_leaves (construct_stage_exec_order c rank))"
    using \<open>rank = 0\<close> by (simp add: micros_at_def chunk_stage_def stage0_def [abs_def])
  also have "\<dots> = map (Some \<circ> int) [0..<micro_batch_num c]"
    using stage_runs_legally [OF ok] ok unfolding Let_def interleaved_ok_def by blast
  finally show "body_ok (micro_batch_num c) (body_steps order)" using clean by (simp add: body_ok_def)
qed

text \<open>The preparing steps of a micro-batch and how often a rank's order holds them.\<close>

definition load_step :: "nat \<Rightarrow> meta_step" where "load_step m = mstep (int m) DATA_LOAD (-1)"
definition transpose_step :: "nat \<Rightarrow> meta_step" where "transpose_step m = mstep (int m) (CUSTOM MPIPE_TRANSPOSE_FWD) (-1)"

definition times :: "mpipe \<Rightarrow> meta_step \<Rightarrow> nat \<Rightarrow> bool" where
  "times p x m \<longleftrightarrow> x = load_step m \<or> x = transpose_step m \<and> \<not> is_dataload_only p"

lemma count_local:
  assumes "times p x m" "distinct own"
  shows "count_list (local_prefix p rank own) x = (if m \<in> set own then 1 else 0)"
proof -
  have "count_list (concat (map (\<lambda>m. mstep (int m) DATA_LOAD (-1) #
      (if is_dataload_only p then [] else [mstep (int m) (CUSTOM MPIPE_TRANSPOSE_FWD) (-1)])) own)) x =
      (if m \<in> set own then 1 else 0)"
    using assms by (induction own) (auto simp: times_def load_step_def transpose_step_def)
  then show ?thesis using assms(1) by (auto simp: local_prefix_def times_def load_step_def transpose_step_def)
qed

lemma count_transfers:
  assumes "times p x m" "types = PREFIX_SEND_TYPES \<or> types = PREFIX_RECV_TYPES"
  shows "count_list (prefix_transfer_steps micros types d g) x = 0"
  using assms by (intro count_notin)
    (auto simp: prefix_transfer_steps_def times_def load_step_def transpose_step_def PREFIX_SEND_TYPES_def
      PREFIX_RECV_TYPES_def Let_def split: if_splits)

lemma count_suffix: "times p x m \<Longrightarrow> count_list (build_owner_backward_suffix p r nt micro_num) x = 0"
  by (intro count_notin) (auto simp: build_owner_backward_suffix_def times_def load_step_def transpose_step_def)

lemma distinct_owned: "distinct (prefix_owned_micros r nt micro_num mode)"
  by (simp add: prefix_owned_micros_def)

lemma count_prefix:
  assumes "times p x m"
  shows "count_list (build_transpose_prefix p r nt micro_num) x =
    (if m \<in> set (prefix_owned_micros r nt micro_num (overflow_mode p)) then 1 else 0)"
  using count_local [OF assms distinct_owned] count_transfers [OF assms]
  by (simp add: build_transpose_prefix_def Let_def)

lemma count_patched:
  assumes x: "times p x m" and body: "\<forall>s \<in> set body. step_type s \<noteq> DATA_LOAD \<and> (\<forall>y. step_type s \<noteq> CUSTOM y)"
    and mode: "mode_ok (overflow_mode p)"
  shows "count_list (insert_rank0_preprocess_steps p nt body) x =
    (if overflow_mode p = ''min'' \<and> nt \<le> m
     then length (filter (\<lambda>s. micro_index s = Some (int m)) (filter (stage0 FWD) body)) else 0)"
proof (cases "overflow_mode p = ''min''")
  case False
  have "x \<notin> set (concat (map (\<lambda>s. patch_before p nt s @ [s] @ patch_after p s) body))"
    using False body x by (auto simp: patch_before_def patch_after_def times_def load_step_def transpose_step_def
        split: option.splits if_splits)
  moreover have "x \<notin> set body" using body x by (auto simp: times_def load_step_def transpose_step_def)
  ultimately show ?thesis using False by (simp add: insert_rank0_preprocess_steps_def)
next
  case True
  have one: "count_list (patch_before p nt s @ [s] @ patch_after p s) x =
      (if nt \<le> m \<and> stage0 FWD s \<and> micro_index s = Some (int m) then 1 else 0)"
    if "step_type s \<noteq> DATA_LOAD" "\<forall>y. step_type s \<noteq> CUSTOM y" for s
  proof -
    have "s \<noteq> x" "count_list (patch_after p s) x = 0"
      using x that by (auto simp: times_def load_step_def transpose_step_def patch_after_def)
    moreover have "count_list (patch_before p nt s) x = (if nt \<le> m \<and> stage0 FWD s \<and> micro_index s = Some (int m) then 1 else 0)"
      using x True by (auto simp: times_def load_step_def transpose_step_def patch_before_def split: option.split)
    ultimately show ?thesis by simp
  qed
  define f where "f = (\<lambda>s. patch_before p nt s @ [s] @ patch_after p s)"
  have one: "count_list (f s) x = (if nt \<le> m \<and> stage0 FWD s \<and> micro_index s = Some (int m) then 1 else 0)"
    if "step_type s \<noteq> DATA_LOAD" "\<forall>y. step_type s \<noteq> CUSTOM y" for s
    using one [OF that] by (simp only: f_def)
  have "count_list (concat (map f body)) x =
      (if nt \<le> m then length (filter (\<lambda>s. micro_index s = Some (int m)) (filter (stage0 FWD) body)) else 0)"
    using body by (induction body) (simp_all add: one)
  then show ?thesis using True by (simp add: insert_rank0_preprocess_steps_def f_def)
qed

text \<open>Before a forward of stage 0, rank 0 has what it prepares or receives.\<close>

lemma block_before:
  assumes "i < length (concat (map (\<lambda>s. b s @ [s] @ a s) xs))" "concat (map (\<lambda>s. b s @ [s] @ a s) xs) ! i = x"
    and "\<forall>s \<in> set xs. x \<notin> set (b s) \<and> x \<notin> set (a s)"
  shows "set (b x) \<subseteq> set (take i (concat (map (\<lambda>s. b s @ [s] @ a s) xs)))"
  using assms
proof (induction xs arbitrary: i)
  case (Cons s xs)
  let ?rest = "concat (map (\<lambda>s. b s @ [s] @ a s) xs)"
  let ?n = "length (b s @ [s] @ a s)"
  have cat: "concat (map (\<lambda>s. b s @ [s] @ a s) (s # xs)) = (b s @ [s] @ a s) @ ?rest" by simp
  show ?case
  proof (cases "i < ?n")
    case True
    have "(b s @ [s] @ a s) ! i = x" using Cons.prems(2) True unfolding cat by (simp only: nth_append if_True)
    then have "i = length (b s) \<and> s = x"
    proof -
      assume e: "(b s @ [s] @ a s) ! i = x"
      have "\<not> i < length (b s)" using e Cons.prems(3) nth_mem [of i "b s"] by (auto simp: nth_append)
      moreover have "\<not> length (b s) < i"
      proof
        assume "length (b s) < i"
        then have "a s ! (i - length (b s) - 1) = x" "i - length (b s) - 1 < length (a s)"
          using e True by (auto simp: nth_append nth_Cons' split: if_splits)
        then show False using Cons.prems(3) nth_mem by fastforce
      qed
      ultimately have "i = length (b s)" by simp
      then show ?thesis using e by simp
    qed
    then show ?thesis unfolding cat by auto
  next
    case False
    have "?rest ! (i - ?n) = x" "i - ?n < length ?rest"
      using Cons.prems(1,2) False unfolding cat by (auto simp only: nth_append length_append if_False)
    then have "set (b x) \<subseteq> set (take (i - ?n) ?rest)" using Cons.prems(3) by (intro Cons.IH) simp_all
    also have "\<dots> \<subseteq> set (take i ((b s @ [s] @ a s) @ ?rest))" using False by (simp only: take_append) auto
    finally show ?thesis unfolding cat .
  qed
qed simp

definition prepared :: "mpipe \<Rightarrow> nat \<Rightarrow> meta_step set \<Rightarrow> bool" where
  "prepared p m before \<longleftrightarrow>
     (load_step m \<in> before \<or> mstep (int m) DATA_RECV (-1) \<in> before) \<and>
     (is_dataload_only p \<or> transpose_step m \<in> before \<or> mstep (int m) (CUSTOM MPIPE_FWD_RECV) (-1) \<in> before)"

lemma prepared_mono: "prepared p m A \<Longrightarrow> A \<subseteq> B \<Longrightarrow> prepared p m B"
  unfolding prepared_def by blast

lemma prefix_prepares:
  assumes "mode_ok (overflow_mode p)" "0 < nt" "m < micro_num" "overflow_mode p = ''min'' \<longrightarrow> m < nt"
  shows "prepared p m (set (build_transpose_prefix p 0 nt micro_num))"
proof -
  let ?own = "prefix_owned_micros 0 nt micro_num (overflow_mode p)"
  have "m \<in> set ?own \<or> m \<in> set (non_owned_micros p nt micro_num ?own)"
    using assms by (auto simp: prefix_owned_micros_def non_owned_micros_def)
  then show ?thesis
    by (auto simp: prepared_def build_transpose_prefix_def local_prefix_def prefix_transfer_steps_def PREFIX_RECV_TYPES_def
        load_step_def transpose_step_def Let_def)
qed

lemma prefix_no_fwd: "s \<in> set (build_transpose_prefix p r nt micro_num) \<Longrightarrow> step_type s \<noteq> FWD"
  by (auto simp: build_transpose_prefix_def local_prefix_def prefix_transfer_steps_def PREFIX_RECV_TYPES_def
      PREFIX_SEND_TYPES_def Let_def split: if_splits)

lemma suffix_no_fwd: "s \<in> set (build_owner_backward_suffix p r nt micro_num) \<Longrightarrow> step_type s \<noteq> FWD"
  by (auto simp: build_owner_backward_suffix_def split: if_splits)

lemma patch_before_cases: "patch_before p nt x = [] \<or>
    (\<exists>m. patch_before p nt x = mstep m DATA_LOAD (-1) #
      (if is_dataload_only p then [] else [mstep m (CUSTOM MPIPE_TRANSPOSE_FWD) (-1)]))"
  by (cases "micro_index x") (simp_all add: patch_before_def)

lemma patch_after_cases: "patch_after p x = [] \<or>
    patch_after p x = [MetaStep (micro_index x) (CUSTOM MPIPE_TRANSPOSE_BWD) (Some (-1)) [] []]"
  by (simp add: patch_after_def)

lemma patches_no_fwd:
  "s \<in> set (patch_before p nt x) \<Longrightarrow> step_type s \<noteq> FWD" "s \<in> set (patch_after p x) \<Longrightarrow> step_type s \<noteq> FWD"
  using patch_before_cases [of p nt x] patch_after_cases [of p x] by (auto split: if_split_asm)

lemma rank0_prepared:
  assumes mode: "mode_ok (overflow_mode p)" and nt: "0 < nt" and m: "m < micro_num"
    and i: "i < length (mpipe_rank_order p nt micro_num 0 body)"
    and x: "mpipe_rank_order p nt micro_num 0 body ! i = x" "stage0 FWD x" "micro_index x = Some (int m)"
  shows "prepared p m (set (take i (mpipe_rank_order p nt micro_num 0 body)))"
proof -
  let ?pre = "build_transpose_prefix p 0 nt micro_num"
  let ?mid = "insert_rank0_preprocess_steps p nt (body_steps body)"
  define suf where "suf = (if owner_backward p then build_owner_backward_suffix p 0 nt micro_num @
    [MetaStep None (CUSTOM MPIPE_GRAD_REDUCE) (Some 0) [] []] else [])"
  have o: "mpipe_rank_order p nt micro_num 0 body = ?pre @ ?mid @ suf" by (simp add: mpipe_rank_order_def suf_def)
  have suf: "\<forall>s \<in> set suf. step_type s \<noteq> FWD" using suffix_no_fwd by (auto simp: suf_def)
  have fwd: "step_type x = FWD" using x(2) by (simp add: stage0_def)
  have pre: "length ?pre \<le> i"
  proof (rule ccontr)
    assume "\<not> length ?pre \<le> i"
    then have "x \<in> set ?pre" using x(1) unfolding o by (auto simp: nth_append)
    then show False using prefix_no_fwd fwd by blast
  qed
  show ?thesis
  proof (cases "overflow_mode p = ''min'' \<longrightarrow> m < nt")
    case True
    have "set ?pre \<subseteq> set (take i (?pre @ ?mid @ suf))" using pre by simp
    then show ?thesis unfolding o using prefix_prepares [OF mode nt m True] prepared_mono by blast
  next
    case False
    define j where "j = i - length ?pre"
    have j: "(?mid @ suf) ! j = x" "j < length (?mid @ suf)"
      using x(1) i pre unfolding o j_def by (auto simp: nth_append)
    have mid: "j < length ?mid"
    proof (rule ccontr)
      assume "\<not> j < length ?mid"
      then have "x \<in> set suf" using j by (auto simp: nth_append)
      then show False using suf fwd by blast
    qed
    have e: "?mid = concat (map (\<lambda>s. patch_before p nt s @ [s] @ patch_after p s) (body_steps body))"
      using False by (simp add: insert_rank0_preprocess_steps_def)
    have "?mid ! j = x" using j(1) mid by (simp add: nth_append)
    moreover have "\<forall>s \<in> set (body_steps body). x \<notin> set (patch_before p nt s) \<and> x \<notin> set (patch_after p s)"
      using patches_no_fwd fwd by blast
    ultimately have "set (patch_before p nt x) \<subseteq> set (take j ?mid)"
      using mid unfolding e by (intro block_before)
    also have "\<dots> \<subseteq> set (take i (?pre @ ?mid @ suf))" using pre by (auto simp: j_def)
    finally have "set (patch_before p nt x) \<subseteq> set (take i (?pre @ ?mid @ suf))" .
    moreover have "patch_before p nt x = load_step m # (if is_dataload_only p then [] else [transpose_step m])"
      using False x(2,3) by (simp add: patch_before_def load_step_def transpose_step_def)
    then have "prepared p m (set (patch_before p nt x))" by (simp add: prepared_def)
    ultimately show ?thesis unfolding o by (metis prepared_mono)
  qed
qed

lemma count_rank_order:
  assumes x: "times p x m" and body: "\<forall>s \<in> set (body_steps body). step_type s \<noteq> DATA_LOAD \<and> (\<forall>y. step_type s \<noteq> CUSTOM y)"
    and mode: "mode_ok (overflow_mode p)"
  shows "count_list (mpipe_rank_order p nt micro_num r body) x =
    (if m \<in> set (prefix_owned_micros r nt micro_num (overflow_mode p)) then 1 else 0) +
    (if r = 0 \<and> overflow_mode p = ''min'' \<and> nt \<le> m
     then length (filter (\<lambda>s. micro_index s = Some (int m)) (filter (stage0 FWD) (body_steps body))) else 0)"
proof -
  have "x \<notin> set (body_steps body)" using x body by (auto simp: times_def load_step_def transpose_step_def)
  moreover have "MetaStep None (CUSTOM MPIPE_GRAD_REDUCE) (Some 0) [] [] \<noteq> x"
    using x by (auto simp: times_def load_step_def transpose_step_def)
  ultimately show ?thesis
    using count_prefix [OF x, of r nt micro_num] count_patched [OF x body mode, of nt]
    by (simp add: mpipe_rank_order_def count_notin count_suffix [OF x])
qed

lemma one_owner:
  assumes "mode_ok mode" "0 < nt" "nt \<le> R" "m < micro_num"
  shows "(\<Sum>r < R. if m \<in> set (prefix_owned_micros r nt micro_num mode) then 1 else (0::nat)) =
    (if mode = ''min'' \<and> nt \<le> m then 0 else 1)"
proof -
  let ?r = "if mode = ''min'' then m else m mod nt"
  have "m \<in> set (prefix_owned_micros r nt micro_num mode) \<longleftrightarrow> r < nt \<and> r = ?r" for r
    using assms by (auto simp: prefix_owned_micros_def)
  then have "(\<Sum>r < R. if m \<in> set (prefix_owned_micros r nt micro_num mode) then 1 else (0::nat)) =
      (\<Sum>r < R. if r = ?r then if ?r < nt then 1 else 0 else 0)" by (intro sum.cong) auto
  also have "\<dots> = (if ?r < R then if ?r < nt then 1 else 0 else 0)" by (simp add: sum.delta)
  also have "\<dots> = (if mode = ''min'' \<and> nt \<le> m then 0 else 1)"
    using assms mod_less_divisor [OF assms(2), of m] by auto
  finally show ?thesis .
qed

lemma body_forward_once:
  assumes "body_ok micro_num body" "m < micro_num"
  shows "length (filter (\<lambda>s. micro_index s = Some (int m)) (filter (stage0 FWD) body)) = 1"
proof -
  have len: "length (filter (\<lambda>s. micro_index s = v) xs) = count_list (map micro_index xs) v" for v xs
    by (induction xs) auto
  have "count_list (map (Some \<circ> int) [0..<n]) (Some (int m)) = (if m < n then 1 else 0)" for n
    by (induction n) auto
  then show ?thesis using assms unfolding len by (simp add: body_ok_def)
qed

text \<open>
  C14.  The MPipe schedule is built without error; over all ranks every micro-batch is loaded exactly once and,
  unless only the loading is transposed, preprocessed exactly once; and wherever rank 0 runs the forward of stage 0
  of a micro-batch, it has before loaded or received its data, and preprocessed it or received its features.
\<close>

theorem mpipe_micros_prepared:
  assumes "0 < n_local_stages c" "0 < micro_batch_num c" "0 < real_stage_num c" "mode_ok (overflow_mode p)"
  shows "\<exists>out. mpipe_exec_order p c = Inr out \<and> length out = real_stage_num c \<and>
    (\<forall>m < micro_batch_num c.
      (\<Sum>r < real_stage_num c. count_list (out ! r) (load_step m)) = 1 \<and>
      (\<not> is_dataload_only p \<longrightarrow> (\<Sum>r < real_stage_num c. count_list (out ! r) (transpose_step m)) = 1) \<and>
      (\<forall>i < length (out ! 0). stage0 FWD (out ! 0 ! i) \<and> micro_index (out ! 0 ! i) = Some (int m) \<longrightarrow>
         prepared p m (set (take i (out ! 0)))))"
proof -
  define p' where "p' = p\<lparr>owner_backward := owner_backward p \<and> has_trainable p\<rparr>"
  define c' where "c' = c\<lparr>overlap_b_f := False, enable_dxdw_split := False\<rparr>"
  define nt where "nt = num_transpose_micro_batches c'"
  let ?M = "micro_batch_num c" and ?R = "real_stage_num c"
  have c': "real_stage_num c' = ?R" "micro_batch_num c' = ?M" "n_local_stages c' = n_local_stages c"
    "\<not> overlap_b_f c'" "\<not> enable_dxdw_split c'" by (simp_all add: c'_def real_stage_num_def)
  have p': "overflow_mode p' = overflow_mode p" "is_dataload_only p' = is_dataload_only p" "prepared p' = prepared p"
    by (simp_all add: p'_def is_dataload_only_def prepared_def [abs_def])
  have nt: "0 < nt" "nt \<le> ?R" using assms by (simp_all add: nt_def num_transpose_micro_batches_def c')
  obtain body where body: "interleaved_order c' = Inr body"
    "\<And>r. r < ?R \<Longrightarrow> filter (\<lambda>x. \<not> is_comm x \<and> \<not> is_load x) (body ! r) = construct_stage_exec_order c' r"
    using interleaved_order_links [of c'] assms c' by auto
  have ok: "interleaved_ok c' r" if "r < ?R" for r using that assms c' by (simp add: interleaved_ok_def)
  note clean = body_of_interleaved(1) [OF ok c'(4) body(2)] and body0 = body_of_interleaved(2) [OF ok c'(4) body(2) refl]
  let ?out = "\<lambda>r. mpipe_rank_order p' nt ?M r (body ! r)"
  have mode: "mode_ok (overflow_mode p')" using assms(4) p'(1) by simp
  have once: "(\<Sum>r < ?R. count_list (?out r) x) = 1" if x: "times p' x m" "m < ?M" for x m
  proof -
    have "(\<Sum>r < ?R. count_list (?out r) x) =
        (\<Sum>r < ?R. (if m \<in> set (prefix_owned_micros r nt ?M (overflow_mode p)) then 1 else 0) +
          (if r = 0 then if overflow_mode p = ''min'' \<and> nt \<le> m then 1 else 0 else 0))"
    proof (rule sum.cong)
      fix r assume "r \<in> {..<?R}"
      then have r: "r < ?R" by simp
      show "count_list (?out r) x = (if m \<in> set (prefix_owned_micros r nt ?M (overflow_mode p)) then 1 else 0) +
          (if r = 0 then if overflow_mode p = ''min'' \<and> nt \<le> m then 1 else 0 else 0)"
        using count_rank_order [OF x(1) clean [OF r r] mode, of nt ?M r] body_forward_once [OF body0 [OF assms(3) assms(3)]] x(2)
        by (simp add: p' c')
    qed simp
    also have "\<dots> = 1" using one_owner [OF assms(4) nt x(2)] assms(3) by (simp add: sum.distrib)
    finally show ?thesis .
  qed
  have before: "prepared p m (set (take i (?out 0)))"
    if "m < ?M" "i < length (?out 0)" "stage0 FWD (?out 0 ! i)" "micro_index (?out 0 ! i) = Some (int m)" for m i
    using rank0_prepared [OF mode nt(1) that(1,2) refl that(3,4)] by (simp add: p')
  have "mpipe_exec_order p c = Inr (map ?out [0..<?R])"
    using body(1) assms(4) c' by (auto simp: mpipe_exec_order_def Let_def mode_ok_def p'_def c'_def nt_def)
  moreover have "(\<Sum>r < ?R. count_list (?out r) (load_step m)) = 1" if "m < ?M" for m
    using once [of "load_step m" m] that by (simp add: times_def)
  moreover have "(\<Sum>r < ?R. count_list (?out r) (transpose_step m)) = 1" if "m < ?M" "\<not> is_dataload_only p" for m
    using once [of "transpose_step m" m] that by (simp add: times_def p')
  ultimately show ?thesis
    using before assms(3) by (intro exI [of _ "map ?out [0..<?R]"]) simp
qed

theorem mpipe_micros_prepared_witness:
  "let p = \<lparr>has_trainable = True, owner_backward = True, num_transpose_layers = 1, overflow_mode = ''min''\<rparr>
   in \<exists>out. mpipe_exec_order p two_by_two = Inr out \<and> (\<forall>m < 3. (\<Sum>r < 2. count_list (out ! r) (load_step m)) = 1)"
proof -
  let ?p = "\<lparr>has_trainable = True, owner_backward = True, num_transpose_layers = 1, overflow_mode = ''min''\<rparr>"
  have "n_local_stages two_by_two = 2" "micro_batch_num two_by_two = 3" "real_stage_num two_by_two = 2"
    by (simp_all add: two_by_two_def real_stage_num_def)
  then show ?thesis using mpipe_micros_prepared [of two_by_two ?p] by (auto simp: mode_ok_def Let_def)
qed

end
