(* ===== verification/BatchSampler.thy ===== *)
theory BatchSampler
  imports Prelude "HOL-Library.Multiset"
begin

text \<open>
  The data-parallel batch sampler (\<open>data/parallel/batch_sampler.py\<close>): how one global stream of sample
  indices is cut into the micro-batches of the ranks, and how its position is saved and restored.
  \<open>_DatasetBatchSampler\<close> is the record \<open>batch_sampler\<close> and \<open>_CyclicDatasetBatchSampler\<close> its
  extension, so the inherited methods are the functions on the base record.  The generator \<open>__iter__\<close> keeps
  no state between two yields that is not in the object: \<open>next_batch\<close> is one \<open>next()\<close> on it, and
  \<open>epoch_run\<close> lists every yielded batch with the sampler as it is at that moment.  The loop may
  run forever for a step of zero, so both are partial functions; that they return is part of the theorems.
  The index mapping (a user's mapping or sequence) and \<open>random.Random(seed).shuffle\<close> are parameters.
\<close>

section \<open>The sampler\<close>

datatype index_value = IntIndex int | BoolIndex bool | OtherIndex

type_synonym mapping_fun = "int \<Rightarrow> index_value res"

record batch_sampler =
  total_samples :: int
  consumed_samples :: int
  micro_batch_size :: int
  dp_rank :: int
  dp_world_size :: int
  drop_last :: bool
  index_mapping :: "mapping_fun option"
  global_micro_batch_size :: int
  global_batch_size :: int
  epoch :: int
  resume_at_source_batch :: bool

record cyclic_sampler = batch_sampler +
  data_sharding :: bool
  seed :: int

definition validate_positive_integer :: "int \<Rightarrow> unit res" where
  "validate_positive_integer v = (if v \<le> 0 then Inl ValueError else Inr ())"

definition validate_consumed_samples :: "int \<Rightarrow> int \<Rightarrow> unit res" where
  "validate_consumed_samples consumed tot =
     (if \<not> (0 \<le> consumed \<and> consumed \<le> tot) then Inl ValueError else Inr ())"

definition make_batch_sampler ::
  "int \<Rightarrow> int \<Rightarrow> int \<Rightarrow> int \<Rightarrow> int \<Rightarrow> int \<Rightarrow> bool \<Rightarrow> mapping_fun option \<Rightarrow> batch_sampler res" where
  "make_batch_sampler tot consumed micro gbs rank world dropping mapping =
     rbind (validate_positive_integer tot) (\<lambda>_.
     rbind (validate_positive_integer micro) (\<lambda>_.
     rbind (validate_positive_integer world) (\<lambda>_.
     rbind (validate_consumed_samples consumed tot) (\<lambda>_.
     if \<not> (0 \<le> rank \<and> rank < world) then Inl ValueError
     else rbind (validate_positive_integer gbs) (\<lambda>_.
       if gbs mod (micro * world) \<noteq> 0 then Inl ValueError
       else Inr \<lparr>total_samples = tot, consumed_samples = consumed, micro_batch_size = micro, dp_rank = rank,
                 dp_world_size = world, drop_last = dropping, index_mapping = mapping,
                 global_micro_batch_size = micro * world, global_batch_size = gbs, epoch = 0,
                 resume_at_source_batch = False\<rparr>)))))"

definition resolve_index :: "'z batch_sampler_scheme \<Rightarrow> int \<Rightarrow> int res" where
  "resolve_index s i =
     (case index_mapping s of
        None \<Rightarrow> Inr i
      | Some mapping \<Rightarrow> rbind (mapping i) (\<lambda>v. case v of
            BoolIndex _ \<Rightarrow> Inl TypeError
          | OtherIndex \<Rightarrow> Inl TypeError
          | IntIndex k \<Rightarrow> Inr k))"

partial_function (option) next_batch ::
  "'z batch_sampler_scheme \<Rightarrow> (int list option \<times> 'z batch_sampler_scheme) res option" where
  "next_batch s =
     (if \<not> consumed_samples s < total_samples s then Some (Inr (None, s))
      else let block_start = consumed_samples s;
               block_stop = min (block_start + global_micro_batch_size s) (total_samples s);
               block_size = block_stop - block_start
           in if drop_last s \<and> block_size < global_micro_batch_size s then
                Some (Inr (None, s\<lparr>consumed_samples := total_samples s\<rparr>))
              else let local_start = block_start + dp_rank s * micro_batch_size s;
                       local_stop = min (local_start + micro_batch_size s) block_stop;
                       s' = s\<lparr>consumed_samples := block_stop\<rparr>
                   in if block_stop \<le> local_start then next_batch s'
                      else Some (rbind (rmap (resolve_index s') [local_start..local_stop - 1])
                                   (\<lambda>batch. Inr (Some batch, s'))))"

partial_function (option) epoch_run ::
  "'z batch_sampler_scheme \<Rightarrow>
    ((int list \<times> 'z batch_sampler_scheme) list \<times> 'z batch_sampler_scheme) res option" where
  "epoch_run s = Option.bind (next_batch s) (\<lambda>r. case r of
       Inl e \<Rightarrow> Some (Inl e)
     | Inr bt \<Rightarrow> (case fst bt of
           None \<Rightarrow> Some (Inr ([], snd bt))
         | Some batch \<Rightarrow> Option.bind (epoch_run (snd bt)) (\<lambda>rest.
             Some (rbind rest (\<lambda>yt. Inr ((batch, snd bt) # fst yt, snd yt))))))"

definition batch_sampler_len :: "'z batch_sampler_scheme \<Rightarrow> int" where
  "batch_sampler_len s =
     (let remaining_samples = total_samples s - consumed_samples s;
          full_batches = remaining_samples div global_micro_batch_size s;
          partial_samples = remaining_samples mod global_micro_batch_size s
      in if drop_last s \<or> partial_samples \<le> dp_rank s * micro_batch_size s then full_batches
         else full_batches + 1)"

section \<open>Checkpoints\<close>

type_synonym state_dict = "string \<rightharpoonup> int"

definition state_dict :: "'z batch_sampler_scheme \<Rightarrow> state_dict" where
  "state_dict s =
     [''consumed_samples'' \<mapsto> consumed_samples s, ''epoch'' \<mapsto> epoch s,
      ''global_batch_size'' \<mapsto> global_batch_size s, ''dp_world_size'' \<mapsto> dp_world_size s]"

definition dict_get :: "('k \<rightharpoonup> 'v) \<Rightarrow> 'k \<Rightarrow> 'v res" where
  "dict_get d k = (case d k of None \<Rightarrow> Inl KeyError | Some v \<Rightarrow> Inr v)"

definition enable_source_batch_resume :: "'z batch_sampler_scheme \<Rightarrow> 'z batch_sampler_scheme" where
  "enable_source_batch_resume s = s\<lparr>resume_at_source_batch := True\<rparr>"

definition load_state_dict ::
  "state_dict \<Rightarrow> 'z batch_sampler_scheme \<Rightarrow> 'z batch_sampler_scheme res" where
  "load_state_dict d s =
     rbind (dict_get d ''consumed_samples'') (\<lambda>consumed.
     rbind (validate_consumed_samples consumed (total_samples s)) (\<lambda>_.
     rbind (dict_get d ''global_batch_size'') (\<lambda>gbs.
     if gbs \<noteq> global_batch_size s then Inl ValueError
     else rbind
       (if resume_at_source_batch s then
          rbind (dict_get d ''dp_world_size'') (\<lambda>world.
            if world \<noteq> dp_world_size s then Inl ValueError
            else if consumed \<noteq> total_samples s \<and> consumed mod global_micro_batch_size s \<noteq> 0 then Inl ValueError
            else Inr ())
        else if consumed mod global_batch_size s \<noteq> 0 then Inl ValueError
        else Inr ())
       (\<lambda>_. rbind (dict_get d ''epoch'') (\<lambda>e.
          Inr (s\<lparr>consumed_samples := consumed, epoch := e\<rparr>))))))"

definition set_epoch :: "int \<Rightarrow> 'z batch_sampler_scheme \<Rightarrow> 'z batch_sampler_scheme res" where
  "set_epoch e s =
     (if e < 0 then Inl ValueError
      else Inr (if e \<noteq> epoch s then s\<lparr>consumed_samples := 0, epoch := e\<rparr> else s))"

section \<open>The cyclic sampler\<close>

definition make_cyclic_sampler :: "bool \<Rightarrow> int \<Rightarrow> batch_sampler res \<Rightarrow> cyclic_sampler res" where
  "make_cyclic_sampler sharding sd base =
     rbind base (\<lambda>s. if \<not> drop_last s then Inl ValueError
       else Inr (batch_sampler.extend s (cyclic_sampler.fields sharding sd)))"

definition cyclic_load_state_dict :: "state_dict \<Rightarrow> cyclic_sampler \<Rightarrow> cyclic_sampler res" where
  "cyclic_load_state_dict d s =
     (if data_sharding s then
        rbind (dict_get d ''dp_world_size'') (\<lambda>world.
          if world \<noteq> dp_world_size s then Inl ValueError else load_state_dict d s)
      else load_state_dict d s)"

definition active_samples :: "'z batch_sampler_scheme \<Rightarrow> int res" where
  "active_samples s =
     (let active = total_samples s - total_samples s mod global_micro_batch_size s
      in if active \<le> 0 then Inl ValueError else Inr active)"

definition cyclic_len :: "cyclic_sampler \<Rightarrow> int res" where
  "cyclic_len s = rbind (active_samples s)
     (\<lambda>active. Inr ((active - consumed_samples s) div global_micro_batch_size s))"

text \<open>\<open>xs[first::step]\<close>.\<close>

fun strided :: "nat \<Rightarrow> nat \<Rightarrow> 'a list \<Rightarrow> 'a list" where
  "strided first step [] = []"
| "strided first step (x # xs) =
     (case first of 0 \<Rightarrow> x # strided (step - 1) step xs | Suc k \<Rightarrow> strided k step xs)"

definition rank_indices :: "(int \<Rightarrow> int list \<Rightarrow> int list) \<Rightarrow> cyclic_sampler \<Rightarrow> int \<Rightarrow> int list" where
  "rank_indices shuffle s active =
     (if data_sharding s then
        let bucket_size = active div dp_world_size s;
            bucket_offset = consumed_samples s div dp_world_size s;
            bucket_start = dp_rank s * bucket_size;
            random_offsets = shuffle (seed s + epoch s) [0..bucket_size - 1]
        in map (\<lambda>off. bucket_start + off) (drop (nat bucket_offset) random_offsets)
      else let shuffled_indices = shuffle (seed s + epoch s) [0..active - 1]
           in strided (nat (dp_rank s)) (nat (dp_world_size s)) (drop (nat (consumed_samples s)) shuffled_indices))"

definition cyclic_step ::
  "int \<Rightarrow> int list \<times> (int list \<times> cyclic_sampler) list \<times> cyclic_sampler \<Rightarrow>
    int list \<times> (int list \<times> cyclic_sampler) list \<times> cyclic_sampler" where
  "cyclic_step i st =
     (case st of (local_batch, yields, s) \<Rightarrow>
        let local_batch = local_batch @ [i] in
        if int (length local_batch) = micro_batch_size s then
          let s' = s\<lparr>consumed_samples := consumed_samples s + global_micro_batch_size s\<rparr>
          in ([], yields @ [(local_batch, s')], s')
        else (local_batch, yields, s))"

definition cyclic_run ::
  "(int \<Rightarrow> int list \<Rightarrow> int list) \<Rightarrow> cyclic_sampler \<Rightarrow> ((int list \<times> cyclic_sampler) list \<times> cyclic_sampler) res" where
  "cyclic_run shuffle s =
     rbind (active_samples s) (\<lambda>active.
       if consumed_samples s mod global_micro_batch_size s \<noteq> 0 then Inl ValueError
       else case fold cyclic_step (rank_indices shuffle s active) ([], [], s) of
         (local_batch, yields, s') \<Rightarrow> Inr (yields, s'))"

section \<open>Building a sampler\<close>

text \<open>
  A rearrangement map given as a path is loaded by \<open>torch.load\<close>, the parameter \<open>load\<close>.
\<close>

datatype mapping_source = MapObject mapping_fun | MapPath string

definition resolve_index_mapping ::
  "(string \<Rightarrow> mapping_fun res) \<Rightarrow> mapping_source option \<Rightarrow> mapping_source option \<Rightarrow> mapping_fun option res" where
  "resolve_index_mapping load mapping rearrange =
     (if mapping \<noteq> None \<and> rearrange \<noteq> None then Inl ValueError
      else case (if rearrange \<noteq> None then rearrange else mapping) of
          None \<Rightarrow> Inr None
        | Some (MapObject f) \<Rightarrow> Inr (Some f)
        | Some (MapPath file) \<Rightarrow> rbind (load file) (\<lambda>f. Inr (Some f)))"

datatype any_sampler = SingleSampler batch_sampler | CyclicSampler cyclic_sampler

definition build_dataset_batch_sampler ::
  "(string \<Rightarrow> mapping_fun res) \<Rightarrow> int \<Rightarrow> int \<Rightarrow> int \<Rightarrow> int \<Rightarrow> int \<Rightarrow> int \<Rightarrow> bool \<Rightarrow> mapping_source option \<Rightarrow>
    mapping_source option \<Rightarrow> string \<Rightarrow> bool \<Rightarrow> int \<Rightarrow> any_sampler res" where
  "build_dataset_batch_sampler load tot micro gbs rank world consumed dropping mapping rearrange kind sharding sd =
     rbind (resolve_index_mapping load mapping rearrange) (\<lambda>resolved.
     if kind = ''single'' then
       rbind (make_batch_sampler tot consumed micro gbs rank world dropping resolved) (\<lambda>s. Inr (SingleSampler s))
     else if kind = ''cyclic'' then
       (if resolved \<noteq> None then Inl ValueError
        else rbind (make_cyclic_sampler sharding sd
                      (make_batch_sampler tot consumed micro gbs rank world dropping resolved))
               (\<lambda>s. Inr (CyclicSampler s)))
     else Inl ValueError)"

section \<open>The invariant of a sampler\<close>

definition sampler_ok :: "'z batch_sampler_scheme \<Rightarrow> bool" where
  "sampler_ok s \<longleftrightarrow> 0 < total_samples s \<and> 0 < micro_batch_size s \<and> 0 < dp_world_size s \<and>
     0 \<le> consumed_samples s \<and> consumed_samples s \<le> total_samples s \<and>
     0 \<le> dp_rank s \<and> dp_rank s < dp_world_size s \<and>
     global_micro_batch_size s = micro_batch_size s * dp_world_size s \<and>
     0 < global_batch_size s \<and> global_micro_batch_size s dvd global_batch_size s"

lemma sampler_okD:
  assumes "sampler_ok s"
  shows "0 < total_samples s" "0 < micro_batch_size s" "0 < dp_world_size s" "0 < global_micro_batch_size s"
    "0 \<le> consumed_samples s" "consumed_samples s \<le> total_samples s" "0 \<le> dp_rank s" "dp_rank s < dp_world_size s"
    "global_micro_batch_size s = micro_batch_size s * dp_world_size s"
  using assms by (auto simp: sampler_ok_def)

lemma sampler_ok_moved [simp]:
  "sampler_ok (s\<lparr>consumed_samples := c\<rparr>) \<longleftrightarrow>
    sampler_ok (s\<lparr>consumed_samples := 0\<rparr>) \<and> 0 \<le> c \<and> c \<le> total_samples s"
  by (auto simp: sampler_ok_def)

lemma sampler_ok_epoch: "sampler_ok (s\<lparr>epoch := e\<rparr>) = sampler_ok s"
  by (simp add: sampler_ok_def)

lemma sampler_ok_zero: "sampler_ok s \<Longrightarrow> sampler_ok (s\<lparr>consumed_samples := 0\<rparr>)"
  by (auto simp: sampler_ok_def)

lemma make_batch_sampler_ok:
  "make_batch_sampler tot consumed micro gbs rank world dropping mapping = Inr s \<Longrightarrow>
    sampler_ok s \<and> epoch s = 0"
  by (auto simp: make_batch_sampler_def validate_positive_integer_def validate_consumed_samples_def
      sampler_ok_def dvd_eq_mod_eq_0 split: if_splits)

lemma load_state_dict_ok: "load_state_dict d s = Inr t \<Longrightarrow> sampler_ok s \<Longrightarrow> sampler_ok t"
  by (auto simp: load_state_dict_def validate_consumed_samples_def sampler_ok_def split: if_splits)

lemma set_epoch_ok: "set_epoch e s = Inr t \<Longrightarrow> sampler_ok s \<Longrightarrow> sampler_ok t"
  by (auto simp: set_epoch_def sampler_ok_def split: if_splits)

section \<open>One round of the loop\<close>

text \<open>
  One pass of the loop body over the block at the current position: the block's end, the rank's piece of
  it, and the sampler moved past it.
\<close>

definition block_end :: "'z batch_sampler_scheme \<Rightarrow> int" where
  "block_end s = min (consumed_samples s + global_micro_batch_size s) (total_samples s)"

definition piece_start :: "'z batch_sampler_scheme \<Rightarrow> int" where
  "piece_start s = consumed_samples s + dp_rank s * micro_batch_size s"

definition piece :: "'z batch_sampler_scheme \<Rightarrow> int list" where
  "piece s = [piece_start s..min (piece_start s + micro_batch_size s) (block_end s) - 1]"

definition past_block :: "'z batch_sampler_scheme \<Rightarrow> 'z batch_sampler_scheme" where
  "past_block s = s\<lparr>consumed_samples := block_end s\<rparr>"

definition at_end :: "'z batch_sampler_scheme \<Rightarrow> bool" where
  "at_end s \<longleftrightarrow> total_samples s \<le> consumed_samples s \<or>
     drop_last s \<and> block_end s - consumed_samples s < global_micro_batch_size s"

lemma next_batch_end:
  "at_end s \<Longrightarrow> consumed_samples s \<le> total_samples s \<Longrightarrow>
    next_batch s = Some (Inr (None, s\<lparr>consumed_samples := total_samples s\<rparr>))"
  by (subst next_batch.simps) (auto simp: at_end_def block_end_def Let_def)

lemma next_batch_round:
  assumes "\<not> at_end s"
  shows "next_batch s =
    (if block_end s \<le> piece_start s then next_batch (past_block s)
     else Some (rbind (rmap (resolve_index s) (piece s)) (\<lambda>batch. Inr (Some batch, past_block s))))"
  using assms
  by (subst next_batch.simps)
    (auto simp: at_end_def block_end_def piece_start_def piece_def past_block_def Let_def resolve_index_def [abs_def])

lemma epoch_run_end:
  "at_end s \<Longrightarrow> consumed_samples s \<le> total_samples s \<Longrightarrow>
    epoch_run s = Some (Inr ([], s\<lparr>consumed_samples := total_samples s\<rparr>))"
  by (subst epoch_run.simps) (simp add: next_batch_end)

lemma epoch_run_skip:
  assumes "\<not> at_end s" "block_end s \<le> piece_start s"
  shows "epoch_run s = epoch_run (past_block s)"
  using next_batch_round [OF assms(1)] assms(2)
  by (subst epoch_run.simps, subst (2) epoch_run.simps) simp

lemma epoch_run_yield:
  assumes "\<not> at_end s" "piece_start s < block_end s" "rmap (resolve_index s) (piece s) = Inr batch"
    and "epoch_run (past_block s) = Some (Inr (ys, t))"
  shows "epoch_run s = Some (Inr ((batch, past_block s) # ys, t))"
  using next_batch_round [OF assms(1)] assms(2-4) by (subst epoch_run.simps) simp

lemma past_block_less:
  assumes "sampler_ok s" "\<not> at_end s"
  shows "consumed_samples s < block_end s" "block_end s \<le> total_samples s"
    "block_end s \<le> consumed_samples s + global_micro_batch_size s"
  using sampler_okD [OF assms(1)] assms(2) by (auto simp: at_end_def block_end_def)

lemma past_block_simps [simp]:
  "consumed_samples (past_block s) = block_end s" "total_samples (past_block s) = total_samples s"
  "micro_batch_size (past_block s) = micro_batch_size s" "dp_rank (past_block s) = dp_rank s"
  "dp_world_size (past_block s) = dp_world_size s" "drop_last (past_block s) = drop_last s"
  "global_micro_batch_size (past_block s) = global_micro_batch_size s"
  "resolve_index (past_block s) = resolve_index s"
  by (simp_all add: past_block_def resolve_index_def [abs_def])

lemma past_block_ok: "sampler_ok s \<Longrightarrow> \<not> at_end s \<Longrightarrow> sampler_ok (past_block s)"
  using past_block_less [of s] by (auto simp: past_block_def sampler_ok_def)

text \<open>The length the sampler reports, round by round.\<close>

lemma batch_sampler_len_round:
  assumes "sampler_ok s" "\<not> at_end s"
  shows "batch_sampler_len s = batch_sampler_len (past_block s) + (if piece_start s < block_end s then 1 else 0)"
proof -
  note ok = sampler_okD [OF assms(1)]
  let ?G = "global_micro_batch_size s" and ?n = "total_samples s - consumed_samples s"
  have "dp_rank s * micro_batch_size s + micro_batch_size s \<le> micro_batch_size s * dp_world_size s"
    using ok(2,8) mult_left_mono [of "dp_rank s + 1" "dp_world_size s" "micro_batch_size s"] by (simp add: algebra_simps)
  then have off: "dp_rank s * micro_batch_size s < ?G" using ok(2,9) by linarith
  show ?thesis
  proof (cases "?G \<le> ?n")
    case True
    then have "block_end s = consumed_samples s + ?G" by (simp add: block_end_def)
    moreover have "?n div ?G = (?n - ?G) div ?G + 1" using ok(4) by (simp add: div_add_self2 [symmetric])
    moreover have "?n mod ?G = (?n - ?G) mod ?G" by simp
    ultimately show ?thesis using off
      by (simp add: batch_sampler_len_def Let_def piece_start_def algebra_simps diff_diff_eq)
  next
    case False
    then have e: "block_end s = total_samples s" and "\<not> drop_last s" "consumed_samples s < total_samples s"
      using assms(2) by (auto simp: block_end_def at_end_def)
    moreover have "?n div ?G = 0" "?n mod ?G = ?n" using False ok(6) by (simp_all add: div_pos_pos_trivial)
    ultimately show ?thesis using ok(2,7)
      by (auto simp: batch_sampler_len_def Let_def piece_start_def zero_le_mult_iff)
  qed
qed

lemma batch_sampler_len_end:
  assumes "sampler_ok s" "at_end s"
  shows "batch_sampler_len s = 0"
proof -
  note ok = sampler_okD [OF assms(1)]
  let ?n = "total_samples s - consumed_samples s"
  have n: "0 \<le> ?n" "?n < global_micro_batch_size s" "?n = 0 \<or> drop_last s"
    using assms(2) ok(4,6) by (auto simp: at_end_def block_end_def)
  then have "?n div global_micro_batch_size s = 0" by (simp add: div_pos_pos_trivial)
  then show ?thesis using n ok(2,7) by (auto simp: batch_sampler_len_def Let_def)
qed

section \<open>All ranks of one group\<close>

text \<open>
  The sampler of rank \<open>r\<close> of the group, the indices a group hands out from its position on, and
  what its ranks have yielded when the position has reached \<open>C\<close>.
\<close>

definition rank_sampler :: "'z batch_sampler_scheme \<Rightarrow> nat \<Rightarrow> 'z batch_sampler_scheme" where
  "rank_sampler s r = s\<lparr>dp_rank := int r\<rparr>"

definition world :: "'z batch_sampler_scheme \<Rightarrow> nat" where
  "world s = nat (dp_world_size s)"

definition epoch_stop :: "'z batch_sampler_scheme \<Rightarrow> int" where
  "epoch_stop s =
     (if drop_last s then total_samples s - (total_samples s - consumed_samples s) mod global_micro_batch_size s
      else total_samples s)"

definition seen_by :: "int \<Rightarrow> (int list \<times> 'z batch_sampler_scheme) list \<Rightarrow> int multiset" where
  "seen_by C ys = mset (concat (map fst (filter (\<lambda>y. consumed_samples (snd y) \<le> C) ys)))"

lemma seen_by_simps [simp]:
  "seen_by C [] = {#}"
  "seen_by C ((b, u) # ys) = (if consumed_samples u \<le> C then mset b else {#}) + seen_by C ys"
  by (simp_all add: seen_by_def)

lemma pieces_cover:
  assumes "0 < m" "c \<le> stop"
  shows "(\<Sum>r<W. mset [c + int r * m..min (c + int r * m + m) stop - 1]) = mset [c..min (c + int W * m) stop - 1]"
proof (induction W)
  case 0
  then show ?case using assms by simp
next
  case (Suc W)
  let ?k = "c + int W * m" and ?l = "min (c + int W * m + m) stop - 1"
  have k: "c \<le> ?k" "c + int (Suc W) * m = ?k + m" using assms(1) by (simp_all add: algebra_simps)
  show ?case
  proof (cases "stop \<le> ?k")
    case True
    then show ?thesis using Suc k assms(1) by (simp add: min_def)
  next
    case False
    then have "[c..?l] = [c..?k - 1] @ [?k..?l]" using k(1) assms(1) by (intro upto_split1) auto
    then have "mset [c..?l] = mset [c..?k - 1] + mset [?k..?l]" by simp
    then show ?thesis using Suc k False by (simp add: min_def ac_simps)
  qed
qed

lemma rank_sampler_simps [simp]:
  "consumed_samples (rank_sampler s r) = consumed_samples s" "total_samples (rank_sampler s r) = total_samples s"
  "micro_batch_size (rank_sampler s r) = micro_batch_size s" "dp_rank (rank_sampler s r) = int r"
  "global_micro_batch_size (rank_sampler s r) = global_micro_batch_size s" "drop_last (rank_sampler s r) = drop_last s"
  "at_end (rank_sampler s r) = at_end s" "block_end (rank_sampler s r) = block_end s"
  "past_block (rank_sampler s r) = rank_sampler (past_block s) r"
  "resolve_index (rank_sampler s r) = resolve_index s"
  by (simp_all add: rank_sampler_def at_end_def block_end_def past_block_def resolve_index_def [abs_def])

lemma sampler_ok_rank: "sampler_ok s \<Longrightarrow> r < world s \<Longrightarrow> sampler_ok (rank_sampler s r)"
  by (auto simp: sampler_ok_def rank_sampler_def world_def)

lemma block_pieces:
  assumes "sampler_ok s" "\<not> at_end s"
  shows "(\<Sum>r<world s. mset (piece (rank_sampler s r))) = mset [consumed_samples s..block_end s - 1]"
proof -
  note ok = sampler_okD [OF assms(1)] and less = past_block_less [OF assms]
  have "consumed_samples s + int (world s) * micro_batch_size s = consumed_samples s + global_micro_batch_size s"
    using ok(3,9) by (simp add: world_def)
  then show ?thesis
    using pieces_cover [of "micro_batch_size s" "consumed_samples s" "block_end s" "world s"] ok(2) less
    by (simp add: piece_def piece_start_def)
qed

text \<open>What a rank yields in one epoch: the specification, and that the loop meets it.\<close>

definition yields_ok ::
  "'z batch_sampler_scheme \<Rightarrow> (int list \<times> 'z batch_sampler_scheme) list \<Rightarrow> bool" where
  "yields_ok s ys \<longleftrightarrow>
     epoch_run s = Some (Inr (ys, s\<lparr>consumed_samples := total_samples s\<rparr>)) \<and>
     int (length ys) = batch_sampler_len s \<and>
     (\<forall>y \<in> set ys. fst y \<noteq> [] \<and> int (length (fst y)) \<le> micro_batch_size s \<and>
        (drop_last s \<longrightarrow> int (length (fst y)) = micro_batch_size s) \<and>
        consumed_samples s < consumed_samples (snd y) \<and> consumed_samples (snd y) \<le> total_samples s \<and>
        snd y = s\<lparr>consumed_samples := consumed_samples (snd y)\<rparr>)"

lemma yields_end: "sampler_ok s \<Longrightarrow> at_end s \<Longrightarrow> yields_ok s []"
  using sampler_okD [of s] by (simp add: yields_ok_def epoch_run_end batch_sampler_len_end)

lemma moved_past: "(past_block s)\<lparr>consumed_samples := c\<rparr> = s\<lparr>consumed_samples := c\<rparr>"
  by (simp add: past_block_def)

lemma yields_round:
  assumes ok: "sampler_ok s" "\<not> at_end s" and g: "\<And>i. resolve_index s i = Inr (g i)"
    and rest: "yields_ok (past_block s) ys"
  shows "yields_ok s ((if piece_start s < block_end s then [(map g (piece s), past_block s)] else []) @ ys)"
proof (cases "piece_start s < block_end s")
  case True
  note bounds = sampler_okD [OF ok(1)] past_block_less [OF ok]
  have "rmap (resolve_index s) (piece s) = Inr (map g (piece s))" by (rule rmap_total) (rule g)
  then have run: "epoch_run s = Some (Inr ((map g (piece s), past_block s) # ys, s\<lparr>consumed_samples := total_samples s\<rparr>))"
    using epoch_run_yield [OF ok(2) True] rest by (simp add: yields_ok_def moved_past)
  have "past_block s = s\<lparr>consumed_samples := block_end s\<rparr>" by (simp add: past_block_def)
  moreover have "piece s \<noteq> []" "int (length (piece s)) \<le> micro_batch_size s"
    using True bounds(2) by (auto simp: piece_def)
  moreover have "\<forall>y \<in> set ys. consumed_samples s < consumed_samples (snd y)"
    using rest bounds(10) by (force simp: yields_ok_def)
  moreover have "int (length (piece s)) = micro_batch_size s" if "drop_last s"
  proof -
    have "block_end s = consumed_samples s + global_micro_batch_size s"
      using that ok(2) by (auto simp: at_end_def block_end_def)
    moreover have "dp_rank s * micro_batch_size s + micro_batch_size s \<le> micro_batch_size s * dp_world_size s"
      using bounds(2,8) mult_left_mono [of "dp_rank s + 1" "dp_world_size s" "micro_batch_size s"] by (simp add: algebra_simps)
    ultimately show ?thesis using bounds(2,9) by (simp add: piece_def piece_start_def)
  qed
  ultimately show ?thesis
    using run rest True bounds(10,11) batch_sampler_len_round [OF ok] by (simp add: yields_ok_def moved_past)
next
  case False
  then show ?thesis
    using epoch_run_skip [OF ok(2)] rest past_block_less [OF ok] batch_sampler_len_round [OF ok]
    by (fastforce simp: yields_ok_def moved_past)
qed

lemma mset_upto_join: "a \<le> b \<Longrightarrow> b \<le> c \<Longrightarrow> mset [a..b - 1] + mset [b..c - 1] = mset [a..c - (1::int)]"
  by (cases "b = c") (simp_all add: upto_split1 [of a b "c - 1"])

lemma epoch_stop_past:
  assumes "sampler_ok s" "\<not> at_end s"
  shows "epoch_stop (past_block s) = epoch_stop s" "block_end s \<le> epoch_stop s"
proof -
  note ok = sampler_okD [OF assms(1)]
  let ?n = "total_samples s - consumed_samples s" and ?G = "global_micro_batch_size s"
  have "epoch_stop (past_block s) = epoch_stop s \<and> block_end s \<le> epoch_stop s"
  proof (cases "drop_last s")
    case True
    then have e: "block_end s = consumed_samples s + ?G" "?G \<le> ?n" using assms(2) by (auto simp: at_end_def block_end_def)
    have mod: "(?n - ?G) mod ?G = ?n mod ?G" by simp
    have "(?n - ?G) mod ?G \<le> ?n - ?G" using e(2) by (intro zmod_le_nonneg_dividend) simp
    then have "?n mod ?G \<le> ?n - ?G" by (simp only: mod)
    with mod show ?thesis using e True by (simp add: epoch_stop_def diff_diff_eq [symmetric])
  next
    case False
    then show ?thesis by (simp add: epoch_stop_def block_end_def)
  qed
  then show "epoch_stop (past_block s) = epoch_stop s" "block_end s \<le> epoch_stop s" by simp_all
qed

lemma image_mset_sum: "image_mset g (\<Sum>i\<in>A. f i) = (\<Sum>i\<in>A. image_mset g (f i))"
  by (induction A rule: infinite_finite_induct) simp_all

lemma empty_piece: "block_end s \<le> piece_start s \<Longrightarrow> piece s = []"
  by (simp add: piece_def)

lemma seen_nothing: "yields_ok s ys \<Longrightarrow> C \<le> consumed_samples s \<Longrightarrow> seen_by C ys = {#}"
  by (force simp: yields_ok_def seen_by_def filter_empty_conv)

definition group_yields ::
  "'z batch_sampler_scheme \<Rightarrow> (int \<Rightarrow> int) \<Rightarrow> (nat \<Rightarrow> (int list \<times> 'z batch_sampler_scheme) list) \<Rightarrow> bool" where
  "group_yields s g ys \<longleftrightarrow>
     (\<forall>r < world s. yields_ok (rank_sampler s r) (ys r)) \<and>
     (\<Sum>r<world s. mset (concat (map fst (ys r)))) = image_mset g (mset [consumed_samples s..epoch_stop s - 1]) \<and>
     (\<forall>C. consumed_samples s \<le> C \<and> C \<le> total_samples s \<and> global_micro_batch_size s dvd C - consumed_samples s \<longrightarrow>
        (\<Sum>r<world s. seen_by C (ys r)) = image_mset g (mset [consumed_samples s..C - 1]))"

lemma group_end:
  assumes "sampler_ok s" "at_end s"
  shows "group_yields s g (\<lambda>r. [])"
proof -
  note ok = sampler_okD [OF assms(1)]
  let ?n = "total_samples s - consumed_samples s" and ?G = "global_micro_batch_size s"
  have n: "0 \<le> ?n" "?n < ?G" "?n = 0 \<or> drop_last s"
    using assms(2) ok(4,6) by (auto simp: at_end_def block_end_def)
  then have "epoch_stop s = consumed_samples s" by (auto simp: epoch_stop_def)
  moreover have "C = consumed_samples s" if "consumed_samples s \<le> C" "C \<le> total_samples s" "?G dvd C - consumed_samples s" for C
    using that n zdvd_imp_le [of ?G "C - consumed_samples s"] by fastforce
  ultimately show ?thesis
    using yields_end [OF sampler_ok_rank [OF assms(1)]] assms(2) by (fastforce simp: group_yields_def)
qed

lemma group_round:
  assumes ok: "sampler_ok s" "\<not> at_end s" and g: "\<And>i. resolve_index s i = Inr (g i)"
    and rest: "group_yields (past_block s) g ys"
  shows "group_yields s g (\<lambda>r. (if piece_start (rank_sampler s r) < block_end s
      then [(map g (piece (rank_sampler s r)), rank_sampler (past_block s) r)] else []) @ ys r)"
    (is "group_yields s g ?zs")
proof -
  note bounds = sampler_okD [OF ok(1)] and less = past_block_less [OF ok] and stop = epoch_stop_past [OF ok]
  have w: "world (past_block s) = world s" by (simp add: world_def)
  have each: "yields_ok (rank_sampler s r) (?zs r)" if "r < world s" for r
  proof -
    have "yields_ok (past_block (rank_sampler s r)) (ys r)" using rest that by (simp add: group_yields_def w)
    from yields_round [OF sampler_ok_rank [OF ok(1) that] _ _ this, of g] show ?thesis using ok(2) g by (auto split: if_splits)
  qed
  have "(\<Sum>r<world s. mset (concat (map fst (?zs r)))) =
      (\<Sum>r<world s. image_mset g (mset (piece (rank_sampler s r))) + mset (concat (map fst (ys r))))"
    by (intro sum.cong) (auto simp: empty_piece)
  also have "\<dots> = image_mset g (\<Sum>r<world s. mset (piece (rank_sampler s r))) + (\<Sum>r<world s. mset (concat (map fst (ys r))))"
    by (simp add: sum.distrib image_mset_sum)
  also have "\<dots> = image_mset g (mset [consumed_samples s..epoch_stop s - 1])"
    using rest stop less unfolding group_yields_def block_pieces [OF ok] w
    by (simp flip: image_mset_union add: mset_upto_join)
  finally have all: "(\<Sum>r<world s. mset (concat (map fst (?zs r)))) =
      image_mset g (mset [consumed_samples s..epoch_stop s - 1])" .
  have seen: "(\<Sum>r<world s. seen_by C (?zs r)) = image_mset g (mset [consumed_samples s..C - 1])"
    if C: "consumed_samples s \<le> C" "C \<le> total_samples s" "global_micro_batch_size s dvd C - consumed_samples s" for C
  proof (cases "C < block_end s")
    case True
    then have "C = consumed_samples s"
      using C less zdvd_imp_le [of "global_micro_batch_size s" "C - consumed_samples s"] by fastforce
    then show ?thesis using seen_nothing [OF each] by simp
  next
    case False
    have "global_micro_batch_size s dvd C - block_end s"
    proof (cases "block_end s = total_samples s")
      case False
      then have "C - block_end s = (C - consumed_samples s) - global_micro_batch_size s" by (auto simp: block_end_def)
      then show ?thesis using C(3) by (simp only: dvd_diff dvd_refl)
    qed (use C False in auto)
    then have later: "(\<Sum>r<world s. seen_by C (ys r)) = image_mset g (mset [block_end s..C - 1])"
      using rest C False by (simp add: group_yields_def w)
    have "(\<Sum>r<world s. seen_by C (?zs r)) =
        (\<Sum>r<world s. image_mset g (mset (piece (rank_sampler s r))) + seen_by C (ys r))"
      using False by (intro sum.cong) (auto simp: empty_piece)
    also have "\<dots> = image_mset g (\<Sum>r<world s. mset (piece (rank_sampler s r))) + (\<Sum>r<world s. seen_by C (ys r))"
      by (simp add: sum.distrib image_mset_sum)
    also have "\<dots> = image_mset g (mset [consumed_samples s..C - 1])"
      using later less False unfolding block_pieces [OF ok]
      by (simp flip: image_mset_union add: mset_upto_join)
    finally show ?thesis .
  qed
  show ?thesis using each all seen by (simp add: group_yields_def)
qed

lemma group_runs:
  assumes "sampler_ok s" "\<And>i. resolve_index s i = Inr (g i)"
  shows "\<exists>ys. group_yields s g ys"
  using assms
proof (induction "nat (total_samples s - consumed_samples s)" arbitrary: s rule: less_induct)
  case less
  show ?case
  proof (cases "at_end s")
    case True
    then show ?thesis using group_end less.prems(1) by blast
  next
    case False
    have "nat (total_samples (past_block s) - consumed_samples (past_block s)) < nat (total_samples s - consumed_samples s)"
      using past_block_less [OF less.prems(1) False] by simp
    from less.hyps [OF this past_block_ok [OF less.prems(1) False]] less.prems(2)
    obtain ys where "group_yields (past_block s) g ys" by auto
    from group_round [OF less.prems(1) False less.prems(2) this] show ?thesis by blast
  qed
qed

section \<open>The properties of the sequential sampler\<close>

lemma make_rank:
  assumes "make_batch_sampler tot c m gbs 0 W dropping mapping = Inr s" "r < world s"
  shows "make_batch_sampler tot c m gbs (int r) W dropping mapping = Inr (rank_sampler s r)"
  using assms
  by (auto simp: make_batch_sampler_def validate_positive_integer_def validate_consumed_samples_def rank_sampler_def
      world_def split: if_splits)

text \<open>
  C23.  The ranks of a group split the samples.  Every rank of a group that the constructor accepts runs its
  epoch to the end, yields as many batches as its length says, none of them empty or larger than the micro-batch (with
  \<open>drop_last\<close>, none smaller); and the batches of all ranks together are each remaining sample index once, up
  to the end of the dataset or, with \<open>drop_last\<close>, up to the last full block.
\<close>

theorem ranks_split_samples:
  assumes made: "make_batch_sampler tot c m gbs 0 W dropping mapping = Inr s"
    and g: "\<And>i. resolve_index s i = Inr (g i)"
  shows "\<exists>ys. (\<forall>r < nat W. \<exists>sr t. make_batch_sampler tot c m gbs (int r) W dropping mapping = Inr sr \<and>
      epoch_run sr = Some (Inr (ys r, t)) \<and> consumed_samples t = tot \<and> int (length (ys r)) = batch_sampler_len sr \<and>
      (\<forall>(b, u) \<in> set (ys r). b \<noteq> [] \<and> int (length b) \<le> m \<and> (dropping \<longrightarrow> int (length b) = m))) \<and>
    (\<Sum>r<nat W. mset (concat (map fst (ys r)))) =
      image_mset g (mset [c..(if dropping then tot - (tot - c) mod (m * W) else tot) - 1])"
proof -
  have ok: "sampler_ok s" using make_batch_sampler_ok [OF made] by simp
  have fields: "total_samples s = tot" "consumed_samples s = c" "micro_batch_size s = m" "dp_world_size s = W"
    "drop_last s = dropping" "global_micro_batch_size s = m * W"
    using made by (auto simp: make_batch_sampler_def split: if_splits)
  from group_runs [OF ok g] obtain ys where ys: "group_yields s g ys" by blast
  then have "\<forall>r < nat W. yields_ok (rank_sampler s r) (ys r)"
    "(\<Sum>r<nat W. mset (concat (map fst (ys r)))) = image_mset g (mset [c..epoch_stop s - 1])"
    by (simp_all add: group_yields_def world_def fields)
  moreover have "\<forall>r < nat W. make_batch_sampler tot c m gbs (int r) W dropping mapping = Inr (rank_sampler s r)"
    using make_rank [OF made] by (simp add: world_def fields)
  ultimately show ?thesis
    by (intro exI [of _ ys]) (fastforce simp: yields_ok_def epoch_stop_def fields)
qed

theorem ranks_split_samples_witness:
  "\<exists>ys. (\<forall>r < nat 2. \<exists>sr t. make_batch_sampler 11 4 2 4 (int r) 2 False None = Inr sr \<and>
      epoch_run sr = Some (Inr (ys r, t)) \<and> consumed_samples t = 11 \<and> int (length (ys r)) = batch_sampler_len sr \<and>
      (\<forall>(b, u) \<in> set (ys r). b \<noteq> [] \<and> int (length b) \<le> 2 \<and> (False \<longrightarrow> int (length b) = 2))) \<and>
    (\<Sum>r<nat 2. mset (concat (map fst (ys r)))) =
      image_mset (\<lambda>i. i) (mset [4..(if False then 11 - (11 - 4) mod (2 * 2) else 11) - 1])"
  by (rule ranks_split_samples [of 11 4 2 4 2 False None "projr (make_batch_sampler 11 4 2 4 0 2 False None)"])
    (simp_all add: make_batch_sampler_def validate_positive_integer_def validate_consumed_samples_def resolve_index_def)

lemma state_dict_simps [simp]:
  "dict_get (state_dict s) ''consumed_samples'' = Inr (consumed_samples s)"
  "dict_get (state_dict s) ''epoch'' = Inr (epoch s)"
  "dict_get (state_dict s) ''global_batch_size'' = Inr (global_batch_size s)"
  "dict_get (state_dict s) ''dp_world_size'' = Inr (dp_world_size s)"
  by (simp_all add: dict_get_def state_dict_def)

text \<open>A checkpoint taken at an optimizer-batch boundary loads into any group with the same global batch.\<close>

lemma load_checkpoint:
  assumes "global_batch_size u = global_batch_size s" "\<not> resume_at_source_batch s"
    and "global_batch_size s dvd consumed_samples u" "0 \<le> consumed_samples u" "consumed_samples u \<le> total_samples s"
  shows "load_state_dict (state_dict u) s = Inr (s\<lparr>consumed_samples := consumed_samples u, epoch := epoch u\<rparr>)"
  using assms by (simp add: load_state_dict_def validate_consumed_samples_def dvd_eq_mod_eq_0)

lemma make_fields:
  assumes "make_batch_sampler tot c m gbs r W dropping mapping = Inr s"
  shows "total_samples s = tot" "consumed_samples s = c" "micro_batch_size s = m" "dp_world_size s = W"
    "drop_last s = dropping" "global_micro_batch_size s = m * W" "global_batch_size s = gbs"
    "\<not> resume_at_source_batch s" "index_mapping s = mapping"
  using assms by (auto simp: make_batch_sampler_def split: if_splits)

lemma group_from:
  assumes made: "make_batch_sampler tot 0 m gbs 0 W dropping mapping = Inr s"
    and g: "\<And>i. resolve_index s i = Inr (g i)"
    and u: "global_batch_size u = gbs" "gbs dvd consumed_samples u" "0 \<le> consumed_samples u" "consumed_samples u \<le> tot"
  shows "\<exists>vs zs. (\<forall>r < nat W. \<exists>s2 t. make_batch_sampler tot 0 m gbs (int r) W dropping mapping = Inr s2 \<and>
      load_state_dict (state_dict u) s2 = Inr (vs r) \<and> epoch_run (vs r) = Some (Inr (zs r, t))) \<and>
    (\<Sum>r<nat W. mset (concat (map fst (zs r)))) =
      image_mset g (mset [consumed_samples u..(if dropping then tot - tot mod (m * W) else tot) - 1])"
proof -
  note f = make_fields [OF made]
  let ?v = "s\<lparr>consumed_samples := consumed_samples u, epoch := epoch u\<rparr>"
  have ok: "sampler_ok ?v" using make_batch_sampler_ok [OF made] u f by (auto simp: sampler_ok_def)
  have w: "world ?v = nat W" using f by (simp add: world_def)
  have res: "resolve_index ?v i = Inr (g i)" for i using g by (simp add: resolve_index_def)
  from group_runs [OF ok res] obtain zs where zs: "group_yields ?v g zs" by blast
  have "m * W dvd consumed_samples u"
    using make_batch_sampler_ok [OF made] u(2) f dvd_trans by (fastforce simp: sampler_ok_def)
  then have "(tot - consumed_samples u) mod (m * W) = tot mod (m * W)"
    by (metis diff_zero dvd_imp_mod_0 mod_diff_right_eq)
  then have stop: "epoch_stop ?v = (if dropping then tot - tot mod (m * W) else tot)"
    using f by (simp add: epoch_stop_def)
  have "make_batch_sampler tot 0 m gbs (int r) W dropping mapping = Inr (rank_sampler s r) \<and>
      load_state_dict (state_dict u) (rank_sampler s r) = Inr (rank_sampler ?v r) \<and>
      (\<exists>t. epoch_run (rank_sampler ?v r) = Some (Inr (zs r, t)))" if "r < nat W" for r
  proof (intro conjI)
    show "make_batch_sampler tot 0 m gbs (int r) W dropping mapping = Inr (rank_sampler s r)"
      using make_rank [OF made] that w by (simp add: world_def)
    show "load_state_dict (state_dict u) (rank_sampler s r) = Inr (rank_sampler ?v r)"
      using u f by (subst load_checkpoint) (simp_all add: rank_sampler_def)
    show "\<exists>t. epoch_run (rank_sampler ?v r) = Some (Inr (zs r, t))"
      using zs that unfolding group_yields_def yields_ok_def w by blast
  qed
  moreover have "(\<Sum>r<nat W. mset (concat (map fst (zs r)))) =
      image_mset g (mset [consumed_samples u..(if dropping then tot - tot mod (m * W) else tot) - 1])"
    using zs unfolding group_yields_def w stop by simp
  ultimately show ?thesis by blast
qed

lemma yields_member:
  assumes "yields_ok s ys" "(b, u) \<in> set ys"
  shows "consumed_samples s < consumed_samples u" "consumed_samples u \<le> total_samples s"
    "global_batch_size u = global_batch_size s"
proof -
  have u: "u = s\<lparr>consumed_samples := consumed_samples u\<rparr>"
    "consumed_samples s < consumed_samples u \<and> consumed_samples u \<le> total_samples s"
    using assms by (force simp: yields_ok_def)+
  show "global_batch_size u = global_batch_size s" by (subst u(1)) simp
  show "consumed_samples s < consumed_samples u" "consumed_samples u \<le> total_samples s" using u(2) by simp_all
qed

lemma aligned_stop:
  assumes "G dvd C" "0 < G" "C \<le> (tot :: int)"
  shows "C \<le> tot - tot mod G"
proof -
  obtain k where k: "C = G * k" using assms(1) by blast
  have "k \<le> tot div G" using assms(2,3) k by (metis zdiv_mono1 nonzero_mult_div_cancel_left less_irrefl)
  then have "G * k \<le> G * (tot div G)" using assms(2) by (simp add: mult_left_mono)
  then show ?thesis using k by (simp add: minus_mod_eq_mult_div)
qed

text \<open>
  C24.  Elastic resume.  Let a rank of a group yield a batch after which the group's position is a multiple of the
  global batch size, and save its sampler's state there.  The state loads into every rank of a fresh
  group with another number of ranks, another micro-batch size or another \<open>drop_last\<close> (the same dataset and
  global batch size), and what the old group had yielded up to that position together with
  what the new group yields is each sample index once.
\<close>

theorem resume_splits_rest:
  assumes old: "make_batch_sampler tot c m gbs 0 W dropping mapping = Inr s"
    and new: "make_batch_sampler tot 0 m' gbs 0 W' dropping' mapping = Inr s'"
    and g: "\<And>i. resolve_index s i = Inr (g i)" and c: "gbs dvd c"
  shows "\<exists>ys. (\<forall>r < nat W. \<exists>sr t. make_batch_sampler tot c m gbs (int r) W dropping mapping = Inr sr \<and>
      epoch_run sr = Some (Inr (ys r, t))) \<and>
    (\<forall>r < nat W. \<forall>(b, u) \<in> set (ys r). gbs dvd consumed_samples u \<longrightarrow>
      (\<exists>vs zs. (\<forall>r' < nat W'. \<exists>s2 t. make_batch_sampler tot 0 m' gbs (int r') W' dropping' mapping = Inr s2 \<and>
           load_state_dict (state_dict u) s2 = Inr (vs r') \<and> epoch_run (vs r') = Some (Inr (zs r', t))) \<and>
         (\<Sum>r<nat W. seen_by (consumed_samples u) (ys r)) + (\<Sum>r'<nat W'. mset (concat (map fst (zs r')))) =
           image_mset g (mset [c..(if dropping' then tot - tot mod (m' * W') else tot) - 1])))"
proof -
  note f = make_fields [OF old] and f' = make_fields [OF new]
  have ok: "sampler_ok s" "sampler_ok s'" using make_batch_sampler_ok old new by blast+
  have g': "resolve_index s' i = Inr (g i)" for i using g f f' by (simp add: resolve_index_def)
  have G: "m * W dvd gbs" "m' * W' dvd gbs" "0 < m' * W'" using ok f f' by (auto simp: sampler_ok_def)
  from group_runs [OF ok(1) g] obtain ys where ys: "group_yields s g ys" by blast
  then have each: "yields_ok (rank_sampler s r) (ys r)" if "r < nat W" for r
    using that f by (simp add: group_yields_def world_def)
  have rest: "\<exists>vs zs. (\<forall>r' < nat W'. \<exists>s2 t. make_batch_sampler tot 0 m' gbs (int r') W' dropping' mapping = Inr s2 \<and>
           load_state_dict (state_dict u) s2 = Inr (vs r') \<and> epoch_run (vs r') = Some (Inr (zs r', t))) \<and>
         (\<Sum>r<nat W. seen_by (consumed_samples u) (ys r)) + (\<Sum>r'<nat W'. mset (concat (map fst (zs r')))) =
           image_mset g (mset [c..(if dropping' then tot - tot mod (m' * W') else tot) - 1])"
    if r: "r < nat W" "(b, u) \<in> set (ys r)" "gbs dvd consumed_samples u" for r b u
  proof -
    let ?C = "consumed_samples u" and ?stop = "if dropping' then tot - tot mod (m' * W') else tot"
    have u: "c < ?C" "?C \<le> tot" "global_batch_size u = gbs"
      using yields_member [OF each [OF r(1)] r(2)] f by (simp_all add: rank_sampler_def)
    have c0: "0 \<le> c" using ok(1) f by (auto simp: sampler_ok_def)
    then have C0: "0 \<le> ?C" using u(1) by simp
    from group_from [OF new g' u(3) r(3) C0 u(2)] obtain vs zs where new_run:
      "\<forall>r' < nat W'. \<exists>s2 t. make_batch_sampler tot 0 m' gbs (int r') W' dropping' mapping = Inr s2 \<and>
           load_state_dict (state_dict u) s2 = Inr (vs r') \<and> epoch_run (vs r') = Some (Inr (zs r', t))"
      "(\<Sum>r'<nat W'. mset (concat (map fst (zs r')))) = image_mset g (mset [?C..?stop - 1])" by blast
    have "m * W dvd ?C - c" using G(1) r(3) c by (meson dvd_diff dvd_trans)
    then have "(\<Sum>r<nat W. seen_by ?C (ys r)) = image_mset g (mset [c..?C - 1])"
      using ys u f by (simp add: group_yields_def world_def)
    moreover have "?C \<le> ?stop"
      using aligned_stop [OF dvd_trans [OF G(2) r(3)] G(3) u(2)] u(2) by simp
    ultimately have "(\<Sum>r<nat W. seen_by ?C (ys r)) + (\<Sum>r'<nat W'. mset (concat (map fst (zs r')))) =
        image_mset g (mset [c..?stop - 1])"
      using new_run(2) u(1) mset_upto_join [of c ?C ?stop] by (simp flip: image_mset_union)
    then show ?thesis using new_run(1) by blast
  qed
  have "\<forall>r < nat W. \<exists>sr t. make_batch_sampler tot c m gbs (int r) W dropping mapping = Inr sr \<and>
      epoch_run sr = Some (Inr (ys r, t))"
    using make_rank [OF old] each f unfolding yields_ok_def world_def by blast
  with rest show ?thesis by (intro exI [of _ ys]) blast
qed

theorem resume_splits_rest_witness:
  "\<exists>ys. (\<forall>r < nat 2. \<exists>sr t. make_batch_sampler 13 0 1 4 (int r) 2 False None = Inr sr \<and>
      epoch_run sr = Some (Inr (ys r, t))) \<and>
    (\<forall>r < nat 2. \<forall>(b, u) \<in> set (ys r). 4 dvd consumed_samples u \<longrightarrow>
      (\<exists>vs zs. (\<forall>r' < nat 4. \<exists>s2 t. make_batch_sampler 13 0 1 4 (int r') 4 True None = Inr s2 \<and>
           load_state_dict (state_dict u) s2 = Inr (vs r') \<and> epoch_run (vs r') = Some (Inr (zs r', t))) \<and>
         (\<Sum>r<nat 2. seen_by (consumed_samples u) (ys r)) + (\<Sum>r'<nat 4. mset (concat (map fst (zs r')))) =
           image_mset (\<lambda>i. i) (mset [0..(if True then 13 - 13 mod (1 * 4) else 13) - 1])))"
  by (rule resume_splits_rest [of 13 0 1 4 2 False None "projr (make_batch_sampler 13 0 1 4 0 2 False None)" 1 4 True
        "projr (make_batch_sampler 13 0 1 4 0 4 True None)"])
    (simp_all add: make_batch_sampler_def validate_positive_integer_def validate_consumed_samples_def resolve_index_def)

text \<open>The states a sampler can be in: after its construction and any sequence of calls that did not raise.\<close>

inductive sampler_reach :: "batch_sampler \<Rightarrow> bool" where
  made: "make_batch_sampler tot c m gbs r W dropping mapping = Inr s \<Longrightarrow> sampler_reach s"
| advanced: "sampler_reach s \<Longrightarrow> next_batch s = Some (Inr (b, t)) \<Longrightarrow> sampler_reach t"
| loaded: "sampler_reach s \<Longrightarrow> load_state_dict d s = Inr t \<Longrightarrow> sampler_reach t"
| epoch_set: "sampler_reach s \<Longrightarrow> set_epoch e s = Inr t \<Longrightarrow> sampler_reach t"
| source_resume: "sampler_reach s \<Longrightarrow> sampler_reach (enable_source_batch_resume s)"

definition next_ok ::
  "'z batch_sampler_scheme \<Rightarrow> (int list option \<times> 'z batch_sampler_scheme) res \<Rightarrow> bool" where
  "next_ok s r \<longleftrightarrow> (case r of
       Inl e \<Rightarrow> index_mapping s \<noteq> None
     | Inr (None, t) \<Rightarrow> sampler_ok t \<and> consumed_samples t = total_samples s
     | Inr (Some b, t) \<Rightarrow> sampler_ok t \<and> consumed_samples s < consumed_samples t \<and>
         b \<noteq> [] \<and> int (length b) \<le> micro_batch_size s)"

lemma rmap_unmapped: "index_mapping s = None \<Longrightarrow> rmap (resolve_index s) xs = Inr xs"
  by (induction xs) (simp_all add: resolve_index_def)

lemma next_ok_past:
  assumes "next_ok (past_block s) r" "sampler_ok s" "\<not> at_end s"
  shows "next_ok s r"
  using assms past_block_less [of s]
  by (auto simp: next_ok_def past_block_def split: sum.splits option.splits)

lemma next_batch_returns:
  assumes "sampler_ok s"
  shows "\<exists>r. next_batch s = Some r \<and> next_ok s r"
  using assms
proof (induction "nat (total_samples s - consumed_samples s)" arbitrary: s rule: less_induct)
  case less
  note less_block = past_block_less [OF less.prems]
  show ?case
  proof (cases "at_end s")
    case True
    then show ?thesis using next_batch_end [OF True] sampler_okD [OF less.prems] less.prems
      by (auto simp: next_ok_def sampler_ok_def)
  next
    case False
    show ?thesis
    proof (cases "block_end s \<le> piece_start s")
      case True
      have "nat (total_samples (past_block s) - consumed_samples (past_block s)) < nat (total_samples s - consumed_samples s)"
        using less_block [OF False] by simp
      from less.hyps [OF this past_block_ok [OF less.prems False]] show ?thesis
        using next_ok_past [OF _ less.prems False] next_batch_round [OF False] True by auto
    next
      case piece: False
      let ?r = "rmap (resolve_index s) (piece s)"
      have "next_ok s (rbind ?r (\<lambda>batch. Inr (Some batch, past_block s)))"
      proof (cases ?r)
        case (Inl e)
        then show ?thesis using rmap_unmapped [of s "piece s"] by (auto simp: next_ok_def)
      next
        case (Inr batch)
        then have "length batch = length (piece s)" by (rule rmap_length)
        then show ?thesis
          using Inr piece less_block [OF False] past_block_ok [OF less.prems False] sampler_okD(2) [OF less.prems]
          by (auto simp: next_ok_def piece_def)
      qed
      then show ?thesis using next_batch_round [OF False] piece by auto
    qed
  qed
qed

text \<open>
  C25.  The sampler's invariant.  After its construction and any calls, the position lies within the
  dataset, the rank within the group and the global batch is a whole number of blocks.  \<open>next\<close> therefore always
  returns: it ends the epoch at the end of the dataset, or advances the position and yields a batch that is not empty and
  at most a micro-batch; it raises only out of a user's index mapping.
\<close>

theorem sampler_invariant:
  assumes "sampler_reach s"
  shows "sampler_ok s \<and> (\<exists>r. next_batch s = Some r \<and> next_ok s r)"
proof -
  have "sampler_ok s" using assms
  proof induction
    case (made tot c m gbs r W dropping mapping s)
    then show ?case using make_batch_sampler_ok by blast
  next
    case (advanced s b t)
    then show ?case using next_batch_returns [OF advanced.IH]
      by (cases b) (auto simp: next_ok_def)
  next
    case (loaded s d t)
    then show ?case using load_state_dict_ok by blast
  next
    case (epoch_set s e t)
    then show ?case using set_epoch_ok by blast
  next
    case (source_resume s)
    moreover have "sampler_ok (enable_source_batch_resume s) = sampler_ok s"
      by (simp add: enable_source_batch_resume_def sampler_ok_def)
    ultimately show ?case by simp
  qed
  then show ?thesis using next_batch_returns by blast
qed

theorem sampler_invariant_witness:
  "sampler_ok (projr (make_batch_sampler 13 8 2 4 1 2 True None))"
  by (rule sampler_invariant [THEN conjunct1, OF sampler_reach.made [of 13 8 2 4 1 2 True None]])
    (simp add: make_batch_sampler_def validate_positive_integer_def validate_consumed_samples_def)

section \<open>The cyclic sampler\<close>

text \<open>
  The cyclic run cuts the indices of the rank into micro-batches and leaves the incomplete tail out.
\<close>

fun chunked :: "nat \<Rightarrow> 'a list \<Rightarrow> 'a list list" where
  "chunked k xs = (if k = 0 \<or> length xs < k then [] else take k xs # chunked k (drop k xs))"

declare chunked.simps [simp del]

lemma chunked_0 [simp]: "chunked 0 xs = []"
  by (subst chunked.simps) simp

lemma chunked_short: "length xs < k \<Longrightarrow> chunked k xs = []"
  by (subst chunked.simps) simp

lemma chunked_step: "0 < k \<Longrightarrow> k \<le> length xs \<Longrightarrow> chunked k xs = take k xs # chunked k (drop k xs)"
  by (subst chunked.simps) simp

definition cyclic_yields :: "cyclic_sampler \<Rightarrow> int list list \<Rightarrow> (int list \<times> cyclic_sampler) list" where
  "cyclic_yields s bs =
     map (\<lambda>(j, b). (b, s\<lparr>consumed_samples := consumed_samples s + int (Suc j) * global_micro_batch_size s\<rparr>))
       (enumerate 0 bs)"

lemma cyclic_yields_Nil [simp]: "cyclic_yields s [] = []"
  by (simp add: cyclic_yields_def)

lemma cyclic_yields_Cons:
  "cyclic_yields s (b # bs) =
    (let s' = s\<lparr>consumed_samples := consumed_samples s + global_micro_batch_size s\<rparr>
     in (b, s') # cyclic_yields s' bs)"
proof -
  have "enumerate (Suc 0) bs = map (\<lambda>(j, b). (Suc j, b)) (enumerate 0 bs)"
    by (rule nth_equalityI) (simp_all add: nth_enumerate_eq)
  then show ?thesis by (simp add: cyclic_yields_def Let_def comp_def case_prod_unfold algebra_simps)
qed

lemma cyclic_fill:
  assumes "int (length local_batch + length xs) < micro_batch_size s"
  shows "fold cyclic_step xs (local_batch, ys, s) = (local_batch @ xs, ys, s)"
  using assms by (induction xs arbitrary: local_batch) (simp_all add: cyclic_step_def Let_def)

lemma cyclic_fold:
  assumes "0 < micro_batch_size s"
  shows "\<exists>rest. fold cyclic_step xs ([], ys, s) =
    (rest, ys @ cyclic_yields s (chunked (nat (micro_batch_size s)) xs),
     s\<lparr>consumed_samples := consumed_samples s +
         int (length (chunked (nat (micro_batch_size s)) xs)) * global_micro_batch_size s\<rparr>)"
  using assms
proof (induction "length xs" arbitrary: xs ys s rule: less_induct)
  case less
  let ?m = "nat (micro_batch_size s)"
  show ?case
  proof (cases "length xs < ?m")
    case True
    then show ?thesis using cyclic_fill [of "[]" xs s ys] by (simp add: chunked_short)
  next
    case False
    obtain k where k: "?m = Suc k" using less.prems by (cases ?m) auto
    let ?b = "take ?m xs"
    let ?s = "s\<lparr>consumed_samples := consumed_samples s + global_micro_batch_size s\<rparr>"
    have b: "?b = take k xs @ [xs ! k]" using False k by (simp add: take_Suc_conv_app_nth)
    have "fold cyclic_step (take k xs) ([], ys, s) = (take k xs, ys, s)"
      using cyclic_fill [of "[]" "take k xs" s ys] False k by simp
    then have "fold cyclic_step ?b ([], ys, s) = ([], ys @ [(?b, ?s)], ?s)"
      using False k unfolding b by (simp add: cyclic_step_def Let_def)
    then have "fold cyclic_step xs ([], ys, s) = fold cyclic_step (drop ?m xs) ([], ys @ [(?b, ?s)], ?s)"
      by (metis append_take_drop_id comp_apply fold_append)
    moreover have "length (drop ?m xs) < length xs" using False less.prems by simp
    ultimately show ?thesis
      using less.hyps [of "drop ?m xs" ?s "ys @ [(?b, ?s)]"] less.prems False
      by (simp add: chunked_step cyclic_yields_Cons Let_def algebra_simps)
  qed
qed

lemma chunked_multiple:
  assumes "0 < m" "length xs = n * m"
  shows "concat (chunked m xs) = xs \<and> length (chunked m xs) = n \<and> (\<forall>b \<in> set (chunked m xs). length b = m)"
  using assms(2)
proof (induction n arbitrary: xs)
  case 0
  then show ?case using assms(1) by (simp add: chunked_short)
next
  case (Suc n)
  then have "chunked m xs = take m xs # chunked m (drop m xs)" using assms(1) by (intro chunked_step) auto
  then show ?case using Suc.IH [of "drop m xs"] Suc.prems by simp
qed

lemma chunked_drop: "0 < m \<Longrightarrow> k * m \<le> length xs \<Longrightarrow> chunked m (drop (k * m) xs) = drop k (chunked m xs)"
proof (induction k arbitrary: xs)
  case (Suc k)
  have "chunked m (drop (k * m) (drop m xs)) = drop k (chunked m (drop m xs))" using Suc by (intro Suc.IH) auto
  moreover have "chunked m xs = take m xs # chunked m (drop m xs)" using Suc by (intro chunked_step) auto
  ultimately show ?case by (simp add: add.commute)
qed simp

lemma cyclic_yields_drop:
  "k \<le> length bs \<Longrightarrow> drop k (cyclic_yields s bs) =
    cyclic_yields (s\<lparr>consumed_samples := consumed_samples s + int k * global_micro_batch_size s\<rparr>) (drop k bs)"
proof (induction k arbitrary: s bs)
  case (Suc k)
  then obtain b bs' where "bs = b # bs'" by (cases bs) auto
  then show ?case using Suc by (simp add: cyclic_yields_Cons Let_def algebra_simps)
qed simp

lemma strided_skip: "length A \<le> f \<Longrightarrow> strided f k (A @ B) = strided (f - length A) k B"
  by (induction A arbitrary: f) (auto split: nat.split)

lemma strided_at: "f < length A \<Longrightarrow> strided f k A = A ! f # strided (k - 1) k (drop (Suc f) A)"
proof (induction A arbitrary: f)
  case (Cons a A)
  then show ?case by (cases f) auto
qed simp

lemma strided_block:
  assumes "length A = W" "r < W"
  shows "strided r W (A @ B) = A ! r # strided r W B"
proof -
  have "strided r W (A @ B) = (A @ B) ! r # strided (W - 1) W (drop (Suc r) (A @ B))"
    using strided_at [of r "A @ B" W] assms by simp
  also have "\<dots> = A ! r # strided (W - 1) W (drop (Suc r) A @ B)" using assms by (simp add: nth_append)
  also have "strided (W - 1) W (drop (Suc r) A @ B) = strided r W B"
    using strided_skip [of "drop (Suc r) A" "W - 1" W B] assms by simp
  finally show ?thesis .
qed

lemma strided_blocks:
  assumes "length xs = n * W"
  shows "r < W \<Longrightarrow> length (strided r W xs) = n"
    "(\<Sum>r<W. mset (strided r W xs)) = mset xs"
    "r < W \<Longrightarrow> k \<le> n \<Longrightarrow> strided r W (drop (k * W) xs) = drop k (strided r W xs)"
  using assms
proof (induction n arbitrary: xs k)
  case 0
  { case 1 then show ?case by simp next case 2 then show ?case by simp next case 3 then show ?case by simp }
next
  case (Suc n)
  { case 1
    then show ?case using Suc.IH(1) [of "drop W xs"] strided_block [of "take W xs" W r "drop W xs"] by simp
  next
    case 2
    let ?A = "take W xs" and ?B = "drop W xs"
    have A: "length ?A = W" using 2 by simp
    have single: "(\<Sum>r<W. {#?A ! r#}) = mset ?A"
    proof -
      have "(\<Sum>r<k. {#?A ! r#}) = mset (take k ?A)" if "k \<le> W" for k
        using that A by (induction k) (simp_all add: take_Suc_conv_app_nth del: take_take)
      from this [of W] show ?thesis using A by simp
    qed
    have "(\<Sum>r<W. mset (strided r W xs)) = (\<Sum>r<W. {#?A ! r#} + mset (strided r W ?B))"
      using strided_block [OF A, of _ ?B] by (intro sum.cong) simp_all
    also have "\<dots> = mset ?A + mset ?B" using Suc.IH(2) [of ?B] 2 by (simp only: sum.distrib single) simp
    also have "\<dots> = mset xs" by (simp only: mset_append [symmetric] append_take_drop_id)
    finally show ?case .
  next
    case 3
    show ?case
    proof (cases k)
      case (Suc j)
      then show ?thesis
        using Suc.IH(3) [of j "drop W xs"] 3 strided_block [of "take W xs" W r "drop W xs"] by (simp add: add.commute)
    qed simp }
qed

text \<open>The indices of a rank at the start of the epoch, and from any block on.\<close>

definition perm_fun :: "(int \<Rightarrow> int list \<Rightarrow> int list) \<Rightarrow> bool" where
  "perm_fun shuffle \<longleftrightarrow> (\<forall>k xs. mset (shuffle k xs) = mset xs)"

lemma perm_length: "perm_fun shuffle \<Longrightarrow> length (shuffle k xs) = length xs"
  using mset_eq_length by (fastforce simp: perm_fun_def)

definition epoch_indices :: "(int \<Rightarrow> int list \<Rightarrow> int list) \<Rightarrow> cyclic_sampler \<Rightarrow> int \<Rightarrow> int list" where
  "epoch_indices shuffle s active = rank_indices shuffle (s\<lparr>consumed_samples := 0\<rparr>) active"

lemma epoch_indices_at: "epoch_indices shuffle (s\<lparr>consumed_samples := c\<rparr>) a = epoch_indices shuffle s a"
  by (simp add: epoch_indices_def)

definition blocks :: "'z batch_sampler_scheme \<Rightarrow> nat" where
  "blocks s = nat (total_samples s div global_micro_batch_size s)"

lemma blocks_active:
  assumes "sampler_ok s" "global_micro_batch_size s \<le> total_samples s"
  shows "active_samples s = Inr (int (blocks s) * global_micro_batch_size s)" "0 < blocks s"
proof -
  note ok = sampler_okD [OF assms(1)]
  have "1 \<le> total_samples s div global_micro_batch_size s"
    using assms(2) ok(4) by (metis zdiv_mono1 div_self less_irrefl)
  then have b: "int (blocks s) = total_samples s div global_micro_batch_size s" "0 < blocks s"
    by (simp_all add: blocks_def)
  have "total_samples s - total_samples s mod global_micro_batch_size s = int (blocks s) * global_micro_batch_size s"
    by (simp add: b(1) minus_mod_eq_div_mult)
  then show "active_samples s = Inr (int (blocks s) * global_micro_batch_size s)"
    using b(2) ok(4) by (simp add: active_samples_def Let_def mult_le_0_iff)
  show "0 < blocks s" by (rule b(2))
qed

lemma epoch_indices_length:
  assumes "sampler_ok s" "perm_fun shuffle"
  shows "length (epoch_indices shuffle s (int n * global_micro_batch_size s)) = n * nat (micro_batch_size s)"
proof -
  note ok = sampler_okD [OF assms(1)]
  obtain W m where W: "dp_world_size s = int W" "micro_batch_size s = int m" "0 < W"
    using ok(2,3) by (metis zero_less_imp_eq_int)
  have bucket: "int n * (int m * int W) div int W = int (n * m)" using W(3) by simp
  show ?thesis
  proof (cases "data_sharding s")
    case True
    then show ?thesis using ok W bucket perm_length [OF assms(2)]
      by (simp add: epoch_indices_def rank_indices_def Let_def nat_mult_distrib)
  next
    case False
    let ?xs = "shuffle (seed s + epoch s) [0..int n * (int m * int W) - 1]"
    have "length ?xs = n * m * W" using perm_length [OF assms(2)] by (simp add: nat_mult_distrib)
    from strided_blocks(1) [OF this, of "nat (dp_rank s)"] show ?thesis
      using False ok W by (simp add: epoch_indices_def rank_indices_def Let_def)
  qed
qed

lemma rank_indices_from:
  assumes "sampler_ok s" "perm_fun shuffle" "consumed_samples s = int k * global_micro_batch_size s" "k \<le> n"
  shows "rank_indices shuffle s (int n * global_micro_batch_size s) =
    drop (k * nat (micro_batch_size s)) (epoch_indices shuffle s (int n * global_micro_batch_size s))"
proof -
  note ok = sampler_okD [OF assms(1)]
  obtain W m where W: "dp_world_size s = int W" "micro_batch_size s = int m" "0 < W" "0 < m"
    using ok(2,3) by (metis zero_less_imp_eq_int)
  show ?thesis
  proof (cases "data_sharding s")
    case True
    have "int k * (int m * int W) div int W = int (k * m)" using W(3) by simp
    then show ?thesis using True ok W assms(3)
      by (simp add: epoch_indices_def rank_indices_def Let_def drop_map nat_mult_distrib)
  next
    case False
    let ?xs = "shuffle (seed s + epoch s) [0..int n * (int m * int W) - 1]"
    have "length ?xs = n * m * W" using perm_length [OF assms(2)] by (simp add: nat_mult_distrib)
    from strided_blocks(3) [OF this, of "nat (dp_rank s)" "k * m"] have
      "strided (nat (dp_rank s)) W (drop (k * m * W) ?xs) = drop (k * m) (strided (nat (dp_rank s)) W ?xs)"
      using ok W assms(4) by simp
    moreover have "nat (int k * (int m * int W)) = k * m * W" by (simp add: nat_mult_distrib)
    ultimately show ?thesis using False ok W assms(3)
      by (simp add: epoch_indices_def rank_indices_def Let_def)
  qed
qed

definition epoch_yields :: "(int \<Rightarrow> int list \<Rightarrow> int list) \<Rightarrow> cyclic_sampler \<Rightarrow> (int list \<times> cyclic_sampler) list" where
  "epoch_yields shuffle s =
     cyclic_yields (s\<lparr>consumed_samples := 0\<rparr>) (chunked (nat (micro_batch_size s))
       (epoch_indices shuffle s (int (blocks s) * global_micro_batch_size s)))"

lemma cyclic_run_from:
  assumes "sampler_ok s" "perm_fun shuffle" "global_micro_batch_size s \<le> total_samples s"
    and "consumed_samples s = int k * global_micro_batch_size s" "k \<le> blocks s"
  shows "cyclic_run shuffle s = Inr (drop k (epoch_yields shuffle s),
    s\<lparr>consumed_samples := int (blocks s) * global_micro_batch_size s\<rparr>)"
proof -
  note ok = sampler_okD [OF assms(1)] and act = blocks_active [OF assms(1,3)]
  let ?m = "nat (micro_batch_size s)" and ?xs = "epoch_indices shuffle s (int (blocks s) * global_micro_batch_size s)"
  have m: "0 < ?m" using ok(2) by simp
  note chunks = chunked_multiple [OF m epoch_indices_length [OF assms(1,2), of "blocks s"]]
  have "chunked ?m (drop (k * ?m) ?xs) = drop k (chunked ?m ?xs)"
    using epoch_indices_length [OF assms(1,2)] assms(5) m by (intro chunked_drop) simp_all
  moreover obtain rest where "fold cyclic_step (drop (k * ?m) ?xs) ([], [], s) =
      (rest, cyclic_yields s (chunked ?m (drop (k * ?m) ?xs)),
       s\<lparr>consumed_samples := consumed_samples s +
         int (length (chunked ?m (drop (k * ?m) ?xs))) * global_micro_batch_size s\<rparr>)"
    using cyclic_fold [OF ok(2), of "drop (k * ?m) ?xs" "[]"] by auto
  moreover have "consumed_samples s + int (blocks s - k) * global_micro_batch_size s =
      int (blocks s) * global_micro_batch_size s"
    using assms(4,5) by (simp add: of_nat_diff algebra_simps)
  moreover have "s\<lparr>consumed_samples := int k * global_micro_batch_size s\<rparr> = s" using assms(4) by simp
  then have "cyclic_yields s (drop k (chunked ?m ?xs)) = drop k (epoch_yields shuffle s)"
    using cyclic_yields_drop [of k "chunked ?m ?xs" "s\<lparr>consumed_samples := 0\<rparr>"] chunks assms(5)
    by (simp add: epoch_yields_def)
  ultimately show ?thesis
    using act rank_indices_from [OF assms(1,2,4,5)] chunks assms(4) by (simp add: cyclic_run_def)
qed

lemma ranks_epoch_indices:
  assumes "sampler_ok s" "perm_fun shuffle"
  shows "(\<Sum>r<world s. mset (epoch_indices shuffle (rank_sampler s r) (int n * global_micro_batch_size s))) =
    mset [0..int n * global_micro_batch_size s - 1]"
proof -
  note ok = sampler_okD [OF assms(1)]
  obtain W m where W: "dp_world_size s = int W" "micro_batch_size s = int m" "0 < W" "0 < m"
    using ok(2,3) by (metis zero_less_imp_eq_int)
  have w: "world s = W" by (simp add: world_def W)
  have bucket: "int n * (int m * int W) div int W = int (n * m)" using W(3) by simp
  show ?thesis
  proof (cases "data_sharding s")
    case True
    let ?b = "int (n * m)"
    have "mset (epoch_indices shuffle (rank_sampler s r) (int n * global_micro_batch_size s)) =
        mset [int r * ?b..int r * ?b + ?b - 1]" for r
    proof -
      have "mset (epoch_indices shuffle (rank_sampler s r) (int n * global_micro_batch_size s)) =
          image_mset (\<lambda>k. int r * ?b + k) (mset [0..?b - 1])"
        using True W bucket ok(9) assms(2)
        by (simp add: epoch_indices_def rank_indices_def rank_sampler_def Let_def perm_fun_def)
      also have "\<dots> = mset (map (\<lambda>k. k + int r * ?b) [0..?b - 1])" by (simp add: add.commute)
      also have "map (\<lambda>k. k + int r * ?b) [0..?b - 1] = [int r * ?b..int r * ?b + ?b - 1]"
        by (rule nth_equalityI) (auto simp: nth_upto)
      finally show ?thesis .
    qed
    moreover have "min (int r * ?b + ?b) (int W * ?b) = int r * ?b + ?b" if "r < W" for r
    proof -
      have "Suc r * (n * m) \<le> W * (n * m)" using that by (intro mult_le_mono1) simp
      then have "int r * ?b + ?b \<le> int W * ?b"
        by (metis add.commute mult_Suc of_nat_add of_nat_le_iff of_nat_mult)
      then show ?thesis by simp
    qed
    ultimately have "(\<Sum>r<W. mset (epoch_indices shuffle (rank_sampler s r) (int n * global_micro_batch_size s))) =
        (\<Sum>r<W. mset [int r * ?b..min (int r * ?b + ?b) (int W * ?b) - 1])"
      by (intro sum.cong) simp_all
    also have "\<dots> = mset [0..int W * ?b - 1]"
    proof (cases "n = 0")
      case False
      then have "0 < ?b" using W(4) by simp
      from pieces_cover [OF this, of 0 "int W * ?b" W] show ?thesis by simp
    qed simp
    finally show ?thesis using w W ok(9) by (simp add: mult_ac)
  next
    case False
    let ?xs = "shuffle (seed s + epoch s) [0..int n * (int m * int W) - 1]"
    have "length ?xs = n * m * W" using perm_length [OF assms(2)] by (simp add: nat_mult_distrib)
    from strided_blocks(2) [OF this] have "(\<Sum>r<W. mset (strided r W ?xs)) = mset [0..int n * (int m * int W) - 1]"
      using assms(2) by (simp add: perm_fun_def)
    moreover have "epoch_indices shuffle (rank_sampler s r) (int n * global_micro_batch_size s) = strided r W ?xs" for r
      using False W ok(9) by (simp add: epoch_indices_def rank_indices_def rank_sampler_def Let_def)
    ultimately show ?thesis using w W ok(9) by simp
  qed
qed

lemma make_cyclic_rank:
  assumes "make_cyclic_sampler sharding sd (make_batch_sampler tot c m gbs 0 W dropping mapping) = Inr s" "r < world s"
  shows "make_cyclic_sampler sharding sd (make_batch_sampler tot c m gbs (int r) W dropping mapping) =
      Inr (rank_sampler s r)"
proof -
  obtain b where b: "make_batch_sampler tot c m gbs 0 W dropping mapping = Inr b" "drop_last b"
    "s = batch_sampler.extend b (cyclic_sampler.fields sharding sd)"
    using assms(1) by (auto simp: make_cyclic_sampler_def split: if_splits)
  have "r < world b" using assms(2) b(3) by (simp add: world_def batch_sampler.defs)
  then show "make_cyclic_sampler sharding sd (make_batch_sampler tot c m gbs (int r) W dropping mapping) =
      Inr (rank_sampler s r)"
    using make_rank [OF b(1)] b(2,3)
    by (simp add: make_cyclic_sampler_def rank_sampler_def batch_sampler.defs cyclic_sampler.defs)
qed

lemma make_cyclic_ok:
  assumes "make_cyclic_sampler sharding sd (make_batch_sampler tot c m gbs r W dropping mapping) = Inr s"
  shows "sampler_ok s"
  using assms make_batch_sampler_ok [of tot c m gbs r W dropping mapping]
  by (auto simp: make_cyclic_sampler_def sampler_ok_def batch_sampler.defs split: if_splits)

lemma make_cyclic_fields:
  assumes "make_cyclic_sampler sharding sd (make_batch_sampler tot c m gbs r W dropping mapping) = Inr s"
  shows "total_samples s = tot" "consumed_samples s = c" "micro_batch_size s = m" "dp_world_size s = W"
    "global_micro_batch_size s = m * W" "global_batch_size s = gbs" "\<not> resume_at_source_batch s" "dropping"
  using assms by (auto simp: make_cyclic_sampler_def make_batch_sampler_def batch_sampler.defs split: if_splits)

lemma epoch_yields_length:
  assumes "sampler_ok s" "perm_fun shuffle"
  shows "length (epoch_yields shuffle s) = blocks s"
  using chunked_multiple [OF _ epoch_indices_length [OF assms, of "blocks s"]] sampler_okD(2) [OF assms(1)]
  by (simp add: epoch_yields_def cyclic_yields_def)

lemma epoch_yields_nth:
  assumes "sampler_ok s" "perm_fun shuffle" "k < blocks s"
  shows "snd (epoch_yields shuffle s ! k) = s\<lparr>consumed_samples := int (Suc k) * global_micro_batch_size s\<rparr>"
    "int (length (fst (epoch_yields shuffle s ! k))) = micro_batch_size s"
proof -
  note ok = sampler_okD [OF assms(1)]
  let ?m = "nat (micro_batch_size s)"
  have m: "0 < ?m" using ok(2) by simp
  note chunks = chunked_multiple [OF m epoch_indices_length [OF assms(1,2), of "blocks s"]]
  show "snd (epoch_yields shuffle s ! k) = s\<lparr>consumed_samples := int (Suc k) * global_micro_batch_size s\<rparr>"
    using chunks assms(3) by (simp add: epoch_yields_def cyclic_yields_def nth_enumerate_eq)
  show "int (length (fst (epoch_yields shuffle s ! k))) = micro_batch_size s"
    using chunks assms(3) ok(2) by (simp add: epoch_yields_def cyclic_yields_def nth_enumerate_eq)
qed

lemma map_fst_yields: "map fst (cyclic_yields s bs) = bs"
  by (rule nth_equalityI) (simp_all add: cyclic_yields_def nth_enumerate_eq)

lemma concat_epoch_yields:
  assumes "sampler_ok s" "perm_fun shuffle"
  shows "concat (map fst (epoch_yields shuffle s)) =
    epoch_indices shuffle s (int (blocks s) * global_micro_batch_size s)"
  using chunked_multiple [OF _ epoch_indices_length [OF assms, of "blocks s"]] sampler_okD(2) [OF assms(1)]
  by (simp add: epoch_yields_def map_fst_yields)

text \<open>The checkpoint of a cyclic rank, loaded into its own fresh sampler, continues its epoch.\<close>

lemma cyclic_resume:
  assumes ok: "sampler_ok s" "perm_fun shuffle" "global_micro_batch_size s \<le> total_samples s"
    and fresh: "\<not> resume_at_source_batch s" and k: "k < blocks s"
    and u: "u = s\<lparr>epoch := e, consumed_samples := int (Suc k) * global_micro_batch_size s\<rparr>"
    and dvd: "global_batch_size s dvd consumed_samples u"
  shows "rbind (cyclic_load_state_dict (state_dict u) s) (cyclic_run shuffle) =
    Inr (drop (Suc k) (epoch_yields shuffle (s\<lparr>epoch := e, consumed_samples := 0\<rparr>)),
      s\<lparr>epoch := e, consumed_samples := int (blocks s) * global_micro_batch_size s\<rparr>)"
proof -
  note bounds = sampler_okD [OF ok(1)]
  have b: "int (blocks s) = total_samples s div global_micro_batch_size s"
    using bounds(1,4) by (simp add: blocks_def pos_imp_zdiv_nonneg_iff)
  have "int (Suc k) * global_micro_batch_size s \<le> int (blocks s) * global_micro_batch_size s"
    using k bounds(4) by (intro mult_right_mono) auto
  also have "\<dots> = total_samples s - total_samples s mod global_micro_batch_size s"
    by (simp add: b minus_mod_eq_div_mult)
  also have "\<dots> \<le> total_samples s" using bounds(4) by simp
  finally have C: "int (Suc k) * global_micro_batch_size s \<le> total_samples s" .
  have uC: "consumed_samples u = int (Suc k) * global_micro_batch_size s" using u by simp
  have "global_batch_size u = global_batch_size s" "dp_world_size u = dp_world_size s" "epoch u = e" using u by simp_all
  then have load: "cyclic_load_state_dict (state_dict u) s =
      Inr (s\<lparr>consumed_samples := int (Suc k) * global_micro_batch_size s, epoch := e\<rparr>)"
    using load_checkpoint [of u s] fresh dvd uC C bounds(4) by (simp add: cyclic_load_state_dict_def)
  let ?v = "s\<lparr>consumed_samples := int (Suc k) * global_micro_batch_size s, epoch := e\<rparr>"
  have v: "sampler_ok ?v" using ok(1) C bounds(4) by (auto simp: sampler_ok_def)
  have "epoch_yields shuffle ?v = epoch_yields shuffle (s\<lparr>epoch := e, consumed_samples := 0\<rparr>)"
    by (simp add: epoch_yields_def epoch_indices_def blocks_def)
  then show ?thesis
    using load cyclic_run_from [OF v ok(2), of "Suc k"] ok(3) k by (simp add: blocks_def)
qed

lemma cyclic_rank_epoch:
  fixes shuffle s
  defines "ys \<equiv> \<lambda>e. epoch_yields shuffle (s\<lparr>epoch := e, consumed_samples := 0\<rparr>)"
  assumes ok: "sampler_ok s" "perm_fun shuffle" "global_micro_batch_size s \<le> total_samples s"
    and fresh: "\<not> resume_at_source_batch s" "consumed_samples s = 0" and e: "0 \<le> e"
  shows "\<exists>t. rbind (set_epoch e s) (cyclic_run shuffle) = Inr (ys e, t) \<and>
      length (ys e) = blocks s \<and> (\<forall>(b, u) \<in> set (ys e). int (length b) = micro_batch_size s) \<and>
      (\<forall>k < length (ys e). global_batch_size s dvd consumed_samples (snd (ys e ! k)) \<longrightarrow>
         rbind (cyclic_load_state_dict (state_dict (snd (ys e ! k))) s) (cyclic_run shuffle) =
           Inr (drop (Suc k) (ys e), t))"
proof -
  let ?s = "s\<lparr>epoch := e, consumed_samples := 0\<rparr>"
  have ok': "sampler_ok ?s" using ok(1) by (auto simp: sampler_ok_def)
  have b: "blocks ?s = blocks s" by (simp add: blocks_def)
  note len = epoch_yields_length [OF ok' ok(2)] and nth = epoch_yields_nth [OF ok' ok(2)]
  have "set_epoch e s = Inr ?s" using e fresh(2) by (auto simp: set_epoch_def)
  then have run: "rbind (set_epoch e s) (cyclic_run shuffle) =
      Inr (ys e, s\<lparr>epoch := e, consumed_samples := int (blocks s) * global_micro_batch_size s\<rparr>)"
    using cyclic_run_from [OF ok' ok(2), of 0] ok(3) b by (simp add: ys_def)
  have "\<forall>(b, u) \<in> set (ys e). int (length b) = micro_batch_size s"
    using nth(2) len b by (fastforce simp: ys_def in_set_conv_nth)
  moreover have "rbind (cyclic_load_state_dict (state_dict (snd (ys e ! k))) s) (cyclic_run shuffle) =
      Inr (drop (Suc k) (ys e), s\<lparr>epoch := e, consumed_samples := int (blocks s) * global_micro_batch_size s\<rparr>)"
    if "k < length (ys e)" "global_batch_size s dvd consumed_samples (snd (ys e ! k))" for k
  proof -
    have k: "k < blocks s" using that(1) len b by (simp add: ys_def)
    then have "snd (ys e ! k) = s\<lparr>epoch := e, consumed_samples := int (Suc k) * global_micro_batch_size s\<rparr>"
      using nth(1) b by (simp add: ys_def)
    from cyclic_resume [OF ok fresh(1) k this that(2)] show ?thesis by (simp add: ys_def)
  qed
  ultimately show ?thesis using run len b by (auto simp: ys_def)
qed

text \<open>
  C26.  An epoch of the cyclic sampler, with or without data sharding.  For any shuffle that permutes,
  every rank yields one micro-batch of exactly the configured size per complete block, the batches
  of all ranks together are each index of the complete blocks once, and the state a rank saves with any of its yields at an
  optimizer-batch boundary, loaded into that rank's fresh sampler, gives exactly the yields that are left.
\<close>

theorem cyclic_epoch_split:
  assumes made: "make_cyclic_sampler sharding sd (make_batch_sampler tot 0 m gbs 0 W dropping None) = Inr s"
    and full: "m * W \<le> tot" and e: "0 \<le> e" and perm: "perm_fun shuffle"
  shows "\<exists>ys. (\<forall>r < nat W. \<exists>sr t.
      make_cyclic_sampler sharding sd (make_batch_sampler tot 0 m gbs (int r) W dropping None) = Inr sr \<and>
      rbind (set_epoch e sr) (cyclic_run shuffle) = Inr (ys r, t) \<and>
      int (length (ys r)) = tot div (m * W) \<and> (\<forall>(b, u) \<in> set (ys r). int (length b) = m) \<and>
      (\<forall>k < length (ys r). gbs dvd consumed_samples (snd (ys r ! k)) \<longrightarrow>
         rbind (cyclic_load_state_dict (state_dict (snd (ys r ! k))) sr) (cyclic_run shuffle) =
           Inr (drop (Suc k) (ys r), t))) \<and>
    (\<Sum>r<nat W. mset (concat (map fst (ys r)))) = mset [0..tot - tot mod (m * W) - 1]"
proof -
  note f = make_cyclic_fields [OF made] and s_ok = make_cyclic_ok [OF made]
  let ?ys = "\<lambda>r. epoch_yields shuffle ((rank_sampler s r)\<lparr>epoch := e, consumed_samples := 0\<rparr>)"
  have w: "world s = nat W" using f by (simp add: world_def)
  have G: "0 < m * W" using sampler_okD(4) [OF s_ok] f by simp
  have blocks: "int (blocks s) = tot div (m * W)"
    using f full G by (simp add: blocks_def pos_imp_zdiv_nonneg_iff)
  have each: "\<exists>sr t. make_cyclic_sampler sharding sd (make_batch_sampler tot 0 m gbs (int r) W dropping None) = Inr sr \<and>
      rbind (set_epoch e sr) (cyclic_run shuffle) = Inr (?ys r, t) \<and>
      int (length (?ys r)) = tot div (m * W) \<and> (\<forall>(b, u) \<in> set (?ys r). int (length b) = m) \<and>
      (\<forall>k < length (?ys r). gbs dvd consumed_samples (snd (?ys r ! k)) \<longrightarrow>
         rbind (cyclic_load_state_dict (state_dict (snd (?ys r ! k))) sr) (cyclic_run shuffle) =
           Inr (drop (Suc k) (?ys r), t))" if r: "r < nat W" for r
  proof -
    have "sampler_ok (rank_sampler s r)" using sampler_ok_rank [OF s_ok] r w by simp
    moreover have "\<not> resume_at_source_batch (rank_sampler s r)" "global_batch_size (rank_sampler s r) = gbs"
      "blocks (rank_sampler s r) = blocks s"
      using f by (simp_all add: rank_sampler_def blocks_def)
    ultimately show ?thesis
      using cyclic_rank_epoch [of "rank_sampler s r" shuffle e] make_cyclic_rank [OF made] r w perm full e f blocks by auto
  qed
  have "(\<Sum>r<nat W. mset (concat (map fst (?ys r)))) =
      (\<Sum>r<world s. mset (epoch_indices shuffle (rank_sampler (s\<lparr>epoch := e\<rparr>) r) (int (blocks s) * global_micro_batch_size s)))"
    unfolding w
  proof (intro sum.cong)
    fix r assume "r \<in> {..<nat W}"
    then have "sampler_ok ((rank_sampler s r)\<lparr>epoch := e, consumed_samples := 0\<rparr>)"
      using sampler_ok_rank [OF s_ok, of r] w by (auto simp: sampler_ok_def)
    from concat_epoch_yields [OF this perm] have "concat (map fst (?ys r)) =
        epoch_indices shuffle ((rank_sampler s r)\<lparr>epoch := e\<rparr>) (int (blocks s) * global_micro_batch_size s)"
      by (simp add: blocks_def epoch_indices_at)
    moreover have "(rank_sampler s r)\<lparr>epoch := e\<rparr> = rank_sampler (s\<lparr>epoch := e\<rparr>) r"
      by (rule batch_sampler.equality) (simp_all add: rank_sampler_def)
    ultimately show "mset (concat (map fst (?ys r))) =
      mset (epoch_indices shuffle (rank_sampler (s\<lparr>epoch := e\<rparr>) r) (int (blocks s) * global_micro_batch_size s))"
      by simp
  qed simp
  also have "\<dots> = mset [0..int (blocks s) * global_micro_batch_size s - 1]"
    using ranks_epoch_indices [of "s\<lparr>epoch := e\<rparr>" shuffle "blocks s"] s_ok perm
    by (simp add: sampler_ok_epoch world_def)
  also have "int (blocks s) * global_micro_batch_size s = tot - tot mod (m * W)"
    using f blocks by (simp add: minus_mod_eq_div_mult)
  finally show ?thesis using each by (intro exI [of _ ?ys]) blast
qed

theorem cyclic_epoch_split_witness:
  "\<exists>ys. (\<forall>r < nat 2. \<exists>sr t.
      make_cyclic_sampler True 7 (make_batch_sampler 11 0 2 4 (int r) 2 True None) = Inr sr \<and>
      rbind (set_epoch 3 sr) (cyclic_run (\<lambda>k. rev)) = Inr (ys r, t) \<and>
      int (length (ys r)) = 11 div (2 * 2) \<and> (\<forall>(b, u) \<in> set (ys r). int (length b) = 2) \<and>
      (\<forall>k < length (ys r). 4 dvd consumed_samples (snd (ys r ! k)) \<longrightarrow>
         rbind (cyclic_load_state_dict (state_dict (snd (ys r ! k))) sr) (cyclic_run (\<lambda>k. rev)) =
           Inr (drop (Suc k) (ys r), t))) \<and>
    (\<Sum>r<nat 2. mset (concat (map fst (ys r)))) = mset [0..11 - 11 mod (2 * 2) - 1]"
  by (rule cyclic_epoch_split [where s = "projr (make_cyclic_sampler True 7 (make_batch_sampler 11 0 2 4 0 2 True None))"])
    (simp_all add: make_cyclic_sampler_def make_batch_sampler_def validate_positive_integer_def
      validate_consumed_samples_def perm_fun_def)

text \<open>
  Resuming with another number of ranks is only exact when the blocks of both groups leave the same tail out:
  the shuffle runs over the complete blocks, whose number of samples depends on the block size.  Ten samples, a
  global batch of four, first two ranks with two samples each, then one rank with two: with the shuffle that reverses,
  the first group sees 7, 6, 5 and 4, and the resumed one sees 5 and 4 again.
\<close>

definition two_ranks :: "nat \<Rightarrow> cyclic_sampler" where
  "two_ranks r = projr (make_cyclic_sampler False 0 (make_batch_sampler 10 0 2 4 (int r) 2 True None))"

definition one_rank :: cyclic_sampler where
  "one_rank = projr (make_cyclic_sampler False 0 (make_batch_sampler 10 0 2 4 0 1 True None))"

lemma elastic_cyclic_repeats:
  "(case cyclic_run (\<lambda>k. rev) (two_ranks 0) of Inr (ys, t) \<Rightarrow> map fst (take 1 ys) | _ \<Rightarrow> []) = [[7, 5]]"
  "(case cyclic_run (\<lambda>k. rev) (two_ranks 1) of Inr (ys, t) \<Rightarrow> map fst (take 1 ys) | _ \<Rightarrow> []) = [[6, 4]]"
  "(case cyclic_run (\<lambda>k. rev) (two_ranks 0) of Inr (ys, t) \<Rightarrow>
      (case rbind (cyclic_load_state_dict (state_dict (snd (ys ! 0))) one_rank) (cyclic_run (\<lambda>k. rev)) of
         Inr (zs, t) \<Rightarrow> map fst zs | _ \<Rightarrow> []) | _ \<Rightarrow> []) = [[5, 4], [3, 2], [1, 0]]"
  by (simp_all add: two_ranks_def one_rank_def make_cyclic_sampler_def make_batch_sampler_def
      validate_positive_integer_def validate_consumed_samples_def batch_sampler.defs cyclic_sampler.defs
      cyclic_run_def active_samples_def rank_indices_def cyclic_step_def upto_rec1 Let_def
      cyclic_load_state_dict_def load_state_dict_def state_dict_def dict_get_def)

end
