(* ===== verification/OffloadPool.thy ===== *)
theory OffloadPool
  imports Prelude "HOL-Library.AList" "HOL-Library.Multiset"
begin

text \<open>
  The pool of pinned host buffers of the offload runtime
  (\<open>auto_parallel/hyper_offload/runtime/pinned_memory.py\<close>): size classes, buffers free for reuse, buffers
  whose last copy is still running, and the byte limit.  A page-locked tensor is its identity and
  its storage size; \<open>torch.empty\<close> gives a fresh identity, counted in \<open>next_buffer\<close>, which is the
  allocator's and not an attribute of the pool.  Whether an event has completed is asked at run time,
  so it is a parameter \<open>query\<close> of the operations; waiting for an event changes no state of the pool.
  Every method holds the lock throughout, so the operations are atomic steps.
\<close>

section \<open>The pool\<close>

record pinned =
  buf_id :: nat
  buf_size :: int
  buf_pinned :: bool

record 'e pool =
  free_bufs :: "(int \<times> pinned list) list"
  pending_bufs :: "(int \<times> (pinned \<times> 'e) list) list"
  total_allocated :: int
  max_host_bytes :: int
  next_buffer :: nat

definition bucket_sizes :: "int list" where
  "bucket_sizes = map (\<lambda>i. 2 ^ i) [10..<32]"

definition align_to_bucket :: "int \<Rightarrow> int" where
  "align_to_bucket n = (case find (\<lambda>bucket. n \<le> bucket) bucket_sizes of Some b \<Rightarrow> b | None \<Rightarrow> n)"

definition bucket_for :: "int \<Rightarrow> int" where
  "bucket_for n = align_to_bucket n"

definition make_pool :: "int \<Rightarrow> 'e pool" where
  "make_pool limit = \<lparr>free_bufs = [], pending_bufs = [], total_allocated = 0, max_host_bytes = limit, next_buffer = 0\<rparr>"

text \<open>\<open>d.setdefault(k, []).append(x)\<close>.\<close>

definition dict_append :: "'k \<Rightarrow> 'v \<Rightarrow> ('k \<times> 'v list) list \<Rightarrow> ('k \<times> 'v list) list" where
  "dict_append k x d = AList.map_default k [x] (\<lambda>xs. xs @ [x]) d"

definition reclaim_one ::
  "('e \<Rightarrow> bool) \<Rightarrow> int \<Rightarrow> pinned \<times> 'e \<Rightarrow> 'e pool \<times> (pinned \<times> 'e) list \<Rightarrow> 'e pool \<times> (pinned \<times> 'e) list" where
  "reclaim_one query bucket te st =
     (if query (snd te) then ((fst st)\<lparr>free_bufs := dict_append bucket (fst te) (free_bufs (fst st))\<rparr>, snd st)
      else (fst st, snd st @ [te]))"

definition reclaim_locked :: "('e \<Rightarrow> bool) \<Rightarrow> int \<Rightarrow> 'e pool \<Rightarrow> 'e pool" where
  "reclaim_locked query bucket p =
     (case map_of (pending_bufs p) bucket of
        None \<Rightarrow> p
      | Some waiting \<Rightarrow>
          let (p, still_pending) = fold (reclaim_one query bucket) waiting (p, [])
          in p\<lparr>pending_bufs := AList.update bucket still_pending (pending_bufs p)\<rparr>)"

text \<open>The loop over the bucket of the request and the larger ones.\<close>

fun take_free :: "('e \<Rightarrow> bool) \<Rightarrow> int list \<Rightarrow> 'e pool \<Rightarrow> pinned option \<times> 'e pool" where
  "take_free query [] p = (None, p)"
| "take_free query (bucket # buckets) p =
     (let p = reclaim_locked query bucket p in
      case map_of (free_bufs p) bucket of
        None \<Rightarrow> take_free query buckets p
      | Some entries \<Rightarrow>
          if entries \<noteq> [] then
            (Some (last entries), p\<lparr>free_bufs := AList.update bucket (butlast entries) (free_bufs p)\<rparr>)
          else take_free query buckets p)"

text \<open>
  An acquired tensor is the first \<open>n\<close> bytes of its buffer.  The events are asked twice, in the loop and again before
  the last resort, so there are two answers: \<open>query\<close> and, later, \<open>query'\<close>.
\<close>

definition acquire :: "('e \<Rightarrow> bool) \<Rightarrow> ('e \<Rightarrow> bool) \<Rightarrow> int \<Rightarrow> 'e pool \<Rightarrow> (pinned \<times> 'e pool) res" where
  "acquire query query' n p =
     (let bucket = bucket_for n in
      case take_free query (bucket # filter (\<lambda>b. bucket < b) bucket_sizes) p of
        (Some buf, p) \<Rightarrow> Inr (buf, p)
      | (None, p) \<Rightarrow>
          let aligned = align_to_bucket n in
          if total_allocated p + aligned \<le> max_host_bytes p then
            Inr (\<lparr>buf_id = next_buffer p, buf_size = aligned, buf_pinned = True\<rparr>,
                 p\<lparr>total_allocated := total_allocated p + aligned, next_buffer := Suc (next_buffer p)\<rparr>)
          else let p = reclaim_locked query' bucket p in
            case map_of (pending_bufs p) bucket of
              Some ((buf, ev) # rest) \<Rightarrow>
                Inr (buf, p\<lparr>pending_bufs := AList.update bucket rest (pending_bufs p)\<rparr>)
            | _ \<Rightarrow> Inl RuntimeError)"

definition release :: "pinned \<Rightarrow> 'e option \<Rightarrow> 'e pool \<Rightarrow> 'e pool res" where
  "release buf ev p =
     (if \<not> buf_pinned buf then Inl ValueError
      else let bucket = bucket_for (buf_size buf) in
        case ev of
          Some e \<Rightarrow> Inr (p\<lparr>pending_bufs := dict_append bucket (buf, e) (pending_bufs p)\<rparr>)
        | None \<Rightarrow> Inr (p\<lparr>free_bufs := dict_append bucket buf (free_bufs p)\<rparr>))"

section \<open>Size classes\<close>

lemma find_ge:
  assumes "sorted bs"
  shows "find (\<lambda>b. n \<le> b) bs = Some b \<Longrightarrow> b \<in> set bs \<and> n \<le> b \<and> find (\<lambda>c. b \<le> c) bs = Some (b::int)"
  using assms
proof (induction bs)
  case (Cons c bs)
  show ?case
  proof (cases "n \<le> c")
    case True
    then show ?thesis using Cons.prems(1) by simp
  next
    case False
    then have "find (\<lambda>b. n \<le> b) bs = Some b" using Cons.prems(1) by simp
    moreover from this have "b \<in> set bs" "n \<le> b" using Cons by simp_all
    ultimately show ?thesis using Cons False by auto
  qed
qed simp

lemma find_self: "sorted bs \<Longrightarrow> b \<in> set bs \<Longrightarrow> find (\<lambda>c. (b::int) \<le> c) bs = Some b"
proof (induction bs)
  case (Cons c bs)
  show ?case
  proof (cases "b \<le> c")
    case True
    then have "c = b" using Cons.prems by force
    then show ?thesis by simp
  next
    case False
    then show ?thesis using Cons by simp
  qed
qed simp

lemma sorted_powers: "sorted (map (\<lambda>i. (2::int) ^ i) [m..<n])"
proof (induction n)
  case (Suc n)
  have "(2::int) ^ i \<le> 2 ^ n" if "i < n" for i
    using that by (intro power_increasing) simp_all
  then show ?case using Suc by (auto simp: sorted_append)
qed simp

lemma sorted_buckets: "sorted bucket_sizes"
  unfolding bucket_sizes_def by (rule sorted_powers)

lemma align_cases:
  "n \<le> align_to_bucket n \<and> align_to_bucket (align_to_bucket n) = align_to_bucket n"
proof (cases "find (\<lambda>b. n \<le> b) bucket_sizes")
  case None
  then show ?thesis by (simp add: align_to_bucket_def)
next
  case (Some b)
  with find_ge [OF sorted_buckets Some] show ?thesis by (simp add: align_to_bucket_def)
qed

lemma align_ge: "n \<le> align_to_bucket n" and align_idem: "align_to_bucket (align_to_bucket n) = align_to_bucket n"
  using align_cases [of n] by simp_all

lemma align_bucket: "b \<in> set bucket_sizes \<Longrightarrow> align_to_bucket b = b"
  by (simp add: align_to_bucket_def find_self sorted_buckets)

lemma align_pos: "0 < align_to_bucket n"
proof -
  have pos: "\<forall>b \<in> set bucket_sizes. 0 < b" by (auto simp: bucket_sizes_def)
  show ?thesis
  proof (cases "find (\<lambda>b. n \<le> b) bucket_sizes")
    case None
    have "2 ^ 10 \<in> set bucket_sizes" by (auto simp: bucket_sizes_def)
    then have "\<not> n \<le> 2 ^ 10" using None unfolding find_None_iff by blast
    then show ?thesis using None by (simp add: align_to_bucket_def)
  next
    case (Some b)
    then show ?thesis using find_ge [OF sorted_buckets Some] pos by (simp add: align_to_bucket_def)
  qed
qed

section \<open>Who owns which buffer\<close>

definition dict_bufs :: "('k \<times> 'v list) list \<Rightarrow> 'v multiset" where
  "dict_bufs d = mset (concat (map snd d))"

definition in_pool :: "'e pool \<Rightarrow> pinned multiset" where
  "in_pool p = dict_bufs (free_bufs p) + image_mset fst (dict_bufs (pending_bufs p))"

definition sizes_match :: "('k \<times> 'v list) list \<Rightarrow> ('v \<Rightarrow> 'k) \<Rightarrow> bool" where
  "sizes_match d f \<longleftrightarrow> (\<forall>(k, xs) \<in> set d. \<forall>x \<in> set xs. f x = k)"

lemma dict_bufs_append: "dict_bufs (dict_append k x d) = add_mset x (dict_bufs d)"
  unfolding dict_append_def dict_bufs_def by (induction d) auto

lemma distinct_append_key: "distinct (map fst d) \<Longrightarrow> distinct (map fst (dict_append k x d))"
  unfolding dict_append_def by (rule distinct_map_default)

lemma dict_append_other: "j \<noteq> k \<Longrightarrow> map_of (dict_append k x d) j = map_of d j"
  unfolding dict_append_def by (induction d) auto

lemma dict_bufs_update:
  "map_of d k = Some old \<Longrightarrow> dict_bufs (AList.update k new d) + mset old = dict_bufs d + mset new"
  unfolding dict_bufs_def by (induction d) (auto simp: ac_simps)

lemma sizes_match_append: "sizes_match d f \<Longrightarrow> f x = k \<Longrightarrow> sizes_match (dict_append k x d) f"
  unfolding dict_append_def sizes_match_def by (induction d) (auto split: if_splits)

lemma sizes_match_update:
  "sizes_match d f \<Longrightarrow> \<forall>x \<in> set new. f x = k \<Longrightarrow> sizes_match (AList.update k new d) f"
  unfolding sizes_match_def by (induction d) (auto split: if_splits)

lemma sizes_match_get: "sizes_match d f \<Longrightarrow> map_of d k = Some xs \<Longrightarrow> x \<in> set xs \<Longrightarrow> f x = k"
  unfolding sizes_match_def by (induction d) (auto split: if_splits)

definition pool_ok :: "'e pool \<Rightarrow> bool" where
  "pool_ok p \<longleftrightarrow> sizes_match (free_bufs p) buf_size \<and> sizes_match (pending_bufs p) (\<lambda>te. buf_size (fst te)) \<and>
     distinct (map fst (free_bufs p)) \<and> distinct (map fst (pending_bufs p)) \<and> (\<forall>b \<in># in_pool p. buf_pinned b)"

lemma reclaim_one_step:
  assumes "reclaim_one query bucket te (p, keep) = (q, k)"
  shows "dict_bufs (free_bufs q) + image_mset fst (mset k) =
      dict_bufs (free_bufs p) + image_mset fst (mset keep) + {#fst te#}"
    "\<exists>fr. q = p\<lparr>free_bufs := fr\<rparr>" "set k \<subseteq> insert te (set keep)"
    "sizes_match (free_bufs p) buf_size \<Longrightarrow> buf_size (fst te) = bucket \<Longrightarrow> sizes_match (free_bufs q) buf_size"
    "distinct (map fst (free_bufs p)) \<Longrightarrow> distinct (map fst (free_bufs q))"
    "b \<noteq> bucket \<Longrightarrow> map_of (free_bufs q) b = map_of (free_bufs p) b"
proof -
  show "\<exists>fr. q = p\<lparr>free_bufs := fr\<rparr>"
    using assms by (cases "query (snd te)") (auto simp: reclaim_one_def intro: exI [of _ "free_bufs p"])
qed (use assms in \<open>auto simp: reclaim_one_def dict_bufs_append sizes_match_append distinct_append_key dict_append_other
    split: if_splits\<close>)

lemma reclaim_fold:
  assumes "fold (reclaim_one query bucket) waiting (p, keep) = (p', keep')"
  shows "dict_bufs (free_bufs p') + image_mset fst (mset keep') =
      dict_bufs (free_bufs p) + image_mset fst (mset keep) + image_mset fst (mset waiting) \<and>
    (\<exists>fr. p' = p\<lparr>free_bufs := fr\<rparr>) \<and> set keep' \<subseteq> set keep \<union> set waiting \<and>
    (sizes_match (free_bufs p) buf_size \<longrightarrow> (\<forall>te \<in> set waiting. buf_size (fst te) = bucket) \<longrightarrow>
      sizes_match (free_bufs p') buf_size) \<and>
    (distinct (map fst (free_bufs p)) \<longrightarrow> distinct (map fst (free_bufs p'))) \<and>
    (\<forall>b. b \<noteq> bucket \<longrightarrow> map_of (free_bufs p') b = map_of (free_bufs p) b)"
  using assms
proof (induction waiting arbitrary: p keep)
  case Nil
  then show ?case by (auto intro: exI [of _ "free_bufs p"])
next
  case (Cons te waiting)
  obtain q k where q: "reclaim_one query bucket te (p, keep) = (q, k)" by fastforce
  note step = reclaim_one_step [OF q]
  have rest: "fold (reclaim_one query bucket) waiting (q, k) = (p', keep')" using Cons.prems q by simp
  from step(2) Cons.IH [OF rest] have "\<exists>fr. p' = p\<lparr>free_bufs := fr\<rparr>" by auto
  then show ?case using Cons.IH [OF rest] step(1,3,4,5,6) by auto
qed

text \<open>What any internal step keeps: the buffers of the pool, their sizes, the accounting.\<close>

definition same_pool :: "'e pool \<Rightarrow> 'e pool \<Rightarrow> bool" where
  "same_pool p q \<longleftrightarrow> in_pool q = in_pool p \<and> total_allocated q = total_allocated p \<and>
     max_host_bytes q = max_host_bytes p \<and> next_buffer q = next_buffer p \<and> (pool_ok p \<longrightarrow> pool_ok q)"

lemma same_pool_refl: "same_pool p p"
  by (simp add: same_pool_def)

lemma same_pool_trans: "same_pool p q \<Longrightarrow> same_pool q r \<Longrightarrow> same_pool p r"
  by (auto simp: same_pool_def)

lemma reclaim_same: "same_pool p (reclaim_locked query bucket p)"
proof (cases "map_of (pending_bufs p) bucket")
  case None
  then show ?thesis by (simp add: reclaim_locked_def same_pool_refl)
next
  case (Some waiting)
  obtain q keep where q: "fold (reclaim_one query bucket) waiting (p, []) = (q, keep)" by fastforce
  note facts = reclaim_fold [OF q]
  then obtain fr where fr: "q = p\<lparr>free_bufs := fr\<rparr>" by blast
  let ?r = "q\<lparr>pending_bufs := AList.update bucket keep (pending_bufs q)\<rparr>"
  have r: "reclaim_locked query bucket p = ?r" using Some q by (simp add: reclaim_locked_def)
  have upd: "dict_bufs (AList.update bucket keep (pending_bufs p)) + mset waiting = dict_bufs (pending_bufs p) + mset keep"
    by (rule dict_bufs_update [OF Some])
  have "in_pool ?r + image_mset fst (mset waiting) =
      dict_bufs fr + image_mset fst (dict_bufs (AList.update bucket keep (pending_bufs p)) + mset waiting)"
    by (simp add: in_pool_def fr ac_simps)
  also have "\<dots> = in_pool p + image_mset fst (mset waiting)"
    using facts unfolding upd by (simp add: in_pool_def fr ac_simps)
  finally have pool: "in_pool ?r = in_pool p" by simp
  have "pool_ok ?r" if ok: "pool_ok p"
  proof -
    have w: "\<forall>te \<in> set waiting. buf_size (fst te) = bucket"
      using ok sizes_match_get [OF _ Some] unfolding pool_ok_def by blast
    then have "\<forall>te \<in> set keep. buf_size (fst te) = bucket" using facts by auto
    then show ?thesis using ok facts w pool fr by (auto simp: pool_ok_def distinct_update intro: sizes_match_update)
  qed
  then show ?thesis using pool unfolding r by (simp add: same_pool_def fr)
qed

lemma take_pool:
  assumes "pool_ok p" "map_of (free_bufs p) bucket = Some entries" "entries \<noteq> []"
  defines "q \<equiv> p\<lparr>free_bufs := AList.update bucket (butlast entries) (free_bufs p)\<rparr>"
  shows "in_pool p = add_mset (last entries) (in_pool q)" "pool_ok q" "buf_size (last entries) = bucket"
proof -
  have split: "mset entries = add_mset (last entries) (mset (butlast entries))"
    using assms(3) by (metis append_butlast_last_id mset.simps union_mset_add_mset_right mset_append add.right_neutral)
  have "dict_bufs (free_bufs q) + mset entries = dict_bufs (free_bufs p) + mset (butlast entries)"
    unfolding q_def using dict_bufs_update [OF assms(2)] by simp
  then have "dict_bufs (free_bufs p) = add_mset (last entries) (dict_bufs (free_bufs q))"
    unfolding split by simp
  then show pool: "in_pool p = add_mset (last entries) (in_pool q)" by (simp add: in_pool_def q_def)
  have sizes: "\<forall>b \<in> set entries. buf_size b = bucket"
    using sizes_match_get [OF _ assms(2)] assms(1) unfolding pool_ok_def by blast
  then show "buf_size (last entries) = bucket" using assms(3) by simp
  have "\<forall>b \<in> set (butlast entries). buf_size b = bucket" using sizes by (auto dest: in_set_butlastD)
  then show "pool_ok q" using assms(1) pool
    by (auto simp: pool_ok_def q_def distinct_update intro: sizes_match_update)
qed

definition same_account :: "'e pool \<Rightarrow> 'e pool \<Rightarrow> bool" where
  "same_account p q \<longleftrightarrow> total_allocated q = total_allocated p \<and> max_host_bytes q = max_host_bytes p \<and>
     next_buffer q = next_buffer p"

text \<open>The buckets that are searched are left without a free buffer when the search finds none.\<close>

definition empty_at :: "'e pool \<Rightarrow> int \<Rightarrow> bool" where
  "empty_at p bucket \<longleftrightarrow> map_of (free_bufs p) bucket \<in> {None, Some []}"

lemma take_free_none:
  "take_free query buckets p = (None, q) \<Longrightarrow> same_pool p q"
proof (induction buckets arbitrary: p)
  case Nil
  then show ?case by (simp add: same_pool_refl)
next
  case (Cons bucket buckets)
  let ?p = "reclaim_locked query bucket p"
  have "take_free query buckets ?p = (None, q)"
    using Cons.prems by (auto simp: Let_def split: option.splits if_splits)
  from same_pool_trans [OF reclaim_same Cons.IH [OF this]] show ?case .
qed

lemma take_free_some:
  "take_free query buckets p = (Some buf, q) \<Longrightarrow> pool_ok p \<Longrightarrow>
    in_pool p = add_mset buf (in_pool q) \<and> pool_ok q \<and> buf_size buf \<in> set buckets \<and> same_account p q"
proof (induction buckets arbitrary: p)
  case Nil
  then show ?case by simp
next
  case (Cons bucket buckets)
  let ?p = "reclaim_locked query bucket p"
  have same: "same_pool p ?p" by (rule reclaim_same)
  then have ok: "pool_ok ?p" using Cons.prems(2) by (simp add: same_pool_def)
  show ?case
  proof (cases "map_of (free_bufs ?p) bucket = None \<or> map_of (free_bufs ?p) bucket = Some []")
    case True
    then have "take_free query buckets ?p = (Some buf, q)" using Cons.prems(1) by (auto simp: Let_def)
    from Cons.IH [OF this ok] same show ?thesis by (auto simp: same_pool_def same_account_def)
  next
    case False
    then obtain entries where e: "map_of (free_bufs ?p) bucket = Some entries" "entries \<noteq> []" by auto
    then have "buf = last entries" "q = ?p\<lparr>free_bufs := AList.update bucket (butlast entries) (free_bufs ?p)\<rparr>"
      using Cons.prems(1) by (auto simp: Let_def)
    then show ?thesis using take_pool [OF ok e] same by (simp add: same_pool_def same_account_def)
  qed
qed

text \<open>The last resort: the first buffer that still waits for its copy.\<close>

lemma take_pending:
  assumes "pool_ok p" "map_of (pending_bufs p) bucket = Some ((buf, ev) # rest)"
  defines "q \<equiv> p\<lparr>pending_bufs := AList.update bucket rest (pending_bufs p)\<rparr>"
  shows "in_pool p = add_mset buf (in_pool q)" "pool_ok q" "buf_size buf = bucket"
proof -
  have "dict_bufs (pending_bufs p) = add_mset (buf, ev) (dict_bufs (pending_bufs q))"
    unfolding q_def using dict_bufs_update [OF assms(2), of rest] by simp
  then show pool: "in_pool p = add_mset buf (in_pool q)" by (simp add: in_pool_def q_def)
  have sizes: "\<forall>te \<in> set ((buf, ev) # rest). buf_size (fst te) = bucket"
    using sizes_match_get [OF _ assms(2)] assms(1) unfolding pool_ok_def by blast
  then show "buf_size buf = bucket" by simp
  show "pool_ok q" using assms(1) pool sizes by (auto simp: pool_ok_def q_def distinct_update intro: sizes_match_update)
qed

declare take_free.simps [simp del]

lemma acquire_cases:
  assumes "acquire query query' n p = Inr (buf, q)" "pool_ok p"
  shows "n \<le> buf_size buf \<and> align_to_bucket (buf_size buf) = buf_size buf \<and> pool_ok q \<and>
    max_host_bytes q = max_host_bytes p \<and>
    ((in_pool p = add_mset buf (in_pool q) \<and> same_account p q) \<or>
     (in_pool q = in_pool p \<and> total_allocated q = total_allocated p + buf_size buf \<and>
        total_allocated q \<le> max_host_bytes p \<and> next_buffer q = Suc (next_buffer p) \<and>
        buf = \<lparr>buf_id = next_buffer p, buf_size = align_to_bucket n, buf_pinned = True\<rparr>))"
proof -
  let ?bucket = "bucket_for n"
  obtain r p1 where take: "take_free query (?bucket # filter (\<lambda>b. ?bucket < b) bucket_sizes) p = (r, p1)" by fastforce
  have big: "n \<le> b \<and> align_to_bucket b = b" if "b \<in> set (?bucket # filter (\<lambda>b. ?bucket < b) bucket_sizes)" for b
    using that align_ge [of n] align_idem [of n] by (auto simp: bucket_for_def align_bucket)
  show ?thesis
  proof (cases r)
    case (Some found)
    then have "buf = found" "q = p1" using assms(1) take by (simp_all add: acquire_def Let_def)
    then show ?thesis using take_free_some [OF take [unfolded Some] assms(2)] big by (simp add: same_account_def)
  next
    case None
    then have same: "same_pool p p1" using take_free_none take by blast
    then have ok1: "pool_ok p1" using assms(2) by (simp add: same_pool_def)
    show ?thesis
    proof (cases "total_allocated p1 + align_to_bucket n \<le> max_host_bytes p1")
      case True
      then have "buf = \<lparr>buf_id = next_buffer p1, buf_size = align_to_bucket n, buf_pinned = True\<rparr>"
        "q = p1\<lparr>total_allocated := total_allocated p1 + align_to_bucket n, next_buffer := Suc (next_buffer p1)\<rparr>"
        using assms(1) take None by (simp_all add: acquire_def Let_def)
      then show ?thesis using same ok1 True align_ge [of n] align_idem [of n]
        by (auto simp: same_pool_def pool_ok_def in_pool_def)
    next
      case False
      let ?p2 = "reclaim_locked query' ?bucket p1"
      have same2: "same_pool p1 ?p2" by (rule reclaim_same)
      then have ok2: "pool_ok ?p2" using ok1 by (simp add: same_pool_def)
      obtain ev rest where pend: "map_of (pending_bufs ?p2) ?bucket = Some ((buf, ev) # rest)"
        "q = ?p2\<lparr>pending_bufs := AList.update ?bucket rest (pending_bufs ?p2)\<rparr>"
        using assms(1) take None False
        by (auto simp: acquire_def Let_def split: option.splits list.splits prod.splits)
      note take2 = take_pending [OF ok2 pend(1), folded pend(2)]
      have "in_pool p = add_mset buf (in_pool q)" using take2(1) same same2 by (simp add: same_pool_def)
      moreover have "same_account p q" using same same2 pend(2) by (simp add: same_pool_def same_account_def)
      ultimately show ?thesis using take2 big [of ?bucket] by (simp add: same_account_def)
    qed
  qed
qed

section \<open>When the pool is exhausted\<close>

text \<open>A bucket in which nothing is free and nothing that waits has completed.\<close>

definition idle :: "('e \<Rightarrow> bool) \<Rightarrow> 'e pool \<Rightarrow> int \<Rightarrow> bool" where
  "idle query p b \<longleftrightarrow> map_of (free_bufs p) b \<in> {None, Some []} \<and>
     (\<forall>waiting. map_of (pending_bufs p) b = Some waiting \<longrightarrow> (\<forall>te \<in> set waiting. \<not> query (snd te)))"

lemma reclaim_keeps: "\<forall>te \<in> set waiting. \<not> query (snd te) \<Longrightarrow>
    fold (reclaim_one query bucket) waiting (p, keep) = (p, keep @ waiting)"
  by (induction waiting arbitrary: keep) (simp_all add: reclaim_one_def)

lemma reclaim_filters:
  "snd (fold (reclaim_one query bucket) waiting (p, keep)) = keep @ filter (\<lambda>te. \<not> query (snd te)) waiting"
  by (induction waiting arbitrary: p keep) (simp_all add: reclaim_one_def)

lemma reclaim_other:
  assumes "b \<noteq> bucket"
  shows "map_of (free_bufs (reclaim_locked query bucket p)) b = map_of (free_bufs p) b"
    "map_of (pending_bufs (reclaim_locked query bucket p)) b = map_of (pending_bufs p) b"
proof -
  have "map_of (free_bufs (reclaim_locked query bucket p)) b = map_of (free_bufs p) b \<and>
    map_of (pending_bufs (reclaim_locked query bucket p)) b = map_of (pending_bufs p) b"
  proof (cases "map_of (pending_bufs p) bucket")
    case None
    then show ?thesis by (simp add: reclaim_locked_def)
  next
    case (Some waiting)
    obtain q keep where q: "fold (reclaim_one query bucket) waiting (p, []) = (q, keep)" by fastforce
    show ?thesis using reclaim_fold [OF q] q Some assms by (auto simp: reclaim_locked_def update_conv')
  qed
  then show "map_of (free_bufs (reclaim_locked query bucket p)) b = map_of (free_bufs p) b"
    "map_of (pending_bufs (reclaim_locked query bucket p)) b = map_of (pending_bufs p) b" by simp_all
qed

lemma reclaim_at:
  "map_of (pending_bufs (reclaim_locked query bucket p)) bucket = Some waiting \<Longrightarrow>
    \<forall>te \<in> set waiting. \<not> query (snd te)"
proof (cases "map_of (pending_bufs p) bucket")
  case (Some old)
  assume "map_of (pending_bufs (reclaim_locked query bucket p)) bucket = Some waiting"
  then have "waiting = snd (fold (reclaim_one query bucket) old (p, []))"
    using Some by (auto simp: reclaim_locked_def update_conv' Let_def split: prod.splits)
  then show ?thesis using reclaim_filters [of query bucket old p "[]"] by simp
qed (simp add: reclaim_locked_def)

lemma idle_reclaim: "idle query p b \<Longrightarrow> idle query (reclaim_locked query bucket p) b"
proof (cases "b = bucket")
  case True
  assume idle: "idle query p b"
  show ?thesis
  proof (cases "map_of (pending_bufs p) bucket")
    case (Some waiting)
    then have "fold (reclaim_one query bucket) waiting (p, []) = (p, waiting)"
      using reclaim_keeps [of waiting query bucket p "[]"] idle True by (simp add: idle_def)
    then show ?thesis using idle True Some by (simp add: idle_def reclaim_locked_def update_conv')
  qed (use idle in \<open>simp add: reclaim_locked_def\<close>)
qed (auto simp: idle_def reclaim_other)

lemma take_free_idle:
  "take_free query buckets p = (None, q) \<Longrightarrow>
    (b \<in> set buckets \<longrightarrow> idle query q b) \<and> (idle query p b \<longrightarrow> idle query q b)"
proof (induction buckets arbitrary: p)
  case Nil
  then show ?case by (simp add: take_free.simps)
next
  case (Cons bucket buckets)
  let ?p = "reclaim_locked query bucket p"
  have rest: "take_free query buckets ?p = (None, q)" "map_of (free_bufs ?p) bucket \<in> {None, Some []}"
    using Cons.prems by (auto simp: take_free.simps Let_def split: option.splits if_splits)
  then have "idle query ?p bucket" using reclaim_at [of query bucket p] by (auto simp: idle_def)
  then show ?case using Cons.IH [OF rest(1)] idle_reclaim [of query p b bucket] by auto
qed

lemma sized_in_pool:
  assumes "pool_ok p" "buf \<in># in_pool p" "buf_size buf = b"
  shows "(\<exists>xs. map_of (free_bufs p) b = Some xs \<and> buf \<in> set xs) \<or>
    (\<exists>xs. map_of (pending_bufs p) b = Some xs \<and> buf \<in> fst ` set xs)"
proof -
  have at: "\<exists>xs. map_of d b = Some xs \<and> x \<in> set xs"
    if "x \<in># dict_bufs d" "f x = b" "sizes_match d f" "distinct (map fst d)" for d :: "(int \<times> 'v list) list" and f x
  proof -
    have "x \<in> set (concat (map snd d))" using that(1) by (simp add: dict_bufs_def)
    then obtain k xs where "(k, xs) \<in> set d" "x \<in> set xs" by auto
    moreover from this have "k = b" using that(2,3) by (auto simp: sizes_match_def)
    ultimately show ?thesis using that(4) by (auto intro!: exI [of _ xs] map_of_is_SomeI)
  qed
  have ok: "sizes_match (free_bufs p) buf_size" "distinct (map fst (free_bufs p))"
    "sizes_match (pending_bufs p) (\<lambda>te. buf_size (fst te))" "distinct (map fst (pending_bufs p))"
    using assms(1) by (simp_all add: pool_ok_def)
  consider "buf \<in># dict_bufs (free_bufs p)" | te where "te \<in># dict_bufs (pending_bufs p)" "fst te = buf"
    using assms(2) by (auto simp: in_pool_def)
  then show ?thesis
  proof cases
    case 1
    then show ?thesis using at [OF 1 assms(3) ok(1,2)] by blast
  next
    case (2 te)
    have "buf_size (fst te) = b" using 2(2) assms(3) by simp
    from at [OF 2(1) this ok(3,4)] show ?thesis using 2(2) by blast
  qed
qed

lemma acquire_fails:
  assumes "acquire query query' n p = Inl e" "pool_ok p"
  shows "e = RuntimeError \<and> max_host_bytes p < total_allocated p + align_to_bucket n \<and>
    (query' = query \<longrightarrow> (\<forall>buf \<in># in_pool p. buf_size buf \<noteq> align_to_bucket n))"
proof -
  let ?bucket = "bucket_for n"
  obtain p1 where take: "take_free query (?bucket # filter (\<lambda>b. ?bucket < b) bucket_sizes) p = (None, p1)"
    using assms(1) by (auto simp: acquire_def Let_def split: prod.splits option.splits)
  then have same: "same_pool p p1" and idle: "idle query p1 ?bucket"
    using take_free_none take_free_idle [OF take, of ?bucket] by auto
  let ?p2 = "reclaim_locked query' ?bucket p1"
  have fail: "\<not> total_allocated p1 + align_to_bucket n \<le> max_host_bytes p1"
    "map_of (pending_bufs ?p2) ?bucket \<in> {None, Some []}" "e = RuntimeError"
    using assms(1) take by (auto simp: acquire_def Let_def split: if_splits option.splits list.splits)
  have "same_pool p ?p2" using same_pool_trans [OF same reclaim_same] .
  then have p2: "pool_ok ?p2" "in_pool ?p2 = in_pool p" using assms(2) by (simp_all add: same_pool_def)
  have "buf_size buf \<noteq> align_to_bucket n" if "query' = query" "buf \<in># in_pool p" for buf
  proof
    assume "buf_size buf = align_to_bucket n"
    then have "buf_size buf = ?bucket" by (simp add: bucket_for_def)
    moreover have "map_of (free_bufs ?p2) ?bucket \<in> {None, Some []}"
      using idle_reclaim [OF idle, of ?bucket] that(1) by (simp add: idle_def)
    ultimately show False using sized_in_pool [OF p2(1), of buf ?bucket] that(2) p2(2) fail(2) by auto
  qed
  then show ?thesis using fail same by (auto simp: same_pool_def)
qed

text \<open>
  What becomes of the buffers of a bucket while the events are asked: a free one stays free, a waiting one waits on
  or, when its event has completed, is free.
\<close>

definition free_at :: "'e pool \<Rightarrow> int \<Rightarrow> pinned set" where
  "free_at p b = (case map_of (free_bufs p) b of None \<Rightarrow> {} | Some xs \<Rightarrow> set xs)"

definition waiting_at :: "'e pool \<Rightarrow> int \<Rightarrow> (pinned \<times> 'e) set" where
  "waiting_at p b = (case map_of (pending_bufs p) b of None \<Rightarrow> {} | Some xs \<Rightarrow> set xs)"

definition moves :: "('e \<Rightarrow> bool) \<Rightarrow> int \<Rightarrow> 'e pool \<Rightarrow> 'e pool \<Rightarrow> bool" where
  "moves query b p q \<longleftrightarrow> free_at p b \<subseteq> free_at q b \<and>
     (\<forall>te \<in> waiting_at p b. te \<in> waiting_at q b \<or> query (snd te) \<and> fst te \<in> free_at q b)"

lemma moves_trans: "moves query b p q \<Longrightarrow> moves query b q r \<Longrightarrow> moves query b p r"
  unfolding moves_def by blast

lemma dict_append_at: "map_of (dict_append k x d) k = Some ((case map_of d k of None \<Rightarrow> [] | Some xs \<Rightarrow> xs) @ [x])"
  unfolding dict_append_def by (induction d) auto

lemma reclaim_fold_free:
  "free_at (fst (fold (reclaim_one query bucket) waiting (p, keep))) bucket =
     free_at p bucket \<union> fst ` {te \<in> set waiting. query (snd te)}"
proof (induction waiting arbitrary: p keep)
  case (Cons te waiting)
  then show ?case
    by (cases "query (snd te)")
      (auto simp: reclaim_one_def free_at_def dict_append_at split: option.splits)
qed simp

lemma reclaim_moves: "moves query b p (reclaim_locked query bucket p)"
proof (cases "b = bucket")
  case False
  then show ?thesis by (simp add: moves_def free_at_def waiting_at_def reclaim_other)
next
  case True
  show ?thesis
  proof (cases "map_of (pending_bufs p) bucket")
    case None
    then show ?thesis by (simp add: moves_def reclaim_locked_def)
  next
    case (Some waiting)
    obtain q keep where q: "fold (reclaim_one query bucket) waiting (p, []) = (q, keep)" by fastforce
    have r: "reclaim_locked query bucket p = q\<lparr>pending_bufs := AList.update bucket keep (pending_bufs q)\<rparr>"
      using Some q by (simp add: reclaim_locked_def)
    have "free_at (reclaim_locked query bucket p) bucket = free_at p bucket \<union> fst ` {te \<in> set waiting. query (snd te)}"
      using reclaim_fold_free [of query bucket waiting p "[]"] q by (simp add: r free_at_def)
    moreover have "waiting_at (reclaim_locked query bucket p) bucket = {te \<in> set waiting. \<not> query (snd te)}"
      using reclaim_filters [of query bucket waiting p "[]"] q by (simp add: r waiting_at_def update_conv')
    moreover have "waiting_at p bucket = set waiting" using Some by (simp add: waiting_at_def)
    ultimately show ?thesis unfolding True moves_def by auto
  qed
qed

lemma take_free_moves: "take_free query buckets p = (None, q) \<Longrightarrow> moves query b p q"
proof (induction buckets arbitrary: p)
  case Nil
  then show ?case by (simp add: take_free.simps moves_def)
next
  case (Cons bucket buckets)
  have "take_free query buckets (reclaim_locked query bucket p) = (None, q)"
    using Cons.prems by (auto simp: take_free.simps Let_def split: option.splits if_splits)
  from moves_trans [OF reclaim_moves Cons.IH [OF this]] show ?case .
qed

text \<open>
  A buffer of the size class that the failing request leaves in the pool: its copy was running at the first question
  and had ended at the second.
\<close>

lemma failed_request_leaves:
  assumes fails: "acquire query query' n p = Inl e" and ok: "pool_ok p"
    and buf: "buf \<in># in_pool p" "buf_size buf = align_to_bucket n"
  shows "\<exists>ev. (buf, ev) \<in> waiting_at p (align_to_bucket n) \<and> \<not> query ev \<and> query' ev"
proof -
  let ?b = "bucket_for n"
  obtain p1 where take: "take_free query (?b # filter (\<lambda>b. ?b < b) bucket_sizes) p = (None, p1)"
    using fails by (auto simp: acquire_def Let_def split: prod.splits option.splits)
  let ?p2 = "reclaim_locked query' ?b p1"
  have idle: "idle query p1 ?b" using take_free_idle [OF take, of ?b] by simp
  have none: "waiting_at ?p2 ?b = {}"
    using fails take by (auto simp: acquire_def Let_def waiting_at_def split: if_splits option.splits list.splits)
  note m1 = take_free_moves [OF take, of ?b] and m2 = reclaim_moves [of query' ?b p1 ?b]
  have free: "free_at p1 ?b = {}" using idle by (auto simp: idle_def free_at_def split: option.splits)
  have "free_at p ?b = {}" using m1 free by (simp add: moves_def)
  then obtain ev where ev: "(buf, ev) \<in> waiting_at p ?b"
    using sized_in_pool [OF ok buf(1), of ?b] buf(2)
    by (auto simp: bucket_for_def free_at_def waiting_at_def)
  then have w1: "(buf, ev) \<in> waiting_at p1 ?b" using m1 free unfolding moves_def by fastforce
  then have "\<not> query ev" using idle by (auto simp: idle_def waiting_at_def split: option.splits)
  moreover have "query' ev" using m2 none w1 unfolding moves_def by fastforce
  ultimately show ?thesis using ev by (auto simp: bucket_for_def)
qed

section \<open>The invariant of the pool\<close>

text \<open>
  The states the pool can be in, with the buffers that are handed out and not yet returned.
\<close>

inductive pool_reach :: "int \<Rightarrow> 'e pool \<Rightarrow> pinned list \<Rightarrow> bool" for limit where
  created: "pool_reach limit (make_pool limit) []"
| acquired: "pool_reach limit p out \<Longrightarrow> 0 \<le> n \<Longrightarrow> acquire query query' n p = Inr (buf, p') \<Longrightarrow>
    pool_reach limit p' (buf # out)"
| released: "pool_reach limit p out \<Longrightarrow> buf \<in> set out \<Longrightarrow> release buf ev p = Inr p' \<Longrightarrow>
    pool_reach limit p' (remove1 buf out)"

definition owned :: "'e pool \<Rightarrow> pinned list \<Rightarrow> pinned multiset" where
  "owned p out = in_pool p + mset out"

definition pool_inv :: "int \<Rightarrow> 'e pool \<Rightarrow> pinned list \<Rightarrow> bool" where
  "pool_inv limit p out \<longleftrightarrow> pool_ok p \<and> max_host_bytes p = limit \<and>
     (\<forall>b \<in># owned p out. buf_pinned b \<and> align_to_bucket (buf_size b) = buf_size b \<and> 0 \<le> buf_size b \<and>
        buf_id b < next_buffer p) \<and>
     (\<forall>i. count (image_mset buf_id (owned p out)) i \<le> 1) \<and>
     sum_mset (image_mset buf_size (owned p out)) = total_allocated p \<and> total_allocated p \<le> limit"

lemma pool_inv_created: "0 \<le> limit \<Longrightarrow> pool_inv limit (make_pool limit) []"
  by (simp add: pool_inv_def make_pool_def owned_def in_pool_def dict_bufs_def pool_ok_def sizes_match_def)

lemma pool_inv_acquired:
  assumes inv: "pool_inv limit p out" and n: "0 \<le> n" and acq: "acquire query query' n p = Inr (buf, q)"
  shows "pool_inv limit q (buf # out)"
proof -
  have ok: "pool_ok p" using inv by (simp add: pool_inv_def)
  note cases = acquire_cases [OF acq ok]
  show ?thesis
  proof (cases "in_pool p = add_mset buf (in_pool q) \<and> same_account p q")
    case True
    then have "owned q (buf # out) = owned p out" by (simp add: owned_def)
    then show ?thesis using inv cases True by (simp add: pool_inv_def same_account_def)
  next
    case False
    then have fresh: "in_pool q = in_pool p" "total_allocated q = total_allocated p + buf_size buf"
      "total_allocated q \<le> max_host_bytes p" "next_buffer q = Suc (next_buffer p)"
      "buf = \<lparr>buf_id = next_buffer p, buf_size = align_to_bucket n, buf_pinned = True\<rparr>"
      using cases by blast+
    then have all: "owned q (buf # out) = add_mset buf (owned p out)" by (simp add: owned_def)
    have "next_buffer p \<notin># image_mset buf_id (owned p out)" using inv by (auto simp: pool_inv_def)
    then have "count (image_mset buf_id (owned p out)) (next_buffer p) = 0" by (rule not_in_iff [THEN iffD1])
    then have "\<forall>i. count (image_mset buf_id (owned q (buf # out))) i \<le> 1"
      using inv unfolding all by (auto simp: pool_inv_def fresh(5))
    then show ?thesis using inv cases fresh n unfolding pool_inv_def all by (auto simp: less_Suc_eq)
  qed
qed

lemma release_ok:
  assumes ok: "pool_ok p" and b: "buf_pinned buf" "align_to_bucket (buf_size buf) = buf_size buf"
  shows "\<exists>q. release buf ev p = Inr q \<and> in_pool q = add_mset buf (in_pool p) \<and> same_account p q \<and> pool_ok q"
proof (cases ev)
  case None
  let ?q = "p\<lparr>free_bufs := dict_append (buf_size buf) buf (free_bufs p)\<rparr>"
  have pool: "in_pool ?q = add_mset buf (in_pool p)" by (simp add: in_pool_def dict_bufs_append)
  moreover have "pool_ok ?q" using ok b(1) sizes_match_append [of "free_bufs p" buf_size buf] distinct_append_key
    unfolding pool_ok_def pool by auto
  ultimately show ?thesis using None b by (simp add: release_def same_account_def bucket_for_def)
next
  case (Some e)
  let ?q = "p\<lparr>pending_bufs := dict_append (buf_size buf) (buf, e) (pending_bufs p)\<rparr>"
  have pool: "in_pool ?q = add_mset buf (in_pool p)" by (simp add: in_pool_def dict_bufs_append)
  moreover have "pool_ok ?q"
    using ok b(1) sizes_match_append [of "pending_bufs p" "\<lambda>te. buf_size (fst te)" "(buf, e)"] distinct_append_key
    unfolding pool_ok_def pool by auto
  ultimately show ?thesis using Some b by (simp add: release_def same_account_def bucket_for_def)
qed

lemma pool_inv_released:
  assumes inv: "pool_inv limit p out" and buf: "buf \<in> set out"
  shows "\<exists>q. release buf ev p = Inr q \<and> pool_inv limit q (remove1 buf out)"
proof -
  have "pool_ok p" "buf_pinned buf" "align_to_bucket (buf_size buf) = buf_size buf"
    using inv buf by (auto simp: pool_inv_def owned_def)
  from release_ok [OF this] obtain q where q: "release buf ev p = Inr q"
    and pool: "in_pool q = add_mset buf (in_pool p)" "same_account p q" "pool_ok q" by blast
  have "mset out = add_mset buf (mset (remove1 buf out))" using buf by simp
  then have "owned q (remove1 buf out) = owned p out" using pool(1) by (simp add: owned_def)
  then show ?thesis using inv pool(2,3) q by (simp add: pool_inv_def same_account_def)
qed

lemma pool_reach_inv:
  assumes "pool_reach limit p out" "0 \<le> limit"
  shows "pool_inv limit p out"
  using assms
proof induction
  case created
  then show ?case by (rule pool_inv_created)
next
  case (acquired p out n query query' buf p')
  then show ?case using pool_inv_acquired by blast
next
  case (released p out buf ev p')
  then show ?case using pool_inv_released [of limit p out buf ev] by auto
qed

text \<open>
  C27.  The pool's invariant.  After any calls, the free buffers, the waiting ones and those handed out are
  different buffers of whole size classes, and their sizes add up to the accounted total, which never exceeds the limit.  A
  further request, whatever the events answer, is served with a buffer of at least its size that nobody else
  holds, or raises \<open>RuntimeError\<close>.  Then a new buffer would exceed the limit, and every buffer of its size class that the
  pool holds was still waiting for its copy at the first question and had it done at the second: such a buffer
  is lost to the request although it has become free, see the lemma below.  Every buffer that was handed out
  can be returned.
\<close>

theorem pool_invariant:
  assumes "pool_reach limit p out" "0 \<le> limit" "0 \<le> n"
  shows "(\<forall>i. count (image_mset buf_id (owned p out)) i \<le> 1) \<and>
    sum_mset (image_mset buf_size (owned p out)) = total_allocated p \<and> total_allocated p \<le> limit \<and>
    (case acquire query query' n p of
       Inr (buf, q) \<Rightarrow> n \<le> buf_size buf \<and> buf_id buf \<notin> buf_id ` set out
     | Inl e \<Rightarrow> e = RuntimeError \<and> limit < total_allocated p + align_to_bucket n \<and>
         (\<forall>buf \<in># in_pool p. buf_size buf = align_to_bucket n \<longrightarrow>
            (\<exists>ev. (buf, ev) \<in> waiting_at p (align_to_bucket n) \<and> \<not> query ev \<and> query' ev))) \<and>
    (\<forall>buf \<in> set out. \<forall>ev. is_ok (release buf ev p))"
proof -
  have inv: "pool_inv limit p out" by (rule pool_reach_inv [OF assms(1,2)])
  then have ok: "pool_ok p" "max_host_bytes p = limit" by (simp_all add: pool_inv_def)
  have rel: "is_ok (release buf ev p)" if "buf \<in> set out" for buf ev
    using pool_inv_released [OF inv that, of ev] by auto
  have acq: "n \<le> buf_size buf \<and> buf_id buf \<notin> buf_id ` set out" if a: "acquire query query' n p = Inr (buf, q)" for buf q
  proof -
    have "pool_inv limit q (buf # out)" by (rule pool_inv_acquired [OF inv assms(3) a])
    then have "count (image_mset buf_id (owned q (buf # out))) (buf_id buf) \<le> 1" by (simp add: pool_inv_def)
    then have "count (image_mset buf_id (mset out)) (buf_id buf) = 0" by (simp add: owned_def)
    then have "buf_id buf \<notin># image_mset buf_id (mset out)" by (rule not_in_iff [THEN iffD2])
    then show ?thesis using acquire_cases [OF a ok(1)] by simp
  qed
  show ?thesis
    using inv rel acq acquire_fails [of query query' n p, OF _ ok(1)] failed_request_leaves [of query query' n p, OF _ ok(1)] ok(2)
    unfolding pool_inv_def by (auto split: sum.split)
qed

text \<open>A pool of 5000 bytes that has handed out a buffer of 2048: a request of 3000 is one too many.\<close>

definition demo_pool :: "nat pool" where
  "demo_pool = \<lparr>free_bufs = [], pending_bufs = [], total_allocated = 2048, max_host_bytes = 5000, next_buffer = 1\<rparr>"

definition demo_buf :: pinned where
  "demo_buf = \<lparr>buf_id = 0, buf_size = 2048, buf_pinned = True\<rparr>"

lemma demo_acquired: "acquire (\<lambda>e. True) (\<lambda>e. True) 1500 (make_pool 5000) = Inr (demo_buf, demo_pool)"
  by code_simp

theorem pool_invariant_witness:
  "total_allocated demo_pool \<le> 5000 \<and> acquire (\<lambda>e. True) (\<lambda>e. True) 3000 demo_pool = Inl RuntimeError \<and>
    5000 < total_allocated demo_pool + align_to_bucket 3000"
proof -
  have reach: "pool_reach 5000 demo_pool [demo_buf]"
    by (rule pool_reach.acquired [OF pool_reach.created _ demo_acquired]) simp
  have "acquire (\<lambda>e. True) (\<lambda>e. True) 3000 demo_pool = Inl RuntimeError" by code_simp
  then show ?thesis using pool_invariant [OF reach, of 3000 "\<lambda>e. True" "\<lambda>e. True"] by simp
qed

text \<open>
  The second question can lose a buffer: a copy that ends between the two makes its buffer free, but
  the pool looks only at the waiting ones and raises.
\<close>

lemma completed_copy_lost:
  "(case release demo_buf (Some (7::nat)) \<lparr>free_bufs = [], pending_bufs = [], total_allocated = 2048,
        max_host_bytes = 2048, next_buffer = 1\<rparr> of
      Inr p \<Rightarrow> acquire (\<lambda>e. False) (\<lambda>e. True) 1500 p | Inl e \<Rightarrow> Inl e) = Inl RuntimeError"
  by code_simp

end
