(* ===== verification/OffloadPlan.thy ===== *)
theory OffloadPlan
  imports OffloadPool "HOL-Library.Product_Lexorder"
begin

text \<open>
  The residency planner (\<open>auto_parallel/hyper_offload/planning/greedy.py\<close>) with its input and output models
  (\<open>ir/trace.py\<close>, \<open>ir/schedule.py\<close>): from the recorded accesses of a training step it chooses which
  storages to move to the host between two accesses, so that the simulated device memory fits the
  budget.  Op ids are \<open>nat\<close> (the executor counts them from 0), storage ids and byte sizes \<open>int\<close>.  A
  dictionary is an association list in insertion order.  The duration and bandwidth fields of a trace
  are not read by this planner and are left out, and so is the logging.
\<close>

section \<open>Traces and schedules\<close>

datatype access_kind = READ | WRITE

record storage_access =
  acc_op :: nat
  acc_sid :: int
  acc_kind :: access_kind

record trace_op =
  op_name :: string
  op_accesses :: "storage_access list"

record activation_trace =
  trace_ops :: "trace_op list"
  storage_sizes :: "int \<rightharpoonup> int"
  retained_sids :: "int set"
  memory_limit :: "int option"

datatype action_kind = COPY_D2H | COPY_H2D | RELEASE_DEVICE | RELEASE_HOST

record residency_action =
  act_op :: nat
  act_sid :: int
  act_kind :: action_kind

record residency_schedule =
  sched_pre :: "(nat \<times> residency_action list) list"
  sched_post :: "(nat \<times> residency_action list) list"

definition action :: "nat \<Rightarrow> int \<Rightarrow> action_kind \<Rightarrow> residency_action" where
  "action k sid kind = \<lparr>act_op = k, act_sid = sid, act_kind = kind\<rparr>"

definition add_pre :: "nat \<Rightarrow> action_kind \<Rightarrow> int \<Rightarrow> residency_schedule \<Rightarrow> residency_schedule" where
  "add_pre k kind sid s = s\<lparr>sched_pre := dict_append k (action k sid kind) (sched_pre s)\<rparr>"

definition add_post :: "nat \<Rightarrow> action_kind \<Rightarrow> int \<Rightarrow> residency_schedule \<Rightarrow> residency_schedule" where
  "add_post k kind sid s = s\<lparr>sched_post := dict_append k (action k sid kind) (sched_post s)\<rparr>"

definition get_list :: "('k \<times> 'v list) list \<Rightarrow> 'k \<Rightarrow> 'v list" where
  "get_list d k = (case map_of d k of None \<Rightarrow> [] | Some xs \<Rightarrow> xs)"

definition pre_actions :: "residency_schedule \<Rightarrow> nat \<Rightarrow> residency_action list" where
  "pre_actions s k = get_list (sched_pre s) k"

definition post_actions :: "residency_schedule \<Rightarrow> nat \<Rightarrow> residency_action list" where
  "post_actions s k = get_list (sched_post s) k"

section \<open>The planner\<close>

record eviction_candidate =
  cand_sid :: int
  cand_bytes :: int
  copy_start :: storage_access
  release_start :: storage_access
  gap_end :: storage_access

definition distance :: "eviction_candidate \<Rightarrow> int" where
  "distance c = int (acc_op (gap_end c)) - int (acc_op (release_start c))"

definition start_interior :: "eviction_candidate \<Rightarrow> int" where
  "start_interior c = int (acc_op (release_start c)) + 1"

definition end_interior :: "eviction_candidate \<Rightarrow> int" where
  "end_interior c = int (acc_op (gap_end c)) - 1"

record footprint =
  fp_size :: int
  first_op_id :: nat
  last_op_id :: nat
  candidacies :: "eviction_candidate list"
  last_access :: storage_access

definition group_accesses_by_storage :: "activation_trace \<Rightarrow> (int \<times> storage_access list) list" where
  "group_accesses_by_storage trace =
     fold (\<lambda>op d. fold (\<lambda>a d. dict_append (acc_sid a) a d) (op_accesses op) d) (trace_ops trace) []"

definition earliest_safe_copy_start :: "storage_access list \<Rightarrow> nat \<Rightarrow> storage_access" where
  "earliest_safe_copy_start accesses release_index =
     (case find (\<lambda>i. acc_kind (accesses ! i) = WRITE) (rev [0..<Suc release_index]) of
        Some i \<Rightarrow> accesses ! i
      | None \<Rightarrow> accesses ! 0)"

definition process_storage_accesses :: "int \<Rightarrow> int \<Rightarrow> storage_access list \<Rightarrow> footprint" where
  "process_storage_accesses sid size_bytes accesses =
     (let ordered = sort_key acc_op accesses;
          candidate = (\<lambda>(i, (release_start, gap_end)).
            \<lparr>cand_sid = sid, cand_bytes = size_bytes, copy_start = earliest_safe_copy_start ordered i,
             release_start = release_start, gap_end = gap_end\<rparr>)
      in \<lparr>fp_size = size_bytes, first_op_id = acc_op (ordered ! 0), last_op_id = acc_op (last ordered),
          candidacies = filter (\<lambda>c. start_interior c \<le> end_interior c)
            (map candidate (enumerate 0 (zip ordered (tl ordered)))),
          last_access = last ordered\<rparr>)"

definition add_bytes :: "int \<Rightarrow> nat \<Rightarrow> int list \<Rightarrow> int list" where
  "add_bytes n k resident = resident[k := resident ! k + n]"

definition footprint_step ::
  "(int \<rightharpoonup> int) \<Rightarrow> int \<times> storage_access list \<Rightarrow>
    int list \<times> eviction_candidate list \<times> (int \<times> storage_access) list \<Rightarrow>
    int list \<times> eviction_candidate list \<times> (int \<times> storage_access) list" where
  "footprint_step sizes entry st =
     (case entry of (sid, accesses) \<Rightarrow> case st of (resident, candidates, releasable) \<Rightarrow>
        case sizes sid of
          None \<Rightarrow> st
        | Some size_bytes \<Rightarrow>
            if accesses = [] then st
            else let fp = process_storage_accesses sid size_bytes accesses in
              (fold (add_bytes size_bytes) [first_op_id fp..<Suc (last_op_id fp)] resident,
               candidates @ candidacies fp,
               AList.update sid (last_access fp) releasable))"

text \<open>\<open>max(xs, default=d)\<close>.\<close>

definition max_default :: "'a::linorder \<Rightarrow> 'a list \<Rightarrow> 'a" where
  "max_default d xs = (case xs of [] \<Rightarrow> d | x # rest \<Rightarrow> fold max rest x)"

definition max_op_id :: "activation_trace \<Rightarrow> nat" where
  "max_op_id trace = max_default 0 (map acc_op (concat (map op_accesses (trace_ops trace))))"

definition candidate_key :: "eviction_candidate \<Rightarrow> int \<times> int \<times> int" where
  "candidate_key c = (- distance c, - cand_bytes c, int (acc_op (release_start c)))"

text \<open>
  \<open>sort(key=(distance, size, -release), reverse=True)\<close> keeps the order of equal elements, so it is the stable
  sort by the negated key.
\<close>

definition build_resident_footprint ::
  "activation_trace \<Rightarrow> (int \<times> storage_access list) list \<Rightarrow>
    int list \<times> eviction_candidate list \<times> (int \<times> storage_access) list" where
  "build_resident_footprint trace by_storage =
     (case fold (footprint_step (storage_sizes trace)) by_storage
             (replicate (Suc (max_op_id trace)) 0, [], []) of
        (resident, unsorted, releasable) \<Rightarrow> (resident, sort_key candidate_key unsorted, releasable))"

definition affected_ops :: "eviction_candidate \<Rightarrow> nat list" where
  "affected_ops c = map nat [start_interior c..end_interior c]"

fun greedy_select :: "int \<Rightarrow> eviction_candidate list \<Rightarrow> int list \<Rightarrow> eviction_candidate list \<times> int list" where
  "greedy_select limit [] resident = ([], resident)"
| "greedy_select limit (c # candidates) resident =
     (if max_default 0 resident \<le> limit then ([], resident)
      else if \<not> (\<exists>k \<in> set (affected_ops c). limit < resident ! k) then greedy_select limit candidates resident
      else let (selected, final) = greedy_select limit candidates (fold (add_bytes (- cand_bytes c)) (affected_ops c) resident)
           in (c # selected, final))"

definition add_eviction_actions :: "eviction_candidate \<Rightarrow> residency_schedule \<Rightarrow> residency_schedule" where
  "add_eviction_actions c s =
     add_pre (acc_op (gap_end c)) COPY_H2D (acc_sid (gap_end c))
       (add_post (acc_op (release_start c)) RELEASE_DEVICE (acc_sid (release_start c))
         (add_post (acc_op (copy_start c)) COPY_D2H (acc_sid (copy_start c)) s))"

definition emit_release :: "int set \<Rightarrow> int set \<Rightarrow> int \<times> storage_access \<Rightarrow> residency_schedule \<Rightarrow> residency_schedule" where
  "emit_release evicted retained entry s =
     (case entry of (sid, access) \<Rightarrow>
        if sid \<in> retained then s
        else let s = add_post (acc_op access) RELEASE_DEVICE sid s in
          if sid \<in> evicted then add_post (acc_op access) RELEASE_HOST sid s else s)"

definition emit_release_actions ::
  "eviction_candidate list \<Rightarrow> activation_trace \<Rightarrow> (int \<times> storage_access) list \<Rightarrow> residency_schedule \<Rightarrow> residency_schedule" where
  "emit_release_actions selected trace releasable s =
     fold (emit_release (set (map cand_sid selected)) (retained_sids trace)) releasable s"

definition build_schedule :: "activation_trace \<Rightarrow> residency_schedule" where
  "build_schedule trace =
     (let schedule = \<lparr>sched_pre = [], sched_post = []\<rparr> in
      case memory_limit trace of
        None \<Rightarrow> schedule
      | Some limit \<Rightarrow>
          if trace_ops trace = [] then schedule
          else let (resident, candidates, releasable) =
                     build_resident_footprint trace (group_accesses_by_storage trace);
                   (selected, final) = greedy_select limit candidates resident
               in emit_release_actions selected trace releasable (fold add_eviction_actions selected schedule))"

section \<open>The accesses of a storage\<close>

definition all_accesses :: "activation_trace \<Rightarrow> storage_access list" where
  "all_accesses trace = concat (map op_accesses (trace_ops trace))"

definition accesses_of :: "activation_trace \<Rightarrow> int \<Rightarrow> storage_access list" where
  "accesses_of trace s = filter (\<lambda>a. acc_sid a = s) (all_accesses trace)"

definition trace_wf :: "activation_trace \<Rightarrow> bool" where
  "trace_wf trace \<longleftrightarrow> (\<forall>k < length (trace_ops trace). \<forall>a \<in> set (op_accesses (trace_ops trace ! k)). acc_op a = k)"

lemma get_list_append: "get_list (dict_append k x d) j = (if j = k then get_list d k @ [x] else get_list d j)"
  unfolding dict_append_def get_list_def by (induction d) auto

lemma sorted_concat_ops:
  assumes "\<And>i. i < length xss \<Longrightarrow> \<forall>a \<in> set (xss ! i). f a = b + i"
  shows "sorted (map f (concat xss))"
  using assms
proof (induction xss arbitrary: b)
  case (Cons xs xss)
  have hd: "\<forall>a \<in> set xs. f a = b" using Cons.prems [of 0] by simp
  have tl: "\<forall>a \<in> set (xss ! i). f a = Suc b + i" if "i < length xss" for i
    using Cons.prems [of "Suc i"] that by simp
  have "b \<le> f a" if a: "a \<in> set (concat xss)" for a
  proof -
    obtain ys where "ys \<in> set xss" "a \<in> set ys" using a by auto
    then obtain i where i: "i < length xss" "a \<in> set (xss ! i)" by (metis in_set_conv_nth)
    then show ?thesis using tl [OF i(1)] by simp
  qed
  moreover have "sorted (map f xs)" using hd by (simp add: sorted_iff_nth_mono)
  ultimately show ?case using Cons.IH [OF tl] hd by (auto simp: sorted_append)
qed simp

lemma accesses_sorted: "trace_wf trace \<Longrightarrow> sorted (map acc_op (accesses_of trace s))"
proof -
  assume "trace_wf trace"
  then have "sorted (map acc_op (all_accesses trace))" unfolding all_accesses_def
    by (intro sorted_concat_ops [of _ _ 0]) (auto simp: trace_wf_def)
  then show ?thesis unfolding accesses_of_def by (rule sorted_filter)
qed

lemma accesses_sid: "i < length (accesses_of trace s) \<Longrightarrow> acc_sid (accesses_of trace s ! i) = s"
  unfolding accesses_of_def using nth_mem by fastforce

lemma group_fold:
  "map_of (fold (\<lambda>a. dict_append (acc_sid a) a) xs d) s =
    (if get_list d s @ filter (\<lambda>a. acc_sid a = s) xs = [] then map_of d s
     else Some (get_list d s @ filter (\<lambda>a. acc_sid a = s) xs))"
proof (induction xs arbitrary: d)
  case Nil
  then show ?case by (auto simp: get_list_def split: option.splits)
next
  case (Cons a xs)
  have "map_of (dict_append (acc_sid a) a d) s = (if s = acc_sid a then Some (get_list d s @ [a]) else map_of d s)"
    unfolding dict_append_def get_list_def by (induction d) auto
  then show ?case using Cons.IH [of "dict_append (acc_sid a) a d"] by (auto simp: get_list_append)
qed

lemma appended_distinct:
  "distinct (map fst d) \<Longrightarrow> distinct (map fst (fold (\<lambda>a. dict_append (acc_sid a) a) xs d))"
  by (induction xs arbitrary: d) (simp_all add: distinct_append_key)

lemma group_flat: "fold (\<lambda>op d. fold g (op_accesses op) d) ops d = fold g (concat (map op_accesses ops)) d"
  by (induction ops arbitrary: d) simp_all

lemma group_accesses:
  "map_of (group_accesses_by_storage trace) s = (if accesses_of trace s = [] then None else Some (accesses_of trace s))"
  "distinct (map fst (group_accesses_by_storage trace))"
  using group_fold [of "all_accesses trace" "[]" s] appended_distinct [of "[]" "all_accesses trace"]
  by (simp_all add: group_accesses_by_storage_def group_flat accesses_of_def all_accesses_def get_list_def)

lemma group_mem: "(s, xs) \<in> set (group_accesses_by_storage trace) \<longleftrightarrow> xs = accesses_of trace s \<and> xs \<noteq> []"
  unfolding map_of_eq_Some_iff [OF group_accesses(2), symmetric] group_accesses(1) by auto

section \<open>The eviction candidates\<close>

definition candidate_at :: "activation_trace \<Rightarrow> int \<Rightarrow> int \<Rightarrow> nat \<Rightarrow> eviction_candidate" where
  "candidate_at trace s n i =
     \<lparr>cand_sid = s, cand_bytes = n, copy_start = earliest_safe_copy_start (accesses_of trace s) i,
      release_start = accesses_of trace s ! i, gap_end = accesses_of trace s ! Suc i\<rparr>"

definition is_candidate :: "activation_trace \<Rightarrow> eviction_candidate \<Rightarrow> bool" where
  "is_candidate trace c \<longleftrightarrow> (\<exists>s n i. storage_sizes trace s = Some n \<and> Suc i < length (accesses_of trace s) \<and>
     c = candidate_at trace s n i \<and> acc_op (accesses_of trace s ! i) + 1 < acc_op (accesses_of trace s ! Suc i))"

lemma copy_start_at:
  "\<exists>j \<le> i. earliest_safe_copy_start xs i = xs ! j \<and> (\<forall>l. j < l \<longrightarrow> l \<le> i \<longrightarrow> acc_kind (xs ! l) \<noteq> WRITE)"
proof (cases "find (\<lambda>i. acc_kind (xs ! i) = WRITE) (rev [0..<Suc i])")
  case None
  then have "\<forall>l \<in> set (rev [0..<Suc i]). acc_kind (xs ! l) \<noteq> WRITE" by (simp only: find_None_iff) blast
  then show ?thesis using None by (auto simp: earliest_safe_copy_start_def intro!: exI [of _ 0])
next
  case (Some j)
  then obtain k where k: "k < Suc i" "rev [0..<Suc i] ! k = j" "\<forall>l < k. acc_kind (xs ! (rev [0..<Suc i] ! l)) \<noteq> WRITE"
    unfolding find_Some_iff by (auto simp del: upt_Suc)
  have nth: "rev [0..<Suc i] ! l = i - l" if "l < Suc i" for l using that by (simp add: rev_nth del: upt_Suc)
  then have j: "j = i - k" using k by simp
  have later: "acc_kind (xs ! l) \<noteq> WRITE" if l: "j < l" "l \<le> i" for l
  proof -
    have "i - l < k" using l j k(1) by linarith
    moreover have "rev [0..<Suc i] ! (i - l) = l" using nth [of "i - l"] l by simp
    ultimately show ?thesis using k(3) by fastforce
  qed
  have "earliest_safe_copy_start xs i = xs ! j" using Some by (simp add: earliest_safe_copy_start_def del: upt_Suc)
  moreover have "j \<le> i" using j by simp
  ultimately show ?thesis using later by blast
qed

lemma candidate_facts:
  assumes "is_candidate trace c" "trace_wf trace"
  shows "storage_sizes trace (cand_sid c) = Some (cand_bytes c)"
    "acc_sid (copy_start c) = cand_sid c" "acc_sid (release_start c) = cand_sid c" "acc_sid (gap_end c) = cand_sid c"
    "acc_op (copy_start c) \<le> acc_op (release_start c)" "acc_op (release_start c) + 1 < acc_op (gap_end c)"
proof -
  obtain s n i where c: "storage_sizes trace s = Some n" "Suc i < length (accesses_of trace s)" "c = candidate_at trace s n i"
    "acc_op (accesses_of trace s ! i) + 1 < acc_op (accesses_of trace s ! Suc i)"
    using assms(1) by (auto simp: is_candidate_def)
  obtain j where j: "j \<le> i" "copy_start c = accesses_of trace s ! j"
    using copy_start_at [of i "accesses_of trace s"] c(3) by (auto simp: candidate_at_def)
  then show "acc_op (copy_start c) \<le> acc_op (release_start c)"
    using sorted_nth_mono [OF accesses_sorted [OF assms(2), of s], of j i] c(2,3) by (simp add: candidate_at_def)
  show "storage_sizes trace (cand_sid c) = Some (cand_bytes c)"
    "acc_sid (copy_start c) = cand_sid c" "acc_sid (release_start c) = cand_sid c" "acc_sid (gap_end c) = cand_sid c"
    "acc_op (release_start c) + 1 < acc_op (gap_end c)"
    using c j accesses_sid [of _ trace s] by (simp_all add: candidate_at_def)
qed

section \<open>The footprint\<close>

lemma add_bytes_fold:
  "distinct ks \<Longrightarrow> k < length r \<Longrightarrow> fold (add_bytes n) ks r ! k = r ! k + (if k \<in> set ks then n else 0)"
  "length (fold (add_bytes n) ks r) = length r"
proof (induction ks arbitrary: r)
  case (Cons a ks)
  { case 1
    then have "a \<noteq> k \<or> k \<notin> set ks" by auto
    then show ?case using 1 Cons.IH(1) [of "add_bytes n a r"] by (auto simp: add_bytes_def nth_list_update)
  next
    case 2
    then show ?case using Cons.IH(2) [of "add_bytes n a r"] by (simp add: add_bytes_def) }
qed simp_all

definition fp_of :: "activation_trace \<Rightarrow> int \<Rightarrow> int \<Rightarrow> footprint" where
  "fp_of trace s n = process_storage_accesses s n (accesses_of trace s)"

definition sized :: "activation_trace \<Rightarrow> int \<times> storage_access list \<Rightarrow> bool" where
  "sized trace e \<longleftrightarrow> storage_sizes trace (fst e) \<noteq> None"

definition entry_bytes :: "activation_trace \<Rightarrow> nat \<Rightarrow> int \<times> storage_access list \<Rightarrow> int" where
  "entry_bytes trace k e =
     (case storage_sizes trace (fst e) of None \<Rightarrow> 0
      | Some n \<Rightarrow> if first_op_id (fp_of trace (fst e) n) \<le> k \<and> k \<le> last_op_id (fp_of trace (fst e) n) then n else 0)"

definition entry_candidates :: "activation_trace \<Rightarrow> int \<times> storage_access list \<Rightarrow> eviction_candidate list" where
  "entry_candidates trace e =
     (case storage_sizes trace (fst e) of None \<Rightarrow> [] | Some n \<Rightarrow> candidacies (fp_of trace (fst e) n))"

lemma fp_fields:
  assumes "trace_wf trace"
  shows "last_access (fp_of trace s n) = last (accesses_of trace s)"
    "first_op_id (fp_of trace s n) = acc_op (accesses_of trace s ! 0)"
    "last_op_id (fp_of trace s n) = acc_op (last (accesses_of trace s))"
    "candidacies (fp_of trace s n) = filter (\<lambda>c. start_interior c \<le> end_interior c)
       (map (candidate_at trace s n) [0..<length (accesses_of trace s) - 1])"
proof -
  have sorted: "sort_key acc_op (accesses_of trace s) = accesses_of trace s"
    by (rule sort_key_id_if_sorted [OF accesses_sorted [OF assms]])
  have "map (\<lambda>(i, a, b). \<lparr>cand_sid = s, cand_bytes = n, copy_start = earliest_safe_copy_start (accesses_of trace s) i,
      release_start = a, gap_end = b\<rparr>) (enumerate 0 (zip (accesses_of trace s) (tl (accesses_of trace s)))) =
      map (candidate_at trace s n) [0..<length (accesses_of trace s) - 1]"
    by (rule nth_equalityI) (auto simp: nth_enumerate_eq candidate_at_def nth_tl)
  then show "candidacies (fp_of trace s n) = filter (\<lambda>c. start_interior c \<le> end_interior c)
       (map (candidate_at trace s n) [0..<length (accesses_of trace s) - 1])"
    by (simp add: fp_of_def process_storage_accesses_def Let_def sorted)
qed (simp_all add: fp_of_def process_storage_accesses_def Let_def sort_key_id_if_sorted accesses_sorted assms)

lemma footprint_step_none: "storage_sizes trace s = None \<Longrightarrow> footprint_step (storage_sizes trace) (s, xs) st = st"
  by (cases st) (simp add: footprint_step_def)

lemma footprint_step_some:
  "storage_sizes trace s = Some n \<Longrightarrow> accesses_of trace s \<noteq> [] \<Longrightarrow>
    footprint_step (storage_sizes trace) (s, accesses_of trace s) (r, cands, rel) =
      (fold (add_bytes n) [first_op_id (fp_of trace s n)..<Suc (last_op_id (fp_of trace s n))] r,
       cands @ candidacies (fp_of trace s n), AList.update s (last_access (fp_of trace s n)) rel)"
  by (simp add: footprint_step_def fp_of_def Let_def)

lemma footprint_fold:
  assumes wf: "trace_wf trace" and "\<forall>e \<in> set d. snd e = accesses_of trace (fst e) \<and> snd e \<noteq> []"
    and "fold (footprint_step (storage_sizes trace)) d (r, cands, rel) = (r', cands', rel')"
  shows "length r' = length r \<and> (\<forall>k < length r. r' ! k = r ! k + sum_list (map (entry_bytes trace k) d)) \<and>
    cands' = cands @ concat (map (entry_candidates trace) d) \<and>
    (\<forall>s. map_of rel' s = (if s \<in> fst ` set (filter (sized trace) d) then Some (last (accesses_of trace s)) else map_of rel s))"
  using assms(2,3)
proof (induction d arbitrary: r cands rel)
  case Nil
  then show ?case by simp
next
  case (Cons e d)
  obtain s where e: "e = (s, accesses_of trace s)" "accesses_of trace s \<noteq> []" using Cons.prems(1) by (cases e) auto
  have d: "\<forall>e \<in> set d. snd e = accesses_of trace (fst e) \<and> snd e \<noteq> []"
    using Cons.prems(1) by (meson list.set_intros(2))
  show ?case
  proof (cases "storage_sizes trace s")
    case None
    have "fold (footprint_step (storage_sizes trace)) d (r, cands, rel) = (r', cands', rel')"
      using Cons.prems(2) e footprint_step_none [OF None] by simp
    from Cons.IH [OF d this] None e show ?thesis
      by (simp add: entry_bytes_def entry_candidates_def sized_def)
  next
    case (Some n)
    let ?fp = "fp_of trace s n"
    let ?r = "fold (add_bytes n) [first_op_id ?fp..<Suc (last_op_id ?fp)] r"
    have "fold (footprint_step (storage_sizes trace)) d
        (?r, cands @ candidacies ?fp, AList.update s (last_access ?fp) rel) = (r', cands', rel')"
      using Cons.prems(2) e footprint_step_some [OF Some e(2)] by simp
    note IH = Cons.IH [OF d this]
    have r: "?r ! k = r ! k + (if first_op_id ?fp \<le> k \<and> k \<le> last_op_id ?fp then n else 0)" if "k < length r" for k
      using add_bytes_fold(1) [of "[first_op_id ?fp..<Suc (last_op_id ?fp)]" k r n] that by (simp add: less_Suc_eq_le del: upt_Suc)
    have len: "length ?r = length r" by (rule add_bytes_fold(2))
    show ?thesis
    proof (intro conjI allI impI)
      show "length r' = length r" using IH len by simp
      have "entry_bytes trace k e = (if first_op_id ?fp \<le> k \<and> k \<le> last_op_id ?fp then n else 0)" for k
        using Some e(1) by (simp add: entry_bytes_def)
      then show "r' ! k = r ! k + sum_list (map (entry_bytes trace k) (e # d))" if "k < length r" for k
        using IH r [OF that] len that by (simp del: upt_Suc)
      have "entry_candidates trace e = candidacies ?fp" using Some e(1) by (simp add: entry_candidates_def)
      then show "cands' = cands @ concat (map (entry_candidates trace) (e # d))"
        using IH by (simp del: upt_Suc)
      show "map_of rel' t = (if t \<in> fst ` set (filter (sized trace) (e # d)) then Some (last (accesses_of trace t))
          else map_of rel t)" for t
        using IH Some e(1) fp_fields(1) [OF wf, of s n] by (auto simp: sized_def update_conv')
    qed
  qed
qed

text \<open>All storages of a trace together.\<close>

definition storages :: "activation_trace \<Rightarrow> int list" where
  "storages trace = map fst (group_accesses_by_storage trace)"

lemma storages_mem: "s \<in> set (storages trace) \<longleftrightarrow> accesses_of trace s \<noteq> []"
  unfolding storages_def using group_mem [of s _ trace] by (force simp: image_iff)

definition live_range :: "activation_trace \<Rightarrow> int \<Rightarrow> nat \<Rightarrow> bool" where
  "live_range trace s k \<longleftrightarrow> accesses_of trace s \<noteq> [] \<and> acc_op (hd (accesses_of trace s)) \<le> k \<and>
     k \<le> acc_op (last (accesses_of trace s))"

definition storage_bytes :: "activation_trace \<Rightarrow> int \<Rightarrow> int" where
  "storage_bytes trace s = (case storage_sizes trace s of None \<Rightarrow> 0 | Some n \<Rightarrow> n)"

lemma candidate_at_inj:
  assumes "trace_wf trace" "i < j" "j < length (accesses_of trace s)"
    and "acc_op (accesses_of trace s ! i) + 1 < acc_op (accesses_of trace s ! Suc i)"
  shows "acc_op (accesses_of trace s ! i) < acc_op (accesses_of trace s ! j)"
  using sorted_nth_mono [OF accesses_sorted [OF assms(1), of s], of "Suc i" j] assms(2-4) by simp

lemma interior_candidate:
  "start_interior (candidate_at trace s n i) \<le> end_interior (candidate_at trace s n i) \<longleftrightarrow>
    acc_op (accesses_of trace s ! i) + 1 < acc_op (accesses_of trace s ! Suc i)"
  by (auto simp: start_interior_def end_interior_def candidate_at_def)

lemma distinct_candidacies:
  assumes "trace_wf trace"
  shows "distinct (candidacies (fp_of trace s n))"
proof -
  let ?P = "\<lambda>i. acc_op (accesses_of trace s ! i) + 1 < acc_op (accesses_of trace s ! Suc i)"
  have "inj_on (candidate_at trace s n) (set (filter ?P [0..<length (accesses_of trace s) - 1]))"
  proof (rule inj_onI, rule ccontr)
    fix i j assume i: "i \<in> set (filter ?P [0..<length (accesses_of trace s) - 1])"
      and j: "j \<in> set (filter ?P [0..<length (accesses_of trace s) - 1])"
      and eq: "candidate_at trace s n i = candidate_at trace s n j" and "i \<noteq> j"
    then consider "i < j" | "j < i" by linarith
    then show False
    proof cases
      case 1
      then have "j < length (accesses_of trace s)" using j by auto
      from candidate_at_inj [OF assms 1 this] i eq show ?thesis by (simp add: candidate_at_def)
    next
      case 2
      then have "i < length (accesses_of trace s)" using i by auto
      from candidate_at_inj [OF assms 2 this] j eq show ?thesis by (simp add: candidate_at_def)
    qed
  qed
  then show ?thesis by (simp add: fp_fields(4) [OF assms] filter_map comp_def interior_candidate distinct_map)
qed

lemma candidacies_mem:
  assumes "trace_wf trace"
  shows "c \<in> set (candidacies (fp_of trace s n)) \<longleftrightarrow>
    (\<exists>i. Suc i < length (accesses_of trace s) \<and> c = candidate_at trace s n i \<and>
      acc_op (accesses_of trace s ! i) + 1 < acc_op (accesses_of trace s ! Suc i))"
  by (force simp: fp_fields(4) [OF assms] interior_candidate)

lemma distinct_by_key:
  "distinct (map fst d) \<Longrightarrow> \<forall>e \<in> set d. distinct (f e) \<and> (\<forall>c \<in> set (f e). g c = fst e) \<Longrightarrow>
    distinct (concat (map f d))"
  by (induction d) force+

lemma resident_footprint:
  assumes wf: "trace_wf trace"
    and build: "build_resident_footprint trace (group_accesses_by_storage trace) = (resident, candidates, releasable)"
  shows "length resident = Suc (max_op_id trace)"
    "\<And>k. k \<le> max_op_id trace \<Longrightarrow> resident ! k =
       (\<Sum>s\<leftarrow>storages trace. if live_range trace s k then storage_bytes trace s else 0)"
    "\<And>c. c \<in> set candidates \<longleftrightarrow> is_candidate trace c" "distinct candidates"
    "\<And>s. map_of releasable s =
       (if storage_sizes trace s \<noteq> None \<and> accesses_of trace s \<noteq> [] then Some (last (accesses_of trace s)) else None)"
proof -
  let ?d = "group_accesses_by_storage trace"
  obtain unsorted where fold: "fold (footprint_step (storage_sizes trace)) ?d
      (replicate (Suc (max_op_id trace)) 0, [], []) = (resident, unsorted, releasable)"
    and cands: "candidates = sort_key candidate_key unsorted"
    using build by (auto simp: build_resident_footprint_def split: prod.splits)
  have entries: "\<forall>e \<in> set ?d. snd e = accesses_of trace (fst e) \<and> snd e \<noteq> []" using group_mem [of _ _ trace] by auto
  note facts = footprint_fold [OF wf entries fold]
  show "length resident = Suc (max_op_id trace)" using facts by simp
  have uns: "unsorted = concat (map (entry_candidates trace) ?d)" using facts by simp
  show "resident ! k = (\<Sum>s\<leftarrow>storages trace. if live_range trace s k then storage_bytes trace s else 0)"
    if "k \<le> max_op_id trace" for k
  proof -
    have "map (entry_bytes trace k) ?d =
        map ((\<lambda>s. if live_range trace s k then storage_bytes trace s else 0) \<circ> fst) ?d"
    proof (rule map_cong [OF refl])
      fix e assume "e \<in> set ?d"
      then have "accesses_of trace (fst e) \<noteq> []" using entries by metis
      then show "entry_bytes trace k e = ((\<lambda>s. if live_range trace s k then storage_bytes trace s else 0) \<circ> fst) e"
        by (auto simp: entry_bytes_def live_range_def storage_bytes_def fp_fields [OF wf] hd_conv_nth split: option.split)
    qed
    moreover have "resident ! k = sum_list (map (entry_bytes trace k) ?d)"
      using facts that by (simp add: less_Suc_eq_le del: replicate_Suc)
    ultimately show ?thesis by (simp only: storages_def map_map)
  qed
  show "c \<in> set candidates \<longleftrightarrow> is_candidate trace c" for c
  proof -
    have "c \<in> set candidates \<longleftrightarrow> (\<exists>e \<in> set ?d. \<exists>n. storage_sizes trace (fst e) = Some n \<and> c \<in> set (candidacies (fp_of trace (fst e) n)))"
    proof -
      have "c \<in> set (entry_candidates trace e) \<longleftrightarrow>
          (\<exists>n. storage_sizes trace (fst e) = Some n \<and> c \<in> set (candidacies (fp_of trace (fst e) n)))" for e
        by (cases "storage_sizes trace (fst e)") (simp_all add: entry_candidates_def)
      then show ?thesis by (simp add: cands uns)
    qed
    also have "\<dots> \<longleftrightarrow> is_candidate trace c"
    proof
      assume "is_candidate trace c"
      then obtain s n i where c: "storage_sizes trace s = Some n" "Suc i < length (accesses_of trace s)" "c = candidate_at trace s n i"
        "acc_op (accesses_of trace s ! i) + 1 < acc_op (accesses_of trace s ! Suc i)" by (auto simp: is_candidate_def)
      from c(2) have "accesses_of trace s \<noteq> []" by auto
      then have "(s, accesses_of trace s) \<in> set ?d" by (simp add: group_mem)
      moreover have "c \<in> set (candidacies (fp_of trace s n))" unfolding candidacies_mem [OF wf] using c by blast
      ultimately show "\<exists>e \<in> set ?d. \<exists>n. storage_sizes trace (fst e) = Some n \<and> c \<in> set (candidacies (fp_of trace (fst e) n))"
        using c(1) by (intro bexI [of _ "(s, accesses_of trace s)"]) auto
    next
      assume "\<exists>e \<in> set ?d. \<exists>n. storage_sizes trace (fst e) = Some n \<and> c \<in> set (candidacies (fp_of trace (fst e) n))"
      then show "is_candidate trace c" unfolding candidacies_mem [OF wf] is_candidate_def by blast
    qed
    finally show ?thesis .
  qed
  show "map_of releasable s =
       (if storage_sizes trace s \<noteq> None \<and> accesses_of trace s \<noteq> [] then Some (last (accesses_of trace s)) else None)" for s
  proof -
    have "s \<in> fst ` set (filter (sized trace) ?d) \<longleftrightarrow> storage_sizes trace s \<noteq> None \<and> accesses_of trace s \<noteq> []"
      using group_mem [of s _ trace] by (force simp: sized_def image_iff)
    then show ?thesis using facts by simp
  qed
  have "\<forall>e \<in> set ?d. distinct (entry_candidates trace e) \<and> (\<forall>c \<in> set (entry_candidates trace e). cand_sid c = fst e)"
    using candidacies_mem [OF wf] distinct_candidacies [OF wf]
    by (auto simp: entry_candidates_def candidate_at_def split: option.split)
  from distinct_by_key [OF group_accesses(2) this] show "distinct candidates" by (simp add: cands uns)
qed

section \<open>The greedy selection\<close>

lemma fold_max_start: "x \<le> fold max xs (x::'a::linorder)"
proof (induction xs arbitrary: x)
  case (Cons z xs)
  have "x \<le> max z x" by simp
  also have "\<dots> \<le> fold max xs (max z x)" by (rule Cons.IH)
  finally show ?case by simp
qed simp

lemma fold_max_mem: "y \<in> set xs \<Longrightarrow> y \<le> fold max xs (x::'a::linorder)"
proof (induction xs arbitrary: x)
  case (Cons z xs)
  have "z \<le> max z x" by simp
  also have "\<dots> \<le> fold max xs (max z x)" by (rule fold_max_start)
  finally show ?case using Cons.prems Cons.IH [of "max z x"] by auto
qed simp

lemma max_default_ge: "x \<in> set xs \<Longrightarrow> x \<le> max_default d xs"
  using fold_max_start fold_max_mem by (cases xs) (auto simp: max_default_def)

definition gap_bytes :: "nat \<Rightarrow> eviction_candidate \<Rightarrow> int" where
  "gap_bytes k c = (if k \<in> set (affected_ops c) then cand_bytes c else 0)"

lemma affected_distinct: "distinct (affected_ops c)"
  by (auto simp: affected_ops_def distinct_map inj_on_def start_interior_def eq_nat_nat_iff)

lemma affected_mem: "k \<in> set (affected_ops c) \<longleftrightarrow> acc_op (release_start c) < k \<and> k < acc_op (gap_end c)"
proof
  assume "acc_op (release_start c) < k \<and> k < acc_op (gap_end c)"
  then have "int k \<in> {start_interior c..end_interior c}" by (simp add: start_interior_def end_interior_def)
  then show "k \<in> set (affected_ops c)" unfolding affected_ops_def by (force simp: image_iff)
qed (auto simp: affected_ops_def start_interior_def end_interior_def)

lemma greedy_facts:
  assumes "greedy_select limit cs r = (sel, fin)" "\<forall>c \<in> set cs. 0 \<le> cand_bytes c" "distinct cs"
    and "\<forall>c \<in> set cs. \<forall>k \<in> set (affected_ops c). k < length r"
  shows "set sel \<subseteq> set cs \<and> distinct sel \<and> length fin = length r \<and>
    (\<forall>k < length r. fin ! k = r ! k - sum_list (map (gap_bytes k) sel)) \<and> (\<forall>k < length r. fin ! k \<le> r ! k) \<and>
    (\<forall>c \<in> set cs. c \<notin> set sel \<longrightarrow> (\<forall>k \<in> set (affected_ops c). fin ! k \<le> limit))"
  using assms
proof (induction cs arbitrary: r sel)
  case Nil
  then show ?case by simp
next
  case (Cons c cs)
  show ?case
  proof (cases "max_default 0 r \<le> limit")
    case True
    then have "sel = []" "fin = r" using Cons.prems(1) by simp_all
    moreover have "r ! k \<le> limit" if "k < length r" for k
      using max_default_ge [of "r ! k" r 0] True that by (meson nth_mem order_trans)
    ultimately show ?thesis using Cons.prems(4) by auto
  next
    case over: False
    show ?thesis
    proof (cases "\<exists>k \<in> set (affected_ops c). limit < r ! k")
      case False
      then have "greedy_select limit cs r = (sel, fin)" using Cons.prems(1) over by simp
      note IH = Cons.IH [OF this]
      have IH: "set sel \<subseteq> set cs \<and> distinct sel \<and> length fin = length r \<and>
        (\<forall>k < length r. fin ! k = r ! k - sum_list (map (gap_bytes k) sel)) \<and> (\<forall>k < length r. fin ! k \<le> r ! k) \<and>
        (\<forall>c \<in> set cs. c \<notin> set sel \<longrightarrow> (\<forall>k \<in> set (affected_ops c). fin ! k \<le> limit))"
        by (rule IH) (use Cons.prems(2-4) in auto)
      have "fin ! k \<le> limit" if k: "k \<in> set (affected_ops c)" for k
      proof -
        have "k < length r" using Cons.prems(4) k by simp
        then have "fin ! k \<le> r ! k" using IH by blast
        then show ?thesis using False k by force
      qed
      then show ?thesis using IH by auto
    next
      case True
      let ?r = "fold (add_bytes (- cand_bytes c)) (affected_ops c) r"
      obtain sel' where sel: "greedy_select limit cs ?r = (sel', fin)" "sel = c # sel'"
        using Cons.prems(1) over True by (auto split: prod.splits)
      have len: "length ?r = length r" by (rule add_bytes_fold(2))
      have nth: "?r ! k = r ! k - gap_bytes k c" if "k < length r" for k
        using add_bytes_fold(1) [OF affected_distinct that] by (simp add: gap_bytes_def)
      have IH: "set sel' \<subseteq> set cs \<and> distinct sel' \<and> length fin = length ?r \<and>
        (\<forall>k < length ?r. fin ! k = ?r ! k - sum_list (map (gap_bytes k) sel')) \<and> (\<forall>k < length ?r. fin ! k \<le> ?r ! k) \<and>
        (\<forall>c \<in> set cs. c \<notin> set sel' \<longrightarrow> (\<forall>k \<in> set (affected_ops c). fin ! k \<le> limit))"
        by (rule Cons.IH [OF sel(1)]) (use Cons.prems(2-4) len in auto)
      have "c \<notin> set sel'" using IH Cons.prems(3) by auto
      moreover have "0 \<le> gap_bytes k c" for k using Cons.prems(2) by (simp add: gap_bytes_def)
      then have "fin ! k \<le> r ! k" if "k < length r" for k using IH nth [OF that] that len by (smt (verit))
      ultimately show ?thesis using IH sel(2) len nth Cons.prems(3) by auto
    qed
  qed
qed

lemma gaps_disjoint:
  assumes wf: "trace_wf trace" and c: "is_candidate trace c" "is_candidate trace d" "cand_sid c = cand_sid d"
    and k: "acc_op (release_start c) < k" "k < acc_op (gap_end c)" "acc_op (release_start d) < k" "k < acc_op (gap_end d)"
  shows "c = d"
proof -
  obtain s n i where i: "storage_sizes trace s = Some n" "Suc i < length (accesses_of trace s)" "c = candidate_at trace s n i"
    using c(1) unfolding is_candidate_def by blast
  obtain t m j where j: "storage_sizes trace t = Some m" "Suc j < length (accesses_of trace t)" "d = candidate_at trace t m j"
    using c(2) unfolding is_candidate_def by blast
  have t: "t = s" "m = n" using c(3) i(1,3) j(1,3) by (simp_all add: candidate_at_def)
  let ?A = "accesses_of trace s"
  have ops: "acc_op (?A ! i) < k" "k < acc_op (?A ! Suc i)" "acc_op (?A ! j) < k" "k < acc_op (?A ! Suc j)"
    using k i(3) j(3) t by (simp_all add: candidate_at_def)
  have mono: "acc_op (?A ! a) \<le> acc_op (?A ! b)" if "a \<le> b" "b < length ?A" for a b
    using sorted_nth_mono [OF accesses_sorted [OF wf, of s], of a b] that by simp
  have "i = j"
  proof (rule ccontr)
    assume "i \<noteq> j"
    then consider "Suc i \<le> j" | "Suc j \<le> i" by linarith
    then show False
    proof cases
      case 1
      then have "acc_op (?A ! Suc i) \<le> acc_op (?A ! j)" using mono j(2) t by simp
      then show False using ops by simp
    next
      case 2
      then have "acc_op (?A ! Suc j) \<le> acc_op (?A ! i)" using mono i(2) by simp
      then show False using ops by simp
    qed
  qed
  then show ?thesis using i(3) j(3) t by simp
qed

section \<open>What is planned\<close>

text \<open>The plan of a trace: the selected candidates and the simulated bytes at every op.\<close>

definition plan_of :: "activation_trace \<Rightarrow> int \<Rightarrow> eviction_candidate list \<times> int list" where
  "plan_of trace limit =
     (case build_resident_footprint trace (group_accesses_by_storage trace) of
        (resident, candidates, releasable) \<Rightarrow> greedy_select limit candidates resident)"

text \<open>A storage is planned to be on the device at an op of its live range unless the op lies in a selected gap.\<close>

definition in_gap :: "eviction_candidate list \<Rightarrow> int \<Rightarrow> nat \<Rightarrow> bool" where
  "in_gap sel s k \<longleftrightarrow> (\<exists>c \<in> set sel. cand_sid c = s \<and> acc_op (release_start c) < k \<and> k < acc_op (gap_end c))"

definition planned_on_device :: "activation_trace \<Rightarrow> eviction_candidate list \<Rightarrow> int \<Rightarrow> nat \<Rightarrow> bool" where
  "planned_on_device trace sel s k \<longleftrightarrow> live_range trace s k \<and> \<not> in_gap sel s k"

definition sizes_ok :: "activation_trace \<Rightarrow> bool" where
  "sizes_ok trace \<longleftrightarrow> (\<forall>s n. storage_sizes trace s = Some n \<longrightarrow> 0 \<le> n)"

lemma access_le_max: "a \<in> set (all_accesses trace) \<Longrightarrow> acc_op a \<le> max_op_id trace"
  unfolding max_op_id_def by (rule max_default_ge) (auto simp: all_accesses_def)

lemma accesses_in_trace: "a \<in> set (accesses_of trace s) \<Longrightarrow> a \<in> set (all_accesses trace)"
  by (simp add: accesses_of_def)

lemma candidate_ends:
  assumes "is_candidate trace c"
  shows "release_start c \<in> set (accesses_of trace (cand_sid c))" "gap_end c \<in> set (accesses_of trace (cand_sid c))"
    "storage_bytes trace (cand_sid c) = cand_bytes c"
  using assms by (auto simp: is_candidate_def candidate_at_def storage_bytes_def)

lemma interior_live:
  assumes "trace_wf trace" "is_candidate trace c" "acc_op (release_start c) < k" "k < acc_op (gap_end c)"
  shows "live_range trace (cand_sid c) k"
proof -
  let ?A = "accesses_of trace (cand_sid c)"
  have "?A \<noteq> []" using candidate_ends(1) [OF assms(2)] by auto
  moreover have "acc_op (hd ?A) \<le> acc_op a" "acc_op a \<le> acc_op (last ?A)" if a: "a \<in> set ?A" for a
  proof -
    have sorted: "sorted (map acc_op ?A)" by (rule accesses_sorted [OF assms(1)])
    obtain i where i: "i < length ?A" "?A ! i = a" using a by (metis in_set_conv_nth)
    then have "?A \<noteq> []" by auto
    show "acc_op (hd ?A) \<le> acc_op a"
      using sorted_nth_mono [OF sorted, of 0 i] i \<open>?A \<noteq> []\<close> by (simp add: hd_conv_nth)
    show "acc_op a \<le> acc_op (last ?A)"
      using sorted_nth_mono [OF sorted, of i "length ?A - 1"] i \<open>?A \<noteq> []\<close> by (simp add: last_conv_nth)
  qed
  ultimately show ?thesis using candidate_ends(1,2) [OF assms(2)] assms(3,4) unfolding live_range_def
    by (meson less_imp_le order_trans)
qed

lemma gap_bytes_of_storage:
  assumes wf: "trace_wf trace" and sel: "\<forall>c \<in> set sel. is_candidate trace c"
  shows "(\<Sum>c \<in> {c \<in> set sel. cand_sid c = s}. gap_bytes k c) = (if in_gap sel s k then storage_bytes trace s else 0)"
proof (cases "in_gap sel s k")
  case True
  then obtain c where c: "c \<in> set sel" "cand_sid c = s" "k \<in> set (affected_ops c)"
    by (auto simp: in_gap_def affected_mem)
  have only: "gap_bytes k d = 0" if d: "d \<in> {c \<in> set sel. cand_sid c = s} - {c}" for d
  proof (rule ccontr)
    assume "gap_bytes k d \<noteq> 0"
    then have "k \<in> set (affected_ops d)" by (auto simp: gap_bytes_def split: if_splits)
    then have "c = d" using gaps_disjoint [OF wf, of c d k] sel c d by (auto simp: affected_mem)
    then show False using d by simp
  qed
  have "(\<Sum>d \<in> {c \<in> set sel. cand_sid c = s}. gap_bytes k d) = (\<Sum>d \<in> {c}. gap_bytes k d)"
    by (rule sum.mono_neutral_right) (use only c in auto)
  then show ?thesis using True c sel candidate_ends(3) [of trace c] by (simp add: gap_bytes_def)
next
  case False
  then have "gap_bytes k c = 0" if "c \<in> {c \<in> set sel. cand_sid c = s}" for c
    using that by (auto simp: gap_bytes_def affected_mem in_gap_def)
  then show ?thesis using False by simp
qed

lemma plan_facts:
  assumes wf: "trace_wf trace" "sizes_ok trace" and plan: "plan_of trace limit = (sel, fin)"
  shows "\<forall>c \<in> set sel. is_candidate trace c" "distinct sel" "length fin = Suc (max_op_id trace)"
    "\<And>k. k \<le> max_op_id trace \<Longrightarrow>
       fin ! k = (\<Sum>s \<in> set (storages trace). if planned_on_device trace sel s k then storage_bytes trace s else 0)"
    "\<And>c k. is_candidate trace c \<Longrightarrow> c \<notin> set sel \<Longrightarrow> acc_op (release_start c) < k \<Longrightarrow> k < acc_op (gap_end c) \<Longrightarrow> fin ! k \<le> limit"
proof -
  obtain resident candidates releasable where
    build: "build_resident_footprint trace (group_accesses_by_storage trace) = (resident, candidates, releasable)"
    by (metis prod_cases3)
  note fp = resident_footprint [OF wf(1) build]
  have sel: "greedy_select limit candidates resident = (sel, fin)" using plan build by (simp add: plan_of_def)
  have pos: "\<forall>c \<in> set candidates. 0 \<le> cand_bytes c"
    using wf(2) candidate_facts(1) [OF _ wf(1)] fp(3) by (auto simp: sizes_ok_def)
  have range: "\<forall>c \<in> set candidates. \<forall>k \<in> set (affected_ops c). k < length resident"
  proof (intro ballI)
    fix c k assume "c \<in> set candidates" "k \<in> set (affected_ops c)"
    then have "k < acc_op (gap_end c)" "gap_end c \<in> set (all_accesses trace)"
      using candidate_ends(2) [of trace c] accesses_in_trace [of "gap_end c" trace] fp(3) by (auto simp: affected_mem)
    then show "k < length resident" using access_le_max [of "gap_end c" trace] fp(1) by simp
  qed
  note greedy = greedy_facts [OF sel pos fp(4) range]
  show cands: "\<forall>c \<in> set sel. is_candidate trace c" using greedy fp(3) by blast
  show "distinct sel" "length fin = Suc (max_op_id trace)" using greedy fp(1) by auto
  have dist: "distinct (storages trace)" unfolding storages_def by (rule group_accesses(2))
  show "fin ! k = (\<Sum>s \<in> set (storages trace). if planned_on_device trace sel s k then storage_bytes trace s else 0)"
    if k: "k \<le> max_op_id trace" for k
  proof -
    have sids: "cand_sid ` set sel \<subseteq> set (storages trace)"
      using cands candidate_ends(1) [of trace] by (fastforce simp: storages_mem)
    have "sum_list (map (gap_bytes k) sel) = (\<Sum>c \<in> set sel. gap_bytes k c)"
      using greedy by (simp add: sum_list_distinct_conv_sum_set)
    also have "\<dots> = (\<Sum>s \<in> set (storages trace). \<Sum>c \<in> {c \<in> set sel. cand_sid c = s}. gap_bytes k c)"
      by (rule sum.group [OF _ _ sids, symmetric]) simp_all
    also have "\<dots> = (\<Sum>s \<in> set (storages trace). if in_gap sel s k then storage_bytes trace s else 0)"
      using gap_bytes_of_storage [OF wf(1) cands] by simp
    finally have gaps: "sum_list (map (gap_bytes k) sel) =
        (\<Sum>s \<in> set (storages trace). if in_gap sel s k then storage_bytes trace s else 0)" .
    have live: "live_range trace s k" if "in_gap sel s k" for s
      using that interior_live [OF wf(1)] cands by (auto simp: in_gap_def)
    have "fin ! k = resident ! k - sum_list (map (gap_bytes k) sel)" using greedy fp(1) k by simp
    also have "\<dots> = (\<Sum>s \<in> set (storages trace). (if live_range trace s k then storage_bytes trace s else 0) -
        (if in_gap sel s k then storage_bytes trace s else 0))"
      unfolding gaps fp(2) [OF k] by (simp add: sum_list_distinct_conv_sum_set [OF dist] sum_subtractf)
    also have "\<dots> = (\<Sum>s \<in> set (storages trace). if planned_on_device trace sel s k then storage_bytes trace s else 0)"
      by (rule sum.cong) (use live in \<open>auto simp: planned_on_device_def\<close>)
    finally show ?thesis .
  qed
  show "fin ! k \<le> limit" if "is_candidate trace c" "c \<notin> set sel" "acc_op (release_start c) < k" "k < acc_op (gap_end c)" for c k
    using greedy fp(3) that by (auto simp: affected_mem)
qed

text \<open>
  C30.  The greedy plan.  The simulated bytes of every op are the sizes of the storages the plan keeps on the device there
  (within their live range and outside every selected gap); and an op that is still over the budget lies in
  no gap that was left unselected, so no further eviction could help it.
\<close>

theorem plan_budget:
  assumes "trace_wf trace" "sizes_ok trace" "plan_of trace limit = (sel, fin)" "k \<le> max_op_id trace"
  shows "fin ! k = (\<Sum>s \<in> set (storages trace). if planned_on_device trace sel s k then storage_bytes trace s else 0) \<and>
    (fin ! k \<le> limit \<or>
      (\<forall>c. is_candidate trace c \<and> acc_op (release_start c) < k \<and> k < acc_op (gap_end c) \<longrightarrow> c \<in> set sel))"
  using plan_facts(4,5) [OF assms(1-3)] assms(4) by (meson linorder_not_le)

definition gap_trace :: activation_trace where
  "gap_trace = \<lparr>trace_ops =
      [\<lparr>op_name = ''mm'', op_accesses = [\<lparr>acc_op = 0, acc_sid = 1, acc_kind = WRITE\<rparr>]\<rparr>,
       \<lparr>op_name = ''relu'', op_accesses = [\<lparr>acc_op = 1, acc_sid = 2, acc_kind = WRITE\<rparr>]\<rparr>,
       \<lparr>op_name = ''sum'', op_accesses = [\<lparr>acc_op = 2, acc_sid = 2, acc_kind = READ\<rparr>]\<rparr>,
       \<lparr>op_name = ''mm'', op_accesses = [\<lparr>acc_op = 3, acc_sid = 1, acc_kind = READ\<rparr>]\<rparr>],
     storage_sizes = [1 \<mapsto> 100, 2 \<mapsto> 80], retained_sids = {}, memory_limit = Some 120\<rparr>"

lemma gap_trace_ok: "trace_wf gap_trace" "sizes_ok gap_trace"
  by (auto simp: trace_wf_def sizes_ok_def gap_trace_def less_Suc_eq numeral_nat)

lemma gap_trace_plan: "plan_of gap_trace 120 = ([candidate_at gap_trace 1 100 0], [100, 80, 80, 100])"
  by code_simp

theorem plan_budget_witness:
  "plan_of gap_trace 120 = ([candidate_at gap_trace 1 100 0], [100, 80, 80, 100]) \<and>
   (\<Sum>s \<in> set (storages gap_trace).
      if planned_on_device gap_trace [candidate_at gap_trace 1 100 0] s 2 then storage_bytes gap_trace s else 0) = 80"
  using plan_budget [OF gap_trace_ok gap_trace_plan, of 2] gap_trace_plan
  by (simp add: max_op_id_def gap_trace_def max_default_def)

section \<open>The actions of the plan\<close>

definition evict_pres :: "nat \<Rightarrow> eviction_candidate \<Rightarrow> residency_action list" where
  "evict_pres k c = (if acc_op (gap_end c) = k then [action k (cand_sid c) COPY_H2D] else [])"

definition evict_posts :: "nat \<Rightarrow> eviction_candidate \<Rightarrow> residency_action list" where
  "evict_posts k c = (if acc_op (copy_start c) = k then [action k (cand_sid c) COPY_D2H] else []) @
     (if acc_op (release_start c) = k then [action k (cand_sid c) RELEASE_DEVICE] else [])"

definition final_posts :: "int set \<Rightarrow> int set \<Rightarrow> nat \<Rightarrow> int \<times> storage_access \<Rightarrow> residency_action list" where
  "final_posts evicted retained k e =
     (if fst e \<in> retained \<or> acc_op (snd e) \<noteq> k then []
      else action k (fst e) RELEASE_DEVICE # (if fst e \<in> evicted then [action k (fst e) RELEASE_HOST] else []))"

lemma pre_actions_simps [simp]:
  "pre_actions (add_post j kind s sc) k = pre_actions sc k"
  "post_actions (add_pre j kind s sc) k = post_actions sc k"
  "pre_actions (add_pre j kind s sc) k = pre_actions sc k @ (if k = j then [action k s kind] else [])"
  "post_actions (add_post j kind s sc) k = post_actions sc k @ (if k = j then [action k s kind] else [])"
  by (simp_all add: pre_actions_def post_actions_def add_pre_def add_post_def get_list_append)

lemma no_actions [simp]:
  "pre_actions \<lparr>sched_pre = [], sched_post = []\<rparr> k = []" "post_actions \<lparr>sched_pre = [], sched_post = []\<rparr> k = []"
  by (simp_all add: pre_actions_def post_actions_def get_list_def)

lemma evictions_actions:
  assumes "\<forall>c \<in> set sel. acc_sid (copy_start c) = cand_sid c \<and> acc_sid (release_start c) = cand_sid c \<and>
    acc_sid (gap_end c) = cand_sid c"
  shows "pre_actions (fold add_eviction_actions sel sc) k = pre_actions sc k @ concat (map (evict_pres k) sel)"
    "post_actions (fold add_eviction_actions sel sc) k = post_actions sc k @ concat (map (evict_posts k) sel)"
  using assms
  by (induction sel arbitrary: sc) (simp_all add: add_eviction_actions_def evict_pres_def evict_posts_def)

lemma release_actions:
  "pre_actions (fold (emit_release evicted retained) rel sc) k = pre_actions sc k"
  "post_actions (fold (emit_release evicted retained) rel sc) k =
    post_actions sc k @ concat (map (final_posts evicted retained k) rel)"
  by (induction rel arbitrary: sc) (auto simp: emit_release_def final_posts_def Let_def split: prod.split)

lemma schedule_actions:
  assumes wf: "trace_wf trace" "sizes_ok trace" and plan: "plan_of trace limit = (sel, fin)"
    and limit: "memory_limit trace = Some limit" "trace_ops trace \<noteq> []"
  shows "\<exists>rel. (\<forall>s. map_of rel s = (if storage_sizes trace s \<noteq> None \<and> accesses_of trace s \<noteq> []
        then Some (last (accesses_of trace s)) else None)) \<and> distinct (map fst rel) \<and>
    (\<forall>k. pre_actions (build_schedule trace) k = concat (map (evict_pres k) sel)) \<and>
    (\<forall>k. post_actions (build_schedule trace) k = concat (map (evict_posts k) sel) @
       concat (map (final_posts (cand_sid ` set sel) (retained_sids trace) k) rel))"
proof -
  obtain resident candidates rel where
    build: "build_resident_footprint trace (group_accesses_by_storage trace) = (resident, candidates, rel)"
    by (metis prod_cases3)
  have sel: "greedy_select limit candidates resident = (sel, fin)" using plan build by (simp add: plan_of_def)
  have sids: "\<forall>c \<in> set sel. acc_sid (copy_start c) = cand_sid c \<and> acc_sid (release_start c) = cand_sid c \<and>
    acc_sid (gap_end c) = cand_sid c"
    using plan_facts(1) [OF wf plan] candidate_facts(2-4) [OF _ wf(1)] by blast
  have "build_schedule trace = emit_release_actions sel trace rel (fold add_eviction_actions sel \<lparr>sched_pre = [], sched_post = []\<rparr>)"
    using limit build sel by (simp add: build_schedule_def Let_def)
  then have "pre_actions (build_schedule trace) k = concat (map (evict_pres k) sel)"
    "post_actions (build_schedule trace) k = concat (map (evict_posts k) sel) @
       concat (map (final_posts (cand_sid ` set sel) (retained_sids trace) k) rel)" for k
    using evictions_actions [OF sids, of "\<lparr>sched_pre = [], sched_post = []\<rparr>" k]
    by (simp_all add: emit_release_actions_def release_actions)
  moreover have "distinct (map fst rel)"
  proof -
    have "distinct (map fst r)" if "fold (footprint_step (storage_sizes trace)) d st = (x, y, r)"
      "distinct (map fst (snd (snd st)))" for d st x y r
      using that
    proof (induction d arbitrary: st)
      case (Cons e d)
      have "distinct (map fst (snd (snd (footprint_step (storage_sizes trace) e st))))"
        using Cons.prems(2) by (cases st) (auto simp: footprint_step_def Let_def distinct_update split: prod.split option.split)
      then show ?case using Cons.IH [of "footprint_step (storage_sizes trace) e st"] Cons.prems(1) by simp
    qed simp
    then show ?thesis using build by (fastforce simp: build_resident_footprint_def split: prod.splits)
  qed
  ultimately show ?thesis using resident_footprint(5) [OF wf(1) build] by blast
qed

end
