(* ===== verification/OffloadRun.thy ===== *)
theory OffloadRun
  imports OffloadPlan
begin

text \<open>
  The offload runtime: the residency manager (\<open>runtime/residency.py\<close>), the recording of a step in the warmup
  (\<open>execution/warmup/executor.py\<close>) and the replay of a planned schedule (\<open>execution/replay/executor.py\<close>,
  \<open>execution/base.py\<close>), under \<open>auto_parallel/hyper_offload\<close>.  The contents of a storage are a value of
  type \<open>'v\<close> with a number of bytes; a copy on the copy stream is its value at the moment it is
  issued, because the streams wait for each other, and its event is a number.  What an event answers, the bytes of a
  value and the device are the environment of a run.  A \<open>ShadowTensor\<close> is its storage id: it
  holds no data and reads the buffer of the id on every dispatch.
\<close>

section \<open>The residency manager\<close>

record 'v phys_buffer =
  buf_device :: "nat option"
  host_buffer :: "(pinned \<times> 'v) option"
  host_event :: "nat option"
  device_buffer :: "'v option"
  device_event :: "nat option"

record 'v manager =
  host_pool :: "nat pool"
  residency :: "(int \<times> 'v phys_buffer) list"
  stream_device :: nat
  next_event :: nat
  clock :: nat

record 'v env =
  env_numel :: "'v \<Rightarrow> int"
  env_device :: nat
  env_query :: "nat \<Rightarrow> nat \<Rightarrow> bool"
  env_query' :: "nat \<Rightarrow> nat \<Rightarrow> bool"

definition empty_buffer :: "'v phys_buffer" where
  "empty_buffer = \<lparr>buf_device = None, host_buffer = None, host_event = None, device_buffer = None, device_event = None\<rparr>"

definition set_buffer :: "int \<Rightarrow> 'v phys_buffer \<Rightarrow> 'v manager \<Rightarrow> 'v manager" where
  "set_buffer sid b m = m\<lparr>residency := AList.update sid b (residency m)\<rparr>"

definition drop_buffer :: "int \<Rightarrow> 'v manager \<Rightarrow> 'v manager" where
  "drop_buffer sid m = m\<lparr>residency := AList.delete sid (residency m)\<rparr>"

definition resident_bytes :: "('v \<Rightarrow> int) \<Rightarrow> 'v manager \<Rightarrow> int" where
  "resident_bytes numel m =
     fold (\<lambda>(sid, b) total. case device_buffer b of None \<Rightarrow> total | Some v \<Rightarrow> total + numel v) (residency m) 0"

definition device_resident_size :: "('v \<Rightarrow> int) \<Rightarrow> int \<Rightarrow> 'v manager \<Rightarrow> int option" where
  "device_resident_size numel sid m =
     (case map_of (residency m) sid of None \<Rightarrow> None | Some b \<Rightarrow> map_option numel (device_buffer b))"

definition bind_storage :: "nat \<Rightarrow> int \<Rightarrow> 'v \<Rightarrow> 'v manager \<Rightarrow> 'v manager" where
  "bind_storage dev sid v m =
     (let b = (case map_of (residency m) sid of None \<Rightarrow> empty_buffer | Some b \<Rightarrow> b)
      in set_buffer sid (b\<lparr>buf_device := Some dev, device_buffer := Some v\<rparr>) m)"

text \<open>An event is recorded when the buffer is on the device of the copy stream.\<close>

definition on_stream :: "'v phys_buffer \<Rightarrow> 'v manager \<Rightarrow> bool" where
  "on_stream b m \<longleftrightarrow> buf_device b = Some (stream_device m)"

definition new_event :: "'v phys_buffer \<Rightarrow> 'v manager \<Rightarrow> nat option \<times> 'v manager" where
  "new_event b m = (if on_stream b m then (Some (next_event m), m\<lparr>next_event := Suc (next_event m)\<rparr>) else (None, m))"

text \<open>The answers of the events depend on the moment, which \<open>clock\<close> counts by the copies to the host.\<close>

definition copy_d2h :: "'v env \<Rightarrow> int \<Rightarrow> 'v manager \<Rightarrow> 'v manager res" where
  "copy_d2h env sid m =
     (case map_of (residency m) sid of
        None \<Rightarrow> Inl RuntimeError
      | Some b \<Rightarrow>
          if host_buffer b \<noteq> None then Inr m
          else case device_buffer b of
            None \<Rightarrow> Inl RuntimeError
          | Some v \<Rightarrow>
              rbind (acquire (env_query env (clock m)) (env_query' env (clock m)) (env_numel env v) (host_pool m))
                (\<lambda>(buf, p).
                   let (ev, m) = new_event b (m\<lparr>host_pool := p, clock := Suc (clock m)\<rparr>)
                   in Inr (set_buffer sid (b\<lparr>host_buffer := Some (buf, v), host_event := ev\<rparr>) m)))"

definition copy_h2d :: "int \<Rightarrow> 'v manager \<Rightarrow> 'v manager res" where
  "copy_h2d sid m =
     (case map_of (residency m) sid of
        None \<Rightarrow> Inl RuntimeError
      | Some b \<Rightarrow>
          if device_buffer b \<noteq> None then Inr m
          else case host_buffer b of
            None \<Rightarrow> Inl RuntimeError
          | Some (buf, v) \<Rightarrow>
              if buf_device b = None then Inl RuntimeError
              else let (ev, m) = new_event b m
                   in Inr (set_buffer sid (b\<lparr>device_buffer := Some v, device_event := ev\<rparr>) m))"

definition release_device :: "int \<Rightarrow> 'v manager \<Rightarrow> 'v manager" where
  "release_device sid m =
     (case map_of (residency m) sid of
        None \<Rightarrow> m
      | Some b \<Rightarrow>
          if device_buffer b = None then m
          else if host_buffer b = None then drop_buffer sid m
          else set_buffer sid (b\<lparr>device_buffer := None, device_event := None\<rparr>) m)"

definition event_to_wait :: "'v phys_buffer \<Rightarrow> nat option" where
  "event_to_wait b = (if device_event b \<noteq> None then device_event b else host_event b)"

definition release_host :: "int \<Rightarrow> 'v manager \<Rightarrow> 'v manager res" where
  "release_host sid m =
     (case map_of (residency m) sid of
        None \<Rightarrow> Inr m
      | Some b \<Rightarrow>
          (case host_buffer b of
             None \<Rightarrow> Inr m
           | Some (buf, v) \<Rightarrow>
               rbind (release buf (event_to_wait b) (host_pool m)) (\<lambda>p.
                 let m = m\<lparr>host_pool := p\<rparr> in
                 Inr (if device_buffer b = None then drop_buffer sid m
                      else set_buffer sid (b\<lparr>host_buffer := None, host_event := None\<rparr>) m))))"

definition clear_runtime :: "'v manager \<Rightarrow> 'v manager res" where
  "clear_runtime m =
     rbind (rfold (\<lambda>(sid, b) p. case host_buffer b of
              None \<Rightarrow> Inr p | Some (buf, v) \<Rightarrow> release buf (event_to_wait b) p) (residency m) (host_pool m))
       (\<lambda>p. Inr (m\<lparr>host_pool := p, residency := []\<rparr>))"

text \<open>\<open>PhysicalBuffer.device_storage\<close>, with the synchronous copy back when the data is only on the host.\<close>

definition device_storage :: "int \<Rightarrow> 'v manager \<Rightarrow> ('v \<times> 'v manager) res" where
  "device_storage sid m =
     (case map_of (residency m) sid of
        None \<Rightarrow> Inl RuntimeError
      | Some b \<Rightarrow>
          rbind (case device_buffer b of
                   Some v \<Rightarrow> Inr (v, b)
                 | None \<Rightarrow> (case host_buffer b of
                       Some (buf, v) \<Rightarrow>
                         if buf_device b \<noteq> None then Inr (v, b\<lparr>host_event := None, device_buffer := Some v\<rparr>)
                         else Inl RuntimeError
                     | None \<Rightarrow> Inl RuntimeError))
            (\<lambda>(v, b). Inr (v, set_buffer sid (b\<lparr>device_event := None\<rparr>) m)))"

section \<open>Recording a step\<close>

text \<open>
  One dispatched operator.  A tensor leaf is the identity of the tensor object and, when the tracker knows it, the id of
  its storage.  \<open>call_args\<close> has the leaves of every positional argument, \<open>call_schema\<close> whether the schema marks
  the argument of that position as written, \<open>call_mutates\<close> the tracked storages the operator really writes in place,
  and \<open>call_write\<close> what it writes to a storage, given the contents of its tracked inputs.
\<close>

type_synonym leaf = "nat \<times> int option"

record 'v op_call =
  call_name :: string
  call_args :: "leaf list list"
  call_kwargs :: "leaf list"
  call_schema :: "bool list"
  call_leaves :: "int option list"
  call_mutates :: "int list"
  call_write :: "'v list \<Rightarrow> int \<Rightarrow> 'v"

record op_guide =
  guide_name :: string
  leaf_count :: nat
  output_bindings :: "(nat \<times> int) list"

type_synonym recording = "(int \<times> access_kind) list \<times> storage_access list"

definition call_inputs :: "'v op_call \<Rightarrow> leaf list" where
  "call_inputs call = concat (call_args call) @ call_kwargs call"

definition input_sids :: "'v op_call \<Rightarrow> int list" where
  "input_sids call = List.map_filter snd (call_inputs call)"

definition output_sids :: "'v op_call \<Rightarrow> int list" where
  "output_sids call = List.map_filter id (call_leaves call)"

text \<open>The index of a schema argument is looked up in the flat list of the tensors.\<close>

definition mutated_tensor_ids :: "'v op_call \<Rightarrow> nat list" where
  "mutated_tensor_ids call =
     (let flat_args = concat (call_args call)
      in map (\<lambda>(idx, w). fst (flat_args ! idx))
           (filter (\<lambda>(idx, w). w \<and> idx < length flat_args) (enumerate 0 (call_schema call))))"

definition record_access :: "nat \<Rightarrow> int \<Rightarrow> access_kind \<Rightarrow> recording \<Rightarrow> recording" where
  "record_access k sid kind st =
     (case st of (seen, accesses) \<Rightarrow>
        if (sid, kind) \<in> set seen then st
        else (seen @ [(sid, kind)], accesses @ [\<lparr>acc_op = k, acc_sid = sid, acc_kind = kind\<rparr>]))"

definition record_input :: "nat \<Rightarrow> nat list \<Rightarrow> leaf \<Rightarrow> recording \<Rightarrow> recording" where
  "record_input k mutated t st =
     (case snd t of None \<Rightarrow> st
      | Some sid \<Rightarrow> record_access k sid (if fst t \<in> set mutated then WRITE else READ) st)"

definition record_leaf :: "nat \<Rightarrow> int option \<Rightarrow> recording \<Rightarrow> recording" where
  "record_leaf k leaf st = (case leaf of None \<Rightarrow> st | Some sid \<Rightarrow> record_access k sid WRITE st)"

definition record_bindings :: "int option list \<Rightarrow> (nat \<times> int) list" where
  "record_bindings leaves =
     concat (map (\<lambda>(i, leaf). case leaf of None \<Rightarrow> [] | Some sid \<Rightarrow> [(i, sid)]) (enumerate 0 leaves))"

definition record_op :: "nat \<Rightarrow> 'v op_call \<Rightarrow> trace_op" where
  "record_op k call =
     \<lparr>op_name = call_name call,
      op_accesses = snd (fold (record_leaf k) (call_leaves call)
        (fold (record_input k (mutated_tensor_ids call)) (call_inputs call) ([], [])))\<rparr>"

definition guide_op :: "'v op_call \<Rightarrow> op_guide" where
  "guide_op call =
     \<lparr>guide_name = call_name call, leaf_count = length (call_leaves call),
      output_bindings = record_bindings (call_leaves call)\<rparr>"

text \<open>What the warmup hands to the planner when the step is over.\<close>

definition record_step ::
  "'v op_call list \<Rightarrow> (int \<rightharpoonup> int) \<Rightarrow> int set \<Rightarrow> int \<Rightarrow> activation_trace" where
  "record_step calls sizes retained limit =
     \<lparr>trace_ops = map (\<lambda>(k, call). record_op k call) (enumerate 0 calls), storage_sizes = sizes,
      retained_sids = retained, memory_limit = Some limit\<rparr>"

section \<open>Running an operator\<close>

text \<open>The operator itself: it resolves its shadows and writes some of its inputs in place.\<close>

fun resolve_inputs :: "int list \<Rightarrow> 'v manager \<Rightarrow> ('v list \<times> 'v manager) res" where
  "resolve_inputs [] m = Inr ([], m)"
| "resolve_inputs (sid # sids) m =
     rbind (device_storage sid m) (\<lambda>(v, m). rbind (resolve_inputs sids m) (\<lambda>(vs, m). Inr (v # vs, m)))"

definition write_in_place :: "int \<Rightarrow> 'v \<Rightarrow> 'v manager \<Rightarrow> 'v manager" where
  "write_in_place sid v m =
     (case map_of (residency m) sid of
        None \<Rightarrow> m
      | Some b \<Rightarrow> set_buffer sid (b\<lparr>device_buffer := Some v\<rparr>) m)"

definition run_func :: "'v op_call \<Rightarrow> 'v manager \<Rightarrow> ('v list \<times> 'v manager) res" where
  "run_func call m =
     rbind (resolve_inputs (input_sids call) m) (\<lambda>(vs, m).
       Inr (vs, fold (\<lambda>sid. write_in_place sid (call_write call vs sid)) (call_mutates call) m))"

text \<open>A result that shares the storage of an input shows what is there; any other result is new.\<close>

definition leaf_value :: "'v op_call \<Rightarrow> 'v list \<Rightarrow> int \<Rightarrow> 'v manager \<Rightarrow> 'v" where
  "leaf_value call vs sid m =
     (if sid \<in> set (input_sids call) then
        (case map_of (residency m) sid of
           Some b \<Rightarrow> (case device_buffer b of Some v \<Rightarrow> v | None \<Rightarrow> call_write call vs sid)
         | None \<Rightarrow> call_write call vs sid)
      else call_write call vs sid)"

definition apply_shadows ::
  "'v env \<Rightarrow> 'v op_call \<Rightarrow> 'v list \<Rightarrow> (nat \<times> int) list \<Rightarrow> 'v manager \<Rightarrow> 'v manager" where
  "apply_shadows env call vs bindings m =
     fold (\<lambda>(i, sid) m. bind_storage (env_device env) sid (leaf_value call vs sid m) m)
       (filter (\<lambda>(i, sid). i < length (call_leaves call)) bindings) m"

section \<open>The warmup\<close>

definition victim_step ::
  "('v \<Rightarrow> int) \<Rightarrow> int set \<Rightarrow> 'v manager \<Rightarrow> int \<times> nat \<Rightarrow> ((int \<times> int) \<times> int) option \<Rightarrow> ((int \<times> int) \<times> int) option" where
  "victim_step numel protected m entry best =
     (case entry of (sid, produced_at_op) \<Rightarrow>
        if sid \<in> protected then best
        else case device_resident_size numel sid m of
          None \<Rightarrow> best
        | Some size_bytes \<Rightarrow>
            let key = (int produced_at_op, - size_bytes) in
            case best of
              None \<Rightarrow> Some (key, sid)
            | Some (victim_key, victim_sid) \<Rightarrow> if key < victim_key then Some (key, sid) else best)"

definition find_victim :: "('v \<Rightarrow> int) \<Rightarrow> int set \<Rightarrow> (int \<times> nat) list \<Rightarrow> 'v manager \<Rightarrow> int option" where
  "find_victim numel protected produced m = map_option snd (fold (victim_step numel protected m) produced None)"

partial_function (option) enforce_budget ::
  "'v env \<Rightarrow> int \<Rightarrow> int set \<Rightarrow> (int \<times> nat) list \<Rightarrow> 'v manager \<Rightarrow> 'v manager res option" where
  "enforce_budget env limit protected produced m =
     (if resident_bytes (env_numel env) m \<le> limit then Some (Inr m)
      else case find_victim (env_numel env) protected produced m of
        None \<Rightarrow> Some (Inl RuntimeError)
      | Some victim_sid \<Rightarrow>
          (case copy_d2h env victim_sid m of
             Inl e \<Rightarrow> Some (Inl e)
           | Inr m \<Rightarrow> enforce_budget env limit protected produced (release_device victim_sid m)))"

definition note_produced :: "nat \<Rightarrow> int list \<Rightarrow> (int \<times> nat) list \<Rightarrow> (int \<times> nat) list" where
  "note_produced k sids produced =
     fold (\<lambda>sid d. if sid \<in> set (map fst d) then d else d @ [(sid, k)]) sids produced"

text \<open>One operator of the warmup: the budget, the operator, its record and its new shadows.\<close>

definition warmup_dispatch ::
  "'v env \<Rightarrow> int \<Rightarrow> nat \<Rightarrow> 'v op_call \<Rightarrow> (int \<times> nat) list \<times> 'v manager \<Rightarrow>
    ('v list \<times> (int \<times> nat) list \<times> 'v manager) res option" where
  "warmup_dispatch env limit k call st =
     (case st of (produced, m) \<Rightarrow>
        (case enforce_budget env limit (set (input_sids call)) produced m of
           None \<Rightarrow> None
         | Some (Inl e) \<Rightarrow> Some (Inl e)
         | Some (Inr m) \<Rightarrow>
             Some (rbind (run_func call m) (\<lambda>(vs, m).
               Inr (vs, note_produced k (output_sids call) produced,
                    apply_shadows env call vs (record_bindings (call_leaves call)) m)))))"

fun warmup_run ::
  "'v env \<Rightarrow> int \<Rightarrow> nat \<Rightarrow> 'v op_call list \<Rightarrow> (int \<times> nat) list \<times> 'v manager \<Rightarrow>
    ('v list list \<times> (int \<times> nat) list \<times> 'v manager) res option" where
  "warmup_run env limit k [] st = Some (Inr ([], st))"
| "warmup_run env limit k (call # calls) st =
     (case warmup_dispatch env limit k call st of
        None \<Rightarrow> None
      | Some (Inl e) \<Rightarrow> Some (Inl e)
      | Some (Inr (vs, st)) \<Rightarrow>
          (case warmup_run env limit (Suc k) calls st of
             None \<Rightarrow> None
           | Some r \<Rightarrow> Some (rbind r (\<lambda>(log, st). Inr (vs # log, st)))))"

section \<open>Replaying a schedule\<close>

definition run_pre :: "residency_action \<Rightarrow> 'v manager \<Rightarrow> 'v manager res" where
  "run_pre a m = (case act_kind a of COPY_H2D \<Rightarrow> copy_h2d (act_sid a) m | _ \<Rightarrow> Inl RuntimeError)"

definition run_post :: "'v env \<Rightarrow> residency_action \<Rightarrow> 'v manager \<Rightarrow> 'v manager res" where
  "run_post env a m =
     (case act_kind a of
        COPY_D2H \<Rightarrow> copy_d2h env (act_sid a) m
      | RELEASE_DEVICE \<Rightarrow> Inr (release_device (act_sid a) m)
      | RELEASE_HOST \<Rightarrow> release_host (act_sid a) m
      | COPY_H2D \<Rightarrow> Inl RuntimeError)"

definition on_op_begin :: "residency_schedule \<Rightarrow> op_guide list \<Rightarrow> nat \<Rightarrow> 'v manager \<Rightarrow> 'v manager res" where
  "on_op_begin sched guide k m =
     (if length guide \<le> k then Inl RuntimeError else rfold run_pre (pre_actions sched k) m)"

text \<open>One replayed operator; the log keeps what it computed on and the device bytes held at that time.\<close>

definition replay_op ::
  "'v env \<Rightarrow> residency_schedule \<Rightarrow> op_guide list \<Rightarrow> nat \<Rightarrow> 'v op_call \<Rightarrow> 'v manager \<Rightarrow>
    ('v list \<times> int \<times> 'v manager) res" where
  "replay_op env sched guide k call m =
     rbind (on_op_begin sched guide k m) (\<lambda>m.
     rbind (run_func call m) (\<lambda>(vs, m).
       if length (call_leaves call) \<noteq> leaf_count (guide ! k) then Inl RuntimeError
       else let m = apply_shadows env call vs (output_bindings (guide ! k)) m
            in rbind (rfold (run_post env) (post_actions sched k) m)
                 (\<lambda>m'. Inr (vs, resident_bytes (env_numel env) m, m'))))"

fun replay_run ::
  "'v env \<Rightarrow> residency_schedule \<Rightarrow> op_guide list \<Rightarrow> nat \<Rightarrow> 'v op_call list \<Rightarrow> 'v manager \<Rightarrow>
    (('v list \<times> int) list \<times> 'v manager) res" where
  "replay_run env sched guide k [] m = Inr ([], m)"
| "replay_run env sched guide k (call # calls) m =
     rbind (replay_op env sched guide k call m) (\<lambda>(vs, bytes, m).
     rbind (replay_run env sched guide (Suc k) calls m) (\<lambda>(log, m). Inr ((vs, bytes) # log, m)))"

section \<open>The step without offloading\<close>

definition writes :: "'v op_call \<Rightarrow> int \<Rightarrow> bool" where
  "writes call s \<longleftrightarrow> s \<in> set (call_mutates call) \<or> (s \<in> set (output_sids call) \<and> s \<notin> set (input_sids call))"

definition plain_op :: "'v op_call \<Rightarrow> (int \<Rightarrow> 'v) \<Rightarrow> 'v list \<times> (int \<Rightarrow> 'v)" where
  "plain_op call mem =
     (let vs = map mem (input_sids call) in (vs, \<lambda>s. if writes call s then call_write call vs s else mem s))"

fun plain_run :: "'v op_call list \<Rightarrow> (int \<Rightarrow> 'v) \<Rightarrow> 'v list list \<times> (int \<Rightarrow> 'v)" where
  "plain_run [] mem = ([], mem)"
| "plain_run (call # calls) mem =
     (let (vs, mem) = plain_op call mem; (log, mem) = plain_run calls mem in (vs # log, mem))"

end
