(* ===== verification/OffloadBuffer.thy ===== *)
theory OffloadBuffer
  imports OffloadRun
begin

text \<open>
  What each operation of the residency manager does to a storage, seen without events and
  buffer identities: \<open>None\<close> when nothing is registered, else the contents on the host and on the device.
\<close>

section \<open>The contents of a storage\<close>

type_synonym 'v place = "('v option \<times> 'v option) option"

definition place_of :: "'v phys_buffer \<Rightarrow> 'v option \<times> 'v option" where
  "place_of b = (map_option snd (host_buffer b), device_buffer b)"

definition places :: "'v manager \<Rightarrow> int \<Rightarrow> 'v place" where
  "places m s = map_option place_of (map_of (residency m) s)"

definition good_buffer :: "'v phys_buffer \<Rightarrow> bool" where
  "good_buffer b \<longleftrightarrow> buf_device b \<noteq> None \<and>
     (\<forall>buf w. host_buffer b = Some (buf, w) \<longrightarrow> buf_pinned buf \<and> align_to_bucket (buf_size buf) = buf_size buf)"

definition mgr_ok :: "'v manager \<Rightarrow> bool" where
  "mgr_ok m \<longleftrightarrow> pool_ok (host_pool m) \<and> distinct (map fst (residency m)) \<and> (\<forall>b \<in> snd ` set (residency m). good_buffer b)"

definition account :: "'v manager \<Rightarrow> int \<times> int" where
  "account m = (total_allocated (host_pool m), max_host_bytes (host_pool m))"

lemma map_update_set: "set (AList.update k v xs) \<subseteq> insert (k, v) (set xs)"
  by (induction xs) auto

lemma map_delete_set: "set (AList.delete k xs) \<subseteq> set xs"
  by (simp add: AList.delete_eq)

lemma places_set [simp]: "places (set_buffer s b m) = (places m)(s \<mapsto> place_of b)"
  by (auto simp: places_def set_buffer_def update_conv' fun_eq_iff)

lemma places_drop [simp]: "places (drop_buffer s m) = (places m)(s := None)"
  by (auto simp: places_def drop_buffer_def delete_conv' fun_eq_iff)

lemma places_frame [simp]:
  "places (m\<lparr>host_pool := p\<rparr>) = places m" "places (m\<lparr>next_event := e\<rparr>) = places m" "places (m\<lparr>clock := t\<rparr>) = places m"
  by (auto simp: places_def fun_eq_iff)

lemma account_frame [simp]:
  "account (set_buffer s b m) = account m" "account (drop_buffer s m) = account m" "account (m\<lparr>next_event := e\<rparr>) = account m"
  "account (m\<lparr>clock := t\<rparr>) = account m"
  "account (m\<lparr>host_pool := p\<rparr>) = (total_allocated p, max_host_bytes p)"
  by (simp_all add: account_def set_buffer_def drop_buffer_def)

lemma pool_frame [simp]:
  "host_pool (set_buffer s b m) = host_pool m" "host_pool (drop_buffer s m) = host_pool m"
  by (simp_all add: set_buffer_def drop_buffer_def)

lemma mgr_ok_set: "mgr_ok m \<Longrightarrow> good_buffer b \<Longrightarrow> mgr_ok (set_buffer s b m)"
  using map_update_set [of s b "residency m"]
  by (fastforce simp: mgr_ok_def set_buffer_def distinct_update)

lemma mgr_ok_drop: "mgr_ok m \<Longrightarrow> mgr_ok (drop_buffer s m)"
  using map_delete_set [of s "residency m"]
  by (fastforce simp: mgr_ok_def drop_buffer_def distinct_delete)

lemma mgr_ok_frame [simp]: "mgr_ok (m\<lparr>next_event := e\<rparr>) = mgr_ok m" "mgr_ok (m\<lparr>clock := t\<rparr>) = mgr_ok m"
  by (simp_all add: mgr_ok_def)

lemma mgr_ok_pool: "mgr_ok m \<Longrightarrow> pool_ok p \<Longrightarrow> mgr_ok (m\<lparr>host_pool := p\<rparr>)"
  by (simp add: mgr_ok_def)

lemma places_Some: "places m s = Some (h, d) \<longleftrightarrow>
    (\<exists>b. map_of (residency m) s = Some b \<and> map_option snd (host_buffer b) = h \<and> device_buffer b = d)"
  by (auto simp: places_def place_of_def)

lemma places_None: "places m s = None \<longleftrightarrow> map_of (residency m) s = None"
  by (simp add: places_def)

lemma good_of: "mgr_ok m \<Longrightarrow> map_of (residency m) s = Some b \<Longrightarrow> good_buffer b"
  by (auto simp: mgr_ok_def dest: map_of_SomeD)

lemma new_event_frame:
  assumes "new_event b m = (ev, m')"
  shows "places m' = places m" "account m' = account m" "mgr_ok m' = mgr_ok m"
  using assms by (auto simp: new_event_def split: if_splits)

section \<open>The operations\<close>

lemma copy_h2d_ok:
  assumes s: "places m s = Some (h, d)" "h \<noteq> None \<or> d \<noteq> None" and ok: "mgr_ok m"
  shows "\<exists>m'. copy_h2d s m = Inr m' \<and> places m' = (places m)(s \<mapsto> (h, if d = None then h else d)) \<and>
    mgr_ok m' \<and> account m' = account m"
proof -
  obtain b where b: "map_of (residency m) s = Some b" "map_option snd (host_buffer b) = h" "device_buffer b = d"
    using s(1) by (auto simp: places_Some)
  note good = good_of [OF ok b(1)]
  show ?thesis
  proof (cases d)
    case (Some w)
    then have "copy_h2d s m = Inr m" using b by (simp add: copy_h2d_def)
    moreover have "(places m)(s \<mapsto> (h, d)) = places m" using s(1) by (auto simp: fun_eq_iff)
    ultimately show ?thesis using ok Some by simp
  next
    case None
    then obtain buf w where h: "host_buffer b = Some (buf, w)" "h = Some w" using s(2) b(2) by auto
    obtain ev m1 where ev: "new_event b m = (ev, m1)" by fastforce
    let ?b = "b\<lparr>device_buffer := Some w, device_event := ev\<rparr>"
    have "copy_h2d s m = Inr (set_buffer s ?b m1)"
      using b None h ev good by (auto simp: copy_h2d_def good_buffer_def)
    moreover have "good_buffer ?b" using good by (simp add: good_buffer_def)
    ultimately show ?thesis
      using b None h new_event_frame [OF ev] ok by (simp add: place_of_def mgr_ok_set)
  qed
qed

text \<open>A copy to the host either is there already, or is made, or finds no data or no room.\<close>

lemma copy_d2h_cases:
  assumes ok: "mgr_ok m"
  shows "(\<exists>w d. places m s = Some (Some w, d) \<and> copy_d2h env s m = Inr m) \<or>
    (\<exists>v m'. places m s = Some (None, Some v) \<and> copy_d2h env s m = Inr m' \<and> places m' = (places m)(s \<mapsto> (Some v, Some v)) \<and>
       mgr_ok m' \<and> snd (account m') = snd (account m) \<and>
       fst (account m') \<le> fst (account m) + align_to_bucket (env_numel env v)) \<or>
    (copy_d2h env s m = Inl RuntimeError \<and>
       (\<forall>v. places m s = Some (None, Some v) \<longrightarrow>
          snd (account m) < fst (account m) + align_to_bucket (env_numel env v)) \<and>
       (\<forall>w d. places m s \<noteq> Some (Some w, d)))"
proof (cases "map_of (residency m) s")
  case None
  then show ?thesis by (simp add: copy_d2h_def places_def)
next
  case (Some b)
  note good = good_of [OF ok Some]
  have pok: "pool_ok (host_pool m)" using ok by (simp add: mgr_ok_def)
  show ?thesis
  proof (cases "host_buffer b")
    case (Some x)
    then show ?thesis using \<open>map_of (residency m) s = Some b\<close> by (cases x) (simp add: copy_d2h_def places_def place_of_def)
  next
    case None
    note host = this
    show ?thesis
    proof (cases "device_buffer b")
      case None
      then show ?thesis using host Some by (simp add: copy_d2h_def places_def place_of_def)
    next
      case dev: (Some v)
      let ?acq = "acquire (env_query env (clock m)) (env_query' env (clock m)) (env_numel env v) (host_pool m)"
      show ?thesis
      proof (cases ?acq)
        case (Inl e)
        then show ?thesis using acquire_fails [OF Inl pok] host dev Some
          by (simp add: copy_d2h_def places_def place_of_def account_def)
      next
        case (Inr x)
        then obtain buf p where acq: "?acq = Inr (buf, p)" by (cases x) simp
        note cases = acquire_cases [OF acq pok]
        let ?m = "m\<lparr>host_pool := p, clock := Suc (clock m)\<rparr>"
        obtain ev m1 where ev: "new_event b ?m = (ev, m1)" by fastforce
        let ?b = "b\<lparr>host_buffer := Some (buf, v), host_event := ev\<rparr>"
        have "buf_pinned buf" using cases pok by (auto simp: pool_ok_def)
        then have "good_buffer ?b" using good cases by (simp add: good_buffer_def)
        moreover have "mgr_ok ?m" using cases ok by (simp add: mgr_ok_pool)
        moreover have "copy_d2h env s m = Inr (set_buffer s ?b m1)"
          using Some host dev acq ev by (simp add: copy_d2h_def)
        moreover have "total_allocated p \<le> total_allocated (host_pool m) + align_to_bucket (env_numel env v)"
          "max_host_bytes p = max_host_bytes (host_pool m)"
          using cases align_pos [of "env_numel env v"] by (auto simp: same_account_def)
        moreover have "places m s = Some (None, Some v)" using Some host dev by (simp add: places_Some)
        ultimately show ?thesis using new_event_frame [OF ev]
          by (intro disjI2 disjI1 exI [of _ v] exI [of _ "set_buffer s ?b m1"])
            (simp add: mgr_ok_set place_of_def account_def dev)
      qed
    qed
  qed
qed

lemma release_device_ok:
  assumes "mgr_ok m"
  shows "places (release_device s m) = (places m)(s := case places m s of
      Some (h, Some v) \<Rightarrow> if h = None then None else Some (h, None) | x \<Rightarrow> x)"
    "mgr_ok (release_device s m)" "account (release_device s m) = account m"
proof -
  have "places (release_device s m) = (places m)(s := case places m s of
      Some (h, Some v) \<Rightarrow> if h = None then None else Some (h, None) | x \<Rightarrow> x) \<and>
    mgr_ok (release_device s m) \<and> account (release_device s m) = account m"
  proof (cases "map_of (residency m) s")
    case None
    then show ?thesis using assms by (simp add: release_device_def places_def fun_eq_iff)
  next
    case (Some b)
    note good = good_of [OF assms Some]
    show ?thesis
    proof (cases "device_buffer b")
      case None
      then show ?thesis using assms Some by (auto simp: release_device_def places_def place_of_def fun_eq_iff)
    next
      case dev: (Some v)
      have "good_buffer (b\<lparr>device_buffer := None, device_event := None\<rparr>)" using good by (simp add: good_buffer_def)
      moreover have "places m s = Some (place_of b)" using Some by (simp add: places_def)
      ultimately show ?thesis using assms Some dev
        by (cases "host_buffer b") (simp_all add: release_device_def place_of_def mgr_ok_set mgr_ok_drop)
    qed
  qed
  then show "places (release_device s m) = (places m)(s := case places m s of
      Some (h, Some v) \<Rightarrow> if h = None then None else Some (h, None) | x \<Rightarrow> x)"
    "mgr_ok (release_device s m)" "account (release_device s m) = account m" by auto
qed

lemma release_host_ok:
  assumes ok: "mgr_ok m"
  shows "\<exists>m'. release_host s m = Inr m' \<and> mgr_ok m' \<and> account m' = account m \<and>
    places m' = (places m)(s := case places m s of
      Some (Some w, d) \<Rightarrow> if d = None then None else Some (None, d) | x \<Rightarrow> x)"
proof (cases "map_of (residency m) s")
  case None
  then show ?thesis using ok by (simp add: release_host_def places_def fun_eq_iff)
next
  case (Some b)
  note good = good_of [OF ok Some]
  have pl: "places m s = Some (place_of b)" using Some by (simp add: places_def)
  show ?thesis
  proof (cases "host_buffer b")
    case None
    then show ?thesis using ok Some pl by (auto simp: release_host_def place_of_def fun_eq_iff)
  next
    case host: (Some x)
    obtain buf w where x: "x = (buf, w)" by (cases x)
    obtain p where p: "release buf (event_to_wait b) (host_pool m) = Inr p" "same_account (host_pool m) p" "pool_ok p"
      using release_ok [of "host_pool m" buf "event_to_wait b"] ok good host x by (auto simp: mgr_ok_def good_buffer_def)
    have g: "good_buffer (b\<lparr>host_buffer := None, host_event := None\<rparr>)" using good by (simp add: good_buffer_def)
    have m: "mgr_ok (m\<lparr>host_pool := p\<rparr>)" using ok p(3) by (rule mgr_ok_pool)
    show ?thesis
    proof (cases "device_buffer b")
      case None
      then show ?thesis using Some host x p m pl
        by (simp add: release_host_def Let_def mgr_ok_drop same_account_def account_def place_of_def)
    next
      case (Some v)
      then show ?thesis using \<open>map_of (residency m) s = Some b\<close> host x p m g pl
        by (simp add: release_host_def Let_def mgr_ok_set same_account_def account_def place_of_def)
    qed
  qed
qed

lemma device_storage_ok:
  assumes s: "places m s = Some (h, d)" "h \<noteq> None \<or> d \<noteq> None" and ok: "mgr_ok m"
  shows "\<exists>m'. device_storage s m = Inr (the (if d = None then h else d), m') \<and>
    places m' = (places m)(s \<mapsto> (h, if d = None then h else d)) \<and> mgr_ok m' \<and> account m' = account m"
proof -
  obtain b where b: "map_of (residency m) s = Some b" "map_option snd (host_buffer b) = h" "device_buffer b = d"
    using s(1) by (auto simp: places_Some)
  note good = good_of [OF ok b(1)]
  show ?thesis
  proof (cases d)
    case (Some w)
    have "good_buffer (b\<lparr>device_event := None\<rparr>)" using good by (simp add: good_buffer_def)
    then show ?thesis using b Some ok by (simp add: device_storage_def place_of_def mgr_ok_set)
  next
    case None
    then obtain buf w where h: "host_buffer b = Some (buf, w)" "h = Some w" using s(2) b(2) by auto
    have "good_buffer (b\<lparr>host_event := None, device_buffer := Some w, device_event := None\<rparr>)"
      using good by (simp add: good_buffer_def)
    then show ?thesis using b h None ok good by (auto simp: device_storage_def place_of_def good_buffer_def mgr_ok_set)
  qed
qed

lemma write_in_place_ok:
  assumes "places m s = Some (h, d)" "mgr_ok m"
  shows "places (write_in_place s w m) = (places m)(s \<mapsto> (h, Some w))" "mgr_ok (write_in_place s w m)"
    "account (write_in_place s w m) = account m"
proof -
  obtain b where b: "map_of (residency m) s = Some b" "map_option snd (host_buffer b) = h"
    using assms(1) by (auto simp: places_Some)
  have "good_buffer (b\<lparr>device_buffer := Some w\<rparr>)" using good_of [OF assms(2) b(1)] by (simp add: good_buffer_def)
  then show "places (write_in_place s w m) = (places m)(s \<mapsto> (h, Some w))" "mgr_ok (write_in_place s w m)"
    "account (write_in_place s w m) = account m"
    using b assms(2) by (simp_all add: write_in_place_def place_of_def mgr_ok_set)
qed

lemma bind_storage_ok:
  assumes "mgr_ok m"
  shows "places (bind_storage dev s w m) = (places m)(s \<mapsto> (Option.bind (places m s) fst, Some w))"
    "mgr_ok (bind_storage dev s w m)" "account (bind_storage dev s w m) = account m"
proof -
  define b where "b = (case map_of (residency m) s of None \<Rightarrow> empty_buffer | Some b \<Rightarrow> b)"
  have "good_buffer (b\<lparr>buf_device := Some dev, device_buffer := Some w\<rparr>)"
    using good_of [OF assms] by (auto simp: b_def good_buffer_def empty_buffer_def split: option.split)
  moreover have "place_of (b\<lparr>buf_device := Some dev, device_buffer := Some w\<rparr>) = (Option.bind (places m s) fst, Some w)"
    by (auto simp: b_def place_of_def places_def empty_buffer_def split: option.split)
  ultimately show "places (bind_storage dev s w m) = (places m)(s \<mapsto> (Option.bind (places m s) fst, Some w))"
    "mgr_ok (bind_storage dev s w m)" "account (bind_storage dev s w m) = account m"
    using assms by (simp_all add: bind_storage_def b_def [symmetric] mgr_ok_set)
qed

section \<open>The end of a step\<close>

lemma release_all:
  assumes "pool_ok p" "\<forall>b \<in> snd ` set bs. good_buffer b"
  shows "\<exists>q. rfold (\<lambda>(sid, b) p. case host_buffer b of
      None \<Rightarrow> Inr p | Some (buf, v) \<Rightarrow> release buf (event_to_wait b) p) bs p = Inr q \<and> pool_ok q \<and> same_account p q"
  using assms
proof (induction bs arbitrary: p)
  case Nil
  then show ?case by (simp add: same_account_def)
next
  case (Cons e bs)
  obtain sid b where e: "e = (sid, b)" by (cases e)
  have rest: "\<forall>b \<in> snd ` set bs. good_buffer b" using Cons.prems(2) by simp
  show ?case
  proof (cases "host_buffer b")
    case None
    then show ?thesis using Cons.IH [OF Cons.prems(1) rest] by (simp add: e)
  next
    case (Some x)
    obtain buf w where x: "x = (buf, w)" by (cases x)
    obtain q where q: "release buf (event_to_wait b) p = Inr q" "same_account p q" "pool_ok q"
      using release_ok [OF Cons.prems(1), of buf "event_to_wait b"] Cons.prems(2) Some
      by (auto simp: e x good_buffer_def)
    from Cons.IH [OF q(3) rest] show ?thesis using q(1,2) Some by (auto simp: e x same_account_def)
  qed
qed

text \<open>After \<open>clear_runtime\<close> nothing is registered and every host buffer is back in the pool.\<close>

lemma clear_runtime_ok:
  assumes "mgr_ok m"
  shows "\<exists>m'. clear_runtime m = Inr m' \<and> residency m' = [] \<and> mgr_ok m' \<and> account m' = account m"
proof -
  obtain p where p: "rfold (\<lambda>(sid, b) p. case host_buffer b of
      None \<Rightarrow> Inr p | Some (buf, v) \<Rightarrow> release buf (event_to_wait b) p) (residency m) (host_pool m) = Inr p"
    "pool_ok p" "same_account (host_pool m) p"
    using release_all [of "host_pool m" "residency m"] assms by (auto simp: mgr_ok_def)
  then show ?thesis by (simp add: clear_runtime_def mgr_ok_def account_def same_account_def)
qed

end
