(* ===== verification/OffloadActions.thy ===== *)
theory OffloadActions
  imports OffloadBuffer
begin

text \<open>
  The actions of a schedule seen from one storage.  The list of all actions between two operators acts on
  every storage like its own actions in their order; only the room in the host pool is shared.
\<close>

section \<open>The actions of one storage\<close>

text \<open>What an action makes of a place; \<open>None\<close> when it would raise, or when a plan never asks for it.\<close>

fun place_act :: "action_kind \<Rightarrow> 'v place \<Rightarrow> 'v place option" where
  "place_act COPY_H2D (Some (h, d)) = (if h = None \<and> d = None then None else Some (Some (h, if d = None then h else d)))"
| "place_act COPY_H2D None = None"
| "place_act COPY_D2H (Some (Some w, d)) = Some (Some (Some w, d))"
| "place_act COPY_D2H (Some (None, Some v)) = Some (Some (Some v, Some v))"
| "place_act COPY_D2H _ = None"
| "place_act RELEASE_DEVICE (Some (Some w, d)) = Some (Some (Some w, None))"
| "place_act RELEASE_DEVICE (Some (None, None)) = None"
| "place_act RELEASE_DEVICE _ = Some None"
| "place_act RELEASE_HOST None = Some None"
| "place_act RELEASE_HOST (Some (Some w, None)) = Some None"
| "place_act RELEASE_HOST _ = None"

fun place_acts :: "action_kind list \<Rightarrow> 'v place \<Rightarrow> 'v place option" where
  "place_acts [] p = Some p"
| "place_acts (a # as) p = Option.bind (place_act a p) (place_acts as)"

definition kinds :: "int \<Rightarrow> residency_action list \<Rightarrow> action_kind list" where
  "kinds s acts = map act_kind (filter (\<lambda>a. act_sid a = s) acts)"

lemma kinds_simps [simp]:
  "kinds s [] = []"
  "kinds s (a # acts) = (if act_sid a = s then act_kind a # kinds s acts else kinds s acts)"
  "kinds s (acts @ acts') = kinds s acts @ kinds s acts'"
  by (simp_all add: kinds_def)

lemma kinds_concat: "kinds s (concat xss) = concat (map (kinds s) xss)"
  by (induction xss) simp_all

lemma place_acts_append: "place_acts (xs @ ys) p = Option.bind (place_acts xs p) (place_acts ys)"
  by (induction xs arbitrary: p) (auto split: bind_splits)

lemma place_acts_Cons_Some: "place_acts (a # as) p = Some r \<longleftrightarrow> (\<exists>q. place_act a p = Some q \<and> place_acts as q = Some r)"
  by (auto split: bind_splits)

text \<open>If every storage can do its actions, so it is after the first action, for what is left.\<close>

lemma place_acts_step:
  assumes "\<forall>s. place_acts (kinds s (a # acts)) (p s) = Some (r s)"
  obtains q where "place_act (act_kind a) (p (act_sid a)) = Some q"
    "\<forall>s. place_acts (kinds s acts) ((p(act_sid a := q)) s) = Some (r s)"
proof -
  have "place_acts (act_kind a # kinds (act_sid a) acts) (p (act_sid a)) = Some (r (act_sid a))"
    using assms [rule_format, of "act_sid a"] by simp
  then obtain q where q: "place_act (act_kind a) (p (act_sid a)) = Some q"
    "place_acts (kinds (act_sid a) acts) q = Some (r (act_sid a))"
    unfolding place_acts_Cons_Some by blast
  have "place_acts (kinds s acts) ((p(act_sid a := q)) s) = Some (r s)" for s
    using assms [rule_format, of s] q(2) by (cases "s = act_sid a") auto
  then show ?thesis using that q(1) by blast
qed

section \<open>The actions before an operator\<close>

lemma pres_run:
  assumes "mgr_ok m" "\<forall>a \<in> set acts. act_kind a = COPY_H2D"
    "\<forall>s. place_acts (kinds s acts) (places m s) = Some (r s)"
  shows "\<exists>m'. rfold run_pre acts m = Inr m' \<and> places m' = r \<and> mgr_ok m' \<and> account m' = account m"
  using assms
proof (induction acts arbitrary: m)
  case Nil
  then show ?case by (auto simp: fun_eq_iff)
next
  case (Cons a acts)
  let ?s = "act_sid a"
  obtain q where q: "place_act (act_kind a) (places m ?s) = Some q"
    "\<forall>s. place_acts (kinds s acts) (((places m)(?s := q)) s) = Some (r s)"
    using place_acts_step [OF Cons.prems(3)] by blast
  have kind: "act_kind a = COPY_H2D" using Cons.prems(2) by simp
  then obtain h d where hd: "places m ?s = Some (h, d)" "h \<noteq> None \<or> d \<noteq> None" "q = Some (h, if d = None then h else d)"
    using q(1) by (cases "places m ?s") (auto split: if_splits)
  obtain m1 where m1: "copy_h2d ?s m = Inr m1" "places m1 = (places m)(?s := q)" "mgr_ok m1" "account m1 = account m"
    using copy_h2d_ok [OF hd(1,2) Cons.prems(1)] hd(3) by auto
  have rest: "\<forall>a \<in> set acts. act_kind a = COPY_H2D" using Cons.prems(2) by simp
  have "\<forall>s. place_acts (kinds s acts) (places m1 s) = Some (r s)" using q(2) m1(2) by simp
  from Cons.IH [OF m1(3) rest this] show ?case using m1 kind by (simp add: run_pre_def)
qed

section \<open>The actions after an operator\<close>

text \<open>
  The room the storages in \<open>E\<close> that were not copied yet (\<open>C\<close> were) may still need: the room of a storage is
  its size, rounded up to a bucket, once.
\<close>

definition room :: "int set \<Rightarrow> (int \<Rightarrow> int) \<Rightarrow> int set \<Rightarrow> 'v manager \<Rightarrow> bool" where
  "room E n C m \<longleftrightarrow> fst (account m) + (\<Sum>s \<in> E - C. align_to_bucket (n s)) \<le> snd (account m)"

text \<open>A storage that was copied and is still registered has its copy.\<close>

definition copied_once :: "int set \<Rightarrow> 'v manager \<Rightarrow> bool" where
  "copied_once C m \<longleftrightarrow> (\<forall>s \<in> C. \<forall>d. places m s \<noteq> Some (None, d))"

definition sized :: "('v \<Rightarrow> int) \<Rightarrow> (int \<Rightarrow> int) \<Rightarrow> 'v manager \<Rightarrow> bool" where
  "sized numel n m \<longleftrightarrow> (\<forall>s h v. places m s = Some (h, Some v) \<longrightarrow> numel v = n s)"

lemma room_less:
  assumes "room E n C m" "finite E"
  shows "room E n (insert s C) m"
proof -
  have "(\<Sum>s \<in> E - insert s C. align_to_bucket (n s)) \<le> (\<Sum>s \<in> E - C. align_to_bucket (n s))"
    by (rule sum_mono2) (use assms(2) align_pos in \<open>auto intro: less_imp_le\<close>)
  then show ?thesis using assms(1) by (simp add: room_def)
qed

lemma room_used:
  assumes "room E n C m" "finite E" "s \<in> E" "s \<notin> C"
    "fst (account m') \<le> fst (account m) + align_to_bucket (n s)" "snd (account m') = snd (account m)"
  shows "room E n (insert s C) m'"
proof -
  have "(\<Sum>s \<in> E - C. align_to_bucket (n s)) = align_to_bucket (n s) + (\<Sum>s \<in> (E - C) - {s}. align_to_bucket (n s))"
    by (rule sum.remove) (use assms(2-4) in auto)
  moreover have "(E - C) - {s} = E - insert s C" by auto
  ultimately show ?thesis using assms(1,5,6) by (simp add: room_def)
qed

lemma post_step:
  assumes ok: "mgr_ok m" and act: "place_act (act_kind a) (places m (act_sid a)) = Some q" and kind: "act_kind a \<noteq> COPY_H2D"
    and room: "room E n C m" "copied_once C m" "sized (env_numel env) n m" "finite E"
    and evicted: "act_kind a = COPY_D2H \<Longrightarrow> act_sid a \<in> E"
  shows "\<exists>m'. run_post env a m = Inr m' \<and> places m' = (places m)(act_sid a := q) \<and> mgr_ok m' \<and>
    snd (account m') = snd (account m) \<and>
    room E n (if act_kind a = COPY_D2H then insert (act_sid a) C else C) m' \<and>
    copied_once (if act_kind a = COPY_D2H then insert (act_sid a) C else C) m' \<and> sized (env_numel env) n m'"
proof (cases "act_kind a")
  case COPY_D2H
  let ?s = "act_sid a"
  from act COPY_D2H consider (there) w d where "places m ?s = Some (Some w, d)" "q = Some (Some w, d)"
    | (new) v where "places m ?s = Some (None, Some v)" "q = Some (Some v, Some v)"
  proof (cases "places m ?s")
    case (Some hd)
    then show ?thesis using act COPY_D2H that by (cases hd; cases "fst hd"; cases "snd hd") auto
  qed (use act COPY_D2H in simp)
  then show ?thesis
  proof cases
    case there
    then have "copy_d2h env ?s m = Inr m" using copy_d2h_cases [OF ok, of ?s env] by auto
    moreover have "(places m)(?s := q) = places m" using there by (auto simp: fun_eq_iff)
    ultimately show ?thesis using COPY_D2H room there ok
      by (auto simp: run_post_def copied_once_def intro: room_less)
  next
    case new
    have "?s \<notin> C" using room(2) new by (auto simp: copied_once_def)
    moreover have "env_numel env v = n ?s" using room(3) new by (simp add: sized_def)
    moreover have "fst (account m) + align_to_bucket (n ?s) \<le> snd (account m)"
    proof -
      have "align_to_bucket (n ?s) \<le> (\<Sum>s \<in> E - C. align_to_bucket (n s))"
        by (rule member_le_sum) (use evicted COPY_D2H \<open>?s \<notin> C\<close> room(4) align_pos in \<open>auto intro: less_imp_le\<close>)
      then show ?thesis using room(1) by (simp add: room_def)
    qed
    ultimately obtain m' where m': "copy_d2h env ?s m = Inr m'" "places m' = (places m)(?s := q)" "mgr_ok m'"
      "snd (account m') = snd (account m)" "fst (account m') \<le> fst (account m) + align_to_bucket (n ?s)"
      using copy_d2h_cases [OF ok, of ?s env] new by fastforce
    have "room E n (insert ?s C) m'"
      by (rule room_used [OF room(1,4) _ \<open>?s \<notin> C\<close> m'(5,4)]) (use evicted COPY_D2H in simp)
    then show ?thesis using m' COPY_D2H room(2,3) new
      by (simp add: run_post_def copied_once_def sized_def)
  qed
next
  case RELEASE_DEVICE
  note rel = release_device_ok [OF ok, of "act_sid a"]
  have q: "places (release_device (act_sid a) m) = (places m)(act_sid a := q)"
    unfolding rel(1) using act RELEASE_DEVICE
    by (cases "(act_kind a, places m (act_sid a))" rule: place_act.cases) (auto split: option.split)
  show ?thesis using RELEASE_DEVICE q rel(2,3) room act
    by (cases "(act_kind a, places m (act_sid a))" rule: place_act.cases)
      (auto simp: run_post_def room_def copied_once_def sized_def)
next
  case RELEASE_HOST
  obtain m' where rel: "release_host (act_sid a) m = Inr m'" "mgr_ok m'" "account m' = account m"
    "places m' = (places m)(act_sid a := case places m (act_sid a) of
      Some (Some w, d) \<Rightarrow> if d = None then None else Some (None, d) | x \<Rightarrow> x)"
    using release_host_ok [OF ok, of "act_sid a"] by blast
  have q: "places m' = (places m)(act_sid a := q)"
    unfolding rel(4) using act RELEASE_HOST
    by (cases "(act_kind a, places m (act_sid a))" rule: place_act.cases) auto
  show ?thesis using RELEASE_HOST q rel(1-3) room act
    by (cases "(act_kind a, places m (act_sid a))" rule: place_act.cases)
      (auto simp: run_post_def room_def copied_once_def sized_def)
qed (use kind in simp)

lemma posts_run:
  assumes "mgr_ok m" "\<forall>a \<in> set acts. act_kind a \<noteq> COPY_H2D \<and> (act_kind a = COPY_D2H \<longrightarrow> act_sid a \<in> E)"
    "\<forall>s. place_acts (kinds s acts) (places m s) = Some (r s)"
    "room E n C m" "copied_once C m" "sized (env_numel env) n m" "finite E"
  shows "\<exists>m'. rfold (run_post env) acts m = Inr m' \<and> places m' = r \<and> mgr_ok m' \<and> snd (account m') = snd (account m) \<and>
    room E n (C \<union> {s. COPY_D2H \<in> set (kinds s acts)}) m'"
  using assms
proof (induction acts arbitrary: m C)
  case Nil
  then show ?case by (auto simp: fun_eq_iff)
next
  case (Cons a acts)
  let ?s = "act_sid a" and ?C = "if act_kind a = COPY_D2H then insert (act_sid a) C else C"
  obtain q where q: "place_act (act_kind a) (places m ?s) = Some q"
    "\<forall>s. place_acts (kinds s acts) (((places m)(?s := q)) s) = Some (r s)"
    using place_acts_step [OF Cons.prems(3)] by blast
  obtain m1 where m1: "run_post env a m = Inr m1" "places m1 = (places m)(?s := q)" "mgr_ok m1"
    "snd (account m1) = snd (account m)" "room E n ?C m1" "copied_once ?C m1" "sized (env_numel env) n m1"
    using post_step [OF Cons.prems(1) q(1) _ Cons.prems(4-7)] Cons.prems(2) by auto
  have rest: "\<forall>a \<in> set acts. act_kind a \<noteq> COPY_H2D \<and> (act_kind a = COPY_D2H \<longrightarrow> act_sid a \<in> E)"
    using Cons.prems(2) by simp
  have r: "\<forall>s. place_acts (kinds s acts) (places m1 s) = Some (r s)" using q(2) m1(2) by simp
  have C: "C \<union> {s. COPY_D2H \<in> set (kinds s (a # acts))} = ?C \<union> {s. COPY_D2H \<in> set (kinds s acts)}"
    by auto
  from Cons.IH [OF m1(3) rest r m1(5-7) Cons.prems(7)] show ?case
    unfolding C using m1(1,4) by simp
qed

end
