(* ===== verification/OffloadBody.thy ===== *)
theory OffloadBody
  imports OffloadActions
begin

text \<open>
  What one operator does to the contents of the storages, and what the warmup records of it.
\<close>

section \<open>The operator\<close>

definition on_device :: "(int \<Rightarrow> 'v) \<Rightarrow> int \<Rightarrow> 'v place \<Rightarrow> bool" where
  "on_device mem s p \<longleftrightarrow> (\<exists>h. p = Some (h, Some (mem s)))"

lemma resolve_inputs_ok:
  assumes "mgr_ok m" "\<forall>s \<in> set sids. on_device mem s (places m s)"
  shows "\<exists>m'. resolve_inputs sids m = Inr (map mem sids, m') \<and> places m' = places m \<and> mgr_ok m' \<and> account m' = account m"
  using assms
proof (induction sids arbitrary: m)
  case (Cons s sids)
  obtain h where h: "places m s = Some (h, Some (mem s))" using Cons.prems(2) by (auto simp: on_device_def)
  obtain m1 where m1: "device_storage s m = Inr (mem s, m1)" "places m1 = (places m)(s \<mapsto> (h, Some (mem s)))"
    "mgr_ok m1" "account m1 = account m"
    using device_storage_ok [OF h _ Cons.prems(1)] by auto
  have same: "places m1 = places m" using m1(2) h by (auto simp: fun_eq_iff)
  have "\<forall>s \<in> set sids. on_device mem s (places m1 s)" using Cons.prems(2) same by simp
  from Cons.IH [OF m1(3) this] show ?case using m1(1,4) same by auto
qed simp

definition write_place :: "(int \<Rightarrow> 'v) \<Rightarrow> int set \<Rightarrow> (int \<Rightarrow> 'v place) \<Rightarrow> int \<Rightarrow> 'v place" where
  "write_place f S p = (\<lambda>s. if s \<in> S then Some (Option.bind (p s) fst, Some (f s)) else p s)"

lemma writes_ok:
  assumes "mgr_ok m" "\<forall>s \<in> set sids. places m s \<noteq> None"
  shows "places (fold (\<lambda>s. write_in_place s (f s)) sids m) = write_place f (set sids) (places m) \<and>
    mgr_ok (fold (\<lambda>s. write_in_place s (f s)) sids m) \<and> account (fold (\<lambda>s. write_in_place s (f s)) sids m) = account m"
  using assms
proof (induction sids arbitrary: m)
  case (Cons s sids)
  obtain h d where hd: "places m s = Some (h, d)" using Cons.prems(2) by fastforce
  note w = write_in_place_ok [OF hd Cons.prems(1), of "f s"]
  have "\<forall>s' \<in> set sids. places (write_in_place s (f s) m) s' \<noteq> None" using Cons.prems(2) w(1) by simp
  note ih = Cons.IH [OF w(2) this]
  have "write_place f (set sids) (places (write_in_place s (f s) m)) = write_place f (set (s # sids)) (places m)"
    unfolding w(1) using hd by (auto simp: write_place_def fun_eq_iff)
  then show ?case using ih w(3) by simp
qed (simp add: write_place_def fun_eq_iff)

lemma run_func_ok:
  assumes ok: "mgr_ok m" and dev: "\<forall>s \<in> set (input_sids call). on_device mem s (places m s)"
    and mut: "set (call_mutates call) \<subseteq> set (input_sids call)"
  shows "\<exists>m'. run_func call m = Inr (map mem (input_sids call), m') \<and>
    places m' = write_place (call_write call (map mem (input_sids call))) (set (call_mutates call)) (places m) \<and>
    mgr_ok m' \<and> account m' = account m"
proof -
  obtain m1 where m1: "resolve_inputs (input_sids call) m = Inr (map mem (input_sids call), m1)" "places m1 = places m"
    "mgr_ok m1" "account m1 = account m"
    using resolve_inputs_ok [OF ok dev] by blast
  have "\<forall>s \<in> set (call_mutates call). places m1 s \<noteq> None"
    using mut dev m1(2) by (fastforce simp: on_device_def)
  from writes_ok [OF m1(3) this, of "call_write call (map mem (input_sids call))"]
  show ?thesis using m1 by (simp add: run_func_def)
qed

lemma bindings_from:
  "map snd (concat (map (\<lambda>(i, leaf). case leaf of None \<Rightarrow> [] | Some sid \<Rightarrow> [(i, sid)]) (enumerate n leaves))) =
    List.map_filter id leaves"
  by (induction leaves arbitrary: n) (auto simp: map_filter_simps split: option.split)

lemma binding_sids: "snd ` set (record_bindings leaves) = set (List.map_filter id leaves)"
  unfolding record_bindings_def using bindings_from [of 0 leaves] by (metis set_map)

lemma binding_index: "(i, s) \<in> set (record_bindings leaves) \<Longrightarrow> i < length leaves"
  by (auto simp: record_bindings_def in_set_enumerate_eq split: option.splits)

lemma shadows_fold:
  assumes "mgr_ok m" "\<forall>s \<in> snd ` set bs \<inter> set (input_sids call). \<exists>h v. places m s = Some (h, Some v)"
  shows "places (fold (\<lambda>(i, sid) m. bind_storage dev sid (leaf_value call vs sid m) m) bs m) =
      write_place (call_write call vs) (snd ` set bs - set (input_sids call)) (places m) \<and>
    mgr_ok (fold (\<lambda>(i, sid) m. bind_storage dev sid (leaf_value call vs sid m) m) bs m) \<and>
    account (fold (\<lambda>(i, sid) m. bind_storage dev sid (leaf_value call vs sid m) m) bs m) = account m"
  using assms
proof (induction bs arbitrary: m)
  case Nil
  then show ?case by (simp add: write_place_def fun_eq_iff)
next
  case (Cons b bs)
  obtain i s where b: "b = (i, s)" by (cases b)
  let ?m = "bind_storage dev s (leaf_value call vs s m) m"
  note bind = bind_storage_ok [OF Cons.prems(1), of dev s "leaf_value call vs s m"]
  have one: "places ?m = write_place (call_write call vs) ({s} - set (input_sids call)) (places m)"
  proof (cases "s \<in> set (input_sids call)")
    case True
    then obtain h v where hv: "places m s = Some (h, Some v)" using Cons.prems(2) b by auto
    then have "leaf_value call vs s m = v" using True
      by (auto simp: leaf_value_def places_Some)
    then show ?thesis unfolding bind(1) using hv True by (auto simp: write_place_def fun_eq_iff)
  next
    case False
    then show ?thesis unfolding bind(1) by (auto simp: write_place_def fun_eq_iff leaf_value_def)
  qed
  have "\<forall>s' \<in> snd ` set bs \<inter> set (input_sids call). \<exists>h v. places ?m s' = Some (h, Some v)"
    unfolding one using Cons.prems(2) b by (auto simp: write_place_def)
  note ih = Cons.IH [OF bind(2) this]
  have "write_place (call_write call vs) (snd ` set bs - set (input_sids call)) (places ?m) =
      write_place (call_write call vs) (snd ` set (b # bs) - set (input_sids call)) (places m)"
    unfolding one b by (auto simp: write_place_def fun_eq_iff)
  then show ?case using ih bind(3) b by simp
qed

lemma apply_shadows_ok:
  assumes "mgr_ok m" "\<forall>s \<in> set (output_sids call) \<inter> set (input_sids call). \<exists>h v. places m s = Some (h, Some v)"
  shows "places (apply_shadows env call vs (record_bindings (call_leaves call)) m) =
      write_place (call_write call vs) (set (output_sids call) - set (input_sids call)) (places m)"
    "mgr_ok (apply_shadows env call vs (record_bindings (call_leaves call)) m)"
    "account (apply_shadows env call vs (record_bindings (call_leaves call)) m) = account m"
proof -
  have all: "filter (\<lambda>(i, sid). i < length (call_leaves call)) (record_bindings (call_leaves call)) =
      record_bindings (call_leaves call)"
    by (rule filter_True) (use binding_index in auto)
  have "snd ` set (record_bindings (call_leaves call)) = set (output_sids call)"
    unfolding binding_sids output_sids_def ..
  then show "places (apply_shadows env call vs (record_bindings (call_leaves call)) m) =
      write_place (call_write call vs) (set (output_sids call) - set (input_sids call)) (places m)"
    "mgr_ok (apply_shadows env call vs (record_bindings (call_leaves call)) m)"
    "account (apply_shadows env call vs (record_bindings (call_leaves call)) m) = account m"
    using shadows_fold [of m "record_bindings (call_leaves call)" call "env_device env" vs] assms
    unfolding apply_shadows_def all by auto
qed

text \<open>The operator and the new shadows together.\<close>

definition touches :: "'v op_call \<Rightarrow> int \<Rightarrow> bool" where
  "touches call s \<longleftrightarrow> s \<in> set (input_sids call) \<or> s \<in> set (output_sids call)"

lemma body_ok:
  assumes ok: "mgr_ok m" and dev: "\<forall>s \<in> set (input_sids call). on_device mem s (places m s)"
    and mut: "set (call_mutates call) \<subseteq> set (input_sids call)" and plain: "plain_op call mem = (vs, mem')"
  shows "\<exists>m1. run_func call m = Inr (vs, m1) \<and>
    (let m2 = apply_shadows env call vs (record_bindings (call_leaves call)) m1 in
       mgr_ok m2 \<and> account m2 = account m \<and>
       places m2 = (\<lambda>s. if touches call s then Some (Option.bind (places m s) fst, Some (mem' s)) else places m s))"
proof -
  have vs: "vs = map mem (input_sids call)" and mem': "mem' = (\<lambda>s. if writes call s then call_write call vs s else mem s)"
    using plain by (auto simp: plain_op_def Let_def)
  obtain m1 where m1: "run_func call m = Inr (vs, m1)" "mgr_ok m1" "account m1 = account m"
    "places m1 = write_place (call_write call vs) (set (call_mutates call)) (places m)"
    using run_func_ok [OF ok dev mut] vs by blast
  have "\<forall>s \<in> set (output_sids call) \<inter> set (input_sids call). \<exists>h v. places m1 s = Some (h, Some v)"
    unfolding m1(4) using dev by (fastforce simp: write_place_def on_device_def)
  note sh = apply_shadows_ok [OF m1(2) this, of env vs]
  have "places (apply_shadows env call vs (record_bindings (call_leaves call)) m1) =
      (\<lambda>s. if touches call s then Some (Option.bind (places m s) fst, Some (mem' s)) else places m s)"
  proof
    fix s
    have "places m s = Some (Option.bind (places m s) fst, Some (mem s))" if "s \<in> set (input_sids call)"
      using dev that by (fastforce simp: on_device_def)
    then show "places (apply_shadows env call vs (record_bindings (call_leaves call)) m1) s =
      (if touches call s then Some (Option.bind (places m s) fst, Some (mem' s)) else places m s)"
      unfolding sh(1) m1(4) mem' using mut by (auto simp: write_place_def touches_def writes_def)
  qed
  then show ?thesis using m1 sh(2,3) by (auto simp: Let_def)
qed

section \<open>The record of an operator\<close>

definition recorded :: "nat \<Rightarrow> (int \<times> access_kind) list \<Rightarrow> storage_access list" where
  "recorded k seen = map (\<lambda>(sid, kind). \<lparr>acc_op = k, acc_sid = sid, acc_kind = kind\<rparr>) seen"

lemma record_fold:
  assumes "snd st = recorded k (fst st)"
  shows "snd (record_access k sid kind st) = recorded k (fst (record_access k sid kind st)) \<and>
    set (fst (record_access k sid kind st)) = insert (sid, kind) (set (fst st))"
  using assms by (cases st) (auto simp: record_access_def recorded_def)

lemma record_inputs_fold:
  assumes "snd st = recorded k (fst st)"
  shows "snd (fold (record_input k ids) ts st) = recorded k (fst (fold (record_input k ids) ts st)) \<and>
    set (fst (fold (record_input k ids) ts st)) = set (fst st) \<union>
      {(sid, kind). \<exists>i. (i, Some sid) \<in> set ts \<and> kind = (if i \<in> set ids then WRITE else READ)}"
  using assms
proof (induction ts arbitrary: st)
  case (Cons t ts)
  obtain i o' where t: "t = (i, o')" by (cases t)
  show ?case
  proof (cases o')
    case None
    then show ?thesis using Cons t by (auto simp: record_input_def)
  next
    case (Some sid)
    then have step: "record_input k ids t st = record_access k sid (if i \<in> set ids then WRITE else READ) st"
      using t by (simp add: record_input_def)
    note one = record_fold [OF Cons.prems, of sid "if i \<in> set ids then WRITE else READ"]
    have "snd (record_input k ids t st) = recorded k (fst (record_input k ids t st))" unfolding step using one by blast
    from Cons.IH [OF this] show ?thesis unfolding t Some using one step t Some by auto
  qed
qed simp

lemma record_leaves_fold:
  assumes "snd st = recorded k (fst st)"
  shows "snd (fold (record_leaf k) ls st) = recorded k (fst (fold (record_leaf k) ls st)) \<and>
    set (fst (fold (record_leaf k) ls st)) = set (fst st) \<union> {(sid, kind). Some sid \<in> set ls \<and> kind = WRITE}"
  using assms
proof (induction ls arbitrary: st)
  case (Cons l ls)
  show ?case
  proof (cases l)
    case None
    then show ?thesis using Cons by (auto simp: record_leaf_def)
  next
    case (Some sid)
    then have step: "record_leaf k l st = record_access k sid WRITE st" by (simp add: record_leaf_def)
    note one = record_fold [OF Cons.prems, of sid WRITE]
    have "snd (record_leaf k l st) = recorded k (fst (record_leaf k l st))" unfolding step using one by blast
    from Cons.IH [OF this] show ?thesis using one step Some by auto
  qed
qed simp

text \<open>The warmup believes that these storages are written.\<close>

definition noted_writes :: "'v op_call \<Rightarrow> int set" where
  "noted_writes call = set (output_sids call) \<union>
     set (List.map_filter snd (filter (\<lambda>t. fst t \<in> set (mutated_tensor_ids call)) (call_inputs call)))"

lemma noted_writes_mem: "s \<in> noted_writes call \<longleftrightarrow> s \<in> set (output_sids call) \<or>
    (\<exists>i. (i, Some s) \<in> set (call_inputs call) \<and> i \<in> set (mutated_tensor_ids call))"
  by (force simp: noted_writes_def map_filter_def)

lemma input_sids_mem: "s \<in> set (input_sids call) \<longleftrightarrow> (\<exists>i. (i, Some s) \<in> set (call_inputs call))"
  by (force simp: input_sids_def map_filter_def)

lemma output_sids_mem: "s \<in> set (output_sids call) \<longleftrightarrow> Some s \<in> set (call_leaves call)"
  by (force simp: output_sids_def map_filter_def)

lemma record_op_accesses:
  "\<lparr>acc_op = j, acc_sid = s, acc_kind = kind\<rparr> \<in> set (op_accesses (record_op k call)) \<longleftrightarrow>
    j = k \<and> (kind = WRITE \<and> s \<in> noted_writes call \<or>
      kind = READ \<and> (\<exists>i. (i, Some s) \<in> set (call_inputs call) \<and> i \<notin> set (mutated_tensor_ids call)))"
proof -
  let ?st = "fold (record_input k (mutated_tensor_ids call)) (call_inputs call) ([], [])"
  note inp = record_inputs_fold [of "([], [])" k "mutated_tensor_ids call" "call_inputs call"]
  have "snd ?st = recorded k (fst ?st)" using inp by (simp add: recorded_def)
  note out = record_leaves_fold [OF this, of "call_leaves call"]
  have "op_accesses (record_op k call) = recorded k (fst (fold (record_leaf k) (call_leaves call) ?st))"
    using out by (simp add: record_op_def)
  then have "\<lparr>acc_op = j, acc_sid = s, acc_kind = kind\<rparr> \<in> set (op_accesses (record_op k call)) \<longleftrightarrow>
      j = k \<and> (s, kind) \<in> set (fst (fold (record_leaf k) (call_leaves call) ?st))"
    by (auto simp: recorded_def)
  then show ?thesis using inp out
    by (cases kind) (auto simp: recorded_def noted_writes_mem output_sids_mem)
qed

lemma access_op: "a \<in> set (op_accesses (record_op k call)) \<Longrightarrow> acc_op a = k"
  by (cases a) (simp add: record_op_accesses)

lemma access_touches:
  "(\<exists>kind. \<lparr>acc_op = k, acc_sid = s, acc_kind = kind\<rparr> \<in> set (op_accesses (record_op k call))) \<longleftrightarrow> touches call s"
proof -
  have "(\<exists>kind. kind = WRITE \<and> s \<in> noted_writes call \<or>
      kind = READ \<and> (\<exists>i. (i, Some s) \<in> set (call_inputs call) \<and> i \<notin> set (mutated_tensor_ids call))) \<longleftrightarrow> touches call s"
    by (auto simp: noted_writes_mem touches_def input_sids_mem)
  then show ?thesis by (simp add: record_op_accesses)
qed

lemma recorded_ops:
  "trace_ops (record_step calls sizes retained limit) = map (\<lambda>k. record_op k (calls ! k)) [0..<length calls]"
  by (rule nth_equalityI) (auto simp: record_step_def nth_enumerate_eq)

lemma record_step_wf: "trace_wf (record_step calls sizes retained limit)"
  by (auto simp: trace_wf_def recorded_ops dest: access_op)

lemma all_accesses_step:
  "a \<in> set (all_accesses (record_step calls sizes retained limit)) \<longleftrightarrow>
    acc_op a < length calls \<and> a \<in> set (op_accesses (record_op (acc_op a) (calls ! acc_op a)))"
proof -
  have "a \<in> set (all_accesses (record_step calls sizes retained limit)) \<longleftrightarrow>
      (\<exists>k < length calls. a \<in> set (op_accesses (record_op k (calls ! k))))"
    by (auto simp: all_accesses_def recorded_ops)
  then show ?thesis using access_op [of a] by blast
qed

definition touched :: "'v op_call list \<Rightarrow> int \<Rightarrow> nat \<Rightarrow> bool" where
  "touched calls s k \<longleftrightarrow> k < length calls \<and> touches (calls ! k) s"

lemma access_ops:
  "(\<exists>a \<in> set (accesses_of (record_step calls sizes retained limit) s). acc_op a = k) \<longleftrightarrow> touched calls s k"
proof -
  have "(\<exists>a \<in> set (accesses_of (record_step calls sizes retained limit) s). acc_op a = k) \<longleftrightarrow>
      k < length calls \<and> (\<exists>a. a \<in> set (op_accesses (record_op k (calls ! k))) \<and> acc_op a = k \<and> acc_sid a = s)"
    by (auto simp: accesses_of_def all_accesses_step)
  also have "\<dots> \<longleftrightarrow> k < length calls \<and>
      (\<exists>kind. \<lparr>acc_op = k, acc_sid = s, acc_kind = kind\<rparr> \<in> set (op_accesses (record_op k (calls ! k))))"
  proof -
    have "a = \<lparr>acc_op = acc_op a, acc_sid = acc_sid a, acc_kind = acc_kind a\<rparr>" for a :: storage_access by simp
    then show ?thesis by (metis storage_access.select_convs(1,2))
  qed
  finally show ?thesis by (simp add: touched_def access_touches)
qed

lemma access_write:
  assumes "k < length calls" "s \<in> noted_writes (calls ! k)"
  shows "\<exists>a \<in> set (accesses_of (record_step calls sizes retained limit) s). acc_op a = k \<and> acc_kind a = WRITE"
  using assms
  by (intro bexI [of _ "\<lparr>acc_op = k, acc_sid = s, acc_kind = WRITE\<rparr>"])
    (auto simp: accesses_of_def all_accesses_step record_op_accesses)

section \<open>What the theorems assume of a step\<close>

text \<open>
  A recorded step: an input is tracked because an earlier operator of the step made it; a storage of a
  result is an input's or new; the warmup noted every write in place.
\<close>

definition calls_ok :: "'v op_call list \<Rightarrow> bool" where
  "calls_ok calls \<longleftrightarrow> (\<forall>k < length calls.
     (\<forall>s \<in> set (input_sids (calls ! k)). \<exists>j < k. s \<in> set (output_sids (calls ! j))) \<and>
     (\<forall>s \<in> set (output_sids (calls ! k)). s \<in> set (input_sids (calls ! k)) \<or> (\<forall>j < k. \<not> touches (calls ! j) s)) \<and>
     set (call_mutates (calls ! k)) \<subseteq> set (input_sids (calls ! k)) \<inter> noted_writes (calls ! k))"

lemma calls_ok_at:
  assumes "calls_ok calls" "k < length calls"
  shows "\<And>s. s \<in> set (input_sids (calls ! k)) \<Longrightarrow> \<exists>j < k. s \<in> set (output_sids (calls ! j))"
    "\<And>s. s \<in> set (output_sids (calls ! k)) \<Longrightarrow> s \<notin> set (input_sids (calls ! k)) \<Longrightarrow> \<forall>j < k. \<not> touches (calls ! j) s"
    "set (call_mutates (calls ! k)) \<subseteq> set (input_sids (calls ! k))"
    "set (call_mutates (calls ! k)) \<subseteq> noted_writes (calls ! k)"
  using assms unfolding calls_ok_def by blast+

text \<open>What a run starts from.\<close>

definition fresh_manager :: "'v manager \<Rightarrow> bool" where
  "fresh_manager m \<longleftrightarrow> pool_ok (host_pool m) \<and> residency m = []"

section \<open>Small operators for the examples\<close>

text \<open>Values are a number of bytes and a content.\<close>

definition make_op :: "int \<Rightarrow> int \<Rightarrow> (int \<times> int) op_call" where
  "make_op s n = \<lparr>call_name = ''mm'', call_args = [], call_kwargs = [], call_schema = [],
     call_leaves = [Some s], call_mutates = [], call_write = (\<lambda>vs _. (n, s))\<rparr>"

definition read_op :: "int \<Rightarrow> (int \<times> int) op_call" where
  "read_op s = \<lparr>call_name = ''sum'', call_args = [[(nat s, Some s)]], call_kwargs = [],
     call_schema = [False], call_leaves = [None], call_mutates = [], call_write = (\<lambda>vs s. (0, s))\<rparr>"

definition add_op :: "int \<Rightarrow> int \<Rightarrow> (int \<times> int) op_call" where
  "add_op s n = \<lparr>call_name = ''add_'', call_args = [[(nat s, Some s)]], call_kwargs = [],
     call_schema = [True], call_leaves = [Some s], call_mutates = [s], call_write = (\<lambda>vs _. (n, snd (hd vs) + 1))\<rparr>"

definition demo_env :: "(int \<times> int) env" where
  "demo_env = \<lparr>env_numel = fst, env_device = 0, env_query = (\<lambda>_ _. True), env_query' = (\<lambda>_ _. True)\<rparr>"

definition demo_manager :: "(int \<times> int) manager" where
  "demo_manager = \<lparr>host_pool = make_pool 4096, residency = [], stream_device = 0, next_event = 0, clock = 0\<rparr>"

lemma op_writes [simp]:
  "writes (make_op s n) t \<longleftrightarrow> t = s" "writes (read_op s) t \<longleftrightarrow> False" "writes (add_op s n) t \<longleftrightarrow> t = s"
  "touches (make_op s n) t \<longleftrightarrow> t = s" "touches (read_op s) t \<longleftrightarrow> t = s" "touches (add_op s n) t \<longleftrightarrow> t = s"
  by (simp_all add: make_op_def read_op_def add_op_def writes_def touches_def
      output_sids_def input_sids_def call_inputs_def map_filter_def)

lemma demo_fresh: "fresh_manager demo_manager"
  by code_simp

end
