(* ===== verification/OffloadReplay.thy ===== *)
theory OffloadReplay
  imports OffloadBody
begin

text \<open>
  Planner and runtime together: replaying the plan of a recorded step computes what the step
  computes without offloading, raises nothing, and holds the bytes the planner simulated.
\<close>

abbreviation cs :: "eviction_candidate \<Rightarrow> nat" where "cs c \<equiv> acc_op (copy_start c)"
abbreviation rs :: "eviction_candidate \<Rightarrow> nat" where "rs c \<equiv> acc_op (release_start c)"
abbreviation ge :: "eviction_candidate \<Rightarrow> nat" where "ge c \<equiv> acc_op (gap_end c)"

section \<open>The last access\<close>

lemma ops_nth:
  assumes "touched calls s k"
  obtains l where "l < length (accesses_of (record_step calls sizes retained limit) s)"
    "acc_op (accesses_of (record_step calls sizes retained limit) s ! l) = k"
  using assms access_ops [of calls sizes retained limit s k] by (metis in_set_conv_nth)

lemma nth_touched:
  assumes "l < length (accesses_of (record_step calls sizes retained limit) s)"
  shows "touched calls s (acc_op (accesses_of (record_step calls sizes retained limit) s ! l))"
  using access_ops [of calls sizes retained limit s] assms nth_mem by blast

lemma ops_mono:
  assumes "i \<le> j" "j < length (accesses_of (record_step calls sizes retained limit) s)"
  shows "acc_op (accesses_of (record_step calls sizes retained limit) s ! i) \<le>
    acc_op (accesses_of (record_step calls sizes retained limit) s ! j)"
  using sorted_nth_mono [OF accesses_sorted [OF record_step_wf], of i j calls sizes retained limit s] assms by simp

lemma last_touched:
  assumes "touched calls s j"
  shows "accesses_of (record_step calls sizes retained limit) s \<noteq> []"
    "touched calls s (acc_op (last (accesses_of (record_step calls sizes retained limit) s)))"
    "j \<le> acc_op (last (accesses_of (record_step calls sizes retained limit) s))"
    "acc_op (hd (accesses_of (record_step calls sizes retained limit) s)) \<le> j"
    "touched calls s (acc_op (hd (accesses_of (record_step calls sizes retained limit) s)))"
proof -
  let ?A = "accesses_of (record_step calls sizes retained limit) s"
  obtain l where l: "l < length ?A" "acc_op (?A ! l) = j" using ops_nth [OF assms] .
  then show ne: "?A \<noteq> []" by auto
  show "touched calls s (acc_op (last ?A))" "touched calls s (acc_op (hd ?A))"
    using nth_touched [of "length ?A - 1" calls sizes retained limit s] nth_touched [of 0 calls sizes retained limit s] ne
    by (auto simp: last_conv_nth hd_conv_nth)
  show "j \<le> acc_op (last ?A)"
    using ops_mono [of l "length ?A - 1" calls sizes retained limit s] l ne by (simp add: last_conv_nth)
  show "acc_op (hd ?A) \<le> j"
    using ops_mono [of 0 l calls sizes retained limit s] l ne by (simp add: hd_conv_nth)
qed

lemma untouched: "accesses_of (record_step calls sizes retained limit) s \<noteq> [] \<longleftrightarrow> (\<exists>j. touched calls s j)"
  using last_touched(1) [of calls s _ sizes retained limit] nth_touched [of 0 calls sizes retained limit s] by blast

section \<open>What the runtime needs of a plan\<close>

definition plan_safe :: "'v op_call list \<Rightarrow> eviction_candidate list \<Rightarrow> bool" where
  "plan_safe calls sel \<longleftrightarrow> (\<forall>c \<in> set sel.
     touched calls (cand_sid c) (cs c) \<and> touched calls (cand_sid c) (rs c) \<and> touched calls (cand_sid c) (ge c) \<and>
     cs c \<le> rs c \<and> rs c < ge c \<and> (\<forall>k. rs c < k \<longrightarrow> k < ge c \<longrightarrow> \<not> touched calls (cand_sid c) k) \<and>
     (\<forall>d \<in> set sel. cand_sid d = cand_sid c \<longrightarrow>
        (\<forall>k < length calls. cs c < k \<longrightarrow> k \<le> rs d \<longrightarrow> cand_sid c \<notin> set (call_mutates (calls ! k)))))"

text \<open>
  Two evictions of one storage share its host buffer, which is only filled once.  A write in place between them
  makes it stale.
\<close>

definition late_write :: "'v op_call list \<Rightarrow> eviction_candidate list \<Rightarrow> bool" where
  "late_write calls sel \<longleftrightarrow> (\<exists>c \<in> set sel. \<exists>d \<in> set sel. c \<noteq> d \<and> cand_sid d = cand_sid c \<and>
     (\<exists>k < length calls. cs c < k \<and> k \<le> rs d \<and> cand_sid c \<in> set (call_mutates (calls ! k))))"

lemma candidate_safe:
  fixes calls sizes retained limit
  defines "trace \<equiv> record_step calls sizes retained limit"
  assumes "is_candidate trace c"
  shows "touched calls (cand_sid c) (cs c)" "touched calls (cand_sid c) (rs c)" "touched calls (cand_sid c) (ge c)"
    "cs c \<le> rs c" "rs c < ge c" "\<And>k. rs c < k \<Longrightarrow> k < ge c \<Longrightarrow> \<not> touched calls (cand_sid c) k"
    "\<And>k. k < length calls \<Longrightarrow> cs c < k \<Longrightarrow> k \<le> rs c \<Longrightarrow> cand_sid c \<notin> noted_writes (calls ! k)"
proof -
  obtain s n i where c: "Suc i < length (accesses_of trace s)" "c = candidate_at trace s n i"
    using assms(2) by (auto simp: is_candidate_def)
  let ?A = "accesses_of trace s"
  have wf: "trace_wf trace" unfolding trace_def by (rule record_step_wf)
  obtain j where j: "j \<le> i" "copy_start c = ?A ! j" "\<forall>l. j < l \<longrightarrow> l \<le> i \<longrightarrow> acc_kind (?A ! l) \<noteq> WRITE"
    using copy_start_at [of i ?A] c(2) by (auto simp: candidate_at_def)
  have sid: "cand_sid c = s" "rs c = acc_op (?A ! i)" "ge c = acc_op (?A ! Suc i)"
    using c(2) by (simp_all add: candidate_at_def)
  have mono: "acc_op (?A ! a) \<le> acc_op (?A ! b)" if "a \<le> b" "b < length ?A" for a b
    using ops_mono that unfolding trace_def .
  show "touched calls (cand_sid c) (cs c)" "touched calls (cand_sid c) (rs c)" "touched calls (cand_sid c) (ge c)"
    using nth_touched [of _ calls sizes retained limit s] j(1) c(1)
    unfolding sid(1) sid(2,3) j(2) trace_def by auto
  show "cs c \<le> rs c" "rs c < ge c"
    using candidate_facts(5,6) [OF assms(2) wf] by auto
  show "\<not> touched calls (cand_sid c) k" if k: "rs c < k" "k < ge c" for k
  proof
    assume "touched calls (cand_sid c) k"
    then obtain l where l: "l < length ?A" "acc_op (?A ! l) = k"
      using ops_nth [of calls s k] unfolding sid(1) trace_def by blast
    show False
    proof (cases "l \<le> i")
      case True
      then show False using mono [of l i] c(1) k(1) l sid by simp
    next
      case False
      then show False using mono [of "Suc i" l] k(2) l sid by simp
    qed
  qed
  show "cand_sid c \<notin> noted_writes (calls ! k)" if k: "k < length calls" "cs c < k" "k \<le> rs c" for k
  proof
    assume "cand_sid c \<in> noted_writes (calls ! k)"
    then obtain l where l: "l < length ?A" "acc_op (?A ! l) = k" "acc_kind (?A ! l) = WRITE"
      using access_write [OF k(1), of s sizes retained limit] unfolding sid(1) trace_def by (metis in_set_conv_nth)
    have "j < l"
    proof (rule ccontr)
      assume "\<not> j < l"
      then show False using mono [of l j] j(1,2) c(1) k(2) l(2) by simp
    qed
    moreover have "l \<le> i"
    proof (rule ccontr)
      assume "\<not> l \<le> i"
      then show False using mono [of "Suc i" l] l k(3) sid candidate_facts(6) [OF assms(2) wf] by simp
    qed
    ultimately show False using j(3) l(3) by blast
  qed
qed

lemma plan_is_safe:
  assumes "\<forall>c \<in> set sel. is_candidate (record_step calls sizes retained limit) c" "\<not> late_write calls sel" "calls_ok calls"
  shows "plan_safe calls sel"
  unfolding plan_safe_def
proof (intro ballI conjI impI allI)
  fix c assume c: "c \<in> set sel"
  note safe = candidate_safe [OF bspec [OF assms(1) c]]
  show "touched calls (cand_sid c) (cs c)" "touched calls (cand_sid c) (rs c)" "touched calls (cand_sid c) (ge c)"
    "cs c \<le> rs c" "rs c < ge c" using safe by blast+
  show "\<not> touched calls (cand_sid c) k" if "rs c < k" "k < ge c" for k using safe(6) that by blast
  show "cand_sid c \<notin> set (call_mutates (calls ! k))"
    if d: "d \<in> set sel" "cand_sid d = cand_sid c" "k < length calls" "cs c < k" "k \<le> rs d" for d k
  proof (cases "c = d")
    case True
    then have "cand_sid c \<notin> noted_writes (calls ! k)" using safe(7) d by blast
    then show ?thesis using assms(3) d(3) by (auto simp: calls_ok_def)
  next
    case False
    then show ?thesis using assms(2) c d unfolding late_write_def by blast
  qed
qed

section \<open>A storage between two operators\<close>

definition present :: "'v op_call list \<Rightarrow> int set \<Rightarrow> int \<Rightarrow> nat \<Rightarrow> bool" where
  "present calls retained s k \<longleftrightarrow> (\<exists>j < k. touched calls s j) \<and> (s \<in> retained \<or> (\<exists>j \<ge> k. touched calls s j))"

definition copied :: "eviction_candidate list \<Rightarrow> int \<Rightarrow> nat \<Rightarrow> bool" where
  "copied sel s k \<longleftrightarrow> (\<exists>c \<in> set sel. cand_sid c = s \<and> cs c < k)"

definition away :: "eviction_candidate list \<Rightarrow> int \<Rightarrow> nat \<Rightarrow> bool" where
  "away sel s k \<longleftrightarrow> (\<exists>c \<in> set sel. cand_sid c = s \<and> rs c < k \<and> k \<le> ge c)"

definition due :: "eviction_candidate list \<Rightarrow> int \<Rightarrow> nat \<Rightarrow> bool" where
  "due sel s k \<longleftrightarrow> (\<exists>c \<in> set sel. cand_sid c = s \<and> k \<le> ge c)"

text \<open>
  The place of a registered storage: off the device exactly when \<open>gone\<close>, with a copy on the host exactly when one
  was made, which is current as long as a reload of it is to come.
\<close>

definition place_ok :: "eviction_candidate list \<Rightarrow> (int \<Rightarrow> 'v) \<Rightarrow> nat \<Rightarrow> bool \<Rightarrow> int \<Rightarrow> 'v place \<Rightarrow> bool" where
  "place_ok sel mem k gone s p \<longleftrightarrow> (\<exists>h. p = Some (h, if gone then None else Some (mem s)) \<and>
     (h \<noteq> None \<longleftrightarrow> copied sel s k) \<and> (copied sel s k \<longrightarrow> due sel s k \<longrightarrow> h = Some (mem s)))"

definition before_op ::
  "'v op_call list \<Rightarrow> int set \<Rightarrow> eviction_candidate list \<Rightarrow> (int \<Rightarrow> 'v) \<Rightarrow> nat \<Rightarrow> int \<Rightarrow> 'v place \<Rightarrow> bool" where
  "before_op calls retained sel mem k s p \<longleftrightarrow>
     (if present calls retained s k then place_ok sel mem k (away sel s k) s p else p = None)"

definition in_op ::
  "'v op_call list \<Rightarrow> int set \<Rightarrow> eviction_candidate list \<Rightarrow> (int \<Rightarrow> 'v) \<Rightarrow> nat \<Rightarrow> int \<Rightarrow> 'v place \<Rightarrow> bool" where
  "in_op calls retained sel mem k s p \<longleftrightarrow>
     (if present calls retained s k then place_ok sel mem k (in_gap sel s k) s p else p = None)"

lemma safe_facts:
  assumes "plan_safe calls sel" "c \<in> set sel"
  shows "touched calls (cand_sid c) (cs c)" "touched calls (cand_sid c) (rs c)" "touched calls (cand_sid c) (ge c)"
    "cs c \<le> rs c" "rs c < ge c" "\<And>k. rs c < k \<Longrightarrow> k < ge c \<Longrightarrow> \<not> touched calls (cand_sid c) k"
    "\<And>d k. d \<in> set sel \<Longrightarrow> cand_sid d = cand_sid c \<Longrightarrow> k < length calls \<Longrightarrow> cs c < k \<Longrightarrow> k \<le> rs d \<Longrightarrow>
       cand_sid c \<notin> set (call_mutates (calls ! k))"
  using assms unfolding plan_safe_def by blast+

lemma touched_not_gone: "plan_safe calls sel \<Longrightarrow> touched calls s k \<Longrightarrow> \<not> in_gap sel s k"
  using safe_facts(6) unfolding in_gap_def by blast

lemma gone_copied: "plan_safe calls sel \<Longrightarrow> in_gap sel s k \<Longrightarrow> copied sel s k \<and> due sel s k"
  using safe_facts(4) unfolding in_gap_def copied_def due_def by (meson le_less_trans less_imp_le)

subsection \<open>Before the operator\<close>

lemma pres_kinds:
  "set (kinds s (concat (map (evict_pres k) sel))) = (if \<exists>c \<in> set sel. cand_sid c = s \<and> ge c = k then {COPY_H2D} else {})"
  by (induction sel) (auto simp: evict_pres_def action_def)

lemma place_loads:
  assumes "set as \<subseteq> {COPY_H2D}" "p = Some (Some w, d)" "as \<noteq> [] \<or> d \<noteq> None"
  shows "place_acts as p = Some (Some (Some w, if d = None then Some w else d))"
  using assms
proof (induction "as" arbitrary: p d)
  case (Cons a as)
  have "place_acts as (Some (Some w, Some (if d = None then w else the d))) =
      Some (Some (Some w, Some (if d = None then w else the d)))"
    using Cons.IH [of _ "Some (if d = None then w else the d)"] Cons.prems(1) by simp
  then show ?case using Cons.prems by (cases d) auto
qed auto

lemma before_op_pres:
  assumes safe: "plan_safe calls sel" and p: "before_op calls retained sel mem k s p"
  shows "\<exists>q. place_acts (kinds s (concat (map (evict_pres k) sel))) p = Some q \<and> in_op calls retained sel mem k s q"
proof (cases "\<exists>c \<in> set sel. cand_sid c = s \<and> ge c = k")
  case True
  then obtain c where c: "c \<in> set sel" "cand_sid c = s" "ge c = k" by blast
  note f = safe_facts [OF safe c(1), unfolded c(2,3)]
  have pres: "present calls retained s k" using f(2,3,5) by (auto simp: present_def)
  have facts: "copied sel s k" "due sel s k" "away sel s k" "\<not> in_gap sel s k"
    using c f(4,5) touched_not_gone [OF safe f(3)] by (auto simp: copied_def due_def away_def)
  then have "p = Some (Some (mem s), None)" using p pres by (auto simp: before_op_def place_ok_def)
  moreover have loads: "set (kinds s (concat (map (evict_pres k) sel))) = {COPY_H2D}"
    unfolding pres_kinds using True by (rule if_P)
  moreover have "kinds s (concat (map (evict_pres k) sel)) \<noteq> []"
    using loads by (metis empty_set insert_not_empty)
  ultimately have "place_acts (kinds s (concat (map (evict_pres k) sel))) p = Some (Some (Some (mem s), Some (mem s)))"
    by (simp add: place_loads)
  then show ?thesis using pres facts by (auto simp: in_op_def place_ok_def)
next
  case False
  then have "set (kinds s (concat (map (evict_pres k) sel))) = {}" unfolding pres_kinds by (rule if_not_P)
  then have "kinds s (concat (map (evict_pres k) sel)) = []" unfolding set_empty .
  moreover have "away sel s k = in_gap sel s k" using False by (auto simp: away_def in_gap_def le_less)
  ultimately show ?thesis using p
    by (cases "present calls retained s k") (simp_all add: before_op_def in_op_def)
qed

subsection \<open>After the operator\<close>

lemma posts_one:
  assumes "cand_sid c = s" "d = None \<Longrightarrow> h \<noteq> None" "rs c = k \<Longrightarrow> cs c \<noteq> k \<Longrightarrow> h \<noteq> None"
  shows "place_acts (kinds s (evict_posts k c)) (Some (h, d)) =
    Some (Some (if h = None \<and> cs c = k then d else h, if rs c = k then None else d))"
proof -
  have "kinds s (evict_posts k c) = (if cs c = k then [COPY_D2H] else []) @ (if rs c = k then [RELEASE_DEVICE] else [])"
    using assms(1) by (simp add: evict_posts_def action_def)
  then show ?thesis using assms(2,3) by (cases h; cases d; cases "cs c = k"; cases "rs c = k") simp_all
qed

lemma posts_place:
  assumes "d = None \<Longrightarrow> h \<noteq> None" "\<forall>c \<in> set sel. cand_sid c = s \<longrightarrow> rs c = k \<longrightarrow> cs c \<noteq> k \<longrightarrow> h \<noteq> None"
  shows "place_acts (kinds s (concat (map (evict_posts k) sel))) (Some (h, d)) =
    Some (Some (if h = None \<and> (\<exists>c \<in> set sel. cand_sid c = s \<and> cs c = k) then d else h,
      if \<exists>c \<in> set sel. cand_sid c = s \<and> rs c = k then None else d))"
  using assms
proof (induction sel arbitrary: h d)
  case (Cons c sel)
  have rest: "\<forall>c \<in> set sel. cand_sid c = s \<longrightarrow> rs c = k \<longrightarrow> cs c \<noteq> k \<longrightarrow> h \<noteq> None" using Cons.prems(2) by simp
  show ?case
  proof (cases "cand_sid c = s \<and> (cs c = k \<or> rs c = k)")
    case False
    then have "kinds s (evict_posts k c) = []" by (auto simp: evict_posts_def action_def)
    then show ?thesis using Cons.IH [OF Cons.prems(1) rest] False by auto
  next
    case True
    let ?h = "if h = None \<and> cs c = k then d else h" and ?d = "if rs c = k then None else d"
    have one: "d = None \<Longrightarrow> h \<noteq> None" "rs c = k \<Longrightarrow> cs c \<noteq> k \<Longrightarrow> h \<noteq> None" using Cons.prems True by auto
    have h: "?h \<noteq> None" if "?d = None \<or> cs c = k"
      using that one by (cases "cs c = k"; cases "rs c = k"; cases "h = None") auto
    have "place_acts (kinds s (evict_posts k c)) (Some (h, d)) = Some (Some (?h, ?d))"
      by (rule posts_one) (use True one in auto)
    then have step: "place_acts (kinds s (concat (map (evict_posts k) (c # sel)))) (Some (h, d)) =
        place_acts (kinds s (concat (map (evict_posts k) sel))) (Some (?h, ?d))"
      by (simp add: place_acts_append)
    have "\<forall>c \<in> set sel. cand_sid c = s \<longrightarrow> rs c = k \<longrightarrow> cs c \<noteq> k \<longrightarrow> ?h \<noteq> None" using rest h by auto
    note ih = Cons.IH [of ?d ?h, OF _ this]
    define X where "X \<longleftrightarrow> (\<exists>c \<in> set sel. cand_sid c = s \<and> cs c = k)"
    define Y where "Y \<longleftrightarrow> (\<exists>c \<in> set sel. cand_sid c = s \<and> rs c = k)"
    have ex: "(\<exists>c \<in> set (c # sel). cand_sid c = s \<and> cs c = k) \<longleftrightarrow> cs c = k \<or> X"
      "(\<exists>c \<in> set (c # sel). cand_sid c = s \<and> rs c = k) \<longleftrightarrow> rs c = k \<or> Y"
      using True by (auto simp: X_def Y_def)
    have "place_acts (kinds s (concat (map (evict_posts k) sel))) (Some (?h, ?d)) =
        Some (Some (if ?h = None \<and> X then ?d else ?h, if Y then None else ?d))"
      using ih h unfolding X_def Y_def by blast
    moreover have "(if ?h = None \<and> X then ?d else ?h) = (if h = None \<and> (cs c = k \<or> X) then d else h)"
      using h Cons.prems True by (cases "h = None"; cases "cs c = k") auto
    moreover have "(if Y then None else ?d) = (if rs c = k \<or> Y then None else d)" by simp
    ultimately show ?thesis unfolding step ex by simp
  qed
qed simp

lemma posts_empty:
  assumes "\<forall>c \<in> set sel. cand_sid c = s \<longrightarrow> cs c \<noteq> k \<and> rs c \<noteq> k"
  shows "kinds s (concat (map (evict_posts k) sel)) = []"
  using assms by (induction sel) (auto simp: evict_posts_def action_def)

lemma final_kinds_one:
  "kinds s (final_posts ev retained k e) =
    (if fst e \<noteq> s \<or> s \<in> retained \<or> acc_op (snd e) \<noteq> k then []
     else RELEASE_DEVICE # (if s \<in> ev then [RELEASE_HOST] else []))"
  by (auto simp: final_posts_def action_def)

lemma final_kinds:
  assumes "distinct (map fst rel)"
  shows "kinds s (concat (map (final_posts ev retained k) rel)) =
    (case map_of rel s of None \<Rightarrow> [] | Some a \<Rightarrow>
       if s \<in> retained \<or> acc_op a \<noteq> k then [] else RELEASE_DEVICE # (if s \<in> ev then [RELEASE_HOST] else []))"
  using assms
proof (induction rel)
  case (Cons e rel)
  have none: "map_of rel s = None" if "fst e = s" using Cons.prems that by (auto simp: map_of_eq_None_iff)
  show ?case
  proof (cases "fst e = s")
    case True
    then have "kinds s (concat (map (final_posts ev retained k) rel)) = []" using Cons none by simp
    then show ?thesis using True by (cases e) (simp add: final_kinds_one)
  next
    case False
    then show ?thesis using Cons by (cases e) (simp add: final_kinds_one)
  qed
qed simp

text \<open>The releases of the last access, per storage.\<close>

definition last_releases :: "'v op_call list \<Rightarrow> int set \<Rightarrow> eviction_candidate list \<Rightarrow> int \<Rightarrow> nat \<Rightarrow> action_kind list" where
  "last_releases calls retained sel s k =
     (if s \<notin> retained \<and> touched calls s k \<and> (\<forall>j > k. \<not> touched calls s j) then
        RELEASE_DEVICE # (if s \<in> cand_sid ` set sel then [RELEASE_HOST] else [])
      else [])"

text \<open>What the operator leaves: a touched storage is on the device with its new contents.\<close>

definition after_body :: "'v op_call list \<Rightarrow> (int \<Rightarrow> 'v) \<Rightarrow> nat \<Rightarrow> int \<Rightarrow> 'v place \<Rightarrow> 'v place" where
  "after_body calls mem' k s p = (if touched calls s k then Some (Option.bind p fst, Some (mem' s)) else p)"

lemma never_before:
  assumes "plan_safe calls sel" "\<forall>j < k. \<not> touched calls s j"
  shows "\<not> copied sel s k" "\<not> in_gap sel s k"
proof -
  show "\<not> copied sel s k" using assms safe_facts(1) unfolding copied_def by blast
  then show "\<not> in_gap sel s k" using gone_copied [OF assms(1)] by blast
qed

text \<open>After the body the place holds the new contents, with the copy as it was.\<close>

lemma after_body_place:
  assumes safe: "plan_safe calls sel" and ok: "calls_ok calls" and k: "k < length calls"
    and p: "in_op calls retained sel mem k s p" and plain: "plain_op (calls ! k) mem = (vs, mem')"
    and live: "touched calls s k \<or> present calls retained s k"
  obtains h where "after_body calls mem' k s p = Some (h, if in_gap sel s k then None else Some (mem' s))"
    "h \<noteq> None \<longleftrightarrow> copied sel s k" "copied sel s k \<Longrightarrow> due sel s (Suc k) \<Longrightarrow> h = Some (mem' s)"
proof -
  have mem': "mem' s = (if writes (calls ! k) s then call_write (calls ! k) vs s else mem s)"
    using plain by (auto simp: plain_op_def Let_def)
  have same: "mem' s = mem s" if "\<not> touched calls s k"
  proof -
    have "\<not> touches (calls ! k) s" using that k by (simp add: touched_def)
    then have "\<not> writes (calls ! k) s" using calls_ok_at(3) [OF ok k] by (auto simp: writes_def touches_def)
    then show ?thesis using mem' by simp
  qed
  show ?thesis
  proof (cases "present calls retained s k")
    case True
    then obtain h where h: "p = Some (h, if in_gap sel s k then None else Some (mem s))"
      "h \<noteq> None \<longleftrightarrow> copied sel s k" "copied sel s k \<longrightarrow> due sel s k \<longrightarrow> h = Some (mem s)"
      using p by (auto simp: in_op_def place_ok_def)
    have "after_body calls mem' k s p = Some (h, if in_gap sel s k then None else Some (mem' s))"
      using h(1) same touched_not_gone [OF safe] by (auto simp: after_body_def)
    moreover have "h = Some (mem' s)" if cop: "copied sel s k" and later: "due sel s (Suc k)"
    proof -
      obtain c d where c: "c \<in> set sel" "cand_sid c = s" "cs c < k" and d: "d \<in> set sel" "cand_sid d = s" "Suc k \<le> ge d"
        using cop later by (auto simp: copied_def due_def)
      have "\<not> writes (calls ! k) s"
      proof
        assume w: "writes (calls ! k) s"
        have "s \<in> set (call_mutates (calls ! k))"
        proof (rule ccontr)
          assume "s \<notin> set (call_mutates (calls ! k))"
          then have "\<forall>j < k. \<not> touches (calls ! j) s"
            using w calls_ok_at(2) [OF ok k] unfolding writes_def by blast
          moreover have "touched calls s (cs c)" using safe_facts(1) [OF safe c(1)] c(2) by simp
          ultimately show False using c(3) by (auto simp: touched_def)
        qed
        moreover have "touched calls s k" using w k calls_ok_at(3) [OF ok k] by (auto simp: touched_def touches_def writes_def)
        then have "k \<le> rs d" using safe_facts(6) [OF safe d(1), of k] d(2,3) by force
        ultimately show False using safe_facts(7) [OF safe c(1) d(1) _ k c(3)] c(2) d(2) by simp
      qed
      then have "mem' s = mem s" using mem' by simp
      moreover have "due sel s k" using d by (auto simp: due_def)
      ultimately show ?thesis using h(3) cop by simp
    qed
    ultimately show ?thesis using that h(2) by blast
  next
    case False
    then have t: "touched calls s k" and "p = None" using live p by (auto simp: in_op_def)
    have "\<forall>j < k. \<not> touched calls s j" using False t by (auto simp: present_def)
    note never = never_before [OF safe this]
    have "after_body calls mem' k s p = Some (None, if in_gap sel s k then None else Some (mem' s))"
      using t \<open>p = None\<close> never by (simp add: after_body_def)
    then show ?thesis using that never by blast
  qed
qed

lemma in_op_posts:
  assumes safe: "plan_safe calls sel" and ok: "calls_ok calls" and k: "k < length calls"
    and p: "in_op calls retained sel mem k s p" and plain: "plain_op (calls ! k) mem = (vs, mem')"
  shows "\<exists>q. place_acts (kinds s (concat (map (evict_posts k) sel)) @ last_releases calls retained sel s k)
      (after_body calls mem' k s p) = Some q \<and> before_op calls retained sel mem' (Suc k) s q"
proof (cases "touched calls s k \<or> present calls retained s k")
  case False
  then have "\<forall>c \<in> set sel. cand_sid c = s \<longrightarrow> cs c \<noteq> k \<and> rs c \<noteq> k"
    using safe_facts(1,2) [OF safe] by blast
  then have "kinds s (concat (map (evict_posts k) sel)) = []" by (rule posts_empty)
  moreover have "last_releases calls retained sel s k = []" using False by (simp add: last_releases_def)
  moreover have "\<not> present calls retained s (Suc k)"
    using False by (auto simp: present_def less_Suc_eq Suc_le_eq intro: less_imp_le)
  ultimately show ?thesis using False p by (simp add: after_body_def before_op_def in_op_def)
next
  case True
  from after_body_place [OF safe ok k p plain True] obtain h where
    h: "after_body calls mem' k s p = Some (h, if in_gap sel s k then None else Some (mem' s))"
    "h \<noteq> None \<longleftrightarrow> copied sel s k" "copied sel s k \<Longrightarrow> due sel s (Suc k) \<Longrightarrow> h = Some (mem' s)" by blast
  let ?d = "if in_gap sel s k then None else Some (mem' s)"
  define X where "X \<longleftrightarrow> (\<exists>c \<in> set sel. cand_sid c = s \<and> cs c = k)"
  define Y where "Y \<longleftrightarrow> (\<exists>c \<in> set sel. cand_sid c = s \<and> rs c = k)"
  let ?h = "if h = None \<and> X then ?d else h" and ?e = "if Y then None else ?d"
  have X: "\<not> in_gap sel s k" if X
    using that safe_facts(1) [OF safe] touched_not_gone [OF safe] unfolding X_def by blast
  have posts: "place_acts (kinds s (concat (map (evict_posts k) sel))) (after_body calls mem' k s p) = Some (Some (?h, ?e))"
    unfolding h(1) X_def Y_def
  proof (rule posts_place)
    show "?d = None \<Longrightarrow> h \<noteq> None" using gone_copied [OF safe] h(2) by (auto split: if_splits)
    show "\<forall>c \<in> set sel. cand_sid c = s \<longrightarrow> rs c = k \<longrightarrow> cs c \<noteq> k \<longrightarrow> h \<noteq> None"
      using safe_facts(4) [OF safe] h(2) unfolding copied_def by (metis le_neq_implies_less)
  qed
  have copied': "copied sel s (Suc k) \<longleftrightarrow> copied sel s k \<or> X" by (auto simp: copied_def X_def less_Suc_eq)
  have host: "?h \<noteq> None \<longleftrightarrow> copied sel s (Suc k)" using h(2) X copied' by auto
  have current: "?h = Some (mem' s)" if "copied sel s (Suc k)" "due sel s (Suc k)"
    using that h(2,3) X copied' by auto
  have away': "away sel s (Suc k) \<longleftrightarrow> Y \<or> in_gap sel s k"
    using safe_facts(5) [OF safe] unfolding away_def Y_def in_gap_def by (force simp: less_Suc_eq Suc_le_eq)
  show ?thesis
  proof (cases "last_releases calls retained sel s k = []")
    case cont: True
    have "present calls retained s (Suc k)"
    proof -
      have "\<exists>j < Suc k. touched calls s j" using True by (auto simp: present_def intro: less_SucI)
      moreover have "s \<in> retained \<or> (\<exists>j \<ge> Suc k. touched calls s j)"
      proof (rule ccontr)
        assume no: "\<not> (s \<in> retained \<or> (\<exists>j \<ge> Suc k. touched calls s j))"
        then have "touched calls s k" using True unfolding present_def by (metis le_antisym not_less_eq_eq)
        then show False using no cont by (auto simp: last_releases_def Suc_le_eq split: if_splits)
      qed
      ultimately show ?thesis by (simp add: present_def)
    qed
    moreover have "?e = (if away sel s (Suc k) then None else Some (mem' s))" using away' by auto
    ultimately have "before_op calls retained sel mem' (Suc k) s (Some (?h, ?e))"
      using host current unfolding before_op_def place_ok_def by auto
    then show ?thesis using posts cont by simp
  next
    case False
    then have last: "s \<notin> retained" "touched calls s k" "\<forall>j > k. \<not> touched calls s j"
      and acts: "last_releases calls retained sel s k = RELEASE_DEVICE # (if s \<in> cand_sid ` set sel then [RELEASE_HOST] else [])"
      by (auto simp: last_releases_def split: if_splits)
    have past: "ge c \<le> k" if "c \<in> set sel" "cand_sid c = s" for c
      using safe_facts(3) [OF safe that(1)] that(2) last(3) by (meson linorder_not_le)
    have "\<not> Y" using past safe_facts(5) [OF safe] unfolding Y_def by fastforce
    moreover have "\<not> in_gap sel s k" using touched_not_gone [OF safe last(2)] .
    ultimately have e: "?e = Some (mem' s)" by simp
    have "s \<in> cand_sid ` set sel \<longleftrightarrow> copied sel s (Suc k)"
      using past safe_facts(4,5) [OF safe] unfolding copied_def by (fastforce simp: less_Suc_eq_le)
    then have "s \<in> cand_sid ` set sel \<longleftrightarrow> ?h \<noteq> None" using host by simp
    then have "place_acts (last_releases calls retained sel s k) (Some (?h, ?e)) = Some None"
      unfolding acts e by (cases ?h) auto
    moreover have "\<not> present calls retained s (Suc k)" using last by (auto simp: present_def Suc_le_eq)
    ultimately show ?thesis using posts by (simp add: place_acts_append before_op_def)
  qed
qed

section \<open>The bytes on the device\<close>

definition device_bytes :: "('v \<Rightarrow> int) \<Rightarrow> 'v place \<Rightarrow> int" where
  "device_bytes numel p = (case p of Some (h, Some v) \<Rightarrow> numel v | _ \<Rightarrow> 0)"

lemma bytes_fold:
  "fold (\<lambda>(sid, b) total. case device_buffer b of None \<Rightarrow> total | Some v \<Rightarrow> total + numel v) es t =
    t + sum_list (map (\<lambda>(sid, b). device_bytes numel (Some (place_of b))) es)"
  by (induction es arbitrary: t) (auto simp: device_bytes_def place_of_def split: option.split)

lemma resident_bytes_places:
  assumes ok: "mgr_ok m" and S: "finite S" "\<forall>s. s \<notin> S \<longrightarrow> device_bytes numel (places m s) = 0"
  shows "resident_bytes numel m = (\<Sum>s \<in> S. device_bytes numel (places m s))"
proof -
  let ?r = "residency m"
  have dist: "distinct (map fst ?r)" using ok by (simp add: mgr_ok_def)
  have "resident_bytes numel m = sum_list (map (\<lambda>(sid, b). device_bytes numel (Some (place_of b))) ?r)"
    by (simp add: resident_bytes_def bytes_fold)
  also have "map (\<lambda>(sid, b). device_bytes numel (Some (place_of b))) ?r =
      map (\<lambda>s. device_bytes numel (places m s)) (map fst ?r)"
    using dist by (auto simp: places_def)
  also have "sum_list \<dots> = (\<Sum>s \<in> set (map fst ?r). device_bytes numel (places m s))"
    by (rule sum_list_distinct_conv_sum_set [OF dist])
  also have "\<dots> = (\<Sum>s \<in> S. device_bytes numel (places m s))"
  proof (rule sum.mono_neutral_cong)
    show "device_bytes numel (places m s) = 0" if "s \<in> S - set (map fst ?r)" for s
    proof -
      have "map_of ?r s = None" using that by (simp add: map_of_eq_None_iff)
      then show ?thesis by (simp add: places_def device_bytes_def)
    qed
    show "device_bytes numel (places m s) = 0" if "s \<in> set (map fst ?r) - S" for s using S(2) that by simp
  qed (use S in auto)
  finally show ?thesis .
qed

text \<open>The storages on the device while operator \<open>k\<close> runs.\<close>

definition held :: "'v op_call list \<Rightarrow> int set \<Rightarrow> eviction_candidate list \<Rightarrow> int \<Rightarrow> nat \<Rightarrow> bool" where
  "held calls retained sel s k \<longleftrightarrow> (touched calls s k \<or> present calls retained s k) \<and> \<not> in_gap sel s k"

definition sized_upto :: "('v \<Rightarrow> int) \<Rightarrow> (int \<Rightarrow> int) \<Rightarrow> 'v op_call list \<Rightarrow> (int \<Rightarrow> 'v) \<Rightarrow> nat \<Rightarrow> bool" where
  "sized_upto numel n calls mem k \<longleftrightarrow> (\<forall>s. (\<exists>j < k. touched calls s j) \<longrightarrow> numel (mem s) = n s)"

definition writes_sized :: "('v \<Rightarrow> int) \<Rightarrow> (int \<Rightarrow> int) \<Rightarrow> 'v op_call list \<Rightarrow> bool" where
  "writes_sized numel n calls \<longleftrightarrow> (\<forall>call \<in> set calls. \<forall>s vs. writes call s \<longrightarrow> numel (call_write call vs s) = n s)"

lemma sized_step:
  assumes ok: "calls_ok calls" and k: "k < length calls" and plain: "plain_op (calls ! k) mem = (vs, mem')"
    and sized: "writes_sized numel n calls" "sized_upto numel n calls mem k"
  shows "sized_upto numel n calls mem' (Suc k)"
  unfolding sized_upto_def
proof (intro allI impI)
  fix s assume t: "\<exists>j < Suc k. touched calls s j"
  have mem': "mem' s = (if writes (calls ! k) s then call_write (calls ! k) vs s else mem s)"
    using plain by (auto simp: plain_op_def Let_def)
  show "numel (mem' s) = n s"
  proof (cases "writes (calls ! k) s")
    case True
    then show ?thesis using sized(1) k mem' by (auto simp: writes_sized_def)
  next
    case False
    have "\<exists>j < k. touched calls s j"
    proof (cases "touched calls s k")
      case True
      then have "s \<in> set (input_sids (calls ! k))" using False by (auto simp: touched_def touches_def writes_def)
      then obtain j where "j < k" "s \<in> set (output_sids (calls ! j))" using calls_ok_at(1) [OF ok k] by blast
      then show ?thesis using k by (intro exI [of _ j]) (auto simp: touched_def touches_def)
    next
      case False
      then show ?thesis using t by (auto simp: less_Suc_eq)
    qed
    then show ?thesis using sized(2) False mem' by (simp add: sized_upto_def)
  qed
qed

section \<open>One operator of the replay\<close>

definition sched_ok :: "'v op_call list \<Rightarrow> int set \<Rightarrow> eviction_candidate list \<Rightarrow> residency_schedule \<Rightarrow> bool" where
  "sched_ok calls retained sel sched \<longleftrightarrow> (\<forall>k. pre_actions sched k = concat (map (evict_pres k) sel) \<and>
     (\<forall>s. kinds s (post_actions sched k) = kinds s (concat (map (evict_posts k) sel)) @ last_releases calls retained sel s k) \<and>
     (\<forall>a \<in> set (post_actions sched k). act_kind a \<noteq> COPY_H2D \<and> (act_kind a = COPY_D2H \<longrightarrow> act_sid a \<in> cand_sid ` set sel)))"

definition boundary ::
  "'v env \<Rightarrow> (int \<Rightarrow> int) \<Rightarrow> 'v op_call list \<Rightarrow> int set \<Rightarrow> eviction_candidate list \<Rightarrow> (int \<Rightarrow> 'v) \<Rightarrow> nat \<Rightarrow> 'v manager \<Rightarrow> bool" where
  "boundary env n calls retained sel mem k m \<longleftrightarrow> mgr_ok m \<and> (\<forall>s. before_op calls retained sel mem k s (places m s)) \<and>
     room (cand_sid ` set sel) n {s. copied sel s k} m \<and> sized_upto (env_numel env) n calls mem k"

lemma body_places:
  assumes safe: "plan_safe calls sel" and ok: "calls_ok calls" and k: "k < length calls"
    and p: "\<forall>s. in_op calls retained sel mem k s (p s)" and plain: "plain_op (calls ! k) mem = (vs, mem')"
    and sized: "sized_upto numel n calls mem' (Suc k)"
  shows "device_bytes numel (after_body calls mem' k s (p s)) = (if held calls retained sel s k then n s else 0)"
    "s \<in> {s. copied sel s k} \<Longrightarrow> after_body calls mem' k s (p s) \<noteq> Some (None, d)"
    "after_body calls mem' k s (p s) = Some (h, Some v) \<Longrightarrow> numel v = n s"
proof -
  have "device_bytes numel (after_body calls mem' k s (p s)) = (if held calls retained sel s k then n s else 0) \<and>
    (s \<in> {s. copied sel s k} \<longrightarrow> after_body calls mem' k s (p s) \<noteq> Some (None, d)) \<and>
    (after_body calls mem' k s (p s) = Some (h, Some v) \<longrightarrow> numel v = n s)"
  proof (cases "touched calls s k \<or> present calls retained s k")
    case True
    obtain g where g: "after_body calls mem' k s (p s) = Some (g, if in_gap sel s k then None else Some (mem' s))"
      "g \<noteq> None \<longleftrightarrow> copied sel s k"
      using after_body_place [OF safe ok k p [rule_format, of s] plain True] by blast
    have "\<exists>j < Suc k. touched calls s j" using True by (auto simp: present_def intro: less_SucI)
    then have "numel (mem' s) = n s" using sized by (simp add: sized_upto_def)
    then show ?thesis using g True by (auto simp: device_bytes_def held_def split: if_splits)
  next
    case False
    then have "after_body calls mem' k s (p s) = None" using p [rule_format, of s] by (simp add: after_body_def in_op_def)
    then show ?thesis using False by (simp add: device_bytes_def held_def)
  qed
  then show "device_bytes numel (after_body calls mem' k s (p s)) = (if held calls retained sel s k then n s else 0)"
    "s \<in> {s. copied sel s k} \<Longrightarrow> after_body calls mem' k s (p s) \<noteq> Some (None, d)"
    "after_body calls mem' k s (p s) = Some (h, Some v) \<Longrightarrow> numel v = n s" by blast+
qed

lemma copied_next: "{s. copied sel s k} \<union> {s. COPY_D2H \<in> set (kinds s (concat (map (evict_posts k) sel)))} = {s. copied sel s (Suc k)}"
proof -
  have "COPY_D2H \<in> set (kinds s (concat (map (evict_posts k) sel))) \<longleftrightarrow> (\<exists>c \<in> set sel. cand_sid c = s \<and> cs c = k)" for s
    by (induction sel) (auto simp: evict_posts_def action_def)
  then show ?thesis by (auto simp: copied_def less_Suc_eq)
qed

lemma inputs_on_device:
  assumes safe: "plan_safe calls sel" and ok: "calls_ok calls" and k: "k < length calls"
    and p: "\<forall>s. in_op calls retained sel mem k s (p s)" and s: "s \<in> set (input_sids (calls ! k))"
  shows "on_device mem s (p s)"
proof -
  have t: "touched calls s k" using s k by (simp add: touched_def touches_def)
  obtain j where "j < k" "s \<in> set (output_sids (calls ! j))" using calls_ok_at(1) [OF ok k s] by blast
  then have "touched calls s j" using k by (simp add: touched_def touches_def)
  then have "present calls retained s k" using \<open>j < k\<close> t by (auto simp: present_def)
  then show ?thesis using p [rule_format, of s] touched_not_gone [OF safe t]
    by (auto simp: in_op_def place_ok_def on_device_def)
qed

lemma replay_op_step:
  assumes safe: "plan_safe calls sel" and ok: "calls_ok calls" and sched: "sched_ok calls retained sel sched"
    and k: "k < length calls" and plain: "plain_op (calls ! k) mem = (vs, mem')"
    and sized: "writes_sized (env_numel env) n calls" and b: "boundary env n calls retained sel mem k m"
    and S: "finite S" "\<forall>s. held calls retained sel s k \<longrightarrow> s \<in> S"
  shows "\<exists>m'. replay_op env sched (map guide_op calls) k (calls ! k) m =
      Inr (vs, \<Sum>s \<in> S. if held calls retained sel s k then n s else 0, m') \<and>
    boundary env n calls retained sel mem' (Suc k) m'"
proof -
  let ?E = "cand_sid ` set sel"
  have pres: "pre_actions sched k = concat (map (evict_pres k) sel)"
    and posts: "\<And>s. kinds s (post_actions sched k) = kinds s (concat (map (evict_posts k) sel)) @ last_releases calls retained sel s k"
    and post_kinds: "\<forall>a \<in> set (post_actions sched k). act_kind a \<noteq> COPY_H2D \<and> (act_kind a = COPY_D2H \<longrightarrow> act_sid a \<in> ?E)"
    using sched by (simp_all add: sched_ok_def)
  have m: "mgr_ok m" "\<forall>s. before_op calls retained sel mem k s (places m s)" "room ?E n {s. copied sel s k} m"
    and sz: "sized_upto (env_numel env) n calls mem k" using b by (auto simp: boundary_def)
  have "\<forall>s. \<exists>q. place_acts (kinds s (pre_actions sched k)) (places m s) = Some q \<and> in_op calls retained sel mem k s q"
    unfolding pres using before_op_pres [OF safe] m(2) by blast
  then obtain r where r: "\<forall>s. place_acts (kinds s (pre_actions sched k)) (places m s) = Some (r s)"
    "\<forall>s. in_op calls retained sel mem k s (r s)" by metis
  have "\<forall>a \<in> set (pre_actions sched k). act_kind a = COPY_H2D"
    unfolding pres by (auto simp: evict_pres_def action_def split: if_splits)
  from pres_run [OF m(1) this r(1)] obtain m1 where
    m1: "rfold run_pre (pre_actions sched k) m = Inr m1" "places m1 = r" "mgr_ok m1" "account m1 = account m" by blast
  have dev: "\<forall>s \<in> set (input_sids (calls ! k)). on_device mem s (places m1 s)"
    unfolding m1(2) using inputs_on_device [OF safe ok k r(2)] by blast
  from body_ok [OF m1(3) dev calls_ok_at(3) [OF ok k] plain, of env] obtain m2 where
    m2: "run_func (calls ! k) m1 = Inr (vs, m2)" and
    body: "let m' = apply_shadows env (calls ! k) vs (record_bindings (call_leaves (calls ! k))) m2 in
       mgr_ok m' \<and> account m' = account m1 \<and>
       places m' = (\<lambda>s. if touches (calls ! k) s then Some (Option.bind (places m1 s) fst, Some (mem' s)) else places m1 s)"
    by blast
  define m3 where "m3 = apply_shadows env (calls ! k) vs (record_bindings (call_leaves (calls ! k))) m2"
  have m3: "mgr_ok m3" "account m3 = account m" "places m3 = (\<lambda>s. after_body calls mem' k s (r s))"
    using body m1(2,4) k by (auto simp: m3_def [symmetric] Let_def after_body_def touched_def fun_eq_iff)
  have sz': "sized_upto (env_numel env) n calls mem' (Suc k)" by (rule sized_step [OF ok k plain sized sz])
  note bp = body_places [OF safe ok k r(2) plain sz']
  have "\<forall>s. \<exists>q. place_acts (kinds s (post_actions sched k)) (places m3 s) = Some q \<and>
      before_op calls retained sel mem' (Suc k) s q"
    unfolding posts m3(3) using in_op_posts [OF safe ok k _ plain] r(2) by blast
  then obtain q where q: "\<forall>s. place_acts (kinds s (post_actions sched k)) (places m3 s) = Some (q s)"
    "\<forall>s. before_op calls retained sel mem' (Suc k) s (q s)" by metis
  have "room ?E n {s. copied sel s k} m3" using m(3) m3(2) by (simp add: room_def)
  moreover have "copied_once {s. copied sel s k} m3" using bp(2) by (simp add: copied_once_def m3(3))
  moreover have "sized (env_numel env) n m3" using bp(3) by (simp add: sized_def m3(3))
  ultimately obtain m4 where m4: "rfold (run_post env) (post_actions sched k) m3 = Inr m4" "places m4 = q" "mgr_ok m4"
    "room ?E n ({s. copied sel s k} \<union> {s. COPY_D2H \<in> set (kinds s (post_actions sched k))}) m4"
    using posts_run [OF m3(1) post_kinds q(1)] by blast
  have "{s. copied sel s k} \<union> {s. COPY_D2H \<in> set (kinds s (post_actions sched k))} = {s. copied sel s (Suc k)}"
    unfolding copied_next [of sel k, symmetric] posts by (auto simp: last_releases_def)
  then have "boundary env n calls retained sel mem' (Suc k) m4"
    using m4 q(2) sz' by (simp add: boundary_def)
  moreover have "resident_bytes (env_numel env) m3 = (\<Sum>s \<in> S. if held calls retained sel s k then n s else 0)"
  proof -
    have "\<forall>s. s \<notin> S \<longrightarrow> device_bytes (env_numel env) (places m3 s) = 0" using S(2) bp(1) by (auto simp: m3(3))
    from resident_bytes_places [OF m3(1) S(1) this] show ?thesis using bp(1) by (simp add: m3(3))
  qed
  moreover have "replay_op env sched (map guide_op calls) k (calls ! k) m = Inr (vs, resident_bytes (env_numel env) m3, m4)"
    using k m1(1) m2 m4(1) by (simp add: replay_op_def on_op_begin_def guide_op_def m3_def Let_def)
  ultimately show ?thesis by auto
qed

section \<open>The whole step\<close>

lemma replay_run_from:
  assumes safe: "plan_safe calls sel" and ok: "calls_ok calls" and sched: "sched_ok calls retained sel sched"
    and sized: "writes_sized (env_numel env) n calls" and S: "finite S" "\<forall>s j. touched calls s j \<longrightarrow> s \<in> S"
    and k: "k \<le> length calls" and b: "boundary env n calls retained sel mem k m"
    and plain: "plain_run (drop k calls) mem = (log, mem')"
  shows "\<exists>bytes m'. replay_run env sched (map guide_op calls) k (drop k calls) m = Inr (zip log bytes, m') \<and>
    length log = length calls - k \<and>
    bytes = map (\<lambda>j. \<Sum>s \<in> S. if held calls retained sel s j then n s else 0) [k..<length calls] \<and>
    boundary env n calls retained sel mem' (length calls) m'"
  using k b plain
proof (induction "length calls - k" arbitrary: k mem m log)
  case 0
  then show ?case by simp
next
  case (Suc d)
  then have k: "k < length calls" and drop: "drop k calls = calls ! k # drop (Suc k) calls"
    by (simp_all add: Cons_nth_drop_Suc)
  obtain vs mem1 where p1: "plain_op (calls ! k) mem = (vs, mem1)" by fastforce
  obtain rest where p2: "plain_run (drop (Suc k) calls) mem1 = (rest, mem')" "log = vs # rest"
    using Suc.prems(3) p1 by (auto simp: drop split: prod.splits)
  have "\<forall>s. held calls retained sel s k \<longrightarrow> s \<in> S" using S(2) by (auto simp: held_def present_def)
  from replay_op_step [OF safe ok sched k p1 sized Suc.prems(2) S(1) this] obtain m1 where
    m1: "replay_op env sched (map guide_op calls) k (calls ! k) m =
      Inr (vs, \<Sum>s \<in> S. if held calls retained sel s k then n s else 0, m1)"
    "boundary env n calls retained sel mem1 (Suc k) m1" by blast
  have "d = length calls - Suc k" "Suc k \<le> length calls" using Suc.hyps(2) k by auto
  from Suc.hyps(1) [OF this m1(2) p2(1)] show ?case
    using m1(1) k p2(2) unfolding drop by (auto simp: upt_conv_Cons)
qed

lemma held_planned:
  assumes safe: "plan_safe calls sel"
  shows "held calls retained sel s k \<longleftrightarrow> planned_on_device (record_step calls sizes retained limit) sel s k \<or>
    (s \<in> retained \<and> accesses_of (record_step calls sizes retained limit) s \<noteq> [] \<and>
       acc_op (last (accesses_of (record_step calls sizes retained limit) s)) < k)"
proof -
  let ?t = "record_step calls sizes retained limit"
  have live: "live_range ?t s k \<longleftrightarrow> (\<exists>j \<le> k. touched calls s j) \<and> (\<exists>j \<ge> k. touched calls s j)"
    using last_touched(2-5) [of calls s _ sizes retained limit] untouched [of calls sizes retained limit s]
    unfolding live_range_def by (meson order_trans)
  have past: "accesses_of ?t s \<noteq> [] \<and> acc_op (last (accesses_of ?t s)) < k \<longleftrightarrow>
      (\<exists>j < k. touched calls s j) \<and> \<not> (\<exists>j \<ge> k. touched calls s j)"
    using last_touched(2,3) [of calls s _ sizes retained limit] untouched [of calls sizes retained limit s]
    by (meson le_less_trans linorder_not_le)
  have gap: "(\<exists>j \<ge> k. touched calls s j)" if "in_gap sel s k"
    using that safe_facts(3) [OF safe] less_imp_le unfolding in_gap_def by blast
  have le: "(\<exists>j \<le> k. touched calls s j) \<longleftrightarrow> touched calls s k \<or> (\<exists>j < k. touched calls s j)"
    by (auto simp: le_less)
  show ?thesis unfolding held_def planned_on_device_def live present_def le
    using past gap touched_not_gone [OF safe, of s k] by blast
qed

lemma schedule_is_ok:
  assumes sizes: "\<forall>s j. touched calls s j \<longrightarrow> sizes s \<noteq> None" "sizes_ok (record_step calls sizes retained limit)"
    and plan: "plan_of (record_step calls sizes retained limit) limit = (sel, fin)" and ne: "calls \<noteq> []"
  shows "sched_ok calls retained sel (build_schedule (record_step calls sizes retained limit))"
proof -
  let ?t = "record_step calls sizes retained limit" and ?ev = "cand_sid ` set sel"
  have lim: "memory_limit ?t = Some limit" "trace_ops ?t \<noteq> []"
    and fields: "storage_sizes ?t = sizes" "retained_sids ?t = retained" using ne recorded_ops [of calls sizes retained limit]
    by (simp_all add: record_step_def)
  obtain rel where rel: "\<forall>s. map_of rel s = (if storage_sizes ?t s \<noteq> None \<and> accesses_of ?t s \<noteq> []
        then Some (last (accesses_of ?t s)) else None)" "distinct (map fst rel)"
    "\<forall>k. pre_actions (build_schedule ?t) k = concat (map (evict_pres k) sel)"
    "\<forall>k. post_actions (build_schedule ?t) k = concat (map (evict_posts k) sel) @
       concat (map (final_posts ?ev retained k) rel)"
    using schedule_actions [OF record_step_wf sizes(2) plan lim] unfolding fields(2) by blast
  have finals: "kinds s (concat (map (final_posts ?ev retained k) rel)) = last_releases calls retained sel s k" for s k
  proof (cases "\<exists>j. touched calls s j")
    case True
    then obtain j where j: "touched calls s j" by blast
    note last = last_touched [OF j, of sizes retained limit]
    have "map_of rel s = Some (last (accesses_of ?t s))"
      using rel(1) [rule_format, of s] sizes(1) [rule_format, OF j] last(1) by (auto simp: fields)
    moreover have "acc_op (last (accesses_of ?t s)) = k \<longleftrightarrow> touched calls s k \<and> (\<forall>j > k. \<not> touched calls s j)"
    proof
      show "acc_op (last (accesses_of ?t s)) = k \<Longrightarrow> touched calls s k \<and> (\<forall>j > k. \<not> touched calls s j)"
        using last(2) last_touched(3) [of calls s _ sizes retained limit] linorder_not_le by blast
      show "touched calls s k \<and> (\<forall>j > k. \<not> touched calls s j) \<Longrightarrow> acc_op (last (accesses_of ?t s)) = k"
        using last(2) last_touched(3) [of calls s k sizes retained limit] by (metis linorder_cases not_le)
    qed
    ultimately show ?thesis by (simp add: final_kinds [OF rel(2)] last_releases_def)
  next
    case False
    then have "map_of rel s = None" using rel(1) untouched [of calls sizes retained limit s] by simp
    then show ?thesis using False by (simp add: final_kinds [OF rel(2)] last_releases_def)
  qed
  have "\<forall>a \<in> set (post_actions (build_schedule ?t) k). act_kind a \<noteq> COPY_H2D \<and> (act_kind a = COPY_D2H \<longrightarrow> act_sid a \<in> ?ev)" for k
    unfolding rel(4) [rule_format] by (auto simp: evict_posts_def final_posts_def action_def split: if_splits)
  then show ?thesis using rel(3,4) finals by (simp add: sched_ok_def)
qed

text \<open>
  C6.  Replaying a plan.  A step is recorded, its trace is planned, and the step is run again under the schedule,
  with a host pool that has room for the evicted storages.  If the warmup noted every write in place and the size of
  every storage, and no storage is written in place between two of its evictions, the replay raises nothing; every operator computes on the inputs it has without offloading; the
  bytes on the device while operator \<open>k\<close> runs are the simulated bytes of the plan, plus the retained storages
  whose last access is over, which the plan does not count; and in the end exactly the retained storages are left, on
  the device, with the contents they have without offloading.
\<close>

theorem replay_matches_plan:
  fixes calls sizes retained limit
  defines "trace \<equiv> record_step calls sizes retained limit"
  assumes ok: "calls_ok calls" "\<forall>s j. touched calls s j \<longrightarrow> sizes s \<noteq> None" "sizes_ok trace"
    and sized: "writes_sized (env_numel env) (storage_bytes trace) calls"
    and plan: "plan_of trace limit = (sel, fin)" "\<not> late_write calls sel"
    and m: "fresh_manager m" "total_allocated (host_pool m) +
      (\<Sum>s \<in> cand_sid ` set sel. align_to_bucket (storage_bytes trace s)) \<le> max_host_bytes (host_pool m)"
    and plain: "plain_run calls mem = (log, mem')"
  shows "\<exists>bytes m'. replay_run env (build_schedule trace) (map guide_op calls) 0 calls m = Inr (zip log bytes, m') \<and>
    length log = length calls \<and> length bytes = length calls \<and>
    (\<forall>k < length calls. k \<le> max_op_id trace \<longrightarrow> bytes ! k = fin ! k +
       (\<Sum>s \<in> set (storages trace). if s \<in> retained \<and> acc_op (last (accesses_of trace s)) < k then storage_bytes trace s else 0)) \<and>
    (\<forall>s. (if s \<in> retained \<and> s \<in> set (storages trace) then on_device mem' s (places m' s) else places m' s = None))"
proof (cases "calls = []")
  case True
  have "storages trace = []" by (simp add: storages_def group_accesses_by_storage_def trace_def record_step_def True)
  then show ?thesis using True plain m(1) by (auto simp: fresh_manager_def places_def)
next
  case False
  let ?n = "storage_bytes trace" and ?S = "set (storages trace)"
  have wf: "trace_wf trace" unfolding trace_def by (rule record_step_wf)
  note facts = plan_facts [OF wf ok(3) plan(1)]
  have safe: "plan_safe calls sel" using plan_is_safe [OF _ plan(2) ok(1)] facts(1) unfolding trace_def by blast
  have sched: "sched_ok calls retained sel (build_schedule trace)"
    using schedule_is_ok [OF ok(2) _ _ False] ok(3) plan(1) unfolding trace_def by blast
  have S: "\<forall>s j. touched calls s j \<longrightarrow> s \<in> ?S" "\<And>s. s \<in> ?S \<longleftrightarrow> (\<exists>j. touched calls s j)"
    using untouched [of calls sizes retained limit] by (auto simp: storages_mem trace_def)
  have "boundary env ?n calls retained sel mem 0 m"
    using m by (simp add: boundary_def mgr_ok_def fresh_manager_def before_op_def present_def places_def room_def
        account_def copied_def sized_upto_def)
  from replay_run_from [OF safe ok(1) sched sized _ S(1) _ this, of log mem'] plain obtain bytes m' where
    run: "replay_run env (build_schedule trace) (map guide_op calls) 0 calls m = Inr (zip log bytes, m')" "length log = length calls"
    and bytes: "bytes = map (\<lambda>j. \<Sum>s \<in> ?S. if held calls retained sel s j then ?n s else 0) [0..<length calls]"
    and last: "boundary env ?n calls retained sel mem' (length calls) m'" by auto
  have "bytes ! k = fin ! k + (\<Sum>s \<in> ?S. if s \<in> retained \<and> acc_op (last (accesses_of trace s)) < k then ?n s else 0)"
    if k: "k < length calls" "k \<le> max_op_id trace" for k
  proof -
    have "(if held calls retained sel s k then ?n s else 0) = (if planned_on_device trace sel s k then ?n s else 0) +
        (if s \<in> retained \<and> acc_op (last (accesses_of trace s)) < k then ?n s else 0)" if "s \<in> ?S" for s
      using held_planned [OF safe, of retained s k sizes limit] that
      by (auto simp: trace_def [symmetric] storages_mem planned_on_device_def live_range_def)
    then show ?thesis using k by (simp add: bytes facts(4) sum.distrib [symmetric])
  qed
  moreover have "if s \<in> retained \<and> s \<in> ?S then on_device mem' s (places m' s) else places m' s = None" for s
  proof -
    have "\<not> away sel s (length calls)" using safe_facts(3) [OF safe] unfolding away_def touched_def by (meson linorder_not_le)
    moreover have "present calls retained s (length calls) \<longleftrightarrow> s \<in> retained \<and> s \<in> ?S"
      unfolding present_def S(2) by (auto simp: touched_def)
    moreover have "before_op calls retained sel mem' (length calls) s (places m' s)" using last by (simp add: boundary_def)
    ultimately show ?thesis by (auto simp: before_op_def place_ok_def on_device_def)
  qed
  ultimately show ?thesis using run by (auto simp: bytes)
qed

section \<open>Two steps\<close>

definition demo_step :: "(int \<times> int) op_call list" where
  "demo_step = [make_op 1 100, make_op 2 80, read_op 2, add_op 1 100, read_op 1]"

definition demo_sizes :: "int \<rightharpoonup> int" where
  "demo_sizes = [1 \<mapsto> 100, 2 \<mapsto> 80, 3 \<mapsto> 80]"

lemma demo_calls_ok: "calls_ok demo_step"
  by code_simp

lemma demo_sized:
  "writes_sized (env_numel demo_env) (storage_bytes (record_step demo_step demo_sizes {} 120)) demo_step"
  by (simp add: writes_sized_def demo_step_def demo_env_def storage_bytes_def record_step_def demo_sizes_def)
    (simp add: make_op_def add_op_def)

lemma demo_touched: "\<forall>s j. touched demo_step s j \<longrightarrow> demo_sizes s \<noteq> None"
proof (intro allI impI)
  fix s j assume "touched demo_step s j"
  then have "\<exists>call \<in> set demo_step. touches call s" unfolding touched_def using nth_mem by blast
  then have "s = 1 \<or> s = 2" by (simp add: demo_step_def) blast
  then show "demo_sizes s \<noteq> None" by (simp add: demo_sizes_def) blast
qed

lemma demo_plan:
  "plan_of (record_step demo_step demo_sizes {} 120) 120 =
    ([candidate_at (record_step demo_step demo_sizes {} 120) 1 100 0], [100, 80, 80, 100, 100])"
  by code_simp

theorem replay_matches_plan_witness:
  "\<exists>bytes m'. replay_run demo_env (build_schedule (record_step demo_step demo_sizes {} 120)) (map guide_op demo_step) 0
      demo_step demo_manager = Inr (zip [[], [], [(80, 2)], [(100, 1)], [(100, 2)]] bytes, m') \<and> bytes ! 2 = 80"
proof -
  let ?t = "record_step demo_step demo_sizes {} 120"
  have sizes: "sizes_ok ?t" by (auto simp: sizes_ok_def record_step_def demo_sizes_def)
  have late: "\<not> late_write demo_step [candidate_at ?t 1 100 0]" by (simp add: late_write_def)
  have room: "total_allocated (host_pool demo_manager) +
      (\<Sum>s \<in> cand_sid ` set [candidate_at ?t 1 100 0]. align_to_bucket (storage_bytes ?t s)) \<le> max_host_bytes (host_pool demo_manager)"
    by code_simp
  have "fst (plain_run demo_step (\<lambda>_. (0, 0))) = [[], [], [(80, 2)], [(100, 1)], [(100, 2)]]" by code_simp
  then have plain: "plain_run demo_step (\<lambda>_. (0, 0)) =
      ([[], [], [(80, 2)], [(100, 1)], [(100, 2)]], snd (plain_run demo_step (\<lambda>_. (0, 0))))"
    by (metis prod.collapse)
  have "max_op_id ?t = 4" by code_simp
  then show ?thesis
    using replay_matches_plan [OF demo_calls_ok demo_touched sizes demo_sized demo_plan late demo_fresh room plain]
    by (auto simp: demo_step_def)
qed

text \<open>
  A storage that is evicted twice and written in place in between: the second reload brings back the first copy,
  because the host buffer is still there when the second copy is asked for.
\<close>

definition stale_step :: "(int \<times> int) op_call list" where
  "stale_step = [make_op 1 100, make_op 2 80, read_op 2, add_op 1 100, make_op 3 80, read_op 3, read_op 1]"

lemma second_eviction_reloads_stale_data:
  "map fst (fst (projr (replay_run demo_env (build_schedule (record_step stale_step demo_sizes {} 120)) (map guide_op stale_step)
      0 stale_step demo_manager))) = [[], [], [(80, 2)], [(100, 1)], [], [(80, 3)], [(100, 1)]]"
  "fst (plain_run stale_step (\<lambda>_. (0, 0))) = [[], [], [(80, 2)], [(100, 1)], [], [(80, 3)], [(100, 2)]]"
  by code_simp+

text \<open>
  The index of a schema argument is used in the list of all tensors, so an operator that writes every tensor of a
  list argument is recorded as writing the first only.
\<close>

definition add_list_op :: "(int \<times> int) op_call" where
  "add_list_op = \<lparr>call_name = ''_foreach_add_'', call_args = [[(1, Some 1), (2, Some 2)]], call_kwargs = [],
     call_schema = [True, False], call_leaves = [], call_mutates = [1, 2], call_write = (\<lambda>vs s. (100, s))\<rparr>"

lemma list_write_not_noted: "noted_writes add_list_op = {1}"
  by code_simp

end
