(* ===== verification/OffloadWarmup.thy ===== *)
theory OffloadWarmup
  imports OffloadBody
begin

text \<open>
  The warmup of the offload runtime: its eviction loop always ends, within the budget or with an error, and the
  step computes what it computes without offloading or stops because the eviction loop is stuck, as long as no
  storage is written in place between two evictions.
\<close>

section \<open>The eviction loop\<close>

definition on_dev :: "'v manager \<Rightarrow> int set" where
  "on_dev m = {s. \<exists>h v. places m s = Some (h, Some v)}"

lemma finite_on_dev: "finite (on_dev m)"
proof (rule finite_subset)
  show "on_dev m \<subseteq> fst ` set (residency m)"
    by (force simp: on_dev_def places_Some dest: map_of_SomeD)
qed simp

lemma device_size_places: "device_resident_size numel s m = None \<longleftrightarrow> s \<notin> on_dev m"
  by (auto simp: device_resident_size_def on_dev_def places_Some split: option.splits)

text \<open>An eviction leaves the only copy, or the copy that was made before, on the host.\<close>

definition evicted :: "'v manager \<Rightarrow> 'v manager \<Rightarrow> bool" where
  "evicted m m' \<longleftrightarrow> (\<forall>s. places m' s = places m s \<or>
     (\<exists>h v. places m s = Some (h, Some v) \<and> places m' s = Some (Some (case h of None \<Rightarrow> v | Some w \<Rightarrow> w), None)))"

lemma evicted_refl: "evicted m m"
  by (simp add: evicted_def)

lemma evicted_trans:
  assumes "evicted m m'" "evicted m' m''"
  shows "evicted m m''"
  unfolding evicted_def
proof
  fix s
  consider "places m' s = places m s" | h v where "places m s = Some (h, Some v)"
      "places m' s = Some (Some (case h of None \<Rightarrow> v | Some w \<Rightarrow> w), None)"
    using assms(1) unfolding evicted_def by blast
  then show "places m'' s = places m s \<or> (\<exists>h v. places m s = Some (h, Some v) \<and>
      places m'' s = Some (Some (case h of None \<Rightarrow> v | Some w \<Rightarrow> w), None))"
  proof cases
    case 1
    then show ?thesis using assms(2) unfolding evicted_def by metis
  next
    case 2
    have "places m'' s = places m' s" using assms(2) [unfolded evicted_def, rule_format, of s] 2(2) by auto
    then show ?thesis using 2 by auto
  qed
qed

definition victim_key :: "('v \<Rightarrow> int) \<Rightarrow> 'v manager \<Rightarrow> int \<times> nat \<Rightarrow> int \<times> int" where
  "victim_key numel m e = (int (snd e), - the (device_resident_size numel (fst e) m))"

definition evictable :: "int set \<Rightarrow> 'v manager \<Rightarrow> (int \<times> nat) list \<Rightarrow> (int \<times> nat) set" where
  "evictable protected m produced = {e \<in> set produced. fst e \<notin> protected \<and> fst e \<in> on_dev m}"

text \<open>The choice among the candidates \<open>E\<close>: nothing, or one with the least key.\<close>

definition is_best :: "('v \<Rightarrow> int) \<Rightarrow> 'v manager \<Rightarrow> (int \<times> nat) set \<Rightarrow> ((int \<times> int) \<times> int) option \<Rightarrow> bool" where
  "is_best numel m E best \<longleftrightarrow> (case best of None \<Rightarrow> E = {} | Some (key, sid) \<Rightarrow>
      \<exists>e \<in> E. fst e = sid \<and> key = victim_key numel m e \<and> (\<forall>d \<in> E. key \<le> victim_key numel m d))"

lemma is_best_None: "is_best numel m E None \<longleftrightarrow> E = {}"
  by (simp add: is_best_def)

lemma is_best_Some: "is_best numel m E (Some (key, sid)) \<longleftrightarrow>
    (\<exists>e \<in> E. fst e = sid \<and> key = victim_key numel m e \<and> (\<forall>d \<in> E. key \<le> victim_key numel m d))"
  by (simp add: is_best_def)

lemma victim_step_best:
  assumes "is_best numel m E best"
  shows "is_best numel m (E \<union> evictable protected m [e]) (victim_step numel protected m e best)"
proof -
  obtain sid k where e: "e = (sid, k)" by (cases e)
  show ?thesis
  proof (cases "sid \<in> protected \<or> sid \<notin> on_dev m")
    case True
    then have "victim_step numel protected m e best = best"
      using device_size_places [of numel sid m] by (auto simp: victim_step_def e)
    moreover have "evictable protected m [e] = {}" using True by (auto simp: evictable_def e)
    ultimately show ?thesis using assms by simp
  next
    case False
    then obtain n where n: "device_resident_size numel sid m = Some n"
      using device_size_places [of numel sid m] by auto
    have key: "victim_key numel m e = (int k, - n)" by (simp add: victim_key_def e n)
    have E: "evictable protected m [e] = {e}" using False by (auto simp: evictable_def e)
    show ?thesis
    proof (cases best)
      case None
      then have "victim_step numel protected m e best = Some (victim_key numel m e, sid)"
        using False n key by (simp add: victim_step_def e)
      then show ?thesis using assms None by (simp add: E is_best_None is_best_Some) (simp add: e)
    next
      case (Some b)
      obtain bk bs where b: "b = (bk, bs)" by (cases b)
      have step: "victim_step numel protected m e best =
          (if victim_key numel m e < bk then Some (victim_key numel m e, sid) else Some (bk, bs))"
        using False n key by (simp add: victim_step_def e Some b Let_def)
      obtain c where c: "c \<in> E" "fst c = bs" "bk = victim_key numel m c" "\<forall>d \<in> E. bk \<le> victim_key numel m d"
        using assms by (auto simp: Some b is_best_Some)
      show ?thesis
      proof (cases "victim_key numel m e < bk")
        case True
        then have "\<forall>d \<in> E. victim_key numel m e \<le> victim_key numel m d"
          using c(4) by (meson less_imp_le order.trans)
        then show ?thesis using True by (simp add: E step is_best_Some) (simp add: e)
      next
        case False
        then show ?thesis using c by (auto simp: E step is_best_Some not_less)
      qed
    qed
  qed
qed

lemma victim_fold:
  "is_best numel m E best \<Longrightarrow>
    is_best numel m (E \<union> evictable protected m produced) (fold (victim_step numel protected m) produced best)"
proof (induction produced arbitrary: best E)
  case (Cons e produced)
  have "(E \<union> evictable protected m [e]) \<union> evictable protected m produced = E \<union> evictable protected m (e # produced)"
    by (auto simp: evictable_def)
  then show ?case using Cons.IH [OF victim_step_best [OF Cons.prems, of protected e]] by simp
qed (simp add: evictable_def)

text \<open>The victim is the oldest storage on the device that is not protected, the largest of its operator.\<close>

lemma find_victim_best: "is_best numel m (evictable protected m produced) (fold (victim_step numel protected m) produced None)"
  using victim_fold [of numel m "{}" None protected produced] by (simp add: is_best_None)

lemma find_victim_none: "find_victim numel protected produced m = None \<longleftrightarrow> evictable protected m produced = {}"
  using find_victim_best [of numel m protected produced]
  by (cases "fold (victim_step numel protected m) produced None") (auto simp: find_victim_def is_best_None is_best_Some)

lemma find_victim_some:
  assumes "find_victim numel protected produced m = Some sid"
  shows "\<exists>e \<in> evictable protected m produced. fst e = sid \<and>
    (\<forall>d \<in> evictable protected m produced. victim_key numel m e \<le> victim_key numel m d)"
proof -
  obtain key where "fold (victim_step numel protected m) produced None = Some (key, sid)"
    using assms by (auto simp: find_victim_def)
  then show ?thesis using find_victim_best [of numel m protected produced] by (auto simp only: is_best_Some)
qed

lemma evict_one:
  assumes ok: "mgr_ok m" and s: "s \<in> on_dev m" and copy: "copy_d2h env s m = Inr m1"
  shows "mgr_ok (release_device s m1)" "evicted m (release_device s m1)"
    "on_dev (release_device s m1) = on_dev m - {s}" "\<And>t. t \<noteq> s \<Longrightarrow> places (release_device s m1) t = places m t"
proof -
  obtain h v where hv: "places m s = Some (h, Some v)" using s by (auto simp: on_dev_def)
  let ?w = "case h of None \<Rightarrow> v | Some w \<Rightarrow> w"
  have m1: "mgr_ok m1" "places m1 = (places m)(s \<mapsto> (Some ?w, Some v))"
    using copy_d2h_cases [OF ok, of s env] copy hv ok by (auto simp: fun_eq_iff)
  note rel = release_device_ok [OF m1(1), of s]
  have pl: "places (release_device s m1) = (places m)(s \<mapsto> (Some ?w, None))" unfolding rel(1) m1(2) by simp
  show "mgr_ok (release_device s m1)" by (rule rel(2))
  show "evicted m (release_device s m1)" using hv by (auto simp: evicted_def pl)
  show "on_dev (release_device s m1) = on_dev m - {s}" by (auto simp: on_dev_def pl)
  show "\<And>t. t \<noteq> s \<Longrightarrow> places (release_device s m1) t = places m t" by (simp add: pl)
qed

text \<open>Why an eviction stops with an error: nothing is left to evict, or the host pool has no room for the victim.\<close>

definition stuck :: "'v env \<Rightarrow> int set \<Rightarrow> (int \<times> nat) list \<Rightarrow> 'v manager \<Rightarrow> bool" where
  "stuck env protected produced m \<longleftrightarrow> evictable protected m produced = {} \<or>
     (\<exists>s v. find_victim (env_numel env) protected produced m = Some s \<and> places m s = Some (None, Some v) \<and>
        snd (account m) < fst (account m) + align_to_bucket (env_numel env v))"

lemma enforce_budget_loop:
  assumes "mgr_ok m"
  shows "\<exists>r. enforce_budget env limit protected produced m = Some r \<and>
    (case r of
       Inr m' \<Rightarrow> resident_bytes (env_numel env) m' \<le> limit \<and> mgr_ok m' \<and> evicted m m' \<and>
         (\<forall>s \<in> protected. places m' s = places m s)
     | Inl e \<Rightarrow> e = RuntimeError \<and> (\<exists>m'. evicted m m' \<and> (\<forall>s \<in> protected. places m' s = places m s) \<and>
         limit < resident_bytes (env_numel env) m' \<and> stuck env protected produced m'))"
  using assms
proof (induction "card (on_dev m)" arbitrary: m rule: less_induct)
  case less
  show ?case
  proof (cases "resident_bytes (env_numel env) m \<le> limit")
    case True
    then show ?thesis using less.prems by (subst enforce_budget.simps) (simp add: evicted_refl)
  next
    case over: False
    show ?thesis
    proof (cases "find_victim (env_numel env) protected produced m")
      case None
      then have "stuck env protected produced m" by (simp add: stuck_def find_victim_none)
      then show ?thesis using None over evicted_refl [of m] by (subst enforce_budget.simps) auto
    next
      case (Some s)
      obtain k where s: "s \<notin> protected" "s \<in> on_dev m"
        using find_victim_some [OF Some] by (auto simp: evictable_def)
      obtain h v where hv: "places m s = Some (h, Some v)" using s(2) by (auto simp: on_dev_def)
      show ?thesis
      proof (cases "copy_d2h env s m")
        case (Inl e)
        then have "e = RuntimeError" "stuck env protected produced m"
          using copy_d2h_cases [OF less.prems, of s env] hv Some unfolding stuck_def by (cases h; force)+
        then show ?thesis using Inl Some over evicted_refl [of m] by (subst enforce_budget.simps) auto
      next
        case (Inr m1)
        let ?m = "release_device s m1"
        note one = evict_one [OF less.prems s(2) Inr]
        have "card (on_dev ?m) < card (on_dev m)"
          unfolding one(3) by (rule psubset_card_mono [OF finite_on_dev]) (use s(2) in auto)
        from less.hyps [OF this one(1)] obtain r where r: "enforce_budget env limit protected produced ?m = Some r"
          "case r of
             Inr m' \<Rightarrow> resident_bytes (env_numel env) m' \<le> limit \<and> mgr_ok m' \<and> evicted ?m m' \<and>
               (\<forall>s \<in> protected. places m' s = places ?m s)
           | Inl e \<Rightarrow> e = RuntimeError \<and> (\<exists>m'. evicted ?m m' \<and> (\<forall>s \<in> protected. places m' s = places ?m s) \<and>
               limit < resident_bytes (env_numel env) m' \<and> stuck env protected produced m')" by blast
        have "enforce_budget env limit protected produced m = Some r"
          using r(1) Inr Some over by (subst enforce_budget.simps) simp
        moreover have "places ?m t = places m t" if "t \<in> protected" for t using one(4) s(1) that by metis
        ultimately show ?thesis using r(2) evicted_trans [OF one(2)]
          by (cases r) (auto; blast)+
      qed
    qed
  qed
qed

text \<open>The one cause of an error: the eviction loop before an operator is stuck over the budget.\<close>

definition starved :: "'v env \<Rightarrow> int \<Rightarrow> int set \<Rightarrow> (int \<times> nat) list \<Rightarrow> 'v manager \<Rightarrow> bool" where
  "starved env limit protected produced m \<longleftrightarrow>
     enforce_budget env limit protected produced m = Some (Inl RuntimeError) \<and>
     (\<exists>m'. evicted m m' \<and> limit < resident_bytes (env_numel env) m' \<and> stuck env protected produced m')"

lemma enforce_budget_result:
  assumes "mgr_ok m"
  shows "(enforce_budget env limit protected produced m = Some (Inl RuntimeError) \<and> starved env limit protected produced m) \<or>
    (\<exists>m1. enforce_budget env limit protected produced m = Some (Inr m1) \<and> mgr_ok m1 \<and> evicted m m1 \<and>
       (\<forall>s \<in> protected. places m1 s = places m s))"
proof -
  obtain r where "enforce_budget env limit protected produced m = Some r"
    "case r of
       Inr m' \<Rightarrow> resident_bytes (env_numel env) m' \<le> limit \<and> mgr_ok m' \<and> evicted m m' \<and>
         (\<forall>s \<in> protected. places m' s = places m s)
     | Inl e \<Rightarrow> e = RuntimeError \<and> (\<exists>m'. evicted m m' \<and> (\<forall>s \<in> protected. places m' s = places m s) \<and>
         limit < resident_bytes (env_numel env) m' \<and> stuck env protected produced m')"
    using enforce_budget_loop [OF assms, of env limit protected produced] by blast
  then show ?thesis by (cases r) (auto simp: starved_def)
qed

text \<open>
  C28.  The eviction loop of the warmup ends.  Either the bytes on the device fit the budget, by evictions only and
  without touching a protected storage, or the loop raises \<open>RuntimeError\<close> in a state over the budget in
  which nothing is left to evict or the host pool has no room for the victim.
\<close>

theorem enforce_budget_ends:
  assumes "mgr_ok m"
  shows "\<exists>r. enforce_budget env limit protected produced m = Some r \<and>
    (case r of
       Inr m' \<Rightarrow> resident_bytes (env_numel env) m' \<le> limit \<and> mgr_ok m' \<and> evicted m m' \<and>
         (\<forall>s \<in> protected. places m' s = places m s)
     | Inl e \<Rightarrow> e = RuntimeError \<and> (\<exists>m'. evicted m m' \<and> (\<forall>s \<in> protected. places m' s = places m s) \<and>
         limit < resident_bytes (env_numel env) m' \<and> stuck env protected produced m'))"
  using assms by (rule enforce_budget_loop)

definition crowded_manager :: "(int \<times> int) manager" where
  "crowded_manager = bind_storage 0 2 (80, 7) (bind_storage 0 1 (100, 5) demo_manager)"

theorem enforce_budget_ends_witness:
  "\<exists>m'. enforce_budget demo_env 120 {2} [(1, 0), (2, 1)] crowded_manager = Some (Inr m') \<and>
    resident_bytes fst m' \<le> 120 \<and> places m' 2 = places crowded_manager 2"
proof -
  have "mgr_ok demo_manager" using demo_fresh by (simp add: mgr_ok_def fresh_manager_def)
  then have ok: "mgr_ok crowded_manager" unfolding crowded_manager_def by (intro bind_storage_ok(2))
  have over: "\<not> resident_bytes fst crowded_manager \<le> 120" by code_simp
  have victim: "find_victim fst {2} [(1, 0), (2, 1)] crowded_manager = Some 1" by code_simp
  have "case copy_d2h demo_env 1 crowded_manager of Inr m1 \<Rightarrow> resident_bytes fst (release_device 1 m1) \<le> 120 | Inl _ \<Rightarrow> False"
    by code_simp
  then obtain m1 where m1: "copy_d2h demo_env 1 crowded_manager = Inr m1" "resident_bytes fst (release_device 1 m1) \<le> 120"
    by (cases "copy_d2h demo_env 1 crowded_manager") auto
  have env: "env_numel demo_env = fst" by (simp add: demo_env_def)
  have "enforce_budget demo_env 120 {2} [(1, 0), (2, 1)] (release_device 1 m1) = Some (Inr (release_device 1 m1))"
    using m1(2) by (subst enforce_budget.simps) (simp add: env)
  then have "enforce_budget demo_env 120 {2} [(1, 0), (2, 1)] crowded_manager = Some (Inr (release_device 1 m1))"
    using over victim m1(1) by (subst enforce_budget.simps) (simp add: env)
  then show ?thesis using enforce_budget_ends [OF ok, of demo_env 120 "{2}" "[(1, 0), (2, 1)]"]
    by (simp add: env)
qed

section \<open>The values of the warmup\<close>

definition current :: "(int \<Rightarrow> 'v) \<Rightarrow> int \<Rightarrow> 'v place \<Rightarrow> bool" where
  "current mem s p \<longleftrightarrow> (\<exists>h d. p = Some (h, d) \<and> (h \<noteq> None \<or> d \<noteq> None) \<and>
     (\<forall>w. h = Some w \<longrightarrow> w = mem s) \<and> (\<forall>v. d = Some v \<longrightarrow> v = mem s))"

text \<open>
  A storage can have been evicted before operator \<open>k\<close> when an earlier operator that does not read it ran after it
  was made; it can be evicted after \<open>k\<close> and read again when a later operator does not read it and a use follows.
  A storage that is written in place in between would come back as it was before the write, because the second
  eviction keeps the first copy.
\<close>

definition gap_before :: "'v op_call list \<Rightarrow> int \<Rightarrow> nat \<Rightarrow> bool" where
  "gap_before calls s k \<longleftrightarrow> (\<exists>j < k. s \<notin> set (input_sids (calls ! j)) \<and> (\<exists>i < j. touched calls s i))"

definition gap_after :: "'v op_call list \<Rightarrow> int \<Rightarrow> nat \<Rightarrow> bool" where
  "gap_after calls s k \<longleftrightarrow> (\<exists>j < length calls. k < j \<and> s \<notin> set (input_sids (calls ! j)) \<and>
     (\<exists>i < length calls. j \<le> i \<and> touched calls s i))"

definition late_update :: "'v op_call list \<Rightarrow> int \<Rightarrow> nat \<Rightarrow> bool" where
  "late_update calls s k \<longleftrightarrow> k < length calls \<and> s \<in> set (call_mutates (calls ! k)) \<and> gap_before calls s k"

definition updates_kept :: "'v op_call list \<Rightarrow> bool" where
  "updates_kept calls \<longleftrightarrow> (\<forall>k < length calls. \<forall>s \<in> set (call_mutates (calls ! k)).
     gap_before calls s k \<longrightarrow> \<not> gap_after calls s k)"

text \<open>
  A storage of the step, after the evictions before operator \<open>g\<close> and before operator \<open>k\<close>: a device copy is up to date;
  the host copy is too, unless a late write made it stale, and then the device copy stays until the last use.
\<close>

definition held :: "'v op_call list \<Rightarrow> (int \<Rightarrow> 'v) \<Rightarrow> nat \<Rightarrow> nat \<Rightarrow> int \<Rightarrow> 'v place \<Rightarrow> bool" where
  "held calls mem g k s p \<longleftrightarrow> (\<exists>h d. p = Some (h, d) \<and> (\<forall>v. d = Some v \<longrightarrow> v = mem s) \<and>
     (h \<noteq> None \<longrightarrow> gap_before calls s g) \<and>
     (current mem s p \<or> ((\<exists>j < k. late_update calls s j \<and> \<not> gap_after calls s j) \<and>
        (d \<noteq> None \<or> (\<forall>i \<ge> k. \<not> touched calls s i)))))"

definition warm_ok :: "'v op_call list \<Rightarrow> (int \<Rightarrow> 'v) \<Rightarrow> nat \<Rightarrow> 'v manager \<Rightarrow> bool" where
  "warm_ok calls mem k m \<longleftrightarrow> mgr_ok m \<and>
     (\<forall>s. if \<exists>j < k. touched calls s j then held calls mem k k s (places m s) else places m s = None)"

definition readable :: "(int \<Rightarrow> 'v) \<Rightarrow> int \<Rightarrow> 'v place \<Rightarrow> bool" where
  "readable mem s p \<longleftrightarrow> (\<exists>h d. p = Some (h, d) \<and> (if d = None then h else d) = Some (mem s))"

lemma evicted_current: "evicted m m' \<Longrightarrow> current mem s (places m s) \<Longrightarrow> current mem s (places m' s)"
  unfolding evicted_def current_def by (drule spec [of _ s]) (auto split: option.splits)

lemma evicted_none: "evicted m m' \<Longrightarrow> places m s = None \<Longrightarrow> places m' s = None"
  unfolding evicted_def by (drule spec [of _ s]) auto

lemma late_settled:
  assumes "late_update calls s j" "\<not> gap_after calls s j" "j < k" "k < length calls" "s \<notin> set (input_sids (calls ! k))" "k \<le> i"
  shows "\<not> touched calls s i"
  using assms unfolding gap_after_def touched_def by blast

lemma held_evicted:
  assumes ev: "evicted m m1" "\<forall>s \<in> set (input_sids (calls ! k)). places m1 s = places m s" and k: "k < length calls"
    and h: "held calls mem k k s (places m s)" and t: "\<exists>j < k. touched calls s j"
  shows "held calls mem (Suc k) k s (places m1 s)"
proof -
  have gap: "gap_before calls s (Suc k)" if "gap_before calls s k" using that unfolding gap_before_def using less_SucI by blast
  obtain h d where hd: "places m s = Some (h, d)" "\<forall>v. d = Some v \<longrightarrow> v = mem s" "h \<noteq> None \<longrightarrow> gap_before calls s k"
    "current mem s (places m s) \<or> ((\<exists>j < k. late_update calls s j \<and> \<not> gap_after calls s j) \<and>
        (d \<noteq> None \<or> (\<forall>i \<ge> k. \<not> touched calls s i)))"
    using h unfolding held_def by blast
  show ?thesis
  proof (cases "places m1 s = places m s")
    case True
    then show ?thesis using hd gap unfolding held_def by auto
  next
    case False
    then have out: "s \<notin> set (input_sids (calls ! k))" using ev(2) by auto
    then have g: "gap_before calls s (Suc k)" using t unfolding gap_before_def by blast
    obtain w where w: "places m1 s = Some (Some w, None)" using ev(1) False unfolding evicted_def by blast
    have "current mem s (places m1 s) \<or> ((\<exists>j < k. late_update calls s j \<and> \<not> gap_after calls s j) \<and>
        (\<forall>i \<ge> k. \<not> touched calls s i))"
      using hd(4) evicted_current [OF ev(1), of mem s] late_settled [OF _ _ _ k out] by blast
    then show ?thesis using w g unfolding held_def by auto
  qed
qed

lemma held_readable:
  assumes "held calls mem g k s p" "touched calls s k"
  shows "readable mem s p"
proof -
  obtain h d where hd: "p = Some (h, d)" "\<forall>v. d = Some v \<longrightarrow> v = mem s" "current mem s p \<or> d \<noteq> None"
    using assms unfolding held_def by blast
  then show ?thesis by (cases d) (auto simp: readable_def current_def)
qed

text \<open>Demand paging: an input that is only on the host is copied back, so no input of an operator is missing.\<close>

lemma resolve_readable:
  assumes "mgr_ok m" "\<forall>s \<in> set sids. readable mem s (places m s)"
  shows "\<exists>m'. resolve_inputs sids m = Inr (map mem sids, m') \<and> mgr_ok m' \<and>
    places m' = (\<lambda>s. if s \<in> set sids then Some (Option.bind (places m s) fst, Some (mem s)) else places m s)"
  using assms
proof (induction sids arbitrary: m)
  case (Cons s sids)
  obtain h d where hd: "places m s = Some (h, d)" "(if d = None then h else d) = Some (mem s)"
    using Cons.prems(2) by (auto simp: readable_def)
  have "h \<noteq> None \<or> d \<noteq> None" using hd(2) by (auto split: if_splits)
  from device_storage_ok [OF hd(1) this Cons.prems(1)] obtain m1 where
    m1: "device_storage s m = Inr (mem s, m1)" "places m1 = (places m)(s \<mapsto> (h, Some (mem s)))" "mgr_ok m1"
    using hd(2) by auto
  have "\<forall>t \<in> set sids. readable mem t (places m1 t)"
    using Cons.prems(2) by (auto simp: m1(2) readable_def)
  from Cons.IH [OF m1(3) this] obtain m2 where m2: "resolve_inputs sids m1 = Inr (map mem sids, m2)" "mgr_ok m2"
    "places m2 = (\<lambda>s. if s \<in> set sids then Some (Option.bind (places m1 s) fst, Some (mem s)) else places m1 s)" by blast
  have "places m2 = (\<lambda>t. if t \<in> set (s # sids) then Some (Option.bind (places m t) fst, Some (mem t)) else places m t)"
    unfolding m2(3) m1(2) using hd(1) by (auto simp: fun_eq_iff)
  then show ?case using m1(1) m2(1,2) by simp
qed auto

lemma reload_body:
  assumes ok: "mgr_ok m" and ins: "\<forall>s \<in> set (input_sids call). readable mem s (places m s)"
    and mut: "set (call_mutates call) \<subseteq> set (input_sids call)" and plain: "plain_op call mem = (vs, mem')"
  shows "\<exists>m1. run_func call m = Inr (vs, m1) \<and>
    (let m2 = apply_shadows env call vs (record_bindings (call_leaves call)) m1 in
       mgr_ok m2 \<and>
       places m2 = (\<lambda>s. if touches call s then Some (Option.bind (places m s) fst, Some (mem' s)) else places m s))"
proof -
  have vs: "vs = map mem (input_sids call)" and mem': "mem' = (\<lambda>s. if writes call s then call_write call vs s else mem s)"
    using plain by (auto simp: plain_op_def Let_def)
  obtain m1 where m1: "resolve_inputs (input_sids call) m = Inr (vs, m1)" "mgr_ok m1"
    "places m1 = (\<lambda>s. if s \<in> set (input_sids call) then Some (Option.bind (places m s) fst, Some (mem s)) else places m s)"
    using resolve_readable [OF ok ins] vs by blast
  let ?m2 = "fold (\<lambda>s. write_in_place s (call_write call vs s)) (call_mutates call) m1"
  have "\<forall>s \<in> set (call_mutates call). places m1 s \<noteq> None" using mut by (auto simp: m1(3))
  note w = writes_ok [OF m1(2) this, of "call_write call vs"]
  have run: "run_func call m = Inr (vs, ?m2)" using m1(1) by (simp add: run_func_def)
  have "\<forall>s \<in> set (output_sids call) \<inter> set (input_sids call). \<exists>h v. places ?m2 s = Some (h, Some v)"
    using w m1(3) by (auto simp: write_place_def)
  note sh = apply_shadows_ok [OF _ this, of env vs]
  have "places (apply_shadows env call vs (record_bindings (call_leaves call)) ?m2) =
      (\<lambda>s. if touches call s then Some (Option.bind (places m s) fst, Some (mem' s)) else places m s)"
    using sh(1) w m1(3) mut by (auto simp: fun_eq_iff write_place_def touches_def mem' writes_def)
  then show ?thesis using run sh(2) w by (simp add: Let_def)
qed

text \<open>One operator of a step.\<close>

lemma warm_start:
  assumes k: "k < length calls" and w: "warm_ok calls mem k m"
    and ev: "evicted m m1" "\<forall>s \<in> set (input_sids (calls ! k)). places m1 s = places m s"
  shows "if \<exists>j < k. touched calls s j then held calls mem (Suc k) k s (places m1 s) else places m1 s = None"
  using w held_evicted [OF ev k, of mem s] evicted_none [OF ev(1), of s] unfolding warm_ok_def by presburger

lemma held_body:
  assumes kept: "updates_kept calls" and k: "k < length calls" and s: "s \<in> set (input_sids (calls ! k))"
    and h: "held calls mem (Suc k) k s p" and mem': "s \<notin> set (call_mutates (calls ! k)) \<Longrightarrow> mem' s = mem s"
  shows "held calls mem' (Suc k) (Suc k) s (Some (Option.bind p fst, Some (mem' s)))"
proof -
  obtain h d where hd: "p = Some (h, d)" "\<forall>v. d = Some v \<longrightarrow> v = mem s" "h \<noteq> None \<longrightarrow> gap_before calls s (Suc k)"
    "current mem s p \<or> (\<exists>j < k. late_update calls s j \<and> \<not> gap_after calls s j)"
    using h unfolding held_def by blast
  have g: "gap_before calls s (Suc k) \<Longrightarrow> gap_before calls s k"
    using s unfolding gap_before_def by (metis less_antisym)
  have "current mem' s (Some (h, Some (mem' s))) \<or> (\<exists>j < Suc k. late_update calls s j \<and> \<not> gap_after calls s j)"
  proof (cases "s \<in> set (call_mutates (calls ! k)) \<and> h \<noteq> None")
    case True
    then have "late_update calls s k \<and> \<not> gap_after calls s k"
      using hd(3) g kept k unfolding late_update_def updates_kept_def by blast
    then show ?thesis by blast
  next
    case False
    then show ?thesis using hd(1,4) mem' by (auto simp: current_def less_Suc_eq)
  qed
  then show ?thesis using hd(1,3) unfolding held_def by auto
qed

lemma held_later:
  assumes "held calls mem g k s p" "k \<le> k'" "mem' s = mem s"
  shows "held calls mem' g k' s p"
proof -
  obtain h d where hd: "p = Some (h, d)" "\<forall>v. d = Some v \<longrightarrow> v = mem s" "h \<noteq> None \<longrightarrow> gap_before calls s g"
    "current mem s p \<or> ((\<exists>j < k. late_update calls s j \<and> \<not> gap_after calls s j) \<and>
        (d \<noteq> None \<or> (\<forall>i \<ge> k. \<not> touched calls s i)))"
    using assms(1) unfolding held_def by blast
  have "current mem' s p \<or> ((\<exists>j < k'. late_update calls s j \<and> \<not> gap_after calls s j) \<and>
        (d \<noteq> None \<or> (\<forall>i \<ge> k'. \<not> touched calls s i)))"
    using hd(4)
  proof (elim disjE conjE exE)
    assume "current mem s p"
    then show ?thesis using assms(3) by (simp add: current_def)
  next
    fix j assume "j < k" "late_update calls s j" "\<not> gap_after calls s j" "d \<noteq> None"
    then show ?thesis using assms(2) by (meson order.strict_trans2)
  next
    fix j assume "j < k" "late_update calls s j" "\<not> gap_after calls s j" "\<forall>i \<ge> k. \<not> touched calls s i"
    then show ?thesis using assms(2) by (meson order.strict_trans2 order.trans)
  qed
  then show ?thesis using hd(1,2,3) assms(3) unfolding held_def by auto
qed

lemma warm_body:
  assumes ok: "calls_ok calls" "updates_kept calls" and k: "k < length calls" and w: "warm_ok calls mem k m"
    and ev: "evicted m m1" "mgr_ok m1" "\<forall>s \<in> set (input_sids (calls ! k)). places m1 s = places m s"
    and plain: "plain_op (calls ! k) mem = (vs, mem')"
  shows "\<exists>m2. run_func (calls ! k) m1 = Inr (vs, m2) \<and>
    warm_ok calls mem' (Suc k) (apply_shadows env (calls ! k) vs (record_bindings (call_leaves (calls ! k))) m2)"
proof -
  let ?c = "calls ! k"
  note start = warm_start [OF k w ev(1,3)]
  have mem': "mem' s = (if writes ?c s then call_write ?c vs s else mem s)" for s
    using plain by (auto simp: plain_op_def Let_def)
  have old: "\<exists>j < k. touched calls s j" if s: "s \<in> set (input_sids ?c)" for s
  proof -
    obtain j where "j < k" "s \<in> set (output_sids (calls ! j))" using calls_ok_at(1) [OF ok(1) k s] by blast
    then show ?thesis using k by (intro exI [of _ j]) (simp add: touched_def touches_def)
  qed
  have inp: "held calls mem (Suc k) k s (places m1 s)" "touched calls s k" if "s \<in> set (input_sids ?c)" for s
    using start [of s] old [OF that] k that by (auto simp: touched_def touches_def)
  then have "\<forall>s \<in> set (input_sids ?c). readable mem s (places m1 s)" using held_readable by blast
  from reload_body [OF ev(2) this calls_ok_at(3) [OF ok(1) k] plain, of env] obtain m2 where
    m2: "run_func ?c m1 = Inr (vs, m2)"
    "mgr_ok (apply_shadows env ?c vs (record_bindings (call_leaves ?c)) m2)"
    "places (apply_shadows env ?c vs (record_bindings (call_leaves ?c)) m2) =
       (\<lambda>s. if touches ?c s then Some (Option.bind (places m1 s) fst, Some (mem' s)) else places m1 s)"
    by (auto simp: Let_def)
  have "if \<exists>j < Suc k. touched calls s j
      then held calls mem' (Suc k) (Suc k) s (if touches ?c s then Some (Option.bind (places m1 s) fst, Some (mem' s)) else places m1 s)
      else (if touches ?c s then Some (Option.bind (places m1 s) fst, Some (mem' s)) else places m1 s) = None" for s
  proof -
    consider (input) "s \<in> set (input_sids ?c)" | (fresh) "s \<in> set (output_sids ?c)" "s \<notin> set (input_sids ?c)"
      | (other) "\<not> touches ?c s" by (auto simp: touches_def)
    then show ?thesis
    proof cases
      case input
      have "s \<notin> set (call_mutates ?c) \<Longrightarrow> mem' s = mem s" using input by (simp add: mem' writes_def)
      from held_body [where mem' = mem', OF ok(2) k input inp(1) [OF input] this] show ?thesis
        using input inp(2) [OF input] by (auto simp: touches_def)
    next
      case fresh
      then have "places m1 s = None" using start [of s] calls_ok_at(2) [OF ok(1) k fresh] by (auto simp: touched_def)
      then show ?thesis using fresh k by (auto simp: touches_def touched_def held_def current_def)
    next
      case other
      have same: "mem' s = mem s" using other calls_ok_at(3) [OF ok(1) k] by (auto simp: mem' writes_def touches_def)
      have "(\<exists>j < Suc k. touched calls s j) \<longleftrightarrow> (\<exists>j < k. touched calls s j)"
        using other by (auto simp: touched_def less_Suc_eq)
      moreover have "held calls mem (Suc k) k s p \<Longrightarrow> held calls mem' (Suc k) (Suc k) s p" for p
        using held_later [of calls mem "Suc k" k s p "Suc k" mem'] same by simp
      ultimately show ?thesis using start [of s] other by auto
    qed
  qed
  then show ?thesis using m2 by (auto simp: warm_ok_def)
qed

lemma held_final:
  assumes "held calls mem g k s p"
  shows "\<exists>h d. p = Some (h, d) \<and> (\<forall>v. d = Some v \<longrightarrow> v = mem s) \<and>
    ((\<forall>j. \<not> late_update calls s j) \<longrightarrow> current mem s p)"
  using assms unfolding held_def by blast

text \<open>How a warmup ends: with the values of the plain run, or before an operator whose evictions are stuck.\<close>

definition warm_end ::
  "'v env \<Rightarrow> int \<Rightarrow> 'v op_call list \<Rightarrow> nat \<Rightarrow> 'v list list \<Rightarrow> (int \<Rightarrow> 'v) \<Rightarrow> (int \<times> nat) list \<times> 'v manager \<Rightarrow>
    ('v list list \<times> (int \<times> nat) list \<times> 'v manager) res \<Rightarrow> bool" where
  "warm_end env limit calls k log mem' st r \<longleftrightarrow> (case r of
     Inr (log', produced', m') \<Rightarrow> log' = log \<and> warm_ok calls mem' (length calls) m'
   | Inl e \<Rightarrow> e = RuntimeError \<and> (\<exists>n produced1 m1. k + n < length calls \<and>
       warmup_run env limit k (take n (drop k calls)) st = Some (Inr (take n log, produced1, m1)) \<and>
       starved env limit (set (input_sids (calls ! (k + n)))) produced1 m1))"

lemma warmup_from:
  assumes ok: "calls_ok calls" "updates_kept calls"
    and k: "k \<le> length calls" and w: "warm_ok calls mem k m" and plain: "plain_run (drop k calls) mem = (log, mem')"
  shows "\<exists>r. warmup_run env limit k (drop k calls) (produced, m) = Some r \<and> warm_end env limit calls k log mem' (produced, m) r"
  using k w plain
proof (induction "length calls - k" arbitrary: k mem m log produced)
  case 0
  then show ?case by (simp add: warm_end_def)
next
  case (Suc d)
  then have k: "k < length calls" and drop: "drop k calls = calls ! k # drop (Suc k) calls"
    by (simp_all add: Cons_nth_drop_Suc)
  obtain vs mem1 where p1: "plain_op (calls ! k) mem = (vs, mem1)" by fastforce
  obtain rest where p2: "plain_run (drop (Suc k) calls) mem1 = (rest, mem')" "log = vs # rest"
    using Suc.prems(3) p1 by (auto simp: drop split: prod.splits)
  have okm: "mgr_ok m" using Suc.prems(2) by (simp add: warm_ok_def)
  from enforce_budget_result [OF okm, of env limit "set (input_sids (calls ! k))" produced] show ?case
  proof (elim disjE conjE exE)
    assume "enforce_budget env limit (set (input_sids (calls ! k))) produced m = Some (Inl RuntimeError)"
      "starved env limit (set (input_sids (calls ! k))) produced m"
    then show ?thesis using k by (auto simp: drop warmup_dispatch_def warm_end_def intro!: exI [of _ "0::nat"])
  next
    fix m1
    assume eb: "enforce_budget env limit (set (input_sids (calls ! k))) produced m = Some (Inr m1)"
      and ev: "mgr_ok m1" "evicted m m1" "\<forall>s \<in> set (input_sids (calls ! k)). places m1 s = places m s"
    from warm_body [OF ok k Suc.prems(2) ev(2,1,3) p1] obtain m2 where
      m2: "run_func (calls ! k) m1 = Inr (vs, m2)"
      "warm_ok calls mem1 (Suc k) (apply_shadows env (calls ! k) vs (record_bindings (call_leaves (calls ! k))) m2)" by blast
    let ?st = "(note_produced k (output_sids (calls ! k)) produced,
       apply_shadows env (calls ! k) vs (record_bindings (call_leaves (calls ! k))) m2)"
    have step: "warmup_dispatch env limit k (calls ! k) (produced, m) = Some (Inr (vs, ?st))"
      using eb m2(1) by (simp add: warmup_dispatch_def)
    have "d = length calls - Suc k" "Suc k \<le> length calls" using Suc.hyps(2) k by auto
    from Suc.hyps(1) [OF this m2(2) p2(1), of "note_produced k (output_sids (calls ! k)) produced"] obtain r2 where
      r2: "warmup_run env limit (Suc k) (drop (Suc k) calls) ?st = Some r2"
      "warm_end env limit calls (Suc k) rest mem' ?st r2" by blast
    let ?r = "rbind r2 (\<lambda>(log, st). Inr (vs # log, st))"
    have run: "warmup_run env limit k (drop k calls) (produced, m) = Some ?r"
      using step r2(1) by (simp add: drop)
    have "warm_end env limit calls k log mem' (produced, m) ?r"
    proof (cases r2)
      case (Inr x)
      then show ?thesis using r2(2) by (cases x) (simp add: warm_end_def p2(2))
    next
      case (Inl e)
      then obtain n produced1 m' where n: "e = RuntimeError" "Suc k + n < length calls"
        "warmup_run env limit (Suc k) (take n (drop (Suc k) calls)) ?st = Some (Inr (take n rest, produced1, m'))"
        "starved env limit (set (input_sids (calls ! (Suc k + n)))) produced1 m'"
        using r2(2) by (auto simp: warm_end_def)
      have "warmup_run env limit k (take (Suc n) (drop k calls)) (produced, m) =
          Some (Inr (take (Suc n) log, produced1, m'))"
        using step n(3) by (simp add: drop p2(2))
      then show ?thesis using n(1,2,4) Inl unfolding warm_end_def
        by (auto simp del: take_Suc_Cons warmup_run.simps intro!: exI [of _ "Suc n"])
    qed
    then show ?thesis using run by blast
  qed
qed

text \<open>
  C29.  The warmup of a step ends.  Either every operator computes on the inputs it has without offloading, and then a
  storage on the device has its value, and one on the host too unless it was written in place after it could have been
  evicted; or the warmup raises \<open>RuntimeError\<close>, and then the operators before some operator ran with the inputs
  they have without offloading, and the eviction loop before that operator is stuck over the budget.  No other error
  can occur: an input that was evicted comes back.  It is assumed that no storage is written in place between two
  gaps in its use, where it could be evicted twice.
\<close>

theorem warmup_values:
  assumes "calls_ok calls" "updates_kept calls" "fresh_manager m" "plain_run calls mem = (log, mem')"
  shows "\<exists>r. warmup_run env limit 0 calls ([], m) = Some r \<and>
    (case r of
       Inr (log', produced, m') \<Rightarrow> log' = log \<and> (\<forall>s k. touched calls s k \<longrightarrow>
         (\<exists>h d. places m' s = Some (h, d) \<and> (\<forall>v. d = Some v \<longrightarrow> v = mem' s) \<and>
            ((\<forall>j. \<not> late_update calls s j) \<longrightarrow> current mem' s (places m' s))))
     | Inl e \<Rightarrow> e = RuntimeError \<and> (\<exists>n < length calls. \<exists>produced m1.
         warmup_run env limit 0 (take n calls) ([], m) = Some (Inr (take n log, produced, m1)) \<and>
         starved env limit (set (input_sids (calls ! n))) produced m1))"
proof -
  have "warm_ok calls mem 0 m" using assms(3) by (simp add: warm_ok_def fresh_manager_def mgr_ok_def places_def)
  then obtain r where r: "warmup_run env limit 0 calls ([], m) = Some r" "warm_end env limit calls 0 log mem' ([], m) r"
    using warmup_from [OF assms(1,2), of 0 mem m log mem' env limit "[]"] assms(4) by auto
  show ?thesis
  proof (cases r)
    case (Inl e)
    then obtain n produced1 m1 where "e = RuntimeError" "n < length calls"
      "warmup_run env limit 0 (take n calls) ([], m) = Some (Inr (take n log, produced1, m1))"
      "starved env limit (set (input_sids (calls ! n))) produced1 m1"
      using r(2) by (auto simp: warm_end_def)
    then show ?thesis using r(1) Inl by (intro exI [of _ r]) (simp, blast)
  next
    case (Inr x)
    obtain log' produced m' where x: "x = (log', produced, m')" by (cases x)
    have ok: "log' = log" "warm_ok calls mem' (length calls) m'" using r(2) by (simp_all add: warm_end_def Inr x)
    have "held calls mem' (length calls) (length calls) s (places m' s)" if "touched calls s k" for s k
      using ok(2) that unfolding warm_ok_def by (metis touched_def)
    then have all: "\<forall>s k. touched calls s k \<longrightarrow> (\<exists>h d. places m' s = Some (h, d) \<and> (\<forall>v. d = Some v \<longrightarrow> v = mem' s) \<and>
        ((\<forall>j. \<not> late_update calls s j) \<longrightarrow> current mem' s (places m' s)))"
      using held_final by metis
    have run: "warmup_run env limit 0 calls ([], m) = Some (Inr (log', produced, m'))" using r(1) by (simp add: Inr x)
    show ?thesis
      by (rule exI [of _ "Inr (log', produced, m')"], simp only: sum.case prod.case, intro conjI run ok(1) all)
  qed
qed

text \<open>A step under a tight budget that reloads an evicted storage, and writes it in place before its last use.\<close>

definition update_step :: "(int \<times> int) op_call list" where
  "update_step = [make_op 1 100, make_op 2 80, read_op 2, add_op 1 100, read_op 1]"

declare enforce_budget.simps [code]

lemma update_run:
  "map_option (\<lambda>r. fst (projr r)) (warmup_run demo_env 120 0 update_step ([], demo_manager)) =
     Some [[], [], [(80, 2)], [(100, 1)], [(100, 2)]]"
  "map_option isl (warmup_run demo_env 120 0 update_step ([], demo_manager)) = Some False"
  by code_simp+

theorem warmup_values_witness:
  "\<exists>produced m'. warmup_run demo_env 120 0 update_step ([], demo_manager) =
      Some (Inr ([[], [], [(80, 2)], [(100, 1)], [(100, 2)]], produced, m')) \<and>
    (\<exists>h. places m' 1 = Some (h, None) \<or> places m' 1 = Some (h, Some (100, 2)))"
proof -
  have ok: "calls_ok update_step" by code_simp
  have kept: "updates_kept update_step" by code_simp
  have log: "fst (plain_run update_step (\<lambda>_. (0, 0))) = [[], [], [(80, 2)], [(100, 1)], [(100, 2)]]" by code_simp
  have mem: "snd (plain_run update_step (\<lambda>_. (0, 0))) 1 = (100, 2)" by code_simp
  have touched: "touched update_step 1 0" by code_simp
  have plain: "plain_run update_step (\<lambda>_. (0, 0)) =
      ([[], [], [(80, 2)], [(100, 1)], [(100, 2)]], snd (plain_run update_step (\<lambda>_. (0, 0))))"
    by (metis log prod.collapse)
  obtain produced m' where run: "warmup_run demo_env 120 0 update_step ([], demo_manager) =
      Some (Inr ([[], [], [(80, 2)], [(100, 1)], [(100, 2)]], produced, m'))"
    using update_run by (auto simp: isl_def split: sum.splits) (metis obj_sumE prod.exhaust_sel sum.sel(2))
  have "\<exists>h d. places m' 1 = Some (h, d) \<and> (\<forall>v. d = Some v \<longrightarrow> v = (100, 2))"
    using warmup_values [OF ok kept demo_fresh plain, of demo_env 120] touched
    unfolding run option.inject mem by (auto simp: mem)
  then obtain h d where "places m' 1 = Some (h, d)" "\<forall>v. d = Some v \<longrightarrow> v = (100, 2)" by blast
  then show ?thesis using run by (cases d) auto
qed

text \<open>
  The excluded case: storage 1 is evicted, written in place, and evicted again.  The last operator reads the data from
  before the write.
\<close>

definition twice_evicted_step :: "(int \<times> int) op_call list" where
  "twice_evicted_step = [make_op 1 100, make_op 2 80, read_op 2, add_op 1 100, make_op 3 80, read_op 3, read_op 1]"

lemma warmup_reloads_stale_data:
  "\<not> updates_kept twice_evicted_step"
  "map_option (\<lambda>r. fst (projr r)) (warmup_run demo_env 120 0 twice_evicted_step ([], demo_manager)) =
     Some [[], [], [(80, 2)], [(100, 1)], [], [(80, 3)], [(100, 1)]]"
  "fst (plain_run twice_evicted_step (\<lambda>_. (0, 0))) = [[], [], [(80, 2)], [(100, 1)], [], [(80, 3)], [(100, 2)]]"
  by code_simp+

end
