(* ===== verification/Dict.thy ===== *)
theory Dict
  imports Prelude "HOL-Library.AList"
begin

text \<open>
  Python's dictionaries keep the order of insertion, so they are modelled as association lists:
  \<open>AList.update\<close> overwrites the entry of a key in place or appends a new entry, \<open>map_of\<close> looks one up.
  This theory has the loop that fills a dictionary entry by entry (\<open>setdefault\<close>, \<open>defaultdict\<close>, or a
  \<open>get\<close> with a first-sight branch) and what the result holds for every key.
\<close>

definition dict_collect ::
  "('a \<Rightarrow> 'k) \<Rightarrow> ('a \<Rightarrow> 'v) \<Rightarrow> ('a \<Rightarrow> 'v \<Rightarrow> 'v) \<Rightarrow> 'a list \<Rightarrow> ('k \<times> 'v) list \<Rightarrow> ('k \<times> 'v) list" where
  "dict_collect key ini upd xs d = fold (\<lambda>x. AList.map_default (key x) (ini x) (upd x)) xs d"

lemma map_default_keys: "map fst (AList.map_default k v f d) = (if k \<in> fst ` set d then map fst d else map fst d @ [k])"
  by (induction d) auto

lemma map_default_lookup:
  "map_of (AList.map_default k v f d) k' =
    (if k' = k then Some (case map_of d k of None \<Rightarrow> v | Some w \<Rightarrow> f w) else map_of d k')"
  by (induction d) auto

lemma collect_lookup_acc:
  "map_of (dict_collect key ini upd xs d) k =
    (case filter (\<lambda>x. key x = k) xs of
       [] \<Rightarrow> map_of d k
     | y # ys \<Rightarrow> Some (case map_of d k of None \<Rightarrow> fold upd ys (ini y) | Some v \<Rightarrow> fold upd (y # ys) v))"
proof (induction xs arbitrary: d)
  case Nil
  then show ?case by (simp add: dict_collect_def)
next
  case (Cons x xs)
  have "dict_collect key ini upd (x # xs) d =
      dict_collect key ini upd xs (AList.map_default (key x) (ini x) (upd x) d)"
    by (simp add: dict_collect_def)
  then show ?case using Cons.IH [of "AList.map_default (key x) (ini x) (upd x) d"]
    by (auto simp: map_default_lookup split: list.splits option.splits)
qed

lemma collect_lookup:
  "map_of (dict_collect key ini upd xs []) k =
    (case filter (\<lambda>x. key x = k) xs of [] \<Rightarrow> None | y # ys \<Rightarrow> Some (fold upd ys (ini y)))"
  by (simp add: collect_lookup_acc split: list.splits)

lemma collect_keys:
  "distinct (map fst d) \<Longrightarrow> distinct (map fst (dict_collect key ini upd xs d)) \<and>
    fst ` set (dict_collect key ini upd xs d) = key ` set xs \<union> fst ` set d"
proof (induction xs arbitrary: d)
  case Nil
  then show ?case by (simp add: dict_collect_def)
next
  case (Cons x xs)
  let ?d = "AList.map_default (key x) (ini x) (upd x) d"
  have step: "dict_collect key ini upd (x # xs) d = dict_collect key ini upd xs ?d" by (simp add: dict_collect_def)
  have "distinct (map fst ?d)" using Cons.prems by (auto simp: map_default_keys)
  moreover have "fst ` set ?d = insert (key x) (fst ` set d)"
    by (metis list.set_map map_default_keys insert_absorb set_append list.set(1,2) Un_insert_right sup_bot_right)
  ultimately show ?case using Cons.IH [of ?d] unfolding step by auto
qed

lemmas collect_distinct = collect_keys [of "[]", simplified, THEN conjunct1]
lemmas collect_dom = collect_keys [of "[]", simplified, THEN conjunct2]

lemma collect_entry:
  assumes "(k, v) \<in> set (dict_collect key ini upd xs [])"
  obtains y ys where "filter (\<lambda>x. key x = k) xs = y # ys" "v = fold upd ys (ini y)"
proof -
  have "map_of (dict_collect key ini upd xs []) k = Some v"
    using assms collect_distinct by (metis map_of_is_SomeI)
  then show ?thesis using that by (auto simp: collect_lookup split: list.splits)
qed

text \<open>Grouping: \<open>d.setdefault(key(x), []).append(x)\<close> for every \<open>x\<close>.\<close>

definition group_by :: "('a \<Rightarrow> 'k) \<Rightarrow> 'a list \<Rightarrow> ('k \<times> 'a list) list" where
  "group_by key xs = dict_collect key (\<lambda>x. [x]) (\<lambda>x ys. ys @ [x]) xs []"

lemma fold_snoc: "fold (\<lambda>x ys. ys @ [f x]) xs acc = acc @ map f xs"
  by (induction xs arbitrary: acc) auto

lemma fold_snoc_id [simp]: "fold (\<lambda>x ys. ys @ [x]) xs acc = acc @ xs"
  by (induction xs arbitrary: acc) auto

lemma group_lookup:
  "map_of (group_by key xs) k = (if k \<in> key ` set xs then Some (filter (\<lambda>x. key x = k) xs) else None)"
proof (cases "filter (\<lambda>x. key x = k) xs")
  case Nil
  then show ?thesis by (auto simp: group_by_def collect_lookup filter_empty_conv)
next
  case (Cons y ys)
  then have "y \<in> set xs \<and> key y = k" using filter_eq_ConsD [OF Cons] by auto
  then show ?thesis using Cons by (auto simp: group_by_def collect_lookup)
qed

lemma group_distinct: "distinct (map fst (group_by key xs))"
  by (simp add: group_by_def collect_distinct)

lemma group_dom: "fst ` set (group_by key xs) = key ` set xs"
  by (simp add: group_by_def collect_dom)

lemma group_entry: "(k, ys) \<in> set (group_by key xs) \<Longrightarrow> ys = filter (\<lambda>x. key x = k) xs \<and> ys \<noteq> []"
  using group_lookup [of key xs k] group_distinct [of key xs] map_of_is_SomeI [of "group_by key xs" k ys]
  by (auto simp: filter_empty_conv split: if_splits)

lemma group_iff: "(k, ys) \<in> set (group_by key xs) \<longleftrightarrow> ys = filter (\<lambda>x. key x = k) xs \<and> ys \<noteq> []"
proof
  assume ys: "ys = filter (\<lambda>x. key x = k) xs \<and> ys \<noteq> []"
  then have "k \<in> key ` set xs" by (auto simp: filter_empty_conv)
  then have "map_of (group_by key xs) k = Some ys" using ys by (simp add: group_lookup)
  then show "(k, ys) \<in> set (group_by key xs)" by (rule map_of_SomeD)
qed (rule group_entry)

text \<open>\<open>d.update(e)\<close>.\<close>

definition dict_merge :: "('k \<times> 'v) list \<Rightarrow> ('k \<times> 'v) list \<Rightarrow> ('k \<times> 'v) list" where
  "dict_merge d e = fold (\<lambda>(k, v). AList.update k v) e d"

lemma merge_lookup: "map_of (dict_merge d e) k = (case map_of (rev e) k of None \<Rightarrow> map_of d k | Some v \<Rightarrow> Some v)"
  by (induction e arbitrary: d) (auto simp: dict_merge_def update_conv' map_add_def split: option.splits)

lemma merge_lookup_distinct:
  "distinct (map fst e) \<Longrightarrow> map_of (dict_merge d e) k = (case map_of e k of None \<Rightarrow> map_of d k | Some v \<Rightarrow> Some v)"
proof (induction e arbitrary: d)
  case (Cons x e)
  have step: "dict_merge d (x # e) = dict_merge (AList.update (fst x) (snd x) d) e" by (simp add: dict_merge_def case_prod_unfold)
  have "fst x = k \<Longrightarrow> map_of e k = None" using Cons.prems by (auto simp: map_of_eq_None_iff)
  then show ?case using Cons.IH [of "AList.update (fst x) (snd x) d"] Cons.prems
    unfolding step by (cases x) (auto simp: update_conv' split: option.splits)
qed (simp add: dict_merge_def)

lemma update_mem: "x \<in> set (AList.update k v d) \<Longrightarrow> x = (k, v) \<or> x \<in> set d"
  by (induction d) (auto split: if_splits)

end
