(* ===== verification/CkptPlan.thy ===== *)
theory CkptPlan
  imports Dict "HOL-Library.Multiset"
begin

text \<open>
  The data of a distributed checkpoint (\<open>core/distributed_checkpoint/metadata.py\<close>, \<open>planner.py\<close>) and the
  decision which rank writes an item that several ranks hold (\<open>plan_ownership_masks\<close> of \<open>utils.py\<close>).
\<close>

section \<open>Metadata\<close>

record metadata_index =
  mi_fqn :: string
  mi_offset :: "int list"
  mi_index :: "int option"

text \<open>
  \<open>MetadataIndex\<close> compares and hashes by name and offset only; this is the key it is in a dictionary.
\<close>

type_synonym index_key = "string \<times> int list"

definition mi_key :: "metadata_index \<Rightarrow> index_key" where
  "mi_key m = (mi_fqn m, mi_offset m)"

record chunk =
  ch_offsets :: "int list"
  ch_sizes :: "int list"

record tensor_properties =
  tp_dtype :: "string option"
  tp_requires_grad :: bool
  tp_memory_format :: "string option"

record tensor_storage =
  ts_properties :: tensor_properties
  ts_size :: "int list"
  ts_chunks :: "chunk list"

datatype storage_metadata = TensorStorage tensor_storage | BytesStorage

definition dtype_element_sizes :: "(string \<times> int) list" where
  "dtype_element_sizes =
     [(''bfloat16'', 2), (''float16'', 2), (''float32'', 4), (''float64'', 8), (''int8'', 1), (''int16'', 2),
      (''int32'', 4), (''int64'', 8), (''bool'', 1)]"

text \<open>\<open>str.lower\<close> on ASCII letters and the substring test \<open>in\<close>.\<close>

definition lower_ascii :: "char \<Rightarrow> char" where
  "lower_ascii c = (if 65 \<le> (of_char c :: nat) \<and> (of_char c :: nat) \<le> 90 then char_of ((of_char c :: nat) + 32) else c)"

fun contains :: "string \<Rightarrow> string \<Rightarrow> bool" where
  "contains name [] = (name = [])"
| "contains name (c # cs) = (take (length name) (c # cs) = name \<or> contains name cs)"

fun scan_dtypes :: "(string \<times> int) list \<Rightarrow> string \<Rightarrow> int" where
  "scan_dtypes [] lowered = 4"
| "scan_dtypes ((name, element_size) # table) lowered =
     (if contains name lowered then element_size else scan_dtypes table lowered)"

definition dtype_element_size :: "string option \<Rightarrow> int" where
  "dtype_element_size dtype = (case dtype of None \<Rightarrow> 4 | Some key \<Rightarrow> scan_dtypes dtype_element_sizes (map lower_ascii key))"

section \<open>Plans\<close>

datatype item_type = Tensor | ByteIO

record tensor_data =
  td_chunk :: chunk
  td_properties :: tensor_properties
  td_size :: "int list"

record write_item =
  wi_index :: metadata_index
  wi_type :: item_type
  wi_data :: "tensor_data option"

definition tensor_storage_size :: "write_item \<Rightarrow> int option" where
  "tensor_storage_size item =
     (case (wi_type item, wi_data item) of
        (Tensor, Some data) \<Rightarrow>
          let num = prod_list (ch_sizes (td_chunk data)) in
          (case tp_dtype (td_properties data) of None \<Rightarrow> Some num | Some dtype \<Rightarrow> Some (num * dtype_element_size (Some dtype)))
      | _ \<Rightarrow> None)"

datatype key_part = Name string | Pos nat

type_synonym name_mapping = "(string \<times> key_part list) list"

record save_plan =
  sp_items :: "write_item list"
  sp_planner_data :: "name_mapping option"

section \<open>Who writes an item\<close>

text \<open>The plans that hold an item, with its position in each: the flat list the code keeps, in pairs.\<close>

type_synonym holders = "(nat \<times> nat) list"

definition note_occurrence :: "nat \<Rightarrow> nat \<times> write_item \<Rightarrow>
    (index_key \<times> write_item \<times> holders) list \<Rightarrow> (index_key \<times> write_item \<times> holders) list" where
  "note_occurrence plan_idx pe = (case pe of (position, entry) \<Rightarrow>
     AList.map_default (mi_key (wi_index entry)) (entry, [(plan_idx, position)]) (\<lambda>(e, hs). (e, hs @ [(plan_idx, position)])))"

definition occurrences_by_index :: "save_plan list \<Rightarrow> (index_key \<times> write_item \<times> holders) list" where
  "occurrences_by_index all_plans =
     fold (\<lambda>(plan_idx, plan). fold (note_occurrence plan_idx) (enumerate 0 (sp_items plan))) (enumerate 0 all_plans) []"

fun least_loaded_loop :: "holders \<Rightarrow> int list \<Rightarrow> nat \<times> nat \<Rightarrow> int \<Rightarrow> nat \<times> nat" where
  "least_loaded_loop [] storage_sizes best best_size = best"
| "least_loaded_loop (slot # slots) storage_sizes best best_size =
     (let load = storage_sizes ! fst slot in
      if load < best_size then least_loaded_loop slots storage_sizes slot load
      else least_loaded_loop slots storage_sizes best best_size)"

definition least_loaded_owner_slot :: "holders \<Rightarrow> int list \<Rightarrow> nat \<times> nat" where
  "least_loaded_owner_slot occurrences storage_sizes =
     least_loaded_loop (tl occurrences) storage_sizes (hd occurrences) (storage_sizes ! fst (hd occurrences))"

type_synonym mask_state = "bool list list \<times> int list"

definition keep_item :: "int \<Rightarrow> nat \<times> nat \<Rightarrow> mask_state \<Rightarrow> mask_state" where
  "keep_item item_size slot st = (case slot of (p, position) \<Rightarrow> case st of (masks, storage_sizes) \<Rightarrow>
     (masks[p := (masks ! p)[position := True]], storage_sizes[p := storage_sizes ! p + item_size]))"

text \<open>\<open>item.tensor_storage_size() or 1\<close>: an item without a size, or with size 0, counts as 1.\<close>

definition planned_size :: "write_item \<Rightarrow> int" where
  "planned_size item = (case tensor_storage_size item of None \<Rightarrow> 1 | Some n \<Rightarrow> if n = 0 then 1 else n)"

definition place_unique :: "index_key \<times> write_item \<times> holders \<Rightarrow>
    mask_state \<times> (int \<times> holders) list \<Rightarrow> mask_state \<times> (int \<times> holders) list" where
  "place_unique occ acc = (case occ of (_, entry, occurrences) \<Rightarrow> case acc of (st, duplicates) \<Rightarrow>
     if 1 < length occurrences then (st, duplicates @ [(planned_size entry, occurrences)])
     else (keep_item (planned_size entry) (hd occurrences) st, duplicates))"

definition place_duplicate :: "bool \<Rightarrow> int \<times> holders \<Rightarrow> mask_state \<Rightarrow> mask_state" where
  "place_duplicate save_to_minimum_rank dup st = (case dup of (item_size, occurrences) \<Rightarrow>
     keep_item item_size
       (if save_to_minimum_rank then hd occurrences else least_loaded_owner_slot occurrences (snd st)) st)"

definition plan_ownership_masks :: "bool \<Rightarrow> save_plan list \<Rightarrow> bool list list" where
  "plan_ownership_masks save_to_minimum_rank all_plans =
     (let masks = map (\<lambda>plan. replicate (length (sp_items plan)) False) all_plans;
          storage_sizes = replicate (length all_plans) 0;
          (st, duplicates) = fold place_unique (occurrences_by_index all_plans) ((masks, storage_sizes), []);
          ordered = (if save_to_minimum_rank then duplicates else sort_key (\<lambda>d. - fst d) duplicates)
      in fst (fold (place_duplicate save_to_minimum_rank) ordered st))"

section \<open>The occurrences\<close>

text \<open>All items of all plans with where they are, in the order of the gather.\<close>

definition plan_entries :: "save_plan list \<Rightarrow> (nat \<times> nat \<times> write_item) list" where
  "plan_entries plans = concat (map (\<lambda>(p, plan). map (\<lambda>(i, e). (p, i, e)) (enumerate 0 (sp_items plan))) (enumerate 0 plans))"

definition entry_key :: "nat \<times> nat \<times> write_item \<Rightarrow> index_key" where
  "entry_key x = mi_key (wi_index (snd (snd x)))"

lemma plan_entries_iff:
  "(p, i, e) \<in> set (plan_entries plans) \<longleftrightarrow> p < length plans \<and> i < length (sp_items (plans ! p)) \<and> e = sp_items (plans ! p) ! i"
  by (force simp: plan_entries_def in_set_enumerate_eq)

lemma plan_entries_distinct: "distinct (map (\<lambda>(p, i, e). (p, i)) (plan_entries plans))"
proof -
  have block: "map ((\<lambda>(p, i, e). (p, i)) \<circ> Pair p) (enumerate 0 items) = map (Pair p) [0..<length items]"
    for p and items :: "write_item list"
    by (rule nth_equalityI) (auto simp: nth_enumerate_eq)
  have "map (\<lambda>(p, i, e). (p, i)) (concat (map (\<lambda>(p, plan). map (\<lambda>(i, e). (p, i, e)) (enumerate 0 (sp_items plan))) (enumerate n plans))) =
      concat (map (\<lambda>(p, plan). map (Pair p) [0..<length (sp_items plan)]) (enumerate n plans))" for n
    unfolding map_concat map_map by (rule arg_cong [of _ _ concat]) (auto simp: block)
  moreover have "distinct (concat (map (\<lambda>(p, plan). map (Pair p) [0..<length (sp_items plan)]) (enumerate n plans)))" for n
    by (induction plans arbitrary: n) (auto simp: distinct_map inj_on_def in_set_enumerate_eq)
  ultimately show ?thesis by (simp add: plan_entries_def)
qed

lemma occurrences_collect:
  "occurrences_by_index plans =
    dict_collect entry_key (\<lambda>(p, i, e). (e, [(p, i)])) (\<lambda>(p, i, _) (e, hs). (e, hs @ [(p, i)])) (plan_entries plans) []"
proof -
  have "fold (\<lambda>(p, plan). fold (note_occurrence p) (enumerate 0 (sp_items plan))) ps d =
      dict_collect entry_key (\<lambda>(p, i, e). (e, [(p, i)])) (\<lambda>(p, i, _) (e, hs). (e, hs @ [(p, i)]))
        (concat (map (\<lambda>(p, plan). map (\<lambda>(i, e). (p, i, e)) (enumerate 0 (sp_items plan))) ps)) d" for ps d
    by (induction ps arbitrary: d)
      (auto simp: dict_collect_def fold_map comp_def case_prod_unfold note_occurrence_def [abs_def] entry_key_def)
  then show ?thesis by (simp add: occurrences_by_index_def plan_entries_def)
qed

text \<open>An entry of the dictionary: the plans that hold the item, in the order of the gather, never none.\<close>

definition holders_of :: "save_plan list \<Rightarrow> index_key \<Rightarrow> holders" where
  "holders_of plans k = map (\<lambda>(p, i, e). (p, i)) (filter (\<lambda>x. entry_key x = k) (plan_entries plans))"

definition item_at :: "save_plan list \<Rightarrow> nat \<times> nat \<Rightarrow> write_item" where
  "item_at plans slot = sp_items (plans ! fst slot) ! snd slot"

definition holds_item :: "save_plan list \<Rightarrow> index_key \<Rightarrow> nat \<times> nat \<Rightarrow> bool" where
  "holds_item plans k slot \<longleftrightarrow> fst slot < length plans \<and> snd slot < length (sp_items (plans ! fst slot)) \<and>
     mi_key (wi_index (item_at plans slot)) = k"

lemma holders_of_iff: "slot \<in> set (holders_of plans k) \<longleftrightarrow> holds_item plans k slot"
proof (cases slot)
  case (Pair p i)
  have "slot \<in> set (holders_of plans k) \<longleftrightarrow> (\<exists>e. (p, i, e) \<in> set (plan_entries plans) \<and> entry_key (p, i, e) = k)"
    by (auto simp: holders_of_def Pair image_iff)
  then show ?thesis by (auto simp: plan_entries_iff holds_item_def item_at_def entry_key_def Pair)
qed

lemma collect_holders:
  "fold (\<lambda>(p, i, _) (e, hs). (e, hs @ [(p, i)])) xs (e0, hs) = (e0, hs @ map (\<lambda>(p, i, e). (p, i)) xs)"
  by (induction xs arbitrary: hs) auto

lemma occurrence_entry:
  assumes "(k, e, hs) \<in> set (occurrences_by_index plans)"
  shows "hs = holders_of plans k" "hs \<noteq> []" "e = item_at plans (hd hs)"
proof -
  obtain y ys where f: "filter (\<lambda>x. entry_key x = k) (plan_entries plans) = y # ys"
    and v: "(e, hs) = fold (\<lambda>(p, i, _) (e, hs). (e, hs @ [(p, i)])) ys ((\<lambda>(p, i, e). (e, [(p, i)])) y)"
    using assms unfolding occurrences_collect by (rule collect_entry)
  obtain p i e' where y: "y = (p, i, e')" by (cases y)
  have "y \<in> set (plan_entries plans)" using filter_eq_ConsD [OF f] by auto
  then have e': "e' = item_at plans (p, i)" by (simp add: y plan_entries_iff item_at_def)
  show "hs = holders_of plans k" using v by (simp add: holders_of_def f y collect_holders)
  then show "hs \<noteq> []" by (simp add: holders_of_def f)
  show "e = item_at plans (hd hs)" using v e' by (simp add: y collect_holders)
qed

lemma occurrences_distinct: "distinct (map fst (occurrences_by_index plans))"
  unfolding occurrences_collect by (rule collect_distinct)

lemma occurrences_dom: "k \<in> fst ` set (occurrences_by_index plans) \<longleftrightarrow> (\<exists>slot. holds_item plans k slot)"
proof -
  have "k \<in> fst ` set (occurrences_by_index plans) \<longleftrightarrow> (\<exists>x \<in> set (plan_entries plans). entry_key x = k)"
    unfolding occurrences_collect collect_dom by auto
  also have "\<dots> \<longleftrightarrow> (\<exists>slot. holds_item plans k slot)"
    by (auto simp: plan_entries_iff holds_item_def item_at_def entry_key_def Bex_def split_paired_Ex)
  finally show ?thesis .
qed

section \<open>The masks as a list of picks\<close>

definition set_slots :: "(nat \<times> nat) list \<Rightarrow> bool list list \<Rightarrow> bool list list" where
  "set_slots picks masks = fold (\<lambda>(p, i) ms. ms[p := (ms ! p)[i := True]]) picks masks"

lemma set_slots_nth:
  assumes "p < length masks" "i < length (masks ! p)"
  shows "set_slots picks masks ! p ! i \<longleftrightarrow> (p, i) \<in> set picks \<or> masks ! p ! i"
  using assms
proof (induction picks arbitrary: masks)
  case (Cons s picks)
  obtain q j where s: "s = (q, j)" by (cases s)
  have "set_slots (s # picks) masks = set_slots picks (masks[q := (masks ! q)[j := True]])" by (simp add: set_slots_def s)
  moreover have "i < length (masks[q := (masks ! q)[j := True]] ! p)" using Cons.prems by (cases "q = p") auto
  ultimately show ?case using Cons by (cases "q = p"; cases "j = i") (auto simp: s)
qed (simp add: set_slots_def)

lemma set_slots_shape: "map length (set_slots picks masks) = map length masks"
proof (induction picks arbitrary: masks)
  case (Cons s picks)
  obtain q j where s: "s = (q, j)" by (cases s)
  have "map length (masks[q := (masks ! q)[j := True]]) = map length masks"
    by (cases "q < length masks") (simp_all add: map_update list_update_same_conv list_update_beyond)
  then show ?case using Cons by (simp add: set_slots_def s)
qed (simp add: set_slots_def)

lemma least_loaded_mem: "least_loaded_loop hs sizes best b \<in> insert best (set hs)"
  by (induction hs arbitrary: best b) (auto simp: Let_def)

lemma least_loaded_owner_mem: "hs \<noteq> [] \<Longrightarrow> least_loaded_owner_slot hs sizes \<in> set hs"
  unfolding least_loaded_owner_slot_def using least_loaded_mem [of "tl hs" sizes "hd hs"]
  by (cases hs) auto

lemma keep_item_masks: "fst (keep_item n slot st) = set_slots [slot] (fst st)"
  by (cases slot; cases st) (simp add: keep_item_def set_slots_def)

lemma set_slots_append: "set_slots (xs @ ys) ms = set_slots ys (set_slots xs ms)"
  by (simp add: set_slots_def)

lemma place_unique_fold:
  assumes "\<forall>(k, e, hs) \<in> set occ. hs \<noteq> []"
  shows "\<exists>picks st' dups'. fold place_unique occ (st, dups) = (st', dups @ dups') \<and> fst st' = set_slots picks (fst st) \<and>
    picks = map (\<lambda>(k, e, hs). hd hs) (filter (\<lambda>(k, e, hs). length hs \<le> 1) occ) \<and>
    dups' = map (\<lambda>(k, e, hs). (planned_size e, hs)) (filter (\<lambda>(k, e, hs). 1 < length hs) occ)"
  using assms
proof (induction occ arbitrary: st dups)
  case (Cons o1 occ)
  obtain k e hs where o1: "o1 = (k, e, hs)" by (cases o1)
  show ?case
  proof (cases "1 < length hs")
    case True
    then show ?thesis using Cons.IH [of st "dups @ [(planned_size e, hs)]"] Cons.prems
      by (auto simp: o1 place_unique_def)
  next
    case False
    then show ?thesis using Cons.IH [of "keep_item (planned_size e) (hd hs) st" dups] Cons.prems
      by (auto simp: o1 place_unique_def keep_item_masks set_slots_append [symmetric])
  qed
qed (auto simp: set_slots_def)

lemma place_duplicates_fold:
  assumes "\<forall>d \<in> set dups. snd d \<noteq> []"
  shows "\<exists>picks. fst (fold (place_duplicate mr) dups st) = set_slots picks (fst st) \<and>
    list_all2 (\<lambda>d slot. slot \<in> set (snd d) \<and> (mr \<longrightarrow> slot = hd (snd d))) dups picks"
  using assms
proof (induction dups arbitrary: st)
  case (Cons d dups)
  let ?slot = "if mr then hd (snd d) else least_loaded_owner_slot (snd d) (snd st)"
  have step: "place_duplicate mr d st = keep_item (fst d) ?slot st" by (simp add: place_duplicate_def case_prod_unfold)
  obtain picks where "fst (fold (place_duplicate mr) dups (keep_item (fst d) ?slot st)) = set_slots picks (set_slots [?slot] (fst st))"
      "list_all2 (\<lambda>d slot. slot \<in> set (snd d) \<and> (mr \<longrightarrow> slot = hd (snd d))) dups picks"
    using Cons.IH [of "keep_item (fst d) ?slot st"] Cons.prems by (auto simp: keep_item_masks)
  moreover have "?slot \<in> set (snd d)" using Cons.prems by (simp add: least_loaded_owner_mem)
  ultimately show ?case
    by (intro exI [of _ "?slot # picks"]) (simp add: step set_slots_append [of "[?slot]", symmetric, simplified])
qed (simp add: set_slots_def)


lemma holders_key: "s \<in> set (holders_of plans k) \<Longrightarrow> s \<in> set (holders_of plans k') \<Longrightarrow> k = k'"
  by (auto simp: holders_of_iff holds_item_def)

lemma occurrences_holders_distinct: "distinct (map (\<lambda>(k, e, hs). hs) (occurrences_by_index plans))"
proof -
  have "map (\<lambda>(k, e, hs). hs) (occurrences_by_index plans) = map (holders_of plans) (map fst (occurrences_by_index plans))"
    by (auto dest: occurrence_entry(1))
  moreover have "inj_on (holders_of plans) (fst ` set (occurrences_by_index plans))"
  proof (rule inj_onI)
    fix k k' assume k: "k \<in> fst ` set (occurrences_by_index plans)" and eq: "holders_of plans k = holders_of plans k'"
    obtain s where "s \<in> set (holders_of plans k)" using k by (auto simp: occurrences_dom holders_of_iff)
    then show "k = k'" using eq holders_key by metis
  qed
  then have "distinct (map (holders_of plans) (map fst (occurrences_by_index plans)))"
    using occurrences_distinct [of plans] by (simp only: distinct_map set_map simp_thms)
  ultimately show ?thesis by (simp only:)
qed

lemma masks_picks:
  fixes plans :: "save_plan list"
  defines "occ \<equiv> occurrences_by_index plans"
  obtains dups :: "(int \<times> holders) list" and picks where
    "plan_ownership_masks mr plans =
       set_slots (map (\<lambda>(k, e, hs). hd hs) (filter (\<lambda>(k, e, hs). length hs \<le> 1) occ) @ picks)
         (map (\<lambda>plan. replicate (length (sp_items plan)) False) plans)"
    "list_all2 (\<lambda>d slot. slot \<in> set (snd d) \<and> (mr \<longrightarrow> slot = hd (snd d))) dups picks"
    "set (map snd dups) = (\<lambda>(k, e, hs). hs) ` {x \<in> set occ. case x of (k, e, hs) \<Rightarrow> 1 < length hs}" "distinct (map snd dups)"
proof -
  let ?start = "(map (\<lambda>plan. replicate (length (sp_items plan)) False) plans, replicate (length plans) (0 :: int))"
  have ne: "\<forall>(k, e, hs) \<in> set occ. hs \<noteq> []" by (auto simp: occ_def dest!: occurrence_entry(2))
  obtain st dups where first: "fold place_unique occ (?start, []) = (st, dups)"
    "fst st = set_slots (map (\<lambda>(k, e, hs). hd hs) (filter (\<lambda>(k, e, hs). length hs \<le> 1) occ)) (fst ?start)"
    "dups = map (\<lambda>(k, e, hs). (planned_size e, hs)) (filter (\<lambda>(k, e, hs). 1 < length hs) occ)"
    using place_unique_fold [OF ne, of ?start "[]"] by auto
  let ?dups = "if mr then dups else sort_key (\<lambda>d. - fst d) dups"
  have mset: "mset ?dups = mset dups" by simp
  have "\<forall>d \<in> set ?dups. snd d \<noteq> []"
    using ne unfolding mset_eq_setD [OF mset] first(3) by auto
  from place_duplicates_fold [OF this, of mr st] obtain picks where second:
    "fst (fold (place_duplicate mr) ?dups st) = set_slots picks (fst st)"
    "list_all2 (\<lambda>d slot. slot \<in> set (snd d) \<and> (mr \<longrightarrow> slot = hd (snd d))) ?dups picks" by blast
  show ?thesis
  proof (rule that [of picks ?dups])
    show "plan_ownership_masks mr plans =
       set_slots (map (\<lambda>(k, e, hs). hd hs) (filter (\<lambda>(k, e, hs). length hs \<le> 1) occ) @ picks)
         (map (\<lambda>plan. replicate (length (sp_items plan)) False) plans)"
      using first(1) second(1) by (simp add: plan_ownership_masks_def Let_def occ_def [symmetric] set_slots_append first(2))
    have snds: "map snd dups = map (\<lambda>(k, e, hs). hs) (filter (\<lambda>(k, e, hs). 1 < length hs) occ)"
      by (auto simp: first(3))
    have same: "mset (map snd ?dups) = mset (map snd dups)" using mset by (metis mset_map)
    show "set (map snd ?dups) = (\<lambda>(k, e, hs). hs) ` {x \<in> set occ. case x of (k, e, hs) \<Rightarrow> 1 < length hs}"
      unfolding mset_eq_setD [OF same] snds by (simp only: set_map set_filter)
    show "distinct (map snd ?dups)"
      unfolding mset_eq_imp_distinct_iff [OF same] snds
      using occurrences_holders_distinct [of plans] by (simp add: occ_def distinct_map_filter)
  qed (rule second(2))
qed

lemma occurrence_exists: "holds_item plans k s \<Longrightarrow> \<exists>e hs. (k, e, hs) \<in> set (occurrences_by_index plans)"
  using occurrences_dom [of k plans] by (metis (no_types) imageE prod.collapse)

lemma one_pick:
  fixes dups :: "(int \<times> holders) list"
  assumes picks: "list_all2 (\<lambda>d slot. slot \<in> set (snd d) \<and> (mr \<longrightarrow> slot = hd (snd d))) dups picks"
    and dups: "set (map snd dups) = (\<lambda>(k, e, hs). hs) ` {x \<in> set (occurrences_by_index plans). case x of (k, e, hs) \<Rightarrow> 1 < length hs}"
      "distinct (map snd dups)"
    and item: "holds_item plans k s0"
  shows "\<exists>!slot. holds_item plans k slot \<and>
    slot \<in> set (map (\<lambda>(k, e, hs). hd hs) (filter (\<lambda>(k, e, hs). length hs \<le> 1) (occurrences_by_index plans)) @ picks)"
proof -
  let ?occ = "occurrences_by_index plans"
  let ?uniq = "map (\<lambda>(k, e, hs). hd hs) (filter (\<lambda>(k, e, hs). length hs \<le> 1) ?occ)"
  obtain e hs where o1: "(k, e, hs) \<in> set ?occ" using occurrence_exists [OF assms(4)] by blast
  note hs = occurrence_entry [OF o1]
  have uniq: "s = hd hs \<and> length hs \<le> 1" if s: "s \<in> set ?uniq" "holds_item plans k s" for s
  proof -
    obtain k' e' hs' where o2: "(k', e', hs') \<in> set ?occ" "length hs' \<le> 1" "s = hd hs'" using s(1) by auto
    note hs' = occurrence_entry [OF o2(1)]
    have "s \<in> set hs'" using o2(3) hs'(2) by simp
    then have "k' = k" using s(2) holders_key [of s plans k' k] by (simp add: hs'(1) holders_of_iff)
    then have "hs' = hs" using hs(1) hs'(1) by simp
    then show ?thesis using o2 by simp
  qed
  have dup: "\<exists>i < length dups. s = picks ! i \<and> snd (dups ! i) = hs \<and> 1 < length hs" if s: "s \<in> set picks" "holds_item plans k s" for s
  proof -
    obtain i where i: "i < length dups" "s = picks ! i" "s \<in> set (snd (dups ! i))"
      using s(1) picks by (auto simp: in_set_conv_nth list_all2_conv_all_nth)
    then have "snd (dups ! i) \<in> set (map snd dups)" by simp
    then obtain k' e' where o2: "(k', e', snd (dups ! i)) \<in> set ?occ" "1 < length (snd (dups ! i))" unfolding dups(1) by auto
    have "s \<in> set (holders_of plans k')" using i(3) by (simp only: occurrence_entry(1) [OF o2(1), symmetric])
    then have "k' = k" using s(2) holders_key [of s plans k' k] by (simp add: holders_of_iff)
    then have "snd (dups ! i) = hs" using hs(1) occurrence_entry(1) [OF o2(1)] by simp
    then show ?thesis using i(1,2) o2(2) by auto
  qed
  show ?thesis
  proof (cases "1 < length hs")
    case True
    then have "hs \<in> set (map snd dups)" unfolding dups(1) using o1 by force
    then obtain i where i: "i < length dups" "snd (dups ! i) = hs" by (auto simp: in_set_conv_nth)
    then have "picks ! i \<in> set hs" "picks ! i \<in> set picks" using picks by (auto simp: list_all2_conv_all_nth)
    moreover have "j = i" if "j < length dups" "snd (dups ! j) = hs" for j
      using that i dups(2) by (metis length_map nth_eq_iff_index_eq nth_map)
    moreover have "s = picks ! i" if s: "s \<in> set (?uniq @ picks)" "holds_item plans k s" for s
    proof -
      have "s \<notin> set ?uniq" using uniq [of s] s(2) True by linarith
      then have "s \<in> set picks" using s(1) by (simp only: set_append Un_iff simp_thms)
      then obtain j where "j < length dups" "s = picks ! j" "snd (dups ! j) = hs" using dup [of s] s(2) by blast
      then show ?thesis using calculation(3) by metis
    qed
    moreover have "holds_item plans k (picks ! i)" using calculation(1) hs(1) holders_of_iff [of "picks ! i" plans k] by simp
    ultimately show ?thesis by (intro ex1I [of _ "picks ! i"]) simp_all
  next
    case False
    then have "hd hs \<in> set ?uniq" using o1 by force
    moreover have "holds_item plans k (hd hs)" using hs(1,2) holders_of_iff [of "hd hs" plans k] by simp
    moreover have "s = hd hs" if s: "s \<in> set (?uniq @ picks)" "holds_item plans k s" for s
    proof -
      have "s \<notin> set picks" using dup [of s] s(2) False by blast
      then have "s \<in> set ?uniq" using s(1) by (simp only: set_append Un_iff simp_thms)
      then show ?thesis using uniq [of s] s(2) by blast
    qed
    ultimately show ?thesis by (intro ex1I [of _ "hd hs"]) simp_all
  qed
qed

lemma ownership_facts:
  shows "map length (plan_ownership_masks mr plans) = map (\<lambda>plan. length (sp_items plan)) plans"
    and "holds_item plans k s0 \<Longrightarrow> \<exists>!slot. holds_item plans k slot \<and> plan_ownership_masks mr plans ! fst slot ! snd slot"
proof -
  let ?occ = "occurrences_by_index plans" and ?M = "plan_ownership_masks mr plans"
  let ?zero = "map (\<lambda>plan. replicate (length (sp_items plan)) False) plans"
  let ?uniq = "map (\<lambda>(k, e, hs). hd hs) (filter (\<lambda>(k, e, hs). length hs \<le> 1) ?occ)"
  obtain dups :: "(int \<times> holders) list" and picks where M: "?M = set_slots (?uniq @ picks) ?zero"
    and picks: "list_all2 (\<lambda>d slot. slot \<in> set (snd d) \<and> (mr \<longrightarrow> slot = hd (snd d))) dups picks"
    and dups: "set (map snd dups) = (\<lambda>(k, e, hs). hs) ` {x \<in> set ?occ. case x of (k, e, hs) \<Rightarrow> 1 < length hs}"
      "distinct (map snd dups)"
    by (rule masks_picks [of mr plans])
  have marked: "?M ! fst s ! snd s \<longleftrightarrow> s \<in> set (?uniq @ picks)" if "holds_item plans k s" for k s
  proof -
    have "fst s < length ?zero" "snd s < length (?zero ! fst s)" "\<not> ?zero ! fst s ! snd s"
      using that by (simp_all add: holds_item_def)
    then show ?thesis unfolding M using set_slots_nth [of "fst s" ?zero "snd s" "?uniq @ picks"] by simp
  qed
  note one = one_pick [OF picks dups]
  show "map length ?M = map (\<lambda>plan. length (sp_items plan)) plans" by (simp add: M set_slots_shape comp_def)
  show "\<exists>!slot. holds_item plans k slot \<and> ?M ! fst slot ! snd slot" if "holds_item plans k s0"
    using one [OF that] marked by (simp cong: conj_cong)
qed

text \<open>
  C33.  Every item is written exactly once.  For every name and offset that appears in some plan, exactly one plan
  position holding it is marked, whichever way the owner of a redundant item is chosen; the masks have
  the shape of the plans.
\<close>

theorem ownership_unique:
  "map length (plan_ownership_masks save_to_minimum_rank plans) = map (\<lambda>plan. length (sp_items plan)) plans \<and>
   (\<forall>p < length plans. \<forall>i < length (sp_items (plans ! p)).
      \<exists>!slot. holds_item plans (mi_key (wi_index (sp_items (plans ! p) ! i))) slot \<and>
         plan_ownership_masks save_to_minimum_rank plans ! fst slot ! snd slot)"
proof (intro conjI allI impI)
  fix p i assume "p < length plans" "i < length (sp_items (plans ! p))"
  then have "holds_item plans (mi_key (wi_index (sp_items (plans ! p) ! i))) (p, i)" by (simp add: holds_item_def item_at_def)
  then show "\<exists>!slot. holds_item plans (mi_key (wi_index (sp_items (plans ! p) ! i))) slot \<and>
      plan_ownership_masks save_to_minimum_rank plans ! fst slot ! snd slot"
    by (rule ownership_facts(2))
qed (rule ownership_facts(1))

definition shared_item :: "string \<Rightarrow> int \<Rightarrow> write_item" where
  "shared_item f start = \<lparr>wi_index = \<lparr>mi_fqn = f, mi_offset = [start], mi_index = None\<rparr>, wi_type = Tensor,
     wi_data = Some \<lparr>td_chunk = \<lparr>ch_offsets = [start], ch_sizes = [4]\<rparr>,
       td_properties = \<lparr>tp_dtype = Some ''torch.float32'', tp_requires_grad = False, tp_memory_format = None\<rparr>, td_size = [8]\<rparr>\<rparr>"

definition two_plans :: "save_plan list" where
  "two_plans = [\<lparr>sp_items = [shared_item ''w'' 0, shared_item ''b'' 0], sp_planner_data = None\<rparr>,
     \<lparr>sp_items = [shared_item ''b'' 0, shared_item ''w'' 4, shared_item ''c'' 0], sp_planner_data = None\<rparr>]"

theorem ownership_unique_witness:
  "\<exists>!slot. holds_item two_plans (''b'', [0]) slot \<and> plan_ownership_masks False two_plans ! fst slot ! snd slot"
proof -
  have "\<forall>p < length two_plans. \<forall>i < length (sp_items (two_plans ! p)).
      \<exists>!slot. holds_item two_plans (mi_key (wi_index (sp_items (two_plans ! p) ! i))) slot \<and>
         plan_ownership_masks False two_plans ! fst slot ! snd slot"
    using ownership_unique [of False two_plans] by blast
  moreover have "0 < length two_plans" "1 < length (sp_items (two_plans ! 0))"
    "mi_key (wi_index (sp_items (two_plans ! 0) ! 1)) = (''b'', [0])"
    by (simp_all add: two_plans_def shared_item_def mi_key_def)
  ultimately show ?thesis by metis
qed

text \<open>The plan with less to write takes the shared item: here the first, which holds less of its own.\<close>

lemma two_plans_masks: "plan_ownership_masks False two_plans = [[True, True], [False, True, True]]"
  by code_simp

end
