(* ===== verification/StateDict.thy ===== *)
theory StateDict
  imports CkptPlan
begin

text \<open>
  Nested state dicts (\<open>core/distributed_checkpoint/utils.py\<close>): the walk over the leaves, flattening to
  dotted names, and writing a leaf back along its path.  The round trip holds for the state dicts a
  checkpoint can restore; the lemmas at the end show what is lost otherwise.
\<close>

section \<open>Nested values\<close>

text \<open>
  A dict keeps its order, a sequence is a list or a tuple; a leaf is a tensor, any other object, or
  \<open>None\<close>.  A dict key is a string or an integer.  Containers are taken not to be shared.
\<close>

datatype 'a sval =
    Dict "(key_part \<times> 'a sval) list"
  | Seq bool "'a sval list"
  | Tens 'a
  | Obj 'a
  | NoneVal

fun key_str :: "key_part \<Rightarrow> string" where
  "key_str (Name s) = s"
| "key_str (Pos n) = nat_str n"

fun is_container :: "'a sval \<Rightarrow> bool" where
  "is_container (Dict _) = True"
| "is_container (Seq _ _) = True"
| "is_container _ = False"

fun is_tensor :: "'a sval \<Rightarrow> bool" where
  "is_tensor (Tens _) = True"
| "is_tensor _ = False"

fun is_terminal :: "'a sval \<Rightarrow> bool" where
  "is_terminal (Dict _) = False"
| "is_terminal (Seq _ vs) = (\<forall>v \<in> set vs. \<not> (is_container v \<and> \<not> is_terminal v) \<and> \<not> is_tensor v)"
| "is_terminal _ = True"

function leaves :: "key_part list \<Rightarrow> 'a sval \<Rightarrow> (key_part list \<times> 'a sval) list" where
  "leaves path (Dict kvs) = concat (map (\<lambda>(k, v). leaves (path @ [Name (key_str k)]) v) kvs)"
| "leaves path (Seq t vs) =
     (if is_terminal (Seq t vs) then [(path, Seq t vs)]
      else concat (map (\<lambda>(i, v). leaves (path @ [Pos i]) v) (enumerate 0 vs)))"
| "leaves path (Tens x) = [(path, Tens x)]"
| "leaves path (Obj x) = [(path, Obj x)]"
| "leaves path NoneVal = [(path, NoneVal)]"
  by pat_completeness auto
termination
proof (relation "measure (\<lambda>(p, v). size v)")
  show "wf (measure (\<lambda>(p :: key_part list, v :: 'a sval). size v))" by simp
next
  fix path :: "key_part list" and kvs :: "(key_part \<times> 'a sval) list" and x k v
  assume "x \<in> set kvs" "(k, v) = x"
  then show "((path @ [Name (key_str k)], v), path, Dict kvs) \<in> measure (\<lambda>(p, v). size v)"
    by (induction kvs) auto
next
  fix path :: "key_part list" and vs :: "'a sval list" and t x i v
  assume "x \<in> set (enumerate 0 vs)" "(i, v) = x"
  then have "v \<in> set vs" by (auto simp: in_set_enumerate_eq)
  then show "((path @ [Pos i], v), path, Seq t vs) \<in> measure (\<lambda>(p, v). size v)"
    by (induction vs) auto
qed

definition traverse_state_dict :: "(key_part \<times> 'a sval) list \<Rightarrow> (key_part list \<times> 'a sval) list" where
  "traverse_state_dict sd = concat (map (\<lambda>(k, v). leaves [Name (key_str k)] v) sd)"

fun join_dots :: "string list \<Rightarrow> string" where
  "join_dots [] = []"
| "join_dots [s] = s"
| "join_dots (s # t # ts) = s @ CHR ''.'' # join_dots (t # ts)"

definition flat_copy :: "key_part list \<times> 'a sval \<Rightarrow> (string \<times> 'a sval) list \<times> name_mapping \<Rightarrow>
    ((string \<times> 'a sval) list \<times> name_mapping) res" where
  "flat_copy leaf st =
     (case leaf of (path, v) \<Rightarrow> case st of (fqn_names, mappings) \<Rightarrow>
        let new_fqn = join_dots (map key_str path) in
        if new_fqn \<in> fst ` set fqn_names then Inl ValueError
        else Inr (fqn_names @ [(new_fqn, v)], AList.update new_fqn path mappings))"

definition flatten_state_dict :: "(key_part \<times> 'a sval) list \<Rightarrow> ((string \<times> 'a sval) list \<times> name_mapping) res" where
  "flatten_state_dict sd = rfold flat_copy (traverse_state_dict sd) ([], [])"

section \<open>Writing a leaf back\<close>

definition extend_list :: "'a sval list \<Rightarrow> nat \<Rightarrow> 'a sval list" where
  "extend_list xs idx = xs @ replicate (Suc idx - length xs) NoneVal"

text \<open>\<open>cur[k] = value\<close> after the padding: a tuple and a leaf refuse, a list wants a position.\<close>

fun set_last :: "'a sval \<Rightarrow> key_part \<Rightarrow> 'a sval \<Rightarrow> 'a sval res" where
  "set_last (Dict kvs) (Name s) v = Inr (Dict (AList.update (Name s) v kvs))"
| "set_last (Dict kvs) (Pos i) v =
     (if length kvs \<le> i then Inl AttributeError else Inr (Dict (AList.update (Pos i) v kvs)))"
| "set_last (Seq tup xs) (Pos i) v =
     (if tup then Inl (if length xs \<le> i then AttributeError else TypeError) else Inr (Seq False ((extend_list xs i)[i := v])))"
| "set_last _ _ v = Inl TypeError"

fun default_for :: "key_part \<Rightarrow> 'a sval" where
  "default_for (Name _) = Dict []"
| "default_for (Pos _) = Seq False []"

text \<open>
  \<open>set_element\<close>: one step down per key, creating the container the next key wants, then the assignment.
  The code reaches down by reference; here the changed child is put back.
\<close>

fun set_element :: "'a sval \<Rightarrow> key_part list \<Rightarrow> 'a sval \<Rightarrow> 'a sval res" where
  "set_element cur [] v = Inl ValueError"
| "set_element cur [k] v = set_last cur k v"
| "set_element (Dict kvs) (k # k' # ks) v =
     rbind (set_element (case map_of kvs k of None \<Rightarrow> default_for k' | Some child \<Rightarrow> child) (k' # ks) v)
       (\<lambda>child. Inr (Dict (AList.update k child kvs)))"
| "set_element (Seq tup xs) (Pos i # k' # ks) v =
     (if tup \<and> length xs \<le> i then Inl AttributeError
      else let xs = extend_list xs i in
        if tup \<and> xs ! i = NoneVal then Inl TypeError
        else rbind (set_element (if xs ! i = NoneVal then default_for k' else xs ! i) (k' # ks) v)
               (\<lambda>child. Inr (Seq tup (xs[i := child]))))"
| "set_element cur (k # k' # ks) v = Inl TypeError"

section \<open>The round trip\<close>

text \<open>What a flattened state dict can be restored to: string keys, no empty dict, no tuple that is taken apart.\<close>

fun restorable :: "'a sval \<Rightarrow> bool" where
  "restorable (Dict kvs) = (kvs \<noteq> [] \<and> distinct (map fst kvs) \<and> (\<forall>(k, v) \<in> set kvs. k = Name (key_str k) \<and> restorable v))"
| "restorable (Seq tup vs) = (is_terminal (Seq tup vs) \<or> \<not> tup \<and> (\<forall>v \<in> set vs. restorable v))"
| "restorable _ = True"

definition put_leaf :: "key_part list \<times> 'a sval \<Rightarrow> 'a sval \<Rightarrow> 'a sval res" where
  "put_leaf pv cur = set_element cur (fst pv) (snd pv)"

lemma leaves_prefix: "leaves (p @ q) v = map (\<lambda>(r, x). (p @ r, x)) (leaves q v)"
proof (induction q v arbitrary: p rule: leaves.induct)
  case (1 path kvs)
  have "map (\<lambda>(k, v). leaves ((p @ path) @ [Name (key_str k)]) v) kvs =
      map (\<lambda>(k, v). map (\<lambda>(r, x). (p @ r, x)) (leaves (path @ [Name (key_str k)]) v)) kvs"
    by (rule map_cong [OF refl]) (use 1 in \<open>auto simp: append_assoc\<close>)
  then show ?case by (simp add: map_concat comp_def case_prod_unfold cong: map_cong)
next
  case (2 path tup vs)
  show ?case
  proof (cases "is_terminal (Seq tup vs)")
    case False
    have "map (\<lambda>(i, v). leaves ((p @ path) @ [Pos i]) v) (enumerate 0 vs) =
        map (\<lambda>(i, v). map (\<lambda>(r, x). (p @ r, x)) (leaves (path @ [Pos i]) v)) (enumerate 0 vs)"
      by (rule map_cong [OF refl]) (use 2 False in \<open>auto simp: append_assoc\<close>)
    then show ?thesis using False by (simp add: map_concat comp_def case_prod_unfold del: is_terminal.simps cong: map_cong)
  qed (simp del: is_terminal.simps)
qed simp_all

lemma leaves_key: "leaves [k] v = map (\<lambda>(r, x). (k # r, x)) (leaves [] v)"
  using leaves_prefix [of "[k]" "[]" v] by simp

text \<open>Below one key of a dict, and below one position of a list, the writes happen in the child.\<close>

lemma put_dict:
  assumes "ps \<noteq> []" "\<forall>(p, x) \<in> set ps. p \<noteq> []"
  shows "rfold put_leaf (map (\<lambda>(p, x). (k # p, x)) ps) (Dict kvs) =
    rbind (rfold put_leaf ps (case map_of kvs k of None \<Rightarrow> default_for (hd (fst (hd ps))) | Some child \<Rightarrow> child))
      (\<lambda>child. Inr (Dict (AList.update k child kvs)))"
  using assms
proof (induction ps arbitrary: kvs rule: list_nonempty_induct)
  case (single pv)
  obtain k' ks x where pv: "pv = (k' # ks, x)" using single by (cases pv; cases "fst pv") auto
  show ?case by (cases "map_of kvs k") (simp_all add: put_leaf_def pv)
next
  case (cons pv ps)
  obtain p x where pv: "pv = (p, x)" by (cases pv)
  obtain k' ks where p: "p = k' # ks" using cons.prems pv by (cases p) auto
  let ?child = "case map_of kvs k of None \<Rightarrow> default_for k' | Some child \<Rightarrow> child"
  show ?case
  proof (cases "set_element ?child p x")
    case (Inl e)
    then show ?thesis by (cases "map_of kvs k") (simp_all add: put_leaf_def pv p)
  next
    case (Inr child)
    then have first: "put_leaf (k # p, x) (Dict kvs) = Inr (Dict (AList.update k child kvs))"
      by (simp add: put_leaf_def p)
    have "map_of (AList.update k child kvs) k = Some child" by (simp add: update_conv')
    then show ?thesis using first Inr cons.IH [of "AList.update k child kvs"] cons.prems
      by (cases "map_of kvs k") (simp_all add: pv p, simp_all add: put_leaf_def)
  qed
qed

lemma set_element_container: "set_element cur ks v = Inr c \<Longrightarrow> is_container c"
  by (induction cur ks v arbitrary: c rule: set_element.induct)
    (auto simp: Let_def split: if_splits elim!: set_last.elims)

lemma extend_list_simps [simp]: "i < length xs \<Longrightarrow> extend_list xs i = xs" "extend_list xs (length xs) = xs @ [NoneVal]"
  by (simp_all add: extend_list_def)

lemma put_list:
  assumes "ps \<noteq> []" "\<forall>(p, x) \<in> set ps. p \<noteq> []" "i \<le> length xs" "i < length xs \<longrightarrow> is_container (xs ! i)"
  shows "rfold put_leaf (map (\<lambda>(p, x). (Pos i # p, x)) ps) (Seq False xs) =
    rbind (rfold put_leaf ps (if i < length xs then xs ! i else default_for (hd (fst (hd ps)))))
      (\<lambda>child. Inr (Seq False (if i < length xs then xs[i := child] else xs @ [child])))"
  using assms
proof (induction ps arbitrary: xs rule: list_nonempty_induct)
  case (single pv)
  obtain k' ks x where pv: "pv = (k' # ks, x)" using single by (cases pv; cases "fst pv") auto
  show ?case
  proof (cases "i < length xs")
    case True
    then have "xs ! i \<noteq> NoneVal" using single by auto
    then show ?thesis using True by (simp add: put_leaf_def pv Let_def)
  next
    case False
    then show ?thesis using single by (simp add: put_leaf_def pv Let_def)
  qed
next
  case (cons pv ps)
  obtain k' ks x where pv: "pv = (k' # ks, x)" using cons.prems by (cases pv; cases "fst pv") auto
  let ?child = "if i < length xs then xs ! i else default_for k'"
  let ?ys = "\<lambda>child. if i < length xs then xs[i := child] else xs @ [child]"
  have first: "put_leaf (Pos i # k' # ks, x) (Seq False xs) =
      rbind (set_element ?child (k' # ks) x) (\<lambda>child. Inr (Seq False (?ys child)))"
  proof (cases "i < length xs")
    case True
    then have "xs ! i \<noteq> NoneVal" using cons.prems by auto
    then show ?thesis using True by (simp add: put_leaf_def Let_def)
  next
    case False
    then show ?thesis using cons.prems by (simp add: put_leaf_def Let_def)
  qed
  show ?case
  proof (cases "set_element ?child (k' # ks) x")
    case (Inl e)
    then show ?thesis using first by (cases "i < length xs") (simp_all add: pv put_leaf_def)
  next
    case (Inr child)
    let ?zs = "?ys child"
    have zs: "i < length ?zs" "?zs ! i = child" "is_container child"
      using cons.prems set_element_container [OF Inr] by (auto simp: nth_append)
    have "rfold put_leaf (map (\<lambda>(p, x). (Pos i # p, x)) ps) (Seq False ?zs) =
        rbind (rfold put_leaf ps child) (\<lambda>child. Inr (Seq False (?zs[i := child])))"
      using cons.IH [of ?zs] cons.prems zs by simp
    moreover have "?zs[i := c] = ?ys c" for c using cons.prems by (auto simp: list_update_append)
    moreover have "put_leaf (k' # ks, x) ?child = Inr child" using Inr by (simp add: put_leaf_def)
    ultimately show ?thesis using first Inr by (cases "i < length xs") (simp_all add: pv)
  qed
qed

text \<open>What a value is rebuilt from, and that its leaves rebuild it.\<close>

fun empty_like :: "'a sval \<Rightarrow> 'a sval" where
  "empty_like (Dict _) = Dict []"
| "empty_like v = Seq False []"

definition opened :: "'a sval \<Rightarrow> bool" where
  "opened v \<longleftrightarrow> is_container v \<and> \<not> is_terminal v"

definition rebuilt :: "'a sval \<Rightarrow> bool" where
  "rebuilt v \<longleftrightarrow> (if opened v
     then leaves [] v \<noteq> [] \<and> (\<forall>(p, x) \<in> set (leaves [] v). p \<noteq> []) \<and>
       default_for (hd (fst (hd (leaves [] v)))) = empty_like v \<and> rfold put_leaf (leaves [] v) (empty_like v) = Inr v
     else leaves [] v = [([], v)])"

lemma key_str_Name: "k = Name (key_str k) \<Longrightarrow> \<exists>s. k = Name s"
  by (cases k) auto

lemma install_dict:
  assumes "rebuilt v" "map_of kvs k = None" "k = Name (key_str k)"
  shows "rfold put_leaf (leaves [k] v) (Dict kvs) = Inr (Dict (kvs @ [(k, v)]))"
proof -
  have upd: "AList.update k v kvs = kvs @ [(k, v)]"
    using assms(2) by (induction kvs) (auto split: if_splits)
  show ?thesis
  proof (cases "opened v")
    case True
    then show ?thesis using assms(1,2) upd put_dict [of "leaves [] v" k kvs]
      by (simp add: rebuilt_def leaves_key)
  next
    case False
    obtain s where "k = Name s" using key_str_Name [OF assms(3)] by blast
    then show ?thesis using False assms(1) upd by (simp add: rebuilt_def leaves_key put_leaf_def)
  qed
qed

lemma install_list:
  assumes "rebuilt v"
  shows "rfold put_leaf (leaves [Pos (length xs)] v) (Seq False xs) = Inr (Seq False (xs @ [v]))"
proof (cases "opened v")
  case True
  then show ?thesis using assms put_list [of "leaves [] v" "length xs" xs] by (simp add: rebuilt_def leaves_key)
next
  case False
  then show ?thesis using assms by (simp add: rebuilt_def leaves_key put_leaf_def)
qed

lemma install_all_dict:
  assumes "\<forall>(k, v) \<in> set kvs. rebuilt v \<and> k = Name (key_str k)" "distinct (map fst (pre @ kvs))"
  shows "rfold put_leaf (concat (map (\<lambda>(k, v). leaves [Name (key_str k)] v) kvs)) (Dict pre) = Inr (Dict (pre @ kvs))"
  using assms
proof (induction kvs arbitrary: pre)
  case (Cons kv kvs)
  obtain k v where kv: "kv = (k, v)" by (cases kv)
  have "map_of pre k = None" using Cons.prems(2) by (auto simp: kv map_of_eq_None_iff)
  then have "rfold put_leaf (leaves [k] v) (Dict pre) = Inr (Dict (pre @ [(k, v)]))"
    using Cons.prems(1) by (intro install_dict) (auto simp: kv)
  moreover have "Name (key_str k) = k" using Cons.prems(1) by (auto simp: kv)
  ultimately show ?case using Cons.IH [of "pre @ [kv]"] Cons.prems by (simp add: kv rfold_append)
qed simp

lemma install_all_list:
  assumes "\<forall>v \<in> set vs. rebuilt v"
  shows "rfold put_leaf (concat (map (\<lambda>(i, v). leaves [Pos i] v) (enumerate (length pre) vs))) (Seq False pre) =
    Inr (Seq False (pre @ vs))"
  using assms
proof (induction vs arbitrary: pre)
  case (Cons v vs)
  then show ?case using install_list [of v pre] Cons.IH [of "pre @ [v]"] by (simp add: rfold_append)
qed simp

lemma rebuilt_ne: "rebuilt v \<Longrightarrow> leaves [] v \<noteq> []"
  by (auto simp: rebuilt_def split: if_splits)

lemma leaves_rebuild: "restorable v \<Longrightarrow> rebuilt v"
proof (induction v rule: restorable.induct)
  case (1 kvs)
  have sub: "\<forall>(k, v) \<in> set kvs. rebuilt v \<and> k = Name (key_str k)" using 1 by auto
  obtain k v rest where kvs: "kvs = (k, v) # rest" using 1 by (cases kvs) auto
  have "leaves [] (Dict kvs) = concat (map (\<lambda>(k, v). leaves [Name (key_str k)] v) kvs)" by simp
  moreover have "rfold put_leaf (concat (map (\<lambda>(k, v). leaves [Name (key_str k)] v) kvs)) (Dict []) = Inr (Dict kvs)"
    using install_all_dict [OF sub, of "[]"] 1 by simp
  moreover have "leaves [] v \<noteq> []" using sub rebuilt_ne by (auto simp: kvs)
  ultimately show ?case
    unfolding rebuilt_def opened_def by (auto simp: leaves_key kvs hd_append hd_map split: prod.splits)
next
  case (2 tup vs)
  show ?case
  proof (cases "is_terminal (Seq tup vs)")
    case True
    then show ?thesis by (simp add: rebuilt_def opened_def del: is_terminal.simps)
  next
    case False
    then have sub: "\<forall>v \<in> set vs. rebuilt v" and tup: "\<not> tup" using 2 by (auto simp del: is_terminal.simps)
    obtain v rest where vs: "vs = v # rest" using False by (cases vs) auto
    have "leaves [] (Seq tup vs) = concat (map (\<lambda>(i, v). leaves [Pos i] v) (enumerate 0 vs))"
      using False by (simp del: is_terminal.simps)
    moreover have "rfold put_leaf (concat (map (\<lambda>(i, v). leaves [Pos i] v) (enumerate 0 vs))) (Seq False []) = Inr (Seq tup vs)"
      using install_all_list [OF sub, of "[]"] tup by simp
    moreover have "leaves [] v \<noteq> []" using sub rebuilt_ne [of v] by (simp add: vs)
    ultimately show ?thesis using False
      unfolding rebuilt_def opened_def
      by (auto simp: leaves_key vs hd_append hd_map tup split: prod.splits simp del: is_terminal.simps leaves.simps)
  qed
qed (simp_all add: rebuilt_def opened_def)

lemma flat_copy_fold:
  assumes "rfold flat_copy ls (flat0, map0) = Inr (flat, mapping)" "map fst flat0 = map fst map0"
  shows "flat = flat0 @ map (\<lambda>(p, v). (join_dots (map key_str p), v)) ls \<and>
    mapping = map0 @ map (\<lambda>(p, v). (join_dots (map key_str p), p)) ls \<and> (distinct (map fst flat0) \<longrightarrow> distinct (map fst flat))"
  using assms
proof (induction ls arbitrary: flat0 map0)
  case (Cons l ls)
  obtain p v where l: "l = (p, v)" by (cases l)
  let ?n = "join_dots (map key_str p)"
  have new: "?n \<notin> fst ` set flat0" using Cons.prems(1) by (auto simp: l flat_copy_def Let_def split: if_splits)
  then have "?n \<notin> fst ` set map0" using Cons.prems(2) by (metis list.set_map)
  then have "AList.update ?n p map0 = map0 @ [(?n, p)]" by (induction map0) (auto split: if_splits)
  then have "flat_copy l (flat0, map0) = Inr (flat0 @ [(?n, v)], map0 @ [(?n, p)])"
    using new by (simp add: l flat_copy_def Let_def)
  then have "rfold flat_copy ls (flat0 @ [(?n, v)], map0 @ [(?n, p)]) = Inr (flat, mapping)"
    using Cons.prems(1) by simp
  moreover have "map fst (flat0 @ [(?n, v)]) = map fst (map0 @ [(?n, p)])" using Cons.prems(2) by simp
  ultimately have IH: "flat = (flat0 @ [(?n, v)]) @ map (\<lambda>(p, v). (join_dots (map key_str p), v)) ls"
    "mapping = (map0 @ [(?n, p)]) @ map (\<lambda>(p, v). (join_dots (map key_str p), p)) ls"
    "distinct (map fst (flat0 @ [(?n, v)])) \<longrightarrow> distinct (map fst flat)" using Cons.IH by blast+
  have "distinct (map fst flat0) \<longrightarrow> distinct (map fst (flat0 @ [(?n, v)]))" using new by simp
  with IH(3) have fresh: "distinct (map fst flat0) \<longrightarrow> distinct (map fst flat)" by blast
  show ?case by (intro conjI fresh; simp only: IH(1,2)) (simp_all add: l)
qed auto

lemma traverse_leaves: "traverse_state_dict sd = leaves [] (Dict sd)"
  by (simp add: traverse_state_dict_def)

text \<open>
  C34.  Flattening a nested state dict loses nothing a checkpoint can restore: writing every flat entry back along
  the path recorded for it, into an empty dict, gives the state dict again, in its order.  The state dict has
  string keys, no empty dict, and no tuple holding tensors or dicts.
\<close>

theorem flatten_restores:
  assumes "flatten_state_dict sd = Inr (flat, mapping)" "restorable (Dict sd)"
  shows "rfold (\<lambda>(fqn, path) d. set_element d path (the (map_of flat fqn))) mapping (Dict []) = Inr (Dict sd)"
proof -
  let ?ls = "leaves [] (Dict sd)"
  have flat: "flat = map (\<lambda>(p, v). (join_dots (map key_str p), v)) ?ls" "distinct (map fst flat)"
    and mapping: "mapping = map (\<lambda>(p, v). (join_dots (map key_str p), p)) ?ls"
    using flat_copy_fold [of ?ls "[]" "[]" flat mapping] assms(1)
    unfolding flatten_state_dict_def traverse_leaves by (auto simp del: leaves.simps)
  have look: "map_of flat (join_dots (map key_str p)) = Some v" if "(p, v) \<in> set ?ls" for p v
    using flat(2) that by (intro map_of_is_SomeI) (force simp: flat(1))+
  have go: "rfold (\<lambda>(fqn, path) d. set_element d path (the (map_of flat fqn)))
      (map (\<lambda>(p, v). (join_dots (map key_str p), p)) ls) d = rfold put_leaf ls d" if "set ls \<subseteq> set ?ls" for ls d
    using that
  proof (induction ls arbitrary: d)
    case (Cons l ls)
    obtain p v where l: "l = (p, v)" by (cases l)
    have "map_of flat (join_dots (map key_str p)) = Some v" using Cons.prems by (intro look) (simp add: l)
    moreover have "rfold (\<lambda>(fqn, path) d. set_element d path (the (map_of flat fqn)))
      (map (\<lambda>(p, v). (join_dots (map key_str p), p)) ls) = rfold put_leaf ls" using Cons by auto
    ultimately show ?case by (simp add: l) (simp add: put_leaf_def)
  qed simp
  have "rebuilt (Dict sd)" by (rule leaves_rebuild) (rule assms(2))
  then have "rfold put_leaf ?ls (Dict []) = Inr (Dict sd)" by (simp add: rebuilt_def opened_def del: leaves.simps)
  then show ?thesis unfolding mapping using go [OF order_refl] by simp
qed

definition nested_state :: "(key_part \<times> nat sval) list" where
  "nested_state = [(Name ''m'', Dict [(Name ''w'', Tens 1), (Name ''b'', Tens 2)]),
     (Name ''o'', Seq False [Dict [(Name ''s'', Obj 3)], Tens 4, NoneVal]), (Name ''t'', Seq True [Obj 5, NoneVal])]"

theorem flatten_restores_witness:
  "\<exists>flat mapping. flatten_state_dict nested_state = Inr (flat, mapping) \<and> map fst flat = [''m.w'', ''m.b'', ''o.0.s'', ''o.1'', ''o.2'', ''t''] \<and>
    rfold (\<lambda>(fqn, path) d. set_element d path (the (map_of flat fqn))) mapping (Dict []) = Inr (Dict nested_state)"
proof -
  have "case flatten_state_dict nested_state of Inl _ \<Rightarrow> False
      | Inr (flat, _) \<Rightarrow> map fst flat = [''m.w'', ''m.b'', ''o.0.s'', ''o.1'', ''o.2'', ''t'']" by code_simp
  then obtain flat mapping where f: "flatten_state_dict nested_state = Inr (flat, mapping)"
    "map fst flat = [''m.w'', ''m.b'', ''o.0.s'', ''o.1'', ''o.2'', ''t'']" by (auto split: sum.splits)
  have "restorable (Dict nested_state)" by (simp add: nested_state_def)
  from flatten_restores [OF f(1) this] show ?thesis by (intro exI conjI) (rule f, rule f)
qed

text \<open>
  What the walk drops: an empty dict has no leaf, and an integer key becomes a string, so that writing
  the loaded value back leaves the entry under the integer key as it was and adds one under the string.
\<close>

lemma empty_dict_is_lost: "flatten_state_dict [(Name ''a'', Dict [])] = Inr ([], [])"
  by (simp add: flatten_state_dict_def traverse_state_dict_def)

lemma integer_key_is_not_written:
  "flatten_state_dict [(Name ''state'', Dict [(Pos 0, Obj (1 :: nat))])] = Inr ([(''state.0'', Obj 1)], [(''state.0'', [Name ''state'', Name ''0''])]) \<and>
   set_element (Dict [(Name ''state'', Dict [(Pos 0, Obj 1)])]) [Name ''state'', Name ''0''] (Obj 2) =
     Inr (Dict [(Name ''state'', Dict [(Pos 0, Obj (1 :: nat)), (Name ''0'', Obj 2)])])"
  by code_simp

end
