(* ===== verification/Ragged.thy ===== *)
theory Ragged
  imports LayoutMap
begin

text \<open>
  RaggedShard: a tensor whose leading dimensions are split between the ranks of one mesh axis in given
  proportions, so that every rank holds an interval of the flat row-major storage.  The intervals and
  the splits of the variable all-to-all are from \<open>core/dtensor/_ragged_utils.py\<close>; the decomposition of an
  interval into boxes, which the checkpoint stores, is from \<open>core/distributed_checkpoint/ragged.py\<close>.
\<close>

section \<open>The interval of a rank\<close>

type_synonym ragged_slice = "int \<times> int"

definition local_numel :: "ragged_slice \<Rightarrow> int" where
  "local_numel s = snd s - fst s"

definition normalize_global_shape :: "int list \<Rightarrow> int list res" where
  "normalize_global_shape shape = (if \<exists>n \<in> set shape. n < 0 then Inl ValueError else Inr shape)"

definition compute_ragged_slice :: "int list \<Rightarrow> layout \<Rightarrow> int \<Rightarrow> ragged_slice res" where
  "compute_ragged_slice global_shape layout local_rank =
     (case ragged_shard layout of
        Some (mesh_dim, RaggedShard dims local_units) \<Rightarrow>
          (case placements layout of
             None \<Rightarrow> Inl TypeError
           | Some ps \<Rightarrow>
               if \<exists>(i, p) \<in> set (enumerate 0 ps). i \<noteq> mesh_dim \<and> p \<noteq> Replicate then Inl NotImplementedError
               else rbind (normalize_global_shape global_shape) (\<lambda>shape.
               let prefix_ndim = length dims in
               if length shape < prefix_ndim then Inl ValueError
               else rbind (py_get (mesh_shape layout) (int mesh_dim)) (\<lambda>mesh_dim_size.
               if int (length local_units) \<noteq> mesh_dim_size then Inl ValueError
               else let prefix_cells = prod_list (take prefix_ndim shape);
                        total_units = sum_list local_units in
               if total_units = 0 then Inl ZeroDivisionError
               else if prefix_cells mod total_units \<noteq> 0 then Inl ValueError
               else if local_rank < 0 \<or> mesh_dim_size \<le> local_rank then Inl ValueError
               else let cells_per_unit = prefix_cells div total_units;
                        prefix_start = sum_list (take (nat local_rank) local_units) * cells_per_unit;
                        local_prefix_cells = local_units ! nat local_rank * cells_per_unit;
                        suffix_numel = prod_list (drop prefix_ndim shape);
                        flat_start = prefix_start * suffix_numel
                    in Inr (flat_start, flat_start + local_prefix_cells * suffix_numel))))
      | Some _ \<Rightarrow> Inl AttributeError
      | None \<Rightarrow> Inl ValueError)"

definition ragged_axis_size :: "layout \<Rightarrow> int res" where
  "ragged_axis_size layout =
     (case ragged_shard layout of None \<Rightarrow> Inl ValueError | Some (mesh_dim, p) \<Rightarrow> py_get (mesh_shape layout) (int mesh_dim))"

definition compute_ragged_splits :: "int list \<Rightarrow> layout \<Rightarrow> int list res" where
  "compute_ragged_splits global_shape layout =
     rbind (ragged_axis_size layout) (\<lambda>n.
       rmap (\<lambda>rank. rbind (compute_ragged_slice global_shape layout rank) (\<lambda>s. Inr (local_numel s))) [0..n - 1])"

definition interval_overlap_size :: "ragged_slice \<Rightarrow> ragged_slice \<Rightarrow> int" where
  "interval_overlap_size first second = max 0 (min (snd first) (snd second) - max (fst first) (fst second))"

fun ragged_dims :: "placement \<Rightarrow> int list" where
  "ragged_dims (RaggedShard dims _) = dims"
| "ragged_dims _ = []"

definition compute_ragged_all_to_all_splits ::
  "int list \<Rightarrow> layout \<Rightarrow> layout \<Rightarrow> int \<Rightarrow> int \<Rightarrow> (int list \<times> int list) res" where
  "compute_ragged_all_to_all_splits global_shape from_layout to_layout source_rank target_rank =
     (case (ragged_shard from_layout, ragged_shard to_layout) of
        (Some (source_dim, source), Some (target_dim, target)) \<Rightarrow>
          if source_dim \<noteq> target_dim then Inl ValueError
          else if ragged_dims source \<noteq> ragged_dims target then Inl ValueError
          else rbind (compute_ragged_slice global_shape from_layout source_rank) (\<lambda>source_interval.
               rbind (compute_ragged_slice global_shape to_layout target_rank) (\<lambda>target_interval.
               rbind (ragged_axis_size to_layout) (\<lambda>to_size.
               rbind (rmap (\<lambda>rank. rbind (compute_ragged_slice global_shape to_layout rank)
                        (\<lambda>s. Inr (interval_overlap_size source_interval s))) [0..to_size - 1]) (\<lambda>input_splits.
               rbind (ragged_axis_size from_layout) (\<lambda>from_size.
               rbind (rmap (\<lambda>rank. rbind (compute_ragged_slice global_shape from_layout rank)
                        (\<lambda>s. Inr (interval_overlap_size s target_interval))) [0..from_size - 1]) (\<lambda>output_splits.
               Inr (input_splits, output_splits)))))))
      | _ \<Rightarrow> Inl ValueError)"

section \<open>The boxes of an interval\<close>

type_synonym box = "int list \<times> int list"

text \<open>
  The shape is the part from the current axis on.  The stride is not 0, as the interval is not empty.
\<close>

fun decompose_axis :: "int list \<Rightarrow> int \<Rightarrow> int \<Rightarrow> int list \<Rightarrow> box list" where
  "decompose_axis [] start stop prefix_offsets = []"
| "decompose_axis [n] start stop prefix_offsets =
     [(prefix_offsets @ [start], replicate (length prefix_offsets) 1 @ [stop - start])]"
| "decompose_axis (n # m # ns) start stop prefix_offsets =
     (let shape = m # ns;
          stride = prod_list shape;
          start_block = start div stride;
          start_remainder = start mod stride;
          stop_block = (stop - 1) div stride
      in if start_block = stop_block then
           decompose_axis shape start_remainder (start_remainder + stop - start) (prefix_offsets @ [start_block])
         else
           let complete_start = (if start_remainder \<noteq> 0 then start_block + 1 else start_block);
               complete_end = stop div stride;
               end_remainder = stop mod stride
           in (if start_remainder \<noteq> 0 then decompose_axis shape start_remainder stride (prefix_offsets @ [start_block]) else []) @
              (if complete_start < complete_end then
                 [(prefix_offsets @ [complete_start] @ replicate (length shape) 0,
                   replicate (length prefix_offsets) 1 @ [complete_end - complete_start] @ shape)]
               else []) @
              (if end_remainder \<noteq> 0 then decompose_axis shape 0 end_remainder (prefix_offsets @ [complete_end]) else []))"

definition decompose_flat_interval :: "int list \<Rightarrow> int \<Rightarrow> int \<Rightarrow> box list res" where
  "decompose_flat_interval shape flat_start flat_end =
     (if shape = [] then Inl ValueError
      else if flat_start < 0 \<or> flat_end < flat_start \<or> prod_list shape < flat_end then Inl ValueError
      else if flat_start = flat_end then Inr []
      else Inr (decompose_axis shape flat_start flat_end []))"

record checkpoint_box =
  box_offsets :: "int list"
  box_sizes :: "int list"
  local_flat_start :: int
  local_flat_end :: int

definition place_box :: "box \<Rightarrow> checkpoint_box list \<times> int \<Rightarrow> checkpoint_box list \<times> int" where
  "place_box b st =
     (case b of (offsets, sizes) \<Rightarrow> case st of (boxes, local_flat_offset) \<Rightarrow>
        let box_numel = prod_list sizes in
        (boxes @ [\<lparr>box_offsets = offsets, box_sizes = sizes, local_flat_start = local_flat_offset,
                   local_flat_end = local_flat_offset + box_numel\<rparr>],
         local_flat_offset + box_numel))"

definition compute_ragged_boxes :: "int list \<Rightarrow> layout \<Rightarrow> int \<Rightarrow> checkpoint_box list res" where
  "compute_ragged_boxes global_shape layout local_rank =
     (if ragged_shard layout = None then Inl ValueError
      else rbind (compute_ragged_slice global_shape layout local_rank) (\<lambda>ragged_slice.
           rbind (decompose_flat_interval global_shape (fst ragged_slice) (snd ragged_slice)) (\<lambda>raw_boxes.
           let (boxes, local_flat_offset) = fold place_box raw_boxes ([], 0)
           in if local_flat_offset \<noteq> local_numel ragged_slice then Inl ValueError else Inr boxes)))"

section \<open>The flat indices of a box\<close>

text \<open>The row-major indices of the cells of a box of a tensor, in row-major order of the box.\<close>

fun box_flats :: "int list \<Rightarrow> int list \<Rightarrow> int list \<Rightarrow> int list" where
  "box_flats (n # ns) (start # os) (extent # ss) =
     concat (map (\<lambda>i. map (\<lambda>f. i * prod_list ns + f) (box_flats ns os ss)) [start..start + extent - 1])"
| "box_flats _ _ _ = [0]"

definition box_within :: "int list \<Rightarrow> box \<Rightarrow> bool" where
  "box_within shape b \<longleftrightarrow> length (fst b) = length shape \<and> length (snd b) = length shape \<and>
     (\<forall>i < length shape. 0 \<le> fst b ! i \<and> 1 \<le> snd b ! i \<and> fst b ! i + snd b ! i \<le> shape ! i)"

lemma upto_concat: "a \<le> b \<Longrightarrow> b \<le> c \<Longrightarrow> [a..b - 1] @ [b..c - 1] = [a..c - (1::int)]"
  using upto_split1 [of a "b - 1" "c - 1"] upto_split2 [of a "b - 1" "c - 1"]
  by (cases "a = b") auto

lemma upto_concat3: "a \<le> x \<Longrightarrow> x \<le> y \<Longrightarrow> y \<le> b \<Longrightarrow> [a..x - 1] @ [x..y - 1] @ [y..b - 1] = [a..b - (1::int)]"
  using upto_concat [of x y b] upto_concat [of a x b] by simp

lemma upto_shift: "map (\<lambda>f. c + f) [a..b] = [c + a..c + (b::int)]"
proof (cases "a \<le> b")
  case True
  then show ?thesis
  proof (induction "nat (b - a)" arbitrary: a)
    case 0
    then show ?case by simp
  next
    case (Suc k)
    then have "a < b" by simp
    then show ?case using Suc.hyps(1) [of "a + 1"] Suc.hyps(2) by (simp add: upto_rec1 algebra_simps)
  qed
qed simp

lemma blocks_flat:
  assumes "c \<le> d" "0 \<le> (p::int)"
  shows "concat (map (\<lambda>i. map (\<lambda>f. i * p + f) [0..p - 1]) [c..d - 1]) = [c * p..d * p - 1]"
  using assms(1)
proof (induction "nat (d - c)" arbitrary: c)
  case 0
  then show ?case by simp
next
  case (Suc k)
  then have c: "c < d" by simp
  have "concat (map (\<lambda>i. map (\<lambda>f. i * p + f) [0..p - 1]) [c + 1..d - 1]) = [(c + 1) * p..d * p - 1]"
    using Suc.hyps(1) [of "c + 1"] Suc.hyps(2) c by simp
  moreover have "[c..d - 1] = c # [c + 1..d - 1]" using c by (simp add: upto_rec1)
  moreover have "[c * p..(c + 1) * p - 1] @ [(c + 1) * p..d * p - 1] = [c * p..d * p - 1]"
    by (rule upto_concat) (use c assms(2) in \<open>auto intro: mult_right_mono\<close>)
  moreover have "map (\<lambda>f. c * p + f) [0..p - 1] = [c * p..(c + 1) * p - 1]"
    unfolding upto_shift by (simp add: algebra_simps)
  ultimately show ?case by simp
qed

lemma prod_list_nonneg: "\<forall>n \<in> set ns. (0::int) \<le> n \<Longrightarrow> 0 \<le> prod_list ns"
  by (induction ns) auto

lemma full_flats: "\<forall>n \<in> set shape. 0 \<le> n \<Longrightarrow> box_flats shape (replicate (length shape) 0) shape = [0..prod_list shape - 1]"
proof (induction shape)
  case (Cons n ns)
  then show ?case using blocks_flat [of 0 n "prod_list ns"] prod_list_nonneg [of ns] by simp
qed simp

lemma slab_flats:
  assumes "c \<le> d" "\<forall>n \<in> set ns. 0 \<le> n"
  shows "box_flats (n # ns) (c # replicate (length ns) 0) ((d - c) # ns) = [c * prod_list ns..d * prod_list ns - 1]"
proof -
  have "c + (d - c) - 1 = d - 1" by simp
  then show ?thesis using full_flats [OF assms(2)] blocks_flat [OF assms(1) prod_list_nonneg [OF assms(2)]]
    by (simp only: box_flats.simps)
qed

lemma decompose_prefix:
  "decompose_axis ns a b pre = map (\<lambda>(os, ss). (pre @ os, replicate (length pre) 1 @ ss)) (decompose_axis ns a b [])"
proof (induction ns arbitrary: a b pre)
  case (Cons n ns)
  show ?case
  proof (cases ns)
    case (Cons m ms)
    have inner: "decompose_axis ns x y (pre @ [c]) =
        map (\<lambda>(os, ss). (pre @ os, replicate (length pre) 1 @ ss)) (decompose_axis ns x y [c])" for x y c
      unfolding Cons.IH [of x y "pre @ [c]"] Cons.IH [of x y "[c]"] by (auto simp: replicate_append_same)
    show ?thesis unfolding Cons
      by (simp only: decompose_axis.simps Let_def inner [unfolded Cons] map_append append_Nil) simp
  qed simp
qed simp

lemma prefix_one: "decompose_axis ns a b [c] = map (\<lambda>(os, ss). (c # os, 1 # ss)) (decompose_axis ns a b [])"
  by (subst decompose_prefix) auto

text \<open>One axis with everything below it: the rows at both ends and the slab between them.\<close>

lemma decompose_step:
  assumes "ns \<noteq> []"
  shows "decompose_axis (n # ns) a b [] =
    (let p = prod_list ns; row = (\<lambda>c x y. map (\<lambda>(os, ss). (c # os, 1 # ss)) (decompose_axis ns x y [])) in
     if a div p = (b - 1) div p then row (a div p) (a mod p) (a mod p + b - a)
     else let c = (if a mod p \<noteq> 0 then a div p + 1 else a div p); d = b div p in
       (if a mod p \<noteq> 0 then row (a div p) (a mod p) p else []) @
       (if c < d then [(c # replicate (length ns) 0, (d - c) # ns)] else []) @
       (if b mod p \<noteq> 0 then row d 0 (b mod p) else []))"
proof -
  obtain m ms where ns: "ns = m # ms" using assms by (cases ns) auto
  show ?thesis unfolding ns by (simp add: Let_def prefix_one)
qed

definition flats :: "int list \<Rightarrow> box list \<Rightarrow> int list" where
  "flats shape boxes = concat (map (\<lambda>(os, ss). box_flats shape os ss) boxes)"

lemma flats_append: "flats shape (xs @ ys) = flats shape xs @ flats shape ys"
  by (simp add: flats_def)

lemma flats_row: "flats (n # ns) (map (\<lambda>(os, ss). (c # os, 1 # ss)) boxes) = map (\<lambda>f. c * prod_list ns + f) (flats ns boxes)"
  by (induction boxes) (auto simp: flats_def)

lemma within_row:
  assumes "\<forall>x \<in> set boxes. box_within ns x" "0 \<le> c" "c < n"
  shows "\<forall>x \<in> set (map (\<lambda>(os, ss). (c # os, 1 # ss)) boxes). box_within (n # ns) x"
proof
  fix x assume "x \<in> set (map (\<lambda>(os, ss). (c # os, 1 # ss)) boxes)"
  then obtain os ss where x: "x = (c # os, 1 # ss)" "(os, ss) \<in> set boxes" by auto
  then have "box_within ns (os, ss)" using assms(1) by blast
  then show "box_within (n # ns) x"
    using assms(2,3) by (auto simp: x(1) box_within_def nth_Cons split: nat.split)
qed

lemma within_slab:
  assumes "\<forall>k \<in> set ns. (0::int) < k" "0 \<le> c" "c < d" "d \<le> n"
  shows "box_within (n # ns) (c # replicate (length ns) 0, (d - c) # ns)"
  using assms by (auto simp: box_within_def nth_Cons int_one_le_iff_zero_less split: nat.split)

lemma div_bounds:
  fixes a b p :: int
  assumes "0 < p" "0 \<le> a" "a < b" "b \<le> n * p"
  shows "0 \<le> a div p" "a div p < n" "b div p \<le> n" "b mod p \<noteq> 0 \<Longrightarrow> b div p < n" "a div p \<le> (b - 1) div p"
    "a div p \<noteq> (b - 1) div p \<Longrightarrow> a div p + 1 \<le> b div p"
proof -
  show "0 \<le> a div p" using assms by (simp add: pos_imp_zdiv_nonneg_iff)
  show "a div p < n" using int_div_less [of p a n] assms by simp
  show "b div p \<le> n" using zdiv_mono1 [OF assms(4,1)] assms(1) by simp
  show "b div p < n" if "b mod p \<noteq> 0"
  proof -
    have "b \<noteq> n * p" using that by auto
    then show ?thesis using int_div_less [of p b n] assms by simp
  qed
  show le: "a div p \<le> (b - 1) div p" using assms by (intro zdiv_mono1) auto
  show "a div p + 1 \<le> b div p" if "a div p \<noteq> (b - 1) div p"
    using le that zdiv_mono1 [of "b - 1" b p] assms(1) by simp
qed

text \<open>The boxes list the interval exactly, in order, and lie within the shape.\<close>

lemma decompose_exact:
  assumes "ns \<noteq> []" "\<forall>n \<in> set ns. 0 < n" "0 \<le> a" "a < b" "b \<le> prod_list ns"
  shows "flats ns (decompose_axis ns a b []) = [a..b - 1] \<and> (\<forall>x \<in> set (decompose_axis ns a b []). box_within ns x)"
  using assms
proof (induction ns arbitrary: a b)
  case (Cons n ns)
  show ?case
  proof (cases "ns = []")
    case True
    then show ?thesis using Cons.prems by (simp add: flats_def box_within_def)
  next
    case ne: False
    let ?p = "prod_list ns"
    define row where "row c x y = map (\<lambda>(os, ss). (c # os, 1 # ss)) (decompose_axis ns x y [])" for c x y
    have pos: "\<forall>k \<in> set ns. 0 < k" "0 < ?p" using Cons.prems(2) by (auto intro: prod_list_pos_int)
    have b: "b \<le> n * ?p" using Cons.prems(5) by simp
    note bounds = div_bounds [OF pos(2) Cons.prems(3,4) b]
    have row: "flats (n # ns) (row c x y) = [c * ?p + x..c * ?p + y - 1]" "\<forall>z \<in> set (row c x y). box_within (n # ns) z"
      if "0 \<le> c" "c < n" "0 \<le> x" "x < y" "y \<le> ?p" for c x y
      using Cons.IH [OF ne pos(1) that(3-5)] within_row [OF _ that(1,2), of "decompose_axis ns x y []" ns]
      by (simp_all add: row_def flats_row upto_shift add_diff_eq)
    have am: "0 \<le> a mod ?p" "a mod ?p < ?p" "a div ?p * ?p + a mod ?p = a"
      and bm: "0 \<le> b mod ?p" "b mod ?p < ?p" "b div ?p * ?p + b mod ?p = b"
      using pos(2) by (simp_all add: pos_mod_bound div_mult_mod_eq)
    show ?thesis
    proof (cases "a div ?p = (b - 1) div ?p")
      case True
      have dec: "decompose_axis (n # ns) a b [] = row (a div ?p) (a mod ?p) (a mod ?p + b - a)"
        using True by (simp add: decompose_step [OF ne] Let_def row_def)
      have "(b - 1) mod ?p < ?p" "a div ?p * ?p + (b - 1) mod ?p = b - 1"
        unfolding True using pos(2) by (simp_all add: pos_mod_bound div_mult_mod_eq)
      then have top: "a mod ?p + b - a \<le> ?p" using am(3) by linarith
      have eqs: "a div ?p * ?p + (a mod ?p + b - a) - 1 = b - 1" using am(3) by linarith
      show ?thesis using row [OF bounds(1,2) am(1) _ top] Cons.prems(4) am(3) eqs by (simp add: dec)
    next
      case False
      let ?c = "if a mod ?p \<noteq> 0 then a div ?p + 1 else a div ?p" and ?d = "b div ?p"
      let ?head = "if a mod ?p \<noteq> 0 then row (a div ?p) (a mod ?p) ?p else []"
      let ?body = "if ?c < ?d then [(?c # replicate (length ns) 0, (?d - ?c) # ns)] else []"
      let ?tail = "if b mod ?p \<noteq> 0 then row ?d 0 (b mod ?p) else []"
      have dec: "decompose_axis (n # ns) a b [] = ?head @ ?body @ ?tail"
        using False by (simp add: decompose_step [OF ne] Let_def row_def)
      have cd: "0 \<le> ?c" "?c \<le> ?d" using bounds(1) bounds(6) [OF False] by auto
      have head: "flats (n # ns) ?head = [a..?c * ?p - 1]" "\<forall>z \<in> set ?head. box_within (n # ns) z"
        using row [OF bounds(1,2) am(1,2) order_refl] am(3) by (auto simp: flats_def algebra_simps)
      have body: "flats (n # ns) ?body = [?c * ?p..?d * ?p - 1]" "\<forall>z \<in> set ?body. box_within (n # ns) z"
        using slab_flats [OF cd(2), of ns n] within_slab [OF pos(1) cd(1) _ bounds(3)] pos(1) cd(2)
        by (auto simp: flats_def less_imp_le)
      have tail: "flats (n # ns) ?tail = [?d * ?p..b - 1]" "\<forall>z \<in> set ?tail. box_within (n # ns) z"
        using row [of ?d 0 "b mod ?p"] bounds(4) bm cd by (auto simp: flats_def)
      have succ: "(a div ?p + 1) * ?p = a div ?p * ?p + ?p" by (simp add: distrib_right)
      have ac: "a \<le> ?c * ?p"
      proof (cases "a mod ?p = 0")
        case True
        then have "?c * ?p = a" using am(3) by simp
        then show ?thesis by simp
      next
        case False
        then have "?c * ?p = a div ?p * ?p + ?p" using succ by simp
        then show ?thesis using am by linarith
      qed
      have "[a..?c * ?p - 1] @ [?c * ?p..?d * ?p - 1] @ [?d * ?p..b - 1] = [a..b - 1]"
      proof (rule upto_concat3 [OF ac])
        show "?c * ?p \<le> ?d * ?p" using mult_right_mono [OF cd(2), of ?p] pos(2) by simp
        show "?d * ?p \<le> b" using bm by linarith
      qed
      then show ?thesis unfolding dec flats_append head body tail using head(2) body(2) tail(2) by auto
    qed
  qed
qed simp

text \<open>An interval at one end of the shape needs at most one box per axis; any other at most two, less one.\<close>

lemma decompose_length:
  assumes "ns \<noteq> []" "\<forall>n \<in> set ns. 0 < n" "0 \<le> a" "a < b" "b \<le> prod_list ns"
  shows "length (decompose_axis ns a b []) \<le> (if a = 0 \<or> b = prod_list ns then length ns else 2 * length ns - 1)"
  using assms
proof (induction ns arbitrary: a b)
  case (Cons n ns)
  show ?case
  proof (cases "ns = []")
    case False
    let ?p = "prod_list ns"
    have pos: "\<forall>k \<in> set ns. 0 < k" "0 < ?p" using Cons.prems(2) by (auto intro: prod_list_pos_int)
    have b: "b \<le> n * ?p" using Cons.prems(5) by simp
    note bounds = div_bounds [OF pos(2) Cons.prems(3,4) b]
    have len: "1 \<le> length ns" using False by (cases ns) auto
    note ih = Cons.IH [OF False pos(1)]
    have am: "0 \<le> a mod ?p" "a mod ?p < ?p" "a div ?p * ?p + a mod ?p = a"
      and bm: "0 \<le> b mod ?p" "b mod ?p < ?p" "b div ?p * ?p + b mod ?p = b"
      using pos(2) by (simp_all add: pos_mod_bound div_mult_mod_eq)
    show ?thesis
    proof (cases "a div ?p = (b - 1) div ?p")
      case True
      have "(b - 1) mod ?p < ?p" "a div ?p * ?p + (b - 1) mod ?p = b - 1"
        unfolding True using pos(2) by (simp_all add: pos_mod_bound div_mult_mod_eq)
      then have top: "a mod ?p + b - a \<le> ?p" using am(3) by linarith
      have "a mod ?p < a mod ?p + b - a" using Cons.prems(4) by simp
      note ih1 = ih [OF am(1) this top]
      have ends: "a mod ?p = 0 \<or> a mod ?p + b - a = ?p" if "a = 0 \<or> b = n * ?p"
      proof (cases "a = 0")
        case False
        then have "b = n * ?p" using that by simp
        then have "(b - 1) div ?p = n - 1"
          using pos(2) by (simp add: int_div_pos_eq [of "n * ?p - 1" ?p "n - 1" "?p - 1"] algebra_simps)
        then have "a div ?p = n - 1" using True by simp
        then have "(n - 1) * ?p + a mod ?p = a" using am(3) by simp
        then show ?thesis using \<open>b = n * ?p\<close> by (simp add: left_diff_distrib)
      qed simp
      show ?thesis using ih1 ends len True by (auto simp: decompose_step [OF False] Let_def split: if_splits)
    next
      case two: False
      have head: "length (decompose_axis ns (a mod ?p) ?p []) \<le> length ns" if "a mod ?p \<noteq> 0"
        using ih [OF am(1,2) order_refl] by simp
      have tail: "length (decompose_axis ns 0 (b mod ?p) []) \<le> length ns" if "b mod ?p \<noteq> 0"
        using ih [of 0 "b mod ?p"] bm that by simp
      have "b mod ?p = 0" if "b = n * ?p" using that by simp
      then show ?thesis using head tail two len
        by (auto simp: decompose_step [OF False] Let_def)
    qed
  qed simp
qed simp

lemma decompose_flat_exact:
  assumes "shape \<noteq> []" "\<forall>n \<in> set shape. 0 \<le> n" "0 \<le> a" "a \<le> b" "b \<le> prod_list shape"
  shows "\<exists>boxes. decompose_flat_interval shape a b = Inr boxes \<and> flats shape boxes = [a..b - 1] \<and>
    (\<forall>x \<in> set boxes. box_within shape x) \<and> length boxes \<le> 2 * length shape - 1"
proof (cases "a = b")
  case True
  then show ?thesis using assms by (simp add: decompose_flat_interval_def flats_def)
next
  case False
  then have ab: "a < b" using assms(4) by simp
  then have "prod_list shape \<noteq> 0" using assms(3,5) by simp
  then have pos: "\<forall>n \<in> set shape. 0 < n" using assms(2) by (force simp: prod_list_zero_iff order_less_le)
  have "length (decompose_axis shape a b []) \<le> 2 * length shape - 1"
    using decompose_length [OF assms(1) pos assms(3) ab assms(5)] assms(1) by (cases shape) (auto split: if_splits)
  then show ?thesis using decompose_exact [OF assms(1) pos assms(3) ab assms(5)] assms ab
    by (simp add: decompose_flat_interval_def)
qed

text \<open>
  C40.  A flat interval of a tensor is cut into boxes.  Every box lies within the shape and is not empty; the boxes
  list exactly the indices of the interval, each once and in row-major order; and there are at most two
  boxes per axis, less one.
\<close>

theorem ragged_boxes_exact:
  assumes "shape \<noteq> []" "\<forall>n \<in> set shape. 0 \<le> n" "0 \<le> a" "a \<le> b" "b \<le> prod_list shape"
  shows "\<exists>boxes. decompose_flat_interval shape a b = Inr boxes \<and> flats shape boxes = [a..b - 1] \<and>
    (\<forall>x \<in> set boxes. box_within shape x) \<and> length boxes \<le> 2 * length shape - 1"
  using assms by (rule decompose_flat_exact)

theorem ragged_boxes_exact_witness:
  "\<exists>boxes. decompose_flat_interval [3, 4, 2] 5 19 = Inr boxes \<and> flats [3, 4, 2] boxes = [5..18] \<and> length boxes \<le> 5"
proof -
  have "\<forall>n \<in> set [3, 4, 2]. 0 \<le> (n::int)" "(19::int) \<le> prod_list [3, 4, 2]" by simp_all
  then show ?thesis using ragged_boxes_exact [of "[3, 4, 2]" 5 19] by fastforce
qed

section \<open>The intervals of all ranks\<close>

definition ragged_ok :: "int list \<Rightarrow> layout \<Rightarrow> nat \<Rightarrow> int list \<Rightarrow> int list \<Rightarrow> bool" where
  "ragged_ok shape layout mesh_dim dims units \<longleftrightarrow>
     ragged_shard layout = Some (mesh_dim, RaggedShard dims units) \<and>
     (\<exists>ps. placements layout = Some ps \<and> (\<forall>i < length ps. i \<noteq> mesh_dim \<longrightarrow> ps ! i = Replicate)) \<and>
     (\<forall>n \<in> set shape. 0 \<le> n) \<and> length dims \<le> length shape \<and> mesh_dim < length (mesh_shape layout) \<and>
     mesh_shape layout ! mesh_dim = int (length units) \<and> (\<forall>u \<in> set units. 0 \<le> u) \<and> 0 < sum_list units \<and>
     prod_list (take (length dims) shape) mod sum_list units = 0"

definition ragged_bound :: "int list \<Rightarrow> int list \<Rightarrow> int list \<Rightarrow> nat \<Rightarrow> int" where
  "ragged_bound shape dims units r =
     sum_list (take r units) * (prod_list (take (length dims) shape) div sum_list units) * prod_list (drop (length dims) shape)"

lemma ragged_slice_eq:
  assumes ok: "ragged_ok shape layout mesh_dim dims units" and r: "r < length units"
  shows "compute_ragged_slice shape layout (int r) =
    Inr (ragged_bound shape dims units r, ragged_bound shape dims units (Suc r))"
proof -
  obtain ps where ps: "placements layout = Some ps" "\<forall>i < length ps. i \<noteq> mesh_dim \<longrightarrow> ps ! i = Replicate"
    using ok by (auto simp: ragged_ok_def)
  have others: "\<not> (\<exists>(i, p) \<in> set (enumerate 0 ps). i \<noteq> mesh_dim \<and> p \<noteq> Replicate)"
    using ps(2) by (auto simp: in_set_enumerate_eq)
  have norm: "normalize_global_shape shape = Inr shape"
    using ok by (auto simp: normalize_global_shape_def ragged_ok_def not_le [symmetric])
  have size: "py_get (mesh_shape layout) (int mesh_dim) = Inr (int (length units))"
    using ok by (simp add: ragged_ok_def py_get_nat)
  have "take (Suc r) units = take r units @ [units ! r]" using r by (simp add: take_Suc_conv_app_nth)
  then have succ: "ragged_bound shape dims units (Suc r) = ragged_bound shape dims units r +
      units ! r * (prod_list (take (length dims) shape) div sum_list units) * prod_list (drop (length dims) shape)"
    by (simp add: ragged_bound_def algebra_simps)
  show ?thesis using ok r
    unfolding compute_ragged_slice_def ps(1) option.case
    by (simp add: ragged_ok_def norm size others succ Let_def) (simp add: ragged_bound_def)
qed

lemma ragged_bounds:
  assumes ok: "ragged_ok shape layout mesh_dim dims units"
  shows "ragged_bound shape dims units 0 = 0" "ragged_bound shape dims units (length units) = prod_list shape"
    "i \<le> j \<Longrightarrow> ragged_bound shape dims units i \<le> ragged_bound shape dims units j"
proof -
  show "ragged_bound shape dims units 0 = 0" by (simp add: ragged_bound_def)
  have "sum_list units * (prod_list (take (length dims) shape) div sum_list units) = prod_list (take (length dims) shape)"
    using ok by (auto simp: ragged_ok_def mult.commute)
  then show "ragged_bound shape dims units (length units) = prod_list shape"
    by (simp add: ragged_bound_def) (metis append_take_drop_id prod_list.append)
  have pos: "0 \<le> prod_list (take (length dims) shape) div sum_list units" "0 \<le> prod_list (drop (length dims) shape)"
    using ok by (auto simp: ragged_ok_def pos_imp_zdiv_nonneg_iff intro!: prod_list_nonneg dest: in_set_takeD in_set_dropD)
  show "ragged_bound shape dims units i \<le> ragged_bound shape dims units j" if "i \<le> j"
  proof -
    have "take j units = take i units @ take (j - i) (drop i units)"
      using that by (metis le_add_diff_inverse take_add)
    moreover have "0 \<le> sum_list (take (j - i) (drop i units))"
    proof (rule sum_list_nonneg)
      fix u assume "u \<in> set (take (j - i) (drop i units))"
      then have "u \<in> set units" by (meson in_set_takeD in_set_dropD)
      then show "0 \<le> u" using ok by (simp add: ragged_ok_def)
    qed
    ultimately have "sum_list (take i units) \<le> sum_list (take j units)" by simp
    then show ?thesis unfolding ragged_bound_def using pos by (intro mult_right_mono) auto
  qed
qed

section \<open>The variable all-to-all\<close>

lemma telescope:
  assumes "\<And>r. r < n \<Longrightarrow> E r \<le> E (Suc r)"
  shows "concat (map (\<lambda>r. [E r..E (Suc r) - (1::int)]) [0..<n]) = [E 0..E n - 1]"
  using assms
proof (induction n)
  case (Suc n)
  have "E 0 \<le> E n" using Suc.prems by (induction n) (auto intro: order_trans less_SucI)
  then show ?case using Suc.IH Suc.prems upto_concat [of "E 0" "E n" "E (Suc n)"] by simp
qed simp

definition clamp :: "int \<Rightarrow> int \<Rightarrow> int \<Rightarrow> int" where
  "clamp lo hi x = max lo (min x hi)"

lemma clamp_mono: "x \<le> y \<Longrightarrow> clamp lo hi x \<le> clamp lo hi y"
  by (auto simp: clamp_def)

lemma overlap_clamp:
  assumes "b \<le> b'" "c \<le> c'"
  shows "interval_overlap_size (b, b') (c, c') = clamp b b' c' - clamp b b' c"
    "interval_overlap_size (b, b') (c, c') = clamp c c' b' - clamp c c' b"
    "[clamp b b' c..clamp b b' c' - 1] = [clamp c c' b..clamp c c' b' - 1]"
  using assms by (auto simp: interval_overlap_size_def clamp_def max_def min_def)

lemma sum_telescope: "sum_list (map (\<lambda>t. D (Suc t) - D t) [0..<n]) = D n - (D 0 :: int)"
  by (induction n) auto

lemma upto_take_drop:
  assumes "a \<le> x" "x \<le> y" "y \<le> b"
  shows "take (nat (y - x)) (drop (nat (x - a)) [a..b - 1]) = [x..y - (1::int)]"
proof -
  have "[a..b - 1] = [a..x - 1] @ [x..y - 1] @ [y..b - 1]" using upto_concat3 [OF assms] ..
  then show ?thesis using assms by simp
qed

text \<open>What a source rank sends to a target rank: its buffer cut by the input splits.\<close>

definition sent_piece :: "int list \<Rightarrow> ragged_slice \<Rightarrow> nat \<Rightarrow> int list" where
  "sent_piece splits s t = take (nat (splits ! t)) (drop (nat (sum_list (take t splits))) [fst s..snd s - 1])"

lemma rmap_upto_ok:
  assumes "\<And>r. r < n \<Longrightarrow> f (int r) = Inr (g r)"
  shows "rmap f [0..int n - 1] = Inr (map g [0..<n])"
proof -
  have "[0..int n - 1] = map int [0..<n]" by (induction n) (auto simp: upto_rec2)
  then have "rmap f [0..int n - 1] = Inr (map (\<lambda>x. g (nat x)) [0..int n - 1])"
    by (intro rmap_total) (use assms in auto)
  also have "map (\<lambda>x. g (nat x)) [0..int n - 1] = map g [0..<n]"
    unfolding \<open>[0..int n - 1] = map int [0..<n]\<close> by simp
  finally show ?thesis .
qed

lemma ragged_splits_eq:
  assumes src: "ragged_ok shape from_layout mesh_dim dims units" and dst: "ragged_ok shape to_layout mesh_dim dims units'"
    and r: "r < length units" and t: "t < length units'"
  defines "B \<equiv> ragged_bound shape dims units" and "C \<equiv> ragged_bound shape dims units'"
  shows "compute_ragged_all_to_all_splits shape from_layout to_layout (int r) (int t) =
    Inr (map (\<lambda>u. interval_overlap_size (B r, B (Suc r)) (C u, C (Suc u))) [0..<length units'],
         map (\<lambda>u. interval_overlap_size (B u, B (Suc u)) (C t, C (Suc t))) [0..<length units])"
proof -
  have shards: "ragged_shard from_layout = Some (mesh_dim, RaggedShard dims units)"
    "ragged_shard to_layout = Some (mesh_dim, RaggedShard dims units')"
    using src dst by (simp_all add: ragged_ok_def)
  have sizes: "ragged_axis_size from_layout = Inr (int (length units))" "ragged_axis_size to_layout = Inr (int (length units'))"
    using src dst by (simp_all add: ragged_ok_def ragged_axis_size_def py_get_nat)
  have "rmap (\<lambda>rank. rbind (compute_ragged_slice shape to_layout rank)
      (\<lambda>s. Inr (interval_overlap_size (B r, B (Suc r)) s))) [0..int (length units') - 1] =
    Inr (map (\<lambda>u. interval_overlap_size (B r, B (Suc r)) (C u, C (Suc u))) [0..<length units'])"
    by (rule rmap_upto_ok) (simp add: ragged_slice_eq [OF dst] C_def)
  moreover have "rmap (\<lambda>rank. rbind (compute_ragged_slice shape from_layout rank)
      (\<lambda>s. Inr (interval_overlap_size s (C t, C (Suc t))))) [0..int (length units) - 1] =
    Inr (map (\<lambda>u. interval_overlap_size (B u, B (Suc u)) (C t, C (Suc t))) [0..<length units])"
    by (rule rmap_upto_ok) (simp add: ragged_slice_eq [OF src] B_def)
  ultimately show ?thesis
    using ragged_slice_eq [OF src r] ragged_slice_eq [OF dst t]
    by (simp add: compute_ragged_all_to_all_splits_def shards sizes B_def [symmetric] C_def [symmetric])
qed

lemma sent_piece_eq:
  assumes mono: "\<And>i j. i \<le> j \<Longrightarrow> C i \<le> C j" and b: "b \<le> b'" "C 0 \<le> b" "b' \<le> C n" and t: "t < n"
  shows "sent_piece (map (\<lambda>u. interval_overlap_size (b, b') (C u, C (Suc u))) [0..<n]) (b, b') t =
      [clamp b b' (C t)..clamp b b' (C (Suc t)) - 1]"
    "sum_list (map (\<lambda>u. interval_overlap_size (b, b') (C u, C (Suc u))) [0..<n]) = b' - b"
proof -
  have eq: "interval_overlap_size (b, b') (C u, C (Suc u)) = clamp b b' (C (Suc u)) - clamp b b' (C u)" for u
    by (rule overlap_clamp(1)) (use b mono in auto)
  let ?D = "\<lambda>u. clamp b b' (C u)"
  have ends: "?D 0 = b" "?D n = b'" using b by (simp_all add: clamp_def)
  have sum: "sum_list (map (\<lambda>u. interval_overlap_size (b, b') (C u, C (Suc u))) [0..<k]) = ?D k - b" for k
    unfolding eq using sum_telescope [of ?D k] ends by simp
  show "sum_list (map (\<lambda>u. interval_overlap_size (b, b') (C u, C (Suc u))) [0..<n]) = b' - b"
    using sum [of n] ends by simp
  have "take t [0..<n] = [0..<t]" using t by simp
  then have "sum_list (take t (map (\<lambda>u. interval_overlap_size (b, b') (C u, C (Suc u))) [0..<n])) = ?D t - b"
    using sum [of t] by (simp add: take_map)
  moreover have "b \<le> ?D t" "?D t \<le> ?D (Suc t)" "?D (Suc t) \<le> b'"
    using b mono [of t "Suc t"] by (auto simp: clamp_def max_def min_def)
  ultimately show "sent_piece (map (\<lambda>u. interval_overlap_size (b, b') (C u, C (Suc u))) [0..<n]) (b, b') t =
      [?D t..?D (Suc t) - 1]"
    using t upto_take_drop [of b "?D t" "?D (Suc t)" b'] by (simp add: sent_piece_def eq)
qed

text \<open>
  Changing the proportions of a RaggedShard.  The splits that the ranks compute agree pairwise, the input splits
  of a rank add up to its interval, and when every rank cuts its buffer by its input splits, what a target rank
  receives, in the order of the source ranks, is exactly its new interval.
\<close>

theorem ragged_all_to_all_moves:
  assumes src: "ragged_ok shape from_layout mesh_dim dims units" and dst: "ragged_ok shape to_layout mesh_dim dims units'"
  shows "\<exists>ins outs. (\<forall>r < length units. \<forall>t < length units'.
      compute_ragged_all_to_all_splits shape from_layout to_layout (int r) (int t) = Inr (ins r, outs t) \<and> ins r ! t = outs t ! r) \<and>
    (\<forall>r < length units. \<exists>s. compute_ragged_slice shape from_layout (int r) = Inr s \<and> sum_list (ins r) = local_numel s) \<and>
    (\<forall>t < length units'. \<exists>s. compute_ragged_slice shape to_layout (int t) = Inr s \<and>
      concat (map (\<lambda>r. sent_piece (ins r) (projr (compute_ragged_slice shape from_layout (int r))) t) [0..<length units]) =
        [fst s..snd s - 1])"
proof -
  let ?B = "ragged_bound shape dims units" and ?C = "ragged_bound shape dims units'"
  define ins where "ins r = map (\<lambda>u. interval_overlap_size (?B r, ?B (Suc r)) (?C u, ?C (Suc u))) [0..<length units']" for r
  define outs where "outs t = map (\<lambda>u. interval_overlap_size (?B u, ?B (Suc u)) (?C t, ?C (Suc t))) [0..<length units]" for t
  note B = ragged_bounds [OF src] and C = ragged_bounds [OF dst]
  have inside: "?C 0 \<le> ?B r" "?B (Suc r) \<le> ?C (length units')" if "r < length units" for r
    using B C(1,2) B(3) [of 0 r] B(3) [of "Suc r" "length units"] that by auto
  have piece: "sent_piece (ins r) (?B r, ?B (Suc r)) t =
      [clamp (?B r) (?B (Suc r)) (?C t)..clamp (?B r) (?B (Suc r)) (?C (Suc t)) - 1]"
    "sum_list (ins r) = ?B (Suc r) - ?B r" if "r < length units" "t < length units'" for r t
    unfolding ins_def by (rule sent_piece_eq [OF C(3) B(3) inside]; use that in simp)+
  have splits: "compute_ragged_all_to_all_splits shape from_layout to_layout (int r) (int t) = Inr (ins r, outs t) \<and> ins r ! t = outs t ! r"
    if "r < length units" "t < length units'" for r t
    using ragged_splits_eq [OF src dst that] that by (simp add: ins_def outs_def)
  have sums: "sum_list (ins r) = local_numel (?B r, ?B (Suc r))" if "r < length units" for r
  proof (cases "length units' = 0")
    case True
    then show ?thesis using dst by (simp add: ragged_ok_def)
  next
    case False
    then show ?thesis using piece(2) [of r 0] that by (simp add: local_numel_def)
  qed
  have moved: "concat (map (\<lambda>r. sent_piece (ins r) (?B r, ?B (Suc r)) t) [0..<length units]) = [?C t..?C (Suc t) - 1]"
    if t: "t < length units'" for t
  proof -
    let ?E = "\<lambda>r. clamp (?C t) (?C (Suc t)) (?B r)"
    have ends: "?E 0 = ?C t" "?E (length units) = ?C (Suc t)"
      using B(1,2) C(1,2) C(3) [of 0 t] C(3) [of t "Suc t"] C(3) [of "Suc t" "length units'"] t
      by (auto simp: clamp_def max_def min_def)
    have "map (\<lambda>r. sent_piece (ins r) (?B r, ?B (Suc r)) t) [0..<length units] =
        map (\<lambda>r. [?E r..?E (Suc r) - 1]) [0..<length units]"
      using piece(1) [OF _ t] overlap_clamp(3) [OF B(3) C(3)] by simp
    also have "concat \<dots> = [?E 0..?E (length units) - 1]"
      by (rule telescope) (intro clamp_mono B(3) le_SucI order_refl)
    finally show ?thesis unfolding ends .
  qed
  have "concat (map (\<lambda>r. sent_piece (ins r) (projr (compute_ragged_slice shape from_layout (int r))) t) [0..<length units]) =
      concat (map (\<lambda>r. sent_piece (ins r) (?B r, ?B (Suc r)) t) [0..<length units])" for t
    by (rule arg_cong [of _ _ concat]) (simp add: ragged_slice_eq [OF src])
  then show ?thesis
    using splits sums moved ragged_slice_eq [OF src] ragged_slice_eq [OF dst]
    by (intro exI [of _ ins] exI [of _ outs]) auto
qed

definition ragged_layout :: "int list \<Rightarrow> layout" where
  "ragged_layout units = \<lparr>mesh_shape = [3], mesh_dim_names = [], rank_list = [0, 1, 2], tensor_map = None, partial = [],
     placements = Some [RaggedShard [0] units], ragged_shard = Some (0, RaggedShard [0] units),
     alias_tensor_map = None, tensor_shape = None\<rparr>"

theorem ragged_all_to_all_moves_witness:
  "\<exists>ins outs. compute_ragged_all_to_all_splits [6, 2] (ragged_layout [1, 0, 2]) (ragged_layout [1, 1, 1]) 2 0 = Inr (ins, outs) \<and>
    ins ! 0 = outs ! 2"
proof -
  have "ragged_ok [6, 2] (ragged_layout [1, 0, 2]) 0 [0] [1, 0, 2]" "ragged_ok [6, 2] (ragged_layout [1, 1, 1]) 0 [0] [1, 1, 1]"
    by (simp_all add: ragged_ok_def ragged_layout_def)
  from ragged_all_to_all_moves [OF this] obtain ins outs where
    "\<forall>r < length [1, 0, 2 :: int]. \<forall>t < length [1, 1, 1 :: int].
      compute_ragged_all_to_all_splits [6, 2] (ragged_layout [1, 0, 2]) (ragged_layout [1, 1, 1]) (int r) (int t) =
        Inr (ins r, outs t) \<and> ins r ! t = outs t ! r" by blast
  then have "compute_ragged_all_to_all_splits [6, 2] (ragged_layout [1, 0, 2]) (ragged_layout [1, 1, 1]) (int 2) (int 0) =
      Inr (ins 2, outs 0) \<and> ins 2 ! 0 = outs 0 ! 2" by (elim allE [of _ 2] allE [of _ 0] impE) simp_all
  then show ?thesis by simp
qed

end
