(* ===== verification/CkptSave.thy ===== *)
theory CkptSave
  imports StateDict Ragged
begin

text \<open>
  Saving a distributed checkpoint: \<open>StandardSavePlanner\<close> of \<open>standard_planner.py\<close>.  Every rank makes a
  plan of the items it holds, all plans are gathered, and every rank derives from them its own final plan
  and the metadata of the whole checkpoint.
\<close>

section \<open>The entries of a flat state dict\<close>

record dtensor =
  dt_shape :: "int list"
  dt_layout :: "layout option"
  dt_local_shape :: "int list"
  dt_dtype :: string
  dt_on_host :: bool

text \<open>The attribute \<open>chunk_info\<close> of a plain tensor: absent, a \<open>ChunkInfo\<close>, or something else.\<close>

datatype chunk_attr = NoChunkInfo | ChunkInfo chunk "int list" | OtherChunkInfo

record plain_tensor =
  pt_shape :: "int list"
  pt_dtype :: string
  pt_chunk_info :: chunk_attr
  pt_on_host :: bool

datatype entry = DTensor dtensor | PlainTensor plain_tensor | OtherObject

section \<open>The local plan\<close>

text \<open>\<open>DeviceMesh.get_local_rank\<close>: the coordinate of the rank on one mesh dimension.\<close>

definition get_local_rank :: "layout \<Rightarrow> int \<Rightarrow> nat \<Rightarrow> int res" where
  "get_local_rank layout rank mesh_dim =
     (if length (mesh_shape layout) \<le> mesh_dim then Inl ValueError
      else rbind (py_index (rank_list layout) rank) (\<lambda>idx.
           rbind (calculate_mesh_coordinate_for_rank (mesh_shape layout) (int idx)) (\<lambda>coord. Inr (coord ! mesh_dim))))"

text \<open>
  \<open>compute_ragged_boxes(tensor)\<close>: the local rank is looked up after the other checks of the slice, and a
  rank without one gets the same \<open>ValueError\<close> as one out of range, here \<open>-1\<close>.
\<close>

definition ragged_boxes_of :: "int \<Rightarrow> int list \<Rightarrow> layout \<Rightarrow> checkpoint_box list res" where
  "ragged_boxes_of rank shape layout =
     compute_ragged_boxes shape layout
       (case ragged_shard layout of
          None \<Rightarrow> -1
        | Some (mesh_dim, _) \<Rightarrow> (case get_local_rank layout rank mesh_dim of Inl _ \<Rightarrow> -1 | Inr r \<Rightarrow> r))"

definition infer_slice_area_by_layout :: "layout \<Rightarrow> int \<Rightarrow> int list \<Rightarrow> (int \<times> int) list res" where
  "infer_slice_area_by_layout layout rank_id full_shape =
     (case tensor_map layout of
        None \<Rightarrow> Inl TypeError
      | Some tm \<Rightarrow> infer_slice_area_by_rank (mesh_shape layout) tm rank_id full_shape (set (uneven_shard_mesh_dims layout)))"

definition compute_global_offsets :: "int list \<Rightarrow> layout option \<Rightarrow> int \<Rightarrow> int list res" where
  "compute_global_offsets global_shape dtensor_layout current_rank =
     (case dtensor_layout of
        None \<Rightarrow> Inr (map (\<lambda>_. 0) global_shape)
      | Some layout \<Rightarrow>
          if tensor_map layout = None then Inl ValueError
          else rbind (py_index (rank_list layout) current_rank) (\<lambda>inner_rank_id.
               rbind (infer_slice_area_by_layout layout (int inner_rank_id) global_shape) (\<lambda>slice_area.
               Inr (map fst slice_area))))"

definition tensor_item :: "string \<Rightarrow> chunk \<Rightarrow> string \<Rightarrow> int list \<Rightarrow> write_item" where
  "tensor_item fqn chunk dtype global_size =
     \<lparr>wi_index = \<lparr>mi_fqn = fqn, mi_offset = ch_offsets chunk, mi_index = None\<rparr>, wi_type = Tensor,
      wi_data = Some \<lparr>td_chunk = chunk,
        td_properties = \<lparr>tp_dtype = Some dtype, tp_requires_grad = False, tp_memory_format = None\<rparr>, td_size = global_size\<rparr>\<rparr>"

definition create_ragged_write_items :: "int \<Rightarrow> string \<Rightarrow> dtensor \<Rightarrow> layout \<Rightarrow> write_item list res" where
  "create_ragged_write_items rank fqn t layout =
     rbind (ragged_boxes_of rank (dt_shape t) layout) (\<lambda>boxes.
       Inr (map (\<lambda>box. tensor_item fqn \<lparr>ch_offsets = box_offsets box, ch_sizes = box_sizes box\<rparr> (dt_dtype t) (dt_shape t)) boxes))"

definition write_items_of :: "int \<Rightarrow> string \<times> entry \<Rightarrow> write_item list res" where
  "write_items_of rank entry =
     (case entry of (fqn, obj) \<Rightarrow> (case obj of
        DTensor t \<Rightarrow>
          (case dt_layout t of
             None \<Rightarrow> Inr [tensor_item fqn \<lparr>ch_offsets = map (\<lambda>_. 0) (dt_local_shape t), ch_sizes = dt_local_shape t\<rparr>
                            (dt_dtype t) (dt_shape t)]
           | Some layout \<Rightarrow>
               if ragged_shard layout \<noteq> None then create_ragged_write_items rank fqn t layout
               else rbind (compute_global_offsets (dt_shape t) (Some layout) rank) (\<lambda>offsets.
                 Inr [tensor_item fqn \<lparr>ch_offsets = offsets, ch_sizes = dt_local_shape t\<rparr> (dt_dtype t) (dt_shape t)]))
      | PlainTensor t \<Rightarrow>
          (case pt_chunk_info t of
             NoChunkInfo \<Rightarrow> Inr [tensor_item fqn \<lparr>ch_offsets = map (\<lambda>_. 0) (pt_shape t), ch_sizes = pt_shape t\<rparr> (pt_dtype t) (pt_shape t)]
           | ChunkInfo chunk global_shape \<Rightarrow> Inr [tensor_item fqn chunk (pt_dtype t) global_shape]
           | OtherChunkInfo \<Rightarrow> Inl ValueError)
      | OtherObject \<Rightarrow>
          Inr [\<lparr>wi_index = \<lparr>mi_fqn = fqn, mi_offset = [], mi_index = None\<rparr>, wi_type = ByteIO, wi_data = None\<rparr>]))"

record save_planner =
  svp_state_dict :: "(string \<times> entry) list option"
  svp_name_mapping :: name_mapping
  svp_rank :: int
  svp_remove_redundancy :: bool
  svp_save_to_minimum_rank :: bool
  svp_flatten :: bool

definition build_local_save_plan :: "save_planner \<Rightarrow> save_plan res" where
  "build_local_save_plan planner =
     (case svp_state_dict planner of
        None \<Rightarrow> Inl RuntimeError
      | Some sd \<Rightarrow> rbind (rmap (write_items_of (svp_rank planner)) sd) (\<lambda>items.
          Inr \<lparr>sp_items = concat items,
               sp_planner_data = (if svp_flatten planner then Some (svp_name_mapping planner) else None)\<rparr>))"

section \<open>The global plan\<close>

definition own_plan_index :: "'a list \<Rightarrow> int \<Rightarrow> nat res" where
  "own_plan_index all_plans rank =
     (let own_index = (if 1 < length all_plans then rank else 0)
      in if 0 \<le> own_index \<and> own_index < int (length all_plans) then Inr (nat own_index) else Inl ValueError)"

type_synonym fqn_info = "(string \<times> tensor_properties \<times> int list \<times> chunk list) list"

text \<open>The chunk list of a name, empty on first sight; another rank must describe the tensor the same way.\<close>

definition global_chunks_for :: "string \<Rightarrow> tensor_properties \<Rightarrow> int list \<Rightarrow> fqn_info \<Rightarrow> chunk list res" where
  "global_chunks_for fqn properties global_size info =
     (case map_of info fqn of
        None \<Rightarrow> Inr []
      | Some (known_properties, known_size, chunks) \<Rightarrow>
          if known_properties \<noteq> properties \<or> known_size \<noteq> global_size then Inl ValueError else Inr chunks)"

type_synonym global_state = "fqn_info \<times> (string \<times> storage_metadata) list \<times> write_item list"

definition collect_item :: "bool \<Rightarrow> write_item \<Rightarrow> global_state \<Rightarrow> global_state res" where
  "collect_item is_own_plan item st =
     (case st of (info, md, own_items) \<Rightarrow>
        (case (wi_type item, wi_data item) of
           (Tensor, Some data) \<Rightarrow>
             rbind (global_chunks_for (mi_fqn (wi_index item)) (td_properties data) (td_size data) info) (\<lambda>chunks.
               Inr (AList.update (mi_fqn (wi_index item)) (td_properties data, td_size data, chunks @ [td_chunk data]) info, md,
                    if is_own_plan then own_items @ [item\<lparr>wi_index := (wi_index item)\<lparr>mi_index := Some (int (length chunks))\<rparr>\<rparr>]
                    else own_items))
         | (ByteIO, _) \<Rightarrow> Inr (info, AList.update (mi_fqn (wi_index item)) BytesStorage md,
                             if is_own_plan then own_items @ [item] else own_items)
         | _ \<Rightarrow> Inl ValueError))"

text \<open>\<open>compress(plan.items, mask)\<close>.\<close>

definition compress :: "'a list \<Rightarrow> bool list \<Rightarrow> 'a list" where
  "compress xs keep = map fst (filter snd (zip xs keep))"

definition masks_of :: "save_planner \<Rightarrow> save_plan list \<Rightarrow> bool list list option" where
  "masks_of planner plans =
     (if svp_remove_redundancy planner \<and> 1 < length plans then Some (plan_ownership_masks (svp_save_to_minimum_rank planner) plans) else None)"

definition kept_items :: "bool list list option \<Rightarrow> nat \<times> save_plan \<Rightarrow> write_item list" where
  "kept_items masks ip = (case masks of None \<Rightarrow> sp_items (snd ip) | Some ms \<Rightarrow> compress (sp_items (snd ip)) (ms ! fst ip))"

definition collect_plan :: "bool list list option \<Rightarrow> nat \<Rightarrow> nat \<times> save_plan \<Rightarrow> global_state \<Rightarrow> global_state res" where
  "collect_plan masks own_index ip = rfold (collect_item (fst ip = own_index)) (kept_items masks ip)"

record ckpt_metadata =
  md_state_dict :: "(string \<times> storage_metadata) list"
  md_planner_data :: "name_mapping option"

text \<open>\<open>dict.update(None)\<close> raises: a plan without the name mapping the others carry.\<close>

definition merge_mappings :: "save_plan list \<Rightarrow> name_mapping res" where
  "merge_mappings plans =
     rfold (\<lambda>p m. case sp_planner_data p of None \<Rightarrow> Inl TypeError | Some d \<Rightarrow> Inr (dict_merge m d)) plans []"

definition tensor_entry :: "string \<times> tensor_properties \<times> int list \<times> chunk list \<Rightarrow> string \<times> storage_metadata" where
  "tensor_entry x = (case x of (fqn, properties, global_size, chunks) \<Rightarrow>
     (fqn, TensorStorage \<lparr>ts_properties = properties, ts_size = global_size, ts_chunks = chunks\<rparr>))"

definition build_global_save_plan :: "save_planner \<Rightarrow> save_plan list \<Rightarrow> (save_plan \<times> ckpt_metadata) res" where
  "build_global_save_plan planner all_plans =
     rbind (own_plan_index all_plans (svp_rank planner)) (\<lambda>own_index.
       rbind (rfold (collect_plan (masks_of planner all_plans) own_index) (enumerate 0 all_plans) ([], [], [])) (\<lambda>(info, md, own_items).
            let md = dict_merge md (map tensor_entry info)
            in rbind (if svp_flatten planner then rbind (merge_mappings all_plans) (\<lambda>m. Inr (Some m)) else Inr None) (\<lambda>data.
               Inr ((all_plans ! own_index)\<lparr>sp_items := own_items\<rparr>, \<lparr>md_state_dict = md, md_planner_data = data\<rparr>))))"

section \<open>What the ranks' plans have in common\<close>

definition tensor_named :: "string \<Rightarrow> write_item \<Rightarrow> bool" where
  "tensor_named f item \<longleftrightarrow> wi_type item = Tensor \<and> mi_fqn (wi_index item) = f"

definition chunk_of :: "write_item \<Rightarrow> chunk" where
  "chunk_of item = td_chunk (the (wi_data item))"

definition chunks_named :: "string \<Rightarrow> write_item list \<Rightarrow> chunk list" where
  "chunks_named f items = map chunk_of (filter (tensor_named f) items)"

text \<open>The chunk index an item gets: how many chunks of its tensor come before it in the gather.\<close>

definition number_item :: "write_item list \<Rightarrow> write_item \<Rightarrow> write_item" where
  "number_item pre item =
     (if wi_type item = Tensor
      then item\<lparr>wi_index := (wi_index item)\<lparr>mi_index := Some (int (length (chunks_named (mi_fqn (wi_index item)) pre)))\<rparr>\<rparr>
      else item)"

fun numbered :: "write_item list \<Rightarrow> write_item list \<Rightarrow> write_item list" where
  "numbered pre [] = []"
| "numbered pre (x # xs) = number_item pre x # numbered (pre @ [x]) xs"

lemma number_item_simps [simp]:
  "wi_type (number_item pre x) = wi_type x" "wi_data (number_item pre x) = wi_data x"
  "mi_fqn (wi_index (number_item pre x)) = mi_fqn (wi_index x)"
  "mi_offset (wi_index (number_item pre x)) = mi_offset (wi_index x)"
  by (simp_all add: number_item_def)

lemma chunks_named_append [simp]: "chunks_named f (xs @ ys) = chunks_named f xs @ chunks_named f ys"
  by (simp add: chunks_named_def)

lemma numbered_append: "numbered pre (xs @ ys) = numbered pre xs @ numbered (pre @ xs) ys"
  by (induction xs arbitrary: pre) auto

lemma numbered_indices:
  "map (\<lambda>it. (mi_index (wi_index it), chunk_of it)) (filter (tensor_named f) (numbered pre xs)) =
    map (\<lambda>i. (Some (int (length (chunks_named f pre) + i)), chunks_named f xs ! i)) [0..<length (chunks_named f xs)]"
proof (induction xs arbitrary: pre)
  case (Cons x xs)
  show ?case
  proof (cases "tensor_named f x")
    case True
    then have one: "chunks_named f (x # xs) = chunk_of x # chunks_named f xs" "chunks_named f [x] = [chunk_of x]"
      by (simp_all add: chunks_named_def)
    have "tensor_named f (number_item pre x)" "chunk_of (number_item pre x) = chunk_of x"
      "mi_index (wi_index (number_item pre x)) = Some (int (length (chunks_named f pre)))"
      using True by (simp_all add: tensor_named_def chunk_of_def) (simp add: number_item_def)
    then show ?thesis using Cons.IH [of "pre @ [x]"]
      by (simp add: one upt_conv_Cons map_Suc_upt [symmetric] comp_def del: upt_Suc)
  next
    case False
    then have "chunks_named f (x # xs) = chunks_named f xs" "chunks_named f [x] = []" by (simp_all add: chunks_named_def)
    moreover have "\<not> tensor_named f (number_item pre x)" using False by (simp add: tensor_named_def)
    ultimately show ?thesis using Cons.IH [of "pre @ [x]"] by simp
  qed
qed (simp add: chunks_named_def)

definition describes :: "write_item list \<Rightarrow> fqn_info \<Rightarrow> bool" where
  "describes pre info \<longleftrightarrow> (\<forall>f. (case map_of info f of None \<Rightarrow> [] | Some (_, _, cs) \<Rightarrow> cs) = chunks_named f pre)"

lemma collect_item_run:
  assumes "collect_item own x (info, md, acc) = Inr (info', md', acc')" "describes pre info"
  shows "describes (pre @ [x]) info' \<and> acc' = acc @ (if own then [number_item pre x] else [])"
proof (cases "wi_type x")
  case Tensor
  then obtain data where data: "wi_data x = Some data"
    using assms(1) by (cases "wi_data x") (auto simp: collect_item_def)
  let ?f = "mi_fqn (wi_index x)"
  obtain chunks where chunks: "global_chunks_for ?f (td_properties data) (td_size data) info = Inr chunks"
    "info' = AList.update ?f (td_properties data, td_size data, chunks @ [td_chunk data]) info"
    "acc' = (if own then acc @ [x\<lparr>wi_index := (wi_index x)\<lparr>mi_index := Some (int (length chunks))\<rparr>\<rparr>] else acc)"
    using assms(1) Tensor data by (auto simp: collect_item_def)
  have known: "chunks = chunks_named ?f pre"
    using chunks(1) assms(2) by (auto simp: global_chunks_for_def describes_def split: option.splits if_splits dest: spec [of _ ?f])
  have "chunks_named g [x] = (if g = ?f then [td_chunk data] else [])" for g
    using Tensor data by (simp add: chunks_named_def tensor_named_def chunk_of_def)
  then have "describes (pre @ [x]) info'"
    using assms(2) known by (auto simp: describes_def chunks(2) update_conv')
  then show ?thesis using chunks(3) known Tensor by (simp add: number_item_def)
next
  case ByteIO
  then have "chunks_named g [x] = []" for g by (simp add: chunks_named_def tensor_named_def)
  then show ?thesis using assms ByteIO by (auto simp: collect_item_def describes_def number_item_def)
qed

lemma collect_items_run:
  assumes "rfold (collect_item own) xs (info, md, acc) = Inr (info', md', acc')" "describes pre info"
  shows "describes (pre @ xs) info' \<and> acc' = acc @ (if own then numbered pre xs else [])"
  using assms
proof (induction xs arbitrary: info md acc pre)
  case (Cons x xs)
  obtain i m a where one: "collect_item own x (info, md, acc) = Inr (i, m, a)"
    "rfold (collect_item own) xs (i, m, a) = Inr (info', md', acc')" using Cons.prems(1) by auto
  show ?case using collect_item_run [OF one(1) Cons.prems(2)] Cons.IH [OF one(2), of "pre @ [x]"] by auto
qed simp

text \<open>The metadata does not depend on which plan is the rank's own.\<close>

definition shared :: "global_state res \<Rightarrow> (fqn_info \<times> (string \<times> storage_metadata) list) res" where
  "shared r = rbind r (\<lambda>(info, md, _). Inr (info, md))"

lemma shared_step:
  assumes "\<And>st st'. fst st = fst st' \<Longrightarrow> fst (snd st) = fst (snd st') \<Longrightarrow> shared (f x st) = shared (g x st')"
    and "shared r = shared r'"
  shows "shared (rbind r (f x)) = shared (rbind r' (g x))"
  using assms(2)
proof (cases r)
  case (Inr st)
  then obtain st' where "r' = Inr st'" using assms(2) by (cases r') (auto simp: shared_def case_prod_unfold)
  then show ?thesis using Inr assms by (auto simp: shared_def case_prod_unfold)
next
  case (Inl e)
  then have "r' = Inl e" using assms(2) by (cases r') (auto simp: shared_def case_prod_unfold)
  then show ?thesis using Inl by simp
qed

lemma shared_fold:
  assumes "\<And>x st st'. x \<in> set xs \<Longrightarrow> fst st = fst st' \<Longrightarrow> fst (snd st) = fst (snd st') \<Longrightarrow> shared (f x st) = shared (g x st')"
    and "shared r = shared r'"
  shows "shared (rbind r (rfold f xs)) = shared (rbind r' (rfold g xs))"
  using assms
proof (induction xs arbitrary: r r')
  case (Cons x xs)
  have "shared (rbind r (f x)) = shared (rbind r' (g x))" by (rule shared_step) (use Cons.prems in auto)
  from Cons.IH [OF _ this] show ?case using Cons.prems(1) by (simp add: rbind_assoc)
qed simp

lemma shared_collect_item:
  "fst st = fst st' \<Longrightarrow> fst (snd st) = fst (snd st') \<Longrightarrow> shared (collect_item own x st) = shared (collect_item own' x st')"
  by (cases st; cases st'; cases "wi_type x"; cases "wi_data x")
    (auto simp: shared_def collect_item_def global_chunks_for_def split: option.splits)

lemma shared_collect_plan:
  "fst st = fst st' \<Longrightarrow> fst (snd st) = fst (snd st') \<Longrightarrow> shared (collect_plan masks k ip st) = shared (collect_plan masks k' ip st')"
  using shared_fold [of "kept_items masks ip" "collect_item (fst ip = k)" "collect_item (fst ip = k')" "Inr st" "Inr st'"]
    shared_collect_item by (simp add: collect_plan_def) (simp add: shared_def case_prod_unfold)

lemma collect_plans_run:
  assumes "rfold (collect_plan masks k) (enumerate n plans) (info, md, acc) = Inr (info', md', acc')" "describes pre info"
  shows "describes (pre @ concat (map (kept_items masks) (enumerate n plans))) info' \<and>
    acc' = acc @ (if n \<le> k \<and> k < n + length plans
      then numbered (pre @ concat (map (kept_items masks) (take (k - n) (enumerate n plans)))) (kept_items masks (k, plans ! (k - n))) else [])"
  using assms
proof (induction plans arbitrary: n info md acc pre)
  case (Cons plan plans)
  let ?items = "kept_items masks (n, plan)"
  obtain i m a where one: "collect_plan masks k (n, plan) (info, md, acc) = Inr (i, m, a)"
    "rfold (collect_plan masks k) (enumerate (Suc n) plans) (i, m, a) = Inr (info', md', acc')" using Cons.prems(1) by auto
  have step: "describes (pre @ ?items) i" "a = acc @ (if n = k then numbered pre ?items else [])"
    using collect_items_run [of "n = k" ?items info md acc i m a pre] one(1) Cons.prems(2)
    by (simp_all add: collect_plan_def)
  note rest = Cons.IH [OF one(2) step(1)]
  show ?case
  proof (cases "k \<le> n")
    case True
    then show ?thesis using rest step(2) by auto
  next
    case False
    then obtain d where "k = Suc (n + d)" by (metis add_Suc_right less_iff_Suc_add not_le)
    then show ?thesis using rest step(2) by (simp add: append_assoc)
  qed
qed auto

lemma shared_collect_plans:
  "shared (rfold (collect_plan masks k) ips st) = shared (rfold (collect_plan masks k') ips st)"
  using shared_fold [of ips "collect_plan masks k" "collect_plan masks k'" "Inr st" "Inr st"] shared_collect_plan by simp

text \<open>The final plans of all ranks, and the metadata they share.\<close>

definition kept_before :: "bool list list option \<Rightarrow> save_plan list \<Rightarrow> nat \<Rightarrow> write_item list" where
  "kept_before masks plans r = concat (map (kept_items masks) (take r (enumerate 0 plans)))"

lemma collect_plans_inv:
  assumes "rfold (collect_plan masks k) ips ([], [], []) = Inr st"
  shows "case st of (info, bytes, acc) \<Rightarrow> distinct (map fst info) \<and> (\<forall>x \<in> set bytes. snd x = BytesStorage)"
proof -
  let ?P = "\<lambda>st :: global_state. distinct (map fst (fst st)) \<and> (\<forall>x \<in> set (fst (snd st)). snd x = BytesStorage)"
  have one: "?P st'" if "collect_item own x st = Inr st'" "?P st" for own x st st'
    using that by (cases st; cases "wi_type x"; cases "wi_data x")
      (auto simp: collect_item_def distinct_update dest!: update_mem)
  have plan: "?P st'" if "collect_plan masks k ip st = Inr st'" "?P st" for ip st st'
    by (rule rfold_invariant [where I = ?P, OF that [unfolded collect_plan_def]]) (rule one)
  have "?P st" by (rule rfold_invariant [where I = ?P, OF assms]) (simp, rule plan)
  then show ?thesis by (simp add: case_prod_unfold)
qed

lemma global_plan_run:
  assumes "build_global_save_plan (planner\<lparr>svp_rank := int r0\<rparr>) plans = Inr (plan0, md)" "r0 < length plans" "1 < length plans"
  obtains info where
    "describes (kept_before (masks_of planner plans) plans (length plans)) info"
    "\<And>r. r < length plans \<Longrightarrow> build_global_save_plan (planner\<lparr>svp_rank := int r\<rparr>) plans =
       Inr ((plans ! r)\<lparr>sp_items := numbered (kept_before (masks_of planner plans) plans r) (kept_items (masks_of planner plans) (r, plans ! r))\<rparr>, md)"
    "distinct (map fst info)"
    "\<exists>bytes. md_state_dict md = dict_merge bytes (map tensor_entry info) \<and> (\<forall>x \<in> set bytes. snd x = BytesStorage)"
proof -
  let ?M = "masks_of planner plans"
  have masks: "masks_of (planner\<lparr>svp_rank := r\<rparr>) plans = ?M" for r by (simp add: masks_of_def)
  have own: "own_plan_index plans (int r) = Inr r" if "r < length plans" for r
    using that assms(3) by (simp add: own_plan_index_def)
  obtain info bytes acc0 where run0: "rfold (collect_plan ?M r0) (enumerate 0 plans) ([], [], []) = Inr (info, bytes, acc0)"
    using assms(1) own [OF assms(2)] by (auto simp: build_global_save_plan_def masks Let_def)
  have run: "\<exists>acc. rfold (collect_plan ?M r) (enumerate 0 plans) ([], [], []) = Inr (info, bytes, acc)" for r
    using shared_collect_plans [of ?M r "enumerate 0 plans" "([], [], [])" r0] run0 by (auto simp: shared_def case_prod_unfold)
  have start: "describes [] []" by (simp add: describes_def chunks_named_def)
  let ?items = "\<lambda>r. numbered (kept_before ?M plans r) (kept_items ?M (r, plans ! r))"
  have acc: "rfold (collect_plan ?M r) (enumerate 0 plans) ([], [], []) = Inr (info, bytes, ?items r)" if "r < length plans" for r
  proof -
    obtain a where a: "rfold (collect_plan ?M r) (enumerate 0 plans) ([], [], []) = Inr (info, bytes, a)" using run by blast
    then show ?thesis using collect_plans_run [OF a start] that by (simp add: kept_before_def)
  qed
  have desc: "describes (kept_before ?M plans (length plans)) info"
    using collect_plans_run [OF run0 start] by (simp add: kept_before_def)
  have final: "build_global_save_plan (planner\<lparr>svp_rank := int r\<rparr>) plans = Inr ((plans ! r)\<lparr>sp_items := ?items r\<rparr>, md)"
    if "r < length plans" for r
    using assms(1) own [OF assms(2)] own [OF that] run0 acc [OF that]
    by (auto simp: build_global_save_plan_def masks Let_def)
  have inv: "case (info, bytes, acc0) of (i, b, a) \<Rightarrow> distinct (map fst i) \<and> (\<forall>x \<in> set b. snd x = BytesStorage)"
    using run0 by (rule collect_plans_inv)
  have "\<exists>bytes. md_state_dict md = dict_merge bytes (map tensor_entry info) \<and> (\<forall>x \<in> set bytes. snd x = BytesStorage)"
    using assms(1) own [OF assms(2)] run0 inv by (auto simp: build_global_save_plan_def masks Let_def)
  moreover have "distinct (map fst info)" using inv by simp
  ultimately show ?thesis using that desc final by blast
qed

lemma tensor_entry_lookup:
  "map_of (map tensor_entry info) f = (case map_of info f of None \<Rightarrow> None
    | Some (properties, global_size, chunks) \<Rightarrow> Some (TensorStorage \<lparr>ts_properties = properties, ts_size = global_size, ts_chunks = chunks\<rparr>))"
  by (induction info) (auto simp: tensor_entry_def)

lemma metadata_chunks:
  assumes "map_of (md_state_dict md) f = Some (TensorStorage ts)" "describes items info" "distinct (map fst info)"
    and "md_state_dict md = dict_merge bytes (map tensor_entry info)" "\<forall>x \<in> set bytes. snd x = BytesStorage"
  shows "ts_chunks ts = chunks_named f items"
proof -
  have keys: "map fst (map tensor_entry info) = map fst info" by (auto simp: tensor_entry_def)
  have "map_of (md_state_dict md) f = (case map_of (map tensor_entry info) f of None \<Rightarrow> map_of bytes f | Some v \<Rightarrow> Some v)"
    unfolding assms(4) by (rule merge_lookup_distinct) (simp only: keys assms(3))
  moreover have "map_of bytes f \<noteq> Some (TensorStorage ts)" using assms(5) by (fastforce dest!: map_of_SomeD)
  ultimately obtain p g where "map_of info f = Some (p, g, ts_chunks ts)"
    using assms(1) by (auto simp: tensor_entry_lookup split: option.splits)
  moreover have "(case map_of info f of None \<Rightarrow> [] | Some (_, _, cs) \<Rightarrow> cs) = chunks_named f items"
    using assms(2) unfolding describes_def by blast
  ultimately show ?thesis by simp
qed

lemma tensors_in_order:
  "concat (map (\<lambda>r. numbered (kept_before masks plans r) (kept_items masks (r, plans ! r))) [0..<n]) =
    numbered [] (kept_before masks plans n)" if "n \<le> length plans"
  using that
proof (induction n)
  case (Suc n)
  have "kept_before masks plans (Suc n) = kept_before masks plans n @ kept_items masks (n, plans ! n)"
    using Suc.prems by (simp add: kept_before_def take_Suc_conv_app_nth nth_enumerate_eq)
  then show ?case using Suc numbered_append [of "[]"] by simp
qed (simp add: kept_before_def)

text \<open>
  C32.  The final plans fit together.  When the global plan succeeds on one rank, it succeeds on every rank with the
  same metadata, and the plans of all ranks, in rank order, write the chunks \<open>0, 1, 2, \<dots>\<close> of every tensor of the
  metadata, each once and with the offsets and sizes the metadata gives for it.
\<close>

theorem save_plans_agree:
  assumes "build_global_save_plan (planner\<lparr>svp_rank := int r0\<rparr>) plans = Inr (plan0, md)"
    and "r0 < length plans" "1 < length plans"
  shows "\<exists>final. (\<forall>r < length plans. build_global_save_plan (planner\<lparr>svp_rank := int r\<rparr>) plans = Inr (final r, md)) \<and>
    (\<forall>f ts. map_of (md_state_dict md) f = Some (TensorStorage ts) \<longrightarrow>
       map (\<lambda>it. (mi_index (wi_index it), chunk_of it))
           (filter (tensor_named f) (concat (map (\<lambda>r. sp_items (final r)) [0..<length plans]))) =
         map (\<lambda>i. (Some (int i), ts_chunks ts ! i)) [0..<length (ts_chunks ts)])"
proof -
  let ?M = "masks_of planner plans"
  obtain info bytes where run: "describes (kept_before ?M plans (length plans)) info" "distinct (map fst info)"
    "\<And>r. r < length plans \<Longrightarrow> build_global_save_plan (planner\<lparr>svp_rank := int r\<rparr>) plans =
       Inr ((plans ! r)\<lparr>sp_items := numbered (kept_before ?M plans r) (kept_items ?M (r, plans ! r))\<rparr>, md)"
    "md_state_dict md = dict_merge bytes (map tensor_entry info)" "\<forall>x \<in> set bytes. snd x = BytesStorage"
    using global_plan_run [OF assms] by metis
  let ?final = "\<lambda>r. (plans ! r)\<lparr>sp_items := numbered (kept_before ?M plans r) (kept_items ?M (r, plans ! r))\<rparr>"
  have "map (\<lambda>it. (mi_index (wi_index it), chunk_of it))
      (filter (tensor_named f) (concat (map (\<lambda>r. sp_items (?final r)) [0..<length plans]))) =
    map (\<lambda>i. (Some (int i), ts_chunks ts ! i)) [0..<length (ts_chunks ts)]"
    if "map_of (md_state_dict md) f = Some (TensorStorage ts)" for f ts
    using metadata_chunks [OF that run(1,2,4,5)] tensors_in_order [of "length plans" plans ?M]
      numbered_indices [of f "[]" "kept_before ?M plans (length plans)"] by (simp add: chunks_named_def)
  then show ?thesis using run(3) by (intro exI [of _ ?final]) blast
qed

text \<open>The plans of two ranks that both hold \<open>b\<close>: only the second writes \<open>c\<close> and the other half of \<open>w\<close>.\<close>

definition two_ranks :: save_planner where
  "two_ranks = \<lparr>svp_state_dict = None, svp_name_mapping = [], svp_rank = 0, svp_remove_redundancy = True,
     svp_save_to_minimum_rank = False, svp_flatten = False\<rparr>"

definition two_ranks_w :: tensor_storage where
  "two_ranks_w = \<lparr>ts_properties = \<lparr>tp_dtype = Some ''torch.float32'', tp_requires_grad = False, tp_memory_format = None\<rparr>, ts_size = [8],
     ts_chunks = [\<lparr>ch_offsets = [0], ch_sizes = [4]\<rparr>, \<lparr>ch_offsets = [4], ch_sizes = [4]\<rparr>]\<rparr>"

lemma two_ranks_md: "case build_global_save_plan (two_ranks\<lparr>svp_rank := int 0\<rparr>) two_plans of
    Inr (_, md) \<Rightarrow> map_of (md_state_dict md) ''w'' = Some (TensorStorage two_ranks_w) | Inl _ \<Rightarrow> False"
  by code_simp

lemma save_plans_agree_witness:
  "\<exists>md ts p q. build_global_save_plan (two_ranks\<lparr>svp_rank := 0\<rparr>) two_plans = Inr (p, md) \<and>
     build_global_save_plan (two_ranks\<lparr>svp_rank := 1\<rparr>) two_plans = Inr (q, md) \<and>
     map_of (md_state_dict md) ''w'' = Some (TensorStorage ts) \<and> length (ts_chunks ts) = 2 \<and>
     map (\<lambda>it. (mi_index (wi_index it), chunk_of it)) (filter (tensor_named ''w'') (sp_items p @ sp_items q)) =
       [(Some 0, ts_chunks ts ! 0), (Some 1, ts_chunks ts ! 1)]"
proof -
  obtain p md where md: "build_global_save_plan (two_ranks\<lparr>svp_rank := int 0\<rparr>) two_plans = Inr (p, md)"
    "map_of (md_state_dict md) ''w'' = Some (TensorStorage two_ranks_w)" "length (ts_chunks two_ranks_w) = 2"
    using two_ranks_md by (auto simp: two_ranks_w_def split: sum.splits)
  have n: "0 < length two_plans" "1 < length two_plans" "[0..<length two_plans] = [0, 1]" by (simp_all add: two_plans_def)
  obtain final where final: "\<forall>r < length two_plans. build_global_save_plan (two_ranks\<lparr>svp_rank := int r\<rparr>) two_plans = Inr (final r, md)"
    "map (\<lambda>it. (mi_index (wi_index it), chunk_of it)) (filter (tensor_named ''w'') (concat (map (\<lambda>r. sp_items (final r)) [0, 1]))) =
       map (\<lambda>i. (Some (int i), ts_chunks two_ranks_w ! i)) [0..<2]"
    using save_plans_agree [OF md(1) n(1,2)] md(2) unfolding n(3) md(3) [symmetric] by blast
  have "build_global_save_plan (two_ranks\<lparr>svp_rank := 0\<rparr>) two_plans = Inr (final 0, md)"
    "build_global_save_plan (two_ranks\<lparr>svp_rank := 1\<rparr>) two_plans = Inr (final 1, md)"
    using final(1)[rule_format, of 0] final(1)[rule_format, of 1] n by simp_all
  moreover have "map (\<lambda>it. (mi_index (wi_index it), chunk_of it)) (filter (tensor_named ''w'') (sp_items (final 0) @ sp_items (final 1))) =
      [(Some 0, ts_chunks two_ranks_w ! 0), (Some 1, ts_chunks two_ranks_w ! 1)]"
    using final(2) by (simp add: upt_rec)
  ultimately show ?thesis using md(2,3)
    by (intro exI [of _ md] exI [of _ two_ranks_w] exI [of _ "final 0"] exI [of _ "final 1"] conjI)
qed

end
