(* ===== verification/CkptLoad.thy ===== *)
theory CkptLoad
  imports CkptSave
begin

text \<open>
  Loading a distributed checkpoint: what a rank needs (\<open>create_chunk_list_for_tensor\<close>), where it is stored
  (\<open>create_read_items_for_chunk_list\<close>, \<open>StandardLoadPlanner.build_local_plan\<close>), and the copies that put the
  pieces in place (\<open>narrow_tensor_by_index\<close>, \<open>_fetch_tensor_file\<close>, \<open>_validate_and_copy_tensor\<close>).
\<close>

section \<open>Areas\<close>

type_synonym area = "(int \<times> int) list"

definition chunk_to_area :: "chunk \<Rightarrow> area res" where
  "chunk_to_area c =
     rmap (\<lambda>i. rbind (py_get (ch_sizes c) (int i)) (\<lambda>n. Inr (ch_offsets c ! i, ch_offsets c ! i + n))) [0..<length (ch_offsets c)]"

fun intersect_axes :: "area \<Rightarrow> area \<Rightarrow> area option" where
  "intersect_axes ((a, b) # area_a) ((c, d) # area_b) =
     (let left = max a c; right = min b d in
      if right \<le> left then None else map_option (\<lambda>rest. (left, right) # rest) (intersect_axes area_a area_b))"
| "intersect_axes _ _ = Some []"

definition infer_intersection :: "area \<Rightarrow> area \<Rightarrow> area option res" where
  "infer_intersection area_a area_b =
     (if length area_a \<noteq> length area_b then Inl ValueError else Inr (intersect_axes area_a area_b))"

section \<open>The read items\<close>

record broadcast_source =
  group_ranks :: "nat list"
  src_rank :: nat

record read_item =
  ri_type :: item_type
  ri_dest_index :: metadata_index
  ri_dest_offsets :: "int list"
  ri_storage_index :: metadata_index
  ri_storage_offsets :: "int list"
  ri_lengths :: "int list"
  ri_broadcastable :: bool
  ri_source :: "broadcast_source option"

definition read_overlap :: "string \<Rightarrow> bool \<Rightarrow> nat \<times> chunk \<Rightarrow> nat \<times> chunk \<Rightarrow> read_item list res" where
  "read_overlap fqn broadcastable local storage =
     (case local of (local_idx, local_chunk) \<Rightarrow> case storage of (storage_idx, storage_chunk) \<Rightarrow>
        rbind (chunk_to_area local_chunk) (\<lambda>local_area.
        rbind (chunk_to_area storage_chunk) (\<lambda>saved_area.
        rbind (infer_intersection local_area saved_area) (\<lambda>overlap.
          case overlap of
            None \<Rightarrow> Inr []
          | Some ov \<Rightarrow>
              Inr [\<lparr>ri_type = Tensor,
                    ri_dest_index = \<lparr>mi_fqn = fqn, mi_offset = ch_offsets local_chunk, mi_index = Some (int local_idx)\<rparr>,
                    ri_dest_offsets = map2 (\<lambda>(l, r) off. l - off) ov (ch_offsets local_chunk),
                    ri_storage_index = \<lparr>mi_fqn = fqn, mi_offset = ch_offsets storage_chunk, mi_index = Some (int storage_idx)\<rparr>,
                    ri_storage_offsets = map2 (\<lambda>(l, r) off. l - off) ov (ch_offsets storage_chunk),
                    ri_lengths = map (\<lambda>(l, r). r - l) ov,
                    ri_broadcastable = broadcastable, ri_source = None\<rparr>]))))"

definition create_read_items_for_chunk_list :: "string \<Rightarrow> tensor_storage \<Rightarrow> chunk list \<Rightarrow> bool \<Rightarrow> read_item list res" where
  "create_read_items_for_chunk_list fqn md local_chunks broadcastable =
     rbind (rmap (\<lambda>local. rbind (rmap (read_overlap fqn broadcastable local) (enumerate 0 (ts_chunks md))) (\<lambda>items. Inr (concat items)))
              (enumerate 0 local_chunks)) (\<lambda>items. Inr (concat items))"

text \<open>What a rank needs of an entry.\<close>

definition full_chunk :: "int list \<Rightarrow> chunk" where
  "full_chunk shape = \<lparr>ch_offsets = map (\<lambda>_. 0) shape, ch_sizes = shape\<rparr>"

definition create_chunk_list_for_tensor :: "int \<Rightarrow> entry \<Rightarrow> chunk list res" where
  "create_chunk_list_for_tensor current_rank obj =
     (case obj of
        DTensor t \<Rightarrow>
          (case dt_layout t of
             None \<Rightarrow> Inr [full_chunk (dt_shape t)]
           | Some layout \<Rightarrow>
               if ragged_shard layout \<noteq> None then
                 rbind (ragged_boxes_of current_rank (dt_shape t) layout) (\<lambda>boxes.
                   Inr (map (\<lambda>box. \<lparr>ch_offsets = box_offsets box, ch_sizes = box_sizes box\<rparr>) boxes))
               else if tensor_map layout = None then Inr [full_chunk (dt_shape t)]
               else if current_rank \<notin> set (rank_list layout) then Inr []
               else rbind (py_index (rank_list layout) current_rank) (\<lambda>inner_rank_id.
                    rbind (infer_slice_area_by_layout layout (int inner_rank_id) (dt_shape t)) (\<lambda>slice_area.
                    Inr [\<lparr>ch_offsets = map fst slice_area, ch_sizes = map (\<lambda>(s, e). e - s) slice_area\<rparr>])))
      | PlainTensor t \<Rightarrow>
          (case pt_chunk_info t of
             NoChunkInfo \<Rightarrow> Inr [full_chunk (pt_shape t)]
           | ChunkInfo c _ \<Rightarrow> Inr [c]
           | OtherChunkInfo \<Rightarrow> Inl ValueError)
      | OtherObject \<Rightarrow> Inl ValueError)"

section \<open>The local load plan\<close>

record load_planner =
  ldp_state_dict :: "(string \<times> entry) list option"
  ldp_metadata :: "ckpt_metadata option"
  ldp_rank :: int
  ldp_allow_partial_load :: bool
  ldp_broadcast :: bool

record load_plan =
  lp_items :: "read_item list"

definition is_on_host :: "entry \<Rightarrow> bool" where
  "is_on_host obj = (case obj of DTensor t \<Rightarrow> dt_on_host t | PlainTensor t \<Rightarrow> pt_on_host t | OtherObject \<Rightarrow> False)"

definition rank_owns_dtensor_shard :: "int \<Rightarrow> entry \<Rightarrow> bool" where
  "rank_owns_dtensor_shard rank obj =
     (case obj of DTensor t \<Rightarrow> (case dt_layout t of None \<Rightarrow> True | Some layout \<Rightarrow> rank \<in> set (rank_list layout)) | _ \<Rightarrow> True)"

text \<open>The global shape the state dict expects: none for an object without a shape.\<close>

definition entry_size :: "entry \<Rightarrow> int list option res" where
  "entry_size obj =
     (case obj of
        DTensor t \<Rightarrow> Inr (Some (dt_shape t))
      | PlainTensor t \<Rightarrow>
          (case pt_chunk_info t of
             NoChunkInfo \<Rightarrow> Inr (Some (pt_shape t))
           | ChunkInfo _ global_shape \<Rightarrow> Inr (Some global_shape)
           | OtherChunkInfo \<Rightarrow> Inl AttributeError)
      | OtherObject \<Rightarrow> Inr None)"

definition ends_with :: "string \<Rightarrow> string \<Rightarrow> bool" where
  "ends_with s ending \<longleftrightarrow> length ending \<le> length s \<and> drop (length s - length ending) s = ending"

definition bytes_read_item :: "string \<Rightarrow> read_item" where
  "bytes_read_item fqn =
     \<lparr>ri_type = ByteIO, ri_dest_index = \<lparr>mi_fqn = fqn, mi_offset = [], mi_index = None\<rparr>, ri_dest_offsets = [0],
      ri_storage_index = \<lparr>mi_fqn = fqn, mi_offset = [], mi_index = None\<rparr>, ri_storage_offsets = [0], ri_lengths = [0],
      ri_broadcastable = True, ri_source = None\<rparr>"

definition requests_of :: "load_planner \<Rightarrow> ckpt_metadata \<Rightarrow> string \<times> entry \<Rightarrow> read_item list res" where
  "requests_of planner metadata e =
     (case e of (fqn, obj) \<Rightarrow>
        (case map_of (md_state_dict metadata) fqn of
           None \<Rightarrow>
             if ends_with fqn ''matched_adamw_rms'' \<or> ends_with fqn ''step'' then Inr []
             else if \<not> ldp_allow_partial_load planner then Inl RuntimeError
             else Inr []
         | Some (TensorStorage md) \<Rightarrow>
             rbind (entry_size obj) (\<lambda>obj_size.
               if obj_size \<noteq> Some (ts_size md) then Inl ValueError
               else if \<not> rank_owns_dtensor_shard (ldp_rank planner) obj then Inr []
               else rbind (create_chunk_list_for_tensor (ldp_rank planner) obj) (\<lambda>local_chunks.
                    create_read_items_for_chunk_list fqn md local_chunks (\<not> is_on_host obj)))
         | Some BytesStorage \<Rightarrow> Inr [bytes_read_item fqn]))"

definition build_local_load_plan :: "load_planner \<Rightarrow> load_plan res" where
  "build_local_load_plan planner =
     (case (ldp_state_dict planner, ldp_metadata planner) of
        (Some sd, Some metadata) \<Rightarrow> rbind (rmap (requests_of planner metadata) sd) (\<lambda>items. Inr \<lparr>lp_items = concat items\<rparr>)
      | _ \<Rightarrow> Inl RuntimeError)"

section \<open>The copies\<close>

text \<open>A tensor: its shape and its elements by multi-index.\<close>

record 'v nd =
  nd_shape :: "int list"
  nd_at :: "int list \<Rightarrow> 'v"

definition slice_bound :: "int \<Rightarrow> int \<Rightarrow> int" where
  "slice_bound n x = (if x < 0 then max 0 (x + n) else min x n)"

definition narrow_area :: "int list \<Rightarrow> int list \<Rightarrow> int list \<Rightarrow> area res" where
  "narrow_area shape offsets lengths =
     (if offsets = [] \<or> lengths = [] then Inr (map (\<lambda>n. (0, n)) shape)
      else let slices = zip offsets lengths in
        if length shape < length slices then Inl IndexError
        else Inr (map2 (\<lambda>n (off, ln). (slice_bound n off, max (slice_bound n off) (slice_bound n (off + ln)))) shape slices @
                  map (\<lambda>n. (0, n)) (drop (length slices) shape)))"

definition area_sizes :: "area \<Rightarrow> int list" where
  "area_sizes a = map (\<lambda>(l, r). r - l) a"

definition inside :: "area \<Rightarrow> int list \<Rightarrow> bool" where
  "inside a idx \<longleftrightarrow> list_all2 (\<lambda>(l, r) x. l \<le> x \<and> x < r) a idx"

definition copy_into :: "'v nd \<Rightarrow> area \<Rightarrow> 'v nd \<Rightarrow> area \<Rightarrow> 'v nd" where
  "copy_into target ta source sa =
     target\<lparr>nd_at := \<lambda>idx. if inside ta idx then nd_at source (map2 (\<lambda>(s, _) d. s + d) sa (map2 (\<lambda>x (t, _). x - t) idx ta))
                      else nd_at target idx\<rparr>"

text \<open>
  One read: the stored tensor is sliced, the destination narrowed, the sizes compared and the slice
  copied.  \<open>fetch\<close> is the checkpoint by storage index, \<open>bufs\<close> the shards of the state dict by destination index.
\<close>

definition apply_read :: "(index_key \<Rightarrow> 'v nd option) \<Rightarrow> read_item \<Rightarrow> (index_key \<Rightarrow> 'v nd) \<Rightarrow> (index_key \<Rightarrow> 'v nd) res" where
  "apply_read fetch req bufs =
     (case fetch (mi_key (ri_storage_index req)) of
        None \<Rightarrow> Inl KeyError
      | Some source \<Rightarrow>
          rbind (narrow_area (nd_shape source) (ri_storage_offsets req) (ri_lengths req)) (\<lambda>sa.
          let target = bufs (mi_key (ri_dest_index req)) in
          rbind (narrow_area (nd_shape target) (ri_dest_offsets req) (ri_lengths req)) (\<lambda>ta.
            if area_sizes ta \<noteq> area_sizes sa then Inl AssertionError
            else Inr (bufs(mi_key (ri_dest_index req) := copy_into target ta source sa)))))"

section \<open>The geometry of a read\<close>

definition wf_chunk :: "nat \<Rightarrow> chunk \<Rightarrow> bool" where
  "wf_chunk n c \<longleftrightarrow> length (ch_offsets c) = n \<and> length (ch_sizes c) = n"

definition area_of :: "chunk \<Rightarrow> area" where
  "area_of c = map2 (\<lambda>off n. (off, off + n)) (ch_offsets c) (ch_sizes c)"

definition shift :: "int list \<Rightarrow> int list \<Rightarrow> int list" where
  "shift off idx = map2 (+) off idx"

definition unshift :: "int list \<Rightarrow> int list \<Rightarrow> int list" where
  "unshift off idx = map2 (\<lambda>o' x. x - o') off idx"

lemma shift_simps [simp]:
  "length (shift off idx) = min (length off) (length idx)" "length (unshift off idx) = min (length off) (length idx)"
  "i < length off \<Longrightarrow> i < length idx \<Longrightarrow> shift off idx ! i = off ! i + idx ! i"
  "i < length off \<Longrightarrow> i < length idx \<Longrightarrow> unshift off idx ! i = idx ! i - off ! i"
  by (simp_all add: shift_def unshift_def)

lemma shift_unshift: "length off = length p \<Longrightarrow> shift off (unshift off p) = p"
  by (rule nth_equalityI) simp_all

lemma area_of_simps [simp]:
  "wf_chunk n c \<Longrightarrow> length (area_of c) = n"
  "wf_chunk n c \<Longrightarrow> i < n \<Longrightarrow> area_of c ! i = (ch_offsets c ! i, ch_offsets c ! i + ch_sizes c ! i)"
  by (simp_all add: area_of_def wf_chunk_def)

lemma chunk_to_area_ok: "wf_chunk n c \<Longrightarrow> chunk_to_area c = Inr (area_of c)"
  unfolding chunk_to_area_def wf_chunk_def
  by (subst rmap_total [where g = "\<lambda>i. (ch_offsets c ! i, ch_offsets c ! i + ch_sizes c ! i)"])
    (auto simp: area_of_def intro!: nth_equalityI)

lemma inside_nth: "inside a p \<longleftrightarrow> length p = length a \<and> (\<forall>i < length a. fst (a ! i) \<le> p ! i \<and> p ! i < snd (a ! i))"
  by (auto simp: inside_def list_all2_conv_all_nth case_prod_unfold)

lemma intersect_cases:
  assumes "intersect_axes ((a, b) # area_a) ((c, d) # area_b) = Some ov"
  obtains rest where "\<not> min b d \<le> max a c" "intersect_axes area_a area_b = Some rest" "ov = (max a c, min b d) # rest"
proof -
  have "\<not> min b d \<le> max a c" using assms by (auto simp: Let_def split: if_splits)
  then show ?thesis using assms that by (auto simp: Let_def)
qed

lemma intersect_Some:
  assumes "intersect_axes a b = Some ov" "length a = length b"
  shows "length ov = length a" "i < length a \<Longrightarrow> ov ! i = (max (fst (a ! i)) (fst (b ! i)), min (snd (a ! i)) (snd (b ! i)))"
    "i < length a \<Longrightarrow> fst (ov ! i) < snd (ov ! i)"
proof -
  have "list_all2 (\<lambda>x y. y = (max (fst (fst x)) (fst (snd x)), min (snd (fst x)) (snd (snd x))) \<and> fst y < snd y) (zip a b) ov"
    using assms
  proof (induction a b arbitrary: ov rule: intersect_axes.induct)
    case (1 a b area_a c d area_b)
    from 1(2) obtain rest where rest: "\<not> min b d \<le> max a c" "intersect_axes area_a area_b = Some rest" "ov = (max a c, min b d) # rest"
      by (rule intersect_cases)
    from 1(1) [OF refl refl rest(1,2)] 1(3) show ?case
      using rest(1) by (simp only: rest(3)) (simp, linarith)
  qed auto
  then show "length ov = length a" "i < length a \<Longrightarrow> ov ! i = (max (fst (a ! i)) (fst (b ! i)), min (snd (a ! i)) (snd (b ! i)))"
    "i < length a \<Longrightarrow> fst (ov ! i) < snd (ov ! i)" using assms(2) by (auto simp: list_all2_conv_all_nth)
qed

lemma intersect_inside:
  assumes "inside a p" "inside b p"
  shows "\<exists>ov. intersect_axes a b = Some ov \<and> inside ov p"
  using assms
proof (induction a b arbitrary: p rule: intersect_axes.induct)
  case (1 a b area_a c d area_b)
  then obtain x q where p: "p = x # q" "a \<le> x" "x < b" "c \<le> x" "x < d" "inside area_a q" "inside area_b q"
    by (cases p) (auto simp: inside_def)
  then show ?case using "1.IH" [of "max a c" "min b d" q] by (auto simp: Let_def inside_def)
qed (auto simp: inside_def list_all2_Cons1 list_all2_Cons2)

lemma slice_bound_id: "0 \<le> x \<Longrightarrow> x \<le> n \<Longrightarrow> slice_bound n x = x"
  by (simp add: slice_bound_def)

text \<open>Narrowing a shard to an area inside it gives that area, relative to the shard.\<close>

lemma narrow_inside:
  assumes "wf_chunk n c" "length ov = n"
    and "\<forall>i < n. ch_offsets c ! i \<le> fst (ov ! i) \<and> fst (ov ! i) < snd (ov ! i) \<and> snd (ov ! i) \<le> ch_offsets c ! i + ch_sizes c ! i"
  shows "narrow_area (ch_sizes c) (map2 (\<lambda>(l, r) off. l - off) ov (ch_offsets c)) (map (\<lambda>(l, r). r - l) ov) =
    Inr (map2 (\<lambda>(l, r) off. (l - off, r - off)) ov (ch_offsets c))"
proof (cases "n = 0")
  case True
  then show ?thesis using assms by (simp add: narrow_area_def wf_chunk_def)
next
  case False
  then have "ov \<noteq> []" "ch_offsets c \<noteq> []" using assms(1,2) by (auto simp: wf_chunk_def)
  moreover have "map2 (\<lambda>m (off, ln). (slice_bound m off, max (slice_bound m off) (slice_bound m (off + ln)))) (ch_sizes c)
      (zip (map2 (\<lambda>(l, r) off. l - off) ov (ch_offsets c)) (map (\<lambda>(l, r). r - l) ov)) =
    map2 (\<lambda>(l, r) off. (l - off, r - off)) ov (ch_offsets c)"
  proof (rule nth_equalityI)
    fix i assume "i < length (map2 (\<lambda>m (off, ln). (slice_bound m off, max (slice_bound m off) (slice_bound m (off + ln)))) (ch_sizes c)
      (zip (map2 (\<lambda>(l, r) off. l - off) ov (ch_offsets c)) (map (\<lambda>(l, r). r - l) ov)))"
    then have i: "i < n" using assms(1,2) by (simp add: wf_chunk_def)
    then show "map2 (\<lambda>m (off, ln). (slice_bound m off, max (slice_bound m off) (slice_bound m (off + ln)))) (ch_sizes c)
      (zip (map2 (\<lambda>(l, r) off. l - off) ov (ch_offsets c)) (map (\<lambda>(l, r). r - l) ov)) ! i =
      map2 (\<lambda>(l, r) off. (l - off, r - off)) ov (ch_offsets c) ! i"
      using assms(1,2) spec [OF assms(3), of i] by (simp add: wf_chunk_def case_prod_unfold slice_bound_id)
  qed (use assms(1,2) in \<open>simp add: wf_chunk_def\<close>)
  ultimately show ?thesis using assms(1,2) by (simp add: narrow_area_def wf_chunk_def Let_def)
qed

lemma read_overlap_eq:
  assumes "wf_chunk n l" "wf_chunk n s"
  shows "read_overlap fqn br (i, l) (j, s) =
    Inr (case intersect_axes (area_of l) (area_of s) of
           None \<Rightarrow> []
         | Some ov \<Rightarrow> [\<lparr>ri_type = Tensor, ri_dest_index = \<lparr>mi_fqn = fqn, mi_offset = ch_offsets l, mi_index = Some (int i)\<rparr>,
             ri_dest_offsets = map2 (\<lambda>(l, r) off. l - off) ov (ch_offsets l),
             ri_storage_index = \<lparr>mi_fqn = fqn, mi_offset = ch_offsets s, mi_index = Some (int j)\<rparr>,
             ri_storage_offsets = map2 (\<lambda>(l, r) off. l - off) ov (ch_offsets s),
             ri_lengths = map (\<lambda>(l, r). r - l) ov, ri_broadcastable = br, ri_source = None\<rparr>])"
  using assms by (simp add: read_overlap_def chunk_to_area_ok infer_intersection_def split: option.split)

text \<open>What one read changes: the elements of the overlap, which it takes from the stored chunk.\<close>

lemma apply_read_overlap:
  assumes wf: "wf_chunk n l" "wf_chunk n s" and ov: "intersect_axes (area_of l) (area_of s) = Some ov"
    and item: "read_overlap fqn br (i, l) (j, s) = Inr [item]"
    and store: "fetch (fqn, ch_offsets s) = Some src" "nd_shape src = ch_sizes s"
    and buf: "nd_shape (bufs (fqn, ch_offsets l)) = ch_sizes l"
  shows "\<exists>b. apply_read fetch item bufs = Inr (bufs((fqn, ch_offsets l) := b)) \<and> nd_shape b = ch_sizes l \<and>
    (\<forall>idx. length idx = n \<longrightarrow> nd_at b idx =
       (if inside ov (shift (ch_offsets l) idx) then nd_at src (unshift (ch_offsets s) (shift (ch_offsets l) idx))
        else nd_at (bufs (fqn, ch_offsets l)) idx))"
proof -
  note ovs = intersect_Some [OF ov]
  have len: "length ov = n" and oi: "\<And>i. i < n \<Longrightarrow> ov ! i = (max (ch_offsets l ! i) (ch_offsets s ! i),
      min (ch_offsets l ! i + ch_sizes l ! i) (ch_offsets s ! i + ch_sizes s ! i))" "\<And>i. i < n \<Longrightarrow> fst (ov ! i) < snd (ov ! i)"
    using ovs wf by simp_all
  let ?ta = "map2 (\<lambda>(l, r) off. (l - off, r - off)) ov (ch_offsets l)"
  let ?sa = "map2 (\<lambda>(l, r) off. (l - off, r - off)) ov (ch_offsets s)"
  have narrow: "narrow_area (ch_sizes l) (map2 (\<lambda>(l, r) off. l - off) ov (ch_offsets l)) (map (\<lambda>(l, r). r - l) ov) = Inr ?ta"
    "narrow_area (ch_sizes s) (map2 (\<lambda>(l, r) off. l - off) ov (ch_offsets s)) (map (\<lambda>(l, r). r - l) ov) = Inr ?sa"
    by (rule narrow_inside [OF wf(1) len], use oi in auto) (rule narrow_inside [OF wf(2) len], use oi in auto)
  have sizes: "area_sizes ?ta = area_sizes ?sa"
    by (rule nth_equalityI) (use len wf in \<open>auto simp: area_sizes_def wf_chunk_def case_prod_unfold\<close>)
  let ?b = "copy_into (bufs (fqn, ch_offsets l)) ?ta src ?sa"
  have "apply_read fetch item bufs = Inr (bufs((fqn, ch_offsets l) := ?b))"
    using item ov narrow sizes unfolding read_overlap_eq [OF wf] by (auto simp: apply_read_def mi_key_def store buf)
  moreover have "nd_at ?b idx = (if inside ov (shift (ch_offsets l) idx)
      then nd_at src (unshift (ch_offsets s) (shift (ch_offsets l) idx)) else nd_at (bufs (fqn, ch_offsets l)) idx)"
    if "length idx = n" for idx
  proof -
    have "inside ?ta idx \<longleftrightarrow> inside ov (shift (ch_offsets l) idx)"
      using that len wf by (auto simp: inside_nth wf_chunk_def case_prod_unfold algebra_simps)
    moreover have "map2 (\<lambda>(s, _) d. s + d) ?sa (map2 (\<lambda>x (t, _). x - t) idx ?ta) = unshift (ch_offsets s) (shift (ch_offsets l) idx)"
      by (rule nth_equalityI) (use that len wf in \<open>auto simp: wf_chunk_def case_prod_unfold\<close>)
    ultimately show ?thesis by (simp add: copy_into_def)
  qed
  moreover have "nd_shape ?b = ch_sizes l" by (simp add: copy_into_def buf)
  ultimately show ?thesis by (intro exI [of _ ?b]) simp
qed

section \<open>Loading restores the tensor\<close>

definition in_box :: "int list \<Rightarrow> int list \<Rightarrow> bool" where
  "in_box sizes idx \<longleftrightarrow> list_all2 (\<lambda>n x. 0 \<le> x \<and> x < n) sizes idx"

lemma in_box_area: "wf_chunk n c \<Longrightarrow> length idx = n \<Longrightarrow> in_box (ch_sizes c) idx \<longleftrightarrow> inside (area_of c) (shift (ch_offsets c) idx)"
  by (auto simp: in_box_def inside_nth list_all2_conv_all_nth wf_chunk_def area_of_def)

text \<open>The checkpoint holds the tensor \<open>G\<close>: every chunk of the metadata is stored with its part of it.\<close>

definition stores_chunk :: "(index_key \<Rightarrow> 'v nd option) \<Rightarrow> string \<Rightarrow> (int list \<Rightarrow> 'v) \<Rightarrow> chunk \<Rightarrow> bool" where
  "stores_chunk fetch fqn G s \<longleftrightarrow> (\<exists>src. fetch (fqn, ch_offsets s) = Some src \<and> nd_shape src = ch_sizes s \<and>
     (\<forall>i. in_box (ch_sizes s) i \<longrightarrow> nd_at src i = G (shift (ch_offsets s) i)))"

lemma overlap_value:
  assumes "wf_chunk n l" "wf_chunk n s" "intersect_axes (area_of l) (area_of s) = Some ov" "length idx = n"
    and "\<forall>i. in_box (ch_sizes s) i \<longrightarrow> nd_at src i = G (shift (ch_offsets s) i)" "inside ov (shift (ch_offsets l) idx)"
  shows "nd_at src (unshift (ch_offsets s) (shift (ch_offsets l) idx)) = G (shift (ch_offsets l) idx)"
proof -
  let ?p = "shift (ch_offsets l) idx"
  have p: "length ?p = n" using assms(1,4) by (simp add: wf_chunk_def)
  have "inside (area_of s) ?p"
    using assms(6) intersect_Some [OF assms(3)] assms(1,2) p by (auto simp: inside_nth)
  moreover have "shift (ch_offsets s) (unshift (ch_offsets s) ?p) = ?p"
    using p assms(2) by (intro shift_unshift) (simp add: wf_chunk_def)
  ultimately have "in_box (ch_sizes s) (unshift (ch_offsets s) ?p)"
    using in_box_area [OF assms(2), of "unshift (ch_offsets s) ?p"] p assms(2) by (simp add: wf_chunk_def)
  then show ?thesis using assms(5) \<open>shift (ch_offsets s) (unshift (ch_offsets s) ?p) = ?p\<close> by simp
qed

lemma overlap_inside:
  assumes "wf_chunk n l" "wf_chunk n s" "intersect_axes (area_of l) (area_of s) = Some ov"
  shows "inside ov p \<longleftrightarrow> inside (area_of l) p \<and> inside (area_of s) p"
  using intersect_Some [OF assms(3)] assms(1,2) by (auto simp: inside_nth)

text \<open>The reads of one local chunk: every element some stored chunk covers is right, the others are as before.\<close>

lemma reads_of_chunk:
  assumes "wf_chunk n l" "\<forall>s \<in> set ss. wf_chunk n s \<and> stores_chunk fetch fqn G s"
    and "nd_shape (bufs (fqn, ch_offsets l)) = ch_sizes l"
  shows "\<exists>items b. rmap (read_overlap fqn br (i, l)) (enumerate j ss) = Inr items \<and>
    rfold (apply_read fetch) (concat items) bufs = Inr (bufs((fqn, ch_offsets l) := b)) \<and> nd_shape b = ch_sizes l \<and>
    (\<forall>idx. in_box (ch_sizes l) idx \<longrightarrow> nd_at b idx =
       (if \<exists>s \<in> set ss. inside (area_of s) (shift (ch_offsets l) idx) then G (shift (ch_offsets l) idx)
        else nd_at (bufs (fqn, ch_offsets l)) idx))"
  using assms(2,3)
proof (induction ss arbitrary: j bufs)
  case Nil
  then show ?case by (intro exI [of _ "[]"] exI [of _ "bufs (fqn, ch_offsets l)"]) simp
next
  case (Cons s ss)
  let ?k = "(fqn, ch_offsets l)"
  have wfs: "wf_chunk n s" and st: "stores_chunk fetch fqn G s" using Cons.prems(1) by simp_all
  have len: "length idx = n" if "in_box (ch_sizes l) idx" for idx
    using that assms(1) by (auto simp: in_box_def wf_chunk_def list_all2_lengthD)
  obtain its b1 where first: "read_overlap fqn br (i, l) (j, s) = Inr its" "rfold (apply_read fetch) its bufs = Inr (bufs(?k := b1))"
    "nd_shape b1 = ch_sizes l" "\<forall>idx. in_box (ch_sizes l) idx \<longrightarrow> nd_at b1 idx =
       (if inside (area_of s) (shift (ch_offsets l) idx) then G (shift (ch_offsets l) idx) else nd_at (bufs ?k) idx)"
  proof (cases "intersect_axes (area_of l) (area_of s)")
    case None
    have "\<not> inside (area_of s) (shift (ch_offsets l) idx)" if "in_box (ch_sizes l) idx" for idx
      using intersect_inside [of "area_of l" "shift (ch_offsets l) idx" "area_of s"] None that in_box_area [OF assms(1)] len by auto
    then show ?thesis using that [of "[]" "bufs ?k"] read_overlap_eq [OF assms(1) wfs] None Cons.prems(2) by simp
  next
    case (Some ov)
    obtain item where item: "read_overlap fqn br (i, l) (j, s) = Inr [item]" using read_overlap_eq [OF assms(1) wfs] Some by simp
    obtain src where src: "fetch (fqn, ch_offsets s) = Some src" "nd_shape src = ch_sizes s"
      "\<forall>i. in_box (ch_sizes s) i \<longrightarrow> nd_at src i = G (shift (ch_offsets s) i)" using st by (auto simp: stores_chunk_def)
    obtain b where b: "apply_read fetch item bufs = Inr (bufs(?k := b))" "nd_shape b = ch_sizes l"
      "\<forall>idx. length idx = n \<longrightarrow> nd_at b idx = (if inside ov (shift (ch_offsets l) idx)
         then nd_at src (unshift (ch_offsets s) (shift (ch_offsets l) idx)) else nd_at (bufs ?k) idx)"
      using apply_read_overlap [where fetch = fetch and bufs = bufs, OF assms(1) wfs Some item src(1,2) Cons.prems(2)] by blast
    have "nd_at b idx = (if inside (area_of s) (shift (ch_offsets l) idx) then G (shift (ch_offsets l) idx) else nd_at (bufs ?k) idx)"
      if idx: "in_box (ch_sizes l) idx" for idx
      using b(3) len [OF idx] overlap_inside [OF assms(1) wfs Some] in_box_area [OF assms(1)] idx
        overlap_value [OF assms(1) wfs Some _ src(3)] by auto
    then show ?thesis using that [of "[item]" b] item b(1,2) by simp
  qed
  have "nd_shape ((bufs(?k := b1)) ?k) = ch_sizes l" using first(3) by simp
  then obtain items b where rest: "rmap (read_overlap fqn br (i, l)) (enumerate (Suc j) ss) = Inr items"
    "rfold (apply_read fetch) (concat items) (bufs(?k := b1)) = Inr ((bufs(?k := b1))(?k := b))" "nd_shape b = ch_sizes l"
    "\<forall>idx. in_box (ch_sizes l) idx \<longrightarrow> nd_at b idx =
       (if \<exists>s \<in> set ss. inside (area_of s) (shift (ch_offsets l) idx) then G (shift (ch_offsets l) idx)
        else nd_at ((bufs(?k := b1)) ?k) idx)"
    using Cons.IH [where bufs = "bufs(?k := b1)" and j = "Suc j"] Cons.prems(1) by (simp only: list.set insert_iff ball_simps) blast
  show ?case
    using first rest by (intro exI [of _ "its # items"] exI [of _ b]) (auto simp: rfold_append)
qed

lemma reads_of_chunks:
  assumes "\<forall>l \<in> set ls. wf_chunk n l \<and> nd_shape (bufs (fqn, ch_offsets l)) = ch_sizes l" "distinct (map ch_offsets ls)"
    and "\<forall>s \<in> set ss. wf_chunk n s \<and> stores_chunk fetch fqn G s"
    and cover: "\<forall>l \<in> set ls. \<forall>p. inside (area_of l) p \<longrightarrow> (\<exists>s \<in> set ss. inside (area_of s) p)"
  shows "\<exists>items bufs'. rmap (\<lambda>local. rbind (rmap (read_overlap fqn br local) (enumerate 0 ss)) (\<lambda>items. Inr (concat items)))
      (enumerate i ls) = Inr items \<and> rfold (apply_read fetch) (concat items) bufs = Inr bufs' \<and>
    (\<forall>l \<in> set ls. nd_shape (bufs' (fqn, ch_offsets l)) = ch_sizes l \<and>
       (\<forall>idx. in_box (ch_sizes l) idx \<longrightarrow> nd_at (bufs' (fqn, ch_offsets l)) idx = G (shift (ch_offsets l) idx))) \<and>
    (\<forall>k. k \<notin> (\<lambda>l. (fqn, ch_offsets l)) ` set ls \<longrightarrow> bufs' k = bufs k)"
  using assms
proof (induction ls arbitrary: i bufs)
  case Nil
  then show ?case by (intro exI [of _ "[]"] exI [of _ bufs]) simp
next
  case (Cons l ls)
  let ?k = "(fqn, ch_offsets l)"
  have wfl: "wf_chunk n l" "nd_shape (bufs ?k) = ch_sizes l" using Cons.prems(1) by simp_all
  obtain items b where one: "rmap (read_overlap fqn br (i, l)) (enumerate 0 ss) = Inr items"
    "rfold (apply_read fetch) (concat items) bufs = Inr (bufs(?k := b))" "nd_shape b = ch_sizes l"
    "\<forall>idx. in_box (ch_sizes l) idx \<longrightarrow> nd_at b idx =
       (if \<exists>s \<in> set ss. inside (area_of s) (shift (ch_offsets l) idx) then G (shift (ch_offsets l) idx) else nd_at (bufs ?k) idx)"
    using reads_of_chunk [where bufs = bufs, OF wfl(1) Cons.prems(3) wfl(2)] by blast
  have right: "nd_at b idx = G (shift (ch_offsets l) idx)" if "in_box (ch_sizes l) idx" for idx
  proof -
    have "length idx = n" using that wfl(1) by (auto simp: in_box_def wf_chunk_def list_all2_lengthD)
    then have "inside (area_of l) (shift (ch_offsets l) idx)" using in_box_area [OF wfl(1)] that by blast
    then show ?thesis using one(4) that Cons.prems(4) by auto
  qed
  have fresh: "ch_offsets l \<notin> ch_offsets ` set ls" using Cons.prems(2) by simp
  then have "\<forall>l' \<in> set ls. ch_offsets l' \<noteq> ch_offsets l" by (metis image_eqI)
  then have "\<forall>l' \<in> set ls. wf_chunk n l' \<and> nd_shape ((bufs(?k := b)) (fqn, ch_offsets l')) = ch_sizes l'"
    using Cons.prems(1) by auto
  moreover have "distinct (map ch_offsets ls)"
    "\<forall>l \<in> set ls. \<forall>p. inside (area_of l) p \<longrightarrow> (\<exists>s \<in> set ss. inside (area_of s) p)" using Cons.prems(2,4) by simp_all
  ultimately obtain items' bufs' where rest:
    "rmap (\<lambda>local. rbind (rmap (read_overlap fqn br local) (enumerate 0 ss)) (\<lambda>items. Inr (concat items))) (enumerate (Suc i) ls) = Inr items'"
    "rfold (apply_read fetch) (concat items') (bufs(?k := b)) = Inr bufs'"
    "\<forall>l \<in> set ls. nd_shape (bufs' (fqn, ch_offsets l)) = ch_sizes l \<and>
       (\<forall>idx. in_box (ch_sizes l) idx \<longrightarrow> nd_at (bufs' (fqn, ch_offsets l)) idx = G (shift (ch_offsets l) idx))"
    "\<forall>k. k \<notin> (\<lambda>l. (fqn, ch_offsets l)) ` set ls \<longrightarrow> bufs' k = (bufs(?k := b)) k"
    using Cons.IH [where bufs = "bufs(?k := b)" and i = "Suc i", OF _ _ Cons.prems(3)] by blast
  have "?k \<notin> (\<lambda>l. (fqn, ch_offsets l)) ` set ls" using fresh by blast
  then have "bufs' ?k = b" using rest(4) by simp
  then show ?case using one rest right fresh
    by (intro exI [of _ "concat items # items'"] exI [of _ bufs']) (auto simp: rfold_append)
qed

lemma restore_chunks:
  assumes "\<forall>l \<in> set local_chunks. wf_chunk n l \<and> nd_shape (bufs (fqn, ch_offsets l)) = ch_sizes l"
    and "distinct (map ch_offsets local_chunks)"
    and "\<forall>s \<in> set (ts_chunks md). wf_chunk n s \<and> stores_chunk fetch fqn G s"
    and "\<forall>l \<in> set local_chunks. \<forall>p. inside (area_of l) p \<longrightarrow> (\<exists>s \<in> set (ts_chunks md). inside (area_of s) p)"
  shows "\<exists>items bufs'. create_read_items_for_chunk_list fqn md local_chunks broadcastable = Inr items \<and>
    rfold (apply_read fetch) items bufs = Inr bufs' \<and>
    (\<forall>l \<in> set local_chunks. nd_shape (bufs' (fqn, ch_offsets l)) = ch_sizes l \<and>
       (\<forall>idx. in_box (ch_sizes l) idx \<longrightarrow> nd_at (bufs' (fqn, ch_offsets l)) idx = G (shift (ch_offsets l) idx))) \<and>
    (\<forall>k. k \<notin> (\<lambda>l. (fqn, ch_offsets l)) ` set local_chunks \<longrightarrow> bufs' k = bufs k)"
  using reads_of_chunks [OF assms, of broadcastable 0]
  by (auto simp: create_read_items_for_chunk_list_def)

text \<open>
  Resharding on load.  Whatever chunks a tensor was saved in and whatever chunks a rank needs, if the saved chunks
  cover the needed ones, the reads the planner makes succeed and leave every needed chunk with exactly the
  elements of the saved tensor; no other shard is touched.
\<close>

theorem reads_restore_chunks:
  assumes "\<forall>l \<in> set local_chunks. wf_chunk n l \<and> nd_shape (bufs (fqn, ch_offsets l)) = ch_sizes l"
    and "distinct (map ch_offsets local_chunks)"
    and "\<forall>s \<in> set (ts_chunks md). wf_chunk n s \<and> stores_chunk fetch fqn G s"
    and "\<forall>l \<in> set local_chunks. \<forall>p. inside (area_of l) p \<longrightarrow> (\<exists>s \<in> set (ts_chunks md). inside (area_of s) p)"
  shows "\<exists>items bufs'. create_read_items_for_chunk_list fqn md local_chunks broadcastable = Inr items \<and>
    rfold (apply_read fetch) items bufs = Inr bufs' \<and>
    (\<forall>l \<in> set local_chunks. nd_shape (bufs' (fqn, ch_offsets l)) = ch_sizes l \<and>
       (\<forall>idx. in_box (ch_sizes l) idx \<longrightarrow> nd_at (bufs' (fqn, ch_offsets l)) idx = G (shift (ch_offsets l) idx))) \<and>
    (\<forall>k. k \<notin> (\<lambda>l. (fqn, ch_offsets l)) ` set local_chunks \<longrightarrow> bufs' k = bufs k)"
  using assms by (rule restore_chunks)

text \<open>A vector stored in two chunks and read as one: the second part of it comes from the second chunk.\<close>

definition two_stored :: "index_key \<Rightarrow> int nd option" where
  "two_stored k = (if k = (''w'', [0]) then Some \<lparr>nd_shape = [3], nd_at = \<lambda>i. hd i\<rparr>
     else if k = (''w'', [3]) then Some \<lparr>nd_shape = [2], nd_at = \<lambda>i. hd i + 3\<rparr> else None)"

definition two_chunks :: tensor_storage where
  "two_chunks = \<lparr>ts_properties = \<lparr>tp_dtype = Some ''torch.float32'', tp_requires_grad = False, tp_memory_format = None\<rparr>, ts_size = [5],
     ts_chunks = [\<lparr>ch_offsets = [0], ch_sizes = [3]\<rparr>, \<lparr>ch_offsets = [3], ch_sizes = [2]\<rparr>]\<rparr>"

lemma reads_restore_chunks_witness:
  "\<exists>items bufs'. create_read_items_for_chunk_list ''w'' two_chunks [\<lparr>ch_offsets = [1], ch_sizes = [4]\<rparr>] False = Inr items \<and>
     rfold (apply_read two_stored) items (\<lambda>_. \<lparr>nd_shape = [4], nd_at = \<lambda>_. 0\<rparr>) = Inr bufs' \<and>
     nd_at (bufs' (''w'', [1])) [0] = 1 \<and> nd_at (bufs' (''w'', [1])) [3] = 4"
proof -
  let ?l = "\<lparr>ch_offsets = [1], ch_sizes = [4]\<rparr>"
  have single: "in_box [n] i \<longleftrightarrow> (\<exists>x. i = [x] \<and> 0 \<le> x \<and> x < n)" "inside [(a, b)] i \<longleftrightarrow> (\<exists>x. i = [x] \<and> a \<le> x \<and> x < b)" for n a b :: int and i
    by (auto simp: in_box_def inside_def list_all2_Cons1)
  have "\<exists>items bufs'. create_read_items_for_chunk_list ''w'' two_chunks [?l] False = Inr items \<and>
      rfold (apply_read two_stored) items (\<lambda>_. \<lparr>nd_shape = [4], nd_at = \<lambda>_. 0\<rparr>) = Inr bufs' \<and>
      (\<forall>l \<in> set [?l]. nd_shape (bufs' (''w'', ch_offsets l)) = ch_sizes l \<and>
         (\<forall>idx. in_box (ch_sizes l) idx \<longrightarrow> nd_at (bufs' (''w'', ch_offsets l)) idx = hd (shift (ch_offsets l) idx))) \<and>
      (\<forall>k. k \<notin> (\<lambda>l. (''w'', ch_offsets l)) ` set [?l] \<longrightarrow> bufs' k = \<lparr>nd_shape = [4], nd_at = \<lambda>_. 0\<rparr>)"
    by (rule reads_restore_chunks [where n = 1])
      (auto simp: two_chunks_def two_stored_def wf_chunk_def stores_chunk_def single area_of_def shift_def)
  then obtain items bufs' where "create_read_items_for_chunk_list ''w'' two_chunks [?l] False = Inr items"
    "rfold (apply_read two_stored) items (\<lambda>_. \<lparr>nd_shape = [4], nd_at = \<lambda>_. 0\<rparr>) = Inr bufs'"
    "\<And>idx. in_box [4] idx \<Longrightarrow> nd_at (bufs' (''w'', [1])) idx = hd (shift [1] idx)" by auto
  moreover from this(3) [of "[0]"] this(3) [of "[3]"] have "nd_at (bufs' (''w'', [1])) [0] = 1" "nd_at (bufs' (''w'', [1])) [3] = 4"
    by (simp_all add: single shift_def)
  ultimately show ?thesis by blast
qed

end
