(* ===== verification/CkptGlobalLoad.thy ===== *)
theory CkptGlobalLoad
  imports CkptLoad
begin

text \<open>
  The global load plan (\<open>StandardLoadPlanner.build_global_plan\<close>, \<open>LoadPlan.identity\<close>): which rank reads a shard
  that several ranks hold, and sends it to the others.  Every rank computes this from the gathered plans on its
  own, so what matters is that all arrive at the same answer.
\<close>

section \<open>What a rank sends of its plan\<close>

definition elided_item :: "read_item \<Rightarrow> read_item" where
  "elided_item item = item\<lparr>ri_dest_offsets := [],
     ri_storage_index := \<lparr>mi_fqn = [], mi_offset = [], mi_index = None\<rparr>, ri_storage_offsets := []\<rparr>"

definition plan_identity :: "load_plan \<Rightarrow> load_plan" where
  "plan_identity plan = plan\<lparr>lp_items := map elided_item (lp_items plan)\<rparr>"

section \<open>Who holds a shard\<close>

abbreviation dest_key :: "read_item \<Rightarrow> index_key" where
  "dest_key item \<equiv> mi_key (ri_dest_index item)"

record readers =
  replicas :: "(index_key \<times> nat list) list"
  group_elements :: "(index_key \<times> int) list"
  unsendable :: "index_key list"

definition note_reader :: "nat \<Rightarrow> read_item \<Rightarrow> readers \<Rightarrow> readers" where
  "note_reader rank item st =
     (if ri_type item = Tensor then
        \<lparr>replicas = AList.map_default (dest_key item) [rank] (\<lambda>rs. if rank \<in> set rs then rs else rs @ [rank]) (replicas st),
         group_elements = AList.map_default (dest_key item) (prod_list (ri_lengths item)) (\<lambda>n. n + prod_list (ri_lengths item)) (group_elements st),
         unsendable = (if ri_broadcastable item then unsendable st else dest_key item # unsendable st)\<rparr>
      else st)"

definition gather_readers :: "load_plan list \<Rightarrow> readers" where
  "gather_readers all_plans =
     fold (\<lambda>(rank, plan). fold (note_reader rank) (lp_items plan)) (enumerate 0 all_plans)
       \<lparr>replicas = [], group_elements = [], unsendable = []\<rparr>"

section \<open>Who reads it\<close>

definition element_bytes :: "ckpt_metadata \<Rightarrow> (string \<times> int) list" where
  "element_bytes metadata =
     map (\<lambda>(fqn, md). (fqn, dtype_element_size (case md of TensorStorage t \<Rightarrow> tp_dtype (ts_properties t) | BytesStorage \<Rightarrow> None)))
       (md_state_dict metadata)"

type_synonym shared_shard = "int \<times> index_key \<times> nat list"

definition weigh_shard :: "(string \<times> int) list \<Rightarrow> readers \<Rightarrow> index_key \<times> nat list \<Rightarrow> shared_shard res" where
  "weigh_shard item_size st entry =
     (case entry of (index, ranks) \<Rightarrow> case map_of item_size (fst index) of
        None \<Rightarrow> Inl KeyError
      | Some width \<Rightarrow>
          Inr (width * (case map_of (group_elements st) index of None \<Rightarrow> 0 | Some n \<Rightarrow> n) div int (length ranks), index, sort ranks))"

definition shared_shards :: "ckpt_metadata \<Rightarrow> load_plan list \<Rightarrow> shared_shard list res" where
  "shared_shards metadata all_plans =
     (let st = gather_readers all_plans in
      rmap (weigh_shard (element_bytes metadata) st)
        (filter (\<lambda>(index, ranks). 1 < length ranks \<and> index \<notin> set (unsendable st)) (replicas st)))"

definition least_loaded :: "int list \<Rightarrow> nat list \<Rightarrow> nat" where
  "least_loaded load_bytes members =
     fold (\<lambda>rank best. if load_bytes ! rank < load_bytes ! best \<or> load_bytes ! rank = load_bytes ! best \<and> rank < best then rank else best)
       (tl members) (hd members)"

type_synonym sources = "(index_key \<times> broadcast_source) list"

definition place_reader :: "shared_shard \<Rightarrow> int list \<times> sources \<Rightarrow> int list \<times> sources" where
  "place_reader shard acc =
     (case shard of (nbytes, index, members) \<Rightarrow> case acc of (load_bytes, sources) \<Rightarrow>
        let src = least_loaded load_bytes members in
        (load_bytes[src := load_bytes ! src + nbytes], AList.update index \<lparr>group_ranks = members, src_rank = src\<rparr> sources))"

definition load_sources :: "ckpt_metadata \<Rightarrow> load_plan list \<Rightarrow> sources res" where
  "load_sources metadata all_plans =
     rbind (shared_shards metadata all_plans) (\<lambda>shards.
       Inr (snd (fold place_reader (sort_key (\<lambda>s. - fst s) shards) (replicate (length all_plans) 0, []))))"

definition mark_item :: "sources \<Rightarrow> read_item \<Rightarrow> read_item" where
  "mark_item sources item =
     (case map_of sources (dest_key item) of None \<Rightarrow> item | Some src \<Rightarrow> item\<lparr>ri_source := Some src\<rparr>)"

definition build_global_load_plan :: "load_planner \<Rightarrow> load_plan list \<Rightarrow> load_plan res" where
  "build_global_load_plan planner all_plans =
     rbind (own_plan_index all_plans (ldp_rank planner)) (\<lambda>own.
       let own_plan = all_plans ! own in
       if \<not> ldp_broadcast planner \<or> length all_plans < 2 then Inr own_plan
       else (case ldp_metadata planner of
           None \<Rightarrow> Inl AttributeError
         | Some metadata \<Rightarrow> rbind (load_sources metadata all_plans) (\<lambda>sources.
             if sources = [] then Inr own_plan
             else Inr (own_plan\<lparr>lp_items := map (mark_item sources) (lp_items own_plan)\<rparr>))))"

section \<open>The same answer on every rank\<close>

lemma elided_item_simps [simp]:
  "dest_key (elided_item it) = dest_key it" "ri_type (elided_item it) = ri_type it" "ri_lengths (elided_item it) = ri_lengths it"
  "ri_broadcastable (elided_item it) = ri_broadcastable it"
  by (simp_all add: elided_item_def)

lemma note_elided [simp]: "note_reader rank (elided_item it) = note_reader rank it"
  by (rule ext) (simp add: note_reader_def)

lemma fold_elided: "fold (note_reader rank) (map elided_item its) st = fold (note_reader rank) its st"
  by (induction its arbitrary: st) simp_all

definition plan_readers :: "nat \<times> load_plan \<Rightarrow> readers \<Rightarrow> readers" where
  "plan_readers rp = fold (note_reader (fst rp)) (lp_items (snd rp))"

lemma gather_readers_alt: "gather_readers plans = fold plan_readers (enumerate 0 plans) \<lparr>replicas = [], group_elements = [], unsendable = []\<rparr>"
proof -
  have "plan_readers = (\<lambda>(rank, plan). fold (note_reader rank) (lp_items plan))" by (auto simp: fun_eq_iff plan_readers_def)
  then show ?thesis by (simp add: gather_readers_def)
qed

lemma identity_items: "plan_identity p = plan_identity q \<Longrightarrow> map elided_item (lp_items p) = map elided_item (lp_items q)"
  by (cases p; cases q) (simp add: plan_identity_def)

lemma plan_readers_identity:
  assumes "plan_identity p = plan_identity q"
  shows "plan_readers (r, p) = plan_readers (r, q)"
proof (rule ext)
  fix st show "plan_readers (r, p) st = plan_readers (r, q) st"
    using fold_elided [of r "lp_items p" st] fold_elided [of r "lp_items q" st] identity_items [OF assms] by (simp add: plan_readers_def)
qed

lemma gather_readers_identity:
  assumes "map plan_identity plans = map plan_identity plans'"
  shows "gather_readers plans = gather_readers plans'"
proof -
  have "fold plan_readers (enumerate i ps) st = fold plan_readers (enumerate i qs) st"
    if "list_all2 (\<lambda>p q. plan_identity p = plan_identity q) ps qs" for ps qs i st
    using that
  proof (induction arbitrary: i st rule: list_all2_induct)
    case (Cons p ps q qs)
    then show ?case using plan_readers_identity [of p q i] by simp
  qed simp
  from this [of plans plans'] have "fold plan_readers (enumerate 0 plans) st = fold plan_readers (enumerate 0 plans') st" for st
    using assms by (simp only: list_all2_eq list_all2_map1 list_all2_map2)
  then show ?thesis by (simp add: gather_readers_alt)
qed

lemma load_sources_identity:
  assumes "map plan_identity plans = map plan_identity plans'"
  shows "load_sources md plans = load_sources md plans'"
proof -
  have "length plans = length plans'" using assms by (metis length_map)
  then show ?thesis using gather_readers_identity [OF assms] by (simp add: load_sources_def shared_shards_def)
qed

section \<open>What the sources say\<close>

definition load_holders :: "load_plan list \<Rightarrow> index_key \<Rightarrow> nat set" where
  "load_holders plans k = {r. r < length plans \<and> (\<exists>it \<in> set (lp_items (plans ! r)). ri_type it = Tensor \<and> dest_key it = k)}"

definition sendable :: "load_plan list \<Rightarrow> index_key \<Rightarrow> bool" where
  "sendable plans k \<longleftrightarrow> (\<forall>plan \<in> set plans. \<forall>it \<in> set (lp_items plan). ri_type it = Tensor \<and> dest_key it = k \<longrightarrow> ri_broadcastable it)"

text \<open>The two loops as one over the pairs of a rank and an item.\<close>

definition ranked_items :: "nat \<Rightarrow> load_plan list \<Rightarrow> (nat \<times> read_item) list" where
  "ranked_items i plans = concat (map (\<lambda>(r, plan). map (Pair r) (lp_items plan)) (enumerate i plans))"

lemma ranked_items_simps [simp]:
  "ranked_items i [] = []" "ranked_items i (p # ps) = map (Pair i) (lp_items p) @ ranked_items (Suc i) ps"
  by (simp_all add: ranked_items_def)

lemma ranked_items_iff: "(r, it) \<in> set (ranked_items i plans) \<longleftrightarrow> i \<le> r \<and> r < i + length plans \<and> it \<in> set (lp_items (plans ! (r - i)))"
proof (induction plans arbitrary: i)
  case (Cons p ps)
  show ?case
  proof (cases "r = i")
    case True
    then show ?thesis using Cons.IH [of "Suc i"] by auto
  next
    case False
    then show ?thesis using Cons.IH [of "Suc i"] by (auto simp: nth_Cons' Suc_le_eq)
  qed
qed simp

lemma gather_ranked:
  "fold plan_readers (enumerate i plans) st = fold (\<lambda>(r, it). note_reader r it) (ranked_items i plans) st"
proof (induction plans arbitrary: i st)
  case (Cons p ps)
  have "fold (\<lambda>(r, it). note_reader r it) (map (Pair i) its) st = fold (note_reader i) its st" for its st
    by (induction its arbitrary: st) simp_all
  then show ?case using Cons.IH by (simp add: plan_readers_def)
qed simp

definition add_rank :: "nat \<times> read_item \<Rightarrow> nat list \<Rightarrow> nat list" where
  "add_rank x rs = (if fst x \<in> set rs then rs else rs @ [fst x])"

lemma note_replicas:
  "replicas (note_reader r it st) =
     (if ri_type it = Tensor then AList.map_default (dest_key it) [r] (add_rank (r, it)) (replicas st) else replicas st)"
proof -
  have "add_rank (r, it) = (\<lambda>rs. if r \<in> set rs then rs else rs @ [r])" by (rule ext) (simp add: add_rank_def)
  then show ?thesis by (simp add: note_reader_def)
qed

lemma noted_replicas:
  "replicas (fold (\<lambda>(r, it). note_reader r it) xs st) =
     dict_collect (dest_key \<circ> snd) (\<lambda>x. [fst x]) add_rank (filter (\<lambda>x. ri_type (snd x) = Tensor) xs) (replicas st)"
  by (induction xs arbitrary: st) (auto simp: note_replicas dict_collect_def)

lemma noted_unsendable:
  "set (unsendable (fold (\<lambda>(r, it). note_reader r it) xs st)) =
     set (unsendable st) \<union> (\<lambda>x. dest_key (snd x)) ` {x \<in> set xs. ri_type (snd x) = Tensor \<and> \<not> ri_broadcastable (snd x)}"
proof (induction xs arbitrary: st)
  case (Cons x xs)
  have "set (unsendable (note_reader (fst x) (snd x) st)) = set (unsendable st) \<union>
      (\<lambda>x. dest_key (snd x)) ` {y \<in> {x}. ri_type (snd y) = Tensor \<and> \<not> ri_broadcastable (snd y)}"
    by (cases "ri_type (snd x)"; cases "ri_broadcastable (snd x)") (auto simp: note_reader_def)
  moreover have "{y \<in> set (x # xs). P y} = {y \<in> {x}. P y} \<union> {y \<in> set xs. P y}" for P by auto
  ultimately show ?case using Cons.IH by (simp add: case_prod_unfold image_Un Un_assoc)
qed simp

lemma add_ranks: "set (fold add_rank xs rs) = set rs \<union> fst ` set xs \<and> (distinct rs \<longrightarrow> distinct (fold add_rank xs rs))"
  by (induction xs arbitrary: rs) (auto simp: add_rank_def)

lemma replicas_holders:
  assumes "(k, rs) \<in> set (replicas (gather_readers plans))"
  shows "set rs = load_holders plans k" "distinct rs"
proof -
  let ?xs = "filter (\<lambda>x. ri_type (snd x) = Tensor) (ranked_items 0 plans)"
  have "(k, rs) \<in> set (dict_collect (dest_key \<circ> snd) (\<lambda>x. [fst x]) add_rank ?xs [])"
    using assms by (simp add: gather_readers_alt gather_ranked noted_replicas)
  then obtain y ys where ys: "filter (\<lambda>x. (dest_key \<circ> snd) x = k) ?xs = y # ys" "rs = fold add_rank ys [fst y]"
    by (rule collect_entry)
  have "set rs = fst ` set (filter (\<lambda>x. (dest_key \<circ> snd) x = k) ?xs)" using add_ranks [of ys "[fst y]"] ys by auto
  also have "\<dots> = load_holders plans k"
    by (force simp: load_holders_def ranked_items_iff image_iff)
  finally show "set rs = load_holders plans k" .
  show "distinct rs" using add_ranks [of ys "[fst y]"] ys(2) by simp
qed

lemma load_holders_ranked:
  "load_holders plans k \<noteq> {} \<longleftrightarrow> (\<exists>x \<in> set (ranked_items 0 plans). ri_type (snd x) = Tensor \<and> dest_key (snd x) = k)"
  by (auto simp: load_holders_def ranked_items_iff Bex_def)

lemma replicas_keys:
  "distinct (map fst (replicas (gather_readers plans)))" "fst ` set (replicas (gather_readers plans)) = {k. load_holders plans k \<noteq> {}}"
proof -
  let ?xs = "filter (\<lambda>x. ri_type (snd x) = Tensor) (ranked_items 0 plans)"
  have eq: "replicas (gather_readers plans) = dict_collect (dest_key \<circ> snd) (\<lambda>x. [fst x]) add_rank ?xs []"
    by (simp add: gather_readers_alt gather_ranked noted_replicas)
  show "distinct (map fst (replicas (gather_readers plans)))" unfolding eq by (rule collect_distinct)
  show "fst ` set (replicas (gather_readers plans)) = {k. load_holders plans k \<noteq> {}}"
    unfolding eq collect_dom load_holders_ranked by (force simp: image_iff)
qed

lemma unsendable_sendable: "k \<in> set (unsendable (gather_readers plans)) \<longleftrightarrow> \<not> sendable plans k"
proof -
  have "k \<in> set (unsendable (gather_readers plans)) \<longleftrightarrow>
    (\<exists>x \<in> set (ranked_items 0 plans). dest_key (snd x) = k \<and> ri_type (snd x) = Tensor \<and> \<not> ri_broadcastable (snd x))"
    by (auto simp: gather_readers_alt gather_ranked noted_unsendable)
  also have "\<dots> \<longleftrightarrow> (\<exists>r < length plans. \<exists>it \<in> set (lp_items (plans ! r)). dest_key it = k \<and> ri_type it = Tensor \<and> \<not> ri_broadcastable it)"
    by (auto simp: ranked_items_iff Bex_def)
  also have "\<dots> \<longleftrightarrow> \<not> sendable plans k" unfolding sendable_def by (metis in_set_conv_nth)
  finally show ?thesis .
qed

lemma least_loaded_member: "members \<noteq> [] \<Longrightarrow> least_loaded load_bytes members \<in> set members"
proof -
  have "fold (\<lambda>rank best. if P rank best then rank else best) xs b \<in> insert b (set xs)" for P :: "nat \<Rightarrow> nat \<Rightarrow> bool" and xs b
    by (induction xs arbitrary: b) (auto split: if_splits)
  from this [of "\<lambda>rank best. load_bytes ! rank < load_bytes ! best \<or> load_bytes ! rank = load_bytes ! best \<and> rank < best" "tl members" "hd members"]
  show "members \<noteq> [] \<Longrightarrow> least_loaded load_bytes members \<in> set members"
    unfolding least_loaded_def by (cases members) auto
qed

text \<open>The source of a shard: one of its holders, with all of them as its group.\<close>

definition good_source :: "load_plan list \<Rightarrow> index_key \<Rightarrow> broadcast_source \<Rightarrow> bool" where
  "good_source plans k src \<longleftrightarrow> set (group_ranks src) = load_holders plans k \<and> sorted (group_ranks src) \<and> distinct (group_ranks src) \<and>
     1 < length (group_ranks src) \<and> src_rank src \<in> load_holders plans k \<and> sendable plans k"

definition good_shard :: "load_plan list \<Rightarrow> shared_shard \<Rightarrow> bool" where
  "good_shard plans x \<longleftrightarrow> (case x of (_, k, g) \<Rightarrow>
     set g = load_holders plans k \<and> sorted g \<and> distinct g \<and> 1 < length g \<and> sendable plans k)"

lemma weigh_shard_key: "weigh_shard w st e = Inr x \<Longrightarrow> fst (snd x) = fst e \<and> snd (snd x) = sort (snd e)"
  by (auto simp: weigh_shard_def split: prod.splits option.splits)

lemma shared_shards_run:
  assumes "shared_shards md plans = Inr shards"
  shows "distinct (map (\<lambda>x. fst (snd x)) shards)" "\<forall>x \<in> set shards. good_shard plans x"
    "(\<lambda>x. fst (snd x)) ` set shards = {k. 1 < card (load_holders plans k) \<and> sendable plans k}"
proof -
  let ?st = "gather_readers plans" and ?P = "\<lambda>(index, ranks). 1 < length ranks \<and> index \<notin> set (unsendable (gather_readers plans))"
  let ?es = "filter ?P (replicas ?st)"
  have run: "rmap (weigh_shard (element_bytes md) ?st) ?es = Inr shards" using assms by (simp add: shared_shards_def Let_def)
  have keys: "map (\<lambda>x. fst (snd x)) shards = map fst ?es"
    using run by (auto simp: rmap_Inr_iff list_all2_conv_all_nth weigh_shard_key intro!: nth_equalityI)
  show "distinct (map (\<lambda>x. fst (snd x)) shards)" unfolding keys using replicas_keys(1) by (rule distinct_map_filter)
  show "\<forall>x \<in> set shards. good_shard plans x"
  proof
    fix x assume "x \<in> set shards"
    then obtain i where i: "i < length shards" "x = shards ! i" by (auto simp: in_set_conv_nth)
    then have len: "i < length ?es" using rmap_length [OF run] by simp
    obtain k rs where e: "?es ! i = (k, rs)" by (cases "?es ! i")
    have mem: "(k, rs) \<in> set (replicas ?st)" "1 < length rs" "k \<notin> set (unsendable ?st)" using nth_mem [OF len] e by auto
    have x: "fst (snd x) = k" "snd (snd x) = sort rs" using weigh_shard_key [OF rmap_nth [OF run len]] e i(2) by simp_all
    show "good_shard plans x"
      using replicas_holders [OF mem(1)] mem(2,3) x unsendable_sendable by (cases x) (auto simp: good_shard_def)
  qed
  have "(\<lambda>x. fst (snd x)) ` set shards = fst ` set ?es" using keys by (metis list.set_map)
  also have "\<dots> = {k. 1 < card (load_holders plans k) \<and> sendable plans k}"
  proof (intro subset_antisym subsetI)
    fix k assume "k \<in> fst ` set ?es"
    then obtain rs where "(k, rs) \<in> set (replicas ?st)" "1 < length rs" "k \<notin> set (unsendable ?st)" by auto
    then show "k \<in> {k. 1 < card (load_holders plans k) \<and> sendable plans k}"
      using replicas_holders [of k rs plans] distinct_card [of rs] unsendable_sendable by auto
  next
    fix k assume "k \<in> {k. 1 < card (load_holders plans k) \<and> sendable plans k}"
    then have k: "1 < card (load_holders plans k)" "sendable plans k" by auto
    then have "k \<in> fst ` set (replicas ?st)" unfolding replicas_keys(2) by auto
    then obtain rs where rs: "(k, rs) \<in> set (replicas ?st)" by auto
    have "length rs = card (load_holders plans k)" using replicas_holders [OF rs] distinct_card by metis
    then have "(k, rs) \<in> set ?es" using rs k unsendable_sendable by auto
    then show "k \<in> fst ` set ?es" by force
  qed
  finally show "(\<lambda>x. fst (snd x)) ` set shards = {k. 1 < card (load_holders plans k) \<and> sendable plans k}" .
qed

lemma placed_sources:
  assumes "\<forall>x \<in> set shards. good_shard plans x" "\<forall>k src. map_of acc k = Some src \<longrightarrow> good_source plans k src"
  shows "(\<forall>k src. map_of (snd (fold place_reader shards (loads, acc))) k = Some src \<longrightarrow> good_source plans k src) \<and>
    fst ` set (snd (fold place_reader shards (loads, acc))) = (\<lambda>x. fst (snd x)) ` set shards \<union> fst ` set acc"
  using assms
proof (induction shards arbitrary: loads acc)
  case Nil
  then show ?case by simp
next
  case (Cons x shards)
  obtain n k g where x: "x = (n, k, g)" by (cases x)
  let ?src = "least_loaded loads g"
  let ?acc = "AList.update k \<lparr>group_ranks = g, src_rank = ?src\<rparr> acc"
  have g: "set g = load_holders plans k" "g \<noteq> []" using Cons.prems(1) x by (auto simp: good_shard_def)
  have new: "good_source plans k \<lparr>group_ranks = g, src_rank = ?src\<rparr>"
    using Cons.prems(1) x least_loaded_member [OF g(2), of loads] g(1) by (auto simp: good_shard_def good_source_def)
  then have good: "\<forall>j src. map_of ?acc j = Some src \<longrightarrow> good_source plans j src"
    using Cons.prems(2) by (simp add: update_conv')
  have step: "fold place_reader (x # shards) (loads, acc) = fold place_reader shards (loads[?src := loads ! ?src + n], ?acc)"
    by (simp add: x place_reader_def Let_def)
  have keys: "fst ` set ?acc = insert k (fst ` set acc)" using dom_update [of k _ acc] by auto
  have rest: "\<forall>x \<in> set shards. good_shard plans x" using Cons.prems(1) by simp
  show ?case using Cons.IH [OF rest good, of "loads[?src := loads ! ?src + n]"] unfolding step keys by (simp add: x)
qed

lemma sources_spec:
  assumes "load_sources md plans = Inr sources"
  shows "map_of sources k = Some src \<Longrightarrow> good_source plans k src"
    "map_of sources k = None \<longleftrightarrow> card (load_holders plans k) \<le> 1 \<or> \<not> sendable plans k"
proof -
  obtain shards where run: "shared_shards md plans = Inr shards"
    "sources = snd (fold place_reader (sort_key (\<lambda>s. - fst s) shards) (replicate (length plans) 0, []))"
    using assms by (auto simp: load_sources_def)
  have "\<forall>x \<in> set (sort_key (\<lambda>s. - fst s) shards). good_shard plans x" using shared_shards_run(2) [OF run(1)] by simp
  from placed_sources [OF this, where acc = "[]" and loads = "replicate (length plans) 0"] run(2) shared_shards_run(3) [OF run(1)]
  have *: "\<forall>k src. map_of sources k = Some src \<longrightarrow> good_source plans k src"
    "fst ` set sources = {k. 1 < card (load_holders plans k) \<and> sendable plans k}" by simp_all
  show "map_of sources k = Some src \<Longrightarrow> good_source plans k src" using *(1) by blast
  show "map_of sources k = None \<longleftrightarrow> card (load_holders plans k) \<le> 1 \<or> \<not> sendable plans k"
    unfolding map_of_eq_None_iff *(2) by auto
qed

lemma sources_distinct:
  assumes "load_sources md plans = Inr sources"
  shows "distinct (map fst sources)"
proof -
  have "distinct (map fst (snd (fold place_reader shards (loads, acc))))" if "distinct (map fst acc)" for shards loads acc
    using that
  proof (induction shards arbitrary: loads acc)
    case (Cons x shards)
    then show ?case by (cases x) (simp add: place_reader_def Let_def distinct_update)
  qed simp
  then show ?thesis using assms by (auto simp: load_sources_def)
qed

lemma load_sources_total:
  assumes "\<forall>plan \<in> set plans. \<forall>it \<in> set (lp_items plan). mi_fqn (ri_dest_index it) \<in> fst ` set (md_state_dict md)"
  shows "\<exists>sources. load_sources md plans = Inr sources"
proof -
  let ?st = "gather_readers plans"
  have "\<exists>x. weigh_shard (element_bytes md) ?st e = Inr x" if "e \<in> set (replicas ?st)" for e
  proof -
    have "fst e \<in> fst ` set (replicas ?st)" using that by simp
    then obtain r it where it: "r < length plans" "it \<in> set (lp_items (plans ! r))" "dest_key it = fst e"
      unfolding replicas_keys(2) by (auto simp: load_holders_def)
    then have "fst (fst e) \<in> fst ` set (md_state_dict md)" using assms nth_mem [OF it(1)] by (metis fst_conv mi_key_def)
    then have "fst (fst e) \<in> fst ` set (element_bytes md)" by (force simp: element_bytes_def)
    then obtain w where "map_of (element_bytes md) (fst (fst e)) = Some w" by (metis map_of_eq_None_iff not_None_eq)
    then show ?thesis by (cases e) (simp add: weigh_shard_def)
  qed
  then have "\<exists>shards. shared_shards md plans = Inr shards"
    unfolding shared_shards_def Let_def
    by (intro exI, subst rmap_total [where g = "\<lambda>e. projr (weigh_shard (element_bytes md) ?st e)"]) fastforce+
  then show ?thesis by (auto simp: load_sources_def)
qed

lemma identity_twice [simp]: "plan_identity (plan_identity p) = plan_identity p"
  by (simp add: plan_identity_def elided_item_def)

lemma mark_nothing: "map (mark_item []) its = its"
  by (rule map_idI) (simp add: mark_item_def)

text \<open>The plans a rank sees: the identities of all, with its own plan put back.\<close>

definition gathered_plans :: "load_plan list \<Rightarrow> nat \<Rightarrow> load_plan list" where
  "gathered_plans plans r = (map plan_identity plans)[r := plans ! r]"

lemma global_load_run:
  assumes "1 < length plans" "ldp_broadcast planner" "ldp_metadata planner = Some md"
    and "\<forall>plan \<in> set plans. \<forall>it \<in> set (lp_items plan). mi_fqn (ri_dest_index it) \<in> fst ` set (md_state_dict md)"
  shows "\<exists>sources. load_sources md plans = Inr sources \<and>
    (\<forall>r < length plans. build_global_load_plan (planner\<lparr>ldp_rank := int r\<rparr>) (gathered_plans plans r) =
       Inr ((plans ! r)\<lparr>lp_items := map (mark_item sources) (lp_items (plans ! r))\<rparr>))"
proof -
  obtain sources where sources: "load_sources md plans = Inr sources" using load_sources_total [OF assms(4)] by blast
  have "build_global_load_plan (planner\<lparr>ldp_rank := int r\<rparr>) (gathered_plans plans r) =
       Inr ((plans ! r)\<lparr>lp_items := map (mark_item sources) (lp_items (plans ! r))\<rparr>)" if r: "r < length plans" for r
  proof -
    have "map plan_identity (gathered_plans plans r) = map plan_identity plans"
      using r by (simp add: gathered_plans_def map_update list_update_same_conv comp_def)
    then have "load_sources md (gathered_plans plans r) = Inr sources" using load_sources_identity sources by metis
    moreover have "own_plan_index (gathered_plans plans r) (int r) = Inr r" "gathered_plans plans r ! r = plans ! r"
      using assms(1) r by (simp_all add: gathered_plans_def own_plan_index_def)
    moreover have "\<not> length (gathered_plans plans r) < 2" using assms(1) by (simp add: gathered_plans_def)
    ultimately show ?thesis using assms(2,3) by (simp add: build_global_load_plan_def mark_nothing Let_def)
  qed
  with sources show ?thesis by blast
qed

text \<open>
  C36.  All ranks agree on who reads what.  Every rank, from its own plan and the identities of the others, marks its items
  by one common assignment.  A shard gets a source exactly when at least two ranks hold it and none keeps it in
  host memory; its group is then the ranks that hold it, in ascending order, and its reader is one of them.
\<close>

theorem load_plans_agree:
  assumes "1 < length plans" "ldp_broadcast planner" "ldp_metadata planner = Some md"
    and "\<forall>plan \<in> set plans. \<forall>it \<in> set (lp_items plan). mi_fqn (ri_dest_index it) \<in> fst ` set (md_state_dict md)"
  shows "\<exists>sources. (\<forall>r < length plans. build_global_load_plan (planner\<lparr>ldp_rank := int r\<rparr>) (gathered_plans plans r) =
       Inr ((plans ! r)\<lparr>lp_items := map (mark_item sources) (lp_items (plans ! r))\<rparr>)) \<and>
    (\<forall>k. case map_of sources k of
        Some src \<Rightarrow> set (group_ranks src) = load_holders plans k \<and> sorted (group_ranks src) \<and> distinct (group_ranks src) \<and>
          1 < length (group_ranks src) \<and> src_rank src \<in> load_holders plans k \<and> sendable plans k
      | None \<Rightarrow> card (load_holders plans k) \<le> 1 \<or> \<not> sendable plans k)"
proof -
  obtain sources where run: "load_sources md plans = Inr sources"
    "\<forall>r < length plans. build_global_load_plan (planner\<lparr>ldp_rank := int r\<rparr>) (gathered_plans plans r) =
       Inr ((plans ! r)\<lparr>lp_items := map (mark_item sources) (lp_items (plans ! r))\<rparr>)"
    using global_load_run [OF assms] by blast
  show ?thesis using run(2) sources_spec [OF run(1)] by (auto simp: good_source_def split: option.split)
qed

text \<open>Three ranks; the first two hold the same shard of \<open>w\<close>, the third another one.\<close>

definition shard_read :: "int \<Rightarrow> read_item" where
  "shard_read off = \<lparr>ri_type = Tensor, ri_dest_index = \<lparr>mi_fqn = ''w'', mi_offset = [off], mi_index = Some 0\<rparr>, ri_dest_offsets = [0],
     ri_storage_index = \<lparr>mi_fqn = ''w'', mi_offset = [0], mi_index = Some 0\<rparr>, ri_storage_offsets = [off], ri_lengths = [4],
     ri_broadcastable = True, ri_source = None\<rparr>"

definition three_plans :: "load_plan list" where
  "three_plans = [\<lparr>lp_items = [shard_read 0]\<rparr>, \<lparr>lp_items = [shard_read 0]\<rparr>, \<lparr>lp_items = [shard_read 4]\<rparr>]"

definition three_planner :: load_planner where
  "three_planner = \<lparr>ldp_state_dict = None,
     ldp_metadata = Some \<lparr>md_state_dict = [(''w'', BytesStorage)], md_planner_data = None\<rparr>,
     ldp_rank = 0, ldp_allow_partial_load = False, ldp_broadcast = True\<rparr>"

lemma load_plans_agree_witness:
  "\<exists>src. build_global_load_plan (three_planner\<lparr>ldp_rank := 1\<rparr>) (gathered_plans three_plans 1) =
       Inr \<lparr>lp_items = [(shard_read 0)\<lparr>ri_source := Some src\<rparr>]\<rparr> \<and> set (group_ranks src) = {0, 1} \<and> src_rank src \<in> {0, 1}"
proof -
  have hyps: "1 < length three_plans" "ldp_broadcast three_planner"
    "ldp_metadata three_planner = Some \<lparr>md_state_dict = [(''w'', BytesStorage)], md_planner_data = None\<rparr>"
    "\<forall>plan \<in> set three_plans. \<forall>it \<in> set (lp_items plan). mi_fqn (ri_dest_index it) \<in> fst ` set (md_state_dict \<lparr>md_state_dict = [(''w'', BytesStorage)], md_planner_data = None\<rparr>)"
    by (simp_all add: three_plans_def three_planner_def shard_read_def)
  have holders: "load_holders three_plans (''w'', [0]) = {0, 1}"
    by (auto simp: load_holders_def three_plans_def shard_read_def mi_key_def numeral_3_eq_3 less_Suc_eq)
  have ok: "sendable three_plans (''w'', [0])" by (auto simp: sendable_def three_plans_def shard_read_def)
  obtain sources where sources: "\<forall>r < length three_plans. build_global_load_plan (three_planner\<lparr>ldp_rank := int r\<rparr>) (gathered_plans three_plans r) =
       Inr ((three_plans ! r)\<lparr>lp_items := map (mark_item sources) (lp_items (three_plans ! r))\<rparr>)"
    "\<forall>k. case map_of sources k of
        Some src \<Rightarrow> set (group_ranks src) = load_holders three_plans k \<and> sorted (group_ranks src) \<and> distinct (group_ranks src) \<and>
          1 < length (group_ranks src) \<and> src_rank src \<in> load_holders three_plans k \<and> sendable three_plans k
      | None \<Rightarrow> card (load_holders three_plans k) \<le> 1 \<or> \<not> sendable three_plans k"
    using load_plans_agree [OF hyps] by blast
  obtain src where src: "map_of sources (''w'', [0]) = Some src" "set (group_ranks src) = {0, 1}" "src_rank src \<in> {0, 1}"
    using spec [OF sources(2), of "(''w'', [0])"] holders ok by (auto split: option.splits)
  have "dest_key (shard_read 0) = (''w'', [0])" by (simp add: shard_read_def mi_key_def)
  then have "mark_item sources (shard_read 0) = (shard_read 0)\<lparr>ri_source := Some src\<rparr>" using src(1) by (simp add: mark_item_def)
  then have "build_global_load_plan (three_planner\<lparr>ldp_rank := 1\<rparr>) (gathered_plans three_plans 1) =
       Inr \<lparr>lp_items = [(shard_read 0)\<lparr>ri_source := Some src\<rparr>]\<rparr>"
    using sources(1) [rule_format, of 1] by (simp add: three_plans_def)
  then show ?thesis using src(2,3) by blast
qed

end
