(* ===== verification/CkptStore.thy ===== *)
theory CkptStore
  imports CkptLoad
begin

text \<open>
  The file system storage (\<open>filesystem_storage.py\<close>): what a rank writes for its plan, the storage data
  collected from all ranks, and how a read finds its tensor or its bytes again.
\<close>

section \<open>Writing\<close>

record storage_info =
  si_path :: string
  si_offset :: int
  si_length :: int
  si_tensor_key :: "string option"

type_synonym write_result = "metadata_index \<times> storage_info"

text \<open>A checkpoint file: the named tensors of a safetensors file, or the bytes of a bytes file.\<close>

datatype 'v ckpt_file = Safetensors "(string \<times> 'v nd) list" | BytesFile "nat list"

text \<open>\<open>tensor_key += "_"\<close> until the key is free.\<close>

function free_key :: "string list \<Rightarrow> string \<Rightarrow> string" where
  "free_key taken key = (if key \<in> set taken then free_key taken (key @ ''_'') else key)"
  by pat_completeness auto
termination
proof (relation "measure (\<lambda>(taken, key). length (filter (\<lambda>t. length key \<le> length t) taken))")
  show "wf (measure (\<lambda>(taken :: string list, key :: string). length (filter (\<lambda>t. length key \<le> length t) taken)))" by simp
next
  fix taken :: "string list" and key :: string
  assume mem: "key \<in> set taken"
  have "length (filter (\<lambda>t. Suc (length key) \<le> length t) taken) < length (filter (\<lambda>t. length key \<le> length t) taken)"
    using mem
  proof (induction taken)
    case (Cons t taken)
    have le: "length (filter (\<lambda>t. Suc (length key) \<le> length t) ts) \<le> length (filter (\<lambda>t. length key \<le> length t) ts)"
      for ts :: "string list" by (induction ts) auto
    show ?case
    proof (cases "key = t")
      case True
      then show ?thesis using le [of taken] by simp
    next
      case False
      then show ?thesis using Cons by auto
    qed
  qed simp
  then show "((taken, key @ ''_''), taken, key) \<in> measure (\<lambda>(taken, key). length (filter (\<lambda>t. length key \<le> length t) taken))"
    by simp
qed

declare free_key.simps [simp del]

definition is_tensor_item :: "write_item \<Rightarrow> bool" where
  "is_tensor_item item \<longleftrightarrow> wi_type item = Tensor \<and> wi_data item \<noteq> None"

definition fqn_count :: "write_item list \<Rightarrow> string \<Rightarrow> nat" where
  "fqn_count items fqn = length (filter (\<lambda>item. mi_fqn (wi_index item) = fqn) items)"

record 'v collected =
  used_keys :: "string list"
  next_chunk_index :: "(string \<times> nat) list"
  tensor_dict :: "(string \<times> 'v nd) list"
  tensor_keys :: "(index_key \<times> string) list"

definition collect_tensor :: "write_item list \<Rightarrow> (write_item \<Rightarrow> 'v nd res) \<Rightarrow> write_item \<Rightarrow> 'v collected \<Rightarrow> 'v collected res" where
  "collect_tensor tensor_items get_data item st =
     rbind (get_data item) (\<lambda>tensor.
       let fqn = mi_fqn (wi_index item);
           chunk_index = (case map_of (next_chunk_index st) fqn of None \<Rightarrow> 0 | Some n \<Rightarrow> n);
           several = 1 < fqn_count tensor_items fqn;
           tensor_key = (if several
             then free_key (map (\<lambda>it. mi_fqn (wi_index it)) tensor_items @ used_keys st) (fqn @ ''.__dcp_chunk_'' @ nat_str chunk_index)
             else fqn)
       in Inr \<lparr>used_keys = used_keys st @ [tensor_key],
               next_chunk_index = (if several then AList.update fqn (chunk_index + 1) (next_chunk_index st) else next_chunk_index st),
               tensor_dict = AList.update tensor_key tensor (tensor_dict st),
               tensor_keys = AList.update (mi_key (wi_index item)) tensor_key (tensor_keys st)\<rparr>)"

definition collect_tensors :: "save_plan \<Rightarrow> (write_item \<Rightarrow> 'v nd res) \<Rightarrow> 'v collected res" where
  "collect_tensors plan get_data =
     (let tensor_items = filter is_tensor_item (sp_items plan)
      in rfold (collect_tensor tensor_items get_data) tensor_items
           \<lparr>used_keys = [], next_chunk_index = [], tensor_dict = [], tensor_keys = []\<rparr>)"

definition safetensors_name :: "int \<Rightarrow> string" where
  "safetensors_name rank = ''_rank'' @ int_str rank @ ''_.safetensors''"

definition bytes_name :: "int \<Rightarrow> string" where
  "bytes_name rank = ''_rank'' @ int_str rank @ ''_.bytes''"

type_synonym 'v files = "(string \<times> 'v ckpt_file) list"

definition write_tensors :: "int \<Rightarrow> save_plan \<Rightarrow> 'v collected \<Rightarrow> 'v files \<Rightarrow> ('v files \<times> write_result list) res" where
  "write_tensors rank plan c fs =
     (if tensor_dict c = [] then Inr (fs, [])
      else rbind (rmap (\<lambda>item. case map_of (tensor_keys c) (mi_key (wi_index item)) of
                    None \<Rightarrow> Inl KeyError
                  | Some key \<Rightarrow> Inr (wi_index item,
                      \<lparr>si_path = safetensors_name rank, si_offset = 0, si_length = -1, si_tensor_key = Some key\<rparr>))
                  (filter is_tensor_item (sp_items plan))) (\<lambda>results.
             Inr (AList.update (safetensors_name rank) (Safetensors (tensor_dict c)) fs, results)))"

text \<open>The payload of an object: its bytes, or its pickle; \<open>serialize\<close> stands for the pickling of the object of an item.\<close>

definition write_bytes_item :: "int \<Rightarrow> (write_item \<Rightarrow> nat list res) \<Rightarrow> write_item \<Rightarrow> nat list \<times> write_result list \<Rightarrow>
    (nat list \<times> write_result list) res" where
  "write_bytes_item rank serialize item st =
     rbind (serialize item) (\<lambda>payload.
       Inr (fst st @ payload, snd st @ [(wi_index item,
         \<lparr>si_path = bytes_name rank, si_offset = int (length (fst st)), si_length = int (length payload), si_tensor_key = None\<rparr>)]))"

definition write_bytes_items :: "int \<Rightarrow> save_plan \<Rightarrow> (write_item \<Rightarrow> nat list res) \<Rightarrow> 'v files \<Rightarrow> ('v files \<times> write_result list) res" where
  "write_bytes_items rank plan serialize fs =
     (let byte_items = filter (\<lambda>item. wi_type item = ByteIO) (sp_items plan)
      in if byte_items = [] then Inr (fs, [])
         else rbind (rfold (write_bytes_item rank serialize) byte_items ([], [])) (\<lambda>(content, results).
              Inr (AList.update (bytes_name rank) (BytesFile content) fs, results)))"

definition execute_write :: "int \<Rightarrow> save_plan \<Rightarrow> (write_item \<Rightarrow> 'v nd res) \<Rightarrow> (write_item \<Rightarrow> nat list res) \<Rightarrow> 'v files \<Rightarrow>
    ('v files \<times> write_result list) res" where
  "execute_write rank plan get_data serialize fs =
     rbind (write_bytes_items rank plan serialize fs) (\<lambda>(fs, byte_results).
     rbind (collect_tensors plan get_data) (\<lambda>c.
     rbind (write_tensors rank plan c fs) (\<lambda>(fs, tensor_results). Inr (fs, byte_results @ tensor_results))))"

type_synonym storage_data = "(index_key \<times> storage_info) list"

definition collect_storage_data :: "write_result list list \<Rightarrow> storage_data" where
  "collect_storage_data results =
     fold (\<lambda>wr_list d. fold (\<lambda>wr. AList.update (mi_key (fst wr)) (snd wr)) wr_list d) results []"

section \<open>Reading\<close>

definition get_storage_info :: "storage_data \<Rightarrow> index_key \<Rightarrow> storage_info res" where
  "get_storage_info sd k = (case map_of sd k of None \<Rightarrow> Inl KeyError | Some si \<Rightarrow> Inr si)"

text \<open>The tensor a read slices: \<open>storage_info.tensor_key or req.storage_index.fqn\<close> in the file at the path.\<close>

definition fetch_tensor :: "'v files \<Rightarrow> storage_data \<Rightarrow> index_key \<Rightarrow> 'v nd option" where
  "fetch_tensor fs sd k =
     (case get_storage_info sd k of
        Inl _ \<Rightarrow> None
      | Inr si \<Rightarrow>
          (case map_of fs (si_path si) of
             Some (Safetensors tensors) \<Rightarrow>
               map_of tensors (case si_tensor_key si of None \<Rightarrow> fst k | Some key \<Rightarrow> if key = [] then fst k else key)
           | _ \<Rightarrow> None))"

definition fetch_bytes :: "'v files \<Rightarrow> storage_data \<Rightarrow> index_key \<Rightarrow> nat list option" where
  "fetch_bytes fs sd k =
     (case get_storage_info sd k of
        Inl _ \<Rightarrow> None
      | Inr si \<Rightarrow>
          (case map_of fs (si_path si) of
             Some (BytesFile content) \<Rightarrow> Some (take (nat (si_length si)) (drop (nat (si_offset si)) content))
           | _ \<Rightarrow> None))"

section \<open>The physical keys of a rank's tensors\<close>

abbreviation item_key :: "write_item \<Rightarrow> index_key" where
  "item_key item \<equiv> mi_key (wi_index item)"

abbreviation item_fqn :: "write_item \<Rightarrow> string" where
  "item_fqn item \<equiv> mi_fqn (wi_index item)"

lemma free_key_fresh: "free_key taken key \<notin> set taken"
proof (induction taken key rule: free_key.induct)
  case (1 taken key)
  then show ?case by (subst free_key.simps) simp
qed

lemma free_key_nonempty: "key \<noteq> [] \<Longrightarrow> free_key taken key \<noteq> []"
proof (induction taken key rule: free_key.induct)
  case (1 taken key)
  then show ?case by (subst free_key.simps) simp
qed

text \<open>
  After the items \<open>done\<close>: every key in use is the name of one of them or no item's name, and every
  item's key leads to its data.
\<close>

definition keys_lead :: "write_item list \<Rightarrow> (write_item \<Rightarrow> 'v nd res) \<Rightarrow> write_item list \<Rightarrow> 'v collected \<Rightarrow> bool" where
  "keys_lead ts get_data processed st \<longleftrightarrow>
     set (used_keys st) = fst ` set (tensor_dict st) \<and>
     (\<forall>k \<in> set (used_keys st). k \<notin> item_fqn ` set ts \<or> k \<in> item_fqn ` set processed) \<and>
     (\<forall>it \<in> set processed. \<exists>k d. get_data it = Inr d \<and> map_of (tensor_keys st) (item_key it) = Some k \<and>
        map_of (tensor_dict st) k = Some d \<and> (k = [] \<longrightarrow> item_fqn it = []))"

lemma single_count:
  assumes "ts = processed @ it # rest" "\<not> 1 < fqn_count ts (item_fqn it)"
  shows "item_fqn it \<notin> item_fqn ` set processed"
proof
  assume "item_fqn it \<in> item_fqn ` set processed"
  then have "filter (\<lambda>x. item_fqn x = item_fqn it) processed \<noteq> []" by (auto simp: filter_empty_conv)
  then show False using assms by (cases "filter (\<lambda>x. item_fqn x = item_fqn it) processed") (auto simp: fqn_count_def)
qed

lemma collect_tensor_step:
  assumes inv: "keys_lead ts get_data processed st" and ts: "ts = processed @ it # rest" and new: "item_key it \<notin> item_key ` set processed"
    and step: "collect_tensor ts get_data it st = Inr st'"
  shows "keys_lead ts get_data (processed @ [it]) st'"
proof -
  let ?several = "1 < fqn_count ts (item_fqn it)"
  obtain d where d: "get_data it = Inr d" using step by (auto simp: collect_tensor_def)
  define k where "k = (if ?several
      then free_key (map item_fqn ts @ used_keys st)
        (item_fqn it @ ''.__dcp_chunk_'' @ nat_str (case map_of (next_chunk_index st) (item_fqn it) of None \<Rightarrow> 0 | Some n \<Rightarrow> n))
      else item_fqn it)"
  have st': "used_keys st' = used_keys st @ [k]" "tensor_dict st' = AList.update k d (tensor_dict st)"
    "tensor_keys st' = AList.update (item_key it) k (tensor_keys st)"
    using step d by (auto simp: collect_tensor_def Let_def k_def)
  have mem: "item_fqn it \<in> item_fqn ` set ts" by (simp add: ts)
  have fresh: "k \<notin> set (used_keys st)"
  proof (cases ?several)
    case True
    then show ?thesis using free_key_fresh [of "map item_fqn ts @ used_keys st"] by (simp add: k_def)
  next
    case False
    then show ?thesis using inv single_count [OF ts False] mem by (auto simp: k_def keys_lead_def)
  qed
  have k: "k \<notin> item_fqn ` set ts \<or> k = item_fqn it" "k = [] \<longrightarrow> item_fqn it = []"
    using free_key_fresh [of "map item_fqn ts @ used_keys st"] free_key_nonempty by (auto simp: k_def)
  have old: "\<exists>k' d'. get_data x = Inr d' \<and> map_of (tensor_keys st') (item_key x) = Some k' \<and>
      map_of (tensor_dict st') k' = Some d' \<and> (k' = [] \<longrightarrow> item_fqn x = [])" if x: "x \<in> set processed" for x
  proof -
    obtain k' d' where k': "get_data x = Inr d'" "map_of (tensor_keys st) (item_key x) = Some k'"
      "map_of (tensor_dict st) k' = Some d'" "k' = [] \<longrightarrow> item_fqn x = []" using inv x by (auto simp: keys_lead_def)
    have "k' \<in> fst ` set (tensor_dict st)" using k'(3) by (metis map_of_eq_None_iff option.distinct(1))
    then have "k' \<noteq> k" using inv fresh by (auto simp: keys_lead_def)
    moreover have "item_key x \<noteq> item_key it" using new x by (metis image_eqI)
    ultimately show ?thesis using k' by (simp add: st' update_conv')
  qed
  show ?thesis
    using inv k d old unfolding keys_lead_def st' by (auto simp: dom_update update_conv')
qed

lemma collect_tensors_run:
  assumes "collect_tensors plan get_data = Inr c" "distinct (map item_key (filter is_tensor_item (sp_items plan)))"
  shows "keys_lead (filter is_tensor_item (sp_items plan)) get_data (filter is_tensor_item (sp_items plan)) c"
proof -
  let ?ts = "filter is_tensor_item (sp_items plan)"
  have "keys_lead ?ts get_data (processed @ xs) st'"
    if "rfold (collect_tensor ?ts get_data) xs st = Inr st'" "keys_lead ?ts get_data processed st" "?ts = processed @ xs" for xs processed st st'
    using that
  proof (induction xs arbitrary: processed st)
    case (Cons x xs)
    obtain st1 where one: "collect_tensor ?ts get_data x st = Inr st1" "rfold (collect_tensor ?ts get_data) xs st1 = Inr st'"
      using Cons.prems(1) by auto
    have "item_key x \<notin> item_key ` set processed" using assms(2) Cons.prems(3) by auto
    from collect_tensor_step [OF Cons.prems(2,3) this one(1)] show ?case
      using Cons.IH [OF one(2), of "processed @ [x]"] Cons.prems(3) by simp
  qed simp
  from this [of ?ts _ c "[]"] show ?thesis
    using assms(1) by (simp add: collect_tensors_def Let_def keys_lead_def)
qed

section \<open>Every item is found again\<close>

text \<open>The result of an item, and what its storage information leads to.\<close>

definition leads_to_tensor :: "'v files \<Rightarrow> index_key \<Rightarrow> storage_info \<Rightarrow> 'v nd \<Rightarrow> bool" where
  "leads_to_tensor fs k si d \<longleftrightarrow> (\<exists>tensors. map_of fs (si_path si) = Some (Safetensors tensors) \<and>
     map_of tensors (case si_tensor_key si of None \<Rightarrow> fst k | Some key \<Rightarrow> if key = [] then fst k else key) = Some d)"

definition leads_to_bytes :: "'v files \<Rightarrow> storage_info \<Rightarrow> nat list \<Rightarrow> bool" where
  "leads_to_bytes fs si p \<longleftrightarrow> (\<exists>content. map_of fs (si_path si) = Some (BytesFile content) \<and>
     take (nat (si_length si)) (drop (nat (si_offset si)) content) = p)"

lemma write_bytes_fold:
  assumes "rfold (write_bytes_item rank serialize) items (content, results) = Inr (content', results')"
  shows "\<exists>tail. content' = content @ tail \<and> (\<exists>new. results' = results @ new \<and> map fst new = map wi_index items \<and>
    (\<forall>it \<in> set items. \<exists>p si. serialize it = Inr p \<and> (wi_index it, si) \<in> set new \<and> si_path si = bytes_name rank \<and>
       take (nat (si_length si)) (drop (nat (si_offset si)) content') = p))"
  using assms
proof (induction items arbitrary: content results)
  case (Cons it items)
  obtain p where p: "serialize it = Inr p" using Cons.prems by (auto simp: write_bytes_item_def)
  let ?si = "\<lparr>si_path = bytes_name rank, si_offset = int (length content), si_length = int (length p), si_tensor_key = None\<rparr>"
  have "write_bytes_item rank serialize it (content, results) = Inr (content @ p, results @ [(wi_index it, ?si)])"
    using p by (simp add: write_bytes_item_def)
  then have "rfold (write_bytes_item rank serialize) items (content @ p, results @ [(wi_index it, ?si)]) = Inr (content', results')"
    using Cons.prems by simp
  from Cons.IH [OF this] obtain tail new where IH: "content' = (content @ p) @ tail" "results' = (results @ [(wi_index it, ?si)]) @ new"
    "map fst new = map wi_index items"
    "\<forall>it \<in> set items. \<exists>p si. serialize it = Inr p \<and> (wi_index it, si) \<in> set new \<and> si_path si = bytes_name rank \<and>
       take (nat (si_length si)) (drop (nat (si_offset si)) content') = p" by blast
  have here: "take (nat (si_length ?si)) (drop (nat (si_offset ?si)) content') = p" by (simp add: IH(1))
  have "\<exists>p si. serialize x = Inr p \<and> (wi_index x, si) \<in> set ((wi_index it, ?si) # new) \<and> si_path si = bytes_name rank \<and>
      take (nat (si_length si)) (drop (nat (si_offset si)) content') = p" if "x \<in> set (it # items)" for x
  proof (cases "x = it")
    case True
    then show ?thesis using p here by (intro exI [of _ p] exI [of _ ?si]) simp
  next
    case False
    then obtain q si where "serialize x = Inr q" "(wi_index x, si) \<in> set new" "si_path si = bytes_name rank"
      "take (nat (si_length si)) (drop (nat (si_offset si)) content') = q" using IH(4) \<open>x \<in> set (it # items)\<close> by auto
    then show ?thesis by (intro exI [of _ q] exI [of _ si]) simp
  qed
  then show ?case using IH(1-3)
    by (intro exI [of _ "p @ tail"] conjI exI [of _ "(wi_index it, ?si) # new"]) simp_all
qed simp

lemma names_differ [simp]: "bytes_name r \<noteq> safetensors_name r'" "safetensors_name r \<noteq> bytes_name r'"
  "safetensors_name r = safetensors_name r' \<longleftrightarrow> r = r'" "bytes_name r = bytes_name r' \<longleftrightarrow> r = r'"
proof -
  have "bytes_name r \<noteq> safetensors_name r'" for r r'
  proof
    assume "bytes_name r = safetensors_name r'"
    then have "rev (bytes_name r) ! 1 = rev (safetensors_name r') ! 1" by simp
    then show False by (simp add: bytes_name_def safetensors_name_def)
  qed
  then show "bytes_name r \<noteq> safetensors_name r'" "safetensors_name r \<noteq> bytes_name r'" by metis+
  show "safetensors_name r = safetensors_name r' \<longleftrightarrow> r = r'" "bytes_name r = bytes_name r' \<longleftrightarrow> r = r'"
    by (simp_all add: bytes_name_def safetensors_name_def)
qed

text \<open>One rank writes its plan.\<close>

definition written :: "int \<Rightarrow> save_plan \<Rightarrow> (write_item \<Rightarrow> 'v nd res) \<Rightarrow> (write_item \<Rightarrow> nat list res) \<Rightarrow> 'v files \<Rightarrow> write_result list \<Rightarrow> bool" where
  "written rank plan get_data serialize fs results \<longleftrightarrow>
     (\<forall>it \<in> set (sp_items plan).
        (is_tensor_item it \<longrightarrow> (\<exists>d si. get_data it = Inr d \<and> (wi_index it, si) \<in> set results \<and>
           si_path si = safetensors_name rank \<and> leads_to_tensor fs (item_key it) si d)) \<and>
        (wi_type it = ByteIO \<longrightarrow> (\<exists>p si. serialize it = Inr p \<and> (wi_index it, si) \<in> set results \<and>
           si_path si = bytes_name rank \<and> leads_to_bytes fs si p)))"

lemma write_bytes_run:
  assumes "write_bytes_items rank plan serialize fs = Inr (fs', results)"
  shows "map fst results = map wi_index (filter (\<lambda>it. wi_type it = ByteIO) (sp_items plan)) \<and>
    (\<forall>it \<in> set (sp_items plan). wi_type it = ByteIO \<longrightarrow> (\<exists>p si. serialize it = Inr p \<and> (wi_index it, si) \<in> set results \<and>
       si_path si = bytes_name rank \<and> leads_to_bytes fs' si p)) \<and>
    (\<forall>path. path \<noteq> bytes_name rank \<longrightarrow> map_of fs' path = map_of fs path)"
proof (cases "filter (\<lambda>it. wi_type it = ByteIO) (sp_items plan) = []")
  case True
  then show ?thesis using assms by (auto simp: write_bytes_items_def Let_def filter_empty_conv)
next
  case False
  then obtain content where run: "rfold (write_bytes_item rank serialize) (filter (\<lambda>it. wi_type it = ByteIO) (sp_items plan)) ([], []) =
      Inr (content, results)" "fs' = AList.update (bytes_name rank) (BytesFile content) fs"
    using assms by (auto simp: write_bytes_items_def Let_def)
  obtain new where "results = [] @ new" and res: "map fst new = map wi_index (filter (\<lambda>it. wi_type it = ByteIO) (sp_items plan))"
    "\<forall>it \<in> set (filter (\<lambda>it. wi_type it = ByteIO) (sp_items plan)). \<exists>p si. serialize it = Inr p \<and> (wi_index it, si) \<in> set new \<and>
       si_path si = bytes_name rank \<and> take (nat (si_length si)) (drop (nat (si_offset si)) content) = p"
    using write_bytes_fold [OF run(1)] by blast
  then have new: "new = results" by simp
  have leads: "leads_to_bytes fs' si p" if "si_path si = bytes_name rank" "take (nat (si_length si)) (drop (nat (si_offset si)) content) = p" for si p
    using that by (simp add: run(2) leads_to_bytes_def update_conv')
  have "\<exists>p si. serialize it = Inr p \<and> (wi_index it, si) \<in> set results \<and> si_path si = bytes_name rank \<and> leads_to_bytes fs' si p"
    if "it \<in> set (sp_items plan)" "wi_type it = ByteIO" for it
  proof -
    have "it \<in> set (filter (\<lambda>it. wi_type it = ByteIO) (sp_items plan))" using that by simp
    then show ?thesis using res(2) leads unfolding new by blast
  qed
  then show ?thesis using res(1) by (simp add: run(2) new update_conv')
qed

lemma write_tensors_run:
  assumes "write_tensors rank plan c fs = Inr (fs', results)" "keys_lead ts get_data ts c" "ts = filter is_tensor_item (sp_items plan)"
  shows "map fst results = map wi_index ts \<and>
    (\<forall>it \<in> set ts. \<exists>d si. get_data it = Inr d \<and> (wi_index it, si) \<in> set results \<and>
       si_path si = safetensors_name rank \<and> leads_to_tensor fs' (item_key it) si d) \<and>
    (\<forall>path. path \<noteq> safetensors_name rank \<longrightarrow> map_of fs' path = map_of fs path)"
proof (cases "tensor_dict c = []")
  case True
  then have "ts = []" using assms(2) by (cases ts) (auto simp: keys_lead_def)
  then show ?thesis using assms(1) True by (simp add: write_tensors_def)
next
  case False
  let ?si = "\<lambda>key. \<lparr>si_path = safetensors_name rank, si_offset = 0, si_length = -1, si_tensor_key = Some key\<rparr>"
  have run: "rmap (\<lambda>item. case map_of (tensor_keys c) (item_key item) of None \<Rightarrow> Inl KeyError
      | Some key \<Rightarrow> Inr (wi_index item, ?si key)) ts = Inr results"
    "fs' = AList.update (safetensors_name rank) (Safetensors (tensor_dict c)) fs"
    using assms(1) False by (auto simp: write_tensors_def assms(3))
  have all2: "list_all2 (\<lambda>item r. \<exists>key. map_of (tensor_keys c) (item_key item) = Some key \<and> r = (wi_index item, ?si key)) ts results"
    using run(1) unfolding rmap_Inr_iff by (rule list_all2_mono) (auto split: option.splits)
  have "map fst results = map wi_index ts" using all2 by (induction rule: list_all2_induct) auto
  moreover have "\<exists>d si. get_data it = Inr d \<and> (wi_index it, si) \<in> set results \<and>
       si_path si = safetensors_name rank \<and> leads_to_tensor fs' (item_key it) si d" if it: "it \<in> set ts" for it
  proof -
    obtain k d where k: "get_data it = Inr d" "map_of (tensor_keys c) (item_key it) = Some k" "map_of (tensor_dict c) k = Some d"
      "k = [] \<longrightarrow> item_fqn it = []" using assms(2) it by (auto simp: keys_lead_def)
    obtain i where i: "i < length ts" "it = ts ! i" using it by (auto simp: in_set_conv_nth)
    then have "results ! i = (wi_index it, ?si k)" "results ! i \<in> set results"
      using all2 k(2) by (auto simp: list_all2_conv_all_nth)
    then have "(wi_index it, ?si k) \<in> set results" by metis
    moreover have "leads_to_tensor fs' (item_key it) (?si k) d"
      using k(3,4) by (cases "k = []") (auto simp: leads_to_tensor_def run(2) update_conv' mi_key_def)
    ultimately show ?thesis using k(1) by (intro exI [of _ d] exI [of _ "?si k"]) simp
  qed
  ultimately show ?thesis by (simp add: run(2) update_conv')
qed

lemma leads_cong:
  "map_of fs (si_path si) = map_of fs' (si_path si) \<Longrightarrow> leads_to_tensor fs k si d = leads_to_tensor fs' k si d"
  "map_of fs (si_path si) = map_of fs' (si_path si) \<Longrightarrow> leads_to_bytes fs si p = leads_to_bytes fs' si p"
  by (simp_all add: leads_to_tensor_def leads_to_bytes_def)

lemma execute_write_run:
  assumes "execute_write rank plan get_data serialize fs = Inr (fs', results)" "distinct (map item_key (sp_items plan))"
  shows "written rank plan get_data serialize fs' results \<and>
    mset (map fst results) = mset (map wi_index (filter (\<lambda>it. wi_type it = ByteIO) (sp_items plan))) + mset (map wi_index (filter is_tensor_item (sp_items plan))) \<and>
    (\<forall>path. path \<noteq> bytes_name rank \<and> path \<noteq> safetensors_name rank \<longrightarrow> map_of fs' path = map_of fs path)"
proof -
  let ?ts = "filter is_tensor_item (sp_items plan)"
  obtain fs1 rb c rt where steps: "write_bytes_items rank plan serialize fs = Inr (fs1, rb)" "collect_tensors plan get_data = Inr c"
    "write_tensors rank plan c fs1 = Inr (fs', rt)" "results = rb @ rt"
    using assms(1) by (auto simp: execute_write_def)
  have "keys_lead ?ts get_data ?ts c"
    using steps(2) assms(2) by (intro collect_tensors_run) (simp_all add: distinct_map_filter)
  note tensors = write_tensors_run [OF steps(3) this refl]
  note byte = write_bytes_run [OF steps(1)]
  have "map_of fs1 (bytes_name rank) = map_of fs' (bytes_name rank)" using tensors by simp
  then have bytes': "\<exists>p si. serialize it = Inr p \<and> (wi_index it, si) \<in> set results \<and> si_path si = bytes_name rank \<and> leads_to_bytes fs' si p"
    if "it \<in> set (sp_items plan)" "wi_type it = ByteIO" for it
    using byte that leads_cong(2) steps(4) by (metis Un_iff set_append)
  have tensors': "\<exists>d si. get_data it = Inr d \<and> (wi_index it, si) \<in> set results \<and>
       si_path si = safetensors_name rank \<and> leads_to_tensor fs' (item_key it) si d"
    if "it \<in> set (sp_items plan)" "is_tensor_item it" for it
  proof -
    have "it \<in> set ?ts" using that by simp
    then obtain d si where "get_data it = Inr d" "(wi_index it, si) \<in> set rt"
       "si_path si = safetensors_name rank" "leads_to_tensor fs' (item_key it) si d" using tensors by blast
    then show ?thesis using steps(4) by auto
  qed
  have "written rank plan get_data serialize fs' results" using bytes' tensors' by (simp add: written_def)
  moreover have "mset (map fst results) = mset (map wi_index (filter (\<lambda>it. wi_type it = ByteIO) (sp_items plan))) + mset (map wi_index ?ts)"
    using tensors byte steps(4) by simp
  ultimately show ?thesis using tensors byte by simp
qed

text \<open>All ranks write, each into its own files, and the coordinator collects their results.\<close>

definition save_to_storage :: "(nat \<Rightarrow> save_plan) \<Rightarrow> (nat \<Rightarrow> write_item \<Rightarrow> 'v nd res) \<Rightarrow> (nat \<Rightarrow> write_item \<Rightarrow> nat list res) \<Rightarrow> nat \<Rightarrow>
    ('v files \<times> write_result list list) res" where
  "save_to_storage plans get_data serialize n =
     rfold (\<lambda>r (fs, results). rbind (execute_write (int r) (plans r) (get_data r) (serialize r) fs) (\<lambda>(fs', rs). Inr (fs', results @ [rs])))
       [0..<n] ([], [])"

lemma written_stable:
  assumes "written (int r) plan gd ser fs results" "r \<noteq> r'"
    and "\<forall>path. path \<noteq> bytes_name (int r') \<and> path \<noteq> safetensors_name (int r') \<longrightarrow> map_of fs' path = map_of fs path"
  shows "written (int r) plan gd ser fs' results"
proof -
  have same: "map_of fs (si_path si) = map_of fs' (si_path si)"
    if "si_path si = safetensors_name (int r) \<or> si_path si = bytes_name (int r)" for si
    using that assms(2,3) by auto
  show ?thesis unfolding written_def
  proof (intro ballI conjI impI)
    fix it assume "it \<in> set (sp_items plan)" "is_tensor_item it"
    then obtain d si where "gd it = Inr d" "(wi_index it, si) \<in> set results" "si_path si = safetensors_name (int r)"
      "leads_to_tensor fs (item_key it) si d" using assms(1) by (auto simp: written_def)
    then show "\<exists>d si. gd it = Inr d \<and> (wi_index it, si) \<in> set results \<and> si_path si = safetensors_name (int r) \<and>
        leads_to_tensor fs' (item_key it) si d"
      using leads_cong(1) [OF same] by blast
  next
    fix it assume "it \<in> set (sp_items plan)" "wi_type it = ByteIO"
    then obtain q si where "ser it = Inr q" "(wi_index it, si) \<in> set results" "si_path si = bytes_name (int r)"
      "leads_to_bytes fs si q" using assms(1) by (auto simp: written_def)
    then show "\<exists>p si. ser it = Inr p \<and> (wi_index it, si) \<in> set results \<and> si_path si = bytes_name (int r) \<and> leads_to_bytes fs' si p"
      using leads_cong(2) [OF same] by blast
  qed
qed

lemma plan_keys_mset:
  assumes "\<forall>it \<in> set items. wi_type it = Tensor \<longrightarrow> wi_data it \<noteq> None"
  shows "mset (map wi_index (filter (\<lambda>it. wi_type it = ByteIO) items)) + mset (map wi_index (filter is_tensor_item items)) = mset (map wi_index items)"
  using assms
proof (induction items)
  case (Cons it items)
  then show ?case by (cases "wi_type it") (auto simp: is_tensor_item_def)
qed simp

lemma save_to_storage_run:
  assumes "save_to_storage plans gd ser n = Inr (fs, results)"
    and "\<forall>r < n. distinct (map item_key (sp_items (plans r)))"
    and "\<forall>r < n. \<forall>it \<in> set (sp_items (plans r)). wi_type it = Tensor \<longrightarrow> wi_data it \<noteq> None"
  shows "length results = n \<and> (\<forall>r < n. written (int r) (plans r) (gd r) (ser r) fs (results ! r)) \<and>
    mset (map fst (concat results)) = mset (map wi_index (concat (map (\<lambda>r. sp_items (plans r)) [0..<n])))"
  using assms
proof (induction n arbitrary: fs results)
  case 0
  then show ?case by (simp add: save_to_storage_def)
next
  case (Suc n)
  obtain fs1 results1 rs where steps: "save_to_storage plans gd ser n = Inr (fs1, results1)"
    "execute_write (int n) (plans n) (gd n) (ser n) fs1 = Inr (fs, rs)" "results = results1 @ [rs]"
    using Suc.prems(1) by (auto simp: save_to_storage_def rfold_append)
  have IH: "length results1 = n" "\<forall>r < n. written (int r) (plans r) (gd r) (ser r) fs1 (results1 ! r)"
    "mset (map fst (concat results1)) = mset (map wi_index (concat (map (\<lambda>r. sp_items (plans r)) [0..<n])))"
    using Suc.IH [OF steps(1)] Suc.prems(2,3) less_SucI by blast+
  have "distinct (map item_key (sp_items (plans n)))" using Suc.prems(2) by simp
  note last = execute_write_run [OF steps(2) this]
  have "mset (map fst rs) = mset (map wi_index (sp_items (plans n)))"
    using last plan_keys_mset [of "sp_items (plans n)"] Suc.prems(3) lessI by metis
  then have keys: "mset (map fst (concat results)) = mset (map wi_index (concat (map (\<lambda>r. sp_items (plans r)) [0..<Suc n])))"
    using IH(3) by (simp add: steps(3))
  have "written (int r) (plans r) (gd r) (ser r) fs (results ! r)" if "r < Suc n" for r
  proof (cases "r = n")
    case True
    then show ?thesis using last IH(1) by (simp add: steps(3) nth_append)
  next
    case False
    then have "written (int r) (plans r) (gd r) (ser r) fs1 (results1 ! r)" using that IH(2) by simp
    then have "written (int r) (plans r) (gd r) (ser r) fs (results1 ! r)"
      by (rule written_stable [of _ _ _ _ _ _ n]) (use False last in auto)
    then show ?thesis using False that IH(1) by (simp add: steps(3) nth_append)
  qed
  then show ?case using keys IH(1) by (simp add: steps(3))
qed

lemma collect_storage_merge:
  "collect_storage_data results = dict_merge [] (map (\<lambda>(m, si). (mi_key m, si)) (concat results))"
proof -
  have "fold (\<lambda>wr_list d. fold (\<lambda>wr. AList.update (mi_key (fst wr)) (snd wr)) wr_list d) results d =
      dict_merge d (map (\<lambda>(m, si). (mi_key m, si)) (concat results))" for d
    by (induction results arbitrary: d) (simp_all add: dict_merge_def fold_map comp_def case_prod_unfold)
  then show ?thesis by (simp add: collect_storage_data_def)
qed

lemma storage_found:
  assumes "save_to_storage plans gd ser n = Inr (fs, results)"
    and "distinct (map item_key (concat (map (\<lambda>r. sp_items (plans r)) [0..<n])))"
    and "\<forall>r < n. \<forall>it \<in> set (sp_items (plans r)). wi_type it = Tensor \<longrightarrow> wi_data it \<noteq> None"
    and "r < n" "it \<in> set (sp_items (plans r))"
  shows "case wi_type it of
      Tensor \<Rightarrow> \<exists>d. gd r it = Inr d \<and> fetch_tensor fs (collect_storage_data results) (item_key it) = Some d
    | ByteIO \<Rightarrow> \<exists>p. ser r it = Inr p \<and> fetch_bytes fs (collect_storage_data results) (item_key it) = Some p"
proof -
  have each: "distinct (map item_key (sp_items (plans r)))" if "r < n" for r
  proof -
    have "r \<in> set [0..<n]" using that by simp
    then obtain xs ys where "[0..<n] = xs @ r # ys" by (meson split_list)
    then show ?thesis using assms(2) by simp
  qed
  have run: "length results = n" "written (int r) (plans r) (gd r) (ser r) fs (results ! r)"
    "mset (map fst (concat results)) = mset (map wi_index (concat (map (\<lambda>r. sp_items (plans r)) [0..<n])))"
    using save_to_storage_run [OF assms(1) _ assms(3)] each assms(4) by blast+
  let ?e = "map (\<lambda>(m, si). (mi_key m, si)) (concat results)"
  have "map fst ?e = map mi_key (map fst (concat results))" by (auto simp: case_prod_unfold)
  then have "mset (map fst ?e) = image_mset mi_key (mset (map fst (concat results)))" by (simp only: mset_map)
  also have "\<dots> = mset (map item_key (concat (map (\<lambda>r. sp_items (plans r)) [0..<n])))"
    unfolding run(3) by (simp only: mset_map image_mset.compositionality comp_def)
  finally have dist: "distinct (map fst ?e)" using assms(2) mset_eq_imp_distinct_iff by blast
  have look: "map_of (collect_storage_data results) (item_key it) = Some si" if "(wi_index it, si) \<in> set (results ! r)" for si
  proof -
    have "(wi_index it, si) \<in> set (concat results)" using that assms(4) run(1) by (auto simp: set_conv_nth [of results])
    then have "(item_key it, si) \<in> set ?e" by force
    then have "map_of ?e (item_key it) = Some si" by (rule map_of_is_SomeI [OF dist])
    then show ?thesis by (simp add: collect_storage_merge merge_lookup_distinct [OF dist])
  qed
  show ?thesis
  proof (cases "wi_type it")
    case Tensor
    then have "is_tensor_item it" using assms(3-5) by (auto simp: is_tensor_item_def)
    then obtain d si where "gd r it = Inr d" "(wi_index it, si) \<in> set (results ! r)" "leads_to_tensor fs (item_key it) si d"
      using run(2) assms(5) by (auto simp: written_def)
    then show ?thesis using Tensor look by (auto simp: fetch_tensor_def get_storage_info_def leads_to_tensor_def)
  next
    case ByteIO
    then obtain p si where "ser r it = Inr p" "(wi_index it, si) \<in> set (results ! r)" "leads_to_bytes fs si p"
      using run(2) assms(5) by (auto simp: written_def)
    then show ?thesis using ByteIO look by (auto simp: fetch_bytes_def get_storage_info_def leads_to_bytes_def)
  qed
qed

text \<open>
  C39.  What is written is found again.  When all ranks write their plans and no item is in two of them, looking an item's
  index up in the collected storage data and reading the file it names gives exactly what the item's rank wrote:
  the tensor under its physical key, or the payload between its offset and its length.
\<close>

theorem storage_roundtrip:
  assumes "save_to_storage plans gd ser n = Inr (fs, results)"
    and "distinct (map item_key (concat (map (\<lambda>r. sp_items (plans r)) [0..<n])))"
    and "\<forall>r < n. \<forall>it \<in> set (sp_items (plans r)). wi_type it = Tensor \<longrightarrow> wi_data it \<noteq> None"
    and "r < n" "it \<in> set (sp_items (plans r))"
  shows "case wi_type it of
      Tensor \<Rightarrow> \<exists>d. gd r it = Inr d \<and> fetch_tensor fs (collect_storage_data results) (item_key it) = Some d
    | ByteIO \<Rightarrow> \<exists>p. ser r it = Inr p \<and> fetch_bytes fs (collect_storage_data results) (item_key it) = Some p"
  using assms by (rule storage_found)

text \<open>Two ranks, two halves of one tensor: the second rank's half is found under its offset.\<close>

definition two_saved :: "(int files \<times> write_result list list) res" where
  "two_saved = save_to_storage (\<lambda>r. \<lparr>sp_items = [shared_item ''w'' (4 * int r)], sp_planner_data = None\<rparr>)
     (\<lambda>r it. Inr \<lparr>nd_shape = [4], nd_at = \<lambda>i. int r\<rparr>) (\<lambda>r it. Inr []) 2"

lemma storage_roundtrip_witness:
  "\<exists>fs results. two_saved = Inr (fs, results) \<and>
     fetch_tensor fs (collect_storage_data results) (''w'', [4]) = Some \<lparr>nd_shape = [4], nd_at = \<lambda>i. 1\<rparr>"
proof -
  have "case two_saved of Inr _ \<Rightarrow> True | Inl _ \<Rightarrow> False" by code_simp
  then obtain fs results where run: "two_saved = Inr (fs, results)" by (auto split: sum.splits)
  have item: "item_key (shared_item ''w'' k) = (''w'', [k])" "wi_type (shared_item ''w'' k) = Tensor" "wi_data (shared_item ''w'' k) \<noteq> None" for k
    by (simp_all add: shared_item_def mi_key_def)
  have "case wi_type (shared_item ''w'' (4 * int 1)) of
      Tensor \<Rightarrow> \<exists>d. Inr \<lparr>nd_shape = [4], nd_at = \<lambda>i. int 1\<rparr> = (Inr d :: int nd res) \<and>
        fetch_tensor fs (collect_storage_data results) (item_key (shared_item ''w'' (4 * int 1))) = Some d
    | ByteIO \<Rightarrow> \<exists>p. Inr [] = (Inr p :: nat list res) \<and>
        fetch_bytes fs (collect_storage_data results) (item_key (shared_item ''w'' (4 * int 1))) = Some p"
    by (rule storage_roundtrip [OF run [unfolded two_saved_def], where r = 1]) (simp_all add: item upt_rec numeral_2_eq_2)
  then have "fetch_tensor fs (collect_storage_data results) (''w'', [4]) = Some \<lparr>nd_shape = [4], nd_at = \<lambda>i. 1\<rparr>"
    by (simp add: item)
  with run show ?thesis by blast
qed

end
