(* ===== verification/CkptBroadcast.thy ===== *)
theory CkptBroadcast
  imports CkptGlobalLoad CkptStore "HOL-Library.List_Lexorder" "HOL-Library.Char_ord" "HOL-Library.Product_Lexorder"
begin

text \<open>
  What a rank does during a load with broadcasts: \<open>FileSystemReader.execute_read\<close> and the sends of
  \<open>broadcast.py\<close>.  The program of a rank is the sequence of its reads, its started broadcasts and its waits.
  A broadcast is asynchronous: it completes once every rank of its group has started it, and a rank that
  waits for it stands still until then.
\<close>

section \<open>Sends\<close>

record bcast =
  bc_source :: broadcast_source
  bc_shards :: "index_key list"

datatype load_step = Read "read_item list" | Start bcast | Await bcast

type_synonym batch_key = "nat list \<times> nat \<times> string"

text \<open>The state of \<open>BroadcastBatcher\<close>, the broadcasts in flight, and the steps so far.\<close>

record sending =
  sg_batches :: "(batch_key \<times> index_key list) list"
  sg_pending :: "(batch_key \<times> int) list"
  sg_in_flight :: "bcast list"
  sg_steps :: "load_step list"

fun make_room :: "bcast list \<Rightarrow> load_step list \<Rightarrow> bcast list \<times> load_step list" where
  "make_room [] steps = ([], steps)"
| "make_room (b # bs) steps = (if 8 \<le> length (b # bs) then make_room bs (steps @ [Await b]) else (b # bs, steps))"

definition start_broadcast :: "bcast \<Rightarrow> sending \<Rightarrow> sending" where
  "start_broadcast b st =
     (case make_room (sg_in_flight st) (sg_steps st) of (in_flight, steps) \<Rightarrow>
        st\<lparr>sg_in_flight := in_flight @ [b], sg_steps := steps @ [Start b]\<rparr>)"

definition send_batch :: "batch_key \<Rightarrow> sending \<Rightarrow> sending" where
  "send_batch key st =
     (let buffers = (case map_of (sg_batches st) key of None \<Rightarrow> [] | Some bs \<Rightarrow> bs);
          st' = st\<lparr>sg_batches := AList.delete key (sg_batches st), sg_pending := AList.delete key (sg_pending st)\<rparr>
      in if buffers = [] then st'
         else start_broadcast \<lparr>bc_source = \<lparr>group_ranks = fst key, src_rank = fst (snd key)\<rparr>, bc_shards = buffers\<rparr> st')"

definition pending_bytes :: "batch_key \<Rightarrow> sending \<Rightarrow> int" where
  "pending_bytes key st = (case map_of (sg_pending st) key of None \<Rightarrow> 0 | Some n \<Rightarrow> n)"

text \<open>\<open>nbytes\<close> and \<open>dtype\<close> are the size in bytes and the dtype of the local buffer of a shard.\<close>

definition add_shard :: "(index_key \<Rightarrow> int) \<Rightarrow> (index_key \<Rightarrow> string) \<Rightarrow> int \<Rightarrow> index_key \<Rightarrow> broadcast_source \<Rightarrow> sending \<Rightarrow> sending" where
  "add_shard nbytes dtype batch_bytes k src st =
     (if batch_bytes \<le> nbytes k then start_broadcast \<lparr>bc_source = src, bc_shards = [k]\<rparr> st
      else
        let key = (group_ranks src, src_rank src, dtype k);
            st1 = (if batch_bytes < pending_bytes key st + nbytes k then send_batch key st else st)
        in st1\<lparr>sg_batches := AList.map_default key [k] (\<lambda>bs. bs @ [k]) (sg_batches st1),
               sg_pending := AList.update key (pending_bytes key st1 + nbytes k) (sg_pending st1)\<rparr>)"

definition flush_batches :: "sending \<Rightarrow> sending" where
  "flush_batches st = fold send_batch (map fst (sg_batches st)) st"

definition wait_broadcasts :: "sending \<Rightarrow> sending" where
  "wait_broadcasts st = st\<lparr>sg_in_flight := [], sg_steps := sg_steps st @ map Await (sg_in_flight st)\<rparr>"

section \<open>The program of a rank\<close>

definition get_storage_path :: "storage_data \<Rightarrow> read_item \<Rightarrow> string res" where
  "get_storage_path sd item = rbind (get_storage_info sd (mi_key (ri_storage_index item))) (\<lambda>si. Inr (si_path si))"

definition group_items_by_file :: "storage_data \<Rightarrow> read_item list \<Rightarrow> read_item list list res" where
  "group_items_by_file sd items =
     rbind (rmap (\<lambda>item. rbind (get_storage_path sd item) (\<lambda>p. Inr (p, item))) items) (\<lambda>tagged. Inr (map (\<lambda>(p, xs). map snd xs) (group_by fst tagged)))"

definition shards_of :: "read_item list \<Rightarrow> (index_key \<times> read_item list) list" where
  "shards_of items = group_by dest_key items"

definition shared_items :: "read_item list \<Rightarrow> (index_key \<times> read_item list) list" where
  "shared_items items = sort_key fst (filter (\<lambda>(k, its). ri_source (hd its) \<noteq> None) (shards_of items))"

definition private_items :: "read_item list \<Rightarrow> read_item list" where
  "private_items items = concat (map snd (filter (\<lambda>(k, its). ri_source (hd its) = None) (shards_of items)))"

definition send_shared :: "nat \<Rightarrow> (index_key \<Rightarrow> int) \<Rightarrow> (index_key \<Rightarrow> string) \<Rightarrow> int \<Rightarrow> index_key \<times> read_item list \<Rightarrow> sending \<Rightarrow> sending" where
  "send_shared rank nbytes dtype batch_bytes shard st =
     (case shard of (k, its) \<Rightarrow> case ri_source (hd its) of
        None \<Rightarrow> st
      | Some src \<Rightarrow>
          add_shard nbytes dtype batch_bytes k src
            (if src_rank src = rank then st\<lparr>sg_steps := sg_steps st @ [Read its]\<rparr> else st))"

definition execute_read :: "nat \<Rightarrow> storage_data \<Rightarrow> (index_key \<Rightarrow> int) \<Rightarrow> (index_key \<Rightarrow> string) \<Rightarrow> int \<Rightarrow> load_plan \<Rightarrow> load_step list res" where
  "execute_read rank sd nbytes dtype batch_bytes plan =
     rbind (group_items_by_file sd (private_items (lp_items plan))) (\<lambda>batches.
       let st = fold (send_shared rank nbytes dtype batch_bytes) (shared_items (lp_items plan))
                  \<lparr>sg_batches = [], sg_pending = [], sg_in_flight = [], sg_steps = []\<rparr>;
           st1 = flush_batches st;
           st2 = st1\<lparr>sg_steps := sg_steps st1 @ map Read batches\<rparr>
       in Inr (sg_steps (wait_broadcasts st2)))"

section \<open>Starts and waits\<close>

fun starts :: "load_step list \<Rightarrow> bcast list" where
  "starts [] = []"
| "starts (Start b # steps) = b # starts steps"
| "starts (_ # steps) = starts steps"

text \<open>The broadcasts in flight after some steps; none when a wait does not meet the oldest of them.\<close>

fun in_flight_after :: "bcast list \<Rightarrow> load_step list \<Rightarrow> bcast list option" where
  "in_flight_after fl [] = Some fl"
| "in_flight_after fl (Start b # steps) = in_flight_after (fl @ [b]) steps"
| "in_flight_after fl (Read its # steps) = in_flight_after fl steps"
| "in_flight_after fl (Await b # steps) =
     (case fl of [] \<Rightarrow> None | c # cs \<Rightarrow> if c = b then in_flight_after cs steps else None)"

lemma starts_append [simp]: "starts (xs @ ys) = starts xs @ starts ys"
  by (induction xs rule: starts.induct) simp_all

lemma starts_waits [simp]: "starts (map Await bs) = []"
  by (induction bs) simp_all

lemma starts_reads [simp]: "starts (map Read its) = []"
  by (induction its) simp_all

lemma in_flight_append: "in_flight_after fl (xs @ ys) = (case in_flight_after fl xs of None \<Rightarrow> None | Some fl' \<Rightarrow> in_flight_after fl' ys)"
  by (induction fl xs rule: in_flight_after.induct) (auto split: list.splits)

lemma in_flight_waits: "in_flight_after (bs @ cs) (map Await bs) = Some cs"
  by (induction bs) simp_all

lemma in_flight_reads: "in_flight_after fl (map Read its) = Some fl"
  by (induction its) simp_all

lemma make_room_takes: "\<exists>j. make_room fl steps = (drop j fl, steps @ map Await (take j fl))"
proof (induction fl arbitrary: steps)
  case (Cons b bs)
  show ?case
  proof (cases "8 \<le> length (b # bs)")
    case True
    obtain j where "make_room bs (steps @ [Await b]) = (drop j bs, (steps @ [Await b]) @ map Await (take j bs))" using Cons.IH by blast
    then show ?thesis using True by (intro exI [of _ "Suc j"]) simp
  next
    case False
    then show ?thesis by (intro exI [of _ 0]) simp
  qed
qed simp

definition fifo :: "sending \<Rightarrow> bool" where
  "fifo st \<longleftrightarrow> in_flight_after [] (sg_steps st) = Some (sg_in_flight st)"

lemma start_broadcast_simps [simp]:
  "sg_batches (start_broadcast b st) = sg_batches st" "sg_pending (start_broadcast b st) = sg_pending st"
  "starts (sg_steps (start_broadcast b st)) = starts (sg_steps st) @ [b]"
  using make_room_takes [of "sg_in_flight st" "sg_steps st"] by (auto simp: start_broadcast_def split: prod.splits)

lemma start_broadcast_fifo: "fifo st \<Longrightarrow> fifo (start_broadcast b st)"
proof -
  assume f: "fifo st"
  obtain j where "make_room (sg_in_flight st) (sg_steps st) = (drop j (sg_in_flight st), sg_steps st @ map Await (take j (sg_in_flight st)))"
    using make_room_takes by blast
  then show ?thesis using f in_flight_waits [of "take j (sg_in_flight st)" "drop j (sg_in_flight st)"]
    by (simp add: fifo_def start_broadcast_def in_flight_append)
qed

text \<open>What starting a broadcast adds: waits, then the start.\<close>

lemma start_broadcast_steps: "\<exists>bs. sg_steps (start_broadcast b st) = sg_steps st @ map Await bs @ [Start b]"
  using make_room_takes [of "sg_in_flight st" "sg_steps st"] by (auto simp: start_broadcast_def)

section \<open>Every rank sends its part of one global sequence\<close>

text \<open>
  The batches, the pending bytes and the starts of a rank are those of the run over all shards, restricted to the groups the
  rank is in.
\<close>

definition restricts :: "nat \<Rightarrow> sending \<Rightarrow> sending \<Rightarrow> bool" where
  "restricts r st l \<longleftrightarrow> sg_batches l = filter (\<lambda>x. r \<in> set (fst (fst x))) (sg_batches st) \<and>
     sg_pending l = filter (\<lambda>x. r \<in> set (fst (fst x))) (sg_pending st) \<and>
     starts (sg_steps l) = filter (\<lambda>b. r \<in> set (group_ranks (bc_source b))) (starts (sg_steps st))"

lemma filter_delete: "filter (P \<circ> fst) (AList.delete k d) = AList.delete k (filter (P \<circ> fst) d)"
  by (induction d) (auto simp: AList.delete_eq)

lemma filter_map_default:
  "filter (P \<circ> fst) (AList.map_default k v f d) =
     (if P k then AList.map_default k v f (filter (P \<circ> fst) d) else filter (P \<circ> fst) d)"
  by (induction d) (auto simp: comp_def)

lemma filter_update:
  "filter (P \<circ> fst) (AList.update k v d) = (if P k then AList.update k v (filter (P \<circ> fst) d) else filter (P \<circ> fst) d)"
  by (induction d) (auto simp: comp_def)

lemma map_of_filter: "P k \<Longrightarrow> map_of (filter (P \<circ> fst) d) k = map_of d k"
  by (induction d) auto

lemma delete_filtered: "\<not> P k \<Longrightarrow> AList.delete k (filter (P \<circ> fst) d) = filter (P \<circ> fst) d"
  by (induction d) (auto simp: AList.delete_eq)

lemma restricts_comp:
  "restricts r st l \<longleftrightarrow> sg_batches l = filter ((\<lambda>k. r \<in> set (fst k)) \<circ> fst) (sg_batches st) \<and>
     sg_pending l = filter ((\<lambda>k. r \<in> set (fst k)) \<circ> fst) (sg_pending st) \<and>
     starts (sg_steps l) = filter (\<lambda>b. r \<in> set (group_ranks (bc_source b))) (starts (sg_steps st))"
  by (simp add: restricts_def comp_def)

lemma restricts_lookup:
  assumes "restricts r st l" "r \<in> set (fst key)"
  shows "map_of (sg_batches l) key = map_of (sg_batches st) key" "pending_bytes key l = pending_bytes key st"
  using assms map_of_filter [where P = "\<lambda>k. r \<in> set (fst k)" and k = key and d = "sg_batches st"]
    map_of_filter [where P = "\<lambda>k. r \<in> set (fst k)" and k = key and d = "sg_pending st"]
  by (auto simp: restricts_comp pending_bytes_def)

lemma restricts_send:
  assumes "restricts r st l"
  shows "restricts r (send_batch key st) (if r \<in> set (fst key) then send_batch key l else l)"
proof (cases "r \<in> set (fst key)")
  case True
  then show ?thesis using assms restricts_lookup [OF assms True]
    by (auto simp: restricts_comp send_batch_def Let_def filter_delete split: option.splits)
next
  case False
  then show ?thesis using assms
    by (auto simp: restricts_comp send_batch_def Let_def filter_delete delete_filtered split: option.splits)
qed

lemma restricts_add:
  assumes "restricts r st l"
  shows "restricts r (add_shard nbytes dtype bb k src st) (if r \<in> set (group_ranks src) then add_shard nbytes dtype bb k src l else l)"
proof (cases "bb \<le> nbytes k")
  case True
  then show ?thesis using assms by (simp add: add_shard_def restricts_def)
next
  case small: False
  let ?key = "(group_ranks src, src_rank src, dtype k)"
  let ?pre = "\<lambda>s. if bb < pending_bytes ?key s + nbytes k then send_batch ?key s else s"
  let ?post = "\<lambda>s. s\<lparr>sg_batches := AList.map_default ?key [k] (\<lambda>bs. bs @ [k]) (sg_batches s),
               sg_pending := AList.update ?key (pending_bytes ?key s + nbytes k) (sg_pending s)\<rparr>"
  have add: "add_shard nbytes dtype bb k src s = ?post (?pre s)" for s using small by (simp add: add_shard_def Let_def)
  show ?thesis
  proof (cases "r \<in> set (group_ranks src)")
    case True
    have "restricts r (?pre st) (?pre l)"
      using restricts_send [OF assms, of ?key] restricts_lookup(2) [OF assms, of ?key] assms True by simp
    from restricts_lookup(2) [OF this, of ?key] this True
    show ?thesis unfolding add by (simp add: restricts_comp filter_map_default filter_update)
  next
    case False
    have "restricts r (?pre st) l" using restricts_send [OF assms, of ?key] assms False by simp
    then show ?thesis using False unfolding add by (simp add: restricts_comp filter_map_default filter_update)
  qed
qed

definition no_sends :: sending where
  "no_sends = \<lparr>sg_batches = [], sg_pending = [], sg_in_flight = [], sg_steps = []\<rparr>"

definition add_all :: "(index_key \<Rightarrow> int) \<Rightarrow> (index_key \<Rightarrow> string) \<Rightarrow> int \<Rightarrow> sources \<Rightarrow> sending \<Rightarrow> sending" where
  "add_all nbytes dtype bb xs = fold (\<lambda>x. add_shard nbytes dtype bb (fst x) (snd x)) xs"

definition all_sends :: "(index_key \<Rightarrow> int) \<Rightarrow> (index_key \<Rightarrow> string) \<Rightarrow> int \<Rightarrow> sources \<Rightarrow> bcast list" where
  "all_sends nbytes dtype bb sources = starts (sg_steps (flush_batches (add_all nbytes dtype bb (sort_key fst sources) no_sends)))"

lemma restricts_sends:
  "restricts r st l \<Longrightarrow> restricts r (fold send_batch keys st) (fold send_batch (filter (\<lambda>k. r \<in> set (fst k)) keys) l)"
proof (induction keys arbitrary: st l)
  case (Cons k keys)
  then show ?case using restricts_send [OF Cons.prems, of k] by (cases "r \<in> set (fst k)") simp_all
qed simp

lemma restricts_flush: "restricts r st l \<Longrightarrow> restricts r (flush_batches st) (flush_batches l)"
proof -
  assume res: "restricts r st l"
  have "map fst (sg_batches l) = filter (\<lambda>k. r \<in> set (fst k)) (map fst (sg_batches st))"
    using res by (simp add: restricts_def filter_map comp_def)
  then show ?thesis using restricts_sends [OF res, of "map fst (sg_batches st)"] by (simp add: flush_batches_def)
qed

lemma restricts_reads [simp]: "restricts r st (l\<lparr>sg_steps := sg_steps l @ map Read its\<rparr>) = restricts r st l"
  by (simp add: restricts_def)

lemma restricts_read [simp]: "restricts r st (l\<lparr>sg_steps := sg_steps l @ [Read its]\<rparr>) = restricts r st l"
  by (simp add: restricts_def)

lemma restricts_fold:
  assumes "map (\<lambda>(k, its). (k, ri_source (hd its))) ys = map (\<lambda>(k, src). (k, Some src)) (filter (\<lambda>x. r \<in> set (group_ranks (snd x))) xs)"
    and "restricts r st l"
  shows "restricts r (add_all nbytes dtype bb xs st) (fold (send_shared r nbytes dtype bb) ys l)"
  using assms
proof (induction xs arbitrary: ys st l)
  case Nil
  then show ?case by (simp add: add_all_def)
next
  case (Cons x xs)
  obtain k src where x: "x = (k, src)" by (cases x)
  have step: "add_all nbytes dtype bb (x # xs) st = add_all nbytes dtype bb xs (add_shard nbytes dtype bb k src st)"
    by (simp add: add_all_def x)
  show ?case
  proof (cases "r \<in> set (group_ranks src)")
    case True
    then obtain its ys' where ys: "ys = (k, its) # ys'" "ri_source (hd its) = Some src"
      "map (\<lambda>(k, its). (k, ri_source (hd its))) ys' = map (\<lambda>(k, src). (k, Some src)) (filter (\<lambda>x. r \<in> set (group_ranks (snd x))) xs)"
      using Cons.prems(1) x by (cases ys) auto
    let ?l = "if src_rank src = r then l\<lparr>sg_steps := sg_steps l @ [Read its]\<rparr> else l"
    have "restricts r st ?l" using Cons.prems(2) by simp
    from restricts_add [OF this, of nbytes dtype bb k src] True
    have "restricts r (add_shard nbytes dtype bb k src st) (send_shared r nbytes dtype bb (k, its) l)"
      using ys(2) by (simp add: send_shared_def)
    from Cons.IH [OF ys(3) this] show ?thesis unfolding step ys(1) by simp
  next
    case False
    have "map (\<lambda>(k, its). (k, ri_source (hd its))) ys = map (\<lambda>(k, src). (k, Some src)) (filter (\<lambda>x. r \<in> set (group_ranks (snd x))) xs)"
      using Cons.prems(1) False x by simp
    moreover have "restricts r (add_shard nbytes dtype bb k src st) l"
      using restricts_add [OF Cons.prems(2), of nbytes dtype bb k src] False by simp
    ultimately show ?thesis unfolding step by (rule Cons.IH)
  qed
qed

section \<open>What the global sequence contains\<close>

abbreviation key_source :: "batch_key \<Rightarrow> broadcast_source" where
  "key_source key \<equiv> \<lparr>group_ranks = fst key, src_rank = fst (snd key)\<rparr>"

definition carries :: "sources \<Rightarrow> index_key list \<Rightarrow> sending \<Rightarrow> bool" where
  "carries sources added st \<longleftrightarrow> distinct (map fst (sg_batches st)) \<and>
     mset (concat (map bc_shards (starts (sg_steps st)))) + mset (concat (map snd (sg_batches st))) = mset added \<and>
     (\<forall>x \<in> set (sg_batches st). snd x \<noteq> [] \<and> (\<forall>k \<in> set (snd x). map_of sources k = Some (key_source (fst x)))) \<and>
     (\<forall>b \<in> set (starts (sg_steps st)). bc_shards b \<noteq> [] \<and> (\<forall>k \<in> set (bc_shards b). map_of sources k = Some (bc_source b)))"

lemma delete_split:
  "distinct (map fst d) \<Longrightarrow> map_of d k = Some v \<Longrightarrow> mset (concat (map snd d)) = mset v + mset (concat (map snd (AList.delete k d)))"
proof (induction d)
  case (Cons x d)
  show ?case
  proof (cases "fst x = k")
    case True
    have "k \<notin> fst ` set d" using Cons.prems(1) True by auto
    then have "AList.delete k d = d" by (rule delete_id)
    then show ?thesis using Cons.prems True by simp
  next
    case False
    then show ?thesis using Cons by simp
  qed
qed simp

lemma carries_send: "carries sources added st \<Longrightarrow> carries sources added (send_batch key st)"
proof -
  assume inv: "carries sources added st"
  show ?thesis
  proof (cases "map_of (sg_batches st) key")
    case None
    have "AList.delete key (sg_batches st) = sg_batches st" using None by (simp add: map_of_eq_None_iff)
    then show ?thesis using inv None by (simp add: carries_def send_batch_def Let_def)
  next
    case (Some bs)
    have mem: "(key, bs) \<in> set (sg_batches st)" using map_of_SomeD [OF Some] .
    have bs: "bs \<noteq> []" "\<forall>k \<in> set bs. map_of sources k = Some (key_source key)" using inv mem by (auto simp: carries_def)
    have "mset (concat (map snd (sg_batches st))) = mset bs + mset (concat (map snd (AList.delete key (sg_batches st))))"
      by (rule delete_split [OF _ Some]) (use inv in \<open>simp add: carries_def\<close>)
    moreover have "set (AList.delete key (sg_batches st)) \<subseteq> set (sg_batches st)" by (auto simp: AList.delete_eq)
    ultimately show ?thesis using inv Some bs
      by (auto simp: carries_def send_batch_def Let_def distinct_delete ac_simps)
  qed
qed

lemma map_default_mset:
  assumes "distinct (map fst d)"
  shows "mset (concat (map snd (AList.map_default key [k] (\<lambda>bs. bs @ [k]) d))) = mset (concat (map snd d)) + {#k#}"
  using assms by (induction d) auto

lemma carries_add:
  assumes "carries sources added st" "map_of sources k = Some src"
  shows "carries sources (added @ [k]) (add_shard nbytes dtype bb k src st)"
proof (cases "bb \<le> nbytes k")
  case True
  then show ?thesis using assms by (simp add: carries_def add_shard_def)
next
  case False
  let ?key = "(group_ranks src, src_rank src, dtype k)"
  let ?st = "if bb < pending_bytes ?key st + nbytes k then send_batch ?key st else st"
  have inv: "carries sources added ?st" using assms(1) carries_send by simp
  let ?d = "AList.map_default ?key [k] (\<lambda>bs. bs @ [k]) (sg_batches ?st)"
  have src: "map_of sources k = Some (key_source ?key)" using assms(2) by simp
  have "snd x \<noteq> [] \<and> (\<forall>j \<in> set (snd x). map_of sources j = Some (key_source (fst x)))" if "x \<in> set ?d" for x
  proof -
    have dd: "distinct (map fst ?d)" using inv by (auto simp: carries_def map_default_keys)
    have look: "map_of ?d (fst x) = Some (snd x)" using map_of_is_SomeI [OF dd, of "fst x" "snd x"] that by simp
    have old: "v \<noteq> [] \<and> (\<forall>j \<in> set v. map_of sources j = Some (key_source (fst x)))" if "map_of (sg_batches ?st) (fst x) = Some v" for v
      using inv map_of_SomeD [OF that] unfolding carries_def by force
    show ?thesis
    proof (cases "fst x = ?key")
      case True
      show ?thesis
      proof (cases "map_of (sg_batches ?st) ?key")
        case None
        then have "snd x = [k]" using look True unfolding map_default_lookup by simp
        then show ?thesis using src True by simp
      next
        case (Some v)
        then have "snd x = v @ [k]" using look True unfolding map_default_lookup by simp
        then show ?thesis using src True old [of v] Some by simp
      qed
    next
      case False
      then have "map_of (sg_batches ?st) (fst x) = Some (snd x)" using look unfolding map_default_lookup by simp
      then show ?thesis by (rule old)
    qed
  qed
  moreover have "distinct (map fst ?d)" using inv by (auto simp: carries_def map_default_keys)
  moreover have "mset (concat (map snd ?d)) = mset (concat (map snd (sg_batches ?st))) + {#k#}"
    by (rule map_default_mset) (use inv in \<open>simp add: carries_def\<close>)
  ultimately show ?thesis using inv False unfolding carries_def add_shard_def by (simp add: Let_def)
qed

lemma carries_all:
  "carries sources added st \<Longrightarrow> \<forall>x \<in> set xs. map_of sources (fst x) = Some (snd x) \<Longrightarrow>
     carries sources (added @ map fst xs) (add_all nbytes dtype bb xs st)"
proof (induction xs arbitrary: added st)
  case (Cons x xs)
  then show ?case using Cons.IH [of "added @ [fst x]" "add_shard nbytes dtype bb (fst x) (snd x) st"] carries_add [of sources added st "fst x" "snd x"]
    by (simp add: add_all_def)
qed (simp add: add_all_def)

lemma send_batches_left: "map fst (sg_batches (fold send_batch keys st)) = filter (\<lambda>k. k \<notin> set keys) (map fst (sg_batches st))"
proof (induction keys arbitrary: st)
  case (Cons key keys)
  have "map fst (sg_batches (send_batch key st)) = filter (\<lambda>k. k \<noteq> key) (map fst (sg_batches st))"
    by (simp add: send_batch_def Let_def AList.delete_eq filter_map comp_def case_prod_unfold) (metis (mono_tags, lifting) filter_cong)
  then show ?case using Cons.IH [of "send_batch key st"] by (auto intro: filter_cong)
qed simp

lemma carries_flush:
  assumes "carries sources added st"
  shows "carries sources added (flush_batches st)" "sg_batches (flush_batches st) = []"
proof -
  have "carries sources added (fold send_batch keys st)" for keys
    using assms by (induction keys arbitrary: st) (simp_all add: carries_send)
  then show "carries sources added (flush_batches st)" by (simp add: flush_batches_def)
  have "map fst (sg_batches (flush_batches st)) = []" using send_batches_left by (auto simp: flush_batches_def)
  then show "sg_batches (flush_batches st) = []" by simp
qed

lemma distinct_parts: "distinct (concat xss) \<Longrightarrow> [] \<notin> set xss \<Longrightarrow> distinct xss"
proof (induction xss)
  case (Cons xs xss)
  have "\<exists>x. x \<in> set xs" using Cons.prems(2) by (cases xs) auto
  then have "xs \<notin> set xss" using Cons.prems(1) by (auto simp: disjoint_iff)
  then show ?case using Cons by simp
qed simp

lemma all_sends_spec:
  assumes "distinct (map fst sources)"
  shows "distinct (all_sends nbytes dtype bb sources)"
    "\<And>b k. b \<in> set (all_sends nbytes dtype bb sources) \<Longrightarrow> k \<in> set (bc_shards b) \<Longrightarrow> map_of sources k = Some (bc_source b)"
    "\<And>b. b \<in> set (all_sends nbytes dtype bb sources) \<Longrightarrow> bc_shards b \<noteq> []"
    "\<And>k src. map_of sources k = Some src \<Longrightarrow> \<exists>b \<in> set (all_sends nbytes dtype bb sources). bc_source b = src \<and> k \<in> set (bc_shards b)"
proof -
  let ?xs = "sort_key fst sources"
  have "carries sources [] no_sends" by (simp add: carries_def no_sends_def)
  moreover have "\<forall>x \<in> set ?xs. map_of sources (fst x) = Some (snd x)" using assms by simp
  ultimately have "carries sources (map fst ?xs) (add_all nbytes dtype bb ?xs no_sends)"
    using carries_all [of sources "[]" no_sends ?xs] by simp
  note fin = carries_flush [OF this]
  let ?B = "all_sends nbytes dtype bb sources"
  have parts: "mset (concat (map bc_shards ?B)) = mset (map fst ?xs)" "\<forall>b \<in> set ?B. bc_shards b \<noteq> []"
    "\<forall>b \<in> set ?B. \<forall>k \<in> set (bc_shards b). map_of sources k = Some (bc_source b)"
    using fin by (simp_all add: carries_def all_sends_def)
  have "mset (map fst ?xs) = mset (map fst sources)" by simp
  then have "distinct (map fst ?xs)" using assms mset_eq_imp_distinct_iff by blast
  then have "distinct (concat (map bc_shards ?B))" using parts(1) by (metis mset_eq_imp_distinct_iff)
  then have "distinct (map bc_shards ?B)" by (rule distinct_parts) (use parts(2) in auto)
  then show "distinct ?B" by (simp add: distinct_map)
  show "\<And>b k. b \<in> set ?B \<Longrightarrow> k \<in> set (bc_shards b) \<Longrightarrow> map_of sources k = Some (bc_source b)" using parts(3) by blast
  show "\<And>b. b \<in> set ?B \<Longrightarrow> bc_shards b \<noteq> []" using parts(2) by blast
  fix k src assume k: "map_of sources k = Some src"
  then have "k \<in> set (map fst ?xs)" using map_of_SomeD [OF k] by force
  then have "k \<in> set (concat (map bc_shards ?B))" using parts(1) by (metis set_mset_mset)
  then show "\<exists>b \<in> set ?B. bc_source b = src \<and> k \<in> set (bc_shards b)" using parts(3) k by auto
qed

section \<open>The steps of one rank\<close>

fun items_read :: "load_step list \<Rightarrow> read_item set" where
  "items_read [] = {}"
| "items_read (Read its # steps) = set its \<union> items_read steps"
| "items_read (_ # steps) = items_read steps"

lemma items_read_append [simp]: "items_read (xs @ ys) = items_read xs \<union> items_read ys"
  by (induction xs rule: items_read.induct) auto

lemma items_read_waits [simp]: "items_read (map Await bs) = {}"
  by (induction bs) simp_all

lemma items_read_reads [simp]: "items_read (map Read its) = \<Union> (set ` set its)"
  by (induction its) simp_all

text \<open>Before a rank starts a broadcast it is the source of, it has read everything the shards in it need.\<close>

fun sends_read :: "nat \<Rightarrow> (index_key \<Rightarrow> read_item set) \<Rightarrow> read_item set \<Rightarrow> load_step list \<Rightarrow> bool" where
  "sends_read r need have [] = True"
| "sends_read r need have (Read its # steps) = sends_read r need (have \<union> set its) steps"
| "sends_read r need have (Await b # steps) = sends_read r need have steps"
| "sends_read r need have (Start b # steps) =
     ((src_rank (bc_source b) = r \<longrightarrow> (\<forall>k \<in> set (bc_shards b). need k \<subseteq> have)) \<and> sends_read r need have steps)"

lemma sends_read_append: "sends_read r need H (xs @ ys) \<longleftrightarrow> sends_read r need H xs \<and> sends_read r need (H \<union> items_read xs) ys"
  by (induction r need H xs rule: sends_read.induct) (auto simp: Un_assoc)

lemma sends_read_waits [simp]: "sends_read r need H (map Await bs)"
  by (induction bs) simp_all

lemma sends_read_reads [simp]: "sends_read r need H (map Read its)"
  by (induction its arbitrary: H) simp_all

definition batches_ready :: "nat \<Rightarrow> (index_key \<Rightarrow> read_item set) \<Rightarrow> read_item set \<Rightarrow> (batch_key \<times> index_key list) list \<Rightarrow> bool" where
  "batches_ready r need have d \<longleftrightarrow> (\<forall>x \<in> set d. fst (snd (fst x)) = r \<longrightarrow> (\<forall>k \<in> set (snd x). need k \<subseteq> have))"

lemma batches_ready_add:
  "batches_ready r need H d \<Longrightarrow> (fst (snd key) = r \<Longrightarrow> need k \<subseteq> H) \<Longrightarrow> batches_ready r need H (AList.map_default key [k] (\<lambda>bs. bs @ [k]) d)"
  by (induction d) (simp_all add: batches_ready_def ball_Un)

lemma batches_ready_subset: "batches_ready r need H d \<Longrightarrow> set d' \<subseteq> set d \<Longrightarrow> batches_ready r need H d'"
  unfolding batches_ready_def by blast

lemma batches_ready_lookup: "batches_ready r need H d \<Longrightarrow> map_of d key = Some bs \<Longrightarrow> fst (snd key) = r \<Longrightarrow> \<forall>k \<in> set bs. need k \<subseteq> H"
  using map_of_SomeD [of d key bs] unfolding batches_ready_def by (metis fst_conv snd_conv)

definition prepared :: "nat \<Rightarrow> (index_key \<Rightarrow> read_item set) \<Rightarrow> sending \<Rightarrow> bool" where
  "prepared r need st \<longleftrightarrow> sends_read r need {} (sg_steps st) \<and> batches_ready r need (items_read (sg_steps st)) (sg_batches st)"

lemma start_items [simp]: "items_read (sg_steps (start_broadcast b st)) = items_read (sg_steps st)"
  using start_broadcast_steps [of b st] by auto

lemma prepared_start:
  assumes "prepared r need st" "src_rank (bc_source b) = r \<Longrightarrow> \<forall>k \<in> set (bc_shards b). need k \<subseteq> items_read (sg_steps st)"
  shows "prepared r need (start_broadcast b st)"
proof -
  obtain bs where "sg_steps (start_broadcast b st) = sg_steps st @ map Await bs @ [Start b]" using start_broadcast_steps by blast
  then show ?thesis using assms by (auto simp: prepared_def sends_read_append)
qed

lemma send_items [simp]: "items_read (sg_steps (send_batch key st)) = items_read (sg_steps st)"
  by (simp add: send_batch_def Let_def)

lemma prepared_send: "prepared r need st \<Longrightarrow> prepared r need (send_batch key st)"
proof -
  assume prep: "prepared r need st"
  let ?st = "st\<lparr>sg_batches := AList.delete key (sg_batches st), sg_pending := AList.delete key (sg_pending st)\<rparr>"
  have "set (AList.delete key (sg_batches st)) \<subseteq> set (sg_batches st)" by (auto simp: AList.delete_eq)
  then have st: "prepared r need ?st" using prep batches_ready_subset by (auto simp: prepared_def)
  have ready: "\<forall>k \<in> set bs. need k \<subseteq> items_read (sg_steps ?st)" if "map_of (sg_batches st) key = Some bs" "fst (snd key) = r" for bs
    using batches_ready_lookup [OF _ that] prep by (simp add: prepared_def)
  show ?thesis
  proof (cases "map_of (sg_batches st) key")
    case None
    then show ?thesis using st by (simp add: send_batch_def Let_def)
  next
    case (Some bs)
    have "prepared r need (start_broadcast \<lparr>bc_source = key_source key, bc_shards = bs\<rparr> ?st)"
      using prepared_start [OF st, of "\<lparr>bc_source = key_source key, bc_shards = bs\<rparr>"] ready [OF Some] by simp
    then show ?thesis using st Some by (simp add: send_batch_def Let_def)
  qed
qed

lemma prepared_add:
  assumes "prepared r need st" "src_rank src = r \<Longrightarrow> need k \<subseteq> items_read (sg_steps st)"
  shows "prepared r need (add_shard nbytes dtype bb k src st)"
    "items_read (sg_steps (add_shard nbytes dtype bb k src st)) = items_read (sg_steps st)"
proof -
  let ?key = "(group_ranks src, src_rank src, dtype k)"
  let ?st = "if bb < pending_bytes ?key st + nbytes k then send_batch ?key st else st"
  have st: "prepared r need ?st" "items_read (sg_steps ?st) = items_read (sg_steps st)" using assms(1) prepared_send by simp_all
  show "items_read (sg_steps (add_shard nbytes dtype bb k src st)) = items_read (sg_steps st)"
    by (simp add: add_shard_def Let_def)
  show "prepared r need (add_shard nbytes dtype bb k src st)"
  proof (cases "bb \<le> nbytes k")
    case True
    have "prepared r need (start_broadcast \<lparr>bc_source = src, bc_shards = [k]\<rparr> st)" using assms by (intro prepared_start) simp_all
    then show ?thesis using True by (simp add: add_shard_def)
  next
    case False
    have "batches_ready r need (items_read (sg_steps ?st)) (sg_batches ?st)" using st(1) unfolding prepared_def by blast
    then have "batches_ready r need (items_read (sg_steps ?st)) (AList.map_default ?key [k] (\<lambda>bs. bs @ [k]) (sg_batches ?st))"
      by (rule batches_ready_add) (use st(2) assms(2) in simp)
    moreover have "sends_read r need {} (sg_steps ?st)" using st(1) unfolding prepared_def by blast
    ultimately have "prepared r need (?st\<lparr>sg_batches := AList.map_default ?key [k] (\<lambda>bs. bs @ [k]) (sg_batches ?st), sg_pending := q\<rparr>)" for q
      unfolding prepared_def by simp
    then show ?thesis using False by (simp only: add_shard_def Let_def if_False)
  qed
qed

definition own_reads :: "nat \<Rightarrow> (index_key \<times> read_item list) list \<Rightarrow> read_item set" where
  "own_reads r ys = \<Union> (set ` snd ` set (filter (\<lambda>y. map_option src_rank (ri_source (hd (snd y))) = Some r) ys))"

lemma prepared_shared:
  assumes "prepared r need st" "\<forall>y \<in> set ys. need (fst y) = set (snd y)"
  shows "prepared r need (fold (send_shared r nbytes dtype bb) ys st) \<and>
    items_read (sg_steps (fold (send_shared r nbytes dtype bb) ys st)) = items_read (sg_steps st) \<union> own_reads r ys"
  using assms
proof (induction ys arbitrary: st)
  case Nil
  then show ?case by (simp add: own_reads_def)
next
  case (Cons y ys)
  obtain k its where y: "y = (k, its)" by (cases y)
  have need: "need k = set its" "\<forall>y \<in> set ys. need (fst y) = set (snd y)" using Cons.prems(2) y by auto
  show ?case
  proof (cases "ri_source (hd its)")
    case None
    then have "send_shared r nbytes dtype bb y st = st" "own_reads r (y # ys) = own_reads r ys" by (simp_all add: send_shared_def own_reads_def y)
    then show ?thesis using Cons.IH [OF Cons.prems(1) need(2)] by simp
  next
    case (Some src)
    let ?st = "if src_rank src = r then st\<lparr>sg_steps := sg_steps st @ [Read its]\<rparr> else st"
    have ready: "batches_ready r need (H \<union> K) d" if "batches_ready r need H d" for H K d using that unfolding batches_ready_def by blast
    have prep: "prepared r need ?st" using Cons.prems(1) ready by (auto simp: prepared_def sends_read_append)
    have step: "send_shared r nbytes dtype bb y st = add_shard nbytes dtype bb k src ?st" by (simp add: send_shared_def y Some)
    have "src_rank src = r \<Longrightarrow> need k \<subseteq> items_read (sg_steps ?st)" using need by simp
    then have add: "prepared r need (add_shard nbytes dtype bb k src ?st)"
        "items_read (sg_steps (add_shard nbytes dtype bb k src ?st)) = items_read (sg_steps ?st)"
      using prepared_add [where r = r and need = need and st = ?st and src = src and k = k and nbytes = nbytes and dtype = dtype and bb = bb] prep
      by blast+
    have "items_read (sg_steps ?st) \<union> own_reads r ys = items_read (sg_steps st) \<union> own_reads r (y # ys)"
      by (auto simp: own_reads_def y Some)
    then show ?thesis using Cons.IH [OF add(1) need(2)] unfolding add(2) by (simp only: fold_simps step)
  qed
qed

lemma prepared_flush:
  assumes "prepared r need st"
  shows "prepared r need (flush_batches st)" "items_read (sg_steps (flush_batches st)) = items_read (sg_steps st)"
proof -
  have "prepared r need (fold send_batch keys st) \<and> items_read (sg_steps (fold send_batch keys st)) = items_read (sg_steps st)" for keys
    using assms by (induction keys arbitrary: st) (simp_all add: prepared_send)
  then show "prepared r need (flush_batches st)" "items_read (sg_steps (flush_batches st)) = items_read (sg_steps st)"
    by (simp_all add: flush_batches_def)
qed

lemma fifo_send: "fifo st \<Longrightarrow> fifo (send_batch key st)"
proof -
  assume f: "fifo st"
  then have "fifo (st\<lparr>sg_batches := AList.delete key (sg_batches st), sg_pending := AList.delete key (sg_pending st)\<rparr>)" by (simp add: fifo_def)
  then show ?thesis by (auto simp: send_batch_def Let_def intro: start_broadcast_fifo)
qed

lemma fifo_add: "fifo st \<Longrightarrow> fifo (add_shard nbytes dtype bb k src st)"
proof -
  assume f: "fifo st"
  have "fifo (st'\<lparr>sg_batches := x, sg_pending := y\<rparr>) = fifo st'" for st' x y by (simp add: fifo_def)
  then show ?thesis using f fifo_send start_broadcast_fifo by (simp add: add_shard_def Let_def)
qed

lemma fifo_shared: "fifo st \<Longrightarrow> fifo (fold (send_shared r nbytes dtype bb) ys st)"
proof (induction ys arbitrary: st)
  case (Cons y ys)
  have "fifo (st\<lparr>sg_steps := sg_steps st @ [Read its]\<rparr>)" for its using Cons.prems by (simp add: fifo_def in_flight_append)
  then have "fifo (send_shared r nbytes dtype bb y st)"
    using Cons.prems by (cases y) (simp add: send_shared_def fifo_add split: option.split)
  then show ?case using Cons.IH by simp
qed simp

lemma fifo_flush: "fifo st \<Longrightarrow> fifo (flush_batches st)"
proof -
  assume "fifo st"
  then have "fifo (fold send_batch keys st)" for keys by (induction keys arbitrary: st) (simp_all add: fifo_send)
  then show ?thesis by (simp add: flush_batches_def)
qed

section \<open>The program as a whole\<close>

lemma shards_of_entry: "(k, its) \<in> set (shards_of items) \<longleftrightarrow> its = filter (\<lambda>it. dest_key it = k) items \<and> its \<noteq> []"
  unfolding shards_of_def by (rule group_iff)

lemma shared_items_entry:
  "y \<in> set (shared_items items) \<longleftrightarrow> snd y = filter (\<lambda>it. dest_key it = fst y) items \<and> snd y \<noteq> [] \<and> ri_source (hd (snd y)) \<noteq> None"
  using shards_of_entry [of "fst y" "snd y" items] by (auto simp: shared_items_def)

lemma private_items_mem:
  "it \<in> set (private_items items) \<longleftrightarrow> it \<in> set items \<and> ri_source (hd (filter (\<lambda>x. dest_key x = dest_key it) items)) = None"
proof -
  have "it \<in> set (private_items items) \<longleftrightarrow> (\<exists>k its. (k, its) \<in> set (shards_of items) \<and> ri_source (hd its) = None \<and> it \<in> set its)"
    by (force simp: private_items_def)
  also have "\<dots> \<longleftrightarrow> it \<in> set items \<and> ri_source (hd (filter (\<lambda>x. dest_key x = dest_key it) items)) = None"
    unfolding shards_of_entry
  proof
    assume it: "it \<in> set items \<and> ri_source (hd (filter (\<lambda>x. dest_key x = dest_key it) items)) = None"
    then show "\<exists>k its. (its = filter (\<lambda>it. dest_key it = k) items \<and> its \<noteq> []) \<and> ri_source (hd its) = None \<and> it \<in> set its"
      by (intro exI [of _ "dest_key it"] exI [of _ "filter (\<lambda>x. dest_key x = dest_key it) items"]) (auto simp: filter_empty_conv)
  qed auto
  finally show ?thesis .
qed

lemma group_items_set:
  assumes "group_items_by_file sd items = Inr groups"
  shows "\<Union> (set ` set groups) = set items"
proof -
  obtain tagged where tagged: "rmap (\<lambda>item. rbind (get_storage_path sd item) (\<lambda>p. Inr (p, item))) items = Inr tagged"
    "groups = map (\<lambda>(p, xs). map snd xs) (group_by fst tagged)" using assms by (auto simp: group_items_by_file_def)
  have "map snd tagged = items"
    using tagged(1) by (auto simp: rmap_Inr_iff list_all2_conv_all_nth intro!: nth_equalityI) (metis snd_conv)
  then have items: "set items = snd ` set tagged" by (metis list.set_map)
  have ent: "(k, xs) \<in> set (group_by fst tagged) \<longleftrightarrow> xs = filter (\<lambda>x. fst x = k) tagged \<and> xs \<noteq> []" for k xs
    by (rule group_iff)
  show ?thesis
  proof (intro subset_antisym subsetI)
    fix it assume "it \<in> \<Union> (set ` set groups)"
    then obtain k xs where "(k, xs) \<in> set (group_by fst tagged)" "it \<in> snd ` set xs" using tagged(2) by auto
    then show "it \<in> set items" unfolding items ent by auto
  next
    fix it assume "it \<in> set items"
    then obtain p where "(p, it) \<in> set tagged" unfolding items by auto
    then have mem: "(p, it) \<in> set (filter (\<lambda>x. fst x = p) tagged)" by simp
    then have "filter (\<lambda>x. fst x = p) tagged \<noteq> []" by (metis list.set_cases list.distinct(1))
    then have "map snd (filter (\<lambda>x. fst x = p) tagged) \<in> set groups"
      unfolding tagged(2) by (simp add: image_iff Bex_def) (metis ent)
    moreover have "it \<in> set (map snd (filter (\<lambda>x. fst x = p) tagged))" using mem by force
    ultimately show "it \<in> \<Union> (set ` set groups)" by blast
  qed
qed

definition shard_items :: "read_item list \<Rightarrow> index_key \<Rightarrow> read_item set" where
  "shard_items items k = {it \<in> set items. dest_key it = k}"

lemma execute_read_run:
  assumes "execute_read r sd nbytes dtype bb plan = Inr prog"
  shows "in_flight_after [] prog = Some []" "sends_read r (shard_items (lp_items plan)) {} prog"
    "items_read prog = own_reads r (shared_items (lp_items plan)) \<union> set (private_items (lp_items plan))"
    "map (\<lambda>(k, its). (k, ri_source (hd its))) (shared_items (lp_items plan)) =
        map (\<lambda>(k, src). (k, Some src)) (filter (\<lambda>x. r \<in> set (group_ranks (snd x))) (sort_key fst sources)) \<Longrightarrow>
      starts prog = filter (\<lambda>b. r \<in> set (group_ranks (bc_source b))) (all_sends nbytes dtype bb sources)"
proof -
  let ?ys = "shared_items (lp_items plan)"
  obtain batches where batches: "group_items_by_file sd (private_items (lp_items plan)) = Inr batches"
    and prog: "prog = sg_steps (wait_broadcasts ((flush_batches (fold (send_shared r nbytes dtype bb) ?ys no_sends))
      \<lparr>sg_steps := sg_steps (flush_batches (fold (send_shared r nbytes dtype bb) ?ys no_sends)) @ map Read batches\<rparr>))"
    using assms by (auto simp: execute_read_def Let_def no_sends_def)
  define st where "st = flush_batches (fold (send_shared r nbytes dtype bb) ?ys no_sends)"
  have steps: "prog = sg_steps st @ map Read batches @ map Await (sg_in_flight st)"
    by (simp add: prog st_def wait_broadcasts_def)
  have "fifo no_sends" by (simp add: fifo_def no_sends_def)
  then have "fifo st" unfolding st_def by (intro fifo_flush fifo_shared)
  then show "in_flight_after [] prog = Some []"
    using in_flight_waits [of "sg_in_flight st" "[]"] by (simp add: steps in_flight_append in_flight_reads fifo_def)
  have need: "\<forall>y \<in> set ?ys. shard_items (lp_items plan) (fst y) = set (snd y)"
    by (auto simp: shard_items_def dest: iffD1 [OF shared_items_entry])
  have "prepared r (shard_items (lp_items plan)) no_sends" by (simp add: prepared_def no_sends_def batches_ready_def)
  note prep = prepared_shared [OF this need, of nbytes dtype bb]
  note fl = prepared_flush [OF conjunct1 [OF prep]]
  show "sends_read r (shard_items (lp_items plan)) {} prog"
    using fl(1) unfolding st_def [symmetric] prepared_def steps by (simp add: sends_read_append)
  have "items_read (sg_steps st) = own_reads r ?ys" using fl(2) prep by (simp add: st_def no_sends_def)
  then show "items_read prog = own_reads r ?ys \<union> set (private_items (lp_items plan))"
    using group_items_set [OF batches] by (simp add: steps)
  assume match: "map (\<lambda>(k, its). (k, ri_source (hd its))) ?ys =
        map (\<lambda>(k, src). (k, Some src)) (filter (\<lambda>x. r \<in> set (group_ranks (snd x))) (sort_key fst sources))"
  have "restricts r no_sends no_sends" by (simp add: restricts_def no_sends_def)
  from restricts_flush [OF restricts_fold [OF match this, of nbytes dtype bb]]
  show "starts prog = filter (\<lambda>b. r \<in> set (group_ranks (bc_source b))) (all_sends nbytes dtype bb sources)"
    unfolding st_def [symmetric] all_sends_def restricts_def steps by simp
qed

end
