(* ===== verification/CkptLoadRun.thy ===== *)
theory CkptLoadRun
  imports CkptBroadcast
begin

text \<open>
  All ranks of a load together.  A read changes the buffers of its rank, a start makes the buffers of the sender
  available, a wait ends when all ranks of the group have started and then fills the buffers of a receiver.  The load
  never stops before its end, and at its end every rank holds the elements of its shards.
\<close>

section \<open>The programs follow one sequence of broadcasts\<close>

text \<open>What \<open>build_local_plan\<close> gives: items without a source, whose type is that of the entry in the metadata.\<close>

definition typed_plan :: "ckpt_metadata \<Rightarrow> load_plan \<Rightarrow> bool" where
  "typed_plan md plan \<longleftrightarrow> (\<forall>it \<in> set (lp_items plan). ri_source it = None \<and>
     (case map_of (md_state_dict md) (mi_fqn (ri_dest_index it)) of
        None \<Rightarrow> False | Some (TensorStorage _) \<Rightarrow> ri_type it = Tensor | Some BytesStorage \<Rightarrow> ri_type it = ByteIO))"

definition marked :: "sources \<Rightarrow> load_plan \<Rightarrow> load_plan" where
  "marked sources plan = plan\<lparr>lp_items := map (mark_item sources) (lp_items plan)\<rparr>"

lemma mark_item_simps [simp]:
  "dest_key (mark_item sources it) = dest_key it" "ri_type (mark_item sources it) = ri_type it"
  "ri_dest_index (mark_item sources it) = ri_dest_index it"
  by (simp_all add: mark_item_def split: option.split)

lemma typed_tensor:
  assumes "\<forall>plan \<in> set plans. typed_plan md plan" "r < length plans" "it \<in> set (lp_items (plans ! r))" "load_holders plans (dest_key it) \<noteq> {}"
  shows "ri_type it = Tensor \<and> r \<in> load_holders plans (dest_key it)"
proof -
  obtain q it' where it': "q < length plans" "it' \<in> set (lp_items (plans ! q))" "ri_type it' = Tensor" "dest_key it' = dest_key it"
    using assms(4) by (auto simp: load_holders_def)
  have fqn: "mi_fqn (ri_dest_index it') = mi_fqn (ri_dest_index it)" using it'(4) by (simp add: mi_key_def)
  have "typed_plan md (plans ! q)" "typed_plan md (plans ! r)" using assms(1,2) it'(1) by simp_all
  then have "ri_type it = Tensor"
    using it'(2,3) assms(3) fqn unfolding typed_plan_def by (fastforce split: option.splits storage_metadata.splits)
  then show ?thesis using assms(2,3) by (auto simp: load_holders_def)
qed

lemma shared_match:
  assumes sources: "load_sources md plans = Inr sources" and typed: "\<forall>plan \<in> set plans. typed_plan md plan" and r: "r < length plans"
  shows "map (\<lambda>(k, its). (k, ri_source (hd its))) (shared_items (lp_items (marked sources (plans ! r)))) =
    map (\<lambda>(k, src). (k, Some src)) (filter (\<lambda>x. r \<in> set (group_ranks (snd x))) (sort_key fst sources))"
proof -
  let ?items = "lp_items (marked sources (plans ! r))"
  let ?ys = "shared_items ?items" and ?xs = "filter (\<lambda>x. r \<in> set (group_ranks (snd x))) (sort_key fst sources)"
  have raw: "\<forall>it \<in> set (lp_items (plans ! r)). ri_source it = None" using typed r by (auto simp: typed_plan_def)
  then have src: "ri_source it = map_of sources (dest_key it)" if "it \<in> set ?items" for it
    using that by (auto simp: marked_def mark_item_def split: option.splits)
  have head: "ri_source (hd (snd y)) = map_of sources (fst y)" if "snd y = filter (\<lambda>it. dest_key it = fst y) ?items" "snd y \<noteq> []" for y
    using src [of "hd (snd y)"] hd_in_set [OF that(2)] that(1) by auto
  have dist: "distinct (map fst sources)" by (rule sources_distinct [OF sources])
  have "mset (map fst (sort_key fst sources)) = mset (map fst sources)" by simp
  then have dist': "distinct (map fst (sort_key fst sources))" using dist mset_eq_imp_distinct_iff by blast
  have ys: "map (\<lambda>(k, its). (k, ri_source (hd its))) ?ys = map (\<lambda>k. (k, map_of sources k)) (map fst ?ys)"
    using head by (auto simp: shared_items_entry)
  have xs: "map (\<lambda>(k, src). (k, Some src)) ?xs = map (\<lambda>k. (k, map_of sources k)) (map fst ?xs)"
    using dist by auto
  have "map fst ?ys = map fst ?xs"
  proof (rule sorted_distinct_set_unique)
    show "sorted (map fst ?ys)" by (simp add: shared_items_def)
    have "mset (map fst ?ys) = mset (map fst (filter (\<lambda>(k, its). ri_source (hd its) \<noteq> None) (shards_of ?items)))" by (simp add: shared_items_def)
    moreover have "distinct (map fst (filter (\<lambda>(k, its). ri_source (hd its) \<noteq> None) (shards_of ?items)))"
      unfolding shards_of_def by (rule distinct_map_filter) (rule group_distinct)
    ultimately show "distinct (map fst ?ys)" using mset_eq_imp_distinct_iff by blast
    show "sorted (map fst ?xs)" by (rule sorted_filter) simp
    show "distinct (map fst ?xs)" using dist' by (rule distinct_map_filter)
    show "set (map fst ?ys) = set (map fst ?xs)"
    proof (intro subset_antisym subsetI)
      fix k assume "k \<in> set (map fst ?ys)"
      then obtain y where y: "k = fst y" "snd y = filter (\<lambda>it. dest_key it = fst y) ?items" "snd y \<noteq> []" "ri_source (hd (snd y)) \<noteq> None"
        by (auto simp: shared_items_entry)
      obtain src where src: "map_of sources k = Some src" using head [OF y(2,3)] y(1,4) by auto
      have "hd (snd y) \<in> set ?items" "dest_key (hd (snd y)) = k" using hd_in_set [OF y(3)] y(1,2) by auto
      then obtain it where it: "it \<in> set (lp_items (plans ! r))" "dest_key it = k" by (auto simp: marked_def)
      have good: "good_source plans k src" by (rule sources_spec(1) [OF sources src])
      then have "r \<in> set (group_ranks src)" using typed_tensor [OF typed r it(1)] it(2) by (auto simp: good_source_def)
      then show "k \<in> set (map fst ?xs)" using map_of_SomeD [OF src] by force
    next
      fix k assume "k \<in> set (map fst ?xs)"
      then obtain src where src: "(k, src) \<in> set sources" "r \<in> set (group_ranks src)" by auto
      then have m: "map_of sources k = Some src" using dist by simp
      then have "r \<in> load_holders plans k" using sources_spec(1) [OF sources] src(2) by (simp add: good_source_def)
      then obtain it where it: "it \<in> set (lp_items (plans ! r))" "dest_key it = k" by (auto simp: load_holders_def)
      let ?its = "filter (\<lambda>it. dest_key it = k) ?items"
      have "mark_item sources it \<in> set ?its" using it by (simp add: marked_def)
      then have ne: "?its \<noteq> []" by (metis list.set_cases list.distinct(1))
      then have "(k, ?its) \<in> set ?ys" using head [of "(k, ?its)"] m by (simp add: shared_items_entry)
      then show "k \<in> set (map fst ?ys)" by force
    qed
  qed
  then show ?thesis unfolding ys xs by simp
qed

section \<open>All ranks at work\<close>

text \<open>The buffers of the shards and the unpacked objects of a rank's state dict.\<close>

record 'v rank_store =
  rk_bufs :: "index_key \<Rightarrow> 'v nd"
  rk_objs :: "string \<Rightarrow> nat list option"

definition apply_fetched :: "(index_key \<Rightarrow> 'v nd option) \<Rightarrow> (index_key \<Rightarrow> nat list option) \<Rightarrow> read_item \<Rightarrow> 'v rank_store \<Rightarrow> 'v rank_store res" where
  "apply_fetched fetch fetch_obj item s =
     (case ri_type item of
        ByteIO \<Rightarrow> (case fetch_obj (mi_key (ri_storage_index item)) of
            None \<Rightarrow> Inl KeyError
          | Some payload \<Rightarrow> Inr (s\<lparr>rk_objs := (rk_objs s)(mi_fqn (ri_dest_index item) := Some payload)\<rparr>))
      | Tensor \<Rightarrow> rbind (apply_read fetch item (rk_bufs s)) (\<lambda>bufs. Inr (s\<lparr>rk_bufs := bufs\<rparr>)))"

definition read_batch :: "(index_key \<Rightarrow> 'v nd option) \<Rightarrow> (index_key \<Rightarrow> nat list option) \<Rightarrow> storage_data \<Rightarrow> read_item list \<Rightarrow> 'v rank_store \<Rightarrow> 'v rank_store res" where
  "read_batch fetch fetch_obj sd items s =
     rbind (group_items_by_file sd items) (\<lambda>groups. rfold (apply_fetched fetch fetch_obj) (concat groups) s)"

definition receive :: "bcast \<Rightarrow> (index_key \<Rightarrow> 'v nd) \<Rightarrow> 'v rank_store \<Rightarrow> 'v rank_store" where
  "receive b payload s = s\<lparr>rk_bufs := \<lambda>k. if k \<in> set (bc_shards b) then payload k else rk_bufs s k\<rparr>"

record 'v cluster =
  cl_left :: "load_step list list"
  cl_ranks :: "'v rank_store list"
  cl_started :: "(nat \<times> bcast) set"
  cl_payload :: "bcast \<Rightarrow> index_key \<Rightarrow> 'v nd"

inductive load_exec :: "(index_key \<Rightarrow> 'v nd option) \<Rightarrow> (index_key \<Rightarrow> nat list option) \<Rightarrow> storage_data \<Rightarrow> 'v cluster \<Rightarrow> 'v cluster \<Rightarrow> bool"
  for fetch fetch_obj sd where
  read: "r < length (cl_left c) \<Longrightarrow> cl_left c ! r = Read its # rest \<Longrightarrow> read_batch fetch fetch_obj sd its (cl_ranks c ! r) = Inr s \<Longrightarrow>
    load_exec fetch fetch_obj sd c (c\<lparr>cl_left := (cl_left c)[r := rest], cl_ranks := (cl_ranks c)[r := s]\<rparr>)"
| start: "r < length (cl_left c) \<Longrightarrow> cl_left c ! r = Start b # rest \<Longrightarrow>
    load_exec fetch fetch_obj sd c (c\<lparr>cl_left := (cl_left c)[r := rest], cl_started := insert (r, b) (cl_started c),
      cl_payload := (if src_rank (bc_source b) = r then (cl_payload c)(b := rk_bufs (cl_ranks c ! r)) else cl_payload c)\<rparr>)"
| await: "r < length (cl_left c) \<Longrightarrow> cl_left c ! r = Await b # rest \<Longrightarrow> \<forall>q \<in> set (group_ranks (bc_source b)). (q, b) \<in> cl_started c \<Longrightarrow>
    load_exec fetch fetch_obj sd c (c\<lparr>cl_left := (cl_left c)[r := rest],
      cl_ranks := (if src_rank (bc_source b) = r then cl_ranks c else (cl_ranks c)[r := receive b (cl_payload c b) (cl_ranks c ! r)])\<rparr>)"

inductive load_reaches :: "(index_key \<Rightarrow> 'v nd option) \<Rightarrow> (index_key \<Rightarrow> nat list option) \<Rightarrow> storage_data \<Rightarrow> 'v cluster \<Rightarrow> 'v cluster \<Rightarrow> bool"
  for fetch fetch_obj sd c0 where
  at_once: "load_reaches fetch fetch_obj sd c0 c0"
| step: "load_reaches fetch fetch_obj sd c0 c \<Longrightarrow> load_exec fetch fetch_obj sd c c' \<Longrightarrow> load_reaches fetch fetch_obj sd c0 c'"

definition load_finished :: "'v cluster \<Rightarrow> bool" where
  "load_finished c \<longleftrightarrow> (\<forall>steps \<in> set (cl_left c). steps = [])"

section \<open>Right elements\<close>

definition item_covers :: "read_item \<Rightarrow> int list \<Rightarrow> bool" where
  "item_covers it idx \<longleftrightarrow> inside (map2 (\<lambda>off n. (off, off + n)) (ri_dest_offsets it) (ri_lengths it)) idx"

text \<open>A read that puts the elements \<open>G\<close> into the region it covers, and changes nothing else.\<close>

definition reads_right :: "(index_key \<Rightarrow> 'v nd option) \<Rightarrow> (index_key \<Rightarrow> int list) \<Rightarrow> (index_key \<Rightarrow> int list \<Rightarrow> 'v) \<Rightarrow> read_item \<Rightarrow> bool" where
  "reads_right fetch shape G it \<longleftrightarrow> (\<forall>bufs. nd_shape (bufs (dest_key it)) = shape (dest_key it) \<longrightarrow>
     (\<exists>b. apply_read fetch it bufs = Inr (bufs(dest_key it := b)) \<and> nd_shape b = shape (dest_key it) \<and>
        (\<forall>idx. in_box (shape (dest_key it)) idx \<longrightarrow>
           nd_at b idx = (if item_covers it idx then G (dest_key it) idx else nd_at (bufs (dest_key it)) idx))))"

definition item_ready :: "(index_key \<Rightarrow> 'v nd option) \<Rightarrow> (index_key \<Rightarrow> nat list option) \<Rightarrow> storage_data \<Rightarrow> (index_key \<Rightarrow> int list) \<Rightarrow>
    (index_key \<Rightarrow> int list \<Rightarrow> 'v) \<Rightarrow> read_item \<Rightarrow> bool" where
  "item_ready fetch fetch_obj sd shape G it \<longleftrightarrow> (\<exists>p. get_storage_path sd it = Inr p) \<and>
     (case ri_type it of Tensor \<Rightarrow> reads_right fetch shape G it | ByteIO \<Rightarrow> fetch_obj (mi_key (ri_storage_index it)) \<noteq> None)"

definition right_at :: "(index_key \<Rightarrow> int list \<Rightarrow> 'v) \<Rightarrow> index_key \<Rightarrow> int list \<Rightarrow> 'v rank_store \<Rightarrow> bool" where
  "right_at G k idx s \<longleftrightarrow> nd_at (rk_bufs s k) idx = G k idx"

definition right_shapes :: "(index_key \<Rightarrow> int list) \<Rightarrow> 'v rank_store \<Rightarrow> bool" where
  "right_shapes shape s \<longleftrightarrow> (\<forall>k. nd_shape (rk_bufs s k) = shape k)"

lemma apply_fetched_right:
  assumes "item_ready fetch fetch_obj sd shape G it" "right_shapes shape s"
  shows "\<exists>s'. apply_fetched fetch fetch_obj it s = Inr s' \<and> right_shapes shape s' \<and>
    (\<forall>k idx. in_box (shape k) idx \<longrightarrow> right_at G k idx s \<or> ri_type it = Tensor \<and> dest_key it = k \<and> item_covers it idx \<longrightarrow> right_at G k idx s')"
proof (cases "ri_type it")
  case Tensor
  then have "reads_right fetch shape G it" using assms(1) by (simp add: item_ready_def)
  then obtain b where b: "apply_read fetch it (rk_bufs s) = Inr ((rk_bufs s)(dest_key it := b))" "nd_shape b = shape (dest_key it)"
      "\<forall>idx. in_box (shape (dest_key it)) idx \<longrightarrow>
         nd_at b idx = (if item_covers it idx then G (dest_key it) idx else nd_at (rk_bufs s (dest_key it)) idx)"
    using assms(2) unfolding reads_right_def right_shapes_def by meson
  let ?s = "s\<lparr>rk_bufs := (rk_bufs s)(dest_key it := b)\<rparr>"
  have "right_at G k idx ?s" if "in_box (shape k) idx" "right_at G k idx s \<or> ri_type it = Tensor \<and> dest_key it = k \<and> item_covers it idx" for k idx
    using b(3) that by (cases "k = dest_key it") (auto simp: right_at_def)
  moreover have "right_shapes shape ?s" using assms(2) b(2) by (simp add: right_shapes_def)
  moreover have "apply_fetched fetch fetch_obj it s = Inr ?s" using b(1) Tensor by (simp add: apply_fetched_def)
  ultimately show ?thesis by blast
next
  case ByteIO
  then obtain payload where "fetch_obj (mi_key (ri_storage_index it)) = Some payload" using assms(1) by (auto simp: item_ready_def)
  then show ?thesis using ByteIO assms(2) by (simp add: apply_fetched_def right_shapes_def right_at_def)
qed

lemma apply_all_right:
  assumes "\<forall>it \<in> set its. item_ready fetch fetch_obj sd shape G it" "right_shapes shape s"
  shows "\<exists>s'. rfold (apply_fetched fetch fetch_obj) its s = Inr s' \<and> right_shapes shape s' \<and>
    (\<forall>k idx. in_box (shape k) idx \<longrightarrow> right_at G k idx s \<or> (\<exists>it \<in> set its. ri_type it = Tensor \<and> dest_key it = k \<and> item_covers it idx) \<longrightarrow> right_at G k idx s')"
  using assms
proof (induction its arbitrary: s)
  case (Cons it its)
  have "item_ready fetch fetch_obj sd shape G it" using Cons.prems(1) by simp
  from apply_fetched_right [OF this Cons.prems(2)]
  obtain s1 where s1: "apply_fetched fetch fetch_obj it s = Inr s1" "right_shapes shape s1"
    "\<forall>k idx. in_box (shape k) idx \<longrightarrow> right_at G k idx s \<or> ri_type it = Tensor \<and> dest_key it = k \<and> item_covers it idx \<longrightarrow> right_at G k idx s1"
    by blast
  have "\<forall>it \<in> set its. item_ready fetch fetch_obj sd shape G it" using Cons.prems(1) by simp
  from Cons.IH [OF this s1(2)] obtain s' where s': "rfold (apply_fetched fetch fetch_obj) its s1 = Inr s'" "right_shapes shape s'"
    "\<forall>k idx. in_box (shape k) idx \<longrightarrow> right_at G k idx s1 \<or> (\<exists>it \<in> set its. ri_type it = Tensor \<and> dest_key it = k \<and> item_covers it idx) \<longrightarrow> right_at G k idx s'"
    by blast
  have "rfold (apply_fetched fetch fetch_obj) (it # its) s = Inr s'" using s1(1) s'(1) by simp
  moreover have "right_at G k idx s'" if "in_box (shape k) idx"
      "right_at G k idx s \<or> (\<exists>x \<in> set (it # its). ri_type x = Tensor \<and> dest_key x = k \<and> item_covers x idx)" for k idx
    using that s1(3) s'(3) by (metis set_ConsD)
  ultimately show ?case using s'(2) by blast
qed simp

lemma group_items_ok:
  assumes "\<forall>it \<in> set its. \<exists>p. get_storage_path sd it = Inr p"
  shows "\<exists>groups. group_items_by_file sd its = Inr groups"
proof -
  have "rmap (\<lambda>item. rbind (get_storage_path sd item) (\<lambda>p. Inr (p, item))) its = Inr (map (\<lambda>it. (projr (get_storage_path sd it), it)) its)"
    by (rule rmap_total) (use assms in force)
  then show ?thesis by (auto simp: group_items_by_file_def)
qed

lemma read_batch_right:
  assumes "\<forall>it \<in> set its. item_ready fetch fetch_obj sd shape G it" "right_shapes shape s"
  shows "\<exists>s'. read_batch fetch fetch_obj sd its s = Inr s'"
    "\<And>s'. read_batch fetch fetch_obj sd its s = Inr s' \<Longrightarrow> right_shapes shape s' \<and>
    (\<forall>k idx. in_box (shape k) idx \<longrightarrow> right_at G k idx s \<or> (\<exists>it \<in> set its. ri_type it = Tensor \<and> dest_key it = k \<and> item_covers it idx) \<longrightarrow> right_at G k idx s')"
proof -
  have "\<forall>it \<in> set its. \<exists>p. get_storage_path sd it = Inr p" using assms(1) by (auto simp: item_ready_def)
  then obtain groups where groups: "group_items_by_file sd its = Inr groups" using group_items_ok by blast
  have set: "set (concat groups) = set its" using group_items_set [OF groups] by simp
  then have "\<forall>it \<in> set (concat groups). item_ready fetch fetch_obj sd shape G it" using assms(1) by simp
  from apply_all_right [OF this assms(2)] obtain s0 where s0: "rfold (apply_fetched fetch fetch_obj) (concat groups) s = Inr s0" "right_shapes shape s0"
    "\<forall>k idx. in_box (shape k) idx \<longrightarrow> right_at G k idx s \<or> (\<exists>it \<in> set its. ri_type it = Tensor \<and> dest_key it = k \<and> item_covers it idx) \<longrightarrow> right_at G k idx s0"
    unfolding set by blast
  have run: "read_batch fetch fetch_obj sd its s = Inr s0" using groups s0(1) by (simp add: read_batch_def)
  then show "\<exists>s'. read_batch fetch fetch_obj sd its s = Inr s'" by blast
  fix s' assume "read_batch fetch fetch_obj sd its s = Inr s'"
  then have "s' = s0" using run by simp
  then show "right_shapes shape s' \<and>
    (\<forall>k idx. in_box (shape k) idx \<longrightarrow> right_at G k idx s \<or> (\<exists>it \<in> set its. ri_type it = Tensor \<and> dest_key it = k \<and> item_covers it idx) \<longrightarrow> right_at G k idx s')"
    using s0(2,3) by blast
qed

section \<open>Coherent programs\<close>

fun waits :: "load_step list \<Rightarrow> bcast list" where
  "waits [] = []"
| "waits (Await b # steps) = b # waits steps"
| "waits (_ # steps) = waits steps"

lemma waits_append [simp]: "waits (xs @ ys) = waits xs @ waits ys"
  by (induction xs rule: waits.induct) simp_all

lemma in_flight_starts: "in_flight_after fl xs = Some fl' \<Longrightarrow> fl @ starts xs = waits xs @ fl'"
  by (induction fl xs rule: in_flight_after.induct) (auto split: list.splits if_splits)

definition covered_by :: "read_item set \<Rightarrow> index_key \<Rightarrow> int list \<Rightarrow> bool" where
  "covered_by its k idx \<longleftrightarrow> (\<exists>it \<in> its. ri_type it = Tensor \<and> dest_key it = k \<and> item_covers it idx)"

text \<open>
  \<open>B\<close> is the common sequence of broadcasts, \<open>progs\<close> the programs of the ranks, \<open>need\<close> what a rank reads for a shard.
\<close>

definition coherent :: "bcast list \<Rightarrow> load_step list list \<Rightarrow> (nat \<Rightarrow> index_key \<Rightarrow> read_item set) \<Rightarrow> (read_item \<Rightarrow> bool) \<Rightarrow> (index_key \<Rightarrow> int list) \<Rightarrow> bool" where
  "coherent B progs need ready shape \<longleftrightarrow> distinct B \<and>
     (\<forall>b \<in> set B. set (group_ranks (bc_source b)) \<subseteq> {..<length progs} \<and> src_rank (bc_source b) \<in> set (group_ranks (bc_source b)) \<and>
        (\<forall>k \<in> set (bc_shards b). \<forall>idx. in_box (shape k) idx \<longrightarrow> covered_by (need (src_rank (bc_source b)) k) k idx)) \<and>
     (\<forall>r < length progs. starts (progs ! r) = filter (\<lambda>b. r \<in> set (group_ranks (bc_source b))) B \<and>
        in_flight_after [] (progs ! r) = Some [] \<and> sends_read r (need r) {} (progs ! r) \<and> (\<forall>it \<in> items_read (progs ! r). ready it))"

text \<open>A state of the load: what every rank has done so far, and what this has brought about.\<close>

definition rank_right :: "(index_key \<Rightarrow> int list) \<Rightarrow> (index_key \<Rightarrow> int list \<Rightarrow> 'v) \<Rightarrow> load_step list \<Rightarrow> 'v rank_store \<Rightarrow> bool" where
  "rank_right shape G did s \<longleftrightarrow> right_shapes shape s \<and>
     (\<forall>k idx. in_box (shape k) idx \<longrightarrow> covered_by (items_read did) k idx \<or> (\<exists>b \<in> set (waits did). k \<in> set (bc_shards b)) \<longrightarrow> right_at G k idx s)"

definition payload_right :: "(index_key \<Rightarrow> int list) \<Rightarrow> (index_key \<Rightarrow> int list \<Rightarrow> 'v) \<Rightarrow> (nat \<times> bcast) set \<Rightarrow> (bcast \<Rightarrow> index_key \<Rightarrow> 'v nd) \<Rightarrow> bool" where
  "payload_right shape G started payload \<longleftrightarrow> (\<forall>b. (src_rank (bc_source b), b) \<in> started \<longrightarrow> (\<forall>k \<in> set (bc_shards b).
     nd_shape (payload b k) = shape k \<and> (\<forall>idx. in_box (shape k) idx \<longrightarrow> nd_at (payload b k) idx = G k idx)))"

definition load_state_ok :: "load_step list list \<Rightarrow> load_step list list \<Rightarrow> (index_key \<Rightarrow> int list) \<Rightarrow> (index_key \<Rightarrow> int list \<Rightarrow> 'v) \<Rightarrow> 'v cluster \<Rightarrow> bool" where
  "load_state_ok progs did shape G c \<longleftrightarrow>
     length did = length progs \<and> length (cl_left c) = length progs \<and> length (cl_ranks c) = length progs \<and>
     (\<forall>r < length progs. progs ! r = did ! r @ cl_left c ! r \<and> rank_right shape G (did ! r) (cl_ranks c ! r)) \<and>
     cl_started c = {(r, b). r < length progs \<and> b \<in> set (starts (did ! r))} \<and> payload_right shape G (cl_started c) (cl_payload c)"

lemma covered_by_mono: "covered_by A k idx \<Longrightarrow> A \<subseteq> B \<Longrightarrow> covered_by B k idx"
  unfolding covered_by_def by blast

lemma covered_union: "covered_by (A \<union> B) k idx \<longleftrightarrow> covered_by A k idx \<or> covered_by B k idx"
  unfolding covered_by_def by blast

text \<open>What a rank may do next, from its program.\<close>

lemma coherent_start:
  assumes "coherent B progs need ready shape" "r < length progs" "progs ! r = xs @ Start b # ys"
  shows "b \<in> set B" "b \<notin> set (starts xs)" "r \<in> set (group_ranks (bc_source b))"
    "src_rank (bc_source b) = r \<Longrightarrow> k \<in> set (bc_shards b) \<Longrightarrow> in_box (shape k) idx \<Longrightarrow> covered_by (items_read xs) k idx"
proof -
  have st: "starts xs @ b # starts ys = filter (\<lambda>b. r \<in> set (group_ranks (bc_source b))) B" "distinct B"
    using assms unfolding coherent_def by (metis starts.simps(2) starts_append)+
  then have "distinct (starts xs @ b # starts ys)" by (metis distinct_filter)
  then show "b \<notin> set (starts xs)" by simp
  have "b \<in> set (filter (\<lambda>b. r \<in> set (group_ranks (bc_source b))) B)" unfolding st(1) [symmetric] by simp
  then show b: "b \<in> set B" and "r \<in> set (group_ranks (bc_source b))" by simp_all
  assume own: "src_rank (bc_source b) = r" "k \<in> set (bc_shards b)" "in_box (shape k) idx"
  have "sends_read r (need r) {} (xs @ Start b # ys)" using assms unfolding coherent_def by metis
  then have "need r k \<subseteq> items_read xs" using own(1,2) by (auto simp: sends_read_append)
  moreover have "covered_by (need r k) k idx" using assms(1) b own unfolding coherent_def by blast
  ultimately show "covered_by (items_read xs) k idx" using covered_by_mono by blast
qed

lemma coherent_wait:
  assumes "coherent B progs need ready shape" "r < length progs" "progs ! r = xs @ Await b # ys"
  shows "b \<in> set B" "b \<in> set (starts xs)" "r \<in> set (group_ranks (bc_source b))"
proof -
  have all: "in_flight_after [] (xs @ Await b # ys) = Some []" "starts (xs @ Await b # ys) = filter (\<lambda>b. r \<in> set (group_ranks (bc_source b))) B"
    using assms unfolding coherent_def by metis+
  then obtain fl where fl: "in_flight_after [] xs = Some (b # fl)"
    by (auto simp: in_flight_append split: option.splits list.splits if_splits)
  from in_flight_starts [OF this] show "b \<in> set (starts xs)" by simp
  then have "b \<in> set (filter (\<lambda>b. r \<in> set (group_ranks (bc_source b))) B)" unfolding all(2) [symmetric] by simp
  then show "b \<in> set B" "r \<in> set (group_ranks (bc_source b))" by simp_all
qed

lemma rank_rightD:
  "rank_right shape G did s \<Longrightarrow> in_box (shape k) idx \<Longrightarrow>
     covered_by (items_read did) k idx \<or> (\<exists>b \<in> set (waits did). k \<in> set (bc_shards b)) \<Longrightarrow> right_at G k idx s"
  unfolding rank_right_def by blast

lemma starts_split: "b \<in> set (starts xs) \<Longrightarrow> \<exists>ys zs. xs = ys @ Start b # zs"
proof (induction xs rule: starts.induct)
  case (2 c steps)
  show ?case
  proof (cases "b = c")
    case True
    then show ?thesis by (intro exI [of _ "[]"] exI [of _ steps]) simp
  next
    case False
    then obtain ys zs where "steps = ys @ Start b # zs" using 2 by auto
    then show ?thesis by (intro exI [of _ "Start c # ys"] exI [of _ zs]) simp
  qed
qed (simp, (metis append_Cons starts.simps(3,4))+)

section \<open>Every step keeps the state right\<close>

lemma load_state_step:
  assumes ok: "load_state_ok progs did shape G c" and r: "r < length progs" and left: "cl_left c ! r = x # rest"
    and right: "rank_right shape G (did ! r @ [x]) s"
    and started: "started' = cl_started c \<union> {r} \<times> set (starts [x])" and payload: "payload_right shape G started' payload'"
  shows "load_state_ok progs (did[r := did ! r @ [x]]) shape G
    (c\<lparr>cl_left := (cl_left c)[r := rest], cl_ranks := (cl_ranks c)[r := s], cl_started := started', cl_payload := payload'\<rparr>)"
proof -
  have prog: "progs ! r = did ! r @ x # rest" using ok r left by (simp add: load_state_ok_def)
  have "progs ! q = did[r := did ! r @ [x]] ! q @ (cl_left c)[r := rest] ! q \<and> rank_right shape G (did[r := did ! r @ [x]] ! q) ((cl_ranks c)[r := s] ! q)"
    if "q < length progs" for q
    using that ok r prog right by (cases "q = r") (simp_all add: load_state_ok_def)
  moreover have "started' = {(q, b). q < length progs \<and> b \<in> set (starts (did[r := did ! r @ [x]] ! q))}"
    using ok r unfolding started by (auto simp: load_state_ok_def nth_list_update split: if_splits)
  ultimately show ?thesis using ok payload by (simp add: load_state_ok_def)
qed

lemma load_exec_ok:
  assumes coh: "coherent B progs need (item_ready fetch fetch_obj sd shape G) shape" and ok: "load_state_ok progs did shape G c"
    and exec: "load_exec fetch fetch_obj sd c c'"
  shows "\<exists>did'. load_state_ok progs did' shape G c'"
  using exec
proof (cases rule: load_exec.cases)
  case (read r its rest s)
  have r: "r < length progs" using ok read(2) by (simp add: load_state_ok_def)
  have prog: "progs ! r = did ! r @ Read its # rest" using ok read(3) r by (simp add: load_state_ok_def)
  have its_ready: "\<forall>it \<in> set its. item_ready fetch fetch_obj sd shape G it"
    using coh r prog unfolding coherent_def by (metis UnCI items_read.simps(2) items_read_append)
  have old: "rank_right shape G (did ! r) (cl_ranks c ! r)" using ok r by (simp add: load_state_ok_def)
  then have sh: "right_shapes shape (cl_ranks c ! r)" by (simp add: rank_right_def)
  note new = read_batch_right(2) [OF its_ready sh read(4)]
  have "right_at G k idx s" if box: "in_box (shape k) idx"
    and did: "covered_by (items_read (did ! r @ [Read its])) k idx \<or> (\<exists>b \<in> set (waits (did ! r @ [Read its])). k \<in> set (bc_shards b))" for k idx
  proof (cases "covered_by (set its) k idx")
    case True
    then show ?thesis using new box unfolding covered_by_def by blast
  next
    case False
    then have "right_at G k idx (cl_ranks c ! r)" using did by (intro rank_rightD [OF old box]) (simp add: covered_union)
    then show ?thesis using new box by blast
  qed
  then have "rank_right shape G (did ! r @ [Read its]) s" using new unfolding rank_right_def by blast
  moreover have "payload_right shape G (cl_started c) (cl_payload c)" using ok unfolding load_state_ok_def by blast
  ultimately show ?thesis
    using load_state_step [OF ok r read(3), of s "cl_started c" "cl_payload c"] unfolding read(1) by auto
next
  case (start r b rest)
  have r: "r < length progs" using ok start(2) by (simp add: load_state_ok_def)
  have prog: "progs ! r = did ! r @ Start b # rest" using ok start(3) r by (simp add: load_state_ok_def)
  note b = coherent_start [OF coh r prog]
  have old: "rank_right shape G (did ! r) (cl_ranks c ! r)" "payload_right shape G (cl_started c) (cl_payload c)"
    using ok r unfolding load_state_ok_def by blast+
  let ?pay = "if src_rank (bc_source b) = r then (cl_payload c)(b := rk_bufs (cl_ranks c ! r)) else cl_payload c"
  have "payload_right shape G (insert (r, b) (cl_started c)) ?pay"
    unfolding payload_right_def
  proof (intro allI impI)
    fix b' assume b': "(src_rank (bc_source b'), b') \<in> insert (r, b) (cl_started c)"
    show "\<forall>k \<in> set (bc_shards b'). nd_shape (?pay b' k) = shape k \<and> (\<forall>idx. in_box (shape k) idx \<longrightarrow> nd_at (?pay b' k) idx = G k idx)"
    proof (cases "b' = b \<and> src_rank (bc_source b) = r")
      case True
      have "nd_at (rk_bufs (cl_ranks c ! r) k) idx = G k idx" if "k \<in> set (bc_shards b)" "in_box (shape k) idx" for k idx
        using rank_rightD [OF old(1) that(2)] b(4) [OF _ that] True unfolding right_at_def by blast
      moreover have "nd_shape (rk_bufs (cl_ranks c ! r) k) = shape k" for k
        using old(1) unfolding rank_right_def right_shapes_def by blast
      ultimately show ?thesis using True by simp
    next
      case False
      then have "(src_rank (bc_source b'), b') \<in> cl_started c" "?pay b' = cl_payload c b'" using b' by auto
      then show ?thesis using old(2) unfolding payload_right_def by metis
    qed
  qed
  moreover have "rank_right shape G (did ! r @ [Start b]) (cl_ranks c ! r)" using old(1) by (simp add: rank_right_def)
  moreover have "(cl_ranks c)[r := cl_ranks c ! r] = cl_ranks c" by (rule list_update_id)
  ultimately show ?thesis
    using load_state_step [OF ok r start(3), of "cl_ranks c ! r" "insert (r, b) (cl_started c)" ?pay] unfolding start(1) by auto
next
  case (await r b rest)
  have r: "r < length progs" using ok await(2) by (simp add: load_state_ok_def)
  have prog: "progs ! r = did ! r @ Await b # rest" using ok await(3) r by (simp add: load_state_ok_def)
  note b = coherent_wait [OF coh r prog]
  have old: "rank_right shape G (did ! r) (cl_ranks c ! r)" "payload_right shape G (cl_started c) (cl_payload c)"
    using ok r unfolding load_state_ok_def by blast+
  let ?src = "src_rank (bc_source b)"
  let ?s = "if ?src = r then cl_ranks c ! r else receive b (cl_payload c b) (cl_ranks c ! r)"
  have "?src \<in> set (group_ranks (bc_source b))" using coh b(1) by (simp add: coherent_def)
  then have "(?src, b) \<in> cl_started c" using await(4) by blast
  then have pay: "\<forall>k \<in> set (bc_shards b). nd_shape (cl_payload c b k) = shape k \<and> (\<forall>idx. in_box (shape k) idx \<longrightarrow> nd_at (cl_payload c b k) idx = G k idx)"
    using old(2) unfolding payload_right_def by blast
  have own: "right_at G k idx (cl_ranks c ! r)" if own: "?src = r" "k \<in> set (bc_shards b)" "in_box (shape k) idx" for k idx
  proof -
    obtain xs ys where did: "did ! r = xs @ Start b # ys" using starts_split [OF b(2)] by blast
    have "progs ! r = xs @ Start b # (ys @ Await b # rest)" using prog did by simp
    from coherent_start(4) [OF coh r this own] have "covered_by (items_read (did ! r)) k idx"
      by (rule covered_by_mono) (simp add: did)
    then show ?thesis by (intro rank_rightD [OF old(1) own(3)]) (rule disjI1)
  qed
  have "right_shapes shape ?s" using old(1) pay by (auto simp: rank_right_def right_shapes_def receive_def)
  moreover have "right_at G k idx ?s" if box: "in_box (shape k) idx"
    and did: "covered_by (items_read (did ! r @ [Await b])) k idx \<or> (\<exists>b' \<in> set (waits (did ! r @ [Await b])). k \<in> set (bc_shards b'))" for k idx
  proof (cases "k \<in> set (bc_shards b)")
    case True
    then show ?thesis using own [OF _ True box] pay box by (auto simp: right_at_def receive_def)
  next
    case False
    then have "right_at G k idx (cl_ranks c ! r)" using did by (intro rank_rightD [OF old(1) box]) simp
    then show ?thesis using False by (simp add: right_at_def receive_def)
  qed
  ultimately have "rank_right shape G (did ! r @ [Await b]) ?s" unfolding rank_right_def by blast
  from load_state_step [OF ok r await(3) this, of "cl_started c" "cl_payload c"] old(2)
  show ?thesis unfolding await(1) by (cases "?src = r") auto
qed

section \<open>The load goes on until all are done\<close>

lemma earlier_in_filter:
  assumes "distinct B" "xs @ ys = filter P B" "x \<in> set xs" "B ! i \<in> set ys" "i < length B"
  shows "\<exists>j < i. B ! j = x"
proof -
  define R where "R = (\<lambda>u v. \<exists>i j. i < j \<and> j < length B \<and> B ! i = u \<and> B ! j = v)"
  have "sorted_wrt R B" by (auto simp: sorted_wrt_iff_nth_less R_def)
  then have "sorted_wrt R (filter P B)" by (rule sorted_wrt_filter)
  then have "R x (B ! i)" using assms(3,4) unfolding assms(2) [symmetric] sorted_wrt_append by blast
  then obtain j' i' where *: "j' < i'" "i' < length B" "B ! j' = x" "B ! i' = B ! i" by (auto simp: R_def)
  then have "i' = i" using assms(1,5) by (simp add: nth_eq_iff_index_eq)
  then show ?thesis using *(1,3) by blast
qed

lemma load_progress:
  assumes coh: "coherent B progs need (item_ready fetch fetch_obj sd shape G) shape" and ok: "load_state_ok progs did shape G c"
    and busy: "\<not> load_finished c"
  shows "\<exists>c'. load_exec fetch fetch_obj sd c c'"
proof (rule ccontr)
  assume stuck: "\<nexists>c'. load_exec fetch fetch_obj sd c c'"
  have len: "length (cl_left c) = length progs" using ok by (simp add: load_state_ok_def)
  have prog: "progs ! r = did ! r @ cl_left c ! r" "rank_right shape G (did ! r) (cl_ranks c ! r)" if "r < length progs" for r
    using ok that unfolding load_state_ok_def by blast+
  have started: "(q, b) \<in> cl_started c \<longleftrightarrow> q < length progs \<and> b \<in> set (starts (did ! q))" for q b
    using ok unfolding load_state_ok_def by blast
  have waiting: "\<exists>b rest. cl_left c ! r = Await b # rest" if r: "r < length progs" "cl_left c ! r \<noteq> []" for r
  proof -
    obtain x rest where left: "cl_left c ! r = x # rest" using r(2) by (cases "cl_left c ! r") auto
    show ?thesis
    proof (cases x)
      case (Read its)
      have "progs ! r = did ! r @ Read its # rest" using prog(1) [OF r(1)] left Read by simp
      then have "\<forall>it \<in> set its. item_ready fetch fetch_obj sd shape G it"
        using coh r(1) unfolding coherent_def by (metis UnCI items_read.simps(2) items_read_append)
      moreover have "right_shapes shape (cl_ranks c ! r)" using prog(2) [OF r(1)] by (simp add: rank_right_def)
      ultimately obtain s where "read_batch fetch fetch_obj sd its (cl_ranks c ! r) = Inr s" using read_batch_right(1) by blast
      then show ?thesis using load_exec.read [of r c its rest] left Read r(1) len stuck by metis
    next
      case (Start b)
      then show ?thesis using load_exec.start [of r c b rest] left r(1) len stuck by metis
    next
      case (Await b)
      then show ?thesis using left by blast
    qed
  qed
  define blocked where "blocked = (\<lambda>i. i < length B \<and> (\<exists>r < length progs. \<exists>rest. cl_left c ! r = Await (B ! i) # rest))"
  have pos: "\<exists>i. blocked i \<and> B ! i = b" if "r < length progs" "cl_left c ! r = Await b # rest" for r b rest
  proof -
    have "b \<in> set B" using coherent_wait(1) [OF coh that(1)] prog(1) [OF that(1)] that(2) by simp
    then show ?thesis using that by (auto simp: blocked_def in_set_conv_nth)
  qed
  obtain r where r: "r < length progs" "cl_left c ! r \<noteq> []" using busy len by (auto simp: load_finished_def in_set_conv_nth)
  then have "\<exists>i. blocked i" using waiting [OF r] pos [OF r(1)] by blast
  then obtain i where i: "blocked i" "\<forall>j < i. \<not> blocked j" by (metis LeastI not_less_Least)
  obtain r rest where r: "i < length B" "r < length progs" "cl_left c ! r = Await (B ! i) # rest" using i(1) by (auto simp: blocked_def)
  let ?b = "B ! i"
  have "\<not> (\<forall>q \<in> set (group_ranks (bc_source ?b)). (q, ?b) \<in> cl_started c)"
    using load_exec.await [of r c ?b rest] r len stuck by metis
  then obtain q where q: "q \<in> set (group_ranks (bc_source ?b))" "(q, ?b) \<notin> cl_started c" by blast
  have qn: "q < length progs" using coh r(1) q(1) unfolding coherent_def by (metis lessThan_iff nth_mem subsetD)
  have all: "starts (did ! q) @ starts (cl_left c ! q) = filter (\<lambda>b. q \<in> set (group_ranks (bc_source b))) B"
    using coh qn prog(1) [OF qn] unfolding coherent_def by (metis starts_append)
  have "?b \<in> set (starts (did ! q) @ starts (cl_left c ! q))" unfolding all using q(1) r(1) by simp
  then have later: "?b \<in> set (starts (cl_left c ! q))" using q(2) qn started by auto
  then have "cl_left c ! q \<noteq> []" by auto
  then obtain b' rest' where b': "cl_left c ! q = Await b' # rest'" using waiting [OF qn] by blast
  have "b' \<in> set (starts (did ! q))" using coherent_wait(2) [OF coh qn] prog(1) [OF qn] b' by simp
  moreover have "distinct B" using coh by (simp add: coherent_def)
  ultimately obtain j where j: "j < i" "B ! j = b'" using earlier_in_filter [OF _ all _ later r(1)] by blast
  have "blocked j" using j r(1) qn b' by (auto simp: blocked_def)
  then show False using i(2) j(1) by blast
qed

lemma load_done:
  assumes coh: "coherent B progs need ready shape" and ok: "load_state_ok progs did shape G c" and fin: "load_finished c"
    and r: "r < length progs" and box: "in_box (shape k) idx"
    and held: "covered_by (items_read (progs ! r)) k idx \<or> (\<exists>b \<in> set B. r \<in> set (group_ranks (bc_source b)) \<and> k \<in> set (bc_shards b))"
  shows "right_at G k idx (cl_ranks c ! r) \<and> nd_shape (rk_bufs (cl_ranks c ! r) k) = shape k"
proof -
  have state: "progs ! r = did ! r @ cl_left c ! r" "rank_right shape G (did ! r) (cl_ranks c ! r)" "r < length (cl_left c)"
    using ok r unfolding load_state_ok_def by auto
  then have did: "did ! r = progs ! r" using fin unfolding load_finished_def by (metis append_Nil2 nth_mem)
  have "in_flight_after [] (progs ! r) = Some []" "starts (progs ! r) = filter (\<lambda>b. r \<in> set (group_ranks (bc_source b))) B"
    using coh r unfolding coherent_def by blast+
  then have "waits (progs ! r) = filter (\<lambda>b. r \<in> set (group_ranks (bc_source b))) B" using in_flight_starts by force
  then have "covered_by (items_read (did ! r)) k idx \<or> (\<exists>b \<in> set (waits (did ! r)). k \<in> set (bc_shards b))"
    using held unfolding did by auto
  from rank_rightD [OF state(2) box this] state(2) show ?thesis unfolding rank_right_def right_shapes_def by blast
qed

text \<open>The state before the first step, and every state a load can be in.\<close>

definition load_begins :: "load_step list list \<Rightarrow> 'v rank_store list \<Rightarrow> 'v cluster" where
  "load_begins progs stores = \<lparr>cl_left = progs, cl_ranks = stores, cl_started = {}, cl_payload = (\<lambda>b k. rk_bufs (hd stores) k)\<rparr>"

lemma load_reaches_ok:
  assumes coh: "coherent B progs need (item_ready fetch fetch_obj sd shape G) shape"
    and stores: "length stores = length progs" "\<forall>s \<in> set stores. right_shapes shape s"
    and reach: "load_reaches fetch fetch_obj sd (load_begins progs stores) c"
  shows "\<exists>did. load_state_ok progs did shape G c"
  using reach
proof (induction rule: load_reaches.induct)
  case at_once
  have "load_state_ok progs (map (\<lambda>_. []) progs) shape G (load_begins progs stores)"
    using stores by (simp add: load_state_ok_def load_begins_def rank_right_def payload_right_def covered_by_def)
  then show ?case by blast
next
  case (step c c')
  then show ?case using load_exec_ok [OF coh] by blast
qed

section \<open>The local plans are ready to run\<close>

text \<open>The elements of a shard: the elements of its tensor from its offset on.\<close>

definition shard_values :: "(string \<Rightarrow> int list \<Rightarrow> 'v) \<Rightarrow> index_key \<Rightarrow> int list \<Rightarrow> 'v" where
  "shard_values G k idx = G (fst k) (shift (snd k) idx)"

lemma overlap_ready:
  assumes wf: "wf_chunk n l" "wf_chunk n s" and item: "item \<in> set items" "read_overlap fqn br (i, l) (j, s) = Inr items"
    and store: "stores_chunk fetch fqn (G fqn) s" and shape: "shape (fqn, ch_offsets l) = ch_sizes l"
  shows "reads_right fetch shape (shard_values G) item" "dest_key item = (fqn, ch_offsets l)" "ri_type item = Tensor"
    "ri_source item = None" "mi_key (ri_storage_index item) = (fqn, ch_offsets s)" "mi_fqn (ri_dest_index item) = fqn"
    "length idx = n \<Longrightarrow> item_covers item idx \<longleftrightarrow> inside (area_of l) (shift (ch_offsets l) idx) \<and> inside (area_of s) (shift (ch_offsets l) idx)"
proof -
  obtain ov where ov: "intersect_axes (area_of l) (area_of s) = Some ov"
    using item unfolding read_overlap_eq [OF wf] by (auto split: option.splits)
  have it: "item = \<lparr>ri_type = Tensor, ri_dest_index = \<lparr>mi_fqn = fqn, mi_offset = ch_offsets l, mi_index = Some (int i)\<rparr>,
             ri_dest_offsets = map2 (\<lambda>(l, r) off. l - off) ov (ch_offsets l),
             ri_storage_index = \<lparr>mi_fqn = fqn, mi_offset = ch_offsets s, mi_index = Some (int j)\<rparr>,
             ri_storage_offsets = map2 (\<lambda>(l, r) off. l - off) ov (ch_offsets s),
             ri_lengths = map (\<lambda>(l, r). r - l) ov, ri_broadcastable = br, ri_source = None\<rparr>"
    and single: "items = [item]"
    using item ov unfolding read_overlap_eq [OF wf] by auto
  have len: "length ov = n" using intersect_Some [OF ov] wf by simp
  show key: "dest_key item = (fqn, ch_offsets l)" "ri_type item = Tensor" "ri_source item = None"
    "mi_key (ri_storage_index item) = (fqn, ch_offsets s)" "mi_fqn (ri_dest_index item) = fqn"
    by (simp_all add: it mi_key_def)
  have region: "item_covers item idx \<longleftrightarrow> inside ov (shift (ch_offsets l) idx)" if "length idx = n" for idx
    using that len wf by (auto simp: item_covers_def it inside_nth wf_chunk_def case_prod_unfold algebra_simps)
  then show "length idx = n \<Longrightarrow> item_covers item idx \<longleftrightarrow> inside (area_of l) (shift (ch_offsets l) idx) \<and> inside (area_of s) (shift (ch_offsets l) idx)"
    using overlap_inside [OF wf ov] by blast
  obtain src where src: "fetch (fqn, ch_offsets s) = Some src" "nd_shape src = ch_sizes s"
    "\<forall>i. in_box (ch_sizes s) i \<longrightarrow> nd_at src i = G fqn (shift (ch_offsets s) i)" using store by (auto simp: stores_chunk_def)
  show "reads_right fetch shape (shard_values G) item"
    unfolding reads_right_def key(1) shape
  proof (intro allI impI)
    fix bufs :: "index_key \<Rightarrow> 'a nd" assume buf: "nd_shape (bufs (fqn, ch_offsets l)) = ch_sizes l"
    obtain b where b: "apply_read fetch item bufs = Inr (bufs((fqn, ch_offsets l) := b))" "nd_shape b = ch_sizes l"
      "\<forall>idx. length idx = n \<longrightarrow> nd_at b idx = (if inside ov (shift (ch_offsets l) idx)
         then nd_at src (unshift (ch_offsets s) (shift (ch_offsets l) idx)) else nd_at (bufs (fqn, ch_offsets l)) idx)"
      using apply_read_overlap [where fetch = fetch and bufs = bufs, OF wf ov item(2) [unfolded single] src(1,2) buf] by blast
    have "nd_at b idx = (if item_covers item idx then shard_values G (fqn, ch_offsets l) idx else nd_at (bufs (fqn, ch_offsets l)) idx)"
      if "in_box (ch_sizes l) idx" for idx
    proof -
      have n: "length idx = n" using that wf(1) by (auto simp: in_box_def wf_chunk_def list_all2_lengthD)
      show ?thesis using b(3) n region [OF n] overlap_value [OF wf ov n src(3)] by (simp add: shard_values_def)
    qed
    then show "\<exists>b. apply_read fetch item bufs = Inr (bufs((fqn, ch_offsets l) := b)) \<and> nd_shape b = ch_sizes l \<and>
        (\<forall>idx. in_box (ch_sizes l) idx \<longrightarrow>
           nd_at b idx = (if item_covers item idx then shard_values G (fqn, ch_offsets l) idx else nd_at (bufs (fqn, ch_offsets l)) idx))"
      using b(1,2) by blast
  qed
qed

text \<open>The checkpoint holds every tensor of its metadata, and every object.\<close>

definition checkpoint_holds :: "'v files \<Rightarrow> storage_data \<Rightarrow> ckpt_metadata \<Rightarrow> (string \<Rightarrow> int list \<Rightarrow> 'v) \<Rightarrow> bool" where
  "checkpoint_holds fs sd md G \<longleftrightarrow> (\<forall>(f, m) \<in> set (md_state_dict md). case m of
      TensorStorage ts \<Rightarrow> \<forall>s \<in> set (ts_chunks ts). wf_chunk (length (ts_size ts)) s \<and> stores_chunk (fetch_tensor fs sd) f (G f) s
    | BytesStorage \<Rightarrow> fetch_bytes fs sd (f, []) \<noteq> None)"

text \<open>The chunks an entry needs have the shapes of its buffers and are covered by the stored ones.\<close>

definition chunks_wanted :: "ckpt_metadata \<Rightarrow> (index_key \<Rightarrow> int list) \<Rightarrow> int \<Rightarrow> string \<times> entry \<Rightarrow> bool" where
  "chunks_wanted md shape rank e \<longleftrightarrow> (\<forall>ts ls. map_of (md_state_dict md) (fst e) = Some (TensorStorage ts) \<and>
      create_chunk_list_for_tensor rank (snd e) = Inr ls \<longrightarrow>
     (\<forall>l \<in> set ls. wf_chunk (length (ts_size ts)) l \<and> shape (fst e, ch_offsets l) = ch_sizes l \<and>
        (\<forall>p. inside (area_of l) p \<longrightarrow> (\<exists>s \<in> set (ts_chunks ts). inside (area_of s) p))))"

definition plan_covers :: "(index_key \<Rightarrow> int list) \<Rightarrow> read_item list \<Rightarrow> bool" where
  "plan_covers shape items \<longleftrightarrow> (\<forall>it \<in> set items. ri_type it = Tensor \<longrightarrow>
     (\<forall>idx. in_box (shape (dest_key it)) idx \<longrightarrow> covered_by (set items) (dest_key it) idx))"

definition item_typed :: "ckpt_metadata \<Rightarrow> read_item \<Rightarrow> bool" where
  "item_typed md it \<longleftrightarrow> ri_source it = None \<and>
     (case map_of (md_state_dict md) (mi_fqn (ri_dest_index it)) of
        None \<Rightarrow> False | Some (TensorStorage _) \<Rightarrow> ri_type it = Tensor | Some BytesStorage \<Rightarrow> ri_type it = ByteIO)"

lemma tensor_path: "fetch_tensor fs sd (mi_key (ri_storage_index it)) = Some src \<Longrightarrow> \<exists>p. get_storage_path sd it = Inr p"
  by (auto simp: fetch_tensor_def get_storage_path_def split: sum.splits)

lemma bytes_path: "fetch_bytes fs sd (mi_key (ri_storage_index it)) \<noteq> None \<Longrightarrow> \<exists>p. get_storage_path sd it = Inr p"
  by (auto simp: fetch_bytes_def get_storage_path_def split: sum.splits)

text \<open>The items for the chunks of a tensor are the overlaps of its needed and its stored chunks.\<close>

lemma chunk_item_iff:
  assumes items: "create_read_items_for_chunk_list f ts ls br = Inr items"
  shows "it \<in> set items \<longleftrightarrow> (\<exists>i < length ls. \<exists>j < length (ts_chunks ts). \<exists>its.
      read_overlap f br (i, ls ! i) (j, ts_chunks ts ! j) = Inr its \<and> it \<in> set its)"
proof -
  obtain itss where itss: "rmap (\<lambda>local. rbind (rmap (read_overlap f br local) (enumerate 0 (ts_chunks ts))) (\<lambda>items. Inr (concat items)))
      (enumerate 0 ls) = Inr itss" "items = concat itss" using items by (auto simp: create_read_items_for_chunk_list_def)
  have inner: "\<exists>ovs. rmap (read_overlap f br (i, ls ! i)) (enumerate 0 (ts_chunks ts)) = Inr ovs \<and> itss ! i = concat ovs \<and> i < length itss"
    if "i < length ls" for i
    using rmap_nth [OF itss(1), of i] rmap_length [OF itss(1)] that by (auto simp: nth_enumerate_eq)
  have outer: "it \<in> set items \<longleftrightarrow> (\<exists>i < length ls. it \<in> set (itss ! i))"
    using rmap_length [OF itss(1)] unfolding itss(2) set_concat by (auto simp: in_set_conv_nth [of _ itss] Bex_def)
  have "it \<in> set (itss ! i) \<longleftrightarrow> (\<exists>j < length (ts_chunks ts). \<exists>its. read_overlap f br (i, ls ! i) (j, ts_chunks ts ! j) = Inr its \<and> it \<in> set its)"
    if i: "i < length ls" for i
  proof -
    obtain ovs where ovs: "rmap (read_overlap f br (i, ls ! i)) (enumerate 0 (ts_chunks ts)) = Inr ovs" "itss ! i = concat ovs" using inner [OF i] by blast
    have len: "length ovs = length (ts_chunks ts)" using rmap_length [OF ovs(1)] by simp
    have each: "read_overlap f br (i, ls ! i) (j, ts_chunks ts ! j) = Inr (ovs ! j)" if "j < length (ts_chunks ts)" for j
      using rmap_nth [OF ovs(1), of j] that by (simp add: nth_enumerate_eq)
    have "it \<in> set (itss ! i) \<longleftrightarrow> (\<exists>j < length (ts_chunks ts). it \<in> set (ovs ! j))"
      unfolding ovs(2) set_concat len [symmetric] by (auto simp: in_set_conv_nth [of _ ovs] Bex_def)
    then show ?thesis using each by fastforce
  qed
  then show ?thesis unfolding outer by blast
qed

lemma chunk_items:
  assumes items: "create_read_items_for_chunk_list f ts ls br = Inr items"
    and ls: "\<forall>l \<in> set ls. wf_chunk n l \<and> shape (f, ch_offsets l) = ch_sizes l \<and> (\<forall>p. inside (area_of l) p \<longrightarrow> (\<exists>s \<in> set (ts_chunks ts). inside (area_of s) p))"
    and ss: "\<forall>s \<in> set (ts_chunks ts). wf_chunk n s \<and> stores_chunk (fetch_tensor fs sd) f (G f) s"
  shows "\<forall>it \<in> set items. ri_type it = Tensor \<and> ri_source it = None \<and> mi_fqn (ri_dest_index it) = f \<and>
      item_ready (fetch_tensor fs sd) fetch_obj sd shape (shard_values G) it"
    "plan_covers shape items"
proof -
  note mem = chunk_item_iff [OF items]
  show "\<forall>it \<in> set items. ri_type it = Tensor \<and> ri_source it = None \<and> mi_fqn (ri_dest_index it) = f \<and>
      item_ready (fetch_tensor fs sd) fetch_obj sd shape (shard_values G) it"
  proof
    fix it assume "it \<in> set items"
    then obtain i j its where ij: "i < length ls" "j < length (ts_chunks ts)" "read_overlap f br (i, ls ! i) (j, ts_chunks ts ! j) = Inr its" "it \<in> set its"
      unfolding mem by blast
    have l: "wf_chunk n (ls ! i)" "shape (f, ch_offsets (ls ! i)) = ch_sizes (ls ! i)" using ls nth_mem [OF ij(1)] by blast+
    have s: "wf_chunk n (ts_chunks ts ! j)" "stores_chunk (fetch_tensor fs sd) f (G f) (ts_chunks ts ! j)" using ss nth_mem [OF ij(2)] by blast+
    note ready = overlap_ready [where G = G and shape = shape, OF l(1) s(1) ij(4,3) s(2) l(2)]
    obtain src where "fetch_tensor fs sd (mi_key (ri_storage_index it)) = Some src" using s(2) ready(5) by (auto simp: stores_chunk_def)
    from tensor_path [OF this] show "ri_type it = Tensor \<and> ri_source it = None \<and> mi_fqn (ri_dest_index it) = f \<and>
        item_ready (fetch_tensor fs sd) fetch_obj sd shape (shard_values G) it"
      using ready(1,3,4,6) by (simp add: item_ready_def)
  qed
  show "plan_covers shape items"
    unfolding plan_covers_def
  proof (intro ballI impI allI)
    fix it idx assume it: "it \<in> set items" "ri_type it = Tensor" and box: "in_box (shape (dest_key it)) idx"
    obtain i j its where ij: "i < length ls" "j < length (ts_chunks ts)" "read_overlap f br (i, ls ! i) (j, ts_chunks ts ! j) = Inr its" "it \<in> set its"
      using it(1) unfolding mem by blast
    have l: "wf_chunk n (ls ! i)" "shape (f, ch_offsets (ls ! i)) = ch_sizes (ls ! i)"
      "\<forall>p. inside (area_of (ls ! i)) p \<longrightarrow> (\<exists>s \<in> set (ts_chunks ts). inside (area_of s) p)" using ls nth_mem [OF ij(1)] by blast+
    have s: "wf_chunk n (ts_chunks ts ! j)" "stores_chunk (fetch_tensor fs sd) f (G f) (ts_chunks ts ! j)" using ss nth_mem [OF ij(2)] by blast+
    have key: "dest_key it = (f, ch_offsets (ls ! i))" using overlap_ready(2) [where G = G and shape = shape, OF l(1) s(1) ij(4,3) s(2) l(2)] .
    then have box: "in_box (ch_sizes (ls ! i)) idx" using box l(2) by simp
    have len: "length idx = n" using box l(1) by (auto simp: in_box_def wf_chunk_def list_all2_lengthD)
    have p: "inside (area_of (ls ! i)) (shift (ch_offsets (ls ! i)) idx)" using in_box_area [OF l(1) len] box by blast
    then obtain j' where j': "j' < length (ts_chunks ts)" "inside (area_of (ts_chunks ts ! j')) (shift (ch_offsets (ls ! i)) idx)"
      using l(3) by (metis in_set_conv_nth)
    have s': "wf_chunk n (ts_chunks ts ! j')" "stores_chunk (fetch_tensor fs sd) f (G f) (ts_chunks ts ! j')" using ss nth_mem [OF j'(1)] by blast+
    have "intersect_axes (area_of (ls ! i)) (area_of (ts_chunks ts ! j')) \<noteq> None"
      using intersect_inside [of "area_of (ls ! i)" "shift (ch_offsets (ls ! i)) idx" "area_of (ts_chunks ts ! j')"] p j'(2) by auto
    then obtain it' where it': "read_overlap f br (i, ls ! i) (j', ts_chunks ts ! j') = Inr [it']"
      using read_overlap_eq [OF l(1) s'(1)] by auto
    note ready = overlap_ready [where G = G and shape = shape, OF l(1) s'(1) _ it' s'(2) l(2), of it']
    have "it' \<in> set items" unfolding mem using ij(1) j'(1) it' by (intro exI [of _ i] conjI exI [of _ j'] exI [of _ "[it']"]) simp_all
    moreover have "item_covers it' idx" using ready(7) [OF _ len] p j'(2) by simp
    ultimately show "covered_by (set items) (dest_key it) idx" unfolding covered_by_def key using ready(2,3) by (intro bexI [of _ it']) simp_all
  qed
qed

end
