(* ===== verification/CkptGroups.thy ===== *)
theory CkptGroups
  imports CkptLoadRun
begin

text \<open>
  The communication groups of the broadcasts of a load (\<open>broadcast_groups_for_load\<close> in \<open>broadcast.py\<close>).  To create or to
  destroy a group is a collective operation: the ranks must do it together and in one order.
\<close>

section \<open>Building the groups\<close>

text \<open>What a rank finds before the load: the size of the world, the cache of groups by their ranks, the group of the world.\<close>

record 'g group_env =
  world_size :: nat
  existing_comm_groups :: "nat list \<Rightarrow> 'g option"
  default_group :: 'g

definition existing_group :: "'g group_env \<Rightarrow> nat list \<Rightarrow> 'g option" where
  "existing_group env ranks =
     (case existing_comm_groups env (sort ranks) of
        Some g \<Rightarrow> Some g
      | None \<Rightarrow> if ranks = [0..<world_size env] then Some (default_group env) else None)"

text \<open>The groups a caller supplies, and the groups of a load: a value may be \<open>None\<close>, as in the code.\<close>

type_synonym 'g groups = "nat list \<rightharpoonup> 'g option"

definition needed_groups :: "'g groups \<Rightarrow> read_item list \<Rightarrow> nat list list" where
  "needed_groups supplied items =
     sort (remdups (concat (map (\<lambda>item. case ri_source item of
       None \<Rightarrow> [] | Some src \<Rightarrow> if supplied (group_ranks src) = None then [group_ranks src] else []) items)))"

type_synonym group_report = "nat list list \<times> nat list list"

definition group_report :: "'g group_env \<Rightarrow> 'g groups \<Rightarrow> read_item list \<Rightarrow> group_report" where
  "group_report env supplied items =
     (let needed = needed_groups supplied items in (needed, filter (\<lambda>ranks. existing_group env ranks = None) needed))"

text \<open>\<open>gm_made\<close> are the calls of \<open>new_group\<close>, in their order.\<close>

record 'g groups_made =
  gm_groups :: "'g groups"
  gm_owned :: "nat list list"
  gm_made :: "nat list list"

definition make_group :: "'g group_env \<Rightarrow> (nat list \<Rightarrow> 'g) \<Rightarrow> nat list list \<Rightarrow> nat list list \<Rightarrow> nat list \<Rightarrow> 'g groups_made \<Rightarrow> 'g groups_made" where
  "make_group env new_group needed absent_somewhere ranks st =
     (let fresh = ranks \<in> set absent_somewhere;
          st1 = (if fresh then st\<lparr>gm_made := gm_made st @ [ranks]\<rparr> else st)
      in if ranks \<notin> set needed then st1
         else if \<not> fresh then st1\<lparr>gm_groups := (gm_groups st1)(ranks \<mapsto> existing_group env ranks)\<rparr>
         else st1\<lparr>gm_groups := (gm_groups st1)(ranks \<mapsto> Some (new_group ranks)), gm_owned := gm_owned st1 @ [ranks]\<rparr>)"

definition build_broadcast_groups :: "'g group_env \<Rightarrow> (nat list \<Rightarrow> 'g) \<Rightarrow> 'g groups \<Rightarrow> group_report list \<Rightarrow> read_item list \<Rightarrow> 'g groups_made" where
  "build_broadcast_groups env new_group supplied gathered items =
     fold (make_group env new_group (needed_groups supplied items) (concat (map snd gathered)))
       (sort (remdups (concat (map fst gathered)))) \<lparr>gm_groups = supplied, gm_owned = [], gm_made = []\<rparr>"

text \<open>The groups a rank destroys after its load, in their order.\<close>

definition destroy_broadcast_groups :: "'g groups_made \<Rightarrow> nat list list" where
  "destroy_broadcast_groups st = sort (gm_owned st)"

text \<open>The groups of a rank, after all ranks have gathered their reports.\<close>

definition broadcast_groups_for_load ::
    "(nat \<Rightarrow> 'g group_env) \<Rightarrow> (nat \<Rightarrow> nat list \<Rightarrow> 'g) \<Rightarrow> (nat \<Rightarrow> 'g groups) \<Rightarrow> load_plan list \<Rightarrow> nat \<Rightarrow> 'g groups_made" where
  "broadcast_groups_for_load envs new_group supplied plans r =
     build_broadcast_groups (envs r) (new_group r) (supplied r)
       (map (\<lambda>q. group_report (envs q) (supplied q) (lp_items (plans ! q))) [0..<length plans]) (lp_items (plans ! r))"

section \<open>What is built\<close>

lemma needed_iff: "g \<in> set (needed_groups supplied items) \<longleftrightarrow>
    (\<exists>it \<in> set items. \<exists>src. ri_source it = Some src \<and> group_ranks src = g \<and> supplied g = None)"
proof -
  have "g \<in> set (case ri_source it of None \<Rightarrow> [] | Some src \<Rightarrow> if supplied (group_ranks src) = None then [group_ranks src] else []) \<longleftrightarrow>
      (\<exists>src. ri_source it = Some src \<and> group_ranks src = g \<and> supplied g = None)" for it :: read_item
    by (cases "ri_source it") auto
  then show ?thesis unfolding needed_groups_def by (simp only: set_sort set_remdups set_concat set_map UN_iff bex_simps Union_iff)
qed

lemma needed_sorted: "sorted (needed_groups supplied items)" "distinct (needed_groups supplied items)"
  by (simp_all add: needed_groups_def)

lemma made_groups:
  assumes "distinct xs"
  shows "gm_made (fold (make_group env new_group needed absent) xs st) = gm_made st @ filter (\<lambda>g. g \<in> set absent) xs"
    "gm_owned (fold (make_group env new_group needed absent) xs st) = gm_owned st @ filter (\<lambda>g. g \<in> set absent \<and> g \<in> set needed) xs"
    "gm_groups (fold (make_group env new_group needed absent) xs st) g =
       (if g \<in> set xs \<and> g \<in> set needed then Some (if g \<in> set absent then Some (new_group g) else existing_group env g) else gm_groups st g)"
  using assms by (induction xs arbitrary: st) (simp_all add: make_group_def Let_def)

lemma built_groups:
  fixes env :: "'g group_env" and new_group supplied gathered items
  defines "st \<equiv> build_broadcast_groups env new_group supplied gathered items"
    and "wanted \<equiv> sort (remdups (concat (map fst gathered)))"
  shows "gm_made st = filter (\<lambda>g. g \<in> set (concat (map snd gathered))) wanted"
    "gm_owned st = filter (\<lambda>g. g \<in> set (concat (map snd gathered)) \<and> g \<in> set (needed_groups supplied items)) wanted"
    "g \<in> set wanted \<Longrightarrow> g \<in> set (needed_groups supplied items) \<Longrightarrow>
       gm_groups st g = Some (if g \<in> set (gm_made st) then Some (new_group g) else existing_group env g)"
    "supplied g \<noteq> None \<Longrightarrow> gm_groups st g = supplied g"
proof -
  have "distinct wanted" by (simp add: wanted_def)
  note made = made_groups [OF this, of env new_group "needed_groups supplied items" "concat (map snd gathered)" "\<lparr>gm_groups = supplied, gm_owned = [], gm_made = []\<rparr>"]
  have st: "st = fold (make_group env new_group (needed_groups supplied items) (concat (map snd gathered))) wanted
      \<lparr>gm_groups = supplied, gm_owned = [], gm_made = []\<rparr>"
    by (simp add: st_def wanted_def build_broadcast_groups_def)
  show m: "gm_made st = filter (\<lambda>g. g \<in> set (concat (map snd gathered))) wanted"
    and "gm_owned st = filter (\<lambda>g. g \<in> set (concat (map snd gathered)) \<and> g \<in> set (needed_groups supplied items)) wanted"
    unfolding st using made(1,2) by simp_all
  show "g \<in> set wanted \<Longrightarrow> g \<in> set (needed_groups supplied items) \<Longrightarrow>
       gm_groups st g = Some (if g \<in> set (gm_made st) then Some (new_group g) else existing_group env g)"
    unfolding m unfolding st made(3) by simp
  show "supplied g \<noteq> None \<Longrightarrow> gm_groups st g = supplied g"
    unfolding st made(3) by (auto simp: needed_iff)
qed

text \<open>All ranks together: who makes, uses and destroys a group.\<close>

lemma gathered_reports:
  fixes envs :: "nat \<Rightarrow> 'g group_env" and supplied plans
  defines "reports \<equiv> map (\<lambda>q. group_report (envs q) (supplied q) (lp_items (plans ! q))) [0..<length plans]"
  shows "g \<in> set (concat (map fst (reports))) \<longleftrightarrow> (\<exists>q < length plans. g \<in> set (needed_groups (supplied q) (lp_items (plans ! q))))"
    "g \<in> set (concat (map snd (reports))) \<longleftrightarrow>
       (\<exists>q < length plans. g \<in> set (needed_groups (supplied q) (lp_items (plans ! q))) \<and> existing_group (envs q) g = None)"
  unfolding reports_def by (auto simp: group_report_def Let_def)

lemma groups_for_load:
  fixes envs :: "nat \<Rightarrow> 'g group_env" and new_group supplied plans
  defines "st \<equiv> broadcast_groups_for_load envs new_group supplied plans"
  shows "gm_made (st r) = gm_made (st q)"
    "sorted (gm_made (st r)) \<and> distinct (gm_made (st r))"
    "set (gm_made (st r)) =
       {g. \<exists>q < length plans. g \<in> set (needed_groups (supplied q) (lp_items (plans ! q))) \<and> existing_group (envs q) g = None}"
    "destroy_broadcast_groups (st r) =
       filter (\<lambda>g. g \<in> set (needed_groups (supplied r) (lp_items (plans ! r)))) (gm_made (st r))"
    "r < length plans \<Longrightarrow> g \<in> set (needed_groups (supplied r) (lp_items (plans ! r))) \<Longrightarrow>
       gm_groups (st r) g =
         Some (if g \<in> set (gm_made (st r)) then Some (new_group r g) else existing_group (envs r) g)"
    "supplied r g \<noteq> None \<Longrightarrow> gm_groups (st r) g = supplied r g"
proof -
  let ?made = "gm_made (st r)"
  show "?made = gm_made (st q)"
    unfolding st_def broadcast_groups_for_load_def built_groups(1) by (rule refl)
  show sorted: "sorted ?made \<and> distinct ?made"
    unfolding st_def broadcast_groups_for_load_def built_groups(1) by (intro conjI sorted_filter [where f = id, simplified] distinct_filter) simp_all
  show "set ?made = {g. \<exists>q < length plans. g \<in> set (needed_groups (supplied q) (lp_items (plans ! q))) \<and> existing_group (envs q) g = None}"
    unfolding st_def broadcast_groups_for_load_def built_groups(1) set_filter set_sort set_remdups gathered_reports by blast
  have "gm_owned (st r) = filter (\<lambda>g. g \<in> set (needed_groups (supplied r) (lp_items (plans ! r)))) ?made"
    unfolding st_def broadcast_groups_for_load_def built_groups(1,2) filter_filter by (rule refl)
  moreover have "sorted (filter P ?made)" for P using sorted sorted_filter [of id ?made P] by simp
  ultimately show "destroy_broadcast_groups (st r) = filter (\<lambda>g. g \<in> set (needed_groups (supplied r) (lp_items (plans ! r)))) ?made"
    by (simp add: destroy_broadcast_groups_def sorted_sort_id)
  show "r < length plans \<Longrightarrow> g \<in> set (needed_groups (supplied r) (lp_items (plans ! r))) \<Longrightarrow>
       gm_groups (st r) g = Some (if g \<in> set ?made then Some (new_group r g) else existing_group (envs r) g)"
    unfolding st_def broadcast_groups_for_load_def by (rule built_groups(3)) (auto simp: group_report_def Let_def)
  show "supplied r g \<noteq> None \<Longrightarrow> gm_groups (st r) g = supplied r g"
    unfolding st_def broadcast_groups_for_load_def by (rule built_groups(4))
qed

section \<open>The groups of a load with broadcasts\<close>

text \<open>The groups a rank needs are those of the shards it shares, less the supplied ones.\<close>

lemma needed_marked:
  assumes sources: "load_sources md plans = Inr sources" and typed: "\<forall>plan \<in> set plans. typed_plan md plan" and r: "r < length plans"
  shows "g \<in> set (needed_groups supplied (lp_items (marked sources (plans ! r)))) \<longleftrightarrow>
    r \<in> set g \<and> supplied g = None \<and> (\<exists>src \<in> snd ` set sources. group_ranks src = g)"
proof -
  have raw: "\<forall>it \<in> set (lp_items (plans ! r)). ri_source it = None" using typed r by (auto simp: typed_plan_def)
  have good: "good_source plans k src" if "(k, src) \<in> set sources" for k src
    using that sources_spec(1) [OF sources] sources_distinct [OF sources] by simp
  show ?thesis
  proof
    assume "g \<in> set (needed_groups supplied (lp_items (marked sources (plans ! r))))"
    then obtain it src where it: "it \<in> set (lp_items (plans ! r))" "ri_source (mark_item sources it) = Some src" "group_ranks src = g" "supplied g = None"
      by (auto simp: needed_iff marked_def)
    then have found: "map_of sources (dest_key it) = Some src" using raw by (auto simp: mark_item_def split: option.splits)
    then have mem: "(dest_key it, src) \<in> set sources" by (rule map_of_SomeD)
    have "load_holders plans (dest_key it) \<noteq> {}" using good [OF mem] by (auto simp: good_source_def)
    then have "r \<in> load_holders plans (dest_key it)" using typed_tensor [OF typed r it(1)] by blast
    then have "r \<in> set g" using good [OF mem] it(3) by (simp add: good_source_def)
    then show "r \<in> set g \<and> supplied g = None \<and> (\<exists>src \<in> snd ` set sources. group_ranks src = g)" using it(3,4) mem by force
  next
    assume g: "r \<in> set g \<and> supplied g = None \<and> (\<exists>src \<in> snd ` set sources. group_ranks src = g)"
    then obtain k src where src: "(k, src) \<in> set sources" "group_ranks src = g" by auto
    then have "r \<in> load_holders plans k" using good [OF src(1)] g by (simp add: good_source_def)
    then obtain it where it: "it \<in> set (lp_items (plans ! r))" "dest_key it = k" by (auto simp: load_holders_def)
    have "map_of sources k = Some src" using src(1) sources_distinct [OF sources] by simp
    then have "ri_source (mark_item sources it) = Some src" using it(2) by (simp add: mark_item_def)
    then show "g \<in> set (needed_groups supplied (lp_items (marked sources (plans ! r))))"
      using it(1) src(2) g by (auto simp: needed_iff marked_def)
  qed
qed

lemma load_groups_ok:
  fixes envs :: "nat \<Rightarrow> 'g group_env" and new_group
  assumes sources: "load_sources md plans = Inr sources" and typed: "\<forall>plan \<in> set plans. typed_plan md plan"
    and given: "\<forall>g. \<forall>r \<in> set g. \<forall>q \<in> set g. supplied r g = None \<longleftrightarrow> supplied q g = None"
    and r: "r < length plans" and q: "q < length plans"
  defines "st \<equiv> broadcast_groups_for_load envs new_group supplied (map (marked sources) plans)"
  shows "gm_made (st r) = gm_made (st q) \<and> sorted (gm_made (st r)) \<and> distinct (gm_made (st r))"
    "destroy_broadcast_groups (st r) = filter (\<lambda>g. r \<in> set g) (gm_made (st r))"
    "it \<in> set (lp_items (marked sources (plans ! r))) \<Longrightarrow> ri_source it = Some src \<Longrightarrow>
       (case supplied r (group_ranks src) of
          Some given \<Rightarrow> gm_groups (st r) (group_ranks src) = Some given
        | None \<Rightarrow> gm_groups (st r) (group_ranks src) = Some (if group_ranks src \<in> set (gm_made (st r)) then Some (new_group r (group_ranks src))
            else existing_group (envs r) (group_ranks src)) \<and>
          (group_ranks src \<notin> set (gm_made (st r)) \<longrightarrow> existing_group (envs r) (group_ranks src) \<noteq> None))"
proof -
  let ?plans = "map (marked sources) plans"
  have len: "length ?plans = length plans" by simp
  have nth: "?plans ! p = marked sources (plans ! p)" if "p < length plans" for p using that by simp
  note all = groups_for_load [where envs = envs and new_group = new_group and supplied = supplied and plans = ?plans, folded st_def, unfolded len]
  have needed: "g \<in> set (needed_groups (supplied p) (lp_items (?plans ! p))) \<longleftrightarrow>
      p \<in> set g \<and> supplied p g = None \<and> (\<exists>src \<in> snd ` set sources. group_ranks src = g)" if "p < length plans" for p g
    unfolding nth [OF that] by (rule needed_marked [OF sources typed that])
  show "gm_made (st r) = gm_made (st q) \<and> sorted (gm_made (st r)) \<and> distinct (gm_made (st r))" using all(1,2) by blast
  have "g \<in> set (needed_groups (supplied r) (lp_items (?plans ! r))) \<longleftrightarrow> r \<in> set g" if made: "g \<in> set (gm_made (st r))" for g
  proof -
    obtain p where p: "p < length plans" "g \<in> set (needed_groups (supplied p) (lp_items (?plans ! p)))" using made unfolding all(3) by blast
    then have p_in: "p \<in> set g" "supplied p g = None" "\<exists>src \<in> snd ` set sources. group_ranks src = g" unfolding needed [OF p(1)] by simp_all
    then have "supplied r g = None" if "r \<in> set g" using given that by metis
    then show ?thesis using p_in(3) unfolding needed [OF r] by metis
  qed
  then show "destroy_broadcast_groups (st r) = filter (\<lambda>g. r \<in> set g) (gm_made (st r))"
    unfolding all(4) by (rule filter_cong [OF refl])
  assume it: "it \<in> set (lp_items (marked sources (plans ! r)))" "ri_source it = Some src"
  let ?g = "group_ranks src"
  show "case supplied r ?g of
          Some given \<Rightarrow> gm_groups (st r) ?g = Some given
        | None \<Rightarrow> gm_groups (st r) ?g = Some (if ?g \<in> set (gm_made (st r)) then Some (new_group r ?g) else existing_group (envs r) ?g) \<and>
          (?g \<notin> set (gm_made (st r)) \<longrightarrow> existing_group (envs r) ?g \<noteq> None)"
  proof (cases "supplied r ?g")
    case (Some x)
    then show ?thesis using all(6) [of r ?g] by simp
  next
    case None
    have need: "?g \<in> set (needed_groups (supplied r) (lp_items (?plans ! r)))" 
      unfolding nth [OF r] needed_iff by (intro bexI [of _ it] exI [of _ src] conjI) (use it None in simp_all)
    have "existing_group (envs r) ?g \<noteq> None" if "?g \<notin> set (gm_made (st r))" 
    proof
      assume "existing_group (envs r) ?g = None"
      then have "?g \<in> set (gm_made (st r))" unfolding all(3) mem_Collect_eq using need r by (intro exI [of _ r] conjI)
      then show False using that by simp
    qed
    then show ?thesis using None all(5) [OF r need] by simp
  qed
qed

text \<open>
  C37.  The groups of a load are made and destroyed in step.  All ranks call \<open>new_group\<close> for the same groups in the same
  order, whatever their caches hold; a group that was made is destroyed by exactly its members, in that order; every item that
  takes part in a broadcast finds its group: the supplied one, the new one, or, when no rank missed it, the existing
  one.  The caller must supply a group to all of its ranks or to none.
\<close>

theorem broadcast_groups_agree:
  assumes "load_sources md plans = Inr sources" "\<forall>plan \<in> set plans. typed_plan md plan"
    and "\<forall>g. \<forall>r \<in> set g. \<forall>q \<in> set g. supplied r g = None \<longleftrightarrow> supplied q g = None"
    and "r < length plans" "q < length plans"
    and "it \<in> set (lp_items (marked sources (plans ! r)))" "ri_source it = Some src"
  shows "let st = broadcast_groups_for_load envs new_group supplied (map (marked sources) plans) in
    gm_made (st r) = gm_made (st q) \<and> sorted (gm_made (st r)) \<and> distinct (gm_made (st r)) \<and>
    destroy_broadcast_groups (st r) = filter (\<lambda>g. r \<in> set g) (gm_made (st r)) \<and>
    (case supplied r (group_ranks src) of
       Some given \<Rightarrow> gm_groups (st r) (group_ranks src) = Some given
     | None \<Rightarrow> gm_groups (st r) (group_ranks src) = Some (if group_ranks src \<in> set (gm_made (st r)) then Some (new_group r (group_ranks src))
         else existing_group (envs r) (group_ranks src)) \<and>
       (group_ranks src \<notin> set (gm_made (st r)) \<longrightarrow> existing_group (envs r) (group_ranks src) \<noteq> None))"
proof -
  note ok = load_groups_ok [where envs = envs and new_group = new_group, OF assms(1-5)]
  show ?thesis unfolding Let_def using ok(1,2) ok(3) [OF assms(6,7)] by blast
qed

text \<open>Three ranks; the first two share a shard, and only the first has a group of them in its cache.\<close>

definition lone_env :: "nat \<Rightarrow> string group_env" where
  "lone_env r = \<lparr>world_size = 3, existing_comm_groups = (\<lambda>ranks. if r = 0 \<and> ranks = [0, 1] then Some ''cached'' else None), default_group = ''world''\<rparr>"

lemma broadcast_groups_agree_witness:
  "\<exists>sources. load_sources \<lparr>md_state_dict = [(''w'', TensorStorage \<lparr>ts_properties = \<lparr>tp_dtype = None, tp_requires_grad = False, tp_memory_format = None\<rparr>,
       ts_size = [8], ts_chunks = []\<rparr>)], md_planner_data = None\<rparr> three_plans = Inr sources \<and>
     (let st = broadcast_groups_for_load lone_env (\<lambda>r g. ''new'') (\<lambda>r. Map.empty) (map (marked sources) three_plans) in
      gm_made (st 0) = [[0, 1]] \<and> gm_made (st 2) = [[0, 1]] \<and> gm_groups (st 0) [0, 1] = Some (Some ''new'') \<and>
      destroy_broadcast_groups (st 0) = [[0, 1]])"
proof -
  let ?md = "\<lparr>md_state_dict = [(''w'', TensorStorage \<lparr>ts_properties = \<lparr>tp_dtype = None, tp_requires_grad = False, tp_memory_format = None\<rparr>,
       ts_size = [8], ts_chunks = []\<rparr>)], md_planner_data = None\<rparr>"
  let ?sources = "[((''w'', [0]), \<lparr>group_ranks = [0, 1], src_rank = 0\<rparr>)]"
  let ?st = "broadcast_groups_for_load lone_env (\<lambda>r g. ''new'') (\<lambda>r. Map.empty) (map (marked ?sources) three_plans)"
  have sources: "load_sources ?md three_plans = Inr ?sources" by code_simp
  have typed: "\<forall>plan \<in> set three_plans. typed_plan ?md plan" by (simp add: three_plans_def typed_plan_def shard_read_def)
  have item: "(shard_read 0)\<lparr>ri_source := Some \<lparr>group_ranks = [0, 1], src_rank = 0\<rparr>\<rparr> \<in> set (lp_items (marked ?sources (three_plans ! 0)))"
    by (simp add: three_plans_def marked_def mark_item_def shard_read_def mi_key_def)
  have made: "gm_made (?st 0) = [[0, 1]]" by code_simp
  have "0 < length three_plans" "2 < length three_plans" by (simp_all add: three_plans_def)
  from broadcast_groups_agree [where supplied = "\<lambda>r. Map.empty" and envs = lone_env and new_group = "\<lambda>r g. ''new''" and src = "\<lparr>group_ranks = [0, 1], src_rank = 0\<rparr>",
      OF sources typed _ this item] made
  have "gm_made (?st 2) = [[0, 1]]" "gm_groups (?st 0) [0, 1] = Some (Some ''new'')" "destroy_broadcast_groups (?st 0) = [[0, 1]]"
    by (simp_all add: Let_def shard_read_def)
  with sources made show ?thesis by (intro exI [of _ ?sources]) (simp add: Let_def)
qed

end
