(* ===== verification/RaggedData.thy ===== *)
theory RaggedData
  imports CkptLoad
begin

text \<open>
  The data of a RaggedShard in a checkpoint: \<open>get_ragged_box_tensor\<close> of \<open>ragged.py\<close> cuts the box of a write or read
  item out of the flat local storage.  The theorem ties the cut to the tensor: it is the box of the tensor.
\<close>

section \<open>Boxes of the flat storage\<close>

text \<open>Row-major index of an element and back: \<open>reshape\<close>.\<close>

fun ravel :: "int list \<Rightarrow> int list \<Rightarrow> int" where
  "ravel (n # ns) (x # xs) = x * prod_list ns + ravel ns xs"
| "ravel _ _ = 0"

fun unravel :: "int list \<Rightarrow> int \<Rightarrow> int list" where
  "unravel [] k = []"
| "unravel (n # ns) k = k div prod_list ns # unravel ns (k mod prod_list ns)"

definition flat_at :: "'v nd \<Rightarrow> int \<Rightarrow> 'v" where
  "flat_at t k = nd_at t (unravel (nd_shape t) k)"

definition get_ragged_box_tensor :: "int \<Rightarrow> dtensor \<Rightarrow> layout \<Rightarrow> 'v nd \<Rightarrow> int list \<Rightarrow> 'v nd res" where
  "get_ragged_box_tensor rank t layout local requested_offset =
     rbind (ragged_boxes_of rank (dt_shape t) layout) (\<lambda>boxes.
       case find (\<lambda>box. box_offsets box = requested_offset) boxes of
         None \<Rightarrow> Inl ValueError
       | Some box \<Rightarrow> Inr \<lparr>nd_shape = box_sizes box,
           nd_at = (\<lambda>idx. flat_at local (local_flat_start box + ravel (box_sizes box) idx))\<rparr>)"

section \<open>Row-major order\<close>

lemma ravel_bounds: "in_box sizes idx \<Longrightarrow> 0 \<le> ravel sizes idx \<and> ravel sizes idx < prod_list sizes"
  unfolding in_box_def
proof (induction sizes idx rule: list_all2_induct)
  case (Cons n ns x xs)
  have "x * prod_list ns + prod_list ns \<le> n * prod_list ns"
    using mult_right_mono [of "x + 1" n "prod_list ns"] Cons by (simp add: algebra_simps)
  moreover have "0 \<le> x * prod_list ns" using Cons by simp
  ultimately show ?case using Cons.IH by simp
qed simp

lemma unravel_ravel: "in_box shape p \<Longrightarrow> unravel shape (ravel shape p) = p"
  unfolding in_box_def
proof (induction shape p rule: list_all2_induct)
  case (Cons n ns x xs)
  have "0 \<le> ravel ns xs \<and> ravel ns xs < prod_list ns" using ravel_bounds [of ns xs] Cons by (simp add: in_box_def)
  then show ?case using Cons by simp
qed simp

lemma nth_concat_rows:
  assumes "\<forall>r \<in> set rows. length r = m" "x < length rows" "y < m"
  shows "concat rows ! (x * m + y) = rows ! x ! y"
  using assms
proof (induction rows arbitrary: x)
  case (Cons r rows)
  then show ?case by (cases x) (auto simp: nth_append)
qed simp

lemma box_flats_length:
  assumes "box_within shape (os, ss)"
  shows "length (box_flats shape os ss) = nat (prod_list ss)"
  using assms
proof (induction shape os ss rule: box_flats.induct)
  case (1 n ns start os extent ss)
  have sub: "box_within ns (os, ss)" "1 \<le> extent" using 1(2) by (fastforce simp: box_within_def)+
  have "length (box_flats (n # ns) (start # os) (extent # ss)) = nat extent * nat (prod_list ss)"
    using 1(1) [of start, OF _ sub(1)] sub by (simp add: length_concat comp_def sum_list_triv)
  then show ?case using sub(2) by (simp add: nat_mult_distrib)
qed (auto simp: box_within_def)

lemma box_flats_nth:
  assumes "box_within shape (os, ss)" "in_box ss idx"
  shows "box_flats shape os ss ! nat (ravel ss idx) = ravel shape (shift os idx)"
  using assms
proof (induction shape os ss arbitrary: idx rule: box_flats.induct)
  case (1 n ns start os extent ss)
  have sub: "box_within ns (os, ss)" "1 \<le> extent" using 1(2) by (fastforce simp: box_within_def)+
  obtain x xs where idx: "idx = x # xs" "0 \<le> x" "x < extent" "in_box ss xs"
    using 1(3) by (cases idx) (auto simp: in_box_def)
  let ?B = "box_flats ns os ss"
  have len: "length ?B = nat (prod_list ss)" by (rule box_flats_length [OF sub(1)])
  note rb = ravel_bounds [OF idx(4)]
  have "nat (ravel (extent # ss) idx) = nat x * nat (prod_list ss) + nat (ravel ss xs)"
    using rb idx(2) by (simp add: idx(1) nat_add_distrib nat_mult_distrib)
  then have "box_flats (n # ns) (start # os) (extent # ss) ! nat (ravel (extent # ss) idx) =
      map (\<lambda>i. map (\<lambda>f. i * prod_list ns + f) ?B) [start..start + extent - 1] ! nat x ! nat (ravel ss xs)"
    using nth_concat_rows [of "map (\<lambda>i. map (\<lambda>f. i * prod_list ns + f) ?B) [start..start + extent - 1]" "nat (prod_list ss)" "nat x"
        "nat (ravel ss xs)"] len rb idx(2,3) by simp
  also have "\<dots> = (start + x) * prod_list ns + ?B ! nat (ravel ss xs)"
    using idx(2,3) rb len by simp
  also have "?B ! nat (ravel ss xs) = ravel ns (shift os xs)" by (rule 1(1) [of start, OF _ sub(1) idx(4)]) (use sub(2) in simp)
  finally show ?case by (simp add: idx(1) shift_def)
qed (auto simp: box_within_def in_box_def shift_def)

text \<open>The boxes of a rank with their place in the flat storage.\<close>

lemma place_boxes:
  "fold place_box raw (acc, k) = (acc @ map (\<lambda>i. \<lparr>box_offsets = fst (raw ! i), box_sizes = snd (raw ! i),
      local_flat_start = k + sum_list (map (\<lambda>x. prod_list (snd x)) (take i raw)),
      local_flat_end = k + sum_list (map (\<lambda>x. prod_list (snd x)) (take (Suc i) raw))\<rparr>) [0..<length raw],
    k + sum_list (map (\<lambda>x. prod_list (snd x)) raw))"
proof (induction raw arbitrary: acc k)
  case (Cons x raw)
  obtain os ss where x: "x = (os, ss)" by (cases x)
  have "place_box x (acc, k) = (acc @ [\<lparr>box_offsets = os, box_sizes = ss, local_flat_start = k, local_flat_end = k + prod_list ss\<rparr>],
      k + prod_list ss)" by (simp add: x place_box_def Let_def)
  then show ?case
    by (simp add: x Cons upt_conv_Cons map_Suc_upt [symmetric] comp_def add.assoc del: upt_Suc)
qed simp

lemma flats_lengths:
  assumes "\<forall>x \<in> set raw. box_within shape x"
  shows "int (length (flats shape raw)) = sum_list (map (\<lambda>x. prod_list (snd x)) raw)"
  using assms
proof (induction raw)
  case (Cons x raw)
  obtain os ss where x: "x = (os, ss)" by (cases x)
  have "\<forall>n \<in> set ss. 0 \<le> n" using Cons.prems by (fastforce simp: x box_within_def in_set_conv_nth)
  then have "0 \<le> prod_list ss" by (rule prod_list_nonneg)
  then show ?case using Cons box_flats_length [of shape os ss] by (simp add: x flats_def)
qed (simp add: flats_def)

text \<open>An element of a box: where it lies in the flat storage of the rank and in the tensor.\<close>

lemma box_element:
  assumes within: "\<forall>x \<in> set raw. box_within shape x" and flat: "flats shape raw = [a..b - 1]" and i: "i < length raw"
    and idx: "in_box (snd (raw ! i)) idx"
  defines "start \<equiv> sum_list (map (\<lambda>x. prod_list (snd x)) (take i raw))"
  shows "ravel shape (shift (fst (raw ! i)) idx) = a + start + ravel (snd (raw ! i)) idx"
    and "0 \<le> start" "start + ravel (snd (raw ! i)) idx < b - a"
proof -
  obtain os ss where x: "raw ! i = (os, ss)" by (cases "raw ! i")
  have w: "box_within shape (os, ss)" using within i nth_mem x by metis
  have "raw = take i raw @ (os, ss) # drop (Suc i) raw" using id_take_nth_drop [OF i] x by simp
  then have split: "flats shape raw = flats shape (take i raw) @ box_flats shape os ss @ flats shape (drop (Suc i) raw)"
    by (metis (no_types, lifting) flats_append concat.simps(2) flats_def list.simps(9) case_prod_conv)
  have start: "int (length (flats shape (take i raw))) = start"
    unfolding start_def using within by (intro flats_lengths) (meson in_set_takeD)
  note rb = ravel_bounds [of ss idx]
  have len: "length (box_flats shape os ss) = nat (prod_list ss)" by (rule box_flats_length [OF w])
  have r: "0 \<le> ravel ss idx" "ravel ss idx < prod_list ss" using rb idx by (simp_all add: x)
  have pos: "nat (start + ravel ss idx) = length (flats shape (take i raw)) + nat (ravel ss idx)"
    using start r(1) by linarith
  have "flats shape raw ! nat (start + ravel ss idx) = box_flats shape os ss ! nat (ravel ss idx)"
    unfolding split pos using r len by (simp add: nth_append)
  also have "\<dots> = ravel shape (shift os idx)" using box_flats_nth [OF w] idx by (simp add: x)
  finally have here: "[a..b - 1] ! nat (start + ravel ss idx) = ravel shape (shift os idx)" unfolding flat .
  have "nat (start + ravel ss idx) < length (flats shape raw)" unfolding split pos using r len by simp
  then have bound: "nat (start + ravel ss idx) < nat (b - a)" unfolding flat by simp
  show "0 \<le> start" using start by simp
  then show "start + ravel (snd (raw ! i)) idx < b - a" using bound r(1) by (simp add: x)
  show "ravel shape (shift (fst (raw ! i)) idx) = a + start + ravel (snd (raw ! i)) idx"
    using here bound r(1) \<open>0 \<le> start\<close> by (simp add: x)
qed

lemma unravel_in_box:
  assumes "\<forall>n \<in> set ns. 0 < n" "0 \<le> k" "k < prod_list ns"
  shows "in_box ns (unravel ns k) \<and> ravel ns (unravel ns k) = k"
  using assms
proof (induction ns arbitrary: k)
  case (Cons n ns)
  have pos: "0 < prod_list ns" using Cons.prems(1) by (intro prod_list_pos_int) simp
  have "k div prod_list ns < n" using int_div_less [OF pos, of k n] Cons.prems(3) by simp
  moreover have "0 \<le> k div prod_list ns" using Cons.prems(2) pos by (simp add: pos_imp_zdiv_nonneg_iff)
  moreover have "in_box ns (unravel ns (k mod prod_list ns)) \<and> ravel ns (unravel ns (k mod prod_list ns)) = k mod prod_list ns"
    using Cons.IH [of "k mod prod_list ns"] Cons.prems(1) pos by (simp add: pos_mod_bound)
  ultimately show ?case by (simp add: in_box_def div_mult_mod_eq)
qed (simp add: in_box_def)

lemma shift_in_shape:
  assumes "box_within shape (os, ss)" "in_box ss idx"
  shows "in_box shape (shift os idx)"
  using assms by (auto simp: box_within_def in_box_def list_all2_conv_all_nth) force+

lemma within_sizes: "box_within shape (os, ss) \<Longrightarrow> \<forall>n \<in> set ss. 0 < n"
  by (fastforce simp: box_within_def in_set_conv_nth)

lemma zero_in_box: "box_within shape (os, ss) \<Longrightarrow> in_box ss (replicate (length ss) 0) \<and> shift os (replicate (length ss) 0) = os"
  using within_sizes [of shape os ss]
  by (auto simp: in_box_def list_all2_conv_all_nth box_within_def intro!: nth_equalityI)

lemma starts_increase:
  assumes "\<forall>x \<in> set raw. 0 < prod_list (snd x :: int list)" "i < j" "j \<le> length raw"
  shows "sum_list (map (\<lambda>x. prod_list (snd x)) (take i raw)) < sum_list (map (\<lambda>x. prod_list (snd x)) (take j raw))"
  using assms(2,3)
proof (induction j)
  case (Suc j)
  have "take (Suc j) raw = take j raw @ [raw ! j]" using Suc.prems by (simp add: take_Suc_conv_app_nth)
  moreover have "0 < prod_list (snd (raw ! j))" using assms(1) Suc.prems by simp
  ultimately show ?case using Suc by (cases "i = j") auto
qed simp

lemma find_key: "distinct (map f xs) \<Longrightarrow> x \<in> set xs \<Longrightarrow> find (\<lambda>y. f y = f x) xs = Some x"
proof (induction xs)
  case (Cons y ys)
  have "f y \<noteq> f x" if "x \<noteq> y" using Cons.prems that by auto
  then show ?case using Cons by (cases "x = y") auto
qed simp

definition box_chunk :: "checkpoint_box \<Rightarrow> chunk" where
  "box_chunk box = \<lparr>ch_offsets = box_offsets box, ch_sizes = box_sizes box\<rparr>"

lemma box_covers:
  assumes "box_within shape (os, ss)" "ravel shape p \<in> set (box_flats shape os ss)" "in_box shape p"
  shows "inside (area_of \<lparr>ch_offsets = os, ch_sizes = ss\<rparr>) p"
proof -
  have pos: "\<forall>n \<in> set ss. 0 < n" by (rule within_sizes [OF assms(1)])
  obtain j where j: "j < nat (prod_list ss)" "box_flats shape os ss ! j = ravel shape p"
    using assms(2) box_flats_length [OF assms(1)] by (auto simp: in_set_conv_nth)
  have k: "in_box ss (unravel ss (int j))" "ravel ss (unravel ss (int j)) = int j"
    using unravel_in_box [OF pos, of "int j"] j(1) by auto
  then have "ravel shape (shift os (unravel ss (int j))) = ravel shape p"
    using box_flats_nth [OF assms(1) k(1)] j(2) by simp
  then have p: "shift os (unravel ss (int j)) = p"
    using unravel_ravel [OF assms(3)] unravel_ravel [OF shift_in_shape [OF assms(1) k(1)]] by simp
  have wf: "wf_chunk (length shape) \<lparr>ch_offsets = os, ch_sizes = ss\<rparr>" using assms(1) by (simp add: wf_chunk_def box_within_def)
  have "length (unravel ss (int j)) = length shape" using k(1) assms(1) by (simp add: in_box_def list_all2_lengthD box_within_def)
  from in_box_area [OF wf this] show ?thesis using k(1) p by simp
qed

text \<open>The boxes of a rank, from its interval.\<close>

lemma ragged_boxes_run:
  assumes ok: "ragged_ok shape layout mesh_dim dims units" and r: "get_local_rank layout rank mesh_dim = Inr (int r)" "r < length units"
    and shape: "shape \<noteq> []"
  obtains raw where
    "ragged_boxes_of rank shape layout = Inr (map (\<lambda>i. \<lparr>box_offsets = fst (raw ! i), box_sizes = snd (raw ! i),
       local_flat_start = sum_list (map (\<lambda>x. prod_list (snd x)) (take i raw)),
       local_flat_end = sum_list (map (\<lambda>x. prod_list (snd x)) (take (Suc i) raw))\<rparr>) [0..<length raw])"
    "\<forall>x \<in> set raw. box_within shape x"
    "flats shape raw = [ragged_bound shape dims units r..ragged_bound shape dims units (Suc r) - 1]"
proof -
  let ?a = "ragged_bound shape dims units r" and ?b = "ragged_bound shape dims units (Suc r)"
  have shard: "ragged_shard layout = Some (mesh_dim, RaggedShard dims units)" and nn: "\<forall>n \<in> set shape. 0 \<le> n"
    using ok by (simp_all add: ragged_ok_def)
  note B = ragged_bounds [OF ok]
  have ab: "0 \<le> ?a" "?a \<le> ?b" "?b \<le> prod_list shape"
    using B(1) B(3) [of 0 r] B(3) [of r "Suc r"] B(3) [of "Suc r" "length units"] B(2) r(2) by auto
  obtain raw where raw: "decompose_flat_interval shape ?a ?b = Inr raw" "flats shape raw = [?a..?b - 1]" "\<forall>x \<in> set raw. box_within shape x"
    using decompose_flat_exact [OF shape nn ab] by blast
  have "sum_list (map (\<lambda>x. prod_list (snd x)) raw) = ?b - ?a"
    using flats_lengths [OF raw(3)] ab(2) unfolding raw(2) by simp
  then show ?thesis
    using that [OF _ raw(3,2)] ragged_slice_eq [OF ok r(2)] raw(1) place_boxes [of raw "[]" 0]
    by (simp add: ragged_boxes_of_def compute_ragged_boxes_def shard r(1) local_numel_def)
qed

lemma ragged_box_values:
  assumes ok: "ragged_ok (dt_shape t) layout mesh_dim dims units" and r: "get_local_rank layout rank mesh_dim = Inr (int r)" "r < length units"
    and shape: "dt_shape t \<noteq> []"
    and local: "nd_shape local = [n]"
      "\<forall>k. 0 \<le> k \<and> k < ragged_bound (dt_shape t) dims units (Suc r) - ragged_bound (dt_shape t) dims units r \<longrightarrow>
         nd_at local [k] = G (unravel (dt_shape t) (ragged_bound (dt_shape t) dims units r + k))"
  shows "\<exists>boxes. ragged_boxes_of rank (dt_shape t) layout = Inr boxes \<and> distinct (map box_offsets boxes) \<and>
    (\<forall>box \<in> set boxes. wf_chunk (length (dt_shape t)) (box_chunk box) \<and> (\<exists>d. get_ragged_box_tensor rank t layout local (box_offsets box) = Inr d \<and>
       nd_shape d = box_sizes box \<and> (\<forall>idx. in_box (box_sizes box) idx \<longrightarrow> nd_at d idx = G (shift (box_offsets box) idx)))) \<and>
    (\<forall>p. in_box (dt_shape t) p \<and> ragged_bound (dt_shape t) dims units r \<le> ravel (dt_shape t) p \<and>
       ravel (dt_shape t) p < ragged_bound (dt_shape t) dims units (Suc r) \<longrightarrow> (\<exists>box \<in> set boxes. inside (area_of (box_chunk box)) p))"
proof -
  let ?shape = "dt_shape t" and ?a = "ragged_bound (dt_shape t) dims units r" and ?b = "ragged_bound (dt_shape t) dims units (Suc r)"
  obtain raw where raw: "ragged_boxes_of rank ?shape layout = Inr (map (\<lambda>i. \<lparr>box_offsets = fst (raw ! i), box_sizes = snd (raw ! i),
       local_flat_start = sum_list (map (\<lambda>x. prod_list (snd x)) (take i raw)),
       local_flat_end = sum_list (map (\<lambda>x. prod_list (snd x)) (take (Suc i) raw))\<rparr>) [0..<length raw])"
    "\<forall>x \<in> set raw. box_within ?shape x" "flats ?shape raw = [?a..?b - 1]"
    by (rule ragged_boxes_run [OF ok r shape])
  let ?start = "\<lambda>i. sum_list (map (\<lambda>x. prod_list (snd x)) (take i raw))"
  let ?boxes = "map (\<lambda>i. \<lparr>box_offsets = fst (raw ! i), box_sizes = snd (raw ! i), local_flat_start = ?start i,
       local_flat_end = ?start (Suc i)\<rparr>) [0..<length raw]"
  have w: "box_within ?shape (fst (raw ! i), snd (raw ! i))" if "i < length raw" for i using raw(2) that by simp
  have start: "ravel ?shape (fst (raw ! i)) = ?a + ?start i" if i: "i < length raw" for i
  proof -
    note z = zero_in_box [OF w [OF i]]
    have "ravel (snd (raw ! i)) (replicate (length (snd (raw ! i))) 0) = 0"
    proof -
      have "ravel ss (replicate (length ss) 0) = 0" for ss by (induction ss) auto
      then show ?thesis .
    qed
    then show ?thesis using box_element(1) [OF raw(2,3) i, of "replicate (length (snd (raw ! i))) 0"] z by simp
  qed
  have numel: "\<forall>x \<in> set raw. 0 < prod_list (snd x)"
    using raw(2) within_sizes prod_list_pos_int by (metis prod.collapse)
  have "distinct (map (\<lambda>i. fst (raw ! i)) [0..<length raw])"
  proof (simp add: distinct_map inj_on_def, intro ballI impI)
    fix i j assume "i \<in> {0..<length raw}" "j \<in> {0..<length raw}" and eq: "fst (raw ! i) = fst (raw ! j)"
    then have ij: "i < length raw" "j < length raw" by auto
    then have "?start i = ?start j" using start eq by (metis add_left_cancel)
    then show "i = j" using starts_increase [OF numel, of i j] starts_increase [OF numel, of j i] ij
      by (metis less_imp_le less_irrefl linorder_neqE_nat)
  qed
  then have dist: "distinct (map box_offsets ?boxes)" by (simp add: comp_def)
  have data: "\<exists>d. get_ragged_box_tensor rank t layout local (box_offsets box) = Inr d \<and> nd_shape d = box_sizes box \<and>
      (\<forall>idx. in_box (box_sizes box) idx \<longrightarrow> nd_at d idx = G (shift (box_offsets box) idx))" if box: "box \<in> set ?boxes" for box
  proof -
    obtain i where i: "i < length raw" "box = ?boxes ! i" using box by (auto simp: in_set_conv_nth)
    have "find (\<lambda>b. box_offsets b = box_offsets box) ?boxes = Some box" by (rule find_key [OF dist box])
    then have "get_ragged_box_tensor rank t layout local (box_offsets box) = Inr \<lparr>nd_shape = box_sizes box,
        nd_at = (\<lambda>idx. flat_at local (local_flat_start box + ravel (box_sizes box) idx))\<rparr>"
      by (simp add: get_ragged_box_tensor_def raw(1))
    moreover have "flat_at local (local_flat_start box + ravel (box_sizes box) idx) = G (shift (box_offsets box) idx)"
      if idx: "in_box (box_sizes box) idx" for idx
    proof -
      have idx': "in_box (snd (raw ! i)) idx" using idx i by simp
      note el = box_element [OF raw(2,3) i(1) idx']
      have p: "in_box ?shape (shift (fst (raw ! i)) idx)" by (rule shift_in_shape [OF w [OF i(1)] idx'])
      have "0 \<le> ravel (snd (raw ! i)) idx" using ravel_bounds [OF idx'] by simp
      then have "nd_at local [?start i + ravel (snd (raw ! i)) idx] = G (unravel ?shape (?a + (?start i + ravel (snd (raw ! i)) idx)))"
        using local(2) el(2,3) by simp
      also have "?a + (?start i + ravel (snd (raw ! i)) idx) = ravel ?shape (shift (fst (raw ! i)) idx)" using el(1) by simp
      finally show ?thesis using i unravel_ravel [OF p] by (simp add: flat_at_def local(1))
    qed
    ultimately show ?thesis by (intro exI conjI) auto
  qed
  have wf: "wf_chunk (length ?shape) (box_chunk box)" if "box \<in> set ?boxes" for box
    using that w by (auto simp: wf_chunk_def box_chunk_def box_within_def)
  have cover: "\<exists>box \<in> set ?boxes. inside (area_of (box_chunk box)) p"
    if p: "in_box ?shape p" "?a \<le> ravel ?shape p" "ravel ?shape p < ?b" for p
  proof -
    have "ravel ?shape p \<in> set (flats ?shape raw)" using p by (simp add: raw(3))
    then obtain i where i: "i < length raw" "ravel ?shape p \<in> set (box_flats ?shape (fst (raw ! i)) (snd (raw ! i)))"
      by (auto simp: flats_def case_prod_unfold in_set_conv_nth [of _ raw])
    have "inside (area_of (box_chunk (?boxes ! i))) p"
      using box_covers [OF w [OF i(1)] i(2) p(1)] i(1) by (simp add: box_chunk_def)
    moreover have "?boxes ! i \<in> set ?boxes" using i(1) by (intro nth_mem) simp
    ultimately show ?thesis by blast
  qed
  show ?thesis using raw(1) dist data wf cover by (intro exI [of _ ?boxes]) blast
qed

end
