(* ===== verification/CkptReshard.thy ===== *)
theory CkptReshard
  imports CkptStore RaggedData
begin

text \<open>
  A checkpoint from end to end: the data a save planner hands to the storage (\<open>StandardSavePlanner.get_data\<close>,
  \<open>get_ragged_box_tensor\<close>), and the theorem that a tensor saved by all ranks in any sharding is read back, in
  any other sharding, element for element.
\<close>

section \<open>The data of an item\<close>

text \<open>\<open>local\<close> is the local tensor of every entry, by name.\<close>

definition get_data :: "int \<Rightarrow> (string \<times> entry) list \<Rightarrow> (string \<Rightarrow> 'v nd) \<Rightarrow> write_item \<Rightarrow> 'v nd res" where
  "get_data rank sd local item =
     (case map_of sd (item_fqn item) of
        None \<Rightarrow> Inl KeyError
      | Some obj \<Rightarrow>
          (case wi_type item of
             Tensor \<Rightarrow>
               (case obj of
                  DTensor t \<Rightarrow>
                    (case dt_layout t of
                       None \<Rightarrow> Inr (local (item_fqn item))
                     | Some layout \<Rightarrow>
                         if ragged_shard layout \<noteq> None
                         then get_ragged_box_tensor rank t layout (local (item_fqn item)) (mi_offset (wi_index item))
                         else Inr (local (item_fqn item)))
                | PlainTensor t \<Rightarrow> Inr (local (item_fqn item))
                | OtherObject \<Rightarrow> Inl TypeError)
           | ByteIO \<Rightarrow> Inl TypeError))"

section \<open>The items that are kept\<close>

lemma mask_lengths:
  "length (plan_ownership_masks mr plans) = length plans"
  "r < length plans \<Longrightarrow> length (plan_ownership_masks mr plans ! r) = length (sp_items (plans ! r))"
proof -
  have eq: "map length (plan_ownership_masks mr plans) = map (\<lambda>plan. length (sp_items plan)) plans" by (rule ownership_facts(1))
  show len: "length (plan_ownership_masks mr plans) = length plans" using arg_cong [OF eq, of length] by simp
  show "length (plan_ownership_masks mr plans ! r) = length (sp_items (plans ! r))" if "r < length plans"
    using arg_cong [OF eq, of "\<lambda>xs. xs ! r"] len that by simp
qed

definition kept_slots :: "bool list list \<Rightarrow> save_plan list \<Rightarrow> nat \<Rightarrow> (nat \<times> nat) list" where
  "kept_slots masks plans r = map (Pair r) (filter (\<lambda>i. masks ! r ! i) [0..<length (sp_items (plans ! r))])"

lemma compress_nth: "length keep = length xs \<Longrightarrow> compress xs keep = map (\<lambda>i. xs ! i) (filter (\<lambda>i. keep ! i) [0..<length xs])"
proof (induction xs arbitrary: keep)
  case (Cons x xs)
  then obtain b bs where keep: "keep = b # bs" by (cases keep) auto
  then have "compress xs bs = map (\<lambda>i. xs ! i) (filter (\<lambda>i. bs ! i) [0..<length xs])" using Cons by simp
  then show ?case
    by (simp add: keep compress_def upt_conv_Cons map_Suc_upt [symmetric] filter_map comp_def del: upt_Suc)
qed (simp add: compress_def)

lemma kept_items_slots:
  assumes "r < length plans" "masks = plan_ownership_masks mr plans"
  shows "kept_items (Some masks) (r, plans ! r) = map (item_at plans) (kept_slots masks plans r)"
  using mask_lengths(2) [OF assms(1)] by (simp add: kept_items_def compress_nth kept_slots_def item_at_def assms(2))

lemma kept_before_slots:
  assumes "n \<le> length plans" "masks = plan_ownership_masks mr plans"
  shows "kept_before (Some masks) plans n = map (item_at plans) (concat (map (kept_slots masks plans) [0..<n]))"
  using assms(1)
proof (induction n)
  case (Suc n)
  have "kept_before (Some masks) plans (Suc n) = kept_before (Some masks) plans n @ kept_items (Some masks) (n, plans ! n)"
    using Suc.prems by (simp add: kept_before_def take_Suc_conv_app_nth nth_enumerate_eq)
  then show ?case using Suc kept_items_slots [OF _ assms(2), of n] by simp
qed (simp add: kept_before_def)

lemma kept_slot_iff:
  "slot \<in> set (concat (map (kept_slots masks plans) [0..<length plans])) \<longleftrightarrow>
    (\<exists>k. holds_item plans k slot) \<and> masks ! fst slot ! snd slot"
  by (cases slot) (auto simp: kept_slots_def holds_item_def)

lemma kept_slots_distinct: "distinct (concat (map (kept_slots masks plans) [0..<n]))"
  by (induction n) (auto simp: kept_slots_def distinct_map inj_on_def)

text \<open>Among the kept items every key occurs once, and no key is lost.\<close>

lemma kept_keys:
  assumes "masks = plan_ownership_masks mr plans"
  shows "distinct (map item_key (kept_before (Some masks) plans (length plans)))"
    and "holds_item plans k slot \<Longrightarrow> \<exists>r < length plans. \<exists>it \<in> set (kept_items (Some masks) (r, plans ! r)). item_key it = k"
proof -
  let ?slots = "concat (map (kept_slots masks plans) [0..<length plans])"
  have "inj_on (\<lambda>s. item_key (item_at plans s)) (set ?slots)"
  proof (rule inj_onI)
    fix s t assume "s \<in> set ?slots" "t \<in> set ?slots" "item_key (item_at plans s) = item_key (item_at plans t)"
    then have "holds_item plans (item_key (item_at plans s)) s \<and> masks ! fst s ! snd s"
      "holds_item plans (item_key (item_at plans s)) t \<and> masks ! fst t ! snd t"
      unfolding kept_slot_iff by (auto simp: holds_item_def)
    then show "s = t" using ownership_facts(2) unfolding assms by blast
  qed
  then show "distinct (map item_key (kept_before (Some masks) plans (length plans)))"
    using kept_slots_distinct [of masks plans "length plans"]
    by (simp add: kept_before_slots [OF order_refl assms] distinct_map comp_def)
  show "\<exists>r < length plans. \<exists>it \<in> set (kept_items (Some masks) (r, plans ! r)). item_key it = k" if k: "holds_item plans k slot"
  proof -
    obtain s where s: "holds_item plans k s" "masks ! fst s ! snd s" using ownership_facts(2) [OF k] unfolding assms by blast
    then have "s \<in> set (kept_slots masks plans (fst s))" by (cases s) (auto simp: kept_slots_def holds_item_def)
    moreover have "fst s < length plans" "item_key (item_at plans s) = k" using s(1) by (auto simp: holds_item_def)
    ultimately show ?thesis
      using kept_items_slots [of "fst s" plans masks mr] assms by (intro exI [of _ "fst s"]) auto
  qed
qed

section \<open>Shards of a tensor\<close>

text \<open>
  The entry holds its rank's part of the tensor \<open>G\<close>: all of it, the slice of its layout, its interval of a
  RaggedShard, or the chunk its \<open>chunk_info\<close> names.
\<close>

definition holds_shard :: "(int list \<Rightarrow> 'v) \<Rightarrow> int list \<Rightarrow> int \<Rightarrow> entry \<Rightarrow> 'v nd \<Rightarrow> bool" where
  "holds_shard G shape rank obj t \<longleftrightarrow>
     (case obj of
        DTensor d \<Rightarrow> dt_shape d = shape \<and> (case dt_layout d of
            None \<Rightarrow> dt_local_shape d = shape \<and> nd_shape t = shape \<and> (\<forall>i. in_box shape i \<longrightarrow> nd_at t i = G i)
          | Some layout \<Rightarrow>
              if ragged_shard layout \<noteq> None then
                shape \<noteq> [] \<and> (\<exists>mesh_dim dims units r n. ragged_ok shape layout mesh_dim dims units \<and>
                  get_local_rank layout rank mesh_dim = Inr (int r) \<and> r < length units \<and> nd_shape t = [n] \<and>
                  (\<forall>k. 0 \<le> k \<and> k < ragged_bound shape dims units (Suc r) - ragged_bound shape dims units r \<longrightarrow>
                     nd_at t [k] = G (unravel shape (ragged_bound shape dims units r + k))))
              else (\<exists>inner area. tensor_map layout \<noteq> None \<and> py_index (rank_list layout) rank = Inr inner \<and>
                  infer_slice_area_by_layout layout (int inner) shape = Inr area \<and> length area = length shape \<and>
                  dt_local_shape d = map (\<lambda>(s, e). e - s) area \<and> nd_shape t = dt_local_shape d \<and>
                  (\<forall>i. in_box (dt_local_shape d) i \<longrightarrow> nd_at t i = G (shift (map fst area) i))))
      | PlainTensor p \<Rightarrow>
          (case pt_chunk_info p of
             NoChunkInfo \<Rightarrow> pt_shape p = shape \<and> nd_shape t = shape \<and> (\<forall>i. in_box shape i \<longrightarrow> nd_at t i = G i)
           | ChunkInfo c global_shape \<Rightarrow> global_shape = shape \<and> wf_chunk (length shape) c \<and> nd_shape t = ch_sizes c \<and>
               (\<forall>i. in_box (ch_sizes c) i \<longrightarrow> nd_at t i = G (shift (ch_offsets c) i))
           | OtherChunkInfo \<Rightarrow> False)
      | OtherObject \<Rightarrow> False)"

lemma shift_zeros: "length i = length xs \<Longrightarrow> shift (map (\<lambda>_. 0) xs) i = i"
  by (rule nth_equalityI) simp_all

lemma tensor_item_simps [simp]:
  "item_key (tensor_item f c dtype g) = (f, ch_offsets c)" "chunk_of (tensor_item f c dtype g) = c"
  "wi_type (tensor_item f c dtype g) = Tensor" "wi_data (tensor_item f c dtype g) \<noteq> None"
  "item_fqn (tensor_item f c dtype g) = f" "mi_offset (wi_index (tensor_item f c dtype g)) = ch_offsets c"
  by (simp_all add: tensor_item_def mi_key_def chunk_of_def)

definition item_ok :: "(int list \<Rightarrow> 'v) \<Rightarrow> nat \<Rightarrow> string \<Rightarrow> (write_item \<Rightarrow> 'v nd res) \<Rightarrow> write_item \<Rightarrow> bool" where
  "item_ok G n f get it \<longleftrightarrow> wi_type it = Tensor \<and> wi_data it \<noteq> None \<and> item_key it = (f, ch_offsets (chunk_of it)) \<and> wf_chunk n (chunk_of it) \<and>
     (\<exists>d. get it = Inr d \<and> nd_shape d = ch_sizes (chunk_of it) \<and>
        (\<forall>i. in_box (ch_sizes (chunk_of it)) i \<longrightarrow> nd_at d i = G (shift (ch_offsets (chunk_of it)) i)))"

lemma in_box_length: "in_box sizes i \<Longrightarrow> length i = length sizes"
  by (simp add: in_box_def list_all2_lengthD)

lemma item_okI:
  assumes "get (tensor_item f c dtype g) = Inr d" "wf_chunk n c" "nd_shape d = ch_sizes c"
    "\<And>i. in_box (ch_sizes c) i \<Longrightarrow> nd_at d i = G (shift (ch_offsets c) i)"
  shows "item_ok G n f get (tensor_item f c dtype g)"
  using assms by (auto simp: item_ok_def)

text \<open>Every write item of an entry that holds a shard stands for a chunk of the tensor with the right data.\<close>

lemma write_items_ok:
  assumes "holds_shard G shape rank obj (local f)" "map_of sd f = Some obj" "write_items_of rank (f, obj) = Inr items" "it \<in> set items"
  shows "item_ok G (length shape) f (get_data rank sd local) it"
proof (cases obj)
  case (DTensor d)
  have shape: "dt_shape d = shape" using assms(1) by (simp add: holds_shard_def DTensor)
  show ?thesis
  proof (cases "dt_layout d")
    case None
    have it: "it = tensor_item f \<lparr>ch_offsets = map (\<lambda>_. 0) shape, ch_sizes = shape\<rparr> (dt_dtype d) (dt_shape d)"
      using assms(1,3,4) None by (auto simp: DTensor write_items_of_def holds_shard_def)
    show ?thesis unfolding it
      by (rule item_okI) (use assms(1,2) None in \<open>auto simp: DTensor get_data_def holds_shard_def wf_chunk_def shift_zeros in_box_length\<close>)
  next
    case (Some layout)
    show ?thesis
    proof (cases "ragged_shard layout = None")
      case True
      obtain inner area where area: "tensor_map layout \<noteq> None" "py_index (rank_list layout) rank = Inr inner"
        "infer_slice_area_by_layout layout (int inner) shape = Inr area" "length area = length shape"
        "dt_local_shape d = map (\<lambda>(s, e). e - s) area" "nd_shape (local f) = dt_local_shape d"
        "\<forall>i. in_box (dt_local_shape d) i \<longrightarrow> nd_at (local f) i = G (shift (map fst area) i)"
        using assms(1) Some True by (auto simp: DTensor holds_shard_def)
      have it: "it = tensor_item f \<lparr>ch_offsets = map fst area, ch_sizes = dt_local_shape d\<rparr> (dt_dtype d) (dt_shape d)"
        using assms(3,4) area(1-3) Some True shape by (auto simp: DTensor write_items_of_def compute_global_offsets_def)
      show ?thesis unfolding it
        by (rule item_okI [of _ _ _ _ _ "local f"])
          (use assms(2) area Some True in \<open>auto simp: DTensor get_data_def wf_chunk_def\<close>)
    next
      case False
      obtain mesh_dim dims units r n where ragged: "shape \<noteq> []" "ragged_ok shape layout mesh_dim dims units"
        "get_local_rank layout rank mesh_dim = Inr (int r)" "r < length units" "nd_shape (local f) = [n]"
        "\<forall>k. 0 \<le> k \<and> k < ragged_bound shape dims units (Suc r) - ragged_bound shape dims units r \<longrightarrow>
           nd_at (local f) [k] = G (unravel shape (ragged_bound shape dims units r + k))"
        using assms(1) Some False by (auto simp: DTensor holds_shard_def)
      obtain boxes where boxes: "ragged_boxes_of rank shape layout = Inr boxes"
        "\<forall>box \<in> set boxes. wf_chunk (length shape) (box_chunk box) \<and> (\<exists>d'. get_ragged_box_tensor rank d layout (local f) (box_offsets box) = Inr d' \<and>
           nd_shape d' = box_sizes box \<and> (\<forall>idx. in_box (box_sizes box) idx \<longrightarrow> nd_at d' idx = G (shift (box_offsets box) idx)))"
        using ragged_box_values [of d layout mesh_dim dims units rank r "local f" n G] ragged unfolding shape by blast
      obtain box where box: "box \<in> set boxes" "it = tensor_item f (box_chunk box) (dt_dtype d) (dt_shape d)"
        using assms(3,4) Some False boxes(1) shape by (auto simp: DTensor write_items_of_def create_ragged_write_items_def box_chunk_def)
      obtain d' where d': "get_ragged_box_tensor rank d layout (local f) (box_offsets box) = Inr d'"
           "nd_shape d' = box_sizes box" "\<forall>idx. in_box (box_sizes box) idx \<longrightarrow> nd_at d' idx = G (shift (box_offsets box) idx)"
        using boxes(2) box(1) by blast
      show ?thesis unfolding box(2)
        by (rule item_okI [of _ _ _ _ _ d'])
          (use assms(2) boxes(2) box(1) d' Some False in \<open>auto simp: DTensor get_data_def box_chunk_def\<close>)
    qed
  qed
next
  case (PlainTensor p)
  show ?thesis
  proof (cases "pt_chunk_info p")
    case NoChunkInfo
    have it: "it = tensor_item f \<lparr>ch_offsets = map (\<lambda>_. 0) shape, ch_sizes = shape\<rparr> (pt_dtype p) shape"
      using assms(1,3,4) NoChunkInfo by (auto simp: PlainTensor write_items_of_def holds_shard_def)
    show ?thesis unfolding it
      by (rule item_okI) (use assms(1,2) NoChunkInfo in \<open>auto simp: PlainTensor get_data_def holds_shard_def wf_chunk_def shift_zeros in_box_length\<close>)
  next
    case (ChunkInfo c g)
    have it: "it = tensor_item f c (pt_dtype p) g"
      using assms(3,4) ChunkInfo by (auto simp: PlainTensor write_items_of_def)
    show ?thesis unfolding it
      by (rule item_okI) (use assms(1,2) ChunkInfo in \<open>auto simp: PlainTensor get_data_def holds_shard_def\<close>)
  next
    case OtherChunkInfo
    then show ?thesis using assms(1) by (simp add: PlainTensor holds_shard_def)
  qed
next
  case OtherObject
  then show ?thesis using assms(1) by (simp add: holds_shard_def)
qed

section \<open>Saving\<close>

definition planner_of :: "save_planner \<Rightarrow> (nat \<Rightarrow> (string \<times> entry) list) \<Rightarrow> (nat \<Rightarrow> name_mapping) \<Rightarrow> nat \<Rightarrow> save_planner" where
  "planner_of base sds maps r = base\<lparr>svp_state_dict := Some (sds r), svp_name_mapping := maps r, svp_rank := int r\<rparr>"

text \<open>\<open>_save_impl\<close> on all ranks, without a cached plan: local plans, gather, global plans, writes, gather of the results.\<close>

definition save_checkpoint :: "save_planner \<Rightarrow> (nat \<Rightarrow> (string \<times> entry) list) \<Rightarrow> (nat \<Rightarrow> name_mapping) \<Rightarrow> (nat \<Rightarrow> string \<Rightarrow> 'v nd) \<Rightarrow>
    (nat \<Rightarrow> write_item \<Rightarrow> nat list res) \<Rightarrow> nat \<Rightarrow> ('v files \<times> storage_data \<times> ckpt_metadata) res" where
  "save_checkpoint base sds maps local serialize n =
     rbind (rmap (\<lambda>r. build_local_save_plan (planner_of base sds maps r)) [0..<n]) (\<lambda>plans.
     rbind (rmap (\<lambda>r. build_global_save_plan (planner_of base sds maps r) plans) [0..<n]) (\<lambda>finals.
     rbind (save_to_storage (\<lambda>r. fst (finals ! r)) (\<lambda>r. get_data (int r) (sds r) (local r)) serialize n) (\<lambda>(fs, results).
     Inr (fs, collect_storage_data results, snd (finals ! 0)))))"

lemma get_data_number: "get_data rank sd local (number_item pre it) = get_data rank sd local it"
  by (simp only: get_data_def number_item_simps)

lemma numbered_mem: "x \<in> set (numbered pre xs) \<Longrightarrow> \<exists>pre' y. y \<in> set xs \<and> x = number_item pre' y"
  by (induction xs arbitrary: pre) (auto, blast+)

lemma mem_numbered: "y \<in> set xs \<Longrightarrow> \<exists>pre'. number_item pre' y \<in> set (numbered pre xs)"
  by (induction xs arbitrary: pre) auto

lemma numbered_keys [simp]: "map item_key (numbered pre xs) = map item_key xs"
  by (induction xs arbitrary: pre) (simp_all add: mi_key_def)

lemma chunk_of_number [simp]: "chunk_of (number_item pre it) = chunk_of it"
  by (simp add: chunk_of_def)

lemma item_key_number [simp]: "item_key (number_item pre it) = item_key it"
  by (simp add: mi_key_def)

lemma global_plan_irrelevant:
  "build_global_save_plan (planner_of base sds maps r) plans = build_global_save_plan (base\<lparr>svp_rank := int r\<rparr>) plans"
  by (simp add: build_global_save_plan_def planner_of_def masks_of_def)

text \<open>What the items of a tensor in the ranks' local plans are: chunks of the tensor with their data.\<close>

definition tensors_held :: "(string \<Rightarrow> int list \<Rightarrow> 'v) \<Rightarrow> (string \<Rightarrow> int list) \<Rightarrow> (nat \<Rightarrow> (string \<times> entry) list) \<Rightarrow>
    (nat \<Rightarrow> string \<Rightarrow> 'v nd) \<Rightarrow> nat \<Rightarrow> bool" where
  "tensors_held G shape sds local n \<longleftrightarrow> (\<forall>r < n. distinct (map fst (sds r)) \<and>
     (\<forall>(f, obj) \<in> set (sds r). obj = OtherObject \<or> holds_shard (G f) (shape f) (int r) obj (local r f)))"

lemma local_items:
  assumes "build_local_save_plan (planner_of base sds maps r) = Inr plan" "tensors_held G shape sds local n" "r < n" "it \<in> set (sp_items plan)"
  shows "(wi_type it = ByteIO \<and> wi_data it = None) \<or> (\<exists>f. item_ok (G f) (length (shape f)) f (get_data (int r) (sds r) (local r)) it)"
proof -
  obtain itemss where items: "rmap (write_items_of (int r)) (sds r) = Inr itemss" "sp_items plan = concat itemss"
    using assms(1) by (auto simp: build_local_save_plan_def planner_of_def)
  obtain its where its: "its \<in> set itemss" "it \<in> set its" using assms(4) items(2) by auto
  then obtain i where i: "i < length itemss" "its = itemss ! i" by (auto simp: in_set_conv_nth)
  then have len: "i < length (sds r)" using rmap_length [OF items(1)] by simp
  obtain f obj where e: "sds r ! i = (f, obj)" by (cases "sds r ! i")
  have run: "write_items_of (int r) (f, obj) = Inr its" using rmap_nth [OF items(1) len] e i by simp
  have mem: "(f, obj) \<in> set (sds r)" using len e by (metis nth_mem)
  show ?thesis
  proof (cases "obj = OtherObject")
    case True
    then have "it = \<lparr>wi_index = \<lparr>mi_fqn = f, mi_offset = [], mi_index = None\<rparr>, wi_type = ByteIO, wi_data = None\<rparr>"
      using run its(2) by (auto simp: write_items_of_def)
    then show ?thesis by simp
  next
    case False
    then have "holds_shard (G f) (shape f) (int r) obj (local r f)" using assms(2,3) mem by (auto simp: tensors_held_def)
    moreover have "map_of (sds r) f = Some obj" using assms(2,3) mem by (auto simp: tensors_held_def intro: map_of_is_SomeI)
    ultimately show ?thesis using write_items_ok run its(2) by blast
  qed
qed

text \<open>
  The outcome of a save: every chunk of the metadata is stored with its data, and every chunk of a local plan is
  covered by a chunk of the metadata.
\<close>

lemma saved_tensor:
  assumes save: "save_checkpoint base sds maps local serialize n = Inr (fs, sd, md)"
    and n: "1 < n" "svp_remove_redundancy base" and held: "tensors_held G shape sds local n"
    and agree: "\<forall>r < n. \<forall>r' < n. \<forall>it it'. (\<exists>plan plan'. build_local_save_plan (planner_of base sds maps r) = Inr plan \<and>
       build_local_save_plan (planner_of base sds maps r') = Inr plan' \<and> it \<in> set (sp_items plan) \<and> it' \<in> set (sp_items plan')) \<and>
       item_key it = item_key it' \<longrightarrow> wi_type it = wi_type it' \<and> wi_data it = wi_data it'"
    and md: "map_of (md_state_dict md) f = Some (TensorStorage ts)"
  shows "\<forall>s \<in> set (ts_chunks ts). wf_chunk (length (shape f)) s \<and> stores_chunk (fetch_tensor fs sd) f (G f) s"
    and "\<And>r plan it. r < n \<Longrightarrow> build_local_save_plan (planner_of base sds maps r) = Inr plan \<Longrightarrow> it \<in> set (sp_items plan) \<Longrightarrow>
       tensor_named f it \<Longrightarrow> chunk_of it \<in> set (ts_chunks ts)"
proof -
  obtain plans finals results where run: "rmap (\<lambda>r. build_local_save_plan (planner_of base sds maps r)) [0..<n] = Inr plans"
    "rmap (\<lambda>r. build_global_save_plan (planner_of base sds maps r) plans) [0..<n] = Inr finals"
    "save_to_storage (\<lambda>r. fst (finals ! r)) (\<lambda>r. get_data (int r) (sds r) (local r)) serialize n = Inr (fs, results)"
    "sd = collect_storage_data results" "md = snd (finals ! 0)"
    using save by (auto simp: save_checkpoint_def)
  have len: "length plans = n" using rmap_length [OF run(1)] by simp
  have plan: "build_local_save_plan (planner_of base sds maps r) = Inr (plans ! r)" if "r < n" for r
    using rmap_nth [OF run(1), of r] that by simp
  have final: "build_global_save_plan (base\<lparr>svp_rank := int r\<rparr>) plans = Inr (finals ! r)" if "r < n" for r
    using rmap_nth [OF run(2), of r] that by (simp add: global_plan_irrelevant)
  define M where "M = plan_ownership_masks (svp_save_to_minimum_rank base) plans"
  have masks: "masks_of base plans = Some M" using n len by (simp add: masks_of_def M_def)
  have f0: "build_global_save_plan (base\<lparr>svp_rank := int 0\<rparr>) plans = Inr (fst (finals ! 0), md)"
    using final [of 0] n(1) run(5) by simp
  have n0: "0 < length plans" "1 < length plans" using n(1) len by simp_all
  obtain info bytes where info: "describes (kept_before (Some M) plans n) info" "distinct (map fst info)"
    "\<And>r. r < n \<Longrightarrow> build_global_save_plan (base\<lparr>svp_rank := int r\<rparr>) plans =
       Inr ((plans ! r)\<lparr>sp_items := numbered (kept_before (Some M) plans r) (kept_items (Some M) (r, plans ! r))\<rparr>, md)"
    "md_state_dict md = dict_merge bytes (map tensor_entry info)" "\<forall>x \<in> set bytes. snd x = BytesStorage"
    using global_plan_run [OF f0 n0] unfolding masks len by metis
  have items: "sp_items (fst (finals ! r)) = numbered (kept_before (Some M) plans r) (kept_items (Some M) (r, plans ! r))" if "r < n" for r
  proof -
    have "finals ! r = ((plans ! r)\<lparr>sp_items := numbered (kept_before (Some M) plans r) (kept_items (Some M) (r, plans ! r))\<rparr>, md)"
      using final [OF that] info(3) [OF that] by (metis sum.inject(2))
    then show ?thesis by simp
  qed
  have chunks: "ts_chunks ts = chunks_named f (kept_before (Some M) plans n)"
    by (rule metadata_chunks [OF md info(1,2,4,5)])
  have kept_mem: "it \<in> set (sp_items (plans ! r))" if "it \<in> set (kept_items (Some M) (r, plans ! r))" "r < n" for it r
    using that kept_items_slots [of r plans M] len M_def by (auto simp: kept_slots_def item_at_def)
  have kept_set: "set (kept_before (Some M) plans n) = (\<Union>r < n. set (kept_items (Some M) (r, plans ! r)))"
    using len by (auto simp: kept_before_def set_conv_nth [of "enumerate 0 plans"] nth_enumerate_eq)
  have keys: "distinct (map item_key (concat (map (\<lambda>r. sp_items (fst (finals ! r))) [0..<n])))"
  proof -
    have "concat (map (\<lambda>r. sp_items (fst (finals ! r))) [0..<n]) =
        concat (map (\<lambda>r. numbered (kept_before (Some M) plans r) (kept_items (Some M) (r, plans ! r))) [0..<n])"
      by (rule arg_cong [of _ _ concat]) (use items in auto)
    then have "map item_key (concat (map (\<lambda>r. sp_items (fst (finals ! r))) [0..<n])) = map item_key (kept_before (Some M) plans n)"
      using tensors_in_order [of n plans "Some M"] len by simp
    then show ?thesis using kept_keys(1) [OF M_def] len by simp
  qed
  have ok: "(wi_type it = ByteIO \<and> wi_data it = None) \<or> (\<exists>f. item_ok (G f) (length (shape f)) f (get_data (int r) (sds r) (local r)) it)"
    if "r < n" "it \<in> set (sp_items (plans ! r))" for r it
    by (rule local_items [OF plan [OF that(1)] held that])
  have data: "\<forall>r < n. \<forall>it \<in> set (sp_items (fst (finals ! r))). wi_type it = Tensor \<longrightarrow> wi_data it \<noteq> None"
  proof (intro allI impI ballI)
    fix r it assume r: "r < n" and it: "it \<in> set (sp_items (fst (finals ! r)))" "wi_type it = Tensor"
    obtain pre y where y: "y \<in> set (kept_items (Some M) (r, plans ! r))" "it = number_item pre y"
      using numbered_mem it(1) unfolding items [OF r] by blast
    show "wi_data it \<noteq> None" using ok [OF r kept_mem [OF y(1) r]] y(2) it(2) by (auto simp: item_ok_def)
  qed
  show "\<forall>s \<in> set (ts_chunks ts). wf_chunk (length (shape f)) s \<and> stores_chunk (fetch_tensor fs sd) f (G f) s"
  proof
    fix s assume "s \<in> set (ts_chunks ts)"
    then obtain r y where y: "r < n" "y \<in> set (kept_items (Some M) (r, plans ! r))" "tensor_named f y" "s = chunk_of y"
      unfolding chunks chunks_named_def kept_set by (auto simp: kept_set)
    have oky: "item_ok (G f) (length (shape f)) f (get_data (int r) (sds r) (local r)) y"
      using ok [OF y(1) kept_mem [OF y(2,1)]] y(3) by (auto simp: item_ok_def tensor_named_def mi_key_def)
    obtain pre where pre: "number_item pre y \<in> set (sp_items (fst (finals ! r)))"
      using mem_numbered [OF y(2)] unfolding items [OF y(1)] by blast
    obtain d where d: "get_data (int r) (sds r) (local r) y = Inr d" "fetch_tensor fs sd (item_key y) = Some d"
      using storage_found [OF run(3) keys data y(1) pre] oky run(4) by (auto simp: get_data_number item_ok_def)
    then show "wf_chunk (length (shape f)) s \<and> stores_chunk (fetch_tensor fs sd) f (G f) s"
      using oky y(4) by (auto simp: item_ok_def stores_chunk_def)
  qed
  show "chunk_of it \<in> set (ts_chunks ts)" if r: "r < n" and p: "build_local_save_plan (planner_of base sds maps r) = Inr plan" and
      it: "it \<in> set (sp_items plan)" "tensor_named f it" for r plan it
  proof -
    have pl: "plan = plans ! r" using plan [OF r] p by simp
    obtain i where "i < length (sp_items plan)" "it = sp_items plan ! i" using it(1) by (auto simp: in_set_conv_nth)
    then have "holds_item plans (item_key it) (r, i)" using r len by (simp add: holds_item_def item_at_def pl)
    then obtain r' it' where it': "r' < n" "it' \<in> set (kept_items (Some M) (r', plans ! r'))" "item_key it' = item_key it"
      using kept_keys(2) [OF M_def] len by blast
    have "wi_type it' = wi_type it \<and> wi_data it' = wi_data it"
      using agree r it'(1,3) plan [OF r] plan [OF it'(1)] it(1) kept_mem [OF it'(2,1)] pl by blast
    then have "tensor_named f it'" "chunk_of it' = chunk_of it" using it(2) it'(3) by (auto simp: tensor_named_def chunk_of_def mi_key_def)
    then have "chunk_of it \<in> set (chunks_named f (kept_before (Some M) plans n))"
      unfolding chunks_named_def set_map set_filter kept_set using it'(1,2) by (metis (mono_tags, lifting) UN_I lessThan_iff mem_Collect_eq imageI)
    then show ?thesis by (simp add: chunks)
  qed
qed

section \<open>Save and load\<close>

lemma checkpoint_reads:
  assumes save: "save_checkpoint base sds maps local serialize n = Inr (fs, sd, md)"
    and n: "1 < n" "svp_remove_redundancy base" and held: "tensors_held G shape sds local n"
    and agree: "\<forall>r < n. \<forall>r' < n. \<forall>it it'. (\<exists>plan plan'. build_local_save_plan (planner_of base sds maps r) = Inr plan \<and>
       build_local_save_plan (planner_of base sds maps r') = Inr plan' \<and> it \<in> set (sp_items plan) \<and> it' \<in> set (sp_items plan')) \<and>
       item_key it = item_key it' \<longrightarrow> wi_type it = wi_type it' \<and> wi_data it = wi_data it'"
    and md: "map_of (md_state_dict md) f = Some (TensorStorage ts)"
    and chunks: "\<forall>l \<in> set local_chunks. wf_chunk (length (shape f)) l \<and> nd_shape (bufs (f, ch_offsets l)) = ch_sizes l"
      "distinct (map ch_offsets local_chunks)"
    and covered: "\<forall>l \<in> set local_chunks. \<forall>p. inside (area_of l) p \<longrightarrow>
       (\<exists>r < n. \<exists>plan it. build_local_save_plan (planner_of base sds maps r) = Inr plan \<and> it \<in> set (sp_items plan) \<and>
          tensor_named f it \<and> inside (area_of (chunk_of it)) p)"
  shows "\<exists>items bufs'. create_read_items_for_chunk_list f ts local_chunks broadcastable = Inr items \<and>
    rfold (apply_read (fetch_tensor fs sd)) items bufs = Inr bufs' \<and>
    (\<forall>l \<in> set local_chunks. nd_shape (bufs' (f, ch_offsets l)) = ch_sizes l \<and>
       (\<forall>idx. in_box (ch_sizes l) idx \<longrightarrow> nd_at (bufs' (f, ch_offsets l)) idx = G f (shift (ch_offsets l) idx))) \<and>
    (\<forall>k. k \<notin> (\<lambda>l. (f, ch_offsets l)) ` set local_chunks \<longrightarrow> bufs' k = bufs k)"
proof (rule restore_chunks [OF chunks saved_tensor(1) [OF save n held agree md]], intro ballI allI impI)
  fix l p assume "l \<in> set local_chunks" "inside (area_of l) p"
  then obtain r plan it where it: "r < n" "build_local_save_plan (planner_of base sds maps r) = Inr plan" "it \<in> set (sp_items plan)"
      "tensor_named f it" "inside (area_of (chunk_of it)) p"
    using covered by meson
  from saved_tensor(2) [OF save n held agree md it(1-4)] it(5)
  show "\<exists>s \<in> set (ts_chunks ts). inside (area_of s) p" by blast
qed

end
