(* ===== verification/CkptLayouts.thy ===== *)
theory CkptLayouts
  imports CkptReshard
begin

text \<open>
  Resharding between two layouts: the slices of a layout cover the tensor (\<open>ShardRange\<close>), so what the ranks of one
  layout saved is enough for a rank of another.
\<close>

section \<open>The shards of a layout\<close>

text \<open>A layout of ranks below \<open>n\<close> that shards a tensor by its tensor map, without ragged dimensions.\<close>

definition shards_tensor :: "layout \<Rightarrow> int list \<Rightarrow> bool" where
  "shards_tensor layout shape \<longleftrightarrow>
     ragged_shard layout = None \<and> valid_mesh (mesh_shape layout) \<and> (\<forall>m \<in> set shape. 0 \<le> m) \<and>
     distinct (rank_list layout) \<and> int (length (rank_list layout)) = prod_list (mesh_shape layout) \<and>
     (case tensor_map layout of None \<Rightarrow> False | Some tm \<Rightarrow> valid_tensor_map (mesh_shape layout) tm \<and> length tm = length shape)"

definition layout_area :: "layout \<Rightarrow> int \<Rightarrow> int list \<Rightarrow> area res" where
  "layout_area layout rank shape =
     rbind (py_index (rank_list layout) rank) (\<lambda>inner. infer_slice_area_by_layout layout (int inner) shape)"

lemma layout_area_total:
  assumes "shards_tensor layout shape" "rank \<in> set (rank_list layout)"
  shows "\<exists>inner area. py_index (rank_list layout) rank = Inr inner \<and> infer_slice_area_by_layout layout (int inner) shape = Inr area \<and>
    layout_area layout rank shape = Inr area \<and> length area = length shape \<and>
    (\<forall>i < length shape. 0 \<le> fst (area ! i) \<and> fst (area ! i) \<le> snd (area ! i) \<and> snd (area ! i) \<le> shape ! i)"
proof -
  obtain tm where tm: "tensor_map layout = Some tm" "valid_tensor_map (mesh_shape layout) tm" "length tm = length shape"
    using assms(1) by (auto simp: shards_tensor_def split: option.splits)
  obtain inner where inner: "py_index (rank_list layout) rank = Inr inner" using py_index_mem [OF assms(2)] by blast
  have bound: "int inner < prod_list (mesh_shape layout)"
    using py_index_Inr [OF inner] assms(1) by (auto simp: shards_tensor_def)
  have mesh: "valid_mesh (mesh_shape layout)" and nn: "\<forall>m \<in> set shape. 0 \<le> m"
    using assms(1) by (auto simp: shards_tensor_def)
  obtain c where c: "calculate_mesh_coordinate_for_rank (mesh_shape layout) (int inner) = Inr c" "valid_coord (mesh_shape layout) c"
    using coordinate_of_rank [OF mesh, of "int inner"] bound by auto
  from slice_area_total [OF c valid_tensor_map_entries [OF tm(2)] tm(3) nn, of "set (uneven_shard_mesh_dims layout)"]
  obtain area where "infer_slice_area_by_rank (mesh_shape layout) tm (int inner) shape (set (uneven_shard_mesh_dims layout)) = Inr area"
    "length area = length shape"
    "\<forall>i < length shape. 0 \<le> fst (area ! i) \<and> fst (area ! i) \<le> snd (area ! i) \<and> snd (area ! i) \<le> shape ! i"
    by blast
  then show ?thesis using inner tm(1) by (auto simp: infer_slice_area_by_layout_def layout_area_def)
qed

text \<open>Every element of the tensor lies in the slice of some rank.\<close>

lemma layout_covers:
  assumes "shards_tensor layout shape" "in_box shape p"
  shows "\<exists>rank area. rank \<in> set (rank_list layout) \<and> layout_area layout rank shape = Inr area \<and> inside area p"
proof -
  obtain tm where tm: "tensor_map layout = Some tm" "valid_tensor_map (mesh_shape layout) tm" "length tm = length shape"
    using assms(1) by (auto simp: shards_tensor_def split: option.splits)
  have mesh: "valid_mesh (mesh_shape layout)" and nn: "\<forall>m \<in> set shape. 0 \<le> m"
    and ranks: "distinct (rank_list layout)" "int (length (rank_list layout)) = prod_list (mesh_shape layout)"
    using assms(1) by (auto simp: shards_tensor_def)
  have p: "list_all2 (\<lambda>n x. 0 \<le> x \<and> x < n) shape p" using assms(2) by (simp add: in_box_def)
  have zero: "valid_coord (mesh_shape layout) (map (\<lambda>_. 0) (mesh_shape layout))"
    using mesh by (auto simp: valid_coord_def valid_mesh_def list_all2_conv_all_nth)
  let ?u = "set (uneven_shard_mesh_dims layout)"
  obtain c where c: "valid_coord (mesh_shape layout) c"
    "\<forall>i < length shape. in_slice (mesh_shape layout) c ?u (tm ! i) (shape ! i) (p ! i)"
    using tensor_cover [OF mesh zero tm(2,3) p] by blast
  define k where "k = rank_of_coord (mesh_shape layout) c"
  have k: "0 \<le> k" "k < prod_list (mesh_shape layout)" "calculate_mesh_coordinate_for_rank (mesh_shape layout) k = Inr c"
    using rank_of_coord_bounds [OF c(1)] coordinate_of_rank_of_coord [OF c(1)] by (simp_all add: k_def)
  have "holds_element (mesh_shape layout) tm ?u shape k p"
    using holds_element_iff [OF mesh k(1,2) valid_tensor_map_entries [OF tm(2)] tm(3) _ nn k(3)] c(2) p
    by (simp add: list_all2_lengthD)
  then obtain area where area: "infer_slice_area_by_rank (mesh_shape layout) tm k shape ?u = Inr area" "inside area p"
    by (auto simp: holds_element_def inside_def split: sum.splits)
  have len: "nat k < length (rank_list layout)" using k(1,2) ranks(2) by linarith
  show ?thesis
  proof (intro exI conjI)
    show "rank_list layout ! nat k \<in> set (rank_list layout)" using len by simp
    show "layout_area layout (rank_list layout ! nat k) shape = Inr area"
      using py_index_nth [OF ranks(1) len] area(1) k(1) tm(1) by (simp add: layout_area_def infer_slice_area_by_layout_def)
  qed (rule area(2))
qed

section \<open>From one layout to another\<close>

definition area_chunk :: "area \<Rightarrow> chunk" where
  "area_chunk area = \<lparr>ch_offsets = map fst area, ch_sizes = map (\<lambda>(s, e). e - s) area\<rparr>"

lemma area_chunk_simps [simp]:
  "ch_offsets (area_chunk area) = map fst area" "ch_sizes (area_chunk area) = map (\<lambda>(s, e). e - s) area"
  "wf_chunk (length area) (area_chunk area)" "area_of (area_chunk area) = area"
  by (auto simp: area_chunk_def wf_chunk_def area_of_def intro!: nth_equalityI split: prod.split)

text \<open>The rank of a layout saves its slice as one chunk.\<close>

lemma layout_item_saved:
  assumes "build_local_save_plan (planner_of base sds maps r) = Inr plan"
    and "map_of (sds r) f = Some (DTensor d)" "dt_layout d = Some layout" "shards_tensor layout shape"
    and "holds_shard G shape (int r) (DTensor d) t" "layout_area layout (int r) shape = Inr area"
  shows "\<exists>it \<in> set (sp_items plan). tensor_named f it \<and> chunk_of it = area_chunk area"
proof -
  obtain itemss where items: "rmap (write_items_of (int r)) (sds r) = Inr itemss" "sp_items plan = concat itemss"
    using assms(1) by (auto simp: build_local_save_plan_def planner_of_def)
  obtain i where i: "i < length (sds r)" "sds r ! i = (f, DTensor d)" using map_of_SomeD [OF assms(2)] by (auto simp: in_set_conv_nth)
  have its: "write_items_of (int r) (f, DTensor d) = Inr (itemss ! i)" "itemss ! i \<in> set itemss"
    using rmap_nth [OF items(1) i(1)] rmap_length [OF items(1)] i by auto
  have nr: "ragged_shard layout = None" and tm: "tensor_map layout \<noteq> None" using assms(4) by (auto simp: shards_tensor_def split: option.splits)
  obtain inner where inner: "py_index (rank_list layout) (int r) = Inr inner" "infer_slice_area_by_layout layout (int inner) shape = Inr area"
    using assms(6) by (auto simp: layout_area_def)
  have d: "dt_shape d = shape" "dt_local_shape d = map (\<lambda>(s, e). e - s) area"
    using assms(3,5) nr inner by (auto simp: holds_shard_def)
  have "itemss ! i = [tensor_item f (area_chunk area) (dt_dtype d) shape]"
    using its(1) assms(3) nr tm inner d by (auto simp: write_items_of_def compute_global_offsets_def area_chunk_def)
  then have "tensor_item f (area_chunk area) (dt_dtype d) shape \<in> set (sp_items plan)"
    using its(2) items(2) by (simp, intro bexI [of _ "itemss ! i"]) simp_all
  then show ?thesis by (rule bexI [rotated]) (simp add: tensor_named_def)
qed

lemma reshard_ok:
  assumes save: "save_checkpoint base sds maps local serialize n = Inr (fs, sd, md)"
    and n: "1 < n" "svp_remove_redundancy base" and held: "tensors_held G shape sds local n"
    and agree: "\<forall>r < n. \<forall>r' < n. \<forall>it it'. (\<exists>plan plan'. build_local_save_plan (planner_of base sds maps r) = Inr plan \<and>
       build_local_save_plan (planner_of base sds maps r') = Inr plan' \<and> it \<in> set (sp_items plan) \<and> it' \<in> set (sp_items plan')) \<and>
       item_key it = item_key it' \<longrightarrow> wi_type it = wi_type it' \<and> wi_data it = wi_data it'"
    and md: "map_of (md_state_dict md) f = Some (TensorStorage ts)" "ts_size ts = shape f"
    and saved: "shards_tensor Ls (shape f)" "set (rank_list Ls) \<subseteq> int ` {..<n}"
      "\<forall>r. int r \<in> set (rank_list Ls) \<longrightarrow> (\<exists>d. map_of (sds r) f = Some (DTensor d) \<and> dt_layout d = Some Ls)"
    and wanted: "shards_tensor Lt (shape f)" "dt_layout t = Some Lt" "dt_shape t = shape f" "ldp_rank planner \<in> set (rank_list Lt)"
      "layout_area Lt (ldp_rank planner) (shape f) = Inr area" "dt_local_shape t = map (\<lambda>(s, e). e - s) area"
      "nd_shape (bufs (f, map fst area)) = dt_local_shape t"
  shows "\<exists>items bufs'. requests_of planner md (f, DTensor t) = Inr items \<and> rfold (apply_read (fetch_tensor fs sd)) items bufs = Inr bufs' \<and>
    holds_shard (G f) (shape f) (ldp_rank planner) (DTensor t) (bufs' (f, map fst area)) \<and>
    (\<forall>k. k \<noteq> (f, map fst area) \<longrightarrow> bufs' k = bufs k)"
proof -
  obtain plans where plans: "rmap (\<lambda>r. build_local_save_plan (planner_of base sds maps r)) [0..<n] = Inr plans"
    using save by (auto simp: save_checkpoint_def)
  have plan: "build_local_save_plan (planner_of base sds maps r) = Inr (plans ! r)" if "r < n" for r
    using rmap_nth [OF plans, of r] that by simp
  obtain inner area' where area: "py_index (rank_list Lt) (ldp_rank planner) = Inr inner"
    "infer_slice_area_by_layout Lt (int inner) (shape f) = Inr area'" "layout_area Lt (ldp_rank planner) (shape f) = Inr area'"
    "length area' = length (shape f)"
    "\<forall>i < length (shape f). 0 \<le> fst (area' ! i) \<and> fst (area' ! i) \<le> snd (area' ! i) \<and> snd (area' ! i) \<le> shape f ! i"
    using layout_area_total [OF wanted(1,4)] by blast
  have [simp]: "area' = area" using area(3) wanted(5) by simp
  have nr: "ragged_shard Lt = None" "tensor_map Lt \<noteq> None" using wanted(1) by (auto simp: shards_tensor_def split: option.splits)
  have chunks: "create_chunk_list_for_tensor (ldp_rank planner) (DTensor t) = Inr [area_chunk area]"
    using nr wanted(2-4) area(1,2) by (auto simp: create_chunk_list_for_tensor_def area_chunk_def)
  have fit: "\<forall>l \<in> set [area_chunk area]. wf_chunk (length (shape f)) l \<and> nd_shape (bufs (f, ch_offsets l)) = ch_sizes l"
    using area(4) wanted(6,7) area_chunk_simps(3) [of area] by (simp only: \<open>area' = area\<close>) simp
  have cover: "\<forall>l \<in> set [area_chunk area]. \<forall>p. inside (area_of l) p \<longrightarrow>
     (\<exists>r < n. \<exists>plan it. build_local_save_plan (planner_of base sds maps r) = Inr plan \<and> it \<in> set (sp_items plan) \<and>
        tensor_named f it \<and> inside (area_of (chunk_of it)) p)"
  proof (intro ballI allI impI)
    fix l p assume l: "l \<in> set [area_chunk area]" and p: "inside (area_of l) p"
    have inside: "length p = length area" "\<forall>i < length area. fst (area ! i) \<le> p ! i \<and> p ! i < snd (area ! i)"
      using l p by (auto simp: inside_nth)
    have box: "in_box (shape f) p"
      unfolding in_box_def list_all2_conv_all_nth
      using inside area(4,5) by (auto intro: order_trans order_less_le_trans)
    obtain rank a where a: "rank \<in> set (rank_list Ls)" "layout_area Ls rank (shape f) = Inr a" "inside a p"
      using layout_covers [OF saved(1) box] by blast
    then obtain r where r: "rank = int r" "r < n" using saved(2) by auto
    obtain d where d: "map_of (sds r) f = Some (DTensor d)" "dt_layout d = Some Ls" using saved(3) a(1) r(1) by blast
    have "holds_shard (G f) (shape f) (int r) (DTensor d) (local r f)"
      using held r(2) map_of_SomeD [OF d(1)] by (fastforce simp: tensors_held_def)
    from layout_item_saved [OF plan [OF r(2)] d saved(1) this] a(2) r(1)
    obtain it where "it \<in> set (sp_items (plans ! r))" "tensor_named f it" "chunk_of it = area_chunk a" by blast
    then show "\<exists>r < n. \<exists>plan it. build_local_save_plan (planner_of base sds maps r) = Inr plan \<and> it \<in> set (sp_items plan) \<and>
        tensor_named f it \<and> inside (area_of (chunk_of it)) p"
      using plan [OF r(2)] r(2) a(3) by (intro exI [of _ r] conjI exI [of _ "plans ! r"] exI [of _ it]) simp_all
  qed
  have dis: "distinct (map ch_offsets [area_chunk area])" by simp
  obtain items bufs' where reads: "create_read_items_for_chunk_list f ts [area_chunk area] (\<not> is_on_host (DTensor t)) = Inr items"
    "rfold (apply_read (fetch_tensor fs sd)) items bufs = Inr bufs'"
    "\<forall>l \<in> set [area_chunk area]. nd_shape (bufs' (f, ch_offsets l)) = ch_sizes l \<and>
       (\<forall>idx. in_box (ch_sizes l) idx \<longrightarrow> nd_at (bufs' (f, ch_offsets l)) idx = G f (shift (ch_offsets l) idx))"
    "\<forall>k. k \<notin> (\<lambda>l. (f, ch_offsets l)) ` set [area_chunk area] \<longrightarrow> bufs' k = bufs k"
    using checkpoint_reads [where broadcastable = "\<not> is_on_host (DTensor t)", OF save n held agree md(1) fit dis cover] by blast
  have "requests_of planner md (f, DTensor t) = Inr items"
    using md wanted(2-4) chunks reads(1) by (simp add: requests_of_def entry_size_def rank_owns_dtensor_shard_def)
  moreover have "holds_shard (G f) (shape f) (ldp_rank planner) (DTensor t) (bufs' (f, map fst area))"
    using reads(3) wanted(2,3,6) nr area(1,2,4) by (simp add: holds_shard_def)
  ultimately show ?thesis using reads(2,4) by auto
qed

text \<open>
  C2.  A checkpoint survives a change of the sharding.  All ranks hold their shards of the tensors and save; a rank of
  a job with another layout plans its reads from the metadata and copies what the storage returns.  Then the plan is
  made without an error, every copy succeeds, and the rank holds its shard of the same tensor, element for element.
  \<open>agree\<close> is what the removal of duplicates relies on: items with one name and offset describe the same data.
\<close>

theorem checkpoint_reshards:
  assumes "save_checkpoint base sds maps local serialize n = Inr (fs, sd, md)"
    and "1 < n" "svp_remove_redundancy base" "tensors_held G shape sds local n"
    and agree: "\<forall>r < n. \<forall>r' < n. \<forall>it it'. (\<exists>plan plan'. build_local_save_plan (planner_of base sds maps r) = Inr plan \<and>
       build_local_save_plan (planner_of base sds maps r') = Inr plan' \<and> it \<in> set (sp_items plan) \<and> it' \<in> set (sp_items plan')) \<and>
       item_key it = item_key it' \<longrightarrow> wi_type it = wi_type it' \<and> wi_data it = wi_data it'"
    and "map_of (md_state_dict md) f = Some (TensorStorage ts)" "ts_size ts = shape f"
    and "shards_tensor Ls (shape f)" "set (rank_list Ls) \<subseteq> int ` {..<n}"
      "\<forall>r. int r \<in> set (rank_list Ls) \<longrightarrow> (\<exists>d. map_of (sds r) f = Some (DTensor d) \<and> dt_layout d = Some Ls)"
    and "shards_tensor Lt (shape f)" "dt_layout t = Some Lt" "dt_shape t = shape f" "ldp_rank planner \<in> set (rank_list Lt)"
      "layout_area Lt (ldp_rank planner) (shape f) = Inr area" "dt_local_shape t = map (\<lambda>(s, e). e - s) area"
      "nd_shape (bufs (f, map fst area)) = dt_local_shape t"
  shows "\<exists>items bufs'. requests_of planner md (f, DTensor t) = Inr items \<and> rfold (apply_read (fetch_tensor fs sd)) items bufs = Inr bufs' \<and>
    holds_shard (G f) (shape f) (ldp_rank planner) (DTensor t) (bufs' (f, map fst area)) \<and>
    (\<forall>k. k \<noteq> (f, map fst area) \<longrightarrow> bufs' k = bufs k)"
  using assms by (rule reshard_ok)

text \<open>Two ranks save the halves of a vector; one rank then loads all of it.\<close>

definition halves :: layout where
  "halves = \<lparr>mesh_shape = [2], mesh_dim_names = [''dp''], rank_list = [0, 1], tensor_map = Some [TMInt 0], partial = [None],
     placements = None, ragged_shard = None, alias_tensor_map = None, tensor_shape = Some [4]\<rparr>"

definition half :: dtensor where
  "half = \<lparr>dt_shape = [4], dt_layout = Some halves, dt_local_shape = [2], dt_dtype = ''torch.float32'', dt_on_host = False\<rparr>"

definition whole :: dtensor where
  "whole = half\<lparr>dt_layout := Some (halves\<lparr>tensor_map := Some [TMInt (-1)]\<rparr>), dt_local_shape := [4]\<rparr>"

definition half_planner :: save_planner where
  "half_planner = \<lparr>svp_state_dict = None, svp_name_mapping = [], svp_rank = 0, svp_remove_redundancy = True,
     svp_save_to_minimum_rank = False, svp_flatten = False\<rparr>"

definition half_saved :: "(int files \<times> storage_data \<times> ckpt_metadata) res" where
  "half_saved = save_checkpoint half_planner (\<lambda>r. [(''w'', DTensor half)]) (\<lambda>r. [])
     (\<lambda>r f. \<lparr>nd_shape = [2], nd_at = \<lambda>i. 10 + 2 * int r + hd i\<rparr>) (\<lambda>r it. Inr []) 2"

definition whole_planner :: load_planner where
  "whole_planner = \<lparr>ldp_state_dict = Some [(''w'', DTensor whole)], ldp_metadata = None, ldp_rank = 1, ldp_allow_partial_load = False, ldp_broadcast = False\<rparr>"

definition half_chunk :: "int \<Rightarrow> chunk" where
  "half_chunk k = \<lparr>ch_offsets = [k], ch_sizes = [2]\<rparr>"

definition half_storage :: tensor_storage where
  "half_storage = \<lparr>ts_properties = \<lparr>tp_dtype = Some ''torch.float32'', tp_requires_grad = False, tp_memory_format = None\<rparr>,
     ts_size = [4], ts_chunks = [half_chunk 0, half_chunk 2]\<rparr>"

lemma half_saved_ok: "case half_saved of Inr (fs, sd, md) \<Rightarrow> map_of (md_state_dict md) ''w'' = Some (TensorStorage half_storage) | Inl _ \<Rightarrow> False"
  by code_simp

lemma half_plan: "build_local_save_plan (planner_of half_planner (\<lambda>r. [(''w'', DTensor half)]) (\<lambda>r. []) r) = Inr plan \<Longrightarrow>
  r < 2 \<Longrightarrow> sp_items plan = [tensor_item ''w'' (half_chunk (2 * int r)) ''torch.float32'' [4]]"
proof -
  have "(case build_local_save_plan (planner_of half_planner (\<lambda>r. [(''w'', DTensor half)]) (\<lambda>r. []) 0) of
      Inr plan \<Rightarrow> sp_items plan = [tensor_item ''w'' (half_chunk 0) ''torch.float32'' [4]] | Inl _ \<Rightarrow> True)"
    "(case build_local_save_plan (planner_of half_planner (\<lambda>r. [(''w'', DTensor half)]) (\<lambda>r. []) 1) of
      Inr plan \<Rightarrow> sp_items plan = [tensor_item ''w'' (half_chunk 2) ''torch.float32'' [4]] | Inl _ \<Rightarrow> True)"
    by code_simp+
  then show "build_local_save_plan (planner_of half_planner (\<lambda>r. [(''w'', DTensor half)]) (\<lambda>r. []) r) = Inr plan \<Longrightarrow>
    r < 2 \<Longrightarrow> sp_items plan = [tensor_item ''w'' (half_chunk (2 * int r)) ''torch.float32'' [4]]"
    by (auto simp: numeral_2_eq_2 less_Suc_eq)
qed

lemma half_areas: "layout_area halves 0 [4] = Inr [(0, 2)]" "layout_area halves 1 [4] = Inr [(2, 4)]"
    "layout_area (halves\<lparr>tensor_map := Some [TMInt (-1)]\<rparr>) 1 [4] = Inr [(0, 4)]"
    "infer_slice_area_by_layout halves 0 [4] = Inr [(0, 2)]" "infer_slice_area_by_layout halves 1 [4] = Inr [(2, 4)]"
  by code_simp+

lemma half_shards: "shards_tensor halves [4]" "shards_tensor (halves\<lparr>tensor_map := Some [TMInt (-1)]\<rparr>) [4]"
  by (simp_all add: shards_tensor_def halves_def valid_mesh_def valid_tensor_map_def valid_entry_def)

lemma half_held: "tensors_held (\<lambda>f i. 10 + hd i) (\<lambda>f. [4]) (\<lambda>r. [(''w'', DTensor half)]) (\<lambda>r f. \<lparr>nd_shape = [2], nd_at = \<lambda>i. 10 + 2 * int r + hd i\<rparr>) 2"
proof -
  have "ragged_shard halves = None" "tensor_map halves \<noteq> None" "rank_list halves = [0, 1]" by (simp_all add: halves_def)
  moreover have "hd (shift [a] i) = a + hd i" if "in_box [2] i" for a :: int and i
    using that by (auto simp: in_box_def shift_def list_all2_Cons1)
  ultimately show ?thesis
    by (auto simp: tensors_held_def holds_shard_def half_def half_areas less_Suc_eq numeral_2_eq_2)
qed

lemma checkpoint_reshards_witness:
  "\<exists>fs sd md items bufs'. half_saved = Inr (fs, sd, md) \<and> requests_of whole_planner md (''w'', DTensor whole) = Inr items \<and>
     rfold (apply_read (fetch_tensor fs sd)) items (\<lambda>_. \<lparr>nd_shape = [4], nd_at = \<lambda>_. 0\<rparr>) = Inr bufs' \<and>
     nd_at (bufs' (''w'', [0])) [0] = 10 \<and> nd_at (bufs' (''w'', [0])) [3] = 13"
proof -
  obtain fs sd md where saved: "half_saved = Inr (fs, sd, md)" "map_of (md_state_dict md) ''w'' = Some (TensorStorage half_storage)"
    using half_saved_ok by (auto split: sum.splits)
  have agree: "\<forall>r < 2. \<forall>r' < 2. \<forall>it it'. (\<exists>plan plan'.
       build_local_save_plan (planner_of half_planner (\<lambda>r. [(''w'', DTensor half)]) (\<lambda>r. []) r) = Inr plan \<and>
       build_local_save_plan (planner_of half_planner (\<lambda>r. [(''w'', DTensor half)]) (\<lambda>r. []) r') = Inr plan' \<and>
       it \<in> set (sp_items plan) \<and> it' \<in> set (sp_items plan')) \<and> item_key it = item_key it' \<longrightarrow>
     wi_type it = wi_type it' \<and> wi_data it = wi_data it'"
    by (auto dest!: half_plan simp: half_chunk_def)
  note run = checkpoint_reshards [OF saved(1) [unfolded half_saved_def] _ _ half_held agree saved(2) _ half_shards(1) _ _ half_shards(2),
      where t = whole and planner = whole_planner and area = "[(0, 4)]" and bufs = "\<lambda>_. \<lparr>nd_shape = [4], nd_at = \<lambda>_. 0\<rparr>"]
  have "\<exists>items bufs'. requests_of whole_planner md (''w'', DTensor whole) = Inr items \<and>
      rfold (apply_read (fetch_tensor fs sd)) items (\<lambda>_. \<lparr>nd_shape = [4], nd_at = \<lambda>_. 0\<rparr>) = Inr bufs' \<and>
      holds_shard (\<lambda>i. 10 + hd i) [4] (ldp_rank whole_planner) (DTensor whole) (bufs' (''w'', map fst [(0::int, 4::int)])) \<and>
      (\<forall>k. k \<noteq> (''w'', map fst [(0::int, 4::int)]) \<longrightarrow> bufs' k = \<lparr>nd_shape = [4], nd_at = \<lambda>_. 0\<rparr>)"
    by (rule run) (simp_all add: half_planner_def half_storage_def whole_planner_def whole_def half_def half_areas, simp_all add: halves_def)
  then obtain items bufs' where out: "requests_of whole_planner md (''w'', DTensor whole) = Inr items"
      "rfold (apply_read (fetch_tensor fs sd)) items (\<lambda>_. \<lparr>nd_shape = [4], nd_at = \<lambda>_. 0\<rparr>) = Inr bufs'"
      "holds_shard (\<lambda>i. 10 + hd i) [4] 1 (DTensor whole) (bufs' (''w'', [0]))"
    by (auto simp: whole_planner_def)
  have "infer_slice_area_by_layout (halves\<lparr>tensor_map := Some [TMInt (-1)]\<rparr>) 1 [4] = Inr [(0, 4)]" by code_simp
  then have "nd_at (bufs' (''w'', [0])) i = 10 + hd (shift [0] i)" if "in_box [4] i" for i
    using out(3) that by (simp add: holds_shard_def whole_def half_def) (auto simp: halves_def)
  from this [of "[0]"] this [of "[3]"] have "nd_at (bufs' (''w'', [0])) [0] = 10" "nd_at (bufs' (''w'', [0])) [3] = 13"
    by (simp_all add: in_box_def shift_def)
  with saved(1) out(1,2) show ?thesis by blast
qed

end
