(* ===== verification/CkptLoadAll.thy ===== *)
theory CkptLoadAll
  imports CkptLoadRun CkptLayouts
begin

text \<open>
  A load from its beginning: every rank plans its reads from the metadata, the plans are gathered, every rank finds out
  what it reads for others, and all run their programs.
\<close>

section \<open>The local plan of a rank\<close>

lemma map_of_holds:
  assumes "checkpoint_holds fs sd md G"
  shows "map_of (md_state_dict md) f = Some (TensorStorage ts) \<Longrightarrow>
      \<forall>s \<in> set (ts_chunks ts). wf_chunk (length (ts_size ts)) s \<and> stores_chunk (fetch_tensor fs sd) f (G f) s"
    "map_of (md_state_dict md) f = Some BytesStorage \<Longrightarrow> fetch_bytes fs sd (f, []) \<noteq> None"
proof -
  show "map_of (md_state_dict md) f = Some (TensorStorage ts) \<Longrightarrow>
      \<forall>s \<in> set (ts_chunks ts). wf_chunk (length (ts_size ts)) s \<and> stores_chunk (fetch_tensor fs sd) f (G f) s"
    using assms map_of_SomeD [of "md_state_dict md" f "TensorStorage ts"] by (fastforce simp: checkpoint_holds_def)
  show "map_of (md_state_dict md) f = Some BytesStorage \<Longrightarrow> fetch_bytes fs sd (f, []) \<noteq> None"
    using assms map_of_SomeD [of "md_state_dict md" f BytesStorage] by (fastforce simp: checkpoint_holds_def)
qed

lemma requests_ready:
  assumes req: "requests_of planner md e = Inr items" and holds: "checkpoint_holds fs sd md G" and wanted: "chunks_wanted md shape (ldp_rank planner) e"
  shows "(\<forall>it \<in> set items. item_typed md it \<and> item_ready (fetch_tensor fs sd) (fetch_bytes fs sd) sd shape (shard_values G) it) \<and>
    plan_covers shape items"
proof (cases "map_of (md_state_dict md) (fst e)")
  case None
  then have "items = []" using req by (auto simp: requests_of_def split: prod.splits if_splits)
  then show ?thesis by (simp add: plan_covers_def)
next
  case (Some m)
  show ?thesis
  proof (cases m)
    case BytesStorage
    then have items: "items = [bytes_read_item (fst e)]" using req Some by (auto simp: requests_of_def split: prod.splits)
    have "fetch_bytes fs sd (mi_key (ri_storage_index (bytes_read_item (fst e)))) \<noteq> None"
      using map_of_holds(2) [OF holds] Some BytesStorage by (simp add: bytes_read_item_def mi_key_def)
    moreover from bytes_path [OF this] have "\<exists>p. get_storage_path sd (bytes_read_item (fst e)) = Inr p" .
    moreover have "item_typed md (bytes_read_item (fst e))" "ri_type (bytes_read_item (fst e)) = ByteIO"
      using Some BytesStorage by (simp_all add: item_typed_def bytes_read_item_def)
    ultimately show ?thesis unfolding items by (simp add: item_ready_def plan_covers_def)
  next
    case (TensorStorage ts)
    have found: "map_of (md_state_dict md) (fst e) = Some (TensorStorage ts)" using Some TensorStorage by simp
    show ?thesis
    proof (cases "items = []")
      case True
      then show ?thesis by (simp add: plan_covers_def)
    next
      case False
      then obtain ls where ls: "create_chunk_list_for_tensor (ldp_rank planner) (snd e) = Inr ls"
        "create_read_items_for_chunk_list (fst e) ts ls (\<not> is_on_host (snd e)) = Inr items"
        using req found by (auto simp: requests_of_def split: prod.splits if_splits)
      have "\<forall>l \<in> set ls. wf_chunk (length (ts_size ts)) l \<and> shape (fst e, ch_offsets l) = ch_sizes l \<and>
          (\<forall>p. inside (area_of l) p \<longrightarrow> (\<exists>s \<in> set (ts_chunks ts). inside (area_of s) p))"
        using wanted found ls(1) by (simp add: chunks_wanted_def)
      from chunk_items [where fs = fs and sd = sd and G = G and shape = shape and n = "length (ts_size ts)", OF ls(2) this map_of_holds(1) [OF holds found]] show ?thesis
        using found by (auto simp: item_typed_def)
    qed
  qed
qed

lemma local_plan_ready:
  assumes "build_local_load_plan planner = Inr plan" "ldp_metadata planner = Some md" "ldp_state_dict planner = Some sds"
    and holds: "checkpoint_holds fs sd md G" and wanted: "\<forall>e \<in> set sds. chunks_wanted md shape (ldp_rank planner) e"
  shows "(\<forall>it \<in> set (lp_items plan). item_typed md it \<and> item_ready (fetch_tensor fs sd) (fetch_bytes fs sd) sd shape (shard_values G) it) \<and>
    plan_covers shape (lp_items plan)"
proof -
  obtain itss where itss: "rmap (requests_of planner md) sds = Inr itss" "lp_items plan = concat itss"
    using assms(1-3) by (auto simp: build_local_load_plan_def)
  have each: "(\<forall>it \<in> set its. item_typed md it \<and> item_ready (fetch_tensor fs sd) (fetch_bytes fs sd) sd shape (shard_values G) it) \<and>
    plan_covers shape its" if mem: "its \<in> set itss" for its
  proof -
    obtain i where i: "i < length itss" "its = itss ! i" using mem by (auto simp: in_set_conv_nth)
    then have len: "i < length sds" using rmap_length [OF itss(1)] by simp
    have "requests_of planner md (sds ! i) = Inr its" using rmap_nth [OF itss(1) len] i(2) by simp
    moreover have "chunks_wanted md shape (ldp_rank planner) (sds ! i)" using wanted nth_mem [OF len] by blast
    ultimately show ?thesis using holds requests_ready by blast
  qed
  have "plan_covers shape (concat itss)"
    unfolding plan_covers_def
  proof (intro ballI impI allI)
    fix it idx assume "it \<in> set (concat itss)" "ri_type it = Tensor" "in_box (shape (dest_key it)) idx"
    then obtain its where its: "its \<in> set itss" "it \<in> set its" by auto
    then have "covered_by (set its) (dest_key it) idx" using each [OF its(1)] \<open>ri_type it = Tensor\<close> \<open>in_box _ idx\<close> by (simp add: plan_covers_def)
    then show "covered_by (set (concat itss)) (dest_key it) idx" by (rule covered_by_mono) (use its in auto)
  qed
  then show ?thesis unfolding itss(2) using each by auto
qed

section \<open>The programs of all ranks\<close>

lemma mark_item_reads [simp]:
  "ri_storage_index (mark_item sources it) = ri_storage_index it" "ri_storage_offsets (mark_item sources it) = ri_storage_offsets it"
  "ri_dest_offsets (mark_item sources it) = ri_dest_offsets it" "ri_lengths (mark_item sources it) = ri_lengths it"
  by (simp_all add: mark_item_def split: option.split)

lemma mark_item_ready [simp]: "item_ready fetch fetch_obj sd shape G (mark_item sources it) = item_ready fetch fetch_obj sd shape G it"
proof -
  have "apply_read fetch (mark_item sources it) = apply_read fetch it" by (rule ext) (simp only: apply_read_def mark_item_simps mark_item_reads)
  moreover have "item_covers (mark_item sources it) = item_covers it" by (rule ext) (simp add: item_covers_def)
  moreover have "get_storage_path sd (mark_item sources it) = get_storage_path sd it" by (simp add: get_storage_path_def)
  ultimately show ?thesis by (cases "ri_type it") (simp_all only: item_ready_def reads_right_def mark_item_simps mark_item_reads item_type.case)
qed

lemma covered_marked [simp]: "covered_by (mark_item sources ` A) k idx = covered_by A k idx"
  by (auto simp: covered_by_def item_covers_def)

lemma execute_read_total:
  assumes "\<forall>it \<in> set (lp_items plan). \<exists>p. get_storage_path sd it = Inr p"
  shows "\<exists>prog. execute_read r sd nbytes dtype bb plan = Inr prog"
proof -
  have "\<forall>it \<in> set (private_items (lp_items plan)). \<exists>p. get_storage_path sd it = Inr p" using assms private_items_mem by blast
  then show ?thesis using group_items_ok [of "private_items (lp_items plan)" sd] by (auto simp: execute_read_def Let_def)
qed

lemma programs_coherent:
  assumes sources: "load_sources md plans = Inr sources" and n: "1 < length plans" "length progs = length plans"
    and typed: "\<forall>plan \<in> set plans. \<forall>it \<in> set (lp_items plan). item_typed md it \<and> ready it"
    and cover: "\<forall>plan \<in> set plans. plan_covers shape (lp_items plan)"
    and ready: "\<And>it. ready (mark_item sources it) = ready it"
    and progs: "\<forall>r < length plans. execute_read r sd nbytes dtype bb (marked sources (plans ! r)) = Inr (progs ! r)"
  shows "coherent (all_sends nbytes dtype bb sources) progs (\<lambda>r. shard_items (lp_items (marked sources (plans ! r)))) ready shape"
    "\<And>r it idx. r < length plans \<Longrightarrow> it \<in> set (lp_items (plans ! r)) \<Longrightarrow> ri_type it = Tensor \<Longrightarrow> in_box (shape (dest_key it)) idx \<Longrightarrow>
       covered_by (items_read (progs ! r)) (dest_key it) idx \<or>
       (\<exists>b \<in> set (all_sends nbytes dtype bb sources). r \<in> set (group_ranks (bc_source b)) \<and> dest_key it \<in> set (bc_shards b))"
proof -
  let ?B = "all_sends nbytes dtype bb sources"
  note sends = all_sends_spec [where nbytes = nbytes and dtype = dtype and bb = bb, OF sources_distinct [OF sources]]
  have plan_typed: "\<forall>plan \<in> set plans. typed_plan md plan" using typed by (auto simp: typed_plan_def item_typed_def)
  have items: "lp_items (marked sources p) = map (mark_item sources) (lp_items p)" for p by (simp add: marked_def)
  have own: "covered_by (shard_items (lp_items (marked sources (plans ! r))) k) k idx"
    if r: "r < length plans" and it: "it \<in> set (lp_items (plans ! r))" "ri_type it = Tensor" "dest_key it = k" and box: "in_box (shape k) idx" for r it k idx
  proof -
    have "covered_by (set (lp_items (plans ! r))) k idx" using cover r it box nth_mem [OF r] unfolding plan_covers_def by blast
    then have "covered_by (set (lp_items (marked sources (plans ! r)))) k idx" unfolding items by simp
    then show ?thesis by (auto simp: covered_by_def shard_items_def)
  qed
  have source: "set (group_ranks (bc_source b)) \<subseteq> {..<length progs} \<and> src_rank (bc_source b) \<in> set (group_ranks (bc_source b)) \<and>
      (\<forall>k \<in> set (bc_shards b). good_source plans k (bc_source b))" if b: "b \<in> set ?B" for b
  proof -
    obtain k where "k \<in> set (bc_shards b)" using sends(3) [OF b] by (cases "bc_shards b") auto
    then have "good_source plans k (bc_source b)" using sources_spec(1) [OF sources sends(2) [OF b]] by blast
    moreover have "load_holders plans k \<subseteq> {..<length plans}" by (auto simp: load_holders_def)
    ultimately show ?thesis using sources_spec(1) [OF sources sends(2) [OF b]] n(2) by (auto simp: good_source_def)
  qed
  show "coherent ?B progs (\<lambda>r. shard_items (lp_items (marked sources (plans ! r)))) ready shape"
    unfolding coherent_def
  proof (intro conjI ballI allI impI)
    fix b k idx assume b: "b \<in> set ?B" "k \<in> set (bc_shards b)" and box: "in_box (shape k) idx"
    have "src_rank (bc_source b) \<in> load_holders plans k" using source [OF b(1)] b(2) by (auto simp: good_source_def)
    then show "covered_by (shard_items (lp_items (marked sources (plans ! src_rank (bc_source b)))) k) k idx"
      using own [OF _ _ _ _ box] by (auto simp: load_holders_def)
  next
    fix r assume r: "r < length progs"
    then have run: "execute_read r sd nbytes dtype bb (marked sources (plans ! r)) = Inr (progs ! r)" using progs n(2) by simp
    have match: "map (\<lambda>(k, its). (k, ri_source (hd its))) (shared_items (lp_items (marked sources (plans ! r)))) =
        map (\<lambda>(k, src). (k, Some src)) (filter (\<lambda>x. r \<in> set (group_ranks (snd x))) (sort_key fst sources))"
      by (rule shared_match [OF sources plan_typed]) (use r n(2) in simp)
    show "starts (progs ! r) = filter (\<lambda>b. r \<in> set (group_ranks (bc_source b))) ?B" by (rule execute_read_run(4) [OF run match])
    show "in_flight_after [] (progs ! r) = Some []" by (rule execute_read_run(1) [OF run])
    show "sends_read r (shard_items (lp_items (marked sources (plans ! r)))) {} (progs ! r)" by (rule execute_read_run(2) [OF run])
    fix it assume "it \<in> items_read (progs ! r)"
    then have "it \<in> set (lp_items (marked sources (plans ! r)))"
      unfolding execute_read_run(3) [OF run] by (auto simp: own_reads_def shared_items_entry private_items_mem)
    then obtain it0 where "it0 \<in> set (lp_items (plans ! r))" "it = mark_item sources it0" unfolding items by auto
    moreover have "plans ! r \<in> set plans" using r n(2) by simp
    ultimately show "ready it" using typed ready by blast
  next
    fix b assume b: "b \<in> set ?B"
    show "set (group_ranks (bc_source b)) \<subseteq> {..<length progs}" "src_rank (bc_source b) \<in> set (group_ranks (bc_source b))" using source [OF b] by blast+
  qed (rule sends(1))
  fix r it idx assume r: "r < length plans" and it: "it \<in> set (lp_items (plans ! r))" "ri_type it = Tensor" and box: "in_box (shape (dest_key it)) idx"
  have run: "execute_read r sd nbytes dtype bb (marked sources (plans ! r)) = Inr (progs ! r)" using progs r by simp
  let ?k = "dest_key it"
  show "covered_by (items_read (progs ! r)) ?k idx \<or> (\<exists>b \<in> set ?B. r \<in> set (group_ranks (bc_source b)) \<and> ?k \<in> set (bc_shards b))"
  proof (cases "map_of sources ?k")
    case (Some src)
    have "r \<in> load_holders plans ?k" using r it by (auto simp: load_holders_def)
    then have "r \<in> set (group_ranks src)" using sources_spec(1) [OF sources Some] by (simp add: good_source_def)
    then show ?thesis using sends(4) [OF Some] by blast
  next
    case None
    have "shard_items (lp_items (marked sources (plans ! r))) ?k \<subseteq> set (private_items (lp_items (marked sources (plans ! r))))"
    proof
      fix x assume x: "x \<in> shard_items (lp_items (marked sources (plans ! r))) ?k"
      let ?xs = "filter (\<lambda>y. dest_key y = dest_key x) (lp_items (marked sources (plans ! r)))"
      have "x \<in> set ?xs" using x by (simp add: shard_items_def)
      then have "hd ?xs \<in> set ?xs" by (metis hd_in_set list.set_cases list.distinct(1))
      then obtain y where y: "y \<in> set (lp_items (plans ! r))" "hd ?xs = mark_item sources y" "dest_key y = ?k"
        using x unfolding items by (auto simp: shard_items_def)
      have "ri_source y = None" using typed r y(1) by (auto simp: item_typed_def)
      then have "ri_source (hd ?xs) = None" using y(2,3) None by (simp add: mark_item_def)
      then show "x \<in> set (private_items (lp_items (marked sources (plans ! r))))" using x by (simp add: private_items_mem shard_items_def)
    qed
    then show ?thesis using own [OF r it refl box] covered_by_mono unfolding execute_read_run(3) [OF run] by blast
  qed
qed

section \<open>The whole load\<close>

text \<open>What a rank runs: the global plan from the gathered plans, then the reads and sends of this plan.\<close>

definition load_program :: "load_planner \<Rightarrow> storage_data \<Rightarrow> (index_key \<Rightarrow> int) \<Rightarrow> (index_key \<Rightarrow> string) \<Rightarrow> int \<Rightarrow> load_plan list \<Rightarrow> nat \<Rightarrow> load_step list res" where
  "load_program planner sd nbytes dtype batch_bytes plans r =
     rbind (build_global_load_plan (planner\<lparr>ldp_rank := int r\<rparr>) (gathered_plans plans r)) (execute_read r sd nbytes dtype batch_bytes)"

definition steps_left :: "'v cluster \<Rightarrow> nat" where
  "steps_left c = sum_list (map length (cl_left c))"

lemma steps_left_less:
  assumes "r < length xss" "xss ! r = x # rest"
  shows "sum_list (map length (xss[r := rest])) < sum_list (map length xss)"
  using assms by (induction xss arbitrary: r) (auto simp: nth_Cons split: nat.splits)

lemma load_exec_less: "load_exec fetch fetch_obj sd c c' \<Longrightarrow> steps_left c' < steps_left c"
  by (induction rule: load_exec.induct) (auto simp: steps_left_def intro: steps_left_less)

lemma load_ends:
  assumes "load_reaches fetch fetch_obj sd c0 c"
    and go: "\<And>c. load_reaches fetch fetch_obj sd c0 c \<Longrightarrow> load_finished c \<or> (\<exists>c'. load_exec fetch fetch_obj sd c c')"
  shows "\<exists>c. load_reaches fetch fetch_obj sd c0 c \<and> load_finished c"
  using assms(1)
proof (induction "steps_left c" arbitrary: c rule: less_induct)
  case less
  show ?case
  proof (cases "load_finished c")
    case True
    then show ?thesis using less.prems by blast
  next
    case False
    then obtain c' where c': "load_exec fetch fetch_obj sd c c'" using go [OF less.prems] by blast
    show ?thesis by (rule less.hyps [OF load_exec_less [OF c'] load_reaches.step [OF less.prems c']])
  qed
qed

text \<open>
  The broadcasts a rank starts on one group, in order.  The members of a group agree on them, so matching a broadcast
  by what it is, as the steps do, is matching it by its position on its group.
\<close>

definition group_starts :: "nat list \<Rightarrow> load_step list \<Rightarrow> bcast list" where
  "group_starts g steps = filter (\<lambda>b. group_ranks (bc_source b) = g) (starts steps)"

lemma coherent_group_starts:
  assumes "coherent B progs need ready shape" "r < length progs" "q < length progs" "r \<in> set g" "q \<in> set g"
  shows "group_starts g (progs ! r) = group_starts g (progs ! q)"
proof -
  have one: "group_starts g (progs ! p) = filter (\<lambda>b. group_ranks (bc_source b) = g) B" if "p < length progs" "p \<in> set g" for p
  proof -
    have "starts (progs ! p) = filter (\<lambda>b. p \<in> set (group_ranks (bc_source b))) B" using assms(1) that(1) unfolding coherent_def by blast
    then show ?thesis using that(2) by (auto simp: group_starts_def intro: filter_cong)
  qed
  show ?thesis using one [OF assms(2,4)] one [OF assms(3,5)] by simp
qed

lemma broadcast_load_ok:
  assumes n: "1 < length plans" and planner: "ldp_broadcast planner" "ldp_metadata planner = Some md"
    and local: "\<forall>r < length plans. build_local_load_plan (planner\<lparr>ldp_rank := int r, ldp_state_dict := Some (sds r)\<rparr>) = Inr (plans ! r)"
    and holds: "checkpoint_holds fs sd md G" and wanted: "\<forall>r < length plans. \<forall>e \<in> set (sds r). chunks_wanted md shape (int r) e"
    and stores: "length stores = length plans" "\<forall>s \<in> set stores. right_shapes shape s"
  shows "\<exists>progs. length progs = length plans \<and> (\<forall>r < length plans. load_program planner sd nbytes dtype bb plans r = Inr (progs ! r)) \<and>
    (\<forall>r < length plans. \<forall>q < length plans. \<forall>g. r \<in> set g \<and> q \<in> set g \<longrightarrow> group_starts g (progs ! r) = group_starts g (progs ! q)) \<and>
    (\<exists>c. load_reaches (fetch_tensor fs sd) (fetch_bytes fs sd) sd (load_begins progs stores) c \<and> load_finished c) \<and>
    (\<forall>c. load_reaches (fetch_tensor fs sd) (fetch_bytes fs sd) sd (load_begins progs stores) c \<longrightarrow>
       (load_finished c \<or> (\<exists>c'. load_exec (fetch_tensor fs sd) (fetch_bytes fs sd) sd c c')) \<and>
       (\<forall>c'. load_exec (fetch_tensor fs sd) (fetch_bytes fs sd) sd c c' \<longrightarrow> steps_left c' < steps_left c) \<and>
       (load_finished c \<longrightarrow> (\<forall>r < length plans. \<forall>it \<in> set (lp_items (plans ! r)). ri_type it = Tensor \<longrightarrow>
          nd_shape (rk_bufs (cl_ranks c ! r) (dest_key it)) = shape (dest_key it) \<and>
          (\<forall>idx. in_box (shape (dest_key it)) idx \<longrightarrow>
             nd_at (rk_bufs (cl_ranks c ! r) (dest_key it)) idx = shard_values G (dest_key it) idx))))"
proof -
  let ?ready = "item_ready (fetch_tensor fs sd) (fetch_bytes fs sd) sd shape (shard_values G)"
  let ?exec = "load_exec (fetch_tensor fs sd) (fetch_bytes fs sd) sd" and ?reach = "load_reaches (fetch_tensor fs sd) (fetch_bytes fs sd) sd"
  have each: "(\<forall>it \<in> set (lp_items plan). item_typed md it \<and> ?ready it) \<and> plan_covers shape (lp_items plan)" if mem: "plan \<in> set plans" for plan
  proof -
    obtain r where r: "r < length plans" "plan = plans ! r" using mem by (auto simp: in_set_conv_nth)
    have built: "build_local_load_plan (planner\<lparr>ldp_rank := int r, ldp_state_dict := Some (sds r)\<rparr>) = Inr plan" using local r by blast
    show ?thesis by (rule local_plan_ready [OF built _ _ holds, where sds = "sds r"]) (use planner(2) wanted r(1) in simp_all)
  qed
  have "\<forall>plan \<in> set plans. \<forall>it \<in> set (lp_items plan). mi_fqn (ri_dest_index it) \<in> fst ` set (md_state_dict md)"
  proof (intro ballI)
    fix plan it assume "plan \<in> set plans" "it \<in> set (lp_items plan)"
    then have "item_typed md it" using each by blast
    then have "map_of (md_state_dict md) (mi_fqn (ri_dest_index it)) \<noteq> None" by (auto simp: item_typed_def split: option.splits)
    then show "mi_fqn (ri_dest_index it) \<in> fst ` set (md_state_dict md)" by (simp add: map_of_eq_None_iff)
  qed
  from global_load_run [OF n planner this]
  obtain sources where sources: "load_sources md plans = Inr sources"
    "\<forall>r < length plans. build_global_load_plan (planner\<lparr>ldp_rank := int r\<rparr>) (gathered_plans plans r) = Inr (marked sources (plans ! r))"
    unfolding marked_def by blast
  have "\<exists>prog. execute_read r sd nbytes dtype bb (marked sources (plans ! r)) = Inr prog" if r: "r < length plans" for r
  proof (rule execute_read_total, intro ballI)
    fix it assume "it \<in> set (lp_items (marked sources (plans ! r)))"
    then obtain it0 where it0: "it0 \<in> set (lp_items (plans ! r))" "it = mark_item sources it0" by (auto simp: marked_def)
    have "?ready it0" using each [OF nth_mem [OF r]] it0(1) by blast
    then show "\<exists>p. get_storage_path sd it = Inr p" unfolding it0(2) by (simp add: item_ready_def get_storage_path_def)
  qed
  then obtain prog where prog: "\<forall>r < length plans. execute_read r sd nbytes dtype bb (marked sources (plans ! r)) = Inr (prog r)" by metis
  let ?progs = "map prog [0..<length plans]" and ?B = "all_sends nbytes dtype bb sources"
  have run: "\<forall>r < length plans. execute_read r sd nbytes dtype bb (marked sources (plans ! r)) = Inr (?progs ! r)" using prog by simp
  have programs: "\<forall>r < length plans. load_program planner sd nbytes dtype bb plans r = Inr (?progs ! r)"
    using sources(2) run by (simp add: load_program_def)
  have typed: "\<forall>plan \<in> set plans. \<forall>it \<in> set (lp_items plan). item_typed md it \<and> ?ready it" and cover: "\<forall>plan \<in> set plans. plan_covers shape (lp_items plan)"
    using each by blast+
  have len: "length ?progs = length plans" by simp
  note coh = programs_coherent [OF sources(1) n len typed cover mark_item_ready run]
  have state: "\<exists>did. load_state_ok ?progs did shape (shard_values G) c" if "?reach (load_begins ?progs stores) c" for c
    by (rule load_reaches_ok [OF coh(1) _ stores(2) that]) (simp add: stores(1))
  have live: "load_finished c \<or> (\<exists>c'. ?exec c c')" if "?reach (load_begins ?progs stores) c" for c
    using state [OF that] load_progress [OF coh(1)] by blast
  have final: "nd_shape (rk_bufs (cl_ranks c ! r) (dest_key it)) = shape (dest_key it) \<and>
      (\<forall>idx. in_box (shape (dest_key it)) idx \<longrightarrow> nd_at (rk_bufs (cl_ranks c ! r) (dest_key it)) idx = shard_values G (dest_key it) idx)"
    if reach: "?reach (load_begins ?progs stores) c" and fin: "load_finished c" and r: "r < length plans"
      and it: "it \<in> set (lp_items (plans ! r))" "ri_type it = Tensor" for c r it
  proof -
    obtain did where ok: "load_state_ok ?progs did shape (shard_values G) c" using state [OF reach] by blast
    have "nd_shape (rk_bufs (cl_ranks c ! r) (dest_key it)) = shape (dest_key it)"
      using ok r len unfolding load_state_ok_def rank_right_def right_shapes_def by metis
    moreover have "nd_at (rk_bufs (cl_ranks c ! r) (dest_key it)) idx = shard_values G (dest_key it) idx" if box: "in_box (shape (dest_key it)) idx" for idx
      using load_done [OF coh(1) ok fin _ box coh(2) [OF r it box]] r unfolding right_at_def by simp
    ultimately show ?thesis by blast
  qed
  have ends: "\<exists>c. ?reach (load_begins ?progs stores) c \<and> load_finished c" by (rule load_ends [OF load_reaches.at_once live])
  have order: "\<forall>r < length plans. \<forall>q < length plans. \<forall>g. r \<in> set g \<and> q \<in> set g \<longrightarrow> group_starts g (?progs ! r) = group_starts g (?progs ! q)"
    by (intro allI impI, elim conjE, rule coherent_group_starts [OF coh(1)]) (simp_all only: len)
  have all: "\<forall>c. ?reach (load_begins ?progs stores) c \<longrightarrow> (load_finished c \<or> (\<exists>c'. ?exec c c')) \<and>
      (\<forall>c'. ?exec c c' \<longrightarrow> steps_left c' < steps_left c) \<and>
      (load_finished c \<longrightarrow> (\<forall>r < length plans. \<forall>it \<in> set (lp_items (plans ! r)). ri_type it = Tensor \<longrightarrow>
         nd_shape (rk_bufs (cl_ranks c ! r) (dest_key it)) = shape (dest_key it) \<and>
         (\<forall>idx. in_box (shape (dest_key it)) idx \<longrightarrow>
            nd_at (rk_bufs (cl_ranks c ! r) (dest_key it)) idx = shard_values G (dest_key it) idx)))"
    using live final load_exec_less by blast
  show ?thesis by (rule exI [of _ ?progs], intro conjI len programs order ends all)
qed

text \<open>
  C35.  A load with broadcasts ends, and every rank then holds its shards.  The ranks plan their reads from one checkpoint,
  gather their plans, and each runs the program that follows from them: the reads of the shards it sends, the broadcasts in
  batches with at most eight in flight, the reads of the shards that only it needs, the waits.  The members of every group start the
  broadcasts on it in the same order.  In whatever order
  the ranks take their steps, no state before the end is stuck, every step leaves fewer of them, and in every state at the end all buffers hold the elements
  of the saved tensors.
\<close>

theorem broadcast_load_completes:
  assumes "1 < length plans" "ldp_broadcast planner" "ldp_metadata planner = Some md"
    and "\<forall>r < length plans. build_local_load_plan (planner\<lparr>ldp_rank := int r, ldp_state_dict := Some (sds r)\<rparr>) = Inr (plans ! r)"
    and "checkpoint_holds fs sd md G" "\<forall>r < length plans. \<forall>e \<in> set (sds r). chunks_wanted md shape (int r) e"
    and "length stores = length plans" "\<forall>s \<in> set stores. right_shapes shape s"
  shows "\<exists>progs. length progs = length plans \<and> (\<forall>r < length plans. load_program planner sd nbytes dtype bb plans r = Inr (progs ! r)) \<and>
    (\<forall>r < length plans. \<forall>q < length plans. \<forall>g. r \<in> set g \<and> q \<in> set g \<longrightarrow> group_starts g (progs ! r) = group_starts g (progs ! q)) \<and>
    (\<exists>c. load_reaches (fetch_tensor fs sd) (fetch_bytes fs sd) sd (load_begins progs stores) c \<and> load_finished c) \<and>
    (\<forall>c. load_reaches (fetch_tensor fs sd) (fetch_bytes fs sd) sd (load_begins progs stores) c \<longrightarrow>
       (load_finished c \<or> (\<exists>c'. load_exec (fetch_tensor fs sd) (fetch_bytes fs sd) sd c c')) \<and>
       (\<forall>c'. load_exec (fetch_tensor fs sd) (fetch_bytes fs sd) sd c c' \<longrightarrow> steps_left c' < steps_left c) \<and>
       (load_finished c \<longrightarrow> (\<forall>r < length plans. \<forall>it \<in> set (lp_items (plans ! r)). ri_type it = Tensor \<longrightarrow>
          nd_shape (rk_bufs (cl_ranks c ! r) (dest_key it)) = shape (dest_key it) \<and>
          (\<forall>idx. in_box (shape (dest_key it)) idx \<longrightarrow>
             nd_at (rk_bufs (cl_ranks c ! r) (dest_key it)) idx = shard_values G (dest_key it) idx))))"
  using assms by (rule broadcast_load_ok)

text \<open>Two files hold the halves of a vector; two ranks load all of it, and one of them reads it for both.\<close>

definition stored_half :: "int \<Rightarrow> string \<Rightarrow> string \<times> int ckpt_file" where
  "stored_half k name = (name, Safetensors [(''w'', \<lparr>nd_shape = [2], nd_at = \<lambda>i. 10 + k + hd i\<rparr>)])"

definition half_files :: "int files" where
  "half_files = [stored_half 0 ''a'', stored_half 2 ''b'']"

definition half_sd :: storage_data where
  "half_sd = map (\<lambda>(k, name). ((''w'', [k]),
     \<lparr>si_path = name, si_offset = 0, si_length = -1, si_tensor_key = Some ''w''\<rparr>)) [(0, ''a''), (2, ''b'')]"

definition half_metadata :: ckpt_metadata where
  "half_metadata = \<lparr>md_state_dict = [(''w'', TensorStorage half_storage)], md_planner_data = None\<rparr>"

definition both_planner :: load_planner where
  "both_planner = \<lparr>ldp_state_dict = None, ldp_metadata = Some half_metadata, ldp_rank = 0, ldp_allow_partial_load = False, ldp_broadcast = True\<rparr>"

definition both_plan :: load_plan where
  "both_plan = \<lparr>lp_items = map (\<lambda>k. \<lparr>ri_type = Tensor, ri_dest_index = \<lparr>mi_fqn = ''w'', mi_offset = [0], mi_index = Some 0\<rparr>,
     ri_dest_offsets = [2 * int k], ri_storage_index = \<lparr>mi_fqn = ''w'', mi_offset = [2 * int k], mi_index = Some (int k)\<rparr>, ri_storage_offsets = [0],
     ri_lengths = [2], ri_broadcastable = True, ri_source = None\<rparr>) [0, 1]\<rparr>"

lemma both_built: "r < 2 \<Longrightarrow> build_local_load_plan (both_planner\<lparr>ldp_rank := int r, ldp_state_dict := Some [(''w'', DTensor whole)]\<rparr>) = Inr both_plan"
proof -
  have "build_local_load_plan (both_planner\<lparr>ldp_rank := 0, ldp_state_dict := Some [(''w'', DTensor whole)]\<rparr>) = Inr both_plan"
    "build_local_load_plan (both_planner\<lparr>ldp_rank := 1, ldp_state_dict := Some [(''w'', DTensor whole)]\<rparr>) = Inr both_plan"
    by code_simp+
  then show "r < 2 \<Longrightarrow> build_local_load_plan (both_planner\<lparr>ldp_rank := int r, ldp_state_dict := Some [(''w'', DTensor whole)]\<rparr>) = Inr both_plan"
    by (auto simp: numeral_2_eq_2 less_Suc_eq)
qed

lemma half_fetched: "k = 0 \<or> k = 2 \<Longrightarrow> fetch_tensor half_files half_sd (''w'', [k]) = Some \<lparr>nd_shape = [2], nd_at = \<lambda>i. 10 + k + hd i\<rparr>"
  by (auto simp: fetch_tensor_def get_storage_info_def half_sd_def half_files_def stored_half_def mi_key_def)

lemma half_holds: "checkpoint_holds half_files half_sd half_metadata (\<lambda>f i. 10 + hd i)"
  by (auto simp: checkpoint_holds_def half_metadata_def half_storage_def half_chunk_def wf_chunk_def stores_chunk_def half_fetched
    in_box_def shift_def list_all2_Cons1)

lemma both_wanted: "r < 2 \<Longrightarrow> chunks_wanted half_metadata (\<lambda>_. [4]) (int r) (''w'', DTensor whole)"
proof -
  have chunks: "create_chunk_list_for_tensor 0 (DTensor whole) = Inr [\<lparr>ch_offsets = [0], ch_sizes = [4]\<rparr>]"
    "create_chunk_list_for_tensor 1 (DTensor whole) = Inr [\<lparr>ch_offsets = [0], ch_sizes = [4]\<rparr>]" by code_simp+
  have cover: "\<exists>s \<in> set (ts_chunks half_storage). inside (area_of s) p" if "inside (area_of \<lparr>ch_offsets = [0], ch_sizes = [4]\<rparr>) p" for p
    using that by (auto simp: half_storage_def half_chunk_def area_of_def inside_nth)
  have "chunks_wanted half_metadata (\<lambda>_. [4]) r (''w'', DTensor whole)" if "r = 0 \<or> r = 1" for r
  proof -
    have "create_chunk_list_for_tensor r (DTensor whole) = Inr [\<lparr>ch_offsets = [0], ch_sizes = [4]\<rparr>]" using that chunks by blast
    moreover have "length (ts_size half_storage) = 1" by (simp add: half_storage_def)
    ultimately show ?thesis using cover unfolding chunks_wanted_def by (simp add: half_metadata_def wf_chunk_def)
  qed
  then show "r < 2 \<Longrightarrow> chunks_wanted half_metadata (\<lambda>_. [4]) (int r) (''w'', DTensor whole)" by (auto simp: numeral_2_eq_2 less_Suc_eq)
qed

lemma broadcast_load_completes_witness:
  "\<exists>progs c. length progs = 2 \<and> load_program both_planner half_sd (\<lambda>_. 16) (\<lambda>_. ''float32'') 1024 [both_plan, both_plan] 1 = Inr (progs ! 1) \<and>
     load_reaches (fetch_tensor half_files half_sd) (fetch_bytes half_files half_sd) half_sd
       (load_begins progs (replicate 2 \<lparr>rk_bufs = \<lambda>_. \<lparr>nd_shape = [4], nd_at = \<lambda>_. 0\<rparr>, rk_objs = \<lambda>_. None\<rparr>)) c \<and> load_finished c \<and>
     nd_at (rk_bufs (cl_ranks c ! 1) (''w'', [0])) [3] = 13"
proof -
  have local: "\<forall>r < length [both_plan, both_plan]. build_local_load_plan (both_planner\<lparr>ldp_rank := int r, ldp_state_dict := Some [(''w'', DTensor whole)]\<rparr>) = Inr ([both_plan, both_plan] ! r)"
    using both_built [of 0] both_built [of 1] by (auto simp: less_Suc_eq)
  have wanted: "\<forall>r < length [both_plan, both_plan]. \<forall>e \<in> set [(''w'', DTensor whole)]. chunks_wanted half_metadata (\<lambda>_. [4]) (int r) e"
    using both_wanted by simp
  let ?stores = "replicate 2 \<lparr>rk_bufs = \<lambda>_. \<lparr>nd_shape = [4], nd_at = \<lambda>_. 0::int\<rparr>, rk_objs = \<lambda>_. None\<rparr>"
  have given: "1 < length [both_plan, both_plan]" "ldp_broadcast both_planner" "ldp_metadata both_planner = Some half_metadata"
    "length ?stores = length [both_plan, both_plan]" "\<forall>s \<in> set ?stores. right_shapes (\<lambda>_. [4]) s"
    by (simp_all add: both_planner_def right_shapes_def)
  from broadcast_load_completes [where sds = "\<lambda>_. [(''w'', DTensor whole)]" and nbytes = "\<lambda>_. 16" and dtype = "\<lambda>_. ''float32''" and bb = 1024,
      OF given(1-3) local half_holds wanted given(4,5)]
  obtain progs c where out: "length progs = length [both_plan, both_plan]"
    "\<forall>r < length [both_plan, both_plan]. load_program both_planner half_sd (\<lambda>_. 16) (\<lambda>_. ''float32'') 1024 [both_plan, both_plan] r = Inr (progs ! r)"
    "load_reaches (fetch_tensor half_files half_sd) (fetch_bytes half_files half_sd) half_sd (load_begins progs ?stores) c" "load_finished c"
    "\<forall>r < length [both_plan, both_plan]. \<forall>it \<in> set (lp_items ([both_plan, both_plan] ! r)). ri_type it = Tensor \<longrightarrow>
       nd_shape (rk_bufs (cl_ranks c ! r) (dest_key it)) = [4] \<and> (\<forall>idx. in_box [4] idx \<longrightarrow>
       nd_at (rk_bufs (cl_ranks c ! r) (dest_key it)) idx = shard_values (\<lambda>f i. 10 + hd i) (dest_key it) idx)"
    by blast
  have one: "1 < length [both_plan, both_plan]" "[both_plan, both_plan] ! 1 = both_plan" by simp_all
  have "\<exists>it \<in> set (lp_items both_plan). ri_type it = Tensor \<and> dest_key it = (''w'', [0])" by (simp add: both_plan_def mi_key_def)
  moreover have "in_box [4] [3]" by (simp add: in_box_def)
  ultimately have "nd_at (rk_bufs (cl_ranks c ! 1) (''w'', [0])) [3] = shard_values (\<lambda>f i. 10 + hd i) (''w'', [0]) [3]" using out(5) one by metis
  then have "nd_at (rk_bufs (cl_ranks c ! 1) (''w'', [0])) [3] = 13" by (simp add: shard_values_def shift_def)
  moreover have "length progs = 2" using out(1) by simp
  ultimately show ?thesis using out(2) [rule_format, OF one(1)] out(3,4) by blast
qed

end
