(* ===== verification/CkptTyped.thy ===== *)
theory CkptTyped
  imports CkptLoadAll
begin

text \<open>
  A typing of load plans: which items fit the metadata of a checkpoint and the chunks a rank needs.
\<close>

text \<open>A region of a chunk: within its sizes, and not empty.\<close>

definition region_within :: "int list \<Rightarrow> int list \<Rightarrow> chunk \<Rightarrow> bool" where
  "region_within offsets lengths c \<longleftrightarrow> length offsets = length (ch_sizes c) \<and> length lengths = length (ch_sizes c) \<and>
     (\<forall>d < length (ch_sizes c). 0 \<le> offsets ! d \<and> 0 < lengths ! d \<and> offsets ! d + lengths ! d \<le> ch_sizes c ! d)"

definition tensor_item_typed :: "int \<Rightarrow> string \<times> entry \<Rightarrow> tensor_storage \<Rightarrow> read_item \<Rightarrow> bool" where
  "tensor_item_typed rank e ts it \<longleftrightarrow> ri_type it = Tensor \<and> ri_broadcastable it = (\<not> is_on_host (snd e)) \<and>
     entry_size (snd e) = Inr (Some (ts_size ts)) \<and>
     (\<exists>ls. create_chunk_list_for_tensor rank (snd e) = Inr ls \<and>
       (\<exists>l \<in> set ls. dest_key it = (fst e, ch_offsets l) \<and> region_within (ri_dest_offsets it) (ri_lengths it) l) \<and>
       (\<exists>s \<in> set (ts_chunks ts). mi_key (ri_storage_index it) = (fst e, ch_offsets s) \<and> region_within (ri_storage_offsets it) (ri_lengths it) s))"

definition load_item_typed :: "ckpt_metadata \<Rightarrow> int \<Rightarrow> string \<times> entry \<Rightarrow> read_item \<Rightarrow> bool" where
  "load_item_typed md rank e it \<longleftrightarrow> ri_source it = None \<and>
     (case map_of (md_state_dict md) (fst e) of
        None \<Rightarrow> False
      | Some BytesStorage \<Rightarrow> ri_type it = ByteIO \<and> dest_key it = (fst e, []) \<and> mi_key (ri_storage_index it) = (fst e, [])
      | Some (TensorStorage ts) \<Rightarrow> tensor_item_typed rank e ts it)"

lemma overlap_typed:
  assumes wf: "wf_chunk n l" "wf_chunk n s" and item: "it \<in> set items" "read_overlap f br (i, l) (j, s) = Inr items"
  shows "ri_type it = Tensor" "ri_source it = None" "ri_broadcastable it = br"
    "dest_key it = (f, ch_offsets l)" "mi_key (ri_storage_index it) = (f, ch_offsets s)"
    "region_within (ri_dest_offsets it) (ri_lengths it) l" "region_within (ri_storage_offsets it) (ri_lengths it) s"
proof -
  obtain ov where ov: "intersect_axes (area_of l) (area_of s) = Some ov"
    using item unfolding read_overlap_eq [OF wf] by (auto split: option.splits)
  have it: "it = \<lparr>ri_type = Tensor, ri_dest_index = \<lparr>mi_fqn = f, mi_offset = ch_offsets l, mi_index = Some (int i)\<rparr>,
             ri_dest_offsets = map2 (\<lambda>(l, r) off. l - off) ov (ch_offsets l),
             ri_storage_index = \<lparr>mi_fqn = f, mi_offset = ch_offsets s, mi_index = Some (int j)\<rparr>,
             ri_storage_offsets = map2 (\<lambda>(l, r) off. l - off) ov (ch_offsets s),
             ri_lengths = map (\<lambda>(l, r). r - l) ov, ri_broadcastable = br, ri_source = None\<rparr>"
    using item ov unfolding read_overlap_eq [OF wf] by auto
  show "ri_type it = Tensor" "ri_source it = None" "ri_broadcastable it = br"
    "dest_key it = (f, ch_offsets l)" "mi_key (ri_storage_index it) = (f, ch_offsets s)"
    by (simp_all add: it mi_key_def)
  have lens: "length (area_of l) = n" "length (area_of s) = n" "length (ch_offsets l) = n" "length (ch_sizes l) = n"
      "length (ch_offsets s) = n" "length (ch_sizes s) = n"
    using wf by (simp_all add: area_of_def wf_chunk_def)
  have len: "length ov = n" using intersect_Some(1) [OF ov] lens by simp
  have at: "ov ! d = (max (ch_offsets l ! d) (ch_offsets s ! d), min (ch_offsets l ! d + ch_sizes l ! d) (ch_offsets s ! d + ch_sizes s ! d))"
    "fst (ov ! d) < snd (ov ! d)" if "d < n" for d
    using intersect_Some(2,3) [OF ov, of d] lens that by (simp_all add: area_of_def)
  show "region_within (ri_dest_offsets it) (ri_lengths it) l"
    unfolding region_within_def using lens len at by (auto simp: it case_prod_unfold)
  show "region_within (ri_storage_offsets it) (ri_lengths it) s"
    unfolding region_within_def using lens len at by (auto simp: it case_prod_unfold)
qed

lemma requests_typed:
  assumes req: "requests_of planner md e = Inr items" and it: "it \<in> set items"
    and saved: "\<forall>ts \<in> {ts. map_of (md_state_dict md) (fst e) = Some (TensorStorage ts)}. \<forall>s \<in> set (ts_chunks ts). wf_chunk (length (ts_size ts)) s"
    and wanted: "\<forall>ls \<in> {ls. create_chunk_list_for_tensor (ldp_rank planner) (snd e) = Inr ls}. \<forall>l \<in> set ls.
      \<forall>sz \<in> {sz. entry_size (snd e) = Inr (Some sz)}. wf_chunk (length sz) l"
  shows "load_item_typed md (ldp_rank planner) e it"
proof (cases "map_of (md_state_dict md) (fst e)")
  case None
  then show ?thesis using req it by (auto simp: requests_of_def split: prod.splits if_splits)
next
  case (Some m)
  show ?thesis
  proof (cases m)
    case BytesStorage
    then have "it = bytes_read_item (fst e)" using req it Some by (auto simp: requests_of_def split: prod.splits)
    then show ?thesis using Some BytesStorage by (simp add: load_item_typed_def bytes_read_item_def mi_key_def)
  next
    case (TensorStorage ts)
    have found: "map_of (md_state_dict md) (fst e) = Some (TensorStorage ts)" using Some TensorStorage by simp
    have "entry_size (snd e) = Inr (Some (ts_size ts)) \<and> (\<exists>ls. create_chunk_list_for_tensor (ldp_rank planner) (snd e) = Inr ls \<and>
        create_read_items_for_chunk_list (fst e) ts ls (\<not> is_on_host (snd e)) = Inr items)"
      using req it found by (auto simp: requests_of_def split: prod.splits if_splits)
    then obtain ls where ls: "create_chunk_list_for_tensor (ldp_rank planner) (snd e) = Inr ls" "entry_size (snd e) = Inr (Some (ts_size ts))"
      "create_read_items_for_chunk_list (fst e) ts ls (\<not> is_on_host (snd e)) = Inr items" by blast
    obtain i j its where ij: "i < length ls" "j < length (ts_chunks ts)" "read_overlap (fst e) (\<not> is_on_host (snd e)) (i, ls ! i) (j, ts_chunks ts ! j) = Inr its" "it \<in> set its"
      using it unfolding chunk_item_iff [OF ls(3)] by blast
    have mem: "ls ! i \<in> set ls" "ts_chunks ts ! j \<in> set (ts_chunks ts)" using ij(1,2) by simp_all
    have wf: "wf_chunk (length (ts_size ts)) (ls ! i)" "wf_chunk (length (ts_size ts)) (ts_chunks ts ! j)"
      using wanted ls(1,2) saved found mem by blast+
    show ?thesis using overlap_typed [OF wf ij(4,3)] found ls(1,2) mem by (auto simp: load_item_typed_def tensor_item_typed_def)
  qed
qed

text \<open>
  C38.  Load plans are well typed.  Every item of a local plan belongs to an entry of the state dict: the entry is in the metadata;
  an item for bytes reads the whole entry; an item for a tensor needs an entry of the saved shape and connects a
  non-empty region within a needed chunk of the entry with one of the same lengths within a stored chunk.  No item has a
  source yet.  The needed and stored chunks must have the rank of their tensor.
\<close>

theorem local_load_plan_typed:
  assumes "build_local_load_plan planner = Inr plan" "ldp_metadata planner = Some md" "ldp_state_dict planner = Some sds"
    and "\<forall>(f, m) \<in> set (md_state_dict md). case m of TensorStorage ts \<Rightarrow> \<forall>s \<in> set (ts_chunks ts). wf_chunk (length (ts_size ts)) s | BytesStorage \<Rightarrow> True"
    and "\<forall>e \<in> set sds. \<forall>ls sz. create_chunk_list_for_tensor (ldp_rank planner) (snd e) = Inr ls \<and> entry_size (snd e) = Inr (Some sz) \<longrightarrow>
      (\<forall>l \<in> set ls. wf_chunk (length sz) l)"
    and "it \<in> set (lp_items plan)"
  shows "\<exists>e \<in> set sds. load_item_typed md (ldp_rank planner) e it"
proof -
  obtain itss where itss: "rmap (requests_of planner md) sds = Inr itss" "lp_items plan = concat itss"
    using assms(1-3) by (auto simp: build_local_load_plan_def)
  obtain its where its: "its \<in> set itss" "it \<in> set its" using assms(6) unfolding itss(2) by auto
  obtain i where i: "i < length itss" "itss ! i = its" using its(1) by (auto simp: in_set_conv_nth)
  then have len: "i < length sds" using rmap_length [OF itss(1)] by simp
  have req: "requests_of planner md (sds ! i) = Inr its" using rmap_nth [OF itss(1) len] i(2) by simp
  have saved: "\<forall>s \<in> set (ts_chunks ts). wf_chunk (length (ts_size ts)) s" if "map_of (md_state_dict md) f = Some (TensorStorage ts)" for f ts
    using assms(4) map_of_SomeD [OF that] by fastforce
  have e: "sds ! i \<in> set sds" using len by simp
  have "load_item_typed md (ldp_rank planner) (sds ! i) it"
    by (rule requests_typed [OF req its(2)]) (use saved assms(5) e in blast)+
  then show ?thesis using e by blast
qed

text \<open>The plan of the second rank of \<open>both_planner\<close>: the two stored halves of the vector.\<close>

lemma local_load_plan_typed_witness:
  "load_item_typed half_metadata 1 (''w'', DTensor whole) (lp_items both_plan ! 1) \<and> ri_dest_offsets (lp_items both_plan ! 1) = [2]"
proof -
  have built: "build_local_load_plan (both_planner\<lparr>ldp_rank := 1, ldp_state_dict := Some [(''w'', DTensor whole)]\<rparr>) = Inr both_plan"
    using both_built [of 1] by simp
  have chunks: "create_chunk_list_for_tensor 1 (DTensor whole) = Inr [\<lparr>ch_offsets = [0], ch_sizes = [4]\<rparr>]" "entry_size (DTensor whole) = Inr (Some [4])"
    by code_simp+
  have "\<exists>e \<in> set [(''w'', DTensor whole)]. load_item_typed half_metadata 1 e (lp_items both_plan ! 1)"
    using local_load_plan_typed [OF built, of half_metadata "[(''w'', DTensor whole)]" "lp_items both_plan ! 1"] chunks
    by (simp add: both_planner_def half_metadata_def half_storage_def half_chunk_def wf_chunk_def both_plan_def)
  then show ?thesis by (simp add: both_plan_def)
qed

end
