(* ===== verification/Spec2Isabelle.thy ===== *)
theory Spec2Isabelle
  imports RedistCorrect LayoutMap MeshLayout PipeFsdp PipePasses PipeClassic PipeExec PipeComms
    PipeSwap PipeInterleaved PipeAlign CycleCheck PipeValidate Mpipe BatchSampler OffloadReplay OffloadWarmup CkptGroups CkptTyped
begin

text \<open>
  A model of the decision-making core of \<open>hyper_parallel\<close>: the code that computes, from plain data,
  which slice of a tensor a device holds, in which order a pipeline stage runs its steps, which samples a
  data-parallel rank reads, which storages are moved to the host, and which part of a checkpoint a rank
  writes and reads.  All of it is integer and list
  code that the runtime then executes with tensors and collectives, so an error here is a wrong result
  or a deadlock on every device.  Paths below are relative to \<open>src/hyper_parallel\<close>.

  Conventions (theory \<open>Prelude\<close>).  A Python exception is the left side of a \<open>res\<close>, with the exception
  classes of the code as the datatype \<open>py_error\<close>; \<open>rbind\<close>, \<open>rmap\<close> and \<open>rfold\<close> are sequencing, a
  comprehension and a loop whose body may raise.  Python's list indexing, with negative indices and
  \<open>IndexError\<close>, is \<open>py_get\<close> and \<open>py_set\<close>.  An unbounded \<open>int\<close> is \<open>int\<close>; \<open>nat\<close> is used for counts and
  loop indices that start at 0; the one NumPy product is wrapped to 64 bits.  Definitions keep the names of the code
  without leading underscores.  Keyword-only Boolean options are arguments; a class is a record of the fields its methods read.

  1. Tensor layouts (\<open>core/dtensor\<close>).
    \<^item> \<open>ShardRange\<close>: chunk ranges, mesh coordinates and slice areas of \<open>layout.py\<close>.  The two chunk
      rules are two interpretations of one locale of interval partitions, from which the slice
      areas of all ranks are shown to partition the tensor.
    \<^item> \<open>LayoutMap\<close>: the placements of \<open>placement_types.py\<close> and the conversions of \<open>Layout\<close> between
      placements and tensor maps, with their validation; the round trip of the two.
    \<^item> \<open>MeshLayout\<close>: \<open>_mesh_layout.py\<close>, nested integer tuples and strided layouts; collapsing, coalescing,
      composition and remapping keep or partition the ranks.
    \<^item> \<open>RedistInfer\<close> and \<open>RedistCorrect\<close>: \<open>redistribute_infer.py\<close>, the search for the
      split, all-to-all and all-gather operators that turn one sharding into another, and the proof that, with at most
      one mesh axis on a dimension, it ends and its operators, applied in turn, do so.
  2. Pipeline schedules (\<open>core/pipeline_parallel\<close>).  A schedule is one list of steps per rank, with \<open>None\<close> for a bubble.
    \<^item> \<open>PipeStep\<close>: \<open>MetaStep\<close> and its types, and the placement of stages on ranks (\<open>utils.py\<close>, \<open>mpipe/step_types.py\<close>).
    \<^item> \<open>PipeClassic\<close>: GPipe and 1F1B, with a stage's contract (\<open>stage_state\<close>) as a small transition system; \<open>PipeExec\<close>
      runs all ranks together under rendezvous transfers, and its locale gives progress from a clock.
    \<^item> \<open>PipeInterleaved\<close>: interleaved 1F1B; \<open>Mpipe\<close>: the MPipe transpose schedule and the sampler of its owners (\<open>mpipe/\<close>).
    \<^item> \<open>PipeComms\<close> inserts sends, receives and loads; \<open>PipePasses\<close> coalesces and attaches them and splits backwards; \<open>PipeFsdp\<close>
      inserts the unshard, reshard and gradient-reduction steps; \<open>PipeSwap\<close> (\<open>pipeline_swap.py\<close>) the activation swap steps.
      The schedule of a run is the composition of these passes.
    \<^item> \<open>PipeAlign\<close> pads and simulates a schedule on a common clock; \<open>PipeValidate\<close> and \<open>CycleCheck\<close> are the
      checks on the finished schedule.
  3. Data (\<open>data/parallel\<close>).  \<open>BatchSampler\<close>: \<open>batch_sampler.py\<close>, the sequential and the cyclic iteration,
    its checkpoints and their elastic repartition.
  4. Activation offloading (\<open>auto_parallel/hyper_offload\<close>).
    \<^item> \<open>OffloadPool\<close>: the pool of pinned buffers (\<open>runtime/pinned_memory.py\<close>) and its invariant.
    \<^item> \<open>OffloadPlan\<close>: the recorded trace, the schedule of actions (\<open>ir/\<close>) and the greedy planner
      (\<open>planning/greedy.py\<close>), with what its simulated bytes mean.
    \<^item> \<open>OffloadRun\<close>: the residency manager (\<open>runtime/residency.py\<close>), the recording of a step and its eviction loop
      (\<open>execution/warmup/executor.py\<close>), the replay of a schedule (\<open>execution/base.py\<close>, \<open>execution/replay/executor.py\<close>) and
      the same step without offloading.  \<open>OffloadBuffer\<close>, \<open>OffloadActions\<close> and \<open>OffloadBody\<close> hold what an operation, the
      actions between two operators and an operator do to a storage.
    \<^item> \<open>OffloadReplay\<close>: the composition.  The replay of the plan of a recorded step refines the step without
      offloading.  \<open>OffloadWarmup\<close>: the eviction loop ends, and what the warmup computes.
  5. Distributed checkpoints (\<open>core/distributed_checkpoint\<close>).  A dict is its list of entries in insertion order; \<open>Dict\<close> holds what
    the components need of grouping and merging such lists.
    \<^item> \<open>Ragged\<close>: the flat interval of a rank (\<open>core/dtensor/_ragged_utils.py\<close>) and its boxes (\<open>ragged.py\<close>); \<open>RaggedData\<close>: the elements of a box view.
    \<^item> \<open>CkptPlan\<close>: the records of \<open>metadata.py\<close> and \<open>planner.py\<close>, and who writes an item several ranks hold (\<open>utils.py\<close>).
    \<^item> \<open>StateDict\<close>: flattening a nested state dict and writing values back (\<open>utils.py\<close>).
    \<^item> \<open>CkptSave\<close> and \<open>CkptLoad\<close>: the planners of \<open>standard_planner.py\<close>.  Local plans, the global plan and the metadata of
      a save; the overlaps, the reads and the copies of a load.
    \<^item> \<open>CkptStore\<close>: what a rank writes into its files and how an item is found again (\<open>filesystem_storage.py\<close>).
    \<^item> \<open>CkptReshard\<close> and \<open>CkptLayouts\<close>: the composition.  A tensor saved by all ranks in one layout is loaded by a rank of any
      other, element for element; the covering of the tensor comes from \<open>ShardRange\<close>.
    \<^item> \<open>CkptTyped\<close>: which items fit the metadata and the chunks a rank needs, and that local plans hold only such items.
    \<^item> \<open>CkptGlobalLoad\<close>: the global load plan, which decides who reads a shard several ranks hold; \<open>CkptBroadcast\<close>: the
      program of reads, starts and waits of a rank (\<open>broadcast.py\<close>, \<open>FileSystemReader.execute_read\<close>); \<open>CkptGroups\<close>: the
      groups that are created and destroyed around it.  \<open>CkptLoadRun\<close> runs the programs of all ranks together: the ranks take steps
      in any order, a broadcast carries the buffers its sender holds at the start, and a wait ends when all of the
      group have started.  \<open>CkptLoadAll\<close> shows that the load ends and is right, because the starts of every rank are its part of
      one common sequence.  The bytes and the dtype of a buffer decide only what travels together and are parameters.

  Loops and bounds.  The redistribution driver and the cycle search are given fuel; enough fuel is a
  lemma of the inputs (the weight of the inference state, the edges of the graph) and the properties say that the result is
  \<open>Some\<close>.  The alignment has the code's own time bound, and what happens when it is reached is part of its property.  The
  iterations of the samplers and the eviction loop are \<open>partial_function (option)\<close>, because a generator or a \<open>while\<close>
  of the code may not end; the properties give \<open>Some\<close>.  Every other loop is structural, or a \<open>fold\<close> or \<open>rfold\<close> over a list.

  Parameters.  What an event answers (pool), what an operator writes and the bytes of a value (offload), the shuffle, the user's index mapping and the length of
  a dataset (sampler), the local tensors and the pickled objects (checkpoints) are arguments of the definitions.  The hypotheses on them are the documented
  ones: a shuffle permutes.

  Where the code fails.  The hypotheses and the case distinctions of the properties mark the cases, and a lemma evaluates each of
  them: a dimension sharded by two mesh axes (\<open>tuple_target_splits_too_early\<close>), a forward send that stands before the
  overlap's own (\<open>late_send_is_overtaken\<close>), a storage written in place between two evictions
  (\<open>second_eviction_reloads_stale_data\<close>, \<open>warmup_reloads_stale_data\<close>) or by an operator on a list (\<open>list_write_not_noted\<close>), a
  copy that ends between the two questions of the pool (\<open>completed_copy_lost\<close>), an aligned schedule cut at the time bound
  (\<open>alignment_drops_backward\<close>), a cyclic checkpoint in a group of another size (\<open>elastic_cyclic_repeats\<close>), an empty dict and an
  integer key in a state dict (\<open>empty_dict_is_lost\<close>, \<open>integer_key_is_not_written\<close>).

  Not modelled.  Everything whose content is tensors, autograd hooks, device streams, process groups, files or processes
  of the framework: the execution of the schedules (\<open>stage.py\<close>), \<open>dtensor.py\<close>, FSDP, optimizers, the orchestration and the file formats of checkpoints,
  kernels, models, the trainer and reinforcement learning; the FX passes, which rewrite objects of a
  library; the automatic parallel search, which is floating-point cost models and a call to a solver.  Logging, string
  forms and caches that change no result are left out.
\<close>

end
